(* ===== verification/Prelude.thy ===== *)
theory Prelude
  imports Main "HOL-Library.Word" "HOL-Library.List_Lexorder" "HOL-Library.Multiset"
begin

unbundle bit_operations_syntax

text \<open>
  Shared vocabulary of the development.

  \<^item> Go's failure modes: \<open>go_err\<close> separates an error return (\<open>Err\<close>) from a
    run-time panic or \<open>log.Fatalf\<close> (\<open>Panic\<close>); a fallible call has type \<open>'a res\<close> and
    is sequenced with \<open>res_bind\<close>.
  \<^item> Go's integers: \<open>int64\<close> and \<open>int32\<close> values are mathematical integers whose
    arithmetic is wrapped by \<open>wrap64\<close> and \<open>wrap32\<close>; \<open>in64\<close> and \<open>in32\<close> are their
    ranges; bytes and \<open>uint64\<close> are words.
  \<^item> Byte strings: \<open>bytes\<close> with the lexicographic order of \<open>bytes.Compare\<close>;
    \<open>bytes.IndexByte\<close>; big-endian representation (\<open>be_bytes\<close>) and its value.
  \<^item> \<open>sort.Search\<close> of the Go standard library, as its binary-search loop.
\<close>

section \<open>Vocabulary\<close>

type_synonym byte = "8 word"
type_synonym bytes = "byte list"
type_synonym uint16 = "16 word"
type_synonym uint32 = "32 word"
type_synonym uint64 = "64 word"

datatype go_err = Err string | Panic string

type_synonym 'a res = "go_err + 'a"

fun res_bind :: "'a res \<Rightarrow> ('a \<Rightarrow> 'b res) \<Rightarrow> 'b res" where
  "res_bind (Inl e) f = Inl e"
| "res_bind (Inr x) f = f x"

fun is_ok :: "'a res \<Rightarrow> bool" where
  "is_ok (Inl e) = False"
| "is_ok (Inr x) = True"

text \<open>Two's complement wrap-around of signed integers, and the ranges of the Go types.\<close>

definition wrap64 :: "int \<Rightarrow> int" where
  "wrap64 k = signed_take_bit 63 k"

definition wrap32 :: "int \<Rightarrow> int" where
  "wrap32 k = signed_take_bit 31 k"

definition MaxInt64 :: int where
  "MaxInt64 = 9223372036854775807"

definition MinInt64 :: int where
  "MinInt64 = -9223372036854775808"

definition MaxInt32 :: int where
  "MaxInt32 = 2147483647"

definition MinInt32 :: int where
  "MinInt32 = -2147483648"

definition in64 :: "int \<Rightarrow> bool" where
  "in64 k \<longleftrightarrow> MinInt64 \<le> k \<and> k \<le> MaxInt64"

definition in32 :: "int \<Rightarrow> bool" where
  "in32 k \<longleftrightarrow> MinInt32 \<le> k \<and> k \<le> MaxInt32"

text \<open>Go's integer division truncates towards zero.\<close>

definition quot :: "int \<Rightarrow> int \<Rightarrow> int" where
  "quot a b = sgn a * sgn b * (\<bar>a\<bar> div \<bar>b\<bar>)"

text \<open>The slice expression \<open>b[k:]\<close>, which panics when \<open>k\<close> is past the end.\<close>

definition slice_from :: "nat \<Rightarrow> 'a list \<Rightarrow> 'a list res" where
  "slice_from k b = (if length b < k then Inl (Panic ''slice bounds out of range'') else Inr (drop k b))"

text \<open>\<open>bytes.Compare\<close>: the three-way lexicographic comparison.\<close>

definition bytes_Compare :: "bytes \<Rightarrow> bytes \<Rightarrow> int" where
  "bytes_Compare a b = (if a < b then -1 else if a = b then 0 else 1)"

text \<open>\<open>bytes.IndexByte\<close>: the first position of a byte (\<open>None\<close> for Go's \<open>-1\<close>).\<close>

fun IndexByte :: "bytes \<Rightarrow> byte \<Rightarrow> nat option" where
  "IndexByte [] c = None"
| "IndexByte (x # xs) c = (if x = c then Some 0 else map_option Suc (IndexByte xs c))"

text \<open>
  \<open>be_bytes n k\<close>: the low \<open>n\<close> bytes of \<open>k\<close>, most significant first, that is
  \<open>byte(k>>8(n-1)), ..., byte(k>>8), byte(k)\<close>. \<open>be_value\<close> reads such a string.
\<close>

fun be_bytes :: "nat \<Rightarrow> int \<Rightarrow> bytes" where
  "be_bytes 0 k = []"
| "be_bytes (Suc n) k = word_of_int (drop_bit (8 * n) k) # be_bytes n k"

definition be_value :: "bytes \<Rightarrow> int" where
  "be_value bs = foldl (\<lambda>v t. 256 * v + uint t) 0 bs"

text \<open>
  \<open>sort.Search(n, f)\<close>: binary search over \<open>[0, n)\<close> for the smallest index at which the
  monotone predicate \<open>f\<close> holds; the loop of the standard library, with its midpoint.
\<close>

function search_loop :: "(nat \<Rightarrow> bool) \<Rightarrow> nat \<Rightarrow> nat \<Rightarrow> nat" where
  "search_loop f i j =
     (if i < j then
        (let h = (i + j) div 2 in
           if \<not> f h then search_loop f (h + 1) j else search_loop f i h)
      else i)"
  by pat_completeness auto
termination
  by (relation "measure (\<lambda>(f, i, j). j - i)") (auto simp: Let_def)

definition sort_Search :: "nat \<Rightarrow> (nat \<Rightarrow> bool) \<Rightarrow> nat" where
  "sort_Search n f = search_loop f 0 n"

declare search_loop.simps [simp del]

text \<open>The contract of \<open>sort.Search\<close> asks the predicate to be upward closed below \<open>n\<close>.\<close>

definition up_closed :: "nat \<Rightarrow> (nat \<Rightarrow> bool) \<Rightarrow> bool" where
  "up_closed n f \<longleftrightarrow> (\<forall>a b. a \<le> b \<longrightarrow> b < n \<longrightarrow> f a \<longrightarrow> f b)"

named_theorems go_arith \<open>ranges and wrap-around of Go integers\<close>
named_theorems res_simps \<open>inversion of fallible computations\<close>

section \<open>Fallible computations\<close>

lemma res_bind_eq_Inr [res_simps]:
  "res_bind m f = Inr y \<longleftrightarrow> (\<exists>x. m = Inr x \<and> f x = Inr y)"
  by (cases m) auto

lemma res_bind_eq_Inl [res_simps]:
  "res_bind m f = Inl e \<longleftrightarrow> m = Inl e \<or> (\<exists>x. m = Inr x \<and> f x = Inl e)"
  by (cases m) auto

lemma res_bind_assoc: "res_bind (res_bind m f) g = res_bind m (\<lambda>x. res_bind (f x) g)"
  by (cases m) auto

lemma is_ok_iff: "is_ok m \<longleftrightarrow> (\<exists>x. m = Inr x)"
  by (cases m) auto

section \<open>Signed integers\<close>

lemmas go_limits = MaxInt64_def MinInt64_def MaxInt32_def MinInt32_def

lemma wrap64_in64 [simp, go_arith]: "in64 (wrap64 k)"
  using signed_take_bit_int_greater_eq_minus_exp [of 63 k]
    signed_take_bit_int_less_exp [of 63 k]
  by (simp add: in64_def wrap64_def go_limits)

lemma wrap32_in32 [simp, go_arith]: "in32 (wrap32 k)"
  using signed_take_bit_int_greater_eq_minus_exp [of 31 k]
    signed_take_bit_int_less_exp [of 31 k]
  by (simp add: in32_def wrap32_def go_limits)

lemma wrap64_id [simp, go_arith]: "in64 k \<Longrightarrow> wrap64 k = k"
  by (simp add: in64_def wrap64_def go_limits signed_take_bit_int_eq_self)

lemma wrap32_id [simp, go_arith]: "in32 k \<Longrightarrow> wrap32 k = k"
  by (simp add: in32_def wrap32_def go_limits signed_take_bit_int_eq_self)

lemma wrap64_add_wrap64 [simp]:
  "wrap64 (wrap64 a + b) = wrap64 (a + b)" "wrap64 (a + wrap64 b) = wrap64 (a + b)"
  unfolding wrap64_def
  by (metis signed_take_bit_add signed_take_bit_signed_take_bit min.idem)+

lemma wrap64_diff_wrap64 [simp]:
  "wrap64 (wrap64 a - b) = wrap64 (a - b)" "wrap64 (a - wrap64 b) = wrap64 (a - b)"
  unfolding wrap64_def
  by (metis signed_take_bit_diff signed_take_bit_signed_take_bit min.idem)+

lemma wrap64_mult_wrap64 [simp]:
  "wrap64 (wrap64 a * b) = wrap64 (a * b)" "wrap64 (a * wrap64 b) = wrap64 (a * b)"
  unfolding wrap64_def
  by (metis signed_take_bit_mult signed_take_bit_signed_take_bit min.idem)+

lemma wrap64_mult_add_wrap64 [simp]: "wrap64 (c * wrap64 a + b) = wrap64 (c * a + b)"
  by (metis wrap64_add_wrap64(1) wrap64_mult_wrap64(2))

lemma NOT_int_eq: "NOT (k :: int) = - k - 1"
  by (simp add: not_int_def)

lemma uint_NOT: "uint (NOT (w :: 'a :: len word)) = 2 ^ LENGTH('a) - 1 - uint w"
proof -
  have "0 \<le> uint w" "uint w < 2 ^ LENGTH('a)" using uint_bounded [of w] by auto
  then have "(- uint w - 1 + 2 ^ LENGTH('a)) mod 2 ^ LENGTH('a) = - uint w - 1 + 2 ^ LENGTH('a)"
    by (intro mod_pos_pos_trivial) linarith+
  then have "(- uint w - 1) mod 2 ^ LENGTH('a) = - uint w - 1 + 2 ^ LENGTH('a)"
    by (simp only: mod_add_self2)
  then show ?thesis by (simp add: unsigned_not_eq NOT_int_eq take_bit_eq_mod)
qed

lemma uint_NOT_byte: "uint (NOT (t :: byte)) = 255 - uint t"
  by (simp add: uint_NOT)

lemma uint_NOT_word64: "uint (NOT (v :: uint64)) = 2 ^ 64 - 1 - uint v"
  by (simp add: uint_NOT)

lemma NOT_less_iff: "NOT a < NOT b \<longleftrightarrow> b < (a :: 'a :: len word)"
  by (simp add: word_less_def uint_NOT)

lemma sint_word64_wrap: "sint (word_of_int k :: uint64) = wrap64 k"
  by (simp add: sint_sbintrunc' wrap64_def)

lemma sint_word32_wrap: "sint (word_of_int k :: uint32) = wrap32 k"
  by (simp add: sint_sbintrunc' wrap32_def)

section \<open>Byte strings\<close>

lemma bytes_Compare_simps [simp]:
  "bytes_Compare a b < 0 \<longleftrightarrow> a < b" "bytes_Compare a b = 0 \<longleftrightarrow> a = b"
  "0 < bytes_Compare a b \<longleftrightarrow> b < a" "bytes_Compare a b \<le> 0 \<longleftrightarrow> a \<le> b"
  "0 \<le> bytes_Compare a b \<longleftrightarrow> b \<le> a"
  by (auto simp: bytes_Compare_def not_less)

lemma append_less_append_iff [simp]: "xs @ ys < xs @ zs \<longleftrightarrow> ys < (zs :: 'a :: linorder list)"
  by (induction xs) auto

lemma less_append_left: "length xs = length ys \<Longrightarrow> xs < ys \<Longrightarrow> xs @ us < ys @ (vs :: 'a :: linorder list)"
  by (induction xs ys rule: list_induct2) auto

lemma append_less_iff:
  "length xs = length ys \<Longrightarrow>
   xs @ us < ys @ vs \<longleftrightarrow> xs < ys \<or> xs = ys \<and> us < (vs :: 'a :: linorder list)"
  by (induction xs ys rule: list_induct2) auto

lemma prefix_less_append: "ys \<noteq> [] \<Longrightarrow> xs < xs @ (ys :: 'a :: linorder list)"
  by (induction xs) (auto simp: neq_Nil_conv)

lemma IndexByte_None_iff: "IndexByte xs c = None \<longleftrightarrow> c \<notin> set xs"
  by (induction xs) auto

lemma IndexByte_append [simp]: "c \<notin> set xs \<Longrightarrow> IndexByte (xs @ c # ys) c = Some (length xs)"
  by (induction xs) auto

lemma IndexByte_SomeD:
  "IndexByte xs c = Some i \<Longrightarrow>
   i < length xs \<and> xs ! i = c \<and> c \<notin> set (take i xs) \<and> xs = take i xs @ c # drop (Suc i) xs"
  by (induction xs arbitrary: i) (auto split: if_splits)

section \<open>Big-endian strings\<close>

lemma length_be_bytes [simp]: "length (be_bytes n k) = n"
  by (induction n) auto

lemma be_value_snoc [simp]: "be_value (bs @ [t]) = 256 * be_value bs + uint t"
  by (simp add: be_value_def)

lemma be_value_Nil [simp]: "be_value [] = 0"
  by (simp add: be_value_def)

lemma be_value_append: "be_value (as @ bs) = 256 ^ length bs * be_value as + be_value bs"
proof (induction bs rule: rev_induct)
  case (snoc t bs)
  then have "be_value ((as @ bs) @ [t]) = 256 ^ length (bs @ [t]) * be_value as + be_value (bs @ [t])"
    unfolding be_value_snoc by (simp add: algebra_simps)
  then show ?case by simp
qed simp

lemma be_value_Cons: "be_value (t # bs) = 256 ^ length bs * uint t + be_value bs"
  using be_value_append [of "[t]" bs] be_value_snoc [of "[]" t] by simp

lemma be_value_bounds: "0 \<le> be_value bs \<and> be_value bs < 256 ^ length bs"
proof (induction bs rule: rev_induct)
  case (snoc t bs)
  have "uint t < 256" using uint_bounded [of t] by simp
  with snoc show ?case by simp
qed simp

lemma be_bytes_Suc_snoc: "be_bytes (Suc n) k = be_bytes n (drop_bit 8 k) @ [word_of_int k]"
proof (induction n)
  case (Suc n)
  have "drop_bit (8 * Suc n) k = drop_bit (8 * n) (drop_bit 8 k)"
    by (simp add: drop_bit_drop_bit ac_simps)
  with Suc show ?case by simp
qed simp

lemma be_value_be_bytes: "be_value (be_bytes n k) = take_bit (8 * n) k"
proof (induction n)
  case (Suc n)
  have "uint (word_of_int (drop_bit (8 * n) k) :: byte) = take_bit 8 (drop_bit (8 * n) k)"
    by (simp add: uint_word_of_int_eq)
  moreover have "take_bit (8 + 8 * n) k = 2 ^ (8 * n) * take_bit 8 (drop_bit (8 * n) k) + take_bit (8 * n) k"
    unfolding take_bit_eq_mod drop_bit_eq_div add.commute [of 8 "8 * n"] power_add
    by (rule zmod_zmult2_eq) simp
  ultimately show ?case using Suc by (simp add: be_value_Cons power_mult)
qed simp

lemma be_value_inj: "length as = length bs \<Longrightarrow> be_value as = be_value bs \<Longrightarrow> as = bs"
proof (induction as arbitrary: bs rule: rev_induct)
  case (snoc t as)
  from snoc.prems(1) obtain u cs where bs: "bs = cs @ [u]" "length as = length cs"
    by (cases bs rule: rev_cases) auto
  have digits: "256 * a + c = 256 * b + d \<Longrightarrow> 0 \<le> c \<Longrightarrow> c < 256 \<Longrightarrow> 0 \<le> d \<Longrightarrow> d < 256 \<Longrightarrow> a = b \<and> c = d"
    for a b c d :: int
  proof -
    assume *: "256 * a + c = 256 * b + d" "0 \<le> c" "c < 256" "0 \<le> d" "d < 256"
    then have "a = b" by linarith
    with * show "a = b \<and> c = d" by simp
  qed
  have "uint t < 256" "uint u < 256" using uint_bounded [of t] uint_bounded [of u] by auto
  with snoc.prems(2) bs have "be_value as = be_value cs \<and> uint t = uint u"
    by (intro digits) simp_all
  with snoc.IH bs show ?case by (auto simp: word_uint_eq_iff)
qed simp

lemma be_value_less_iff:
  "length as = length bs \<Longrightarrow> as < bs \<longleftrightarrow> be_value as < be_value bs"
proof (induction as bs rule: list_induct2)
  case (Cons x xs y ys)
  have b: "0 \<le> be_value xs" "be_value xs < 256 ^ length xs"
    "0 \<le> be_value ys" "be_value ys < 256 ^ length xs"
    using be_value_bounds [of xs] be_value_bounds [of ys] Cons(1) by auto
  consider "uint x < uint y" | "uint x = uint y" | "uint y < uint x" by linarith
  then show ?case
  proof cases
    case 1
    then have "256 ^ length xs * (uint x + 1) \<le> 256 ^ length xs * uint y" by simp
    with 1 b Cons(1) show ?thesis
      by (simp add: be_value_Cons word_less_def algebra_simps)
  next
    case 2
    then have "x = y" by (simp add: word_uint_eq_iff)
    with Cons show ?thesis by (simp add: be_value_Cons)
  next
    case 3
    then have "256 ^ length xs * (uint y + 1) \<le> 256 ^ length xs * uint x" by simp
    with 3 b Cons(1) show ?thesis
      by (auto simp add: be_value_Cons word_less_def algebra_simps)
  qed
qed simp

lemma be_bytes_less_iff:
  "take_bit (8 * n) a = a \<Longrightarrow> take_bit (8 * n) b = b \<Longrightarrow> be_bytes n a < be_bytes n b \<longleftrightarrow> a < b"
  by (simp add: be_value_less_iff be_value_be_bytes)

section \<open>Binary search\<close>

lemma up_closedD: "up_closed n f \<Longrightarrow> a \<le> b \<Longrightarrow> b < n \<Longrightarrow> f a \<Longrightarrow> f b"
  by (simp add: up_closed_def)

lemma search_loop_step:
  "i < j \<Longrightarrow> search_loop f i j =
     (if f ((i + j) div 2) then search_loop f i ((i + j) div 2)
      else search_loop f ((i + j) div 2 + 1) j)"
  by (subst search_loop.simps) (simp add: Let_def)

lemma search_loop_done: "\<not> i < j \<Longrightarrow> search_loop f i j = i"
  by (subst search_loop.simps) simp

lemma search_loop_least:
  assumes "up_closed n f" and "i \<le> j" and "j \<le> n"
    and "\<forall>k < i. \<not> f k" and "\<forall>k. j \<le> k \<and> k < n \<longrightarrow> f k"
  shows "search_loop f i j \<le> n \<and> (\<forall>k < search_loop f i j. \<not> f k) \<and>
         (\<forall>k. search_loop f i j \<le> k \<and> k < n \<longrightarrow> f k)"
  using assms
proof (induction "j - i" arbitrary: i j rule: less_induct)
  case less
  define h where "h = (i + j) div 2"
  show ?case
  proof (cases "i < j")
    case False
    with less.prems show ?thesis by (auto simp: search_loop_done)
  next
    case ij: True
    then have h: "i \<le> h" "h < j" by (simp_all add: h_def)
    show ?thesis
    proof (cases "f h")
      case True
      then have up: "\<forall>k. h \<le> k \<and> k < n \<longrightarrow> f k"
        using less.prems(1) by (blast intro: up_closedD)
      have "h - i < j - i" "i \<le> h" "h \<le> n" using h less.prems(3) by simp_all
      note IH = less.hyps [OF this(1) less.prems(1) this(2,3) less.prems(4) up]
      have "search_loop f i j = search_loop f i h"
        using ij True by (simp only: search_loop_step h_def if_True)
      with IH show ?thesis by metis
    next
      case False
      have "h < n" using h less.prems(3) by simp
      then have low: "\<forall>k < h + 1. \<not> f k"
        using up_closedD [OF less.prems(1), of _ h] False by (metis Suc_eq_plus1 less_Suc_eq_le)
      have "j - (h + 1) < j - i" "h + 1 \<le> j" using h by simp_all
      note IH = less.hyps [OF this(1) less.prems(1) this(2) less.prems(3) low less.prems(5)]
      have "search_loop f i j = search_loop f (h + 1) j"
        using ij False by (simp only: search_loop_step h_def if_False)
      with IH show ?thesis by metis
    qed
  qed
qed

lemma sort_Search_least:
  assumes "up_closed n f"
  shows "sort_Search n f \<le> n" and "k < sort_Search n f \<Longrightarrow> \<not> f k"
    and "sort_Search n f \<le> k \<Longrightarrow> k < n \<Longrightarrow> f k"
proof -
  have "search_loop f 0 n \<le> n \<and> (\<forall>k < search_loop f 0 n. \<not> f k) \<and>
         (\<forall>k. search_loop f 0 n \<le> k \<and> k < n \<longrightarrow> f k)"
    by (rule search_loop_least [OF assms]) auto
  then show "sort_Search n f \<le> n" and "k < sort_Search n f \<Longrightarrow> \<not> f k"
    and "sort_Search n f \<le> k \<Longrightarrow> k < n \<Longrightarrow> f k"
    unfolding sort_Search_def by blast+
qed

text \<open>Along a list on which a property, once it holds, keeps holding, \<open>sort.Search\<close> splits the list into
  the elements without and with the property.\<close>

lemma sort_Search_split:
  assumes "sorted_wrt (\<lambda>a b. P a \<longrightarrow> P b) xs"
  defines "k \<equiv> sort_Search (length xs) (\<lambda>i. P (xs ! i))"
  shows "k \<le> length xs" "take k xs = filter (\<lambda>x. \<not> P x) xs" "drop k xs = filter P xs"
proof -
  have up: "up_closed (length xs) (\<lambda>i. P (xs ! i))"
    unfolding up_closed_def using assms(1) by (metis le_neq_implies_less sorted_wrt_iff_nth_less)
  note L = sort_Search_least [OF up, folded k_def]
  show le: "k \<le> length xs" by (rule L(1))
  have "\<forall>x \<in> set (take k xs). \<not> P x" using L(2) le by (auto simp: in_set_conv_nth)
  moreover have "\<forall>x \<in> set (drop k xs). P x" using L(3) le by (auto simp: in_set_conv_nth)
  ultimately have "filter P (take k xs) = []" "filter (\<lambda>x. \<not> P x) (take k xs) = take k xs"
      "filter P (drop k xs) = drop k xs" "filter (\<lambda>x. \<not> P x) (drop k xs) = []"
    by (simp_all add: filter_empty_conv)
  then show "take k xs = filter (\<lambda>x. \<not> P x) xs" "drop k xs = filter P xs"
    by (metis append_Nil append_Nil2 append_take_drop_id filter_append)+
qed

section \<open>Sorted sets\<close>

lemma sorted_list_of_set_image:
  assumes fin: "finite (f ` S)" and mono: "\<And>a b. (f a :: 'b :: linorder) < f b \<longleftrightarrow> a < (b :: 'a :: linorder)"
  shows "sorted_list_of_set (f ` S) = map f (sorted_list_of_set S)"
proof (rule strict_sorted_equal)
  have "inj_on f S" using mono by (metis inj_onI less_irrefl linorder_neqE)
  then have "finite S" using fin finite_imageD by blast
  then show "set (sorted_list_of_set (f ` S)) = set (map f (sorted_list_of_set S))" using fin by simp
  show "sorted_wrt (<) (map f (sorted_list_of_set S))"
    using strict_sorted_list_of_set [of S] by (simp add: sorted_wrt_map mono)
qed simp

end
