(* ===== verification/Key_Codec.thy ===== *)
theory Key_Codec
  imports Prelude
begin

text \<open>
  The contract every ordered key encoding of \<open>pkg/util/encoding\<close> promises: decoding
  an encoded value followed by anything returns the value and what follows, and a smaller value
  (in the direction of the encoding) gives a smaller byte string, whatever follows. Keys of an
  index are concatenations of such encodings, so the contract is closed under pairing; the
  lemmas proved here once hold for every encoding interpreted later.
\<close>

locale key_codec =
  fixes enc :: "'v \<Rightarrow> bytes"
    and dec :: "bytes \<Rightarrow> (bytes \<times> 'v) res"
    and valid :: "'v \<Rightarrow> bool"
    and before :: "'v \<Rightarrow> 'v \<Rightarrow> bool"
  assumes roundtrip: "valid v \<Longrightarrow> dec (enc v @ rest) = Inr (rest, v)"
    and ordered: "valid a \<Longrightarrow> valid b \<Longrightarrow> before a b \<Longrightarrow> enc a @ x < enc b @ y"
    and total: "valid a \<Longrightarrow> valid b \<Longrightarrow> a = b \<or> before a b \<or> before b a"
begin

lemma prefix_free: "valid a \<Longrightarrow> valid b \<Longrightarrow> enc a @ x = enc b @ y \<Longrightarrow> a = b \<and> x = y"
  by (metis roundtrip Inr_inject prod.inject)

lemma inj: "valid a \<Longrightarrow> valid b \<Longrightarrow> enc a = enc b \<longleftrightarrow> a = b"
  using prefix_free [of a b "[]" "[]"] by auto

lemma irreflexive: "valid a \<Longrightarrow> \<not> before a a"
  using ordered [of a a "[]" "[]"] by auto

lemma asymmetric: "valid a \<Longrightarrow> valid b \<Longrightarrow> before a b \<Longrightarrow> \<not> before b a"
  using ordered [of a b "[]" "[]"] ordered [of b a "[]" "[]"] by auto

lemma order_iff_append:
  "valid a \<Longrightarrow> valid b \<Longrightarrow> enc a @ x < enc b @ y \<longleftrightarrow> before a b \<or> a = b \<and> x < y"
  by (metis total ordered irreflexive append_less_append_iff less_asym)

lemma order_iff: "valid a \<Longrightarrow> valid b \<Longrightarrow> enc a < enc b \<longleftrightarrow> before a b"
  using order_iff_append [of a b "[]" "[]"] by simp

end

text \<open>Decoding two values in sequence, as the decoders of composite keys do.\<close>

definition dec_pair ::
  "(bytes \<Rightarrow> (bytes \<times> 'a) res) \<Rightarrow> (bytes \<Rightarrow> (bytes \<times> 'b) res) \<Rightarrow> bytes \<Rightarrow> (bytes \<times> 'a \<times> 'b) res" where
  "dec_pair d1 d2 b =
     res_bind (d1 b) (\<lambda>(b1, x). res_bind (d2 b1) (\<lambda>(b2, y). Inr (b2, x, y)))"

definition lex_before :: "('a \<Rightarrow> 'a \<Rightarrow> bool) \<Rightarrow> ('b \<Rightarrow> 'b \<Rightarrow> bool) \<Rightarrow> 'a \<times> 'b \<Rightarrow> 'a \<times> 'b \<Rightarrow> bool" where
  "lex_before lt1 lt2 p q \<longleftrightarrow> lt1 (fst p) (fst q) \<or> fst p = fst q \<and> lt2 (snd p) (snd q)"

locale key_codec_pair =
  fst: key_codec enc1 dec1 valid1 before1 + snd: key_codec enc2 dec2 valid2 before2
  for enc1 :: "'a \<Rightarrow> bytes" and dec1 valid1 before1
    and enc2 :: "'b \<Rightarrow> bytes" and dec2 valid2 before2

sublocale key_codec_pair \<subseteq> pair: key_codec
  "\<lambda>(a, b). enc1 a @ enc2 b" "dec_pair dec1 dec2" "\<lambda>(a, b). valid1 a \<and> valid2 b"
  "lex_before before1 before2"
proof unfold_locales
  fix v :: "'a \<times> 'b" and rest
  assume "case v of (a, b) \<Rightarrow> valid1 a \<and> valid2 b"
  then show "dec_pair dec1 dec2 ((case v of (a, b) \<Rightarrow> enc1 a @ enc2 b) @ rest) = Inr (rest, v)"
    by (cases v) (simp add: dec_pair_def fst.roundtrip snd.roundtrip)
next
  fix a b :: "'a \<times> 'b" and x y
  assume "case a of (a, b) \<Rightarrow> valid1 a \<and> valid2 b" "case b of (a, b) \<Rightarrow> valid1 a \<and> valid2 b"
    and "lex_before before1 before2 a b"
  then show "(case a of (a, b) \<Rightarrow> enc1 a @ enc2 b) @ x < (case b of (a, b) \<Rightarrow> enc1 a @ enc2 b) @ y"
    by (cases a; cases b) (auto simp: lex_before_def fst.ordered snd.ordered)
next
  fix a b :: "'a \<times> 'b"
  assume "case a of (a, b) \<Rightarrow> valid1 a \<and> valid2 b" "case b of (a, b) \<Rightarrow> valid1 a \<and> valid2 b"
  then show "a = b \<or> lex_before before1 before2 a b \<or> lex_before before1 before2 b a"
    using fst.total snd.total by (cases a; cases b) (fastforce simp: lex_before_def)
qed

end
