(* ===== verification/Encoding_Int.thy ===== *)
theory Encoding_Int
  imports Key_Codec
begin

text \<open>
  The ordered integer encodings of \<open>pkg/util/encoding/encoding.go\<close>: fixed-width
  big-endian unsigned integers, and the length-prefixed varints and uvarints in both directions,
  with their decoders and length functions. A buffer is the list of its bytes; an encoder appends
  to the buffer it is given; a decoder returns the remaining buffer and the value. \<open>int64\<close>
  values are integers in the range \<open>in64\<close>, \<open>uint64\<close> values are 64-bit words.
\<close>

unbundle bit_operations_syntax

section \<open>Constants\<close>

definition IntMin :: int where
  "IntMin = 128"

definition intMaxWidth :: int where
  "intMaxWidth = 8"

definition intZero :: int where
  "intZero = IntMin + intMaxWidth"

definition IntMax :: int where
  "IntMax = 253"

definition intSmall :: int where
  "intSmall = IntMax - intZero - intMaxWidth"

section \<open>Fixed-width unsigned integers\<close>

definition EncodeUint16Ascending :: "bytes \<Rightarrow> uint16 \<Rightarrow> bytes" where
  "EncodeUint16Ascending b v = b @ [ucast (drop_bit 8 v), ucast v]"

definition PutUint16Ascending :: "bytes \<Rightarrow> uint16 \<Rightarrow> int \<Rightarrow> bytes res" where
  "PutUint16Ascending b v idx =
     (if idx < 0 then Inl (Panic ''index out of range'') else
      let i = nat idx;
          b' = b @ replicate (i + 2 - length b) 0
      in Inr (b'[i := ucast (drop_bit 8 v), i + 1 := ucast v]))"

definition EncodeUint32Ascending :: "bytes \<Rightarrow> uint32 \<Rightarrow> bytes" where
  "EncodeUint32Ascending b v =
     b @ [ucast (drop_bit 24 v), ucast (drop_bit 16 v), ucast (drop_bit 8 v), ucast v]"

definition PutUint32Ascending :: "bytes \<Rightarrow> uint32 \<Rightarrow> int \<Rightarrow> bytes res" where
  "PutUint32Ascending b v idx =
     (if idx < 0 then Inl (Panic ''index out of range'') else
      let i = nat idx;
          b' = b @ replicate (i + 4 - length b) 0
      in Inr (b'[i := ucast (drop_bit 24 v), i + 1 := ucast (drop_bit 16 v),
                 i + 2 := ucast (drop_bit 8 v), i + 3 := ucast v]))"

definition EncodeUint32Descending :: "bytes \<Rightarrow> uint32 \<Rightarrow> bytes" where
  "EncodeUint32Descending b v = EncodeUint32Ascending b (NOT v)"

definition DecodeUint16Ascending :: "bytes \<Rightarrow> (bytes \<times> uint16) res" where
  "DecodeUint16Ascending b =
     (if length b < 2 then Inl (Err ''insufficient bytes to decode uint16 int value'')
      else Inr (drop 2 b, word_of_int (be_value (take 2 b))))"

definition DecodeUint32Ascending :: "bytes \<Rightarrow> (bytes \<times> uint32) res" where
  "DecodeUint32Ascending b =
     (if length b < 4 then Inl (Err ''insufficient bytes to decode uint32 int value'')
      else Inr (drop 4 b, word_of_int (be_value (take 4 b))))"

definition DecodeUint32Descending :: "bytes \<Rightarrow> (bytes \<times> uint32) res" where
  "DecodeUint32Descending b =
     res_bind (DecodeUint32Ascending b) (\<lambda>(leftover, v). Inr (leftover, NOT v))"

definition EncodeUint64Ascending :: "bytes \<Rightarrow> uint64 \<Rightarrow> bytes" where
  "EncodeUint64Ascending b v =
     b @ [ucast (drop_bit 56 v), ucast (drop_bit 48 v), ucast (drop_bit 40 v), ucast (drop_bit 32 v),
          ucast (drop_bit 24 v), ucast (drop_bit 16 v), ucast (drop_bit 8 v), ucast v]"

definition EncodeUint64Descending :: "bytes \<Rightarrow> uint64 \<Rightarrow> bytes" where
  "EncodeUint64Descending b v = EncodeUint64Ascending b (NOT v)"

definition DecodeUint64Ascending :: "bytes \<Rightarrow> (bytes \<times> uint64) res" where
  "DecodeUint64Ascending b =
     (if length b < 8 then Inl (Err ''insufficient bytes to decode uint64 int value'')
      else Inr (drop 8 b, word_of_int (be_value (take 8 b))))"

definition DecodeUint64Descending :: "bytes \<Rightarrow> (bytes \<times> uint64) res" where
  "DecodeUint64Descending b =
     res_bind (DecodeUint64Ascending b) (\<lambda>(leftover, v). Inr (leftover, NOT v))"

section \<open>Variable-length integers\<close>

text \<open>
  The branches append a tag byte and the low bytes of the value, most significant first:
  \<open>append(b, IntMax-6, byte(v>>8), byte(v))\<close> is \<open>tagged b (IntMax - 6) 2 v\<close>.
\<close>

definition tag_byte :: "int \<Rightarrow> byte" where
  "tag_byte k = word_of_int k"

definition tagged :: "bytes \<Rightarrow> int \<Rightarrow> nat \<Rightarrow> int \<Rightarrow> bytes" where
  "tagged b tag n v = b @ tag_byte tag # be_bytes n v"

definition EncodeUvarintAscending :: "bytes \<Rightarrow> uint64 \<Rightarrow> bytes" where
  "EncodeUvarintAscending b v =
     (if uint v \<le> intSmall then b @ [tag_byte intZero + ucast v]
      else if v \<le> 0xff then tagged b (IntMax - 7) 1 (uint v)
      else if v \<le> 0xffff then tagged b (IntMax - 6) 2 (uint v)
      else if v \<le> 0xffffff then tagged b (IntMax - 5) 3 (uint v)
      else if v \<le> 0xffffffff then tagged b (IntMax - 4) 4 (uint v)
      else if v \<le> 0xffffffffff then tagged b (IntMax - 3) 5 (uint v)
      else if v \<le> 0xffffffffffff then tagged b (IntMax - 2) 6 (uint v)
      else if v \<le> 0xffffffffffffff then tagged b (IntMax - 1) 7 (uint v)
      else tagged b IntMax 8 (uint v))"

definition EncodedLengthUvarintAscending :: "uint64 \<Rightarrow> int" where
  "EncodedLengthUvarintAscending v =
     (if uint v \<le> intSmall then 1
      else if v \<le> 0xff then 2
      else if v \<le> 0xffff then 3
      else if v \<le> 0xffffff then 4
      else if v \<le> 0xffffffff then 5
      else if v \<le> 0xffffffffff then 6
      else if v \<le> 0xffffffffffff then 7
      else if v \<le> 0xffffffffffffff then 8
      else 9)"

definition EncodeUvarintDescending :: "bytes \<Rightarrow> uint64 \<Rightarrow> bytes" where
  "EncodeUvarintDescending b v =
     (if v = 0 then b @ [tag_byte (IntMin + 8)]
      else if v \<le> 0xff then tagged b (IntMin + 7) 1 (uint (NOT v))
      else if v \<le> 0xffff then tagged b (IntMin + 6) 2 (uint (NOT v))
      else if v \<le> 0xffffff then tagged b (IntMin + 5) 3 (uint (NOT v))
      else if v \<le> 0xffffffff then tagged b (IntMin + 4) 4 (uint (NOT v))
      else if v \<le> 0xffffffffff then tagged b (IntMin + 3) 5 (uint (NOT v))
      else if v \<le> 0xffffffffffff then tagged b (IntMin + 2) 6 (uint (NOT v))
      else if v \<le> 0xffffffffffffff then tagged b (IntMin + 1) 7 (uint (NOT v))
      else tagged b IntMin 8 (uint (NOT v)))"

definition EncodeVarintAscending :: "bytes \<Rightarrow> int \<Rightarrow> bytes" where
  "EncodeVarintAscending b v =
     (if v < 0 then
        (if v \<ge> -0xff then tagged b (IntMin + 7) 1 v
         else if v \<ge> -0xffff then tagged b (IntMin + 6) 2 v
         else if v \<ge> -0xffffff then tagged b (IntMin + 5) 3 v
         else if v \<ge> -0xffffffff then tagged b (IntMin + 4) 4 v
         else if v \<ge> -0xffffffffff then tagged b (IntMin + 3) 5 v
         else if v \<ge> -0xffffffffffff then tagged b (IntMin + 2) 6 v
         else if v \<ge> -0xffffffffffffff then tagged b (IntMin + 1) 7 v
         else tagged b IntMin 8 v)
      else EncodeUvarintAscending b (word_of_int v))"

definition EncodeVarintDescending :: "bytes \<Rightarrow> int \<Rightarrow> bytes" where
  "EncodeVarintDescending b v = EncodeVarintAscending b (NOT v)"

fun getVarintLen :: "bytes \<Rightarrow> int res" where
  "getVarintLen [] = Inl (Panic ''index out of range'')"
| "getVarintLen (t # rem) =
     (let len = uint t - intZero in
      if 0 \<le> len \<and> len \<le> intSmall then Inr 1
      else
        (let n = (if 0 \<le> len then 1 + len - intSmall else 1 - len) in
         if n > int (length (t # rem)) then Inl (Err ''varint length exceeds slice length'')
         else Inr n))"

text \<open>
  The decoding loops: \<open>v = (v << 8) | uint64(t)\<close> over \<open>uint64\<close>, and the
  complemented loop of the negative varints over \<open>int64\<close>.
\<close>

definition uint64_of :: "bytes \<Rightarrow> uint64" where
  "uint64_of bs = foldl (\<lambda>v t. push_bit 8 v OR ucast t) 0 bs"

definition int64_of_complement :: "bytes \<Rightarrow> int" where
  "int64_of_complement bs = foldl (\<lambda>v t. wrap64 (push_bit 8 v OR uint (NOT t))) 0 bs"

fun DecodeUvarintAscending :: "bytes \<Rightarrow> (bytes \<times> uint64) res" where
  "DecodeUvarintAscending [] = Inl (Err ''insufficient bytes to decode uvarint value'')"
| "DecodeUvarintAscending (t # b) =
     (let len = uint t - intZero in
      if len \<le> intSmall then Inr (b, word_of_int len)
      else
        (let n = len - intSmall in
         if n < 0 \<or> n > 8 then Inl (Err ''invalid uvarint length'')
         else if int (length b) < n then Inl (Err ''insufficient bytes to decode uvarint value'')
         else Inr (drop (nat n) b, uint64_of (take (nat n) b))))"

fun GetUvarintLen :: "bytes \<Rightarrow> int res" where
  "GetUvarintLen [] = Inl (Err ''insufficient bytes to decode uvarint value'')"
| "GetUvarintLen (t # rem) =
     (let len = uint t - intZero in
      if len \<le> intSmall then Inr 1
      else
        (let n = len - intSmall in
         if n < 0 \<or> n > 8 then Inl (Err ''invalid uvarint length'')
         else if int (length (t # rem)) \<le> n
           then Inl (Err ''insufficient bytes to decode uvarint value'')
         else Inr (1 + n)))"

fun DecodeUvarintDescending :: "bytes \<Rightarrow> (bytes \<times> uint64) res" where
  "DecodeUvarintDescending [] = Inl (Err ''insufficient bytes to decode uvarint value'')"
| "DecodeUvarintDescending (t # b) =
     (let n = intZero - uint t in
      if n < 0 \<or> n > 8 then Inl (Err ''invalid uvarint length'')
      else if int (length b) < n then Inl (Err ''insufficient bytes to decode uvarint value'')
      else Inr (drop (nat n) b, uint64_of (map NOT (take (nat n) b))))"

fun DecodeVarintAscending :: "bytes \<Rightarrow> (bytes \<times> int) res" where
  "DecodeVarintAscending [] = Inl (Err ''insufficient bytes to decode varint value'')"
| "DecodeVarintAscending (t # remB) =
     (let len = uint t - intZero in
      if len < 0 then
        (let n = nat (- len) in
         if length remB < n then Inl (Err ''insufficient bytes to decode varint value'')
         else Inr (drop n remB, NOT (int64_of_complement (take n remB))))
      else
        res_bind (DecodeUvarintAscending (t # remB)) (\<lambda>(remB', v).
          if uint v > MaxInt64 then Inl (Err ''varint overflows int64'')
          else Inr (remB', uint v)))"

definition DecodeVarintDescending :: "bytes \<Rightarrow> (bytes \<times> int) res" where
  "DecodeVarintDescending b =
     res_bind (DecodeVarintAscending b) (\<lambda>(leftover, v). Inr (leftover, NOT v))"

definition highestByteIndex :: "uint64 \<Rightarrow> int" where
  "highestByteIndex v =
     (let (v1, l1) = (if v > 0xffffffff then (drop_bit 32 v, 4) else (v, 0));
          (v2, l2) = (if v1 > 0xffff then (drop_bit 16 v1, l1 + 2) else (v1, l1))
      in if v2 > 0xff then l2 + 1 else l2)"

definition EncLenUvarintAscending :: "uint64 \<Rightarrow> int" where
  "EncLenUvarintAscending v = (if uint v \<le> intSmall then 1 else 2 + highestByteIndex v)"

definition EncLenUvarintDescending :: "uint64 \<Rightarrow> int" where
  "EncLenUvarintDescending v = (if v = 0 then 1 else 2 + highestByteIndex v)"

section \<open>The decoding loops\<close>

lemma shift_or_byte_int: "push_bit 8 (k :: int) OR uint (t :: byte) = 256 * k + uint t"
proof -
  have "push_bit 8 k OR uint t = push_bit 8 k + uint t"
    by (rule disjunctive_add [symmetric]) (auto simp: bit_push_bit_iff bit_uint_iff)
  then show ?thesis by (simp add: push_bit_eq_mult)
qed

lemma shift_or_byte_word: "push_bit 8 (w :: uint64) OR ucast (t :: byte) = 256 * w + ucast t"
proof -
  have "push_bit 8 w OR ucast t = push_bit 8 w + (ucast t :: uint64)"
    by (rule disjunctive_add [symmetric])
      (auto simp: bit_push_bit_iff bit_ucast_iff dest: bit_imp_le_length)
  then show ?thesis by (simp add: push_bit_eq_mult)
qed

lemma uint64_of_eq: "uint64_of bs = word_of_int (be_value bs)"
proof (induction bs rule: rev_induct)
  case Nil
  show ?case by (simp add: uint64_of_def)
next
  case (snoc t bs)
  have "uint64_of (bs @ [t]) = 256 * uint64_of bs + ucast t"
    by (simp add: uint64_of_def shift_or_byte_word)
  moreover have "(ucast t :: uint64) = word_of_int (uint t)" by simp
  ultimately show ?case by (simp only: snoc be_value_snoc of_int_add of_int_mult of_int_numeral)
qed

lemma be_value_map_NOT: "be_value (map NOT bs) = 256 ^ length bs - 1 - be_value bs"
proof (induction bs rule: rev_induct)
  case (snoc t bs)
  then show ?case by (simp add: uint_NOT_byte)
qed simp

lemma int64_of_complement_eq: "int64_of_complement bs = wrap64 (be_value (map NOT bs))"
proof (induction bs rule: rev_induct)
  case Nil
  show ?case by (simp add: int64_of_complement_def wrap64_def)
next
  case (snoc t bs)
  have "int64_of_complement (bs @ [t]) = wrap64 (256 * int64_of_complement bs + uint (NOT t))"
    by (simp add: int64_of_complement_def shift_or_byte_int)
  then show ?case by (simp add: snoc)
qed

section \<open>Tags and lengths\<close>

text \<open>
  The values a branch with \<open>n\<close> payload bytes handles: at least \<open>low lo n\<close> (the first branch
  starts at \<open>lo\<close>) and below \<open>256 ^ n\<close>.
\<close>

definition low :: "int \<Rightarrow> nat \<Rightarrow> int" where
  "low lo n = (if n = 1 then lo else 256 ^ (n - 1))"

lemma low_mono: "lo \<le> 256 \<Longrightarrow> 1 \<le> m \<Longrightarrow> m < n \<Longrightarrow> 256 ^ m \<le> low lo n"
  by (auto simp: low_def intro: power_increasing)

lemma low_ge: "1 \<le> n \<Longrightarrow> lo \<le> 256 \<Longrightarrow> lo \<le> low lo n"
  using self_le_power [of "256 :: int" "n - 1"] by (auto simp: low_def)

lemmas int_tags = IntMin_def IntMax_def intZero_def intMaxWidth_def intSmall_def

lemma uint_tag: "0 \<le> k \<Longrightarrow> k < 256 \<Longrightarrow> uint (tag_byte k) = k"
  by (simp add: tag_byte_def uint_word_of_int)

lemma tag_byte_add: "tag_byte k + ucast (v :: uint64) = tag_byte (k + uint v)"
  by (simp add: tag_byte_def)

lemma length_tagged [simp]: "length (tagged b t n k) = length b + 1 + n"
  by (simp add: tagged_def)

lemma EncodeUvarintAscending_cases:
  obtains (small) "uint v \<le> 109" "\<And>b. EncodeUvarintAscending b v = b @ [tag_byte (136 + uint v)]"
    "EncodedLengthUvarintAscending v = 1"
  | (big) n where "1 \<le> n" "n \<le> 8" "low 110 n \<le> uint v" "uint v < 256 ^ n"
    "\<And>b. EncodeUvarintAscending b v = tagged b (245 + int n) n (uint v)"
    "EncodedLengthUvarintAscending v = 1 + int n"
proof -
  have top: "uint v < 2 ^ 64" using uint_bounded [of v] by simp
  note defs = EncodeUvarintAscending_def EncodedLengthUvarintAscending_def int_tags low_def word_le_def tag_byte_add
  consider "uint v \<le> 109" | "109 < uint v \<and> uint v \<le> 0xff" | "0xff < uint v \<and> uint v \<le> 0xffff"
    | "0xffff < uint v \<and> uint v \<le> 0xffffff" | "0xffffff < uint v \<and> uint v \<le> 0xffffffff"
    | "0xffffffff < uint v \<and> uint v \<le> 0xffffffffff"
    | "0xffffffffff < uint v \<and> uint v \<le> 0xffffffffffff"
    | "0xffffffffffff < uint v \<and> uint v \<le> 0xffffffffffffff" | "0xffffffffffffff < uint v"
    by linarith
  then show thesis
  proof cases
    case 1 then show thesis by (intro small) (simp_all add: defs)
  next
    case 2 then show thesis by (intro big [of 1]) (simp_all add: defs)
  next
    case 3 then show thesis by (intro big [of 2]) (simp_all add: defs)
  next
    case 4 then show thesis by (intro big [of 3]) (simp_all add: defs)
  next
    case 5 then show thesis by (intro big [of 4]) (simp_all add: defs)
  next
    case 6 then show thesis by (intro big [of 5]) (simp_all add: defs)
  next
    case 7 then show thesis by (intro big [of 6]) (simp_all add: defs)
  next
    case 8 then show thesis by (intro big [of 7]) (simp_all add: defs)
  next
    case 9 with top show thesis by (intro big [of 8]) (simp_all add: defs)
  qed
qed

lemma EncodeUvarintDescending_cases:
  obtains (zero) "v = 0" "\<And>b. EncodeUvarintDescending b v = b @ [tag_byte 136]"
  | (big) n where "1 \<le> n" "n \<le> 8" "low 1 n \<le> uint v" "uint v < 256 ^ n"
    "\<And>b. EncodeUvarintDescending b v = tagged b (136 - int n) n (uint (NOT v))"
proof -
  have top: "uint v < 2 ^ 64" using uint_bounded [of v] by simp
  note defs = EncodeUvarintDescending_def int_tags low_def word_le_def
  have nz: "v \<noteq> 0" if "0 < uint v" using that by auto
  consider "uint v = 0" | "0 < uint v \<and> uint v \<le> 0xff" | "0xff < uint v \<and> uint v \<le> 0xffff"
    | "0xffff < uint v \<and> uint v \<le> 0xffffff" | "0xffffff < uint v \<and> uint v \<le> 0xffffffff"
    | "0xffffffff < uint v \<and> uint v \<le> 0xffffffffff"
    | "0xffffffffff < uint v \<and> uint v \<le> 0xffffffffffff"
    | "0xffffffffffff < uint v \<and> uint v \<le> 0xffffffffffffff" | "0xffffffffffffff < uint v"
    using uint_ge_0 [of v] by linarith
  then show thesis
  proof cases
    case 1 then show thesis by (intro zero) (simp_all add: defs uint_0_iff)
  next
    case 2 with nz show thesis by (intro big [of 1]) (simp_all add: defs)
  next
    case 3 with nz show thesis by (intro big [of 2]) (simp_all add: defs)
  next
    case 4 with nz show thesis by (intro big [of 3]) (simp_all add: defs)
  next
    case 5 with nz show thesis by (intro big [of 4]) (simp_all add: defs)
  next
    case 6 with nz show thesis by (intro big [of 5]) (simp_all add: defs)
  next
    case 7 with nz show thesis by (intro big [of 6]) (simp_all add: defs)
  next
    case 8 with nz show thesis by (intro big [of 7]) (simp_all add: defs)
  next
    case 9 with top nz show thesis by (intro big [of 8]) (simp_all add: defs)
  qed
qed

lemma EncodeVarintAscending_neg_cases:
  assumes "in64 v" and "v < 0"
  obtains n where "1 \<le> n" "n \<le> 8" "low 1 n \<le> - v" "- v < 256 ^ n"
    "\<And>b. EncodeVarintAscending b v = tagged b (136 - int n) n v"
proof -
  have top: "- v < 2 ^ 64" using assms(1) by (simp add: in64_def go_limits)
  note defs = EncodeVarintAscending_def int_tags low_def assms
  consider "v \<ge> -0xff" | "v < -0xff \<and> v \<ge> -0xffff" | "v < -0xffff \<and> v \<ge> -0xffffff"
    | "v < -0xffffff \<and> v \<ge> -0xffffffff" | "v < -0xffffffff \<and> v \<ge> -0xffffffffff"
    | "v < -0xffffffffff \<and> v \<ge> -0xffffffffffff"
    | "v < -0xffffffffffff \<and> v \<ge> -0xffffffffffffff" | "v < -0xffffffffffffff"
    by linarith
  then show thesis
  proof cases
    case 1
    from assms(2) have "v \<le> -1" by linarith
    with 1 show thesis by (intro that [of 1]) (simp_all add: defs)
  next
    case 2 then show thesis by (intro that [of 2]) (simp_all add: defs)
  next
    case 3 then show thesis by (intro that [of 3]) (simp_all add: defs)
  next
    case 4 then show thesis by (intro that [of 4]) (simp_all add: defs)
  next
    case 5 then show thesis by (intro that [of 5]) (simp_all add: defs)
  next
    case 6 then show thesis by (intro that [of 6]) (simp_all add: defs)
  next
    case 7 then show thesis by (intro that [of 7]) (simp_all add: defs)
  next
    case 8 with top show thesis by (intro that [of 8]) (simp_all add: defs)
  qed
qed

section \<open>Round trips\<close>

lemma take_bit_below: "0 \<le> k \<Longrightarrow> k < 256 ^ n \<Longrightarrow> take_bit (8 * n) k = (k :: int)"
  by (simp add: take_bit_int_eq_self_iff power_mult)

lemma take_bit_neg: "0 < m \<Longrightarrow> m \<le> 256 ^ n \<Longrightarrow> take_bit (8 * n) (- m) = 256 ^ n - (m :: int)"
proof -
  assume m: "0 < m" "m \<le> 256 ^ n"
  have "(- m + 256 ^ n) mod 256 ^ n = - m + 256 ^ n"
    using m by (intro mod_pos_pos_trivial) linarith+
  then show ?thesis by (simp add: take_bit_eq_mod power_mult)
qed

lemma uint64_of_be_bytes: "uint v < 256 ^ n \<Longrightarrow> uint64_of (be_bytes n (uint v)) = v"
  by (simp add: uint64_of_eq be_value_be_bytes take_bit_below)

lemma DecodeUvarintAscending_EncodeUvarintAscending:
  "DecodeUvarintAscending (EncodeUvarintAscending [] v @ rest) = Inr (rest, v)"
proof (cases rule: EncodeUvarintAscending_cases [of v])
  case small
  then show ?thesis by (simp add: uint_tag int_tags Let_def)
next
  case (big n)
  then show ?thesis
    by (simp add: tagged_def uint_tag int_tags uint64_of_be_bytes Let_def)
qed

lemma uint64_of_NOT_be_bytes:
  assumes "uint v < 256 ^ n" and "n \<le> 8"
  shows "uint64_of (map NOT (be_bytes n (uint (NOT v)))) = v"
proof -
  have "(2 :: int) ^ 64 = 256 ^ n * 256 ^ (8 - n)"
    using assms(2) by (simp flip: power_add)
  then have "uint (NOT v) = 256 ^ n * (256 ^ (8 - n) - 1) + (256 ^ n - 1 - uint v)"
    by (simp add: uint_NOT_word64 algebra_simps)
  then have "take_bit (8 * n) (uint (NOT v)) = (256 ^ n - 1 - uint v) mod 256 ^ n"
    by (simp add: take_bit_eq_mod power_mult)
  also have "\<dots> = 256 ^ n - 1 - uint v"
    using assms(1) uint_ge_0 [of v] by (intro mod_pos_pos_trivial) linarith+
  finally show ?thesis
    by (simp add: uint64_of_eq be_value_map_NOT be_value_be_bytes)
qed

lemma DecodeUvarintDescending_EncodeUvarintDescending:
  "DecodeUvarintDescending (EncodeUvarintDescending [] v @ rest) = Inr (rest, v)"
proof (cases rule: EncodeUvarintDescending_cases [of v])
  case zero
  then show ?thesis by (simp add: uint_tag int_tags uint64_of_def)
next
  case (big n)
  then show ?thesis
    by (simp add: tagged_def uint_tag int_tags uint64_of_NOT_be_bytes Let_def)
qed

lemma int64_of_complement_be_bytes:
  assumes "in64 v" and "v < 0" and "- v < 256 ^ n"
  shows "int64_of_complement (be_bytes n v) = NOT v"
proof -
  have "take_bit (8 * n) v = 256 ^ n + v" using take_bit_neg [of "- v" n] assms by simp
  then have "be_value (map NOT (be_bytes n v)) = - v - 1"
    by (simp add: be_value_map_NOT be_value_be_bytes)
  moreover have "in64 (- v - 1)" using assms by (simp add: in64_def go_limits)
  ultimately show ?thesis by (simp add: int64_of_complement_eq NOT_int_eq)
qed

lemma DecodeVarintAscending_EncodeVarintAscending:
  assumes "in64 v"
  shows "DecodeVarintAscending (EncodeVarintAscending [] v @ rest) = Inr (rest, v)"
proof (cases "v < 0")
  case True
  with assms show ?thesis
  proof (cases rule: EncodeVarintAscending_neg_cases)
    case (1 n)
    then show ?thesis
      using assms True
      by (simp add: tagged_def uint_tag int_tags int64_of_complement_be_bytes Let_def)
  qed
next
  case False
  let ?w = "word_of_int v :: uint64"
  have w: "uint ?w = v" using assms False by (simp add: in64_def go_limits uint_word_of_int)
  have "0 \<le> uint (hd (EncodeUvarintAscending [] ?w)) - intZero \<and> EncodeUvarintAscending [] ?w \<noteq> []"
    by (cases rule: EncodeUvarintAscending_cases [of ?w]) (auto simp: tagged_def uint_tag int_tags)
  then obtain t ts where e: "EncodeUvarintAscending [] ?w = t # ts" "\<not> uint t - intZero < 0"
    by (cases "EncodeUvarintAscending [] ?w") auto
  have "DecodeUvarintAscending (t # ts @ rest) = Inr (rest, ?w)"
    using DecodeUvarintAscending_EncodeUvarintAscending [of ?w rest] by (simp add: e(1))
  then show ?thesis
    using e(2) assms False w
    by (simp add: EncodeVarintAscending_def e(1) in64_def Let_def del: DecodeUvarintAscending.simps)
qed

lemma DecodeVarintDescending_EncodeVarintDescending:
  assumes "in64 v"
  shows "DecodeVarintDescending (EncodeVarintDescending [] v @ rest) = Inr (rest, v)"
proof -
  have "in64 (NOT v)" using assms by (auto simp: in64_def go_limits NOT_int_eq)
  then show ?thesis
    by (simp add: DecodeVarintDescending_def EncodeVarintDescending_def
        DecodeVarintAscending_EncodeVarintAscending)
qed

section \<open>Order\<close>

lemma tag_byte_less: "0 \<le> s \<Longrightarrow> s < t \<Longrightarrow> t < 256 \<Longrightarrow> tag_byte s < tag_byte t"
  by (simp add: word_less_def uint_tag)

lemma tagged_less_tag:
  "0 \<le> s \<Longrightarrow> s < t \<Longrightarrow> t < 256 \<Longrightarrow> tagged [] s m k @ x < tagged [] t n l @ y"
  by (simp add: tagged_def tag_byte_less)

lemma tagged_less_payload:
  "take_bit (8 * n) k < take_bit (8 * n) l \<Longrightarrow> tagged [] t n k @ x < tagged [] t n l @ y"
  by (auto simp: tagged_def be_value_less_iff be_value_be_bytes intro: less_append_left)

lemma byte_class_less:
  assumes "low lo n \<le> (k :: int)" and "k < 256 ^ n" and "low lo m \<le> l" and "l < 256 ^ m"
    and "k < l" and "lo \<le> 256" and "1 \<le> n" and "1 \<le> m"
  shows "n \<le> m"
proof (rule ccontr)
  assume "\<not> n \<le> m"
  then have "256 ^ m \<le> low lo n" using low_mono [of lo m n] assms by simp
  with assms show False by simp
qed

lemma EncodeUvarintAscending_ordered:
  assumes "a < b"
  shows "EncodeUvarintAscending [] a @ x < EncodeUvarintAscending [] b @ y"
proof -
  have ab: "uint a < uint b" using assms by (simp add: word_less_def)
  show ?thesis
  proof (cases rule: EncodeUvarintAscending_cases [of b])
    case small
    with ab have "uint a \<le> 109" by simp
    then have "EncodeUvarintAscending [] a = [tag_byte (136 + uint a)]"
      by (cases rule: EncodeUvarintAscending_cases [of a]) (use low_ge [of _ 110] in fastforce)+
    with small ab show ?thesis by (simp add: tag_byte_less)
  next
    case b: (big m)
    show ?thesis
    proof (cases rule: EncodeUvarintAscending_cases [of a])
      case small
      with b show ?thesis by (simp add: tagged_def tag_byte_less)
    next
      case a: (big n)
      have "n \<le> m" using byte_class_less [OF a(3,4) b(3,4) ab] a b by simp
      then consider "n < m" | "n = m" by linarith
      then show ?thesis
      proof cases
        case 1
        with a b show ?thesis by (simp add: tagged_less_tag)
      next
        case 2
        with a b ab show ?thesis by (simp add: tagged_less_payload take_bit_below)
      qed
    qed
  qed
qed

lemma EncodeUvarintDescending_payload_less:
  fixes a b :: uint64
  assumes "uint b < uint a" and "uint a < 256 ^ n" and "n \<le> 8"
  shows "take_bit (8 * n) (uint (NOT a)) < take_bit (8 * n) (uint (NOT b))"
proof -
  have "be_value (map NOT (be_bytes n (uint (NOT v)))) = uint v" if "uint v < 256 ^ n" for v :: uint64
  proof -
    let ?x = "be_value (map NOT (be_bytes n (uint (NOT v))))"
    have "?x < 256 ^ n" "0 \<le> ?x" using be_value_bounds [of "map NOT (be_bytes n (uint (NOT v)))"] by auto
    moreover have "(256 :: int) ^ n \<le> 256 ^ 8" using assms(3) by (rule power_increasing) simp
    ultimately have "uint (word_of_int ?x :: uint64) = ?x" by (simp add: uint_word_of_int)
    then show ?thesis using uint64_of_NOT_be_bytes [OF that assms(3)] by (simp add: uint64_of_eq)
  qed
  from this [of a] this [of b] assms show ?thesis
    by (simp add: be_value_map_NOT be_value_be_bytes)
qed

lemma EncodeUvarintDescending_ordered:
  assumes "b < a"
  shows "EncodeUvarintDescending [] a @ x < EncodeUvarintDescending [] b @ y"
proof -
  have ab: "uint b < uint a" using assms by (simp add: word_less_def)
  show ?thesis
  proof (cases rule: EncodeUvarintDescending_cases [of a])
    case zero
    with ab show ?thesis by simp
  next
    case a: (big n)
    show ?thesis
    proof (cases rule: EncodeUvarintDescending_cases [of b])
      case zero
      with a show ?thesis by (simp add: tagged_def tag_byte_less)
    next
      case b: (big m)
      have "m \<le> n" using byte_class_less [OF b(3,4) a(3,4) ab] a b by simp
      then consider "m < n" | "n = m" by linarith
      then show ?thesis
      proof cases
        case 1
        with a b show ?thesis by (simp add: tagged_less_tag)
      next
        case 2
        with a b ab show ?thesis
          by (simp add: tagged_less_payload EncodeUvarintDescending_payload_less)
      qed
    qed
  qed
qed

lemma EncodeVarintAscending_neg_ordered:
  assumes "in64 a" and "in64 b" and "a < b" and "b < 0"
  shows "EncodeVarintAscending [] a @ x < EncodeVarintAscending [] b @ y"
proof -
  have neg: "a < 0" using assms by simp
  obtain n where n: "1 \<le> n" "n \<le> 8" "low 1 n \<le> - a" "- a < 256 ^ n"
    "\<And>c. EncodeVarintAscending c a = tagged c (136 - int n) n a"
    by (rule EncodeVarintAscending_neg_cases [OF assms(1) neg]) (rule that; assumption)
  obtain m where m: "1 \<le> m" "m \<le> 8" "low 1 m \<le> - b" "- b < 256 ^ m"
    "\<And>c. EncodeVarintAscending c b = tagged c (136 - int m) m b"
    by (rule EncodeVarintAscending_neg_cases [OF assms(2,4)]) (rule that; assumption)
  have "m \<le> n" using byte_class_less [OF m(3,4) n(3,4)] assms(3) n m by simp
  then consider "m < n" | "m = n" by linarith
  then show ?thesis
  proof cases
    case 1
    with n m show ?thesis by (simp add: tagged_less_tag)
  next
    case 2
    then have "take_bit (8 * n) a < take_bit (8 * n) b"
      using take_bit_neg [of "- a" n] take_bit_neg [of "- b" n] n m assms neg by simp
    with n m 2 show ?thesis by (simp add: tagged_less_payload)
  qed
qed

lemma EncodeVarintAscending_ordered:
  assumes "in64 a" and "in64 b" and "a < b"
  shows "EncodeVarintAscending [] a @ x < EncodeVarintAscending [] b @ y"
proof (cases "b < 0")
  case True
  with assms show ?thesis by (simp add: EncodeVarintAscending_neg_ordered)
next
  case b: False
  then have eb: "EncodeVarintAscending [] b = EncodeUvarintAscending [] (word_of_int b)"
    by (simp add: EncodeVarintAscending_def)
  have ub: "uint (word_of_int b :: uint64) = b"
    using assms b by (simp add: in64_def go_limits uint_word_of_int)
  show ?thesis
  proof (cases "a < 0")
    case True
    obtain n where n: "1 \<le> n" "n \<le> 8" "\<And>c. EncodeVarintAscending c a = tagged c (136 - int n) n a"
      by (rule EncodeVarintAscending_neg_cases [OF assms(1) True]) (rule that; assumption)
    show ?thesis
      by (cases rule: EncodeUvarintAscending_cases [of "word_of_int b"])
        (use n ub b in \<open>auto simp: eb tagged_def tag_byte_less\<close>)
  next
    case False
    then have "EncodeVarintAscending [] a = EncodeUvarintAscending [] (word_of_int a)"
      by (simp add: EncodeVarintAscending_def)
    moreover have "uint (word_of_int a :: uint64) = a"
      using assms False by (simp add: in64_def go_limits uint_word_of_int)
    ultimately show ?thesis
      using EncodeUvarintAscending_ordered [of "word_of_int a" "word_of_int b" x y] eb ub assms(3)
      by (simp add: word_less_def)
  qed
qed

lemma EncodeVarintDescending_ordered:
  assumes "in64 a" and "in64 b" and "b < a"
  shows "EncodeVarintDescending [] a @ x < EncodeVarintDescending [] b @ y"
  unfolding EncodeVarintDescending_def
  by (rule EncodeVarintAscending_ordered)
    (use assms in \<open>auto simp: NOT_int_eq in64_def go_limits\<close>)

section \<open>Fixed-width encodings\<close>

lemma ucast_drop_bit_byte: "ucast (drop_bit n (v :: 'a :: len word)) = (word_of_int (drop_bit n (uint v)) :: byte)"
  by (rule bit_word_eqI) (auto simp: bit_ucast_iff bit_word_of_int_iff bit_drop_bit_eq bit_uint_iff
      dest: bit_imp_le_length)

lemma EncodeUint32Ascending_eq: "EncodeUint32Ascending b v = b @ be_bytes 4 (uint v)"
  using ucast_drop_bit_byte [of 0 v]
  by (simp add: EncodeUint32Ascending_def numeral_eq_Suc ucast_drop_bit_byte)

lemma EncodeUint64Ascending_eq: "EncodeUint64Ascending b v = b @ be_bytes 8 (uint v)"
  using ucast_drop_bit_byte [of 0 v]
  by (simp add: EncodeUint64Ascending_def numeral_eq_Suc ucast_drop_bit_byte)

lemma take_bit_uint32: "take_bit (8 * 4) (uint (v :: uint32)) = uint v"
  using uint_bounded [of v] by (intro take_bit_below) simp_all

lemma take_bit_uint64: "take_bit (8 * 8) (uint (v :: uint64)) = uint v"
  using uint_bounded [of v] by (intro take_bit_below) simp_all

lemma DecodeUint32Ascending_EncodeUint32Ascending:
  "DecodeUint32Ascending (EncodeUint32Ascending [] v @ rest) = Inr (rest, v)"
  using take_bit_uint32 [of v]
  by (simp add: DecodeUint32Ascending_def EncodeUint32Ascending_eq be_value_be_bytes)

lemma DecodeUint64Ascending_EncodeUint64Ascending:
  "DecodeUint64Ascending (EncodeUint64Ascending [] v @ rest) = Inr (rest, v)"
  using take_bit_uint64 [of v]
  by (simp add: DecodeUint64Ascending_def EncodeUint64Ascending_eq be_value_be_bytes)

lemma EncodeUint32Ascending_ordered:
  "a < b \<Longrightarrow> EncodeUint32Ascending [] a @ x < EncodeUint32Ascending [] b @ y"
  using take_bit_uint32 [of a] take_bit_uint32 [of b]
  by (intro less_append_left)
    (simp_all add: EncodeUint32Ascending_eq be_value_less_iff be_value_be_bytes word_less_def)

lemma EncodeUint64Ascending_ordered:
  "a < b \<Longrightarrow> EncodeUint64Ascending [] a @ x < EncodeUint64Ascending [] b @ y"
  using take_bit_uint64 [of a] take_bit_uint64 [of b]
  by (intro less_append_left)
    (simp_all add: EncodeUint64Ascending_eq be_value_less_iff be_value_be_bytes word_less_def)

section \<open>The contracts of the integer encodings\<close>

interpretation uint32_asc: key_codec "EncodeUint32Ascending []" DecodeUint32Ascending "\<lambda>_. True" "(<)"
  by unfold_locales
    (auto simp: DecodeUint32Ascending_EncodeUint32Ascending EncodeUint32Ascending_ordered)

interpretation uint64_asc: key_codec "EncodeUint64Ascending []" DecodeUint64Ascending "\<lambda>_. True" "(<)"
  by unfold_locales
    (auto simp: DecodeUint64Ascending_EncodeUint64Ascending EncodeUint64Ascending_ordered)

interpretation uint32_desc: key_codec "EncodeUint32Descending []" DecodeUint32Descending "\<lambda>_. True" "(>)"
  by unfold_locales
    (auto simp: DecodeUint32Descending_def EncodeUint32Descending_def NOT_less_iff
      DecodeUint32Ascending_EncodeUint32Ascending EncodeUint32Ascending_ordered)

interpretation uint64_desc: key_codec "EncodeUint64Descending []" DecodeUint64Descending "\<lambda>_. True" "(>)"
  by unfold_locales
    (auto simp: DecodeUint64Descending_def EncodeUint64Descending_def NOT_less_iff
      DecodeUint64Ascending_EncodeUint64Ascending EncodeUint64Ascending_ordered)

interpretation uvarint_asc: key_codec "EncodeUvarintAscending []" DecodeUvarintAscending "\<lambda>_. True" "(<)"
  by unfold_locales
    (auto simp: DecodeUvarintAscending_EncodeUvarintAscending EncodeUvarintAscending_ordered)

interpretation uvarint_desc: key_codec "EncodeUvarintDescending []" DecodeUvarintDescending "\<lambda>_. True" "(>)"
  by unfold_locales
    (auto simp: DecodeUvarintDescending_EncodeUvarintDescending EncodeUvarintDescending_ordered)

interpretation varint_asc: key_codec "EncodeVarintAscending []" DecodeVarintAscending in64 "(<)"
  by unfold_locales
    (auto simp: DecodeVarintAscending_EncodeVarintAscending EncodeVarintAscending_ordered)

interpretation varint_desc: key_codec "EncodeVarintDescending []" DecodeVarintDescending in64 "(>)"
  by unfold_locales
    (auto simp: DecodeVarintDescending_EncodeVarintDescending EncodeVarintDescending_ordered)

section \<open>Appending and lengths\<close>

lemma EncodeUvarintAscending_append: "EncodeUvarintAscending b v = b @ EncodeUvarintAscending [] v"
  by (simp add: EncodeUvarintAscending_def tagged_def)

lemma EncodeUvarintDescending_append: "EncodeUvarintDescending b v = b @ EncodeUvarintDescending [] v"
  by (simp add: EncodeUvarintDescending_def tagged_def)

lemma EncodeVarintAscending_append: "EncodeVarintAscending b k = b @ EncodeVarintAscending [] k"
  using EncodeUvarintAscending_append [of b "word_of_int k"]
  by (simp add: EncodeVarintAscending_def tagged_def)

lemma EncodeVarintDescending_append: "EncodeVarintDescending b k = b @ EncodeVarintDescending [] k"
  unfolding EncodeVarintDescending_def by (rule EncodeVarintAscending_append)

lemmas encode_int_append = EncodeUvarintAscending_append EncodeUvarintDescending_append
  EncodeVarintAscending_append EncodeVarintDescending_append

lemma highestByteIndex_interval:
  assumes "1 \<le> n" and "n \<le> 8" and "low 1 n \<le> uint v" and "uint v < 256 ^ n"
  shows "highestByteIndex v = int n - 1"
proof -
  have d: "uint (drop_bit k v) = uint v div 2 ^ k" for k
    using take_bit_uint64 [of v] by (subst unsigned_drop_bit_eq) (simp add: drop_bit_eq_div)
  have "n \<in> {1, 2, 3, 4, 5, 6, 7, 8}" using assms(1,2) by auto
  then show ?thesis
    using assms(3,4)
    by (elim insertE; simp add: highestByteIndex_def low_def word_less_def d; linarith?)
qed

lemma length_EncodeUvarintAscending:
  "int (length (EncodeUvarintAscending [] v)) = EncodedLengthUvarintAscending v"
  by (cases rule: EncodeUvarintAscending_cases [of v]) simp_all

lemma EncLenUvarintAscending_eq: "EncLenUvarintAscending v = EncodedLengthUvarintAscending v"
proof (cases rule: EncodeUvarintAscending_cases [of v])
  case small
  then show ?thesis by (simp add: EncLenUvarintAscending_def int_tags)
next
  case (big n)
  have "low 1 n \<le> low 110 n" by (simp add: low_def)
  with big have "highestByteIndex v = int n - 1" by (intro highestByteIndex_interval) simp_all
  moreover have "\<not> uint v \<le> 109" using low_ge [of n 110] big by simp
  ultimately show ?thesis using big by (simp add: EncLenUvarintAscending_def int_tags)
qed

lemma length_EncodeUvarintDescending:
  "int (length (EncodeUvarintDescending [] v)) = EncLenUvarintDescending v"
proof (cases rule: EncodeUvarintDescending_cases [of v])
  case zero
  then show ?thesis by (simp add: EncLenUvarintDescending_def)
next
  case (big n)
  then have "highestByteIndex v = int n - 1" by (intro highestByteIndex_interval) simp_all
  moreover have "v \<noteq> 0" using low_ge [of n 1] big by auto
  ultimately show ?thesis using big by (simp add: EncLenUvarintDescending_def)
qed

lemma DecodeUvarintAscending_consumes:
  "DecodeUvarintAscending b = Inr (rest, v) \<Longrightarrow>
   \<exists>n. GetUvarintLen b = Inr n \<and> 1 \<le> n \<and> n \<le> int (length b) \<and> rest = drop (nat n) b"
  by (cases b)
    (auto simp: Let_def int_tags drop_Cons' nat_diff_distrib split: if_splits)

lemma GetUvarintLen_error_iff:
  "GetUvarintLen b = Inl e \<longleftrightarrow> DecodeUvarintAscending b = Inl e"
  by (cases b) (auto simp: Let_def split: if_splits)

section \<open>Properties\<close>

text \<open>
  C16. The \<open>int64\<close> key encodings preserve order: for any two \<open>int64\<close> values
  appended to the same buffer \<open>p\<close>, \<open>EncodeVarintAscending\<close> orders the resulting keys as
  the values, whatever is appended after them, and \<open>EncodeVarintDescending\<close> in reverse.
\<close>

theorem varint_order_preserving:
  assumes "in64 a" and "in64 b"
  shows "(EncodeVarintAscending p a @ x < EncodeVarintAscending p b @ y \<longleftrightarrow> a < b \<or> a = b \<and> x < y) \<and>
    (EncodeVarintDescending p a @ x < EncodeVarintDescending p b @ y \<longleftrightarrow> b < a \<or> a = b \<and> x < y)"
  using varint_asc.order_iff_append [OF assms, of x y] varint_desc.order_iff_append [OF assms, of x y]
  by (simp add: EncodeVarintAscending_append [of p] EncodeVarintDescending_append [of p])

theorem varint_order_preserving_witness:
  "EncodeVarintAscending [7] (-300) @ [0] < EncodeVarintAscending [7] 5 @ [] \<and>
   EncodeVarintDescending [7] 5 @ [] < EncodeVarintDescending [7] (-300) @ [0]"
proof -
  have h: "in64 (-300)" "in64 5" by (simp_all add: in64_def go_limits)
  show ?thesis
    using varint_order_preserving [OF h, of "[7]" "[0]" "[]"]
      varint_order_preserving [OF h(2,1), of "[7]" "[]" "[0]"] by simp
qed

text \<open>
  Decoding undoes encoding for every \<open>int64\<close> value in both directions: after the
  buffer \<open>p\<close> the value was appended to, the decoder returns exactly the bytes that
  followed the value, and the value; in particular it neither fails nor overflows.
\<close>

theorem varint_roundtrip:
  assumes "in64 v"
  shows "DecodeVarintAscending (drop (length p) (EncodeVarintAscending p v @ rest)) = Inr (rest, v) \<and>
    DecodeVarintDescending (drop (length p) (EncodeVarintDescending p v @ rest)) = Inr (rest, v)"
  using varint_asc.roundtrip [OF assms] varint_desc.roundtrip [OF assms]
  by (simp add: EncodeVarintAscending_append [of p] EncodeVarintDescending_append [of p])

theorem varint_roundtrip_witness:
  "DecodeVarintAscending (drop 1 (EncodeVarintAscending [9] MinInt64 @ [3])) = Inr ([3], MinInt64)"
proof -
  have h: "in64 MinInt64" by (simp add: in64_def go_limits)
  show ?thesis using varint_roundtrip [OF h, of "[9]" "[3]"] by simp
qed

text \<open>
  Every \<open>uint64\<close> value round-trips through the uvarint encodings, and the encodings
  order keys as the values (ascending) or in reverse (descending), whatever follows.
\<close>

theorem uvarint_codec:
  "DecodeUvarintAscending (EncodeUvarintAscending [] v @ rest) = Inr (rest, v) \<and>
   DecodeUvarintDescending (EncodeUvarintDescending [] v @ rest) = Inr (rest, v) \<and>
   (EncodeUvarintAscending p v @ x < EncodeUvarintAscending p w @ y \<longleftrightarrow> v < w \<or> v = w \<and> x < y) \<and>
   (EncodeUvarintDescending p v @ x < EncodeUvarintDescending p w @ y \<longleftrightarrow> w < v \<or> v = w \<and> x < y)"
  using uvarint_asc.roundtrip [of v rest] uvarint_desc.roundtrip [of v rest]
    uvarint_asc.order_iff_append [of v x w y] uvarint_desc.order_iff_append [of v x w y]
  by (simp add: EncodeUvarintAscending_append [of p] EncodeUvarintDescending_append [of p])

text \<open>
  The three length computations agree with what the encoders append: the table of
  \<open>EncodedLengthUvarintAscending\<close> and the bit-scanning \<open>EncLenUvarintAscending\<close> and
  \<open>EncLenUvarintDescending\<close> (through \<open>highestByteIndex\<close>) give the exact number of
  bytes, and it never exceeds \<open>MaxVarintLen = 9\<close>.
\<close>

theorem uvarint_lengths:
  "int (length (EncodeUvarintAscending p v)) = int (length p) + EncLenUvarintAscending v \<and>
   EncLenUvarintAscending v = EncodedLengthUvarintAscending v \<and>
   int (length (EncodeUvarintDescending p v)) = int (length p) + EncLenUvarintDescending v \<and>
   EncLenUvarintAscending v \<le> 9 \<and> EncLenUvarintDescending v \<le> 9"
proof -
  have "EncodedLengthUvarintAscending v \<le> 9"
    by (cases rule: EncodeUvarintAscending_cases [of v]) simp_all
  moreover have "EncLenUvarintDescending v \<le> 9"
    unfolding length_EncodeUvarintDescending [symmetric]
    by (cases rule: EncodeUvarintDescending_cases [of v]) simp_all
  ultimately show ?thesis
    using length_EncodeUvarintAscending [of v] length_EncodeUvarintDescending [of v]
    by (simp add: EncodeUvarintAscending_append [of p] EncodeUvarintDescending_append [of p]
        EncLenUvarintAscending_eq)
qed

text \<open>
  \<open>GetUvarintLen\<close> and \<open>DecodeUvarintAscending\<close> agree on every byte string: they
  fail with the same error on the same inputs, and when they succeed the length returned is at
  least 1, at most the length of the buffer, and exactly what the decoder consumed.
\<close>

theorem uvarint_length_agrees_with_decode:
  "case DecodeUvarintAscending b of
     Inl e \<Rightarrow> GetUvarintLen b = Inl e
   | Inr (rest, v) \<Rightarrow> (\<exists>n. GetUvarintLen b = Inr n \<and> 1 \<le> n \<and> n \<le> int (length b) \<and> rest = drop (nat n) b)"
proof (cases "DecodeUvarintAscending b")
  case (Inl e)
  then show ?thesis by (simp add: GetUvarintLen_error_iff)
next
  case (Inr r)
  then show ?thesis by (cases r) (simp add: DecodeUvarintAscending_consumes)
qed

text \<open>
  The check \<open>length < 0\<close> of the ascending uvarint decoder is never reached: a first byte
  below the range of integer tags is accepted and read as a huge value.
\<close>

lemma DecodeUvarintAscending_accepts_foreign_tag:
  "DecodeUvarintAscending (0 # b) = Inr (b, - 136) \<and> GetUvarintLen (0 # b) = Inr 1"
  by (simp add: int_tags)

end
