(* ===== verification/Encoding_Bytes.thy ===== *)
theory Encoding_Bytes
  imports Encoding_Int
begin

text \<open>
  The escape-based encodings of byte strings and strings of
  \<open>pkg/util/encoding/encoding.go\<close>: \<open>EncodeBytesAscending\<close>, \<open>EncodeBytesDescending\<close>
  and their decoders, size and length functions, and the one-byte markers appended by the
  remaining key encoders. The scanning loops are recursive functions over the rest of the buffer;
  an out-of-range index of the source is a \<open>Panic\<close>. A Go string is the list of its bytes.
\<close>

unbundle bit_operations_syntax

section \<open>Constants and escapes\<close>

definition bytesMarker :: byte where
  "bytesMarker = 0x12"

definition bytesDescMarker :: byte where
  "bytesDescMarker = bytesMarker + 1"

definition escapeLength :: nat where
  "escapeLength = 2"

definition escape :: byte where
  "escape = 0x00"

definition escapedTerm :: byte where
  "escapedTerm = 0x01"

definition escapedJSONObjectKeyTerm :: byte where
  "escapedJSONObjectKeyTerm = 0x02"

definition escapedJSONArray :: byte where
  "escapedJSONArray = 0x03"

definition escaped00 :: byte where
  "escaped00 = 0xff"

definition escapedFF :: byte where
  "escapedFF = 0x00"

record escapes =
  esc_escape :: byte
  esc_escapedTerm :: byte
  esc_escaped00 :: byte
  esc_escapedFF :: byte
  esc_marker :: byte

definition ascendingBytesEscapes :: escapes where
  "ascendingBytesEscapes =
     \<lparr>esc_escape = escape, esc_escapedTerm = escapedTerm, esc_escaped00 = escaped00,
      esc_escapedFF = escapedFF, esc_marker = bytesMarker\<rparr>"

definition descendingBytesEscapes :: escapes where
  "descendingBytesEscapes =
     \<lparr>esc_escape = NOT escape, esc_escapedTerm = NOT escapedTerm, esc_escaped00 = NOT escaped00,
      esc_escapedFF = NOT escapedFF, esc_marker = bytesDescMarker\<rparr>"

definition onesComplement :: "bytes \<Rightarrow> bytes" where
  "onesComplement b = map NOT b"

section \<open>Encoders\<close>

function encodeBytesAscendingWithoutTerminatorOrPrefix :: "bytes \<Rightarrow> bytes \<Rightarrow> bytes" where
  "encodeBytesAscendingWithoutTerminatorOrPrefix b data =
     (case IndexByte data escape of
        None \<Rightarrow> b @ data
      | Some i \<Rightarrow> encodeBytesAscendingWithoutTerminatorOrPrefix
                   (b @ take i data @ [escape, escaped00]) (drop (i + 1) data))"
  by pat_completeness auto
termination
  by (relation "measure (\<lambda>(b, data). length data)") (auto dest: IndexByte_SomeD)

declare encodeBytesAscendingWithoutTerminatorOrPrefix.simps [simp del]

definition encodeBytesAscendingWithTerminator :: "bytes \<Rightarrow> bytes \<Rightarrow> byte \<Rightarrow> bytes" where
  "encodeBytesAscendingWithTerminator b data terminator =
     encodeBytesAscendingWithoutTerminatorOrPrefix b data @ [escape, terminator]"

definition encodeBytesAscendingWithTerminatorAndPrefix :: "bytes \<Rightarrow> bytes \<Rightarrow> byte \<Rightarrow> byte \<Rightarrow> bytes" where
  "encodeBytesAscendingWithTerminatorAndPrefix b data terminator prefix =
     encodeBytesAscendingWithTerminator (b @ [prefix]) data terminator"

definition EncodeBytesAscending :: "bytes \<Rightarrow> bytes \<Rightarrow> bytes" where
  "EncodeBytesAscending b data =
     encodeBytesAscendingWithTerminatorAndPrefix b data
       (esc_escapedTerm ascendingBytesEscapes) bytesMarker"

definition encodeNextBytesAscendingWithTerminator :: "bytes \<Rightarrow> bytes \<Rightarrow> byte \<Rightarrow> bytes" where
  "encodeNextBytesAscendingWithTerminator b data terminator =
     encodeBytesAscendingWithoutTerminatorOrPrefix b data @ [escape, escaped00, escape, terminator]"

definition EncodeNextBytesAscending :: "bytes \<Rightarrow> bytes \<Rightarrow> bytes" where
  "EncodeNextBytesAscending b data =
     encodeNextBytesAscendingWithTerminator (b @ [bytesMarker]) data
       (esc_escapedTerm ascendingBytesEscapes)"

definition EncodeBytesDescending :: "bytes \<Rightarrow> bytes \<Rightarrow> bytes" where
  "EncodeBytesDescending b data =
     (let n = length b;
          b' = (EncodeBytesAscending b data)[n := bytesDescMarker]
      in take (n + 1) b' @ onesComplement (drop (n + 1) b'))"

definition EncodeBytesSize :: "bytes \<Rightarrow> int" where
  "EncodeBytesSize data = int (length data) + 3 + int (count_list data escape)"

definition EncodeNextBytesSize :: "bytes \<Rightarrow> int" where
  "EncodeNextBytesSize data = int (length data) + 5 + int (count_list data escape)"

definition EncodeStringAscending :: "bytes \<Rightarrow> bytes \<Rightarrow> bytes" where
  "EncodeStringAscending b s =
     encodeBytesAscendingWithTerminatorAndPrefix b s
       (esc_escapedTerm ascendingBytesEscapes) bytesMarker"

definition EncodeStringDescending :: "bytes \<Rightarrow> bytes \<Rightarrow> bytes" where
  "EncodeStringDescending b s = EncodeBytesDescending b s"

definition EncodeJSONKeyStringAscending :: "bytes \<Rightarrow> bytes \<Rightarrow> bool \<Rightarrow> bytes" where
  "EncodeJSONKeyStringAscending b s isEnd =
     (if isEnd then encodeBytesAscendingWithoutTerminatorOrPrefix b s
      else encodeBytesAscendingWithTerminator b s escapedJSONObjectKeyTerm)"

definition AddJSONPathTerminator :: "bytes \<Rightarrow> bytes" where
  "AddJSONPathTerminator b = b @ [escape, escapedTerm]"

definition AddJSONPathSeparator :: "bytes \<Rightarrow> bytes" where
  "AddJSONPathSeparator b = b @ [escape, escapedJSONObjectKeyTerm]"

definition EncodeJSONObjectSpanStartAscending :: "bytes \<Rightarrow> bytes" where
  "EncodeJSONObjectSpanStartAscending b = b @ [escape, escaped00]"

definition EncodeArrayAscending :: "bytes \<Rightarrow> bytes" where
  "EncodeArrayAscending b = b @ [escape, escapedJSONArray]"

section \<open>Decoders\<close>

function decodeBytes_loop :: "escapes \<Rightarrow> bool \<Rightarrow> bytes \<Rightarrow> bytes \<Rightarrow> (bytes \<times> bytes) res" where
  "decodeBytes_loop e deepCopy b r =
     (case IndexByte b (esc_escape e) of
        None \<Rightarrow> Inl (Err ''did not find terminator in buffer'')
      | Some i \<Rightarrow>
          if i + 1 \<ge> length b then Inl (Err ''malformed escape in buffer'')
          else if b ! (i + 1) = esc_escapedTerm e then
            Inr (drop (i + 2) b, if r = [] \<and> \<not> deepCopy then take i b else r @ take i b)
          else if b ! (i + 1) \<noteq> esc_escaped00 e then Inl (Err ''unknown escape sequence'')
          else decodeBytes_loop e deepCopy (drop (i + 2) b) (r @ take i b @ [esc_escapedFF e]))"
  by pat_completeness auto
termination
  by (relation "measure (\<lambda>(e, d, b, r). length b)") auto

declare decodeBytes_loop.simps [simp del]

definition decodeBytesInternal ::
  "bytes \<Rightarrow> bytes \<Rightarrow> escapes \<Rightarrow> bool \<Rightarrow> bool \<Rightarrow> (bytes \<times> bytes) res" where
  "decodeBytesInternal b r e expectMarker deepCopy =
     (if expectMarker then
        (case b of
           [] \<Rightarrow> Inl (Err ''did not find marker in buffer'')
         | m # b' \<Rightarrow> if m \<noteq> esc_marker e then Inl (Err ''did not find marker in buffer'')
                    else decodeBytes_loop e deepCopy b' r)
      else decodeBytes_loop e deepCopy b r)"

definition DecodeBytesAscending :: "bytes \<Rightarrow> bytes \<Rightarrow> (bytes \<times> bytes) res" where
  "DecodeBytesAscending b r = decodeBytesInternal b r ascendingBytesEscapes True False"

definition DecodeBytesAscendingDeepCopy :: "bytes \<Rightarrow> bytes \<Rightarrow> (bytes \<times> bytes) res" where
  "DecodeBytesAscendingDeepCopy b r = decodeBytesInternal b r ascendingBytesEscapes True True"

definition DecodeBytesDescending :: "bytes \<Rightarrow> bytes \<Rightarrow> (bytes \<times> bytes) res" where
  "DecodeBytesDescending b r =
     res_bind (decodeBytesInternal b r descendingBytesEscapes True True)
       (\<lambda>(b', r'). Inr (b', onesComplement r'))"

definition DecodeUnsafeStringAscending :: "bytes \<Rightarrow> bytes \<Rightarrow> (bytes \<times> bytes) res" where
  "DecodeUnsafeStringAscending b r = DecodeBytesAscending b r"

definition DecodeUnsafeStringAscendingDeepCopy :: "bytes \<Rightarrow> bytes \<Rightarrow> (bytes \<times> bytes) res" where
  "DecodeUnsafeStringAscendingDeepCopy b r = DecodeBytesAscendingDeepCopy b r"

definition DecodeUnsafeStringDescending :: "bytes \<Rightarrow> bytes \<Rightarrow> (bytes \<times> bytes) res" where
  "DecodeUnsafeStringDescending b r = DecodeBytesDescending b r"

function getBytesLength_loop :: "bytes \<Rightarrow> escapes \<Rightarrow> nat \<Rightarrow> nat res" where
  "getBytesLength_loop b e skipped =
     (if length b < skipped then Inl (Panic ''slice bounds out of range'') else
      case IndexByte (drop skipped b) (esc_escape e) of
        None \<Rightarrow> Inl (Err ''did not find terminator in buffer'')
      | Some i \<Rightarrow>
          if i + 1 \<ge> length b then Inl (Err ''malformed escape in buffer'')
          else
            (let skipped' = skipped + i + escapeLength in
             if skipped' - 1 \<ge> length b then Inl (Panic ''index out of range'')
             else if b ! (skipped' - 1) = esc_escapedTerm e then Inr skipped'
             else getBytesLength_loop b e skipped'))"
  by pat_completeness auto
termination
  by (relation "measure (\<lambda>(b, e, skipped). Suc (length b) - skipped)") (auto simp: escapeLength_def)

declare getBytesLength_loop.simps [simp del]

definition getBytesLength :: "bytes \<Rightarrow> escapes \<Rightarrow> nat res" where
  "getBytesLength b e = getBytesLength_loop b e 1"

section \<open>Escaping as a reference function\<close>

text \<open>Escaping replaces every zero byte; the loop over \<open>IndexByte\<close> computes it.\<close>

fun esc :: "bytes \<Rightarrow> bytes" where
  "esc [] = []"
| "esc (x # xs) = (if x = 0 then 0 # 0xff # esc xs else x # esc xs)"

lemmas escape_consts = escape_def escapedTerm_def escaped00_def escapedFF_def
lemmas escape_records = ascendingBytesEscapes_def descendingBytesEscapes_def

lemma esc_id: "0 \<notin> set xs \<Longrightarrow> esc xs = xs"
  by (induction xs) auto

lemma esc_append: "esc (xs @ ys) = esc xs @ esc ys"
  by (induction xs) auto

lemma zero_split_induct [case_names none some]:
  assumes none: "\<And>xs. (0 :: byte) \<notin> set xs \<Longrightarrow> P xs"
    and some: "\<And>xs ys. 0 \<notin> set xs \<Longrightarrow> P ys \<Longrightarrow> P (xs @ 0 # ys)"
  shows "P data"
proof (induction data rule: length_induct)
  case (1 data)
  show ?case
  proof (cases "0 \<in> set data")
    case True
    then obtain xs ys where "data = xs @ 0 # ys" "0 \<notin> set xs" by (metis split_list_first)
    with 1 some show ?thesis by simp
  next
    case False
    then show ?thesis by (rule none)
  qed
qed

lemma encode_eq_esc: "encodeBytesAscendingWithoutTerminatorOrPrefix b data = b @ esc data"
proof (induction data arbitrary: b rule: zero_split_induct)
  case (none xs)
  then have "IndexByte xs escape = None" by (simp add: IndexByte_None_iff escape_def)
  with none show ?case
    by (subst encodeBytesAscendingWithoutTerminatorOrPrefix.simps) (simp add: esc_id)
next
  case (some xs ys)
  have "IndexByte (xs @ 0 # ys) escape = Some (length xs)"
    using IndexByte_append [OF some(1), of ys] by (simp add: escape_def)
  with some show ?case
    by (subst encodeBytesAscendingWithoutTerminatorOrPrefix.simps)
      (simp add: esc_append esc_id escape_consts)
qed

lemma length_esc: "length (esc xs) = length xs + count_list xs 0"
  by (induction xs) auto

lemma EncodeBytesAscending_eq: "EncodeBytesAscending b data = b @ bytesMarker # esc data @ [0, 1]"
  by (simp add: EncodeBytesAscending_def encodeBytesAscendingWithTerminatorAndPrefix_def
      encodeBytesAscendingWithTerminator_def encode_eq_esc escape_records escape_consts)

lemma EncodeBytesDescending_eq:
  "EncodeBytesDescending b data = b @ bytesDescMarker # map NOT (esc data @ [0, 1])"
  by (simp add: EncodeBytesDescending_def EncodeBytesAscending_eq onesComplement_def Let_def)

section \<open>Order of escaped strings\<close>

lemma esc_ordered: "a < b \<Longrightarrow> esc a @ [0, 1] @ x < esc b @ [0, 1] @ y"
proof (induction a arbitrary: b)
  case Nil
  then show ?case by (cases b) (auto simp: word_neq_0_conv)
next
  case (Cons c a)
  from Cons.prems obtain d b' where b: "b = d # b'" by (cases b) auto
  with Cons show ?case by (auto simp: word_neq_0_conv)
qed

lemma map_NOT_ordered:
  fixes a b :: bytes
  assumes "a < b" and "\<And>x. b \<noteq> a @ x"
  shows "map NOT b @ y < map NOT a @ x"
  using assms
proof (induction a arbitrary: b)
  case Nil
  then show ?case by (metis append_Nil)
next
  case (Cons c a)
  from Cons.prems(1) obtain d b' where b: "b = d # b'" by (cases b) auto
  show ?case
  proof (cases "c = d")
    case True
    with Cons.prems b Cons.IH [of b'] show ?thesis by simp
  next
    case False
    with Cons.prems b show ?thesis by (simp add: NOT_less_iff)
  qed
qed

lemma esc_ordered_NOT: "b < a \<Longrightarrow> map NOT (esc a @ [0, 1]) @ x < map NOT (esc b @ [0, 1]) @ y"
proof (rule map_NOT_ordered)
  assume ba: "b < a"
  then show "esc b @ [0, 1] < esc a @ [0, 1]" using esc_ordered [of b a "[]" "[]"] by simp
  fix z
  show "esc a @ [0, 1] \<noteq> (esc b @ [0, 1]) @ z"
    using esc_ordered [OF ba, of z "[]"] by auto
qed

section \<open>Round trips\<close>

lemma decodeBytes_loop_esc:
  "decodeBytes_loop ascendingBytesEscapes dc (esc data @ 0 # 1 # rest) r = Inr (rest, r @ data)"
proof (induction data arbitrary: r rule: zero_split_induct)
  case (none xs)
  have "IndexByte (xs @ 0 # 1 # rest) 0 = Some (length xs)" using none by simp
  then show ?case
    by (subst decodeBytes_loop.simps)
      (simp add: esc_id none escape_records escape_consts nth_append)
next
  case (some xs ys)
  have "IndexByte (xs @ 0 # 0xff # esc ys @ 0 # 1 # rest) 0 = Some (length xs)" using some by simp
  then show ?case
    using some.IH
    by (subst decodeBytes_loop.simps)
      (simp add: esc_append esc_id some escape_records escape_consts nth_append)
qed

lemma decodeBytes_loop_canonical:
  "decodeBytes_loop ascendingBytesEscapes dc b r = Inr (rest, r') \<Longrightarrow>
   \<exists>data. r' = r @ data \<and> b = esc data @ 0 # 1 # rest"
proof (induction "length b" arbitrary: b r rule: less_induct)
  case less
  from less.prems obtain i where i: "IndexByte b 0 = Some i" and len: "i + 1 < length b"
    by (subst (asm) decodeBytes_loop.simps)
      (auto simp: escape_records escape_consts split: option.splits if_splits)
  let ?v = "b ! (i + 1)"
  from IndexByte_SomeD [OF i] have z: "0 \<notin> set (take i b)"
    and b0: "b = take i b @ 0 # drop (Suc i) b" by auto
  have "drop (Suc i) b = ?v # drop (i + 2) b"
    using len Cons_nth_drop_Suc [of "Suc i" b] by simp
  with b0 have b: "b = take i b @ 0 # ?v # drop (i + 2) b" by simp
  from less.prems i len consider
    (finish) "?v = 1" "rest = drop (i + 2) b" "r' = r @ take i b"
    | (more) "?v = 0xff" "decodeBytes_loop ascendingBytesEscapes dc (drop (i + 2) b) (r @ take i b @ [0]) = Inr (rest, r')"
    by (subst (asm) decodeBytes_loop.simps)
      (auto simp: escape_records escape_consts split: if_splits)
  then show ?case
  proof cases
    case finish
    with b z show ?thesis by (metis esc_id)
  next
    case more
    have "length (drop (i + 2) b) < length b" using len by simp
    from less.hyps [OF this more(2)] obtain data where
      "r' = (r @ take i b @ [0]) @ data" "drop (i + 2) b = esc data @ 0 # 1 # rest" by auto
    then have "r' = r @ (take i b @ 0 # data) \<and> b = esc (take i b @ 0 # data) @ 0 # 1 # rest"
      using b z more(1) by (simp add: esc_append esc_id)
    then show ?thesis by blast
  qed
qed

lemma IndexByte_map_NOT: "IndexByte (map NOT b) (NOT c) = IndexByte b c"
  by (induction b) auto

lemma decodeBytes_loop_complement:
  "decodeBytes_loop descendingBytesEscapes dc (map NOT b) (map NOT r) =
   res_bind (decodeBytes_loop ascendingBytesEscapes dc b r) (\<lambda>(b', r'). Inr (map NOT b', map NOT r'))"
proof (induction "length b" arbitrary: b r rule: less_induct)
  case less
  have eq: "NOT x = NOT y \<longleftrightarrow> x = y" for x y :: byte by simp
  show ?case
  proof (cases "IndexByte b escape")
    case None
    then show ?thesis
      by (subst (1 2) decodeBytes_loop.simps) (simp add: escape_records IndexByte_map_NOT)
  next
    case (Some i)
    have IH: "decodeBytes_loop descendingBytesEscapes dc (map NOT (drop (i + 2) b)) (map NOT (r @ take i b @ [escapedFF])) =
      res_bind (decodeBytes_loop ascendingBytesEscapes dc (drop (i + 2) b) (r @ take i b @ [escapedFF]))
        (\<lambda>(b', r'). Inr (map NOT b', map NOT r'))" if "i + 1 < length b"
      using that by (intro less.hyps) simp
    show ?thesis
      using Some IH
      by (subst (1 2) decodeBytes_loop.simps)
        (auto simp: escape_records IndexByte_map_NOT eq drop_map take_map not_le split del: if_split split: if_split)
  qed
qed

lemma DecodeBytesAscending_EncodeBytesAscending:
  "DecodeBytesAscending (EncodeBytesAscending [] v @ rest) r = Inr (rest, r @ v)"
  using decodeBytes_loop_esc [of False v rest r]
  by (simp add: DecodeBytesAscending_def EncodeBytesAscending_eq decodeBytesInternal_def escape_records)

lemma DecodeBytesDescending_EncodeBytesDescending:
  "DecodeBytesDescending (EncodeBytesDescending [] v @ rest) r = Inr (rest, map NOT r @ v)"
proof -
  have nn: "map NOT (map NOT xs) = xs" for xs :: bytes by (simp add: comp_def)
  have "decodeBytes_loop descendingBytesEscapes True (map NOT (esc v @ 0 # 1 # map NOT rest)) (map NOT (map NOT r))
    = Inr (rest, r @ map NOT v)"
    unfolding decodeBytes_loop_complement decodeBytes_loop_esc by (simp add: nn comp_def)
  then show ?thesis
    by (simp add: DecodeBytesDescending_def EncodeBytesDescending_eq decodeBytesInternal_def
        escape_records onesComplement_def nn comp_def)
qed

lemma getBytesLength_loop_esc:
  "drop k b = esc data @ 0 # 1 # rest \<Longrightarrow> 1 \<le> k \<Longrightarrow>
   getBytesLength_loop b ascendingBytesEscapes k = Inr (k + length (esc data) + 2)"
proof (induction data arbitrary: k rule: zero_split_induct)
  case (none xs)
  then have d: "drop k b = xs @ 0 # 1 # rest" by (simp add: esc_id)
  have kl: "length b = k + length xs + 2 + length rest"
    using arg_cong [OF d, of length] none(3) by simp
  have "b ! (k + length xs + 1) = (drop k b) ! (length xs + 1)"
    using kl by (simp add: nth_drop)
  then have "b ! (k + length xs + 1) = 1" using none by (simp add: esc_id nth_append)
  with none kl show ?case
    by (subst getBytesLength_loop.simps)
      (simp add: esc_id escape_records escape_consts escapeLength_def Let_def)
next
  case (some xs ys)
  let ?k = "k + length xs + 2"
  have d: "drop k b = xs @ 0 # 0xff # esc ys @ 0 # 1 # rest"
    using some by (simp add: esc_append esc_id)
  have kl: "length b = k + length xs + 4 + length (esc ys) + length rest"
    using arg_cong [OF d, of length] some(4) by simp
  have "b ! (k + length xs + 1) = (drop k b) ! (length xs + 1)"
    using kl by (simp add: nth_drop)
  then have v: "b ! (k + length xs + 1) = 0xff" using d by (simp add: nth_append)
  have "drop ?k b = drop (length xs + 2) (drop k b)" by (simp add: ac_simps)
  then have "drop ?k b = esc ys @ 0 # 1 # rest" using d by simp
  then have "getBytesLength_loop b ascendingBytesEscapes ?k = Inr (?k + length (esc ys) + 2)"
    using some.IH by simp
  with d kl v show ?case
    by (subst getBytesLength_loop.simps)
      (simp add: esc_append esc_id some(1) escape_records escape_consts escapeLength_def Let_def)
qed

interpretation bytes_asc: key_codec "EncodeBytesAscending []" "\<lambda>b. DecodeBytesAscending b []" "\<lambda>_. True" "(<)"
proof unfold_locales
  fix a b :: bytes and x y
  assume "a < b"
  then show "EncodeBytesAscending [] a @ x < EncodeBytesAscending [] b @ y"
    using esc_ordered [of a b x y] by (simp add: EncodeBytesAscending_eq)
qed (auto simp: DecodeBytesAscending_EncodeBytesAscending)

interpretation bytes_desc: key_codec "EncodeBytesDescending []" "\<lambda>b. DecodeBytesDescending b []" "\<lambda>_. True" "(>)"
proof unfold_locales
  fix a b :: bytes and x y
  assume "b < a"
  then show "EncodeBytesDescending [] a @ x < EncodeBytesDescending [] b @ y"
    using esc_ordered_NOT [of b a x y] by (simp add: EncodeBytesDescending_eq)
qed (auto simp: DecodeBytesDescending_EncodeBytesDescending)

text \<open>Composite keys: a byte string followed by an integer, as index keys concatenate columns.\<close>

interpretation bytes_varint: key_codec_pair
  "EncodeBytesAscending []" "\<lambda>b. DecodeBytesAscending b []" "\<lambda>_. True" "(<)"
  "EncodeVarintAscending []" DecodeVarintAscending in64 "(<)"
  by unfold_locales

section \<open>Properties\<close>

text \<open>
  C17. The byte-string key encodings preserve order: \<open>EncodeBytesAscending\<close> orders the
  encoded keys as \<open>bytes.Compare\<close> orders the strings, \<open>EncodeBytesDescending\<close> in
  reverse, for all strings, embedded zero bytes included, whatever follows in the key.
\<close>

theorem bytes_order_preserving:
  "(EncodeBytesAscending p a @ x < EncodeBytesAscending p b @ y \<longleftrightarrow> a < b \<or> a = b \<and> x < y) \<and>
   (EncodeBytesDescending p a @ x < EncodeBytesDescending p b @ y \<longleftrightarrow> b < a \<or> a = b \<and> x < y)"
  using bytes_asc.order_iff_append [of a x b y] bytes_desc.order_iff_append [of a x b y]
  by (simp add: EncodeBytesAscending_eq EncodeBytesDescending_eq)

text \<open>
  C18. The ascending decoder accepts exactly what the encoder produces: it returns
  \<open>(rest, data)\<close> if and only if the buffer is the encoding of \<open>data\<close> followed by
  \<open>rest\<close>. So it inverts the encoder, and it never accepts a second spelling of a value.
  The decoder that copies its result agrees with it.
\<close>

theorem bytes_decode_iff_encoded:
  "(DecodeBytesAscending b [] = Inr (rest, data) \<longleftrightarrow> b = EncodeBytesAscending [] data @ rest) \<and>
   DecodeBytesAscendingDeepCopy b [] = DecodeBytesAscending b []"
proof
  have "decodeBytes_loop e True b r = decodeBytes_loop e False b r" for e b r
  proof (induction "length b" arbitrary: b r rule: less_induct)
    case less
    show ?case
      by (subst (1 2) decodeBytes_loop.simps) (auto intro: less.hyps split: option.splits)
  qed
  then show "DecodeBytesAscendingDeepCopy b [] = DecodeBytesAscending b []"
    by (simp add: DecodeBytesAscendingDeepCopy_def DecodeBytesAscending_def decodeBytesInternal_def
        split: list.splits)
  show "DecodeBytesAscending b [] = Inr (rest, data) \<longleftrightarrow> b = EncodeBytesAscending [] data @ rest"
  proof
    assume "DecodeBytesAscending b [] = Inr (rest, data)"
    then obtain b' where "b = bytesMarker # b'"
      "decodeBytes_loop ascendingBytesEscapes False b' [] = Inr (rest, data)"
      by (auto simp: DecodeBytesAscending_def decodeBytesInternal_def escape_records
          split: list.splits if_splits)
    with decodeBytes_loop_canonical [of False b' "[]" rest data]
    show "b = EncodeBytesAscending [] data @ rest" by (auto simp: EncodeBytesAscending_eq)
  qed (simp add: DecodeBytesAscending_EncodeBytesAscending)
qed

text \<open>
  Decoding appends to the caller's buffer \<open>r\<close> in the ascending direction, and in the
  descending direction round-trips the value but returns \<open>r\<close> complemented: the
  complement is applied to the whole result, not only to the decoded bytes.
\<close>

theorem bytes_decode_into_buffer:
  "DecodeBytesAscending (EncodeBytesAscending [] v @ rest) r = Inr (rest, r @ v) \<and>
   DecodeBytesDescending (EncodeBytesDescending [] v @ rest) r = Inr (rest, onesComplement r @ v)"
  by (simp add: DecodeBytesAscending_EncodeBytesAscending DecodeBytesDescending_EncodeBytesDescending
      onesComplement_def)

text \<open>
  The size functions are exact, the encoding of the successor string computed without
  building it is the encoding of the string with a zero byte appended, and scanning an encoded
  value with \<open>getBytesLength\<close> stops exactly at its end, whatever follows.
\<close>

theorem bytes_sizes:
  "int (length (EncodeBytesAscending p d)) = int (length p) + EncodeBytesSize d \<and>
   int (length (EncodeBytesDescending p d)) = int (length p) + EncodeBytesSize d \<and>
   EncodeNextBytesAscending p d = EncodeBytesAscending p (d @ [0]) \<and>
   EncodeNextBytesSize d = EncodeBytesSize (d @ [0]) \<and>
   getBytesLength (EncodeBytesAscending [] d @ rest) ascendingBytesEscapes =
     Inr (length (EncodeBytesAscending [] d))"
proof -
  have "getBytesLength_loop (EncodeBytesAscending [] d @ rest) ascendingBytesEscapes 1 =
      Inr (1 + length (esc d) + 2)"
    by (rule getBytesLength_loop_esc) (simp_all add: EncodeBytesAscending_eq)
  moreover have "EncodeNextBytesAscending p d = EncodeBytesAscending p (d @ [0])"
    by (simp add: EncodeNextBytesAscending_def encodeNextBytesAscendingWithTerminator_def
        encode_eq_esc EncodeBytesAscending_eq esc_append escape_records escape_consts)
  ultimately show ?thesis
    by (simp add: EncodeBytesAscending_eq EncodeBytesDescending_eq EncodeBytesSize_def
        EncodeNextBytesSize_def length_esc getBytesLength_def escape_def)
qed

text \<open>
  A composite key of a byte string and an \<open>int64\<close> sorts lexicographically by its
  columns and decodes column by column.
\<close>

theorem composite_key_order:
  assumes "in64 m" and "in64 n"
  shows "(EncodeVarintAscending (EncodeBytesAscending [] a) m < EncodeVarintAscending (EncodeBytesAscending [] b) n
      \<longleftrightarrow> a < b \<or> a = b \<and> m < n) \<and>
    dec_pair (\<lambda>b. DecodeBytesAscending b []) DecodeVarintAscending
      (EncodeVarintAscending (EncodeBytesAscending [] a) m @ rest) = Inr (rest, a, m)"
  using bytes_varint.pair.order_iff [of "(a, m)" "(b, n)"]
    bytes_varint.pair.roundtrip [of "(a, m)" rest] assms
  by (simp add: lex_before_def EncodeVarintAscending_append [of "EncodeBytesAscending [] a"]
      EncodeVarintAscending_append [of "EncodeBytesAscending [] b"])

theorem composite_key_order_witness:
  "EncodeVarintAscending (EncodeBytesAscending [] [0]) 5 < EncodeVarintAscending (EncodeBytesAscending [] [0, 0]) (-1)"
proof -
  have h: "in64 5" "in64 (-1)" by (simp_all add: in64_def go_limits)
  show ?thesis using composite_key_order [OF h, of "[0]" "[0, 0]"] by simp
qed

text \<open>
  \<open>getBytesLength\<close> panics on a truncated escape: its bound check compares the
  offset in the unscanned suffix with the length of the whole buffer, so a buffer that ends right
  after an escape byte is indexed out of range instead of being reported as malformed.
\<close>

theorem getBytesLength_truncated_escape_panics:
  "getBytesLength [bytesMarker, escape] ascendingBytesEscapes = Inl (Panic ''index out of range'') \<and>
   DecodeBytesAscending [bytesMarker, escape] [] = Inl (Err ''malformed escape in buffer'')"
  by (simp add: getBytesLength_def getBytesLength_loop.simps DecodeBytesAscending_def
      decodeBytesInternal_def decodeBytes_loop.simps escape_records escape_consts escapeLength_def Let_def)

end
