(* ===== verification/Encoding_Keys.thy ===== *)
theory Encoding_Keys
  imports Encoding_Bytes
begin

text \<open>
  The tags of \<open>pkg/util/encoding/encoding.go\<close>: NULL markers, the type of an encoded
  value (\<open>PeekType\<close>), times, time-of-day with a zone, array keys, and
  \<open>PeekLength\<close>, which finds the end of the next encoded value without decoding it.
  \<open>PeekLength\<close> and \<open>getArrayLength\<close> call each other; the body of
  \<open>PeekLength\<close> is a functional over its recursive calls, iterated with fuel twice the
  length of the buffer, and the fixed-point equations of the source are proved.
  \<open>time.Time\<close> is the pair of its Unix seconds and nanoseconds.
\<close>

unbundle bit_operations_syntax

section \<open>Markers\<close>

definition encodedNull :: byte where "encodedNull = 0x00"
definition encodedNotNull :: byte where "encodedNotNull = 0x01"
definition floatNaN :: byte where "floatNaN = encodedNotNull + 1"
definition floatNeg :: byte where "floatNeg = floatNaN + 1"
definition floatZero :: byte where "floatZero = floatNeg + 1"
definition floatPos :: byte where "floatPos = floatZero + 1"
definition floatNaNDesc :: byte where "floatNaNDesc = floatPos + 1"
definition timeMarker :: byte where "timeMarker = bytesDescMarker + 1"
definition durationBigNegMarker :: byte where "durationBigNegMarker = timeMarker + 1"
definition durationMarker :: byte where "durationMarker = durationBigNegMarker + 1"
definition durationBigPosMarker :: byte where "durationBigPosMarker = durationMarker + 1"
definition decimalNaN :: byte where "decimalNaN = durationBigPosMarker + 1"
definition decimalNegativeInfinity :: byte where "decimalNegativeInfinity = decimalNaN + 1"
definition decimalNegLarge :: byte where "decimalNegLarge = decimalNegativeInfinity + 1"
definition decimalNegMedium :: byte where "decimalNegMedium = decimalNegLarge + 11"
definition decimalNegSmall :: byte where "decimalNegSmall = decimalNegMedium + 1"
definition decimalZero :: byte where "decimalZero = decimalNegSmall + 1"
definition decimalPosSmall :: byte where "decimalPosSmall = decimalZero + 1"
definition decimalPosMedium :: byte where "decimalPosMedium = decimalPosSmall + 1"
definition decimalPosLarge :: byte where "decimalPosLarge = decimalPosMedium + 11"
definition decimalInfinity :: byte where "decimalInfinity = decimalPosLarge + 1"
definition decimalNaNDesc :: byte where "decimalNaNDesc = decimalInfinity + 1"
definition decimalTerminator :: byte where "decimalTerminator = 0x00"
definition jsonInvertedIndex :: byte where "jsonInvertedIndex = decimalNaNDesc + 1"
definition jsonEmptyArray :: byte where "jsonEmptyArray = jsonInvertedIndex + 1"
definition jsonEmptyObject :: byte where "jsonEmptyObject = jsonEmptyArray + 1"
definition bitArrayMarker :: byte where "bitArrayMarker = jsonEmptyObject + 1"
definition bitArrayDescMarker :: byte where "bitArrayDescMarker = bitArrayMarker + 1"
definition bitArrayDataTerminator :: byte where "bitArrayDataTerminator = 0x00"
definition bitArrayDataDescTerminator :: byte where "bitArrayDataDescTerminator = 0xff"
definition timeTZMarker :: byte where "timeTZMarker = bitArrayDescMarker + 1"
definition geoMarker :: byte where "geoMarker = timeTZMarker + 1"
definition geoDescMarker :: byte where "geoDescMarker = geoMarker + 1"
definition arrayKeyMarker :: byte where "arrayKeyMarker = geoDescMarker + 1"
definition arrayKeyDescendingMarker :: byte where "arrayKeyDescendingMarker = arrayKeyMarker + 1"
definition box2DMarker :: byte where "box2DMarker = arrayKeyDescendingMarker + 1"
definition geoInvertedIndexMarker :: byte where "geoInvertedIndexMarker = box2DMarker + 1"
definition emptyArray :: byte where "emptyArray = geoInvertedIndexMarker + 1"
definition voidMarker :: byte where "voidMarker = emptyArray + 1"
definition arrayKeyTerminator :: byte where "arrayKeyTerminator = 0x00"
definition arrayKeyDescendingTerminator :: byte where "arrayKeyDescendingTerminator = 0xff"
definition ascendingNullWithinArrayKey :: byte where "ascendingNullWithinArrayKey = 0x01"
definition descendingNullWithinArrayKey :: byte where "descendingNullWithinArrayKey = 0xfe"
definition encodedNotNullDesc :: byte where "encodedNotNullDesc = 0xfe"
definition encodedNullDesc :: byte where "encodedNullDesc = 0xff"
definition uint64AscendingEncodedLength :: nat where "uint64AscendingEncodedLength = 8"
definition geoInvertedTwoFloats :: byte where "geoInvertedTwoFloats = 1"
definition offsetSecsToMicros :: int where "offsetSecsToMicros = 1000000"

lemmas marker_defs = encodedNull_def encodedNotNull_def floatNaN_def floatNeg_def floatZero_def
  floatPos_def floatNaNDesc_def timeMarker_def durationBigNegMarker_def durationMarker_def
  durationBigPosMarker_def decimalNaN_def decimalNegativeInfinity_def decimalNegLarge_def
  decimalNegMedium_def decimalNegSmall_def decimalZero_def decimalPosSmall_def decimalPosMedium_def
  decimalPosLarge_def decimalInfinity_def decimalNaNDesc_def decimalTerminator_def
  jsonInvertedIndex_def jsonEmptyArray_def jsonEmptyObject_def bitArrayMarker_def
  bitArrayDescMarker_def bitArrayDataTerminator_def bitArrayDataDescTerminator_def
  timeTZMarker_def geoMarker_def geoDescMarker_def arrayKeyMarker_def arrayKeyDescendingMarker_def
  box2DMarker_def geoInvertedIndexMarker_def emptyArray_def voidMarker_def arrayKeyTerminator_def
  arrayKeyDescendingTerminator_def ascendingNullWithinArrayKey_def descendingNullWithinArrayKey_def
  encodedNotNullDesc_def encodedNullDesc_def bytesMarker_def bytesDescMarker_def

definition ascendingGeoEscapes :: escapes where
  "ascendingGeoEscapes =
     \<lparr>esc_escape = escape, esc_escapedTerm = escapedTerm, esc_escaped00 = escaped00,
      esc_escapedFF = escapedFF, esc_marker = geoMarker\<rparr>"

definition descendingGeoEscapes :: escapes where
  "descendingGeoEscapes =
     \<lparr>esc_escape = NOT escape, esc_escapedTerm = NOT escapedTerm, esc_escaped00 = NOT escaped00,
      esc_escapedFF = NOT escapedFF, esc_marker = geoDescMarker\<rparr>"

section \<open>Types of encoded values\<close>

datatype Direction = Ascending | Descending

datatype Type = T_Unknown | T_Null | T_NotNull | T_Int | T_Float | T_Decimal | T_Bytes | T_BytesDesc
  | T_Time | T_Duration | T_True | T_False | T_UUID | T_Array | T_IPAddr | T_JSON | T_Tuple
  | T_BitArray | T_BitArrayDesc | T_TimeTZ | T_Geo | T_GeoDesc | T_ArrayKeyAsc | T_ArrayKeyDesc
  | T_Box2D | T_Void | T_TSQuery | T_TSVector

text \<open>The numbers of the type constants, which are persisted in value tags.\<close>

fun type_code :: "Type \<Rightarrow> int" where
  "type_code T_Unknown = 0"
| "type_code T_Null = 1"
| "type_code T_NotNull = 2"
| "type_code T_Int = 3"
| "type_code T_Float = 4"
| "type_code T_Decimal = 5"
| "type_code T_Bytes = 6"
| "type_code T_BytesDesc = 7"
| "type_code T_Time = 8"
| "type_code T_Duration = 9"
| "type_code T_True = 10"
| "type_code T_False = 11"
| "type_code T_UUID = 12"
| "type_code T_Array = 13"
| "type_code T_IPAddr = 14"
| "type_code T_JSON = 15"
| "type_code T_Tuple = 16"
| "type_code T_BitArray = 17"
| "type_code T_BitArrayDesc = 18"
| "type_code T_TimeTZ = 19"
| "type_code T_Geo = 20"
| "type_code T_GeoDesc = 21"
| "type_code T_ArrayKeyAsc = 22"
| "type_code T_ArrayKeyDesc = 23"
| "type_code T_Box2D = 24"
| "type_code T_Void = 25"
| "type_code T_TSQuery = 26"
| "type_code T_TSVector = 27"

definition type_byte :: "Type \<Rightarrow> byte" where
  "type_byte t = tag_byte (type_code t)"

fun slowPeekType :: "bytes \<Rightarrow> Type" where
  "slowPeekType [] = T_Unknown"
| "slowPeekType (m # _) =
     (if m = encodedNull \<or> m = encodedNullDesc then T_Null
      else if m = encodedNotNull \<or> m = encodedNotNullDesc then T_NotNull
      else if m = arrayKeyMarker then T_ArrayKeyAsc
      else if m = arrayKeyDescendingMarker then T_ArrayKeyDesc
      else if m = bytesMarker then T_Bytes
      else if m = bytesDescMarker then T_BytesDesc
      else if m = bitArrayMarker then T_BitArray
      else if m = bitArrayDescMarker then T_BitArrayDesc
      else if m = timeMarker then T_Time
      else if m = timeTZMarker then T_TimeTZ
      else if m = geoMarker then T_Geo
      else if m = box2DMarker then T_Box2D
      else if m = geoDescMarker then T_GeoDesc
      else if m = type_byte T_Array then T_Array
      else if m = type_byte T_True then T_True
      else if m = type_byte T_False then T_False
      else if m = durationBigNegMarker \<or> m = durationMarker \<or> m = durationBigPosMarker then T_Duration
      else if IntMin \<le> uint m \<and> uint m \<le> IntMax then T_Int
      else if floatNaN \<le> m \<and> m \<le> floatNaNDesc then T_Float
      else if decimalNaN \<le> m \<and> m \<le> decimalNaNDesc then T_Decimal
      else if m = voidMarker then T_Void
      else T_Unknown)"

text \<open>The table is filled by \<open>init\<close> from \<open>slowPeekType\<close>, one slot per byte.\<close>

definition typMap :: "Type list" where
  "typMap = map (\<lambda>i. slowPeekType [word_of_nat i]) [0..<256]"

definition PeekType :: "bytes \<Rightarrow> Type" where
  "PeekType b = (if length b \<ge> 1 then typMap ! unat (hd b) else T_Unknown)"

section \<open>Markers, nulls, booleans\<close>

definition EncodeNullAscending :: "bytes \<Rightarrow> bytes" where
  "EncodeNullAscending b = b @ [encodedNull]"

definition EncodeNullDescending :: "bytes \<Rightarrow> bytes" where
  "EncodeNullDescending b = b @ [encodedNullDesc]"

definition EncodeNotNullAscending :: "bytes \<Rightarrow> bytes" where
  "EncodeNotNullAscending b = b @ [encodedNotNull]"

definition EncodeNotNullDescending :: "bytes \<Rightarrow> bytes" where
  "EncodeNotNullDescending b = b @ [encodedNotNullDesc]"

definition EncodeTrueAscending :: "bytes \<Rightarrow> bytes" where
  "EncodeTrueAscending b = b @ [type_byte T_True]"

definition EncodeFalseAscending :: "bytes \<Rightarrow> bytes" where
  "EncodeFalseAscending b = b @ [type_byte T_False]"

definition EncodeJSONAscending :: "bytes \<Rightarrow> bytes" where
  "EncodeJSONAscending b = b @ [jsonInvertedIndex]"

definition EncodeGeoInvertedAscending :: "bytes \<Rightarrow> bytes" where
  "EncodeGeoInvertedAscending b = b @ [geoInvertedIndexMarker]"

definition EncodeJSONEmptyArray :: "bytes \<Rightarrow> bytes" where
  "EncodeJSONEmptyArray b = b @ [escape, escapedTerm, jsonEmptyArray]"

definition EncodeJSONEmptyObject :: "bytes \<Rightarrow> bytes" where
  "EncodeJSONEmptyObject b = b @ [escape, escapedTerm, jsonEmptyObject]"

definition EncodeEmptyArray :: "bytes \<Rightarrow> bytes" where
  "EncodeEmptyArray b = b @ [emptyArray]"

definition DecodeIfNull :: "bytes \<Rightarrow> bytes \<times> bool" where
  "DecodeIfNull b = (if PeekType b = T_Null then (drop 1 b, True) else (b, False))"

definition DecodeIfNotNull :: "bytes \<Rightarrow> bytes \<times> bool" where
  "DecodeIfNotNull b = (if PeekType b = T_NotNull then (drop 1 b, True) else (b, False))"

definition EncodeVoidAscendingOrDescending :: "bytes \<Rightarrow> bytes" where
  "EncodeVoidAscendingOrDescending b = b @ [voidMarker]"

definition DecodeVoidAscendingOrDescending :: "bytes \<Rightarrow> bytes res" where
  "DecodeVoidAscendingOrDescending b =
     (if PeekType b \<noteq> T_Void then Inl (Err ''did not find Void marker'') else Inr (drop 1 b))"

section \<open>Times\<close>

record gotime =
  t_unix :: int
  t_nanos :: int

text \<open>\<open>time.Unix\<close> of the standard library normalises the nanoseconds.\<close>

definition timeutil_Unix :: "int \<Rightarrow> int \<Rightarrow> gotime" where
  "timeutil_Unix sec nsec =
     \<lparr>t_unix = wrap64 (sec + nsec div 1000000000), t_nanos = nsec mod 1000000000\<rparr>"

definition encodeTime :: "bytes \<Rightarrow> int \<Rightarrow> int \<Rightarrow> bytes" where
  "encodeTime b u nanos = EncodeVarintAscending (EncodeVarintAscending (b @ [timeMarker]) u) nanos"

definition EncodeTimeAscending :: "bytes \<Rightarrow> gotime \<Rightarrow> bytes" where
  "EncodeTimeAscending b t = encodeTime b (t_unix t) (t_nanos t)"

definition EncodeTimeDescending :: "bytes \<Rightarrow> gotime \<Rightarrow> bytes" where
  "EncodeTimeDescending b t = encodeTime b (NOT (t_unix t)) (NOT (t_nanos t))"

definition decodeTime :: "bytes \<Rightarrow> (bytes \<times> int \<times> int) res" where
  "decodeTime b =
     (if PeekType b \<noteq> T_Time then Inl (Err ''did not find marker'')
      else res_bind (DecodeVarintAscending (drop 1 b)) (\<lambda>(b, sec).
           res_bind (DecodeVarintAscending b) (\<lambda>(b, nsec). Inr (b, sec, nsec))))"

definition DecodeTimeAscending :: "bytes \<Rightarrow> (bytes \<times> gotime) res" where
  "DecodeTimeAscending b =
     res_bind (decodeTime b) (\<lambda>(b, sec, nsec). Inr (b, timeutil_Unix sec nsec))"

definition DecodeTimeDescending :: "bytes \<Rightarrow> (bytes \<times> gotime) res" where
  "DecodeTimeDescending b =
     res_bind (decodeTime b) (\<lambda>(b, sec, nsec). Inr (b, timeutil_Unix (NOT sec) (NOT nsec)))"

record TimeTZ =
  TimeOfDay :: int
  OffsetSecs :: int

definition encodeTimeTZ :: "bytes \<Rightarrow> int \<Rightarrow> int \<Rightarrow> bytes" where
  "encodeTimeTZ b unixMicros offsetSecs =
     EncodeVarintAscending (EncodeVarintAscending (b @ [timeTZMarker]) unixMicros) offsetSecs"

definition EncodeTimeTZAscending :: "bytes \<Rightarrow> TimeTZ \<Rightarrow> bytes" where
  "EncodeTimeTZAscending b t =
     encodeTimeTZ b (wrap64 (TimeOfDay t + OffsetSecs t * offsetSecsToMicros)) (OffsetSecs t)"

definition EncodeTimeTZDescending :: "bytes \<Rightarrow> TimeTZ \<Rightarrow> bytes" where
  "EncodeTimeTZDescending b t =
     encodeTimeTZ b (NOT (wrap64 (TimeOfDay t + OffsetSecs t * offsetSecsToMicros))) (NOT (OffsetSecs t))"

definition decodeTimeTZ :: "bytes \<Rightarrow> (bytes \<times> int \<times> int) res" where
  "decodeTimeTZ b =
     (if PeekType b \<noteq> T_TimeTZ then Inl (Err ''did not find marker'')
      else res_bind (DecodeVarintAscending (drop 1 b)) (\<lambda>(b, unixMicros).
           res_bind (DecodeVarintAscending b) (\<lambda>(b, offsetSecs). Inr (b, unixMicros, wrap32 offsetSecs))))"

definition DecodeTimeTZAscending :: "bytes \<Rightarrow> (bytes \<times> TimeTZ) res" where
  "DecodeTimeTZAscending b =
     res_bind (decodeTimeTZ b) (\<lambda>(b, unixMicros, offsetSecs).
       Inr (b, \<lparr>TimeOfDay = wrap64 (unixMicros - offsetSecs * offsetSecsToMicros), OffsetSecs = offsetSecs\<rparr>))"

definition DecodeTimeTZDescending :: "bytes \<Rightarrow> (bytes \<times> TimeTZ) res" where
  "DecodeTimeTZDescending b =
     res_bind (decodeTimeTZ b) (\<lambda>(b, unixMicros, offsetSecs).
       Inr (b, \<lparr>TimeOfDay = wrap64 (NOT unixMicros - NOT offsetSecs * offsetSecsToMicros),
                OffsetSecs = NOT offsetSecs\<rparr>))"

section \<open>Array keys\<close>

definition EncodeArrayKeyMarker :: "bytes \<Rightarrow> Direction \<Rightarrow> bytes" where
  "EncodeArrayKeyMarker buf dir =
     (case dir of Ascending \<Rightarrow> buf @ [arrayKeyMarker] | Descending \<Rightarrow> buf @ [arrayKeyDescendingMarker])"

definition EncodeArrayKeyTerminator :: "bytes \<Rightarrow> Direction \<Rightarrow> bytes" where
  "EncodeArrayKeyTerminator buf dir =
     (case dir of Ascending \<Rightarrow> buf @ [arrayKeyTerminator]
      | Descending \<Rightarrow> buf @ [arrayKeyDescendingTerminator])"

definition EncodeNullWithinArrayKey :: "bytes \<Rightarrow> Direction \<Rightarrow> bytes" where
  "EncodeNullWithinArrayKey buf dir =
     (case dir of Ascending \<Rightarrow> buf @ [ascendingNullWithinArrayKey]
      | Descending \<Rightarrow> buf @ [descendingNullWithinArrayKey])"

fun IsNextByteArrayEncodedNull :: "bytes \<Rightarrow> Direction \<Rightarrow> bool res" where
  "IsNextByteArrayEncodedNull [] dir = Inl (Panic ''index out of range'')"
| "IsNextByteArrayEncodedNull (m # _) dir =
     Inr (m = (if dir = Descending then descendingNullWithinArrayKey else ascendingNullWithinArrayKey))"

definition ValidateAndConsumeArrayKeyMarker :: "bytes \<Rightarrow> Direction \<Rightarrow> bytes res" where
  "ValidateAndConsumeArrayKeyMarker buf dir =
     (if PeekType buf \<noteq> (if dir = Descending then T_ArrayKeyDesc else T_ArrayKeyAsc)
      then Inl (Err ''invalid type found'') else Inr (drop 1 buf))"

fun IsArrayKeyDone :: "bytes \<Rightarrow> Direction \<Rightarrow> bool res" where
  "IsArrayKeyDone [] dir = Inl (Panic ''index out of range'')"
| "IsArrayKeyDone (m # _) dir =
     Inr (m = (if dir = Descending then arrayKeyDescendingTerminator else arrayKeyTerminator))"

section \<open>Lengths of encoded values\<close>

text \<open>The number of varints is a \<open>nat\<close>; the callers pass 2 and 3.\<close>

fun GetMultiVarintLen_loop :: "bytes \<Rightarrow> nat \<Rightarrow> nat \<Rightarrow> nat res" where
  "GetMultiVarintLen_loop b 0 p = Inr p"
| "GetMultiVarintLen_loop b (Suc num) p =
     (if p < length b then
        res_bind (getVarintLen (drop p b)) (\<lambda>len. GetMultiVarintLen_loop b num (p + nat len))
      else Inr p)"

definition GetMultiVarintLen :: "bytes \<Rightarrow> nat \<Rightarrow> nat res" where
  "GetMultiVarintLen b num = GetMultiVarintLen_loop b num 1"

lemma getVarintLen_bounds: "getVarintLen b = Inr n \<Longrightarrow> 1 \<le> n \<and> n \<le> int (length b)"
  by (cases b) (auto simp: Let_def split: if_splits)

function getBitArrayWordsLen_loop :: "bytes \<Rightarrow> byte \<Rightarrow> nat \<Rightarrow> nat \<Rightarrow> (nat \<times> nat) res" where
  "getBitArrayWordsLen_loop bSearch trm numWords sz =
     (if bSearch = [] then Inl (Err ''slice too short for bit array'')
      else if hd bSearch = trm then Inr (numWords, sz)
      else case getVarintLen bSearch of
        Inl e \<Rightarrow> Inl e
      | Inr vLen \<Rightarrow> getBitArrayWordsLen_loop (drop (nat vLen) bSearch) trm (numWords + 1) (sz + nat vLen))"
  by pat_completeness auto
termination
  by (relation "measure (\<lambda>(b, _, _, _). length b)") (auto dest: getVarintLen_bounds)

declare getBitArrayWordsLen_loop.simps [simp del]

definition getBitArrayWordsLen :: "bytes \<Rightarrow> byte \<Rightarrow> (nat \<times> nat) res" where
  "getBitArrayWordsLen b trm = getBitArrayWordsLen_loop b trm 0 0"

fun peekBox2DLength_loop :: "nat \<Rightarrow> bytes \<Rightarrow> nat \<Rightarrow> nat res" where
  "peekBox2DLength_loop 0 cur len = Inr len"
| "peekBox2DLength_loop (Suc i) cur len =
     (if cur = [] then Inl (Err ''slice too short for box2d'')
      else if hd cur = floatNaN \<or> hd cur = floatNaNDesc \<or> hd cur = floatZero
        then peekBox2DLength_loop i (drop 1 cur) (len + 1)
      else if hd cur = floatNeg \<or> hd cur = floatPos
        then res_bind (slice_from 9 cur) (\<lambda>cur. peekBox2DLength_loop i cur (len + 9))
      else Inl (Err ''unexpected marker for box2d''))"

definition peekBox2DLength :: "bytes \<Rightarrow> nat res" where
  "peekBox2DLength b = peekBox2DLength_loop 4 b 0"

definition findDecimalTerminator :: "bytes \<Rightarrow> nat res" where
  "findDecimalTerminator buf =
     (case IndexByte buf decimalTerminator of
        Some idx \<Rightarrow> Inr idx | None \<Rightarrow> Inl (Err ''did not find terminator in buffer''))"

definition getDecimalLen :: "bytes \<Rightarrow> nat res" where
  "getDecimalLen buf =
     (case buf of [] \<Rightarrow> Inl (Panic ''index out of range'') | m # b1 \<Rightarrow>
      if m < decimalNaN \<or> m > decimalNaNDesc then Inl (Panic ''invalid tag'')
      else if m \<in> {decimalNaN, decimalNegativeInfinity, decimalNaNDesc, decimalInfinity, decimalZero}
        then Inr 1
      else
        res_bind
          (if m \<in> {decimalNegLarge, decimalNegSmall, decimalPosLarge, decimalPosSmall}
           then res_bind (getVarintLen b1) (\<lambda>l. Inr (1 + nat l)) else Inr 1)
          (\<lambda>p. res_bind (findDecimalTerminator (drop p buf)) (\<lambda>idx. Inr (p + idx + 1))))"

text \<open>Scanning a JSON path for its terminator; the index of the last byte may run past the end.\<close>

function getInvertedIndexKeyLength_loop :: "bytes \<Rightarrow> nat \<Rightarrow> nat res" where
  "getInvertedIndexKeyLength_loop b skipped =
     (if length b < skipped then Inl (Panic ''slice bounds out of range'') else
      case IndexByte (drop skipped b) escape of
        None \<Rightarrow> Inl (Err ''malformed inverted index key in buffer'')
      | Some i \<Rightarrow>
          (let skipped' = skipped + i + escapeLength in
           if skipped' - 1 \<ge> length b then Inl (Panic ''index out of range'')
           else if b ! (skipped' - 1) \<in> {escapedTerm, jsonEmptyObject, jsonEmptyArray} then Inr skipped'
           else getInvertedIndexKeyLength_loop b skipped'))"
  by pat_completeness auto
termination
  by (relation "measure (\<lambda>(b, skipped). Suc (length b) - skipped)") (auto simp: escapeLength_def)

declare getInvertedIndexKeyLength_loop.simps [simp del]

definition getInvertedIndexKeyLength :: "bytes \<Rightarrow> nat res" where
  "getInvertedIndexKeyLength b = getInvertedIndexKeyLength_loop b 0"

definition getJSONInvertedIndexKeyLength :: "(bytes \<Rightarrow> nat res) \<Rightarrow> bytes \<Rightarrow> nat res" where
  "getJSONInvertedIndexKeyLength peek buf =
     res_bind (getInvertedIndexKeyLength buf) (\<lambda>len.
       if length buf \<le> len then Inl (Panic ''index out of range'')
       else if buf ! len \<in> {jsonEmptyArray, jsonEmptyObject} then Inr (len + 1)
       else res_bind (peek (drop len buf)) (\<lambda>valLen. Inr (len + valLen)))"

definition getGeoInvertedIndexKeyLength :: "bytes \<Rightarrow> nat res" where
  "getGeoInvertedIndexKeyLength buf =
     (if length buf < 3 + 2 * uint64AscendingEncodedLength then Inl (Err ''buf length too small'')
      else res_bind (getVarintLen (drop 1 buf)) (\<lambda>cellLen.
        if length buf \<le> 1 + nat cellLen then Inl (Panic ''index out of range'')
        else Inr (1 + nat cellLen + 1 +
          (if buf ! (1 + nat cellLen) = geoInvertedTwoFloats then 2 * uint64AscendingEncodedLength
           else 4 * uint64AscendingEncodedLength))))"

section \<open>\<open>PeekLength\<close>\<close>

text \<open>One round of the array loop and the body of \<open>PeekLength\<close>, over the functions they call.\<close>

definition getArrayLength_body ::
  "(bytes \<Rightarrow> nat res) \<Rightarrow> (bytes \<Rightarrow> Direction \<Rightarrow> nat \<Rightarrow> nat res) \<Rightarrow> bytes \<Rightarrow> Direction \<Rightarrow> nat \<Rightarrow> nat res" where
  "getArrayLength_body peek loop buf dir result =
     (if buf = [] then Inl (Err ''invalid array encoding (unterminated)'')
      else res_bind (IsArrayKeyDone buf dir) (\<lambda>done.
        if done then Inr (result + 1)
        else res_bind (peek buf) (\<lambda>next.
          res_bind (slice_from next buf) (\<lambda>buf. loop buf dir (result + next)))))"

definition PeekLength_body ::
  "(bytes \<Rightarrow> nat res) \<Rightarrow> (bytes \<Rightarrow> Direction \<Rightarrow> nat \<Rightarrow> nat res) \<Rightarrow> bytes \<Rightarrow> nat res" where
  "PeekLength_body peek arr b =
     (case b of [] \<Rightarrow> Inl (Err ''empty slice'') | m # b1 \<Rightarrow>
      if m \<in> {encodedNull, encodedNullDesc, encodedNotNull, encodedNotNullDesc, floatNaN, floatNaNDesc,
              floatZero, decimalZero, type_byte T_True, type_byte T_False, emptyArray, voidMarker}
        then Inr 1
      else if m = bitArrayMarker \<or> m = bitArrayDescMarker then
        res_bind (getBitArrayWordsLen b1
            (if m = bitArrayDescMarker then bitArrayDataDescTerminator else bitArrayDataTerminator))
          (\<lambda>(_, n). res_bind (slice_from (n + 2) b) (\<lambda>r.
             res_bind (getVarintLen r) (\<lambda>m. Inr (1 + n + nat m + 1))))
      else if m = arrayKeyMarker \<or> m = arrayKeyDescendingMarker then
        res_bind (arr b1 (if m = arrayKeyDescendingMarker then Descending else Ascending) 0)
          (\<lambda>length. Inr (1 + length))
      else if m = bytesMarker then getBytesLength b ascendingBytesEscapes
      else if m = box2DMarker then res_bind (peekBox2DLength b1) (\<lambda>length. Inr (1 + length))
      else if m = geoInvertedIndexMarker then getGeoInvertedIndexKeyLength b
      else if m = geoMarker then
        (if length b < 8 then Inl (Err ''slice too short for spatial object'')
         else res_bind (getBytesLength (drop 8 b) ascendingGeoEscapes) (\<lambda>ret. Inr (8 + ret)))
      else if m = jsonInvertedIndex then getJSONInvertedIndexKeyLength peek b
      else if m = bytesDescMarker then getBytesLength b descendingBytesEscapes
      else if m = geoDescMarker then
        (if length b < 8 then Inl (Err ''slice too short for spatial object'')
         else res_bind (getBytesLength (drop 8 b) descendingGeoEscapes) (\<lambda>ret. Inr (8 + ret)))
      else if m = timeMarker \<or> m = timeTZMarker then GetMultiVarintLen b 2
      else if m = durationBigNegMarker \<or> m = durationMarker \<or> m = durationBigPosMarker
        then GetMultiVarintLen b 3
      else if m = floatNeg \<or> m = floatPos then
        (if length b < 9 then Inl (Err ''slice too short for float'') else Inr 9)
      else if IntMin \<le> uint m \<and> uint m \<le> IntMax then res_bind (getVarintLen b) (\<lambda>n. Inr (nat n))
      else if decimalNaN \<le> m \<and> m \<le> decimalNaNDesc then getDecimalLen b
      else Inl (Err ''unknown tag''))"

fun PeekLength_fuel :: "nat \<Rightarrow> bytes \<Rightarrow> nat res"
  and getArrayLength_fuel :: "nat \<Rightarrow> bytes \<Rightarrow> Direction \<Rightarrow> nat \<Rightarrow> nat res" where
  "PeekLength_fuel 0 b = Inl (Panic ''out of fuel'')"
| "PeekLength_fuel (Suc n) b = PeekLength_body (PeekLength_fuel n) (getArrayLength_fuel n) b"
| "getArrayLength_fuel 0 buf dir result = Inl (Panic ''out of fuel'')"
| "getArrayLength_fuel (Suc n) buf dir result =
     getArrayLength_body (PeekLength_fuel n) (getArrayLength_fuel n) buf dir result"

declare PeekLength_fuel.simps [simp del] getArrayLength_fuel.simps [simp del]

lemmas fuel_simps = PeekLength_fuel.simps getArrayLength_fuel.simps

definition PeekLength :: "bytes \<Rightarrow> nat res" where
  "PeekLength b = PeekLength_fuel (2 * length b + 1) b"

definition getArrayLength_loop :: "bytes \<Rightarrow> Direction \<Rightarrow> nat \<Rightarrow> nat res" where
  "getArrayLength_loop buf dir result = getArrayLength_fuel (2 * length buf + 2) buf dir result"

definition getArrayLength :: "bytes \<Rightarrow> Direction \<Rightarrow> nat res" where
  "getArrayLength buf dir = getArrayLength_loop buf dir 0"

section \<open>Peeking at the type\<close>

lemma PeekType_table: "PeekType b = slowPeekType b"
proof (cases b)
  case (Cons m r)
  have "unat m < 256" using unsigned_less [of m, where ?'a = nat] by simp
  then have "[0..<256] ! unat m = unat m" using nth_upt [of 0 "unat m" 256] by simp
  moreover have "slowPeekType (m # r) = slowPeekType [m]" by (simp only: slowPeekType.simps)
  ultimately show ?thesis using \<open>unat m < 256\<close>
    by (simp add: Cons PeekType_def typMap_def del: slowPeekType.simps upt_Suc)
qed (simp add: PeekType_def)

lemma PeekType_markers [simp]:
  "PeekType (timeMarker # b) = T_Time" "PeekType (timeTZMarker # b) = T_TimeTZ"
  "PeekType (arrayKeyMarker # b) = T_ArrayKeyAsc" "PeekType (arrayKeyDescendingMarker # b) = T_ArrayKeyDesc"
  "PeekType (voidMarker # b) = T_Void"
  by (simp_all add: PeekType_table marker_defs type_byte_def tag_byte_def int_tags)

section \<open>Times as ordered codecs\<close>

interpretation varint2_asc: key_codec_pair
  "EncodeVarintAscending []" DecodeVarintAscending in64 "(<)"
  "EncodeVarintAscending []" DecodeVarintAscending in64 "(<)"
  by unfold_locales

interpretation varint2_desc: key_codec_pair
  "EncodeVarintDescending []" DecodeVarintDescending in64 "(>)"
  "EncodeVarintDescending []" DecodeVarintDescending in64 "(>)"
  by unfold_locales

definition valid_time :: "gotime \<Rightarrow> bool" where
  "valid_time t \<longleftrightarrow> in64 (t_unix t) \<and> 0 \<le> t_nanos t \<and> t_nanos t < 1000000000"

definition time_before :: "gotime \<Rightarrow> gotime \<Rightarrow> bool" where
  "time_before s t \<longleftrightarrow> t_unix s < t_unix t \<or> t_unix s = t_unix t \<and> t_nanos s < t_nanos t"

definition valid_timetz :: "TimeTZ \<Rightarrow> bool" where
  "valid_timetz t \<longleftrightarrow> in32 (OffsetSecs t) \<and> in64 (TimeOfDay t) \<and>
     in64 (TimeOfDay t + OffsetSecs t * offsetSecsToMicros)"

definition timetz_key :: "TimeTZ \<Rightarrow> int \<times> int" where
  "timetz_key t = (TimeOfDay t + OffsetSecs t * offsetSecsToMicros, OffsetSecs t)"

definition timetz_before :: "TimeTZ \<Rightarrow> TimeTZ \<Rightarrow> bool" where
  "timetz_before s t \<longleftrightarrow> fst (timetz_key s) < fst (timetz_key t) \<or>
     fst (timetz_key s) = fst (timetz_key t) \<and> snd (timetz_key s) < snd (timetz_key t)"

lemma EncodeTimeAscending_eq:
  "EncodeTimeAscending b t = b @ timeMarker # EncodeVarintAscending [] (t_unix t) @ EncodeVarintAscending [] (t_nanos t)"
  by (simp add: EncodeTimeAscending_def encodeTime_def EncodeVarintAscending_append [of "_ @ _"]
      EncodeVarintAscending_append [of "_ # _"])

lemma EncodeTimeDescending_eq:
  "EncodeTimeDescending b t = b @ timeMarker # EncodeVarintDescending [] (t_unix t) @ EncodeVarintDescending [] (t_nanos t)"
  by (simp add: EncodeTimeDescending_def encodeTime_def EncodeVarintDescending_def
      EncodeVarintAscending_append [of "_ @ _"] EncodeVarintAscending_append [of "_ # _"])

lemma in64_nanos: "0 \<le> k \<Longrightarrow> k < 1000000000 \<Longrightarrow> in64 k"
  by (simp add: in64_def go_limits)

lemma valid_time_in64: "valid_time t \<Longrightarrow> in64 (t_unix t) \<and> in64 (t_nanos t)"
  by (simp add: valid_time_def in64_nanos)

lemma decodeTime_asc:
  "in64 s \<Longrightarrow> in64 n \<Longrightarrow>
   decodeTime (timeMarker # EncodeVarintAscending [] s @ EncodeVarintAscending [] n @ rest) = Inr (rest, s, n)"
  by (simp add: decodeTime_def DecodeVarintAscending_EncodeVarintAscending)

lemma in64_NOT [simp]: "in64 (NOT k) \<longleftrightarrow> in64 k"
  by (auto simp: in64_def go_limits NOT_int_eq)

interpretation time_asc: key_codec "EncodeTimeAscending []" DecodeTimeAscending valid_time time_before
proof
  fix v rest assume "valid_time v"
  then show "DecodeTimeAscending (EncodeTimeAscending [] v @ rest) = Inr (rest, v)"
    using valid_time_in64 [of v]
    by (simp add: DecodeTimeAscending_def EncodeTimeAscending_eq decodeTime_asc timeutil_Unix_def valid_time_def)
next
  fix a b x y assume "valid_time a" "valid_time b" "time_before a b"
  then show "EncodeTimeAscending [] a @ x < EncodeTimeAscending [] b @ y"
    using varint2_asc.pair.ordered [of "(t_unix a, t_nanos a)" "(t_unix b, t_nanos b)" x y]
    by (simp add: EncodeTimeAscending_eq lex_before_def time_before_def valid_time_in64)
next
  fix a b show "valid_time a \<Longrightarrow> valid_time b \<Longrightarrow> a = b \<or> time_before a b \<or> time_before b a"
    unfolding time_before_def by (cases a; cases b) auto
qed

interpretation time_desc: key_codec "EncodeTimeDescending []" DecodeTimeDescending valid_time "\<lambda>s t. time_before t s"
proof
  fix v rest assume "valid_time v"
  then show "DecodeTimeDescending (EncodeTimeDescending [] v @ rest) = Inr (rest, v)"
    using valid_time_in64 [of v]
    by (simp add: DecodeTimeDescending_def EncodeTimeDescending_eq EncodeVarintDescending_def decodeTime_asc
        timeutil_Unix_def valid_time_def)
next
  fix a b x y assume "valid_time a" "valid_time b" "time_before b a"
  then show "EncodeTimeDescending [] a @ x < EncodeTimeDescending [] b @ y"
    using varint2_desc.pair.ordered [of "(t_unix a, t_nanos a)" "(t_unix b, t_nanos b)" x y]
    by (auto simp add: EncodeTimeDescending_eq lex_before_def time_before_def valid_time_in64)
next
  fix a b show "valid_time a \<Longrightarrow> valid_time b \<Longrightarrow> a = b \<or> time_before b a \<or> time_before a b"
    using time_asc.total by blast
qed

lemma EncodeTimeTZAscending_eq:
  "valid_timetz t \<Longrightarrow> EncodeTimeTZAscending b t =
     b @ timeTZMarker # EncodeVarintAscending [] (fst (timetz_key t)) @ EncodeVarintAscending [] (snd (timetz_key t))"
  by (simp add: EncodeTimeTZAscending_def encodeTimeTZ_def EncodeVarintAscending_append [of "_ @ _"]
      EncodeVarintAscending_append [of "_ # _"] valid_timetz_def timetz_key_def)

lemma EncodeTimeTZDescending_eq:
  "valid_timetz t \<Longrightarrow> EncodeTimeTZDescending b t =
     b @ timeTZMarker # EncodeVarintDescending [] (fst (timetz_key t)) @ EncodeVarintDescending [] (snd (timetz_key t))"
  by (simp add: EncodeTimeTZDescending_def encodeTimeTZ_def EncodeVarintDescending_def
      EncodeVarintAscending_append [of "_ @ _"] EncodeVarintAscending_append [of "_ # _"]
      valid_timetz_def timetz_key_def)

lemma valid_timetz_key:
  "valid_timetz t \<Longrightarrow> in64 (fst (timetz_key t)) \<and> in64 (snd (timetz_key t)) \<and> wrap32 (OffsetSecs t) = OffsetSecs t"
  by (auto simp: valid_timetz_def timetz_key_def in32_def in64_def go_limits)

lemma decodeTimeTZ_asc:
  "in64 s \<Longrightarrow> in64 n \<Longrightarrow>
   decodeTimeTZ (timeTZMarker # EncodeVarintAscending [] s @ EncodeVarintAscending [] n @ rest) = Inr (rest, s, wrap32 n)"
  by (simp add: decodeTimeTZ_def DecodeVarintAscending_EncodeVarintAscending)

interpretation timetz_asc: key_codec "EncodeTimeTZAscending []" DecodeTimeTZAscending valid_timetz timetz_before
proof
  fix v rest assume v: "valid_timetz v"
  then show "DecodeTimeTZAscending (EncodeTimeTZAscending [] v @ rest) = Inr (rest, v)"
    using valid_timetz_key [OF v]
    by (simp add: DecodeTimeTZAscending_def EncodeTimeTZAscending_eq decodeTimeTZ_asc)
      (simp add: timetz_key_def valid_timetz_def)
next
  fix a b x y assume "valid_timetz a" "valid_timetz b" "timetz_before a b"
  then show "EncodeTimeTZAscending [] a @ x < EncodeTimeTZAscending [] b @ y"
    using varint2_asc.pair.ordered [of "timetz_key a" "timetz_key b" x y]
    by (simp add: EncodeTimeTZAscending_eq lex_before_def timetz_before_def valid_timetz_key split_beta)
next
  fix a b show "valid_timetz a \<Longrightarrow> valid_timetz b \<Longrightarrow> a = b \<or> timetz_before a b \<or> timetz_before b a"
    unfolding timetz_before_def timetz_key_def
    by (cases a; cases b; cases "OffsetSecs a = OffsetSecs b") auto
qed

interpretation timetz_desc: key_codec "EncodeTimeTZDescending []" DecodeTimeTZDescending valid_timetz
  "\<lambda>s t. timetz_before t s"
proof
  fix v rest assume v: "valid_timetz v"
  have "wrap32 (NOT (OffsetSecs v)) = NOT (OffsetSecs v)"
    using v by (simp add: valid_timetz_def in32_def go_limits NOT_int_eq)
  then show "DecodeTimeTZDescending (EncodeTimeTZDescending [] v @ rest) = Inr (rest, v)"
    using valid_timetz_key [OF v] v
    by (simp add: DecodeTimeTZDescending_def EncodeTimeTZDescending_eq EncodeVarintDescending_def decodeTimeTZ_asc)
      (simp add: timetz_key_def valid_timetz_def)
next
  fix a b x y assume "valid_timetz a" "valid_timetz b" "timetz_before b a"
  then show "EncodeTimeTZDescending [] a @ x < EncodeTimeTZDescending [] b @ y"
    using varint2_desc.pair.ordered [of "timetz_key a" "timetz_key b" x y]
    by (auto simp add: EncodeTimeTZDescending_eq lex_before_def timetz_before_def valid_timetz_key split_beta)
next
  fix a b show "valid_timetz a \<Longrightarrow> valid_timetz b \<Longrightarrow> a = b \<or> timetz_before b a \<or> timetz_before a b"
    using timetz_asc.total by blast
qed

section \<open>\<open>PeekLength\<close> terminates\<close>

lemma slice_from_Inr [simp, res_simps]: "slice_from k b = Inr c \<longleftrightarrow> k \<le> length b \<and> c = drop k b"
  by (auto simp: slice_from_def)

lemma getInvertedIndexKeyLength_loop_bound: "getInvertedIndexKeyLength_loop b k = Inr n \<Longrightarrow> k + 2 \<le> n"
proof (induction "Suc (length b) - k" arbitrary: k rule: less_induct)
  case less
  from less.prems show ?case
    by (subst (asm) getInvertedIndexKeyLength_loop.simps)
      (auto simp: Let_def escapeLength_def split: option.splits if_splits dest: less.hyps [rotated])
qed

lemma PeekLength_body_cong:
  assumes "\<And>c. length c < length b \<Longrightarrow> peek c = peek' c"
    and "\<And>c d r. length c < length b \<Longrightarrow> arr c d r = arr' c d r"
  shows "PeekLength_body peek arr b = PeekLength_body peek' arr' b"
proof (cases b)
  case (Cons m b1)
  have j: "getJSONInvertedIndexKeyLength peek b = getJSONInvertedIndexKeyLength peek' b"
  proof (cases "getInvertedIndexKeyLength b")
    case (Inr k)
    then have "length (drop k b) < length b"
      using getInvertedIndexKeyLength_loop_bound [of b 0 k] Cons by (simp add: getInvertedIndexKeyLength_def)
    then show ?thesis using assms(1) by (simp add: getJSONInvertedIndexKeyLength_def Inr)
  qed (simp add: getJSONInvertedIndexKeyLength_def)
  have a: "arr b1 d r = arr' b1 d r" for d r using assms(2) Cons by simp
  show ?thesis unfolding PeekLength_body_def Cons list.case using j a by (simp only: Cons)
qed (simp add: PeekLength_body_def)

lemma getBytesLength_bound: "getBytesLength_loop b e k = Inr n \<Longrightarrow> k + 2 \<le> n"
proof (induction "Suc (length b) - k" arbitrary: k rule: less_induct)
  case less
  from less.prems show ?case
    by (subst (asm) getBytesLength_loop.simps)
      (auto simp: Let_def escapeLength_def split: option.splits if_splits dest: less.hyps [rotated])
qed

lemma GetMultiVarintLen_loop_bound: "GetMultiVarintLen_loop b m p = Inr n \<Longrightarrow> p \<le> n"
proof (induction m arbitrary: p)
  case (Suc m)
  then show ?case by (fastforce simp: res_simps split: if_splits)
qed simp

lemma res_ite: "(if c then x else y) = Inr k \<Longrightarrow> (c \<Longrightarrow> x = Inr k \<Longrightarrow> P) \<Longrightarrow> (\<not> c \<Longrightarrow> y = Inr k \<Longrightarrow> P) \<Longrightarrow> P"
  by (simp split: if_splits)

lemma PeekLength_parts_pos:
  "getBytesLength b e = Inr k \<Longrightarrow> 1 \<le> k"
  "GetMultiVarintLen b l = Inr k \<Longrightarrow> 1 \<le> k"
  "getDecimalLen b = Inr k \<Longrightarrow> 1 \<le> k"
  "getGeoInvertedIndexKeyLength b = Inr k \<Longrightarrow> 1 \<le> k"
  "getJSONInvertedIndexKeyLength p b = Inr k \<Longrightarrow> 1 \<le> k"
  "getVarintLen b = Inr n \<Longrightarrow> 1 \<le> nat n"
  using getBytesLength_bound [of b e 1 k] GetMultiVarintLen_loop_bound [of b l 1 k] getVarintLen_bounds [of b n]
    getInvertedIndexKeyLength_loop_bound [of b 0]
  by (fastforce simp: getBytesLength_def GetMultiVarintLen_def getDecimalLen_def getGeoInvertedIndexKeyLength_def
      getJSONInvertedIndexKeyLength_def getInvertedIndexKeyLength_def res_simps split: list.splits if_splits)+

lemma PeekLength_body_pos: "PeekLength_body peek arr b = Inr k \<Longrightarrow> 1 \<le> k"
proof (cases b)
  case (Cons m b1)
  assume "PeekLength_body peek arr b = Inr k"
  then show ?thesis
    unfolding PeekLength_body_def Cons list.case
    by (elim res_ite; auto simp: res_simps simp del: getVarintLen.simps dest: PeekLength_parts_pos)
qed (simp add: PeekLength_body_def)

lemma getArrayLength_body_cong:
  assumes "peek buf = peek' buf" and "\<And>k. peek buf = Inr k \<Longrightarrow> 1 \<le> k"
    and "\<And>c d r. length c < length buf \<Longrightarrow> loop c d r = loop' c d r"
  shows "getArrayLength_body peek loop buf dir res = getArrayLength_body peek' loop' buf dir res"
proof (cases "peek buf")
  case (Inr k)
  then have "1 \<le> k" by (rule assms(2))
  then have "buf \<noteq> [] \<Longrightarrow> loop (drop k buf) d r = loop' (drop k buf) d r" for d r
    by (intro assms(3)) simp
  moreover have "peek' buf = Inr k" using Inr assms(1) by simp
  ultimately show ?thesis
    by (cases "IsArrayKeyDone buf dir") (auto simp: Inr getArrayLength_body_def slice_from_def)
qed (use assms(1) in \<open>cases "IsArrayKeyDone buf dir"; auto simp: getArrayLength_body_def\<close>)

lemma PeekLength_fuel_pos: "PeekLength_fuel n b = Inr k \<Longrightarrow> 1 \<le> k"
  by (cases n) (auto simp: fuel_simps dest: PeekLength_body_pos)

lemma fuel_stable:
  "2 * length b + 1 \<le> n \<Longrightarrow> 2 * length b + 1 \<le> m \<Longrightarrow> PeekLength_fuel n b = PeekLength_fuel m b"
  "2 * length b + 2 \<le> n \<Longrightarrow> 2 * length b + 2 \<le> m \<Longrightarrow>
   getArrayLength_fuel n b dir res = getArrayLength_fuel m b dir res"
proof (induction n arbitrary: m b dir res)
  case (Suc n)
  {
    case 1
    then obtain m' where m: "m = Suc m'" by (cases m) auto
    have "PeekLength_body (PeekLength_fuel n) (getArrayLength_fuel n) b =
        PeekLength_body (PeekLength_fuel m') (getArrayLength_fuel m') b"
      by (rule PeekLength_body_cong) (use 1 m in \<open>auto intro!: Suc.IH\<close>)
    then show ?case by (simp add: m fuel_simps)
  next
    case 2
    then obtain m' where m: "m = Suc m'" by (cases m) auto
    have "getArrayLength_body (PeekLength_fuel n) (getArrayLength_fuel n) b dir res =
        getArrayLength_body (PeekLength_fuel m') (getArrayLength_fuel m') b dir res"
      by (rule getArrayLength_body_cong)
        (use 2 m in \<open>auto intro!: Suc.IH dest: PeekLength_fuel_pos\<close>)
    then show ?case by (simp add: m fuel_simps)
  }
qed simp_all

lemma PeekLength_unfold: "PeekLength b = PeekLength_body PeekLength getArrayLength_loop b"
proof -
  have "PeekLength b = PeekLength_body (PeekLength_fuel (2 * length b)) (getArrayLength_fuel (2 * length b)) b"
    by (simp add: PeekLength_def fuel_simps)
  also have "\<dots> = PeekLength_body PeekLength getArrayLength_loop b"
    by (rule PeekLength_body_cong)
      (auto simp: PeekLength_def getArrayLength_loop_def intro!: fuel_stable)
  finally show ?thesis .
qed

lemma getArrayLength_unfold:
  "getArrayLength_loop b dir res = getArrayLength_body PeekLength getArrayLength_loop b dir res"
proof -
  have "getArrayLength_loop b dir res =
      getArrayLength_body (PeekLength_fuel (2 * length b + 1)) (getArrayLength_fuel (2 * length b + 1)) b dir res"
    by (simp add: getArrayLength_loop_def fuel_simps)
  also have "\<dots> = getArrayLength_body PeekLength getArrayLength_loop b dir res"
    by (rule getArrayLength_body_cong)
      (auto simp: PeekLength_def getArrayLength_loop_def intro!: fuel_stable dest: PeekLength_fuel_pos)
  finally show ?thesis .
qed

section \<open>\<open>PeekLength\<close> stops exactly at the end of an encoded value\<close>

lemma EncodeVarintAscending_tag:
  assumes "in64 v"
  obtains m r where "EncodeVarintAscending [] v = m # r" "IntMin \<le> uint m" "uint m \<le> IntMax"
    "\<And>rest. getVarintLen (m # r @ rest) = Inr (1 + int (length r))"
proof (cases "v < 0")
  case True
  with assms show thesis
  proof (cases rule: EncodeVarintAscending_neg_cases)
    case (1 n)
    then show thesis
      by (intro that [of "tag_byte (136 - int n)" "be_bytes n v"])
        (auto simp: tagged_def uint_tag int_tags Let_def)
  qed
next
  case False
  then have e: "EncodeVarintAscending [] v = EncodeUvarintAscending [] (word_of_int v)"
    by (simp add: EncodeVarintAscending_def)
  show thesis
  proof (cases rule: EncodeUvarintAscending_cases [of "word_of_int v"])
    case small
    have "0 \<le> uint (word_of_int v :: uint64)" by simp
    with small show thesis
      by (intro that [of "tag_byte (136 + uint (word_of_int v :: uint64))" "[]"])
        (simp_all add: e uint_tag int_tags Let_def del: uint_ge_0)
  next
    case (big n)
    then show thesis
      by (intro that [of "tag_byte (245 + int n)" "be_bytes n (uint (word_of_int v :: uint64))"])
        (auto simp: e tagged_def uint_tag int_tags Let_def)
  qed
qed

lemma getVarintLen_EncodeVarintAscending:
  "in64 v \<Longrightarrow> getVarintLen (EncodeVarintAscending [] v @ rest) = Inr (int (length (EncodeVarintAscending [] v)))"
  by (rule EncodeVarintAscending_tag [of v]) (simp_all del: getVarintLen.simps)

lemma PeekLength_body_int:
  "IntMin \<le> uint m \<Longrightarrow> uint m \<le> IntMax \<Longrightarrow>
   PeekLength_body peek arr (m # r) = res_bind (getVarintLen (m # r)) (\<lambda>n. Inr (nat n))"
  unfolding PeekLength_body_def
  by (auto simp: marker_defs type_byte_def tag_byte_def int_tags simp del: getVarintLen.simps)

lemma PeekLength_EncodeVarintAscending:
  assumes "in64 v"
  shows "PeekLength (EncodeVarintAscending [] v @ rest) = Inr (length (EncodeVarintAscending [] v))"
  using assms
  by (rule EncodeVarintAscending_tag)
    (simp add: PeekLength_unfold [of "_ # _"] PeekLength_body_int del: getVarintLen.simps)

lemma descending_escapes:
  "esc_escape descendingBytesEscapes = NOT (esc_escape ascendingBytesEscapes)"
  "esc_escapedTerm descendingBytesEscapes = NOT (esc_escapedTerm ascendingBytesEscapes)"
  by (simp_all add: escape_records)

lemma getBytesLength_loop_desc:
  "getBytesLength_loop (m # map NOT c) descendingBytesEscapes (Suc j) =
   getBytesLength_loop (x # c) ascendingBytesEscapes (Suc j)"
proof (induction "length c - j" arbitrary: j rule: less_induct)
  case less
  have "i < length c - j" if "IndexByte (drop j c) e = Some i" for i e
    using IndexByte_SomeD [OF that] by simp
  then show ?case
    by (subst (1 2) getBytesLength_loop.simps)
      (auto simp: Let_def descending_escapes escapeLength_def drop_map IndexByte_map_NOT
        split: option.splits intro!: less.hyps)
qed

lemma PeekLength_bytes:
  "PeekLength (EncodeBytesAscending [] d @ rest) = Inr (length (EncodeBytesAscending [] d))"
  "PeekLength (EncodeBytesDescending [] d @ rest) = Inr (length (EncodeBytesDescending [] d))"
proof -
  have a: "getBytesLength_loop (bytesMarker # esc d @ [0, 1] @ r) ascendingBytesEscapes 1 = Inr (1 + length (esc d) + 2)" for r
    by (rule getBytesLength_loop_esc) simp_all
  then show "PeekLength (EncodeBytesAscending [] d @ rest) = Inr (length (EncodeBytesAscending [] d))"
    by (simp add: PeekLength_unfold [of "_ # _"] PeekLength_body_def EncodeBytesAscending_eq getBytesLength_def
        type_byte_def tag_byte_def marker_defs)
  have "getBytesLength_loop (bytesDescMarker # map NOT (esc d @ [0, 1] @ map NOT rest)) descendingBytesEscapes 1 =
      Inr (1 + length (esc d) + 2)"
    using getBytesLength_loop_desc [of bytesDescMarker "esc d @ [0, 1] @ map NOT rest" 0 bytesMarker]
      a [of "map NOT rest"] by simp
  then show "PeekLength (EncodeBytesDescending [] d @ rest) = Inr (length (EncodeBytesDescending [] d))"
    by (simp add: PeekLength_unfold [of "_ # _"] PeekLength_body_def EncodeBytesDescending_eq getBytesLength_def
        type_byte_def tag_byte_def marker_defs comp_def)
qed

lemma PeekLength_two_varints:
  assumes "in64 s" "in64 n" and m: "m = timeMarker \<or> m = timeTZMarker"
  shows "PeekLength (m # EncodeVarintAscending [] s @ EncodeVarintAscending [] n @ rest) =
    Inr (1 + length (EncodeVarintAscending [] s) + length (EncodeVarintAscending [] n))"
proof -
  let ?s = "EncodeVarintAscending [] s" let ?n = "EncodeVarintAscending [] n"
  have ne: "?s \<noteq> []" "?n \<noteq> []"
    using EncodeVarintAscending_tag [of s "?s \<noteq> []"] EncodeVarintAscending_tag [of n "?n \<noteq> []"] assms by auto
  have "GetMultiVarintLen (m # ?s @ ?n @ rest) 2 = Inr (1 + length ?s + length ?n)"
    using ne by (simp add: GetMultiVarintLen_def numeral_2_eq_2 getVarintLen_EncodeVarintAscending assms
        del: getVarintLen.simps)
  then show ?thesis
    using m by (subst PeekLength_unfold)
      (auto simp: PeekLength_body_def type_byte_def tag_byte_def marker_defs)
qed

text \<open>
  An element of an array key can be skipped when its first byte is not the terminator and
  \<open>PeekLength\<close> finds its end, whatever follows.
\<close>

definition array_element :: "Direction \<Rightarrow> bytes \<Rightarrow> bool" where
  "array_element dir x \<longleftrightarrow> x \<noteq> [] \<and> IsArrayKeyDone x dir = Inr False \<and>
     (\<forall>rest. PeekLength (x @ rest) = Inr (length x))"

lemma getArrayLength_elements:
  "(\<And>x. x \<in> set xs \<Longrightarrow> array_element dir x) \<Longrightarrow>
   getArrayLength_loop (EncodeArrayKeyTerminator (concat xs) dir @ rest) dir n = Inr (n + length (concat xs) + 1)"
proof (induction xs arbitrary: n)
  case Nil
  show ?case
    by (cases dir) (simp_all add: getArrayLength_unfold [of "_ # _"] getArrayLength_body_def EncodeArrayKeyTerminator_def)
next
  case (Cons x xs)
  then have x: "x \<noteq> []" "IsArrayKeyDone x dir = Inr False"
    "PeekLength (x @ EncodeArrayKeyTerminator (concat xs) dir @ rest) = Inr (length x)"
    by (simp_all add: array_element_def)
  have e: "EncodeArrayKeyTerminator (x @ concat xs) dir = x @ EncodeArrayKeyTerminator (concat xs) dir"
    by (simp add: EncodeArrayKeyTerminator_def split: Direction.splits)
  have "IsArrayKeyDone (x @ EncodeArrayKeyTerminator (concat xs) dir @ rest) dir = Inr False"
    using x(1,2) by (cases x) simp_all
  then show ?case
    using x(1,3) Cons.IH [of "n + length x"] Cons.prems
    by (subst getArrayLength_unfold) (simp add: getArrayLength_body_def e slice_from_def)
qed

lemma PeekLength_array:
  assumes "\<And>x. x \<in> set xs \<Longrightarrow> array_element dir x"
  shows "PeekLength (EncodeArrayKeyTerminator (EncodeArrayKeyMarker [] dir @ concat xs) dir @ rest) =
    Inr (length (EncodeArrayKeyTerminator (EncodeArrayKeyMarker [] dir @ concat xs) dir))"
proof -
  have "EncodeArrayKeyTerminator (EncodeArrayKeyMarker [] dir @ concat xs) dir =
      EncodeArrayKeyMarker [] dir @ EncodeArrayKeyTerminator (concat xs) dir"
    by (cases dir) (simp_all add: EncodeArrayKeyTerminator_def)
  moreover have "length (EncodeArrayKeyTerminator (concat xs) dir) = length (concat xs) + 1"
    by (cases dir) (simp_all add: EncodeArrayKeyTerminator_def)
  ultimately show ?thesis
    using getArrayLength_elements [of xs dir rest 0] assms
    by (cases dir; subst PeekLength_unfold)
      (simp_all add: PeekLength_body_def EncodeArrayKeyMarker_def type_byte_def tag_byte_def marker_defs)
qed

section \<open>The fuel is enough\<close>

abbreviation out_of_fuel :: "nat res" where
  "out_of_fuel \<equiv> Inl (Panic ''out of fuel'')"

lemma getVarintLen_fuel: "getVarintLen b \<noteq> Inl (Panic ''out of fuel'')"
  by (cases b) (auto simp: Let_def)

lemma getBytesLength_loop_fuel: "getBytesLength_loop b e k \<noteq> out_of_fuel"
proof (induction "Suc (length b) - k" arbitrary: k rule: less_induct)
  case less
  show ?case
    by (subst getBytesLength_loop.simps)
      (auto simp: Let_def escapeLength_def split: option.splits simp: less.hyps)
qed

lemma getInvertedIndexKeyLength_loop_fuel: "getInvertedIndexKeyLength_loop b k \<noteq> out_of_fuel"
proof (induction "Suc (length b) - k" arbitrary: k rule: less_induct)
  case less
  show ?case
    by (subst getInvertedIndexKeyLength_loop.simps)
      (auto simp: Let_def escapeLength_def split: option.splits simp: less.hyps)
qed

lemma getBitArrayWordsLen_loop_fuel: "getBitArrayWordsLen_loop b t n s \<noteq> Inl (Panic ''out of fuel'')"
proof (induction b t n s rule: getBitArrayWordsLen_loop.induct)
  case (1 b t n s)
  then show ?case
    by (subst getBitArrayWordsLen_loop.simps) (auto split: sum.splits simp: getVarintLen_fuel)
qed

lemma GetMultiVarintLen_loop_fuel: "GetMultiVarintLen_loop b m p \<noteq> out_of_fuel"
  by (induction m arbitrary: p) (auto simp: res_simps getVarintLen_fuel)

lemma peekBox2DLength_loop_fuel: "peekBox2DLength_loop n b p \<noteq> out_of_fuel"
  by (induction n arbitrary: b p) (auto simp: res_simps slice_from_def)

lemmas parts_fuel = getVarintLen_fuel getBytesLength_loop_fuel getInvertedIndexKeyLength_loop_fuel
  getBitArrayWordsLen_loop_fuel GetMultiVarintLen_loop_fuel peekBox2DLength_loop_fuel

lemma PeekLength_parts_fuel:
  "getBytesLength b e \<noteq> out_of_fuel" "GetMultiVarintLen b l \<noteq> out_of_fuel" "getDecimalLen b \<noteq> out_of_fuel"
  "getGeoInvertedIndexKeyLength b \<noteq> out_of_fuel" "peekBox2DLength b \<noteq> out_of_fuel"
  "getBitArrayWordsLen b t \<noteq> Inl (Panic ''out of fuel'')"
  by (auto simp: getBytesLength_def GetMultiVarintLen_def getDecimalLen_def getGeoInvertedIndexKeyLength_def
      peekBox2DLength_def getBitArrayWordsLen_def findDecimalTerminator_def res_simps parts_fuel
      split: list.splits option.splits if_splits)

lemma ite_neq: "(c \<Longrightarrow> x \<noteq> z) \<Longrightarrow> (\<not> c \<Longrightarrow> y \<noteq> z) \<Longrightarrow> (if c then x else y) \<noteq> z"
  by simp

lemma PeekLength_body_fuel:
  assumes "\<And>c. length c < length b \<Longrightarrow> peek c \<noteq> out_of_fuel"
    and "\<And>c d r. length c < length b \<Longrightarrow> arr c d r \<noteq> out_of_fuel"
  shows "PeekLength_body peek arr b \<noteq> out_of_fuel"
proof (cases b)
  case (Cons m b1)
  have a: "arr b1 d r \<noteq> out_of_fuel" for d r using assms(2) Cons by simp
  have j: "getJSONInvertedIndexKeyLength peek b \<noteq> out_of_fuel"
  proof (cases "getInvertedIndexKeyLength b")
    case (Inr k)
    then have "length (drop k b) < length b"
      using getInvertedIndexKeyLength_loop_bound [of b 0 k] Cons by (simp add: getInvertedIndexKeyLength_def)
    then show ?thesis
      using assms(1) by (auto simp: getJSONInvertedIndexKeyLength_def Inr res_simps)
  qed (auto simp: getJSONInvertedIndexKeyLength_def getInvertedIndexKeyLength_def parts_fuel)
  show ?thesis
    unfolding PeekLength_body_def Cons list.case using a j [unfolded Cons]
    by (intro ite_neq) (simp_all add: res_bind_eq_Inl PeekLength_parts_fuel getVarintLen_fuel
        slice_from_def split_beta del: getVarintLen.simps)
qed (simp add: PeekLength_body_def)

lemma getArrayLength_body_fuel:
  assumes "peek b \<noteq> out_of_fuel" and "\<And>k. peek b = Inr k \<Longrightarrow> 1 \<le> k"
    and "\<And>c d r. length c < length b \<Longrightarrow> loop c d r \<noteq> out_of_fuel"
  shows "getArrayLength_body peek loop b dir n \<noteq> out_of_fuel"
proof (cases b)
  case (Cons m b1)
  have "loop (drop k b) d r \<noteq> out_of_fuel" if "peek b = Inr k" for k d r
    using assms(2) [OF that] Cons by (intro assms(3)) simp
  then show ?thesis
    using assms(1) by (auto simp: getArrayLength_body_def Cons res_simps slice_from_def)
qed (simp add: getArrayLength_body_def)

lemma fuel_enough:
  "2 * length b + 1 \<le> n \<Longrightarrow> PeekLength_fuel n b \<noteq> out_of_fuel"
  "2 * length b + 2 \<le> n \<Longrightarrow> getArrayLength_fuel n b dir res \<noteq> out_of_fuel"
proof (induction n arbitrary: b dir res)
  case (Suc n)
  {
    case 1
    then show ?case
      unfolding fuel_simps by (intro PeekLength_body_fuel Suc.IH) auto
  next
    case 2
    then show ?case
      unfolding fuel_simps by (intro getArrayLength_body_fuel Suc.IH) (auto dest: PeekLength_fuel_pos)
  }
qed simp_all

section \<open>Properties\<close>

text \<open>
  Times and times of day with a zone are ordered codecs in both directions: encoded keys
  compare as the instants (seconds, then nanoseconds) and as the zoned times (UTC microseconds, then
  offset), in reverse for the descending encodings, and every valid value decodes to itself,
  24:00:00 included.
\<close>

theorem time_keys:
  assumes "valid_time s" and "valid_time t" and "valid_timetz p" and "valid_timetz q"
  shows "(EncodeTimeAscending [] s @ x < EncodeTimeAscending [] t @ y \<longleftrightarrow> time_before s t \<or> s = t \<and> x < y) \<and>
    (EncodeTimeDescending [] s @ x < EncodeTimeDescending [] t @ y \<longleftrightarrow> time_before t s \<or> s = t \<and> x < y) \<and>
    (EncodeTimeTZAscending [] p @ x < EncodeTimeTZAscending [] q @ y \<longleftrightarrow> timetz_before p q \<or> p = q \<and> x < y) \<and>
    (EncodeTimeTZDescending [] p @ x < EncodeTimeTZDescending [] q @ y \<longleftrightarrow> timetz_before q p \<or> p = q \<and> x < y) \<and>
    DecodeTimeAscending (EncodeTimeAscending [] s @ x) = Inr (x, s) \<and>
    DecodeTimeDescending (EncodeTimeDescending [] s @ x) = Inr (x, s) \<and>
    DecodeTimeTZAscending (EncodeTimeTZAscending [] p @ x) = Inr (x, p) \<and>
    DecodeTimeTZDescending (EncodeTimeTZDescending [] p @ x) = Inr (x, p)"
  using assms
  by (intro conjI time_asc.order_iff_append time_desc.order_iff_append timetz_asc.order_iff_append
      timetz_desc.order_iff_append time_asc.roundtrip time_desc.roundtrip timetz_asc.roundtrip timetz_desc.roundtrip)

theorem time_keys_witness:
  "EncodeTimeDescending [] \<lparr>t_unix = 1, t_nanos = 2\<rparr> @ [] < EncodeTimeDescending [] \<lparr>t_unix = -1, t_nanos = 999999999\<rparr> @ [7]
   \<and> DecodeTimeTZAscending (EncodeTimeTZAscending [] \<lparr>TimeOfDay = 86400000000, OffsetSecs = -3600\<rparr> @ []) =
       Inr ([], \<lparr>TimeOfDay = 86400000000, OffsetSecs = -3600\<rparr>)"
proof -
  have h: "valid_time \<lparr>t_unix = 1, t_nanos = 2\<rparr>" "valid_time \<lparr>t_unix = -1, t_nanos = 999999999\<rparr>"
    "valid_timetz \<lparr>TimeOfDay = 86400000000, OffsetSecs = -3600\<rparr>"
    by (simp_all add: valid_time_def valid_timetz_def in64_def in32_def go_limits offsetSecsToMicros_def)
  have "time_before \<lparr>t_unix = -1, t_nanos = 999999999\<rparr> \<lparr>t_unix = 1, t_nanos = 2\<rparr>"
    by (simp add: time_before_def)
  with time_keys [OF h(1) h(2) h(3) h(3), of "[]" "[7]"] time_keys [OF h(1) h(2) h(3) h(3), of "[]" "[]"]
  show ?thesis by blast
qed

text \<open>
  \<open>PeekLength\<close> and \<open>getArrayLength\<close> terminate on every buffer: with fuel twice
  the length of the buffer the iteration never runs out, more fuel changes nothing, and the results
  satisfy the mutually recursive equations of the source.
\<close>

theorem PeekLength_terminates:
  "PeekLength b \<noteq> Inl (Panic ''out of fuel'') \<and>
   PeekLength_fuel (2 * length b + 1 + n) b = PeekLength b \<and>
   PeekLength b = PeekLength_body PeekLength getArrayLength_loop b \<and>
   getArrayLength_loop b dir k \<noteq> Inl (Panic ''out of fuel'') \<and>
   getArrayLength_loop b dir k = getArrayLength_body PeekLength getArrayLength_loop b dir k"
  using fuel_enough(1) [of b "2 * length b + 1"] fuel_enough(2) [of b "2 * length b + 2" dir k] fuel_stable(1) [of b "2 * length b + 1 + n" "2 * length b + 1"]
    PeekLength_unfold [of b] getArrayLength_unfold [of b dir k]
  by (simp add: PeekLength_def getArrayLength_loop_def)

text \<open>
  C19. \<open>PeekLength\<close> skips exactly one encoded value, whatever follows: ascending
  integers, byte strings in both directions, ascending times, the ascending marker of NULL and the
  descending one of a value that is not NULL, and arrays of elements it can skip.
\<close>

theorem PeekLength_exact:
  assumes "in64 v" and "valid_time t" and "\<forall>x\<in>set xs. array_element dir x"
  shows "PeekLength (EncodeVarintAscending [] v @ rest) = Inr (length (EncodeVarintAscending [] v)) \<and>
    PeekLength (EncodeBytesAscending [] d @ rest) = Inr (length (EncodeBytesAscending [] d)) \<and>
    PeekLength (EncodeBytesDescending [] d @ rest) = Inr (length (EncodeBytesDescending [] d)) \<and>
    PeekLength (EncodeTimeAscending [] t @ rest) = Inr (length (EncodeTimeAscending [] t)) \<and>
    PeekLength (EncodeNullAscending [] @ rest) = Inr 1 \<and>
    PeekLength (EncodeNotNullDescending [] @ rest) = Inr 1 \<and>
    PeekLength (EncodeArrayKeyTerminator (EncodeArrayKeyMarker [] dir @ concat xs) dir @ rest) =
      Inr (length (EncodeArrayKeyTerminator (EncodeArrayKeyMarker [] dir @ concat xs) dir))"
proof (intro conjI)
  show "PeekLength (EncodeTimeAscending [] t @ rest) = Inr (length (EncodeTimeAscending [] t))"
    using PeekLength_two_varints [of "t_unix t" "t_nanos t" timeMarker rest] valid_time_in64 [OF assms(2)]
    by (simp add: EncodeTimeAscending_eq)
qed (use assms PeekLength_array [of xs dir rest] in \<open>auto simp: PeekLength_EncodeVarintAscending PeekLength_bytes
       EncodeNullAscending_def EncodeNotNullDescending_def PeekLength_unfold [of "_ # _"] PeekLength_body_def\<close>)

theorem PeekLength_exact_witness:
  "PeekLength (EncodeArrayKeyTerminator (EncodeArrayKeyMarker [] Ascending @
      concat [EncodeBytesAscending [] [0, 7], EncodeVarintAscending [] (-5)]) Ascending @ [9]) =
    Inr (length (EncodeArrayKeyTerminator (EncodeArrayKeyMarker [] Ascending @
      concat [EncodeBytesAscending [] [0, 7], EncodeVarintAscending [] (-5)]) Ascending))"
proof -
  have v: "in64 (-5)" by (simp add: in64_def go_limits)
  have "array_element Ascending (EncodeBytesAscending [] [0, 7])"
    by (auto simp: array_element_def PeekLength_bytes) (simp_all add: EncodeBytesAscending_eq marker_defs)
  moreover have "array_element Ascending (EncodeVarintAscending [] (-5))"
    using PeekLength_EncodeVarintAscending [OF v]
    by (auto simp: array_element_def) (simp_all add: EncodeVarintAscending_def tagged_def tag_byte_def int_tags marker_defs)
  ultimately have xs: "\<forall>x\<in>set [EncodeBytesAscending [] [0, 7], EncodeVarintAscending [] (-5)]. array_element Ascending x"
    by simp
  have t: "valid_time \<lparr>t_unix = 0, t_nanos = 0\<rparr>" by (simp add: valid_time_def in64_def go_limits)
  show ?thesis using PeekLength_exact [OF v t xs, of "[9]" "[]"] by blast
qed

lemma peekBox2DLength_short_panics: "peekBox2DLength [floatPos] = Inl (Panic ''slice bounds out of range'')"
  using peekBox2DLength_loop.simps(2) [of 3 "[floatPos]" 0]
  by (simp add: peekBox2DLength_def slice_from_def marker_defs)

end
