(* ===== verification/Hlc_Timestamp.thy ===== *)
theory Hlc_Timestamp
  imports Encoding_Keys
begin

text \<open>
  Hybrid logical timestamps, \<open>pkg/util/hlc/timestamp.go\<close>. \<open>WallTime\<close> is an
  \<open>int64\<close> and \<open>Logical\<close> an \<open>int32\<close>, kept as integers with the
  wrap-around of every addition written out; \<open>valid_ts\<close> is their range. Methods with a
  pointer receiver return the updated receiver. Printing and parsing are modelled on strings, with the
  regular expression of \<open>ParseTimestamp\<close> as a hand-written matcher: the expression is
  anchored and its digit groups are followed by a non-digit, so the match is unique.
\<close>

section \<open>Timestamps\<close>

record Timestamp =
  WallTime :: int
  Logical :: int
  Synthetic :: bool

abbreviation mkTs :: "int \<Rightarrow> int \<Rightarrow> Timestamp" where
  "mkTs w l \<equiv> \<lparr>WallTime = w, Logical = l, Synthetic = False\<rparr>"

definition valid_ts :: "Timestamp \<Rightarrow> bool" where
  "valid_ts t \<longleftrightarrow> in64 (WallTime t) \<and> in32 (Logical t)"

definition MaxTimestamp :: Timestamp where
  "MaxTimestamp = mkTs MaxInt64 MaxInt32"

definition MinTimestamp :: Timestamp where
  "MinTimestamp = mkTs 0 1"

definition Timestamp_EqOrdering :: "Timestamp \<Rightarrow> Timestamp \<Rightarrow> bool" where
  "Timestamp_EqOrdering t s \<longleftrightarrow> WallTime t = WallTime s \<and> Logical t = Logical s"

definition Timestamp_Less :: "Timestamp \<Rightarrow> Timestamp \<Rightarrow> bool" where
  "Timestamp_Less t s \<longleftrightarrow>
     WallTime t < WallTime s \<or> WallTime t = WallTime s \<and> Logical t < Logical s"

definition Timestamp_LessEq :: "Timestamp \<Rightarrow> Timestamp \<Rightarrow> bool" where
  "Timestamp_LessEq t s \<longleftrightarrow>
     WallTime t < WallTime s \<or> WallTime t = WallTime s \<and> Logical t \<le> Logical s"

definition Timestamp_Compare :: "Timestamp \<Rightarrow> Timestamp \<Rightarrow> int" where
  "Timestamp_Compare t s =
     (if WallTime t > WallTime s then 1
      else if WallTime t < WallTime s then -1
      else if Logical t > Logical s then 1
      else if Logical t < Logical s then -1
      else 0)"

definition Timestamp_IsEmpty :: "Timestamp \<Rightarrow> bool" where
  "Timestamp_IsEmpty t \<longleftrightarrow> WallTime t = 0 \<and> Logical t = 0 \<and> \<not> Synthetic t"

definition Timestamp_IsSet :: "Timestamp \<Rightarrow> bool" where
  "Timestamp_IsSet t \<longleftrightarrow> \<not> Timestamp_IsEmpty t"

definition Timestamp_Add :: "Timestamp \<Rightarrow> int \<Rightarrow> int \<Rightarrow> Timestamp" where
  "Timestamp_Add t wallTime logical =
     \<lparr>WallTime = wrap64 (WallTime t + wallTime), Logical = wrap32 (Logical t + logical),
      Synthetic = Synthetic t\<rparr>"

definition Timestamp_WithSynthetic :: "Timestamp \<Rightarrow> bool \<Rightarrow> Timestamp" where
  "Timestamp_WithSynthetic t val = t\<lparr>Synthetic := val\<rparr>"

definition Timestamp_Next :: "Timestamp \<Rightarrow> Timestamp res" where
  "Timestamp_Next t =
     (if Logical t = MaxInt32 then
        if WallTime t = MaxInt64 then Inl (Panic ''cannot take the next value to a max timestamp'')
        else Inr \<lparr>WallTime = wrap64 (WallTime t + 1), Logical = 0, Synthetic = Synthetic t\<rparr>
      else Inr \<lparr>WallTime = WallTime t, Logical = wrap32 (Logical t + 1), Synthetic = Synthetic t\<rparr>)"

definition Timestamp_Prev :: "Timestamp \<Rightarrow> Timestamp res" where
  "Timestamp_Prev t =
     (if Logical t > 0 then
        Inr \<lparr>WallTime = WallTime t, Logical = Logical t - 1, Synthetic = Synthetic t\<rparr>
      else if WallTime t > 0 then
        Inr \<lparr>WallTime = WallTime t - 1, Logical = MaxInt32, Synthetic = Synthetic t\<rparr>
      else Inl (Panic ''cannot take the previous value to a zero timestamp''))"

definition Timestamp_FloorPrev :: "Timestamp \<Rightarrow> Timestamp res" where
  "Timestamp_FloorPrev t =
     (if Logical t > 0 then
        Inr \<lparr>WallTime = WallTime t, Logical = Logical t - 1, Synthetic = Synthetic t\<rparr>
      else if WallTime t > 0 then
        Inr \<lparr>WallTime = WallTime t - 1, Logical = 0, Synthetic = Synthetic t\<rparr>
      else Inl (Panic ''cannot take the previous value to a zero timestamp''))"

definition Timestamp_WallNext :: "Timestamp \<Rightarrow> Timestamp" where
  "Timestamp_WallNext t = \<lparr>WallTime = wrap64 (WallTime t + 1), Logical = 0, Synthetic = Synthetic t\<rparr>"

definition Timestamp_WallPrev :: "Timestamp \<Rightarrow> Timestamp" where
  "Timestamp_WallPrev t = \<lparr>WallTime = wrap64 (WallTime t - 1), Logical = 0, Synthetic = Synthetic t\<rparr>"

definition bothSynthetic :: "Timestamp \<Rightarrow> Timestamp \<Rightarrow> bool" where
  "bothSynthetic l r \<longleftrightarrow> Synthetic l \<and> Synthetic r"

definition Timestamp_Forward :: "Timestamp \<Rightarrow> Timestamp \<Rightarrow> Timestamp \<times> bool" where
  "Timestamp_Forward t s =
     (if Timestamp_Less t s then (s, True)
      else if Timestamp_EqOrdering t s then (t\<lparr>Synthetic := bothSynthetic t s\<rparr>, False)
      else (t, False))"

definition Timestamp_Backward :: "Timestamp \<Rightarrow> Timestamp \<Rightarrow> Timestamp" where
  "Timestamp_Backward t s =
     (if Timestamp_Less s t then s else t)\<lparr>Synthetic := bothSynthetic t s\<rparr>"

definition Timestamp_GoTime :: "Timestamp \<Rightarrow> gotime" where
  "Timestamp_GoTime t = timeutil_Unix 0 (WallTime t)"

text \<open>A legacy timestamp has an optional synthetic flag.\<close>

record LegacyTimestamp =
  L_WallTime :: int
  L_Logical :: int
  L_Synthetic :: "bool option"

definition Timestamp_ToLegacyTimestamp :: "Timestamp \<Rightarrow> LegacyTimestamp" where
  "Timestamp_ToLegacyTimestamp t =
     \<lparr>L_WallTime = WallTime t, L_Logical = Logical t,
      L_Synthetic = (if Synthetic t then Some True else None)\<rparr>"

definition LegacyTimestamp_ToTimestamp :: "LegacyTimestamp \<Rightarrow> Timestamp" where
  "LegacyTimestamp_ToTimestamp t =
     \<lparr>WallTime = L_WallTime t, Logical = L_Logical t,
      Synthetic = (case L_Synthetic t of None \<Rightarrow> False | Some b \<Rightarrow> b)\<rparr>"

text \<open>A \<open>ClockTimestamp\<close> has the same representation; its flag is never set.\<close>

type_synonym ClockTimestamp = Timestamp

definition DeprecatedTryToClockTimestamp :: "Timestamp \<Rightarrow> ClockTimestamp \<times> bool" where
  "DeprecatedTryToClockTimestamp t = (if Synthetic t then (mkTs 0 0, False) else (t, True))"

definition UnsafeToClockTimestamp :: "Timestamp \<Rightarrow> ClockTimestamp" where
  "UnsafeToClockTimestamp t = t\<lparr>Synthetic := False\<rparr>"

definition ClockTimestamp_ToTimestamp :: "ClockTimestamp \<Rightarrow> Timestamp res" where
  "ClockTimestamp_ToTimestamp t =
     (if Synthetic t then Inl (Panic ''ClockTimestamp with Synthetic flag set'') else Inr t)"

section \<open>Printing and parsing\<close>

text \<open>\<open>strconv.AppendUint\<close> and \<open>AppendInt\<close> of the standard library, in base ten.\<close>

fun print_uint :: "nat \<Rightarrow> string" where
  "print_uint n =
     (if n < 10 then [char_of (48 + n)] else print_uint (n div 10) @ [char_of (48 + n mod 10)])"

declare print_uint.simps [simp del]

definition print_int :: "int \<Rightarrow> string" where
  "print_int k = (if k < 0 then CHR ''-'' # print_uint (nat (- k)) else print_uint (nat k))"

fun padded :: "nat \<Rightarrow> nat \<Rightarrow> string" where
  "padded 0 ns = []"
| "padded (Suc i) ns = padded i (ns div 10) @ [char_of (48 + ns mod 10)]"

text \<open>
  \<open>w = -w\<close> wraps at the least \<open>int64\<close>; the conversions \<open>uint64(w/1e9)\<close> and
  \<open>uint64(w\%1e9)\<close> of a negative number would be taken modulo \<open>2^64\<close>.
\<close>

definition Timestamp_String :: "Timestamp \<Rightarrow> string" where
  "Timestamp_String t =
     (let w = WallTime t in
      (if w = 0 then ''0,''
       else
         (let neg = (w < 0); w' = (if neg then wrap64 (- w) else w);
              s = nat (quot w' 1000000000 mod 2 ^ 64);
              ns = nat ((w' - quot w' 1000000000 * 1000000000) mod 2 ^ 64)
          in (if neg then ''-'' else []) @ print_uint s @ ''.'' @ padded 9 ns @ '',''))
      @ print_int (Logical t) @ (if Synthetic t then ''?'' else []))"

definition is_digit :: "char \<Rightarrow> bool" where
  "is_digit c \<longleftrightarrow> 48 \<le> (of_char c :: nat) \<and> (of_char c :: nat) \<le> 57"

definition parse_uint :: "string \<Rightarrow> nat" where
  "parse_uint s = foldl (\<lambda>a c. 10 * a + (of_char c - 48)) 0 s"

text \<open>\<open>strconv.ParseInt\<close> on an optionally signed digit string, with its range check.\<close>

definition ParseInt :: "string \<Rightarrow> nat \<Rightarrow> int res" where
  "ParseInt s bits =
     (let k = (case s of c # ds \<Rightarrow> if c = CHR ''-'' then - int (parse_uint ds) else int (parse_uint s)
               | [] \<Rightarrow> 0)
      in if - (2 ^ (bits - 1)) \<le> k \<and> k < 2 ^ (bits - 1) then Inr k else Inl (Err ''value out of range''))"

text \<open>
  The groups of \<open>^(-)?(\\d{1,19})(?:\\.(\\d{1,20}))?(?:,(-?\\d{1,10}))?(\\?)?$\<close>: an optional
  group is the empty string when it is absent.
\<close>

definition digit_group :: "nat \<Rightarrow> string \<Rightarrow> (string \<times> string) option" where
  "digit_group mx s =
     (let d = takeWhile is_digit s in
      if 1 \<le> length d \<and> length d \<le> mx then Some (d, dropWhile is_digit s) else None)"

definition match_timestamp :: "string \<Rightarrow> (bool \<times> string \<times> string \<times> string \<times> bool) option" where
  "match_timestamp s =
     (let (neg, s1) = (case s of c # r \<Rightarrow> if c = CHR ''-'' then (True, r) else (False, s) | [] \<Rightarrow> (False, [])) in
      Option.bind (digit_group 19 s1) (\<lambda>(secs, s2).
      Option.bind
        (case s2 of c # r \<Rightarrow> if c = CHR ''.'' then digit_group 20 r else Some ([], s2) | [] \<Rightarrow> Some ([], []))
        (\<lambda>(nanos, s3).
      Option.bind
        (case s3 of
           c # r \<Rightarrow>
             if c = CHR '','' then
               (case r of
                  c' # r' \<Rightarrow> if c' = CHR ''-'' then map_option (apfst (Cons c')) (digit_group 10 r') else digit_group 10 r
                | [] \<Rightarrow> None)
             else Some ([], s3)
         | [] \<Rightarrow> Some ([], []))
        (\<lambda>(logical, s4).
          if s4 = [] then Some (neg, secs, nanos, logical, False)
          else if s4 = ''?'' then Some (neg, secs, nanos, logical, True)
          else None))))"

definition ParseTimestamp :: "string \<Rightarrow> Timestamp res" where
  "ParseTimestamp str =
     (case match_timestamp str of
        None \<Rightarrow> Inl (Err ''failed to parse as Timestamp'')
      | Some (neg, secs, nanosMatch, logicalMatch, synthetic) \<Rightarrow>
          res_bind (ParseInt secs 64) (\<lambda>seconds.
          res_bind (if nanosMatch \<noteq> [] then ParseInt nanosMatch 64 else Inr 0) (\<lambda>nanos.
            let wallTime = wrap64 (seconds * 1000000000 + nanos);
                wallTime' = (if neg then wrap64 (wallTime * -1) else wallTime)
            in res_bind (if logicalMatch \<noteq> [] then ParseInt logicalMatch 32 else Inr 0) (\<lambda>logical.
                 Inr \<lparr>WallTime = wallTime', Logical = wrap32 logical, Synthetic = synthetic\<rparr>))))"

section \<open>Order\<close>

lemmas ts_order_defs = Timestamp_Less_def Timestamp_LessEq_def Timestamp_EqOrdering_def

lemma ts_less_irrefl [simp]: "\<not> Timestamp_Less t t"
  by (simp add: ts_order_defs)

lemma ts_lesseq_refl [simp]: "Timestamp_LessEq t t"
  by (simp add: ts_order_defs)

lemma ts_lesseq_iff: "Timestamp_LessEq t s \<longleftrightarrow> \<not> Timestamp_Less s t"
  by (auto simp: ts_order_defs)

lemma ts_less_trans [trans]: "Timestamp_Less a b \<Longrightarrow> Timestamp_Less b c \<Longrightarrow> Timestamp_Less a c"
  by (auto simp: ts_order_defs)

lemma ts_lesseq_trans [trans]: "Timestamp_LessEq a b \<Longrightarrow> Timestamp_LessEq b c \<Longrightarrow> Timestamp_LessEq a c"
  by (auto simp: ts_order_defs)

lemma ts_lesseq_less_trans [trans]: "Timestamp_LessEq a b \<Longrightarrow> Timestamp_Less b c \<Longrightarrow> Timestamp_Less a c"
  by (auto simp: ts_order_defs)

lemma ts_less_lesseq_trans [trans]: "Timestamp_Less a b \<Longrightarrow> Timestamp_LessEq b c \<Longrightarrow> Timestamp_Less a c"
  by (auto simp: ts_order_defs)

lemma ts_less_imp_lesseq: "Timestamp_Less a b \<Longrightarrow> Timestamp_LessEq a b"
  by (auto simp: ts_order_defs)

lemma ts_antisym: "Timestamp_LessEq a b \<Longrightarrow> Timestamp_LessEq b a \<Longrightarrow> Timestamp_EqOrdering a b"
  by (auto simp: ts_order_defs)

lemma Forward_ge:
  "Timestamp_LessEq t (fst (Timestamp_Forward t s))" "Timestamp_LessEq s (fst (Timestamp_Forward t s))"
  by (auto simp: Timestamp_Forward_def ts_order_defs)

lemma Forward_valid: "valid_ts t \<Longrightarrow> valid_ts s \<Longrightarrow> valid_ts (fst (Timestamp_Forward t s))"
  by (simp add: Timestamp_Forward_def valid_ts_def)

section \<open>Decimal strings\<close>

lemma of_char_digit [simp]: "d < 10 \<Longrightarrow> (of_char (char_of (48 + d) :: char) :: nat) = 48 + d"
  by simp

lemma parse_uint_Nil [simp]: "parse_uint [] = 0"
  by (simp add: parse_uint_def)

lemma parse_uint_snoc: "d < 10 \<Longrightarrow> parse_uint (s @ [char_of (48 + d)]) = 10 * parse_uint s + d"
  by (simp add: parse_uint_def)

lemma parse_print_uint [simp]: "parse_uint (print_uint n) = n"
proof (induction n rule: print_uint.induct)
  case (1 n)
  then show ?case
    by (subst print_uint.simps) (auto simp: parse_uint_snoc parse_uint_snoc [of _ "[]", simplified])
qed

lemma print_uint_nonempty [simp]: "print_uint n \<noteq> []"
  by (subst print_uint.simps) simp

lemma is_digit_char [simp]: "(d :: nat) < 10 \<Longrightarrow> is_digit (char_of (48 + d))"
  by (simp add: is_digit_def)

lemma print_uint_digits: "list_all is_digit (print_uint n)"
proof (induction n rule: print_uint.induct)
  case (1 n)
  then show ?case by (subst print_uint.simps) auto
qed

lemma length_print_uint: "n < 10 ^ Suc k \<Longrightarrow> length (print_uint n) \<le> Suc k"
proof (induction k arbitrary: n)
  case 0
  then show ?case by (subst print_uint.simps) simp
next
  case (Suc k)
  then have "n div 10 < 10 ^ Suc k" by (simp add: less_mult_imp_div_less)
  then show ?case using Suc.IH [of "n div 10"] by (subst print_uint.simps) simp
qed

lemma length_padded [simp]: "length (padded i ns) = i"
  by (induction i arbitrary: ns) auto

lemma padded_digits: "list_all is_digit (padded i ns)"
  by (induction i arbitrary: ns) auto

lemma parse_padded: "ns < 10 ^ i \<Longrightarrow> parse_uint (padded i ns) = ns"
proof (induction i arbitrary: ns)
  case (Suc i)
  then have "ns div 10 < 10 ^ i" by (simp add: less_mult_imp_div_less)
  then show ?case using Suc.IH by (simp add: parse_uint_snoc)
qed (simp add: parse_uint_def)

lemma digit_group_append:
  assumes "list_all is_digit d" and "d \<noteq> []" and "length d \<le> mx" and "r = [] \<or> \<not> is_digit (hd r)"
  shows "digit_group mx (d @ r) = Some (d, r)"
proof -
  have "takeWhile is_digit (d @ r) = d" "dropWhile is_digit (d @ r) = r"
    using assms(1,4) by (induction d) (auto, (cases r; simp)+)
  then show ?thesis using assms(2,3) by (simp add: digit_group_def Suc_le_eq)
qed

lemma separators_not_digits [simp]:
  "\<not> is_digit CHR ''-''" "\<not> is_digit CHR ''.''" "\<not> is_digit CHR '',''" "\<not> is_digit CHR ''?''"
  by (simp_all add: is_digit_def)

lemma not_minus_digit: "list_all is_digit d \<Longrightarrow> d \<noteq> [] \<Longrightarrow> hd d \<noteq> CHR ''-''"
  by (cases d) auto

lemma ParseInt_in_range:
  "- (2 ^ (bits - 1)) \<le> k \<Longrightarrow> k < 2 ^ (bits - 1) \<Longrightarrow>
   k = (case s of c # ds \<Rightarrow> if c = CHR ''-'' then - int (parse_uint ds) else int (parse_uint s) | [] \<Rightarrow> 0) \<Longrightarrow>
   ParseInt s bits = Inr k"
  by (simp only: ParseInt_def Let_def if_True simp_thms)

lemma ParseInt_uint:
  assumes "list_all is_digit d" "d \<noteq> []" "int (parse_uint d) < 2 ^ (bits - 1)"
  shows "ParseInt d bits = Inr (int (parse_uint d))"
proof (rule ParseInt_in_range)
  have "- (2 ^ (bits - 1)) \<le> (0 :: int)" by simp
  then show "- (2 ^ (bits - 1)) \<le> int (parse_uint d)" by linarith
  show "int (parse_uint d) = (case d of c # ds \<Rightarrow> if c = CHR ''-'' then - int (parse_uint ds) else int (parse_uint d) | [] \<Rightarrow> 0)"
    using not_minus_digit [OF assms(1,2)] assms(2) by (cases d) simp_all
qed (rule assms(3))

lemma ParseInt_print_int:
  assumes "- (2 ^ (bits - 1)) \<le> k" "k < 2 ^ (bits - 1)"
  shows "ParseInt (print_int k) bits = Inr k"
proof (rule ParseInt_in_range [OF assms])
  show "k = (case print_int k of c # ds \<Rightarrow> if c = CHR ''-'' then - int (parse_uint ds) else int (parse_uint (print_int k)) | [] \<Rightarrow> 0)"
  proof (cases "k < 0")
    case True
    then show ?thesis by (simp add: print_int_def)
  next
    case False
    obtain c ds where p: "print_uint (nat k) = c # ds" by (cases "print_uint (nat k)") simp_all
    moreover have "parse_uint (c # ds) = nat k" unfolding p [symmetric] by simp
    moreover have "c \<noteq> CHR ''-''"
      using not_minus_digit [OF print_uint_digits print_uint_nonempty, of "nat k"] p by simp
    ultimately show ?thesis using False by (simp add: print_int_def)
  qed
qed

lemma quot_pos: "0 \<le> w \<Longrightarrow> quot w 1000000000 = w div 1000000000"
  by (cases "w = 0") (simp_all add: quot_def sgn_if)

text \<open>The logical part: an optionally negative number of at most ten digits, at the end of the string.\<close>

lemma match_logical:
  assumes "in32 l" and "syn = [] \<or> syn = ''?''"
  shows "(case print_int l @ syn of
      c' # r' \<Rightarrow> if c' = CHR ''-'' then map_option (apfst (Cons c')) (digit_group 10 r') else digit_group 10 (print_int l @ syn)
    | [] \<Rightarrow> None) = Some (print_int l, syn)"
proof -
  have "nat \<bar>l\<bar> < 10 ^ Suc 9" using assms(1) by (simp add: in32_def go_limits nat_less_iff abs_less_iff)
  then have len: "length (print_uint (nat \<bar>l\<bar>)) \<le> 10" using length_print_uint [of "nat \<bar>l\<bar>" 9] by simp
  have g: "digit_group 10 (print_uint (nat \<bar>l\<bar>) @ syn) = Some (print_uint (nat \<bar>l\<bar>), syn)"
    using assms(2) len by (intro digit_group_append print_uint_digits) auto
  show ?thesis
  proof (cases "l < 0")
    case True
    then show ?thesis using g by (simp add: print_int_def)
  next
    case False
    then show ?thesis
      using g not_minus_digit [OF print_uint_digits print_uint_nonempty, of "nat l"]
      by (cases "print_uint (nat l)") (auto simp: print_int_def)
  qed
qed

lemma match_String:
  assumes "in64 w" "w \<noteq> MinInt64" "w \<noteq> 0" "in32 l"
  shows "match_timestamp (Timestamp_String \<lparr>WallTime = w, Logical = l, Synthetic = syn\<rparr>) =
    Some (w < 0, print_uint (nat (\<bar>w\<bar> div 1000000000)), padded 9 (nat (\<bar>w\<bar> mod 1000000000)), print_int l, syn)"
proof -
  let ?s = "print_uint (nat (\<bar>w\<bar> div 1000000000))" and ?n = "padded 9 (nat (\<bar>w\<bar> mod 1000000000))"
  let ?tail = "print_int l @ (if syn then ''?'' else [])"
  have w: "\<bar>w\<bar> \<le> MaxInt64" using assms(1,2) by (auto simp: in64_def go_limits abs_if)
  have d64: "\<bar>w\<bar> div 1000000000 < 2 ^ 64" "0 \<le> \<bar>w\<bar> div 1000000000"
    using w by (simp_all add: go_limits)
  have m64: "\<bar>w\<bar> mod 1000000000 < 2 ^ 64" by (rule order.strict_trans [OF pos_mod_bound]) simp_all
  have str: "Timestamp_String \<lparr>WallTime = w, Logical = l, Synthetic = syn\<rparr> =
      (if w < 0 then ''-'' else []) @ ?s @ ''.'' @ ?n @ '','' @ ?tail"
  proof -
    define u where "u = \<bar>w\<bar>"
    have u: "(if w < 0 then wrap64 (- w) else w) = u"
      using w assms(1) by (auto simp: u_def in64_def go_limits abs_if)
    have uw: "u = \<bar>w\<bar>" "0 \<le> u" by (simp_all add: u_def)
    show ?thesis
      using assms(3) d64 m64 unfolding Timestamp_String_def Let_def Timestamp.simps u uw(1) [symmetric]
      by (simp add: quot_pos uw(2) minus_div_mult_eq_mod)
  qed
  have "nat (\<bar>w\<bar> div 1000000000) < 10 ^ Suc 18"
    using w by (simp add: nat_less_iff go_limits)
  then have len: "length ?s \<le> 19" using length_print_uint [of _ 18] by simp
  have g1: "digit_group 19 (?s @ ''.'' @ ?n @ '','' @ ?tail) = Some (?s, ''.'' @ ?n @ '','' @ ?tail)"
    by (rule digit_group_append) (simp_all add: print_uint_digits len)
  have "?n \<noteq> []" by (metis length_padded list.size(3) zero_neq_numeral)
  then have g2: "digit_group 20 (?n @ '','' @ ?tail) = Some (?n, '','' @ ?tail)"
    by (intro digit_group_append) (simp_all add: padded_digits)
  note g3 = match_logical [OF assms(4), of "''?''", simplified] match_logical [OF assms(4) disjI1 [OF refl], unfolded append_Nil2]
  have strip: "(case (if w < 0 then ''-'' else []) @ ?s @ ''.'' @ ?n @ '','' @ ?tail of
      c # r \<Rightarrow> if c = CHR ''-'' then (True, r) else (False, (if w < 0 then ''-'' else []) @ ?s @ ''.'' @ ?n @ '','' @ ?tail)
    | [] \<Rightarrow> (False, [])) = (w < 0, ?s @ ''.'' @ ?n @ '','' @ ?tail)"
    using not_minus_digit [OF print_uint_digits print_uint_nonempty, of "nat (\<bar>w\<bar> div 1000000000)"]
    by (cases ?s) auto
  show ?thesis
    unfolding match_timestamp_def str strip Let_def prod.case g1 Option.bind.bind_lunit
    using g2 g3 by (cases syn) simp_all
qed

lemma ParseTimestamp_String:
  assumes "valid_ts t" and "WallTime t \<noteq> MinInt64"
  shows "ParseTimestamp (Timestamp_String t) = Inr t"
proof -
  obtain w l syn where t: "t = \<lparr>WallTime = w, Logical = l, Synthetic = syn\<rparr>" by (cases t)
  have h: "in64 w" "w \<noteq> MinInt64" "in32 l" using assms by (simp_all add: t valid_ts_def)
  have l: "ParseInt (print_int l) 32 = Inr l"
    using h(3) by (intro ParseInt_print_int) (simp_all add: in32_def go_limits)
  have ln: "print_int l \<noteq> []" by (simp add: print_int_def)
  show ?thesis
  proof (cases "w = 0")
    case True
    note g = match_logical [OF h(3), of "''?''", simplified] match_logical [OF h(3) disjI1 [OF refl], unfolded append_Nil2]
    have z: "digit_group 19 (CHR ''0'' # CHR '','' # r) = Some (''0'', CHR '','' # r)" for r
      using digit_group_append [of "''0''" 19 "CHR '','' # r"] by (simp add: is_digit_def)
    have "match_timestamp (Timestamp_String t) = Some (False, ''0'', [], print_int l, syn)"
      using g by (cases syn) (simp_all add: match_timestamp_def Timestamp_String_def t True Let_def z)
    moreover have "ParseInt ''0'' 64 = Inr 0"
      by (rule ParseInt_in_range) (simp_all add: parse_uint_def)
    ultimately show ?thesis
      using l ln h(3) by (simp add: ParseTimestamp_def t True wrap64_def)
  next
    case False
    define s where "s = \<bar>w\<bar> div 1000000000"
    define n where "n = \<bar>w\<bar> mod 1000000000"
    have sn: "s * 1000000000 + n = \<bar>w\<bar>" "0 \<le> s" "0 \<le> n" "n < 1000000000"
      by (simp_all add: s_def n_def)
    have s: "ParseInt (print_uint (nat s)) 64 = Inr s"
      using sn h(1) by (subst ParseInt_uint) (auto simp: print_uint_digits in64_def go_limits abs_if split: if_splits)
    have pn: "padded 9 (nat n) \<noteq> []" by (metis length_padded list.size(3) zero_neq_numeral)
    have n: "ParseInt (padded 9 (nat n)) 64 = Inr n"
      using sn pn by (subst ParseInt_uint) (simp_all add: padded_digits parse_padded nat_less_iff)
    have "in64 (- w)" using h(1,2) by (auto simp: in64_def go_limits)
    then have "w < 0 \<Longrightarrow> wrap64 (- wrap64 (- w)) = w" "wrap64 w = w" using h(1) by simp_all
    then show ?thesis
      using match_String [OF h(1,2) False h(3)] s n pn l ln h(3)
      by (simp add: ParseTimestamp_def t s_def n_def Let_def)
  qed
qed

section \<open>Properties\<close>

text \<open>
  The comparisons of timestamps agree with each other and order timestamps totally up to the
  synthetic flag; \<open>Forward\<close> and \<open>Backward\<close> compute the maximum and the
  minimum in that order, \<open>Forward\<close> reports exactly whether it moved, and the synthetic flag
  survives a tie only when both timestamps have it.
\<close>

theorem timestamp_order:
  "(Timestamp_Compare t s = -1 \<longleftrightarrow> Timestamp_Less t s) \<and>
   (Timestamp_Compare t s = 0 \<longleftrightarrow> Timestamp_EqOrdering t s) \<and>
   (Timestamp_Compare t s = 1 \<longleftrightarrow> \<not> Timestamp_LessEq t s) \<and>
   (Timestamp_Less r t \<and> Timestamp_Less t s \<longrightarrow> Timestamp_Less r s) \<and>
   (case Timestamp_Forward t s of (u, moved) \<Rightarrow>
      (moved \<longleftrightarrow> Timestamp_Less t s) \<and> Timestamp_LessEq t u \<and> Timestamp_LessEq s u \<and>
      (Timestamp_EqOrdering u t \<or> Timestamp_EqOrdering u s) \<and>
      (Timestamp_EqOrdering t s \<longrightarrow> (Synthetic u \<longleftrightarrow> Synthetic t \<and> Synthetic s))) \<and>
   (let u = Timestamp_Backward t s in
      Timestamp_LessEq u t \<and> Timestamp_LessEq u s \<and> (Timestamp_EqOrdering u t \<or> Timestamp_EqOrdering u s))"
  by (auto simp: Timestamp_Compare_def Timestamp_Forward_def Timestamp_Backward_def ts_order_defs
      bothSynthetic_def Let_def)

theorem timestamp_order_witness:
  "Timestamp_Forward \<lparr>WallTime = 3, Logical = 1, Synthetic = True\<rparr> (mkTs 3 1) = (mkTs 3 1, False)
   \<and> Timestamp_Compare (mkTs 2 9) (mkTs 3 1) = -1"
proof -
  have "Timestamp_Less (mkTs 2 9) (mkTs 3 1)" by (simp add: ts_order_defs)
  then have "Timestamp_Compare (mkTs 2 9) (mkTs 3 1) = -1"
    using timestamp_order [of "mkTs 2 9" "mkTs 3 1"] by blast
  then show ?thesis by (simp add: Timestamp_Forward_def ts_order_defs bothSynthetic_def)
qed

text \<open>
  \<open>Next\<close> is the successor on the timestamps with a non-negative logical part: it
  panics only at the maximum, is strictly later with nothing in between, and \<open>Prev\<close>
  undoes it; \<open>Prev\<close> and \<open>FloorPrev\<close> are strictly earlier.
\<close>

theorem timestamp_successor:
  assumes "valid_ts t" and "0 \<le> Logical t" and "0 \<le> WallTime t"
  shows "(Timestamp_Next t = Inl (Panic ''cannot take the next value to a max timestamp'') \<longleftrightarrow>
      Timestamp_EqOrdering t MaxTimestamp) \<and>
    (\<forall>u. Timestamp_Next t = Inr u \<longrightarrow>
      valid_ts u \<and> Timestamp_Less t u \<and> Timestamp_Prev u = Inr t \<and>
      (\<forall>v. valid_ts v \<longrightarrow> 0 \<le> Logical v \<longrightarrow> Timestamp_Less t v \<longrightarrow> Timestamp_LessEq u v)) \<and>
    (\<forall>u. Timestamp_Prev t = Inr u \<longrightarrow> Timestamp_Next u = Inr t \<and> Timestamp_Less u t) \<and>
    (\<forall>u. Timestamp_FloorPrev t = Inr u \<longrightarrow> Timestamp_Less u t)"
  using assms
  by (cases t) (auto simp: Timestamp_Next_def Timestamp_Prev_def Timestamp_FloorPrev_def MaxTimestamp_def
      ts_order_defs valid_ts_def in64_def in32_def go_limits split: if_splits)

theorem timestamp_successor_witness:
  "Timestamp_Prev (mkTs 8 0) = Inr (mkTs 7 MaxInt32) \<and> Timestamp_Less (mkTs 7 MaxInt32) (mkTs 8 0)"
proof -
  have v: "valid_ts (mkTs 7 MaxInt32)" "0 \<le> Logical (mkTs 7 MaxInt32)" "0 \<le> WallTime (mkTs 7 MaxInt32)"
    by (simp_all add: valid_ts_def in64_def in32_def go_limits)
  have n: "Timestamp_Next (mkTs 7 MaxInt32) = Inr (mkTs 8 0)"
    by (simp add: Timestamp_Next_def go_limits in64_def)
  show ?thesis using timestamp_successor [OF v] n by blast
qed

text \<open>
  \<open>ParseTimestamp\<close> inverts \<open>String\<close> on every timestamp but those whose
  wall time is the least \<open>int64\<close>, whose negation overflows.
\<close>

theorem timestamp_string_roundtrip:
  assumes "valid_ts t" and "WallTime t \<noteq> MinInt64"
  shows "ParseTimestamp (Timestamp_String t) = Inr t"
  using assms by (rule ParseTimestamp_String)

theorem timestamp_string_roundtrip_witness:
  "ParseTimestamp (Timestamp_String \<lparr>WallTime = -1000000001, Logical = -7, Synthetic = True\<rparr>) =
     Inr \<lparr>WallTime = -1000000001, Logical = -7, Synthetic = True\<rparr>"
  by (rule timestamp_string_roundtrip) (simp_all add: valid_ts_def in64_def in32_def go_limits)

end
