(* ===== verification/Hlc_Clock.thy ===== *)
theory Hlc_Clock
  imports Hlc_Timestamp
begin

text \<open>
  The hybrid logical clock, \<open>pkg/util/hlc/hlc.go\<close>. Reading the physical clock is an
  input of the operations. \<open>log.Fatalf\<close>, which ends the process, is a \<open>Panic\<close>.
  The operations are modelled twice: as functions on the state of the clock, for an uninterrupted
  call, and as the atomic steps of concurrent calls (\<open>clock_step\<close>), where every atomic
  load, compare-and-swap and critical section is one step of one goroutine. The critical sections
  are shared by the two.
\<close>

section \<open>State and operations\<close>

record Clock =
  maxOffset :: int
  toleratedOffset :: int
  lastPhysicalTime :: int
  monotonicityErrorsCount :: int
  forwardClockJumpCheckEnabled :: int
  timestamp :: ClockTimestamp
  isMonitoringForwardClockJumps :: bool
  wallTimeUpperBound :: int

definition NewClock :: "int \<Rightarrow> int \<Rightarrow> Clock" where
  "NewClock mo tolerated =
     \<lparr>maxOffset = mo, toleratedOffset = tolerated, lastPhysicalTime = 0, monotonicityErrorsCount = 0,
      forwardClockJumpCheckEnabled = 0, timestamp = mkTs 0 0, isMonitoringForwardClockJumps = False,
      wallTimeUpperBound = 0\<rparr>"

definition toleratedForwardClockJump :: "Clock \<Rightarrow> int" where
  "toleratedForwardClockJump c = quot (maxOffset c) 2"

definition checkPhysicalClock :: "Clock \<Rightarrow> int \<Rightarrow> int \<Rightarrow> Clock res" where
  "checkPhysicalClock c oldTime newTime =
     (if oldTime = 0 then Inr c
      else
        (let interval = wrap64 (oldTime - newTime);
             c' = (if interval > quot (maxOffset c) 10
                   then c\<lparr>monotonicityErrorsCount := wrap32 (monotonicityErrorsCount c + 1)\<rparr> else c)
         in if forwardClockJumpCheckEnabled c' \<noteq> 0 \<and> toleratedForwardClockJump c' \<le> wrap64 (- interval)
            then Inl (Panic ''detected forward time jump'') else Inr c'))"

definition getPhysicalClockAndCheck :: "Clock \<Rightarrow> int \<Rightarrow> (Clock \<times> int) res" where
  "getPhysicalClockAndCheck c newTime =
     (let oldTime = lastPhysicalTime c in
      res_bind (checkPhysicalClock (c\<lparr>lastPhysicalTime := newTime\<rparr>) oldTime newTime)
        (\<lambda>c'. Inr (c', newTime)))"

definition enforceWallTimeWithinBoundLocked :: "Clock \<Rightarrow> Clock res" where
  "enforceWallTimeWithinBoundLocked c =
     (if wallTimeUpperBound c \<noteq> 0 \<and> WallTime (timestamp c) > wallTimeUpperBound c
      then Inl (Panic ''wall time is not allowed to be greater than upper bound'') else Inr c)"

definition now_locked :: "Clock \<Rightarrow> int \<Rightarrow> (Clock \<times> ClockTimestamp) res" where
  "now_locked c physicalClock =
     (let c' =
        (if WallTime (timestamp c) \<ge> physicalClock
         then c\<lparr>timestamp := (timestamp c)\<lparr>Logical := wrap32 (Logical (timestamp c) + 1)\<rparr>\<rparr>
         else c\<lparr>timestamp := (timestamp c)\<lparr>WallTime := physicalClock, Logical := 0\<rparr>\<rparr>)
      in res_bind (enforceWallTimeWithinBoundLocked c') (\<lambda>c''. Inr (c'', timestamp c'')))"

definition NowAsClockTimestamp :: "Clock \<Rightarrow> int \<Rightarrow> (Clock \<times> ClockTimestamp) res" where
  "NowAsClockTimestamp c reading =
     res_bind (getPhysicalClockAndCheck c reading) (\<lambda>(c', physicalClock). now_locked c' physicalClock)"

definition Clock_Now :: "Clock \<Rightarrow> int \<Rightarrow> (Clock \<times> Timestamp) res" where
  "Clock_Now c reading =
     res_bind (NowAsClockTimestamp c reading) (\<lambda>(c', t).
       res_bind (ClockTimestamp_ToTimestamp t) (\<lambda>t'. Inr (c', t')))"

definition update_locked :: "Clock \<Rightarrow> ClockTimestamp \<Rightarrow> Clock res" where
  "update_locked c rt =
     enforceWallTimeWithinBoundLocked
       (if WallTime rt > WallTime (timestamp c) then
          c\<lparr>timestamp := (timestamp c)\<lparr>WallTime := WallTime rt, Logical := Logical rt\<rparr>\<rparr>
        else if WallTime rt = WallTime (timestamp c) \<and> Logical rt > Logical (timestamp c) then
          c\<lparr>timestamp := (timestamp c)\<lparr>Logical := Logical rt\<rparr>\<rparr>
        else c)"

definition Clock_Update :: "Clock \<Rightarrow> ClockTimestamp \<Rightarrow> Clock res" where
  "Clock_Update c rt = (if WallTime rt < WallTime (timestamp c) then Inr c else update_locked c rt)"

text \<open>The offset check of \<open>UpdateAndCheckMaxOffset\<close> and the timestamp it passes to \<open>Update\<close>.\<close>

definition offset_ok :: "Clock \<Rightarrow> int \<Rightarrow> ClockTimestamp \<Rightarrow> bool" where
  "offset_ok c physicalClock rt \<longleftrightarrow>
     \<not> (maxOffset c > 0 \<and> wrap64 (WallTime rt - physicalClock) > maxOffset c)"

definition effective_ts :: "int \<Rightarrow> ClockTimestamp \<Rightarrow> ClockTimestamp" where
  "effective_ts physicalClock rt = (if physicalClock > WallTime rt then mkTs physicalClock 0 else rt)"

definition UpdateAndCheckMaxOffset ::
  "Clock \<Rightarrow> int \<Rightarrow> ClockTimestamp \<Rightarrow> (Clock \<times> go_err option) res" where
  "UpdateAndCheckMaxOffset c reading rt =
     res_bind (getPhysicalClockAndCheck c reading) (\<lambda>(c', physicalClock).
       if \<not> offset_ok c' physicalClock rt
       then Inr (c', Some (Err ''remote wall time is too far ahead to be trustworthy''))
       else res_bind (Clock_Update c' (effective_ts physicalClock rt)) (\<lambda>c''. Inr (c'', None)))"

definition setForwardJumpCheckEnabled :: "Clock \<Rightarrow> bool \<Rightarrow> Clock" where
  "setForwardJumpCheckEnabled c b = c\<lparr>forwardClockJumpCheckEnabled := (if b then 1 else 0)\<rparr>"

definition setMonitoringClockJump :: "Clock \<Rightarrow> Clock \<times> bool" where
  "setMonitoringClockJump c =
     (c\<lparr>isMonitoringForwardClockJumps := True\<rparr>, isMonitoringForwardClockJumps c)"

text \<open>
  One message handled by the monitoring goroutine: a value of the channel, or a tick.
  A closed channel ends the loop.
\<close>

datatype monitor_msg = Enable bool | Tick

definition monitor_step :: "Clock \<Rightarrow> int \<Rightarrow> monitor_msg \<Rightarrow> Clock res" where
  "monitor_step c reading msg =
     (case msg of
        Enable b \<Rightarrow>
          res_bind (if b then getPhysicalClockAndCheck c reading else Inr (c, reading))
            (\<lambda>(c', _). Inr (setForwardJumpCheckEnabled c' b))
      | Tick \<Rightarrow> res_bind (getPhysicalClockAndCheck c reading) (\<lambda>(c', _). Inr c'))"

text \<open>The function that persists a bound is a parameter: it succeeds or returns an error.\<close>

definition persistHLCUpperBound :: "(int \<Rightarrow> go_err option) \<Rightarrow> Clock \<Rightarrow> int \<Rightarrow> Clock \<times> go_err option" where
  "persistHLCUpperBound persistFn c hlcUpperBound =
     (case persistFn hlcUpperBound of
        Some e \<Rightarrow> (c, Some e)
      | None \<Rightarrow> (c\<lparr>wallTimeUpperBound := hlcUpperBound\<rparr>, None))"

definition RefreshHLCUpperBound ::
  "(int \<Rightarrow> go_err option) \<Rightarrow> Clock \<Rightarrow> int \<Rightarrow> int \<Rightarrow> (Clock \<times> go_err option) res" where
  "RefreshHLCUpperBound persistFn c reading delta =
     (if delta < 0 then Inr (c, Some (Err ''HLC upper bound delta should be positive''))
      else res_bind (Clock_Now c reading) (\<lambda>(c', t).
        Inr (persistHLCUpperBound persistFn c' (wrap64 (WallTime t + delta)))))"

definition ResetHLCUpperBound :: "(int \<Rightarrow> go_err option) \<Rightarrow> Clock \<Rightarrow> Clock \<times> go_err option" where
  "ResetHLCUpperBound persistFn c = persistHLCUpperBound persistFn c 0"

text \<open>
  \<open>SleepUntil\<close>, over the observations of its rounds: the error of the context at the top of the
  loop, the physical reading, and whether the context is done while sleeping. It returns the
  clock, the result (\<open>None\<close> while it has not returned) and the durations slept.
  \<open>Sub\<close> of two times saturates.
\<close>

definition minSleep :: int where "minSleep = 25 * 1000"
definition maxSleep :: int where "maxSleep = 1000000000"

definition time_Sub :: "gotime \<Rightarrow> gotime \<Rightarrow> int" where
  "time_Sub t u =
     (let d = (t_unix t - t_unix u) * 1000000000 + (t_nanos t - t_nanos u)
      in if d > MaxInt64 then MaxInt64 else if d < MinInt64 then MinInt64 else d)"

definition sleep_duration :: "Timestamp \<Rightarrow> Timestamp \<Rightarrow> int" where
  "sleep_duration now t =
     (let d = time_Sub (Timestamp_GoTime now) (Timestamp_GoTime t)
      in if d < minSleep then minSleep else if d > maxSleep then maxSleep else d)"

fun SleepUntil ::
  "Clock \<Rightarrow> Timestamp \<Rightarrow> (go_err option \<times> int \<times> go_err option) list \<Rightarrow> int list \<Rightarrow>
   (Clock \<times> go_err option option \<times> int list) res" where
  "SleepUntil c t [] slept = Inr (c, None, slept)"
| "SleepUntil c t ((ctxErr, reading, ctxDone) # rounds) slept =
     (case ctxErr of
        Some e \<Rightarrow> Inr (c, Some (Some e), slept)
      | None \<Rightarrow>
          res_bind (Clock_Now c reading) (\<lambda>(c', now).
            if Timestamp_LessEq t now then Inr (c', Some None, slept)
            else
              (let d = sleep_duration now t in
               if d < 1000000 then SleepUntil c' t rounds (slept @ [d])
               else case ctxDone of
                 Some e \<Rightarrow> Inr (c', Some (Some e), slept @ [d])
               | None \<Rightarrow> SleepUntil c' t rounds (slept @ [d]))))"

section \<open>Concurrent calls\<close>

datatype clock_op = OpNow | OpUpdate ClockTimestamp | OpUpdateCheck ClockTimestamp

text \<open>
  Where a goroutine is: about to load \<open>lastPhysicalTime\<close>, to read the physical clock, to try the
  compare-and-swap, to reload after a failed one, to check for jumps, or to enter a critical section.
  \<open>PUpdate\<close> remembers the received timestamp beside the one passed to \<open>Update\<close>.
\<close>

datatype pc =
    PIdle
  | PLoad clock_op
  | PRead clock_op int
  | PCas clock_op int int int
  | PReload clock_op int int
  | PCheck clock_op int int
  | PNow int
  | PUpdate ClockTimestamp ClockTimestamp
  | PUpdateLocked ClockTimestamp ClockTimestamp

datatype event = Issued ClockTimestamp | Received ClockTimestamp

fun event_ts :: "event \<Rightarrow> ClockTimestamp" where
  "event_ts (Issued t) = t"
| "event_ts (Received t) = t"

text \<open>
  A configuration: the shared clock, the goroutines, what was issued and received (latest first),
  whether the logical counter has wrapped, and whether the process has ended.
\<close>

record clock_config =
  clk :: Clock
  pcs :: "nat \<Rightarrow> pc"
  trace :: "event list"
  wrapped :: bool
  crashed :: bool

fun after_check :: "clock_op \<Rightarrow> Clock \<Rightarrow> int \<Rightarrow> pc" where
  "after_check OpNow c p = PNow p"
| "after_check (OpUpdate rt) c p = PUpdate rt rt"
| "after_check (OpUpdateCheck rt) c p =
     (if offset_ok c p rt then PUpdate rt (effective_ts p rt) else PIdle)"

fun op_start :: "clock_op \<Rightarrow> pc" where
  "op_start OpNow = PLoad OpNow"
| "op_start (OpUpdate rt) = PUpdate rt rt"
| "op_start (OpUpdateCheck rt) = PLoad (OpUpdateCheck rt)"

fun valid_op :: "clock_op \<Rightarrow> bool" where
  "valid_op OpNow = True"
| "valid_op (OpUpdate rt) = valid_ts rt"
| "valid_op (OpUpdateCheck rt) = valid_ts rt"

inductive clock_step :: "clock_config \<Rightarrow> clock_config \<Rightarrow> bool" where
  start: "\<not> crashed s \<Longrightarrow> pcs s i = PIdle \<Longrightarrow> valid_op op \<Longrightarrow>
     clock_step s (s\<lparr>pcs := (pcs s)(i := op_start op)\<rparr>)"
| load: "\<not> crashed s \<Longrightarrow> pcs s i = PLoad op \<Longrightarrow>
     clock_step s (s\<lparr>pcs := (pcs s)(i := PRead op (lastPhysicalTime (clk s)))\<rparr>)"
| read: "\<not> crashed s \<Longrightarrow> pcs s i = PRead op old \<Longrightarrow> in64 new \<Longrightarrow>
     clock_step s (s\<lparr>pcs := (pcs s)(i := PCas op old new old)\<rparr>)"
| cas_ok: "\<not> crashed s \<Longrightarrow> pcs s i = PCas op old new prev \<Longrightarrow> lastPhysicalTime (clk s) = prev \<Longrightarrow>
     clock_step s (s\<lparr>clk := (clk s)\<lparr>lastPhysicalTime := new\<rparr>, pcs := (pcs s)(i := PCheck op old new)\<rparr>)"
| cas_fail: "\<not> crashed s \<Longrightarrow> pcs s i = PCas op old new prev \<Longrightarrow> lastPhysicalTime (clk s) \<noteq> prev \<Longrightarrow>
     clock_step s (s\<lparr>pcs := (pcs s)(i := PReload op old new)\<rparr>)"
| reload: "\<not> crashed s \<Longrightarrow> pcs s i = PReload op old new \<Longrightarrow>
     clock_step s (s\<lparr>pcs := (pcs s)(i :=
       (if lastPhysicalTime (clk s) \<ge> new then PCheck op old new
        else PCas op old new (lastPhysicalTime (clk s))))\<rparr>)"
| check: "\<not> crashed s \<Longrightarrow> pcs s i = PCheck op old new \<Longrightarrow> checkPhysicalClock (clk s) old new = Inr c \<Longrightarrow>
     clock_step s (s\<lparr>clk := c, pcs := (pcs s)(i := after_check op c new)\<rparr>)"
| check_fatal: "\<not> crashed s \<Longrightarrow> pcs s i = PCheck op old new \<Longrightarrow> checkPhysicalClock (clk s) old new = Inl e \<Longrightarrow>
     clock_step s (s\<lparr>crashed := True\<rparr>)"
| now: "\<not> crashed s \<Longrightarrow> pcs s i = PNow p \<Longrightarrow> now_locked (clk s) p = Inr (c, t) \<Longrightarrow>
     clock_step s (s\<lparr>clk := c, pcs := (pcs s)(i := PIdle), trace := Issued t # trace s,
       wrapped := wrapped s \<or> WallTime (timestamp (clk s)) \<ge> p \<and> Logical (timestamp (clk s)) = MaxInt32\<rparr>)"
| now_fatal: "\<not> crashed s \<Longrightarrow> pcs s i = PNow p \<Longrightarrow> now_locked (clk s) p = Inl e \<Longrightarrow>
     clock_step s (s\<lparr>crashed := True\<rparr>)"
| update_fast: "\<not> crashed s \<Longrightarrow> pcs s i = PUpdate rt eff \<Longrightarrow> WallTime eff < WallTime (timestamp (clk s)) \<Longrightarrow>
     clock_step s (s\<lparr>pcs := (pcs s)(i := PIdle), trace := Received rt # trace s\<rparr>)"
| update_slow: "\<not> crashed s \<Longrightarrow> pcs s i = PUpdate rt eff \<Longrightarrow> \<not> WallTime eff < WallTime (timestamp (clk s)) \<Longrightarrow>
     clock_step s (s\<lparr>pcs := (pcs s)(i := PUpdateLocked rt eff)\<rparr>)"
| update: "\<not> crashed s \<Longrightarrow> pcs s i = PUpdateLocked rt eff \<Longrightarrow> update_locked (clk s) eff = Inr c \<Longrightarrow>
     clock_step s (s\<lparr>clk := c, pcs := (pcs s)(i := PIdle), trace := Received rt # trace s\<rparr>)"
| update_fatal: "\<not> crashed s \<Longrightarrow> pcs s i = PUpdateLocked rt eff \<Longrightarrow> update_locked (clk s) eff = Inl e \<Longrightarrow>
     clock_step s (s\<lparr>crashed := True\<rparr>)"

definition clock_init :: "int \<Rightarrow> int \<Rightarrow> clock_config" where
  "clock_init mo tolerated =
     \<lparr>clk = NewClock mo tolerated, pcs = (\<lambda>_. PIdle), trace = [], wrapped = False, crashed = False\<rparr>"

inductive clock_reach :: "clock_config \<Rightarrow> bool" where
  reach_init: "clock_reach (clock_init mo tolerated)"
| reach_step: "clock_reach s \<Longrightarrow> clock_step s s' \<Longrightarrow> clock_reach s'"

text \<open>Every issued timestamp is later than everything issued or received before it.\<close>

fun causal :: "event list \<Rightarrow> bool" where
  "causal [] = True"
| "causal (Issued t # es) \<longleftrightarrow> (\<forall>e\<in>set es. Timestamp_Less (event_ts e) t) \<and> causal es"
| "causal (Received t # es) \<longleftrightarrow> causal es"

section \<open>Critical sections\<close>

lemma enforce_Inr [simp]:
  "enforceWallTimeWithinBoundLocked c = Inr c' \<longleftrightarrow>
   c' = c \<and> (wallTimeUpperBound c = 0 \<or> WallTime (timestamp c) \<le> wallTimeUpperBound c)"
  by (auto simp: enforceWallTimeWithinBoundLocked_def)

lemma in_zero: "in32 0" "in64 0"
  by (simp_all add: in32_def in64_def go_limits)

lemma in32_succ: "in32 l \<Longrightarrow> l \<noteq> MaxInt32 \<Longrightarrow> wrap32 (l + 1) = l + 1"
  by (simp add: in32_def go_limits)

lemma now_locked_valid:
  "now_locked c p = Inr (c', t) \<Longrightarrow> valid_ts (timestamp c) \<Longrightarrow> in64 p \<Longrightarrow> valid_ts t \<and> t = timestamp c'"
  by (auto simp: now_locked_def res_simps valid_ts_def in_zero Let_def split: if_splits)

lemma now_locked_advances:
  assumes "now_locked c p = Inr (c', t)" and "valid_ts (timestamp c)"
    and "\<not> (WallTime (timestamp c) \<ge> p \<and> Logical (timestamp c) = MaxInt32)"
  shows "Timestamp_Less (timestamp c) t \<and> p \<le> WallTime t"
  using assms in32_succ [of "Logical (timestamp c)"]
  by (auto simp: now_locked_def res_simps valid_ts_def ts_order_defs Let_def split: if_splits)

lemma now_locked_frame:
  "now_locked c p = Inr (c', t) \<Longrightarrow>
   wallTimeUpperBound c' = wallTimeUpperBound c \<and> (Synthetic t \<longleftrightarrow> Synthetic (timestamp c)) \<and>
   (wallTimeUpperBound c = 0 \<or> WallTime t \<le> wallTimeUpperBound c)"
  by (auto simp: now_locked_def res_simps Let_def split: if_splits)

lemma update_locked_advances:
  "update_locked c rt = Inr c' \<Longrightarrow>
   Timestamp_LessEq (timestamp c) (timestamp c') \<and> Timestamp_LessEq rt (timestamp c')"
  by (auto simp: update_locked_def ts_order_defs split: if_splits)

lemma update_locked_valid:
  "update_locked c rt = Inr c' \<Longrightarrow> valid_ts (timestamp c) \<Longrightarrow> valid_ts rt \<Longrightarrow> valid_ts (timestamp c')"
  by (auto simp: update_locked_def valid_ts_def split: if_splits)

lemma checkPhysicalClock_frame:
  "checkPhysicalClock c old new = Inr c' \<Longrightarrow>
   timestamp c' = timestamp c \<and> wallTimeUpperBound c' = wallTimeUpperBound c \<and> maxOffset c' = maxOffset c \<and>
   lastPhysicalTime c' = lastPhysicalTime c"
  by (auto simp: checkPhysicalClock_def Let_def split: if_splits)

lemma effective_ts_ge: "Timestamp_LessEq rt (effective_ts p rt)"
  by (simp add: effective_ts_def ts_order_defs)

lemma effective_ts_valid: "valid_ts rt \<Longrightarrow> in64 p \<Longrightarrow> valid_ts (effective_ts p rt)"
  by (simp add: effective_ts_def valid_ts_def in32_def go_limits)

section \<open>Invariant of concurrent executions\<close>

fun pc_ok :: "pc \<Rightarrow> bool" where
  "pc_ok PIdle = True"
| "pc_ok (PLoad op) = valid_op op"
| "pc_ok (PRead op old) = valid_op op"
| "pc_ok (PCas op old new prev) = (valid_op op \<and> in64 new)"
| "pc_ok (PReload op old new) = (valid_op op \<and> in64 new)"
| "pc_ok (PCheck op old new) = (valid_op op \<and> in64 new)"
| "pc_ok (PNow p) = in64 p"
| "pc_ok (PUpdate rt eff) = (Timestamp_LessEq rt eff \<and> valid_ts eff)"
| "pc_ok (PUpdateLocked rt eff) = (Timestamp_LessEq rt eff \<and> valid_ts eff)"

definition clock_inv :: "clock_config \<Rightarrow> bool" where
  "clock_inv s \<longleftrightarrow> valid_ts (timestamp (clk s)) \<and> (\<forall>i. pc_ok (pcs s i)) \<and>
     (\<not> wrapped s \<longrightarrow> causal (trace s) \<and> (\<forall>e\<in>set (trace s). Timestamp_LessEq (event_ts e) (timestamp (clk s))))"

lemma pc_ok_op_start: "valid_op op \<Longrightarrow> pc_ok (op_start op)"
  by (cases op) auto

lemma pc_ok_after_check: "valid_op op \<Longrightarrow> in64 p \<Longrightarrow> pc_ok (after_check op c p)"
  by (cases op) (auto simp: effective_ts_ge effective_ts_valid)

lemma clock_inv_init: "clock_inv (clock_init mo tolerated)"
  by (simp add: clock_inv_def clock_init_def NewClock_def valid_ts_def in64_def in32_def go_limits)

lemma clock_inv_pc: "clock_inv s \<Longrightarrow> pcs s i = p \<Longrightarrow> pc_ok p"
  by (auto simp: clock_inv_def)

lemma clock_inv_now:
  assumes "clock_inv s" and "pcs s i = PNow p" and n: "now_locked (clk s) p = Inr (c, t)"
  shows "clock_inv (s\<lparr>clk := c, pcs := (pcs s)(i := PIdle), trace := Issued t # trace s,
       wrapped := wrapped s \<or> WallTime (timestamp (clk s)) \<ge> p \<and> Logical (timestamp (clk s)) = MaxInt32\<rparr>)"
proof -
  have p: "in64 p" and v: "valid_ts (timestamp (clk s))"
    using assms(1) clock_inv_pc [OF assms(1,2)] by (simp_all add: clock_inv_def)
  have t: "t = timestamp c" "valid_ts (timestamp c)" using now_locked_valid [OF n v p] by auto
  have "Timestamp_Less (event_ts e) t"
    if "\<not> wrapped s" "\<not> (WallTime (timestamp (clk s)) \<ge> p \<and> Logical (timestamp (clk s)) = MaxInt32)" "e \<in> set (trace s)" for e
    using now_locked_advances [OF n v that(2)] assms(1) that ts_lesseq_less_trans
    unfolding clock_inv_def by blast
  then show ?thesis
    using assms(1) t by (auto simp: clock_inv_def intro: ts_less_imp_lesseq)
qed

lemma clock_inv_receive:
  assumes "clock_inv s" and "Timestamp_LessEq (timestamp (clk s)) (timestamp c)" and "Timestamp_LessEq rt (timestamp c)"
    and "valid_ts (timestamp c)"
  shows "clock_inv (s\<lparr>clk := c, pcs := (pcs s)(i := PIdle), trace := Received rt # trace s\<rparr>)"
  using assms by (auto simp: clock_inv_def intro: ts_lesseq_trans)

lemma clock_inv_step:
  assumes "clock_step s s'" and "clock_inv s"
  shows "clock_inv s'"
  using assms
proof (cases rule: clock_step.cases)
  case (now i p c t)
  then show ?thesis using clock_inv_now [OF assms(2)] by simp
next
  case (update i rt eff c)
  have "valid_ts (timestamp (clk s))" using assms(2) by (simp add: clock_inv_def)
  then show ?thesis
    using update update_locked_advances [OF update(4)] clock_inv_pc [OF assms(2) update(3)]
      update_locked_valid [OF update(4)] ts_lesseq_trans
    by (auto intro!: clock_inv_receive [OF assms(2)])
next
  case (update_fast i rt eff)
  then have "Timestamp_LessEq rt (timestamp (clk s))"
    using clock_inv_pc [OF assms(2) update_fast(3)] by (auto simp: ts_order_defs)
  then show ?thesis
    using update_fast clock_inv_receive [OF assms(2), of "clk s" rt i] assms(2)
    by (simp add: clock_inv_def)
next
  case (check i op old new c)
  then show ?thesis
    using assms(2) checkPhysicalClock_frame [OF check(4)] clock_inv_pc [OF assms(2) check(3)]
    by (auto simp: clock_inv_def pc_ok_after_check)
qed (auto simp: clock_inv_def pc_ok_op_start dest: clock_inv_pc [OF assms(2)])

lemma clock_reach_inv: "clock_reach s \<Longrightarrow> clock_inv s"
  by (induction rule: clock_reach.induct) (auto intro: clock_inv_init clock_inv_step)

section \<open>Uninterrupted calls are executions\<close>

text \<open>
  A call of \<open>NowAsClockTimestamp\<close> that no other goroutine interrupts is an execution of the
  atomic steps with the same effect on the clock and the same result.
\<close>

lemma now_run:
  assumes "clock_reach s" "\<not> crashed s" "pcs s i = PIdle" "in64 r"
    and "NowAsClockTimestamp (clk s) r = Inr (c, t)"
  shows "clock_reach (s\<lparr>clk := c, trace := Issued t # trace s, wrapped := wrapped s \<or>
    r \<le> WallTime (timestamp (clk s)) \<and> Logical (timestamp (clk s)) = MaxInt32\<rparr>)"
proof -
  let ?old = "lastPhysicalTime (clk s)"
  let ?c1 = "(clk s)\<lparr>lastPhysicalTime := r\<rparr>"
  obtain c2 where c2: "checkPhysicalClock ?c1 ?old r = Inr c2" "now_locked c2 r = Inr (c, t)"
    using assms(5) by (auto simp: NowAsClockTimestamp_def getPhysicalClockAndCheck_def res_simps)
  define p where "p k = (pcs s)(i := k)" for k
  have "clock_reach (s\<lparr>pcs := p (PLoad OpNow)\<rparr>)"
    using reach_step [OF assms(1) clock_step.start [OF assms(2,3), of OpNow]] by (simp add: p_def)
  from reach_step [OF this clock_step.load [of _ i OpNow]] assms(2)
  have "clock_reach (s\<lparr>pcs := p (PRead OpNow ?old)\<rparr>)" by (simp add: p_def)
  from reach_step [OF this clock_step.read [of _ i OpNow ?old r]] assms(2,4)
  have "clock_reach (s\<lparr>pcs := p (PCas OpNow ?old r ?old)\<rparr>)" by (simp add: p_def)
  from reach_step [OF this clock_step.cas_ok [of _ i OpNow ?old r ?old]] assms(2)
  have "clock_reach (s\<lparr>clk := ?c1, pcs := p (PCheck OpNow ?old r)\<rparr>)" by (simp add: p_def)
  from reach_step [OF this clock_step.check [of _ i OpNow ?old r c2]] assms(2) c2(1)
  have "clock_reach (s\<lparr>clk := c2, pcs := p (PNow r)\<rparr>)" by (simp add: p_def)
  from reach_step [OF this clock_step.now [of _ i r c t]] assms(2) c2(2)
  have "clock_reach (s\<lparr>clk := c, pcs := p PIdle, trace := Issued t # trace s,
      wrapped := wrapped s \<or> r \<le> WallTime (timestamp c2) \<and> Logical (timestamp c2) = MaxInt32\<rparr>)"
    by (simp add: p_def)
  moreover have "p PIdle = pcs s" using assms(3) by (auto simp: p_def)
  moreover have "timestamp c2 = timestamp (clk s)" using checkPhysicalClock_frame [OF c2(1)] by simp
  ultimately show ?thesis by simp
qed

lemma update_run:
  assumes "clock_reach s" "\<not> crashed s" "pcs s i = PIdle" "valid_ts rt" "Clock_Update (clk s) rt = Inr c"
  shows "clock_reach (s\<lparr>clk := c, trace := Received rt # trace s\<rparr>)"
proof -
  define p where "p k = (pcs s)(i := k)" for k
  have idle: "p PIdle = pcs s" using assms(3) by (auto simp: p_def)
  have u: "clock_reach (s\<lparr>pcs := p (PUpdate rt rt)\<rparr>)"
    using reach_step [OF assms(1) clock_step.start [OF assms(2,3), of "OpUpdate rt"]] assms(4)
    by (simp add: p_def)
  show ?thesis
  proof (cases "WallTime rt < WallTime (timestamp (clk s))")
    case True
    with reach_step [OF u clock_step.update_fast [of _ i rt rt]] assms(2,5) idle
    show ?thesis by (cases s) (simp add: p_def Clock_Update_def)
  next
    case False
    with reach_step [OF u clock_step.update_slow [of _ i rt rt]] assms(2)
    have "clock_reach (s\<lparr>pcs := p (PUpdateLocked rt rt)\<rparr>)" by (simp add: p_def)
    from reach_step [OF this clock_step.update [of _ i rt rt c]] False assms(2,5) idle
    show ?thesis by (simp add: p_def Clock_Update_def)
  qed
qed

section \<open>Upper bound and sleeping\<close>

lemma NowAsClockTimestamp_locked:
  assumes "NowAsClockTimestamp c r = Inr (c', t)"
  obtains c2 where "timestamp c2 = timestamp c" "wallTimeUpperBound c2 = wallTimeUpperBound c"
    "now_locked c2 r = Inr (c', t)"
proof -
  obtain c2 where "checkPhysicalClock (c\<lparr>lastPhysicalTime := r\<rparr>) (lastPhysicalTime c) r = Inr c2"
    "now_locked c2 r = Inr (c', t)"
    using assms by (auto simp: NowAsClockTimestamp_def getPhysicalClockAndCheck_def res_simps)
  then show thesis using checkPhysicalClock_frame that [of c2] by fastforce
qed

lemma now_locked_returns: "now_locked c p = Inr (c', t) \<Longrightarrow> t = timestamp c'"
  by (auto simp: now_locked_def res_simps Let_def)

lemma NowAsClockTimestamp_frame:
  "NowAsClockTimestamp c r = Inr (c', t) \<Longrightarrow>
   (wallTimeUpperBound c \<noteq> 0 \<longrightarrow> WallTime t \<le> wallTimeUpperBound c) \<and>
   wallTimeUpperBound c' = wallTimeUpperBound c \<and> t = timestamp c'"
  using now_locked_frame now_locked_returns by (metis NowAsClockTimestamp_locked)

lemma NowAsClockTimestamp_valid:
  "NowAsClockTimestamp c r = Inr (c', t) \<Longrightarrow> valid_ts (timestamp c) \<Longrightarrow> in64 r \<Longrightarrow> valid_ts (timestamp c')"
  using now_locked_valid by (metis NowAsClockTimestamp_locked)

lemma sleep_duration_min:
  assumes "valid_ts now" "valid_ts t" "\<not> Timestamp_LessEq t now"
  shows "sleep_duration now t = minSleep"
proof -
  have g: "time_Sub (Timestamp_GoTime a) (Timestamp_GoTime b) =
      (if WallTime a - WallTime b > MaxInt64 then MaxInt64
       else if WallTime a - WallTime b < MinInt64 then MinInt64 else WallTime a - WallTime b)"
    if "valid_ts a" "valid_ts b" for a b
  proof -
    have d: "in64 (w div 1000000000)" if "in64 w" for w using that by (auto simp: in64_def go_limits)
    have "(x div 1000000000 - y div 1000000000) * 1000000000 + (x mod 1000000000 - y mod 1000000000) = x - y" for x y :: int
      by (simp add: algebra_simps)
    then show ?thesis
      using that d by (simp add: time_Sub_def Timestamp_GoTime_def timeutil_Unix_def valid_ts_def Let_def)
  qed
  have "WallTime now - WallTime t \<le> 0" using assms(3) by (auto simp: ts_order_defs)
  then show ?thesis
    using g [OF assms(1,2)] by (auto simp: sleep_duration_def Let_def minSleep_def maxSleep_def go_limits)
qed

lemma SleepUntil_loop:
  "SleepUntil c t rounds slept = Inr (c', r, slept') \<Longrightarrow> valid_ts (timestamp c) \<Longrightarrow> valid_ts t \<Longrightarrow>
   \<forall>rd\<in>set rounds. in64 (fst (snd rd)) \<Longrightarrow> \<forall>d\<in>set slept. d = minSleep \<Longrightarrow>
   (r = Some None \<longrightarrow> Timestamp_LessEq t (timestamp c')) \<and> (\<forall>d\<in>set slept'. d = minSleep)"
proof (induction rounds arbitrary: c slept)
  case (Cons rd rounds)
  obtain ce rdg cd where rd: "rd = (ce, rdg, cd)" by (cases rd)
  show ?case
  proof (cases ce)
    case None
    then obtain c1 now where n: "NowAsClockTimestamp c rdg = Inr (c1, now)" "Clock_Now c rdg = Inr (c1, now)"
      using Cons.prems(1) by (auto simp: rd Clock_Now_def ClockTimestamp_ToTimestamp_def res_simps split: if_splits)
    have v: "valid_ts (timestamp c1)" "now = timestamp c1"
      using NowAsClockTimestamp_valid [OF n(1)] NowAsClockTimestamp_frame [OF n(1)] Cons.prems by (simp_all add: rd)
    show ?thesis
    proof (cases "Timestamp_LessEq t now")
      case True
      then show ?thesis using Cons.prems v(2) by (auto simp: rd None n(2))
    next
      case False
      then have "sleep_duration now t = minSleep" using sleep_duration_min v Cons.prems(3) by simp
      then have "SleepUntil c1 t rounds (slept @ [minSleep]) = Inr (c', r, slept')"
        using Cons.prems(1) False by (simp add: rd None n(2) Let_def minSleep_def)
      then show ?thesis using Cons.IH [of c1 "slept @ [minSleep]"] Cons.prems(3-5) v(1) by simp
    qed
  qed (use Cons.prems in \<open>auto simp: rd\<close>)
qed simp

section \<open>Properties\<close>

text \<open>
  C11. Causality under every interleaving: whatever the goroutines reading the clock and applying
  remote timestamps do, and however the physical clock jumps, every timestamp the clock issues is
  strictly later than every timestamp it issued or received before, as long as the 32-bit logical
  counter has not wrapped.
\<close>

theorem clock_causality:
  assumes "clock_reach s" and "\<not> wrapped s"
  shows "causal (trace s) \<and> (\<forall>e\<in>set (trace s). Timestamp_LessEq (event_ts e) (timestamp (clk s)))"
  using clock_reach_inv [OF assms(1)] assms(2) by (simp add: clock_inv_def)

definition witness_run :: clock_config where
  "witness_run = (clock_init 0 0)\<lparr>clk := (NewClock 0 0)\<lparr>lastPhysicalTime := 3, timestamp := mkTs 9 5\<rparr>,
     trace := [Issued (mkTs 9 5), Received (mkTs 9 4)]\<rparr>"

lemma witness_run_reach: "clock_reach witness_run"
proof -
  let ?s = "(clock_init 0 0)\<lparr>clk := (NewClock 0 0)\<lparr>timestamp := mkTs 9 4\<rparr>, trace := [Received (mkTs 9 4)]\<rparr>"
  have "clock_reach ?s"
    using update_run [OF reach_init, of 0 0 0 "mkTs 9 4" "(NewClock 0 0)\<lparr>timestamp := mkTs 9 4\<rparr>"]
    by (simp add: clock_init_def NewClock_def Clock_Update_def update_locked_def valid_ts_def
        in64_def in32_def go_limits)
  from now_run [OF this, of 0 3 "clk witness_run" "mkTs 9 5"]
  show ?thesis
    by (simp add: witness_run_def clock_init_def NewClock_def NowAsClockTimestamp_def getPhysicalClockAndCheck_def
        checkPhysicalClock_def now_locked_def enforceWallTimeWithinBoundLocked_def Let_def in64_def in32_def go_limits)
qed

theorem clock_causality_witness: "Timestamp_Less (mkTs 9 4) (mkTs 9 5) \<and> causal (trace witness_run)"
  using clock_causality [OF witness_run_reach] by (simp add: witness_run_def clock_init_def)

text \<open>
  C20. The operations on the clock as a caller sees them: \<open>NowAsClockTimestamp\<close> returns a
  timestamp later than the clock's and not before the physical reading; \<open>Update\<close> brings the
  clock to at least the remote timestamp and never back; and both are executions of the atomic
  steps, so what is proved of all interleavings holds of them.
\<close>

theorem clock_operations:
  assumes "clock_reach s" and "\<not> crashed s" and "pcs s i = PIdle" and "in64 r" and "valid_ts rt"
    and "Logical (timestamp (clk s)) \<noteq> MaxInt32"
  shows "(\<forall>c t. NowAsClockTimestamp (clk s) r = Inr (c, t) \<longrightarrow>
       Timestamp_Less (timestamp (clk s)) t \<and> r \<le> WallTime t \<and> timestamp c = t \<and>
       clock_reach (s\<lparr>clk := c, trace := Issued t # trace s\<rparr>)) \<and>
    (\<forall>c. Clock_Update (clk s) rt = Inr c \<longrightarrow>
       Timestamp_LessEq (timestamp (clk s)) (timestamp c) \<and> Timestamp_LessEq rt (timestamp c) \<and>
       clock_reach (s\<lparr>clk := c, trace := Received rt # trace s\<rparr>))"
proof (intro conjI allI impI)
  have v: "valid_ts (timestamp (clk s))" using clock_reach_inv [OF assms(1)] by (simp add: clock_inv_def)
  fix c t assume n: "NowAsClockTimestamp (clk s) r = Inr (c, t)"
  then obtain c2 where c2: "checkPhysicalClock ((clk s)\<lparr>lastPhysicalTime := r\<rparr>) (lastPhysicalTime (clk s)) r = Inr c2"
    "now_locked c2 r = Inr (c, t)"
    by (auto simp: NowAsClockTimestamp_def getPhysicalClockAndCheck_def res_simps)
  have ts: "timestamp c2 = timestamp (clk s)" using checkPhysicalClock_frame [OF c2(1)] by simp
  show "Timestamp_Less (timestamp (clk s)) t" "r \<le> WallTime t" "timestamp c = t"
    using now_locked_advances [OF c2(2)] now_locked_valid [OF c2(2) _ assms(4)] v assms(6) unfolding ts by auto
  show "clock_reach (s\<lparr>clk := c, trace := Issued t # trace s\<rparr>)"
    using now_run [OF assms(1-4) n] assms(6) by (cases s) simp
next
  fix c assume u: "Clock_Update (clk s) rt = Inr c"
  show "clock_reach (s\<lparr>clk := c, trace := Received rt # trace s\<rparr>)"
    using update_run [OF assms(1-3,5) u] .
  show "Timestamp_LessEq (timestamp (clk s)) (timestamp c)" "Timestamp_LessEq rt (timestamp c)"
    using u update_locked_advances [of "clk s" rt c]
    by (auto simp: Clock_Update_def ts_order_defs split: if_splits)
qed

theorem clock_operations_witness:
  "NowAsClockTimestamp (clk witness_run) 20 = Inr ((clk witness_run)\<lparr>lastPhysicalTime := 20, timestamp := mkTs 20 0\<rparr>, mkTs 20 0)
   \<and> Timestamp_Less (mkTs 9 5) (mkTs 20 0)"
proof -
  have h: "\<not> crashed witness_run" "pcs witness_run 0 = PIdle" "in64 20" "valid_ts (mkTs 1 1)"
    "Logical (timestamp (clk witness_run)) \<noteq> MaxInt32"
    by (simp_all add: witness_run_def clock_init_def NewClock_def valid_ts_def in64_def in32_def go_limits)
  have "NowAsClockTimestamp (clk witness_run) 20 =
      Inr ((clk witness_run)\<lparr>lastPhysicalTime := 20, timestamp := mkTs 20 0\<rparr>, mkTs 20 0)"
    by (simp add: witness_run_def clock_init_def NewClock_def NowAsClockTimestamp_def getPhysicalClockAndCheck_def
        checkPhysicalClock_def now_locked_def enforceWallTimeWithinBoundLocked_def Let_def go_limits wrap64_def quot_def
        signed_take_bit_int_eq_self)
  moreover have "timestamp (clk witness_run) = mkTs 9 5" by (simp add: witness_run_def clock_init_def)
  ultimately show ?thesis using clock_operations [OF witness_run_reach h] by metis
qed

lemma update_ignores_bound:
  "Clock_Update ((NewClock 0 0)\<lparr>wallTimeUpperBound := 5, timestamp := mkTs 10 0\<rparr>) (mkTs 3 0) =
     Inr ((NewClock 0 0)\<lparr>wallTimeUpperBound := 5, timestamp := mkTs 10 0\<rparr>)"
  by (simp add: Clock_Update_def NewClock_def)

text \<open>
  C21. The persisted upper bound: \<open>RefreshHLCUpperBound\<close> persists a bound before it installs
  it, and leaves the installed bound alone when persisting fails or the delta is negative. With a
  bound installed, no \<open>NowAsClockTimestamp\<close> succeeds with a wall time above it; and an
  \<open>Update\<close> that succeeds leaves the clock within the bound, except when the remote wall time is
  behind the clock's, where it changes nothing and does not look at the bound: a clock within its
  bound stays within it, one that is already above it passes unnoticed
  (\<open>update_ignores_bound\<close>).
\<close>

theorem hlc_upper_bound:
  "(\<forall>c' e. RefreshHLCUpperBound persistFn c r d = Inr (c', e) \<longrightarrow>
      (e = None \<longrightarrow> persistFn (wallTimeUpperBound c') = None \<and> 0 \<le> d \<and>
         wallTimeUpperBound c' = wrap64 (WallTime (timestamp c') + d)) \<and>
      (e \<noteq> None \<longrightarrow> wallTimeUpperBound c' = wallTimeUpperBound c)) \<and>
    (\<forall>c' t. NowAsClockTimestamp c r = Inr (c', t) \<and> wallTimeUpperBound c \<noteq> 0 \<longrightarrow>
      WallTime t \<le> wallTimeUpperBound c \<and> wallTimeUpperBound c' = wallTimeUpperBound c) \<and>
    (\<forall>c'. Clock_Update c rt = Inr c' \<and> wallTimeUpperBound c \<noteq> 0 \<longrightarrow>
      (WallTime (timestamp c') \<le> wallTimeUpperBound c \<or> WallTime rt < WallTime (timestamp c) \<and> c' = c) \<and>
      wallTimeUpperBound c' = wallTimeUpperBound c)"
proof (intro conjI allI impI)
  fix c' e assume "RefreshHLCUpperBound persistFn c r d = Inr (c', e)"
  then consider "d < 0" "c' = c" "e \<noteq> None"
    | c1 t where "0 \<le> d" "NowAsClockTimestamp c r = Inr (c1, t)"
        "(c', e) = persistHLCUpperBound persistFn c1 (wrap64 (WallTime t + d))"
    by (auto simp: RefreshHLCUpperBound_def Clock_Now_def ClockTimestamp_ToTimestamp_def res_simps split: if_splits)
  note cases = this
  show "persistFn (wallTimeUpperBound c') = None" "0 \<le> d" "wallTimeUpperBound c' = wrap64 (WallTime (timestamp c') + d)"
    if "e = None"
    using cases that
    by (cases; auto simp: persistHLCUpperBound_def dest: NowAsClockTimestamp_frame split: option.splits)+
  show "wallTimeUpperBound c' = wallTimeUpperBound c" if "e \<noteq> None"
    using cases that
    by cases (auto simp: persistHLCUpperBound_def dest: NowAsClockTimestamp_frame split: option.splits)
qed (auto simp: Clock_Update_def update_locked_def dest: NowAsClockTimestamp_frame split: if_splits)

theorem hlc_upper_bound_witness:
  "RefreshHLCUpperBound (\<lambda>b. if b = 100 then Some (Err ''io'') else None) (NewClock 0 0) 7 93 =
     Inr ((NewClock 0 0)\<lparr>lastPhysicalTime := 7, timestamp := mkTs 7 0\<rparr>, Some (Err ''io'')) \<and>
   wallTimeUpperBound ((NewClock 0 0)\<lparr>lastPhysicalTime := 7, timestamp := mkTs 7 0\<rparr>) = wallTimeUpperBound (NewClock 0 0)"
proof -
  have "RefreshHLCUpperBound (\<lambda>b. if b = 100 then Some (Err ''io'') else None) (NewClock 0 0) 7 93 =
      Inr ((NewClock 0 0)\<lparr>lastPhysicalTime := 7, timestamp := mkTs 7 0\<rparr>, Some (Err ''io''))"
    by (simp add: RefreshHLCUpperBound_def Clock_Now_def ClockTimestamp_ToTimestamp_def persistHLCUpperBound_def
        NewClock_def NowAsClockTimestamp_def getPhysicalClockAndCheck_def checkPhysicalClock_def now_locked_def
        enforceWallTimeWithinBoundLocked_def Let_def in64_def go_limits)
  with hlc_upper_bound [of "\<lambda>b. if b = 100 then Some (Err ''io'') else None" "NewClock 0 0" 7 93]
  show ?thesis by blast
qed

text \<open>
  \<open>SleepUntil\<close> returns without an error only when the clock has reached the
  timestamp, and every time it sleeps it sleeps for the minimum of 25 microseconds, however far away
  the timestamp is: the difference it computes has the wrong sign.
\<close>

theorem SleepUntil_minimal:
  assumes "SleepUntil c t rounds [] = Inr (c', r, slept)" and "valid_ts (timestamp c)"
    and "valid_ts t" and "\<forall>rd\<in>set rounds. in64 (fst (snd rd))"
  shows "(r = Some None \<longrightarrow> Timestamp_LessEq t (timestamp c')) \<and> (\<forall>d\<in>set slept. d = minSleep)"
  using SleepUntil_loop [OF assms(1-3)] assms(4) by simp

theorem SleepUntil_minimal_witness:
  "SleepUntil (NewClock 0 0) (mkTs (10 ^ 18) 0) [(None, 5, None), (None, 10 ^ 18, None)] [] =
     Inr ((NewClock 0 0)\<lparr>lastPhysicalTime := 10 ^ 18, timestamp := mkTs (10 ^ 18) 0\<rparr>, Some None, [25000])
   \<and> 25000 = minSleep"
proof -
  have e: "SleepUntil (NewClock 0 0) (mkTs (10 ^ 18) 0) [(None, 5, None), (None, 10 ^ 18, None)] [] =
     Inr ((NewClock 0 0)\<lparr>lastPhysicalTime := 10 ^ 18, timestamp := mkTs (10 ^ 18) 0\<rparr>, Some None, [25000])"
    by (simp add: Clock_Now_def ClockTimestamp_ToTimestamp_def quot_def sgn_if
        NewClock_def NowAsClockTimestamp_def getPhysicalClockAndCheck_def checkPhysicalClock_def now_locked_def
        enforceWallTimeWithinBoundLocked_def Let_def in64_def go_limits ts_order_defs sleep_duration_def time_Sub_def
        Timestamp_GoTime_def timeutil_Unix_def minSleep_def maxSleep_def)
  show ?thesis
    using SleepUntil_minimal [OF e] e
    by (simp add: NewClock_def valid_ts_def in64_def in32_def go_limits)
qed

end
