(* ===== verification/Keys.thy ===== *)
theory Keys
  imports Hlc_Clock
begin

text \<open>
  Keys as byte strings: \<open>BytesNext\<close>, \<open>BytesPrevish\<close> and \<open>UndoPrefixEnd\<close> of
  \<open>pkg/util/encoding/encoding.go\<close>, \<open>PrefixEnd\<close> of \<open>pkg/keysbase/data.go\<close>, and
  the methods of \<open>Key\<close> and \<open>RKey\<close> in \<open>pkg/roachpb/data.go\<close>. The
  spare capacity of a Go slice, which \<open>BytesNext\<close> inspects, is an argument.
\<close>

section \<open>Operations\<close>

definition KeyMin :: bytes where "KeyMin = []"

definition KeyMax :: bytes where "KeyMax = [0xff, 0xff]"

definition LocalMax :: bytes where "LocalMax = [0x02]"

definition BytesNext :: "bytes \<Rightarrow> bytes \<Rightarrow> bytes" where
  "BytesNext b spare =
     (let bn = b @ [0] in
      if spare \<noteq> [] then
        (let bNext = b @ take 1 spare in if bNext ! (length bNext - 1) = 0 then bNext else bn)
      else bn)"

definition BytesPrevish :: "bytes \<Rightarrow> nat \<Rightarrow> bytes" where
  "BytesPrevish b len =
     (if b = [] then b
      else if last b = 0 then butlast b
      else butlast b @ [last b - 1] @ replicate (max len (length b) - length b) 0xff)"

fun PrefixEnd_loop :: "bytes \<Rightarrow> nat \<Rightarrow> bytes option" where
  "PrefixEnd_loop e 0 = None"
| "PrefixEnd_loop e (Suc i) =
     (let end' = e[i := e ! i + 1] in
      if end' ! i \<noteq> 0 then Some (take (i + 1) end') else PrefixEnd_loop end' i)"

definition PrefixEnd :: "bytes \<Rightarrow> bytes" where
  "PrefixEnd b =
     (if b = [] then KeyMax
      else case PrefixEnd_loop b (length b) of Some e \<Rightarrow> e | None \<Rightarrow> b)"

definition UndoPrefixEnd :: "bytes \<Rightarrow> bytes option" where
  "UndoPrefixEnd b = (if b = [] \<or> last b = 0 then None else Some (butlast b @ [last b - 1]))"

definition Key_Next :: "bytes \<Rightarrow> bytes" where
  "Key_Next k = BytesNext k []"

definition Key_IsPrev :: "bytes \<Rightarrow> bytes \<Rightarrow> bool" where
  "Key_IsPrev k m \<longleftrightarrow>
     (let l = int (length m) - 1 in l = int (length k) \<and> m ! nat l = 0 \<and> k = take (nat l) m)"

section \<open>Successor\<close>

lemma BytesNext_eq [simp]: "BytesNext b spare = b @ [0]"
  by (cases spare) (simp_all add: BytesNext_def Let_def)

lemma Key_Next_eq [simp]: "Key_Next k = k @ [0]"
  by (simp add: Key_Next_def)

lemma byte_ge_0 [simp]: "(0 :: byte) \<le> b" "\<not> b < (0 :: byte)"
  by (simp_all add: word_le_def word_less_def)

lemma less_append_zero: "k < b @ [0 :: byte] \<longleftrightarrow> k \<le> b"
proof (induction b arbitrary: k)
  case Nil
  then show ?case by (cases k) auto
next
  case (Cons a b)
  then show ?case by (cases k) auto
qed

lemma append_zero_le: "b @ [0 :: byte] \<le> k \<longleftrightarrow> b < k"
  using less_append_zero [of k b] by (simp add: not_less [symmetric])

section \<open>End of a prefix\<close>

definition maximal :: "bytes \<Rightarrow> bool" where
  "maximal b \<longleftrightarrow> (\<forall>x\<in>set b. x = 0xff)"

lemma byte_succ_zero: "(x :: byte) + 1 = 0 \<longleftrightarrow> x = 0xff"
proof
  assume "x + 1 = 0"
  then have "x = - 1" by (simp add: add_eq_0_iff2)
  then show "x = 0xff" by simp
qed simp

lemma byte_less_succ: "(x :: byte) \<noteq> 0xff \<Longrightarrow> y < x + 1 \<longleftrightarrow> y \<le> x"
proof -
  assume "x \<noteq> 0xff"
  moreover have "uint x < 256" using uint_bounded [of x] by simp
  moreover have "uint x \<noteq> 255" using \<open>x \<noteq> 0xff\<close> by (metis uint_1 uint_numeral word_eq_iff_unsigned word_of_int_uint word_of_int_numeral)
  ultimately have "uint (x + 1) = uint x + 1" by (simp add: uint_word_ariths)
  then show ?thesis by (simp add: word_less_def word_le_def)
qed

lemma byte_le_max [simp]: "(x :: byte) \<le> 0xff" "\<not> 0xff < (x :: byte)"
  using uint_bounded [of x] by (simp_all add: word_le_def word_less_def)

lemma non_maximal_split:
  assumes "\<not> maximal b"
  obtains p x n where "b = p @ [x] @ replicate n 0xff" "x \<noteq> 0xff"
proof -
  have "\<not> maximal b \<Longrightarrow> \<exists>p x n. b = p @ [x] @ replicate n 0xff \<and> x \<noteq> 0xff"
  proof (induction b rule: rev_induct)
    case (snoc a b)
    show ?case
    proof (cases "a = 0xff")
      case True
      then obtain p x n where "b = p @ [x] @ replicate n 0xff" "x \<noteq> 0xff"
        using snoc by (auto simp: maximal_def)
      then have "b @ [a] = p @ [x] @ replicate (Suc n) 0xff" using True by (simp add: replicate_append_same)
      then show ?thesis using \<open>x \<noteq> 0xff\<close> by blast
    next
      case False
      then have "b @ [a] = b @ [a] @ replicate 0 0xff" by simp
      then show ?thesis using False by blast
    qed
  qed (simp add: maximal_def)
  then show thesis using assms that by blast
qed

lemma replicate_Suc_snoc: "replicate (Suc n) x = replicate n x @ [x]"
  by (simp add: replicate_append_same)

lemma update_after: "(p @ x # z)[length p := y] = p @ y # z"
  by (simp add: list_update_append)

lemma PrefixEnd_loop_carry:
  "PrefixEnd_loop (p @ 0xff # z) (Suc (length p)) = PrefixEnd_loop (p @ 0 # z) (length p)"
proof -
  have "(0xff :: byte) + 1 = 0" by simp
  then show ?thesis by (simp only: PrefixEnd_loop.simps Let_def nth_append_length update_after simp_thms if_False)
qed

lemma PrefixEnd_loop_split:
  "x \<noteq> 0xff \<Longrightarrow> PrefixEnd_loop (p @ [x] @ replicate n 0xff @ z) (length p + 1 + n) = Some (p @ [x + 1])"
proof (induction n arbitrary: z)
  case 0
  then show ?case by (simp add: byte_succ_zero update_after)
next
  case (Suc n)
  then show ?case
    using PrefixEnd_loop_carry [of "p @ [x] @ replicate n 0xff" z]
    by (simp add: replicate_Suc_snoc del: replicate.simps PrefixEnd_loop.simps)
qed

lemma PrefixEnd_split: "x \<noteq> 0xff \<Longrightarrow> PrefixEnd (p @ [x] @ replicate n 0xff) = p @ [x + 1]"
  using PrefixEnd_loop_split [of x p n "[]"] by (simp add: PrefixEnd_def)

lemma PrefixEnd_loop_maximal: "PrefixEnd_loop (replicate n 0xff @ z) n = None"
proof (induction n arbitrary: z)
  case (Suc n)
  then show ?case
    using PrefixEnd_loop_carry [of "replicate n 0xff" z]
    by (simp add: replicate_Suc_snoc del: replicate.simps PrefixEnd_loop.simps)
qed simp

lemma PrefixEnd_maximal: "b \<noteq> [] \<Longrightarrow> maximal b \<Longrightarrow> PrefixEnd b = b"
  using PrefixEnd_loop_maximal [of "length b" "[]"]
  by (simp add: PrefixEnd_def maximal_def replicate_length_same)

lemma replicate_max_le: "replicate n (0xff :: byte) \<le> r \<longleftrightarrow> take n r = replicate n 0xff"
proof (induction n arbitrary: r)
  case (Suc n)
  then show ?case by (cases r) auto
qed simp

lemma append_le_append_iff: "p @ u \<le> p @ v \<longleftrightarrow> u \<le> (v :: bytes)"
  by (induction p) auto

lemma between_prefix: "p @ u \<le> k \<Longrightarrow> k < p @ v \<Longrightarrow> \<exists>r. k = p @ (r :: bytes)"
proof (induction p arbitrary: k)
  case (Cons a p)
  then show ?case by (cases k) auto
qed simp

lemma PrefixEnd_range:
  assumes "\<not> maximal b"
  shows "b \<le> k \<and> k < PrefixEnd b \<longleftrightarrow> (\<exists>r. k = b @ r)"
proof -
  obtain p x n where b: "b = p @ [x] @ replicate n 0xff" "x \<noteq> 0xff" using assms by (rule non_maximal_split)
  have "b \<le> k \<and> k < p @ [x + 1] \<longleftrightarrow> (\<exists>r. k = b @ r)"
  proof
    assume k: "b \<le> k \<and> k < p @ [x + 1]"
    then obtain q where q: "k = p @ q" using between_prefix [of p "[x] @ replicate n 0xff" k "[x + 1]"] by (auto simp: b)
    then have "x # replicate n 0xff \<le> q" "q < [x + 1]" using k by (simp_all add: b append_le_append_iff)
    then obtain r where "q = x # r" "replicate n 0xff \<le> r"
      using b(2) by (cases q) (auto simp: byte_less_succ)
    then have "r = replicate n 0xff @ drop n r"
      using append_take_drop_id [of n r] by (simp add: replicate_max_le)
    then show "\<exists>r. k = b @ r" using q \<open>q = x # r\<close> by (auto simp: b)
  next
    assume "\<exists>r. k = b @ r"
    then obtain r where k: "k = b @ r" by blast
    have "x < x + 1" using byte_less_succ [OF b(2), of x] by simp
    then have "k < p @ [x + 1]" by (simp add: k b)
    moreover have "b \<le> k" using prefix_less_append [of r b] by (cases "r = []") (auto simp: k)
    ultimately show "b \<le> k \<and> k < p @ [x + 1]" by simp
  qed
  then show ?thesis using PrefixEnd_split [OF b(2)] by (simp add: b(1))
qed

section \<open>Properties\<close>

text \<open>
  \<open>Next\<close> is the immediate successor of a key in the order of keys, whatever the
  spare capacity of the slice holds; \<open>IsPrev\<close> recognises it; and \<open>Prevish\<close> is
  strictly before its argument.
\<close>

theorem key_successor:
  "b < BytesNext b spare \<and> (b < k \<longleftrightarrow> BytesNext b spare \<le> k) \<and>
   (Key_IsPrev b k \<longleftrightarrow> k = Key_Next b) \<and>
   (b \<noteq> [] \<longrightarrow> BytesPrevish b n < b)"
proof (intro conjI impI)
  show "b < BytesNext b spare" by (simp add: less_append_zero)
  show "b < k \<longleftrightarrow> BytesNext b spare \<le> k" by (simp add: append_zero_le)
  show "Key_IsPrev b k \<longleftrightarrow> k = Key_Next b"
    by (cases k rule: rev_cases) (auto simp: Key_IsPrev_def Let_def nat_eq_iff)
  assume "b \<noteq> []"
  then obtain p x where b: "b = p @ [x]" by (cases b rule: rev_cases) auto
  show "BytesPrevish b n < b"
  proof (cases "x = 0")
    case True
    then show ?thesis by (simp add: b BytesPrevish_def prefix_less_append)
  next
    case False
    then have "x - 1 < x" by (simp add: word_less_nat_alt unat_minus_one unat_gt_0)
    then show ?thesis using False by (simp add: b BytesPrevish_def)
  qed
qed

theorem key_successor_witness: "BytesPrevish [7] 3 = [6, 0xff, 0xff] \<and> BytesPrevish [7] 3 < [7]"
proof -
  have "[7] \<noteq> ([] :: bytes)" by simp
  moreover have "BytesPrevish [7] 3 = [6, 0xff, 0xff]" by (simp add: BytesPrevish_def numeral_eq_Suc [of num.One])
      (simp add: eval_nat_numeral)
  ultimately show ?thesis using key_successor [of "[7]" "[]" "[]" 3] by simp
qed

text \<open>
  \<open>PrefixEnd\<close> ends a prefix exactly: the keys from a non-empty prefix that is not all
  \<open>0xff\<close> up to its \<open>PrefixEnd\<close> are exactly the keys that start with it. An all-\<open>0xff\<close>
  prefix is its own end.
\<close>

theorem PrefixEnd_exact:
  assumes "b \<noteq> []"
  shows "if maximal b then PrefixEnd b = b
    else (b \<le> k \<and> k < PrefixEnd b \<longleftrightarrow> (\<exists>r. k = b @ r))"
  using assms by (simp add: PrefixEnd_maximal PrefixEnd_range)

theorem PrefixEnd_exact_witness: "[1, 0xff] \<le> [1, 0xff, 3] \<and> [1, 0xff, 3] < PrefixEnd [1, 0xff :: byte]"
proof -
  have "[1, 0xff :: byte] \<noteq> []" by simp
  from PrefixEnd_exact [OF this, of "[1, 0xff, 3]"] show ?thesis by (simp add: maximal_def)
qed

text \<open>
  \<open>UndoPrefixEnd\<close> inverts \<open>PrefixEnd\<close> exactly on the keys whose last byte is not
  \<open>0xff\<close>: on a key that ends in \<open>0xff\<close> but is not maximal the result is a
  strictly shorter key, not the key itself.
\<close>

theorem UndoPrefixEnd_PrefixEnd:
  assumes "b \<noteq> []" and "\<not> maximal b"
  shows "UndoPrefixEnd (PrefixEnd b) = Some b \<longleftrightarrow> last b \<noteq> 0xff"
proof -
  obtain p x n where b: "b = p @ [x] @ replicate n 0xff" "x \<noteq> 0xff" using assms(2) by (rule non_maximal_split)
  have "UndoPrefixEnd (PrefixEnd b) = Some (p @ [x])"
    using PrefixEnd_split [OF b(2)] b by (simp add: UndoPrefixEnd_def byte_succ_zero)
  moreover have "last b \<noteq> 0xff \<longleftrightarrow> n = 0" using b by (cases n) (simp_all add: replicate_Suc_snoc del: replicate.simps)
  ultimately show ?thesis by (simp add: b(1))
qed

theorem UndoPrefixEnd_PrefixEnd_witness: "UndoPrefixEnd (PrefixEnd [1, 0xff]) \<noteq> Some [1, 0xff]"
proof -
  have "[1, 0xff :: byte] \<noteq> []" "\<not> maximal [1, 0xff]" by (simp_all add: maximal_def)
  from UndoPrefixEnd_PrefixEnd [OF this] show ?thesis by simp
qed

end
