(* ===== verification/Mvcc_Key.thy ===== *)
theory Mvcc_Key
  imports Keys
begin

text \<open>
  Versioned keys: \<open>pkg/storage/mvcc_key.go\<close> (\<open>MVCCKey\<close> and its encoding),
  \<open>pkg/storage/enginepb/decode.go\<close> (its decoding) and the comparator of the storage
  engine, \<open>EngineKeyCompare\<close> and \<open>EngineKeyEqual\<close> of
  \<open>pkg/storage/pebble.go\<close>. The encoder writes into a buffer whose old contents are an
  argument, so that reuse of a buffer is covered.
\<close>

section \<open>Versioned keys\<close>

record MVCCKey =
  mk_Key :: bytes
  mk_Timestamp :: Timestamp

abbreviation noTs :: Timestamp where
  "noTs \<equiv> mkTs 0 0"

definition MakeMVCCMetadataKey :: "bytes \<Rightarrow> MVCCKey" where
  "MakeMVCCMetadataKey key = \<lparr>mk_Key = key, mk_Timestamp = noTs\<rparr>"

definition MVCCKey_IsValue :: "MVCCKey \<Rightarrow> bool" where
  "MVCCKey_IsValue k \<longleftrightarrow> \<not> Timestamp_IsEmpty (mk_Timestamp k)"

definition MVCCKey_Next :: "MVCCKey \<Rightarrow> MVCCKey res" where
  "MVCCKey_Next k =
     res_bind (Timestamp_Prev (mk_Timestamp k)) (\<lambda>ts.
       if Timestamp_IsEmpty ts then Inr \<lparr>mk_Key = Key_Next (mk_Key k), mk_Timestamp = noTs\<rparr>
       else Inr \<lparr>mk_Key = mk_Key k, mk_Timestamp = ts\<rparr>)"

definition MVCCKey_Compare :: "MVCCKey \<Rightarrow> MVCCKey \<Rightarrow> int" where
  "MVCCKey_Compare k l =
     (let c = bytes_Compare (mk_Key k) (mk_Key l) in
      if c \<noteq> 0 then c
      else if Timestamp_IsEmpty (mk_Timestamp k) \<and> \<not> Timestamp_IsEmpty (mk_Timestamp l) then -1
      else if \<not> Timestamp_IsEmpty (mk_Timestamp k) \<and> Timestamp_IsEmpty (mk_Timestamp l) then 1
      else - Timestamp_Compare (mk_Timestamp k) (mk_Timestamp l))"

definition MVCCKey_Less :: "MVCCKey \<Rightarrow> MVCCKey \<Rightarrow> bool" where
  "MVCCKey_Less k l \<longleftrightarrow>
     (let c = bytes_Compare (mk_Key k) (mk_Key l) in
      if c \<noteq> 0 then c < 0
      else if \<not> MVCCKey_IsValue k then MVCCKey_IsValue l
      else if \<not> MVCCKey_IsValue l then False
      else Timestamp_Less (mk_Timestamp l) (mk_Timestamp k))"

definition MVCCKey_Equal :: "MVCCKey \<Rightarrow> MVCCKey \<Rightarrow> bool" where
  "MVCCKey_Equal k l \<longleftrightarrow>
     bytes_Compare (mk_Key k) (mk_Key l) = 0 \<and> Timestamp_EqOrdering (mk_Timestamp k) (mk_Timestamp l)"

definition MVCCVersionTimestampSize :: nat where "MVCCVersionTimestampSize = 12"

definition MVCCKey_EncodedSize :: "MVCCKey \<Rightarrow> nat" where
  "MVCCKey_EncodedSize k = length (mk_Key k) + 1 + (if MVCCKey_IsValue k then MVCCVersionTimestampSize else 0)"

section \<open>Encoding\<close>

definition mvccEncodedTimeSentinelLen :: nat where "mvccEncodedTimeSentinelLen = 1"
definition mvccEncodedTimeWallLen :: nat where "mvccEncodedTimeWallLen = 8"
definition mvccEncodedTimeLogicalLen :: nat where "mvccEncodedTimeLogicalLen = 4"
definition mvccEncodedTimeSyntheticLen :: nat where "mvccEncodedTimeSyntheticLen = 1"
definition mvccEncodedTimeLengthLen :: nat where "mvccEncodedTimeLengthLen = 1"

lemmas mvcc_lens = mvccEncodedTimeSentinelLen_def mvccEncodedTimeWallLen_def mvccEncodedTimeLogicalLen_def
  mvccEncodedTimeSyntheticLen_def mvccEncodedTimeLengthLen_def

text \<open>Writing bytes into a buffer at a position.\<close>

definition put_at :: "nat \<Rightarrow> bytes \<Rightarrow> bytes \<Rightarrow> bytes" where
  "put_at pos bs buf = take pos buf @ bs @ drop (pos + length bs) buf"

definition encodedMVCCKeyLength :: "MVCCKey \<Rightarrow> nat" where
  "encodedMVCCKeyLength key =
     (let ts = mk_Timestamp key in
      length (mk_Key key) + mvccEncodedTimeSentinelLen +
      (if \<not> Timestamp_IsEmpty ts then
         mvccEncodedTimeWallLen + mvccEncodedTimeLengthLen +
         (if Logical ts \<noteq> 0 \<or> Synthetic ts then
            mvccEncodedTimeLogicalLen + (if Synthetic ts then mvccEncodedTimeSyntheticLen else 0)
          else 0)
       else 0))"

definition MVCCKey_Len :: "MVCCKey \<Rightarrow> nat" where
  "MVCCKey_Len k = encodedMVCCKeyLength k"

definition EncodedMVCCKeyPrefixLength :: "bytes \<Rightarrow> nat" where
  "EncodedMVCCKeyPrefixLength key = length key + mvccEncodedTimeSentinelLen"

definition encodedMVCCTimestampLength :: "Timestamp \<Rightarrow> nat" where
  "encodedMVCCTimestampLength ts =
     (let tsLen = encodedMVCCKeyLength \<lparr>mk_Key = [], mk_Timestamp = ts\<rparr> - mvccEncodedTimeSentinelLen
      in if tsLen > 0 then tsLen - mvccEncodedTimeLengthLen else tsLen)"

definition EncodedMVCCTimestampSuffixLength :: "Timestamp \<Rightarrow> nat" where
  "EncodedMVCCTimestampSuffixLength ts =
     encodedMVCCKeyLength \<lparr>mk_Key = [], mk_Timestamp = ts\<rparr> - mvccEncodedTimeSentinelLen"

definition encodeMVCCTimestampToBuf :: "bytes \<Rightarrow> Timestamp \<Rightarrow> bytes" where
  "encodeMVCCTimestampToBuf buf ts =
     (let buf = put_at 0 (be_bytes 8 (WallTime ts)) buf in
      if Logical ts \<noteq> 0 \<or> Synthetic ts then
        (let buf = put_at mvccEncodedTimeWallLen (be_bytes 4 (Logical ts)) buf in
         if Synthetic ts then put_at (mvccEncodedTimeWallLen + mvccEncodedTimeLogicalLen) [1] buf else buf)
      else buf)"

definition encodeMVCCKeyToBuf :: "bytes \<Rightarrow> MVCCKey \<Rightarrow> nat \<Rightarrow> bytes" where
  "encodeMVCCKeyToBuf buf key keyLen =
     (let buf = put_at 0 (mk_Key key) buf;
          pos = length (mk_Key key);
          buf = put_at pos [0] buf;
          pos = pos + mvccEncodedTimeSentinelLen;
          tsLen = int keyLen - int pos - int mvccEncodedTimeLengthLen
      in if tsLen > 0 then
           (let buf = take pos buf @ encodeMVCCTimestampToBuf (drop pos buf) (mk_Timestamp key);
                pos = pos + nat tsLen
            in put_at pos [word_of_int (tsLen + int mvccEncodedTimeLengthLen)] buf)
         else buf)"

text \<open>A new buffer is zeroed; a reused one has the given contents, of at least the needed capacity.\<close>

definition EncodeMVCCKey :: "MVCCKey \<Rightarrow> bytes" where
  "EncodeMVCCKey key =
     (let keyLen = encodedMVCCKeyLength key in encodeMVCCKeyToBuf (replicate keyLen 0) key keyLen)"

definition EncodeMVCCKeyToBuf :: "bytes \<Rightarrow> MVCCKey \<Rightarrow> bytes" where
  "EncodeMVCCKeyToBuf buf key =
     (let keyLen = encodedMVCCKeyLength key;
          buf = (if length buf < keyLen then replicate keyLen 0 else take keyLen buf)
      in encodeMVCCKeyToBuf buf key keyLen)"

definition EncodeMVCCKeyPrefix :: "bytes \<Rightarrow> bytes" where
  "EncodeMVCCKeyPrefix key = EncodeMVCCKey \<lparr>mk_Key = key, mk_Timestamp = noTs\<rparr>"

definition encodeMVCCTimestamp :: "Timestamp \<Rightarrow> bytes" where
  "encodeMVCCTimestamp ts =
     (let tsLen = encodedMVCCTimestampLength ts in
      if tsLen = 0 then [] else encodeMVCCTimestampToBuf (replicate tsLen 0) ts)"

definition encodeMVCCTimestampSuffixToBuf :: "bytes \<Rightarrow> Timestamp \<Rightarrow> bytes" where
  "encodeMVCCTimestampSuffixToBuf buf ts =
     (let tsLen = encodedMVCCTimestampLength ts in
      if tsLen = 0 then []
      else
        (let suffixLen = tsLen + mvccEncodedTimeLengthLen;
             buf = (if length buf < suffixLen then replicate suffixLen 0 else take suffixLen buf)
         in put_at tsLen [word_of_nat suffixLen] (encodeMVCCTimestampToBuf buf ts)))"

definition EncodeMVCCTimestampToBuf :: "bytes \<Rightarrow> Timestamp \<Rightarrow> bytes" where
  "EncodeMVCCTimestampToBuf buf ts =
     (let tsLen = encodedMVCCTimestampLength ts in
      if tsLen = 0 then []
      else encodeMVCCTimestampToBuf (if length buf < tsLen then replicate tsLen 0 else take tsLen buf) ts)"

definition EncodeMVCCTimestampSuffix :: "Timestamp \<Rightarrow> bytes" where
  "EncodeMVCCTimestampSuffix ts = encodeMVCCTimestampSuffixToBuf [] ts"

section \<open>Decoding\<close>

definition decodeMVCCTimestamp :: "bytes \<Rightarrow> Timestamp res" where
  "decodeMVCCTimestamp encodedTS =
     (if length encodedTS = 0 then Inr noTs
      else if length encodedTS = 8 then Inr (mkTs (wrap64 (be_value (take 8 encodedTS))) 0)
      else if length encodedTS = 12 then
        Inr (mkTs (wrap64 (be_value (take 8 encodedTS))) (wrap32 (be_value (take 4 (drop 8 encodedTS)))))
      else if length encodedTS = 13 then
        Inr \<lparr>WallTime = wrap64 (be_value (take 8 encodedTS)),
             Logical = wrap32 (be_value (take 4 (drop 8 encodedTS))), Synthetic = (encodedTS ! 12 \<noteq> 0)\<rparr>
      else Inl (Err ''bad timestamp''))"

definition DecodeMVCCTimestampSuffix :: "bytes \<Rightarrow> Timestamp res" where
  "DecodeMVCCTimestampSuffix encodedTS =
     (if encodedTS = [] then Inr noTs
      else if uint (last encodedTS) \<noteq> int (length encodedTS) then Inl (Err ''bad timestamp: found length suffix'')
      else decodeMVCCTimestamp (butlast encodedTS))"

definition SplitMVCCKey :: "bytes \<Rightarrow> (bytes \<times> bytes) option" where
  "SplitMVCCKey mvccKey =
     (if mvccKey = [] then None
      else
        (let tsLen = uint (last mvccKey); keyPartEnd = int (length mvccKey) - 1 - tsLen in
         if keyPartEnd < 0 then None
         else Some (take (nat keyPartEnd) mvccKey,
                    if tsLen > 0 then drop (nat keyPartEnd + 1) (butlast mvccKey) else [])))"

text \<open>\<open>DecodeKey\<close> repeats the cases of \<open>decodeMVCCTimestamp\<close> instead of calling it.\<close>

definition DecodeKey :: "bytes \<Rightarrow> (bytes \<times> Timestamp) res" where
  "DecodeKey encodedKey =
     (case SplitMVCCKey encodedKey of
        None \<Rightarrow> Inl (Err ''invalid encoded mvcc key'')
      | Some (key, encodedTS) \<Rightarrow>
          if length encodedTS = 0 then Inr (key, noTs)
          else if length encodedTS = 8 then Inr (key, mkTs (wrap64 (be_value (take 8 encodedTS))) 0)
          else if length encodedTS = 12 then
            Inr (key, mkTs (wrap64 (be_value (take 8 encodedTS))) (wrap32 (be_value (take 4 (drop 8 encodedTS)))))
          else if length encodedTS = 13 then
            Inr (key, \<lparr>WallTime = wrap64 (be_value (take 8 encodedTS)),
                 Logical = wrap32 (be_value (take 4 (drop 8 encodedTS))), Synthetic = (encodedTS ! 12 \<noteq> 0)\<rparr>)
          else Inl (Err ''invalid encoded mvcc key: bad timestamp''))"

definition DecodeMVCCKey :: "bytes \<Rightarrow> MVCCKey res" where
  "DecodeMVCCKey encodedKey =
     res_bind (DecodeKey encodedKey) (\<lambda>(k, ts). Inr \<lparr>mk_Key = k, mk_Timestamp = ts\<rparr>)"

section \<open>The comparator of the storage engine\<close>

definition engineKeyVersionLockTableLen :: nat where "engineKeyVersionLockTableLen = 17"

definition zeroLogical :: bytes where "zeroLogical = replicate mvccEncodedTimeLogicalLen 0"

definition normalizeEngineKeyVersionForCompare :: "bytes \<Rightarrow> bytes" where
  "normalizeEngineKeyVersionForCompare a =
     (let withWall = mvccEncodedTimeSentinelLen + mvccEncodedTimeWallLen;
          withLogical = withWall + mvccEncodedTimeLogicalLen;
          withSynthetic = withLogical + mvccEncodedTimeSyntheticLen;
          a = (if length a = withSynthetic then take withLogical a else a)
      in if length a = withLogical \<and> drop withWall a = zeroLogical then take withWall a else a)"

definition EngineKeyCompare :: "bytes \<Rightarrow> bytes \<Rightarrow> int" where
  "EngineKeyCompare a b =
     (let aEnd = int (length a) - 1; bEnd = int (length b) - 1 in
      if aEnd < 0 \<or> bEnd < 0 then bytes_Compare a b
      else
        (let aSep = aEnd - uint (a ! nat aEnd); bSep = bEnd - uint (b ! nat bEnd);
             (aSep, bSep) = (if aSep = -1 \<and> bSep = -1 then (0, 0) else (aSep, bSep))
         in if aSep < 0 \<or> bSep < 0 then bytes_Compare a b
            else
              (let c = bytes_Compare (take (nat aSep) a) (take (nat bSep) b) in
               if c \<noteq> 0 then c
               else
                 (let aVer = drop (nat aSep) (take (nat aEnd) a);
                      bVer = drop (nat bSep) (take (nat bEnd) b)
                  in if aVer = [] then if bVer = [] then 0 else -1
                     else if bVer = [] then 1
                     else bytes_Compare (normalizeEngineKeyVersionForCompare bVer)
                            (normalizeEngineKeyVersionForCompare aVer)))))"

definition EngineKeyEqual :: "bytes \<Rightarrow> bytes \<Rightarrow> bool" where
  "EngineKeyEqual a b \<longleftrightarrow>
     (let aEnd = int (length a) - 1; bEnd = int (length b) - 1 in
      if aEnd < 0 \<or> bEnd < 0 then a = b
      else
        (let aVerLen = uint (a ! nat aEnd); bVerLen = uint (b ! nat bEnd);
             withWall = int (mvccEncodedTimeSentinelLen + mvccEncodedTimeWallLen);
             withLockTableLen = int (mvccEncodedTimeSentinelLen + engineKeyVersionLockTableLen)
         in if aVerLen \<le> withWall \<and> bVerLen \<le> withWall \<or>
               aVerLen = withLockTableLen \<and> bVerLen = withLockTableLen then a = b
            else
              (let aSep = aEnd - aVerLen; bSep = bEnd - bVerLen;
                   (aSep, bSep) = (if aSep = -1 \<and> bSep = -1 then (0, 0) else (aSep, bSep))
               in if aSep < 0 \<or> bSep < 0 then a = b
                  else if take (nat aSep) a \<noteq> take (nat bSep) b then False
                  else normalizeEngineKeyVersionForCompare (drop (nat aSep) (take (nat aEnd) a)) =
                       normalizeEngineKeyVersionForCompare (drop (nat bSep) (take (nat bEnd) b)))))"

section \<open>Shape of encoded keys\<close>

definition ts_bytes :: "Timestamp \<Rightarrow> bytes" where
  "ts_bytes ts =
     be_bytes 8 (WallTime ts) @
     (if Logical ts \<noteq> 0 \<or> Synthetic ts then be_bytes 4 (Logical ts) @ (if Synthetic ts then [1] else []) else [])"

definition suffix_bytes :: "Timestamp \<Rightarrow> bytes" where
  "suffix_bytes ts = (if Timestamp_IsEmpty ts then [] else ts_bytes ts @ [word_of_nat (length (ts_bytes ts) + 1)])"

lemma be_bytes_Nil_iff [simp]: "be_bytes n k = [] \<longleftrightarrow> n = 0"
  by (cases n) auto

lemma suffix_bytes_Nil [simp]: "suffix_bytes ts = [] \<longleftrightarrow> Timestamp_IsEmpty ts"
  by (simp add: suffix_bytes_def)

lemma length_ts_bytes: "length (ts_bytes ts) = 8 + (if Logical ts \<noteq> 0 \<or> Synthetic ts then 4 + (if Synthetic ts then 1 else 0) else 0)"
  by (simp add: ts_bytes_def)

lemma encodedMVCCKeyLength_eq:
  "encodedMVCCKeyLength k = length (mk_Key k) + 1 + length (suffix_bytes (mk_Timestamp k))"
  by (simp add: encodedMVCCKeyLength_def mvcc_lens suffix_bytes_def length_ts_bytes)

lemma encodedMVCCTimestampLength_eq:
  "encodedMVCCTimestampLength ts = (if Timestamp_IsEmpty ts then 0 else length (ts_bytes ts))"
  by (simp add: encodedMVCCTimestampLength_def encodedMVCCKeyLength_eq mvcc_lens suffix_bytes_def)

lemma put_at_append: "length old = length bs \<Longrightarrow> put_at (length p) bs (p @ old @ z) = p @ bs @ z"
  by (simp add: put_at_def)

lemma put_at_0: "length bs \<le> length buf \<Longrightarrow> put_at 0 bs buf = bs @ drop (length bs) buf"
  by (simp add: put_at_def)

lemma put_at_next:
  "n = length p \<Longrightarrow> put_at n bs (p @ z) = p @ bs @ drop (length bs) z"
  by (simp add: put_at_def)

lemma encodeMVCCTimestampToBuf_eq:
  "length (ts_bytes ts) \<le> length buf \<Longrightarrow>
   encodeMVCCTimestampToBuf buf ts = ts_bytes ts @ drop (length (ts_bytes ts)) buf"
proof -
  assume "length (ts_bytes ts) \<le> length buf"
  have 1: "put_at 0 (be_bytes 8 (WallTime ts)) buf = be_bytes 8 (WallTime ts) @ drop 8 buf"
    by (simp add: put_at_def)
  have 2: "put_at 8 (be_bytes 4 (Logical ts)) (be_bytes 8 (WallTime ts) @ z) =
      be_bytes 8 (WallTime ts) @ be_bytes 4 (Logical ts) @ drop 4 z" for z
    by (simp add: put_at_next)
  have 3: "put_at 12 [1] (be_bytes 8 (WallTime ts) @ be_bytes 4 (Logical ts) @ z) =
      be_bytes 8 (WallTime ts) @ be_bytes 4 (Logical ts) @ 1 # drop 1 z" for z
    using put_at_next [of 12 "be_bytes 8 (WallTime ts) @ be_bytes 4 (Logical ts)" "[1]" z] by simp
  show ?thesis
    by (simp add: encodeMVCCTimestampToBuf_def Let_def mvcc_lens 1 2 3 ts_bytes_def)
qed

lemma encodeMVCCKeyToBuf_eq:
  assumes "length buf = encodedMVCCKeyLength k"
  shows "encodeMVCCKeyToBuf buf k (encodedMVCCKeyLength k) = mk_Key k @ 0 # suffix_bytes (mk_Timestamp k)"
proof -
  let ?K = "mk_Key k" and ?t = "mk_Timestamp k"
  let ?S = "length (suffix_bytes ?t)"
  obtain z where z: "put_at (length ?K) [0] (put_at 0 ?K buf) = ?K @ 0 # z" "length z = ?S"
    using assms by (simp add: encodedMVCCKeyLength_eq put_at_def)
  have pos: "take (length ?K + 1) (?K @ 0 # z) = ?K @ [0]" "drop (length ?K + 1) (?K @ 0 # z) = z" by simp_all
  show ?thesis
  proof (cases "Timestamp_IsEmpty ?t")
    case True
    then have "?S = 0" by (simp add: suffix_bytes_def)
    then show ?thesis
      using z True by (simp add: encodeMVCCKeyToBuf_def Let_def mvcc_lens encodedMVCCKeyLength_eq suffix_bytes_def)
  next
    case False
    then have S: "?S = length (ts_bytes ?t) + 1" "0 < length (ts_bytes ?t)" by (simp_all add: suffix_bytes_def length_ts_bytes)
    have e: "encodeMVCCTimestampToBuf z ?t = ts_bytes ?t @ drop (length (ts_bytes ?t)) z"
      using z(2) S by (intro encodeMVCCTimestampToBuf_eq) simp
    have d: "length (drop (length (ts_bytes ?t)) z) = 1" using z(2) S by simp
    have p: "put_at (length ?K + 1 + length (ts_bytes ?t)) [b] ((?K @ [0]) @ ts_bytes ?t @ drop (length (ts_bytes ?t)) z) =
        ?K @ 0 # ts_bytes ?t @ [b]" for b
      using put_at_next [of "length ?K + 1 + length (ts_bytes ?t)" "?K @ 0 # ts_bytes ?t" "[b]" "drop (length (ts_bytes ?t)) z"] d
      by simp
    have tl: "int (length ?K + 1 + ?S) - int (length ?K + 1) - 1 = int (length (ts_bytes ?t))" using S by simp
    show ?thesis
      unfolding encodeMVCCKeyToBuf_def Let_def encodedMVCCKeyLength_eq mvcc_lens z(1) pos e
      using S p False by (simp add: suffix_bytes_def)
  qed
qed

lemma EncodeMVCCKey_eq: "EncodeMVCCKey k = mk_Key k @ 0 # suffix_bytes (mk_Timestamp k)"
  by (simp add: EncodeMVCCKey_def Let_def encodeMVCCKeyToBuf_eq)

lemma EncodeMVCCKeyToBuf_eq: "EncodeMVCCKeyToBuf buf k = EncodeMVCCKey k"
  by (simp add: EncodeMVCCKeyToBuf_def Let_def encodeMVCCKeyToBuf_eq EncodeMVCCKey_eq)

section \<open>Round trip\<close>

lemma suffix_len_byte: "uint (word_of_nat (length (ts_bytes ts) + 1) :: byte) = int (length (ts_bytes ts)) + 1"
  by (simp add: length_ts_bytes)

lemma SplitMVCCKey_encoded:
  "SplitMVCCKey (K @ 0 # suffix_bytes ts) = Some (K, if Timestamp_IsEmpty ts then [] else ts_bytes ts)"
proof (cases "Timestamp_IsEmpty ts")
  case False
  let ?e = "K @ 0 # ts_bytes ts @ [word_of_nat (length (ts_bytes ts) + 1)]"
  have l: "uint (last ?e) = int (length (ts_bytes ts)) + 1" using suffix_len_byte by simp
  have k: "int (length ?e) - 1 - (int (length (ts_bytes ts)) + 1) = int (length K)" by simp
  have b: "butlast ?e = K @ 0 # ts_bytes ts" by (simp add: butlast_append)
  show ?thesis
    using False unfolding SplitMVCCKey_def suffix_bytes_def
    by (simp only: if_False l k b Let_def) simp
qed (simp add: SplitMVCCKey_def suffix_bytes_def)

lemma wrap64_take_bit: "wrap64 (take_bit 64 k) = wrap64 k"
  by (simp add: wrap64_def signed_take_bit_take_bit)

lemma wrap32_take_bit: "wrap32 (take_bit 32 k) = wrap32 k"
  by (simp add: wrap32_def signed_take_bit_take_bit)

lemma DecodeKey_agrees:
  "DecodeKey e = (case SplitMVCCKey e of None \<Rightarrow> Inl (Err ''invalid encoded mvcc key'')
     | Some (key, t) \<Rightarrow> (case decodeMVCCTimestamp t of Inr ts \<Rightarrow> Inr (key, ts)
         | Inl _ \<Rightarrow> Inl (Err ''invalid encoded mvcc key: bad timestamp'')))"
  by (simp add: DecodeKey_def decodeMVCCTimestamp_def split: option.splits)

lemma decodeMVCCTimestamp_bytes:
  assumes "valid_ts ts"
  shows "decodeMVCCTimestamp (if Timestamp_IsEmpty ts then [] else ts_bytes ts) = Inr ts"
proof -
  have w: "wrap64 (be_value (be_bytes 8 (WallTime ts))) = WallTime ts" "wrap32 (be_value (be_bytes 4 (Logical ts))) = Logical ts"
    using assms by (simp_all add: be_value_be_bytes wrap64_take_bit wrap32_take_bit valid_ts_def)
  have n: "(be_bytes 8 (WallTime ts) @ be_bytes 4 (Logical ts) @ [1]) ! 12 = 1" by (simp add: nth_append)
  show ?thesis
    using w n by (cases ts) (auto simp: decodeMVCCTimestamp_def ts_bytes_def Timestamp_IsEmpty_def)
qed

lemma DecodeKey_EncodeMVCCKey: "valid_ts (mk_Timestamp k) \<Longrightarrow> DecodeKey (EncodeMVCCKey k) = Inr (mk_Key k, mk_Timestamp k)"
  by (simp add: DecodeKey_agrees EncodeMVCCKey_eq SplitMVCCKey_encoded decodeMVCCTimestamp_bytes)

section \<open>Order of encoded keys\<close>

definition norm_version :: "Timestamp \<Rightarrow> bytes" where
  "norm_version ts = 0 # be_bytes 8 (WallTime ts) @ (if Logical ts = 0 then [] else be_bytes 4 (Logical ts))"

lemma be4_zero: "in32 l \<Longrightarrow> be_bytes 4 l = replicate 4 0 \<longleftrightarrow> l = 0"
proof
  assume "in32 l" "be_bytes 4 l = replicate 4 0"
  then have "be_value (be_bytes 4 l) = be_value (replicate 4 0)" by simp
  also have "be_value (replicate 4 0) = 0" by (simp add: be_value_def eval_nat_numeral)
  finally have "wrap32 (take_bit 32 l) = 0" by (simp add: be_value_be_bytes wrap32_def)
  then show "l = 0" using \<open>in32 l\<close> by (simp add: wrap32_take_bit)
qed (simp add: eval_nat_numeral)

lemma normalize_logical:
  "length w = 8 \<Longrightarrow> length l = 4 \<Longrightarrow>
   normalizeEngineKeyVersionForCompare (0 # w @ l) = (if l = replicate 4 0 then 0 # w else 0 # w @ l)"
  by (simp add: normalizeEngineKeyVersionForCompare_def Let_def mvcc_lens zeroLogical_def)

lemma normalize_synthetic:
  "length w = 8 \<Longrightarrow> length l = 4 \<Longrightarrow>
   normalizeEngineKeyVersionForCompare (0 # w @ l @ [x]) = normalizeEngineKeyVersionForCompare (0 # w @ l)"
  by (simp add: normalizeEngineKeyVersionForCompare_def Let_def mvcc_lens)

lemma normalize_wall: "length w = 8 \<Longrightarrow> normalizeEngineKeyVersionForCompare (0 # w) = 0 # w"
  by (simp add: normalizeEngineKeyVersionForCompare_def Let_def mvcc_lens)

lemma normalize_version:
  assumes "valid_ts ts"
  shows "normalizeEngineKeyVersionForCompare (0 # ts_bytes ts) = norm_version ts"
  using assms be4_zero [of "Logical ts"] be4_zero [OF in_zero(1)]
  by (simp add: ts_bytes_def norm_version_def normalize_logical normalize_synthetic normalize_wall valid_ts_def)

definition stored_ts :: "Timestamp \<Rightarrow> bool" where
  "stored_ts ts \<longleftrightarrow> valid_ts ts \<and> 0 \<le> WallTime ts \<and> 0 \<le> Logical ts"

lemma stored_ts_bits:
  "stored_ts ts \<Longrightarrow> take_bit (8 * 8) (WallTime ts) = WallTime ts" "stored_ts ts \<Longrightarrow> take_bit (8 * 4) (Logical ts) = Logical ts"
  by (simp_all add: stored_ts_def valid_ts_def in64_def in32_def go_limits take_bit_int_eq_self)

lemma norm_version_less:
  assumes "stored_ts a" "stored_ts b"
  shows "norm_version a < norm_version b \<longleftrightarrow> Timestamp_Less a b" and "norm_version a = norm_version b \<longleftrightarrow> Timestamp_EqOrdering a b"
proof -
  note bits = stored_ts_bits [OF assms(1)] stored_ts_bits [OF assms(2)]
  note less = be_bytes_less_iff [OF bits(1) bits(3)] be_bytes_less_iff [OF bits(2) bits(4)]
  have eq: "be_bytes 8 (WallTime a) = be_bytes 8 (WallTime b) \<longleftrightarrow> WallTime a = WallTime b"
    "be_bytes 4 (Logical a) = be_bytes 4 (Logical b) \<longleftrightarrow> Logical a = Logical b"
    using bits by (metis be_value_be_bytes)+
  have nz: "[] < be_bytes 4 l" for l using be_bytes_Nil_iff [of 4 l] by (cases "be_bytes 4 l") auto
  show "norm_version a < norm_version b \<longleftrightarrow> Timestamp_Less a b"
    using assms nz by (auto simp: norm_version_def append_less_iff less eq ts_order_defs stored_ts_def)
  show "norm_version a = norm_version b \<longleftrightarrow> Timestamp_EqOrdering a b"
    using nz [of "Logical a"] nz [of "Logical b"] by (auto simp: norm_version_def eq ts_order_defs)
qed

lemma encoded_parts:
  fixes K ts defines "e \<equiv> K @ 0 # suffix_bytes ts"
  shows "int (length e) - 1 = int (length K + length (suffix_bytes ts))"
    and "int (length K + length (suffix_bytes ts)) - uint (e ! (length K + length (suffix_bytes ts))) = int (length K)"
    and "drop (length K) (take (length K + length (suffix_bytes ts)) e) = (if Timestamp_IsEmpty ts then [] else 0 # ts_bytes ts)"
    and "uint (e ! (length K + length (suffix_bytes ts))) = int (length (suffix_bytes ts))"
proof -
  show "int (length e) - 1 = int (length K + length (suffix_bytes ts))" by (simp add: e_def)
  show l: "uint (e ! (length K + length (suffix_bytes ts))) = int (length (suffix_bytes ts))"
    using suffix_len_byte [of ts] by (auto simp: e_def suffix_bytes_def nth_append)
  show "int (length K + length (suffix_bytes ts)) - uint (e ! (length K + length (suffix_bytes ts))) = int (length K)"
    unfolding l by simp
  show "drop (length K) (take (length K + length (suffix_bytes ts)) e) = (if Timestamp_IsEmpty ts then [] else 0 # ts_bytes ts)"
    by (simp add: e_def suffix_bytes_def)
qed

lemma version_part:
  "take (length (suffix_bytes ts)) (0 # suffix_bytes ts) = (if Timestamp_IsEmpty ts then [] else 0 # ts_bytes ts)"
  by (simp add: suffix_bytes_def)

lemma EngineKeyCompare_parts:
  "EngineKeyCompare (K @ 0 # suffix_bytes s) (L @ 0 # suffix_bytes t) =
     (if bytes_Compare K L \<noteq> 0 then bytes_Compare K L
      else if Timestamp_IsEmpty s then if Timestamp_IsEmpty t then 0 else -1
      else if Timestamp_IsEmpty t then 1
      else bytes_Compare (normalizeEngineKeyVersionForCompare (0 # ts_bytes t))
             (normalizeEngineKeyVersionForCompare (0 # ts_bytes s)))"
  unfolding EngineKeyCompare_def Let_def encoded_parts(1) nat_int encoded_parts(2)
  by (simp add: version_part)

lemma bytes_Compare_cases: "bytes_Compare a b = (if a < b then -1 else if a = b then 0 else 1)"
  by (auto simp: bytes_Compare_def)

lemma EngineKeyCompare_eq:
  assumes "stored_ts (mk_Timestamp a)" "stored_ts (mk_Timestamp b)"
  shows "EngineKeyCompare (EncodeMVCCKey a) (EncodeMVCCKey b) = MVCCKey_Compare a b"
proof -
  let ?s = "mk_Timestamp a" and ?t = "mk_Timestamp b"
  have "bytes_Compare (norm_version ?t) (norm_version ?s) = - Timestamp_Compare ?s ?t"
    using norm_version_less [OF assms(2,1)]
    by (auto simp: bytes_Compare_cases Timestamp_Compare_def ts_order_defs)
  moreover have "valid_ts ?s" "valid_ts ?t" using assms by (simp_all add: stored_ts_def)
  moreover have "Timestamp_IsEmpty ?s \<Longrightarrow> Timestamp_IsEmpty ?t \<Longrightarrow> Timestamp_Compare ?s ?t = 0"
    by (simp add: Timestamp_IsEmpty_def Timestamp_Compare_def)
  ultimately show ?thesis
    by (simp add: EncodeMVCCKey_eq EngineKeyCompare_parts normalize_version MVCCKey_Compare_def Let_def)
qed

text \<open>A key cut at the length byte that ends it.\<close>

definition cut_at :: "bytes \<Rightarrow> bytes \<Rightarrow> bytes \<Rightarrow> bool" where
  "cut_at e K V \<longleftrightarrow> (\<exists>n. e = K @ V @ [n] \<and> uint n = int (length V))"

lemma cut_atD:
  assumes "cut_at e K V"
  shows "int (length e) - 1 = int (length K + length V)" "uint (e ! (length K + length V)) = int (length V)"
    "take (length K) e = K" "drop (length K) (take (length K + length V) e) = V"
  using assms by (auto simp: cut_at_def nth_append)

lemma cut_at_suffix: "cut_at (K @ 0 # suffix_bytes ts) K (if Timestamp_IsEmpty ts then [] else 0 # ts_bytes ts)"
  using suffix_len_byte [of ts] by (simp add: cut_at_def suffix_bytes_def)

lemma EngineKeyEqual_cut:
  assumes a: "cut_at a K V" and b: "cut_at b L W" and l: "length V \<noteq> 18"
  shows "EngineKeyEqual a b \<longleftrightarrow>
    (if length V \<le> 9 \<and> length W \<le> 9 then a = b
     else K = L \<and> normalizeEngineKeyVersionForCompare V = normalizeEngineKeyVersionForCompare W)"
proof -
  have d: "int (n + m) - int m = int n" for n m by simp
  have c: "int n \<le> int (1 + 8) \<longleftrightarrow> n \<le> 9" "int n = int (1 + 17) \<longleftrightarrow> n = 18" "int n < 0 \<longleftrightarrow> False" "int n = - 1 \<longleftrightarrow> False" for n
    by auto
  show ?thesis
    unfolding EngineKeyEqual_def Let_def cut_atD [OF a] cut_atD [OF b] nat_int d mvcc_lens engineKeyVersionLockTableLen_def c
      prod.case simp_thms if_False cut_atD(3,4) [OF a] cut_atD(3,4) [OF b]
    using l by (simp only: if_False if_True simp_thms split: if_split) blast
qed

lemma EngineKeyEqual_parts:
  "EngineKeyEqual (K @ 0 # suffix_bytes s) (L @ 0 # suffix_bytes t) \<longleftrightarrow>
     (if length (suffix_bytes s) \<le> 9 \<and> length (suffix_bytes t) \<le> 9
      then K @ 0 # suffix_bytes s = L @ 0 # suffix_bytes t
      else K = L \<and> normalizeEngineKeyVersionForCompare (if Timestamp_IsEmpty s then [] else 0 # ts_bytes s) =
        normalizeEngineKeyVersionForCompare (if Timestamp_IsEmpty t then [] else 0 # ts_bytes t))"
proof -
  have l: "length (if Timestamp_IsEmpty ts then [] else 0 # ts_bytes ts) = length (suffix_bytes ts)" for ts
    by (simp add: suffix_bytes_def)
  have "length (if Timestamp_IsEmpty s then [] else 0 # ts_bytes s) \<noteq> 18" by (simp add: length_ts_bytes)
  from EngineKeyEqual_cut [OF cut_at_suffix [of K s] cut_at_suffix [of L t] this] show ?thesis unfolding l .
qed

lemma EncodeMVCCKey_inj:
  assumes "valid_ts (mk_Timestamp a)" "valid_ts (mk_Timestamp b)" "EncodeMVCCKey a = EncodeMVCCKey b"
  shows "a = b"
proof -
  have "Inr (mk_Key a, mk_Timestamp a) = (Inr (mk_Key b, mk_Timestamp b) :: (bytes \<times> Timestamp) res)"
    unfolding DecodeKey_EncodeMVCCKey [OF assms(1), symmetric] DecodeKey_EncodeMVCCKey [OF assms(2), symmetric] assms(3) ..
  then show ?thesis by (intro MVCCKey.equality) simp_all
qed

lemma EngineKeyEqual_eq:
  assumes "stored_ts (mk_Timestamp a)" "stored_ts (mk_Timestamp b)"
  shows "EngineKeyEqual (EncodeMVCCKey a) (EncodeMVCCKey b) \<longleftrightarrow> MVCCKey_Compare a b = 0"
proof -
  let ?s = "mk_Timestamp a" and ?t = "mk_Timestamp b"
  have v: "valid_ts ?s" "valid_ts ?t" using assms by (simp_all add: stored_ts_def)
  have cmp: "MVCCKey_Compare a b = 0 \<longleftrightarrow>
      mk_Key a = mk_Key b \<and> (Timestamp_IsEmpty ?s \<longleftrightarrow> Timestamp_IsEmpty ?t) \<and> Timestamp_EqOrdering ?s ?t"
    by (auto simp: MVCCKey_Compare_def Let_def bytes_Compare_cases Timestamp_Compare_def ts_order_defs Timestamp_IsEmpty_def)
  show ?thesis
  proof (cases "length (suffix_bytes ?s) \<le> 9 \<and> length (suffix_bytes ?t) \<le> 9")
    case True
    then have z: "\<not> Synthetic ?s \<and> Logical ?s = 0" "\<not> Synthetic ?t \<and> Logical ?t = 0"
      by (auto simp: suffix_bytes_def length_ts_bytes Timestamp_IsEmpty_def split: if_splits)
    have "EngineKeyEqual (EncodeMVCCKey a) (EncodeMVCCKey b) \<longleftrightarrow> EncodeMVCCKey a = EncodeMVCCKey b"
      using True by (simp add: EncodeMVCCKey_eq EngineKeyEqual_parts)
    also have "\<dots> \<longleftrightarrow> a = b" using EncodeMVCCKey_inj [OF v] by blast
    also have "\<dots> \<longleftrightarrow> MVCCKey_Compare a b = 0"
      unfolding cmp using z by (auto simp: ts_order_defs Timestamp_IsEmpty_def intro!: MVCCKey.equality Timestamp.equality)
    finally show ?thesis .
  next
    case False
    have n: "normalizeEngineKeyVersionForCompare [] = []"
      by (simp add: normalizeEngineKeyVersionForCompare_def Let_def mvcc_lens)
    have c: "normalizeEngineKeyVersionForCompare (if Timestamp_IsEmpty ts then [] else 0 # ts_bytes ts) =
        (if Timestamp_IsEmpty ts then [] else norm_version ts)" if "valid_ts ts" for ts
      using n normalize_version [OF that] by simp
    have e: "(if Timestamp_IsEmpty ?s then [] else norm_version ?s) = (if Timestamp_IsEmpty ?t then [] else norm_version ?t) \<longleftrightarrow>
        (Timestamp_IsEmpty ?s \<longleftrightarrow> Timestamp_IsEmpty ?t) \<and> Timestamp_EqOrdering ?s ?t"
    proof (cases "Timestamp_IsEmpty ?s \<or> Timestamp_IsEmpty ?t")
      case True
      then show ?thesis by (auto simp: norm_version_def Timestamp_IsEmpty_def ts_order_defs)
    next
      case False
      then show ?thesis using norm_version_less(2) [OF assms] by simp
    qed
    show ?thesis
      unfolding EncodeMVCCKey_eq EngineKeyEqual_parts if_not_P [OF False] c [OF v(1)] c [OF v(2)] cmp e ..
  qed
qed

section \<open>Encoded timestamps\<close>

lemma EncodeMVCCTimestampToBuf_eq:
  "EncodeMVCCTimestampToBuf buf ts = (if Timestamp_IsEmpty ts then [] else ts_bytes ts)"
  by (simp add: EncodeMVCCTimestampToBuf_def encodedMVCCTimestampLength_eq encodeMVCCTimestampToBuf_eq length_ts_bytes Let_def)

lemma encodeMVCCTimestamp_eq: "encodeMVCCTimestamp ts = (if Timestamp_IsEmpty ts then [] else ts_bytes ts)"
  by (simp add: encodeMVCCTimestamp_def encodedMVCCTimestampLength_eq encodeMVCCTimestampToBuf_eq length_ts_bytes Let_def)

lemma encodeMVCCTimestampSuffixToBuf_eq: "encodeMVCCTimestampSuffixToBuf buf ts = suffix_bytes ts"
proof (cases "Timestamp_IsEmpty ts")
  case False
  define n where "n = length (ts_bytes ts)"
  obtain z where z: "(if length buf < n + 1 then replicate (n + 1) 0 else take (n + 1) buf) = z" "length z = n + 1" by simp
  have "encodeMVCCTimestampToBuf z ts = ts_bytes ts @ drop n z" using z(2) by (simp add: encodeMVCCTimestampToBuf_eq n_def)
  moreover have "put_at n [b] (ts_bytes ts @ drop n z) = ts_bytes ts @ [b]" for b
    using put_at_next [of n "ts_bytes ts" "[b]" "drop n z"] z(2) by (simp add: n_def)
  moreover have "n \<noteq> 0" by (simp add: n_def length_ts_bytes)
  ultimately show ?thesis
    unfolding encodeMVCCTimestampSuffixToBuf_def encodedMVCCTimestampLength_eq suffix_bytes_def Let_def mvcc_lens
      if_not_P [OF False] n_def [symmetric] z(1)
    by simp
qed (simp add: encodeMVCCTimestampSuffixToBuf_def encodedMVCCTimestampLength_eq suffix_bytes_def)

lemma DecodeMVCCTimestampSuffix_suffix:
  assumes "valid_ts ts" shows "DecodeMVCCTimestampSuffix (suffix_bytes ts) = Inr ts"
proof (cases "Timestamp_IsEmpty ts")
  case True
  then show ?thesis by (cases ts) (simp add: DecodeMVCCTimestampSuffix_def suffix_bytes_def Timestamp_IsEmpty_def)
next
  case False
  then show ?thesis
    using decodeMVCCTimestamp_bytes [OF assms] suffix_len_byte [of ts]
    by (simp add: DecodeMVCCTimestampSuffix_def suffix_bytes_def)
qed

lemma MVCCKey_Less_Compare: "MVCCKey_Less a b \<longleftrightarrow> MVCCKey_Compare a b < 0"
  by (auto simp: MVCCKey_Less_def MVCCKey_Compare_def Let_def MVCCKey_IsValue_def Timestamp_Compare_def ts_order_defs
      Timestamp_IsEmpty_def)

lemma MVCCKey_Less_iff:
  "MVCCKey_Less k l \<longleftrightarrow> mk_Key k < mk_Key l \<or> mk_Key k = mk_Key l \<and>
     (if Timestamp_IsEmpty (mk_Timestamp k) then \<not> Timestamp_IsEmpty (mk_Timestamp l)
      else \<not> Timestamp_IsEmpty (mk_Timestamp l) \<and> Timestamp_Less (mk_Timestamp l) (mk_Timestamp k))"
  by (auto simp: MVCCKey_Less_def Let_def bytes_Compare_cases MVCCKey_IsValue_def)

lemma MVCCKey_Next_value:
  assumes "stored_ts (mk_Timestamp k)" "\<not> Synthetic (mk_Timestamp k)" "MVCCKey_IsValue k"
  shows "\<exists>n. MVCCKey_Next k = Inr n \<and> MVCCKey_Less k n"
  using assms unfolding MVCCKey_Less_iff
  by (auto simp: MVCCKey_Next_def Timestamp_Prev_def res_simps MVCCKey_IsValue_def Timestamp_IsEmpty_def stored_ts_def ts_order_defs
      less_append_zero)

lemma Timestamp_Prev_gap:
  assumes "Timestamp_Prev s = Inr p" and "0 \<le> Logical u" and "Logical u \<le> MaxInt32"
  shows "\<not> (Timestamp_Less u s \<and> Timestamp_Less p u)"
proof (cases "Logical s > 0")
  case True
  then have "WallTime p = WallTime s" "Logical p = Logical s - 1" using assms(1) by (auto simp: Timestamp_Prev_def)
  then show ?thesis unfolding Timestamp_Less_def by linarith
next
  case False
  then have "WallTime p = WallTime s - 1" "Logical p = MaxInt32"
    using assms(1) by (auto simp: Timestamp_Prev_def split: if_splits)
  then show ?thesis using False assms(2,3) unfolding Timestamp_Less_def by linarith
qed

lemma MVCCKey_Next_least:
  assumes "stored_ts (mk_Timestamp k)" "\<not> Synthetic (mk_Timestamp k)" "MVCCKey_Next k = Inr n"
    and "stored_ts (mk_Timestamp l)" "\<not> Synthetic (mk_Timestamp l)" "MVCCKey_Less k l"
  shows "\<not> MVCCKey_Less l n"
proof (cases "\<exists>ts. Timestamp_Prev (mk_Timestamp k) = Inr ts \<and> Timestamp_IsEmpty ts")
  case True
  then have k: "WallTime (mk_Timestamp k) = 0" "Logical (mk_Timestamp k) = 1"
    using assms(1) by (auto simp: Timestamp_Prev_def Timestamp_IsEmpty_def stored_ts_def go_limits split: if_splits)
  have n: "mk_Key n = mk_Key k @ [0]" "mk_Timestamp n = noTs"
    using True assms(3) by (auto simp: MVCCKey_Next_def res_simps)
  have "mk_Key k < mk_Key l"
    using assms(4-6) k unfolding MVCCKey_Less_iff by (auto simp: ts_order_defs stored_ts_def Timestamp_IsEmpty_def split: if_splits)
  then have "mk_Key n \<le> mk_Key l" using n(1) by (simp add: append_zero_le)
  then show ?thesis unfolding MVCCKey_Less_iff n(2) by (auto simp: Timestamp_IsEmpty_def)
next
  case False
  then have n: "mk_Key n = mk_Key k" "Timestamp_Prev (mk_Timestamp k) = Inr (mk_Timestamp n)"
    using assms(3) by (auto simp: MVCCKey_Next_def res_simps split: if_splits)
  have e: "\<not> Timestamp_IsEmpty (mk_Timestamp k)" "\<not> Timestamp_IsEmpty (mk_Timestamp n)"
    using n False by (auto simp: Timestamp_Prev_def Timestamp_IsEmpty_def)
  have "\<not> (Timestamp_Less (mk_Timestamp l) (mk_Timestamp k) \<and> Timestamp_Less (mk_Timestamp n) (mk_Timestamp l))"
    by (rule Timestamp_Prev_gap [OF n(2)]) (use assms(4) in \<open>simp_all add: stored_ts_def valid_ts_def in32_def\<close>)
  then show ?thesis using assms(6) e n(1) unfolding MVCCKey_Less_iff by auto
qed

section \<open>Properties\<close>

text \<open>
  C22. A versioned key survives encoding and decoding, whatever the reused buffer held; the
  encoding has the predicted length, is injective, and a timestamp suffix survives likewise.
\<close>

theorem mvcc_key_roundtrip:
  assumes "valid_ts (mk_Timestamp k)"
  shows "DecodeMVCCKey (EncodeMVCCKey k) = Inr k \<and>
    EncodeMVCCKeyToBuf buf k = EncodeMVCCKey k \<and>
    length (EncodeMVCCKey k) = MVCCKey_Len k \<and>
    EncodeMVCCKey k = EncodeMVCCKeyPrefix (mk_Key k) @ EncodeMVCCTimestampSuffix (mk_Timestamp k) \<and>
    decodeMVCCTimestamp (EncodeMVCCTimestampToBuf buf (mk_Timestamp k)) = Inr (mk_Timestamp k) \<and>
    DecodeMVCCTimestampSuffix (encodeMVCCTimestampSuffixToBuf buf (mk_Timestamp k)) = Inr (mk_Timestamp k)"
proof (intro conjI)
  show "DecodeMVCCKey (EncodeMVCCKey k) = Inr k"
    unfolding DecodeMVCCKey_def DecodeKey_EncodeMVCCKey [OF assms] by (cases k) (simp add: res_simps)
  show "EncodeMVCCKeyToBuf buf k = EncodeMVCCKey k" by (rule EncodeMVCCKeyToBuf_eq)
  show "length (EncodeMVCCKey k) = MVCCKey_Len k"
    by (simp add: MVCCKey_Len_def EncodeMVCCKey_eq encodedMVCCKeyLength_eq)
  show "EncodeMVCCKey k = EncodeMVCCKeyPrefix (mk_Key k) @ EncodeMVCCTimestampSuffix (mk_Timestamp k)"
    by (simp add: EncodeMVCCKeyPrefix_def EncodeMVCCTimestampSuffix_def EncodeMVCCKey_eq
        encodeMVCCTimestampSuffixToBuf_eq suffix_bytes_def Timestamp_IsEmpty_def)
  show "decodeMVCCTimestamp (EncodeMVCCTimestampToBuf buf (mk_Timestamp k)) = Inr (mk_Timestamp k)"
    unfolding EncodeMVCCTimestampToBuf_eq by (rule decodeMVCCTimestamp_bytes [OF assms])
  show "DecodeMVCCTimestampSuffix (encodeMVCCTimestampSuffixToBuf buf (mk_Timestamp k)) = Inr (mk_Timestamp k)"
    unfolding encodeMVCCTimestampSuffixToBuf_eq by (rule DecodeMVCCTimestampSuffix_suffix [OF assms])
qed

theorem mvcc_key_roundtrip_witness:
  "DecodeMVCCKey (EncodeMVCCKeyToBuf (replicate 40 9) \<lparr>mk_Key = [1, 0], mk_Timestamp = \<lparr>WallTime = 5, Logical = -2, Synthetic = True\<rparr>\<rparr>) =
     Inr \<lparr>mk_Key = [1, 0], mk_Timestamp = \<lparr>WallTime = 5, Logical = -2, Synthetic = True\<rparr>\<rparr>"
proof -
  have "valid_ts (mk_Timestamp \<lparr>mk_Key = [1, 0], mk_Timestamp = \<lparr>WallTime = 5, Logical = -2, Synthetic = True\<rparr>\<rparr>)"
    by (simp add: valid_ts_def in64_def in32_def go_limits)
  note r = mvcc_key_roundtrip [OF this, of "replicate 40 9"]
  show ?thesis using conjunct1 [OF r] conjunct1 [OF conjunct2 [OF r]] by (simp only:)
qed

text \<open>
  C4. The comparator of the storage engine orders encoded versioned keys exactly as
  \<open>MVCCKey.Compare\<close> orders the keys, and its equality test agrees, for the timestamps the
  store holds; \<open>Less\<close> is the strict part of \<open>Compare\<close>.
\<close>

theorem engine_key_order:
  assumes "stored_ts (mk_Timestamp a)" and "stored_ts (mk_Timestamp b)"
  shows "EngineKeyCompare (EncodeMVCCKey a) (EncodeMVCCKey b) = MVCCKey_Compare a b \<and>
    (EngineKeyEqual (EncodeMVCCKey a) (EncodeMVCCKey b) \<longleftrightarrow>
      EngineKeyCompare (EncodeMVCCKey a) (EncodeMVCCKey b) = 0) \<and>
    (MVCCKey_Less a b \<longleftrightarrow> MVCCKey_Compare a b < 0)"
proof (intro conjI)
  show "EngineKeyCompare (EncodeMVCCKey a) (EncodeMVCCKey b) = MVCCKey_Compare a b" by (rule EngineKeyCompare_eq [OF assms])
  then show "EngineKeyEqual (EncodeMVCCKey a) (EncodeMVCCKey b) \<longleftrightarrow>
      EngineKeyCompare (EncodeMVCCKey a) (EncodeMVCCKey b) = 0" using EngineKeyEqual_eq [OF assms] by simp
  show "MVCCKey_Less a b \<longleftrightarrow> MVCCKey_Compare a b < 0" by (rule MVCCKey_Less_Compare)
qed

theorem engine_key_order_witness:
  "EngineKeyCompare (EncodeMVCCKey \<lparr>mk_Key = [7], mk_Timestamp = mkTs 9 0\<rparr>)
     (EncodeMVCCKey \<lparr>mk_Key = [7], mk_Timestamp = mkTs 3 4\<rparr>) = -1"
proof -
  have v: "stored_ts (mkTs 9 0)" "stored_ts (mkTs 3 4)" by (simp_all add: stored_ts_def valid_ts_def in64_def in32_def go_limits)
  have "MVCCKey_Compare \<lparr>mk_Key = [7], mk_Timestamp = mkTs 9 0\<rparr> \<lparr>mk_Key = [7], mk_Timestamp = mkTs 3 4\<rparr> = -1"
    by (simp add: MVCCKey_Compare_def bytes_Compare_def Timestamp_IsEmpty_def Timestamp_Compare_def)
  with engine_key_order [of "\<lparr>mk_Key = [7], mk_Timestamp = mkTs 9 0\<rparr>" "\<lparr>mk_Key = [7], mk_Timestamp = mkTs 3 4\<rparr>"] v
  show ?thesis by simp
qed

text \<open>
  \<open>MVCCKey.Next\<close> of a key with a version is the least stored key after it: it is
  strictly after, and nothing with an unmarked timestamp lies between. At the zero timestamp
  it panics.
\<close>

theorem mvcc_key_next:
  assumes "stored_ts (mk_Timestamp k)" and "\<not> Synthetic (mk_Timestamp k)"
  shows "(MVCCKey_IsValue k \<longrightarrow> (\<exists>n. MVCCKey_Next k = Inr n \<and> MVCCKey_Less k n \<and>
      (\<forall>l. stored_ts (mk_Timestamp l) \<and> \<not> Synthetic (mk_Timestamp l) \<and> MVCCKey_Less k l \<longrightarrow> \<not> MVCCKey_Less l n))) \<and>
    (\<not> MVCCKey_IsValue k \<longrightarrow> MVCCKey_Next k = Inl (Panic ''cannot take the previous value to a zero timestamp''))"
proof (intro conjI impI)
  assume v: "MVCCKey_IsValue k"
  show "\<exists>n. MVCCKey_Next k = Inr n \<and> MVCCKey_Less k n \<and>
      (\<forall>l. stored_ts (mk_Timestamp l) \<and> \<not> Synthetic (mk_Timestamp l) \<and> MVCCKey_Less k l \<longrightarrow> \<not> MVCCKey_Less l n)"
    using MVCCKey_Next_value [OF assms v] MVCCKey_Next_least [OF assms] by blast
next
  assume "\<not> MVCCKey_IsValue k"
  then show "MVCCKey_Next k = Inl (Panic ''cannot take the previous value to a zero timestamp'')"
    by (simp add: MVCCKey_Next_def MVCCKey_IsValue_def Timestamp_IsEmpty_def Timestamp_Prev_def res_simps)
qed

theorem mvcc_key_next_witness:
  "\<exists>n. MVCCKey_Next \<lparr>mk_Key = [7], mk_Timestamp = mkTs 0 1\<rparr> = Inr n \<and> MVCCKey_Less \<lparr>mk_Key = [7], mk_Timestamp = mkTs 0 1\<rparr> n"
proof -
  have "stored_ts (mkTs 0 1)" "MVCCKey_IsValue \<lparr>mk_Key = [7], mk_Timestamp = mkTs 0 1\<rparr>"
    by (simp_all add: stored_ts_def valid_ts_def in64_def in32_def go_limits MVCCKey_IsValue_def Timestamp_IsEmpty_def)
  with mvcc_key_next [of "\<lparr>mk_Key = [7], mk_Timestamp = mkTs 0 1\<rparr>"] show ?thesis by auto
qed

end
