(* ===== verification/Roachpb_Span.thy ===== *)
theory Roachpb_Span
  imports Keys "HOL-Library.Product_Lexorder"
begin

text \<open>
  Spans of keys, \<open>pkg/roachpb/data.go\<close> and \<open>pkg/roachpb/merge_spans.go\<close>. The end key of
  a span distinguishes \<open>nil\<close> (\<open>None\<close>) from an empty slice, as \<open>MergeSpans\<close> does;
  \<open>endk\<close> is its contents. The specification of a span is the set of keys it covers.
  \<open>sort.Sort\<close> is the library's stable sort: the order it leaves equal elements in is
  not observable in the results below, which are stated on the sets of keys.
\<close>

section \<open>Spans\<close>

record Span =
  Key :: bytes
  EndKey :: "bytes option"

definition endk :: "Span \<Rightarrow> bytes" where
  "endk s = (case EndKey s of None \<Rightarrow> [] | Some e \<Rightarrow> e)"

abbreviation noSpan :: Span where
  "noSpan \<equiv> \<lparr>Key = [], EndKey = None\<rparr>"

definition Span_Valid :: "Span \<Rightarrow> bool" where
  "Span_Valid s \<longleftrightarrow>
     (if Key s = [] \<and> endk s = [] then False
      else if endk s = [] then True
      else if bytes_Compare (Key s) (endk s) \<ge> 0 then False
      else True)"

definition Span_Equal :: "Span \<Rightarrow> Span \<Rightarrow> bool" where
  "Span_Equal s o' \<longleftrightarrow> Key s = Key o' \<and> endk s = endk o'"

definition Span_Overlaps :: "Span \<Rightarrow> Span \<Rightarrow> bool" where
  "Span_Overlaps s t \<longleftrightarrow>
     (if \<not> Span_Valid s \<or> \<not> Span_Valid t then False
      else if endk s = [] \<and> endk t = [] then Key s = Key t
      else if endk s = [] then bytes_Compare (Key s) (Key t) \<ge> 0 \<and> bytes_Compare (Key s) (endk t) < 0
      else if endk t = [] then bytes_Compare (Key t) (Key s) \<ge> 0 \<and> bytes_Compare (Key t) (endk s) < 0
      else bytes_Compare (endk s) (Key t) > 0 \<and> bytes_Compare (Key s) (endk t) < 0)"

definition Span_Intersect :: "Span \<Rightarrow> Span \<Rightarrow> Span" where
  "Span_Intersect s t =
     (if \<not> Span_Overlaps s t then noSpan
      else if endk s = [] then s
      else if endk t = [] then t
      else \<lparr>Key = (if bytes_Compare (Key s) (Key t) < 0 then Key t else Key s),
            EndKey = (if bytes_Compare (endk s) (endk t) > 0 then EndKey t else EndKey s)\<rparr>)"

definition Span_Combine :: "Span \<Rightarrow> Span \<Rightarrow> Span" where
  "Span_Combine s t =
     (if \<not> Span_Valid s \<or> \<not> Span_Valid t then noSpan
      else
        (let mx = (if endk s \<noteq> [] then endk s else Key s);
             (mn, mx) =
               (if bytes_Compare (Key t) (Key s) < 0 then (Key t, mx)
                else if bytes_Compare (Key t) mx > 0 then (Key s, Key t)
                else (Key s, mx));
             mx = (if endk t \<noteq> [] \<and> bytes_Compare (endk t) mx > 0 then endk t else mx)
         in if mn = mx then \<lparr>Key = mn, EndKey = None\<rparr>
            else if Key s = mx \<or> Key t = mx then \<lparr>Key = mn, EndKey = Some (Key_Next mx)\<rparr>
            else \<lparr>Key = mn, EndKey = Some mx\<rparr>))"

definition Span_Contains :: "Span \<Rightarrow> Span \<Rightarrow> bool" where
  "Span_Contains s t \<longleftrightarrow>
     (if \<not> Span_Valid s \<or> \<not> Span_Valid t then False
      else if endk s = [] \<and> endk t = [] then Key s = Key t
      else if endk s = [] then False
      else if endk t = [] then bytes_Compare (Key t) (Key s) \<ge> 0 \<and> bytes_Compare (Key t) (endk s) < 0
      else bytes_Compare (Key s) (Key t) \<le> 0 \<and> bytes_Compare (endk s) (endk t) \<ge> 0)"

definition Span_ContainsKey :: "Span \<Rightarrow> bytes \<Rightarrow> bool" where
  "Span_ContainsKey s key \<longleftrightarrow> bytes_Compare key (Key s) \<ge> 0 \<and> bytes_Compare key (endk s) < 0"

definition Span_CompareKey :: "Span \<Rightarrow> bytes \<Rightarrow> int" where
  "Span_CompareKey s key =
     (if bytes_Compare key (Key s) \<ge> 0 then if bytes_Compare key (endk s) < 0 then 0 else 1 else -1)"

definition Span_ProperlyContainsKey :: "Span \<Rightarrow> bytes \<Rightarrow> bool" where
  "Span_ProperlyContainsKey s key \<longleftrightarrow> bytes_Compare key (Key s) > 0 \<and> bytes_Compare key (endk s) < 0"

definition Span_AsRange :: "Span \<Rightarrow> bytes \<times> bytes" where
  "Span_AsRange s =
     (if endk s = [] then (take (length (Key s)) (Key_Next (Key s)), Key_Next (Key s)) else (Key s, endk s))"

definition Span_SplitOnKey :: "Span \<Rightarrow> bytes \<Rightarrow> Span \<times> Span" where
  "Span_SplitOnKey s key =
     (if bytes_Compare key (Key s) \<le> 0 \<or> bytes_Compare key (endk s) \<ge> 0 then (s, noSpan)
      else (\<lparr>Key = Key s, EndKey = Some key\<rparr>, \<lparr>Key = key, EndKey = EndKey s\<rparr>))"

definition Spans_ContainsKey :: "Span list \<Rightarrow> bytes \<Rightarrow> bool" where
  "Spans_ContainsKey a key \<longleftrightarrow> (\<exists>span\<in>set a. Span_ContainsKey span key)"

record RSpan =
  RKey :: bytes
  REndKey :: bytes

definition RSpan_KeySpan :: "RSpan \<Rightarrow> RSpan" where
  "RSpan_KeySpan rs = \<lparr>RKey = (if RKey rs = KeyMin then LocalMax else RKey rs), REndKey = REndKey rs\<rparr>"

definition RSpan_ContainsKey :: "RSpan \<Rightarrow> bytes \<Rightarrow> bool" where
  "RSpan_ContainsKey rs key \<longleftrightarrow> bytes_Compare key (RKey rs) \<ge> 0 \<and> bytes_Compare key (REndKey rs) < 0"

definition RSpan_ContainsKeyInverted :: "RSpan \<Rightarrow> bytes \<Rightarrow> bool" where
  "RSpan_ContainsKeyInverted rs key \<longleftrightarrow> bytes_Compare key (RKey rs) > 0 \<and> bytes_Compare key (REndKey rs) \<le> 0"

definition RSpan_ContainsKeyRange :: "RSpan \<Rightarrow> bytes \<Rightarrow> bytes \<Rightarrow> bool" where
  "RSpan_ContainsKeyRange rs start fin \<longleftrightarrow>
     (if fin = [] then RSpan_ContainsKey rs start
      else if bytes_Compare fin start < 0 then False
      else if bytes_Compare fin start = 0 then RSpan_ContainsKey rs start
      else bytes_Compare start (RKey rs) \<ge> 0 \<and> bytes_Compare (REndKey rs) fin \<ge> 0)"

definition RSpan_Intersect :: "RSpan \<Rightarrow> RSpan \<Rightarrow> RSpan res" where
  "RSpan_Intersect rs rspan =
     (if \<not> RKey rs < REndKey rspan \<or> \<not> RKey rspan < REndKey rs then Inl (Err ''spans do not overlap'')
      else Inr \<lparr>RKey = (if RKey rs < RKey rspan then RKey rspan else RKey rs),
                REndKey = (if \<not> RSpan_ContainsKeyRange rspan (RKey rspan) (REndKey rs)
                           then REndKey rspan else REndKey rs)\<rparr>)"

section \<open>Merging and subtracting\<close>

definition sortedSpans_key :: "Span \<Rightarrow> bytes \<times> bytes" where
  "sortedSpans_key s = (Key s, endk s)"

text \<open>
  The loop of \<open>MergeSpans\<close>: the result so far is \<open>r\<close> followed by \<open>prev\<close>. The test
  \<open>cur.EndKey != nil\<close> is on the pointer.
\<close>

fun MergeSpans_loop :: "Span list \<Rightarrow> Span \<Rightarrow> bool \<Rightarrow> Span list \<Rightarrow> Span list \<times> bool" where
  "MergeSpans_loop r prev dst [] = (r @ [prev], dst)"
| "MergeSpans_loop r prev dst (cur # rest) =
     (if endk cur = [] \<and> endk prev = [] then
        if bytes_Compare (Key cur) (Key prev) \<noteq> 0 then MergeSpans_loop (r @ [prev]) cur dst rest
        else MergeSpans_loop r prev False rest
      else if endk prev = [] then
        if bytes_Compare (Key cur) (Key prev) = 0
        then MergeSpans_loop r (prev\<lparr>EndKey := EndKey cur\<rparr>) False rest
        else MergeSpans_loop (r @ [prev]) cur dst rest
      else
        (let c = bytes_Compare (endk prev) (Key cur) in
         if c \<ge> 0 then
           if EndKey cur \<noteq> None then
             if bytes_Compare (endk prev) (endk cur) < 0
             then MergeSpans_loop r (prev\<lparr>EndKey := EndKey cur\<rparr>) (if c > 0 then False else dst) rest
             else MergeSpans_loop r prev False rest
           else if c = 0 then MergeSpans_loop r (prev\<lparr>EndKey := Some (Key_Next (Key cur))\<rparr>) dst rest
           else MergeSpans_loop r prev False rest
         else MergeSpans_loop (r @ [prev]) cur dst rest))"

definition MergeSpans :: "Span list \<Rightarrow> Span list \<times> bool" where
  "MergeSpans spans =
     (case sort_key sortedSpans_key spans of
        [] \<Rightarrow> ([], True)
      | s # rest \<Rightarrow> MergeSpans_loop [] s True rest)"

definition appendRemaining :: "Span list \<Rightarrow> Span \<Rightarrow> Span list" where
  "appendRemaining remaining s =
     (if remaining \<noteq> [] \<and> endk (last remaining) = Key s
      then butlast remaining @ [(last remaining)\<lparr>EndKey := EndKey s\<rparr>]
      else remaining @ [s])"

text \<open>The loop of \<open>SubtractSpans\<close>, over the spans still to do and those not yet subtracted.\<close>

fun SubtractSpans_loop :: "Span list \<Rightarrow> Span list \<Rightarrow> Span list \<Rightarrow> Span list" where
  "SubtractSpans_loop [] dn remaining = remaining"
| "SubtractSpans_loop (t # todo) [] remaining = remaining @ t # todo"
| "SubtractSpans_loop (t # todo) (d # dn) remaining =
     (if Key t = endk t then SubtractSpans_loop todo (d # dn) remaining
      else if bytes_Compare (Key d) (endk t) \<ge> 0 then
        SubtractSpans_loop todo (d # dn) (appendRemaining remaining t)
      else if bytes_Compare (endk d) (Key t) \<le> 0 then SubtractSpans_loop (t # todo) dn remaining
      else
        (let endCmp = bytes_Compare (endk d) (endk t);
             remaining' = (if bytes_Compare (Key d) (Key t) \<le> 0 then remaining
                           else appendRemaining remaining \<lparr>Key = Key t, EndKey = Some (Key d)\<rparr>)
         in if endCmp < 0 then SubtractSpans_loop (t\<lparr>Key := endk d\<rparr> # todo) dn remaining'
            else if endCmp > 0 then SubtractSpans_loop todo (d # dn) remaining'
            else SubtractSpans_loop todo dn remaining'))"

definition SubtractSpans :: "Span list \<Rightarrow> Span list \<Rightarrow> Span list" where
  "SubtractSpans todo dn =
     (if dn = [] then todo else SubtractSpans_loop (sort_key Key todo) (sort_key Key dn) [])"

section \<open>Keys covered\<close>

definition covers :: "Span \<Rightarrow> bytes set" where
  "covers s = (if \<not> Span_Valid s then {} else if endk s = [] then {Key s} else {k. Key s \<le> k \<and> k < endk s})"

definition covers_all :: "Span list \<Rightarrow> bytes set" where
  "covers_all ss = (\<Union>s\<in>set ss. covers s)"

lemma covers_all_simps [simp]:
  "covers_all [] = {}" "covers_all (s # ss) = covers s \<union> covers_all ss"
  "covers_all (xs @ ys) = covers_all xs \<union> covers_all ys"
  by (auto simp: covers_all_def)

lemma Span_Valid_iff: "Span_Valid s \<longleftrightarrow> (if endk s = [] then Key s \<noteq> [] else Key s < endk s)"
  by (auto simp: Span_Valid_def not_le)

lemma endk_update [simp]: "endk (s\<lparr>EndKey := e\<rparr>) = (case e of None \<Rightarrow> [] | Some k \<Rightarrow> k)"
  "endk (s\<lparr>Key := k\<rparr>) = endk s" "endk \<lparr>Key = k, EndKey = e\<rparr> = (case e of None \<Rightarrow> [] | Some k \<Rightarrow> k)"
  by (simp_all add: endk_def)

lemma covers_noSpan [simp]: "covers noSpan = {}"
  by (simp add: covers_def Span_Valid_iff)

lemma covers_range: "endk s \<noteq> [] \<Longrightarrow> covers s = {k. Key s \<le> k \<and> k < endk s}"
  by (auto simp: covers_def Span_Valid_iff)

lemma covers_point: "endk s = [] \<Longrightarrow> Key s \<noteq> [] \<Longrightarrow> covers s = {Key s}"
  by (simp add: covers_def Span_Valid_iff)

lemma endk_gt_nonempty: "k < (e :: bytes) \<Longrightarrow> e \<noteq> []"
  by auto

section \<open>Merging\<close>

definition span_ok :: "Span \<Rightarrow> bool" where
  "span_ok s \<longleftrightarrow> Span_Valid s \<and> EndKey s \<noteq> Some []"

definition separated :: "Span list \<Rightarrow> bool" where
  "separated = sorted_wrt (\<lambda>s t. \<forall>k\<in>covers s. k < Key t)"

definition disjoint_spans :: "Span list \<Rightarrow> bool" where
  "disjoint_spans = sorted_wrt (\<lambda>s t. covers s \<inter> covers t = {})"

lemma span_ok_nil: "span_ok s \<Longrightarrow> endk s = [] \<longleftrightarrow> EndKey s = None"
  by (auto simp: span_ok_def endk_def split: option.splits)

lemma endk_cases: "endk s = (case EndKey s of None \<Rightarrow> [] | Some k \<Rightarrow> k)"
  by (simp add: endk_def)

lemma MergeSpans_loop_step:
  assumes "span_ok prev" "span_ok cur" "Key prev \<le> Key cur"
  obtains (absorb) prev' where "Key prev' = Key prev" "span_ok prev'" "covers prev' = covers prev \<union> covers cur"
      "\<And>r dst rest. MergeSpans_loop r prev dst (cur # rest) =
         MergeSpans_loop r prev' (dst \<and> covers prev \<inter> covers cur = {}) rest"
  | (push) "\<forall>k\<in>covers prev. k < Key cur"
      "\<And>r dst rest. MergeSpans_loop r prev dst (cur # rest) = MergeSpans_loop (r @ [prev]) cur dst rest"
proof -
  note ok = assms [unfolded span_ok_def Span_Valid_iff]
  note nil = span_ok_nil [OF assms(1)] span_ok_nil [OF assms(2)]
  show thesis
  proof (cases "endk prev = []")
    case p: True
    show thesis
    proof (cases "Key cur = Key prev")
      case True
      let ?p = "prev\<lparr>EndKey := EndKey cur\<rparr>"
      have e: "endk ?p = endk cur" by (simp add: endk_cases)
      show thesis
      proof (rule absorb [of ?p])
        show "span_ok ?p"
          using ok True by (auto simp: span_ok_def Span_Valid_iff e split: if_splits simp del: endk_update)
        show "covers ?p = covers prev \<union> covers cur"
          using ok True p e by (cases "endk cur = []") (auto simp: covers_range covers_point simp del: endk_update)
        show "MergeSpans_loop r prev dst (cur # rest) =
            MergeSpans_loop r ?p (dst \<and> covers prev \<inter> covers cur = {}) rest" for r dst rest
          using ok True p nil by (cases prev; cases "endk cur = []") (auto simp: covers_range covers_point)
      qed simp
    next
      case False
      with ok p show thesis by (intro push) (auto simp: covers_point)
    qed
  next
    case p: False
    show thesis
    proof (cases "Key cur \<le> endk prev")
      case False
      with p show thesis by (intro push) (auto simp: covers_range Let_def)
    next
      case ov: True
      show thesis
      proof (cases "endk cur = []")
        case True
        let ?p = "prev\<lparr>EndKey := Some (if endk prev = Key cur then Key_Next (Key cur) else endk prev)\<rparr>"
        have "prev\<lparr>EndKey := Some (endk prev)\<rparr> = prev" using p by (cases prev) (auto simp: endk_def split: option.splits)
        then show thesis
          using ok True p nil ov
          by (intro absorb [of ?p])
            (auto simp: covers_range covers_point span_ok_def Span_Valid_iff less_append_zero Let_def)
      next
        case c: False
        then obtain e where e: "EndKey cur = Some e" "e = endk cur" by (auto simp: endk_def split: option.splits)
        let ?p = "prev\<lparr>EndKey := Some (max (endk prev) (endk cur))\<rparr>"
        have "prev\<lparr>EndKey := Some (endk prev)\<rparr> = prev" using p by (cases prev) (auto simp: endk_def split: option.splits)
        moreover have "Key cur < endk prev \<Longrightarrow> Key cur \<in> covers prev \<inter> covers cur"
          using ok p c by (simp add: covers_range)
        then have "covers prev \<inter> covers cur = {} \<longleftrightarrow> \<not> Key cur < endk prev"
          using p c by (auto simp: covers_range)
        moreover have "covers ?p = covers prev \<union> covers cur"
          using ok p c ov by (auto simp: covers_range max_def)
        ultimately show thesis
          using ok p nil ov c e
          by (intro absorb [of ?p]) (auto simp: span_ok_def Span_Valid_iff Let_def max_def)
      qed
    qed
  qed
qed

lemma covers_ge_key: "k \<in> covers s \<Longrightarrow> Key s \<le> k"
  by (auto simp: covers_def split: if_splits)

lemma MergeSpans_loop_correct:
  assumes "span_ok prev" "\<forall>s\<in>set rest. span_ok s \<and> Key prev \<le> Key s" "sorted (map Key rest)"
    and "separated (r @ [prev])"
  shows "case MergeSpans_loop r prev dst rest of (res, d) \<Rightarrow>
    covers_all res = covers_all r \<union> covers prev \<union> covers_all rest \<and> separated res \<and>
    (d \<longleftrightarrow> dst \<and> disjoint_spans (prev # rest)) \<and> length res \<le> length r + 1 + length rest"
  using assms
proof (induction rest arbitrary: r prev dst)
  case Nil
  then show ?case by (simp add: disjoint_spans_def)
next
  case (Cons cur rest)
  have ok: "span_ok cur" "Key prev \<le> Key cur" using Cons.prems by auto
  show ?case
  proof (cases rule: MergeSpans_loop_step [OF Cons.prems(1) ok])
    case (1 prev')
    have "separated (r @ [prev'])"
      using Cons.prems(4) 1(1) by (auto simp: separated_def sorted_wrt_append)
    then have "case MergeSpans_loop r prev' (dst \<and> covers prev \<inter> covers cur = {}) rest of (res, d) \<Rightarrow>
        covers_all res = covers_all r \<union> covers prev' \<union> covers_all rest \<and> separated res \<and>
        (d \<longleftrightarrow> (dst \<and> covers prev \<inter> covers cur = {}) \<and> disjoint_spans (prev' # rest)) \<and>
        length res \<le> length r + 1 + length rest"
      using Cons.prems 1(1,2) by (intro Cons.IH) auto
    moreover have "(covers prev \<inter> covers cur = {} \<and> disjoint_spans (prev' # rest)) \<longleftrightarrow> disjoint_spans (prev # cur # rest)"
      by (simp add: disjoint_spans_def 1(3) Int_Un_distrib2 ball_conj_distrib conj_ac)
    ultimately show ?thesis
      unfolding 1(4) by (simp add: 1(3) Un_assoc split_beta conj_assoc)
  next
    case 2
    have "k < Key cur" if "s \<in> set r" "k \<in> covers s" for s k
    proof -
      have "k < Key prev" using Cons.prems(4) that by (auto simp: separated_def sorted_wrt_append)
      then show ?thesis using ok(2) by (rule order.strict_trans2)
    qed
    then have "separated ((r @ [prev]) @ [cur])"
      using Cons.prems(4) 2(1) by (auto simp: separated_def sorted_wrt_append)
    then have "case MergeSpans_loop (r @ [prev]) cur dst rest of (res, d) \<Rightarrow>
        covers_all res = covers_all (r @ [prev]) \<union> covers cur \<union> covers_all rest \<and> separated res \<and>
        (d \<longleftrightarrow> dst \<and> disjoint_spans (cur # rest)) \<and> length res \<le> length (r @ [prev]) + 1 + length rest"
      using Cons.prems ok(1) by (intro Cons.IH) auto
    moreover have "covers prev \<inter> covers t = {}" if "t \<in> set (cur # rest)" for t
    proof -
      have "Key cur \<le> Key t" using that Cons.prems(3) by auto
      then have "k \<in> covers t \<Longrightarrow> Key cur \<le> k" for k using covers_ge_key order_trans by blast
      then show ?thesis using 2(1) by (auto simp: not_le [symmetric])
    qed
    then have "disjoint_spans (prev # cur # rest) \<longleftrightarrow> disjoint_spans (cur # rest)"
      by (simp add: disjoint_spans_def)
    ultimately show ?thesis unfolding 2(2) by (simp add: Un_assoc split_beta)
  qed
qed

lemma disjoint_spans_count:
  "disjoint_spans xs \<longleftrightarrow> (\<forall>k. length (filter (\<lambda>s. k \<in> covers s) xs) \<le> 1)"
proof (induction xs)
  case (Cons x xs)
  have "(\<forall>k. length (filter (\<lambda>s. k \<in> covers s) (x # xs)) \<le> 1) \<longleftrightarrow>
      (\<forall>k. length (filter (\<lambda>s. k \<in> covers s) xs) \<le> 1) \<and> (\<forall>t\<in>set xs. covers x \<inter> covers t = {})"
    (is "?l \<longleftrightarrow> ?r")
  proof
    assume l: ?l
    have "length (filter (\<lambda>s. k \<in> covers s) xs) \<le> 1" for k using spec [OF l, of k] by (auto split: if_splits)
    moreover have "filter (\<lambda>s. k \<in> covers s) xs = []" if "k \<in> covers x" for k
      using spec [OF l, of k] that by simp
    then have "\<forall>t\<in>set xs. covers x \<inter> covers t = {}" by (auto simp: filter_empty_conv)
    ultimately show ?r by blast
  next
    assume r: ?r
    then have "filter (\<lambda>s. k \<in> covers s) xs = []" if "k \<in> covers x" for k
      using that by (auto simp: filter_empty_conv)
    then show ?l using r by auto
  qed
  then show ?case using Cons by (auto simp: disjoint_spans_def)
qed (simp add: disjoint_spans_def)

lemma disjoint_spans_perm: "mset xs = mset ys \<Longrightarrow> disjoint_spans xs \<longleftrightarrow> disjoint_spans ys"
  by (simp add: disjoint_spans_count) (metis mset_filter size_mset)

lemma covers_all_perm: "mset xs = mset ys \<Longrightarrow> covers_all xs = covers_all ys"
  unfolding covers_all_def by (drule mset_eq_setD) simp

section \<open>Subtracting\<close>

definition is_range :: "Span \<Rightarrow> bool" where
  "is_range s \<longleftrightarrow> EndKey s \<noteq> None \<and> Key s < endk s"

definition apart :: "Span list \<Rightarrow> bool" where
  "apart = sorted_wrt (\<lambda>s t. endk s \<le> Key t)"

lemma is_range_less: "is_range s \<Longrightarrow> Key s < endk s"
  by (simp add: is_range_def)

lemma is_range_covers: "is_range s \<Longrightarrow> covers s = {k. Key s \<le> k \<and> k < endk s}"
  using endk_gt_nonempty covers_range by (auto simp: is_range_def)

lemma appendRemaining_correct:
  assumes "list_all is_range rem" "is_range s" "apart (rem @ s # ts)"
  shows "covers_all (appendRemaining rem s) = covers_all rem \<union> covers s"
    and "list_all is_range (appendRemaining rem s)" and "apart (appendRemaining rem s @ ts)"
proof -
  have "covers_all (appendRemaining rem s) = covers_all rem \<union> covers s \<and> list_all is_range (appendRemaining rem s) \<and>
      apart (appendRemaining rem s @ ts)"
  proof (cases "rem \<noteq> [] \<and> endk (last rem) = Key s")
    case True
    then obtain init l where rem: "rem = init @ [l]" "endk l = Key s" by (cases rem rule: rev_cases) auto
    let ?l = "l\<lparr>EndKey := EndKey s\<rparr>"
    have l: "is_range l" "is_range ?l" "endk ?l = endk s" using assms(1,2) rem by (auto simp: is_range_def endk_def)
    have lt: "Key l < Key s" "Key s < endk s" using l(1) rem(2) assms(2) by (simp_all add: is_range_def)
    have "covers ?l = covers l \<union> covers s"
      unfolding is_range_covers [OF l(1)] is_range_covers [OF l(2)] is_range_covers [OF assms(2)] l(3) rem(2)
      using lt by auto
    moreover have "appendRemaining rem s = init @ [?l]" using True by (simp add: appendRemaining_def rem)
    moreover have "apart (init @ ?l # ts)"
      using assms(3) l(3) rem(1) by (auto simp: apart_def sorted_wrt_append simp del: endk_update)
    ultimately show ?thesis using assms(1) l(2) by (simp add: rem(1) Un_assoc)
  next
    case False
    then have "appendRemaining rem s = rem @ [s]" by (auto simp: appendRemaining_def)
    then show ?thesis using assms by simp
  qed
  then show "covers_all (appendRemaining rem s) = covers_all rem \<union> covers s"
    "list_all is_range (appendRemaining rem s)" "apart (appendRemaining rem s @ ts)" by simp_all
qed

lemma range_disjoint:
  "is_range s \<Longrightarrow> is_range t \<Longrightarrow> endk s \<le> Key t \<Longrightarrow> covers s \<inter> covers t = {}"
  by (auto simp: is_range_covers)

lemma done_after:
  assumes "list_all is_range dn" "is_range t" "\<forall>d\<in>set dn. endk t \<le> Key d"
  shows "covers t \<inter> covers_all dn = {}"
  using assms range_disjoint [of t] by (fastforce simp: covers_all_def list_all_iff)

lemma todo_after:
  assumes "list_all is_range todo" "is_range d" "\<forall>t\<in>set todo. endk d \<le> Key t"
  shows "covers_all todo \<inter> covers d = {}"
  using assms range_disjoint [of d] by (fastforce simp: covers_all_def list_all_iff)

definition subtracts :: "Span list \<Rightarrow> Span list \<Rightarrow> Span list \<Rightarrow> Span list \<Rightarrow> bool" where
  "subtracts todo dn rem out \<longleftrightarrow>
     covers_all out = covers_all rem \<union> (covers_all todo - covers_all dn) \<and> list_all is_range out \<and> apart out"

lemma covers_all_ge: "list_all is_range ss \<Longrightarrow> \<forall>s\<in>set ss. b \<le> Key s \<Longrightarrow> k \<in> covers_all ss \<Longrightarrow> b \<le> k"
  using covers_ge_key order_trans by (fastforce simp: covers_all_def)

text \<open>A subtracted span that overlaps the first span to do: what is left of it before and after.\<close>

lemma SubtractSpans_overlap:
  fixes t d :: Span and todo dn rem :: "Span list"
  defines "rem' \<equiv> (if bytes_Compare (Key d) (Key t) \<le> 0 then rem
      else appendRemaining rem \<lparr>Key = Key t, EndKey = Some (Key d)\<rparr>)"
  assumes r: "list_all is_range rem" "list_all is_range (t # todo)" "list_all is_range (d # dn)"
    and a: "apart (rem @ t # todo)" and srt: "sorted (map Key (d # dn))"
    and ov: "Key d < endk t" "Key t < endk d"
  shows "list_all is_range rem'" and "apart (rem' @ todo)"
    and "endk d < endk t \<Longrightarrow> apart (rem' @ t\<lparr>Key := endk d\<rparr> # todo)"
    and "covers_all rem' = covers_all rem \<union> {k \<in> covers t. k < Key d}"
    and "{k \<in> covers t. k < Key d} \<inter> covers_all (d # dn) = {}"
proof -
  have t: "is_range t" "Key t < endk t" and d: "is_range d" "Key d < endk d" using r by (simp_all add: is_range_def)
  have ct: "covers t = {k. Key t \<le> k \<and> k < endk t}" using t(1) by (rule is_range_covers)
  have at: "\<forall>s\<in>set rem. endk s \<le> Key t" "apart todo" "\<forall>u\<in>set todo. endk t \<le> Key u" "apart (rem @ todo)"
    using a by (auto simp: apart_def sorted_wrt_append)
  have key: "list_all is_range rem' \<and> apart (rem' @ ts) \<and> covers_all rem' = covers_all rem \<union> {k \<in> covers t. k < Key d}"
    if ts: "apart (rem @ ts)" "\<forall>u\<in>set ts. Key d \<le> Key u" for ts
  proof (cases "Key d \<le> Key t")
    case True
    then show ?thesis using r(1) ts(1) by (auto simp: rem'_def ct)
  next
    case False
    let ?p = "\<lparr>Key = Key t, EndKey = Some (Key d)\<rparr>"
    have p: "is_range ?p" using False by (simp add: is_range_def)
    have "apart (rem @ ?p # ts)" using ts at(1) by (auto simp: apart_def sorted_wrt_append)
    from appendRemaining_correct [OF r(1) p this] show ?thesis
      using False ov(1) is_range_covers [OF p] by (auto simp: rem'_def ct)
  qed
  have o1: "Key d \<le> Key u" if "u \<in> set todo" for u
    using at(3) that ov(1) by (meson less_imp_le order_trans)
  show "list_all is_range rem'" "apart (rem' @ todo)" "covers_all rem' = covers_all rem \<union> {k \<in> covers t. k < Key d}"
    using key [OF at(4)] o1 by simp_all
  show "apart (rem' @ t\<lparr>Key := endk d\<rparr> # todo)" if "endk d < endk t"
  proof -
    have "apart (rem @ t\<lparr>Key := endk d\<rparr> # todo)"
      using a ov(2) by (auto simp: apart_def sorted_wrt_append intro: order_trans less_imp_le)
    then show ?thesis using key [of "t\<lparr>Key := endk d\<rparr> # todo"] o1 d(2) by simp
  qed
  have "\<forall>e\<in>set (d # dn). Key d \<le> Key e" using srt by simp
  then have "Key d \<le> k" if "k \<in> covers_all (d # dn)" for k using covers_all_ge [OF r(3)] that by blast
  then show "{k \<in> covers t. k < Key d} \<inter> covers_all (d # dn) = {}" by (auto simp: not_le [symmetric])
qed

lemma SubtractSpans_loop_correct:
  "list_all is_range rem \<Longrightarrow> list_all is_range todo \<Longrightarrow> list_all is_range dn \<Longrightarrow> apart (rem @ todo) \<Longrightarrow>
   sorted (map Key dn) \<Longrightarrow> subtracts todo dn rem (SubtractSpans_loop todo dn rem)"
proof (induction todo dn rem rule: SubtractSpans_loop.induct)
  case (3 t todo d dn rem)
  note prems = "3.prems"
  have t: "is_range t" "Key t < endk t" "list_all is_range todo" and d: "is_range d" "Key d < endk d" "list_all is_range dn"
    and sd: "sorted (map Key dn)" "\<forall>e\<in>set (d # dn). Key d \<le> Key e"
    using prems by (simp_all add: is_range_less)
  have at: "\<forall>u\<in>set todo. endk t \<le> Key u" "apart (rem @ todo)" using prems(4) by (auto simp: apart_def sorted_wrt_append)
  have ct: "covers t = {k. Key t \<le> k \<and> k < endk t}" and cd: "covers d = {k. Key d \<le> k \<and> k < endk d}"
    using t(1) d(1) by (simp_all add: is_range_covers)
  consider (before) "endk t \<le> Key d" | (after) "\<not> endk t \<le> Key d" "endk d \<le> Key t"
    | (overlap) "Key d < endk t" "Key t < endk d" using not_le by blast
  then show ?case
  proof cases
    case before
    have "covers t \<inter> covers_all (d # dn) = {}"
      using sd(2) before t(1) prems(3) by (intro done_after) (auto intro: order_trans)
    moreover have "subtracts todo (d # dn) (appendRemaining rem t) (SubtractSpans_loop todo (d # dn) (appendRemaining rem t))"
      using before t(2,3) prems appendRemaining_correct [OF prems(1) t(1) prems(4)]
      by (intro "3.IH"(2)) auto
    ultimately show ?thesis
      using before t(2) appendRemaining_correct(1) [OF prems(1) t(1) prems(4)] by (auto simp: subtracts_def)
  next
    case after
    have "covers_all (t # todo) \<inter> covers d = {}"
      using after at(1) t(2) d(1) prems(2) by (intro todo_after) (auto intro: order_trans less_imp_le)
    moreover have "subtracts (t # todo) dn rem (SubtractSpans_loop (t # todo) dn rem)"
      using after t(2) prems sd d(3) by (intro "3.IH"(3)) auto
    ultimately show ?thesis using after t(2) by (auto simp: subtracts_def)
  next
    case overlap
    note rest = SubtractSpans_overlap [OF prems(1,2,3,4,5) overlap]
    define rem' where "rem' = (if bytes_Compare (Key d) (Key t) \<le> 0 then rem
      else appendRemaining rem \<lparr>Key = Key t, EndKey = Some (Key d)\<rparr>)"
    note rest = rest [folded rem'_def]
    let ?t = "t\<lparr>Key := endk d\<rparr>"
    have guards: "Key t \<noteq> endk t" "\<not> 0 \<le> bytes_Compare (Key d) (endk t)" "\<not> bytes_Compare (endk d) (Key t) \<le> 0"
      using t(2) overlap by simp_all
    have todo_d: "covers_all todo \<inter> covers d = {}" if "endk d \<le> endk t"
      using that at(1) d(1) t(3) by (intro todo_after) (auto intro: order_trans)
    have loop: "SubtractSpans_loop (t # todo) (d # dn) rem =
        (if endk d < endk t then SubtractSpans_loop (?t # todo) dn rem'
         else if endk t < endk d then SubtractSpans_loop todo (d # dn) rem' else SubtractSpans_loop todo dn rem')"
      using guards by (simp add: rem'_def Let_def)
    have out: "covers t - covers d = {k \<in> covers t. k < Key d} \<union> {k \<in> covers t. endk d \<le> k}"
      by (auto simp: cd not_le)
    consider (less) "endk d < endk t" | (more) "endk t < endk d" | (same) "endk d = endk t" using less_linear by blast
    then show ?thesis
    proof cases
      case less
      have r: "is_range ?t" using t(1) less by (simp add: is_range_def)
      have "subtracts (?t # todo) dn rem' (SubtractSpans_loop (?t # todo) dn rem')"
        using r rest(1,3) t(3) d(3) sd(1) less
        by (intro "3.IH"(4) [OF guards refl rem'_def]) (auto simp: rem'_def)
      moreover have "covers ?t = {k \<in> covers t. endk d \<le> k}"
        using overlap less by (auto simp: is_range_covers [OF r] ct)
      ultimately show ?thesis
        using rest(4,5) todo_d [OF less_imp_le [OF less]] less out unfolding loop subtracts_def covers_all_simps
        by (simp only: if_True) blast
    next
      case more
      have "subtracts todo (d # dn) rem' (SubtractSpans_loop todo (d # dn) rem')"
        using rest(1,2) t(3) prems(3,5) more
        by (intro "3.IH"(5) [OF guards refl rem'_def]) (auto simp: rem'_def)
      moreover have "{k \<in> covers t. endk d \<le> k} = {}" "\<not> endk d < endk t" using more by (auto simp: ct)
      ultimately show ?thesis
        using rest(4,5) more out unfolding loop subtracts_def covers_all_simps
        by (simp only: if_True if_False) blast
    next
      case same
      have "subtracts todo dn rem' (SubtractSpans_loop todo dn rem')"
        using rest(1,2) t(3) d(3) sd(1) same
        by (intro "3.IH"(6) [OF guards refl rem'_def]) (auto simp: rem'_def)
      moreover have "{k \<in> covers t. endk d \<le> k} = {}" "\<not> endk d < endk t" "\<not> endk t < endk d"
        using same by (auto simp: ct)
      ultimately show ?thesis
        using rest(4,5) todo_d [OF eq_refl [OF same]] out unfolding loop subtracts_def covers_all_simps
        by (simp only: if_True if_False) blast
    qed
  qed
qed (simp_all add: subtracts_def)

section \<open>Spans as sets of keys\<close>

lemma common_key:
  assumes "Span_Valid s" "Span_Valid t" "endk s \<noteq> []" "endk t \<noteq> []" "Key t < endk s" "Key s < endk t"
  shows "max (Key s) (Key t) \<in> covers s \<inter> covers t"
  using assms by (auto simp: Span_Valid_iff covers_range max_def)

lemma Span_Overlaps_iff:
  assumes "Span_Valid s" "Span_Valid t"
  shows "Span_Overlaps s t \<longleftrightarrow> covers s \<inter> covers t \<noteq> {}"
proof (cases "endk s = [] \<or> endk t = []")
  case True
  then show ?thesis using assms by (auto simp: Span_Overlaps_def Span_Valid_iff covers_range covers_point)
next
  case False
  then have "Span_Overlaps s t \<longleftrightarrow> Key t < endk s \<and> Key s < endk t" using assms by (simp add: Span_Overlaps_def)
  moreover have "Key t < endk s \<and> Key s < endk t" if "covers s \<inter> covers t \<noteq> {}"
    using that False by (auto simp: covers_range)
  ultimately show ?thesis using False common_key [OF assms] by blast
qed

lemma Span_Intersect_covers:
  assumes "Span_Valid s" "Span_Valid t"
  shows "covers (Span_Intersect s t) = covers s \<inter> covers t"
proof (cases "Span_Overlaps s t")
  case True
  then show ?thesis
  proof (cases "endk s = [] \<or> endk t = []")
    case c: True
    then show ?thesis using True assms Span_Overlaps_iff [OF assms] by (auto simp: Span_Intersect_def Span_Valid_iff covers_point)
  next
    case False
    let ?i = "Span_Intersect s t"
    have "Key ?i = max (Key s) (Key t)" "endk ?i = min (endk s) (endk t)"
      using True False by (auto simp: Span_Intersect_def max_def min_def endk_cases)
    moreover have "endk ?i \<noteq> []" using False calculation(2) by (auto simp: min_def)
    ultimately show ?thesis using False by (auto simp: covers_range)
  qed
qed (use Span_Overlaps_iff [OF assms] in \<open>simp add: Span_Intersect_def\<close>)

lemma Span_Contains_iff:
  assumes "Span_Valid s" "Span_Valid t"
  shows "Span_Contains s t \<longleftrightarrow> covers t \<subseteq> covers s \<and> \<not> (endk s = [] \<and> endk t \<noteq> [])"
proof (cases "endk s = [] \<or> endk t = []")
  case True
  then show ?thesis using assms by (auto simp: Span_Contains_def Span_Valid_iff covers_range covers_point)
next
  case False
  have "Key t \<in> covers t" using assms False by (simp add: Span_Valid_iff covers_range)
  moreover have "endk s \<in> covers t" if "Key t < endk s" "endk s < endk t" using that False by (simp add: covers_range)
  ultimately have "covers t \<subseteq> covers s \<longleftrightarrow> Key s \<le> Key t \<and> endk t \<le> endk s"
    using False by (auto simp: covers_range not_less [symmetric])
  then show ?thesis using False assms by (simp add: Span_Contains_def)
qed

lemma Span_SplitOnKey_covers:
  "case Span_SplitOnKey s k of (l, r) \<Rightarrow>
      covers l \<union> covers r = covers s \<and> covers l \<inter> covers r = {} \<and>
      (Span_ProperlyContainsKey s k \<longrightarrow> covers l = {x \<in> covers s. x < k} \<and> covers r = {x \<in> covers s. k \<le> x})"
proof (cases "Key s < k \<and> k < endk s")
  case True
  then have ne: "endk s \<noteq> []" "k \<noteq> []" by auto
  have r: "endk \<lparr>Key = k, EndKey = EndKey s\<rparr> = endk s" by (simp add: endk_cases)
  have "covers \<lparr>Key = k, EndKey = EndKey s\<rparr> = {x. k \<le> x \<and> x < endk s}"
    using ne covers_range [of "\<lparr>Key = k, EndKey = EndKey s\<rparr>"] by (simp add: r del: endk_update)
  moreover have "covers \<lparr>Key = Key s, EndKey = Some k\<rparr> = {x. Key s \<le> x \<and> x < k}"
    using ne by (simp add: covers_range)
  moreover have "covers s = {x. Key s \<le> x \<and> x < endk s}" using ne by (simp add: covers_range)
  moreover have "Span_SplitOnKey s k = (\<lparr>Key = Key s, EndKey = Some k\<rparr>, \<lparr>Key = k, EndKey = EndKey s\<rparr>)"
  proof -
    have "\<not> (k \<le> Key s \<or> endk s \<le> k)" using True by (auto simp: not_le)
    then show ?thesis by (simp only: Span_SplitOnKey_def bytes_Compare_simps if_False)
  qed
  ultimately show ?thesis using True by auto
qed (auto simp: Span_SplitOnKey_def Span_ProperlyContainsKey_def)

section \<open>Properties\<close>

text \<open>
  The span predicates and operations are what they mean on sets of keys: two valid spans overlap
  when they share a key, their intersection covers exactly the shared keys, one contains another
  when it covers its keys (a point span never contains a range span, even one of a single key), and
  splitting a span at a key inside it partitions its keys.
\<close>

theorem span_algebra:
  assumes "Span_Valid s" and "Span_Valid t"
  shows "(Span_Overlaps s t \<longleftrightarrow> covers s \<inter> covers t \<noteq> {}) \<and>
    covers (Span_Intersect s t) = covers s \<inter> covers t \<and>
    (Span_Contains s t \<longleftrightarrow> covers t \<subseteq> covers s \<and> \<not> (endk s = [] \<and> endk t \<noteq> [])) \<and>
    (case Span_SplitOnKey s k of (l, r) \<Rightarrow>
       covers l \<union> covers r = covers s \<and> covers l \<inter> covers r = {} \<and>
       (Span_ProperlyContainsKey s k \<longrightarrow> covers l = {x \<in> covers s. x < k} \<and> covers r = {x \<in> covers s. k \<le> x}))"
  using Span_Overlaps_iff [OF assms] Span_Intersect_covers [OF assms] Span_Contains_iff [OF assms]
    Span_SplitOnKey_covers [of s k] by simp

theorem span_algebra_witness:
  "Span_Overlaps \<lparr>Key = [1], EndKey = Some [4]\<rparr> \<lparr>Key = [2], EndKey = None\<rparr> \<and>
   \<not> Span_Contains \<lparr>Key = [1], EndKey = None\<rparr> \<lparr>Key = [1], EndKey = Some [1, 0]\<rparr>"
proof -
  have v: "Span_Valid \<lparr>Key = [1], EndKey = Some [4]\<rparr>" "Span_Valid \<lparr>Key = [2], EndKey = None\<rparr>"
    "Span_Valid \<lparr>Key = [1], EndKey = None\<rparr>" "Span_Valid \<lparr>Key = [1], EndKey = Some [1, 0]\<rparr>"
    by (simp_all add: Span_Valid_iff)
  have "[2] \<in> covers \<lparr>Key = [1], EndKey = Some [4]\<rparr> \<inter> covers \<lparr>Key = [2], EndKey = None\<rparr>"
    by (simp add: covers_range covers_point)
  then show ?thesis
    using span_algebra [OF v(1,2), of "[]"] span_algebra [OF v(3,4), of "[]"] by auto
qed

text \<open>
  \<open>MergeSpans\<close> keeps exactly the keys of its input and returns them as strictly
  separated spans in key order, and it reports \<open>true\<close> exactly when no key was covered by two
  of the input spans.
\<close>

theorem MergeSpans_correct:
  assumes "\<forall>s\<in>set spans. span_ok s"
  shows "case MergeSpans spans of (out, dst) \<Rightarrow>
    covers_all out = covers_all spans \<and> separated out \<and> length out \<le> length spans \<and>
    (dst \<longleftrightarrow> (\<forall>k. length (filter (\<lambda>s. k \<in> covers s) spans) \<le> 1))"
proof (cases "sort_key sortedSpans_key spans")
  case Nil
  then have "spans = []" by (metis length_sort length_0_conv)
  then show ?thesis by (simp add: MergeSpans_def separated_def)
next
  case (Cons s rest)
  have m: "mset (s # rest) = mset spans" using Cons by (metis mset_sort)
  have "sorted (map sortedSpans_key (s # rest))" using Cons by (metis sorted_sort_key)
  then have srt: "sorted (map Key rest)" "\<forall>t\<in>set rest. Key s \<le> Key t"
    by (auto simp: sorted_map sorted_wrt_map sortedSpans_key_def intro: sorted_wrt_mono_rel [rotated])
  have "set (s # rest) = set spans" using m by (metis set_mset_mset)
  then have ok: "span_ok s" "\<forall>t\<in>set rest. span_ok t \<and> Key s \<le> Key t" using assms srt(2) by auto
  have len: "length spans = Suc (length rest)" using m by (metis length_Cons size_mset)
  show ?thesis
    using MergeSpans_loop_correct [OF ok srt(1), of "[]" True] covers_all_perm [OF m] disjoint_spans_perm [OF m] len
    by (simp add: MergeSpans_def Cons separated_def disjoint_spans_count split_beta)
qed

theorem MergeSpans_correct_witness:
  "covers_all (fst (MergeSpans [\<lparr>Key = [3], EndKey = None\<rparr>, \<lparr>Key = [1], EndKey = Some [3]\<rparr>])) =
   covers_all [\<lparr>Key = [3], EndKey = None\<rparr>, \<lparr>Key = [1], EndKey = Some [3]\<rparr>]"
proof -
  have "\<forall>s\<in>set [\<lparr>Key = [3], EndKey = None\<rparr>, \<lparr>Key = [1], EndKey = Some [3]\<rparr>]. span_ok s"
    by (simp add: span_ok_def Span_Valid_iff)
  from MergeSpans_correct [OF this] show ?thesis by (simp only: split_beta)
qed

text \<open>
  \<open>SubtractSpans\<close> returns disjoint spans in key order that cover exactly the keys of the
  minuend that the subtrahend does not, when the spans of the minuend do not overlap.
\<close>

theorem SubtractSpans_correct:
  assumes "\<forall>s\<in>set todo. is_range s" and "\<forall>s\<in>set dn. is_range s" and "apart (sort_key Key todo)"
  shows "covers_all (SubtractSpans todo dn) = covers_all todo - covers_all dn \<and>
    (dn \<noteq> [] \<longrightarrow> apart (SubtractSpans todo dn))"
proof (cases "dn = []")
  case False
  have "subtracts (sort_key Key todo) (sort_key Key dn) [] (SubtractSpans_loop (sort_key Key todo) (sort_key Key dn) [])"
    using assms by (intro SubtractSpans_loop_correct) (simp_all add: list_all_iff)
  moreover have "covers_all (sort_key Key xs) = covers_all xs" for xs by (rule covers_all_perm) simp
  ultimately show ?thesis using False by (simp add: SubtractSpans_def subtracts_def)
qed (simp add: SubtractSpans_def)

theorem SubtractSpans_correct_witness:
  "covers_all (SubtractSpans [\<lparr>Key = [0], EndKey = Some [9]\<rparr>] [\<lparr>Key = [4], EndKey = Some [5]\<rparr>]) =
   covers_all [\<lparr>Key = [0], EndKey = Some [9]\<rparr>] - covers_all [\<lparr>Key = [4], EndKey = Some [5]\<rparr>]"
  by (rule SubtractSpans_correct [THEN conjunct1]) (simp_all add: is_range_def apart_def)

lemma MergeSpans_empty_end_loses_key:
  "covers_all (fst (MergeSpans [\<lparr>Key = [1], EndKey = Some [2]\<rparr>, \<lparr>Key = [2], EndKey = Some []\<rparr>])) =
   {k. [1] \<le> k \<and> k < [2 :: byte]}"
  by (simp add: MergeSpans_def sortedSpans_key_def Let_def covers_range)

end
