(* ===== verification/Sql_Keys.thy ===== *)
theory Sql_Keys
  imports Roachpb_Span
begin

text \<open>
  The SQL keyspace, \<open>pkg/keys/sql.go\<close>, and the row keys of \<open>pkg/keys/keys.go\<close>:
  tenant prefixes, the actor-scoped prefixes under which the data of an actor and the entries of
  a Durable Object live, table and index prefixes, column families and safe split keys.
  \<open>sha256.Sum256\<close> is the argument \<open>sha\<close>; what is proved holds for every function with
  32-byte results. A codec's \<open>buf\<close> and \<open>endKey\<close> are pointers to immutable keys and are
  modelled by the keys.
\<close>

section \<open>Tenants\<close>

record TenantID =
  InternalValue :: uint64

definition checkValid :: "uint64 \<Rightarrow> unit res" where
  "checkValid tid = (if tid = 0 then Inl (Err ''invalid tenant ID 0'') else Inr ())"

definition assertValid :: "uint64 \<Rightarrow> unit res" where
  "assertValid tid = (case checkValid tid of Inl _ \<Rightarrow> Inl (Panic ''invalid tenant ID 0'') | Inr _ \<Rightarrow> Inr ())"

definition MustMakeTenantID :: "uint64 \<Rightarrow> TenantID res" where
  "MustMakeTenantID tid = res_bind (assertValid tid) (\<lambda>_. Inr \<lparr>InternalValue = tid\<rparr>)"

definition MakeTenantID :: "uint64 \<Rightarrow> TenantID res" where
  "MakeTenantID tid = res_bind (checkValid tid) (\<lambda>_. Inr \<lparr>InternalValue = tid\<rparr>)"

definition TenantID_ToUint64 :: "TenantID \<Rightarrow> uint64 res" where
  "TenantID_ToUint64 t = res_bind (assertValid (InternalValue t)) (\<lambda>_. Inr (InternalValue t))"

definition SystemTenantID :: TenantID where "SystemTenantID = \<lparr>InternalValue = 1\<rparr>"
definition MinTenantID :: TenantID where "MinTenantID = \<lparr>InternalValue = 2\<rparr>"
definition MaxTenantID :: TenantID where "MaxTenantID = \<lparr>InternalValue = - 1 - 1\<rparr>"

definition tenantPrefixByte :: byte where "tenantPrefixByte = 0xfe"
definition TenantPrefix :: bytes where "TenantPrefix = [tenantPrefixByte]"

definition MakeTenantPrefix :: "TenantID \<Rightarrow> bytes res" where
  "MakeTenantPrefix tenID =
     (if tenID = SystemTenantID then Inr []
      else res_bind (TenantID_ToUint64 tenID) (\<lambda>tid. Inr (EncodeUvarintAscending TenantPrefix tid)))"

definition MakeTenantSpan :: "TenantID \<Rightarrow> Span res" where
  "MakeTenantSpan tenID =
     (if tenID = SystemTenantID then Inr \<lparr>Key = KeyMin, EndKey = Some KeyMax\<rparr>
      else res_bind (TenantID_ToUint64 tenID) (\<lambda>tenIDint.
        Inr \<lparr>Key = EncodeUvarintAscending TenantPrefix tenIDint,
             EndKey = Some (EncodeUvarintAscending TenantPrefix (tenIDint + 1))\<rparr>))"

definition DecodeTenantPrefix :: "bytes \<Rightarrow> (bytes \<times> TenantID) res" where
  "DecodeTenantPrefix key =
     (if key = [] then Inr ([], SystemTenantID)
      else if hd key \<noteq> tenantPrefixByte then Inr (key, SystemTenantID)
      else res_bind (DecodeUvarintAscending (tl key)) (\<lambda>(rem, tenID).
             res_bind (MakeTenantID tenID) (\<lambda>tid. Inr (rem, tid))))"

text \<open>The function \<open>StripTenantPrefix\<close>; the method of that name is \<open>SQLCodec_StripTenantPrefix\<close>.\<close>

definition StripTenantPrefix :: "bytes \<Rightarrow> bytes res" where
  "StripTenantPrefix key =
     (if key = [] then Inr []
      else if hd key \<noteq> tenantPrefixByte then Inr key
      else res_bind (DecodeUvarintAscending (tl key)) (\<lambda>(rem, _). Inr rem))"

section \<open>Actor prefixes\<close>

definition ActorPrefixByte :: byte where "ActorPrefixByte = 0xfb"
definition ActorHashLen :: nat where "ActorHashLen = 16"
definition actorPlacementLen :: nat where "actorPlacementLen = 12"
definition DOKVTableID :: uint64 where "DOKVTableID = 51"

definition ActorHash :: "(bytes \<Rightarrow> bytes) \<Rightarrow> bytes \<Rightarrow> bytes" where
  "ActorHash sha name = take ActorHashLen (sha name)"

definition ActorClassHash :: "(bytes \<Rightarrow> bytes) \<Rightarrow> bytes \<Rightarrow> bytes \<Rightarrow> bytes" where
  "ActorClassHash sha cls name =
     (let placementSum = sha name; identitySum = sha (cls @ [0x3a] @ name)
      in take actorPlacementLen placementSum @ take (ActorHashLen - actorPlacementLen) identitySum)"

definition MakeActorPrefix :: "(bytes \<Rightarrow> bytes) \<Rightarrow> bytes \<Rightarrow> bytes \<Rightarrow> bytes" where
  "MakeActorPrefix sha tenantPrefix actorName = (tenantPrefix @ [ActorPrefixByte]) @ ActorHash sha actorName"

definition MakeActorPrefixFromHash :: "bytes \<Rightarrow> bytes \<Rightarrow> bytes" where
  "MakeActorPrefixFromHash tenantPrefix hash = (tenantPrefix @ [ActorPrefixByte]) @ hash"

definition MakeDOKVPrefix :: "bytes \<Rightarrow> bytes \<Rightarrow> bytes" where
  "MakeDOKVPrefix tenantPrefix actorHash =
     (let k = MakeActorPrefixFromHash tenantPrefix actorHash;
          k = EncodeUvarintAscending k DOKVTableID
      in EncodeUvarintAscending k 1)"

definition MakeDOKVKey :: "bytes \<Rightarrow> bytes \<Rightarrow> bytes \<Rightarrow> bytes" where
  "MakeDOKVKey tenantPrefix actorHash userKey =
     (let k = MakeActorPrefixFromHash tenantPrefix actorHash;
          k = EncodeUvarintAscending k DOKVTableID;
          k = EncodeUvarintAscending k 1
      in EncodeBytesAscending k userKey)"

definition DecodeActorPrefix :: "bytes \<Rightarrow> (bytes \<times> bytes) res" where
  "DecodeActorPrefix key =
     (if key = [] \<or> hd key \<noteq> ActorPrefixByte then Inr (key, replicate ActorHashLen 0)
      else if length key < 1 + ActorHashLen then Inl (Err ''malformed actor prefix'')
      else Inr (drop (1 + ActorHashLen) key, take ActorHashLen (tl key)))"

text \<open>The boolean result is the option.\<close>

definition ActorPrefixFromKey :: "bytes \<Rightarrow> bytes option res" where
  "ActorPrefixFromKey key =
     res_bind (DecodeTenantPrefix key) (\<lambda>(rem, tenID).
       if rem = [] \<or> hd rem \<noteq> ActorPrefixByte then Inr None
       else if length rem < 1 + ActorHashLen then Inl (Err ''malformed actor prefix'')
       else res_bind (MakeTenantPrefix tenID) (\<lambda>prefix. Inr (Some (prefix @ take (1 + ActorHashLen) rem))))"

definition ActorSpanFromKey :: "bytes \<Rightarrow> Span option res" where
  "ActorSpanFromKey key =
     res_bind (ActorPrefixFromKey key) (\<lambda>p.
       case p of None \<Rightarrow> Inr None
       | Some prefix \<Rightarrow> Inr (Some \<lparr>Key = prefix, EndKey = Some (PrefixEnd prefix)\<rparr>))"

definition IsInteriorActorSplitKey :: "bytes \<Rightarrow> bool res" where
  "IsInteriorActorSplitKey key =
     res_bind (ActorSpanFromKey key) (\<lambda>s.
       case s of None \<Rightarrow> Inr False
       | Some span \<Rightarrow> Inr (key \<noteq> Key span \<and> key \<noteq> endk span))"

section \<open>Table, index and row keys\<close>

definition StripTablePrefix :: "bytes \<Rightarrow> bytes res" where
  "StripTablePrefix key =
     res_bind (StripTenantPrefix key) (\<lambda>key.
     res_bind (DecodeActorPrefix key) (\<lambda>(key, _).
       if PeekType key \<noteq> T_Int then Inl (Err ''invalid table key prefix'')
       else res_bind (DecodeUvarintAscending key) (\<lambda>(key, _). Inr key)))"

definition StripIndexPrefix :: "bytes \<Rightarrow> bytes res" where
  "StripIndexPrefix key =
     res_bind (StripTablePrefix key) (\<lambda>key.
       if PeekType key \<noteq> T_Int then Inl (Err ''invalid index key prefix'')
       else res_bind (DecodeUvarintAscending key) (\<lambda>(key, _). Inr key))"

definition MakeTableIDIndexID :: "bytes \<Rightarrow> uint32 \<Rightarrow> uint32 \<Rightarrow> bytes" where
  "MakeTableIDIndexID key tableID indexID =
     EncodeUvarintAscending (EncodeUvarintAscending key (ucast tableID)) (ucast indexID)"

definition DecodeTableIDIndexID :: "bytes \<Rightarrow> (bytes \<times> uint32 \<times> uint32) res" where
  "DecodeTableIDIndexID key =
     res_bind (DecodeActorPrefix key) (\<lambda>(key, _).
     res_bind (DecodeUvarintAscending key) (\<lambda>(key, tableID).
     res_bind (DecodeUvarintAscending key) (\<lambda>(key, indexID).
       Inr (key, ucast tableID, ucast indexID))))"

definition MakeFamilyKey :: "bytes \<Rightarrow> uint32 \<Rightarrow> bytes" where
  "MakeFamilyKey key famID =
     (if famID = 0 then EncodeUvarintAscending key 0
      else
        (let size = length key; key = EncodeUvarintAscending key (ucast famID)
         in EncodeUvarintAscending key (word_of_nat (length key - size))))"

definition GetRowPrefixLength :: "bytes \<Rightarrow> int res" where
  "GetRowPrefixLength key =
     (let n = int (length key) in
      case DecodeTenantPrefix key of
        Inl _ \<Rightarrow> Inl (Err ''not a valid table key'')
      | Inr (sqlKey, _) \<Rightarrow>
      (case DecodeActorPrefix sqlKey of
        Inl _ \<Rightarrow> Inl (Err ''not a valid table key'')
      | Inr (sqlKey, _) \<Rightarrow>
          (let sqlN = int (length sqlKey) in
           if PeekType sqlKey \<noteq> T_Int then Inr n
           else res_bind (GetUvarintLen sqlKey) (\<lambda>tableIDLen.
             if PeekType (drop (nat tableIDLen) sqlKey) \<noteq> T_Int then Inr n
             else res_bind (GetUvarintLen (drop (nat tableIDLen) sqlKey)) (\<lambda>indexIDLen.
               if tableIDLen + indexIDLen = sqlN then Inr n
               else
                 (let colFamIDLenByte = drop (nat (sqlN - 1)) sqlKey in
                  if PeekType colFamIDLenByte \<noteq> T_Int then Inl (Err ''not a valid table key'')
                  else res_bind (DecodeUvarintAscending colFamIDLenByte) (\<lambda>(_, colFamIDLen).
                    if colFamIDLen > word_of_int (sqlN - 1) then Inl (Err ''malformed table key'')
                    else Inr (n - sint colFamIDLen - 1))))))))"

definition DecodeFamilyKey :: "bytes \<Rightarrow> uint32 res" where
  "DecodeFamilyKey key =
     res_bind (GetRowPrefixLength key) (\<lambda>n.
       if n \<le> 0 \<or> n \<ge> int (length key) then Inl (Err ''invalid row prefix'')
       else res_bind (DecodeUvarintAscending (drop (nat n) key)) (\<lambda>(_, colFamilyID).
         if uint colFamilyID > 4294967295 then Inl (Err ''row-group ID overflow'')
         else Inr (ucast colFamilyID)))"

definition EnsureSafeSplitKey :: "bytes \<Rightarrow> bytes res" where
  "EnsureSafeSplitKey key = res_bind (GetRowPrefixLength key) (\<lambda>idx. Inr (take (nat idx) key))"

section \<open>The SQL codec\<close>

record SQLCodec =
  buf :: bytes
  endKey :: bytes

definition MakeSQLCodec :: "TenantID \<Rightarrow> SQLCodec res" where
  "MakeSQLCodec tenID =
     res_bind (MakeTenantSpan tenID) (\<lambda>sp. Inr \<lparr>buf = Key sp, endKey = endk sp\<rparr>)"

definition MakeActorSQLCodec :: "(bytes \<Rightarrow> bytes) \<Rightarrow> SQLCodec \<Rightarrow> bytes \<Rightarrow> SQLCodec" where
  "MakeActorSQLCodec sha base actorName =
     (if actorName = [] then base
      else (let k = MakeActorPrefix sha (buf base) actorName in \<lparr>buf = k, endKey = PrefixEnd k\<rparr>))"

definition ForSystemTenant :: "SQLCodec \<Rightarrow> bool" where
  "ForSystemTenant e \<longleftrightarrow> length (buf e) = 0"

definition SQLCodec_TenantID :: "SQLCodec \<Rightarrow> TenantID res" where
  "SQLCodec_TenantID e =
     (case DecodeTenantPrefix (buf e) of Inl _ \<Rightarrow> Inl (Panic ''invalid tenant prefix'') | Inr (_, tenID) \<Rightarrow> Inr tenID)"

definition TenantSpan :: "SQLCodec \<Rightarrow> Span" where
  "TenantSpan e = \<lparr>Key = buf e, EndKey = Some (endKey e)\<rparr>"

definition TablePrefix :: "SQLCodec \<Rightarrow> uint32 \<Rightarrow> bytes" where
  "TablePrefix e tableID = EncodeUvarintAscending (buf e) (ucast tableID)"

definition IndexPrefix :: "SQLCodec \<Rightarrow> uint32 \<Rightarrow> uint32 \<Rightarrow> bytes" where
  "IndexPrefix e tableID indexID = EncodeUvarintAscending (TablePrefix e tableID) (ucast indexID)"

definition DescriptorTableID :: uint32 where "DescriptorTableID = 3"
definition ZonesTableID :: uint32 where "ZonesTableID = 5"
definition TenantsTableID :: uint32 where "TenantsTableID = 8"
definition ZonesTablePrimaryIndexID :: uint32 where "ZonesTablePrimaryIndexID = 1"
definition DescriptorTablePrimaryKeyIndexID :: uint32 where "DescriptorTablePrimaryKeyIndexID = 1"
definition DescriptorTableDescriptorColFamID :: uint32 where "DescriptorTableDescriptorColFamID = 0"
definition TenantsTablePrimaryKeyIndexID :: uint32 where "TenantsTablePrimaryKeyIndexID = 1"

definition SequenceIndexID :: uint32 where "SequenceIndexID = 1"
definition SequenceColumnRowGroupID :: uint32 where "SequenceColumnRowGroupID = 0"

definition DescMetadataPrefix :: "SQLCodec \<Rightarrow> bytes" where
  "DescMetadataPrefix e = IndexPrefix e DescriptorTableID DescriptorTablePrimaryKeyIndexID"

definition DescMetadataKey :: "SQLCodec \<Rightarrow> uint32 \<Rightarrow> bytes" where
  "DescMetadataKey e descID =
     (let k = DescMetadataPrefix e; k = EncodeUvarintAscending k (ucast descID)
      in MakeFamilyKey k DescriptorTableDescriptorColFamID)"

definition TenantMetadataKey :: "SQLCodec \<Rightarrow> TenantID \<Rightarrow> bytes res" where
  "TenantMetadataKey e tenID =
     (let k = IndexPrefix e TenantsTableID TenantsTablePrimaryKeyIndexID
      in res_bind (TenantID_ToUint64 tenID) (\<lambda>tid. Inr (MakeFamilyKey (EncodeUvarintAscending k tid) 0)))"

definition SequenceKey :: "SQLCodec \<Rightarrow> uint32 \<Rightarrow> bytes" where
  "SequenceKey e tableID =
     (let k = IndexPrefix e tableID SequenceIndexID; k = EncodeUvarintAscending k 0
      in MakeFamilyKey k SequenceColumnRowGroupID)"

definition SQLCodec_StripTenantPrefix :: "SQLCodec \<Rightarrow> bytes \<Rightarrow> bytes res" where
  "SQLCodec_StripTenantPrefix d key =
     (if take (length (buf d)) key \<noteq> buf d then Inl (Err ''invalid tenant id prefix'')
      else Inr (drop (length (buf d)) key))"

definition DecodeTablePrefix :: "SQLCodec \<Rightarrow> bytes \<Rightarrow> (bytes \<times> uint32) res" where
  "DecodeTablePrefix d key =
     res_bind (SQLCodec_StripTenantPrefix d key) (\<lambda>key.
     res_bind (DecodeActorPrefix key) (\<lambda>(key, _).
       if PeekType key \<noteq> T_Int then Inl (Err ''invalid key prefix'')
       else res_bind (DecodeUvarintAscending key) (\<lambda>(key, tableID). Inr (key, ucast tableID))))"

definition DecodeIndexPrefix :: "SQLCodec \<Rightarrow> bytes \<Rightarrow> (bytes \<times> uint32 \<times> uint32) res" where
  "DecodeIndexPrefix d key =
     res_bind (DecodeTablePrefix d key) (\<lambda>(key, tableID).
       if PeekType key \<noteq> T_Int then Inl (Err ''invalid key prefix'')
       else res_bind (DecodeUvarintAscending key) (\<lambda>(key, indexID). Inr (key, tableID, ucast indexID)))"

definition DecodeDescMetadataID :: "SQLCodec \<Rightarrow> bytes \<Rightarrow> uint32 res" where
  "DecodeDescMetadataID d key =
     res_bind (DecodeIndexPrefix d key) (\<lambda>(remaining, tableID, _).
       if tableID \<noteq> DescriptorTableID then Inl (Err ''key is not a descriptor table entry'')
       else res_bind (DecodeUvarintAscending remaining) (\<lambda>(_, tid).
         if uint tid > 4294967295 then Inl (Err ''descriptor ID exceeds uint32 bounds'') else Inr (ucast tid)))"

definition DecodeTenantMetadataID :: "SQLCodec \<Rightarrow> bytes \<Rightarrow> TenantID res" where
  "DecodeTenantMetadataID d key =
     res_bind (DecodeIndexPrefix d key) (\<lambda>(remaining, tableID, indexID).
       if tableID \<noteq> TenantsTableID \<or> indexID \<noteq> TenantsTablePrimaryKeyIndexID
       then Inl (Err ''key is not a tenant table entry'')
       else res_bind (DecodeUvarintAscending remaining) (\<lambda>(_, tid). MustMakeTenantID tid))"

definition DecodeZoneConfigMetadataID :: "SQLCodec \<Rightarrow> bytes \<Rightarrow> (bytes \<times> uint32) res" where
  "DecodeZoneConfigMetadataID d key =
     res_bind (DecodeIndexPrefix d key) (\<lambda>(remaining, tableID, indexID).
       if tableID \<noteq> ZonesTableID \<or> indexID \<noteq> ZonesTablePrimaryIndexID
       then Inl (Err ''key is not a zones table entry'')
       else res_bind (DecodeUvarintAscending remaining) (\<lambda>(remaining, tid). Inr (remaining, ucast tid)))"

section \<open>Encoded identifiers\<close>

declare DecodeUvarintAscending.simps [simp del] GetUvarintLen.simps [simp del]

lemma uvarint_tag:
  obtains m r where "EncodeUvarintAscending [] v = m # r" "136 \<le> uint m" "uint m \<le> 253"
    "uint v \<le> 4294967295 \<Longrightarrow> uint m \<le> 249"
proof (cases rule: EncodeUvarintAscending_cases [of v])
  case small
  have "0 \<le> uint v" by simp
  with small show thesis
    by (intro that [of "tag_byte (136 + uint v)" "[]"]) (simp_all add: uint_tag del: uint_ge_0)
next
  case (big n)
  have "n \<le> 4" if "uint v \<le> 4294967295"
  proof (rule ccontr)
    assume "\<not> n \<le> 4"
    then have "256 ^ 4 \<le> low 110 n" using low_mono [of 110 4 n] by simp
    then show False using that big by simp
  qed
  with big show thesis
    by (intro that [of "tag_byte (245 + int n)" "be_bytes n (uint v)"]) (auto simp: tagged_def uint_tag)
qed

lemma PeekType_int_tag: "136 \<le> uint m \<Longrightarrow> uint m \<le> 253 \<Longrightarrow> PeekType (m # r) = T_Int"
  unfolding PeekType_table by (auto simp: marker_defs type_byte_def tag_byte_def int_tags)

lemma PeekType_uvarint [simp]: "PeekType (EncodeUvarintAscending [] v @ rest) = T_Int"
  by (rule uvarint_tag [of v]) (simp add: PeekType_int_tag)

lemma uvarint_Cons_neq [simp]: "EncodeUvarintAscending [] v \<noteq> []"
  by (rule uvarint_tag [of v]) simp

lemma hd_uvarint [simp]: "hd (EncodeUvarintAscending [] v @ rest) \<noteq> 0xfe"
  by (rule uvarint_tag [of v]) auto

lemma uint_ucast32: "uint (ucast (v :: uint32) :: uint64) \<le> 4294967295"
  using uint_bounded [of v] by (simp add: unsigned_ucast_eq take_bit_int_eq_self)

lemma hd_uvarint32 [simp]: "hd (EncodeUvarintAscending [] (ucast (v :: uint32)) @ rest) \<noteq> 0xfb"
  by (rule uvarint_tag [of "ucast v"]) (use uint_ucast32 [of v] in auto)

lemma ucast_ucast32 [simp]: "ucast (ucast (v :: uint32) :: uint64) = v"
  by (rule bit_word_eqI) (auto simp: bit_simps)

lemmas decode_uvarint = uvarint_asc.roundtrip [OF TrueI]

lemma GetUvarintLen_uvarint: "GetUvarintLen (EncodeUvarintAscending [] v @ rest) = Inr (int (length (EncodeUvarintAscending [] v)))"
proof -
  obtain n where n: "GetUvarintLen (EncodeUvarintAscending [] v @ rest) = Inr n" "1 \<le> n"
    "n \<le> int (length (EncodeUvarintAscending [] v @ rest))" "rest = drop (nat n) (EncodeUvarintAscending [] v @ rest)"
    using DecodeUvarintAscending_consumes [OF decode_uvarint [of v rest]] by blast
  have "length rest = length (EncodeUvarintAscending [] v @ rest) - nat n" by (subst n(4)) simp
  then have "nat n = length (EncodeUvarintAscending [] v)" using n(3) by simp
  then show ?thesis using n(1,2) by simp
qed

lemma MakeTenantPrefix_eq:
  "InternalValue t \<noteq> 0 \<Longrightarrow> MakeTenantPrefix t =
     Inr (if t = SystemTenantID then [] else tenantPrefixByte # EncodeUvarintAscending [] (InternalValue t))"
  by (simp add: MakeTenantPrefix_def TenantID_ToUint64_def assertValid_def checkValid_def TenantPrefix_def
      EncodeUvarintAscending_append [of "[_]"])

lemma DecodeTenantPrefix_plain: "r = [] \<or> hd r \<noteq> tenantPrefixByte \<Longrightarrow> DecodeTenantPrefix r = Inr (r, SystemTenantID)"
  by (auto simp: DecodeTenantPrefix_def)

text \<open>Every key of a tenant decodes to the tenant and what follows its prefix.\<close>

lemma DecodeTenantPrefix_tenant:
  assumes "MakeTenantPrefix t = Inr tp" and "InternalValue t \<noteq> 0" and "r \<noteq> []" and "hd r \<noteq> tenantPrefixByte"
  shows "DecodeTenantPrefix (tp @ r) = Inr (r, t)"
proof (cases "t = SystemTenantID")
  case True
  then show ?thesis using assms by (simp add: MakeTenantPrefix_eq DecodeTenantPrefix_plain)
next
  case False
  then have "tp = tenantPrefixByte # EncodeUvarintAscending [] (InternalValue t)"
    using assms(1,2) by (simp add: MakeTenantPrefix_eq)
  then show ?thesis using assms(2)
    by (simp add: DecodeTenantPrefix_def decode_uvarint MakeTenantID_def checkValid_def)
qed

section \<open>Actors\<close>

lemma actor_bytes: "ActorPrefixByte \<noteq> tenantPrefixByte" "ActorPrefixByte \<noteq> 0xff"
  by (simp_all add: ActorPrefixByte_def tenantPrefixByte_def)

definition actor_key :: "bytes \<Rightarrow> bytes \<Rightarrow> bytes \<Rightarrow> bytes" where
  "actor_key tp h r = tp @ ActorPrefixByte # h @ r"

lemma actor_key_prefix: "actor_key tp h r = actor_key tp h [] @ r"
  by (simp add: actor_key_def)

lemma actor_key_not_maximal: "\<not> maximal (actor_key tp h r)"
  using actor_bytes by (simp add: actor_key_def maximal_def)

lemma ActorPrefixFromKey_actor:
  assumes "MakeTenantPrefix t = Inr tp" and "InternalValue t \<noteq> 0" and "length h = ActorHashLen"
  shows "ActorPrefixFromKey (actor_key tp h r) = Inr (Some (actor_key tp h []))"
  using assms DecodeTenantPrefix_tenant [OF assms(1,2), of "ActorPrefixByte # h @ r"] actor_bytes
  by (simp add: ActorPrefixFromKey_def actor_key_def)

lemma actor_key_span: "actor_key tp h [] \<le> k \<and> k < PrefixEnd (actor_key tp h []) \<longleftrightarrow> (\<exists>r. k = actor_key tp h r)"
  using PrefixEnd_range [OF actor_key_not_maximal] actor_key_prefix by metis

text \<open>Keys of different actors are different, within a tenant and across tenants.\<close>

lemma actor_key_inj:
  assumes "MakeTenantPrefix s = Inr sp" "InternalValue s \<noteq> 0" "MakeTenantPrefix t = Inr tp" "InternalValue t \<noteq> 0"
    and "length g = ActorHashLen" "length h = ActorHashLen" "actor_key sp g q = actor_key tp h r"
  shows "s = t \<and> g = h \<and> q = r"
proof -
  have n: "ActorPrefixByte # g @ q \<noteq> []" "hd (ActorPrefixByte # g @ q) \<noteq> tenantPrefixByte"
    "ActorPrefixByte # h @ r \<noteq> []" "hd (ActorPrefixByte # h @ r) \<noteq> tenantPrefixByte" using actor_bytes by simp_all
  have "Inr (ActorPrefixByte # g @ q, s) = (Inr (ActorPrefixByte # h @ r, t) :: (bytes \<times> TenantID) res)"
    using DecodeTenantPrefix_tenant [OF assms(1,2) n(1,2)] DecodeTenantPrefix_tenant [OF assms(3,4) n(3,4)] assms(7)
    by (simp add: actor_key_def)
  then show ?thesis using assms(5,6) by simp
qed

lemma ActorHash_length: "length (sha name) = 32 \<Longrightarrow> length (ActorHash sha name) = ActorHashLen"
  by (simp add: ActorHash_def ActorHashLen_def)

lemma MakeActorPrefix_eq: "MakeActorPrefix sha tp name = actor_key tp (ActorHash sha name) []"
  by (simp add: MakeActorPrefix_def actor_key_def)

lemma MakeDOKVPrefix_eq:
  "MakeDOKVPrefix tp h = actor_key tp h (EncodeUvarintAscending [] DOKVTableID @ EncodeUvarintAscending [] 1)"
  by (simp add: MakeDOKVPrefix_def MakeActorPrefixFromHash_def actor_key_def Let_def
      EncodeUvarintAscending_append [of "_ @ _"])

lemma MakeDOKVKey_eq: "MakeDOKVKey tp h k = MakeDOKVPrefix tp h @ EncodeBytesAscending [] k"
  by (simp add: MakeDOKVKey_def MakeDOKVPrefix_def Let_def EncodeBytesAscending_eq)

section \<open>Row keys\<close>

text \<open>The bytes \<open>MakeFamilyKey\<close> appends: the family and the length of its encoding.\<close>

definition fam_bytes :: "uint32 \<Rightarrow> bytes" where
  "fam_bytes fam = (if fam = 0 then [] else EncodeUvarintAscending [] (ucast fam))"

definition len_byte :: "nat \<Rightarrow> byte" where
  "len_byte n = tag_byte (136 + int n)"

lemma uvarint_length_le: "1 \<le> length (EncodeUvarintAscending [] v) \<and> length (EncodeUvarintAscending [] v) \<le> 9"
  by (cases rule: EncodeUvarintAscending_cases [of v]) simp_all

lemma uvarint_small: "n \<le> 9 \<Longrightarrow> EncodeUvarintAscending [] (word_of_nat n) = [len_byte n]"
proof -
  assume "n \<le> 9"
  then have "uint (word_of_nat n :: uint64) = int n" by (simp add: unsigned_of_nat take_bit_nat_eq_self)
  then show ?thesis using \<open>n \<le> 9\<close>
    by (simp add: EncodeUvarintAscending_def int_tags tag_byte_add len_byte_def)
qed

lemma MakeFamilyKey_eq: "MakeFamilyKey K fam = K @ fam_bytes fam @ [len_byte (length (fam_bytes fam))]"
proof (cases "fam = 0")
  case True
  have "EncodeUvarintAscending [] 0 = [len_byte 0]" using uvarint_small [of 0] by simp
  then show ?thesis using True
    by (simp add: MakeFamilyKey_def fam_bytes_def EncodeUvarintAscending_append [of K])
next
  case False
  let ?E = "EncodeUvarintAscending [] (ucast fam)"
  have "EncodeUvarintAscending (K @ ?E) (word_of_nat (length (K @ ?E) - length K)) = (K @ ?E) @ [len_byte (length ?E)]"
    using uvarint_small [of "length ?E"] uvarint_length_le EncodeUvarintAscending_append [of "K @ ?E"] by simp
  then show ?thesis using False
    by (simp add: MakeFamilyKey_def fam_bytes_def Let_def EncodeUvarintAscending_append [of K])
qed

lemma fam_bytes_le: "length (fam_bytes fam) \<le> 9"
  using uvarint_length_le by (simp add: fam_bytes_def)

lemma decode_len_byte: "n \<le> 9 \<Longrightarrow> DecodeUvarintAscending [len_byte n] = Inr ([], word_of_nat n)"
  using decode_uvarint [of "word_of_nat n" "[]"] by (simp add: uvarint_small)

lemma PeekType_len_byte: "n \<le> 9 \<Longrightarrow> PeekType [len_byte n] = T_Int"
  using PeekType_uvarint [of "word_of_nat n" "[]"] by (simp add: uvarint_small)

text \<open>A row key: tenant prefix, actor prefix if any, table, index and key columns.\<close>

definition actor_part :: "bytes option \<Rightarrow> bytes" where
  "actor_part a = (case a of None \<Rightarrow> [] | Some h \<Rightarrow> ActorPrefixByte # h)"

definition row_key :: "bytes \<Rightarrow> bytes option \<Rightarrow> uint32 \<Rightarrow> uint32 \<Rightarrow> bytes \<Rightarrow> bytes" where
  "row_key tp a t i cols = tp @ actor_part a @ MakeTableIDIndexID [] t i @ cols"

definition actor_ok :: "bytes option \<Rightarrow> bool" where
  "actor_ok a \<longleftrightarrow> (case a of None \<Rightarrow> True | Some h \<Rightarrow> length h = ActorHashLen)"

lemma MakeTableIDIndexID_eq:
  "MakeTableIDIndexID key t i = key @ EncodeUvarintAscending [] (ucast t) @ EncodeUvarintAscending [] (ucast i)"
  by (simp add: MakeTableIDIndexID_def EncodeUvarintAscending_append [of key]
      EncodeUvarintAscending_append [of "_ @ _"])

lemma hd_append_neq: "xs \<noteq> [] \<Longrightarrow> hd (xs @ ys) = hd xs" by simp

lemma DecodeActorPrefix_part:
  assumes "actor_ok a"
  shows "\<exists>h. DecodeActorPrefix (actor_part a @ EncodeUvarintAscending [] (ucast (t :: uint32)) @ r) =
    Inr (EncodeUvarintAscending [] (ucast t) @ r, h)"
  using assms hd_uvarint32 [of t r]
  by (cases a) (auto simp: DecodeActorPrefix_def actor_part_def actor_ok_def ActorPrefixByte_def)

lemma row_tail_hd:
  "actor_part a @ EncodeUvarintAscending [] (ucast (t :: uint32)) @ r \<noteq> []"
  "hd (actor_part a @ EncodeUvarintAscending [] (ucast (t :: uint32)) @ r) \<noteq> tenantPrefixByte"
  using actor_bytes hd_uvarint [of "ucast t" r]
  by (cases a; simp add: actor_part_def tenantPrefixByte_def)+

lemma uint64_of_small_int: "0 \<le> k \<Longrightarrow> k < 2 ^ 64 \<Longrightarrow> uint (word_of_int k :: uint64) = k"
  by (simp add: unsigned_of_int take_bit_int_eq_self)

lemma GetRowPrefixLength_sql:
  assumes tp: "MakeTenantPrefix ten = Inr tp" "InternalValue ten \<noteq> 0" and a: "actor_ok a"
    and n: "n \<le> 9" "n \<le> length mid" and len: "length mid < 2 ^ 62"
  shows "GetRowPrefixLength (tp @ actor_part a @ EncodeUvarintAscending [] (ucast (t :: uint32)) @
      EncodeUvarintAscending [] (ucast (i :: uint32)) @ mid @ [len_byte n]) =
    Inr (int (length (tp @ actor_part a @ EncodeUvarintAscending [] (ucast t) @ EncodeUvarintAscending [] (ucast i) @ mid)) - int n)"
    (is "GetRowPrefixLength (tp @ actor_part a @ ?T @ ?I @ ?M) = _")
proof -
  obtain h where act: "DecodeActorPrefix (actor_part a @ ?T @ ?I @ ?M) = Inr (?T @ ?I @ ?M, h)"
    using DecodeActorPrefix_part [OF a] by blast
  have ten: "DecodeTenantPrefix (tp @ actor_part a @ ?T @ ?I @ ?M) = Inr (actor_part a @ ?T @ ?I @ ?M, ten)"
    by (rule DecodeTenantPrefix_tenant [OF tp row_tail_hd])
  let ?s = "?T @ ?I @ ?M" and ?m = "length ?T + length ?I + length mid"
  have l: "?m < 2 ^ 63" "length ?s = Suc ?m" using uvarint_length_le [of "ucast t"] uvarint_length_le [of "ucast i"] len by simp_all
  have byte: "drop (nat (int (length ?s) - 1)) ?s = [len_byte n]" by simp
  have k: "int (length ?s) - 1 = int ?m" using l(2) by simp
  have "int ?m < 2 ^ 64" using l(1) by simp
  then have m: "uint (word_of_int (int (length ?s) - 1) :: uint64) = int ?m"
    unfolding k by (intro uint64_of_small_int) simp_all
  have w: "uint (word_of_nat n :: uint64) = int n" "sint (word_of_nat n :: uint64) = int n"
    using n(1) by (simp_all add: unsigned_of_nat take_bit_nat_eq_self signed_of_nat signed_take_bit_int_eq_self)
  have "\<not> word_of_int (int (length ?s) - 1) < (word_of_nat n :: uint64)"
    unfolding word_less_def m w(1) using n(2) by simp
  moreover have "int (length ?T) + int (length ?I) \<noteq> int (length ?s)" by simp
  ultimately show ?thesis
    unfolding GetRowPrefixLength_def Let_def ten sum.case prod.case act
    using n(1) by (simp add: GetUvarintLen_uvarint byte [simplified] PeekType_len_byte decode_len_byte w(2))
qed

lemma row_key_family:
  "MakeFamilyKey (row_key tp a t i cols) fam =
     tp @ actor_part a @ EncodeUvarintAscending [] (ucast t) @ EncodeUvarintAscending [] (ucast i) @
       (cols @ fam_bytes fam) @ [len_byte (length (fam_bytes fam))]"
  by (simp add: MakeFamilyKey_eq row_key_def MakeTableIDIndexID_eq)

lemma GetRowPrefixLength_row:
  assumes "MakeTenantPrefix ten = Inr tp" "InternalValue ten \<noteq> 0" "actor_ok a" "length cols < 2 ^ 61"
  shows "GetRowPrefixLength (MakeFamilyKey (row_key tp a t i cols) fam) = Inr (int (length (row_key tp a t i cols)))"
proof -
  have "length (cols @ fam_bytes fam) < 2 ^ 62" using assms(4) fam_bytes_le [of fam] by simp
  from GetRowPrefixLength_sql [OF assms(1-3) fam_bytes_le _ this] show ?thesis
    unfolding row_key_family by (simp add: row_key_def MakeTableIDIndexID_eq)
qed

lemma decode_family_bytes:
  "\<exists>r. DecodeUvarintAscending (fam_bytes fam @ [len_byte (length (fam_bytes fam))]) = Inr (r, ucast fam)"
  using decode_uvarint [of "ucast fam"] decode_len_byte [of 0] by (cases "fam = 0") (simp_all add: fam_bytes_def)

lemma drop_row_key:
  "drop (length (row_key tp a t i cols)) (MakeFamilyKey (row_key tp a t i cols) fam) =
     fam_bytes fam @ [len_byte (length (fam_bytes fam))]"
  "take (length (row_key tp a t i cols)) (MakeFamilyKey (row_key tp a t i cols) fam) = row_key tp a t i cols"
  by (simp_all add: MakeFamilyKey_eq)

lemma row_key_length: "0 < length (row_key tp a t i cols)"
  "length (row_key tp a t i cols) < length (MakeFamilyKey (row_key tp a t i cols) fam)"
  using uvarint_length_le [of "ucast t"] by (simp_all add: row_key_def MakeTableIDIndexID_eq MakeFamilyKey_eq)

lemma DecodeFamilyKey_row:
  assumes "MakeTenantPrefix ten = Inr tp" "InternalValue ten \<noteq> 0" "actor_ok a" "length cols < 2 ^ 61"
  shows "DecodeFamilyKey (MakeFamilyKey (row_key tp a t i cols) fam) = Inr fam"
proof -
  obtain r where "DecodeUvarintAscending (fam_bytes fam @ [len_byte (length (fam_bytes fam))]) = Inr (r, ucast fam)"
    using decode_family_bytes by blast
  moreover have "\<not> 4294967295 < uint (ucast fam :: uint64)" using uint_ucast32 [of fam] by simp
  ultimately show ?thesis
    unfolding DecodeFamilyKey_def GetRowPrefixLength_row [OF assms]
    using row_key_length(1) [of tp a t i cols] row_key_length(2) [of tp a t i cols fam] by (simp add: drop_row_key not_le)
qed

section \<open>Tables and indexes\<close>

lemma DecodeTablePrefix_part:
  assumes "actor_ok a"
  shows "DecodeTablePrefix c (buf c @ actor_part a @ EncodeUvarintAscending [] (ucast t) @ r) = Inr (r, t)"
proof -
  obtain h where "DecodeActorPrefix (actor_part a @ EncodeUvarintAscending [] (ucast t) @ r) =
      Inr (EncodeUvarintAscending [] (ucast t) @ r, h)" using DecodeActorPrefix_part [OF assms] by blast
  then show ?thesis by (simp add: DecodeTablePrefix_def SQLCodec_StripTenantPrefix_def decode_uvarint)
qed

lemma DecodeIndexPrefix_part:
  "actor_ok a \<Longrightarrow> DecodeIndexPrefix c (row_key (buf c) a t i cols) = Inr (cols, t, i)"
  using DecodeTablePrefix_part [of a c t "EncodeUvarintAscending [] (ucast i) @ cols"]
  by (simp add: DecodeIndexPrefix_def row_key_def MakeTableIDIndexID_eq decode_uvarint)

lemma IndexPrefix_row: "IndexPrefix c t i @ cols = row_key (buf c) None t i cols"
  by (simp add: IndexPrefix_def TablePrefix_def row_key_def actor_part_def MakeTableIDIndexID_eq
      EncodeUvarintAscending_append [of "buf c"] EncodeUvarintAscending_append [of "_ @ _"])

lemma actor_codec_buf:
  "name \<noteq> [] \<Longrightarrow> buf (MakeActorSQLCodec sha c name) = actor_key (buf c) (ActorHash sha name) []"
  by (simp add: MakeActorSQLCodec_def MakeActorPrefix_eq Let_def)

lemma actor_index_row:
  "name \<noteq> [] \<Longrightarrow> IndexPrefix (MakeActorSQLCodec sha c name) t i @ cols = row_key (buf c) (Some (ActorHash sha name)) t i cols"
  by (simp add: IndexPrefix_row actor_codec_buf row_key_def actor_part_def actor_key_def)

section \<open>Tenant spans\<close>

lemma MakeTenantSpan_eq:
  "InternalValue t \<noteq> 0 \<Longrightarrow> t \<noteq> SystemTenantID \<Longrightarrow> MakeTenantSpan t =
     Inr \<lparr>Key = tenantPrefixByte # EncodeUvarintAscending [] (InternalValue t),
          EndKey = Some (tenantPrefixByte # EncodeUvarintAscending [] (InternalValue t + 1))\<rparr>"
  by (simp add: MakeTenantSpan_def TenantID_ToUint64_def assertValid_def checkValid_def TenantPrefix_def
      EncodeUvarintAscending_append [of "[_]"])

lemma uint64_succ: "(v :: uint64) \<noteq> - 1 \<Longrightarrow> v < v + 1"
  using inc_less_eq_self_iff_eq [of v] by (auto simp: not_le [symmetric])

lemma uvarint_prefix_covered:
  assumes "v \<noteq> - 1"
  shows "EncodeUvarintAscending [] v \<le> EncodeUvarintAscending [] v @ r"
    "EncodeUvarintAscending [] v @ r < EncodeUvarintAscending [] (v + 1)"
  using prefix_less_append [of r "EncodeUvarintAscending [] v"] uvarint_asc.ordered [OF TrueI TrueI uint64_succ [OF assms], of r "[]"]
  by (cases "r = []"; simp add: less_imp_le)+

lemma StripTenantPrefix_tenant:
  assumes "MakeTenantPrefix t = Inr tp" "InternalValue t \<noteq> 0" "r \<noteq> []" "hd r \<noteq> tenantPrefixByte"
  shows "StripTenantPrefix (tp @ r) = Inr r"
proof (cases "t = SystemTenantID")
  case True
  then show ?thesis using assms by (simp add: MakeTenantPrefix_eq StripTenantPrefix_def)
next
  case False
  then have "tp = tenantPrefixByte # EncodeUvarintAscending [] (InternalValue t)"
    using assms(1,2) by (simp add: MakeTenantPrefix_eq)
  then show ?thesis by (simp add: StripTenantPrefix_def decode_uvarint)
qed

lemma StripIndexPrefix_row:
  assumes "MakeTenantPrefix ten = Inr tp" "InternalValue ten \<noteq> 0" "actor_ok a"
  shows "StripIndexPrefix (row_key tp a t i cols) = Inr cols"
proof -
  let ?T = "EncodeUvarintAscending [] (ucast t)" and ?I = "EncodeUvarintAscending [] (ucast i)"
  obtain h where act: "DecodeActorPrefix (actor_part a @ ?T @ ?I @ cols) = Inr (?T @ ?I @ cols, h)"
    using DecodeActorPrefix_part [OF assms(3)] by blast
  have "StripTenantPrefix (tp @ actor_part a @ ?T @ ?I @ cols) = Inr (actor_part a @ ?T @ ?I @ cols)"
    by (rule StripTenantPrefix_tenant [OF assms(1,2) row_tail_hd])
  then show ?thesis
    by (simp add: StripIndexPrefix_def StripTablePrefix_def row_key_def MakeTableIDIndexID_eq act decode_uvarint)
qed

lemma DOKV_row: "MakeDOKVPrefix tp h @ r = row_key tp (Some h) 51 1 r"
proof -
  have "(ucast (51 :: uint32) :: uint64) = 51" "(ucast (1 :: uint32) :: uint64) = 1" by simp_all
  then show ?thesis
    by (simp add: MakeDOKVPrefix_eq row_key_def actor_key_def actor_part_def MakeTableIDIndexID_eq DOKVTableID_def)
qed

lemma codec_buf: "MakeSQLCodec t = Inr c \<Longrightarrow> InternalValue t \<noteq> 0 \<Longrightarrow> MakeTenantPrefix t = Inr (buf c)"
  by (cases "t = SystemTenantID")
    (auto simp: MakeSQLCodec_def MakeTenantSpan_eq MakeTenantPrefix_eq, auto simp: MakeTenantSpan_def KeyMin_def)

lemma covers_some: "e \<noteq> [] \<Longrightarrow> covers \<lparr>Key = k, EndKey = Some e\<rparr> = {x. k \<le> x \<and> x < e}"
  by (simp add: covers_range endk_def)

text \<open>The tenant's span holds every row key of the tenant.\<close>

lemma tenant_span_row:
  assumes c: "MakeSQLCodec ten = Inr c" and ten: "InternalValue ten \<noteq> 0" "InternalValue ten \<noteq> - 1"
  shows "row_key (buf c) a t i cols \<in> covers (TenantSpan c)"
proof (cases "ten = SystemTenantID")
  case True
  then have b: "buf c = []" "endKey c = [0xff, 0xff]"
    using c by (auto simp: MakeSQLCodec_def MakeTenantSpan_def KeyMin_def KeyMax_def endk_def)
  have "row_key [] a t i cols < [0xff, 0xff]"
  proof (cases a)
    case None
    then show ?thesis
      by (rule_tac uvarint_tag [of "ucast t"]) (simp add: row_key_def actor_part_def MakeTableIDIndexID_eq word_less_def)
  qed (simp add: row_key_def actor_part_def ActorPrefixByte_def)
  then show ?thesis using b by (simp add: TenantSpan_def covers_some)
next
  case False
  then have c': "buf c = tenantPrefixByte # EncodeUvarintAscending [] (InternalValue ten)"
    "endKey c = tenantPrefixByte # EncodeUvarintAscending [] (InternalValue ten + 1)"
    using c ten by (auto simp: MakeSQLCodec_def MakeTenantSpan_eq endk_def)
  show ?thesis
    using uvarint_prefix_covered [OF ten(2), of "actor_part a @ MakeTableIDIndexID [] t i @ cols"]
    by (simp add: TenantSpan_def c' covers_some row_key_def)
qed

lemma tenant_spans_disjoint:
  assumes "MakeSQLCodec s = Inr c" "InternalValue s \<noteq> 0" "s \<noteq> SystemTenantID"
    and "MakeSQLCodec t = Inr d" "InternalValue t \<noteq> 0" "t \<noteq> SystemTenantID" and "InternalValue s < InternalValue t"
  shows "covers (TenantSpan c) \<inter> covers (TenantSpan d) = {}"
proof -
  have "endKey c \<le> buf d"
    using assms inc_le [OF assms(7)] uvarint_asc.order_iff [OF TrueI TrueI, of "InternalValue t" "InternalValue s + 1"]
    by (auto simp: MakeSQLCodec_def MakeTenantSpan_eq endk_def not_less [symmetric])
  moreover have "endKey c \<noteq> []" "endKey d \<noteq> []" using assms by (auto simp: MakeSQLCodec_def MakeTenantSpan_eq endk_def)
  ultimately show ?thesis by (auto simp: TenantSpan_def covers_some)
qed

section \<open>Properties\<close>

text \<open>
  C3. Actors are isolated: the span of an actor-scoped key is exactly the set of keys that start
  with the actor's prefix, so the spans of two actors, of the same or of different tenants, are
  equal or disjoint; and the interior split keys of an actor are exactly its keys past the prefix.
\<close>

theorem actor_isolation:
  assumes "MakeTenantPrefix s = Inr sp" and "InternalValue s \<noteq> 0" and "length g = ActorHashLen"
    and "MakeTenantPrefix t = Inr tp" and "InternalValue t \<noteq> 0" and "length h = ActorHashLen"
  shows "\<exists>S T. ActorSpanFromKey (MakeActorPrefixFromHash sp g @ q) = Inr (Some S) \<and>
    ActorSpanFromKey (MakeActorPrefixFromHash tp h @ r) = Inr (Some T) \<and>
    covers S = {k. \<exists>x. k = MakeActorPrefixFromHash sp g @ x} \<and>
    (if s = t \<and> g = h then S = T else covers S \<inter> covers T = {}) \<and>
    IsInteriorActorSplitKey (MakeActorPrefixFromHash sp g @ q) = Inr (q \<noteq> [])"
proof -
  define S T where "S = \<lparr>Key = actor_key sp g [], EndKey = Some (PrefixEnd (actor_key sp g []))\<rparr>"
    and "T = \<lparr>Key = actor_key tp h [], EndKey = Some (PrefixEnd (actor_key tp h []))\<rparr>"
  have key: "MakeActorPrefixFromHash p y @ z = actor_key p y z" for p y z
    by (simp add: MakeActorPrefixFromHash_def actor_key_def)
  have S: "ActorSpanFromKey (actor_key sp g q) = Inr (Some S)"
    using ActorPrefixFromKey_actor [OF assms(1-3)] by (simp add: ActorSpanFromKey_def S_def)
  have T: "ActorSpanFromKey (actor_key tp h r) = Inr (Some T)"
    using ActorPrefixFromKey_actor [OF assms(4-6)] by (simp add: ActorSpanFromKey_def T_def)
  have e: "PrefixEnd (actor_key p y []) \<noteq> []" for p y using actor_key_span [of p y "actor_key p y []"] by auto
  have cS: "covers S = {k. \<exists>x. k = actor_key sp g x}" and cT: "covers T = {k. \<exists>x. k = actor_key tp h x}"
    using e actor_key_span by (simp_all add: S_def T_def covers_some)
  have "covers S \<inter> covers T = {}" if "\<not> (s = t \<and> g = h)"
    using that actor_key_inj [OF assms(1,2,4,5,3,6)] by (auto simp: cS cT)
  moreover have "S = T" if "s = t" "g = h" using that assms(1,4) by (simp add: S_def T_def)
  moreover have "actor_key sp g q < PrefixEnd (actor_key sp g [])" using actor_key_span by blast
  then have "IsInteriorActorSplitKey (actor_key sp g q) = Inr (q \<noteq> [])"
    using S by (auto simp: IsInteriorActorSplitKey_def S_def endk_def actor_key_def)
  ultimately show ?thesis using S T cS unfolding key by auto
qed

theorem actor_isolation_witness:
  "\<exists>S T. ActorSpanFromKey (MakeActorPrefixFromHash [] (replicate 16 1) @ [7]) = Inr (Some S) \<and>
     ActorSpanFromKey (MakeActorPrefixFromHash [] (replicate 16 2)) = Inr (Some T) \<and> covers S \<inter> covers T = {}"
proof -
  have t: "MakeTenantPrefix SystemTenantID = Inr []" "InternalValue SystemTenantID \<noteq> 0"
    "length (replicate 16 (1 :: byte)) = ActorHashLen" "length (replicate 16 (2 :: byte)) = ActorHashLen"
    by (simp_all add: MakeTenantPrefix_def SystemTenantID_def ActorHashLen_def)
  have n: "replicate 16 (1 :: byte) \<noteq> replicate 16 2" by (simp add: replicate_eq_replicate)
  from actor_isolation [OF t(1,2,3) t(1,2,4), of "[7]" "[]"] n show ?thesis by auto
qed

text \<open>
  The storage keys of a Durable Object sort as the user's keys and decode to them, lie in the
  object's actor span, and the span from \<open>MakeDOKVPrefix\<close> to its end is exactly the set of
  keys with that prefix.
\<close>

theorem dokv_keys:
  assumes "MakeTenantPrefix t = Inr tp" and "InternalValue t \<noteq> 0" and "length h = ActorHashLen"
  shows "(MakeDOKVKey tp h k < MakeDOKVKey tp h l \<longleftrightarrow> k < l) \<and>
    ActorPrefixFromKey (MakeDOKVKey tp h k) = Inr (Some (MakeActorPrefixFromHash tp h)) \<and>
    res_bind (StripIndexPrefix (MakeDOKVKey tp h k)) (\<lambda>b. DecodeBytesAscending b []) = Inr ([], k) \<and>
    (MakeDOKVPrefix tp h \<le> x \<and> x < PrefixEnd (MakeDOKVPrefix tp h) \<longleftrightarrow> (\<exists>r. x = MakeDOKVPrefix tp h @ r))"
proof (intro conjI)
  show "MakeDOKVKey tp h k < MakeDOKVKey tp h l \<longleftrightarrow> k < l"
    using bytes_asc.order_iff by (simp add: MakeDOKVKey_eq)
  show "ActorPrefixFromKey (MakeDOKVKey tp h k) = Inr (Some (MakeActorPrefixFromHash tp h))"
    using ActorPrefixFromKey_actor [OF assms] actor_key_prefix
    by (simp add: MakeDOKVKey_eq MakeDOKVPrefix_eq MakeActorPrefixFromHash_def actor_key_def)
  have "actor_ok (Some h)" using assms(3) by (simp add: actor_ok_def)
  from StripIndexPrefix_row [OF assms(1,2) this]
  show "res_bind (StripIndexPrefix (MakeDOKVKey tp h k)) (\<lambda>b. DecodeBytesAscending b []) = Inr ([], k)"
    using bytes_asc.roundtrip [OF TrueI, of k "[]"] by (simp add: MakeDOKVKey_eq DOKV_row)
  show "MakeDOKVPrefix tp h \<le> x \<and> x < PrefixEnd (MakeDOKVPrefix tp h) \<longleftrightarrow> (\<exists>r. x = MakeDOKVPrefix tp h @ r)"
    by (rule PrefixEnd_range) (simp add: MakeDOKVPrefix_eq actor_key_not_maximal)
qed

theorem dokv_keys_witness:
  "MakeDOKVKey [] (replicate 16 9) [1] < MakeDOKVKey [] (replicate 16 9) [1, 0] \<and>
   res_bind (StripIndexPrefix (MakeDOKVKey [] (replicate 16 9) [1])) (\<lambda>b. DecodeBytesAscending b []) = Inr ([], [1])"
proof -
  have t: "MakeTenantPrefix SystemTenantID = Inr []" "InternalValue SystemTenantID \<noteq> 0"
    "length (replicate 16 (9 :: byte)) = ActorHashLen"
    by (simp_all add: MakeTenantPrefix_def SystemTenantID_def ActorHashLen_def)
  from dokv_keys [OF t, of "[1]" "[1, 0]"] show ?thesis by simp
qed

text \<open>
  C23. Row keys: for a row of any tenant, actor-scoped or not, \<open>GetRowPrefixLength\<close> finds exactly
  the row part of a key with a column family, so \<open>DecodeFamilyKey\<close> returns the family and
  \<open>EnsureSafeSplitKey\<close> never splits a row. Keys are shorter than \<open>2^61\<close> bytes.
\<close>

theorem row_keys:
  assumes "MakeTenantPrefix ten = Inr tp" and "InternalValue ten \<noteq> 0" and "actor_ok a" and "length cols < 2 ^ 61"
  shows "GetRowPrefixLength (MakeFamilyKey (row_key tp a t i cols) fam) = Inr (int (length (row_key tp a t i cols))) \<and>
    DecodeFamilyKey (MakeFamilyKey (row_key tp a t i cols) fam) = Inr fam \<and>
    EnsureSafeSplitKey (MakeFamilyKey (row_key tp a t i cols) fam) = Inr (row_key tp a t i cols)"
  using GetRowPrefixLength_row [OF assms] DecodeFamilyKey_row [OF assms] by (simp add: EnsureSafeSplitKey_def drop_row_key)

theorem row_keys_witness:
  "DecodeFamilyKey (MakeFamilyKey (row_key [] None 52 1 [0x89]) 300) = Inr 300"
proof -
  have "MakeTenantPrefix SystemTenantID = Inr []" "InternalValue SystemTenantID \<noteq> 0" "actor_ok None"
    "length [0x89 :: byte] < 2 ^ 61"
    by (simp_all add: MakeTenantPrefix_def SystemTenantID_def actor_ok_def)
  from row_keys [OF this, of 52 1 300] show ?thesis by blast
qed

text \<open>
  The SQL codec of a tenant decodes the index keys it makes, and those of the actor codecs
  derived from it, to the table, the index and the columns; every such key lies in the tenant's
  span, and the spans of different tenants other than the system tenant are disjoint.
\<close>

theorem sql_codec_keys:
  assumes "MakeSQLCodec ten = Inr c" and "InternalValue ten \<noteq> 0" and "InternalValue ten \<noteq> - 1"
    and "length (sha name) = 32" and "name \<noteq> []"
    and "MakeSQLCodec other = Inr d" and "InternalValue other \<noteq> 0" and "InternalValue other \<noteq> - 1"
  shows "DecodeIndexPrefix c (IndexPrefix c t i @ cols) = Inr (cols, t, i) \<and>
    DecodeIndexPrefix c (IndexPrefix (MakeActorSQLCodec sha c name) t i @ cols) = Inr (cols, t, i) \<and>
    DecodeIndexPrefix (MakeActorSQLCodec sha c name) (IndexPrefix (MakeActorSQLCodec sha c name) t i @ cols) = Inr (cols, t, i) \<and>
    IndexPrefix c t i @ cols \<in> covers (TenantSpan c) \<and>
    IndexPrefix (MakeActorSQLCodec sha c name) t i @ cols \<in> covers (TenantSpan c) \<and>
    (ten \<noteq> other \<and> ten \<noteq> SystemTenantID \<and> other \<noteq> SystemTenantID \<longrightarrow>
      covers (TenantSpan c) \<inter> covers (TenantSpan d) = {})"
proof (intro conjI impI)
  have a: "actor_ok None" "actor_ok (Some (ActorHash sha name))"
    using ActorHash_length [of sha name, OF assms(4)] by (simp_all add: actor_ok_def)
  show "DecodeIndexPrefix c (IndexPrefix c t i @ cols) = Inr (cols, t, i)"
    unfolding IndexPrefix_row by (rule DecodeIndexPrefix_part [OF a(1)])
  show "DecodeIndexPrefix c (IndexPrefix (MakeActorSQLCodec sha c name) t i @ cols) = Inr (cols, t, i)"
    unfolding actor_index_row [OF assms(5)] by (rule DecodeIndexPrefix_part [OF a(2)])
  show "DecodeIndexPrefix (MakeActorSQLCodec sha c name) (IndexPrefix (MakeActorSQLCodec sha c name) t i @ cols) = Inr (cols, t, i)"
    unfolding IndexPrefix_row by (rule DecodeIndexPrefix_part [OF a(1)])
  show "IndexPrefix c t i @ cols \<in> covers (TenantSpan c)"
    unfolding IndexPrefix_row by (rule tenant_span_row [OF assms(1-3)])
  show "IndexPrefix (MakeActorSQLCodec sha c name) t i @ cols \<in> covers (TenantSpan c)"
    unfolding actor_index_row [OF assms(5)] by (rule tenant_span_row [OF assms(1-3)])
  assume n: "ten \<noteq> other \<and> ten \<noteq> SystemTenantID \<and> other \<noteq> SystemTenantID"
  then have "InternalValue ten < InternalValue other \<or> InternalValue other < InternalValue ten"
    using not_less_iff_gr_or_eq by (metis TenantID.equality old.unit.exhaust)
  then show "covers (TenantSpan c) \<inter> covers (TenantSpan d) = {}"
    using tenant_spans_disjoint [OF assms(1,2) _ assms(6,7)] tenant_spans_disjoint [OF assms(6,7) _ assms(1,2)] n by blast
qed

theorem sql_codec_keys_witness:
  "\<exists>c. MakeSQLCodec \<lparr>InternalValue = 7\<rparr> = Inr c \<and>
     DecodeIndexPrefix c (IndexPrefix (MakeActorSQLCodec (\<lambda>_. replicate 32 5) c [0x61]) 52 2 @ [3]) = Inr ([3], 52, 2)"
proof -
  obtain c where c: "MakeSQLCodec \<lparr>InternalValue = 7\<rparr> = Inr c"
    by (simp add: MakeSQLCodec_def MakeTenantSpan_eq SystemTenantID_def)
  have "InternalValue \<lparr>InternalValue = 7\<rparr> \<noteq> 0" "InternalValue \<lparr>InternalValue = 7\<rparr> \<noteq> - 1"
    "length ((\<lambda>_. replicate 32 5) [0x61 :: byte] :: bytes) = 32" "[0x61 :: byte] \<noteq> []" by simp_all
  from sql_codec_keys [OF c this c this(1,2), of 52 2 "[3]"] c show ?thesis by auto
qed

end
