(* ===== verification/Scan_Results.thy ===== *)
theory Scan_Results
  imports Mvcc_Key Sql_Keys
begin

text \<open>
  The results of a scan: \<open>pebbleResults\<close> of \<open>pkg/storage/pebble_mvcc_scanner.go\<close>, which
  encodes key-value pairs into a list of growing buffers and keeps the offsets of the last pairs in
  a ring buffer so that a partial SQL row at the end can be trimmed, and the decoders of
  \<open>pkg/storage/enginepb/decode.go\<close>. The data structure refines a list of pairs: \<open>put\<close>
  appends, \<open>maybeTrimPartialLastRow\<close> removes the trailing pairs of a row, and the buffers
  decode to the list. A buffer is its contents and its capacity; lengths are natural numbers (a
  slice is shorter than \<open>2^63\<close>), and the 32-bit lengths in the encoding wrap.
\<close>

section \<open>Decoding\<close>

definition kvLenSize :: nat where "kvLenSize = 8"

definition le_uint32 :: "bytes \<Rightarrow> nat" where
  "le_uint32 b = nat (be_value (rev (take 4 b)))"

text \<open>\<open>b[i:j]\<close>: bounds out of order or past the end panic.\<close>

definition slice :: "nat \<Rightarrow> nat \<Rightarrow> bytes \<Rightarrow> bytes res" where
  "slice i j b = (if i \<le> j \<and> j \<le> length b then Inr (drop i (take j b)) else Inl (Panic ''slice bounds out of range''))"

definition ScanDecodeKeyValue :: "bytes \<Rightarrow> (bytes \<times> Timestamp \<times> bytes \<times> bytes) res" where
  "ScanDecodeKeyValue repr =
     (if length repr < kvLenSize then Inl (Err ''unexpected batch EOF'')
      else
        (let valSize = le_uint32 repr;
             keyEnd = (le_uint32 (drop 4 repr) + kvLenSize) mod 2 ^ 32;
             total = (keyEnd + valSize) mod 2 ^ 32
         in if total > length repr mod 2 ^ 32 then Inl (Err ''expected bytes, but only remaining'')
            else
              res_bind (slice kvLenSize keyEnd repr) (\<lambda>rawKey.
              res_bind (slice keyEnd total repr) (\<lambda>value.
              res_bind (slice total (length repr) repr) (\<lambda>rest.
              res_bind (DecodeKey rawKey) (\<lambda>(key, ts). Inr (key, ts, value, rest)))))))"

definition ScanDecodeKeyValueNoTS :: "bytes \<Rightarrow> (bytes \<times> bytes \<times> bytes) res" where
  "ScanDecodeKeyValueNoTS repr =
     (if length repr < kvLenSize then Inl (Err ''unexpected batch EOF'')
      else
        (let valSize = le_uint32 repr;
             keyEnd = (le_uint32 (drop 4 repr) + kvLenSize) mod 2 ^ 32;
             total = (keyEnd + valSize) mod 2 ^ 32
         in if length repr < total then Inl (Err ''expected bytes, but only remaining'')
            else
              res_bind (slice total (length repr) repr) (\<lambda>ret.
              res_bind (slice keyEnd total repr) (\<lambda>value.
              res_bind (slice kvLenSize keyEnd repr) (\<lambda>rawKey.
              (case SplitMVCCKey rawKey of
                 None \<Rightarrow> Inl (Err ''invalid encoded mvcc key'')
               | Some (key, _) \<Rightarrow> Inr (key, value, ret)))))))"

lemma slice_Inr: "slice i j b = Inr x \<longleftrightarrow> i \<le> j \<and> j \<le> length b \<and> x = drop i (take j b)"
  by (auto simp: slice_def)

lemma ScanDecodeKeyValue_shrinks:
  assumes "ScanDecodeKeyValue repr = Inr (k, ts, v, rest)"
  shows "length rest < length repr"
proof -
  obtain ke tot rawKey where "slice kvLenSize ke repr = Inr rawKey" "slice ke tot repr = Inr v"
    "slice tot (length repr) repr = Inr rest"
    using assms by (auto simp: ScanDecodeKeyValue_def Let_def res_simps split: if_splits)
  then have "8 \<le> tot" "tot \<le> length repr" "rest = drop tot repr" by (auto simp: kvLenSize_def slice_Inr)
  then show ?thesis by simp
qed

text \<open>The callback is a function of a state that it may update, or fail.\<close>

function scan_data :: "(bytes \<Rightarrow> Timestamp \<Rightarrow> bytes \<Rightarrow> 's \<Rightarrow> 's res) \<Rightarrow> bytes \<Rightarrow> 's \<Rightarrow> 's res" where
  "scan_data fn data s =
     (if data = [] then Inr s
      else case ScanDecodeKeyValue data of
        Inl e \<Rightarrow> Inl e
      | Inr (k, ts, rawBytes, data') \<Rightarrow> (case fn k ts rawBytes s of Inl e \<Rightarrow> Inl e | Inr s' \<Rightarrow> scan_data fn data' s'))"
  by pat_completeness auto
termination
  by (relation "measure (\<lambda>(fn, data, s). length data)") (auto dest: ScanDecodeKeyValue_shrinks)

declare scan_data.simps [simp del]

fun ScanDecodeKeyValues :: "bytes list \<Rightarrow> (bytes \<Rightarrow> Timestamp \<Rightarrow> bytes \<Rightarrow> 's \<Rightarrow> 's res) \<Rightarrow> 's \<Rightarrow> 's res" where
  "ScanDecodeKeyValues [] fn s = Inr s"
| "ScanDecodeKeyValues (data # repr) fn s = res_bind (scan_data fn data s) (ScanDecodeKeyValues repr fn)"

section \<open>Engine keys and row prefixes\<close>

definition DecodeEngineKey :: "bytes \<Rightarrow> (bytes \<times> bytes) option" where
  "DecodeEngineKey b =
     (if b = [] then None
      else
        (let versionLen = uint (last b); keyPartEnd = int (length b) - 1 - versionLen in
         if keyPartEnd < 0 then None
         else Some (take (nat keyPartEnd) b,
                    if versionLen > 0 then drop (nat keyPartEnd + 1) (butlast b) else [])))"

definition GetKeyPartFromEngineKey :: "bytes \<Rightarrow> bytes option" where
  "GetKeyPartFromEngineKey engineKey =
     (if engineKey = [] then None
      else
        (let versionLen = uint (last engineKey); keyPartEnd = int (length engineKey) - 1 - versionLen in
         if keyPartEnd < 0 then None else Some (take (nat keyPartEnd) engineKey)))"

text \<open>A nil slice is \<open>[]\<close>.\<close>

definition extractResultKey :: "bytes \<Rightarrow> bytes res" where
  "extractResultKey repr =
     res_bind (slice 4 8 repr) (\<lambda>l.
       res_bind (slice 8 ((8 + le_uint32 l) mod 2 ^ 32) repr) (\<lambda>raw.
         case DecodeEngineKey raw of None \<Rightarrow> Inr [] | Some (key, _) \<Rightarrow> Inr key))"

definition getRowPrefix :: "bytes \<Rightarrow> bytes res" where
  "getRowPrefix key =
     (if key = [] then Inr []
      else case GetRowPrefixLength key of
        Inl (Panic m) \<Rightarrow> Inl (Panic m)
      | Inl (Err m) \<Rightarrow> Inr []
      | Inr n \<Rightarrow> if n \<le> 0 \<or> n \<ge> int (length key) then Inr [] else Inr (take (nat n) key))"

section \<open>The results\<close>

type_synonym buffer = "bytes \<times> nat"

record pebbleResults =
  pr_count :: int
  pr_bytes :: int
  pr_repr :: buffer
  pr_bufs :: "buffer list"
  lastOffsetsEnabled :: bool
  lastOffsets :: "nat list"
  lastOffsetIdx :: nat

definition pr_clear :: pebbleResults where
  "pr_clear = \<lparr>pr_count = 0, pr_bytes = 0, pr_repr = ([], 0), pr_bufs = [], lastOffsetsEnabled = False,
     lastOffsets = [], lastOffsetIdx = 0\<rparr>"

definition pebbleResultsKVLenSize :: nat where "pebbleResultsKVLenSize = 8"

definition pebbleResultsKVSizeOf :: "nat \<Rightarrow> nat \<Rightarrow> nat" where
  "pebbleResultsKVSizeOf lenKey lenValue = pebbleResultsKVLenSize + lenKey + lenValue"

definition sizeInfo :: "pebbleResults \<Rightarrow> nat \<Rightarrow> nat \<Rightarrow> int \<times> int \<times> int" where
  "sizeInfo p lenKey lenValue = (pr_count p, pr_bytes p, int (pebbleResultsKVSizeOf lenKey lenValue))"

function grow_size :: "nat \<Rightarrow> nat \<Rightarrow> nat" where
  "grow_size newSize lenToAdd = (if 0 < newSize \<and> newSize < lenToAdd then grow_size (newSize * 2) lenToAdd else newSize)"
  by pat_completeness auto
termination
  by (relation "measure (\<lambda>(n, l). l - n)") auto

declare grow_size.simps [simp del]

definition minSize :: nat where "minSize = 16"
definition maxSize :: nat where "maxSize = 128 * 2 ^ 20"

definition put_newSize :: "nat \<Rightarrow> nat \<Rightarrow> int \<Rightarrow> nat" where
  "put_newSize cap lenToAdd maxNewSize =
     (let newSize = 2 * cap;
          newSize = (if newSize = 0 \<or> newSize > maxSize then minSize else newSize);
          newSize = grow_size newSize lenToAdd;
          newSize = (if newSize > maxSize then maxSize else newSize);
          newSize = (if maxNewSize > 0 \<and> int newSize > maxNewSize then nat maxNewSize else newSize)
      in if newSize < lenToAdd then lenToAdd else newSize)"

definition PutUint32 :: "nat \<Rightarrow> bytes" where
  "PutUint32 v = rev (be_bytes 4 (int v))"

definition put_append :: "bytes \<Rightarrow> bytes \<Rightarrow> pebbleResults \<Rightarrow> pebbleResults res" where
  "put_append key value p =
     (let startIdx = length (fst (pr_repr p));
          lenToAdd = pebbleResultsKVSizeOf (length key) (length value);
          p = p\<lparr>pr_repr := (fst (pr_repr p) @ PutUint32 (length value) @ PutUint32 (length key) @ key @ value, snd (pr_repr p)),
                pr_count := pr_count p + 1, pr_bytes := pr_bytes p + int lenToAdd\<rparr>
      in if lastOffsetsEnabled p then
           (if lastOffsetIdx p \<ge> length (lastOffsets p) then Inl (Panic ''index out of range'')
            else
              (let p = p\<lparr>lastOffsets := (lastOffsets p)[lastOffsetIdx p := startIdx], lastOffsetIdx := lastOffsetIdx p + 1\<rparr> in
               Inr (if lastOffsetIdx p = length (lastOffsets p) then p\<lparr>lastOffsetIdx := 0\<rparr> else p)))
         else Inr p)"

text \<open>\<open>mem_ok\<close> is whether the memory account allows the new buffer.\<close>

definition put :: "bool \<Rightarrow> bytes \<Rightarrow> bytes \<Rightarrow> int \<Rightarrow> pebbleResults \<Rightarrow> pebbleResults res" where
  "put mem_ok key value maxNewSize p =
     (let lenToAdd = pebbleResultsKVSizeOf (length key) (length value) in
      if length (fst (pr_repr p)) + lenToAdd > snd (pr_repr p) then
        (if maxNewSize > 0 \<and> maxNewSize < int lenToAdd then Inl (Err ''maxNewSize is not sufficient'')
         else
           (let newSize = put_newSize (snd (pr_repr p)) lenToAdd maxNewSize;
                p = (if length (fst (pr_repr p)) > 0 then p\<lparr>pr_bufs := pr_bufs p @ [pr_repr p]\<rparr> else p)
            in if \<not> mem_ok then Inl (Err ''memory budget exceeded'')
               else put_append key value (p\<lparr>pr_repr := ([], newSize)\<rparr>)))
      else put_append key value p)"

definition continuesFirstRow :: "pebbleResults \<Rightarrow> bytes \<Rightarrow> bool res" where
  "continuesFirstRow p key =
     (let repr = (case pr_bufs p of [] \<Rightarrow> fst (pr_repr p) | b # _ \<Rightarrow> fst b) in
      if repr = [] then Inr True
      else
        res_bind (getRowPrefix key) (\<lambda>rowPrefix.
          if rowPrefix = [] then Inr False
          else res_bind (extractResultKey repr) (\<lambda>k. res_bind (getRowPrefix k) (\<lambda>q. Inr (rowPrefix = q)))))"

definition keyHasFinalColumnFamily :: "bytes \<Rightarrow> uint32 \<Rightarrow> bool \<Rightarrow> bool res" where
  "keyHasFinalColumnFamily key maxFamilyID reverse =
     (case DecodeFamilyKey key of
        Inl (Panic m) \<Rightarrow> Inl (Panic m)
      | Inl (Err m) \<Rightarrow> Inr False
      | Inr colFamilyID \<Rightarrow> Inr (if reverse then colFamilyID = 0 else colFamilyID = maxFamilyID))"

definition prev_index :: "pebbleResults \<Rightarrow> nat" where
  "prev_index p = (if lastOffsetIdx p = 0 then length (lastOffsets p) - 1 else lastOffsetIdx p - 1)"

definition last_offset :: "pebbleResults \<Rightarrow> nat res" where
  "last_offset p = (if prev_index p < length (lastOffsets p) then Inr (lastOffsets p ! prev_index p)
     else Inl (Panic ''index out of range''))"

definition lastRowHasFinalColumnFamily :: "pebbleResults \<Rightarrow> bool \<Rightarrow> bool res" where
  "lastRowHasFinalColumnFamily p reverse =
     res_bind (last_offset p) (\<lambda>lastOffset.
       res_bind (slice_from lastOffset (fst (pr_repr p))) (\<lambda>repr.
         res_bind (extractResultKey repr) (\<lambda>key.
           keyHasFinalColumnFamily key (word_of_int (int (length (lastOffsets p)) - 1)) reverse)))"

definition trim_kv :: "nat \<Rightarrow> nat \<Rightarrow> pebbleResults \<Rightarrow> pebbleResults" where
  "trim_kv lastOffset len p =
     (let i = prev_index p in
      p\<lparr>pr_repr := (take lastOffset (fst (pr_repr p)), snd (pr_repr p)), pr_count := pr_count p - 1,
        pr_bytes := pr_bytes p - int len, lastOffsetIdx := i, lastOffsets := (lastOffsets p)[i := 0]\<rparr>)"

text \<open>The loop: \<open>i\<close> counts the iterations left; the first trimmed key is \<open>None\<close> when nil.\<close>

fun trim_loop :: "nat \<Rightarrow> bytes \<Rightarrow> bytes option \<Rightarrow> pebbleResults \<Rightarrow> (bytes option \<times> pebbleResults) res" where
  "trim_loop 0 trimRowPrefix firstTrimmedKey p = Inl (Err ''row exceeds expected max size'')"
| "trim_loop (Suc i) trimRowPrefix firstTrimmedKey p =
     res_bind (last_offset p) (\<lambda>lastOffset.
     res_bind (slice_from lastOffset (fst (pr_repr p))) (\<lambda>repr.
     res_bind (extractResultKey repr) (\<lambda>key.
     res_bind (getRowPrefix key) (\<lambda>rowPrefix.
       if rowPrefix \<noteq> trimRowPrefix then Inr (firstTrimmedKey, p)
       else
         (let p = trim_kv lastOffset (length repr) p in
          if fst (pr_repr p) = [] then
            (if pr_bufs p = [] then Inr (Some key, p)
             else trim_loop i trimRowPrefix (Some key) (p\<lparr>pr_repr := last (pr_bufs p), pr_bufs := butlast (pr_bufs p)\<rparr>))
          else trim_loop i trimRowPrefix (Some key) p)))))"

definition maybeTrimPartialLastRow :: "bytes \<Rightarrow> pebbleResults \<Rightarrow> (bytes option \<times> pebbleResults) res" where
  "maybeTrimPartialLastRow nextKey p =
     (if \<not> lastOffsetsEnabled p \<or> fst (pr_repr p) = [] then Inr (None, p)
      else
        res_bind (getRowPrefix nextKey) (\<lambda>trimRowPrefix.
          if trimRowPrefix = [] then Inr (None, p)
          else trim_loop (length (lastOffsets p)) trimRowPrefix None p))"

definition finish :: "pebbleResults \<Rightarrow> bytes list" where
  "finish p = (if fst (pr_repr p) \<noteq> [] then map fst (pr_bufs p) @ [fst (pr_repr p)] else map fst (pr_bufs p))"

section \<open>The encoding of a pair\<close>

definition enc_kv :: "bytes \<times> bytes \<Rightarrow> bytes" where
  "enc_kv kv = PutUint32 (length (snd kv)) @ PutUint32 (length (fst kv)) @ fst kv @ snd kv"

definition enc_kvs :: "(bytes \<times> bytes) list \<Rightarrow> bytes" where
  "enc_kvs kvs = concat (map enc_kv kvs)"

text \<open>Keys and values whose lengths fit the 32-bit lengths of the encoding.\<close>

definition small_kv :: "bytes \<times> bytes \<Rightarrow> bool" where
  "small_kv kv \<longleftrightarrow> 8 + length (fst kv) + length (snd kv) < 2 ^ 32"

lemma length_PutUint32 [simp]: "length (PutUint32 v) = 4"
  by (simp add: PutUint32_def)

lemma le_uint32_PutUint32: "v < 2 ^ 32 \<Longrightarrow> le_uint32 (PutUint32 v @ r) = v"
  by (simp add: le_uint32_def PutUint32_def be_value_be_bytes take_bit_eq_mod nat_mod_distrib)

lemma length_enc_kv: "length (enc_kv kv) = pebbleResultsKVSizeOf (length (fst kv)) (length (snd kv))"
  by (simp add: enc_kv_def pebbleResultsKVSizeOf_def pebbleResultsKVLenSize_def)

lemma enc_kv_not_Nil [simp]: "enc_kv kv \<noteq> []"
  using length_enc_kv [of kv] by (auto simp: pebbleResultsKVSizeOf_def pebbleResultsKVLenSize_def)

lemma enc_kvs_simps [simp]: "enc_kvs [] = []" "enc_kvs (kv # kvs) = enc_kv kv @ enc_kvs kvs" "enc_kvs (as @ bs) = enc_kvs as @ enc_kvs bs"
  by (simp_all add: enc_kvs_def)

lemma enc_kvs_Nil_iff [simp]: "enc_kvs kvs = [] \<longleftrightarrow> kvs = []" "[] = enc_kvs kvs \<longleftrightarrow> kvs = []"
  by (cases kvs; simp)+

lemma enc_kvs_concat: "concat (map enc_kvs parts) = enc_kvs (concat parts)"
  by (induction parts) auto

text \<open>The key of a pair as the row functions see it.\<close>

definition key_of :: "bytes \<times> bytes \<Rightarrow> bytes" where
  "key_of kv = (case DecodeEngineKey (fst kv) of None \<Rightarrow> [] | Some (k, _) \<Rightarrow> k)"

lemma extractResultKey_enc: "small_kv kv \<Longrightarrow> extractResultKey (enc_kv kv @ r) = Inr (key_of kv)"
proof -
  assume s: "small_kv kv"
  let ?k = "fst kv" and ?v = "snd kv"
  have a: "slice 4 8 (enc_kv kv @ r) = Inr (PutUint32 (length ?k))"
    by (simp add: slice_def enc_kv_def)
  have l: "le_uint32 (PutUint32 (length ?k)) = length ?k"
    using le_uint32_PutUint32 [of "length ?k" "[]"] s by (simp add: small_kv_def)
  have b: "slice 8 (8 + length ?k) (enc_kv kv @ r) = Inr ?k"
    by (simp add: slice_def enc_kv_def)
  show ?thesis using s unfolding extractResultKey_def a by (simp add: l b small_kv_def key_of_def split: option.splits)
qed

lemma ScanDecodeKeyValue_enc:
  assumes "small_kv kv" "length (enc_kv kv @ r) < 2 ^ 32" "DecodeKey (fst kv) = Inr (k, ts)"
  shows "ScanDecodeKeyValue (enc_kv kv @ r) = Inr (k, ts, snd kv, r)"
proof -
  let ?k = "fst kv" and ?v = "snd kv"
  have l: "le_uint32 (enc_kv kv @ r) = length ?v" "le_uint32 (drop 4 (enc_kv kv @ r)) = length ?k"
    using le_uint32_PutUint32 assms(1) by (simp_all add: enc_kv_def small_kv_def)
  have n: "length (enc_kv kv @ r) = 8 + length ?k + length ?v + length r" by (simp add: enc_kv_def)
  have sl: "slice 8 (8 + length ?k) (enc_kv kv @ r) = Inr ?k"
    "slice (8 + length ?k) (8 + length ?k + length ?v) (enc_kv kv @ r) = Inr ?v"
    "slice (8 + length ?k + length ?v) (length (enc_kv kv @ r)) (enc_kv kv @ r) = Inr r"
    by (simp_all add: slice_def enc_kv_def)
  show ?thesis using assms(2) sl unfolding ScanDecodeKeyValue_def l n
    by (simp add: Let_def kvLenSize_def assms(3) add.commute [of _ 8])
qed

lemma scan_data_enc:
  assumes "\<forall>kv \<in> set kvs. small_kv kv \<and> (\<exists>k ts. DecodeKey (fst kv) = Inr (k, ts))" "length (enc_kvs kvs) < 2 ^ 32"
  shows "scan_data (\<lambda>k ts v acc. Inr (acc @ [(k, ts, v)])) (enc_kvs kvs) acc =
    Inr (acc @ map (\<lambda>kv. case projr (DecodeKey (fst kv)) of (k, ts) \<Rightarrow> (k, ts, snd kv)) kvs)"
  using assms
proof (induction kvs arbitrary: acc)
  case (Cons kv kvs)
  then obtain k ts where d: "small_kv kv" "DecodeKey (fst kv) = Inr (k, ts)" by auto
  have "ScanDecodeKeyValue (enc_kvs (kv # kvs)) = Inr (k, ts, snd kv, enc_kvs kvs)"
    using ScanDecodeKeyValue_enc [OF d(1) _ d(2)] Cons.prems(2) by simp
  then show ?case using Cons d by (subst scan_data.simps) simp
qed (simp add: scan_data.simps)

section \<open>Offsets and the ring buffer\<close>

fun offsets_from :: "nat \<Rightarrow> (bytes \<times> bytes) list \<Rightarrow> nat list" where
  "offsets_from a [] = []"
| "offsets_from a (kv # kvs) = a # offsets_from (a + length (enc_kv kv)) kvs"

lemma offsets_from_snoc: "offsets_from a (kvs @ [kv]) = offsets_from a kvs @ [a + length (enc_kvs kvs)]"
  by (induction kvs arbitrary: a) auto

definition ring :: "pebbleResults \<Rightarrow> nat list" where
  "ring p = rev (rotate (lastOffsetIdx p) (lastOffsets p))"

lemma rotate_split: "i < length xs \<Longrightarrow> rotate i xs = xs ! i # drop (Suc i) xs @ take i xs"
  by (simp add: rotate_drop_take Cons_nth_drop_Suc)

lemma rotate_Suc_index:
  assumes "i < length xs"
  shows "rotate (if Suc i = length xs then 0 else Suc i) xs = drop (Suc i) xs @ take i xs @ [xs ! i]"
  using assms by (cases "Suc i = length xs") (simp_all add: take_Suc_conv_app_nth [symmetric] rotate_drop_take)

lemma ring_push:
  assumes "lastOffsetIdx p < length (lastOffsets p)"
    and "lastOffsets q = (lastOffsets p)[lastOffsetIdx p := s]"
    and "lastOffsetIdx q = (if Suc (lastOffsetIdx p) = length (lastOffsets p) then 0 else Suc (lastOffsetIdx p))"
  shows "ring q = s # butlast (ring p)"
  using rotate_Suc_index [of "lastOffsetIdx p" "lastOffsets q"] rotate_split [OF assms(1)] assms
  by (simp add: ring_def butlast_append)

lemma prev_index_less: "lastOffsets p \<noteq> [] \<Longrightarrow> lastOffsetIdx p < length (lastOffsets p) \<Longrightarrow> prev_index p < length (lastOffsets p)"
  by (auto simp: prev_index_def)

lemma ring_prev:
  assumes "lastOffsets p \<noteq> []" "lastOffsetIdx p < length (lastOffsets p)"
  shows "ring p = lastOffsets p ! prev_index p # rev (drop (Suc (prev_index p)) (lastOffsets p) @ take (prev_index p) (lastOffsets p))"
proof -
  have "lastOffsetIdx p = (if Suc (prev_index p) = length (lastOffsets p) then 0 else Suc (prev_index p))"
    using assms by (auto simp: prev_index_def)
  then show ?thesis using rotate_Suc_index [OF prev_index_less [OF assms]] by (simp add: ring_def)
qed

lemma ring_pop:
  assumes "lastOffsets p \<noteq> []" "lastOffsetIdx p < length (lastOffsets p)"
    and "lastOffsets q = (lastOffsets p)[prev_index p := 0]" "lastOffsetIdx q = prev_index p"
  shows "ring q = tl (ring p) @ [0]"
  using rotate_split [of "prev_index p" "lastOffsets q"] prev_index_less [OF assms(1,2)] ring_prev [OF assms(1,2)] assms(3,4)
  by (simp add: ring_def)

section \<open>The results represent a list of pairs\<close>

text \<open>
  The pairs are split over the full buffers and the current one; the current buffer is empty only
  when there are no pairs; the ring holds the offsets of the last \<open>m\<close> pairs, latest first.
\<close>

definition pr_rep :: "pebbleResults \<Rightarrow> (bytes \<times> bytes) list list \<Rightarrow> (bytes \<times> bytes) list \<Rightarrow> nat \<Rightarrow> bool" where
  "pr_rep p parts cur m \<longleftrightarrow>
     map fst (pr_bufs p) = map enc_kvs parts \<and> fst (pr_repr p) = enc_kvs cur \<and> [] \<notin> set parts \<and>
     (\<forall>b \<in> insert (pr_repr p) (set (pr_bufs p)). length (fst b) \<le> snd b) \<and>
     pr_count p = int (length (concat parts @ cur)) \<and> pr_bytes p = int (length (enc_kvs (concat parts @ cur))) \<and>
     (lastOffsetsEnabled p \<longrightarrow> lastOffsetIdx p < length (lastOffsets p) \<and>
        take m (ring p) = take m (rev (concat (map (offsets_from 0) parts) @ offsets_from 0 cur)))"

definition represents :: "pebbleResults \<Rightarrow> (bytes \<times> bytes) list \<Rightarrow> nat \<Rightarrow> bool" where
  "represents p kvs m \<longleftrightarrow> m \<le> length (lastOffsets p) \<and> m \<le> length kvs \<and>
     (\<exists>parts cur. kvs = concat parts @ cur \<and> (cur = [] \<longrightarrow> parts = []) \<and> pr_rep p parts cur m)"

lemma grow_size_ge: "0 < n \<Longrightarrow> l \<le> grow_size n l"
proof (induction n l rule: grow_size.induct)
  case (1 n l)
  then show ?case by (subst grow_size.simps) auto
qed

lemma put_newSize_ge: "l \<le> put_newSize c l x"
  by (simp add: put_newSize_def Let_def)

lemma length_ring [simp]: "length (ring p) = length (lastOffsets p)"
  by (simp add: ring_def)

text \<open>Appending to the current buffer.\<close>

lemma put_append_rep:
  assumes r: "pr_rep p parts cur m" and fits: "length (fst (pr_repr p)) + pebbleResultsKVSizeOf (length k) (length v) \<le> snd (pr_repr p)"
    and m: "m \<le> length (lastOffsets p)"
  shows "\<exists>q. put_append k v p = Inr q \<and> pr_rep q parts (cur @ [(k, v)]) (min (length (lastOffsets p)) (Suc m)) \<and>
    lastOffsetsEnabled q = lastOffsetsEnabled p \<and> length (lastOffsets q) = length (lastOffsets p)"
proof -
  let ?start = "length (fst (pr_repr p))"
  define q0 where "q0 = p\<lparr>pr_repr := (fst (pr_repr p) @ enc_kv (k, v), snd (pr_repr p)),
    pr_count := pr_count p + 1, pr_bytes := pr_bytes p + int (length (enc_kv (k, v)))\<rparr>"
  have base: "map fst (pr_bufs q0) = map enc_kvs parts \<and> fst (pr_repr q0) = enc_kvs (cur @ [(k, v)]) \<and>
      (\<forall>b \<in> insert (pr_repr q0) (set (pr_bufs q0)). length (fst b) \<le> snd b) \<and> pr_count q0 = int (length (concat parts @ cur @ [(k, v)])) \<and>
      pr_bytes q0 = int (length (enc_kvs (concat parts @ cur @ [(k, v)])))"
    using r fits by (simp add: q0_def pr_rep_def length_enc_kv)
  show ?thesis
  proof (cases "lastOffsetsEnabled p")
    case False
    then have "put_append k v p = Inr q0" by (simp add: put_append_def Let_def q0_def enc_kv_def pebbleResultsKVSizeOf_def pebbleResultsKVLenSize_def)
    moreover have "pr_rep q0 parts (cur @ [(k, v)]) n" for n using base r False unfolding pr_rep_def by (simp add: q0_def)
    ultimately show ?thesis using False by (auto simp: q0_def)
  next
    case True
    then have i: "lastOffsetIdx p < length (lastOffsets p)"
      and tk: "take m (ring p) = take m (rev (concat (map (offsets_from 0) parts) @ offsets_from 0 cur))"
      using r by (simp_all add: pr_rep_def)
    define q where "q = q0\<lparr>lastOffsets := (lastOffsets p)[lastOffsetIdx p := ?start],
      lastOffsetIdx := (if Suc (lastOffsetIdx p) = length (lastOffsets p) then 0 else Suc (lastOffsetIdx p))\<rparr>"
    have run: "put_append k v p = Inr q"
      using True i by (simp add: put_append_def Let_def q_def q0_def enc_kv_def pebbleResultsKVSizeOf_def pebbleResultsKVLenSize_def)
    have rq: "ring q = ?start # butlast (ring p)" by (rule ring_push [OF i]) (simp_all add: q_def)
    let ?o = "rev (concat (map (offsets_from 0) parts) @ offsets_from 0 cur)"
    have "rev (concat (map (offsets_from 0) parts) @ offsets_from 0 (cur @ [(k, v)])) = ?start # ?o"
      using r by (simp add: offsets_from_snoc pr_rep_def)
    moreover have "take (min (length (lastOffsets p)) (Suc m)) (?start # butlast (ring p)) =
        take (min (length (lastOffsets p)) (Suc m)) (?start # ?o)"
    proof -
      obtain n where n: "length (lastOffsets p) = Suc n" using i by (cases "length (lastOffsets p)") auto
      have "take (min n m) (butlast (ring p)) = take (min n m) (ring p)" by (simp add: take_butlast n butlast_conv_take)
      also have "\<dots> = take (min n m) ?o" using tk by (metis min.commute take_take)
      finally show ?thesis by (simp add: n)
    qed
    ultimately have "take (min (length (lastOffsets p)) (Suc m)) (ring q) = take (min (length (lastOffsets p)) (Suc m))
        (rev (concat (map (offsets_from 0) parts) @ offsets_from 0 (cur @ [(k, v)])))" unfolding rq by simp
    moreover have "lastOffsetIdx q < length (lastOffsets q)" using i by (auto simp: q_def)
    moreover have "pr_bufs q = pr_bufs q0" "pr_repr q = pr_repr q0" "pr_count q = pr_count q0" "pr_bytes q = pr_bytes q0"
      "lastOffsetsEnabled q" "length (lastOffsets q) = length (lastOffsets p)" using True by (simp_all add: q_def q0_def)
    ultimately show ?thesis using run base r True by (auto simp: pr_rep_def)
  qed
qed

lemma put_represents:
  assumes r: "represents p kvs m" and mem: "mem_ok" and max: "x \<le> 0 \<or> int (pebbleResultsKVSizeOf (length k) (length v)) \<le> x"
  shows "\<exists>q. put mem_ok k v x p = Inr q \<and> represents q (kvs @ [(k, v)]) (min (length (lastOffsets p)) (Suc m)) \<and>
    lastOffsetsEnabled q = lastOffsetsEnabled p \<and> length (lastOffsets q) = length (lastOffsets p)"
proof -
  let ?l = "pebbleResultsKVSizeOf (length k) (length v)"
  obtain parts cur where pc: "kvs = concat parts @ cur" "pr_rep p parts cur m" and m: "m \<le> length (lastOffsets p)" "m \<le> length kvs"
    using r unfolding represents_def by blast
  have "\<exists>p1 parts' cur'. put mem_ok k v x p = put_append k v p1 \<and> kvs = concat parts' @ cur' \<and> pr_rep p1 parts' cur' m \<and>
      length (fst (pr_repr p1)) + ?l \<le> snd (pr_repr p1) \<and> lastOffsets p1 = lastOffsets p \<and>
      lastOffsetsEnabled p1 = lastOffsetsEnabled p"
  proof (cases "length (fst (pr_repr p)) + ?l > snd (pr_repr p)")
    case False
    then have "put mem_ok k v x p = put_append k v p" by (simp add: put_def Let_def)
    then show ?thesis using pc False by (intro exI [of _ p] exI [of _ parts] exI [of _ cur]) simp
  next
    case True
    define p1 where "p1 = (if length (fst (pr_repr p)) > 0 then p\<lparr>pr_bufs := pr_bufs p @ [pr_repr p]\<rparr> else p)
      \<lparr>pr_repr := ([], put_newSize (snd (pr_repr p)) ?l x)\<rparr>"
    define parts' where "parts' = (if cur = [] then parts else parts @ [cur])"
    have run: "put mem_ok k v x p = put_append k v p1" using True mem max by (auto simp: put_def Let_def p1_def)
    have "pr_rep p1 parts' [] m" "kvs = concat parts' @ []"
      using pc by (auto simp: p1_def parts'_def pr_rep_def ring_def)
    moreover have "?l \<le> snd (pr_repr p1)" "fst (pr_repr p1) = []" "lastOffsets p1 = lastOffsets p" "lastOffsetsEnabled p1 = lastOffsetsEnabled p"
      using put_newSize_ge by (simp_all add: p1_def)
    ultimately show ?thesis using run by (intro exI [of _ p1] exI [of _ parts'] exI [of _ "[]"]) simp
  qed
  then obtain p1 parts' cur' where p1: "put mem_ok k v x p = put_append k v p1" "kvs = concat parts' @ cur'" "pr_rep p1 parts' cur' m"
    "length (fst (pr_repr p1)) + ?l \<le> snd (pr_repr p1)" "lastOffsets p1 = lastOffsets p" "lastOffsetsEnabled p1 = lastOffsetsEnabled p"
    by blast
  obtain q where q: "put_append k v p1 = Inr q" "pr_rep q parts' (cur' @ [(k, v)]) (min (length (lastOffsets p1)) (Suc m))"
    "lastOffsetsEnabled q = lastOffsetsEnabled p1" "length (lastOffsets q) = length (lastOffsets p1)"
    using put_append_rep [OF p1(3,4)] m(1) p1(5) by auto
  have "represents q (kvs @ [(k, v)]) (min (length (lastOffsets p)) (Suc m))"
    unfolding represents_def using q(2,4) p1(2,5) m(2) by (intro conjI exI [of _ parts'] exI [of _ "cur' @ [(k, v)]"]) simp_all
  then show ?thesis using q p1 by simp
qed

section \<open>Trimming a partial row\<close>

text \<open>The last pair is found at the latest offset, and removing it leaves the pairs before it.\<close>

lemma last_pair:
  assumes r: "represents p (kvs @ [kv]) (Suc m)" and en: "lastOffsetsEnabled p"
  shows "\<exists>off. last_offset p = Inr off \<and> slice_from off (fst (pr_repr p)) = Inr (enc_kv kv) \<and>
    (let q = trim_kv off (length (enc_kv kv)) p in
     (if fst (pr_repr q) = [] then
        (if pr_bufs q = [] then kvs = [] \<and> represents q [] m
         else represents (q\<lparr>pr_repr := last (pr_bufs q), pr_bufs := butlast (pr_bufs q)\<rparr>) kvs m \<and> kvs \<noteq> [])
      else represents q kvs m \<and> kvs \<noteq> []))"
proof -
  obtain parts cur where pc: "kvs @ [kv] = concat parts @ cur" "cur = [] \<longrightarrow> parts = []" and rep: "pr_rep p parts cur (Suc m)"
    and m: "Suc m \<le> length (lastOffsets p)" "m \<le> length kvs" using r unfolding represents_def by auto
  obtain c where c: "cur = c @ [kv]" "kvs = concat parts @ c" using pc by (cases cur rule: rev_cases) auto
  let ?off = "length (enc_kvs c)"
  define rest where "rest = rev (concat (map (offsets_from 0) parts) @ offsets_from 0 c)"
  have tk: "take (Suc m) (ring p) = take (Suc m) (?off # rest)" and i: "lastOffsets p \<noteq> []" "lastOffsetIdx p < length (lastOffsets p)"
    using rep en m(1) by (auto simp: pr_rep_def c offsets_from_snoc rest_def)
  obtain tr where tr: "ring p = ?off # tr" "take m tr = take m rest"
    using tk m(1) by (cases "ring p") (auto simp: ring_def)
  have off: "last_offset p = Inr ?off" using ring_prev [OF i] prev_index_less [OF i] tr(1) by (simp add: last_offset_def)
  have sl: "slice_from ?off (fst (pr_repr p)) = Inr (enc_kv kv)" using rep by (simp add: pr_rep_def c slice_from_def)
  define q where "q = trim_kv ?off (length (enc_kv kv)) p"
  have rq: "ring q = tr @ [0]" using ring_pop [OF i, of q] tr(1) by (simp add: q_def trim_kv_def Let_def)
  have tkq: "take m (ring q) = take m rest" using tr m(1) length_ring [of p] unfolding rq by simp
  have q: "fst (pr_repr q) = enc_kvs c" "pr_bufs q = pr_bufs p" "lastOffsetIdx q < length (lastOffsets q)"
    "length (lastOffsets q) = length (lastOffsets p)" "length (fst (pr_repr q)) \<le> snd (pr_repr q)"
    "pr_count q = int (length kvs)" "pr_bytes q = int (length (enc_kvs kvs))"
    using rep prev_index_less [OF i] by (auto simp: q_def trim_kv_def Let_def pr_rep_def c)
  have bufs: "map fst (pr_bufs p) = map enc_kvs parts" "[] \<notin> set parts" "\<forall>b \<in> set (pr_bufs p). length (fst b) \<le> snd b"
    using rep by (simp_all add: pr_rep_def)
  have repq: "represents q kvs m" if "c = [] \<longrightarrow> parts = []"
    unfolding represents_def using m that q bufs c(2) tkq
    by (intro conjI exI [of _ parts] exI [of _ c]) (auto simp: pr_rep_def rest_def)
  have pop: "represents (q\<lparr>pr_repr := last (pr_bufs q), pr_bufs := butlast (pr_bufs q)\<rparr>) kvs m" if "c = []" "pr_bufs p \<noteq> []"
  proof -
    have ne: "parts \<noteq> []" using that(2) bufs(1) by auto
    have l: "fst (last (pr_bufs p)) = enc_kvs (last parts)" "map fst (butlast (pr_bufs p)) = map enc_kvs (butlast parts)"
      using bufs(1) that(2) ne by (metis last_map, metis map_butlast)
    have sp: "parts = butlast parts @ [last parts]" using ne by simp
    have ks: "kvs = concat (butlast parts) @ last parts" using c(2) that(1) sp by (metis append_Nil2 concat.simps concat_append)
    have "last parts \<noteq> []" using bufs(2) ne last_in_set by metis
    moreover have "[] \<notin> set (butlast parts)" using bufs(2) by (meson in_set_butlastD)
    moreover have "rest = rev (concat (map (offsets_from 0) (butlast parts)) @ offsets_from 0 (last parts))"
      unfolding rest_def by (subst sp) (simp add: that(1))
    moreover have "\<forall>b \<in> insert (last (pr_bufs p)) (set (butlast (pr_bufs p))). length (fst b) \<le> snd b"
      using bufs(3) that(2) by (auto dest: in_set_butlastD)
    ultimately show ?thesis unfolding represents_def using m q ks l tkq
      by (intro conjI exI [of _ "butlast parts"] exI [of _ "last parts"]) (auto simp: pr_rep_def ring_def)
  qed
  have e: "kvs = []" if "c = []" "pr_bufs p = []" using that bufs(1) c(2) by simp
  have ne: "kvs \<noteq> []" if "c \<noteq> [] \<or> pr_bufs p \<noteq> []" using that bufs(1,2) c(2) by (cases parts) auto
  have "if fst (pr_repr q) = [] then
        (if pr_bufs q = [] then kvs = [] \<and> represents q [] m
         else represents (q\<lparr>pr_repr := last (pr_bufs q), pr_bufs := butlast (pr_bufs q)\<rparr>) kvs m \<and> kvs \<noteq> [])
      else represents q kvs m \<and> kvs \<noteq> []"
    using e ne repq pop q(1,2) bufs(1) by (cases "c = []"; cases "pr_bufs p = []") simp_all
  then show ?thesis using off sl unfolding Let_def q_def by blast
qed

text \<open>What trimming does to the list of pairs.\<close>

definition row_of :: "bytes \<times> bytes \<Rightarrow> bytes" where
  "row_of kv = projr (getRowPrefix (key_of kv))"

definition row_suffix :: "bytes \<Rightarrow> (bytes \<times> bytes) list \<Rightarrow> (bytes \<times> bytes) list" where
  "row_suffix r kvs = rev (takeWhile (\<lambda>kv. row_of kv = r) (rev kvs))"

definition without_row :: "bytes \<Rightarrow> (bytes \<times> bytes) list \<Rightarrow> (bytes \<times> bytes) list" where
  "without_row r kvs = rev (dropWhile (\<lambda>kv. row_of kv = r) (rev kvs))"

lemma row_suffix_simps [simp]:
  "row_suffix r [] = []" "without_row r [] = []"
  "row_suffix r (kvs @ [kv]) = (if row_of kv = r then row_suffix r kvs @ [kv] else [])"
  "without_row r (kvs @ [kv]) = (if row_of kv = r then without_row r kvs else kvs @ [kv])"
  "row_suffix r [kv] = (if row_of kv = r then [kv] else [])" "without_row r [kv] = (if row_of kv = r then [] else [kv])"
  by (simp_all add: row_suffix_def without_row_def)

lemma row_split: "kvs = without_row r kvs @ row_suffix r kvs"
  unfolding row_suffix_def without_row_def by (metis rev_append rev_rev_ident takeWhile_dropWhile_id)

text \<open>The keys are such that the row functions do not panic.\<close>

definition good_kv :: "bytes \<times> bytes \<Rightarrow> bool" where
  "good_kv kv \<longleftrightarrow> small_kv kv \<and> is_ok (getRowPrefix (key_of kv))"

definition first_key :: "bytes option \<Rightarrow> (bytes \<times> bytes) list \<Rightarrow> bytes option" where
  "first_key d kvs = (case kvs of [] \<Rightarrow> d | kv # _ \<Rightarrow> Some (key_of kv))"

lemma trim_kv_ring [simp]:
  "lastOffsetsEnabled (trim_kv off n p) = lastOffsetsEnabled p" "length (lastOffsets (trim_kv off n p)) = length (lastOffsets p)"
  by (simp_all add: trim_kv_def Let_def)

lemma trim_loop_correct:
  assumes "represents p kvs m" "lastOffsetsEnabled p" "kvs \<noteq> []" "min i (length kvs) \<le> m" "\<forall>kv \<in> set kvs. good_kv kv"
  shows "if length (row_suffix r kvs) < i \<or> length (row_suffix r kvs) = i \<and> without_row r kvs = []
    then \<exists>q n. trim_loop i r d p = Inr (first_key d (row_suffix r kvs), q) \<and> represents q (without_row r kvs) n
    else trim_loop i r d p = Inl (Err ''row exceeds expected max size'')"
  using assms
proof (induction i arbitrary: p kvs m d)
  case 0
  have "\<not> (row_suffix r kvs = [] \<and> without_row r kvs = [])" using row_split [of kvs r] 0(3) by auto
  then show ?case by auto
next
  case (Suc i)
  obtain ks kv where kvs: "kvs = ks @ [kv]" using Suc.prems(3) by (cases kvs rule: rev_cases) auto
  obtain m' where m': "m = Suc m'" using Suc.prems(4) by (cases m) (auto simp: kvs)
  have kvm: "min i (length ks) \<le> m'" using Suc.prems(4) by (simp add: kvs m')
  have g: "small_kv kv" "getRowPrefix (key_of kv) = Inr (row_of kv)" using Suc.prems(5)
    by (auto simp: kvs good_kv_def row_of_def is_ok_iff)
  obtain off where off: "last_offset p = Inr off" "slice_from off (fst (pr_repr p)) = Inr (enc_kv kv)"
    and step: "let q = trim_kv off (length (enc_kv kv)) p in
     (if fst (pr_repr q) = [] then
        (if pr_bufs q = [] then ks = [] \<and> represents q [] m'
         else represents (q\<lparr>pr_repr := last (pr_bufs q), pr_bufs := butlast (pr_bufs q)\<rparr>) ks m' \<and> ks \<noteq> [])
      else represents q ks m' \<and> ks \<noteq> [])"
    using last_pair [of p ks kv m'] Suc.prems(1,2) unfolding kvs m' by blast
  have key: "extractResultKey (enc_kv kv) = Inr (key_of kv)" using extractResultKey_enc [OF g(1), of "[]"] by simp
  define q where "q = trim_kv off (length (enc_kv kv)) p"
  define q' where "q' = (if fst (pr_repr q) = [] then q\<lparr>pr_repr := last (pr_bufs q), pr_bufs := butlast (pr_bufs q)\<rparr> else q)"
  have en: "lastOffsetsEnabled q'" using Suc.prems(2) by (simp add: q'_def q_def)
  show ?case
  proof (cases "row_of kv = r")
    case False
    then have "trim_loop (Suc i) r d p = Inr (d, p)" by (simp add: off key g(2))
    then show ?thesis using False Suc.prems(1) by (auto simp: kvs first_key_def simp del: trim_loop.simps)
  next
    case True
    show ?thesis
    proof (cases "fst (pr_repr q) = [] \<and> pr_bufs q = []")
      case fin: True
      then have "ks = []" "represents q [] m'" using step by (simp_all add: q_def [symmetric])
      moreover have "trim_loop (Suc i) r d p = Inr (Some (key_of kv), q)" using fin True
        by (simp add: off key g(2) q_def [symmetric])
      ultimately show ?thesis using True by (auto simp: kvs first_key_def simp del: trim_loop.simps)
    next
      case False
      have "represents q' ks m' \<and> ks \<noteq> []" using step False unfolding q_def [symmetric] Let_def q'_def
        by (cases "fst (pr_repr q) = []"; cases "pr_bufs q = []") simp_all
      then have rep: "represents q' ks m'" and ne: "ks \<noteq> []" by blast+
      have run: "trim_loop (Suc i) r d p = trim_loop i r (Some (key_of kv)) q'"
        using False True by (auto simp: off key g(2) q_def [symmetric] q'_def Let_def)
      have "first_key (Some (key_of kv)) (row_suffix r ks) = first_key d (row_suffix r ks @ [kv])"
        by (simp add: first_key_def split: list.splits)
      then show ?thesis using Suc.IH [OF rep en ne kvm, of "Some (key_of kv)"] Suc.prems(5) True unfolding run
        by (auto simp: kvs split: if_splits)
    qed
  qed
qed

text \<open>The first row, and the column family of the last pair.\<close>

lemma continuesFirstRow_correct:
  assumes r: "represents p (kv # kvs) m" and g: "good_kv kv" and k: "getRowPrefix key = Inr q"
  shows "continuesFirstRow p key = Inr (q \<noteq> [] \<and> q = row_of kv)"
proof -
  obtain parts cur where pc: "kv # kvs = concat parts @ cur" "cur = [] \<longrightarrow> parts = []" "pr_rep p parts cur m"
    using r unfolding represents_def by blast
  have "\<exists>rest. (case pr_bufs p of [] \<Rightarrow> fst (pr_repr p) | b # _ \<Rightarrow> fst b) = enc_kv kv @ rest"
  proof (cases parts)
    case Nil
    then show ?thesis using pc by (auto simp: pr_rep_def)
  next
    case (Cons part ps)
    then obtain b bs where b: "pr_bufs p = b # bs" "fst b = enc_kvs part" "part \<noteq> []" using pc(3) by (auto simp: pr_rep_def)
    then obtain l where "part = kv # l" using pc(1) Cons by (cases part) auto
    then show ?thesis using b by simp
  qed
  then obtain rest where e: "(case pr_bufs p of [] \<Rightarrow> fst (pr_repr p) | b # _ \<Rightarrow> fst b) = enc_kv kv @ rest" by blast
  have "getRowPrefix (key_of kv) = Inr (row_of kv)" "small_kv kv" using g by (auto simp: good_kv_def row_of_def is_ok_iff)
  then show ?thesis unfolding continuesFirstRow_def e using k extractResultKey_enc [of kv rest] by simp
qed

lemma lastRowHasFinalColumnFamily_correct:
  assumes "represents p (kvs @ [kv]) (Suc m)" "lastOffsetsEnabled p" "small_kv kv" "DecodeFamilyKey (key_of kv) = Inr fam"
  shows "lastRowHasFinalColumnFamily p reverse =
    Inr (fam = (if reverse then 0 else word_of_int (int (length (lastOffsets p)) - 1)))"
proof -
  obtain off where o: "last_offset p = Inr off" "slice_from off (fst (pr_repr p)) = Inr (enc_kv kv)"
    using last_pair [OF assms(1,2)] by blast
  have "extractResultKey (enc_kv kv) = Inr (key_of kv)" using extractResultKey_enc [OF assms(3), of "[]"] by simp
  then show ?thesis unfolding lastRowHasFinalColumnFamily_def keyHasFinalColumnFamily_def
    by (simp only: o res_bind.simps assms(4) sum.case if_distrib split: if_split) simp
qed

section \<open>A whole scan\<close>

text \<open>A scan that keeps the last \<open>n\<close> offsets, and its puts with their size limits.\<close>

definition pr_start :: "nat \<Rightarrow> pebbleResults" where
  "pr_start n = pr_clear\<lparr>lastOffsetsEnabled := n > 0, lastOffsets := replicate n 0\<rparr>"

fun put_all :: "pebbleResults \<Rightarrow> (bytes \<times> bytes \<times> int) list \<Rightarrow> pebbleResults res" where
  "put_all p [] = Inr p"
| "put_all p ((k, v, x) # kvs) = res_bind (put True k v x p) (\<lambda>p. put_all p kvs)"

definition size_ok :: "bytes \<times> bytes \<times> int \<Rightarrow> bool" where
  "size_ok kvx = (case kvx of (k, v, x) \<Rightarrow> x \<le> 0 \<or> int (pebbleResultsKVSizeOf (length k) (length v)) \<le> x)"

lemma put_all_represents:
  assumes "represents p kvs (min n (length kvs))" "length (lastOffsets p) = n" "\<forall>y \<in> set ys. size_ok y"
  shows "\<exists>q. put_all p ys = Inr q \<and>
    represents q (kvs @ map (\<lambda>(k, v, x). (k, v)) ys) (min n (length kvs + length ys)) \<and>
    lastOffsetsEnabled q = lastOffsetsEnabled p \<and> length (lastOffsets q) = n"
  using assms
proof (induction ys arbitrary: p kvs)
  case (Cons y ys)
  obtain k v x where y: "y = (k, v, x)" by (cases y)
  obtain p1 where p1: "put True k v x p = Inr p1" "represents p1 (kvs @ [(k, v)]) (min n (Suc (min n (length kvs))))"
    "lastOffsetsEnabled p1 = lastOffsetsEnabled p" "length (lastOffsets p1) = n"
    using put_represents [OF Cons.prems(1) TrueI, of x k v] Cons.prems(2,3) by (auto simp: y size_ok_def)
  have "min n (Suc (min n (length kvs))) = min n (length (kvs @ [(k, v)]))" by simp
  then show ?case using Cons.IH [of p1 "kvs @ [(k, v)]"] p1 Cons.prems(3) by (auto simp: y)
qed simp

lemma pr_start_represents: "represents (pr_start n) [] 0"
  by (auto simp: represents_def pr_rep_def pr_start_def pr_clear_def)

lemma pr_represents_kvs: "represents p kvs m \<Longrightarrow> pr_count p = int (length kvs) \<and> pr_bytes p = int (length (enc_kvs kvs)) \<and>
    (fst (pr_repr p) = [] \<longleftrightarrow> kvs = [])"
  by (auto simp: represents_def pr_rep_def)

lemma finish_parts:
  assumes "represents p kvs m"
  shows "\<exists>parts. concat parts = kvs \<and> finish p = map enc_kvs parts"
proof -
  obtain parts cur where pc: "kvs = concat parts @ cur" "cur = [] \<longrightarrow> parts = []" "pr_rep p parts cur m"
    using assms unfolding represents_def by blast
  then show ?thesis
    by (cases "cur = []") (auto simp: finish_def pr_rep_def intro: exI [of _ "[]"] exI [of _ "parts @ [cur]"])
qed

definition decode_kv :: "bytes \<times> bytes \<Rightarrow> bytes \<times> Timestamp \<times> bytes" where
  "decode_kv kv = (case projr (DecodeKey (fst kv)) of (k, ts) \<Rightarrow> (k, ts, snd kv))"

lemma ScanDecodeKeyValues_parts:
  assumes "\<forall>part \<in> set parts. (\<forall>kv \<in> set part. small_kv kv \<and> is_ok (DecodeKey (fst kv))) \<and> length (enc_kvs part) < 2 ^ 32"
  shows "ScanDecodeKeyValues (map enc_kvs parts) (\<lambda>k ts v acc. Inr (acc @ [(k, ts, v)])) acc =
    Inr (acc @ map decode_kv (concat parts))"
  using assms
proof (induction parts arbitrary: acc)
  case (Cons part parts)
  have "scan_data (\<lambda>k ts v acc. Inr (acc @ [(k, ts, v)])) (enc_kvs part) acc = Inr (acc @ map decode_kv part)"
    using scan_data_enc [of part acc] Cons.prems unfolding decode_kv_def by (auto simp: is_ok_iff)
  then show ?case using Cons by simp
qed simp

lemma enc_kvs_part_le: "part \<in> set parts \<Longrightarrow> length (enc_kvs part) \<le> length (enc_kvs (concat parts))"
  by (induction parts) auto

text \<open>The pairs of one SQL row: column families of the same row key.\<close>

lemma getRowPrefix_row:
  assumes "MakeTenantPrefix ten = Inr tp" "InternalValue ten \<noteq> 0" "actor_ok a" "length cols < 2 ^ 61"
  shows "getRowPrefix (MakeFamilyKey (row_key tp a t i cols) fam) = Inr (row_key tp a t i cols)"
proof -
  let ?k = "row_key tp a t i cols"
  obtain f where f: "MakeFamilyKey ?k fam = ?k @ f" "f \<noteq> []" by (simp add: MakeFamilyKey_eq)
  have "?k \<noteq> []" by (simp add: row_key_def MakeTableIDIndexID_eq)
  then show ?thesis using GetRowPrefixLength_row [OF assms, of t i fam] f by (simp add: getRowPrefix_def)
qed

lemma key_of_plain: "key_of (k @ [0], v) = k"
  by (simp add: key_of_def DecodeEngineKey_def)

section \<open>Properties\<close>

text \<open>
  The results of a scan are the list of the pairs put into it: the counters are its length and
  its encoded size, and the buffers decode, in order, to the key, timestamp and value of every pair.
  This holds whatever sizes the buffers grew to.
\<close>

theorem scan_results_roundtrip:
  assumes sizes: "\<forall>y \<in> set ys. size_ok y"
    and kvs: "kvs = map (\<lambda>(k, v, x). (k, v)) ys"
    and ok: "\<forall>kv \<in> set kvs. small_kv kv \<and> is_ok (DecodeKey (fst kv))" and len: "length (enc_kvs kvs) < 2 ^ 32"
  shows "\<exists>p. put_all (pr_start n) ys = Inr p \<and> pr_count p = int (length kvs) \<and> pr_bytes p = int (length (enc_kvs kvs)) \<and>
    concat (finish p) = enc_kvs kvs \<and>
    ScanDecodeKeyValues (finish p) (\<lambda>k ts v acc. Inr (acc @ [(k, ts, v)])) [] = Inr (map decode_kv kvs)"
proof -
  obtain p where p: "put_all (pr_start n) ys = Inr p" "represents p kvs (min n (length ys))"
    using put_all_represents [of "pr_start n" "[]" n ys] pr_start_represents [of n] sizes kvs
    by (auto simp: pr_start_def pr_clear_def)
  obtain parts where parts: "concat parts = kvs" "finish p = map enc_kvs parts" using finish_parts [OF p(2)] by blast
  have "\<forall>part \<in> set parts. (\<forall>kv \<in> set part. small_kv kv \<and> is_ok (DecodeKey (fst kv))) \<and> length (enc_kvs part) < 2 ^ 32"
    using ok len enc_kvs_part_le [of _ parts] unfolding parts(1) [symmetric] by fastforce
  from ScanDecodeKeyValues_parts [OF this, of "[]"] parts
  have "ScanDecodeKeyValues (finish p) (\<lambda>k ts v acc. Inr (acc @ [(k, ts, v)])) [] = Inr (map decode_kv kvs)" by simp
  moreover have "concat (finish p) = enc_kvs kvs" unfolding parts(2) parts(1) [symmetric]
    by (rule enc_kvs_concat)
  ultimately show ?thesis using p pr_represents_kvs [OF p(2)] by blast
qed

theorem scan_results_roundtrip_witness:
  "\<exists>p. put_all (pr_start 2) [([7, 0], [9, 9], 0)] = Inr p \<and>
     ScanDecodeKeyValues (finish p) (\<lambda>k ts v acc. Inr (acc @ [(k, ts, v)])) [] = Inr [([7], noTs, [9, 9])]"
proof -
  have d: "DecodeKey [7, 0] = Inr ([7], noTs)" by (simp add: DecodeKey_def SplitMVCCKey_def)
  show ?thesis using scan_results_roundtrip [of "[([7, 0], [9, 9], 0)]" "[([7, 0], [9, 9])]" 2]
    by (auto simp: size_ok_def small_kv_def d enc_kv_def decode_kv_def)
qed

text \<open>
  C15. When the next pair belongs to the row at the end of the results, trimming removes exactly the
  trailing pairs of that row and returns the key of the first of them, so that a scan can resume at
  the start of the row; every other pair is kept. It fails exactly when the row has more pairs than
  the ring buffer has offsets, or as many and other pairs come before it; it never reads an offset that is not that of the last pair.
\<close>

theorem trim_partial_row:
  assumes sizes: "\<forall>y \<in> set ys. size_ok y" and kvs: "kvs = map (\<lambda>(k, v, x). (k, v)) ys" and ne: "kvs \<noteq> []" and n: "0 < n"
    and good: "\<forall>kv \<in> set kvs. good_kv kv" and r: "getRowPrefix nextKey = Inr r" "r \<noteq> []"
  shows "\<exists>p. put_all (pr_start n) ys = Inr p \<and>
    (if length (row_suffix r kvs) < n \<or> length (row_suffix r kvs) = n \<and> without_row r kvs = []
     then \<exists>q. maybeTrimPartialLastRow nextKey p = Inr (first_key None (row_suffix r kvs), q) \<and>
       concat (finish q) = enc_kvs (without_row r kvs) \<and> pr_count q = int (length (without_row r kvs)) \<and>
       pr_bytes q = int (length (enc_kvs (without_row r kvs)))
     else maybeTrimPartialLastRow nextKey p = Inl (Err ''row exceeds expected max size''))"
proof -
  have len: "length kvs = length ys" by (simp add: kvs)
  obtain p where p: "put_all (pr_start n) ys = Inr p" "represents p kvs (min n (length kvs))"
    "lastOffsetsEnabled p" "length (lastOffsets p) = n"
    using put_all_represents [of "pr_start n" "[]" n ys] pr_start_represents [of n] sizes n kvs len
    by (auto simp: pr_start_def pr_clear_def)
  have run: "maybeTrimPartialLastRow nextKey p = trim_loop n r None p"
    using p(3,4) pr_represents_kvs [OF p(2)] ne r by (simp add: maybeTrimPartialLastRow_def)
  have fin: "concat (finish q) = enc_kvs l \<and> pr_count q = int (length l) \<and> pr_bytes q = int (length (enc_kvs l))"
    if q: "represents q l m" for q l m
  proof -
    obtain parts where "concat parts = l" "finish q = map enc_kvs parts" using finish_parts [OF q] by blast
    then show ?thesis using enc_kvs_concat [of parts] pr_represents_kvs [OF q] by simp
  qed
  have "if length (row_suffix r kvs) < n \<or> length (row_suffix r kvs) = n \<and> without_row r kvs = []
    then \<exists>q m. maybeTrimPartialLastRow nextKey p = Inr (first_key None (row_suffix r kvs), q) \<and> represents q (without_row r kvs) m
    else maybeTrimPartialLastRow nextKey p = Inl (Err ''row exceeds expected max size'')"
    unfolding run by (rule trim_loop_correct [OF p(2,3) ne _ good]) simp
  then show ?thesis using p(1) fin by (intro exI [of _ p] conjI) (assumption, simp only: split: if_splits, blast+)
qed

theorem trim_partial_row_witness:
  "\<exists>p q. put_all (pr_start 3) [(MakeFamilyKey (row_key [] None 52 1 [0x89]) 0 @ [0], [9], 0)] = Inr p \<and>
     maybeTrimPartialLastRow (MakeFamilyKey (row_key [] None 52 1 [0x89]) 1) p =
       Inr (Some (MakeFamilyKey (row_key [] None 52 1 [0x89]) 0), q) \<and> concat (finish q) = []"
proof -
  have t: "MakeTenantPrefix SystemTenantID = Inr []" "InternalValue SystemTenantID \<noteq> 0" "actor_ok None"
    "length [0x89 :: byte] < 2 ^ 61"
    by (simp_all add: MakeTenantPrefix_def SystemTenantID_def actor_ok_def)
  let ?r = "row_key [] None 52 1 [0x89]"
  let ?kv = "(MakeFamilyKey ?r 0 @ [0], [9] :: bytes)"
  have k: "key_of ?kv = MakeFamilyKey ?r 0" by (rule key_of_plain)
  have row: "getRowPrefix (MakeFamilyKey ?r fam) = Inr ?r" for fam by (rule getRowPrefix_row [OF t])
  have "?r \<noteq> []" by (simp add: row_key_def MakeTableIDIndexID_eq)
  moreover have "good_kv ?kv" unfolding good_kv_def k row
    using uvarint_length_le [of "ucast (52 :: uint32)"] uvarint_length_le [of "ucast (1 :: uint32)"] fam_bytes_le [of 0]
    by (simp add: small_kv_def row_key_def actor_part_def MakeTableIDIndexID_eq MakeFamilyKey_eq)
  moreover have "row_of ?kv = ?r" unfolding row_of_def k row by simp
  ultimately show ?thesis
    using trim_partial_row [of "[(MakeFamilyKey ?r 0 @ [0], [9], 0)]" "[?kv]" 3 "MakeFamilyKey ?r 1" ?r] row
    by (auto simp: size_ok_def first_key_def k)
qed

text \<open>
  The 32-bit lengths wrap: a pair of \<open>2^32\<close> bytes or more (which an MVCC value cannot reach today)
  is decoded with bounds out of order, which is a panic and not the error of a truncated batch.
\<close>

lemma ScanDecodeKeyValue_wrap_panics:
  assumes "length r < 2 ^ 32 - 8"
  shows "ScanDecodeKeyValue (PutUint32 0 @ PutUint32 (2 ^ 32 - 4) @ r) = Inl (Panic ''slice bounds out of range'')"
proof -
  have "le_uint32 (PutUint32 0 @ PutUint32 (2 ^ 32 - 4) @ r) = 0"
    "le_uint32 (drop 4 (PutUint32 0 @ PutUint32 (2 ^ 32 - 4) @ r)) = 2 ^ 32 - 4"
    using le_uint32_PutUint32 [of 0] le_uint32_PutUint32 [of "2 ^ 32 - 4" r] by simp_all
  then show ?thesis using assms by (simp add: ScanDecodeKeyValue_def kvLenSize_def slice_def)
qed

end
