(* ===== verification/Mvcc_Meta.thy ===== *)
theory Mvcc_Meta
  imports Hlc_Timestamp
begin

text \<open>
  Statistics of a range and the metadata of intents, \<open>pkg/storage/enginepb/mvcc.go\<close>: the
  arithmetic of \<open>MVCCStats\<close> (64-bit, wrapping, with ages that advance by whole seconds), ignored
  sequence numbers, and the intent history that a transaction's reads search.
\<close>

section \<open>Statistics\<close>

record MVCCStats =
  ContainsEstimates :: int
  LastUpdateNanos :: int
  IntentAge :: int
  GCBytesAge :: int
  LiveBytes :: int
  LiveCount :: int
  KeyBytes :: int
  KeyCount :: int
  ValBytes :: int
  ValCount :: int
  IntentBytes :: int
  IntentCount :: int
  SeparatedIntentCount :: int
  RangeKeyCount :: int
  RangeKeyBytes :: int
  RangeValCount :: int
  RangeValBytes :: int
  SysBytes :: int
  SysCount :: int
  AbortSpanBytes :: int

definition Stats_Total :: "MVCCStats \<Rightarrow> int" where
  "Stats_Total ms = wrap64 (KeyBytes ms + ValBytes ms + RangeKeyBytes ms + RangeValBytes ms)"

definition GCBytes :: "MVCCStats \<Rightarrow> int" where
  "GCBytes ms = wrap64 (Stats_Total ms - LiveBytes ms)"

definition HasNoUserData :: "MVCCStats \<Rightarrow> bool" where
  "HasNoUserData ms \<longleftrightarrow> ContainsEstimates ms = 0 \<and> RangeKeyCount ms = 0 \<and> KeyCount ms = 0 \<and> IntentCount ms = 0"

definition AgeTo :: "int \<Rightarrow> MVCCStats \<Rightarrow> MVCCStats" where
  "AgeTo nowNanos ms =
     (let diffSeconds = wrap64 (quot nowNanos (10 ^ 9) - quot (LastUpdateNanos ms) (10 ^ 9)) in
      ms\<lparr>GCBytesAge := wrap64 (GCBytesAge ms + wrap64 (GCBytes ms * diffSeconds)),
         IntentAge := wrap64 (IntentAge ms + wrap64 (IntentCount ms * diffSeconds)),
         LastUpdateNanos := nowNanos\<rparr>)"

definition Stats_Forward :: "int \<Rightarrow> MVCCStats \<Rightarrow> MVCCStats" where
  "Stats_Forward nowNanos ms = (if LastUpdateNanos ms \<ge> nowNanos then ms else AgeTo nowNanos ms)"

definition GCByteAge :: "MVCCStats \<Rightarrow> int \<Rightarrow> int" where
  "GCByteAge ms nowNanos = GCBytesAge (AgeTo nowNanos ms)"

text \<open>The field-wise sum and difference that end \<open>Add\<close> and \<open>Subtract\<close>.\<close>

definition map2_stats :: "(int \<Rightarrow> int \<Rightarrow> int) \<Rightarrow> MVCCStats \<Rightarrow> MVCCStats \<Rightarrow> MVCCStats" where
  "map2_stats f ms oms =
     \<lparr>ContainsEstimates = f (ContainsEstimates ms) (ContainsEstimates oms),
      LastUpdateNanos = LastUpdateNanos ms,
      IntentAge = f (IntentAge ms) (IntentAge oms), GCBytesAge = f (GCBytesAge ms) (GCBytesAge oms),
      LiveBytes = f (LiveBytes ms) (LiveBytes oms), LiveCount = f (LiveCount ms) (LiveCount oms),
      KeyBytes = f (KeyBytes ms) (KeyBytes oms), KeyCount = f (KeyCount ms) (KeyCount oms),
      ValBytes = f (ValBytes ms) (ValBytes oms), ValCount = f (ValCount ms) (ValCount oms),
      IntentBytes = f (IntentBytes ms) (IntentBytes oms), IntentCount = f (IntentCount ms) (IntentCount oms),
      SeparatedIntentCount = f (SeparatedIntentCount ms) (SeparatedIntentCount oms),
      RangeKeyCount = f (RangeKeyCount ms) (RangeKeyCount oms), RangeKeyBytes = f (RangeKeyBytes ms) (RangeKeyBytes oms),
      RangeValCount = f (RangeValCount ms) (RangeValCount oms), RangeValBytes = f (RangeValBytes ms) (RangeValBytes oms),
      SysBytes = f (SysBytes ms) (SysBytes oms), SysCount = f (SysCount ms) (SysCount oms),
      AbortSpanBytes = f (AbortSpanBytes ms) (AbortSpanBytes oms)\<rparr>"

definition Stats_Add :: "MVCCStats \<Rightarrow> MVCCStats \<Rightarrow> MVCCStats" where
  "Stats_Add ms oms =
     (let ms = Stats_Forward (LastUpdateNanos oms) ms; oms = Stats_Forward (LastUpdateNanos ms) oms
      in map2_stats (\<lambda>a b. wrap64 (a + b)) ms oms)"

definition Stats_Subtract :: "MVCCStats \<Rightarrow> MVCCStats \<Rightarrow> MVCCStats" where
  "Stats_Subtract ms oms =
     (let ms = Stats_Forward (LastUpdateNanos oms) ms; oms = Stats_Forward (LastUpdateNanos ms) oms
      in map2_stats (\<lambda>a b. wrap64 (a - b)) ms oms)"

section \<open>Sequence numbers and intent histories\<close>

record IgnoredSeqNumRange =
  ig_Start :: int
  ig_End :: int

text \<open>The loop runs from the last range to the first; \<open>rev\<close> gives the ranges in that order.\<close>

fun ignored_loop :: "int \<Rightarrow> IgnoredSeqNumRange list \<Rightarrow> bool" where
  "ignored_loop seq [] = False"
| "ignored_loop seq (r # rs) =
     (if seq < ig_Start r then ignored_loop seq rs else if seq > ig_End r then False else True)"

definition TxnSeqIsIgnored :: "int \<Rightarrow> IgnoredSeqNumRange list \<Rightarrow> bool" where
  "TxnSeqIsIgnored seq ignored = ignored_loop seq (rev ignored)"

record SequencedIntent =
  si_Sequence :: int
  si_Value :: bytes

definition AddToIntentHistory :: "SequencedIntent list \<Rightarrow> int \<Rightarrow> bytes \<Rightarrow> SequencedIntent list" where
  "AddToIntentHistory hist seq val = hist @ [\<lparr>si_Sequence = seq, si_Value = val\<rparr>]"

lemma search_loop_le: "i \<le> j \<Longrightarrow> search_loop f i j \<le> j"
proof (induction f i j rule: search_loop.induct)
  case (1 f i j)
  show ?case
  proof (cases "i < j")
    case True
    define h where "h = (i + j) div 2"
    have h: "i \<le> h" "h + 1 \<le> j" "h \<le> j" using True by (simp_all add: h_def)
    have "f h \<Longrightarrow> search_loop f i h \<le> h" "\<not> f h \<Longrightarrow> search_loop f (h + 1) j \<le> j"
      using "1.IH"(2) [OF True h_def _ h(1)] "1.IH"(1) [OF True h_def _ h(2)] by blast+
    moreover have "search_loop f i j = (if f h then search_loop f i h else search_loop f (h + 1) j)"
      unfolding h_def by (rule search_loop_step [OF True])
    ultimately show ?thesis using h(3) by (simp only: split: if_split) linarith
  qed (simp add: search_loop_done "1.prems")
qed

lemma sort_Search_le: "sort_Search n f \<le> n"
  unfolding sort_Search_def by (rule search_loop_le) simp

function prev_intent_loop :: "SequencedIntent list \<Rightarrow> int \<Rightarrow> IgnoredSeqNumRange list \<Rightarrow> nat \<Rightarrow> SequencedIntent option" where
  "prev_intent_loop hist seq ignored end =
     (let index = sort_Search end (\<lambda>i. si_Sequence (hist ! i) \<ge> seq) in
      if index = 0 then None
      else
        (let candidate = index - 1 in
         if TxnSeqIsIgnored (si_Sequence (hist ! candidate)) ignored
         then prev_intent_loop hist seq ignored candidate
         else Some (hist ! candidate)))"
  by pat_completeness auto
termination
proof (relation "measure (\<lambda>(hist, seq, ignored, end). end)")
  fix hist :: "SequencedIntent list" and seq ignored "end" index candidate
  assume "index = sort_Search end (\<lambda>i. si_Sequence (hist ! i) \<ge> seq)" "index \<noteq> 0" "candidate = index - 1"
  then show "((hist, seq, ignored, candidate), (hist, seq, ignored, end)) \<in> measure (\<lambda>(hist, seq, ignored, end). end)"
    using sort_Search_le [of "end" "\<lambda>i. si_Sequence (hist ! i) \<ge> seq"] by simp
qed simp

declare prev_intent_loop.simps [simp del]

definition GetPrevIntentSeq :: "SequencedIntent list \<Rightarrow> int \<Rightarrow> IgnoredSeqNumRange list \<Rightarrow> SequencedIntent option" where
  "GetPrevIntentSeq hist seq ignored = prev_intent_loop hist seq ignored (length hist)"

definition GetIntentValue :: "SequencedIntent list \<Rightarrow> int \<Rightarrow> bytes option" where
  "GetIntentValue hist seq =
     (let index = sort_Search (length hist) (\<lambda>i. si_Sequence (hist ! i) \<ge> seq) in
      if index < length hist \<and> si_Sequence (hist ! index) = seq then Some (si_Value (hist ! index)) else None)"

section \<open>Aging and adding statistics\<close>

text \<open>Equality of two's complement values is congruence modulo \<open>2^64\<close>.\<close>

lemma wrap64_eq_iff: "wrap64 a = wrap64 b \<longleftrightarrow> a mod 2 ^ 64 = b mod 2 ^ 64"
  unfolding wrap64_def by (simp add: signed_take_bit_eq_iff_take_bit_eq take_bit_eq_mod)

lemma wrap64_wrap64 [simp]: "wrap64 (wrap64 a) = wrap64 a"
  by simp

text \<open>Every field is an \<open>int64\<close>.\<close>

definition stats_ok :: "MVCCStats \<Rightarrow> bool" where
  "stats_ok ms \<longleftrightarrow> in64 (ContainsEstimates ms) \<and> in64 (LastUpdateNanos ms) \<and> in64 (IntentAge ms) \<and> in64 (GCBytesAge ms) \<and>
     in64 (LiveBytes ms) \<and> in64 (LiveCount ms) \<and> in64 (KeyBytes ms) \<and> in64 (KeyCount ms) \<and> in64 (ValBytes ms) \<and>
     in64 (ValCount ms) \<and> in64 (IntentBytes ms) \<and> in64 (IntentCount ms) \<and> in64 (SeparatedIntentCount ms) \<and>
     in64 (RangeKeyCount ms) \<and> in64 (RangeKeyBytes ms) \<and> in64 (RangeValCount ms) \<and> in64 (RangeValBytes ms) \<and>
     in64 (SysBytes ms) \<and> in64 (SysCount ms) \<and> in64 (AbortSpanBytes ms)"

lemma GCBytes_AgeTo [simp]: "GCBytes (AgeTo n ms) = GCBytes ms" "IntentCount (AgeTo n ms) = IntentCount ms"
    "LastUpdateNanos (AgeTo n ms) = n"
  by (simp_all add: AgeTo_def Let_def GCBytes_def Stats_Total_def)

lemma AgeTo_ok [simp]: "stats_ok ms \<Longrightarrow> in64 n \<Longrightarrow> stats_ok (AgeTo n ms)"
  by (simp add: stats_ok_def AgeTo_def Let_def)

definition seconds_between :: "int \<Rightarrow> int \<Rightarrow> int" where
  "seconds_between a b = quot b (10 ^ 9) - quot a (10 ^ 9)"

lemma wrap64_linear: "wrap64 (x + wrap64 (g * wrap64 d)) = wrap64 (x + g * d)"
proof -
  have "wrap64 (x + wrap64 (g * wrap64 d)) = wrap64 (x + wrap64 (g * d))" by (simp only: wrap64_mult_wrap64)
  then show ?thesis by (simp only: wrap64_add_wrap64)
qed

text \<open>Only the final result of an age has to be wrapped.\<close>

lemma AgeTo_eq:
  "AgeTo n ms = ms\<lparr>GCBytesAge := wrap64 (GCBytesAge ms + GCBytes ms * seconds_between (LastUpdateNanos ms) n),
     IntentAge := wrap64 (IntentAge ms + IntentCount ms * seconds_between (LastUpdateNanos ms) n), LastUpdateNanos := n\<rparr>"
  unfolding AgeTo_def Let_def wrap64_linear seconds_between_def ..

lemma seconds_between_simps [simp]:
  "seconds_between a a = 0" "seconds_between a b + seconds_between b c = seconds_between a c"
  by (simp_all add: seconds_between_def)

lemma age_sum: "x + g * seconds_between a b + g * seconds_between b c = x + g * seconds_between a c"
  unfolding add.assoc distrib_left [symmetric] by simp

lemma AgeTo_self: "stats_ok ms \<Longrightarrow> AgeTo (LastUpdateNanos ms) ms = ms"
  by (simp add: AgeTo_eq stats_ok_def)

lemma AgeTo_AgeTo: "AgeTo b (AgeTo a ms) = AgeTo b ms"
proof -
  have "AgeTo b (AgeTo a ms) = (AgeTo a ms)\<lparr>
      GCBytesAge := wrap64 (GCBytesAge (AgeTo a ms) + GCBytes ms * seconds_between a b),
      IntentAge := wrap64 (IntentAge (AgeTo a ms) + IntentCount ms * seconds_between a b), LastUpdateNanos := b\<rparr>"
    using AgeTo_eq [of b "AgeTo a ms"] by simp
  also have "\<dots> = AgeTo b ms" unfolding AgeTo_eq [of b ms] AgeTo_eq [of a ms] by (simp add: age_sum)
  finally show ?thesis .
qed

lemma Stats_Forward_eq: "stats_ok ms \<Longrightarrow> Stats_Forward n ms = AgeTo (max n (LastUpdateNanos ms)) ms"
  by (simp add: Stats_Forward_def AgeTo_self max_def)

lemma Stats_Add_eq:
  assumes "stats_ok a" "stats_ok b"
  shows "Stats_Add a b = (let m = max (LastUpdateNanos a) (LastUpdateNanos b) in
    map2_stats (\<lambda>x y. wrap64 (x + y)) (AgeTo m a) (AgeTo m b))"
  using assms by (simp add: Stats_Add_def Stats_Forward_eq Let_def max.commute max.left_commute)

lemma Stats_Subtract_eq:
  assumes "stats_ok a" "stats_ok b"
  shows "Stats_Subtract a b = (let m = max (LastUpdateNanos a) (LastUpdateNanos b) in
    map2_stats (\<lambda>x y. wrap64 (x - y)) (AgeTo m a) (AgeTo m b))"
  using assms by (simp add: Stats_Subtract_def Stats_Forward_eq Let_def max.commute max.left_commute)

lemma map2_stats_ok: "in64 (LastUpdateNanos a) \<Longrightarrow> (\<And>x y. in64 (f x y)) \<Longrightarrow> stats_ok (map2_stats f a b)"
  by (simp add: stats_ok_def map2_stats_def)

lemma map2_stats_undo: "stats_ok a \<Longrightarrow> map2_stats (\<lambda>x y. wrap64 (x - y)) (map2_stats (\<lambda>x y. wrap64 (x + y)) a b) b = a"
  by (cases a) (simp add: stats_ok_def map2_stats_def)

text \<open>Aging is linear: the sum of two aged statistics is the aged sum.\<close>

lemma wrap64_eqI: "a - b = 2 ^ 64 * k \<Longrightarrow> wrap64 a = wrap64 b"
  unfolding wrap64_eq_iff by (metis diff_eq_eq mod_mult_self2 add.commute)

lemma wrap64_shift: "\<exists>k. wrap64 a = a + 2 ^ 64 * k"
proof -
  have "wrap64 a mod 2 ^ 64 = a mod 2 ^ 64" using wrap64_eq_iff [of "wrap64 a" a] by simp
  then show ?thesis by (metis mod_eqE diff_eq_eq add.commute mult.commute)
qed

lemma wrap64_bytes: "wrap64 (wrap64 (wrap64 (p + p') + wrap64 (q + q') + wrap64 (r + r') + wrap64 (s + s')) - wrap64 (l + l')) =
    wrap64 (wrap64 (wrap64 (p + q + r + s) - l) + wrap64 (wrap64 (p' + q' + r' + s') - l'))"
proof -
  obtain k1 k2 k3 k4 k5 where k: "wrap64 (p + p') = p + p' + 2 ^ 64 * k1" "wrap64 (q + q') = q + q' + 2 ^ 64 * k2"
    "wrap64 (r + r') = r + r' + 2 ^ 64 * k3" "wrap64 (s + s') = s + s' + 2 ^ 64 * k4" "wrap64 (l + l') = l + l' + 2 ^ 64 * k5"
    using wrap64_shift by meson
  have mid: "wrap64 (wrap64 (p + p') + wrap64 (q + q') + wrap64 (r + r') + wrap64 (s + s') - wrap64 (l + l')) =
      wrap64 ((p + q + r + s - l) + (p' + q' + r' + s' - l'))"
    unfolding k by (rule wrap64_eqI [of _ _ "k1 + k2 + k3 + k4 - k5"]) (simp add: algebra_simps)
  have right: "wrap64 (wrap64 (wrap64 (p + q + r + s) - l) + wrap64 (wrap64 (p' + q' + r' + s') - l')) =
      wrap64 ((p + q + r + s - l) + (p' + q' + r' + s' - l'))" by (simp only: wrap64_diff_wrap64 wrap64_add_wrap64)
  show ?thesis by (rule trans [OF wrap64_diff_wrap64(1) trans [OF mid right [symmetric]]])
qed

lemma GCBytes_map2: "GCBytes (map2_stats (\<lambda>x y. wrap64 (x + y)) a b) = wrap64 (GCBytes a + GCBytes b)"
  unfolding GCBytes_def Stats_Total_def map2_stats_def MVCCStats.simps by (rule wrap64_bytes)

lemma age_linear:
  "wrap64 (wrap64 (x + x') + wrap64 (g + g') * d) = wrap64 (wrap64 (x + g * d) + wrap64 (x' + g' * d))"
proof -
  obtain k where k: "wrap64 (g + g') = g + g' + 2 ^ 64 * k" using wrap64_shift by blast
  have "wrap64 (x + x' + wrap64 (g + g') * d) = wrap64 ((x + g * d) + (x' + g' * d))"
    unfolding k by (rule wrap64_eqI [of _ _ "k * d"]) (simp add: algebra_simps)
  then show ?thesis by (simp only: wrap64_add_wrap64)
qed

lemma AgeTo_map2:
  assumes "LastUpdateNanos a = LastUpdateNanos b"
  shows "AgeTo n (map2_stats (\<lambda>x y. wrap64 (x + y)) a b) = map2_stats (\<lambda>x y. wrap64 (x + y)) (AgeTo n a) (AgeTo n b)"
proof -
  let ?s = "map2_stats (\<lambda>x y. wrap64 (x + y)) a b"
  have "AgeTo n ?s = ?s\<lparr>GCBytesAge := wrap64 (wrap64 (GCBytesAge a + GCBytesAge b) + wrap64 (GCBytes a + GCBytes b) * seconds_between (LastUpdateNanos a) n),
     IntentAge := wrap64 (wrap64 (IntentAge a + IntentAge b) + wrap64 (IntentCount a + IntentCount b) * seconds_between (LastUpdateNanos a) n),
     LastUpdateNanos := n\<rparr>"
    unfolding AgeTo_eq GCBytes_map2 by (simp add: map2_stats_def)
  then show ?thesis unfolding age_linear unfolding AgeTo_eq assms by (simp add: map2_stats_def)
qed

lemma map2_stats_commute:
  "LastUpdateNanos a = LastUpdateNanos b \<Longrightarrow> map2_stats (\<lambda>x y. wrap64 (x + y)) a b = map2_stats (\<lambda>x y. wrap64 (x + y)) b a"
  by (simp add: map2_stats_def add.commute)

lemma map2_stats_assoc:
  "map2_stats (\<lambda>x y. wrap64 (x + y)) (map2_stats (\<lambda>x y. wrap64 (x + y)) a b) c =
   map2_stats (\<lambda>x y. wrap64 (x + y)) a (map2_stats (\<lambda>x y. wrap64 (x + y)) b c)"
  by (simp add: map2_stats_def add.assoc)

lemma LastUpdateNanos_map2 [simp]: "LastUpdateNanos (map2_stats f a b) = LastUpdateNanos a"
  by (simp add: map2_stats_def)

section \<open>Ignored sequence numbers\<close>

text \<open>The form of a list of ignored ranges: sorted and disjoint.\<close>

definition ignored_ok :: "IgnoredSeqNumRange list \<Rightarrow> bool" where
  "ignored_ok rs \<longleftrightarrow> (\<forall>r \<in> set rs. ig_Start r \<le> ig_End r) \<and> sorted_wrt (\<lambda>r q. ig_End r < ig_Start q) rs"

definition ignored_by :: "IgnoredSeqNumRange list \<Rightarrow> int \<Rightarrow> bool" where
  "ignored_by rs seq \<longleftrightarrow> (\<exists>r \<in> set rs. ig_Start r \<le> seq \<and> seq \<le> ig_End r)"

lemma ignored_loop_correct:
  "sorted_wrt (\<lambda>q r. ig_End r < ig_Start q) rs \<Longrightarrow> (\<forall>r \<in> set rs. ig_Start r \<le> ig_End r) \<Longrightarrow>
   ignored_loop seq rs \<longleftrightarrow> ignored_by rs seq"
proof (induction seq rs rule: ignored_loop.induct)
  case (2 seq r rs)
  consider "seq < ig_Start r" | "ig_Start r \<le> seq" "ig_End r < seq" | "ig_Start r \<le> seq" "seq \<le> ig_End r" by linarith
  then show ?case
  proof cases
    case 1
    then show ?thesis using 2 by (auto simp: ignored_by_def)
  next
    case 2
    have "\<forall>q \<in> set rs. ig_End q < seq" using "2.prems"(1) \<open>ig_Start r \<le> seq\<close> by force
    then have "\<forall>q \<in> set rs. \<not> seq \<le> ig_End q" by auto
    then show ?thesis using 2 by (auto simp: ignored_by_def)
  qed (auto simp: ignored_by_def)
qed (simp add: ignored_by_def)

lemma TxnSeqIsIgnored_iff: "ignored_ok rs \<Longrightarrow> TxnSeqIsIgnored seq rs \<longleftrightarrow> ignored_by rs seq"
  unfolding TxnSeqIsIgnored_def
  by (subst ignored_loop_correct) (auto simp: ignored_ok_def ignored_by_def sorted_wrt_rev)

section \<open>Searching the intent history\<close>

definition history_ok :: "SequencedIntent list \<Rightarrow> bool" where
  "history_ok hist \<longleftrightarrow> sorted_wrt (\<lambda>a b. si_Sequence a < si_Sequence b) hist"

lemma history_up_closed: "history_ok hist \<Longrightarrow> n \<le> length hist \<Longrightarrow> up_closed n (\<lambda>i. si_Sequence (hist ! i) \<ge> seq)"
  unfolding up_closed_def history_ok_def sorted_wrt_iff_nth_less
  by (metis le_less_trans le_neq_implies_less less_imp_le order.trans less_le_trans)

text \<open>The entries below \<open>end\<close> that are candidates, and the last of them.\<close>

lemma prev_intent_loop_correct:
  assumes "history_ok hist" "ignored_ok ignored" "n \<le> length hist"
    and "\<forall>i. n \<le> i \<and> i < length hist \<longrightarrow> seq \<le> si_Sequence (hist ! i) \<or> ignored_by ignored (si_Sequence (hist ! i))"
  shows "case prev_intent_loop hist seq ignored n of
      None \<Rightarrow> \<forall>e \<in> set hist. seq \<le> si_Sequence e \<or> ignored_by ignored (si_Sequence e)
    | Some e \<Rightarrow> e \<in> set hist \<and> si_Sequence e < seq \<and> \<not> ignored_by ignored (si_Sequence e) \<and>
        (\<forall>x \<in> set hist. si_Sequence x < seq \<and> \<not> ignored_by ignored (si_Sequence x) \<longrightarrow> si_Sequence x \<le> si_Sequence e)"
  using assms(3,4)
proof (induction n rule: less_induct)
  case (less n)
  define f where "f = (\<lambda>i. si_Sequence (hist ! i) \<ge> seq)"
  define k where "k = sort_Search n f"
  note S = sort_Search_least [OF history_up_closed [OF assms(1) less.prems(1), of seq, folded f_def], folded k_def]
  have above: "seq \<le> si_Sequence (hist ! i) \<or> ignored_by ignored (si_Sequence (hist ! i))" if "k \<le> i" "i < length hist" for i
    using S(3) [of i] less.prems(2) that by (cases "i < n") (auto simp: f_def)
  note unfold = prev_intent_loop.simps [of hist seq ignored n, folded f_def, folded k_def, unfolded Let_def]
  show ?case
  proof (cases "k = 0")
    case True
    then have "\<forall>e \<in> set hist. seq \<le> si_Sequence e \<or> ignored_by ignored (si_Sequence e)"
      using above by (metis in_set_conv_nth le0)
    then show ?thesis using True unfolding unfold by simp
  next
    case False
    then have c: "k - 1 < n" "k - 1 < length hist" using S(1) less.prems(1) by simp_all
    show ?thesis
    proof (cases "TxnSeqIsIgnored (si_Sequence (hist ! (k - 1))) ignored")
      case True
      then have ig: "ignored_by ignored (si_Sequence (hist ! (k - 1)))" using TxnSeqIsIgnored_iff [OF assms(2)] by blast
      have "seq \<le> si_Sequence (hist ! i) \<or> ignored_by ignored (si_Sequence (hist ! i))" if "k - 1 \<le> i" "i < length hist" for i
        using above [of i] ig that by (cases "i = k - 1") auto
      then show ?thesis using less.IH [OF c(1)] c(2) False True unfolding unfold by simp
    next
      case notig: False
      have lt: "si_Sequence (hist ! (k - 1)) < seq" using S(2) [of "k - 1"] False by (simp add: f_def)
      have "si_Sequence x \<le> si_Sequence (hist ! (k - 1))"
        if x: "x \<in> set hist" "si_Sequence x < seq \<and> \<not> ignored_by ignored (si_Sequence x)" for x
      proof -
        obtain i where i: "i < length hist" "x = hist ! i" using x(1) by (auto simp: in_set_conv_nth)
        have "\<not> k \<le> i" using above [of i] x(2) i by auto
        then have "i = k - 1 \<or> i < k - 1" by auto
        then show ?thesis using assms(1) c(2) i unfolding history_ok_def sorted_wrt_iff_nth_less by (metis order.refl less_imp_le)
      qed
      then show ?thesis using lt notig TxnSeqIsIgnored_iff [OF assms(2)] c(2) False unfolding unfold by simp
    qed
  qed
qed

lemma GetIntentValue_correct:
  assumes "history_ok hist"
  shows "GetIntentValue hist seq = Some v \<longleftrightarrow> \<lparr>si_Sequence = seq, si_Value = v\<rparr> \<in> set hist"
proof -
  define f where "f = (\<lambda>i. si_Sequence (hist ! i) \<ge> seq)"
  define k where "k = sort_Search (length hist) f"
  note S = sort_Search_least [OF history_up_closed [OF assms order.refl, of seq, folded f_def], folded k_def]
  have run: "GetIntentValue hist seq = (if k < length hist \<and> si_Sequence (hist ! k) = seq then Some (si_Value (hist ! k)) else None)"
    by (simp add: GetIntentValue_def Let_def k_def f_def)
  show ?thesis
  proof
    assume "GetIntentValue hist seq = Some v"
    then have "k < length hist" "\<lparr>si_Sequence = seq, si_Value = v\<rparr> = hist ! k" unfolding run by (auto split: if_splits)
    then show "\<lparr>si_Sequence = seq, si_Value = v\<rparr> \<in> set hist" by simp
  next
    assume "\<lparr>si_Sequence = seq, si_Value = v\<rparr> \<in> set hist"
    then obtain i where i: "i < length hist" "hist ! i = \<lparr>si_Sequence = seq, si_Value = v\<rparr>" by (auto simp: in_set_conv_nth)
    have "k \<le> i" using S(2) [of i] i by (cases "i < k") (simp_all add: f_def)
    moreover have "\<not> k < i"
    proof
      assume k: "k < i"
      then have "seq \<le> si_Sequence (hist ! k)" using S(3) [of k] i(1) by (simp add: f_def)
      then show False using assms k i unfolding history_ok_def sorted_wrt_iff_nth_less by force
    qed
    ultimately show "GetIntentValue hist seq = Some v" unfolding run using i by simp
  qed
qed

section \<open>Properties\<close>

text \<open>
  The statistics form an algebra under wrapping 64-bit arithmetic: aging in two steps is aging
  in one, whatever seconds boundaries lie between; adding is commutative and associative, although
  it first ages both sides to the later update; and subtracting what was added gives the original,
  aged to the later of the two updates.
\<close>

theorem stats_algebra:
  assumes "stats_ok a" "stats_ok b" "stats_ok c"
  shows "AgeTo m (AgeTo n a) = AgeTo m a \<and> Stats_Add a b = Stats_Add b a \<and>
    Stats_Add (Stats_Add a b) c = Stats_Add a (Stats_Add b c) \<and>
    Stats_Subtract (Stats_Add a b) b = Stats_Forward (LastUpdateNanos b) a \<and> stats_ok (Stats_Add a b)"
proof -
  let ?p = "map2_stats (\<lambda>x y. wrap64 (x + y))"
  let ?l = LastUpdateNanos
  have l: "in64 (?l a)" "in64 (?l b)" "in64 (?l c)" using assms by (simp_all add: stats_ok_def)
  then have mx: "in64 (max (?l a) (?l b))" "in64 (max (?l b) (?l c))" by (simp_all add: max_def)
  have add: "Stats_Add x y = ?p (AgeTo (max (?l x) (?l y)) x) (AgeTo (max (?l x) (?l y)) y)" if "stats_ok x" "stats_ok y" for x y
    using Stats_Add_eq [OF that] by (simp add: Let_def)
  have ok: "stats_ok (Stats_Add a b)" "stats_ok (Stats_Add b c)" using mx by (simp_all add: add assms map2_stats_ok)
  have comm: "Stats_Add a b = Stats_Add b a" using assms by (simp add: add max.commute map2_stats_commute)
  have "?l (Stats_Add a b) = max (?l a) (?l b)" "?l (Stats_Add b c) = max (?l b) (?l c)" using assms by (simp_all add: add)
  then have assoc: "Stats_Add (Stats_Add a b) c = Stats_Add a (Stats_Add b c)"
    using assms ok by (simp add: add [of "Stats_Add a b" c] add [of a "Stats_Add b c"]) (simp add: add AgeTo_map2 AgeTo_AgeTo map2_stats_assoc max.assoc)
  have "stats_ok (AgeTo (max (?l a) (?l b)) a)" using assms mx by simp
  then have "Stats_Subtract (Stats_Add a b) b = AgeTo (max (?l a) (?l b)) a"
    unfolding Stats_Subtract_eq [OF ok(1) assms(2)] Let_def
    using assms by (simp add: add AgeTo_map2 AgeTo_AgeTo map2_stats_undo)
  then show ?thesis using comm assoc ok(1) Stats_Forward_eq [OF assms(1)] AgeTo_AgeTo by (simp add: max.commute)
qed

theorem stats_algebra_witness:
  "\<exists>z. stats_ok z \<and> Stats_Add (AgeTo 5 z) z = Stats_Add z (AgeTo 5 z)"
proof -
  let ?z = "\<lparr>ContainsEstimates = 0, LastUpdateNanos = 0, IntentAge = 0, GCBytesAge = 0, LiveBytes = 1, LiveCount = 1, KeyBytes = 9,
    KeyCount = 1, ValBytes = 0, ValCount = 0, IntentBytes = 0, IntentCount = 3, SeparatedIntentCount = 0, RangeKeyCount = 0,
    RangeKeyBytes = 0, RangeValCount = 0, RangeValBytes = 0, SysBytes = 0, SysCount = 0, AbortSpanBytes = 0\<rparr>"
  have "stats_ok ?z" by (simp add: stats_ok_def in64_def MinInt64_def MaxInt64_def)
  moreover have "in64 5" by (simp add: in64_def MinInt64_def MaxInt64_def)
  ultimately have "stats_ok ?z" "stats_ok (AgeTo 5 ?z)" by simp_all
  then show ?thesis using stats_algebra by blast
qed

text \<open>
  A read of a transaction at a sequence number finds, in the history of its own intent, exactly
  the latest write before that number that was not rolled back, or nothing when there is none;
  rolled back means that the sequence number lies in an ignored range. The value written at a
  sequence number is found exactly when it is in the history.
\<close>

theorem intent_history_reads:
  assumes "history_ok hist" "ignored_ok ignored"
  shows "(case GetPrevIntentSeq hist seq ignored of
      None \<Rightarrow> \<forall>e \<in> set hist. seq \<le> si_Sequence e \<or> ignored_by ignored (si_Sequence e)
    | Some e \<Rightarrow> e \<in> set hist \<and> si_Sequence e < seq \<and> \<not> ignored_by ignored (si_Sequence e) \<and>
        (\<forall>x \<in> set hist. si_Sequence x < seq \<and> \<not> ignored_by ignored (si_Sequence x) \<longrightarrow> si_Sequence x \<le> si_Sequence e)) \<and>
    (TxnSeqIsIgnored seq ignored \<longleftrightarrow> ignored_by ignored seq) \<and>
    (GetIntentValue hist seq = Some v \<longleftrightarrow> \<lparr>si_Sequence = seq, si_Value = v\<rparr> \<in> set hist)"
  using prev_intent_loop_correct [OF assms order.refl, of seq] TxnSeqIsIgnored_iff [OF assms(2)] GetIntentValue_correct [OF assms(1)]
  by (simp add: GetPrevIntentSeq_def)

theorem intent_history_reads_witness:
  "TxnSeqIsIgnored 4 [\<lparr>ig_Start = 3, ig_End = 5\<rparr>] \<and>
   GetIntentValue [\<lparr>si_Sequence = 2, si_Value = [1]\<rparr>, \<lparr>si_Sequence = 4, si_Value = [7]\<rparr>] 4 = Some [7]"
  using intent_history_reads [of "[\<lparr>si_Sequence = 2, si_Value = [1]\<rparr>, \<lparr>si_Sequence = 4, si_Value = [7]\<rparr>]"
      "[\<lparr>ig_Start = 3, ig_End = 5\<rparr>]" 4 "[7]"]
  by (simp add: history_ok_def ignored_ok_def ignored_by_def)

end
