(* ===== verification/Txn.thy ===== *)
theory Txn
  imports Mvcc_Meta Roachpb_Span
begin

text \<open>
  Transactions, \<open>pkg/roachpb/data.go\<close>: the record every node keeps of a transaction and the
  operations that merge, restart and refresh it (\<open>Update\<close>, \<open>Restart\<close>, \<open>Refresh\<close>), its
  priority, the timestamps observed on nodes (a sorted slice), the sequence numbers that savepoint
  rollbacks ignore, and what is persisted of it. The embedded \<open>TxnMeta\<close> is part of the record. The
  random priority and the identifier of a new transaction are arguments.
\<close>

section \<open>The record\<close>

datatype TransactionStatus = PENDING | COMMITTED | ABORTED | STAGING

record SequencedWrite =
  sw_Key :: bytes
  sw_Sequence :: int

record TxnMeta =
  tx_ID :: bytes
  tx_Key :: "bytes option"
  tx_Epoch :: int
  tx_WriteTimestamp :: Timestamp
  tx_MinTimestamp :: Timestamp
  tx_Priority :: int
  tx_Sequence :: int
  tx_CoordinatorNodeID :: int

type_synonym observedTimestampSlice = "(int \<times> Timestamp) list"

record Transaction =
  tx_Meta :: TxnMeta
  tx_Name :: string
  tx_Status :: TransactionStatus
  tx_LastHeartbeat :: Timestamp
  tx_ReadTimestamp :: Timestamp
  tx_GlobalUncertaintyLimit :: Timestamp
  tx_ObservedTimestamps :: observedTimestampSlice
  tx_WriteTooOld :: bool
  tx_CommitTimestampFixed :: bool
  tx_LockSpans :: "Span list"
  tx_InFlightWrites :: "SequencedWrite list"
  tx_IgnoredSeqNums :: "IgnoredSeqNumRange list"

text \<open>A transaction without a key has the nil slice, which is not the empty key.\<close>

abbreviation key_len :: "bytes option \<Rightarrow> nat" where
  "key_len k \<equiv> (case k of None \<Rightarrow> 0 | Some b \<Rightarrow> length b)"

definition nilUUID :: bytes where "nilUUID = replicate 16 0"

definition emptyTs :: Timestamp where "emptyTs = \<lparr>WallTime = 0, Logical = 0, Synthetic = False\<rparr>"

definition IsFinalized :: "TransactionStatus \<Rightarrow> bool" where
  "IsFinalized ts \<longleftrightarrow> ts = COMMITTED \<or> ts = ABORTED"

definition MinTxnPriority :: int where "MinTxnPriority = 0"
definition MaxTxnPriority :: int where "MaxTxnPriority = MaxInt32"

abbreviation fwd :: "Timestamp \<Rightarrow> Timestamp \<Rightarrow> Timestamp" where
  "fwd t s \<equiv> fst (Timestamp_Forward t s)"

definition MakeTransaction :: "bytes \<Rightarrow> int \<Rightarrow> string \<Rightarrow> bytes option \<Rightarrow> Timestamp \<Rightarrow> int \<Rightarrow> int \<Rightarrow> Transaction" where
  "MakeTransaction u priority name baseKey now maxOffsetNs coordinatorNodeID =
     \<lparr>tx_Meta = \<lparr>tx_ID = u, tx_Key = baseKey, tx_Epoch = 0, tx_WriteTimestamp = now, tx_MinTimestamp = now,
        tx_Priority = priority, tx_Sequence = 0, tx_CoordinatorNodeID = coordinatorNodeID\<rparr>,
      tx_Name = name, tx_Status = PENDING, tx_LastHeartbeat = now, tx_ReadTimestamp = now,
      tx_GlobalUncertaintyLimit = Timestamp_Add now maxOffsetNs 0, tx_ObservedTimestamps = [], tx_WriteTooOld = False,
      tx_CommitTimestampFixed = False, tx_LockSpans = [], tx_InFlightWrites = [], tx_IgnoredSeqNums = []\<rparr>"

definition LastActive :: "Transaction \<Rightarrow> Timestamp" where
  "LastActive t = (if \<not> Synthetic (tx_ReadTimestamp t) then fwd (tx_LastHeartbeat t) (tx_ReadTimestamp t) else tx_LastHeartbeat t)"

definition RequiredFrontier :: "Transaction \<Rightarrow> Timestamp" where
  "RequiredFrontier t =
     fwd (fwd (tx_ReadTimestamp t) (tx_WriteTimestamp (tx_Meta t))) (tx_GlobalUncertaintyLimit t)"

definition AssertInitialized :: "Transaction \<Rightarrow> unit res" where
  "AssertInitialized t =
     (if tx_ID (tx_Meta t) = nilUUID \<or> Timestamp_IsEmpty (tx_WriteTimestamp (tx_Meta t)) then Inl (Panic ''uninitialized txn'') else Inr ())"

definition IsLocking :: "Transaction \<Rightarrow> bool" where
  "IsLocking t \<longleftrightarrow> tx_Key (tx_Meta t) \<noteq> None"

section \<open>Observed timestamps\<close>

definition observed_index :: "observedTimestampSlice \<Rightarrow> int \<Rightarrow> nat" where
  "observed_index s nodeID = sort_Search (length s) (\<lambda>i. fst (s ! i) \<ge> nodeID)"

definition observed_get :: "observedTimestampSlice \<Rightarrow> int \<Rightarrow> Timestamp option" where
  "observed_get s nodeID =
     (let i = observed_index s nodeID in
      if i < length s \<and> fst (s ! i) = nodeID then Some (snd (s ! i)) else None)"

definition observed_update :: "observedTimestampSlice \<Rightarrow> int \<Rightarrow> Timestamp \<Rightarrow> observedTimestampSlice" where
  "observed_update s nodeID tstamp =
     (let i = observed_index s nodeID in
      if i < length s \<and> fst (s ! i) = nodeID then
        (if Timestamp_Less tstamp (snd (s ! i)) then s[i := (nodeID, tstamp)] else s)
      else take i s @ [(nodeID, tstamp)] @ drop i s)"

definition UpdateObservedTimestamp :: "observedTimestampSlice \<Rightarrow> int \<Rightarrow> Timestamp \<Rightarrow> observedTimestampSlice" where
  "UpdateObservedTimestamp s nodeID tstamp =
     (if length s = 0 then [(nodeID, tstamp)]
      else if length s = 1 \<and> fst (s ! 0) = nodeID then
        (if Timestamp_Less tstamp (snd (s ! 0)) then [(nodeID, tstamp)] else s)
      else observed_update s nodeID tstamp)"

definition GetObservedTimestamp :: "Transaction \<Rightarrow> int \<Rightarrow> Timestamp option" where
  "GetObservedTimestamp t nodeID = observed_get (tx_ObservedTimestamps t) nodeID"

definition ResetObservedTimestamps :: "Transaction \<Rightarrow> Transaction" where
  "ResetObservedTimestamps t = t\<lparr>tx_ObservedTimestamps := []\<rparr>"

section \<open>Priority, restart, refresh\<close>

definition UpgradePriority :: "int \<Rightarrow> TxnMeta \<Rightarrow> TxnMeta" where
  "UpgradePriority minPriority t =
     (if minPriority > tx_Priority t \<and> tx_Priority t \<noteq> MinTxnPriority then t\<lparr>tx_Priority := minPriority\<rparr> else t)"

definition BumpEpoch :: "Transaction \<Rightarrow> Transaction" where
  "BumpEpoch t = t\<lparr>tx_Meta := (tx_Meta t)\<lparr>tx_Epoch := wrap32 (tx_Epoch (tx_Meta t) + 1)\<rparr>\<rparr>"

text \<open>\<open>userPriority\<close> is the value of \<open>MakePriority\<close>, which draws at random.\<close>

definition Restart :: "int \<Rightarrow> int \<Rightarrow> Timestamp \<Rightarrow> Transaction \<Rightarrow> Transaction" where
  "Restart userPriority upgradePriority tstamp t =
     (let t = BumpEpoch t;
          t = (if Timestamp_Less (tx_WriteTimestamp (tx_Meta t)) tstamp
               then t\<lparr>tx_Meta := (tx_Meta t)\<lparr>tx_WriteTimestamp := tstamp\<rparr>\<rparr> else t);
          t = t\<lparr>tx_ReadTimestamp := tx_WriteTimestamp (tx_Meta t)\<rparr>;
          t = t\<lparr>tx_Meta := UpgradePriority upgradePriority (UpgradePriority userPriority (tx_Meta t))\<rparr>
      in t\<lparr>tx_Meta := (tx_Meta t)\<lparr>tx_Sequence := 0\<rparr>, tx_WriteTooOld := False, tx_CommitTimestampFixed := False,
           tx_LockSpans := [], tx_InFlightWrites := [], tx_IgnoredSeqNums := []\<rparr>)"

definition Refresh :: "Timestamp \<Rightarrow> Transaction \<Rightarrow> Transaction" where
  "Refresh tstamp t =
     (let w = fwd (tx_WriteTimestamp (tx_Meta t)) tstamp in
      t\<lparr>tx_Meta := (tx_Meta t)\<lparr>tx_WriteTimestamp := w\<rparr>, tx_ReadTimestamp := fwd (tx_ReadTimestamp t) w, tx_WriteTooOld := False\<rparr>)"

section \<open>Update\<close>

definition update_later_epoch :: "Transaction \<Rightarrow> Transaction \<Rightarrow> Transaction" where
  "update_later_epoch t oth = 
     t\<lparr>tx_Status := (if \<not> IsFinalized (tx_Status t) then tx_Status oth else tx_Status t),
       tx_Meta := (tx_Meta t)\<lparr>tx_Epoch := tx_Epoch (tx_Meta oth), tx_Sequence := tx_Sequence (tx_Meta oth)\<rparr>,
       tx_WriteTooOld := tx_WriteTooOld oth, tx_CommitTimestampFixed := tx_CommitTimestampFixed oth,
       tx_LockSpans := tx_LockSpans oth, tx_InFlightWrites := tx_InFlightWrites oth, tx_IgnoredSeqNums := tx_IgnoredSeqNums oth\<rparr>"

definition same_epoch_status :: "TransactionStatus \<Rightarrow> TransactionStatus \<Rightarrow> TransactionStatus" where
  "same_epoch_status ts os =
     (case ts of PENDING \<Rightarrow> os | STAGING \<Rightarrow> (if os \<noteq> PENDING then os else ts) | ABORTED \<Rightarrow> ts | COMMITTED \<Rightarrow> ts)"

definition update_same_epoch :: "Transaction \<Rightarrow> Transaction \<Rightarrow> Transaction" where
  "update_same_epoch t oth =
     (let t = t\<lparr>tx_Status := same_epoch_status (tx_Status t) (tx_Status oth)\<rparr>;
          t = (if tx_ReadTimestamp t = tx_ReadTimestamp oth
               then t\<lparr>tx_WriteTooOld := tx_WriteTooOld t \<or> tx_WriteTooOld oth,
                      tx_CommitTimestampFixed := tx_CommitTimestampFixed t \<or> tx_CommitTimestampFixed oth\<rparr>
               else if Timestamp_Less (tx_ReadTimestamp t) (tx_ReadTimestamp oth)
               then t\<lparr>tx_WriteTooOld := tx_WriteTooOld oth, tx_CommitTimestampFixed := tx_CommitTimestampFixed oth\<rparr>
               else t);
          t = (if tx_Sequence (tx_Meta t) < tx_Sequence (tx_Meta oth)
               then t\<lparr>tx_Meta := (tx_Meta t)\<lparr>tx_Sequence := tx_Sequence (tx_Meta oth)\<rparr>\<rparr> else t);
          t = (if length (tx_LockSpans oth) > 0 then t\<lparr>tx_LockSpans := tx_LockSpans oth\<rparr> else t);
          t = (if length (tx_InFlightWrites oth) > 0 then t\<lparr>tx_InFlightWrites := tx_InFlightWrites oth\<rparr> else t)
      in if length (tx_IgnoredSeqNums oth) > 0 then t\<lparr>tx_IgnoredSeqNums := tx_IgnoredSeqNums oth\<rparr> else t)"

definition update_earlier_epoch :: "Transaction \<Rightarrow> Transaction \<Rightarrow> Transaction" where
  "update_earlier_epoch t oth = (if tx_Status oth = ABORTED then t\<lparr>tx_Status := ABORTED\<rparr> else t)"

text \<open>The part of \<open>Update\<close> after the epochs: timestamps, observations, priority.\<close>

definition update_common :: "Transaction \<Rightarrow> Transaction \<Rightarrow> Transaction" where
  "update_common t oth =
     (let m = tx_Meta t; om = tx_Meta oth;
          m = m\<lparr>tx_WriteTimestamp := fwd (tx_WriteTimestamp m) (tx_WriteTimestamp om)\<rparr>;
          m = (if Timestamp_IsEmpty (tx_MinTimestamp m) then m\<lparr>tx_MinTimestamp := tx_MinTimestamp om\<rparr>
               else if \<not> Timestamp_IsEmpty (tx_MinTimestamp om)
               then m\<lparr>tx_MinTimestamp := Timestamp_Backward (tx_MinTimestamp m) (tx_MinTimestamp om)\<rparr> else m)
      in t\<lparr>tx_Meta := UpgradePriority (tx_Priority om) m,
           tx_LastHeartbeat := fwd (tx_LastHeartbeat t) (tx_LastHeartbeat oth),
           tx_GlobalUncertaintyLimit := fwd (tx_GlobalUncertaintyLimit t) (tx_GlobalUncertaintyLimit oth),
           tx_ReadTimestamp := fwd (tx_ReadTimestamp t) (tx_ReadTimestamp oth),
           tx_ObservedTimestamps := fold (\<lambda>(n, ts) s. UpdateObservedTimestamp s n ts) (tx_ObservedTimestamps oth) (tx_ObservedTimestamps t)\<rparr>)"

definition Transaction_Update :: "Transaction \<Rightarrow> Transaction option \<Rightarrow> Transaction res" where
  "Transaction_Update t other_txn =
     (case other_txn of None \<Rightarrow> Inr t | Some oth \<Rightarrow>
      res_bind (AssertInitialized oth) (\<lambda>_.
        if tx_ID (tx_Meta t) = nilUUID then Inr oth
        else if tx_ID (tx_Meta t) \<noteq> tx_ID (tx_Meta oth) then Inl (Panic ''updating txn with different txn'')
        else
          (let t = (if key_len (tx_Key (tx_Meta t)) = 0 then t\<lparr>tx_Meta := (tx_Meta t)\<lparr>tx_Key := tx_Key (tx_Meta oth)\<rparr>\<rparr> else t);
               t = (if tx_Epoch (tx_Meta t) < tx_Epoch (tx_Meta oth) then update_later_epoch t oth
                    else if tx_Epoch (tx_Meta t) = tx_Epoch (tx_Meta oth) then update_same_epoch t oth
                    else update_earlier_epoch t oth)
           in Inr (update_common t oth))))"

section \<open>Ignored sequence numbers, records, locks\<close>

definition AddIgnoredSeqNumRange :: "IgnoredSeqNumRange \<Rightarrow> Transaction \<Rightarrow> Transaction" where
  "AddIgnoredSeqNumRange newRange t =
     (let list = tx_IgnoredSeqNums t;
          i = sort_Search (length list) (\<lambda>i. ig_End (list ! i) \<ge> ig_Start newRange)
      in t\<lparr>tx_IgnoredSeqNums := take i list @ [newRange]\<rparr>)"

definition SequencedWrite_Find :: "SequencedWrite list \<Rightarrow> int \<Rightarrow> int" where
  "SequencedWrite_Find s seq =
     (let i = sort_Search (length s) (\<lambda>i. sw_Sequence (s ! i) \<ge> seq) in
      if i < length s \<and> sw_Sequence (s ! i) = seq then int i else -1)"

record TransactionRecord =
  tr_Meta :: TxnMeta
  tr_Status :: TransactionStatus
  tr_LastHeartbeat :: Timestamp
  tr_LockSpans :: "Span list"
  tr_InFlightWrites :: "SequencedWrite list"
  tr_IgnoredSeqNums :: "IgnoredSeqNumRange list"

definition AsRecord :: "Transaction \<Rightarrow> TransactionRecord" where
  "AsRecord t = \<lparr>tr_Meta = tx_Meta t, tr_Status = tx_Status t, tr_LastHeartbeat = tx_LastHeartbeat t,
     tr_LockSpans = tx_LockSpans t, tr_InFlightWrites = tx_InFlightWrites t, tr_IgnoredSeqNums = tx_IgnoredSeqNums t\<rparr>"

definition AsTransaction :: "TransactionRecord \<Rightarrow> Transaction" where
  "AsTransaction r = \<lparr>tx_Meta = tr_Meta r, tx_Name = [], tx_Status = tr_Status r, tx_LastHeartbeat = tr_LastHeartbeat r,
     tx_ReadTimestamp = emptyTs, tx_GlobalUncertaintyLimit = emptyTs, tx_ObservedTimestamps = [], tx_WriteTooOld = False,
     tx_CommitTimestampFixed = False, tx_LockSpans = tr_LockSpans r, tx_InFlightWrites = tr_InFlightWrites r,
     tx_IgnoredSeqNums = tr_IgnoredSeqNums r\<rparr>"

record LockUpdate =
  lu_Span :: Span
  lu_Txn :: TxnMeta
  lu_Status :: TransactionStatus
  lu_IgnoredSeqNums :: "IgnoredSeqNumRange list"

definition MakeLockUpdate :: "Transaction \<Rightarrow> Span \<Rightarrow> LockUpdate" where
  "MakeLockUpdate txn span =
     \<lparr>lu_Span = span, lu_Txn = tx_Meta txn, lu_Status = tx_Status txn, lu_IgnoredSeqNums = tx_IgnoredSeqNums txn\<rparr>"

definition LocksAsLockUpdates :: "Transaction \<Rightarrow> LockUpdate list" where
  "LocksAsLockUpdates t = map (MakeLockUpdate t) (tx_LockSpans t)"


section \<open>The sorted slice is a map from nodes to timestamps\<close>

definition obs_ok :: "observedTimestampSlice \<Rightarrow> bool" where
  "obs_ok s \<longleftrightarrow> sorted_wrt (<) (map fst s)"

lemma observed_index_parts:
  assumes "obs_ok s"
  shows "observed_index s n \<le> length s" "x \<in> set (take (observed_index s n) s) \<Longrightarrow> fst x < n"
    "x \<in> set (drop (observed_index s n) s) \<Longrightarrow> n \<le> fst x"
proof -
  have "sorted_wrt (\<lambda>a b. fst a \<ge> n \<longrightarrow> fst b \<ge> n) s"
    using assms unfolding obs_ok_def sorted_wrt_map by (rule sorted_wrt_mono_rel [rotated]) force
  note S = sort_Search_split [OF this, folded observed_index_def]
  show "observed_index s n \<le> length s" by (rule S(1))
  show "x \<in> set (take (observed_index s n) s) \<Longrightarrow> fst x < n" "x \<in> set (drop (observed_index s n) s) \<Longrightarrow> n \<le> fst x"
    unfolding S(2,3) by auto
qed

lemma sorted_append_drop:
  "obs_ok (xs @ ys) \<longleftrightarrow> obs_ok xs \<and> obs_ok ys \<and> (\<forall>x \<in> set xs. \<forall>y \<in> set ys. fst x < fst y)"
  by (auto simp: obs_ok_def sorted_wrt_append)

text \<open>Every slice splits at a node into the entries before it, its own entry if any, and the later ones.\<close>

lemma obs_split:
  assumes "obs_ok s"
  obtains (present) a ts b where "s = a @ (n, ts) # b" "observed_index s n = length a"
      "\<forall>x \<in> set a. fst x < n" "\<forall>x \<in> set b. n < fst x" "obs_ok a" "obs_ok b"
    | (absent) a b where "s = a @ b" "observed_index s n = length a"
      "\<forall>x \<in> set a. fst x < n" "\<forall>x \<in> set b. n < fst x" "obs_ok a" "obs_ok b"
proof -
  define i a r where "i = observed_index s n" and "a = take i s" and "r = drop i s"
  note P = observed_index_parts [OF assms, where n = n, folded i_def, folded a_def r_def]
  have s: "s = a @ r" and len: "observed_index s n = length a" using P(1) by (simp_all add: a_def r_def i_def)
  have ok: "obs_ok a" "obs_ok r" using assms by (simp_all add: s sorted_append_drop)
  have lo: "\<forall>x \<in> set a. fst x < n" using P(2) by blast
  show thesis
  proof (cases "r \<noteq> [] \<and> fst (hd r) = n")
    case True
    then obtain ts b where r: "r = (n, ts) # b" by (cases r) auto
    show thesis
      by (rule present [OF s [unfolded r] len lo]) (use ok in \<open>auto simp: r obs_ok_def\<close>)
  next
    case False
    have "n < fst x" if "x \<in> set r" for x
      using P(3) [of x] P(3) [of "hd r"] ok(2) that False by (cases r) (auto simp: obs_ok_def)
    then show thesis by (intro absent [OF s len lo]) (use ok in auto)
  qed
qed

lemma observed_get_map_of:
  assumes "obs_ok s"
  shows "observed_get s n = map_of s n"
  using assms
proof (cases rule: obs_split [of s n])
  case (present a ts b)
  moreover have "map_of a n = None" using present(3) by (fastforce simp: map_of_eq_None_iff)
  ultimately show ?thesis by (simp add: observed_get_def map_add_def)
next
  case (absent a b)
  moreover have "map_of a n = None" "map_of b n = None" using absent(3,4) by (fastforce simp: map_of_eq_None_iff)+
  moreover have "\<not> (length a < length s \<and> fst (s ! length a) = n)"
    using absent by (auto simp: nth_append neq_Nil_conv)
  ultimately show ?thesis by (auto simp: observed_get_def map_add_def)
qed

lemma map_of_outside: "\<forall>x \<in> set b. n < fst x \<Longrightarrow> map_of b n = None" "\<forall>x \<in> set a. fst x < (n :: int) \<Longrightarrow> map_of a n = None"
  by (fastforce simp: map_of_eq_None_iff)+

lemma obs_join: "\<forall>x \<in> set a. fst x < n \<Longrightarrow> \<forall>x \<in> set b. n < fst x \<Longrightarrow> obs_ok a \<Longrightarrow> obs_ok b \<Longrightarrow> obs_ok (a @ (n, u) # b)"
  by (auto simp: obs_ok_def sorted_wrt_append intro: less_trans)

text \<open>What an update leaves at a node: the lower of the two timestamps, the old one on a tie.\<close>

definition obs_min :: "Timestamp option \<Rightarrow> Timestamp \<Rightarrow> Timestamp" where
  "obs_min old ts = (case old of None \<Rightarrow> ts | Some t \<Rightarrow> if Timestamp_Less ts t then ts else t)"

lemma observed_update_correct:
  assumes "obs_ok s"
  shows "obs_ok (observed_update s n ts) \<and> map_of (observed_update s n ts) = (map_of s)(n \<mapsto> obs_min (map_of s n) ts)"
  using assms
proof (cases rule: obs_split [of s n])
  case (present a t b)
  have "observed_update s n ts = a @ (n, if Timestamp_Less ts t then ts else t) # b"
    using present(1,2) by (simp add: observed_update_def list_update_append)
  moreover note obs_join [OF present(3-6)]
  ultimately show ?thesis
    using map_of_outside(2) [OF present(3)] by (auto simp: present(1) obs_min_def map_add_def fun_eq_iff split: option.split)
next
  case (absent a b)
  have "\<not> (length a < length s \<and> fst (s ! length a) = n)" using absent(1,4) by (auto simp: nth_append neq_Nil_conv)
  then have "observed_update s n ts = a @ (n, ts) # b" using absent(1,2) by (auto simp: observed_update_def Let_def)
  moreover note obs_join [OF absent(3-6)]
  ultimately show ?thesis
    using map_of_outside(2) [OF absent(3)] map_of_outside(1) [OF absent(4)]
    by (auto simp: absent(1) obs_min_def map_add_def fun_eq_iff split: option.split)
qed

lemma UpdateObserved_eq: "UpdateObservedTimestamp s n ts = observed_update s n ts" if "obs_ok s"
proof -
  consider "s = []" | t where "s = [(n, t)]" | "s \<noteq> []" "\<not> (length s = 1 \<and> fst (s ! 0) = n)"
    by (cases s) (auto, metis length_0_conv list.size(3) surj_pair)
  then show ?thesis
  proof cases
    case 2
    then have "observed_index s n = 0" by (simp add: observed_index_def sort_Search_def search_loop.simps)
    then show ?thesis by (simp add: 2 UpdateObservedTimestamp_def observed_update_def)
  qed (auto simp: UpdateObservedTimestamp_def observed_update_def observed_index_def sort_Search_def search_loop.simps)
qed

lemma UpdateObserved_correct:
  assumes "obs_ok s"
  shows "obs_ok (UpdateObservedTimestamp s n ts)" "map_of (UpdateObservedTimestamp s n ts) = (map_of s)(n \<mapsto> obs_min (map_of s n) ts)"
  using observed_update_correct [OF assms] by (simp_all add: UpdateObserved_eq [OF assms])

text \<open>An observation that does not lower the recorded timestamp leaves the slice as it is.\<close>

lemma UpdateObserved_noop:
  assumes "obs_ok s" "map_of s n = Some t" "\<not> Timestamp_Less ts t"
  shows "UpdateObservedTimestamp s n ts = s"
  using assms(1)
proof (cases rule: obs_split [of s n])
  case (present a u b)
  then have "u = t" using assms(2) map_of_outside(2) [OF present(3)] by (simp add: map_add_def)
  then show ?thesis unfolding UpdateObserved_eq [OF assms(1)] using assms(3) present(1,2) by (simp add: observed_update_def)
next
  case (absent a b)
  then show ?thesis using assms(2) map_of_outside by (fastforce simp: map_add_def)
qed

text \<open>Merging the observations of another copy of the transaction.\<close>

abbreviation merge_observed :: "observedTimestampSlice \<Rightarrow> observedTimestampSlice \<Rightarrow> observedTimestampSlice" where
  "merge_observed s os \<equiv> fold (\<lambda>(n, ts) s. UpdateObservedTimestamp s n ts) os s"

definition obs_below :: "observedTimestampSlice \<Rightarrow> int \<Rightarrow> Timestamp \<Rightarrow> bool" where
  "obs_below s n ts \<longleftrightarrow> (\<exists>t. map_of s n = Some t \<and> \<not> Timestamp_Less ts t)"

lemma obs_below_update:
  assumes "obs_ok s"
  shows "obs_below (UpdateObservedTimestamp s n ts) n ts"
    "obs_below s m t \<Longrightarrow> obs_below (UpdateObservedTimestamp s n ts) m t"
  using ts_less_trans by (auto simp: obs_below_def UpdateObserved_correct [OF assms] obs_min_def split: option.split)

lemma merge_observed_ok: "obs_ok s \<Longrightarrow> obs_ok (merge_observed s os)"
  by (induction os arbitrary: s) (auto simp: UpdateObserved_correct)

lemma obs_below_merge: "obs_ok s \<Longrightarrow> obs_below s m t \<Longrightarrow> obs_below (merge_observed s os) m t"
  by (induction os arbitrary: s) (auto simp: UpdateObserved_correct obs_below_update)

lemma merge_observed_below: "obs_ok s \<Longrightarrow> (n, ts) \<in> set os \<Longrightarrow> obs_below (merge_observed s os) n ts"
  by (induction os arbitrary: s) (auto simp: UpdateObserved_correct obs_below_update obs_below_merge)

lemma merge_observed_noop: "obs_ok s \<Longrightarrow> \<forall>(n, ts) \<in> set os. obs_below s n ts \<Longrightarrow> merge_observed s os = s"
  by (induction os) (auto simp: obs_below_def UpdateObserved_noop)

lemma merge_observed_idem: "obs_ok s \<Longrightarrow> merge_observed (merge_observed s os) os = merge_observed s os"
  by (rule merge_observed_noop) (auto simp: merge_observed_ok merge_observed_below)

text \<open>The merged slice records, per node, a timestamp of one of the two copies that is not above any of them.\<close>

lemma merge_observed_source:
  "obs_ok s \<Longrightarrow> map_of (merge_observed s os) n = Some t \<Longrightarrow> map_of s n = Some t \<or> (n, t) \<in> set os"
proof (induction os arbitrary: s)
  case (Cons e os)
  show ?case using Cons.IH [of "UpdateObservedTimestamp s (fst e) (snd e)"] Cons.prems
    by (auto simp: UpdateObserved_correct obs_min_def case_prod_unfold split: if_splits option.splits)
qed simp

section \<open>Update ratchets\<close>

lemma fwd_idem: "fwd (fwd a b) b = fwd a b"
  by (auto simp: Timestamp_Forward_def bothSynthetic_def ts_order_defs)

lemma UpgradePriority_idem: "UpgradePriority p (UpgradePriority p m) = UpgradePriority p m"
  by (simp add: UpgradePriority_def)

lemma UpgradePriority_simps [simp]:
  "tx_ID (UpgradePriority p m) = tx_ID m" "tx_Key (UpgradePriority p m) = tx_Key m" "tx_Epoch (UpgradePriority p m) = tx_Epoch m"
  "tx_WriteTimestamp (UpgradePriority p m) = tx_WriteTimestamp m" "tx_MinTimestamp (UpgradePriority p m) = tx_MinTimestamp m"
  "tx_Sequence (UpgradePriority p m) = tx_Sequence m" "tx_CoordinatorNodeID (UpgradePriority p m) = tx_CoordinatorNodeID m"
  "tx_Priority (UpgradePriority p m) = (if tx_Priority m = MinTxnPriority then MinTxnPriority else max (tx_Priority m) p)"
  by (auto simp: UpgradePriority_def)

text \<open>\<open>txn_join\<close> is what \<open>Update\<close> computes for two copies of the same transaction.\<close>

definition txn_join :: "Transaction \<Rightarrow> Transaction \<Rightarrow> Transaction" where
  "txn_join t oth =
     (let t = (if key_len (tx_Key (tx_Meta t)) = 0 then t\<lparr>tx_Meta := (tx_Meta t)\<lparr>tx_Key := tx_Key (tx_Meta oth)\<rparr>\<rparr> else t)
      in update_common
           (if tx_Epoch (tx_Meta t) < tx_Epoch (tx_Meta oth) then update_later_epoch t oth
            else if tx_Epoch (tx_Meta t) = tx_Epoch (tx_Meta oth) then update_same_epoch t oth
            else update_earlier_epoch t oth) oth)"

lemma Update_join:
  assumes "tx_ID (tx_Meta oth) \<noteq> nilUUID" "\<not> Timestamp_IsEmpty (tx_WriteTimestamp (tx_Meta oth))" "tx_ID (tx_Meta t) = tx_ID (tx_Meta oth)"
  shows "Transaction_Update t (Some oth) = Inr (txn_join t oth)"
  using assms by (simp add: Transaction_Update_def AssertInitialized_def txn_join_def Let_def)

definition join_min :: "Timestamp \<Rightarrow> Timestamp \<Rightarrow> Timestamp" where
  "join_min a b = (if Timestamp_IsEmpty a then b else if \<not> Timestamp_IsEmpty b then Timestamp_Backward a b else a)"

definition by_epoch :: "Transaction \<Rightarrow> Transaction \<Rightarrow> 'a \<Rightarrow> 'a \<Rightarrow> 'a \<Rightarrow> 'a" where
  "by_epoch t oth later same earlier =
     (if tx_Epoch (tx_Meta t) < tx_Epoch (tx_Meta oth) then later
      else if tx_Epoch (tx_Meta t) = tx_Epoch (tx_Meta oth) then same else earlier)"

definition by_read :: "Transaction \<Rightarrow> Transaction \<Rightarrow> (Transaction \<Rightarrow> bool) \<Rightarrow> bool" where
  "by_read t oth f =
     (if tx_ReadTimestamp t = tx_ReadTimestamp oth then f t \<or> f oth
      else if Timestamp_Less (tx_ReadTimestamp t) (tx_ReadTimestamp oth) then f oth else f t)"

definition epoch_step :: "Transaction \<Rightarrow> Transaction \<Rightarrow> Transaction" where
  "epoch_step t oth = by_epoch t oth (update_later_epoch t oth) (update_same_epoch t oth) (update_earlier_epoch t oth)"

definition key_step :: "Transaction \<Rightarrow> Transaction \<Rightarrow> Transaction" where
  "key_step t oth = t\<lparr>tx_Meta := (tx_Meta t)\<lparr>tx_Key := if key_len (tx_Key (tx_Meta t)) = 0 then tx_Key (tx_Meta oth) else tx_Key (tx_Meta t)\<rparr>\<rparr>"

lemma txn_join_steps: "txn_join t oth = update_common (epoch_step (key_step t oth) oth) oth"
  by (simp add: txn_join_def epoch_step_def key_step_def Let_def by_epoch_def)

lemma key_step_simps [simp]:
  "tx_Meta (key_step t oth) = (tx_Meta t)\<lparr>tx_Key := if key_len (tx_Key (tx_Meta t)) = 0 then tx_Key (tx_Meta oth) else tx_Key (tx_Meta t)\<rparr>"
  "tx_Name (key_step t oth) = tx_Name t" "tx_Status (key_step t oth) = tx_Status t"
  "tx_LastHeartbeat (key_step t oth) = tx_LastHeartbeat t" "tx_ReadTimestamp (key_step t oth) = tx_ReadTimestamp t"
  "tx_GlobalUncertaintyLimit (key_step t oth) = tx_GlobalUncertaintyLimit t" "tx_ObservedTimestamps (key_step t oth) = tx_ObservedTimestamps t"
  "tx_WriteTooOld (key_step t oth) = tx_WriteTooOld t" "tx_CommitTimestampFixed (key_step t oth) = tx_CommitTimestampFixed t"
  "tx_LockSpans (key_step t oth) = tx_LockSpans t" "tx_InFlightWrites (key_step t oth) = tx_InFlightWrites t"
  "tx_IgnoredSeqNums (key_step t oth) = tx_IgnoredSeqNums t"
  by (simp_all add: key_step_def)

lemma by_epoch_key_step [simp]: "by_epoch (key_step t oth) oth = by_epoch t oth"
  by (simp add: by_epoch_def fun_eq_iff)

lemma by_read_key_step [simp]:
  "by_read (key_step t oth) oth tx_WriteTooOld = by_read t oth tx_WriteTooOld"
  "by_read (key_step t oth) oth tx_CommitTimestampFixed = by_read t oth tx_CommitTimestampFixed"
  by (simp_all add: by_read_def)

lemma update_common_simps [simp]:
  "tx_Name (update_common t oth) = tx_Name t" "tx_Status (update_common t oth) = tx_Status t"
  "tx_LastHeartbeat (update_common t oth) = fwd (tx_LastHeartbeat t) (tx_LastHeartbeat oth)"
  "tx_ReadTimestamp (update_common t oth) = fwd (tx_ReadTimestamp t) (tx_ReadTimestamp oth)"
  "tx_GlobalUncertaintyLimit (update_common t oth) = fwd (tx_GlobalUncertaintyLimit t) (tx_GlobalUncertaintyLimit oth)"
  "tx_ObservedTimestamps (update_common t oth) = merge_observed (tx_ObservedTimestamps t) (tx_ObservedTimestamps oth)"
  "tx_WriteTooOld (update_common t oth) = tx_WriteTooOld t" "tx_CommitTimestampFixed (update_common t oth) = tx_CommitTimestampFixed t"
  "tx_LockSpans (update_common t oth) = tx_LockSpans t" "tx_InFlightWrites (update_common t oth) = tx_InFlightWrites t"
  "tx_IgnoredSeqNums (update_common t oth) = tx_IgnoredSeqNums t"
  "tx_Meta (update_common t oth) = UpgradePriority (tx_Priority (tx_Meta oth)) ((tx_Meta t)
     \<lparr>tx_WriteTimestamp := fwd (tx_WriteTimestamp (tx_Meta t)) (tx_WriteTimestamp (tx_Meta oth)),
      tx_MinTimestamp := join_min (tx_MinTimestamp (tx_Meta t)) (tx_MinTimestamp (tx_Meta oth))\<rparr>)"
  by (simp_all add: update_common_def Let_def join_min_def)

lemma same_epoch_simps:
  "tx_Meta (update_same_epoch t oth) = (tx_Meta t)\<lparr>tx_Sequence := max (tx_Sequence (tx_Meta t)) (tx_Sequence (tx_Meta oth))\<rparr>"
  "tx_Name (update_same_epoch t oth) = tx_Name t" "tx_Status (update_same_epoch t oth) = same_epoch_status (tx_Status t) (tx_Status oth)"
  "tx_LastHeartbeat (update_same_epoch t oth) = tx_LastHeartbeat t" "tx_ReadTimestamp (update_same_epoch t oth) = tx_ReadTimestamp t"
  "tx_GlobalUncertaintyLimit (update_same_epoch t oth) = tx_GlobalUncertaintyLimit t"
  "tx_ObservedTimestamps (update_same_epoch t oth) = tx_ObservedTimestamps t"
  "tx_WriteTooOld (update_same_epoch t oth) = by_read t oth tx_WriteTooOld"
  "tx_CommitTimestampFixed (update_same_epoch t oth) = by_read t oth tx_CommitTimestampFixed"
  "tx_LockSpans (update_same_epoch t oth) = (if tx_LockSpans oth = [] then tx_LockSpans t else tx_LockSpans oth)"
  "tx_InFlightWrites (update_same_epoch t oth) = (if tx_InFlightWrites oth = [] then tx_InFlightWrites t else tx_InFlightWrites oth)"
  "tx_IgnoredSeqNums (update_same_epoch t oth) = (if tx_IgnoredSeqNums oth = [] then tx_IgnoredSeqNums t else tx_IgnoredSeqNums oth)"
  by (simp_all add: update_same_epoch_def Let_def by_read_def)

lemmas join_simps = txn_join_steps epoch_step_def same_epoch_simps update_later_epoch_def update_earlier_epoch_def by_epoch_def

lemma join_meta:
  "tx_ID (tx_Meta (txn_join t oth)) = tx_ID (tx_Meta t)"
  "tx_CoordinatorNodeID (tx_Meta (txn_join t oth)) = tx_CoordinatorNodeID (tx_Meta t)"
  "tx_Key (tx_Meta (txn_join t oth)) = (if key_len (tx_Key (tx_Meta t)) = 0 then tx_Key (tx_Meta oth) else tx_Key (tx_Meta t))"
  "tx_Epoch (tx_Meta (txn_join t oth)) = max (tx_Epoch (tx_Meta t)) (tx_Epoch (tx_Meta oth))"
  "tx_WriteTimestamp (tx_Meta (txn_join t oth)) = fwd (tx_WriteTimestamp (tx_Meta t)) (tx_WriteTimestamp (tx_Meta oth))"
  "tx_MinTimestamp (tx_Meta (txn_join t oth)) = join_min (tx_MinTimestamp (tx_Meta t)) (tx_MinTimestamp (tx_Meta oth))"
  "tx_Priority (tx_Meta (txn_join t oth)) =
     (if tx_Priority (tx_Meta t) = MinTxnPriority then MinTxnPriority else max (tx_Priority (tx_Meta t)) (tx_Priority (tx_Meta oth)))"
  "tx_Sequence (tx_Meta (txn_join t oth)) =
     by_epoch t oth (tx_Sequence (tx_Meta oth)) (max (tx_Sequence (tx_Meta t)) (tx_Sequence (tx_Meta oth))) (tx_Sequence (tx_Meta t))"
  by (simp_all add: join_simps)

lemma join_fields:
  "tx_Name (txn_join t oth) = tx_Name t"
  "tx_LastHeartbeat (txn_join t oth) = fwd (tx_LastHeartbeat t) (tx_LastHeartbeat oth)"
  "tx_ReadTimestamp (txn_join t oth) = fwd (tx_ReadTimestamp t) (tx_ReadTimestamp oth)"
  "tx_GlobalUncertaintyLimit (txn_join t oth) = fwd (tx_GlobalUncertaintyLimit t) (tx_GlobalUncertaintyLimit oth)"
  "tx_ObservedTimestamps (txn_join t oth) = merge_observed (tx_ObservedTimestamps t) (tx_ObservedTimestamps oth)"
  by (simp_all add: join_simps)

lemma join_status:
  "tx_Status (txn_join t oth) = by_epoch t oth
     (if IsFinalized (tx_Status t) then tx_Status t else tx_Status oth)
     (same_epoch_status (tx_Status t) (tx_Status oth))
     (if tx_Status oth = ABORTED then ABORTED else tx_Status t)"
  by (simp add: join_simps)

lemma join_flags:
  "tx_WriteTooOld (txn_join t oth) = by_epoch t oth (tx_WriteTooOld oth) (by_read t oth tx_WriteTooOld) (tx_WriteTooOld t)"
  "tx_CommitTimestampFixed (txn_join t oth) = by_epoch t oth (tx_CommitTimestampFixed oth) (by_read t oth tx_CommitTimestampFixed) (tx_CommitTimestampFixed t)"
  by (simp_all add: join_simps)

lemma join_lists:
  "tx_LockSpans (txn_join t oth) = by_epoch t oth (tx_LockSpans oth) (if tx_LockSpans oth = [] then tx_LockSpans t else tx_LockSpans oth) (tx_LockSpans t)"
  "tx_InFlightWrites (txn_join t oth) =
     by_epoch t oth (tx_InFlightWrites oth) (if tx_InFlightWrites oth = [] then tx_InFlightWrites t else tx_InFlightWrites oth) (tx_InFlightWrites t)"
  "tx_IgnoredSeqNums (txn_join t oth) =
     by_epoch t oth (tx_IgnoredSeqNums oth) (if tx_IgnoredSeqNums oth = [] then tx_IgnoredSeqNums t else tx_IgnoredSeqNums oth) (tx_IgnoredSeqNums t)"
  by (simp_all add: join_simps)

text \<open>Applying the same update twice changes nothing more.\<close>

lemma by_epoch_join:
  "by_epoch (txn_join t oth) oth a b c = by_epoch t oth b b c"
  by (auto simp: by_epoch_def join_meta)

lemma join_min_idem: "\<not> Synthetic a \<Longrightarrow> \<not> Synthetic b \<Longrightarrow> join_min (join_min a b) b = join_min a b"
  by (auto simp: join_min_def Timestamp_Backward_def bothSynthetic_def Timestamp_IsEmpty_def ts_order_defs)

lemma fwd_eq_or_less: "\<not> Synthetic a \<Longrightarrow> Timestamp_Less a b \<and> fwd a b = b \<or> a = b \<and> fwd a b = b \<or> fwd a b = a \<and> a \<noteq> b \<and> \<not> Timestamp_Less a b"
  by (cases a; cases b) (auto simp: Timestamp_Forward_def bothSynthetic_def ts_order_defs)

lemma by_read_join:
  assumes "\<not> Synthetic (tx_ReadTimestamp t)" "tx_Epoch (tx_Meta t) = tx_Epoch (tx_Meta oth)"
  shows "by_read (txn_join t oth) oth tx_WriteTooOld = by_read t oth tx_WriteTooOld"
    "by_read (txn_join t oth) oth tx_CommitTimestampFixed = by_read t oth tx_CommitTimestampFixed"
  using fwd_eq_or_less [OF assms(1), of "tx_ReadTimestamp oth"] assms(2)
  by (auto simp: by_read_def join_fields join_flags by_epoch_def)

lemma by_read_later:
  assumes "tx_Epoch (tx_Meta t) < tx_Epoch (tx_Meta oth)"
  shows "by_read (txn_join t oth) oth tx_WriteTooOld = tx_WriteTooOld oth"
    "by_read (txn_join t oth) oth tx_CommitTimestampFixed = tx_CommitTimestampFixed oth"
  using assms by (auto simp: by_read_def join_flags by_epoch_def)

lemma txn_join_idem:
  assumes "obs_ok (tx_ObservedTimestamps t)" "\<not> Synthetic (tx_ReadTimestamp t)"
    "\<not> Synthetic (tx_MinTimestamp (tx_Meta t))" "\<not> Synthetic (tx_MinTimestamp (tx_Meta oth))"
  shows "txn_join (txn_join t oth) oth = txn_join t oth"
proof -
  have meta: "tx_Meta (txn_join (txn_join t oth) oth) = tx_Meta (txn_join t oth)"
    by (rule TxnMeta.equality) (auto simp: join_meta fwd_idem join_min_idem assms by_epoch_join by_epoch_def)
  have flags: "tx_WriteTooOld (txn_join (txn_join t oth) oth) = tx_WriteTooOld (txn_join t oth)"
    "tx_CommitTimestampFixed (txn_join (txn_join t oth) oth) = tx_CommitTimestampFixed (txn_join t oth)"
    using by_read_join [OF assms(2), of oth] by_read_later [of t oth]
    by (simp_all add: join_flags by_epoch_join) (auto simp: by_epoch_def)
  have status: "tx_Status (txn_join (txn_join t oth) oth) = tx_Status (txn_join t oth)"
    by (cases "tx_Status t"; cases "tx_Status oth")
      (simp_all add: join_status by_epoch_join, simp_all add: by_epoch_def IsFinalized_def same_epoch_status_def)
  have lists: "tx_LockSpans (txn_join (txn_join t oth) oth) = tx_LockSpans (txn_join t oth)"
    "tx_InFlightWrites (txn_join (txn_join t oth) oth) = tx_InFlightWrites (txn_join t oth)"
    "tx_IgnoredSeqNums (txn_join (txn_join t oth) oth) = tx_IgnoredSeqNums (txn_join t oth)"
    by (simp_all only: join_lists by_epoch_join) (auto simp: by_epoch_def)
  show ?thesis
    by (rule Transaction.equality)
      (simp_all add: meta flags status lists join_fields fwd_idem merge_observed_idem assms(1))
qed

section \<open>Rolling back to a savepoint\<close>

lemma ignored_prefix:
  assumes "ignored_ok rs"
  shows "take (sort_Search (length rs) (\<lambda>i. ig_End (rs ! i) \<ge> x)) rs = filter (\<lambda>r. ig_End r < x) rs"
proof -
  have "sorted_wrt (\<lambda>a b. ig_End a \<ge> x \<longrightarrow> ig_End b \<ge> x) rs"
    using assms unfolding ignored_ok_def by (elim conjE sorted_wrt_mono_rel [rotated]) force
  from sort_Search_split(2) [OF this] show ?thesis by (simp add: not_le)
qed

lemma AddIgnored_eq:
  "ignored_ok (tx_IgnoredSeqNums t) \<Longrightarrow>
   tx_IgnoredSeqNums (AddIgnoredSeqNumRange r t) = filter (\<lambda>q. ig_End q < ig_Start r) (tx_IgnoredSeqNums t) @ [r]"
  by (simp add: AddIgnoredSeqNumRange_def Let_def ignored_prefix)

lemma AddIgnored_ok:
  assumes "ignored_ok (tx_IgnoredSeqNums t)" "ig_Start r \<le> ig_End r"
  shows "ignored_ok (tx_IgnoredSeqNums (AddIgnoredSeqNumRange r t))"
  using assms unfolding AddIgnored_eq [OF assms(1)]
  by (auto simp: ignored_ok_def sorted_wrt_append intro: sorted_wrt_filter)

text \<open>C32. Rolling back to a savepoint: \<open>AddIgnoredSeqNumRange\<close> keeps the list of ignored ranges sorted and
  disjoint; afterwards exactly the new range and the old ranges that end before it are ignored, so, when the
  new range starts inside no old range and ends with the last sequence number, what was ignored stays ignored and the new
  range is added to it. The documented promise to keep ranges from touching does not hold: after ignoring
  3 to 5, ignoring 6 to 8 leaves two contiguous ranges; and under the documented conditions a range that starts
  inside an old one drops the part of the old one before it.\<close>

theorem rollback_ignores:
  assumes "ignored_ok (tx_IgnoredSeqNums t)" "ig_Start r \<le> ig_End r"
  shows "ignored_ok (tx_IgnoredSeqNums (AddIgnoredSeqNumRange r t)) \<and>
    (TxnSeqIsIgnored seq (tx_IgnoredSeqNums (AddIgnoredSeqNumRange r t)) \<longleftrightarrow>
       ig_Start r \<le> seq \<and> seq \<le> ig_End r \<or> ignored_by (filter (\<lambda>q. ig_End q < ig_Start r) (tx_IgnoredSeqNums t)) seq) \<and>
    ((\<forall>q \<in> set (tx_IgnoredSeqNums t). \<not> (ig_Start q < ig_Start r \<and> ig_Start r \<le> ig_End q) \<and> ig_End q \<le> ig_End r) \<longrightarrow>
       (TxnSeqIsIgnored seq (tx_IgnoredSeqNums (AddIgnoredSeqNumRange r t)) \<longleftrightarrow>
        ig_Start r \<le> seq \<and> seq \<le> ig_End r \<or> TxnSeqIsIgnored seq (tx_IgnoredSeqNums t))) \<and>
    tx_IgnoredSeqNums (AddIgnoredSeqNumRange \<lparr>ig_Start = 6, ig_End = 8\<rparr> (t\<lparr>tx_IgnoredSeqNums := [\<lparr>ig_Start = 3, ig_End = 5\<rparr>]\<rparr>)) =
      [\<lparr>ig_Start = 3, ig_End = 5\<rparr>, \<lparr>ig_Start = 6, ig_End = 8\<rparr>] \<and>
    tx_IgnoredSeqNums (AddIgnoredSeqNumRange \<lparr>ig_Start = 15, ig_End = 30\<rparr> (t\<lparr>tx_IgnoredSeqNums := [\<lparr>ig_Start = 10, ig_End = 20\<rparr>]\<rparr>)) =
      [\<lparr>ig_Start = 15, ig_End = 30\<rparr>]"
proof -
  note ok = AddIgnored_ok [OF assms]
  have char: "TxnSeqIsIgnored seq (tx_IgnoredSeqNums (AddIgnoredSeqNumRange r t)) \<longleftrightarrow>
      ig_Start r \<le> seq \<and> seq \<le> ig_End r \<or> ignored_by (filter (\<lambda>q. ig_End q < ig_Start r) (tx_IgnoredSeqNums t)) seq"
    unfolding TxnSeqIsIgnored_iff [OF ok] unfolding AddIgnored_eq [OF assms(1)] by (auto simp: ignored_by_def)
  moreover have "ig_Start r \<le> seq \<and> seq \<le> ig_End r \<or> ignored_by (filter (\<lambda>q. ig_End q < ig_Start r) (tx_IgnoredSeqNums t)) seq \<longleftrightarrow>
      ig_Start r \<le> seq \<and> seq \<le> ig_End r \<or> ignored_by (tx_IgnoredSeqNums t) seq"
    if "\<forall>q \<in> set (tx_IgnoredSeqNums t). \<not> (ig_Start q < ig_Start r \<and> ig_Start r \<le> ig_End q) \<and> ig_End q \<le> ig_End r"
    using that by (force simp: ignored_by_def)
  ultimately show ?thesis
    using ok by (simp add: TxnSeqIsIgnored_iff [OF assms(1)])
      (simp add: AddIgnoredSeqNumRange_def sort_Search_def search_loop.simps)
qed

theorem rollback_ignores_witness:
  "TxnSeqIsIgnored 11 (tx_IgnoredSeqNums (AddIgnoredSeqNumRange \<lparr>ig_Start = 8, ig_End = 26\<rparr>
     ((MakeTransaction [1] 1 [] None (mkTs 1 0) 0 1)\<lparr>tx_IgnoredSeqNums := [\<lparr>ig_Start = 3, ig_End = 5\<rparr>, \<lparr>ig_Start = 10, ig_End = 20\<rparr>]\<rparr>)))"
proof -
  let ?t = "(MakeTransaction [1] 1 [] None (mkTs 1 0) 0 1)\<lparr>tx_IgnoredSeqNums := [\<lparr>ig_Start = 3, ig_End = 5\<rparr>, \<lparr>ig_Start = 10, ig_End = 20\<rparr>]\<rparr>"
  have "ignored_ok (tx_IgnoredSeqNums ?t)" by (simp add: ignored_ok_def)
  then show ?thesis using rollback_ignores [of ?t "\<lparr>ig_Start = 8, ig_End = 26\<rparr>" 11] by simp
qed

text \<open>The slice of observed timestamps is a map: recording an observation keeps it sorted by node and
  changes only the node's entry, to the lower of the two timestamps; merging the slice of another copy records
  for every node a timestamp of one of the two copies, not above any of them.\<close>

theorem observed_timestamps_map:
  assumes "obs_ok (tx_ObservedTimestamps t)"
  shows "obs_ok (UpdateObservedTimestamp (tx_ObservedTimestamps t) n ts) \<and>
    GetObservedTimestamp (t\<lparr>tx_ObservedTimestamps := UpdateObservedTimestamp (tx_ObservedTimestamps t) n ts\<rparr>) m =
      (if m = n then Some (case GetObservedTimestamp t n of None \<Rightarrow> ts | Some old \<Rightarrow> if Timestamp_Less ts old then ts else old)
       else GetObservedTimestamp t m) \<and>
    obs_ok (tx_ObservedTimestamps (update_common t oth)) \<and>
    (\<forall>u. (n, u) \<in> set (tx_ObservedTimestamps oth) \<or> GetObservedTimestamp t n = Some u \<longrightarrow>
       (\<exists>v. GetObservedTimestamp (update_common t oth) n = Some v \<and> Timestamp_LessEq v u)) \<and>
    (\<forall>v. GetObservedTimestamp (update_common t oth) n = Some v \<longrightarrow>
       GetObservedTimestamp t n = Some v \<or> (n, v) \<in> set (tx_ObservedTimestamps oth))"
proof -
  let ?s = "tx_ObservedTimestamps t" and ?os = "tx_ObservedTimestamps oth"
  note ok = UpdateObserved_correct [OF assms, of n ts] and mok = merge_observed_ok [OF assms, of ?os]
  note get = GetObservedTimestamp_def observed_get_map_of [OF assms]
  have "obs_below (merge_observed ?s ?os) n u" if "(n, u) \<in> set ?os \<or> map_of ?s n = Some u" for u
    using that merge_observed_below [OF assms, of n u ?os] obs_below_merge [OF assms, of n u ?os] by (auto simp: obs_below_def)
  then show ?thesis
    using ok(1) mok merge_observed_source [OF assms, of ?os n]
    by (auto simp: get observed_get_map_of [OF ok(1)] observed_get_map_of [OF mok] ok(2) obs_min_def obs_below_def ts_lesseq_iff)
qed

theorem observed_timestamps_map_witness:
  "GetObservedTimestamp ((MakeTransaction [1] 1 [] None (mkTs 1 0) 0 1)\<lparr>tx_ObservedTimestamps :=
     UpdateObservedTimestamp [(1, mkTs 5 0), (7, mkTs 9 0)] 7 (mkTs 8 0)\<rparr>) 7 = Some (mkTs 8 0)"
proof -
  let ?t = "(MakeTransaction [1] 1 [] None (mkTs 1 0) 0 1)\<lparr>tx_ObservedTimestamps := [(1, mkTs 5 0), (7, mkTs 9 0)]\<rparr>"
  have ok: "obs_ok (tx_ObservedTimestamps ?t)" by (simp add: obs_ok_def)
  have "GetObservedTimestamp ?t 7 = Some (mkTs 9 0)"
    unfolding GetObservedTimestamp_def observed_get_map_of [OF ok] by simp
  then show ?thesis
    using observed_timestamps_map [OF ok, of 7 "mkTs 8 0" 7 ?t] by (simp add: Timestamp_Less_def)
qed

abbreviation sample_txn :: "int \<Rightarrow> TransactionStatus \<Rightarrow> Transaction" where
  "sample_txn ep st \<equiv> (let t = MakeTransaction [1] 5 [] None (mkTs 1 0) 0 1
     in t\<lparr>tx_Meta := (tx_Meta t)\<lparr>tx_Epoch := ep\<rparr>, tx_Status := st\<rparr>)"

text \<open>
  The flags are merged before the read timestamp is forwarded, and \<open>Forward\<close> clears the synthetic
  bit of an equal timestamp: the read timestamps of the copies differ in the first application and
  are equal in the second, which then takes over the \<open>WriteTooOld\<close> flag.
\<close>

lemma synthetic_update_not_idempotent:
  "\<exists>t oth u v. Transaction_Update t (Some oth) = Inr u \<and> Transaction_Update u (Some oth) = Inr v \<and>
     \<not> tx_WriteTooOld u \<and> tx_WriteTooOld v"
proof -
  let ?t = "(sample_txn 1 PENDING)\<lparr>tx_ReadTimestamp := (mkTs 1 0)\<lparr>Synthetic := True\<rparr>\<rparr>"
  let ?o = "(sample_txn 1 PENDING)\<lparr>tx_WriteTooOld := True\<rparr>"
  have ne: "[1] \<noteq> nilUUID" by (simp add: nilUUID_def numeral_eq_Suc)
  have o: "tx_ID (tx_Meta ?o) \<noteq> nilUUID" "\<not> Timestamp_IsEmpty (tx_WriteTimestamp (tx_Meta ?o))"
    using ne by (simp_all add: Let_def MakeTransaction_def Timestamp_IsEmpty_def)
  have "Transaction_Update ?t (Some ?o) = Inr (txn_join ?t ?o)"
    by (rule Update_join [OF o]) (simp add: Let_def MakeTransaction_def)
  moreover have "Transaction_Update (txn_join ?t ?o) (Some ?o) = Inr (txn_join (txn_join ?t ?o) ?o)"
    by (rule Update_join [OF o]) (simp add: join_meta Let_def MakeTransaction_def)
  moreover have "\<not> tx_WriteTooOld (txn_join ?t ?o)" "tx_WriteTooOld (txn_join (txn_join ?t ?o) ?o)"
    by (simp_all add: join_flags join_fields join_meta by_epoch_def by_read_def Let_def MakeTransaction_def
        Timestamp_Forward_def bothSynthetic_def ts_order_defs)
  ultimately show ?thesis by blast
qed

text \<open>C14. \<open>Update\<close> on two copies of a transaction succeeds; timestamps, epoch and priority never go back (a
  minimal priority stays minimal); state of the older epoch is dropped; a finalized status is kept, except that
  a copy aborted in an earlier epoch aborts even a COMMITTED one, against the comment of \<open>IsFinalized\<close>; an
  aborted transaction stays aborted. A second application of the same update changes nothing, provided the
  list of observed timestamps is sorted and neither the read timestamp of the receiver nor the minimal
  timestamps are synthetic; for synthetic ones \<open>synthetic_update_not_idempotent\<close> shows that it can.\<close>

theorem txn_update_ratchets:
  assumes "tx_ID (tx_Meta oth) \<noteq> nilUUID" "\<not> Timestamp_IsEmpty (tx_WriteTimestamp (tx_Meta oth))"
    and "tx_ID (tx_Meta t) = tx_ID (tx_Meta oth)"
  shows "\<exists>u. Transaction_Update t (Some oth) = Inr u \<and>
    (obs_ok (tx_ObservedTimestamps t) \<and> \<not> Synthetic (tx_ReadTimestamp t) \<and> \<not> Synthetic (tx_MinTimestamp (tx_Meta t)) \<and>
       \<not> Synthetic (tx_MinTimestamp (tx_Meta oth)) \<longrightarrow> Transaction_Update u (Some oth) = Inr u) \<and>
    tx_ID (tx_Meta u) = tx_ID (tx_Meta t) \<and> tx_Epoch (tx_Meta u) = max (tx_Epoch (tx_Meta t)) (tx_Epoch (tx_Meta oth)) \<and>
    (\<forall>x \<in> {t, oth}. Timestamp_LessEq (tx_WriteTimestamp (tx_Meta x)) (tx_WriteTimestamp (tx_Meta u)) \<and>
       Timestamp_LessEq (tx_ReadTimestamp x) (tx_ReadTimestamp u) \<and> Timestamp_LessEq (tx_LastHeartbeat x) (tx_LastHeartbeat u) \<and>
       Timestamp_LessEq (tx_GlobalUncertaintyLimit x) (tx_GlobalUncertaintyLimit u)) \<and>
    tx_Priority (tx_Meta u) =
      (if tx_Priority (tx_Meta t) = MinTxnPriority then MinTxnPriority else max (tx_Priority (tx_Meta t)) (tx_Priority (tx_Meta oth))) \<and>
    (tx_Epoch (tx_Meta t) < tx_Epoch (tx_Meta oth) \<longrightarrow>
       tx_Sequence (tx_Meta u) = tx_Sequence (tx_Meta oth) \<and> tx_LockSpans u = tx_LockSpans oth \<and> tx_InFlightWrites u = tx_InFlightWrites oth \<and>
       tx_IgnoredSeqNums u = tx_IgnoredSeqNums oth \<and> tx_WriteTooOld u = tx_WriteTooOld oth) \<and>
    (tx_Epoch (tx_Meta oth) < tx_Epoch (tx_Meta t) \<longrightarrow>
       tx_Sequence (tx_Meta u) = tx_Sequence (tx_Meta t) \<and> tx_LockSpans u = tx_LockSpans t \<and> tx_InFlightWrites u = tx_InFlightWrites t \<and>
       tx_IgnoredSeqNums u = tx_IgnoredSeqNums t \<and> tx_WriteTooOld u = tx_WriteTooOld t) \<and>
    (IsFinalized (tx_Status t) \<longrightarrow>
       tx_Status u = (if tx_Epoch (tx_Meta oth) < tx_Epoch (tx_Meta t) \<and> tx_Status oth = ABORTED then ABORTED else tx_Status t)) \<and>
    (tx_Status t = ABORTED \<longrightarrow> tx_Status u = ABORTED)"
proof -
  let ?u = "txn_join t oth"
  have "Transaction_Update ?u (Some oth) = Inr ?u"
    if "obs_ok (tx_ObservedTimestamps t) \<and> \<not> Synthetic (tx_ReadTimestamp t) \<and> \<not> Synthetic (tx_MinTimestamp (tx_Meta t)) \<and>
       \<not> Synthetic (tx_MinTimestamp (tx_Meta oth))"
    using that Update_join [OF assms(1,2), of ?u] assms(3) by (simp add: join_meta(1) txn_join_idem assms)
  moreover have "IsFinalized (tx_Status t) \<longrightarrow>
      tx_Status ?u = (if tx_Epoch (tx_Meta oth) < tx_Epoch (tx_Meta t) \<and> tx_Status oth = ABORTED then ABORTED else tx_Status t)"
    by (cases "tx_Status t") (auto simp: join_status by_epoch_def IsFinalized_def same_epoch_status_def)
  moreover have "tx_Status t = ABORTED \<longrightarrow> tx_Status ?u = ABORTED"
    by (auto simp: join_status by_epoch_def IsFinalized_def same_epoch_status_def)
  ultimately show ?thesis
    using Update_join [OF assms(1,2,3)]
    by (intro exI [of _ ?u]) (simp add: join_meta join_fields join_flags join_lists by_epoch_def Forward_ge)
qed

theorem txn_update_ratchets_witness:
  "\<exists>u. Transaction_Update (sample_txn 3 COMMITTED) (Some (sample_txn 1 ABORTED)) = Inr u \<and> tx_Status u = ABORTED"
proof -
  have "[1] \<noteq> nilUUID" by (simp add: nilUUID_def numeral_eq_Suc)
  then show ?thesis
    using txn_update_ratchets [of "sample_txn 1 ABORTED" "sample_txn 3 COMMITTED"]
    by (auto simp: Let_def MakeTransaction_def Timestamp_IsEmpty_def obs_ok_def IsFinalized_def)
qed

text \<open>A restart starts a new epoch (a 32-bit counter) that reads and writes at the same timestamp, not below
  the old write timestamp nor the given one, forgets everything of the old epoch and never lowers the
  priority; a refresh moves the read timestamp up to the write timestamp; and a transaction read back from its
  record keeps what the record holds.\<close>

theorem restart_refresh_record:
  "let u = Restart p q ts t in
     tx_Epoch (tx_Meta u) = wrap32 (tx_Epoch (tx_Meta t) + 1) \<and> tx_ReadTimestamp u = tx_WriteTimestamp (tx_Meta u) \<and>
     Timestamp_LessEq ts (tx_WriteTimestamp (tx_Meta u)) \<and> Timestamp_LessEq (tx_WriteTimestamp (tx_Meta t)) (tx_WriteTimestamp (tx_Meta u)) \<and>
     tx_Priority (tx_Meta u) = (if tx_Priority (tx_Meta t) = MinTxnPriority then MinTxnPriority
       else if max (tx_Priority (tx_Meta t)) p = MinTxnPriority then MinTxnPriority else max (max (tx_Priority (tx_Meta t)) p) q) \<and>
     tx_Sequence (tx_Meta u) = 0 \<and> tx_LockSpans u = [] \<and> tx_InFlightWrites u = [] \<and> tx_IgnoredSeqNums u = [] \<and>
     tx_ID (tx_Meta u) = tx_ID (tx_Meta t) \<and> tx_Status u = tx_Status t \<and> tx_ObservedTimestamps u = tx_ObservedTimestamps t \<and>
     (let r = Refresh ts t in
       tx_ReadTimestamp r = fwd (tx_ReadTimestamp t) (tx_WriteTimestamp (tx_Meta r)) \<and>
       Timestamp_LessEq ts (tx_ReadTimestamp r) \<and> Timestamp_LessEq (tx_WriteTimestamp (tx_Meta r)) (tx_ReadTimestamp r) \<and>
       tx_Epoch (tx_Meta r) = tx_Epoch (tx_Meta t) \<and> \<not> tx_WriteTooOld r) \<and>
     AsRecord (AsTransaction (AsRecord t)) = AsRecord t \<and>
     LocksAsLockUpdates (AsTransaction (AsRecord t)) = LocksAsLockUpdates t"
proof -
  have fr: "Timestamp_LessEq ts (fwd a (fwd b ts))" for a b
    by (rule ts_lesseq_trans [OF Forward_ge(2) Forward_ge(2)])
  have lift: "\<not> Timestamp_Less w ts \<Longrightarrow> Timestamp_LessEq ts w" for w by (simp add: ts_lesseq_iff)
  show ?thesis
    by (simp add: Restart_def Refresh_def BumpEpoch_def Let_def fr Forward_ge AsRecord_def AsTransaction_def LocksAsLockUpdates_def
        MakeLockUpdate_def fun_eq_iff UpgradePriority_def lift MinTxnPriority_def ts_less_imp_lesseq)
qed

end
