(* ===== verification/Mvcc_Value.thy ===== *)
theory Mvcc_Value
  imports Encoding_Int Hlc_Timestamp Mvcc_Meta Txn
begin

text \<open>
  Versioned values, \<open>pkg/storage/mvcc_value.go\<close>, and uncertainty intervals, \<open>pkg/kv/kvserver/uncertainty\<close>. The
  marshalling of the header is generated code: it is an argument, with the property that unmarshalling inverts it.
  The build is the production one: the simple encoding is enabled and a header has no test sequence number.
\<close>

section \<open>Versioned values\<close>

record MVCCValueHeader =
  h_LocalTimestamp :: Timestamp

record MVCCValue =
  mv_Header :: MVCCValueHeader
  mv_RawBytes :: bytes

definition extendedLenSize :: nat where "extendedLenSize = 4"
definition value_tagPos :: nat where "value_tagPos = extendedLenSize"
definition tagSize :: nat where "tagSize = 1"
definition extendedPreludeSize :: nat where "extendedPreludeSize = extendedLenSize + tagSize"
definition extendedEncodingSentinel :: byte where "extendedEncodingSentinel = 101"

lemmas value_sizes = extendedLenSize_def value_tagPos_def tagSize_def extendedPreludeSize_def extendedEncodingSentinel_def

definition Header_IsEmpty :: "MVCCValueHeader \<Rightarrow> bool" where
  "Header_IsEmpty h = Timestamp_IsEmpty (h_LocalTimestamp h)"

definition noHeader :: MVCCValueHeader where
  "noHeader = \<lparr>h_LocalTimestamp = mkTs 0 0\<rparr>"

definition IsTombstone :: "MVCCValue \<Rightarrow> bool" where
  "IsTombstone v \<longleftrightarrow> length (mv_RawBytes v) = 0"

text \<open>The conversion of a clock timestamp panics when its synthetic flag is set.\<close>

definition LocalTimestampNeeded :: "MVCCValue \<Rightarrow> Timestamp \<Rightarrow> bool res" where
  "LocalTimestampNeeded v keyTS =
     (if Timestamp_IsEmpty (h_LocalTimestamp (mv_Header v)) then Inr False
      else (case ClockTimestamp_ToTimestamp (h_LocalTimestamp (mv_Header v)) of
              Inl e \<Rightarrow> Inl e
            | Inr l \<Rightarrow> Inr (Timestamp_Less l keyTS)))"

definition MinClockTimestamp :: ClockTimestamp where "MinClockTimestamp = mkTs 0 1"

definition GetLocalTimestamp :: "MVCCValue \<Rightarrow> Timestamp \<Rightarrow> ClockTimestamp" where
  "GetLocalTimestamp v keyTS =
     (if Timestamp_IsEmpty (h_LocalTimestamp (mv_Header v)) then (if Synthetic keyTS then MinClockTimestamp else keyTS)
      else h_LocalTimestamp (mv_Header v))"

text \<open>The value a write stores, in \<open>mvccPutInternal\<close>: the local timestamp is left out when it is not needed.\<close>

definition written_value :: "bool \<Rightarrow> bytes \<Rightarrow> ClockTimestamp \<Rightarrow> Timestamp \<Rightarrow> MVCCValue res" where
  "written_value shouldWriteLocalTimestamps raw localTs keyTS =
     (let versionValue = \<lparr>mv_Header = \<lparr>h_LocalTimestamp = localTs\<rparr>, mv_RawBytes = raw\<rparr> in
      res_bind (LocalTimestampNeeded versionValue keyTS) (\<lambda>needed.
        Inr (if \<not> needed \<or> \<not> shouldWriteLocalTimestamps then versionValue\<lparr>mv_Header := noHeader\<rparr> else versionValue)))"

definition encodedMVCCValueSize :: "(MVCCValueHeader \<Rightarrow> bytes) \<Rightarrow> MVCCValue \<Rightarrow> nat" where
  "encodedMVCCValueSize marshal v =
     (if Header_IsEmpty (mv_Header v) then length (mv_RawBytes v)
      else extendedPreludeSize + length (marshal (mv_Header v)) + length (mv_RawBytes v))"

text \<open>The header length is converted to 32 bits.\<close>

definition EncodeMVCCValue :: "(MVCCValueHeader \<Rightarrow> bytes) \<Rightarrow> MVCCValue \<Rightarrow> bytes" where
  "EncodeMVCCValue marshal v =
     (if Header_IsEmpty (mv_Header v) then mv_RawBytes v
      else be_bytes 4 (int (length (marshal (mv_Header v)))) @ extendedEncodingSentinel # marshal (mv_Header v) @ mv_RawBytes v)"

definition tryDecodeSimpleMVCCValue :: "bytes \<Rightarrow> (MVCCValue \<times> bool) res" where
  "tryDecodeSimpleMVCCValue buf =
     (if length buf = 0 then Inr (\<lparr>mv_Header = noHeader, mv_RawBytes = []\<rparr>, True)
      else if length buf \<le> value_tagPos then Inl (Err ''invalid encoded mvcc value, missing tag'')
      else if buf ! value_tagPos \<noteq> extendedEncodingSentinel then Inr (\<lparr>mv_Header = noHeader, mv_RawBytes = buf\<rparr>, True)
      else Inr (\<lparr>mv_Header = noHeader, mv_RawBytes = []\<rparr>, False))"

text \<open>The sum of the sizes is a 32-bit sum.\<close>

definition headerSize_of :: "bytes \<Rightarrow> nat" where
  "headerSize_of buf = nat ((int extendedPreludeSize + be_value (take 4 buf)) mod 2 ^ 32)"

definition decodeExtendedMVCCValue :: "(bytes \<Rightarrow> MVCCValueHeader option) \<Rightarrow> bytes \<Rightarrow> MVCCValue res" where
  "decodeExtendedMVCCValue unmarshal buf =
     (if length buf < extendedLenSize then Inl (Panic ''index out of range'')
      else if length buf < headerSize_of buf then Inl (Err ''invalid encoded mvcc value, missing header'')
      else if headerSize_of buf < extendedPreludeSize then Inl (Panic ''slice bounds out of range'')
      else (case unmarshal (drop extendedPreludeSize (take (headerSize_of buf) buf)) of
              None \<Rightarrow> Inl (Err ''unmarshaling MVCCValueHeader'')
            | Some h \<Rightarrow> Inr \<lparr>mv_Header = h, mv_RawBytes = drop (headerSize_of buf) buf\<rparr>))"

definition DecodeMVCCValue :: "(bytes \<Rightarrow> MVCCValueHeader option) \<Rightarrow> bytes \<Rightarrow> MVCCValue res" where
  "DecodeMVCCValue unmarshal buf =
     (case tryDecodeSimpleMVCCValue buf of
        Inl e \<Rightarrow> Inl e
      | Inr (v, ok) \<Rightarrow> if ok then Inr v else decodeExtendedMVCCValue unmarshal buf)"

definition EncodedMVCCValueIsTombstone :: "bytes \<Rightarrow> bool res" where
  "EncodedMVCCValueIsTombstone buf =
     (if length buf = 0 then Inr True
      else if length buf \<le> value_tagPos then Inl (Err ''invalid encoded mvcc value, missing tag'')
      else if buf ! value_tagPos \<noteq> extendedEncodingSentinel then Inr False
      else if length buf < headerSize_of buf then Inl (Err ''invalid encoded mvcc value, missing header'')
      else Inr (length buf = headerSize_of buf))"

section \<open>Round trip\<close>

text \<open>A value that is not a tombstone carries its checksum and tag, and the tag is not the sentinel.\<close>

definition value_ok :: "MVCCValue \<Rightarrow> bool" where
  "value_ok v \<longleftrightarrow> valid_ts (h_LocalTimestamp (mv_Header v)) \<and>
     (mv_RawBytes v = [] \<or> length (mv_RawBytes v) > value_tagPos \<and> mv_RawBytes v ! value_tagPos \<noteq> extendedEncodingSentinel)"

lemma Header_IsEmpty_iff: "Header_IsEmpty h \<longleftrightarrow> h = noHeader"
  by (cases h; cases "h_LocalTimestamp h") (simp add: Header_IsEmpty_def noHeader_def Timestamp_IsEmpty_def)

definition header_codec :: "(MVCCValueHeader \<Rightarrow> bytes) \<Rightarrow> (bytes \<Rightarrow> MVCCValueHeader option) \<Rightarrow> bool" where
  "header_codec marshal unmarshal \<longleftrightarrow> (\<forall>h. valid_ts (h_LocalTimestamp h) \<longrightarrow> unmarshal (marshal h) = Some h \<and> length (marshal h) < 2 ^ 31)"

lemma extended_encoding:
  fixes m r :: bytes
  assumes "length m < 2 ^ 31"
  defines "e \<equiv> be_bytes 4 (int (length m)) @ extendedEncodingSentinel # m @ r"
  shows "headerSize_of e = 5 + length m" "e ! value_tagPos = extendedEncodingSentinel" "length e = 5 + length m + length r"
    "drop 5 (take (5 + length m) e) = m" "drop (5 + length m) e = r"
proof -
  have "be_value (take 4 e) = int (length m)"
    unfolding e_def using assms(1) by (simp add: be_value_be_bytes take_bit_int_eq_self)
  then show "headerSize_of e = 5 + length m" using assms(1) by (simp add: headerSize_of_def value_sizes)
  show "e ! value_tagPos = extendedEncodingSentinel" by (simp add: e_def value_sizes nth_append)
  show "length e = 5 + length m + length r" by (simp add: e_def)
  show "drop 5 (take (5 + length m) e) = m" "drop (5 + length m) e = r" by (simp_all add: e_def)
qed

lemma decode_encoded:
  assumes "header_codec marshal unmarshal" "value_ok v"
  shows "DecodeMVCCValue unmarshal (EncodeMVCCValue marshal v) = Inr v"
proof (cases "Header_IsEmpty (mv_Header v)")
  case True
  then have "v = \<lparr>mv_Header = noHeader, mv_RawBytes = mv_RawBytes v\<rparr>" by (simp add: Header_IsEmpty_iff)
  then show ?thesis using True assms(2)
    by (auto simp: EncodeMVCCValue_def DecodeMVCCValue_def tryDecodeSimpleMVCCValue_def value_ok_def)
next
  case False
  let ?m = "marshal (mv_Header v)"
  have m: "length ?m < 2 ^ 31" "unmarshal ?m = Some (mv_Header v)"
    using assms by (simp_all add: header_codec_def value_ok_def)
  note E = extended_encoding [OF m(1), of "mv_RawBytes v"]
  have e: "EncodeMVCCValue marshal v = be_bytes 4 (int (length ?m)) @ extendedEncodingSentinel # ?m @ mv_RawBytes v"
    using False by (simp add: EncodeMVCCValue_def)
  show ?thesis unfolding e DecodeMVCCValue_def tryDecodeSimpleMVCCValue_def decodeExtendedMVCCValue_def E
    using m(2) by (simp add: value_sizes)
qed

lemma encoded_tombstone:
  assumes "header_codec marshal unmarshal" "value_ok v"
  shows "EncodedMVCCValueIsTombstone (EncodeMVCCValue marshal v) = Inr (IsTombstone v)"
    "length (EncodeMVCCValue marshal v) = encodedMVCCValueSize marshal v"
proof -
  let ?m = "marshal (mv_Header v)"
  have m: "length ?m < 2 ^ 31" using assms by (simp add: header_codec_def value_ok_def)
  note E = extended_encoding [OF m, of "mv_RawBytes v"]
  have e: "EncodeMVCCValue marshal v = be_bytes 4 (int (length ?m)) @ extendedEncodingSentinel # ?m @ mv_RawBytes v"
    if "\<not> Header_IsEmpty (mv_Header v)" using that by (simp add: EncodeMVCCValue_def)
  show "EncodedMVCCValueIsTombstone (EncodeMVCCValue marshal v) = Inr (IsTombstone v)"
  proof (cases "Header_IsEmpty (mv_Header v)")
    case True
    then show ?thesis using assms(2) by (auto simp: EncodeMVCCValue_def EncodedMVCCValueIsTombstone_def value_ok_def IsTombstone_def)
  next
    case False
    show ?thesis unfolding e [OF False] EncodedMVCCValueIsTombstone_def E by (simp add: value_sizes IsTombstone_def)
  qed
  show "length (EncodeMVCCValue marshal v) = encodedMVCCValueSize marshal v"
    by (simp add: EncodeMVCCValue_def encodedMVCCValueSize_def value_sizes)
qed

section \<open>Uncertainty intervals\<close>

record Interval =
  GlobalLimit :: Timestamp
  LocalLimit :: ClockTimestamp

definition IsUncertain :: "Interval \<Rightarrow> Timestamp \<Rightarrow> ClockTimestamp \<Rightarrow> bool res" where
  "IsUncertain ival valueTs localTs =
     (if Timestamp_IsEmpty valueTs then Inl (Panic ''unexpected empty value timestamp'')
      else if Timestamp_IsEmpty localTs then Inl (Panic ''unexpected empty local timestamp'')
      else if \<not> Timestamp_IsEmpty (LocalLimit ival) \<and> Timestamp_Less (LocalLimit ival) localTs then Inr False
      else Inr (Timestamp_LessEq valueTs (GlobalLimit ival)))"

text \<open>The lease status: whether it is valid, its node, and the least valid observed timestamp.\<close>

record LeaseStatus =
  ls_valid :: bool
  ls_NodeID :: int
  ls_MinValidObservedTimestamp :: ClockTimestamp

record ReadHeader =
  rh_Txn :: "Transaction option"
  rh_TimestampFromServerClock :: "ClockTimestamp option"
  rh_Consistent :: bool

definition computeIntervalForTxn :: "Transaction \<Rightarrow> LeaseStatus \<Rightarrow> Interval" where
  "computeIntervalForTxn txn status =
     (let ival = \<lparr>GlobalLimit = tx_GlobalUncertaintyLimit txn, LocalLimit = mkTs 0 0\<rparr> in
      if \<not> ls_valid status then ival
      else (case GetObservedTimestamp txn (ls_NodeID status) of
              None \<Rightarrow> ival
            | Some obsTs \<Rightarrow>
                ival\<lparr>LocalLimit := Timestamp_Backward (fst (Timestamp_Forward obsTs (ls_MinValidObservedTimestamp status))) (GlobalLimit ival)\<rparr>))"

definition computeIntervalForNonTxn :: "ReadHeader \<Rightarrow> LeaseStatus \<Rightarrow> int \<Rightarrow> Interval res" where
  "computeIntervalForNonTxn h status offset =
     (case rh_TimestampFromServerClock h of
        None \<Rightarrow> Inr \<lparr>GlobalLimit = mkTs 0 0, LocalLimit = mkTs 0 0\<rparr>
      | Some clock \<Rightarrow>
          if \<not> rh_Consistent h then Inr \<lparr>GlobalLimit = mkTs 0 0, LocalLimit = mkTs 0 0\<rparr>
          else (case ClockTimestamp_ToTimestamp clock of
                  Inl e \<Rightarrow> Inl e
                | Inr ts \<Rightarrow>
                    (let ival = \<lparr>GlobalLimit = Timestamp_Add ts offset 0, LocalLimit = mkTs 0 0\<rparr> in
                     if \<not> ls_valid status then Inr ival
                     else Inr (ival\<lparr>LocalLimit := Timestamp_Backward (fst (Timestamp_Forward clock (ls_MinValidObservedTimestamp status)))
                                                (GlobalLimit ival)\<rparr>))))"

definition ComputeInterval :: "ReadHeader \<Rightarrow> LeaseStatus \<Rightarrow> int \<Rightarrow> Interval res" where
  "ComputeInterval h status offset =
     (case rh_Txn h of
        Some txn \<Rightarrow> Inr (computeIntervalForTxn txn status)
      | None \<Rightarrow> computeIntervalForNonTxn h status offset)"

section \<open>Properties\<close>

lemma Less_flag: "Timestamp_Less (t\<lparr>Synthetic := x\<rparr>) s \<longleftrightarrow> Timestamp_Less t s"
  by (simp add: Timestamp_Less_def)

lemma positive_not_empty: "Timestamp_Less (mkTs 0 0) t \<Longrightarrow> \<not> Timestamp_IsEmpty t"
  by (auto simp: Timestamp_IsEmpty_def Timestamp_Less_def)

lemma positive_iff_MinClock: "Timestamp_LessEq MinClockTimestamp t \<longleftrightarrow> Timestamp_Less (mkTs 0 0) t"
  unfolding MinClockTimestamp_def ts_order_defs by auto

lemma Backward_Less_iff: "Timestamp_Less (Timestamp_Backward a g) l \<longleftrightarrow> Timestamp_Less a l \<or> Timestamp_Less g l"
proof (cases "Timestamp_Less g a")
  case True
  then show ?thesis using ts_less_trans [OF True, of l] by (auto simp: Timestamp_Backward_def Less_flag)
next
  case False
  then show ?thesis using ts_lesseq_less_trans [of a g l] by (auto simp: Timestamp_Backward_def Less_flag ts_lesseq_iff)
qed

lemma IsUncertain_clamped:
  assumes "Timestamp_Less (mkTs 0 0) a" "Timestamp_Less (mkTs 0 0) g" "Timestamp_Less (mkTs 0 0) l" "Timestamp_LessEq l v"
  shows "IsUncertain \<lparr>GlobalLimit = g, LocalLimit = Timestamp_Backward a g\<rparr> v l
         = Inr (Timestamp_LessEq v g \<and> Timestamp_LessEq l a)"
proof -
  have "\<not> Timestamp_IsEmpty v" "\<not> Timestamp_IsEmpty l"
    using assms(3) ts_less_lesseq_trans [OF assms(3,4)] by (simp_all add: positive_not_empty)
  moreover have "\<not> Timestamp_IsEmpty (Timestamp_Backward a g)"
    using assms(1,2) by (auto simp: Timestamp_Backward_def Timestamp_IsEmpty_def Timestamp_Less_def)
  ultimately show ?thesis
    using ts_lesseq_trans [OF assms(4), of g] by (auto simp: IsUncertain_def Backward_Less_iff ts_lesseq_iff)
qed

lemma IsUncertain_global:
  assumes "Timestamp_Less (mkTs 0 0) l" "Timestamp_LessEq l v"
  shows "IsUncertain \<lparr>GlobalLimit = g, LocalLimit = mkTs 0 0\<rparr> v l = Inr (Timestamp_LessEq v g)"
proof -
  have "\<not> Timestamp_IsEmpty v" "\<not> Timestamp_IsEmpty l"
    using assms(1) ts_less_lesseq_trans [OF assms] by (simp_all add: positive_not_empty)
  then show ?thesis by (simp add: IsUncertain_def Timestamp_IsEmpty_def)
qed

lemma Forward_LessEq_iff:
  "Timestamp_LessEq l (fst (Timestamp_Forward a b)) \<longleftrightarrow> Timestamp_LessEq l a \<or> Timestamp_LessEq l b"
  by (auto simp: Timestamp_Forward_def ts_order_defs)

lemma Backward_LessEq: "Timestamp_LessEq (Timestamp_Backward a g) g"
  by (auto simp: Timestamp_Backward_def ts_order_defs)

lemma written_value_cases:
  assumes "written_value True raw localTs keyTS = Inr w" "Timestamp_Less (mkTs 0 0) localTs"
  shows "mv_RawBytes w = raw \<and> (mv_Header w = noHeader \<and> Timestamp_LessEq keyTS localTs \<or>
    h_LocalTimestamp (mv_Header w) = localTs \<and> Timestamp_Less localTs keyTS)"
  using assms positive_not_empty [OF assms(2)]
  by (auto simp: written_value_def LocalTimestampNeeded_def ClockTimestamp_ToTimestamp_def ts_lesseq_iff Let_def split: if_splits)

lemma written_value_local:
  assumes "written_value True raw localTs keyTS = Inr w" "Timestamp_Less (mkTs 0 0) keyTS" "Timestamp_Less (mkTs 0 0) localTs"
  shows "Timestamp_LessEq (GetLocalTimestamp w keyTS) localTs \<and> Timestamp_LessEq (GetLocalTimestamp w keyTS) keyTS \<and>
    Timestamp_Less (mkTs 0 0) (GetLocalTimestamp w keyTS)"
proof (cases "mv_Header w = noHeader")
  case True
  then have "GetLocalTimestamp w keyTS = (if Synthetic keyTS then MinClockTimestamp else keyTS)"
    by (simp add: GetLocalTimestamp_def noHeader_def Timestamp_IsEmpty_def)
  moreover have "Timestamp_LessEq keyTS localTs" using written_value_cases [OF assms(1,3)] True assms(3) by (auto simp: noHeader_def)
  moreover have "Timestamp_Less (mkTs 0 0) MinClockTimestamp" by (simp add: MinClockTimestamp_def Timestamp_Less_def)
  ultimately show ?thesis using assms(2,3) by (auto simp: positive_iff_MinClock)
next
  case False
  then have *: "h_LocalTimestamp (mv_Header w) = localTs" "Timestamp_Less localTs keyTS" using written_value_cases [OF assms(1,3)] by auto
  then have "GetLocalTimestamp w keyTS = localTs" using assms(3) by (simp add: GetLocalTimestamp_def positive_not_empty)
  then show ?thesis using assms(3) *(2) by (simp add: ts_less_imp_lesseq)
qed

text \<open>A fixed-width marshalling of headers has the assumed property.\<close>

lemma fixed_header_codec:
  "header_codec (\<lambda>h. be_bytes 8 (WallTime (h_LocalTimestamp h)) @ be_bytes 4 (Logical (h_LocalTimestamp h)) @
      [if Synthetic (h_LocalTimestamp h) then 1 else 0])
    (\<lambda>b. Some \<lparr>h_LocalTimestamp = \<lparr>WallTime = wrap64 (be_value (take 8 b)),
        Logical = wrap32 (be_value (take 4 (drop 8 b))), Synthetic = (b ! 12 = 1)\<rparr>\<rparr>)"
proof -
  have a: "wrap64 (take_bit 64 k) = wrap64 k" "wrap32 (take_bit 32 k) = wrap32 k" for k
    by (simp_all add: wrap64_def wrap32_def signed_take_bit_take_bit)
  show ?thesis by (simp add: header_codec_def be_value_be_bytes a valid_ts_def nth_append)
qed

text \<open>
  A header length close to \<open>2 ^ 32\<close> wraps around in the 32-bit sum, so the length check passes: the decoder slices out of
  bounds, and the test for tombstones accepts the value.
\<close>

lemma header_length_overflow:
  "DecodeMVCCValue unmarshal [255, 255, 255, 255, 101] = Inl (Panic ''slice bounds out of range'') \<and>
   EncodedMVCCValueIsTombstone [255, 255, 255, 255, 101] = Inr False"
  by (simp add: DecodeMVCCValue_def tryDecodeSimpleMVCCValue_def decodeExtendedMVCCValue_def EncodedMVCCValueIsTombstone_def
      headerSize_of_def value_sizes be_value_def)

text \<open>
  C38. Versioned values survive encoding and decoding, in the simple and in the extended encoding; the encoded size is the
  announced one, and the test for tombstones on the encoded bytes agrees with the one on the decoded value. This rests on
  the marshalling of headers being invertible and on the tag of a value never being the sentinel.
\<close>

theorem mvcc_value_roundtrip:
  assumes "header_codec marshal unmarshal" "value_ok v"
  shows "DecodeMVCCValue unmarshal (EncodeMVCCValue marshal v) = Inr v \<and>
    EncodedMVCCValueIsTombstone (EncodeMVCCValue marshal v) = Inr (IsTombstone v) \<and>
    length (EncodeMVCCValue marshal v) = encodedMVCCValueSize marshal v"
  using decode_encoded [OF assms] encoded_tombstone [OF assms] by simp

theorem mvcc_value_roundtrip_witness:
  "DecodeMVCCValue (\<lambda>b. Some \<lparr>h_LocalTimestamp = \<lparr>WallTime = wrap64 (be_value (take 8 b)),
        Logical = wrap32 (be_value (take 4 (drop 8 b))), Synthetic = (b ! 12 = 1)\<rparr>\<rparr>)
     (EncodeMVCCValue (\<lambda>h. be_bytes 8 (WallTime (h_LocalTimestamp h)) @ be_bytes 4 (Logical (h_LocalTimestamp h)) @
        [if Synthetic (h_LocalTimestamp h) then 1 else 0])
       \<lparr>mv_Header = \<lparr>h_LocalTimestamp = mkTs 7 2\<rparr>, mv_RawBytes = [0, 0, 0, 0, 3, 65]\<rparr>)
   = Inr \<lparr>mv_Header = \<lparr>h_LocalTimestamp = mkTs 7 2\<rparr>, mv_RawBytes = [0, 0, 0, 0, 3, 65]\<rparr>"
proof -
  let ?v = "\<lparr>mv_Header = \<lparr>h_LocalTimestamp = mkTs 7 2\<rparr>, mv_RawBytes = [0, 0, 0, 0, 3, 65]\<rparr>"
  have "value_ok ?v" by (simp add: value_ok_def value_sizes valid_ts_def in64_def in32_def go_limits)
  then show ?thesis using mvcc_value_roundtrip [OF fixed_header_codec, of ?v] by blast
qed

text \<open>
  C39. Uncertainty intervals. A computed local limit is at most the global limit. For the value that a write stores, whose local
  timestamp was taken from the clock when it was written, a transaction that reads under a valid lease with an observed
  timestamp sees uncertainty exactly when the version is within the global limit and the stored local timestamp is at
  most the observed timestamp or the least valid observation of the lease: lowering the local limit to the global one
  changes no decision. Without a valid lease or an observation only the global limit counts. Leaving out an unneeded
  local timestamp is safe: what the written timestamp makes uncertain stays uncertain.
\<close>

theorem uncertainty_decision:
  assumes "written_value True raw localTs keyTS = Inr w" "Timestamp_Less (mkTs 0 0) keyTS"
    "Timestamp_Less (mkTs 0 0) localTs" "Timestamp_Less (mkTs 0 0) (tx_GlobalUncertaintyLimit txn)"
  shows "(\<forall>h offset ival. ComputeInterval h status offset = Inr ival \<longrightarrow>
       LocalLimit ival = mkTs 0 0 \<or> Timestamp_LessEq (LocalLimit ival) (GlobalLimit ival)) \<and>
    (\<forall>obs. ls_valid status \<and> GetObservedTimestamp txn (ls_NodeID status) = Some obs \<and> Timestamp_Less (mkTs 0 0) obs \<longrightarrow>
       IsUncertain (computeIntervalForTxn txn status) keyTS (GetLocalTimestamp w keyTS) =
         Inr (Timestamp_LessEq keyTS (tx_GlobalUncertaintyLimit txn) \<and>
              (Timestamp_LessEq (GetLocalTimestamp w keyTS) obs \<or>
               Timestamp_LessEq (GetLocalTimestamp w keyTS) (ls_MinValidObservedTimestamp status)))) \<and>
    (\<not> ls_valid status \<or> GetObservedTimestamp txn (ls_NodeID status) = None \<longrightarrow>
       IsUncertain (computeIntervalForTxn txn status) keyTS (GetLocalTimestamp w keyTS) =
         Inr (Timestamp_LessEq keyTS (tx_GlobalUncertaintyLimit txn))) \<and>
    (\<forall>h clock offset. ls_valid status \<and> rh_Txn h = None \<and> rh_TimestampFromServerClock h = Some clock \<and> rh_Consistent h \<and>
        \<not> Synthetic clock \<and> Timestamp_Less (mkTs 0 0) clock \<and> Timestamp_Less (mkTs 0 0) (Timestamp_Add clock offset 0) \<longrightarrow>
       res_bind (ComputeInterval h status offset) (\<lambda>ival. IsUncertain ival keyTS (GetLocalTimestamp w keyTS)) =
         Inr (Timestamp_LessEq keyTS (Timestamp_Add clock offset 0) \<and>
              (Timestamp_LessEq (GetLocalTimestamp w keyTS) clock \<or>
               Timestamp_LessEq (GetLocalTimestamp w keyTS) (ls_MinValidObservedTimestamp status)))) \<and>
    (\<forall>ival. IsUncertain ival keyTS localTs = Inr True \<longrightarrow> IsUncertain ival keyTS (GetLocalTimestamp w keyTS) = Inr True)"
proof -
  have W: "Timestamp_LessEq (GetLocalTimestamp w keyTS) localTs" "Timestamp_LessEq (GetLocalTimestamp w keyTS) keyTS"
    "Timestamp_Less (mkTs 0 0) (GetLocalTimestamp w keyTS)" using written_value_local [OF assms(1-3)] by simp_all
  have pos: "Timestamp_Less (mkTs 0 0) (fst (Timestamp_Forward obs m))" if "Timestamp_Less (mkTs 0 0) obs" for obs m
    using ts_less_lesseq_trans [OF that Forward_ge(1)] .
  have limits: "LocalLimit ival = mkTs 0 0 \<or> Timestamp_LessEq (LocalLimit ival) (GlobalLimit ival)"
    if "ComputeInterval h status offset = Inr ival" for h offset ival
    using that by (auto simp: ComputeInterval_def computeIntervalForTxn_def computeIntervalForNonTxn_def Backward_LessEq Let_def
        split: option.splits if_splits sum.splits)
  have obs: "IsUncertain (computeIntervalForTxn txn status) keyTS (GetLocalTimestamp w keyTS) =
         Inr (Timestamp_LessEq keyTS (tx_GlobalUncertaintyLimit txn) \<and>
              (Timestamp_LessEq (GetLocalTimestamp w keyTS) obs \<or>
               Timestamp_LessEq (GetLocalTimestamp w keyTS) (ls_MinValidObservedTimestamp status)))"
    if "ls_valid status" "GetObservedTimestamp txn (ls_NodeID status) = Some obs" "Timestamp_Less (mkTs 0 0) obs" for obs
    using that IsUncertain_clamped [OF pos [OF that(3)] assms(4) W(3,2)]
    by (simp add: computeIntervalForTxn_def Forward_LessEq_iff)
  have plain: "IsUncertain (computeIntervalForTxn txn status) keyTS (GetLocalTimestamp w keyTS) =
         Inr (Timestamp_LessEq keyTS (tx_GlobalUncertaintyLimit txn))"
    if "\<not> ls_valid status \<or> GetObservedTimestamp txn (ls_NodeID status) = None"
    using that by (auto simp: computeIntervalForTxn_def IsUncertain_global [OF W(3,2)] Let_def)
  have nontxn: "res_bind (ComputeInterval h status offset) (\<lambda>ival. IsUncertain ival keyTS (GetLocalTimestamp w keyTS)) =
         Inr (Timestamp_LessEq keyTS (Timestamp_Add clock offset 0) \<and>
              (Timestamp_LessEq (GetLocalTimestamp w keyTS) clock \<or>
               Timestamp_LessEq (GetLocalTimestamp w keyTS) (ls_MinValidObservedTimestamp status)))"
    if "ls_valid status" "rh_Txn h = None" "rh_TimestampFromServerClock h = Some clock" "rh_Consistent h" "\<not> Synthetic clock"
      "Timestamp_Less (mkTs 0 0) clock" "Timestamp_Less (mkTs 0 0) (Timestamp_Add clock offset 0)" for h clock offset
    using that IsUncertain_clamped [OF pos [OF that(6)] that(7) W(3,2)]
    by (simp add: ComputeInterval_def computeIntervalForNonTxn_def ClockTimestamp_ToTimestamp_def Forward_LessEq_iff)
  have mono: "IsUncertain ival keyTS (GetLocalTimestamp w keyTS) = Inr True"
    if "IsUncertain ival keyTS localTs = Inr True" for ival
    using that positive_not_empty [OF W(3)] ts_less_lesseq_trans [OF _ W(1), of "LocalLimit ival"]
    by (auto simp: IsUncertain_def split: if_splits)
  show ?thesis using limits obs plain nontxn mono by blast
qed

theorem uncertainty_decision_witness:
  "IsUncertain (computeIntervalForTxn
     ((MakeTransaction [1] 1 [] None (mkTs 3 0) 7 1)\<lparr>tx_ObservedTimestamps := [(1, mkTs 4 0)]\<rparr>)
     \<lparr>ls_valid = True, ls_NodeID = 1, ls_MinValidObservedTimestamp = mkTs 2 0\<rparr>)
     (mkTs 8 0) (GetLocalTimestamp \<lparr>mv_Header = \<lparr>h_LocalTimestamp = mkTs 5 0\<rparr>, mv_RawBytes = [0, 0, 0, 0, 3]\<rparr> (mkTs 8 0)) = Inr False"
proof -
  let ?txn = "(MakeTransaction [1] 1 [] None (mkTs 3 0) 7 1)\<lparr>tx_ObservedTimestamps := [(1, mkTs 4 0)]\<rparr>"
  let ?s = "\<lparr>ls_valid = True, ls_NodeID = 1, ls_MinValidObservedTimestamp = mkTs 2 0\<rparr>"
  let ?w = "\<lparr>mv_Header = \<lparr>h_LocalTimestamp = mkTs 5 0\<rparr>, mv_RawBytes = [0, 0, 0, 0, 3]\<rparr>"
  have w: "written_value True [0, 0, 0, 0, 3] (mkTs 5 0) (mkTs 8 0) = Inr ?w"
    by (simp add: written_value_def LocalTimestampNeeded_def Timestamp_IsEmpty_def ClockTimestamp_ToTimestamp_def Timestamp_Less_def)
  have p: "Timestamp_Less (mkTs 0 0) (mkTs 8 0)" "Timestamp_Less (mkTs 0 0) (mkTs 5 0)" "Timestamp_Less (mkTs 0 0) (mkTs 4 0)"
    by (simp_all add: Timestamp_Less_def)
  have g: "tx_GlobalUncertaintyLimit ?txn = mkTs 10 0" by (simp add: MakeTransaction_def Timestamp_Add_def in64_def in32_def go_limits)
  then have "Timestamp_Less (mkTs 0 0) (tx_GlobalUncertaintyLimit ?txn)" by (simp only: g) (simp add: Timestamp_Less_def)
  moreover have "GetObservedTimestamp ?txn (ls_NodeID ?s) = Some (mkTs 4 0)" by code_simp
  moreover have "GetLocalTimestamp ?w (mkTs 8 0) = mkTs 5 0" by (simp add: GetLocalTimestamp_def Timestamp_IsEmpty_def)
  moreover have "ls_valid ?s" by simp
  ultimately have "IsUncertain (computeIntervalForTxn ?txn ?s) (mkTs 8 0) (GetLocalTimestamp ?w (mkTs 8 0)) =
      Inr (Timestamp_LessEq (mkTs 8 0) (tx_GlobalUncertaintyLimit ?txn) \<and>
           (Timestamp_LessEq (GetLocalTimestamp ?w (mkTs 8 0)) (mkTs 4 0) \<or>
            Timestamp_LessEq (GetLocalTimestamp ?w (mkTs 8 0)) (ls_MinValidObservedTimestamp ?s)))"
    using uncertainty_decision [OF w p(1,2), of ?txn ?s] p(3) by blast
  then show ?thesis using \<open>GetLocalTimestamp ?w (mkTs 8 0) = mkTs 5 0\<close> by (simp add: Timestamp_LessEq_def)
qed

end
