(* ===== verification/Mvcc_Scanner.thy ===== *)
theory Mvcc_Scanner
  imports Scan_Results Mvcc_Value
begin

text \<open>
  The scanner of versioned keys, \<open>pkg/storage/pebble_mvcc_scanner.go\<close>: forward scans of point keys. The iterator is the
  sequence of its entries in the order of \<open>MVCCKey.Compare\<close> (intents and inline values have the empty timestamp and come first)
  with a position; it has no range keys and never fails. The fields of the scanner are split into options, which a scan
  does not change, the cursor, and the outcome (results, intents, errors, the resume key). The lock table, the
  marshalling of metadata and headers, and the memory account are arguments.

  The scanner reads a version by a few steps of the iterator and then a seek; the number of steps adapts to the data.
  \<open>Scanner_Reference\<close> reads the versions of each key from a list, and shows that the scanner agrees with it.
\<close>

section \<open>State\<close>

text \<open>Nil raw bytes are \<open>None\<close>.\<close>

record MVCCMetadata =
  meta_Txn :: "TxnMeta option"
  meta_Timestamp :: LegacyTimestamp
  meta_Deleted :: bool
  meta_KeyBytes :: int
  meta_ValBytes :: int
  meta_RawBytes :: "bytes option"
  meta_IntentHistory :: "SequencedIntent list"
  meta_TxnDidNotUpdateMeta :: "bool option"

definition emptyMeta :: MVCCMetadata where
  "emptyMeta = \<lparr>meta_Txn = None, meta_Timestamp = \<lparr>L_WallTime = 0, L_Logical = 0, L_Synthetic = None\<rparr>, meta_Deleted = False,
     meta_KeyBytes = 0, meta_ValBytes = 0, meta_RawBytes = None, meta_IntentHistory = [], meta_TxnDidNotUpdateMeta = None\<rparr>"

datatype ResumeReason = RESUME_UNKNOWN | RESUME_KEY_LIMIT | RESUME_BYTE_LIMIT | RESUME_INTENT_LIMIT

datatype scan_error =
    WriteTooOldError Timestamp Timestamp bytes
  | ReadWithinUncertaintyIntervalError Timestamp ClockTimestamp "Transaction option" Timestamp ClockTimestamp
  | WriteIntentError "(TxnMeta \<times> bytes) list"
  | ConditionFailedError "bytes option"
  | OtherError string

datatype advanceFn = advanceKeyForward_fn | advanceKeyAtEndForward | advanceKeyAtNewKeyForward

record scanOptions =
  so_parent :: "(MVCCKey \<times> bytes) list"
  so_start :: bytes
  so_end :: bytes
  so_ts :: Timestamp
  so_maxKeys :: int
  so_targetBytes :: int
  so_allowEmpty :: bool
  so_wholeRows :: bool
  so_maxIntents :: int
  so_txn :: "Transaction option"
  so_uncertainty :: Interval
  so_inconsistent :: bool
  so_skipLocked :: bool
  so_tombstones :: bool
  so_failOnMoreRecent :: bool
  so_maxItersBeforeSeek :: int
  so_lockTable :: "bytes \<Rightarrow> bool \<Rightarrow> bool \<times> TxnMeta option"
  so_unmarshalMeta :: "bytes \<Rightarrow> MVCCMetadata option"
  so_marshalMeta :: "MVCCMetadata \<Rightarrow> bytes"
  so_unmarshalHeader :: "bytes \<Rightarrow> MVCCValueHeader option"
  so_grow :: "pebbleResults \<Rightarrow> bytes \<Rightarrow> bytes \<Rightarrow> bool"

record scan_outcome =
  sc_results :: pebbleResults
  sc_intents :: "(bytes \<times> bytes) list"
  sc_mostRecentTS :: Timestamp
  sc_mostRecentKey :: bytes
  sc_err :: "scan_error option"
  sc_resumeReason :: ResumeReason
  sc_resumeKey :: bytes
  sc_resumeNextBytes :: int

record pebbleMVCCScanner =
  sc_pos :: nat
  sc_curUnsafeKey :: MVCCKey
  sc_curRawKey :: bytes
  sc_curRawValue :: bytes
  sc_itersBeforeSeek :: int
  sc_fn :: advanceFn
  sc_out :: scan_outcome

definition checkUncertainty :: "scanOptions \<Rightarrow> bool" where
  "checkUncertainty c = Timestamp_Less (so_ts c) (GlobalLimit (so_uncertainty c))"

text \<open>An error of a called function is kept in \<open>p.err\<close>; a panic ends the scan.\<close>

fun on_error :: "'a res \<Rightarrow> (string \<Rightarrow> 'b) \<Rightarrow> ('a \<Rightarrow> 'b res) \<Rightarrow> 'b res" where
  "on_error (Inl (Panic m)) h f = Inl (Panic m)"
| "on_error (Inl (Err m)) h f = Inr (h m)"
| "on_error (Inr x) h f = f x"

lemma on_error_eq_Inr [res_simps]:
  "on_error m h f = Inr y \<longleftrightarrow> (\<exists>e. m = Inl (Err e) \<and> y = h e) \<or> (\<exists>x. m = Inr x \<and> f x = Inr y)"
  by (cases "(m, h, f)" rule: on_error.cases) auto

definition other_error :: "string \<Rightarrow> scan_outcome \<Rightarrow> scan_outcome" where
  "other_error m s = s\<lparr>sc_err := Some (OtherError m)\<rparr>"

section \<open>Outcome\<close>

definition maybeFailOnMoreRecent :: "scanOptions \<Rightarrow> scan_outcome \<Rightarrow> scan_outcome res" where
  "maybeFailOnMoreRecent c s =
     (if sc_err s \<noteq> None \<or> Timestamp_IsEmpty (sc_mostRecentTS s) then Inr s
      else res_bind (Timestamp_Next (sc_mostRecentTS s)) (\<lambda>n.
        Inr (s\<lparr>sc_err := Some (WriteTooOldError (so_ts c) n (sc_mostRecentKey s)), sc_results := pr_clear, sc_intents := []\<rparr>)))"

definition uncertaintyError :: "scanOptions \<Rightarrow> Timestamp \<Rightarrow> ClockTimestamp \<Rightarrow> scan_outcome \<Rightarrow> scan_outcome" where
  "uncertaintyError c valueTs localTs s =
     s\<lparr>sc_err := Some (ReadWithinUncertaintyIntervalError (so_ts c) (LocalLimit (so_uncertainty c)) (so_txn c) valueTs localTs),
       sc_results := pr_clear, sc_intents := []\<rparr>"

definition addRawIntent :: "scanOptions \<Rightarrow> bytes \<Rightarrow> bytes \<Rightarrow> scan_outcome \<Rightarrow> bool \<times> scan_outcome" where
  "addRawIntent c key v s =
     (if \<not> so_grow c (sc_results s) key v then (False, other_error ''memory budget exceeded'' s)
      else (True, s\<lparr>sc_err := None, sc_intents := sc_intents s @ [(key, v)]\<rparr>))"

definition addKeyAndMetaAsIntent :: "scanOptions \<Rightarrow> bytes \<Rightarrow> TxnMeta option \<Rightarrow> scan_outcome \<Rightarrow> bool \<times> scan_outcome" where
  "addKeyAndMetaAsIntent c key txn s =
     (if txn = None then (False, other_error ''nil txn passed to addKeyAndMetaAsIntent'' s)
      else addRawIntent c (EncodeMVCCKey (MakeMVCCMetadataKey key))
             (so_marshalMeta c (emptyMeta\<lparr>meta_Txn := txn\<rparr>)) s)"

definition room_for_intent :: "scanOptions \<Rightarrow> scan_outcome \<Rightarrow> bool" where
  "room_for_intent c s \<longleftrightarrow> so_maxIntents c = 0 \<or> int (length (sc_intents s)) < so_maxIntents c"

text \<open>The result is \<open>(locked, ok)\<close>.\<close>

definition isKeyLockedByConflictingTxn :: "scanOptions \<Rightarrow> bytes \<Rightarrow> scan_outcome \<Rightarrow> ((bool \<times> bool) \<times> scan_outcome) res" where
  "isKeyLockedByConflictingTxn c rawKey s =
     on_error (DecodeKey rawKey) (\<lambda>m. ((False, False), other_error m s)) (\<lambda>(key, _).
       case so_lockTable c key (so_failOnMoreRecent c) of (locked, txn) \<Rightarrow>
         if locked then
           (if txn \<noteq> None \<and> room_for_intent c s then
              (case addKeyAndMetaAsIntent c key txn s of (added, s) \<Rightarrow> Inr (if added then ((True, True), s) else ((False, False), s)))
            else Inr ((True, True), s))
         else Inr ((False, True), s))"

text \<open>\<open>add\<close> up to the decision to put the pair; the result is whether it is put, and \<open>mustPutKey\<close>.\<close>

definition add_limits :: "scanOptions \<Rightarrow> bytes \<Rightarrow> bytes \<Rightarrow> bytes \<Rightarrow> scan_outcome \<Rightarrow> ((bool \<times> bool) \<times> scan_outcome) res" where
  "add_limits c key rawKey rawValue s =
     (case sizeInfo (sc_results s) (length rawKey) (length rawValue) of (numKeys, numBytes, numBytesInc) \<Rightarrow>
      let s = (if so_targetBytes c > 0 \<and> numBytes + numBytesInc > so_targetBytes c
               then s\<lparr>sc_resumeReason := RESUME_BYTE_LIMIT, sc_resumeNextBytes := numBytesInc\<rparr>
               else if so_maxKeys c > 0 \<and> numKeys \<ge> so_maxKeys c then s\<lparr>sc_resumeReason := RESUME_KEY_LIMIT\<rparr> else s)
      in if sc_resumeReason s \<noteq> RESUME_UNKNOWN then
           res_bind (if so_allowEmpty c then Inr False
                     else if numKeys = 0 then Inr True
                     else if so_wholeRows c then continuesFirstRow (sc_results s) key else Inr False) (\<lambda>must.
             if must then Inr ((True, True), s\<lparr>sc_resumeReason := RESUME_UNKNOWN, sc_resumeNextBytes := 0\<rparr>)
             else
               (let s = s\<lparr>sc_resumeKey := key\<rparr> in
                if so_wholeRows c then
                  on_error (maybeTrimPartialLastRow key (sc_results s)) (\<lambda>m. ((False, False), other_error m s)) (\<lambda>(trimmedKey, r).
                    Inr ((False, False), (case trimmedKey of None \<Rightarrow> s | Some k \<Rightarrow> s\<lparr>sc_resumeKey := k\<rparr>)\<lparr>sc_results := r\<rparr>))
                else Inr ((False, False), s)))
         else Inr ((True, False), s))"

definition add_put :: "scanOptions \<Rightarrow> bytes \<Rightarrow> bytes \<Rightarrow> bool \<Rightarrow> scan_outcome \<Rightarrow> ((bool \<times> bool) \<times> scan_outcome) res" where
  "add_put c rawKey rawValue mustPutKey s =
     (case sizeInfo (sc_results s) (length rawKey) (length rawValue) of (numKeys, numBytes, _) \<Rightarrow>
      let maxNewSize = (if so_targetBytes c > 0 \<and> so_targetBytes c > numBytes \<and> \<not> mustPutKey then so_targetBytes c - numBytes else 0)
      in on_error (put (so_grow c (sc_results s) rawKey rawValue) rawKey rawValue maxNewSize (sc_results s))
           (\<lambda>m. ((False, False), other_error m s)) (\<lambda>r.
             let s = s\<lparr>sc_results := r\<rparr> in
             if so_maxKeys c > 0 \<and> numKeys + 1 \<ge> so_maxKeys c then
               res_bind (if so_wholeRows c then lastRowHasFinalColumnFamily r False else Inr True) (\<lambda>final.
                 if final then Inr ((False, True), s\<lparr>sc_resumeReason := RESUME_KEY_LIMIT\<rparr>) else Inr ((True, True), s))
             else Inr ((True, True), s)))"

definition scanner_add :: "scanOptions \<Rightarrow> bytes \<Rightarrow> bytes \<Rightarrow> bytes \<Rightarrow> scan_outcome \<Rightarrow> ((bool \<times> bool) \<times> scan_outcome) res" where
  "scanner_add c key rawKey rawValue s =
     (if length rawValue = 0 \<and> \<not> so_tombstones c then Inr ((True, False), s)
      else
        res_bind (if so_skipLocked c then isKeyLockedByConflictingTxn c rawKey s else Inr ((False, True), s)) (\<lambda>((locked, ok), s).
          if \<not> ok then Inr ((False, False), s)
          else if locked then Inr ((True, False), s)
          else res_bind (add_limits c key rawKey rawValue s) (\<lambda>((proceed, mustPutKey), s).
                 if proceed then add_put c rawKey rawValue mustPutKey s else Inr ((False, False), s))))"

section \<open>One version\<close>

text \<open>
  Decoding of the current value, and what \<open>seekVersion\<close> does at a version at or below the timestamp it seeks: it adds the
  version, fails when it is uncertain, or (\<open>None\<close>) goes on to the next one.
\<close>

definition check_version :: "scanOptions \<Rightarrow> bool \<Rightarrow> MVCCKey \<Rightarrow> bytes \<Rightarrow> bytes \<Rightarrow> scan_outcome \<Rightarrow> ((bool \<times> bool) option \<times> scan_outcome) res" where
  "check_version c uncertaintyCheck key rawKey rawValue s =
     on_error (DecodeMVCCValue (so_unmarshalHeader c) rawValue) (\<lambda>m. (Some (False, False), other_error m s)) (\<lambda>v.
       let s = s\<lparr>sc_err := None\<rparr> in
       if \<not> uncertaintyCheck \<or> Timestamp_LessEq (mk_Timestamp key) (so_ts c) then
         res_bind (scanner_add c (mk_Key key) rawKey (mv_RawBytes v) s) (\<lambda>(b, s). Inr (Some b, s))
       else
         (let localTS = GetLocalTimestamp v (mk_Timestamp key) in
          res_bind (IsUncertain (so_uncertainty c) (mk_Timestamp key) localTS) (\<lambda>u.
            if u then Inr (Some (False, False), uncertaintyError c (mk_Timestamp key) localTS s) else Inr (None, s))))"

section \<open>The current entry\<close>

text \<open>What \<open>getOne\<close> does with the entry it is on: it is done with the key, or it seeks a version of it.\<close>

datatype action = Done "bool \<times> bool" scan_outcome | SeekTo Timestamp bool scan_outcome

definition note_more_recent :: "scanOptions \<Rightarrow> MVCCKey \<Rightarrow> bytes \<Rightarrow> scan_outcome \<Rightarrow> action res" where
  "note_more_recent c key rawKey s =
     res_bind (if so_skipLocked c then isKeyLockedByConflictingTxn c rawKey s else Inr ((False, True), s)) (\<lambda>((locked, ok), s).
       if \<not> ok then Inr (Done (False, False) s)
       else if locked then Inr (Done (True, False) s)
       else Inr (Done (True, False)
              (s\<lparr>sc_mostRecentTS := fwd (sc_mostRecentTS s) (mk_Timestamp key),
                 sc_mostRecentKey := (if length (sc_mostRecentKey s) = 0 then mk_Key key else sc_mostRecentKey s)\<rparr>)))"

definition getOne_version :: "scanOptions \<Rightarrow> MVCCKey \<Rightarrow> bytes \<Rightarrow> bytes \<Rightarrow> scan_outcome \<Rightarrow> action res" where
  "getOne_version c key rawKey rawValue s =
     on_error (DecodeMVCCValue (so_unmarshalHeader c) rawValue) (\<lambda>m. Done (False, False) (other_error m s)) (\<lambda>v.
       let s = s\<lparr>sc_err := None\<rparr> in
       if Timestamp_Less (mk_Timestamp key) (so_ts c) then
         res_bind (scanner_add c (mk_Key key) rawKey (mv_RawBytes v) s) (\<lambda>(b, s). Inr (Done b s))
       else if Timestamp_EqOrdering (mk_Timestamp key) (so_ts c) then
         (if so_failOnMoreRecent c then note_more_recent c key rawKey s
          else res_bind (scanner_add c (mk_Key key) rawKey (mv_RawBytes v) s) (\<lambda>(b, s). Inr (Done b s)))
       else if so_failOnMoreRecent c then note_more_recent c key rawKey s
       else if checkUncertainty c then
         (let localTS = GetLocalTimestamp v (mk_Timestamp key) in
          res_bind (IsUncertain (so_uncertainty c) (mk_Timestamp key) localTS) (\<lambda>u.
            if u then Inr (Done (False, False) (uncertaintyError c (mk_Timestamp key) localTS s))
            else Inr (SeekTo (GlobalLimit (so_uncertainty c)) True s)))
       else Inr (SeekTo (so_ts c) False s))"

text \<open>The index of the last intent of the history that is not above the sequence number and not ignored.\<close>

fun skip_ignored :: "SequencedIntent list \<Rightarrow> IgnoredSeqNumRange list \<Rightarrow> nat \<Rightarrow> nat" where
  "skip_ignored hist ignored 0 = 0"
| "skip_ignored hist ignored (Suc i) =
     (if TxnSeqIsIgnored (si_Sequence (hist ! i)) ignored then skip_ignored hist ignored i else Suc i)"

definition getFromIntentHistory :: "SequencedIntent list \<Rightarrow> int \<Rightarrow> IgnoredSeqNumRange list \<Rightarrow> bytes option" where
  "getFromIntentHistory hist txnSequence ignored =
     (let upIdx = skip_ignored hist ignored (sort_Search (length hist) (\<lambda>i. si_Sequence (hist ! i) > txnSequence)) in
      if upIdx = 0 then None else Some (si_Value (hist ! (upIdx - 1))))"

definition other_intent :: "scanOptions \<Rightarrow> Timestamp \<Rightarrow> Timestamp \<Rightarrow> bytes \<Rightarrow> bytes \<Rightarrow> scan_outcome \<Rightarrow> action" where
  "other_intent c metaTS prevTS rawKey rawValue s =
     (if \<not> (Timestamp_LessEq metaTS (so_ts c) \<or> so_failOnMoreRecent c) then
        (if checkUncertainty c then SeekTo (GlobalLimit (so_uncertainty c)) True s else SeekTo (so_ts c) False s)
      else if so_inconsistent c then
        (case addRawIntent c rawKey rawValue s of (ok, s) \<Rightarrow> if \<not> ok then Done (False, False) s else SeekTo prevTS False s)
      else if so_skipLocked c then
        (if room_for_intent c s then
           (case addRawIntent c rawKey rawValue s of (ok, s) \<Rightarrow> if \<not> ok then Done (False, False) s else Done (True, False) s)
         else Done (True, False) s)
      else
        (case addRawIntent c rawKey rawValue s of (ok, s) \<Rightarrow>
           if \<not> ok then Done (False, False) s
           else if so_maxIntents c > 0 \<and> int (length (sc_intents s)) \<ge> so_maxIntents c
           then Done (False, False) (s\<lparr>sc_resumeReason := RESUME_INTENT_LIMIT\<rparr>)
           else Done (True, False) s))"

definition own_intent :: "scanOptions \<Rightarrow> Transaction \<Rightarrow> TxnMeta \<Rightarrow> SequencedIntent list \<Rightarrow> Timestamp \<Rightarrow> Timestamp \<Rightarrow> MVCCKey \<Rightarrow> scan_outcome \<Rightarrow> action res" where
  "own_intent c txn mtxn hist metaTS prevTS key s =
     (let epoch = tx_Epoch (tx_Meta txn); sq = tx_Sequence (tx_Meta txn); ignored = tx_IgnoredSeqNums txn in
      if epoch = tx_Epoch mtxn then
        (if sq \<ge> tx_Sequence mtxn \<and> \<not> TxnSeqIsIgnored (tx_Sequence mtxn) ignored then Inr (SeekTo metaTS False s)
         else (case getFromIntentHistory hist sq ignored of
                 Some intentValueRaw \<Rightarrow>
                   on_error (DecodeMVCCValue (so_unmarshalHeader c) intentValueRaw) (\<lambda>m. Done (False, False) (other_error m s)) (\<lambda>v.
                     res_bind (scanner_add c (mk_Key key) (EncodeMVCCKey (key\<lparr>mk_Timestamp := metaTS\<rparr>)) (mv_RawBytes v) (s\<lparr>sc_err := None\<rparr>))
                       (\<lambda>(b, s). Inr (Done b s)))
               | None \<Rightarrow> Inr (SeekTo prevTS False s)))
      else if epoch < tx_Epoch mtxn then Inr (Done (False, False) (other_error ''failed to read with epoch due to a write intent with epoch'' s))
      else Inr (SeekTo prevTS False s))"

definition getOne_meta :: "scanOptions \<Rightarrow> MVCCKey \<Rightarrow> bytes \<Rightarrow> bytes \<Rightarrow> scan_outcome \<Rightarrow> action res" where
  "getOne_meta c key rawKey rawValue s =
     (if length rawValue = 0 then Inr (Done (False, False) (other_error ''zero-length mvcc metadata'' s))
      else (case so_unmarshalMeta c rawValue of
              None \<Rightarrow> Inr (Done (False, False) (other_error ''unable to decode MVCCMetadata'' s))
            | Some meta \<Rightarrow>
                if key_len (meta_RawBytes meta) \<noteq> 0 then
                  res_bind (scanner_add c (mk_Key key) rawKey (case meta_RawBytes meta of None \<Rightarrow> [] | Some b \<Rightarrow> b) s) (\<lambda>(b, s). Inr (Done b s))
                else (case meta_Txn meta of
                        None \<Rightarrow> Inr (Done (False, False) (other_error ''intent without transaction'' s))
                      | Some mtxn \<Rightarrow>
                          (let metaTS = LegacyTimestamp_ToTimestamp (meta_Timestamp meta) in
                           res_bind (if Timestamp_LessEq metaTS (so_ts c) then Timestamp_Prev metaTS else Inr (so_ts c)) (\<lambda>prevTS.
                             case so_txn c of
                               None \<Rightarrow> Inr (other_intent c metaTS prevTS rawKey rawValue s)
                             | Some txn \<Rightarrow>
                                 if tx_ID mtxn \<noteq> tx_ID (tx_Meta txn) then Inr (other_intent c metaTS prevTS rawKey rawValue s)
                                 else own_intent c txn mtxn (meta_IntentHistory meta) metaTS prevTS key s)))))"

definition getOne_action :: "scanOptions \<Rightarrow> MVCCKey \<Rightarrow> bytes \<Rightarrow> bytes \<Rightarrow> scan_outcome \<Rightarrow> action res" where
  "getOne_action c key rawKey rawValue s =
     (if \<not> Timestamp_IsEmpty (mk_Timestamp key) then getOne_version c key rawKey rawValue s else getOne_meta c key rawKey rawValue s)"

section \<open>The iterator and the cursor\<close>

definition SeekGE :: "(MVCCKey \<times> bytes) list \<Rightarrow> MVCCKey \<Rightarrow> nat" where
  "SeekGE es key = length (takeWhile (\<lambda>e. MVCCKey_Less (fst e) key) es)"

definition NextKey :: "(MVCCKey \<times> bytes) list \<Rightarrow> nat \<Rightarrow> nat" where
  "NextKey es i = i + length (takeWhile (\<lambda>e. mk_Key (fst e) = mk_Key (fst (es ! i))) (drop i es))"

definition iterValid :: "scanOptions \<Rightarrow> pebbleMVCCScanner \<Rightarrow> bool" where
  "iterValid c p \<longleftrightarrow> sc_pos p < length (so_parent c)"

definition updateCurrent :: "scanOptions \<Rightarrow> pebbleMVCCScanner \<Rightarrow> (bool \<times> pebbleMVCCScanner) res" where
  "updateCurrent c p =
     (let raw = EncodeMVCCKey (fst (so_parent c ! sc_pos p)); p = p\<lparr>sc_curRawKey := raw\<rparr> in
      on_error (DecodeMVCCKey raw) (\<lambda>m. (False, p\<lparr>sc_out := other_error ''unable to decode MVCCKey'' (sc_out p)\<rparr>)) (\<lambda>key.
        Inr (True, p\<lparr>sc_curUnsafeKey := key, sc_curRawValue := snd (so_parent c ! sc_pos p)\<rparr>)))"

definition iterMove :: "scanOptions \<Rightarrow> nat \<Rightarrow> pebbleMVCCScanner \<Rightarrow> (bool \<times> pebbleMVCCScanner) res" where
  "iterMove c pos p =
     (let p = p\<lparr>sc_pos := pos\<rparr> in if \<not> iterValid c p then Inr (False, p) else updateCurrent c p)"

definition iterSeek :: "scanOptions \<Rightarrow> MVCCKey \<Rightarrow> pebbleMVCCScanner \<Rightarrow> (bool \<times> pebbleMVCCScanner) res" where
  "iterSeek c key p = iterMove c (SeekGE (so_parent c) key) p"

definition iterNext :: "scanOptions \<Rightarrow> pebbleMVCCScanner \<Rightarrow> (bool \<times> pebbleMVCCScanner) res" where
  "iterNext c p = iterMove c (sc_pos p + 1) p"

definition nextKey :: "scanOptions \<Rightarrow> pebbleMVCCScanner \<Rightarrow> (bool \<times> pebbleMVCCScanner) res" where
  "nextKey c p = iterMove c (NextKey (so_parent c) (sc_pos p)) p"

definition advanceKeyForward :: "scanOptions \<Rightarrow> pebbleMVCCScanner \<Rightarrow> (bool \<times> pebbleMVCCScanner) res" where
  "advanceKeyForward c p = nextKey c p"

definition setAdvanceKeyAtEnd :: "pebbleMVCCScanner \<Rightarrow> pebbleMVCCScanner" where
  "setAdvanceKeyAtEnd p = p\<lparr>sc_fn := advanceKeyAtEndForward\<rparr>"

definition setAdvanceKeyAtNewKey :: "pebbleMVCCScanner \<Rightarrow> pebbleMVCCScanner" where
  "setAdvanceKeyAtNewKey p = p\<lparr>sc_fn := advanceKeyAtNewKeyForward\<rparr>"

definition incrementItersBeforeSeek :: "scanOptions \<Rightarrow> pebbleMVCCScanner \<Rightarrow> pebbleMVCCScanner" where
  "incrementItersBeforeSeek c p =
     (let n = sc_itersBeforeSeek p + 1 in
      p\<lparr>sc_itersBeforeSeek := (if n > so_maxItersBeforeSeek c then so_maxItersBeforeSeek c else n)\<rparr>)"

definition decrementItersBeforeSeek :: "scanOptions \<Rightarrow> pebbleMVCCScanner \<Rightarrow> pebbleMVCCScanner" where
  "decrementItersBeforeSeek c p =
     (let n = sc_itersBeforeSeek p - 1 in
      p\<lparr>sc_itersBeforeSeek :=
         (if n < 1 then (if so_maxItersBeforeSeek c > 0 then 1 else if n < 0 then 0 else n) else n)\<rparr>)"

section \<open>Seeking a version\<close>

definition check_current :: "scanOptions \<Rightarrow> bool \<Rightarrow> pebbleMVCCScanner \<Rightarrow> ((bool \<times> bool) option \<times> pebbleMVCCScanner) res" where
  "check_current c uc p =
     res_bind (check_version c uc (sc_curUnsafeKey p) (sc_curRawKey p) (sc_curRawValue p) (sc_out p)) (\<lambda>(r, s). Inr (r, p\<lparr>sc_out := s\<rparr>))"

lemma check_current_pos: "check_current c uc p = Inr (r, q) \<Longrightarrow> sc_pos q = sc_pos p"
  by (auto simp: check_current_def res_simps)

lemma iterMove_pos: "iterMove c n p = Inr (True, q) \<Longrightarrow> sc_pos q = n \<and> n < length (so_parent c)"
  by (auto simp: iterMove_def updateCurrent_def iterValid_def Let_def res_simps split: if_splits)

lemma increment_keeps [simp]:
  "sc_pos (incrementItersBeforeSeek c p) = sc_pos p" "sc_out (incrementItersBeforeSeek c p) = sc_out p"
  "sc_fn (incrementItersBeforeSeek c p) = sc_fn p" "sc_curUnsafeKey (incrementItersBeforeSeek c p) = sc_curUnsafeKey p"
  "sc_curRawKey (incrementItersBeforeSeek c p) = sc_curRawKey p" "sc_curRawValue (incrementItersBeforeSeek c p) = sc_curRawValue p"
  by (simp_all add: incrementItersBeforeSeek_def Let_def)

lemma decrement_keeps [simp]:
  "sc_pos (decrementItersBeforeSeek c p) = sc_pos p" "sc_out (decrementItersBeforeSeek c p) = sc_out p"
  "sc_fn (decrementItersBeforeSeek c p) = sc_fn p"
  by (simp_all add: decrementItersBeforeSeek_def Let_def)

text \<open>The steps before the seek; \<open>None\<close> when their number is used up.\<close>

function seek_steps :: "scanOptions \<Rightarrow> Timestamp \<Rightarrow> bool \<Rightarrow> bytes \<Rightarrow> int \<Rightarrow> pebbleMVCCScanner \<Rightarrow> ((bool \<times> bool) option \<times> pebbleMVCCScanner) res" where
  "seek_steps c seekTS uc origKey i p =
     (if \<not> i < sc_itersBeforeSeek p then Inr (None, p)
      else (case iterNext c p of
              Inl e \<Rightarrow> Inl e
            | Inr (ok, q) \<Rightarrow>
                if \<not> ok then Inr (Some (True, False), setAdvanceKeyAtEnd q)
                else if mk_Key (sc_curUnsafeKey q) \<noteq> origKey then
                  Inr (Some (True, False), setAdvanceKeyAtNewKey (incrementItersBeforeSeek c q))
                else if Timestamp_LessEq (mk_Timestamp (sc_curUnsafeKey q)) seekTS then
                  (case check_current c uc (incrementItersBeforeSeek c q) of
                     Inl e \<Rightarrow> Inl e
                   | Inr (Some r, q') \<Rightarrow> Inr (Some r, q')
                   | Inr (None, q') \<Rightarrow> seek_steps c seekTS uc origKey (i + 1) q')
                else seek_steps c seekTS uc origKey (i + 1) q))"
  by pat_completeness auto
termination
  by (relation "measure (\<lambda>(c, ts, uc, k, i, p). length (so_parent c) - sc_pos p)")
    (auto simp: iterNext_def dest!: iterMove_pos check_current_pos)

text \<open>The loop after the seek.\<close>

function seek_scan :: "scanOptions \<Rightarrow> bool \<Rightarrow> bytes \<Rightarrow> pebbleMVCCScanner \<Rightarrow> ((bool \<times> bool) \<times> pebbleMVCCScanner) res" where
  "seek_scan c uc origKey p =
     (if mk_Key (sc_curUnsafeKey p) \<noteq> origKey then Inr ((True, False), setAdvanceKeyAtNewKey p)
      else (case check_current c uc p of
              Inl e \<Rightarrow> Inl e
            | Inr (Some r, p') \<Rightarrow> Inr (r, p')
            | Inr (None, p') \<Rightarrow>
                (case iterNext c p' of
                   Inl e \<Rightarrow> Inl e
                 | Inr (ok, q) \<Rightarrow> if \<not> ok then Inr ((True, False), setAdvanceKeyAtEnd q) else seek_scan c uc origKey q)))"
  by pat_completeness auto
termination
  by (relation "measure (\<lambda>(c, uc, k, p). length (so_parent c) - sc_pos p)")
    (auto simp: iterNext_def dest!: iterMove_pos check_current_pos)

declare seek_steps.simps [simp del] seek_scan.simps [simp del]

definition seekVersion :: "scanOptions \<Rightarrow> Timestamp \<Rightarrow> bool \<Rightarrow> pebbleMVCCScanner \<Rightarrow> ((bool \<times> bool) \<times> pebbleMVCCScanner) res" where
  "seekVersion c seekTS uc p =
     (if Timestamp_IsEmpty seekTS then Inr ((True, False), p)
      else
        (let origKey = mk_Key (sc_curUnsafeKey p); seekKey = \<lparr>mk_Key = origKey, mk_Timestamp = seekTS\<rparr> in
         res_bind (seek_steps c seekTS uc origKey 0 p) (\<lambda>(r, p).
           case r of
             Some b \<Rightarrow> Inr (b, p)
           | None \<Rightarrow>
               res_bind (iterSeek c seekKey (decrementItersBeforeSeek c p)) (\<lambda>(ok, p).
                 if \<not> ok then Inr ((True, False), setAdvanceKeyAtEnd p) else seek_scan c uc origKey p))))"

section \<open>Scans\<close>

definition getOne :: "scanOptions \<Rightarrow> pebbleMVCCScanner \<Rightarrow> ((bool \<times> bool) \<times> pebbleMVCCScanner) res" where
  "getOne c p =
     res_bind (getOne_action c (sc_curUnsafeKey p) (sc_curRawKey p) (sc_curRawValue p) (sc_out p)) (\<lambda>a.
       case a of
         Done b s \<Rightarrow> Inr (b, p\<lparr>sc_out := s\<rparr>)
       | SeekTo ts uc s \<Rightarrow> seekVersion c ts uc (p\<lparr>sc_out := s\<rparr>))"

definition advance :: "scanOptions \<Rightarrow> pebbleMVCCScanner \<Rightarrow> (bool \<times> pebbleMVCCScanner) res" where
  "advance c p =
     (case sc_fn p of
        advanceKeyForward_fn \<Rightarrow> advanceKeyForward c p
      | advanceKeyAtEndForward \<Rightarrow> Inr (False, p)
      | advanceKeyAtNewKeyForward \<Rightarrow> Inr (True, p\<lparr>sc_fn := advanceKeyForward_fn\<rparr>))"

definition scanner_start :: "scanOptions \<Rightarrow> pebbleResults \<Rightarrow> pebbleMVCCScanner" where
  "scanner_start c results =
     \<lparr>sc_pos = 0, sc_curUnsafeKey = MakeMVCCMetadataKey [], sc_curRawKey = [], sc_curRawValue = [],
      sc_itersBeforeSeek = so_maxItersBeforeSeek c div 2, sc_fn = advanceKeyForward_fn,
      sc_out = \<lparr>sc_results = results, sc_intents = [], sc_mostRecentTS = noTs, sc_mostRecentKey = [], sc_err = None,
        sc_resumeReason = RESUME_UNKNOWN, sc_resumeKey = [], sc_resumeNextBytes = 0\<rparr>\<rparr>"

definition seekToStartOfScan :: "scanOptions \<Rightarrow> pebbleMVCCScanner \<Rightarrow> (bool \<times> pebbleMVCCScanner) res" where
  "seekToStartOfScan c p =
     res_bind (iterSeek c (MakeMVCCMetadataKey (so_start c)) p) (\<lambda>(ok, p).
       if \<not> ok then res_bind (maybeFailOnMoreRecent c (sc_out p)) (\<lambda>s. Inr (False, p\<lparr>sc_out := s\<rparr>))
       else Inr (True, p\<lparr>sc_fn := advanceKeyForward_fn\<rparr>))"

partial_function (option) scan_loop :: "scanOptions \<Rightarrow> pebbleMVCCScanner \<Rightarrow> pebbleMVCCScanner res option" where
  "scan_loop c p =
     (case getOne c p of
        Inl e \<Rightarrow> Some (Inl e)
      | Inr ((ok, _), p) \<Rightarrow>
          if ok then
            (case advance c p of
               Inl e \<Rightarrow> Some (Inl e)
             | Inr (ok, p) \<Rightarrow> if ok then scan_loop c p else Some (Inr p))
          else Some (Inr p))"

text \<open>The result of a scan: the resume span, its reason, the size of the next pair; or an error. The scanner is returned with it.\<close>

type_synonym scan_result = "scan_error + (Span option \<times> ResumeReason \<times> int)"

definition afterScan :: "scanOptions \<Rightarrow> pebbleMVCCScanner \<Rightarrow> (scan_result \<times> scan_outcome) res" where
  "afterScan c p =
     res_bind (maybeFailOnMoreRecent c (sc_out p)) (\<lambda>s.
       let p = p\<lparr>sc_out := s\<rparr> in
       case sc_err s of
         Some e \<Rightarrow> Inr (Inl e, s)
       | None \<Rightarrow>
           if sc_resumeReason s \<noteq> RESUME_UNKNOWN then
             res_bind (if length (sc_resumeKey s) = 0 then
                         res_bind (advanceKeyForward c p) (\<lambda>(ok, p). Inr (ok, mk_Key (sc_curUnsafeKey p), sc_out p))
                       else Inr (True, sc_resumeKey s, s)) (\<lambda>(ok, resumeKey, s).
               if \<not> ok then Inr (Inr (None, RESUME_UNKNOWN, 0), s)
               else Inr (Inr (Some \<lparr>Key = resumeKey, EndKey = Some (so_end c)\<rparr>, sc_resumeReason s, sc_resumeNextBytes s), s))
           else Inr (Inr (None, RESUME_UNKNOWN, 0), s))"

definition scan :: "scanOptions \<Rightarrow> pebbleMVCCScanner \<Rightarrow> (scan_result \<times> scan_outcome) res option" where
  "scan c p =
     (if so_wholeRows c \<and> \<not> lastOffsetsEnabled (sc_results (sc_out p)) then
        Some (Inr (Inl (OtherError ''cannot use wholeRows without trackLastOffsets''), sc_out p))
      else (case seekToStartOfScan c p of
              Inl e \<Rightarrow> Some (Inl e)
            | Inr (ok, p) \<Rightarrow>
                if \<not> ok then
                  Some (Inr (case sc_err (sc_out p) of Some e \<Rightarrow> Inl e | None \<Rightarrow> Inr (None, RESUME_UNKNOWN, 0), sc_out p))
                else (case scan_loop c p of
                        None \<Rightarrow> None
                      | Some (Inl e) \<Rightarrow> Some (Inl e)
                      | Some (Inr p) \<Rightarrow> Some (afterScan c p))))"

text \<open>\<open>get\<close> reads one key; its iterator sees only the entries of that key.\<close>

definition scanner_get :: "scanOptions \<Rightarrow> pebbleMVCCScanner \<Rightarrow> scan_outcome res" where
  "scanner_get c p =
     (let p = p\<lparr>sc_pos := SeekGE (so_parent c) (MakeMVCCMetadataKey (so_start c))\<rparr> in
      if \<not> iterValid c p then Inr (sc_out p)
      else
        res_bind (updateCurrent c p) (\<lambda>(ok, p).
          res_bind (if ok then res_bind (getOne c p) (\<lambda>(_, p). Inr p) else Inr p) (\<lambda>p. maybeFailOnMoreRecent c (sc_out p))))"

section \<open>The operation\<close>

record MVCCScanResult =
  KVData :: "bytes list"
  NumKeys :: int
  NumBytes :: int
  ResumeSpan :: "Span option"
  ResumeReason_of :: ResumeReason
  ResumeNextBytes :: int
  Intents :: "(TxnMeta \<times> bytes) list"

definition scan_validate :: "scanOptions \<Rightarrow> bool \<Rightarrow> string option" where
  "scan_validate c dontInterleaveIntents =
     (if so_inconsistent c \<and> so_txn c \<noteq> None then Some ''cannot allow inconsistent reads within a transaction''
      else if so_inconsistent c \<and> so_skipLocked c then Some ''cannot allow inconsistent reads with skip locked option''
      else if so_inconsistent c \<and> so_failOnMoreRecent c then Some ''cannot allow inconsistent reads with fail on more recent option''
      else if dontInterleaveIntents \<and> so_skipLocked c then Some ''cannot disable interleaved intents with skip locked option''
      else None)"

definition errOnIntents :: "scanOptions \<Rightarrow> bool" where
  "errOnIntents c \<longleftrightarrow> \<not> so_inconsistent c \<and> \<not> so_skipLocked c"

fun buildScanIntents :: "scanOptions \<Rightarrow> (bytes \<times> bytes) list \<Rightarrow> (TxnMeta \<times> bytes) list res" where
  "buildScanIntents c [] = Inr []"
| "buildScanIntents c ((k, v) # data) =
     res_bind (DecodeMVCCKey k) (\<lambda>key.
       case so_unmarshalMeta c v of
         None \<Rightarrow> Inl (Err ''unable to decode MVCCMetadata'')
       | Some meta \<Rightarrow>
           (case meta_Txn meta of
              None \<Rightarrow> Inl (Err ''unexpected nil MVCCMetadata.Txn'')
            | Some txn \<Rightarrow> res_bind (buildScanIntents c data) (\<lambda>intents. Inr ((txn, mk_Key key) # intents))))"

definition finalizeScanResult :: "scanOptions \<Rightarrow> scan_outcome \<Rightarrow> MVCCScanResult \<Rightarrow> (scan_error + MVCCScanResult) res" where
  "finalizeScanResult c s result =
     (case sizeInfo (sc_results s) 0 0 of (numKeys, numBytes, _) \<Rightarrow>
      on_error (buildScanIntents c (sc_intents s)) (\<lambda>m. Inl (OtherError m)) (\<lambda>intents.
        if errOnIntents c \<and> intents \<noteq> [] then Inr (Inl (WriteIntentError intents))
        else Inr (Inr (result\<lparr>NumKeys := numKeys, NumBytes := numBytes, Intents := intents\<rparr>))))"

definition emptyScanResult :: MVCCScanResult where
  "emptyScanResult = \<lparr>KVData = [], NumKeys = 0, NumBytes = 0, ResumeSpan = None, ResumeReason_of = RESUME_UNKNOWN, ResumeNextBytes = 0, Intents = []\<rparr>"

text \<open>The checks of \<open>mvccScanInit\<close>: a result that is returned at once, or \<open>None\<close>.\<close>

definition mvccScanInit :: "scanOptions \<Rightarrow> bool \<Rightarrow> (scan_error + MVCCScanResult) option" where
  "mvccScanInit c dontInterleaveIntents =
     (let whole = Some \<lparr>Key = so_start c, EndKey = Some (so_end c)\<rparr> in
      if length (so_end c) = 0 then Some (Inl (OtherError ''attempted access to empty key''))
      else (case scan_validate c dontInterleaveIntents of
              Some m \<Rightarrow> Some (Inl (OtherError m))
            | None \<Rightarrow>
                if so_maxKeys c < 0 then Some (Inr (emptyScanResult\<lparr>ResumeSpan := whole, ResumeReason_of := RESUME_KEY_LIMIT\<rparr>))
                else if so_targetBytes c < 0 then Some (Inr (emptyScanResult\<lparr>ResumeSpan := whole, ResumeReason_of := RESUME_BYTE_LIMIT\<rparr>))
                else None))"

definition mvccScanToBytes :: "scanOptions \<Rightarrow> nat \<Rightarrow> bool \<Rightarrow> (scan_error + MVCCScanResult) res option" where
  "mvccScanToBytes opts wholeRowsOfSize dontInterleaveIntents =
     (let c = opts\<lparr>so_wholeRows := wholeRowsOfSize > 1\<rparr>;
          results = (if wholeRowsOfSize > 1 then pr_clear\<lparr>lastOffsetsEnabled := True, lastOffsets := replicate wholeRowsOfSize 0\<rparr> else pr_clear)
      in case mvccScanInit c dontInterleaveIntents of
           Some r \<Rightarrow> Some (Inr r)
         | None \<Rightarrow>
             (case scan c (scanner_start c results) of
                None \<Rightarrow> None
              | Some (Inl e) \<Rightarrow> Some (Inl e)
              | Some (Inr (Inl e, s)) \<Rightarrow> Some (Inr (Inl e))
              | Some (Inr (Inr (span, reason, nextBytes), s)) \<Rightarrow>
                  Some (finalizeScanResult c s
                    (emptyScanResult\<lparr>KVData := finish (sc_results s), ResumeSpan := span, ResumeReason_of := reason, ResumeNextBytes := nextBytes\<rparr>))))"

end
