(* ===== verification/Scanner_Reference.thy ===== *)
theory Scanner_Reference
  imports Mvcc_Scanner
begin

text \<open>
  A reference for scans: it reads the versions of each key from a list, without an iterator. The scanner, which steps and
  seeks and keeps a machine for where its iterator is, agrees with it on every result.
\<close>

section \<open>The reference\<close>

text \<open>A scan over the versions of each key as lists.\<close>

fun ref_seek :: "scanOptions \<Rightarrow> Timestamp \<Rightarrow> bool \<Rightarrow> (MVCCKey \<times> bytes) list \<Rightarrow> scan_outcome \<Rightarrow> ((bool \<times> bool) \<times> scan_outcome) res" where
  "ref_seek c seekTS uc [] s = Inr ((True, False), s)"
| "ref_seek c seekTS uc (e # es) s =
     (if Timestamp_LessEq (mk_Timestamp (fst e)) seekTS then
        (case check_version c uc (fst e) (EncodeMVCCKey (fst e)) (snd e) s of
           Inl x \<Rightarrow> Inl x
         | Inr (Some r, s) \<Rightarrow> Inr (r, s)
         | Inr (None, s) \<Rightarrow> ref_seek c seekTS uc es s)
      else ref_seek c seekTS uc es s)"

definition ref_getOne :: "scanOptions \<Rightarrow> (MVCCKey \<times> bytes) list \<Rightarrow> scan_outcome \<Rightarrow> ((bool \<times> bool) \<times> scan_outcome) res" where
  "ref_getOne c g s =
     res_bind (getOne_action c (fst (hd g)) (EncodeMVCCKey (fst (hd g))) (snd (hd g)) s) (\<lambda>a.
       case a of
         Done b s \<Rightarrow> Inr (b, s)
       | SeekTo ts uc s \<Rightarrow> if Timestamp_IsEmpty ts then Inr ((True, False), s) else ref_seek c ts uc (tl g) s)"

function groups :: "(MVCCKey \<times> bytes) list \<Rightarrow> (MVCCKey \<times> bytes) list list" where
  "groups [] = []"
| "groups (e # es) =
     (e # takeWhile (\<lambda>x. mk_Key (fst x) = mk_Key (fst e)) es) # groups (dropWhile (\<lambda>x. mk_Key (fst x) = mk_Key (fst e)) es)"
  by pat_completeness auto
termination
  by (relation "measure length") (auto simp: length_dropWhile_le less_Suc_eq_le)

text \<open>The groups that are left when the scan stops, and the outcome.\<close>

fun ref_loop :: "scanOptions \<Rightarrow> (MVCCKey \<times> bytes) list list \<Rightarrow> scan_outcome \<Rightarrow> ((MVCCKey \<times> bytes) list list \<times> scan_outcome) res" where
  "ref_loop c [] s = Inr ([], s)"
| "ref_loop c (g # gs) s = res_bind (ref_getOne c g s) (\<lambda>((ok, _), s). if ok then ref_loop c gs s else Inr (gs, s))"

definition ref_after :: "scanOptions \<Rightarrow> (MVCCKey \<times> bytes) list list \<Rightarrow> scan_outcome \<Rightarrow> (scan_result \<times> scan_outcome) res" where
  "ref_after c gs s =
     res_bind (maybeFailOnMoreRecent c s) (\<lambda>s.
       case sc_err s of
         Some e \<Rightarrow> Inr (Inl e, s)
       | None \<Rightarrow>
           let resume = (\<lambda>k. Inr (Inr (Some \<lparr>Key = k, EndKey = Some (so_end c)\<rparr>, sc_resumeReason s, sc_resumeNextBytes s), s)) in
           if sc_resumeReason s = RESUME_UNKNOWN then Inr (Inr (None, RESUME_UNKNOWN, 0), s)
           else if sc_resumeKey s \<noteq> [] then resume (sc_resumeKey s)
           else (case gs of [] \<Rightarrow> Inr (Inr (None, RESUME_UNKNOWN, 0), s) | g # _ \<Rightarrow> resume (mk_Key (fst (hd g)))))"

definition ref_scan :: "scanOptions \<Rightarrow> scan_outcome \<Rightarrow> (scan_result \<times> scan_outcome) res" where
  "ref_scan c s =
     (if so_wholeRows c \<and> \<not> lastOffsetsEnabled (sc_results s) then
        Inr (Inl (OtherError ''cannot use wholeRows without trackLastOffsets''), s)
      else res_bind (ref_loop c (groups (dropWhile (\<lambda>e. mk_Key (fst e) < so_start c) (so_parent c))) s) (\<lambda>(gs, s). ref_after c gs s))"

section \<open>The cursor stays on the entries\<close>

definition entries_ok :: "(MVCCKey \<times> bytes) list \<Rightarrow> bool" where
  "entries_ok es \<longleftrightarrow> sorted_wrt MVCCKey_Less (map fst es) \<and> list_all (\<lambda>e. valid_ts (mk_Timestamp (fst e))) es"

definition place :: "scanOptions \<Rightarrow> nat \<Rightarrow> pebbleMVCCScanner \<Rightarrow> pebbleMVCCScanner" where
  "place c n p = p\<lparr>sc_pos := n, sc_curUnsafeKey := fst (so_parent c ! n), sc_curRawKey := EncodeMVCCKey (fst (so_parent c ! n)),
     sc_curRawValue := snd (so_parent c ! n)\<rparr>"

definition at_entry :: "scanOptions \<Rightarrow> pebbleMVCCScanner \<Rightarrow> nat \<Rightarrow> bool" where
  "at_entry c p i \<longleftrightarrow> i < length (so_parent c) \<and> sc_pos p = i \<and> sc_curUnsafeKey p = fst (so_parent c ! i) \<and>
     sc_curRawKey p = EncodeMVCCKey (fst (so_parent c ! i)) \<and> sc_curRawValue p = snd (so_parent c ! i)"

lemma iterMove_eq:
  assumes "entries_ok (so_parent c)"
  shows "iterMove c n p = Inr (if n < length (so_parent c) then (True, place c n p) else (False, p\<lparr>sc_pos := n\<rparr>))"
proof (cases "n < length (so_parent c)")
  case True
  then have "valid_ts (mk_Timestamp (fst (so_parent c ! n)))" using assms by (simp add: entries_ok_def list_all_length)
  then have "DecodeMVCCKey (EncodeMVCCKey (fst (so_parent c ! n))) = Inr (fst (so_parent c ! n))"
    by (simp add: DecodeMVCCKey_def DecodeKey_EncodeMVCCKey)
  then show ?thesis using True by (simp add: iterMove_def iterValid_def updateCurrent_def place_def Let_def)
qed (simp add: iterMove_def iterValid_def Let_def)

lemma place_simps [simp]:
  "sc_pos (place c n p) = n" "sc_out (place c n p) = sc_out p" "sc_fn (place c n p) = sc_fn p"
  "sc_curUnsafeKey (place c n p) = fst (so_parent c ! n)" "sc_itersBeforeSeek (place c n p) = sc_itersBeforeSeek p"
  "n < length (so_parent c) \<Longrightarrow> at_entry c (place c n p) n"
  by (simp_all add: place_def at_entry_def)

lemma at_entry_increment [simp]: "at_entry c (incrementItersBeforeSeek c p) i \<longleftrightarrow> at_entry c p i"
  by (simp add: at_entry_def)

lemma at_entry_update [simp]:
  "at_entry c (p\<lparr>sc_out := s\<rparr>) i \<longleftrightarrow> at_entry c p i" "at_entry c (p\<lparr>sc_fn := f\<rparr>) i \<longleftrightarrow> at_entry c p i"
  by (simp_all add: at_entry_def)

text \<open>The entries of one user key are those from \<open>i0\<close> to \<open>i1\<close>.\<close>

definition key_group :: "(MVCCKey \<times> bytes) list \<Rightarrow> bytes \<Rightarrow> nat \<Rightarrow> nat \<Rightarrow> bool" where
  "key_group es k i0 i1 \<longleftrightarrow> i0 < i1 \<and> i1 \<le> length es \<and> (\<forall>j. i0 \<le> j \<and> j < i1 \<longrightarrow> mk_Key (fst (es ! j)) = k) \<and>
     (i1 < length es \<longrightarrow> mk_Key (fst (es ! i1)) \<noteq> k) \<and> (\<forall>j < i0. mk_Key (fst (es ! j)) < k)"

definition seg :: "(MVCCKey \<times> bytes) list \<Rightarrow> nat \<Rightarrow> nat \<Rightarrow> (MVCCKey \<times> bytes) list" where
  "seg es j i1 = take (i1 - j) (drop j es)"

lemma seg_Cons: "j < i1 \<Longrightarrow> i1 \<le> length es \<Longrightarrow> seg es j i1 = es ! j # seg es (Suc j) i1"
  by (simp add: seg_def Cons_nth_drop_Suc [symmetric] Suc_diff_Suc [symmetric])

lemma seg_Nil [simp]: "i1 \<le> j \<Longrightarrow> seg es j i1 = []"
  by (simp add: seg_def)

lemma seg_append: "j \<le> n \<Longrightarrow> n \<le> i1 \<Longrightarrow> i1 \<le> length es \<Longrightarrow> seg es j i1 = seg es j n @ seg es n i1"
proof -
  assume a: "j \<le> n" "n \<le> i1" "i1 \<le> length es"
  then have "take (i1 - j) (drop j es) = take (n - j) (drop j es) @ take (i1 - n) (drop (n - j) (drop j es))"
    by (metis add.commute le_add_diff_inverse2 ordered_cancel_comm_monoid_diff_class.diff_add_assoc take_add)
  then show ?thesis using a by (simp add: seg_def)
qed

lemma set_seg: "e \<in> set (seg es j n) \<Longrightarrow> \<exists>m. j \<le> m \<and> m < n \<and> m < length es \<and> e = es ! m"
  by (auto simp: seg_def in_set_conv_nth) (metis add.commute le_add1 less_diff_conv)

text \<open>After \<open>getOne\<close> the cursor is on the key, or on the next one, or at the end, and the machine knows.\<close>

definition settled :: "scanOptions \<Rightarrow> nat \<Rightarrow> nat \<Rightarrow> bool \<Rightarrow> pebbleMVCCScanner \<Rightarrow> bool" where
  "settled c i0 i1 ok p \<longleftrightarrow>
     (sc_fn p = advanceKeyForward_fn \<and> (\<exists>j. i0 \<le> j \<and> j < i1 \<and> at_entry c p j)) \<or>
     ok \<and> (sc_fn p = advanceKeyAtNewKeyForward \<and> at_entry c p i1 \<or>
           sc_fn p = advanceKeyAtEndForward \<and> i1 = length (so_parent c) \<and> length (so_parent c) \<le> sc_pos p)"

definition agrees :: "scanOptions \<Rightarrow> nat \<Rightarrow> nat \<Rightarrow> ((bool \<times> bool) \<times> pebbleMVCCScanner) res \<Rightarrow> ((bool \<times> bool) \<times> scan_outcome) res \<Rightarrow> bool" where
  "agrees c i0 i1 m n = (case n of Inl e \<Rightarrow> m = Inl e | Inr (b, s) \<Rightarrow> \<exists>q. m = Inr (b, q) \<and> sc_out q = s \<and> settled c i0 i1 (fst b) q)"

lemma agrees_Inl [simp]: "agrees c i0 i1 m (Inl e) \<longleftrightarrow> m = Inl e"
  by (simp add: agrees_def)

lemma agrees_Inr: "sc_out q = s \<Longrightarrow> settled c i0 i1 (fst b) q \<Longrightarrow> agrees c i0 i1 (Inr (b, q)) (Inr (b, s))"
  by (simp add: agrees_def)

section \<open>The versions of a key\<close>

lemma version_order:
  assumes "entries_ok es" "key_group es k i0 i1" "i0 \<le> a" "a < b" "b < i1"
  shows "\<not> Timestamp_IsEmpty (mk_Timestamp (fst (es ! b)))"
    "Timestamp_IsEmpty (mk_Timestamp (fst (es ! a))) \<or> Timestamp_Less (mk_Timestamp (fst (es ! b))) (mk_Timestamp (fst (es ! a)))"
proof -
  have "MVCCKey_Less (fst (es ! a)) (fst (es ! b))" "mk_Key (fst (es ! a)) = mk_Key (fst (es ! b))"
    using assms by (simp_all add: entries_ok_def sorted_wrt_iff_nth_less key_group_def)
  then show "\<not> Timestamp_IsEmpty (mk_Timestamp (fst (es ! b)))"
    "Timestamp_IsEmpty (mk_Timestamp (fst (es ! a))) \<or> Timestamp_Less (mk_Timestamp (fst (es ! b))) (mk_Timestamp (fst (es ! a)))"
    by (auto simp: MVCCKey_Less_iff split: if_splits)
qed

definition passes :: "scanOptions \<Rightarrow> bool \<Rightarrow> MVCCKey \<times> bytes \<Rightarrow> bool" where
  "passes c uc e \<longleftrightarrow> (\<forall>s. sc_err s = None \<longrightarrow> check_version c uc (fst e) (EncodeMVCCKey (fst e)) (snd e) s = Inr (None, s))"

definition harmless :: "scanOptions \<Rightarrow> Timestamp \<Rightarrow> bool \<Rightarrow> MVCCKey \<times> bytes \<Rightarrow> bool" where
  "harmless c seekTS uc e \<longleftrightarrow> \<not> Timestamp_LessEq (mk_Timestamp (fst e)) seekTS \<or> passes c uc e"

lemma check_version_None:
  assumes "check_version c uc k rk rv s = Inr (None, s')" "sc_err s = None"
  shows "s' = s" "sc_err t = None \<Longrightarrow> check_version c uc k rk rv t = Inr (None, t)"
proof -
  obtain v where v: "DecodeMVCCValue (so_unmarshalHeader c) rv = Inr v" "\<not> (\<not> uc \<or> Timestamp_LessEq (mk_Timestamp k) (so_ts c))"
    "IsUncertain (so_uncertainty c) (mk_Timestamp k) (GetLocalTimestamp v (mk_Timestamp k)) = Inr False" "s' = s\<lparr>sc_err := None\<rparr>"
    using assms(1) by (auto simp: check_version_def res_simps Let_def split: if_splits)
  show "s' = s" using v(4) assms(2) by simp
  show "check_version c uc k rk rv t = Inr (None, t)" if "sc_err t = None"
    using v(1-3) that by (simp add: check_version_def Let_def)
qed

lemma ref_seek_harmless:
  assumes "\<forall>e \<in> set xs. harmless c seekTS uc e" "sc_err s = None"
  shows "ref_seek c seekTS uc (xs @ ys) s = ref_seek c seekTS uc ys s"
  using assms by (induction xs) (auto simp: harmless_def passes_def)

lemma check_current_at:
  assumes "at_entry c p j"
  shows "check_current c uc p =
    res_bind (check_version c uc (fst (so_parent c ! j)) (EncodeMVCCKey (fst (so_parent c ! j))) (snd (so_parent c ! j)) (sc_out p))
      (\<lambda>(r, s). Inr (r, p\<lparr>sc_out := s\<rparr>))"
  using assms by (simp add: check_current_def at_entry_def)

lemma settled_here: "sc_fn p = advanceKeyForward_fn \<Longrightarrow> at_entry c p j \<Longrightarrow> i0 \<le> j \<Longrightarrow> j < i1 \<Longrightarrow> settled c i0 i1 ok p"
  by (auto simp: settled_def)

lemma settled_new: "at_entry c p i1 \<Longrightarrow> settled c i0 i1 True (setAdvanceKeyAtNewKey p)"
  by (auto simp: settled_def setAdvanceKeyAtNewKey_def)

lemma settled_end: "i1 = length (so_parent c) \<Longrightarrow> i1 \<le> sc_pos p \<Longrightarrow> settled c i0 i1 True (setAdvanceKeyAtEnd p)"
  by (auto simp: settled_def setAdvanceKeyAtEnd_def)

lemma set_machine_out [simp]: "sc_out (setAdvanceKeyAtNewKey p) = sc_out p" "sc_out (setAdvanceKeyAtEnd p) = sc_out p"
  by (simp_all add: setAdvanceKeyAtNewKey_def setAdvanceKeyAtEnd_def)

text \<open>The check of the current version, and what the reference does with it.\<close>

lemma check_current_cases:
  assumes "at_entry c p j" "sc_err (sc_out p) = None" "Timestamp_LessEq (mk_Timestamp (fst (so_parent c ! j))) seekTS"
  obtains (panic) e where "check_current c uc p = Inl e" "\<And>xs. ref_seek c seekTS uc (so_parent c ! j # xs) (sc_out p) = Inl e"
    | (stop) b s where "check_current c uc p = Inr (Some b, p\<lparr>sc_out := s\<rparr>)" "\<And>xs. ref_seek c seekTS uc (so_parent c ! j # xs) (sc_out p) = Inr (b, s)"
    | (pass) "check_current c uc p = Inr (None, p)" "passes c uc (so_parent c ! j)"
proof -
  let ?e = "so_parent c ! j"
  let ?m = "check_version c uc (fst ?e) (EncodeMVCCKey (fst ?e)) (snd ?e) (sc_out p)"
  consider e where "?m = Inl e" | b s where "?m = Inr (Some b, s)" | s where "?m = Inr (None, s)"
    by (metis option.exhaust prod.exhaust sum.exhaust)
  then show thesis
  proof cases
    case 3
    have "s = sc_out p" using check_version_None(1) [OF 3 assms(2)] .
    then have "check_current c uc p = Inr (None, p)" using 3 by (simp add: check_current_at [OF assms(1)])
    moreover have "passes c uc ?e" using check_version_None(2) [OF 3 assms(2)] by (simp add: passes_def)
    ultimately show thesis by (rule pass)
  qed (use assms(3) in \<open>simp_all add: check_current_at [OF assms(1)] panic stop\<close>)
qed

lemma ref_seek_pass: "harmless c seekTS uc e \<Longrightarrow> sc_err s = None \<Longrightarrow> ref_seek c seekTS uc (e # es) s = ref_seek c seekTS uc es s"
  using ref_seek_harmless [of "[e]" c seekTS uc s es] by simp

lemma seek_scan_agrees:
  assumes "entries_ok (so_parent c)" "key_group (so_parent c) k i0 i1" "i0 \<le> j" "j \<le> i1" "at_entry c p j"
    "sc_fn p = advanceKeyForward_fn" "sc_err (sc_out p) = None"
    "\<And>m. j \<le> m \<Longrightarrow> m < i1 \<Longrightarrow> Timestamp_LessEq (mk_Timestamp (fst (so_parent c ! m))) seekTS"
  shows "agrees c i0 i1 (seek_scan c uc k p) (ref_seek c seekTS uc (seg (so_parent c) j i1) (sc_out p))"
  using assms(3-8)
proof (induction "i1 - j" arbitrary: j p)
  case 0
  then have j: "j = i1" by simp
  then have "mk_Key (sc_curUnsafeKey p) \<noteq> k" using 0(4) assms(2) by (auto simp: at_entry_def key_group_def)
  then have "seek_scan c uc k p = Inr ((True, False), setAdvanceKeyAtNewKey p)" by (subst seek_scan.simps) simp
  then show ?case using 0(4) j settled_new [of c p i1 i0] by (simp add: agrees_def)
next
  case (Suc n)
  let ?es = "so_parent c" and ?q = "place c (Suc j) p"
  have j: "j < i1" and len: "i1 \<le> length ?es" using Suc(2) assms(2) by (simp_all add: key_group_def)
  have key: "mk_Key (sc_curUnsafeKey p) = k" using Suc.prems(1,3) j assms(2) by (auto simp: at_entry_def key_group_def)
  have here: "settled c i0 i1 b (p\<lparr>sc_out := s\<rparr>)" for b s
    by (rule settled_here [of _ _ j]) (use Suc.prems j in simp_all)
  note le = Suc.prems(6) [OF order_refl j]
  show ?case
  proof (cases rule: check_current_cases [OF Suc.prems(3,5) le, of uc, case_names panic stop pass])
    case (panic e)
    then have "seek_scan c uc k p = Inl e" using key by (subst seek_scan.simps) simp
    then show ?thesis using panic(2) by (simp add: seg_Cons [OF j len])
  next
    case (stop b s)
    then have "seek_scan c uc k p = Inr (b, p\<lparr>sc_out := s\<rparr>)" using key by (subst seek_scan.simps) simp
    then show ?thesis using stop(2) here by (simp add: seg_Cons [OF j len] agrees_Inr)
  next
    case pass
    have ref: "ref_seek c seekTS uc (seg ?es j i1) (sc_out p) = ref_seek c seekTS uc (seg ?es (Suc j) i1) (sc_out p)"
      using ref_seek_pass [of c seekTS uc "?es ! j" "sc_out p"] pass(2) Suc.prems(5) by (simp add: seg_Cons [OF j len] harmless_def del: ref_seek.simps)
    have pos: "sc_pos p = j" using Suc.prems(3) by (simp add: at_entry_def)
    have run: "seek_scan c uc k p = (if Suc j < length ?es then seek_scan c uc k ?q else Inr ((True, False), setAdvanceKeyAtEnd (p\<lparr>sc_pos := Suc j\<rparr>)))"
      using key pass(1) by (subst seek_scan.simps) (simp add: iterNext_def iterMove_eq [OF assms(1)] pos)
    show ?thesis
    proof (cases "Suc j < length ?es")
      case True
      have "agrees c i0 i1 (seek_scan c uc k ?q) (ref_seek c seekTS uc (seg ?es (Suc j) i1) (sc_out ?q))"
        by (rule Suc(1)) (use Suc.prems Suc(2) True j in simp_all)
      then show ?thesis using run True ref by simp
    next
      case False
      then have "i1 = length ?es" "Suc j = i1" using j len by simp_all
      then show ?thesis using run False ref settled_end [of i1 c "p\<lparr>sc_pos := Suc j\<rparr>" i0] by (simp add: agrees_def)
    qed
  qed
qed

text \<open>The steps before the seek return what the reference returns, or change nothing.\<close>

definition steps_agree :: "scanOptions \<Rightarrow> Timestamp \<Rightarrow> bool \<Rightarrow> nat \<Rightarrow> nat \<Rightarrow> nat \<Rightarrow> scan_outcome \<Rightarrow> ((bool \<times> bool) option \<times> pebbleMVCCScanner) res \<Rightarrow> bool" where
  "steps_agree c seekTS uc i0 i1 j s m =
     (case m of
        Inl e \<Rightarrow> ref_seek c seekTS uc (seg (so_parent c) (Suc j) i1) s = Inl e
      | Inr (Some b, q) \<Rightarrow> agrees c i0 i1 (Inr (b, q)) (ref_seek c seekTS uc (seg (so_parent c) (Suc j) i1) s)
      | Inr (None, q) \<Rightarrow> sc_out q = s \<and> sc_fn q = advanceKeyForward_fn)"

lemma steps_agree_step:
  assumes "steps_agree c seekTS uc i0 i1 (Suc j) s m" "harmless c seekTS uc (so_parent c ! Suc j)" "sc_err s = None"
    "Suc j < i1" "i1 \<le> length (so_parent c)"
  shows "steps_agree c seekTS uc i0 i1 j s m"
  using assms(1) unfolding steps_agree_def seg_Cons [OF assms(4,5)] ref_seek_pass [OF assms(2,3)] .

text \<open>One step onto the next version of the key, given what the steps after it do.\<close>

lemma seek_step_agrees:
  assumes "entries_ok (so_parent c)" "key_group (so_parent c) k i0 i1" "i0 \<le> j" "Suc j < i1" "at_entry c p j"
    "sc_fn p = advanceKeyForward_fn" "sc_err (sc_out p) = None" "i < sc_itersBeforeSeek p"
    and IH: "\<And>q. at_entry c q (Suc j) \<Longrightarrow> sc_fn q = advanceKeyForward_fn \<Longrightarrow> sc_err (sc_out q) = None \<Longrightarrow>
      steps_agree c seekTS uc i0 i1 (Suc j) (sc_out q) (seek_steps c seekTS uc k (i + 1) q)"
  shows "steps_agree c seekTS uc i0 i1 j (sc_out p) (seek_steps c seekTS uc k i p)"
proof -
  let ?es = "so_parent c" and ?q = "place c (Suc j) p"
  have key: "mk_Key (fst (?es ! Suc j)) = k" and len: "i1 \<le> length ?es" and lt: "Suc j < length ?es"
    using assms(2-4) by (simp_all add: key_group_def)
  have nxt: "iterNext c p = Inr (True, ?q)" using assms(5) lt by (simp add: iterNext_def iterMove_eq [OF assms(1)] at_entry_def)
  note step = steps_agree_step [OF _ _ assms(7,4) len]
  show ?thesis
  proof (cases "Timestamp_LessEq (mk_Timestamp (fst (?es ! Suc j))) seekTS")
    case False
    then have "seek_steps c seekTS uc k i p = seek_steps c seekTS uc k (i + 1) ?q"
      using assms(8) key nxt by (subst seek_steps.simps) simp
    then show ?thesis using step IH [of ?q] lt assms(6,7) False by (simp add: harmless_def)
  next
    case True
    let ?p = "incrementItersBeforeSeek c ?q"
    have at: "at_entry c ?p (Suc j)" "sc_err (sc_out ?p) = None" "sc_fn ?p = advanceKeyForward_fn" using lt assms(6,7) by simp_all
    have here: "settled c i0 i1 b (?p\<lparr>sc_out := s\<rparr>)" for b s
      by (rule settled_here [of _ _ "Suc j"]) (use at assms(3,4) in simp_all)
    show ?thesis
    proof (cases rule: check_current_cases [OF at(1,2) True, of uc, case_names panic stop pass])
      case (panic e)
      then have "seek_steps c seekTS uc k i p = Inl e" using assms(8) key nxt True by (subst seek_steps.simps) simp
      then show ?thesis using panic(2) by (simp add: steps_agree_def seg_Cons [OF assms(4) len])
    next
      case (stop b s)
      then have "seek_steps c seekTS uc k i p = Inr (Some b, ?p\<lparr>sc_out := s\<rparr>)"
        using assms(8) key nxt True by (subst seek_steps.simps) simp
      then show ?thesis using stop(2) here by (simp add: steps_agree_def agrees_def seg_Cons [OF assms(4) len])
    next
      case pass
      then have "seek_steps c seekTS uc k i p = seek_steps c seekTS uc k (i + 1) ?p"
        using assms(8) key nxt True by (subst seek_steps.simps) simp
      then show ?thesis using step IH [OF at(1,3,2)] pass(2) by (simp add: harmless_def)
    qed
  qed
qed

lemma seek_steps_agree:
  assumes "entries_ok (so_parent c)" "key_group (so_parent c) k i0 i1" "i0 \<le> j" "j < i1" "at_entry c p j"
    "sc_fn p = advanceKeyForward_fn" "sc_err (sc_out p) = None"
  shows "steps_agree c seekTS uc i0 i1 j (sc_out p) (seek_steps c seekTS uc k i p)"
  using assms(3-7)
proof (induction "i1 - j" arbitrary: j i p)
  case (Suc n)
  let ?es = "so_parent c" and ?q = "place c (Suc j) p"
  have len: "i1 \<le> length ?es" using assms(2) by (simp add: key_group_def)
  have pos: "sc_pos p = j" using Suc.prems(3) by (simp add: at_entry_def)
  note move = iterNext_def iterMove_eq [OF assms(1)] pos
  show ?case
  proof (cases "i < sc_itersBeforeSeek p")
    case False
    then have "seek_steps c seekTS uc k i p = Inr (None, p)" by (subst seek_steps.simps) simp
    then show ?thesis using Suc.prems by (simp add: steps_agree_def)
  next
    case i: True
    consider (last) "length ?es \<le> Suc j" | (new) "Suc j < length ?es" "Suc j = i1" | (more) "Suc j < i1"
      using Suc.prems(2) by linarith
    then show ?thesis
    proof cases
      case last
      then have e: "i1 = length ?es" "Suc j = i1" using Suc.prems(2) len by simp_all
      have "seek_steps c seekTS uc k i p = Inr (Some (True, False), setAdvanceKeyAtEnd (p\<lparr>sc_pos := Suc j\<rparr>))"
        using i last by (subst seek_steps.simps) (simp add: move)
      then show ?thesis using e settled_end [of i1 c "p\<lparr>sc_pos := Suc j\<rparr>" i0] by (simp add: steps_agree_def agrees_def)
    next
      case new
      then have "mk_Key (fst (?es ! Suc j)) \<noteq> k" using assms(2) by (auto simp: key_group_def)
      then have "seek_steps c seekTS uc k i p = Inr (Some (True, False), setAdvanceKeyAtNewKey (incrementItersBeforeSeek c ?q))"
        using i new by (subst seek_steps.simps) (simp add: move)
      moreover have "settled c i0 i1 True (setAdvanceKeyAtNewKey (incrementItersBeforeSeek c ?q))"
        by (rule settled_new) (use new in simp)
      ultimately show ?thesis using new by (simp add: steps_agree_def agrees_def)
    next
      case more
      show ?thesis
        by (rule seek_step_agrees [OF assms(1,2) Suc.prems(1) more Suc.prems(3-5) i], rule Suc(1))
          (use Suc(2) Suc.prems(1) more in simp_all)
    qed
  qed
qed simp

lemma SeekGE_group:
  fixes seekTS k es
  assumes "entries_ok es" "key_group es k i0 i1" "\<not> Timestamp_IsEmpty seekTS"
  defines "n \<equiv> SeekGE es \<lparr>mk_Key = k, mk_Timestamp = seekTS\<rparr>"
  shows "i0 \<le> n" "n \<le> i1"
    "i0 < m \<Longrightarrow> m < n \<Longrightarrow> \<not> Timestamp_LessEq (mk_Timestamp (fst (es ! m))) seekTS"
    "n \<le> m \<Longrightarrow> m < i1 \<Longrightarrow> \<not> Timestamp_IsEmpty (mk_Timestamp (fst (es ! m))) \<and> Timestamp_LessEq (mk_Timestamp (fst (es ! m))) seekTS"
proof -
  define P where "P = (\<lambda>e :: MVCCKey \<times> bytes. MVCCKey_Less (fst e) \<lparr>mk_Key = k, mk_Timestamp = seekTS\<rparr>)"
  have n: "n = length (takeWhile P es)" by (simp add: n_def SeekGE_def P_def)
  have below: "P (es ! m)" if "m < n" for m using that nth_length_takeWhile [of P es] takeWhile_nth [of m P es] set_takeWhileD [of "es ! m" P es]
    unfolding n by (metis nth_mem)
  have stop: "\<not> P (es ! n)" if "n < length es" using that nth_length_takeWhile [of P es] unfolding n by simp
  have len: "n \<le> length es" by (simp add: n length_takeWhile_le)
  note g = assms(2) [unfolded key_group_def]
  show i0: "i0 \<le> n"
  proof (rule ccontr)
    assume "\<not> i0 \<le> n"
    then have "mk_Key (fst (es ! n)) < k" "n < length es" using g by auto
    then show False using stop by (simp add: P_def MVCCKey_Less_iff)
  qed
  show i1: "n \<le> i1"
  proof (rule ccontr)
    assume a: "\<not> n \<le> i1"
    then have "MVCCKey_Less (fst (es ! (i1 - 1))) (fst (es ! i1))" "mk_Key (fst (es ! (i1 - 1))) = k" "mk_Key (fst (es ! i1)) \<noteq> k"
      using assms(1) g len by (auto simp: entries_ok_def sorted_wrt_iff_nth_less)
    then have "k < mk_Key (fst (es ! i1))" by (auto simp: MVCCKey_Less_iff)
    then show False using below [of i1] a by (auto simp: P_def MVCCKey_Less_iff)
  qed
  show "\<not> Timestamp_LessEq (mk_Timestamp (fst (es ! m))) seekTS" if m: "i0 < m" "m < n" for m
  proof -
    have "mk_Key (fst (es ! m)) = k" "\<not> Timestamp_IsEmpty (mk_Timestamp (fst (es ! m)))"
      using m i1 g version_order(1) [OF assms(1,2), of i0 m] by auto
    then show ?thesis using below [OF m(2)] by (simp add: P_def MVCCKey_Less_iff ts_lesseq_iff)
  qed
  show "\<not> Timestamp_IsEmpty (mk_Timestamp (fst (es ! m))) \<and> Timestamp_LessEq (mk_Timestamp (fst (es ! m))) seekTS"
    if m: "n \<le> m" "m < i1" for m
  proof -
    have k: "mk_Key (fst (es ! n)) = k" and "n < length es" using m i0 g by auto
    then have first: "\<not> Timestamp_IsEmpty (mk_Timestamp (fst (es ! n)))" "Timestamp_LessEq (mk_Timestamp (fst (es ! n))) seekTS"
      using stop assms(3) by (auto simp: P_def MVCCKey_Less_iff ts_lesseq_iff split: if_splits)
    show ?thesis
    proof (cases "n = m")
      case False
      then have "n < m" using m by simp
      from version_order [OF assms(1,2) i0 this m(2)] first show ?thesis
        using ts_lesseq_trans [OF ts_less_imp_lesseq first(2)] by blast
    qed (use first in simp)
  qed
qed

lemma seekVersion_agrees:
  assumes "entries_ok (so_parent c)" "key_group (so_parent c) k i0 i1" "at_entry c p i0"
    "sc_fn p = advanceKeyForward_fn" "sc_err (sc_out p) = None"
    "Timestamp_IsEmpty (mk_Timestamp (fst (so_parent c ! i0))) \<or> harmless c seekTS uc (so_parent c ! i0)"
  shows "agrees c i0 i1 (seekVersion c seekTS uc p)
    (if Timestamp_IsEmpty seekTS then Inr ((True, False), sc_out p) else ref_seek c seekTS uc (seg (so_parent c) (Suc i0) i1) (sc_out p))"
proof (cases "Timestamp_IsEmpty seekTS")
  case True
  have "settled c i0 i1 True p" by (rule settled_here [OF assms(4,3)]) (use assms(2) in \<open>simp_all add: key_group_def\<close>)
  then show ?thesis using True by (simp add: seekVersion_def agrees_def)
next
  case False
  let ?es = "so_parent c"
  have i: "i0 < i1" "i1 \<le> length ?es" and key: "mk_Key (sc_curUnsafeKey p) = k"
    using assms(2,3) by (auto simp: key_group_def at_entry_def)
  let ?n = "SeekGE ?es \<lparr>mk_Key = k, mk_Timestamp = seekTS\<rparr>" and ?m = "seek_steps c seekTS uc k 0 p"
  note S = SeekGE_group [OF assms(1,2) False]
  note run = seekVersion_def key Let_def iterSeek_def iterMove_eq [OF assms(1)]
  have steps: "steps_agree c seekTS uc i0 i1 i0 (sc_out p) ?m"
    by (rule seek_steps_agree [OF assms(1,2) _ i(1) assms(3-5)]) simp
  have ref: "ref_seek c seekTS uc (seg ?es (Suc i0) i1) (sc_out p) = ref_seek c seekTS uc (seg ?es ?n i1) (sc_out p)"
  proof (cases "?n = i0")
    case True
    then have "harmless c seekTS uc (?es ! i0)" using S(4) [of i0] i(1) assms(6) by auto
    then show ?thesis using ref_seek_harmless [of "[?es ! i0]" c seekTS uc "sc_out p"] assms(5) unfolding True seg_Cons [OF i] by simp
  next
    case False
    then have n: "Suc i0 \<le> ?n" using S(1) by simp
    have "\<forall>e \<in> set (seg ?es (Suc i0) ?n). harmless c seekTS uc e"
      using S(3) by (auto simp: harmless_def dest!: set_seg)
    then show ?thesis unfolding seg_append [OF n S(2) i(2)] by (rule ref_seek_harmless) (rule assms(5))
  qed
  show ?thesis
  proof (cases ?m)
    case (Inl e)
    then show ?thesis using steps False by (simp add: steps_agree_def run)
  next
    case (Inr y)
    obtain r q where y: "y = (r, q)" by (cases y)
    show ?thesis
    proof (cases r)
      case (Some b)
      then show ?thesis using steps False Inr y by (simp add: steps_agree_def run)
    next
      case None
      then have q: "sc_out q = sc_out p" "sc_fn q = advanceKeyForward_fn" using steps Inr y by (simp_all add: steps_agree_def)
      let ?q = "place c ?n (decrementItersBeforeSeek c q)"
      show ?thesis
      proof (cases "?n < length ?es")
        case True
        have "agrees c i0 i1 (seek_scan c uc k ?q) (ref_seek c seekTS uc (seg ?es ?n i1) (sc_out ?q))"
          by (rule seek_scan_agrees [OF assms(1,2) S(1,2)]) (use True q assms(5) S(4) in simp_all)
        then show ?thesis using True Inr y None False ref q by (simp add: run)
      next
        case past: False
        then have e: "i1 = length ?es" "?n = i1" using S(2) i(2) by simp_all
        then show ?thesis
          using past Inr y None False ref q settled_end [of i1 c "(decrementItersBeforeSeek c q)\<lparr>sc_pos := ?n\<rparr>" i0]
          by (simp add: agrees_def run)
      qed
    qed
  qed
qed

section \<open>Errors stop the scan\<close>

lemma addRawIntent_err: "addRawIntent c k v s = (True, t) \<Longrightarrow> sc_err t = None"
  by (auto simp: addRawIntent_def split: if_splits)

lemma locked_err:
  assumes "isKeyLockedByConflictingTxn c rk s = Inr ((l, True), t)" "sc_err s = None"
  shows "sc_err t = None"
proof -
  obtain key ts where k: "DecodeKey rk = Inr (key, ts)" using assms(1) by (auto simp: isKeyLockedByConflictingTxn_def res_simps)
  obtain lk txn where lt: "so_lockTable c key (so_failOnMoreRecent c) = (lk, txn)" by fastforce
  obtain ad u where u: "addKeyAndMetaAsIntent c key txn s = (ad, u)" by fastforce
  have "ad \<Longrightarrow> sc_err u = None" using u addRawIntent_err by (auto simp: addKeyAndMetaAsIntent_def split: if_splits)
  then show ?thesis using assms u by (auto simp: isKeyLockedByConflictingTxn_def k lt split: if_splits)
qed

lemma add_put_err: "add_put c rk rv m s = Inr ((True, a), t) \<Longrightarrow> sc_err s = None \<Longrightarrow> sc_err t = None"
  by (auto simp: add_put_def Let_def res_simps split: if_splits prod.splits)

lemma add_limits_err: "add_limits c k rk rv s = Inr ((True, a), t) \<Longrightarrow> sc_err s = None \<Longrightarrow> sc_err t = None"
  by (auto simp: add_limits_def Let_def res_simps split: if_splits prod.splits)

lemma scanner_add_err:
  assumes "scanner_add c k rk rv s = Inr ((True, a), t)" "sc_err s = None"
  shows "sc_err t = None"
proof (cases "length rv = 0 \<and> \<not> so_tombstones c")
  case False
  then obtain l ok u where l: "(if so_skipLocked c then isKeyLockedByConflictingTxn c rk s else Inr ((False, True), s)) = Inr ((l, ok), u)"
    and r: "(if \<not> ok then Inr ((False, False), u) else if l then Inr ((True, False), u)
      else res_bind (add_limits c k rk rv u) (\<lambda>((pr, m), s). if pr then add_put c rk rv m s else Inr ((False, False), s))) = Inr ((True, a), t)"
    using assms(1) by (auto simp: scanner_add_def res_simps)
  have ok: "ok" using r by (auto split: if_splits)
  have "sc_err u = None" using l ok assms(2) locked_err [of c rk s l u] by (auto split: if_splits)
  then show ?thesis using r ok by (auto simp: res_simps split: if_splits dest: add_limits_err add_put_err)
qed (use assms in \<open>auto simp: scanner_add_def\<close>)

lemma check_version_err:
  assumes "check_version c uc k rk rv s = Inr (Some (True, a), t)"
  shows "sc_err t = None"
proof -
  obtain v :: MVCCValue where "scanner_add c (mk_Key k) rk (mv_RawBytes v) (s\<lparr>sc_err := None\<rparr>) = Inr ((True, a), t)"
    using assms by (auto simp: check_version_def res_simps Let_def split: if_splits)
  then show ?thesis by (rule scanner_add_err) simp
qed

lemma ref_seek_err: "ref_seek c ts uc es s = Inr ((True, a), t) \<Longrightarrow> sc_err s = None \<Longrightarrow> sc_err t = None"
proof (induction es arbitrary: s)
  case (Cons e es)
  show ?case
  proof (cases "Timestamp_LessEq (mk_Timestamp (fst e)) ts")
    case True
    then obtain r u where u: "check_version c uc (fst e) (EncodeMVCCKey (fst e)) (snd e) s = Inr (r, u)"
      using Cons.prems(1) by (auto split: sum.splits)
    show ?thesis
    proof (cases r)
      case None
      then have "u = s" using check_version_None(1) [of c uc _ _ _ s u] u Cons.prems(2) by blast
      then show ?thesis using Cons True u None by simp
    next
      case (Some b)
      then show ?thesis using Cons.prems(1) True u check_version_err by auto
    qed
  qed (use Cons in simp)
qed simp

definition action_ok :: "scanOptions \<Rightarrow> MVCCKey \<times> bytes \<Rightarrow> action \<Rightarrow> bool" where
  "action_ok c e a = (case a of
     Done b s \<Rightarrow> fst b \<longrightarrow> sc_err s = None
   | SeekTo ts uc s \<Rightarrow> sc_err s = None \<and> (Timestamp_IsEmpty (mk_Timestamp (fst e)) \<or> harmless c ts uc e))"

lemma add_action_ok:
  assumes "res_bind (scanner_add c k rk rv s) (\<lambda>(b, s). Inr (Done b s)) = Inr a" "sc_err s = None"
  shows "action_ok c e a"
proof -
  obtain b t where "scanner_add c k rk rv s = Inr (b, t)" "a = Done b t" using assms(1) by (auto simp: res_simps)
  then show ?thesis using scanner_add_err [of c k rk rv s "snd b" t] assms(2) by (cases b) (auto simp: action_ok_def)
qed

lemma note_more_recent_ok:
  assumes "note_more_recent c k rk s = Inr a" "sc_err s = None"
  shows "action_ok c e a"
  using assms by (auto simp: note_more_recent_def action_ok_def res_simps split: if_splits dest: locked_err)

lemma getOne_version_ok:
  assumes "getOne_version c (fst e) (EncodeMVCCKey (fst e)) (snd e) s = Inr a"
  shows "action_ok c e a"
proof -
  consider (err) m where "a = Done (False, False) (other_error m s)" | (ok) v where "DecodeMVCCValue (so_unmarshalHeader c) (snd e) = Inr v"
    using assms by (auto simp: getOne_version_def res_simps)
  then show ?thesis
  proof cases
    case ok
    let ?t = "s\<lparr>sc_err := None\<rparr>" and ?k = "mk_Timestamp (fst e)"
    have t: "sc_err ?t = None" by simp
    have le: "\<not> Timestamp_Less ?k (so_ts c) \<Longrightarrow> \<not> Timestamp_EqOrdering ?k (so_ts c) \<Longrightarrow> \<not> Timestamp_LessEq ?k (so_ts c)"
      by (auto simp: ts_order_defs)
    have pass: "harmless c ts True e" if "\<not> Timestamp_LessEq ?k (so_ts c)"
      "IsUncertain (so_uncertainty c) ?k (GetLocalTimestamp v ?k) = Inr False" for ts
      using that ok by (simp add: harmless_def passes_def check_version_def Let_def)
    show ?thesis
      using assms ok le pass add_action_ok [OF _ t, of c _ _ _ a e] note_more_recent_ok [OF _ t, of c _ _ a e]
      by (auto simp: getOne_version_def Let_def action_ok_def harmless_def res_simps split: if_splits)
  qed (simp add: action_ok_def)
qed

lemma other_intent_ok:
  assumes "sc_err s = None" "Timestamp_IsEmpty (mk_Timestamp (fst e))"
  shows "action_ok c e (other_intent c mts pts rk rv s)"
proof -
  obtain ok t where t: "addRawIntent c rk rv s = (ok, t)" by fastforce
  have "ok \<Longrightarrow> sc_err t = None" using t addRawIntent_err by auto
  then show ?thesis using assms t by (simp add: other_intent_def action_ok_def)
qed

lemma own_intent_ok:
  assumes "own_intent c txn mtxn hist mts pts k s = Inr a" "sc_err s = None" "Timestamp_IsEmpty (mk_Timestamp (fst e))"
  shows "action_ok c e a"
proof -
  have add: "action_ok c e a" if "res_bind (scanner_add c x y z (s\<lparr>sc_err := None\<rparr>)) (\<lambda>(b, s). Inr (Done b s)) = Inr a" for x y z
    by (rule add_action_ok [OF that]) simp
  show ?thesis using assms add
    by (auto simp: own_intent_def Let_def action_ok_def on_error_eq_Inr split: if_splits option.splits)
qed

lemma getOne_meta_ok:
  assumes "getOne_meta c k rk rv s = Inr a" "sc_err s = None" "Timestamp_IsEmpty (mk_Timestamp (fst e))"
  shows "action_ok c e a"
proof -
  have stop: "action_ok c e (Done (False, False) t)" for t by (simp add: action_ok_def)
  show ?thesis
    using assms(1) stop add_action_ok [OF _ assms(2), of c _ _ _ a e] other_intent_ok [OF assms(2,3)] own_intent_ok [OF _ assms(2,3)]
    by (auto simp: getOne_meta_def Let_def res_bind_eq_Inr [of "if _ then _ else _"] split: if_splits option.splits)
qed

lemma getOne_action_ok:
  assumes "getOne_action c (fst e) (EncodeMVCCKey (fst e)) (snd e) s = Inr a" "sc_err s = None"
  shows "action_ok c e a"
  using assms getOne_version_ok [of c e s a] getOne_meta_ok [of c "fst e" _ _ s a e] by (auto simp: getOne_action_def split: if_splits)

lemma ref_getOne_err:
  assumes "ref_getOne c g s = Inr ((True, b), t)" "sc_err s = None"
  shows "sc_err t = None"
proof -
  obtain a where a: "getOne_action c (fst (hd g)) (EncodeMVCCKey (fst (hd g))) (snd (hd g)) s = Inr a"
    using assms(1) by (auto simp: ref_getOne_def res_bind_eq_Inr)
  note ok = getOne_action_ok [OF a assms(2)]
  show ?thesis
  proof (cases a)
    case (Done r u)
    then show ?thesis using assms(1) a ok by (simp add: ref_getOne_def action_ok_def)
  next
    case (SeekTo ts uc u)
    then have u: "sc_err u = None" using ok by (simp add: action_ok_def)
    show ?thesis
    proof (cases "Timestamp_IsEmpty ts")
      case False
      then have "ref_seek c ts uc (tl g) u = Inr ((True, b), t)" using assms(1) a SeekTo by (simp add: ref_getOne_def)
      then show ?thesis using u by (rule ref_seek_err)
    qed (use assms(1) a SeekTo u in \<open>auto simp: ref_getOne_def\<close>)
  qed
qed

lemma seg_hd:
  assumes "key_group es k i0 i1"
  shows "hd (seg es i0 i1) = es ! i0" "tl (seg es i0 i1) = seg es (Suc i0) i1"
  using assms seg_Cons [of i0 i1 es] by (simp_all add: key_group_def)

lemma getOne_agrees:
  assumes "entries_ok (so_parent c)" "key_group (so_parent c) k i0 i1" "at_entry c p i0"
    "sc_fn p = advanceKeyForward_fn" "sc_err (sc_out p) = None"
  shows "agrees c i0 i1 (getOne c p) (ref_getOne c (seg (so_parent c) i0 i1) (sc_out p))"
proof -
  let ?e = "so_parent c ! i0"
  let ?m = "getOne_action c (fst ?e) (EncodeMVCCKey (fst ?e)) (snd ?e) (sc_out p)"
  have run: "getOne c p = res_bind ?m (\<lambda>a. case a of Done b s \<Rightarrow> Inr (b, p\<lparr>sc_out := s\<rparr>) | SeekTo ts uc s \<Rightarrow> seekVersion c ts uc (p\<lparr>sc_out := s\<rparr>))"
    using assms(3) by (simp add: getOne_def at_entry_def)
  note ref = ref_getOne_def seg_hd [OF assms(2)]
  show ?thesis
  proof (cases ?m)
    case (Inr a)
    note ok = getOne_action_ok [OF Inr assms(5)]
    show ?thesis
    proof (cases a)
      case (Done b s)
      have "settled c i0 i1 (fst b) (p\<lparr>sc_out := s\<rparr>)"
        by (rule settled_here [of _ _ i0]) (use assms(2-4) in \<open>simp_all add: key_group_def\<close>)
      then show ?thesis using run Inr Done by (simp add: ref agrees_Inr)
    next
      case (SeekTo ts uc s)
      have "agrees c i0 i1 (seekVersion c ts uc (p\<lparr>sc_out := s\<rparr>))
          (if Timestamp_IsEmpty ts then Inr ((True, False), s) else ref_seek c ts uc (seg (so_parent c) (Suc i0) i1) s)"
        using seekVersion_agrees [OF assms(1,2), of "p\<lparr>sc_out := s\<rparr>" ts uc] assms(3,4) ok SeekTo
        by (cases "Timestamp_IsEmpty ts") (simp_all add: action_ok_def)
      then show ?thesis using run Inr SeekTo by (cases "Timestamp_IsEmpty ts") (simp_all add: ref)
    qed
  qed (use run in \<open>simp add: ref\<close>)
qed

section \<open>From key to key\<close>

lemma NextKey_group:
  assumes "key_group es k i0 i1" "i0 \<le> j" "j < i1"
  shows "NextKey es j = i1"
proof -
  let ?P = "\<lambda>e. mk_Key (fst e) = mk_Key (fst (es ! j))"
  have len: "i1 \<le> length es" and k: "mk_Key (fst (es ! j)) = k" using assms by (simp_all add: key_group_def)
  have "takeWhile ?P (drop j es) = seg es j i1"
  proof -
    have s: "drop j es = seg es j i1 @ drop i1 es" using assms(3) by (simp add: seg_def) (metis append_take_drop_id drop_drop le_add_diff_inverse2 less_or_eq_imp_le)
    have "\<forall>e \<in> set (seg es j i1). ?P e" using assms k by (auto simp: key_group_def dest!: set_seg)
    moreover have "takeWhile ?P (drop i1 es) = []"
      using assms(1) k by (cases "i1 < length es") (auto simp: key_group_def Cons_nth_drop_Suc [symmetric])
    ultimately show ?thesis by (simp add: s takeWhile_append2)
  qed
  then show ?thesis using assms(3) len by (simp add: NextKey_def seg_def)
qed

lemma group_at:
  assumes "entries_ok es" "i0 < length es" "\<forall>j < i0. mk_Key (fst (es ! j)) < mk_Key (fst (es ! i0))"
  defines "k \<equiv> mk_Key (fst (es ! i0))" and "i1 \<equiv> NextKey es i0"
  shows "key_group es k i0 i1" "groups (drop i0 es) = seg es i0 i1 # groups (drop i1 es)"
    "i1 < length es \<Longrightarrow> \<forall>j < i1. mk_Key (fst (es ! j)) < mk_Key (fst (es ! i1))"
proof -
  let ?P = "\<lambda>e :: MVCCKey \<times> bytes. mk_Key (fst e) = k"
  let ?n = "length (takeWhile ?P (drop (Suc i0) es))"
  have d: "drop i0 es = es ! i0 # drop (Suc i0) es" using assms(2) by (simp add: Cons_nth_drop_Suc)
  have i1: "i1 = Suc i0 + ?n" by (simp add: i1_def NextKey_def d k_def)
  have le: "i1 \<le> length es" using length_takeWhile_le [of ?P "drop (Suc i0) es"] assms(2) by (simp add: i1)
  have inside: "mk_Key (fst (es ! j)) = k" if "i0 \<le> j" "j < i1" for j
  proof (cases "j = i0")
    case False
    define m where "m = j - Suc i0"
    have m: "j = Suc i0 + m" "m < ?n" using False that i1 by (simp_all add: m_def)
    then have "takeWhile ?P (drop (Suc i0) es) ! m = es ! j" using assms(2) by (simp add: takeWhile_nth)
    then show ?thesis using nth_mem [OF m(2)] set_takeWhileD [of "es ! j" ?P] by metis
  qed (simp add: k_def)
  have differs: "mk_Key (fst (es ! i1)) \<noteq> k" if "i1 < length es"
    using nth_length_takeWhile [of ?P "drop (Suc i0) es"] that i1 by simp
  have lt: "i0 < i1" by (simp add: i1)
  show "key_group es k i0 i1" unfolding key_group_def using lt le inside differs assms(3) [folded k_def] by blast
  have diff: "i1 - Suc i0 = ?n" by (simp only: i1 diff_add_inverse)
  have "takeWhile ?P (drop (Suc i0) es) = seg es (Suc i0) i1" unfolding seg_def diff by (rule takeWhile_eq_take)
  moreover have "dropWhile ?P (drop (Suc i0) es) = drop i1 es"
    using dropWhile_eq_drop [of ?P "drop (Suc i0) es"] by (simp only: i1 drop_drop add.commute)
  moreover have "seg es i0 i1 = es ! i0 # seg es (Suc i0) i1" by (rule seg_Cons [OF lt le])
  ultimately show "groups (drop i0 es) = seg es i0 i1 # groups (drop i1 es)" by (simp add: d k_def)
  show "\<forall>j < i1. mk_Key (fst (es ! j)) < mk_Key (fst (es ! i1))" if i: "i1 < length es"
  proof -
    have "MVCCKey_Less (fst (es ! i0)) (fst (es ! i1))" using assms(1) i lt by (simp add: entries_ok_def sorted_wrt_iff_nth_less)
    then have "k < mk_Key (fst (es ! i1))" using differs [OF i] by (auto simp: MVCCKey_Less_iff k_def)
    moreover have "mk_Key (fst (es ! j)) \<le> k" if "j < i1" for j
      using assms(3) [folded k_def] inside [OF _ that] by (cases "j < i0") auto
    ultimately show ?thesis using order.strict_trans1 by blast
  qed
qed

lemma NextKey_end: "length es \<le> i \<Longrightarrow> NextKey es i = i"
  by (simp add: NextKey_def)

lemma advance_settled:
  assumes "entries_ok (so_parent c)" "key_group (so_parent c) k i0 i1" "settled c i0 i1 True q"
  shows "\<exists>r. advance c q = Inr (i1 < length (so_parent c), r) \<and> sc_out r = sc_out q \<and>
    (if i1 < length (so_parent c) then at_entry c r i1 \<and> sc_fn r = advanceKeyForward_fn else length (so_parent c) \<le> sc_pos r)"
proof -
  consider (on) j where "sc_fn q = advanceKeyForward_fn" "i0 \<le> j" "j < i1" "at_entry c q j"
    | (new) "sc_fn q = advanceKeyAtNewKeyForward" "at_entry c q i1"
    | (past) "sc_fn q = advanceKeyAtEndForward" "i1 = length (so_parent c)" "length (so_parent c) \<le> sc_pos q"
    using assms(3) by (auto simp: settled_def)
  then show ?thesis
  proof cases
    case on
    then have "NextKey (so_parent c) (sc_pos q) = i1" using NextKey_group [OF assms(2)] by (simp add: at_entry_def)
    then show ?thesis using on(1) by (auto simp: advance_def advanceKeyForward_def nextKey_def iterMove_eq [OF assms(1)])
  next
    case new
    then show ?thesis by (auto simp: advance_def at_entry_def)
  next
    case past
    then show ?thesis by (auto simp: advance_def)
  qed
qed

text \<open>When the loop ends, the next key after the cursor is the first of the groups that are left.\<close>

definition loop_agrees :: "scanOptions \<Rightarrow> pebbleMVCCScanner res \<Rightarrow> ((MVCCKey \<times> bytes) list list \<times> scan_outcome) res \<Rightarrow> bool" where
  "loop_agrees c m n = (case n of Inl e \<Rightarrow> m = Inl e
     | Inr (gs, s) \<Rightarrow> \<exists>q. m = Inr q \<and> sc_out q = s \<and> gs = groups (drop (NextKey (so_parent c) (sc_pos q)) (so_parent c)))"

lemma scan_loop_agrees:
  assumes "entries_ok (so_parent c)" "at_entry c p i0" "sc_fn p = advanceKeyForward_fn" "sc_err (sc_out p) = None"
    "\<forall>j < i0. mk_Key (fst (so_parent c ! j)) < mk_Key (fst (so_parent c ! i0))"
  shows "\<exists>m. scan_loop c p = Some m \<and> loop_agrees c m (ref_loop c (groups (drop i0 (so_parent c))) (sc_out p))"
  using assms(2-5)
proof (induction "length (so_parent c) - i0" arbitrary: i0 p rule: less_induct)
  case less
  let ?es = "so_parent c" and ?i1 = "NextKey (so_parent c) i0" and ?k = "mk_Key (fst (so_parent c ! i0))"
  have i0: "i0 < length ?es" using less.prems(1) by (simp add: at_entry_def)
  note G = group_at [OF assms(1) i0 less.prems(4)]
  have lt: "i0 < ?i1" using G(1) by (simp add: key_group_def)
  note A = getOne_agrees [OF assms(1) G(1) less.prems(1-3)]
  show ?case
  proof (cases "ref_getOne c (seg ?es i0 ?i1) (sc_out p)")
    case (Inl e)
    then have "getOne c p = Inl e" using A by simp
    then have "scan_loop c p = Some (Inl e)" by (subst scan_loop.simps) simp
    then show ?thesis using Inl by (simp add: G(2) loop_agrees_def)
  next
    case (Inr y)
    obtain ok ad s where y: "y = ((ok, ad), s)" by (metis prod.exhaust)
    obtain q where q: "getOne c p = Inr ((ok, ad), q)" "sc_out q = s" "settled c i0 ?i1 ok q"
      using A Inr y by (auto simp: agrees_def)
    show ?thesis
    proof (cases ok)
      case False
      then have "scan_loop c p = Some (Inr q)" using q(1) by (subst scan_loop.simps) simp
      moreover obtain j where j: "i0 \<le> j" "j < ?i1" "at_entry c q j" using q(3) False by (auto simp: settled_def)
      have "sc_pos q = j" using j(3) by (simp add: at_entry_def)
      then have "NextKey ?es (sc_pos q) = ?i1" using NextKey_group [OF G(1) j(1,2)] by (simp only:)
      ultimately show ?thesis using Inr y False q(2) by (simp add: G(2) loop_agrees_def)
    next
      case True
      obtain r where r: "advance c q = Inr (?i1 < length ?es, r)" "sc_out r = s"
        "if ?i1 < length ?es then at_entry c r ?i1 \<and> sc_fn r = advanceKeyForward_fn else length ?es \<le> sc_pos r"
        using advance_settled [OF assms(1) G(1)] q(2,3) True by auto
      have ref: "ref_loop c (groups (drop i0 ?es)) (sc_out p) = ref_loop c (groups (drop ?i1 ?es)) s" using Inr y True by (simp add: G(2))
      have err: "sc_err s = None" using ref_getOne_err [of c "seg ?es i0 ?i1" "sc_out p" ad s] Inr y True less.prems(3) by simp
      show ?thesis
      proof (cases "?i1 < length ?es")
        case i: True
        have "scan_loop c p = scan_loop c r" using q(1) r(1) True i by (subst scan_loop.simps) simp
        moreover have "\<exists>m. scan_loop c r = Some m \<and> loop_agrees c m (ref_loop c (groups (drop ?i1 ?es)) (sc_out r))"
          using less.hyps [of ?i1 r] i i0 lt r err G(3) [OF i] by simp
        ultimately show ?thesis using ref r(2) by simp
      next
        case i: False
        have "scan_loop c p = Some (Inr r)" using q(1) r(1) True i by (subst scan_loop.simps) simp
        then show ?thesis using ref i r(2,3) by (simp add: loop_agrees_def NextKey_end)
      qed
    qed
  qed
qed

lemma afterScan_agrees:
  assumes "entries_ok (so_parent c)" "gs = groups (drop (NextKey (so_parent c) (sc_pos q)) (so_parent c))"
  shows "afterScan c q = ref_after c gs (sc_out q)"
proof (cases "maybeFailOnMoreRecent c (sc_out q)")
  case (Inr s)
  let ?n = "NextKey (so_parent c) (sc_pos q)"
  have adv: "advanceKeyForward c (q\<lparr>sc_out := s\<rparr>) =
      Inr (if ?n < length (so_parent c) then (True, place c ?n (q\<lparr>sc_out := s\<rparr>)) else (False, q\<lparr>sc_out := s, sc_pos := ?n\<rparr>))"
    by (simp add: advanceKeyForward_def nextKey_def iterMove_eq [OF assms(1)])
  have gs: "gs = (if ?n < length (so_parent c) then (case groups (drop ?n (so_parent c)) of g # gs \<Rightarrow> g # gs) else [])"
    "?n < length (so_parent c) \<Longrightarrow> gs \<noteq> [] \<and> hd (hd gs) = so_parent c ! ?n"
    unfolding assms(2) by (simp_all add: Cons_nth_drop_Suc [symmetric])
  show ?thesis
  proof (cases "?n < length (so_parent c)")
    case True
    then obtain g gs' where "gs = g # gs'" "hd g = so_parent c ! ?n" using gs(2) by (cases gs) auto
    then show ?thesis using Inr adv True by (simp add: afterScan_def ref_after_def Let_def split: option.split)
  next
    case False
    then show ?thesis using Inr adv gs(1) by (simp add: afterScan_def ref_after_def Let_def split: option.split)
  qed
qed (simp add: afterScan_def ref_after_def)

lemma SeekGE_start:
  "SeekGE es (MakeMVCCMetadataKey k) = length (takeWhile (\<lambda>e. mk_Key (fst e) < k) es)"
proof -
  have "MVCCKey_Less x (MakeMVCCMetadataKey k) \<longleftrightarrow> mk_Key x < k" for x
    by (auto simp: MVCCKey_Less_iff MakeMVCCMetadataKey_def Timestamp_IsEmpty_def)
  then show ?thesis by (simp add: SeekGE_def)
qed

lemma start_below:
  assumes "n = length (takeWhile (\<lambda>e. mk_Key (fst e) < k) es)" "n < length es"
  shows "\<forall>j < n. mk_Key (fst (es ! j)) < mk_Key (fst (es ! n))"
proof (intro allI impI)
  fix j assume "j < n"
  then have "mk_Key (fst (es ! j)) < k" using assms(1) nth_mem [of j "takeWhile (\<lambda>e. mk_Key (fst e) < k) es"] set_takeWhileD
    by (metis takeWhile_nth)
  moreover have "k \<le> mk_Key (fst (es ! n))" using nth_length_takeWhile [of "\<lambda>e. mk_Key (fst e) < k" es] assms by auto
  ultimately show "mk_Key (fst (es ! j)) < mk_Key (fst (es ! n))" by simp
qed

lemma scan_agrees:
  assumes "entries_ok (so_parent c)" "sc_err (sc_out p) = None" "sc_resumeReason (sc_out p) = RESUME_UNKNOWN"
  shows "scan c p = Some (ref_scan c (sc_out p))"
proof (cases "so_wholeRows c \<and> \<not> lastOffsetsEnabled (sc_results (sc_out p))")
  case False
  let ?es = "so_parent c"
  define n where "n = length (takeWhile (\<lambda>e. mk_Key (fst e) < so_start c) ?es)"
  have d: "dropWhile (\<lambda>e. mk_Key (fst e) < so_start c) ?es = drop n ?es" unfolding n_def by (rule dropWhile_eq_drop)
  have seek: "iterSeek c (MakeMVCCMetadataKey (so_start c)) p = Inr (if n < length ?es then (True, place c n p) else (False, p\<lparr>sc_pos := n\<rparr>))"
    by (simp add: iterSeek_def iterMove_eq [OF assms(1)] SeekGE_start n_def)
  note run = scan_def seekToStartOfScan_def seek ref_scan_def d
  show ?thesis
  proof (cases "n < length ?es")
    case True
    let ?p = "(place c n p)\<lparr>sc_fn := advanceKeyForward_fn\<rparr>"
    have "\<exists>m. scan_loop c ?p = Some m \<and> loop_agrees c m (ref_loop c (groups (drop n ?es)) (sc_out ?p))"
      by (rule scan_loop_agrees [OF assms(1) _ _ _ start_below [OF n_def True]]) (use True assms(2) in simp_all)
    then obtain m where m: "scan_loop c ?p = Some m" "loop_agrees c m (ref_loop c (groups (drop n ?es)) (sc_out p))" by auto
    have start: "seekToStartOfScan c p = Inr (True, ?p)" using True by (simp add: seekToStartOfScan_def seek)
    show ?thesis
    proof (cases "ref_loop c (groups (drop n ?es)) (sc_out p)")
      case (Inl e)
      then show ?thesis using False m by (auto simp: scan_def start ref_scan_def d loop_agrees_def)
    next
      case (Inr y)
      obtain gs s where y: "y = (gs, s)" by (cases y)
      obtain q where q: "m = Inr q" "sc_out q = s" "gs = groups (drop (NextKey ?es (sc_pos q)) ?es)"
        using m(2) Inr y by (auto simp: loop_agrees_def)
      then show ?thesis using False m(1) Inr y afterScan_agrees [OF assms(1) q(3)] by (auto simp: scan_def start ref_scan_def d)
    qed
  next
    case past: False
    show ?thesis
    proof (cases "maybeFailOnMoreRecent c (sc_out p)")
      case (Inl e)
      then show ?thesis using False past by (auto simp: run ref_after_def)
    next
      case (Inr s)
      then have "sc_resumeReason s = RESUME_UNKNOWN" using assms(3) by (auto simp: maybeFailOnMoreRecent_def res_simps split: if_splits)
      then show ?thesis using False past Inr by (auto simp: run ref_after_def split: option.split)
    qed
  qed
qed (simp add: scan_def ref_scan_def)

section \<open>The adaptive number of steps does not matter\<close>

lemma iters_fields:
  "so_parent (c\<lparr>so_maxItersBeforeSeek := n\<rparr>) = so_parent c" "so_start (c\<lparr>so_maxItersBeforeSeek := n\<rparr>) = so_start c"
  "so_end (c\<lparr>so_maxItersBeforeSeek := n\<rparr>) = so_end c" "so_ts (c\<lparr>so_maxItersBeforeSeek := n\<rparr>) = so_ts c"
  "so_maxKeys (c\<lparr>so_maxItersBeforeSeek := n\<rparr>) = so_maxKeys c" "so_targetBytes (c\<lparr>so_maxItersBeforeSeek := n\<rparr>) = so_targetBytes c"
  "so_allowEmpty (c\<lparr>so_maxItersBeforeSeek := n\<rparr>) = so_allowEmpty c" "so_wholeRows (c\<lparr>so_maxItersBeforeSeek := n\<rparr>) = so_wholeRows c"
  "so_maxIntents (c\<lparr>so_maxItersBeforeSeek := n\<rparr>) = so_maxIntents c" "so_txn (c\<lparr>so_maxItersBeforeSeek := n\<rparr>) = so_txn c"
  "so_uncertainty (c\<lparr>so_maxItersBeforeSeek := n\<rparr>) = so_uncertainty c" "so_inconsistent (c\<lparr>so_maxItersBeforeSeek := n\<rparr>) = so_inconsistent c"
  "so_skipLocked (c\<lparr>so_maxItersBeforeSeek := n\<rparr>) = so_skipLocked c" "so_tombstones (c\<lparr>so_maxItersBeforeSeek := n\<rparr>) = so_tombstones c"
  "so_failOnMoreRecent (c\<lparr>so_maxItersBeforeSeek := n\<rparr>) = so_failOnMoreRecent c" "so_lockTable (c\<lparr>so_maxItersBeforeSeek := n\<rparr>) = so_lockTable c"
  "so_unmarshalMeta (c\<lparr>so_maxItersBeforeSeek := n\<rparr>) = so_unmarshalMeta c" "so_marshalMeta (c\<lparr>so_maxItersBeforeSeek := n\<rparr>) = so_marshalMeta c"
  "so_unmarshalHeader (c\<lparr>so_maxItersBeforeSeek := n\<rparr>) = so_unmarshalHeader c" "so_grow (c\<lparr>so_maxItersBeforeSeek := n\<rparr>) = so_grow c"
  by simp_all

lemma iters_outcome:
  "maybeFailOnMoreRecent (c\<lparr>so_maxItersBeforeSeek := n\<rparr>) s = maybeFailOnMoreRecent c s"
  "uncertaintyError (c\<lparr>so_maxItersBeforeSeek := n\<rparr>) x y s = uncertaintyError c x y s"
  "checkUncertainty (c\<lparr>so_maxItersBeforeSeek := n\<rparr>) = checkUncertainty c"
  "addRawIntent (c\<lparr>so_maxItersBeforeSeek := n\<rparr>) k v s = addRawIntent c k v s"
  "room_for_intent (c\<lparr>so_maxItersBeforeSeek := n\<rparr>) s = room_for_intent c s"
  "add_limits (c\<lparr>so_maxItersBeforeSeek := n\<rparr>) k rk rv s = add_limits c k rk rv s"
  "add_put (c\<lparr>so_maxItersBeforeSeek := n\<rparr>) rk rv m s = add_put c rk rv m s"
  by (unfold maybeFailOnMoreRecent_def uncertaintyError_def checkUncertainty_def addRawIntent_def room_for_intent_def add_limits_def add_put_def iters_fields) (rule refl)+

lemma iters_intent:
  "addKeyAndMetaAsIntent (c\<lparr>so_maxItersBeforeSeek := n\<rparr>) k t s = addKeyAndMetaAsIntent c k t s"
  by (unfold addKeyAndMetaAsIntent_def iters_fields iters_outcome) (rule refl)+

lemma iters_locked:
  "isKeyLockedByConflictingTxn (c\<lparr>so_maxItersBeforeSeek := n\<rparr>) k s = isKeyLockedByConflictingTxn c k s"
  by (unfold isKeyLockedByConflictingTxn_def iters_fields iters_outcome iters_intent) (rule refl)+

lemma iters_add:
  "scanner_add (c\<lparr>so_maxItersBeforeSeek := n\<rparr>) k rk rv s = scanner_add c k rk rv s"
  by (unfold scanner_add_def iters_fields iters_outcome iters_locked) (rule refl)+

lemma iters_check:
  "check_version (c\<lparr>so_maxItersBeforeSeek := n\<rparr>) uc k rk rv s = check_version c uc k rk rv s"
  by (unfold check_version_def iters_fields iters_outcome iters_add) (rule refl)+

lemma iters_more_recent:
  "note_more_recent (c\<lparr>so_maxItersBeforeSeek := n\<rparr>) k rk s = note_more_recent c k rk s"
  by (unfold note_more_recent_def iters_fields iters_locked) (rule refl)+

lemma iters_cases:
  "other_intent (c\<lparr>so_maxItersBeforeSeek := n\<rparr>) x y rk rv s = other_intent c x y rk rv s"
  "own_intent (c\<lparr>so_maxItersBeforeSeek := n\<rparr>) t m h x y k s = own_intent c t m h x y k s"
  "getOne_version (c\<lparr>so_maxItersBeforeSeek := n\<rparr>) k rk rv s = getOne_version c k rk rv s"
  by (unfold other_intent_def own_intent_def getOne_version_def iters_fields iters_outcome iters_add iters_more_recent) (rule refl)+

lemma iters_meta:
  "getOne_meta (c\<lparr>so_maxItersBeforeSeek := n\<rparr>) k rk rv s = getOne_meta c k rk rv s"
  by (unfold getOne_meta_def iters_fields iters_add iters_cases) (rule refl)+

lemma iters_action:
  "getOne_action (c\<lparr>so_maxItersBeforeSeek := n\<rparr>) k rk rv s = getOne_action c k rk rv s"
  by (unfold getOne_action_def iters_fields iters_cases iters_meta) (rule refl)+

lemma ref_seek_iters: "ref_seek (c\<lparr>so_maxItersBeforeSeek := n\<rparr>) ts uc es s = ref_seek c ts uc es s"
  by (induction es arbitrary: s) (simp_all add: iters_check split: sum.split option.split)

lemma ref_getOne_iters: "ref_getOne (c\<lparr>so_maxItersBeforeSeek := n\<rparr>) g s = ref_getOne c g s"
  unfolding ref_getOne_def iters_action ref_seek_iters by (rule refl)

lemma ref_loop_iters: "ref_loop (c\<lparr>so_maxItersBeforeSeek := n\<rparr>) gs s = ref_loop c gs s"
proof (induction gs arbitrary: s)
  case (Cons g gs)
  show ?case unfolding ref_loop.simps ref_getOne_iters Cons.IH by (rule refl)
qed simp

lemma ref_scan_iters: "ref_scan (c\<lparr>so_maxItersBeforeSeek := n\<rparr>) s = ref_scan c s"
  unfolding ref_scan_def ref_after_def iters_fields ref_loop_iters iters_outcome by (rule refl)

lemma scanner_get_agrees:
  assumes "entries_ok (so_parent c)" "sc_err (sc_out p) = None" "sc_fn p = advanceKeyForward_fn"
  shows "scanner_get c p = (case groups (dropWhile (\<lambda>e. mk_Key (fst e) < so_start c) (so_parent c)) of
      [] \<Rightarrow> Inr (sc_out p)
    | g # _ \<Rightarrow> res_bind (ref_getOne c g (sc_out p)) (\<lambda>(_, s). maybeFailOnMoreRecent c s))"
proof -
  let ?es = "so_parent c"
  define n where "n = length (takeWhile (\<lambda>e. mk_Key (fst e) < so_start c) ?es)"
  have d: "dropWhile (\<lambda>e. mk_Key (fst e) < so_start c) ?es = drop n ?es" unfolding n_def by (rule dropWhile_eq_drop)
  have seek: "SeekGE ?es (MakeMVCCMetadataKey (so_start c)) = n" by (simp add: SeekGE_start n_def)
  show ?thesis
  proof (cases "n < length ?es")
    case True
    note G = group_at [OF assms(1) True start_below [OF n_def True]]
    have "updateCurrent c (p\<lparr>sc_pos := n\<rparr>) = Inr (True, place c n p)"
      using iterMove_eq [OF assms(1), of n p] True by (simp add: iterMove_def iterValid_def)
    moreover have "agrees c n (NextKey ?es n) (getOne c (place c n p)) (ref_getOne c (seg ?es n (NextKey ?es n)) (sc_out p))"
      using getOne_agrees [OF assms(1) G(1), of "place c n p"] assms(2,3) True by simp
    ultimately show ?thesis using True
      by (auto simp: scanner_get_def seek iterValid_def d G(2) agrees_def split: sum.splits)
  qed (simp add: scanner_get_def seek iterValid_def d)
qed

section \<open>The property\<close>

text \<open>A concrete scan: the first key has two versions, the second is deleted.\<close>

definition example_scan :: "int \<Rightarrow> scanOptions" where
  "example_scan limit =
     \<lparr>so_parent = [(\<lparr>mk_Key = [1], mk_Timestamp = mkTs 5 0\<rparr>, [0, 0, 0, 0, 3, 65]), (\<lparr>mk_Key = [1], mk_Timestamp = mkTs 3 0\<rparr>, [0, 0, 0, 0, 3, 66]),
        (\<lparr>mk_Key = [2], mk_Timestamp = mkTs 4 0\<rparr>, []), (\<lparr>mk_Key = [3], mk_Timestamp = mkTs 2 0\<rparr>, [0, 0, 0, 0, 3, 67])],
      so_start = [1], so_end = [9], so_ts = mkTs 4 0, so_maxKeys = limit, so_targetBytes = 0, so_allowEmpty = False, so_wholeRows = False,
      so_maxIntents = 0, so_txn = None, so_uncertainty = \<lparr>GlobalLimit = mkTs 0 0, LocalLimit = mkTs 0 0\<rparr>, so_inconsistent = False,
      so_skipLocked = False, so_tombstones = False, so_failOnMoreRecent = False, so_maxItersBeforeSeek = 10,
      so_lockTable = (\<lambda>k x. (False, None)), so_unmarshalMeta = (\<lambda>b. None), so_marshalMeta = (\<lambda>m. []),
      so_unmarshalHeader = (\<lambda>b. None), so_grow = (\<lambda>r k v. True)\<rparr>"

lemma example_entries: "entries_ok (so_parent (example_scan limit))"
  by (simp add: example_scan_def entries_ok_def MVCCKey_Less_iff Timestamp_IsEmpty_def Timestamp_Less_def valid_ts_def in64_def in32_def go_limits)

text \<open>
  C6. Whatever number of steps the scanner takes before it seeks, and however that number adapts, a scan ends, and its
  result, its resume span, its errors and panics are those of the reference, which reads the versions of each key from a list;
  the same holds for a read of one key. This covers every option: limits, intents of this and of other transactions,
  uncertainty, locked keys, inline values and undecodable data.
\<close>

theorem scanner_refines_reference:
  assumes "entries_ok (so_parent c)"
  shows "scan (c\<lparr>so_maxItersBeforeSeek := n\<rparr>) (scanner_start (c\<lparr>so_maxItersBeforeSeek := n\<rparr>) results) =
      Some (ref_scan c (sc_out (scanner_start c results))) \<and>
    scanner_get (c\<lparr>so_maxItersBeforeSeek := n\<rparr>) (scanner_start (c\<lparr>so_maxItersBeforeSeek := n\<rparr>) results) =
      (case groups (dropWhile (\<lambda>e. mk_Key (fst e) < so_start c) (so_parent c)) of
         [] \<Rightarrow> Inr (sc_out (scanner_start c results))
       | g # _ \<Rightarrow> res_bind (ref_getOne c g (sc_out (scanner_start c results))) (\<lambda>(_, s). maybeFailOnMoreRecent c s))"
proof -
  let ?c = "c\<lparr>so_maxItersBeforeSeek := n\<rparr>"
  have out: "sc_out (scanner_start ?c results) = sc_out (scanner_start c results)" by (simp add: scanner_start_def)
  have "scan ?c (scanner_start ?c results) = Some (ref_scan ?c (sc_out (scanner_start ?c results)))"
    by (rule scan_agrees) (use assms in \<open>simp_all add: scanner_start_def\<close>)
  moreover have "scanner_get ?c (scanner_start ?c results) = (case groups (dropWhile (\<lambda>e. mk_Key (fst e) < so_start ?c) (so_parent ?c)) of
      [] \<Rightarrow> Inr (sc_out (scanner_start ?c results))
    | g # _ \<Rightarrow> res_bind (ref_getOne ?c g (sc_out (scanner_start ?c results))) (\<lambda>(_, s). maybeFailOnMoreRecent ?c s))"
    by (rule scanner_get_agrees) (use assms in \<open>simp_all add: scanner_start_def\<close>)
  ultimately show ?thesis unfolding out ref_scan_iters ref_getOne_iters iters_outcome iters_fields by blast
qed

theorem scanner_refines_reference_witness:
  "scan ((example_scan 1)\<lparr>so_maxItersBeforeSeek := 0\<rparr>) (scanner_start ((example_scan 1)\<lparr>so_maxItersBeforeSeek := 0\<rparr>) (pr_start 0)) =
   scan ((example_scan 1)\<lparr>so_maxItersBeforeSeek := 10\<rparr>) (scanner_start ((example_scan 1)\<lparr>so_maxItersBeforeSeek := 10\<rparr>) (pr_start 0))"
  using scanner_refines_reference [OF example_entries, of 0 1 "pr_start 0"] scanner_refines_reference [OF example_entries, of 10 1 "pr_start 0"]
  by simp

end
