(* ===== verification/Scanner_Snapshot.thy ===== *)
theory Scanner_Snapshot
  imports Scanner_Reference
begin

text \<open>
  What a scan at a timestamp returns: the newest visible version of every key, page by page.
\<close>

section \<open>What a scan returns\<close>

text \<open>The value of an entry, and the newest version of a key that a reader at the scan's timestamp sees.\<close>

definition raw_value :: "scanOptions \<Rightarrow> MVCCKey \<times> bytes \<Rightarrow> bytes" where
  "raw_value c e = (case DecodeMVCCValue (so_unmarshalHeader c) (snd e) of Inr v \<Rightarrow> mv_RawBytes v | Inl _ \<Rightarrow> [])"

definition seen :: "scanOptions \<Rightarrow> MVCCKey \<times> bytes \<Rightarrow> bool" where
  "seen c e = Timestamp_LessEq (mk_Timestamp (fst e)) (so_ts c)"

definition version_at :: "scanOptions \<Rightarrow> (MVCCKey \<times> bytes) list \<Rightarrow> (bytes \<times> bytes) list" where
  "version_at c g = (case find (seen c) g of None \<Rightarrow> []
     | Some e \<Rightarrow> if raw_value c e = [] then [] else [(EncodeMVCCKey (fst e), raw_value c e)])"

definition visible :: "scanOptions \<Rightarrow> bytes \<Rightarrow> (bytes \<times> bytes) list" where
  "visible c k = concat (map (version_at c) (groups (dropWhile (\<lambda>e. mk_Key (fst e) < k) (so_parent c))))"

text \<open>A read at a timestamp: no locks, no uncertainty, at most a limit on the number of keys.\<close>

definition snapshot_read :: "scanOptions \<Rightarrow> bool" where
  "snapshot_read c \<longleftrightarrow> \<not> checkUncertainty c \<and> \<not> so_failOnMoreRecent c \<and> \<not> so_skipLocked c \<and> \<not> so_tombstones c \<and>
     \<not> so_wholeRows c \<and> so_targetBytes c = 0 \<and> \<not> Timestamp_IsEmpty (so_ts c)"

definition committed_value :: "scanOptions \<Rightarrow> MVCCKey \<times> bytes \<Rightarrow> bool" where
  "committed_value c e \<longleftrightarrow> \<not> Timestamp_IsEmpty (mk_Timestamp (fst e)) \<and> is_ok (DecodeMVCCValue (so_unmarshalHeader c) (snd e))"

lemma committed_value_decodes:
  "committed_value c e \<Longrightarrow> \<exists>v. DecodeMVCCValue (so_unmarshalHeader c) (snd e) = Inr v \<and> raw_value c e = mv_RawBytes v"
  by (auto simp: committed_value_def is_ok_iff raw_value_def)

lemma check_version_plain:
  assumes "committed_value c e" "sc_err s = None"
  shows "check_version c False (fst e) rk (snd e) s =
    res_bind (scanner_add c (mk_Key (fst e)) rk (raw_value c e) s) (\<lambda>(b, s). Inr (Some b, s))"
proof -
  have "s\<lparr>sc_err := None\<rparr> = s" using assms(2) by simp
  then show ?thesis using committed_value_decodes [OF assms(1)] by (auto simp: check_version_def)
qed

lemma ref_seek_plain:
  assumes "list_all (committed_value c) es" "sc_err s = None"
  shows "ref_seek c (so_ts c) False es s = (case find (seen c) es of None \<Rightarrow> Inr ((True, False), s)
    | Some e \<Rightarrow> scanner_add c (mk_Key (fst e)) (EncodeMVCCKey (fst e)) (raw_value c e) s)"
  using assms
proof (induction es)
  case (Cons e es)
  show ?case
  proof (cases "seen c e")
    case True
    then show ?thesis using Cons.prems
      by (cases "scanner_add c (mk_Key (fst e)) (EncodeMVCCKey (fst e)) (raw_value c e) s")
        (auto simp: seen_def check_version_plain)
  qed (use Cons in \<open>simp add: seen_def\<close>)
qed simp

lemma ref_getOne_plain:
  assumes "snapshot_read c" "list_all (committed_value c) g" "g \<noteq> []" "sc_err s = None"
  shows "ref_getOne c g s = (case find (seen c) g of None \<Rightarrow> Inr ((True, False), s)
    | Some e \<Rightarrow> scanner_add c (mk_Key (fst e)) (EncodeMVCCKey (fst e)) (raw_value c e) s)"
proof -
  obtain e es where g: "g = e # es" using assms(3) by (cases g) auto
  have ok: "committed_value c e" "list_all (committed_value c) es" using assms(2) g by simp_all
  obtain v where v: "DecodeMVCCValue (so_unmarshalHeader c) (snd e) = Inr v" "raw_value c e = mv_RawBytes v"
    using committed_value_decodes [OF ok(1)] by blast
  have s: "s\<lparr>sc_err := None\<rparr> = s" using assms(4) by simp
  have act: "getOne_action c (fst e) (EncodeMVCCKey (fst e)) (snd e) s =
      (if seen c e then res_bind (scanner_add c (mk_Key (fst e)) (EncodeMVCCKey (fst e)) (raw_value c e) s) (\<lambda>(b, s). Inr (Done b s))
       else Inr (SeekTo (so_ts c) False s))"
    using assms(1) ok(1) v s
    by (auto simp: getOne_action_def getOne_version_def committed_value_def snapshot_read_def seen_def ts_order_defs)
  show ?thesis
  proof (cases "seen c e")
    case True
    then show ?thesis using act g
      by (cases "scanner_add c (mk_Key (fst e)) (EncodeMVCCKey (fst e)) (raw_value c e) s") (auto simp: ref_getOne_def)
  next
    case False
    then show ?thesis using act g assms(1) ref_seek_plain [OF ok(2) assms(4)] by (simp add: ref_getOne_def snapshot_read_def)
  qed
qed

definition page :: "scanOptions \<Rightarrow> 'a list \<Rightarrow> 'a list" where
  "page c xs = (if so_maxKeys c > 0 then take (nat (so_maxKeys c)) xs else xs)"

text \<open>One pair is added; the scan stops when it was the last of the limit.\<close>

lemma scanner_add_plain:
  assumes "snapshot_read c" "represents (sc_results s) kvs m" "v \<noteq> []" "sc_resumeReason s = RESUME_UNKNOWN"
    "so_maxKeys c > 0 \<longrightarrow> int (length kvs) < so_maxKeys c" "\<forall>r k v. so_grow c r k v"
  shows "\<exists>r m'. represents r (kvs @ [(rk, v)]) m' \<and>
    scanner_add c k rk v s = Inr (if so_maxKeys c > 0 \<and> int (length kvs) + 1 = so_maxKeys c
      then ((False, True), s\<lparr>sc_results := r, sc_resumeReason := RESUME_KEY_LIMIT\<rparr>) else ((True, True), s\<lparr>sc_results := r\<rparr>))"
proof -
  have n: "pr_count (sc_results s) = int (length kvs)" using pr_represents_kvs [OF assms(2)] by simp
  obtain r m' where r: "put True rk v 0 (sc_results s) = Inr r" "represents r (kvs @ [(rk, v)]) m'"
    using put_represents [OF assms(2) TrueI, of 0 rk v] by auto
  have "add_limits c k rk v s = Inr ((True, False), s)"
    using assms(1,4,5) n by (auto simp: add_limits_def sizeInfo_def snapshot_read_def)
  moreover have "add_put c rk v False s = Inr (if so_maxKeys c > 0 \<and> int (length kvs) + 1 = so_maxKeys c
      then ((False, True), s\<lparr>sc_results := r, sc_resumeReason := RESUME_KEY_LIMIT\<rparr>) else ((True, True), s\<lparr>sc_results := r\<rparr>))"
    using assms(1,5,6) n r(1) by (auto simp: add_put_def sizeInfo_def snapshot_read_def)
  ultimately have "scanner_add c k rk v s = Inr (if so_maxKeys c > 0 \<and> int (length kvs) + 1 = so_maxKeys c
      then ((False, True), s\<lparr>sc_results := r, sc_resumeReason := RESUME_KEY_LIMIT\<rparr>) else ((True, True), s\<lparr>sc_results := r\<rparr>))"
    using assms(1,3) by (simp add: scanner_add_def snapshot_read_def)
  then show ?thesis using r(2) by blast
qed

definition reading :: "scan_outcome \<Rightarrow> (bytes \<times> bytes) list \<Rightarrow> bool" where
  "reading s kvs \<longleftrightarrow> (\<exists>m. represents (sc_results s) kvs m) \<and> sc_err s = None \<and> Timestamp_IsEmpty (sc_mostRecentTS s) \<and>
     sc_resumeKey s = [] \<and> sc_resumeNextBytes s = 0 \<and> sc_intents s = []"

text \<open>The loop: it reads everything, or stops with a full page and leaves the rest.\<close>

lemma ref_loop_plain:
  assumes "snapshot_read c" "\<forall>r k v. so_grow c r k v" "list_all (\<lambda>g. g \<noteq> [] \<and> list_all (committed_value c) g) gs"
    "reading s kvs" "sc_resumeReason s = RESUME_UNKNOWN" "so_maxKeys c > 0 \<longrightarrow> int (length kvs) < so_maxKeys c"
  shows "\<exists>pre gs' s'. ref_loop c gs s = Inr (gs', s') \<and> gs = pre @ gs' \<and>
    reading s' (kvs @ concat (map (version_at c) pre)) \<and>
    (gs' = [] \<and> sc_resumeReason s' = RESUME_UNKNOWN \<and> (so_maxKeys c > 0 \<longrightarrow> int (length (kvs @ concat (map (version_at c) pre))) < so_maxKeys c) \<or>
     sc_resumeReason s' = RESUME_KEY_LIMIT \<and> so_maxKeys c > 0 \<and> int (length (kvs @ concat (map (version_at c) pre))) = so_maxKeys c)"
  using assms(3-6)
proof (induction gs arbitrary: s kvs)
  case Nil
  then show ?case by (auto intro!: exI [of _ "[]"])
next
  case (Cons g gs)
  have g: "g \<noteq> []" "list_all (committed_value c) g" "list_all (\<lambda>g. g \<noteq> [] \<and> list_all (committed_value c) g) gs" using Cons.prems(1) by simp_all
  have err: "sc_err s = None" using Cons.prems(2) by (simp add: reading_def)
  note one = ref_getOne_plain [OF assms(1) g(2,1) err]
  show ?case
  proof (cases "version_at c g")
    case Nil
    have "ref_getOne c g s = Inr ((True, False), s)"
      using one Nil assms(1) by (auto simp: version_at_def scanner_add_def snapshot_read_def split: option.splits if_splits)
    then show ?thesis using Cons.IH [OF g(3) Cons.prems(2-4)] Nil by (auto intro: exI [of _ "g # _"])
  next
    case (Cons kv rest)
    then obtain e where e: "find (seen c) g = Some e" "raw_value c e \<noteq> []" "version_at c g = [(EncodeMVCCKey (fst e), raw_value c e)]"
      by (auto simp: version_at_def split: option.splits if_splits)
    obtain m where m: "represents (sc_results s) kvs m" using Cons.prems(2) by (auto simp: reading_def)
    obtain r m' where r: "represents r (kvs @ [(EncodeMVCCKey (fst e), raw_value c e)]) m'"
      and run: "ref_getOne c g s = Inr (if so_maxKeys c > 0 \<and> int (length kvs) + 1 = so_maxKeys c
        then ((False, True), s\<lparr>sc_results := r, sc_resumeReason := RESUME_KEY_LIMIT\<rparr>) else ((True, True), s\<lparr>sc_results := r\<rparr>))"
      using scanner_add_plain [OF assms(1) m e(2) Cons.prems(3,4) assms(2), of "EncodeMVCCKey (fst e)" "mk_Key (fst e)"] one e(1) by auto
    let ?kvs = "kvs @ version_at c g"
    show ?thesis
    proof (cases "so_maxKeys c > 0 \<and> int (length kvs) + 1 = so_maxKeys c")
      case True
      then have "ref_loop c (g # gs) s = Inr (gs, s\<lparr>sc_results := r, sc_resumeReason := RESUME_KEY_LIMIT\<rparr>)" using run by simp
      moreover have "reading (s\<lparr>sc_results := r, sc_resumeReason := RESUME_KEY_LIMIT\<rparr>) ?kvs"
        using r Cons.prems(2) e(3) by (auto simp: reading_def)
      ultimately show ?thesis using True e(3)
        by (intro exI [of _ "[g]"] exI [of _ gs] exI [of _ "s\<lparr>sc_results := r, sc_resumeReason := RESUME_KEY_LIMIT\<rparr>"]) (auto simp: add.commute)
    next
      case False
      then have step: "ref_loop c (g # gs) s = ref_loop c gs (s\<lparr>sc_results := r\<rparr>)" using run by auto
      have rd: "reading (s\<lparr>sc_results := r\<rparr>) ?kvs" using r Cons.prems(2) e(3) by (auto simp: reading_def)
      have lim: "so_maxKeys c > 0 \<longrightarrow> int (length ?kvs) < so_maxKeys c" using False Cons.prems(4) e(3) by auto
      obtain pre gs' s' where "ref_loop c gs (s\<lparr>sc_results := r\<rparr>) = Inr (gs', s')" "gs = pre @ gs'"
        "reading s' (?kvs @ concat (map (version_at c) pre))"
        "gs' = [] \<and> sc_resumeReason s' = RESUME_UNKNOWN \<and> (so_maxKeys c > 0 \<longrightarrow> int (length (?kvs @ concat (map (version_at c) pre))) < so_maxKeys c) \<or>
          sc_resumeReason s' = RESUME_KEY_LIMIT \<and> so_maxKeys c > 0 \<and> int (length (?kvs @ concat (map (version_at c) pre))) = so_maxKeys c"
        using Cons.IH [OF g(3) rd _ lim] Cons.prems(3) by auto
      then show ?thesis unfolding step by (intro exI [of _ "g # pre"] exI [of _ gs'] exI [of _ s']) simp
    qed
  qed
qed

section \<open>The newest versions\<close>

definition newest :: "scanOptions \<Rightarrow> MVCCKey \<times> bytes \<Rightarrow> bool" where
  "newest c e \<longleftrightarrow> seen c e \<and> (\<forall>e' \<in> set (so_parent c). mk_Key (fst e') = mk_Key (fst e) \<and> seen c e' \<longrightarrow>
     Timestamp_LessEq (mk_Timestamp (fst e')) (mk_Timestamp (fst e)))"

lemma key_group_index:
  assumes "entries_ok es" "key_group es k i0 i1" "j < length es" "mk_Key (fst (es ! j)) = k"
  shows "i0 \<le> j" "j < i1"
proof -
  show "i0 \<le> j" using assms(2,4) by (metis key_group_def linorder_not_less order_less_irrefl)
  show "j < i1"
  proof (rule ccontr)
    assume a: "\<not> j < i1"
    then have i1: "i1 < length es" "mk_Key (fst (es ! i1)) \<noteq> k" "mk_Key (fst (es ! (i1 - 1))) = k" "0 < i1"
      using assms(2,3) by (auto simp: key_group_def)
    have less: "MVCCKey_Less (fst (es ! x)) (fst (es ! y))" if "x < y" "y < length es" for x y
      using assms(1) that by (simp add: entries_ok_def sorted_wrt_iff_nth_less)
    have "k < mk_Key (fst (es ! i1))" using less [of "i1 - 1" i1] i1 by (auto simp: MVCCKey_Less_iff)
    moreover have "mk_Key (fst (es ! i1)) \<le> k"
      using less [of i1 j] a assms(3,4) by (cases "i1 = j") (auto simp: MVCCKey_Less_iff)
    ultimately show False by simp
  qed
qed

lemma nth_seg: "j + m < i1 \<Longrightarrow> i1 \<le> length es \<Longrightarrow> seg es j i1 ! m = es ! (j + m)"
  by (simp add: seg_def)

lemma find_newest:
  assumes "entries_ok (so_parent c)" "list_all (committed_value c) (so_parent c)" "key_group (so_parent c) k i0 i1"
  shows "find (seen c) (seg (so_parent c) i0 i1) = Some e \<longleftrightarrow> (\<exists>j. i0 \<le> j \<and> j < i1 \<and> e = so_parent c ! j \<and> newest c e)"
proof -
  let ?es = "so_parent c"
  have len: "i1 \<le> length ?es" and keys: "\<And>j. i0 \<le> j \<Longrightarrow> j < i1 \<Longrightarrow> mk_Key (fst (?es ! j)) = k"
    using assms(3) by (simp_all add: key_group_def)
  have less: "Timestamp_Less (mk_Timestamp (fst (?es ! b))) (mk_Timestamp (fst (?es ! a)))" if "i0 \<le> a" "a < b" "b < i1" for a b
    using version_order(2) [OF assms(1,3) that] assms(2) that len by (auto simp: committed_value_def list_all_length)
  have seg: "find (seen c) (seg ?es i0 i1) = Some e \<longleftrightarrow>
      (\<exists>j. i0 \<le> j \<and> j < i1 \<and> e = ?es ! j \<and> seen c e \<and> (\<forall>m. i0 \<le> m \<and> m < j \<longrightarrow> \<not> seen c (?es ! m)))" (is "?L \<longleftrightarrow> ?R")
  proof
    assume ?L
    then obtain i where i: "i < length (seg ?es i0 i1)" "seen c (seg ?es i0 i1 ! i)" "e = seg ?es i0 i1 ! i"
      "\<forall>m < i. \<not> seen c (seg ?es i0 i1 ! m)" by (auto simp: find_Some_iff)
    have l: "i0 + i < i1" using i(1) by (auto simp: seg_def)
    then have "\<not> seen c (?es ! m)" if "i0 \<le> m" "m < i0 + i" for m
      using i(4) [rule_format, of "m - i0"] that nth_seg [of i0 "m - i0" i1 ?es] len by simp
    then show ?R using i l nth_seg [of i0 i i1 ?es] len by (intro exI [of _ "i0 + i"]) simp
  next
    assume ?R
    then obtain j where j: "i0 \<le> j" "j < i1" "e = ?es ! j" "seen c e" "\<And>m. i0 \<le> m \<Longrightarrow> m < j \<Longrightarrow> \<not> seen c (?es ! m)" by blast
    have "\<not> seen c (seg ?es i0 i1 ! m)" if "m < j - i0" for m
      using j(2) j(5) [of "i0 + m"] that nth_seg [of i0 m i1 ?es] len by simp
    then show ?L using j(1-4) nth_seg [of i0 "j - i0" i1 ?es] len
      unfolding find_Some_iff by (intro exI [of _ "j - i0"]) (simp add: seg_def)
  qed
  have "newest c (?es ! j)" if j: "i0 \<le> j" "j < i1" "seen c (?es ! j)" "\<And>m. i0 \<le> m \<Longrightarrow> m < j \<Longrightarrow> \<not> seen c (?es ! m)" for j
    unfolding newest_def
  proof (intro conjI ballI impI)
    fix e' assume e': "e' \<in> set ?es" "mk_Key (fst e') = mk_Key (fst (?es ! j)) \<and> seen c e'"
    then obtain x where x: "x < length ?es" "e' = ?es ! x" by (auto simp: in_set_conv_nth)
    have "i0 \<le> x" "x < i1" using key_group_index [OF assms(1,3) x(1)] e' x(2) keys [OF j(1,2)] by auto
    moreover have "\<not> x < j" using j(4) [OF \<open>i0 \<le> x\<close>] e'(2) x(2) by blast
    ultimately have "x = j \<or> Timestamp_Less (mk_Timestamp (fst e')) (mk_Timestamp (fst (?es ! j)))"
      using less [OF j(1), of x] unfolding x(2) by linarith
    then show "Timestamp_LessEq (mk_Timestamp (fst e')) (mk_Timestamp (fst (?es ! j)))"
      using x(2) ts_less_imp_lesseq by (metis ts_lesseq_refl)
  qed (rule j(3))
  moreover have "\<not> seen c (?es ! m)" if "i0 \<le> m" "m < j" "j < i1" "newest c (?es ! j)" for m j
  proof
    assume "seen c (?es ! m)"
    then have "Timestamp_LessEq (mk_Timestamp (fst (?es ! m))) (mk_Timestamp (fst (?es ! j)))"
      using that keys [of m] keys [of j] len by (simp add: newest_def)
    then show False using less [OF that(1-3)] by (simp add: ts_lesseq_iff)
  qed
  ultimately have "seen c (?es ! j) \<and> (\<forall>m. i0 \<le> m \<and> m < j \<longrightarrow> \<not> seen c (?es ! m)) \<longleftrightarrow> newest c (?es ! j)"
    if "i0 \<le> j" "j < i1" for j using that unfolding newest_def by blast
  then show ?thesis unfolding seg by blast
qed

lemma groups_visible:
  assumes "entries_ok (so_parent c)" "list_all (committed_value c) (so_parent c)"
    "i0 < length (so_parent c) \<Longrightarrow> \<forall>j < i0. mk_Key (fst (so_parent c ! j)) < mk_Key (fst (so_parent c ! i0))"
  shows "set (concat (map (version_at c) (groups (drop i0 (so_parent c))))) =
    (\<lambda>e. (EncodeMVCCKey (fst e), raw_value c e)) ` {e. (\<exists>j \<ge> i0. j < length (so_parent c) \<and> e = so_parent c ! j) \<and> newest c e \<and> raw_value c e \<noteq> []}"
  using assms(3)
proof (induction "length (so_parent c) - i0" arbitrary: i0 rule: less_induct)
  case less
  let ?es = "so_parent c" and ?f = "\<lambda>e. (EncodeMVCCKey (fst e), raw_value c e)"
  let ?N = "\<lambda>a b. {e. (\<exists>j. a \<le> j \<and> j < b \<and> e = ?es ! j) \<and> newest c e \<and> raw_value c e \<noteq> []}"
  show ?case
  proof (cases "i0 < length ?es")
    case True
    let ?i1 = "NextKey ?es i0"
    note G = group_at [OF assms(1) True less.prems [OF True]]
    have i: "i0 < ?i1" "?i1 \<le> length ?es" using G(1) by (simp_all add: key_group_def)
    have "set (version_at c (seg ?es i0 ?i1)) = ?f ` ?N i0 ?i1"
    proof (cases "find (seen c) (seg ?es i0 ?i1)")
      case None
      then have "?N i0 ?i1 = {}" using find_newest [OF assms(1,2) G(1)] by auto
      then show ?thesis using None by (simp add: version_at_def)
    next
      case (Some e)
      have "?N i0 ?i1 = {x. x = e \<and> raw_value c x \<noteq> []}"
        using Some find_newest [OF assms(1,2) G(1), of e] find_newest [OF assms(1,2) G(1)] by force
      then show ?thesis using Some by (auto simp: version_at_def)
    qed
    moreover have "set (concat (map (version_at c) (groups (drop ?i1 ?es)))) = ?f ` ?N ?i1 (length ?es)"
      using less.hyps [of ?i1] i True G(3) by (auto simp: Collect_conj_eq)
    moreover have "(i0 \<le> j \<and> j < length ?es) \<longleftrightarrow> (i0 \<le> j \<and> j < ?i1) \<or> (?i1 \<le> j \<and> j < length ?es)" for j using i by linarith
    then have "?N i0 (length ?es) = ?N i0 ?i1 \<union> ?N ?i1 (length ?es)" by blast
    ultimately show ?thesis by (simp add: G(2) image_Un)
  qed simp
qed

lemma drop_below: "i < length es \<Longrightarrow> \<forall>j < i. mk_Key (fst (es ! j)) < mk_Key (fst (es ! i)) \<Longrightarrow>
    dropWhile (\<lambda>e. mk_Key (fst e) < mk_Key (fst (es ! i))) es = drop i es"
  by (subst (2) append_take_drop_id [of i es, symmetric], subst dropWhile_append2)
    (auto simp: in_set_conv_nth Cons_nth_drop_Suc [symmetric])

lemma groups_suffix:
  assumes "entries_ok es" "groups (drop i0 es) = pre @ g # gs"
    "i0 < length es \<Longrightarrow> \<forall>j < i0. mk_Key (fst (es ! j)) < mk_Key (fst (es ! i0))"
  shows "g # gs = groups (dropWhile (\<lambda>e. mk_Key (fst e) < mk_Key (fst (hd g))) es)"
  using assms(2,3)
proof (induction pre arbitrary: i0)
  case Nil
  then have i0: "i0 < length es" by (cases "i0 < length es") simp_all
  note G = group_at [OF assms(1) i0 Nil(2) [OF i0]]
  have "hd g = es ! i0" using Nil(1) G(2) seg_hd(1) [OF G(1)] by simp
  then show ?case using Nil drop_below [OF i0 Nil(2) [OF i0]] by simp
next
  case (Cons h pre)
  then have i0: "i0 < length es" by (cases "i0 < length es") simp_all
  note G = group_at [OF assms(1) i0 Cons.prems(2) [OF i0]]
  show ?case by (rule Cons.IH [OF _ G(3)]) (use Cons.prems(1) G(2) in simp_all)
qed

lemma groups_all: "list_all P es \<Longrightarrow> list_all (\<lambda>g. g \<noteq> [] \<and> list_all P g) (groups es)"
proof (induction es rule: groups.induct)
  case (2 e es)
  then show ?case by (auto simp: list_all_iff dest: set_takeWhileD set_dropWhileD)
qed simp

lemma visible_newest:
  assumes "entries_ok (so_parent c)" "list_all (committed_value c) (so_parent c)"
  shows "set (visible c k) = (\<lambda>e. (EncodeMVCCKey (fst e), raw_value c e)) `
      {e \<in> set (so_parent c). k \<le> mk_Key (fst e) \<and> newest c e \<and> raw_value c e \<noteq> []}"
proof -
  let ?es = "so_parent c"
  define n where "n = length (takeWhile (\<lambda>e. mk_Key (fst e) < k) ?es)"
  have d: "dropWhile (\<lambda>e. mk_Key (fst e) < k) ?es = drop n ?es" unfolding n_def by (rule dropWhile_eq_drop)
  have below: "mk_Key (fst (?es ! j)) < k" if "j < n" for j
    using that nth_mem [of j "takeWhile (\<lambda>e. mk_Key (fst e) < k) ?es"] set_takeWhileD unfolding n_def by (metis takeWhile_nth)
  have above: "k \<le> mk_Key (fst (?es ! j))" if "n \<le> j" "j < length ?es" for j
  proof -
    have n: "k \<le> mk_Key (fst (?es ! n))" using nth_length_takeWhile [of "\<lambda>e. mk_Key (fst e) < k" ?es] that by (auto simp: n_def)
    have "n < j \<Longrightarrow> MVCCKey_Less (fst (?es ! n)) (fst (?es ! j))" using assms(1) that by (simp add: entries_ok_def sorted_wrt_iff_nth_less)
    then show ?thesis using n that(1) by (cases "n = j") (auto simp: MVCCKey_Less_iff)
  qed
  have "(\<exists>j \<ge> n. j < length ?es \<and> e = ?es ! j) \<longleftrightarrow> e \<in> set ?es \<and> k \<le> mk_Key (fst e)" for e
    using above below by (metis in_set_conv_nth linorder_not_less)
  then show ?thesis
    using groups_visible [OF assms, of n] start_below [OF n_def] by (simp add: visible_def d conj_assoc)
qed

lemma page_split: "so_maxKeys c > 0 \<Longrightarrow> int (length xs) = so_maxKeys c \<Longrightarrow> page c (xs @ ys) = xs"
  "so_maxKeys c > 0 \<longrightarrow> int (length xs) < so_maxKeys c \<Longrightarrow> page c xs = xs"
  by (auto simp: page_def)

lemma start_reading: "reading (sc_out (scanner_start c (pr_start 0))) []"
  using pr_start_represents [of 0] by (auto simp: reading_def scanner_start_def Timestamp_IsEmpty_def)

lemma ref_after_reading:
  assumes "reading s kvs"
  shows "ref_after c gs s = Inr (Inr (if sc_resumeReason s = RESUME_UNKNOWN then (None, RESUME_UNKNOWN, 0)
    else (case gs of [] \<Rightarrow> (None, RESUME_UNKNOWN, 0)
      | g # _ \<Rightarrow> (Some \<lparr>Key = mk_Key (fst (hd g)), EndKey = Some (so_end c)\<rparr>, sc_resumeReason s, 0))), s)"
  using assms by (auto simp: ref_after_def reading_def maybeFailOnMoreRecent_def split: list.split)

section \<open>The property\<close>

lemma snapshot_scan_run:
  assumes "entries_ok (so_parent c)" "list_all (committed_value c) (so_parent c)" "snapshot_read c" "\<forall>r k v. so_grow c r k v"
  shows "\<exists>resume reason s. scan c (scanner_start c (pr_start 0)) = Some (Inr (Inr (resume, reason, 0), s)) \<and>
    pr_count (sc_results s) = int (length (page c (visible c (so_start c)))) \<and>
    pr_bytes (sc_results s) = int (length (enc_kvs (page c (visible c (so_start c))))) \<and>
    concat (finish (sc_results s)) = enc_kvs (page c (visible c (so_start c))) \<and> sc_intents s = [] \<and>
    (case resume of
       None \<Rightarrow> page c (visible c (so_start c)) = visible c (so_start c)
     | Some sp \<Rightarrow> reason = RESUME_KEY_LIMIT \<and> EndKey sp = Some (so_end c) \<and>
         visible c (so_start c) = page c (visible c (so_start c)) @ visible c (Key sp))"
proof -
  let ?es = "so_parent c" and ?s0 = "sc_out (scanner_start c (pr_start 0))" and ?V = "visible c (so_start c)"
  define n where "n = length (takeWhile (\<lambda>e. mk_Key (fst e) < so_start c) ?es)"
  let ?gs = "groups (drop n ?es)"
  have d: "dropWhile (\<lambda>e. mk_Key (fst e) < so_start c) ?es = drop n ?es" unfolding n_def by (rule dropWhile_eq_drop)
  have start: "sc_resumeReason ?s0 = RESUME_UNKNOWN" "sc_err ?s0 = None" by (simp_all add: scanner_start_def)
  have V: "?V = concat (map (version_at c) ?gs)" by (simp add: visible_def d)
  have all: "list_all (\<lambda>g. g \<noteq> [] \<and> list_all (committed_value c) g) ?gs"
    by (rule groups_all) (use assms(2) in \<open>auto simp: list_all_iff dest: in_set_dropD\<close>)
  obtain pre gs s where run: "ref_loop c ?gs ?s0 = Inr (gs, s)" and gs: "?gs = pre @ gs"
    and rd: "reading s (concat (map (version_at c) pre))"
    and fin: "gs = [] \<and> sc_resumeReason s = RESUME_UNKNOWN \<and> (so_maxKeys c > 0 \<longrightarrow> int (length (concat (map (version_at c) pre))) < so_maxKeys c) \<or>
      sc_resumeReason s = RESUME_KEY_LIMIT \<and> so_maxKeys c > 0 \<and> int (length (concat (map (version_at c) pre))) = so_maxKeys c"
    using ref_loop_plain [OF assms(3,4) all start_reading start(1)] unfolding append_Nil by fastforce
  let ?P = "concat (map (version_at c) pre)"
  have page: "page c ?V = ?P" using fin page_split [of c ?P] by (auto simp: V gs)
  obtain m where m: "represents (sc_results s) ?P m" using rd by (auto simp: reading_def)
  obtain parts where "concat parts = ?P" "finish (sc_results s) = map enc_kvs parts" using finish_parts [OF m] by blast
  then have bytes: "concat (finish (sc_results s)) = enc_kvs ?P" by (simp add: enc_kvs_concat)
  have scan: "scan c (scanner_start c (pr_start 0)) = Some (ref_after c gs s)"
    using scan_agrees [OF assms(1) start(2,1)] assms(3) run by (simp add: ref_scan_def d snapshot_read_def)
  have rest: "?V = ?P @ visible c (mk_Key (fst (hd g)))" if "gs = g # gs'" for g gs'
  proof -
    have "gs = groups (dropWhile (\<lambda>e. mk_Key (fst e) < mk_Key (fst (hd g))) ?es)"
      using groups_suffix [OF assms(1), of n pre g gs'] start_below [OF n_def] gs that by simp
    then have "visible c (mk_Key (fst (hd g))) = concat (map (version_at c) gs)" by (simp only: visible_def)
    then show ?thesis unfolding V gs by simp
  qed
  have "sc_intents s = []" "pr_bytes (sc_results s) = int (length (enc_kvs ?P))" "pr_count (sc_results s) = int (length ?P)" using rd m pr_represents_kvs by (auto simp: reading_def)
  moreover have "gs = [] \<Longrightarrow> ?V = ?P" by (simp add: V gs)
  ultimately show ?thesis unfolding page using scan fin rest bytes by (cases gs) (auto simp: ref_after_reading [OF rd])
qed

text \<open>
  C5. A scan at a timestamp over committed versions returns, in key order, for every key of the range its newest version at
  or below the timestamp, unless that is a tombstone: these pairs are the page up to the limit of keys. When the scan
  stops at the limit, the resume span starts at a key from which a scan returns exactly the pairs that are left.
\<close>

theorem snapshot_scan:
  assumes "entries_ok (so_parent c)" "list_all (committed_value c) (so_parent c)" "snapshot_read c" "\<forall>r k v. so_grow c r k v"
    "so_end c \<noteq> []" "so_maxKeys c \<ge> 0" "so_inconsistent c \<longrightarrow> so_txn c = None" "w \<le> 1"
  shows "\<exists>r. mvccScanToBytes c w di = Some (Inr (Inr r)) \<and>
    NumKeys r = int (length (page c (visible c (so_start c)))) \<and> NumBytes r = int (length (enc_kvs (page c (visible c (so_start c))))) \<and>
    concat (KVData r) = enc_kvs (page c (visible c (so_start c))) \<and> Intents r = [] \<and>
    (case ResumeSpan r of
       None \<Rightarrow> page c (visible c (so_start c)) = visible c (so_start c)
     | Some sp \<Rightarrow> ResumeReason_of r = RESUME_KEY_LIMIT \<and> EndKey sp = Some (so_end c) \<and>
         visible c (so_start c) = page c (visible c (so_start c)) @ visible c (Key sp)) \<and>
    set (visible c k) = (\<lambda>e. (EncodeMVCCKey (fst e), raw_value c e)) `
      {e \<in> set (so_parent c). k \<le> mk_Key (fst e) \<and> newest c e \<and> raw_value c e \<noteq> []}"
proof -
  have c: "c\<lparr>so_wholeRows := False\<rparr> = c" using assms(3) by (simp add: snapshot_read_def)
  have start: "pr_clear = pr_start 0" by (simp add: pr_start_def pr_clear_def)
  have init: "mvccScanInit c di = None" using assms(3,5-7) by (auto simp: mvccScanInit_def scan_validate_def snapshot_read_def Let_def)
  obtain resume reason s where run: "scan c (scanner_start c (pr_start 0)) = Some (Inr (Inr (resume, reason, 0), s))"
    and res: "pr_count (sc_results s) = int (length (page c (visible c (so_start c))))"
      "pr_bytes (sc_results s) = int (length (enc_kvs (page c (visible c (so_start c)))))"
      "concat (finish (sc_results s)) = enc_kvs (page c (visible c (so_start c)))" "sc_intents s = []"
      "case resume of None \<Rightarrow> page c (visible c (so_start c)) = visible c (so_start c)
       | Some sp \<Rightarrow> reason = RESUME_KEY_LIMIT \<and> EndKey sp = Some (so_end c) \<and>
           visible c (so_start c) = page c (visible c (so_start c)) @ visible c (Key sp)"
    using snapshot_scan_run [OF assms(1-4)] by blast
  let ?r = "emptyScanResult\<lparr>KVData := finish (sc_results s), ResumeSpan := resume, ResumeReason_of := reason, ResumeNextBytes := 0,
      NumKeys := pr_count (sc_results s), NumBytes := pr_bytes (sc_results s), Intents := []\<rparr>"
  have "mvccScanToBytes c w di = Some (Inr (Inr ?r))"
    using assms(8) run res(4) by (simp add: mvccScanToBytes_def c init start finalizeScanResult_def sizeInfo_def Let_def)
  then show ?thesis using res visible_newest [OF assms(1,2), of k] by (cases resume) (simp_all add: exI [of _ ?r])
qed

theorem snapshot_scan_witness:
  "\<exists>r. mvccScanToBytes (example_scan 1) 0 False = Some (Inr (Inr r)) \<and> NumKeys r = 1 \<and>
     concat (KVData r) = enc_kvs [(EncodeMVCCKey \<lparr>mk_Key = [1], mk_Timestamp = mkTs 3 0\<rparr>, [0, 0, 0, 0, 3, 66])]"
proof -
  let ?c = "example_scan 1"
  have d: "DecodeMVCCValue (\<lambda>b. None) [0, 0, 0, 0, 3, x] = Inr \<lparr>mv_Header = noHeader, mv_RawBytes = [0, 0, 0, 0, 3, x]\<rparr>"
    "DecodeMVCCValue (\<lambda>b. None) [] = Inr \<lparr>mv_Header = noHeader, mv_RawBytes = []\<rparr>" for x
    by (simp_all add: DecodeMVCCValue_def tryDecodeSimpleMVCCValue_def value_sizes)
  have c: "list_all (committed_value ?c) (so_parent ?c)" by (simp add: example_scan_def committed_value_def Timestamp_IsEmpty_def d)
  have r: "snapshot_read ?c" by (simp add: example_scan_def snapshot_read_def checkUncertainty_def Timestamp_IsEmpty_def Timestamp_Less_def)
  have g: "\<forall>r k v. so_grow ?c r k v" by (simp add: example_scan_def)
  have "page ?c (visible ?c (so_start ?c)) = [(EncodeMVCCKey \<lparr>mk_Key = [1], mk_Timestamp = mkTs 3 0\<rparr>, [0, 0, 0, 0, 3, 66])]"
    by (simp add: example_scan_def page_def visible_def version_at_def seen_def raw_value_def Timestamp_LessEq_def d)
  moreover have "so_end ?c \<noteq> []" "so_maxKeys ?c \<ge> 0" "so_inconsistent ?c \<longrightarrow> so_txn ?c = None" by (simp_all add: example_scan_def)
  ultimately show ?thesis using snapshot_scan [OF example_entries c r g, of 0 False "[]"] by auto
qed

end
