(* ===== verification/Mvcc_Put.thy ===== *)
theory Mvcc_Put
  imports Scanner_Snapshot
begin

text \<open>
  Writes of versioned values, \<open>mvccPutInternal\<close> of \<open>pkg/storage/mvcc.go\<close> with the functions it calls, over the entries of one key:
  the iterator of a put sees only that key. The writer's operations insert and remove entries in the order of the
  engine. Statistics and the log of logical operations are left out, as are range keys. A put may return an error and
  still write (a write-too-old error), so its result is the boolean, the error and the new entries.
\<close>

section \<open>The store\<close>

type_synonym store = "(MVCCKey \<times> bytes) list"

definition store_put :: "store \<Rightarrow> MVCCKey \<Rightarrow> bytes \<Rightarrow> store" where
  "store_put es key v = filter (\<lambda>e. MVCCKey_Less (fst e) key) es @ (key, v) # filter (\<lambda>e. MVCCKey_Less key (fst e)) es"

definition store_clear :: "store \<Rightarrow> MVCCKey \<Rightarrow> store" where
  "store_clear es key = filter (\<lambda>e. MVCCKey_Less (fst e) key \<or> MVCCKey_Less key (fst e)) es"

definition store_seek :: "store \<Rightarrow> MVCCKey \<Rightarrow> (MVCCKey \<times> bytes) option" where
  "store_seek es key = (case drop (SeekGE es key) es of [] \<Rightarrow> None | e # _ \<Rightarrow> Some e)"

section \<open>Options and values\<close>

record MVCCWriteOptions =
  wo_Txn :: "Transaction option"
  wo_LocalTimestamp :: ClockTimestamp
  wo_ReplayWriteTimestampProtection :: bool

text \<open>What is not in the repository: marshalling, the memory account, and whether the engine writes local timestamps.\<close>

record writeEnv =
  we_unmarshalMeta :: "bytes \<Rightarrow> MVCCMetadata option"
  we_marshalMeta :: "MVCCMetadata \<Rightarrow> bytes"
  we_unmarshalHeader :: "bytes \<Rightarrow> MVCCValueHeader option"
  we_marshalHeader :: "MVCCValueHeader \<Rightarrow> bytes"
  we_grow :: "pebbleResults \<Rightarrow> bytes \<Rightarrow> bytes \<Rightarrow> bool"
  we_shouldWriteLocalTimestamps :: bool

text \<open>An optional value is its raw bytes; a tombstone is an empty value that exists.\<close>

type_synonym optionalValue = "bytes option"

definition IsPresent :: "optionalValue \<Rightarrow> bool" where
  "IsPresent v \<longleftrightarrow> (case v of None \<Rightarrow> False | Some b \<Rightarrow> length b \<noteq> 0)"

definition optionalValue_IsTombstone :: "optionalValue \<Rightarrow> bool" where
  "optionalValue_IsTombstone v \<longleftrightarrow> (case v of None \<Rightarrow> False | Some b \<Rightarrow> length b = 0)"

type_synonym valueFn = "(optionalValue \<Rightarrow> (scan_error + bytes) res) option"

definition get_options :: "writeEnv \<Rightarrow> store \<Rightarrow> bytes \<Rightarrow> Timestamp \<Rightarrow> Transaction option \<Rightarrow> bool \<Rightarrow> scanOptions" where
  "get_options env es key ts txn inconsistent =
     \<lparr>so_parent = es, so_start = key, so_end = [], so_ts = ts, so_maxKeys = 1, so_targetBytes = 0, so_allowEmpty = False, so_wholeRows = False,
      so_maxIntents = 0, so_txn = txn, so_uncertainty = \<lparr>GlobalLimit = noTs, LocalLimit = noTs\<rparr>, so_inconsistent = inconsistent,
      so_skipLocked = False, so_tombstones = True, so_failOnMoreRecent = False, so_maxItersBeforeSeek = 10,
      so_lockTable = (\<lambda>k x. (False, None)), so_unmarshalMeta = we_unmarshalMeta env, so_marshalMeta = we_marshalMeta env,
      so_unmarshalHeader = we_unmarshalHeader env, so_grow = we_grow env\<rparr>"

text \<open>\<open>mvccGet\<close> with tombstones, the way a put calls it. The value is read back from the result buffer.\<close>

definition mvccGet :: "writeEnv \<Rightarrow> store \<Rightarrow> bytes \<Rightarrow> Timestamp \<Rightarrow> Transaction option \<Rightarrow> bool \<Rightarrow> (scan_error + optionalValue) res" where
  "mvccGet env es key ts txn inconsistent =
     (let c = get_options env es key ts txn inconsistent in
      if length key = 0 then Inr (Inl (OtherError ''attempted access to empty key''))
      else if WallTime ts < 0 then Inr (Inl (OtherError ''cannot write at timestamp''))
      else if inconsistent \<and> txn \<noteq> None then Inr (Inl (OtherError ''cannot allow inconsistent reads within a transaction''))
      else
        res_bind (scanner_get c (scanner_start c pr_clear)) (\<lambda>s.
          case sc_err s of
            Some e \<Rightarrow> Inr (Inl e)
          | None \<Rightarrow>
              on_error (buildScanIntents c (sc_intents s)) (\<lambda>m. Inl (OtherError m)) (\<lambda>intents.
                if errOnIntents c \<and> intents \<noteq> [] then Inr (Inl (WriteIntentError intents))
                else if length intents > 1 then Inr (Inl (OtherError ''expected 0 or 1 intents''))
                else if fst (pr_repr (sc_results s)) = [] then Inr (Inr None)
                else on_error (ScanDecodeKeyValue (fst (pr_repr (sc_results s)))) (\<lambda>m. Inl (OtherError m)) (\<lambda>(_, _, rawValue, _).
                       Inr (Inr (Some rawValue))))))"

definition maybeGetValue :: "writeEnv \<Rightarrow> store \<Rightarrow> bytes \<Rightarrow> bytes \<Rightarrow> bool \<Rightarrow> Timestamp \<Rightarrow> valueFn \<Rightarrow> (scan_error + (optionalValue \<times> bytes)) res" where
  "maybeGetValue env es key val ex readTimestamp fn =
     (case fn of
        None \<Rightarrow> Inr (Inr (None, val))
      | Some f \<Rightarrow>
          res_bind (if ex then mvccGet env es key readTimestamp None False else Inr (Inr None)) (\<lambda>r.
            case r of
              Inl e \<Rightarrow> Inr (Inl e)
            | Inr exVal \<Rightarrow> res_bind (f exVal) (\<lambda>v. Inr (case v of Inl e \<Rightarrow> Inl e | Inr v \<Rightarrow> Inr (exVal, v)))))"

section \<open>Metadata\<close>

definition IsInline :: "MVCCMetadata \<Rightarrow> bool" where
  "IsInline m \<longleftrightarrow> meta_RawBytes m \<noteq> None"

text \<open>A blind put has no iterator.\<close>

definition mvccGetMetadata :: "writeEnv \<Rightarrow> bool \<Rightarrow> store \<Rightarrow> MVCCKey \<Rightarrow> MVCCMetadata option res" where
  "mvccGetMetadata env blind es metaKey =
     (if blind then Inr None else case store_seek es metaKey of
        None \<Rightarrow> Inr None
      | Some (unsafeKey, v) \<Rightarrow>
          if mk_Key unsafeKey \<noteq> mk_Key metaKey then Inr None
          else if \<not> MVCCKey_IsValue unsafeKey then
            (case we_unmarshalMeta env v of None \<Rightarrow> Inl (Err ''unable to decode MVCCMetadata'') | Some m \<Rightarrow> Inr (Some m))
          else res_bind (EncodedMVCCValueIsTombstone v) (\<lambda>isTombstone.
            Inr (Some (emptyMeta\<lparr>meta_KeyBytes := int MVCCVersionTimestampSize, meta_ValBytes := int (length v), meta_Deleted := isTombstone,
              meta_Timestamp := Timestamp_ToLegacyTimestamp (mk_Timestamp unsafeKey)\<rparr>))))"

section \<open>Writing a version\<close>

definition bumped_txnMeta :: "TxnMeta \<Rightarrow> Timestamp \<Rightarrow> TxnMeta" where
  "bumped_txnMeta m ts = (if tx_WriteTimestamp m \<noteq> ts then m\<lparr>tx_WriteTimestamp := fwd (tx_WriteTimestamp m) ts\<rparr> else m)"

definition new_meta :: "writeEnv \<Rightarrow> TxnMeta \<Rightarrow> SequencedIntent list \<Rightarrow> Timestamp \<Rightarrow> MVCCValue \<Rightarrow> bool \<Rightarrow> MVCCMetadata" where
  "new_meta env txnMeta hist ts v alreadyExists =
     emptyMeta\<lparr>meta_Txn := Some txnMeta, meta_Timestamp := Timestamp_ToLegacyTimestamp ts, meta_KeyBytes := int MVCCVersionTimestampSize,
       meta_ValBytes := int (encodedMVCCValueSize (we_marshalHeader env) v), meta_Deleted := IsTombstone v, meta_IntentHistory := hist,
       meta_TxnDidNotUpdateMeta := (if alreadyExists then None else Some True)\<rparr>"

definition putIntentMeta :: "writeEnv \<Rightarrow> store \<Rightarrow> MVCCKey \<Rightarrow> MVCCMetadata \<Rightarrow> TxnMeta \<Rightarrow> scan_error option \<times> store" where
  "putIntentMeta env es metaKey meta txn =
     (if LegacyTimestamp_ToTimestamp (meta_Timestamp meta) \<noteq> tx_WriteTimestamp txn
      then (Some (OtherError ''meta.Timestamp != meta.Txn.WriteTimestamp''), es)
      else (None, store_put es metaKey (we_marshalMeta env meta)))"

section \<open>Steps of a put\<close>

type_synonym put_result = "(bool \<times> scan_error option \<times> store) res"

text \<open>\<open>return false, err\<close> after a call that failed.\<close>

definition or_fail :: "(scan_error + 'a) res \<Rightarrow> store \<Rightarrow> ('a \<Rightarrow> put_result) \<Rightarrow> put_result" where
  "or_fail m es f =
     on_error m (\<lambda>msg. (False, Some (OtherError msg), es)) (\<lambda>r. case r of Inl e \<Rightarrow> Inr (False, Some e, es) | Inr x \<Rightarrow> f x)"

definition decode_value :: "writeEnv \<Rightarrow> bytes \<Rightarrow> (scan_error + bytes) res" where
  "decode_value env raw = res_bind (DecodeMVCCValue (we_unmarshalHeader env) raw) (\<lambda>v. Inr (Inr (mv_RawBytes v)))"

definition apply_fn :: "valueFn \<Rightarrow> optionalValue \<Rightarrow> bytes \<Rightarrow> (scan_error + bytes) res" where
  "apply_fn fn exVal val = (case fn of None \<Rightarrow> Inr (Inr val) | Some f \<Rightarrow> f exVal)"

definition sum_bind :: "(scan_error + 'a) res \<Rightarrow> ('a \<Rightarrow> (scan_error + 'b) res) \<Rightarrow> (scan_error + 'b) res" where
  "sum_bind m f = res_bind m (\<lambda>r. case r of Inl e \<Rightarrow> Inr (Inl e) | Inr x \<Rightarrow> f x)"

text \<open>The value a write of the same sequence number wrote before.\<close>

definition replayed_value :: "writeEnv \<Rightarrow> store \<Rightarrow> MVCCMetadata \<Rightarrow> TxnMeta \<Rightarrow> bytes \<Rightarrow> Timestamp \<Rightarrow> Transaction \<Rightarrow> (scan_error + optionalValue) res" where
  "replayed_value env es meta mtxn key ts txn =
     (if tx_Sequence (tx_Meta txn) = tx_Sequence mtxn then mvccGet env es key ts (Some txn) False
      else (case GetIntentValue (meta_IntentHistory meta) (tx_Sequence (tx_Meta txn)) of
              Some intentValRaw \<Rightarrow> sum_bind (decode_value env intentValRaw) (\<lambda>v. Inr (Inr (Some v)))
            | None \<Rightarrow> Inr (Inr None)))"

definition replayTransactionalWrite :: "writeEnv \<Rightarrow> store \<Rightarrow> MVCCMetadata \<Rightarrow> TxnMeta \<Rightarrow> bytes \<Rightarrow> Timestamp \<Rightarrow> bytes \<Rightarrow> Transaction \<Rightarrow> valueFn \<Rightarrow> bool \<Rightarrow> (scan_error + unit) res" where
  "replayTransactionalWrite env es meta mtxn key ts val txn fn protection =
     sum_bind (replayed_value env es meta mtxn key ts txn) (\<lambda>writtenValue.
       case writtenValue of
         None \<Rightarrow> Inr (Inl (OtherError ''missing an intent with lower sequence''))
       | Some written \<Rightarrow>
           sum_bind (if fn = None then Inr (Inr val)
                     else sum_bind (case GetPrevIntentSeq (meta_IntentHistory meta) (tx_Sequence (tx_Meta txn)) (tx_IgnoredSeqNums txn) of
                                      Some prevIntent \<Rightarrow> sum_bind (decode_value env (si_Value prevIntent)) (\<lambda>v. Inr (Inr (Some v)))
                                    | None \<Rightarrow> mvccGet env es key ts None True)
                            (\<lambda>exVal. apply_fn fn exVal val)) (\<lambda>v.
             if v \<noteq> written then Inr (Inl (OtherError ''has a different value after recomputing from what was written''))
             else if protection \<and> tx_WriteTimestamp (tx_Meta txn) \<noteq> tx_WriteTimestamp mtxn
             then Inr (Inl (OtherError ''prevented from changing write timestamp due to ambiguous replay protection''))
             else Inr (Inr ())))"

text \<open>
  The value under the intent of the same transaction, and the encoded provisional value when it is not ignored.
\<close>

definition provisional_value :: "writeEnv \<Rightarrow> store \<Rightarrow> MVCCMetadata \<Rightarrow> TxnMeta \<Rightarrow> MVCCKey \<Rightarrow> Transaction \<Rightarrow> (scan_error + (optionalValue \<times> bytes option)) res" where
  "provisional_value env es meta mtxn oldVersionKey txn =
     (if tx_Epoch (tx_Meta txn) \<noteq> tx_Epoch mtxn then Inr (Inr (None, None))
      else if \<not> TxnSeqIsIgnored (tx_Sequence mtxn) (tx_IgnoredSeqNums txn) then
        (case store_seek es oldVersionKey of
           None \<Rightarrow> Inr (Inl (OtherError ''existing intent value missing''))
         | Some (k, raw) \<Rightarrow>
             if \<not> MVCCKey_Equal k oldVersionKey then Inr (Inl (OtherError ''existing intent value missing''))
             else sum_bind (decode_value env raw) (\<lambda>v. Inr (Inr (Some v, Some raw))))
      else (case GetPrevIntentSeq (meta_IntentHistory meta) (tx_Sequence (tx_Meta txn)) (tx_IgnoredSeqNums txn) of
              Some prevIntent \<Rightarrow> sum_bind (decode_value env (si_Value prevIntent)) (\<lambda>v. Inr (Inr (Some v, None)))
            | None \<Rightarrow> Inr (Inr (None, None))))"

definition existing_value :: "writeEnv \<Rightarrow> store \<Rightarrow> MVCCMetadata \<Rightarrow> TxnMeta \<Rightarrow> MVCCKey \<Rightarrow> Timestamp \<Rightarrow> Transaction \<Rightarrow> (scan_error + (optionalValue \<times> bytes option)) res" where
  "existing_value env es meta mtxn oldVersionKey readTimestamp txn =
     sum_bind (provisional_value env es meta mtxn oldVersionKey txn) (\<lambda>(exVal, curProvValRaw).
       if exVal \<noteq> None then Inr (Inr (exVal, curProvValRaw))
       else sum_bind (mvccGet env es (mk_Key oldVersionKey) readTimestamp None True) (\<lambda>exVal. Inr (Inr (exVal, curProvValRaw))))"

text \<open>The version under an intent is read for its size before the intent moves; the size goes to the statistics only.\<close>

definition check_underneath :: "store \<Rightarrow> MVCCKey \<Rightarrow> (scan_error + unit) res" where
  "check_underneath es oldVersionKey =
     res_bind (MVCCKey_Next oldVersionKey) (\<lambda>prevKey.
       case store_seek es prevKey of
         None \<Rightarrow> Inr (Inr ())
       | Some (k, v) \<Rightarrow>
           if mk_Key k \<noteq> mk_Key prevKey then Inr (Inr ())
           else if \<not> MVCCKey_IsValue k then Inr (Inl (OtherError ''expected an MVCC value key''))
           else res_bind (EncodedMVCCValueIsTombstone v) (\<lambda>_. Inr (Inr ())))"

text \<open>The end of a put: the metadata of the intent, then the version.\<close>

definition put_version :: "writeEnv \<Rightarrow> store \<Rightarrow> bytes \<Rightarrow> bytes \<Rightarrow> MVCCWriteOptions \<Rightarrow> Timestamp \<Rightarrow> SequencedIntent list \<Rightarrow> bool \<Rightarrow> bool \<Rightarrow> scan_error option \<Rightarrow> put_result" where
  "put_version env es key val opts writeTimestamp hist alreadyExists exReplaced maybeTooOldErr =
     (let versionKey = \<lparr>mk_Key = key, mk_Timestamp = writeTimestamp\<rparr> in
      res_bind (written_value (we_shouldWriteLocalTimestamps env) val (wo_LocalTimestamp opts) writeTimestamp) (\<lambda>v.
        case wo_Txn opts of
          None \<Rightarrow> Inr (exReplaced, maybeTooOldErr, store_put es versionKey (EncodeMVCCValue (we_marshalHeader env) v))
        | Some txn \<Rightarrow>
            (let txnMeta = bumped_txnMeta (tx_Meta txn) writeTimestamp in
             case putIntentMeta env es (MakeMVCCMetadataKey key) (new_meta env txnMeta hist writeTimestamp v alreadyExists) txnMeta of
               (Some e, es) \<Rightarrow> Inr (False, Some e, es)
             | (None, es) \<Rightarrow> Inr (exReplaced, maybeTooOldErr, store_put es versionKey (EncodeMVCCValue (we_marshalHeader env) v)))))"

text \<open>An inline value has no versions; an empty one is removed.\<close>

definition put_inline :: "writeEnv \<Rightarrow> store \<Rightarrow> bytes \<Rightarrow> bytes \<Rightarrow> valueFn \<Rightarrow> MVCCWriteOptions \<Rightarrow> MVCCMetadata option \<Rightarrow> Timestamp \<Rightarrow> put_result" where
  "put_inline env es key val fn opts meta tstamp =
     (if wo_Txn opts \<noteq> None then Inr (False, Some (OtherError ''inline writes not allowed within transactions''), es)
      else or_fail (maybeGetValue env es key val (meta \<noteq> None) tstamp fn) es (\<lambda>(_, v).
        if length v = 0 then
          Inr (case meta of None \<Rightarrow> False | Some m \<Rightarrow> \<not> meta_Deleted m, None, store_clear es (MakeMVCCMetadataKey key))
        else Inr (meta \<noteq> None, None, store_put es (MakeMVCCMetadataKey key) (we_marshalMeta env (emptyMeta\<lparr>meta_RawBytes := Some v\<rparr>)))))"

text \<open>A put over an intent: another transaction's intent is an error, the transaction's own is replaced.\<close>

definition put_over_intent :: "writeEnv \<Rightarrow> store \<Rightarrow> bytes \<Rightarrow> bytes \<Rightarrow> valueFn \<Rightarrow> MVCCWriteOptions \<Rightarrow> MVCCMetadata \<Rightarrow> TxnMeta \<Rightarrow> Timestamp \<Rightarrow> Timestamp \<Rightarrow> put_result" where
  "put_over_intent env es key val fn opts meta mtxn readTimestamp writeTimestamp =
     (case wo_Txn opts of
        None \<Rightarrow> Inr (False, Some (WriteIntentError [(mtxn, key)]), es)
      | Some txn \<Rightarrow>
          if tx_ID mtxn \<noteq> tx_ID (tx_Meta txn) then Inr (False, Some (WriteIntentError [(mtxn, key)]), es)
          else if tx_Epoch (tx_Meta txn) < tx_Epoch mtxn then Inr (False, Some (OtherError ''put came after put with a later epoch''), es)
          else if tx_Epoch (tx_Meta txn) = tx_Epoch mtxn \<and> tx_Sequence (tx_Meta txn) \<le> tx_Sequence mtxn then
            or_fail (replayTransactionalWrite env es meta mtxn key readTimestamp val txn fn (wo_ReplayWriteTimestampProtection opts)) es
              (\<lambda>_. Inr (False, None, es))
          else
            (let metaTimestamp = LegacyTimestamp_ToTimestamp (meta_Timestamp meta);
                 oldVersionKey = \<lparr>mk_Key = key, mk_Timestamp = metaTimestamp\<rparr> in
             or_fail (existing_value env es meta mtxn oldVersionKey readTimestamp txn) es (\<lambda>(exVal, curProvValRaw).
               or_fail (apply_fn fn exVal val) es (\<lambda>v.
                 or_fail (if Timestamp_Less metaTimestamp writeTimestamp then check_underneath es oldVersionKey else Inr (Inr ())) es (\<lambda>_.
                   let cleared = (if Timestamp_Less metaTimestamp writeTimestamp then store_clear es oldVersionKey else es);
                       ts = (if Timestamp_Less writeTimestamp metaTimestamp then metaTimestamp else writeTimestamp);
                       hist = (if tx_Epoch (tx_Meta txn) = tx_Epoch mtxn \<and> exVal \<noteq> None
                               then (case curProvValRaw of
                                       Some raw \<Rightarrow> AddToIntentHistory (meta_IntentHistory meta) (tx_Sequence mtxn) raw
                                     | None \<Rightarrow> meta_IntentHistory meta)
                               else [])
                   in put_version env cleared key v opts ts hist True (IsPresent exVal) None)))))"

text \<open>A put under a committed version goes on above it, and returns a write-too-old error with the timestamp it wrote at.\<close>

definition put_too_old :: "writeEnv \<Rightarrow> store \<Rightarrow> bytes \<Rightarrow> bytes \<Rightarrow> valueFn \<Rightarrow> MVCCWriteOptions \<Rightarrow> SequencedIntent list \<Rightarrow> Timestamp \<Rightarrow> Timestamp \<Rightarrow> Timestamp \<Rightarrow> put_result" where
  "put_too_old env es key val fn opts hist metaTimestamp readTimestamp writeTimestamp =
     res_bind (Timestamp_Next metaTimestamp) (\<lambda>n.
       let ts = fwd writeTimestamp n; read = (if wo_Txn opts = None then ts else readTimestamp) in
       or_fail (maybeGetValue env es key val True read (Some (\<lambda>exVal. apply_fn fn exVal val))) es (\<lambda>(exVal, v).
         put_version env es key v opts ts hist False (IsPresent exVal) (Some (WriteTooOldError readTimestamp ts key))))"

definition mvccPutInternal :: "writeEnv \<Rightarrow> bool \<Rightarrow> store \<Rightarrow> bytes \<Rightarrow> Timestamp \<Rightarrow> bytes \<Rightarrow> Timestamp \<Rightarrow> valueFn \<Rightarrow> MVCCWriteOptions \<Rightarrow> put_result" where
  "mvccPutInternal env blind es key tstamp val valTimestamp fn opts =
     (if length key = 0 then Inr (False, Some (OtherError ''attempted access to empty key''), es)
      else if WallTime tstamp < 0 then Inr (False, Some (OtherError ''cannot write at timestamp''), es)
      else if \<not> Timestamp_IsEmpty valTimestamp then Inr (False, Some (OtherError ''cannot have timestamp set in value''), es)
      else if wo_ReplayWriteTimestampProtection opts \<and> wo_Txn opts = None
      then Inr (False, Some (OtherError ''cannot enable replay protection without a transaction''), es)
      else or_fail (res_bind (mvccGetMetadata env blind es (MakeMVCCMetadataKey key)) (\<lambda>m. Inr (Inr m))) es (\<lambda>meta.
        if meta \<noteq> None \<and> Timestamp_IsEmpty tstamp \<noteq> IsInline (the meta)
        then Inr (False, Some (OtherError ''put and existing value differ in being inline''), es)
        else if Timestamp_IsEmpty tstamp then put_inline env es key val fn opts meta tstamp
        else if (case wo_Txn opts of None \<Rightarrow> False | Some txn \<Rightarrow> tx_ReadTimestamp txn \<noteq> tstamp)
        then Inr (False, Some (OtherError ''read timestamp of the transaction does not match timestamp''), es)
        else
          (let writeTimestamp = (case wo_Txn opts of None \<Rightarrow> tstamp | Some txn \<Rightarrow> tx_WriteTimestamp (tx_Meta txn)) in
           case meta of
             None \<Rightarrow> or_fail (apply_fn fn None val) es (\<lambda>v. put_version env es key v opts writeTimestamp [] False False None)
           | Some m \<Rightarrow>
               (case meta_Txn m of
                  Some mtxn \<Rightarrow> put_over_intent env es key val fn opts m mtxn tstamp writeTimestamp
                | None \<Rightarrow>
                    (let metaTimestamp = LegacyTimestamp_ToTimestamp (meta_Timestamp m) in
                     if Timestamp_LessEq tstamp metaTimestamp
                     then put_too_old env es key val fn opts (meta_IntentHistory m) metaTimestamp tstamp writeTimestamp
                     else or_fail (maybeGetValue env es key val True tstamp fn) es (\<lambda>(_, v).
                            put_version env es key v opts writeTimestamp (meta_IntentHistory m) False (\<not> meta_Deleted m) None))))))"

section \<open>Operations\<close>

definition mvccPutUsingIter :: "writeEnv \<Rightarrow> bool \<Rightarrow> store \<Rightarrow> bytes \<Rightarrow> Timestamp \<Rightarrow> bytes \<Rightarrow> Timestamp \<Rightarrow> valueFn \<Rightarrow> MVCCWriteOptions \<Rightarrow> (scan_error option \<times> store) res" where
  "mvccPutUsingIter env blind es key tstamp val valTimestamp fn opts =
     res_bind (mvccPutInternal env blind es key tstamp val valTimestamp fn opts) (\<lambda>(_, err, es). Inr (err, es))"

text \<open>\<open>stats\<close>: whether statistics are kept. Without them an inline put is blind.\<close>

definition MVCCPut :: "writeEnv \<Rightarrow> bool \<Rightarrow> store \<Rightarrow> bytes \<Rightarrow> Timestamp \<Rightarrow> bytes \<Rightarrow> Timestamp \<Rightarrow> MVCCWriteOptions \<Rightarrow> (scan_error option \<times> store) res" where
  "MVCCPut env stats es key tstamp val valTimestamp opts =
     mvccPutUsingIter env (\<not> stats \<and> Timestamp_IsEmpty tstamp) es key tstamp val valTimestamp None opts"

definition MVCCBlindPut :: "writeEnv \<Rightarrow> store \<Rightarrow> bytes \<Rightarrow> Timestamp \<Rightarrow> bytes \<Rightarrow> Timestamp \<Rightarrow> MVCCWriteOptions \<Rightarrow> (scan_error option \<times> store) res" where
  "MVCCBlindPut env es key tstamp val valTimestamp opts = mvccPutUsingIter env True es key tstamp val valTimestamp None opts"

definition MVCCDelete :: "writeEnv \<Rightarrow> store \<Rightarrow> bytes \<Rightarrow> Timestamp \<Rightarrow> MVCCWriteOptions \<Rightarrow> put_result" where
  "MVCCDelete env es key tstamp opts = mvccPutInternal env False es key tstamp [] noTs None opts"

definition TagAndDataBytes :: "bytes \<Rightarrow> bytes res" where
  "TagAndDataBytes raw = slice_from value_tagPos raw"

definition condition_fn :: "bytes \<Rightarrow> bool \<Rightarrow> bytes \<Rightarrow> optionalValue \<Rightarrow> (scan_error + bytes) res" where
  "condition_fn expBytes allowNoExisting val existVal =
     (let expValPresent = length expBytes \<noteq> 0; existValPresent = IsPresent existVal in
      if expValPresent \<and> existValPresent then
        res_bind (TagAndDataBytes (the existVal)) (\<lambda>b.
          if expBytes \<noteq> b then Inr (Inl (ConditionFailedError existVal)) else Inr (Inr val))
      else if expValPresent \<noteq> existValPresent \<and> (existValPresent \<or> \<not> allowNoExisting) then Inr (Inl (ConditionFailedError existVal))
      else Inr (Inr val))"

definition mvccConditionalPutUsingIter :: "writeEnv \<Rightarrow> bool \<Rightarrow> store \<Rightarrow> bytes \<Rightarrow> Timestamp \<Rightarrow> bytes \<Rightarrow> bytes \<Rightarrow> bool \<Rightarrow> MVCCWriteOptions \<Rightarrow> (scan_error option \<times> store) res" where
  "mvccConditionalPutUsingIter env blind es key tstamp val expBytes allowNoExisting opts =
     mvccPutUsingIter env blind es key tstamp [] noTs (Some (condition_fn expBytes allowNoExisting val)) opts"

definition MVCCConditionalPut :: "writeEnv \<Rightarrow> store \<Rightarrow> bytes \<Rightarrow> Timestamp \<Rightarrow> bytes \<Rightarrow> bytes \<Rightarrow> bool \<Rightarrow> MVCCWriteOptions \<Rightarrow> (scan_error option \<times> store) res" where
  "MVCCConditionalPut env es key tstamp val expVal allowIfDoesNotExist opts =
     mvccConditionalPutUsingIter env False es key tstamp val expVal allowIfDoesNotExist opts"

definition MVCCBlindConditionalPut :: "writeEnv \<Rightarrow> store \<Rightarrow> bytes \<Rightarrow> Timestamp \<Rightarrow> bytes \<Rightarrow> bytes \<Rightarrow> bool \<Rightarrow> MVCCWriteOptions \<Rightarrow> (scan_error option \<times> store) res" where
  "MVCCBlindConditionalPut env es key tstamp val expVal allowIfDoesNotExist opts =
     mvccConditionalPutUsingIter env True es key tstamp val expVal allowIfDoesNotExist opts"

definition init_fn :: "bool \<Rightarrow> bytes \<Rightarrow> optionalValue \<Rightarrow> (scan_error + bytes) res" where
  "init_fn failOnTombstones val existVal =
     (if failOnTombstones \<and> optionalValue_IsTombstone existVal then Inr (Inl (ConditionFailedError existVal))
      else if IsPresent existVal then
        res_bind (TagAndDataBytes (the existVal)) (\<lambda>a. res_bind (TagAndDataBytes val) (\<lambda>b.
          if a \<noteq> b then Inr (Inl (ConditionFailedError existVal)) else Inr (Inr val)))
      else Inr (Inr val))"

definition mvccInitPutUsingIter :: "writeEnv \<Rightarrow> bool \<Rightarrow> store \<Rightarrow> bytes \<Rightarrow> Timestamp \<Rightarrow> bytes \<Rightarrow> bool \<Rightarrow> MVCCWriteOptions \<Rightarrow> (scan_error option \<times> store) res" where
  "mvccInitPutUsingIter env blind es key tstamp val failOnTombstones opts =
     mvccPutUsingIter env blind es key tstamp [] noTs (Some (init_fn failOnTombstones val)) opts"

definition MVCCInitPut :: "writeEnv \<Rightarrow> store \<Rightarrow> bytes \<Rightarrow> Timestamp \<Rightarrow> bytes \<Rightarrow> bool \<Rightarrow> MVCCWriteOptions \<Rightarrow> (scan_error option \<times> store) res" where
  "MVCCInitPut env es key tstamp val failOnTombstones opts = mvccInitPutUsingIter env False es key tstamp val failOnTombstones opts"

definition MVCCBlindInitPut :: "writeEnv \<Rightarrow> store \<Rightarrow> bytes \<Rightarrow> Timestamp \<Rightarrow> bytes \<Rightarrow> bool \<Rightarrow> MVCCWriteOptions \<Rightarrow> (scan_error option \<times> store) res" where
  "MVCCBlindInitPut env es key tstamp val failOnTombstones opts = mvccInitPutUsingIter env True es key tstamp val failOnTombstones opts"

end
