(* ===== verification/Put_Store.thy ===== *)
theory Put_Store
  imports Mvcc_Put
begin

text \<open>
  What a put does to the entries of a key: it fails and leaves them, replays a write of its transaction and leaves them, or
  installs a version above every committed one, with an intent when the write is transactional.
\<close>

section \<open>The entries of a key\<close>

text \<open>
  An intent comes first; the version under it is provisional and carries the intent's timestamp. The others are committed.
\<close>

definition intent_ok :: "writeEnv \<Rightarrow> bytes \<Rightarrow> store \<Rightarrow> bool" where
  "intent_ok env b rest \<longleftrightarrow> (case we_unmarshalMeta env b of None \<Rightarrow> False
     | Some m \<Rightarrow> b \<noteq> [] \<and> meta_RawBytes m = None \<and>
         (case meta_Txn m of None \<Rightarrow> False | Some t \<Rightarrow> tx_WriteTimestamp t = LegacyTimestamp_ToTimestamp (meta_Timestamp m)) \<and>
         (case rest of [] \<Rightarrow> False | e # _ \<Rightarrow> mk_Timestamp (fst e) = LegacyTimestamp_ToTimestamp (meta_Timestamp m)))"

definition store_ok :: "writeEnv \<Rightarrow> bytes \<Rightarrow> store \<Rightarrow> bool" where
  "store_ok env key es \<longleftrightarrow> entries_ok es \<and> list_all (\<lambda>e. mk_Key (fst e) = key) es \<and>
     (case es of [] \<Rightarrow> True | e # rest \<Rightarrow> MVCCKey_IsValue (fst e) \<or> intent_ok env (snd e) rest)"

definition committed_versions :: "store \<Rightarrow> store" where
  "committed_versions es = (case es of [] \<Rightarrow> [] | e # rest \<Rightarrow> if MVCCKey_IsValue (fst e) then es else tl rest)"

definition below_ts :: "bytes \<Rightarrow> Timestamp \<Rightarrow> store \<Rightarrow> bool" where
  "below_ts key ts vs \<longleftrightarrow> list_all (\<lambda>e. mk_Key (fst e) = key \<and> MVCCKey_IsValue (fst e) \<and> Timestamp_Less (mk_Timestamp (fst e)) ts) vs"

definition installed :: "writeEnv \<Rightarrow> bytes \<Rightarrow> MVCCWriteOptions \<Rightarrow> Timestamp \<Rightarrow> SequencedIntent list \<Rightarrow> bool \<Rightarrow> MVCCValue \<Rightarrow> store \<Rightarrow> store" where
  "installed env key opts ts hist al v vs =
     (case wo_Txn opts of None \<Rightarrow> []
      | Some txn \<Rightarrow> [(MakeMVCCMetadataKey key, we_marshalMeta env (new_meta env (bumped_txnMeta (tx_Meta txn) ts) hist ts v al))]) @
     (\<lparr>mk_Key = key, mk_Timestamp = ts\<rparr>, EncodeMVCCValue (we_marshalHeader env) v) # vs"

lemma empty_iff: "Timestamp_IsEmpty t \<longleftrightarrow> t = mkTs 0 0"
  by (cases t) (auto simp: Timestamp_IsEmpty_def)

lemma meta_key: "mk_Key k = key \<Longrightarrow> \<not> MVCCKey_IsValue k \<Longrightarrow> k = MakeMVCCMetadataKey key"
  by (cases k) (simp add: MVCCKey_IsValue_def empty_iff MakeMVCCMetadataKey_def)

lemma meta_key_simps [simp]:
  "mk_Key (MakeMVCCMetadataKey key) = key" "\<not> MVCCKey_IsValue (MakeMVCCMetadataKey key)"
  by (simp_all add: MakeMVCCMetadataKey_def MVCCKey_IsValue_def Timestamp_IsEmpty_def)

lemma version_key_value: "MVCCKey_IsValue \<lparr>mk_Key = key, mk_Timestamp = ts\<rparr> \<longleftrightarrow> \<not> Timestamp_IsEmpty ts"
  by (simp add: MVCCKey_IsValue_def)

lemma same_key_less:
  "mk_Key k = mk_Key l \<Longrightarrow> MVCCKey_Less k l \<longleftrightarrow>
     (if MVCCKey_IsValue k then MVCCKey_IsValue l \<and> Timestamp_Less (mk_Timestamp l) (mk_Timestamp k) else MVCCKey_IsValue l)"
  by (auto simp: MVCCKey_Less_iff MVCCKey_IsValue_def)

lemma store_shape:
  assumes "store_ok env key es"
  obtains (committed) "list_all (\<lambda>e. mk_Key (fst e) = key \<and> MVCCKey_IsValue (fst e)) es" "committed_versions es = es"
  | (intent) b m mtxn e vs where "es = (MakeMVCCMetadataKey key, b) # e # vs" "b \<noteq> []" "we_unmarshalMeta env b = Some m" "meta_RawBytes m = None"
      "meta_Txn m = Some mtxn" "tx_WriteTimestamp mtxn = LegacyTimestamp_ToTimestamp (meta_Timestamp m)"
      "fst e = \<lparr>mk_Key = key, mk_Timestamp = LegacyTimestamp_ToTimestamp (meta_Timestamp m)\<rparr>" "MVCCKey_IsValue (fst e)"
      "below_ts key (mk_Timestamp (fst e)) vs" "committed_versions es = vs"
proof (cases es)
  case Nil
  then show thesis using committed by (simp add: committed_versions_def)
next
  case (Cons a rest)
  have keys: "mk_Key (fst a) = key" "list_all (\<lambda>e. mk_Key (fst e) = key) rest" and sorted: "sorted_wrt MVCCKey_Less (map fst (a # rest))"
    using assms by (simp_all add: store_ok_def entries_ok_def Cons)
  have less: "MVCCKey_Less (fst a) (fst x)" if "x \<in> set rest" for x using sorted that by simp
  show thesis
  proof (cases "MVCCKey_IsValue (fst a)")
    case True
    have "MVCCKey_IsValue (fst x)" if "x \<in> set rest" for x
      using less [OF that] that keys True by (simp add: same_key_less list_all_iff)
    then show thesis using committed Cons keys True by (simp add: list_all_iff committed_versions_def)
  next
    case False
    then have "intent_ok env (snd a) rest" using assms by (simp add: store_ok_def Cons)
    then obtain m mtxn e vs where i: "we_unmarshalMeta env (snd a) = Some m" "snd a \<noteq> []" "meta_RawBytes m = None" "meta_Txn m = Some mtxn"
      "tx_WriteTimestamp mtxn = LegacyTimestamp_ToTimestamp (meta_Timestamp m)" "rest = e # vs"
      "mk_Timestamp (fst e) = LegacyTimestamp_ToTimestamp (meta_Timestamp m)"
      by (auto simp: intent_ok_def split: option.splits list.splits)
    have val: "MVCCKey_IsValue (fst x)" if "x \<in> set rest" for x
      using less [OF that] that keys False by (simp add: same_key_less list_all_iff)
    have "Timestamp_Less (mk_Timestamp (fst x)) (mk_Timestamp (fst e))" if "x \<in> set vs" for x
    proof -
      have "MVCCKey_Less (fst e) (fst x)" using sorted that i(6) by simp
      then show ?thesis using keys i(6) val [of e] that by (simp add: same_key_less list_all_iff)
    qed
    then have b: "below_ts key (mk_Timestamp (fst e)) vs" using keys i(6) val by (simp add: below_ts_def list_all_iff)
    have e: "fst e = \<lparr>mk_Key = key, mk_Timestamp = LegacyTimestamp_ToTimestamp (meta_Timestamp m)\<rparr>"
      using keys i(6,7) by (cases "fst e") simp
    have "es = (MakeMVCCMetadataKey key, snd a) # e # vs" using Cons i(6) meta_key [OF keys(1) False] by (cases a) simp
    then show thesis
      by (rule intent) (use i b e val [of e] in \<open>simp_all add: Cons committed_versions_def False\<close>)
  qed
qed

section \<open>Insertion and removal\<close>

lemma store_seek_meta:
  "list_all (\<lambda>e. mk_Key (fst e) = key) es \<Longrightarrow> store_seek es (MakeMVCCMetadataKey key) = (case es of [] \<Rightarrow> None | e # _ \<Rightarrow> Some e)"
  by (cases es) (simp_all add: store_seek_def SeekGE_def same_key_less)

lemma same_key_values:
  assumes "mk_Key k = key" "MVCCKey_IsValue k" "\<not> Timestamp_IsEmpty ts"
  shows "MVCCKey_Less k \<lparr>mk_Key = key, mk_Timestamp = ts\<rparr> \<longleftrightarrow> Timestamp_Less ts (mk_Timestamp k)"
    "MVCCKey_Less \<lparr>mk_Key = key, mk_Timestamp = ts\<rparr> k \<longleftrightarrow> Timestamp_Less (mk_Timestamp k) ts"
    "MVCCKey_Less (MakeMVCCMetadataKey key) k" "\<not> MVCCKey_Less k (MakeMVCCMetadataKey key)"
    "MVCCKey_Less (MakeMVCCMetadataKey key) \<lparr>mk_Key = key, mk_Timestamp = ts\<rparr>"
    "\<not> MVCCKey_Less \<lparr>mk_Key = key, mk_Timestamp = ts\<rparr> (MakeMVCCMetadataKey key)"
    "\<not> MVCCKey_Less (MakeMVCCMetadataKey key) (MakeMVCCMetadataKey key)"
  using assms by (simp_all add: same_key_less version_key_value)

lemma ts_asym: "Timestamp_Less a b \<Longrightarrow> \<not> Timestamp_Less b a"
  using ts_less_trans ts_less_irrefl by blast

lemma below_parts:
  assumes "below_ts key ts vs" "\<not> Timestamp_IsEmpty ts"
  shows "filter (\<lambda>e. MVCCKey_Less (fst e) \<lparr>mk_Key = key, mk_Timestamp = ts\<rparr>) vs = []"
    "filter (\<lambda>e. MVCCKey_Less \<lparr>mk_Key = key, mk_Timestamp = ts\<rparr> (fst e)) vs = vs"
    "filter (\<lambda>e. MVCCKey_Less (MakeMVCCMetadataKey key) (fst e)) vs = vs"
    "filter (\<lambda>e. MVCCKey_Less (fst e) (MakeMVCCMetadataKey key)) vs = []"
  using assms by (simp_all add: below_ts_def list_all_iff filter_empty_conv filter_id_conv same_key_values ts_asym)

text \<open>A put at a timestamp above the committed versions, after the intent and in place of a version of the same timestamp.\<close>

lemma store_put_version:
  assumes "below_ts key ts vs" "\<not> Timestamp_IsEmpty ts" "pre = [] \<or> (\<exists>b. pre = [(MakeMVCCMetadataKey key, b)])"
    "prov = [] \<or> (\<exists>t b. prov = [(\<lparr>mk_Key = key, mk_Timestamp = t\<rparr>, b)] \<and> \<not> Timestamp_IsEmpty t \<and> Timestamp_EqOrdering t ts)"
  shows "store_put (pre @ prov @ vs) \<lparr>mk_Key = key, mk_Timestamp = ts\<rparr> v = pre @ (\<lparr>mk_Key = key, mk_Timestamp = ts\<rparr>, v) # vs"
    "store_put (pre @ prov @ vs) (MakeMVCCMetadataKey key) b = (MakeMVCCMetadataKey key, b) # prov @ vs"
proof -
  have eq: "\<not> Timestamp_Less t ts" "\<not> Timestamp_Less ts t" if "Timestamp_EqOrdering t ts" for t
    using that by (auto simp: Timestamp_EqOrdering_def Timestamp_Less_def)
  show "store_put (pre @ prov @ vs) \<lparr>mk_Key = key, mk_Timestamp = ts\<rparr> v = pre @ (\<lparr>mk_Key = key, mk_Timestamp = ts\<rparr>, v) # vs"
    using assms(2-4) eq by (auto simp: store_put_def below_parts [OF assms(1,2)] same_key_less version_key_value)
  show "store_put (pre @ prov @ vs) (MakeMVCCMetadataKey key) b = (MakeMVCCMetadataKey key, b) # prov @ vs"
    using assms(2-4) by (auto simp: store_put_def below_parts [OF assms(1,2)] same_key_less version_key_value)
qed

lemma store_clear_version:
  assumes "below_ts key ts vs" "\<not> Timestamp_IsEmpty ts"
  shows "store_clear ((MakeMVCCMetadataKey key, b) # (\<lparr>mk_Key = key, mk_Timestamp = ts\<rparr>, v) # vs) \<lparr>mk_Key = key, mk_Timestamp = ts\<rparr> =
    (MakeMVCCMetadataKey key, b) # vs"
proof -
  have "filter (\<lambda>e. MVCCKey_Less (fst e) \<lparr>mk_Key = key, mk_Timestamp = ts\<rparr> \<or> MVCCKey_Less \<lparr>mk_Key = key, mk_Timestamp = ts\<rparr> (fst e)) vs = vs"
    using assms by (simp add: below_ts_def list_all_iff filter_id_conv same_key_values)
  then show ?thesis using assms(2) by (simp add: store_clear_def same_key_less version_key_value)
qed

section \<open>The end of a put\<close>

lemma legacy_roundtrip [simp]: "LegacyTimestamp_ToTimestamp (Timestamp_ToLegacyTimestamp t) = t"
  by (cases t) (simp add: LegacyTimestamp_ToTimestamp_def Timestamp_ToLegacyTimestamp_def)

lemma new_meta_simps [simp]:
  "meta_Timestamp (new_meta env t hist ts v al) = Timestamp_ToLegacyTimestamp ts" "meta_Txn (new_meta env t hist ts v al) = Some t"
  "meta_RawBytes (new_meta env t hist ts v al) = None" "meta_IntentHistory (new_meta env t hist ts v al) = hist"
  by (simp_all add: new_meta_def emptyMeta_def)

text \<open>The timestamp of a put is the transaction's, or one the transaction's can be forwarded to.\<close>

definition reaches :: "MVCCWriteOptions \<Rightarrow> Timestamp \<Rightarrow> bool" where
  "reaches opts ts \<longleftrightarrow> (case wo_Txn opts of None \<Rightarrow> True | Some txn \<Rightarrow> tx_WriteTimestamp (bumped_txnMeta (tx_Meta txn) ts) = ts)"

lemma put_version_installs:
  assumes "below_ts key ts vs" "\<not> Timestamp_IsEmpty ts" "pre = [] \<or> (\<exists>b. pre = [(MakeMVCCMetadataKey key, b)])"
    "prov = [] \<or> (\<exists>t b. prov = [(\<lparr>mk_Key = key, mk_Timestamp = t\<rparr>, b)] \<and> \<not> Timestamp_IsEmpty t \<and> Timestamp_EqOrdering t ts)"
    "wo_Txn opts = None \<Longrightarrow> pre = []" "reaches opts ts"
    "put_version env (pre @ prov @ vs) key val opts ts hist al r err = Inr (r', err', es')"
  shows "r' = r \<and> err' = err \<and> (\<exists>v. written_value (we_shouldWriteLocalTimestamps env) val (wo_LocalTimestamp opts) ts = Inr v \<and>
    es' = installed env key opts ts hist al v vs)"
proof -
  obtain v where v: "written_value (we_shouldWriteLocalTimestamps env) val (wo_LocalTimestamp opts) ts = Inr v"
    using assms(7) by (auto simp: put_version_def res_simps Let_def)
  note p = store_put_version [OF assms(1-4)] store_put_version(1) [OF assms(1,2) _ assms(4), of "[(MakeMVCCMetadataKey key, _)]"]
  show ?thesis
  proof (cases "wo_Txn opts")
    case None
    then show ?thesis using assms(5,7) v p(1) by (simp add: put_version_def installed_def)
  next
    case (Some txn)
    then show ?thesis using assms(6,7) v p(2,3) by (simp add: put_version_def installed_def reaches_def putIntentMeta_def)
  qed
qed

section \<open>Every branch\<close>

text \<open>The timestamps of a request: the write timestamp is positive and not below the read timestamp.\<close>

definition write_ts :: "MVCCWriteOptions \<Rightarrow> Timestamp \<Rightarrow> Timestamp" where
  "write_ts opts tstamp = (case wo_Txn opts of None \<Rightarrow> tstamp | Some txn \<Rightarrow> tx_WriteTimestamp (tx_Meta txn))"

definition request_ok :: "MVCCWriteOptions \<Rightarrow> Timestamp \<Rightarrow> bool" where
  "request_ok opts tstamp \<longleftrightarrow> valid_ts (write_ts opts tstamp) \<and> Timestamp_Less (mkTs 0 0) tstamp \<and> Timestamp_LessEq tstamp (write_ts opts tstamp)"

definition put_done :: "writeEnv \<Rightarrow> bytes \<Rightarrow> Timestamp \<Rightarrow> bytes \<Rightarrow> valueFn \<Rightarrow> MVCCWriteOptions \<Rightarrow> store \<Rightarrow> scan_error option \<Rightarrow> store \<Rightarrow> bool" where
  "put_done env key tstamp val fn opts vs err es' \<longleftrightarrow> (\<exists>ts v hist al. es' = installed env key opts ts hist al v vs \<and> below_ts key ts vs \<and>
     Timestamp_LessEq (write_ts opts tstamp) ts \<and> valid_ts ts \<and> reaches opts ts \<and>
     written_value (we_shouldWriteLocalTimestamps env) (mv_RawBytes v) (wo_LocalTimestamp opts) ts = Inr v \<and> (fn = None \<longrightarrow> mv_RawBytes v = val) \<and>
     (err = None \<or> err = Some (WriteTooOldError tstamp ts key)))"

lemma or_fail_cases:
  assumes "or_fail m es f = Inr (r, err, es')"
  shows "(es' = es \<and> err \<noteq> None) \<or> (\<exists>x. m = Inr (Inr x) \<and> f x = Inr (r, err, es'))"
proof (cases m)
  case (Inl e)
  then show ?thesis using assms by (cases e) (auto simp: or_fail_def)
next
  case (Inr x)
  then show ?thesis using assms by (cases x) (auto simp: or_fail_def)
qed

lemma written_raw: "written_value b val l ts = Inr v \<Longrightarrow> mv_RawBytes v = val"
  by (auto simp: written_value_def res_simps Let_def split: if_splits)

lemma reaches_write: "reaches opts (write_ts opts tstamp)"
  by (simp add: reaches_def write_ts_def bumped_txnMeta_def split: option.split)

lemma reaches_forward: "reaches opts (fwd (write_ts opts tstamp) n)"
  by (auto simp: reaches_def write_ts_def bumped_txnMeta_def Timestamp_Forward_def bothSynthetic_def ts_order_defs split: option.split)

lemma reaches_above: "Timestamp_Less (write_ts opts tstamp) ts \<Longrightarrow> reaches opts ts"
  by (auto simp: reaches_def write_ts_def bumped_txnMeta_def Timestamp_Forward_def split: option.split)

lemma Next_above: "Timestamp_Next t = Inr n \<Longrightarrow> valid_ts t \<Longrightarrow> Timestamp_Less t n \<and> valid_ts n"
  by (cases t) (auto simp: Timestamp_Next_def valid_ts_def in64_def in32_def go_limits Timestamp_Less_def split: if_splits)

lemma put_version_done:
  assumes "request_ok opts tstamp" "below_ts key ts vs" "Timestamp_LessEq (write_ts opts tstamp) ts" "valid_ts ts" "reaches opts ts"
    "pre = [] \<or> (\<exists>b. pre = [(MakeMVCCMetadataKey key, b)])"
    "prov = [] \<or> (\<exists>t b. prov = [(\<lparr>mk_Key = key, mk_Timestamp = t\<rparr>, b)] \<and> \<not> Timestamp_IsEmpty t \<and> Timestamp_EqOrdering t ts)"
    "wo_Txn opts = None \<Longrightarrow> pre = []" "err = None \<or> err = Some (WriteTooOldError tstamp ts key)" "fn = None \<Longrightarrow> raw = val"
    "put_version env (pre @ prov @ vs) key raw opts ts hist al r err = Inr (r', err', es')"
  shows "put_done env key tstamp val fn opts vs err' es'"
proof -
  have "Timestamp_Less (mkTs 0 0) ts"
    using assms(1,3) ts_less_lesseq_trans ts_lesseq_trans unfolding request_ok_def by blast
  then have ne: "\<not> Timestamp_IsEmpty ts" by (rule positive_not_empty)
  show ?thesis
    using put_version_installs [OF assms(2) ne assms(6,7,8,5,11)] assms(2-5,9,10) written_raw unfolding put_done_def by metis
qed

lemma below_newest:
  assumes "entries_ok es" "list_all (\<lambda>e. mk_Key (fst e) = key \<and> MVCCKey_IsValue (fst e)) es" "es = e # rest" "Timestamp_Less (mk_Timestamp (fst e)) ts"
  shows "below_ts key ts es"
proof -
  have "Timestamp_Less (mk_Timestamp (fst x)) (mk_Timestamp (fst e))" if "x \<in> set rest" for x
    using assms(1-3) that by (simp add: entries_ok_def same_key_less list_all_iff)
  then have "Timestamp_Less (mk_Timestamp (fst x)) ts" if "x \<in> set es" for x
    using that assms(3,4) ts_less_trans [of _ "mk_Timestamp (fst e)" ts] set_ConsD by metis
  then show ?thesis using assms(2) by (simp add: below_ts_def list_all_iff)
qed

lemma apply_fn_None: "apply_fn None exVal val = Inr (Inr v) \<Longrightarrow> v = val"
  by (simp add: apply_fn_def)

lemma maybeGetValue_None: "maybeGetValue env es key val ex ts None = Inr (Inr (x, v)) \<Longrightarrow> v = val"
  by (simp add: maybeGetValue_def)

lemma maybeGetValue_fn:
  "maybeGetValue env es key val ex ts (Some (\<lambda>x. apply_fn fn x val)) = Inr (Inr (x, v)) \<Longrightarrow> fn = None \<Longrightarrow> v = val"
  by (cases "if ex then mvccGet env es key ts None False else Inr (Inr None)"; cases "projr (if ex then mvccGet env es key ts None False else Inr (Inr None))")
    (auto simp: maybeGetValue_def apply_fn_def)

text \<open>Replays leave the store as it is.\<close>

definition replays :: "MVCCWriteOptions \<Rightarrow> MVCCMetadata option \<Rightarrow> bool" where
  "replays opts meta \<longleftrightarrow> (case meta of None \<Rightarrow> False | Some m \<Rightarrow>
     (case (wo_Txn opts, meta_Txn m) of
        (Some txn, Some mtxn) \<Rightarrow> tx_ID mtxn = tx_ID (tx_Meta txn) \<and> tx_Epoch (tx_Meta txn) = tx_Epoch mtxn \<and>
          tx_Sequence (tx_Meta txn) \<le> tx_Sequence mtxn
      | _ \<Rightarrow> False))"

lemma put_over_intent_done:
  assumes "request_ok opts tstamp" "es = (MakeMVCCMetadataKey key, b) # e # vs" "meta_Txn m = Some mtxn" "valid_ts (mk_Timestamp (fst e))"
    "fst e = \<lparr>mk_Key = key, mk_Timestamp = LegacyTimestamp_ToTimestamp (meta_Timestamp m)\<rparr>" "MVCCKey_IsValue (fst e)"
    "below_ts key (mk_Timestamp (fst e)) vs"
    "put_over_intent env es key val fn opts m mtxn tstamp (write_ts opts tstamp) = Inr (r, err, es')"
  shows "es' = es \<and> err \<noteq> None \<or> (es' = es \<and> replays opts (Some m) \<or> put_done env key tstamp val fn opts vs err es')"
proof (cases "wo_Txn opts")
  case None
  then show ?thesis using assms(8) by (auto simp: put_over_intent_def)
next
  case (Some txn)
  let ?mt = "LegacyTimestamp_ToTimestamp (meta_Timestamp m)" and ?w = "write_ts opts tstamp" and ?k = "MakeMVCCMetadataKey key"
  let ?old = "\<lparr>mk_Key = key, mk_Timestamp = ?mt\<rparr>"
  have ne: "\<not> Timestamp_IsEmpty ?mt" using assms(5,6) by (simp add: version_key_value)
  have b: "below_ts key ?mt vs" using assms(5,7) by simp
  obtain x where e: "e = (?old, x)" using assms(5) by (cases e) simp
  have wv: "valid_ts ?w" using assms(1) by (simp add: request_ok_def)
  have less: "put_version env (store_clear es ?old) key v opts ?w hist al q None = Inr (r, err, es') \<Longrightarrow> (fn = None \<Longrightarrow> v = val) \<Longrightarrow>
      put_done env key tstamp val fn opts vs err es'" if "Timestamp_Less ?mt ?w" for v hist al q
  proof (rule put_version_done [OF assms(1), where pre = "[(?k, b)]" and prov = "[]" and ts = "?w"])
    show "below_ts key ?w vs" using b that ts_less_trans by (auto simp: below_ts_def list_all_iff)
  qed (use Some wv reaches_write store_clear_version [OF b ne] assms(2) e in auto)
  have ge: "put_version env es key v opts (if Timestamp_Less ?w ?mt then ?mt else ?w) hist al q None = Inr (r, err, es') \<Longrightarrow>
      (fn = None \<Longrightarrow> v = val) \<Longrightarrow> put_done env key tstamp val fn opts vs err es'" if "\<not> Timestamp_Less ?mt ?w" for v hist al q
  proof (rule put_version_done [OF assms(1), where pre = "[(?k, b)]" and prov = "[e]" and ts = "if Timestamp_Less ?w ?mt then ?mt else ?w"])
    have eq: "Timestamp_EqOrdering ?mt ?w" if "\<not> Timestamp_Less ?w ?mt"
      using that \<open>\<not> Timestamp_Less ?mt ?w\<close> by (intro ts_antisym) (simp_all add: ts_lesseq_iff)
    show "below_ts key (if Timestamp_Less ?w ?mt then ?mt else ?w) vs"
      using b that ts_less_lesseq_trans by (auto simp: below_ts_def list_all_iff ts_lesseq_iff [symmetric])
    show "[e] = [] \<or> (\<exists>t b. [e] = [(\<lparr>mk_Key = key, mk_Timestamp = t\<rparr>, b)] \<and> \<not> Timestamp_IsEmpty t \<and>
        Timestamp_EqOrdering t (if Timestamp_Less ?w ?mt then ?mt else ?w))"
      using e ne eq by (auto simp: Timestamp_EqOrdering_def)
  qed (use Some wv assms(2,4) reaches_write reaches_above e in \<open>auto simp: ts_less_imp_lesseq\<close>)
  consider (refused) "tx_ID mtxn \<noteq> tx_ID (tx_Meta txn) \<or> tx_Epoch (tx_Meta txn) < tx_Epoch mtxn"
    | (replay) "tx_ID mtxn = tx_ID (tx_Meta txn)" "tx_Epoch (tx_Meta txn) = tx_Epoch mtxn" "tx_Sequence (tx_Meta txn) \<le> tx_Sequence mtxn"
    | (proceed) "tx_ID mtxn = tx_ID (tx_Meta txn)" "\<not> tx_Epoch (tx_Meta txn) < tx_Epoch mtxn"
      "\<not> (tx_Epoch (tx_Meta txn) = tx_Epoch mtxn \<and> tx_Sequence (tx_Meta txn) \<le> tx_Sequence mtxn)" by linarith
  then show ?thesis
  proof cases
    case refused
    then show ?thesis using assms(8) Some by (auto simp add: put_over_intent_def split: if_splits)
  next
    case replay
    then show ?thesis using assms(3,8) Some by (auto simp add: put_over_intent_def replays_def dest!: or_fail_cases split: if_splits)
  next
    case proceed
    have fin: "put_done env key tstamp val fn opts vs err es'"
      if "put_version env (if Timestamp_Less ?mt ?w then store_clear es ?old else es) key v opts (if Timestamp_Less ?w ?mt then ?mt else ?w) hist al q None = Inr (r, err, es')"
        "apply_fn fn x val = Inr (Inr v)" for v hist al q x
      using that less [of v hist al q] ge [of v hist al q] ts_asym [of ?mt ?w] apply_fn_None [of x val v] by (auto split: if_splits)
    show ?thesis using assms(8) Some proceed
      by (auto simp: put_over_intent_def Let_def dest!: or_fail_cases intro: fin)
  qed
qed

definition stored_meta :: "writeEnv \<Rightarrow> store \<Rightarrow> MVCCMetadata option" where
  "stored_meta env es = (case es of [] \<Rightarrow> None | e # _ \<Rightarrow> if MVCCKey_IsValue (fst e) then None else we_unmarshalMeta env (snd e))"

lemma metadata_committed:
  assumes "list_all (\<lambda>e. mk_Key (fst e) = key \<and> MVCCKey_IsValue (fst e)) es"
    "mvccGetMetadata env False es (MakeMVCCMetadataKey key) = Inr meta"
  shows "case es of [] \<Rightarrow> meta = None
    | e # _ \<Rightarrow> (\<exists>m. meta = Some m \<and> meta_Txn m = None \<and> meta_RawBytes m = None \<and> LegacyTimestamp_ToTimestamp (meta_Timestamp m) = mk_Timestamp (fst e))"
proof -
  have "list_all (\<lambda>e. mk_Key (fst e) = key) es" using assms(1) by (simp add: list_all_iff)
  then show ?thesis using assms by (auto simp: mvccGetMetadata_def store_seek_meta res_simps emptyMeta_def split: list.splits)
qed

lemma entries_valid: "entries_ok es \<Longrightarrow> e \<in> set es \<Longrightarrow> valid_ts (mk_Timestamp (fst e))"
  by (simp add: entries_ok_def list_all_iff)

lemma put_over_committed:
  assumes "request_ok opts tstamp" "entries_ok es" "list_all (\<lambda>e. mk_Key (fst e) = key \<and> MVCCKey_IsValue (fst e)) es" "es = e # rest"
    "metaTs = mk_Timestamp (fst e)"
    "(if Timestamp_LessEq tstamp metaTs then put_too_old env es key val fn opts hist metaTs tstamp (write_ts opts tstamp)
      else or_fail (maybeGetValue env es key val True tstamp fn) es (\<lambda>(_, v). put_version env es key v opts (write_ts opts tstamp) hist False d None))
      = Inr (r, err, es')"
  shows "es' = es \<and> err \<noteq> None \<or> put_done env key tstamp val fn opts es err es'"
proof (cases "Timestamp_LessEq tstamp metaTs")
  case True
  then obtain n where n: "Timestamp_Next metaTs = Inr n"
    and run: "or_fail (maybeGetValue env es key val True (if wo_Txn opts = None then fwd (write_ts opts tstamp) n else tstamp) (Some (\<lambda>exVal. apply_fn fn exVal val))) es
      (\<lambda>(exVal, v). put_version env es key v opts (fwd (write_ts opts tstamp) n) hist False (IsPresent exVal)
        (Some (WriteTooOldError tstamp (fwd (write_ts opts tstamp) n) key))) = Inr (r, err, es')"
    using assms(6) by (auto simp: put_too_old_def res_simps Let_def)
  have nv: "Timestamp_Less metaTs n" "valid_ts n" using Next_above [OF n] entries_valid [OF assms(2), of e] assms(4,5) by simp_all
  have b: "below_ts key (fwd (write_ts opts tstamp) n) es"
    by (rule below_newest [OF assms(2-4)]) (use nv(1) assms(5) Forward_ge(2) ts_less_lesseq_trans in blast)
  have v: "valid_ts (fwd (write_ts opts tstamp) n)" using assms(1) nv(2) by (simp add: request_ok_def Forward_valid)
  have "put_done env key tstamp val fn opts es err es'"
    if "put_version env es key v opts (fwd (write_ts opts tstamp) n) hist False q (Some (WriteTooOldError tstamp (fwd (write_ts opts tstamp) n) key)) = Inr (r, err, es')"
      "fn = None \<Longrightarrow> v = val" for v q
    by (rule put_version_done [OF assms(1) b Forward_ge(1) v reaches_forward, where pre = "[]" and prov = "[]"]) (use that in simp_all)
  then show ?thesis using or_fail_cases [OF run] maybeGetValue_fn by fastforce
next
  case False
  then have run: "or_fail (maybeGetValue env es key val True tstamp fn) es (\<lambda>(_, v). put_version env es key v opts (write_ts opts tstamp) hist False d None)
      = Inr (r, err, es')" using assms(6) by simp
  have "Timestamp_Less metaTs tstamp" "Timestamp_LessEq tstamp (write_ts opts tstamp)"
    using False assms(1) by (simp add: ts_lesseq_iff, simp add: request_ok_def)
  then have "Timestamp_Less metaTs (write_ts opts tstamp)" by (rule ts_less_lesseq_trans)
  then have b: "below_ts key (write_ts opts tstamp) es" using below_newest [OF assms(2-4)] assms(5) by simp
  have v: "valid_ts (write_ts opts tstamp)" using assms(1) by (simp add: request_ok_def)
  have "put_done env key tstamp val fn opts es err es'"
    if "put_version env es key v opts (write_ts opts tstamp) hist False d None = Inr (r, err, es')" "fn = None \<Longrightarrow> v = val" for v
    by (rule put_version_done [OF assms(1) b ts_lesseq_refl v reaches_write, where pre = "[]" and prov = "[]"]) (use that in simp_all)
  then show ?thesis using or_fail_cases [OF run] maybeGetValue_None by fastforce
qed

lemma put_cases:
  assumes "store_ok env key es" "request_ok opts tstamp" "mvccPutInternal env False es key tstamp val vts fn opts = Inr (r, err, es')"
  shows "es' = es \<and> err \<noteq> None \<or> (es' = es \<and> replays opts (stored_meta env es) \<or> put_done env key tstamp val fn opts (committed_versions es) err es')"
proof -
  have ne: "\<not> Timestamp_IsEmpty tstamp" and wv: "valid_ts (write_ts opts tstamp)"
    using assms(2) positive_not_empty by (simp_all add: request_ok_def)
  have es: "entries_ok es" "list_all (\<lambda>e. mk_Key (fst e) = key) es" using assms(1) by (simp_all add: store_ok_def)
  consider "es' = es \<and> err \<noteq> None" | meta where "mvccGetMetadata env False es (MakeMVCCMetadataKey key) = Inr meta"
    "(case meta of
        None \<Rightarrow> or_fail (apply_fn fn None val) es (\<lambda>v. put_version env es key v opts (write_ts opts tstamp) [] False False None)
      | Some m \<Rightarrow> (case meta_Txn m of
          Some mtxn \<Rightarrow> put_over_intent env es key val fn opts m mtxn tstamp (write_ts opts tstamp)
        | None \<Rightarrow> (if Timestamp_LessEq tstamp (LegacyTimestamp_ToTimestamp (meta_Timestamp m))
            then put_too_old env es key val fn opts (meta_IntentHistory m) (LegacyTimestamp_ToTimestamp (meta_Timestamp m)) tstamp (write_ts opts tstamp)
            else or_fail (maybeGetValue env es key val True tstamp fn) es (\<lambda>(_, v).
              put_version env es key v opts (write_ts opts tstamp) (meta_IntentHistory m) False (\<not> meta_Deleted m) None)))) = Inr (r, err, es')"
    using assms(3) ne unfolding mvccPutInternal_def write_ts_def [symmetric] Let_def
    by (auto dest!: or_fail_cases simp: res_simps split: if_splits)
  then show ?thesis
  proof cases
    case (2 meta)
    from assms(1) show ?thesis
    proof (cases rule: store_shape)
      case committed
      note M = metadata_committed [OF committed(1) 2(1)]
      show ?thesis
      proof (cases es)
        case Nil
        have "put_done env key tstamp val fn opts [] err es'"
          if "put_version env [] key v opts (write_ts opts tstamp) [] False False None = Inr (r, err, es')" "apply_fn fn None val = Inr (Inr v)" for v
          by (rule put_version_done [OF assms(2) _ ts_lesseq_refl wv reaches_write, where pre = "[]" and prov = "[]"])
            (use that apply_fn_None in \<open>auto simp: below_ts_def\<close>)
        then show ?thesis using 2(2) M Nil by (auto simp: committed_versions_def dest!: or_fail_cases)
      next
        case (Cons e rest)
        then obtain m where m: "meta = Some m" "meta_Txn m = None" "LegacyTimestamp_ToTimestamp (meta_Timestamp m) = mk_Timestamp (fst e)"
          using M by auto
        have "es' = es \<and> err \<noteq> None \<or> put_done env key tstamp val fn opts es err es'"
          by (rule put_over_committed [OF assms(2) es(1) committed(1) Cons m(3)]) (use 2(2) m(1,2) in simp)
        then show ?thesis unfolding committed(2) by blast
      qed
    next
      case (intent b m mtxn e vs)
      have m: "meta = Some m" using 2(1) intent(1,3) es(2) by (auto simp: mvccGetMetadata_def store_seek_meta res_simps split: option.splits)
      have v: "valid_ts (mk_Timestamp (fst e))" using entries_valid [OF es(1), of e] intent(1) by simp
      have sm: "stored_meta env es = Some m" by (simp add: stored_meta_def intent(1,3))
      show ?thesis unfolding sm intent(10)
        by (rule put_over_intent_done [OF assms(2) intent(1,5) v intent(7,8,9)]) (use 2(2) m intent(5) in simp)
    qed
  qed simp
qed

lemma committed_suffix: "\<exists>n. committed_versions es = drop n es"
proof -
  have "committed_versions es = drop (case es of [] \<Rightarrow> 0 | e # _ \<Rightarrow> if MVCCKey_IsValue (fst e) then 0 else 2) es"
    by (simp add: committed_versions_def drop_Suc numeral_2_eq_2 split: list.split)
  then show ?thesis by blast
qed

lemma installed_ok:
  assumes "store_ok env key es" "below_ts key ts (committed_versions es)" "valid_ts ts" "\<not> Timestamp_IsEmpty ts" "reaches opts ts"
    "\<And>txn. wo_Txn opts = Some txn \<Longrightarrow> we_marshalMeta env (new_meta env (bumped_txnMeta (tx_Meta txn) ts) hist ts v al) \<noteq> [] \<and>
      we_unmarshalMeta env (we_marshalMeta env (new_meta env (bumped_txnMeta (tx_Meta txn) ts) hist ts v al)) =
        Some (new_meta env (bumped_txnMeta (tx_Meta txn) ts) hist ts v al)"
  shows "store_ok env key (installed env key opts ts hist al v (committed_versions es))"
proof -
  let ?vs = "committed_versions es" and ?k = "\<lparr>mk_Key = key, mk_Timestamp = ts\<rparr>"
  obtain n where n: "?vs = drop n es" using committed_suffix by blast
  have vs: "entries_ok ?vs" "list_all (\<lambda>e. mk_Key (fst e) = key) ?vs"
    using assms(1) unfolding n by (auto simp: store_ok_def entries_ok_def drop_map [symmetric] list_all_iff sorted_wrt_drop dest: in_set_dropD)
  have less: "MVCCKey_Less ?k (fst x)" "MVCCKey_Less (MakeMVCCMetadataKey key) (fst x)" if "x \<in> set ?vs" for x
    using assms(2,4) that by (simp_all add: below_ts_def list_all_iff same_key_values)
  have meta: "MVCCKey_Less (MakeMVCCMetadataKey key) ?k" "valid_ts (mk_Timestamp (MakeMVCCMetadataKey key))"
    using assms(4) by (simp add: same_key_less version_key_value, simp add: MakeMVCCMetadataKey_def valid_ts_def in64_def in32_def go_limits)
  show ?thesis
  proof (cases "wo_Txn opts")
    case None
    then show ?thesis using vs less assms(3,4) by (auto simp: store_ok_def installed_def entries_ok_def version_key_value)
  next
    case (Some txn)
    then have "intent_ok env (we_marshalMeta env (new_meta env (bumped_txnMeta (tx_Meta txn) ts) hist ts v al)) ((?k, x) # ?vs)" for x
      using assms(5,6) by (simp add: intent_ok_def reaches_def)
    then show ?thesis using Some vs less meta assms(3) by (auto simp: store_ok_def installed_def entries_ok_def)
  qed
qed

lemma installed_committed:
  "\<not> Timestamp_IsEmpty ts \<Longrightarrow> committed_versions (installed env key opts ts hist al v vs) =
    (case wo_Txn opts of None \<Rightarrow> (\<lparr>mk_Key = key, mk_Timestamp = ts\<rparr>, EncodeMVCCValue (we_marshalHeader env) v) # vs | Some _ \<Rightarrow> vs)"
  by (simp add: installed_def committed_versions_def version_key_value split: option.split)

section \<open>The property\<close>

text \<open>An intent of another transaction, and metadata that survives marshalling.\<close>

definition foreign :: "MVCCWriteOptions \<Rightarrow> MVCCMetadata option \<Rightarrow> bool" where
  "foreign opts meta \<longleftrightarrow> (case meta of None \<Rightarrow> False | Some m \<Rightarrow>
     (case (wo_Txn opts, meta_Txn m) of (Some txn, Some mtxn) \<Rightarrow> tx_ID mtxn \<noteq> tx_ID (tx_Meta txn) | (None, Some _) \<Rightarrow> True | _ \<Rightarrow> False))"

definition metas_decode :: "writeEnv \<Rightarrow> bytes \<Rightarrow> store \<Rightarrow> bool" where
  "metas_decode env key es \<longleftrightarrow> (\<forall>m. (MakeMVCCMetadataKey key, we_marshalMeta env m) \<in> set es \<longrightarrow>
     we_marshalMeta env m \<noteq> [] \<and> we_unmarshalMeta env (we_marshalMeta env m) = Some m)"

lemma intent_untouched:
  assumes "store_ok env key es" "foreign opts (stored_meta env es) \<or> replays opts (stored_meta env es)" "\<not> Timestamp_IsEmpty tstamp"
    "mvccPutInternal env False es key tstamp val vts fn opts = Inr (r, err, es')"
  shows "es' = es \<and> (foreign opts (stored_meta env es) \<longrightarrow> err \<noteq> None)"
  using assms(1)
proof (cases rule: store_shape)
  case committed
  then have "stored_meta env es = None" by (cases es) (simp_all add: stored_meta_def)
  then show ?thesis using assms(2) by (simp add: foreign_def replays_def)
next
  case (intent b m mtxn e vs)
  have keys: "list_all (\<lambda>e. mk_Key (fst e) = key) es" using assms(1) by (simp add: store_ok_def)
  have m: "stored_meta env es = Some m" "mvccGetMetadata env False es (MakeMVCCMetadataKey key) = Inr (Some m)"
    by (simp add: stored_meta_def intent(1,3), simp add: mvccGetMetadata_def store_seek_meta [OF keys], simp add: intent(1,3))
  consider "es' = es \<and> err \<noteq> None" | w where "put_over_intent env es key val fn opts m mtxn tstamp w = Inr (r, err, es')"
    using assms(3,4) unfolding mvccPutInternal_def m by (auto simp: or_fail_def intent(5) Let_def split: if_splits)
  then show ?thesis
  proof cases
    case 2
    show ?thesis
    proof (cases "wo_Txn opts")
      case None
      then show ?thesis using 2 by (auto simp: put_over_intent_def)
    next
      case (Some txn)
      then show ?thesis using 2 assms(2)
        by (auto simp: put_over_intent_def m foreign_def replays_def intent(5) dest!: or_fail_cases split: if_splits)
    qed
  qed simp
qed

section \<open>A put above every version\<close>

lemma put_version_runs:
  assumes "reaches opts ts" "\<not> Synthetic (wo_LocalTimestamp opts)"
  shows "\<exists>es'. put_version env es key val opts ts hist al r err = Inr (r, err, es')"
proof -
  obtain v where "written_value (we_shouldWriteLocalTimestamps env) val (wo_LocalTimestamp opts) ts = Inr v"
    using assms(2) by (cases "Timestamp_IsEmpty (wo_LocalTimestamp opts)") (simp_all add: written_value_def LocalTimestampNeeded_def ClockTimestamp_ToTimestamp_def Let_def)
  then show ?thesis using assms(1)
    by (cases "wo_Txn opts") (simp_all add: put_version_def putIntentMeta_def reaches_def)
qed

definition put_allowed :: "writeEnv \<Rightarrow> bytes \<Rightarrow> Timestamp \<Rightarrow> Timestamp \<Rightarrow> MVCCWriteOptions \<Rightarrow> store \<Rightarrow> bool" where
  "put_allowed env key tstamp vts opts es \<longleftrightarrow> key \<noteq> [] \<and> Timestamp_IsEmpty vts \<and> \<not> Synthetic (wo_LocalTimestamp opts) \<and>
     (case wo_Txn opts of None \<Rightarrow> \<not> wo_ReplayWriteTimestampProtection opts | Some txn \<Rightarrow> tx_ReadTimestamp txn = tstamp) \<and>
     below_ts key tstamp es \<and> (\<forall>e\<in>set es. \<exists>b. EncodedMVCCValueIsTombstone (snd e) = Inr b)"

lemma metadata_newest:
  assumes "below_ts key ts es" "\<forall>e\<in>set es. \<exists>b. EncodedMVCCValueIsTombstone (snd e) = Inr b"
  shows "\<exists>meta. mvccGetMetadata env False es (MakeMVCCMetadataKey key) = Inr meta \<and>
    (case es of [] \<Rightarrow> meta = None
     | e # _ \<Rightarrow> (\<exists>m. meta = Some m \<and> meta_Txn m = None \<and> meta_RawBytes m = None \<and> meta_IntentHistory m = [] \<and>
         Timestamp_Less (LegacyTimestamp_ToTimestamp (meta_Timestamp m)) ts \<and> EncodedMVCCValueIsTombstone (snd e) = Inr (meta_Deleted m)))"
proof -
  have "list_all (\<lambda>e. mk_Key (fst e) = key) es" using assms(1) by (simp add: below_ts_def list_all_iff)
  then show ?thesis using assms
    by (cases es) (auto simp: mvccGetMetadata_def store_seek_meta emptyMeta_def below_ts_def)
qed

lemma put_above_succeeds:
  assumes req: "request_ok opts tstamp" and ok: "put_allowed env key tstamp vts opts es"
  shows "\<exists>r v. mvccPutInternal env False es key tstamp val vts None opts =
      Inr (r, None, installed env key opts (write_ts opts tstamp) [] False v es) \<and> mv_RawBytes v = val \<and>
      (r \<longleftrightarrow> (\<exists>e rest. es = e # rest \<and> EncodedMVCCValueIsTombstone (snd e) = Inr False))"
proof -
  let ?w = "write_ts opts tstamp"
  have ne: "\<not> Timestamp_IsEmpty tstamp" "0 \<le> WallTime tstamp" and le: "Timestamp_LessEq tstamp ?w"
    using req positive_not_empty by (auto simp: request_ok_def Timestamp_Less_def)
  have "Timestamp_Less (mkTs 0 0) ?w" using req ts_less_lesseq_trans unfolding request_ok_def by blast
  then have wne: "\<not> Timestamp_IsEmpty ?w" by (rule positive_not_empty)
  have b: "below_ts key tstamp es" and t: "\<forall>e\<in>set es. \<exists>b. EncodedMVCCValueIsTombstone (snd e) = Inr b"
    and syn: "\<not> Synthetic (wo_LocalTimestamp opts)" using ok by (simp_all add: put_allowed_def)
  have bw: "below_ts key ?w es" using b ts_less_lesseq_trans [OF _ le] by (auto simp: below_ts_def list_all_iff)
  obtain meta where g: "mvccGetMetadata env False es (MakeMVCCMetadataKey key) = Inr meta"
    and m: "case es of [] \<Rightarrow> meta = None
     | e # _ \<Rightarrow> (\<exists>m. meta = Some m \<and> meta_Txn m = None \<and> meta_RawBytes m = None \<and> meta_IntentHistory m = [] \<and>
         Timestamp_Less (LegacyTimestamp_ToTimestamp (meta_Timestamp m)) tstamp \<and> EncodedMVCCValueIsTombstone (snd e) = Inr (meta_Deleted m))"
    using metadata_newest [OF b t] by blast
  define q where "q \<longleftrightarrow> (\<exists>e rest. es = e # rest \<and> EncodedMVCCValueIsTombstone (snd e) = Inr False)"
  have txn: "\<not> (wo_ReplayWriteTimestampProtection opts \<and> wo_Txn opts = None)"
    "\<not> (case wo_Txn opts of None \<Rightarrow> False | Some txn \<Rightarrow> tx_ReadTimestamp txn \<noteq> tstamp)"
    using ok by (auto simp: put_allowed_def split: option.splits)
  have run: "mvccPutInternal env False es key tstamp val vts None opts = put_version env es key val opts ?w [] False q None"
  proof (cases es)
    case Nil
    then have "meta = None" "\<not> q" using m by (simp_all add: q_def)
    then show ?thesis using ok ne txn g
      by (auto simp: mvccPutInternal_def put_allowed_def or_fail_def apply_fn_def write_ts_def [symmetric] Let_def)
  next
    case (Cons e rest)
    then obtain x where x: "meta = Some x" "meta_Txn x = None" "meta_RawBytes x = None" "meta_IntentHistory x = []"
      "\<not> Timestamp_LessEq tstamp (LegacyTimestamp_ToTimestamp (meta_Timestamp x))" "q \<longleftrightarrow> \<not> meta_Deleted x"
      using m by (auto simp: q_def ts_lesseq_iff)
    then show ?thesis using ok ne txn g
      by (auto simp: mvccPutInternal_def put_allowed_def or_fail_def maybeGetValue_def IsInline_def write_ts_def [symmetric] Let_def)
  qed
  obtain es' where es': "put_version env es key val opts ?w [] False q None = Inr (q, None, es')"
    using put_version_runs [OF reaches_write syn] by blast
  from put_version_installs [OF bw wne, where pre = "[]" and prov = "[]", simplified, OF reaches_write es']
  show ?thesis unfolding run es' q_def [symmetric] using written_raw by metis
qed

text \<open>
  C7. On well-formed entries of a key, with a positive timestamp that is not above the write timestamp, a put
  leaves the entries as they are when it fails, when there is an intent of another
  transaction (which is an error), and when it replays a write of its own transaction. Otherwise it installs one version, at
  or above the request's write timestamp and above every committed version, of which none is changed or lost, and returns no
  error or a write-too-old error with the timestamp it wrote at; a transactional write replaces the intent and its provisional
  version, any other one commits. The entries stay well-formed: in order, with an intent only on top of its provisional
  version. A put at a timestamp above every version of a key without an intent succeeds: it installs its value at
  exactly its write timestamp, and says whether the key had a value.
\<close>

theorem put_installs_newest:
  assumes "store_ok env key es" "request_ok opts tstamp"
  shows "(\<forall>r err es'. mvccPutInternal env False es key tstamp val vts fn opts = Inr (r, err, es') \<longrightarrow>
     (foreign opts (stored_meta env es) \<longrightarrow> es' = es \<and> err \<noteq> None) \<and> (replays opts (stored_meta env es) \<longrightarrow> es' = es) \<and>
     (metas_decode env key es' \<longrightarrow> store_ok env key es') \<and>
     (es' = es \<and> err \<noteq> None \<or> es' = es \<and> replays opts (stored_meta env es) \<or>
      (\<exists>ts v hist al. es' = installed env key opts ts hist al v (committed_versions es) \<and> below_ts key ts (committed_versions es) \<and>
        Timestamp_LessEq (write_ts opts tstamp) ts \<and> (fn = None \<longrightarrow> mv_RawBytes v = val) \<and>
        (err = None \<or> err = Some (WriteTooOldError tstamp ts key)) \<and>
        committed_versions es' = (case wo_Txn opts of
            None \<Rightarrow> (\<lparr>mk_Key = key, mk_Timestamp = ts\<rparr>, EncodeMVCCValue (we_marshalHeader env) v) # committed_versions es
          | Some _ \<Rightarrow> committed_versions es)))) \<and>
    (put_allowed env key tstamp vts opts es \<longrightarrow>
      (\<exists>r v. mvccPutInternal env False es key tstamp val vts None opts =
         Inr (r, None, installed env key opts (write_ts opts tstamp) [] False v es) \<and> mv_RawBytes v = val \<and>
         (r \<longleftrightarrow> (\<exists>e rest. es = e # rest \<and> EncodedMVCCValueIsTombstone (snd e) = Inr False))))"
proof (intro conjI allI impI)
  fix r err es' assume run: "mvccPutInternal env False es key tstamp val vts fn opts = Inr (r, err, es')"
  have ne: "\<not> Timestamp_IsEmpty tstamp" using assms(2) positive_not_empty by (simp add: request_ok_def)
  note untouched = intent_untouched [OF assms(1) _ ne run]
  from put_cases [OF assms run] consider "es' = es" "err \<noteq> None \<or> replays opts (stored_meta env es)"
    | ts v hist al where "es' = installed env key opts ts hist al v (committed_versions es)" "below_ts key ts (committed_versions es)"
      "Timestamp_LessEq (write_ts opts tstamp) ts" "valid_ts ts" "reaches opts ts" "fn = None \<longrightarrow> mv_RawBytes v = val"
      "err = None \<or> err = Some (WriteTooOldError tstamp ts key)" unfolding put_done_def by blast
  note cases = this
  have "(metas_decode env key es' \<longrightarrow> store_ok env key es') \<and> (es' = es \<and> err \<noteq> None \<or> es' = es \<and> replays opts (stored_meta env es) \<or>
      (\<exists>ts v hist al. es' = installed env key opts ts hist al v (committed_versions es) \<and> below_ts key ts (committed_versions es) \<and>
        Timestamp_LessEq (write_ts opts tstamp) ts \<and> (fn = None \<longrightarrow> mv_RawBytes v = val) \<and>
        (err = None \<or> err = Some (WriteTooOldError tstamp ts key)) \<and>
        committed_versions es' = (case wo_Txn opts of
            None \<Rightarrow> (\<lparr>mk_Key = key, mk_Timestamp = ts\<rparr>, EncodeMVCCValue (we_marshalHeader env) v) # committed_versions es
          | Some _ \<Rightarrow> committed_versions es)))"
    using cases
  proof cases
    case 1
    then show ?thesis using assms(1) by blast
  next
    case (2 ts v hist al)
    have "Timestamp_Less (mkTs 0 0) ts" using assms(2) 2(3) ts_less_lesseq_trans ts_lesseq_trans unfolding request_ok_def by blast
    then have ts: "\<not> Timestamp_IsEmpty ts" by (rule positive_not_empty)
    have "store_ok env key es'" if "metas_decode env key es'"
      unfolding 2(1) using that by (intro installed_ok [OF assms(1) 2(2,4) ts 2(5)]) (auto simp: metas_decode_def 2(1) installed_def)
    moreover have "committed_versions es' = (case wo_Txn opts of
            None \<Rightarrow> (\<lparr>mk_Key = key, mk_Timestamp = ts\<rparr>, EncodeMVCCValue (we_marshalHeader env) v) # committed_versions es
          | Some _ \<Rightarrow> committed_versions es)" unfolding 2(1) by (rule installed_committed [OF ts])
    ultimately show ?thesis using 2(1-3,6,7) by blast
  qed
  then show "metas_decode env key es' \<Longrightarrow> store_ok env key es'"
    "es' = es \<and> err \<noteq> None \<or> es' = es \<and> replays opts (stored_meta env es) \<or>
      (\<exists>ts v hist al. es' = installed env key opts ts hist al v (committed_versions es) \<and> below_ts key ts (committed_versions es) \<and>
        Timestamp_LessEq (write_ts opts tstamp) ts \<and> (fn = None \<longrightarrow> mv_RawBytes v = val) \<and>
        (err = None \<or> err = Some (WriteTooOldError tstamp ts key)) \<and>
        committed_versions es' = (case wo_Txn opts of
            None \<Rightarrow> (\<lparr>mk_Key = key, mk_Timestamp = ts\<rparr>, EncodeMVCCValue (we_marshalHeader env) v) # committed_versions es
          | Some _ \<Rightarrow> committed_versions es))" by blast+
  show "es' = es" "err \<noteq> None" if "foreign opts (stored_meta env es)" using untouched that by blast+
  show "es' = es" if "replays opts (stored_meta env es)" using untouched that by blast
qed (rule put_above_succeeds [OF assms(2)])

text \<open>A concrete environment: one metadata record is known, and headers have a fixed width.\<close>

definition example_env :: "MVCCMetadata \<Rightarrow> writeEnv" where
  "example_env m = \<lparr>we_unmarshalMeta = (\<lambda>b. if b = [1] then Some m else None), we_marshalMeta = (\<lambda>x. if x = m then [1] else []),
     we_unmarshalHeader = (\<lambda>b. Some \<lparr>h_LocalTimestamp = \<lparr>WallTime = wrap64 (be_value (take 8 b)),
        Logical = wrap32 (be_value (take 4 (drop 8 b))), Synthetic = (b ! 12 = 1)\<rparr>\<rparr>),
     we_marshalHeader = (\<lambda>h. be_bytes 8 (WallTime (h_LocalTimestamp h)) @ be_bytes 4 (Logical (h_LocalTimestamp h)) @
        [if Synthetic (h_LocalTimestamp h) then 1 else 0]), we_grow = (\<lambda>r k v. True), we_shouldWriteLocalTimestamps = False\<rparr>"

definition example_opts :: "Transaction option \<Rightarrow> MVCCWriteOptions" where
  "example_opts txn = \<lparr>wo_Txn = txn, wo_LocalTimestamp = mkTs 0 0, wo_ReplayWriteTimestampProtection = False\<rparr>"

theorem put_installs_newest_witness:
  "\<exists>es'. mvccPutInternal (example_env emptyMeta) False [(\<lparr>mk_Key = [1], mk_Timestamp = mkTs 3 0\<rparr>, [0, 0, 0, 0, 3, 66])] [1] (mkTs 5 0)
      [0, 0, 0, 0, 3, 67] (mkTs 0 0) None (example_opts None) = Inr (True, None, es') \<and>
    store_ok (example_env emptyMeta) [1] es' \<and> length (committed_versions es') = 2"
proof -
  let ?e = "example_env emptyMeta" and ?es = "[(\<lparr>mk_Key = [1], mk_Timestamp = mkTs 3 0\<rparr>, [0, 0, 0, 0, 3, 66])] :: store"
  let ?es' = "(\<lparr>mk_Key = [1], mk_Timestamp = mkTs 5 0\<rparr>, [0, 0, 0, 0, 3, 67]) # ?es"
  have ok: "store_ok ?e [1] ?es"
    by (simp add: store_ok_def entries_ok_def MVCCKey_IsValue_def Timestamp_IsEmpty_def valid_ts_def in64_def in32_def go_limits)
  have req: "request_ok (example_opts None) (mkTs 5 0)"
    by (simp add: request_ok_def write_ts_def example_opts_def valid_ts_def in64_def in32_def go_limits Timestamp_Less_def)
  have run: "mvccPutInternal ?e False ?es [1] (mkTs 5 0) [0, 0, 0, 0, 3, 67] (mkTs 0 0) None (example_opts None) = Inr (True, None, ?es')"
    by (simp add: mvccPutInternal_def mvccGetMetadata_def store_seek_meta or_fail_def IsInline_def emptyMeta_def maybeGetValue_def put_version_def
        written_value_def LocalTimestampNeeded_def EncodeMVCCValue_def Header_IsEmpty_def noHeader_def EncodedMVCCValueIsTombstone_def value_sizes
        store_put_def same_key_less version_key_value example_env_def example_opts_def Timestamp_IsEmpty_def Timestamp_LessEq_def Timestamp_Less_def)
  have "metas_decode ?e [1] ?es'" by (simp add: metas_decode_def MakeMVCCMetadataKey_def)
  then have "store_ok ?e [1] ?es'" using put_installs_newest [OF ok req] run by blast
  then show ?thesis using run by (simp add: committed_versions_def MVCCKey_IsValue_def Timestamp_IsEmpty_def)
qed

end
