(* ===== verification/Put_Replay.thy ===== *)
theory Put_Replay
  imports Put_Store
begin

text \<open>
  A transaction reads its own write back, and a put that is run again changes nothing.
\<close>

section \<open>Reading one value\<close>

lemma get_add:
  assumes "\<forall>r k v. we_grow env r k v" and c: "c = get_options env es key ts txn False"
  defines "s0 \<equiv> sc_out (scanner_start c pr_clear)"
  shows "\<exists>r. scanner_add c k rk v s0 = Inr ((False, True), s0\<lparr>sc_results := r, sc_resumeReason := RESUME_KEY_LIMIT\<rparr>) \<and>
    fst (pr_repr r) = enc_kv (rk, v)"
  using assms(1) unfolding s0_def c
  by (simp add: scanner_add_def add_limits_def add_put_def get_options_def scanner_start_def pr_clear_def sizeInfo_def put_def put_append_def
      put_newSize_def pebbleResultsKVSizeOf_def pebbleResultsKVLenSize_def enc_kv_def Let_def)

lemma groups_one: "es \<noteq> [] \<Longrightarrow> list_all (\<lambda>e. mk_Key (fst e) = key) es \<Longrightarrow> groups (dropWhile (\<lambda>e. mk_Key (fst e) < key) es) = [es]"
proof (cases es)
  case (Cons e rest)
  assume "list_all (\<lambda>e. mk_Key (fst e) = key) es"
  then have "mk_Key (fst e) = key" "dropWhile (\<lambda>x. mk_Key (fst x) = key) rest = []" "takeWhile (\<lambda>x. mk_Key (fst x) = key) rest = rest"
    by (simp_all add: Cons list_all_iff takeWhile_eq_all_conv)
  then show ?thesis unfolding Cons by (simp del: dropWhile_eq_Nil_conv)
qed simp

text \<open>A read of the version that the first action on the key seeks.\<close>

lemma get_version:
  fixes env es key tstamp txn
  defines "c \<equiv> get_options env es key tstamp txn False"
  defines "s0 \<equiv> sc_out (scanner_start c pr_clear)"
  assumes "\<forall>r k v. we_grow env r k v" "entries_ok es" "list_all (\<lambda>e. mk_Key (fst e) = key) es" "es = (k, b) # (\<lparr>mk_Key = key, mk_Timestamp = ts\<rparr>, x) # vs"
    "getOne_action c k (EncodeMVCCKey k) b s0 = Inr (SeekTo ts False s0)" "\<not> Timestamp_IsEmpty ts"
    "DecodeMVCCValue (we_unmarshalHeader env) x = Inr v" "key \<noteq> []" "0 \<le> WallTime tstamp"
    "small_kv (EncodeMVCCKey \<lparr>mk_Key = key, mk_Timestamp = ts\<rparr>, mv_RawBytes v)"
  shows "mvccGet env es key tstamp txn False = Inr (Inr (Some (mv_RawBytes v)))"
proof -
  let ?k = "\<lparr>mk_Key = key, mk_Timestamp = ts\<rparr>"
  have cf: "so_parent c = es" "so_start c = key" "so_unmarshalHeader c = we_unmarshalHeader env" "so_inconsistent c = False" "so_skipLocked c = False"
    by (simp_all add: c_def get_options_def)
  have sf: "sc_err s0 = None" "Timestamp_IsEmpty (sc_mostRecentTS s0)" "sc_intents s0 = []"
    by (simp_all add: s0_def scanner_start_def Timestamp_IsEmpty_def)
  have s0: "s0\<lparr>sc_err := None\<rparr> = s0" using sf(1) by simp
  obtain r where add: "scanner_add c key (EncodeMVCCKey ?k) (mv_RawBytes v) s0 = Inr ((False, True), s0\<lparr>sc_results := r, sc_resumeReason := RESUME_KEY_LIMIT\<rparr>)"
    and r: "fst (pr_repr r) = enc_kv (EncodeMVCCKey ?k, mv_RawBytes v)"
    using get_add [OF assms(3) c_def [THEN meta_eq_to_obj_eq], of key "EncodeMVCCKey ?k" "mv_RawBytes v"] unfolding s0_def by blast
  let ?s = "s0\<lparr>sc_results := r, sc_resumeReason := RESUME_KEY_LIMIT\<rparr>"
  have "check_version c False ?k (EncodeMVCCKey ?k) x s0 = Inr (Some (False, True), ?s)"
    using add by (simp add: check_version_def cf assms(9) s0)
  then have one: "ref_getOne c es s0 = Inr ((False, True), ?s)"
    using assms(6-8) by (simp add: ref_getOne_def)
  have "scanner_get c (scanner_start c pr_clear) = res_bind (ref_getOne c es s0) (\<lambda>(_, s). maybeFailOnMoreRecent c s)"
    using scanner_get_agrees [of c "scanner_start c pr_clear"] groups_one [OF _ assms(5)] assms(4,6)
    by (simp add: cf s0_def [symmetric] sf) (simp add: scanner_start_def)
  then have get: "scanner_get c (scanner_start c pr_clear) = Inr ?s" by (simp add: one maybeFailOnMoreRecent_def sf)
  have valid: "valid_ts ts" using entries_valid [OF assms(4), of "(?k, x)"] assms(6) by simp
  have d: "DecodeKey (EncodeMVCCKey ?k) = Inr (key, ts)" using DecodeKey_EncodeMVCCKey [of ?k] valid by simp
  have "length (enc_kv (EncodeMVCCKey ?k, mv_RawBytes v)) < 2 ^ 32" using assms(12) by (simp add: enc_kv_def small_kv_def)
  then have dec: "ScanDecodeKeyValue (fst (pr_repr r)) = Inr (key, ts, mv_RawBytes v, [])"
    using ScanDecodeKeyValue_enc [OF assms(12), of "[]" key ts] d r by simp
  have "fst (pr_repr r) \<noteq> []" using r by (simp add: enc_kv_def PutUint32_def)
  then show ?thesis using assms(10,11) get dec
    by (simp add: mvccGet_def c_def [symmetric] sf errOnIntents_def Let_def)
qed

section \<open>Own writes\<close>

lemma Prev_positive: "Timestamp_Less (mkTs 0 0) ts \<Longrightarrow> \<exists>p. Timestamp_Prev ts = Inr p"
  by (auto simp: Timestamp_Prev_def Timestamp_Less_def)

lemma bumped_same [simp]:
  "tx_ID (bumped_txnMeta m ts) = tx_ID m" "tx_Epoch (bumped_txnMeta m ts) = tx_Epoch m" "tx_Sequence (bumped_txnMeta m ts) = tx_Sequence m"
  by (simp_all add: bumped_txnMeta_def)

lemma own_intent_action:
  assumes "m = new_meta env (bumped_txnMeta (tx_Meta txn) ts) hist ts v al" "b \<noteq> []" "we_unmarshalMeta env b = Some m"
    "Timestamp_Less (mkTs 0 0) ts" "\<not> TxnSeqIsIgnored (tx_Sequence (tx_Meta txn)) (tx_IgnoredSeqNums txn)"
  shows "getOne_action (get_options env es key tstamp (Some txn) False) (MakeMVCCMetadataKey key) rk b s = Inr (SeekTo ts False s)"
proof -
  have "Timestamp_IsEmpty (mk_Timestamp (MakeMVCCMetadataKey key))" by (simp add: MakeMVCCMetadataKey_def Timestamp_IsEmpty_def)
  moreover obtain p where "Timestamp_Prev ts = Inr p" using Prev_positive [OF assms(4)] by blast
  ultimately show ?thesis using assms(2,3,5)
    by (simp add: getOne_action_def getOne_meta_def get_options_def own_intent_def assms(1) Let_def)
qed

text \<open>The conditions on a transactional write that was installed.\<close>

definition own_write :: "writeEnv \<Rightarrow> bytes \<Rightarrow> MVCCWriteOptions \<Rightarrow> Transaction \<Rightarrow> store \<Rightarrow> Timestamp \<Rightarrow> MVCCMetadata \<Rightarrow> MVCCValue \<Rightarrow> bool" where
  "own_write env key opts txn es ts m v \<longleftrightarrow> wo_Txn opts = Some txn \<and> store_ok env key es \<and> Timestamp_Less (mkTs 0 0) ts \<and> reaches opts ts \<and>
     we_marshalMeta env m \<noteq> [] \<and> we_unmarshalMeta env (we_marshalMeta env m) = Some m \<and>
     DecodeMVCCValue (we_unmarshalHeader env) (EncodeMVCCValue (we_marshalHeader env) v) = Inr v \<and>
     (\<exists>hist al vs. m = new_meta env (bumped_txnMeta (tx_Meta txn) ts) hist ts v al \<and> es = installed env key opts ts hist al v vs) \<and>
     (\<forall>r k v. we_grow env r k v) \<and> small_kv (EncodeMVCCKey \<lparr>mk_Key = key, mk_Timestamp = ts\<rparr>, mv_RawBytes v) \<and>
     \<not> TxnSeqIsIgnored (tx_Sequence (tx_Meta txn)) (tx_IgnoredSeqNums txn)"

lemma get_own_write:
  assumes "own_write env key opts txn es ts m v" "key \<noteq> []" "0 \<le> WallTime tstamp"
  shows "mvccGet env es key tstamp (Some txn) False = Inr (Inr (Some (mv_RawBytes v)))"
proof -
  obtain hist al vs where m: "m = new_meta env (bumped_txnMeta (tx_Meta txn) ts) hist ts v al"
    and es: "es = (MakeMVCCMetadataKey key, we_marshalMeta env m) # (\<lparr>mk_Key = key, mk_Timestamp = ts\<rparr>, EncodeMVCCValue (we_marshalHeader env) v) # vs"
    using assms(1) by (auto simp: own_write_def installed_def)
  have ok: "entries_ok es" "list_all (\<lambda>e. mk_Key (fst e) = key) es" "\<forall>r k v. we_grow env r k v" "\<not> Timestamp_IsEmpty ts"
    using assms(1) positive_not_empty by (auto simp: own_write_def store_ok_def)
  show ?thesis
    by (rule get_version [OF ok(3,1,2) es own_intent_action [OF m] ok(4)]) (use assms in \<open>simp_all add: own_write_def\<close>)
qed

lemma put_again:
  assumes "own_write env key opts txn es ts m v" "key \<noteq> []" "0 \<le> WallTime tstamp" "\<not> Timestamp_IsEmpty tstamp" "Timestamp_IsEmpty vts"
    "tx_ReadTimestamp txn = tstamp"
  shows "mvccPutInternal env False es key tstamp (mv_RawBytes v) vts None opts =
    Inr (False, if wo_ReplayWriteTimestampProtection opts \<and> tx_WriteTimestamp (tx_Meta txn) \<noteq> ts
      then Some (OtherError ''prevented from changing write timestamp due to ambiguous replay protection'') else None, es)"
proof -
  obtain hist al vs where m: "m = new_meta env (bumped_txnMeta (tx_Meta txn) ts) hist ts v al"
    and es: "es = (MakeMVCCMetadataKey key, we_marshalMeta env m) # (\<lparr>mk_Key = key, mk_Timestamp = ts\<rparr>, EncodeMVCCValue (we_marshalHeader env) v) # vs"
    using assms(1) by (auto simp: own_write_def installed_def)
  have keys: "list_all (\<lambda>e. mk_Key (fst e) = key) es" and txn: "wo_Txn opts = Some txn" and u: "we_unmarshalMeta env (we_marshalMeta env m) = Some m"
    and reach: "tx_WriteTimestamp (bumped_txnMeta (tx_Meta txn) ts) = ts"
    using assms(1) by (auto simp: own_write_def store_ok_def reaches_def)
  have meta: "mvccGetMetadata env False es (MakeMVCCMetadataKey key) = Inr (Some m)"
    using u by (simp add: mvccGetMetadata_def store_seek_meta [OF keys], simp add: es)
  have "replayTransactionalWrite env es m (bumped_txnMeta (tx_Meta txn) ts) key tstamp (mv_RawBytes v) txn None p =
      (if p \<and> tx_WriteTimestamp (tx_Meta txn) \<noteq> ts then Inr (Inl (OtherError ''prevented from changing write timestamp due to ambiguous replay protection''))
       else Inr (Inr ()))" for p
    using get_own_write [OF assms(1-3)] reach by (simp add: replayTransactionalWrite_def replayed_value_def sum_bind_def apply_fn_def)
  moreover have "meta_Txn m = Some (bumped_txnMeta (tx_Meta txn) ts)" "\<not> IsInline m" by (simp_all add: m IsInline_def)
  ultimately show ?thesis using assms(2-6) txn meta
    by (simp add: mvccPutInternal_def or_fail_def put_over_intent_def)
qed

section \<open>The property\<close>

text \<open>What a value needs to survive a round trip through the store and a read.\<close>

definition storable :: "writeEnv \<Rightarrow> MVCCWriteOptions \<Rightarrow> bytes \<Rightarrow> bytes \<Rightarrow> bool" where
  "storable env opts key val \<longleftrightarrow> header_codec (we_marshalHeader env) (we_unmarshalHeader env) \<and> valid_ts (wo_LocalTimestamp opts) \<and>
     (val = [] \<or> length val > value_tagPos \<and> val ! value_tagPos \<noteq> extendedEncodingSentinel) \<and> length key + length val < 2 ^ 31 \<and>
     (\<forall>r k v. we_grow env r k v)"

lemma key_size: "length (EncodeMVCCKey k) \<le> length (mk_Key k) + 15"
  by (simp add: EncodeMVCCKey_eq suffix_bytes_def ts_bytes_def)

lemma written_storable:
  assumes "storable env opts key val" "written_value w val (wo_LocalTimestamp opts) ts = Inr v"
  shows "DecodeMVCCValue (we_unmarshalHeader env) (EncodeMVCCValue (we_marshalHeader env) v) = Inr v"
    "small_kv (EncodeMVCCKey \<lparr>mk_Key = key, mk_Timestamp = ts\<rparr>, mv_RawBytes v)"
proof -
  have "mv_RawBytes v = val" "valid_ts (h_LocalTimestamp (mv_Header v))"
    using assms by (auto simp: written_value_def storable_def noHeader_def valid_ts_def in64_def in32_def go_limits res_simps Let_def split: if_splits)
  then show "DecodeMVCCValue (we_unmarshalHeader env) (EncodeMVCCValue (we_marshalHeader env) v) = Inr v"
    "small_kv (EncodeMVCCKey \<lparr>mk_Key = key, mk_Timestamp = ts\<rparr>, mv_RawBytes v)"
    using assms(1) decode_encoded key_size [of "\<lparr>mk_Key = key, mk_Timestamp = ts\<rparr>"] by (auto simp: storable_def value_ok_def small_kv_def)
qed

lemma put_guards:
  assumes "mvccPutInternal env False es key tstamp val vts fn opts = Inr (r, err, es')" "es' \<noteq> es" "wo_Txn opts = Some txn" "\<not> Timestamp_IsEmpty tstamp"
  shows "key \<noteq> []" "0 \<le> WallTime tstamp" "Timestamp_IsEmpty vts" "tx_ReadTimestamp txn = tstamp"
  using assms unfolding mvccPutInternal_def by (auto dest!: or_fail_cases simp: res_simps split: if_splits)

text \<open>
  C40. After a transactional put has written a value (one that can be stored, with metadata that survive marshalling,
  and under a sequence number that is not ignored), the transaction reads that value back, and the same put run again
  finds it, changes nothing and returns no error, unless protection against replays is on and the put had moved the write
  timestamp, which is then an error.
\<close>

theorem replayed_put_changes_nothing:
  assumes "store_ok env key es" "request_ok opts tstamp" "wo_Txn opts = Some txn"
    "mvccPutInternal env False es key tstamp val vts None opts = Inr (r, err, es')" "es' \<noteq> es" "metas_decode env key es'"
    "storable env opts key val" "\<not> TxnSeqIsIgnored (tx_Sequence (tx_Meta txn)) (tx_IgnoredSeqNums txn)"
  shows "mvccGet env es' key tstamp (Some txn) False = Inr (Inr (Some val)) \<and>
    mvccPutInternal env False es' key tstamp val vts None opts =
      Inr (False, if wo_ReplayWriteTimestampProtection opts \<and> tx_WriteTimestamp (tx_Meta txn) \<noteq> mk_Timestamp (fst (es' ! 1))
        then Some (OtherError ''prevented from changing write timestamp due to ambiguous replay protection'') else None, es')"
proof -
  have ne: "\<not> Timestamp_IsEmpty tstamp" using assms(2) positive_not_empty by (simp add: request_ok_def)
  note guards = put_guards [OF assms(4,5,3) ne]
  obtain ts v hist al where w: "es' = installed env key opts ts hist al v (committed_versions es)" "below_ts key ts (committed_versions es)"
      "Timestamp_LessEq (write_ts opts tstamp) ts" "valid_ts ts" "reaches opts ts" "mv_RawBytes v = val"
      "written_value (we_shouldWriteLocalTimestamps env) val (wo_LocalTimestamp opts) ts = Inr v"
    using put_cases [OF assms(1,2,4)] assms(5) unfolding put_done_def by auto
  let ?m = "new_meta env (bumped_txnMeta (tx_Meta txn) ts) hist ts v al"
  have pos: "Timestamp_Less (mkTs 0 0) ts" using assms(2) w(3) ts_less_lesseq_trans ts_lesseq_trans unfolding request_ok_def by blast
  have m: "we_marshalMeta env ?m \<noteq> [] \<and> we_unmarshalMeta env (we_marshalMeta env ?m) = Some ?m"
    using assms(3,6) w(1) by (simp add: metas_decode_def installed_def)
  have ok: "store_ok env key es'"
    unfolding w(1) by (rule installed_ok [OF assms(1) w(2,4) positive_not_empty [OF pos] w(5)]) (use m assms(3) in simp)
  have own: "own_write env key opts txn es' ts ?m v"
    using assms(3,7,8) ok pos w(1,5) m written_storable [OF assms(7) w(7)] unfolding own_write_def storable_def by blast
  have "mk_Timestamp (fst (es' ! 1)) = ts" using w(1) assms(3) by (simp add: installed_def)
  then show ?thesis using get_own_write [OF own guards(1,2)] put_again [OF own guards(1,2) ne guards(3,4)] w(6) by simp
qed

text \<open>A first write of a transaction.\<close>

definition example_txn :: Transaction where
  "example_txn = \<lparr>tx_Meta = \<lparr>tx_ID = [7], tx_Key = Some [1], tx_Epoch = 0, tx_WriteTimestamp = mkTs 5 0, tx_MinTimestamp = mkTs 5 0, tx_Priority = 1,
       tx_Sequence = 2, tx_CoordinatorNodeID = 1\<rparr>,
     tx_Name = [], tx_Status = PENDING, tx_LastHeartbeat = mkTs 5 0, tx_ReadTimestamp = mkTs 5 0, tx_GlobalUncertaintyLimit = mkTs 5 0,
     tx_ObservedTimestamps = [], tx_WriteTooOld = False, tx_CommitTimestampFixed = False, tx_LockSpans = [], tx_InFlightWrites = [],
     tx_IgnoredSeqNums = []\<rparr>"

definition example_meta :: MVCCMetadata where
  "example_meta = emptyMeta\<lparr>meta_Txn := Some (tx_Meta example_txn), meta_Timestamp := Timestamp_ToLegacyTimestamp (mkTs 5 0), meta_KeyBytes := 12,
     meta_ValBytes := 6, meta_TxnDidNotUpdateMeta := Some True\<rparr>"

theorem replayed_put_changes_nothing_witness:
  "\<exists>es'. mvccPutInternal (example_env example_meta) False [] [1] (mkTs 5 0) [0, 0, 0, 0, 3, 67] (mkTs 0 0) None (example_opts (Some example_txn)) =
      Inr (False, None, es') \<and>
    mvccPutInternal (example_env example_meta) False es' [1] (mkTs 5 0) [0, 0, 0, 0, 3, 67] (mkTs 0 0) None (example_opts (Some example_txn)) =
      Inr (False, None, es') \<and>
    mvccGet (example_env example_meta) es' [1] (mkTs 5 0) (Some example_txn) False = Inr (Inr (Some [0, 0, 0, 0, 3, 67]))"
proof -
  let ?e = "example_env example_meta" and ?o = "example_opts (Some example_txn)" and ?v = "[0, 0, 0, 0, 3, 67] :: bytes"
  let ?es = "[(MakeMVCCMetadataKey [1], [1]), (\<lparr>mk_Key = [1], mk_Timestamp = mkTs 5 0\<rparr>, ?v)] :: store"
  have ok: "store_ok ?e [1] []" by (simp add: store_ok_def entries_ok_def)
  have req: "request_ok ?o (mkTs 5 0)"
    by (simp add: request_ok_def write_ts_def example_opts_def example_txn_def valid_ts_def in64_def in32_def go_limits Timestamp_Less_def)
  have txn: "wo_Txn ?o = Some example_txn" by (simp add: example_opts_def)
  have nm: "new_meta ?e (tx_Meta example_txn) [] (mkTs 5 0) \<lparr>mv_Header = noHeader, mv_RawBytes = ?v\<rparr> False = example_meta"
    by (simp add: new_meta_def example_meta_def emptyMeta_def MVCCVersionTimestampSize_def encodedMVCCValueSize_def Header_IsEmpty_iff IsTombstone_def)
  have run: "mvccPutInternal ?e False [] [1] (mkTs 5 0) ?v (mkTs 0 0) None ?o = Inr (False, None, ?es)"
  proof -
    have t: "bumped_txnMeta (tx_Meta example_txn) (mkTs 5 0) = tx_Meta example_txn" "tx_WriteTimestamp (tx_Meta example_txn) = mkTs 5 0"
      "tx_ReadTimestamp example_txn = mkTs 5 0" by (simp_all add: bumped_txnMeta_def example_txn_def)
    have w: "written_value (we_shouldWriteLocalTimestamps ?e) ?v (wo_LocalTimestamp ?o) (mkTs 5 0) = Inr \<lparr>mv_Header = noHeader, mv_RawBytes = ?v\<rparr>"
      by (simp add: written_value_def LocalTimestampNeeded_def Timestamp_IsEmpty_def example_env_def example_opts_def)
    have "we_marshalMeta ?e example_meta = [1]" by (simp add: example_env_def)
    then have "put_version ?e [] [1] ?v ?o (mkTs 5 0) [] False False None = Inr (False, None, ?es)"
      by (simp add: put_version_def txn w t nm putIntentMeta_def store_put_def same_key_less version_key_value Timestamp_IsEmpty_def
          EncodeMVCCValue_def Header_IsEmpty_iff)
    then show ?thesis
      by (simp add: mvccPutInternal_def mvccGetMetadata_def store_seek_def SeekGE_def or_fail_def apply_fn_def txn t Timestamp_IsEmpty_def)
  qed
  have md: "metas_decode ?e [1] ?es" by (auto simp: metas_decode_def example_env_def MakeMVCCMetadataKey_def split: if_splits)
  have st: "storable ?e ?o [1] ?v"
    using fixed_header_codec by (simp add: storable_def example_env_def example_opts_def value_sizes valid_ts_def in64_def in32_def go_limits)
  have ig: "\<not> TxnSeqIsIgnored (tx_Sequence (tx_Meta example_txn)) (tx_IgnoredSeqNums example_txn)"
    by (simp add: example_txn_def TxnSeqIsIgnored_def)
  have "?es \<noteq> []" by simp
  from replayed_put_changes_nothing [OF ok req txn run this md st ig] run show ?thesis by (simp add: example_opts_def)
qed

end
