(* ===== verification/Mvcc_Resolve.thy ===== *)
theory Mvcc_Resolve
  imports Mvcc_Put
begin

text \<open>
  Resolution of an intent, \<open>mvccResolveWriteIntent\<close> of \<open>pkg/storage/mvcc.go\<close>, over the entries of one key: the intent is committed
  (at its timestamp or a later one), moved, rolled back to an earlier value of its history, removed, or left. The iterator
  reads the entries as they were (\<open>es\<close>), the writer changes the store (\<open>st\<close>). Statistics and the log of logical operations are left
  out, as are range keys; whether a removal is a single delete does not show in the store.
\<close>

definition mvccGetIntent :: "writeEnv \<Rightarrow> store \<Rightarrow> MVCCKey \<Rightarrow> (scan_error + MVCCMetadata option) res" where
  "mvccGetIntent env es metaKey =
     (case store_seek es metaKey of
        None \<Rightarrow> Inr (Inr None)
      | Some (unsafeKey, v) \<Rightarrow>
          if mk_Key unsafeKey \<noteq> mk_Key metaKey then Inr (Inr None)
          else if MVCCKey_IsValue unsafeKey then Inr (Inr None)
          else (case we_unmarshalMeta env v of
                  None \<Rightarrow> Inr (Inl (OtherError ''unable to decode MVCCMetadata''))
                | Some m \<Rightarrow> Inr (Inr (Some m))))"

text \<open>The last write of the history that is not ignored.\<close>

fun last_kept :: "SequencedIntent list \<Rightarrow> IgnoredSeqNumRange list \<Rightarrow> nat \<Rightarrow> nat option" where
  "last_kept hist ignored 0 = None"
| "last_kept hist ignored (Suc i) = (if TxnSeqIsIgnored (si_Sequence (hist ! i)) ignored then last_kept hist ignored i else Some i)"

text \<open>The result: whether the intent is to be removed, the restored value, the new metadata with its transaction, the store.\<close>

definition mvccMaybeRewriteIntentHistory :: "writeEnv \<Rightarrow> store \<Rightarrow> IgnoredSeqNumRange list \<Rightarrow> MVCCMetadata \<Rightarrow> TxnMeta \<Rightarrow> MVCCKey \<Rightarrow> (scan_error + (bool \<times> MVCCValue option \<times> MVCCMetadata \<times> TxnMeta \<times> store)) res" where
  "mvccMaybeRewriteIntentHistory env st ignored meta mtxn latestKey =
     (if \<not> TxnSeqIsIgnored (tx_Sequence mtxn) ignored then Inr (Inr (False, None, meta, mtxn, st))
      else (case last_kept (meta_IntentHistory meta) ignored (length (meta_IntentHistory meta)) of
              None \<Rightarrow> Inr (Inr (True, None, meta, mtxn, st))
            | Some i \<Rightarrow>
                (let restored = meta_IntentHistory meta ! i; txn = mtxn\<lparr>tx_Sequence := si_Sequence restored\<rparr> in
                 res_bind (DecodeMVCCValue (we_unmarshalHeader env) (si_Value restored)) (\<lambda>v.
                   Inr (Inr (False, Some v,
                     meta\<lparr>meta_Txn := Some txn, meta_IntentHistory := take i (meta_IntentHistory meta), meta_Deleted := IsTombstone v,
                       meta_ValBytes := int (length (si_Value restored))\<rparr>,
                     txn, store_put st latestKey (EncodeMVCCValue (we_marshalHeader env) v)))))))"

definition provisional :: "writeEnv \<Rightarrow> store \<Rightarrow> MVCCKey \<Rightarrow> (scan_error + MVCCValue) res" where
  "provisional env es oldKey =
     (case store_seek es oldKey of
        None \<Rightarrow> Inr (Inl (OtherError ''existing intent value missing''))
      | Some (k, raw) \<Rightarrow>
          if \<not> MVCCKey_Equal k oldKey then Inr (Inl (OtherError ''existing intent value missing''))
          else res_bind (DecodeMVCCValue (we_unmarshalHeader env) raw) (\<lambda>v. Inr (Inr v)))"

text \<open>The local timestamp of a moved value.\<close>

definition moved_value :: "writeEnv \<Rightarrow> MVCCValue \<Rightarrow> ClockTimestamp \<Rightarrow> Timestamp \<Rightarrow> Timestamp \<Rightarrow> MVCCValue res" where
  "moved_value env oldValue clockWhilePending oldTimestamp newTimestamp =
     (let newValue = oldValue\<lparr>mv_Header := (mv_Header oldValue)\<lparr>h_LocalTimestamp := fwd (GetLocalTimestamp oldValue oldTimestamp) clockWhilePending\<rparr>\<rparr> in
      res_bind (LocalTimestampNeeded newValue newTimestamp) (\<lambda>needed.
        Inr (if \<not> needed \<or> \<not> we_shouldWriteLocalTimestamps env
             then newValue\<lparr>mv_Header := (mv_Header newValue)\<lparr>h_LocalTimestamp := mkTs 0 0\<rparr>\<rparr> else newValue)))"

text \<open>The version after the moved one is read for the statistics only.\<close>

definition check_next :: "store \<Rightarrow> MVCCKey \<Rightarrow> (scan_error + unit) res" where
  "check_next es oldKey =
     (case drop (SeekGE es oldKey + 1) es of
        [] \<Rightarrow> Inr (Inr ())
      | (k, v) # _ \<Rightarrow> if mk_Key k \<noteq> mk_Key oldKey then Inr (Inr ()) else res_bind (EncodedMVCCValueIsTombstone v) (\<lambda>_. Inr (Inr ())))"

definition resolve_meta :: "writeEnv \<Rightarrow> store \<Rightarrow> bytes \<Rightarrow> MVCCMetadata \<Rightarrow> TxnMeta \<Rightarrow> bool \<Rightarrow> put_result" where
  "resolve_meta env st key newMeta txn commit =
     (if \<not> commit then
        (case putIntentMeta env st (MakeMVCCMetadataKey key) (newMeta\<lparr>meta_TxnDidNotUpdateMeta := None\<rparr>) txn of
           (Some e, st) \<Rightarrow> Inr (False, Some e, st)
         | (None, st) \<Rightarrow> Inr (True, None, st))
      else Inr (True, None, store_clear st (MakeMVCCMetadataKey key)))"

definition resolve_update :: "writeEnv \<Rightarrow> store \<Rightarrow> store \<Rightarrow> MVCCKey \<Rightarrow> Timestamp \<Rightarrow> ClockTimestamp \<Rightarrow> MVCCMetadata \<Rightarrow> TxnMeta \<Rightarrow> MVCCValue option \<Rightarrow> bool \<Rightarrow> bool \<Rightarrow> put_result" where
  "resolve_update env es st latestKey newTimestamp clockWhilePending newMeta txn rolledBackVal commit timestampChanged =
     (if Timestamp_Less newTimestamp (mk_Timestamp latestKey) then Inr (False, Some (OtherError ''timestamp regression''), st)
      else if timestampChanged then
        or_fail (provisional env es latestKey) st (\<lambda>v.
          let oldValue = (case rolledBackVal of None \<Rightarrow> v | Some r \<Rightarrow> r) in
          res_bind (moved_value env oldValue clockWhilePending (mk_Timestamp latestKey) newTimestamp) (\<lambda>newValue.
            let txn = txn\<lparr>tx_WriteTimestamp := newTimestamp\<rparr>;
                newMeta = newMeta\<lparr>meta_Txn := Some txn, meta_Timestamp := Timestamp_ToLegacyTimestamp newTimestamp,
                  meta_KeyBytes := int MVCCVersionTimestampSize, meta_ValBytes := int (encodedMVCCValueSize (we_marshalHeader env) newValue),
                  meta_Deleted := IsTombstone newValue\<rparr>;
                st = store_clear (store_put st (latestKey\<lparr>mk_Timestamp := newTimestamp\<rparr>) (EncodeMVCCValue (we_marshalHeader env) newValue)) latestKey
            in or_fail (check_next es latestKey) st (\<lambda>_. resolve_meta env st (mk_Key latestKey) newMeta txn commit)))
      else resolve_meta env st (mk_Key latestKey) newMeta txn commit)"

definition check_revealed :: "store \<Rightarrow> MVCCKey \<Rightarrow> (scan_error + unit) res" where
  "check_revealed es latestKey =
     res_bind (MVCCKey_Next latestKey) (\<lambda>nextKey.
       if \<not> MVCCKey_IsValue nextKey then Inr (Inr ())
       else (case store_seek es nextKey of
               None \<Rightarrow> Inr (Inr ())
             | Some (k, v) \<Rightarrow>
                 if mk_Key k \<noteq> mk_Key latestKey then Inr (Inr ())
                 else if \<not> MVCCKey_IsValue k then Inr (Inl (OtherError ''expected an MVCC value key''))
                 else res_bind (EncodedMVCCValueIsTombstone v) (\<lambda>_. Inr (Inr ()))))"

definition resolve_remove :: "store \<Rightarrow> store \<Rightarrow> MVCCKey \<Rightarrow> put_result" where
  "resolve_remove es st latestKey =
     (let st = store_clear st latestKey in
      or_fail (check_revealed es latestKey) st (\<lambda>_. Inr (True, None, store_clear st (MakeMVCCMetadataKey (mk_Key latestKey)))))"

definition resolve_own :: "writeEnv \<Rightarrow> store \<Rightarrow> LockUpdate \<Rightarrow> ClockTimestamp \<Rightarrow> MVCCMetadata \<Rightarrow> TxnMeta \<Rightarrow> put_result" where
  "resolve_own env es upd clockWhilePending meta mtxn =
     (let metaTimestamp = LegacyTimestamp_ToTimestamp (meta_Timestamp meta);
          epochsMatch = (tx_Epoch mtxn = tx_Epoch (lu_Txn upd));
          timestampsValid = Timestamp_LessEq metaTimestamp (tx_WriteTimestamp (lu_Txn upd));
          timestampChanged = Timestamp_Less metaTimestamp (tx_WriteTimestamp (lu_Txn upd));
          commit = (lu_Status upd = COMMITTED \<and> epochsMatch \<and> timestampsValid);
          inProgress = (\<not> IsFinalized (lu_Status upd) \<and> tx_Epoch mtxn \<ge> tx_Epoch (lu_Txn upd));
          pushed = (inProgress \<and> timestampChanged);
          latestKey = \<lparr>mk_Key = Key (lu_Span upd), mk_Timestamp = metaTimestamp\<rparr>
      in or_fail (if lu_IgnoredSeqNums upd \<noteq> [] \<and> (commit \<or> inProgress) \<and> epochsMatch
                  then mvccMaybeRewriteIntentHistory env es (lu_IgnoredSeqNums upd) meta mtxn latestKey
                  else Inr (Inr (False, None, meta, mtxn, es))) es (\<lambda>(removeIntent, rolledBackVal, newMeta, txn, st).
           let commit = (commit \<and> \<not> removeIntent); pushed = (pushed \<and> \<not> removeIntent); inProgress = (inProgress \<and> \<not> removeIntent);
               newTimestamp = (if rolledBackVal \<noteq> None then fwd (tx_WriteTimestamp (lu_Txn upd)) metaTimestamp else tx_WriteTimestamp (lu_Txn upd))
           in if inProgress \<and> \<not> pushed \<and> rolledBackVal = None then Inr (False, None, st)
              else if commit \<or> pushed \<or> rolledBackVal \<noteq> None
              then resolve_update env es st latestKey newTimestamp clockWhilePending newMeta txn rolledBackVal commit timestampChanged
              else resolve_remove es st latestKey))"

definition mvccResolveWriteIntent :: "writeEnv \<Rightarrow> store \<Rightarrow> LockUpdate \<Rightarrow> ClockTimestamp \<Rightarrow> put_result" where
  "mvccResolveWriteIntent env es upd clockWhilePending =
     or_fail (mvccGetIntent env es (MakeMVCCMetadataKey (Key (lu_Span upd)))) es (\<lambda>meta.
       case meta of
         None \<Rightarrow> Inr (False, None, es)
       | Some m \<Rightarrow>
           (case meta_Txn m of
              None \<Rightarrow> Inr (False, None, es)
            | Some mtxn \<Rightarrow>
                if tx_ID (lu_Txn upd) \<noteq> tx_ID mtxn then Inr (False, None, es)
                else resolve_own env es upd clockWhilePending m mtxn))"

text \<open>The operation; a negative byte limit returns the key as the resume span.\<close>

definition MVCCResolveWriteIntent :: "writeEnv \<Rightarrow> store \<Rightarrow> LockUpdate \<Rightarrow> ClockTimestamp \<Rightarrow> int \<Rightarrow> ((bool \<times> Span option \<times> scan_error option) \<times> store) res" where
  "MVCCResolveWriteIntent env es upd clockWhilePending targetBytes =
     (if length (Key (lu_Span upd)) = 0 then Inr ((False, None, Some (OtherError ''attempted access to empty key'')), es)
      else if key_len (EndKey (lu_Span upd)) > 0 then Inr ((False, None, Some (OtherError ''can't resolve range intent as point intent'')), es)
      else if targetBytes < 0 then Inr ((False, Some \<lparr>Key = Key (lu_Span upd), EndKey = None\<rparr>, None), es)
      else res_bind (mvccResolveWriteIntent env es upd clockWhilePending) (\<lambda>(ok, err, es). Inr ((ok, None, err), es)))"

end
