(* ===== verification/Resolve_Store.thy ===== *)
theory Resolve_Store
  imports Put_Replay Mvcc_Resolve
begin

text \<open>
  What the resolution of an intent leaves of the entries of its key, and how it completes a put.
\<close>

section \<open>Entries\<close>

definition carries :: "writeEnv \<Rightarrow> bytes \<Rightarrow> bytes \<Rightarrow> bool" where
  "carries env x raw \<longleftrightarrow> (\<exists>v. mv_RawBytes v = raw \<and> (DecodeMVCCValue (we_unmarshalHeader env) x = Inr v \<or> x = EncodeMVCCValue (we_marshalHeader env) v))"

definition resolved :: "writeEnv \<Rightarrow> bytes \<Rightarrow> Timestamp \<Rightarrow> bytes \<Rightarrow> MVCCMetadata option \<Rightarrow> store \<Rightarrow> store" where
  "resolved env key ts x meta vs =
     (case meta of None \<Rightarrow> [] | Some m \<Rightarrow> [(MakeMVCCMetadataKey key, we_marshalMeta env m)]) @ (\<lparr>mk_Key = key, mk_Timestamp = ts\<rparr>, x) # vs"

text \<open>Stored values decode, and their local timestamps are clock readings.\<close>

definition values_ok :: "writeEnv \<Rightarrow> store \<Rightarrow> bool" where
  "values_ok env es \<longleftrightarrow> list_all (\<lambda>e. MVCCKey_IsValue (fst e) \<longrightarrow> is_ok (EncodedMVCCValueIsTombstone (snd e)) \<and>
     (\<exists>v. DecodeMVCCValue (we_unmarshalHeader env) (snd e) = Inr v \<and> \<not> Synthetic (h_LocalTimestamp (mv_Header v)))) es"

lemma store_clear_meta: "below_ts key ts vs \<Longrightarrow> store_clear ((MakeMVCCMetadataKey key, b) # vs) (MakeMVCCMetadataKey key) = vs"
  by (auto simp: store_clear_def below_ts_def list_all_iff filter_id_conv same_key_less)

lemma below_Cons: "below_ts key ts ((\<lparr>mk_Key = key, mk_Timestamp = t\<rparr>, x) # vs) \<longleftrightarrow> \<not> Timestamp_IsEmpty t \<and> Timestamp_Less t ts \<and> below_ts key ts vs"
  by (auto simp: below_ts_def version_key_value)

lemma below_trans: "below_ts key t vs \<Longrightarrow> Timestamp_Less t ts \<Longrightarrow> below_ts key ts vs"
  using ts_less_trans by (auto simp: below_ts_def list_all_iff)

text \<open>The entries of a key with an intent.\<close>

definition shape :: "bytes \<Rightarrow> Timestamp \<Rightarrow> bytes \<Rightarrow> bytes \<Rightarrow> store \<Rightarrow> store" where
  "shape key mt b y vs = (MakeMVCCMetadataKey key, b) # (\<lparr>mk_Key = key, mk_Timestamp = mt\<rparr>, y) # vs"

lemma shape_seek:
  assumes "\<not> Timestamp_IsEmpty mt"
  shows "SeekGE (shape key mt b y vs) \<lparr>mk_Key = key, mk_Timestamp = mt\<rparr> = 1"
    "store_seek (shape key mt b y vs) \<lparr>mk_Key = key, mk_Timestamp = mt\<rparr> = Some (\<lparr>mk_Key = key, mk_Timestamp = mt\<rparr>, y)"
  using assms by (simp_all add: shape_def SeekGE_def store_seek_def same_key_less version_key_value)

lemma seek_value:
  assumes "store_seek (shape key mt b y vs) k = Some e" "mk_Key k = key" "MVCCKey_IsValue k"
  shows "e \<in> set ((\<lparr>mk_Key = key, mk_Timestamp = mt\<rparr>, y) # vs)"
proof -
  have "store_seek (shape key mt b y vs) k = store_seek ((\<lparr>mk_Key = key, mk_Timestamp = mt\<rparr>, y) # vs) k"
    using assms(2,3) by (simp add: store_seek_def SeekGE_def shape_def same_key_less)
  then have "drop (SeekGE ((\<lparr>mk_Key = key, mk_Timestamp = mt\<rparr>, y) # vs) k) ((\<lparr>mk_Key = key, mk_Timestamp = mt\<rparr>, y) # vs) \<noteq> [] \<and>
      e = hd (drop (SeekGE ((\<lparr>mk_Key = key, mk_Timestamp = mt\<rparr>, y) # vs) k) ((\<lparr>mk_Key = key, mk_Timestamp = mt\<rparr>, y) # vs))"
    using assms(1) by (auto simp: store_seek_def split: list.splits)
  then show ?thesis by (metis hd_in_set in_set_dropD)
qed

lemma shape_remove:
  assumes "below_ts key mt vs" "\<not> Timestamp_IsEmpty mt"
  shows "store_clear (store_clear (shape key mt b y vs) \<lparr>mk_Key = key, mk_Timestamp = mt\<rparr>) (MakeMVCCMetadataKey key) = vs"
    "store_clear (shape key mt b y vs) (MakeMVCCMetadataKey key) = (\<lparr>mk_Key = key, mk_Timestamp = mt\<rparr>, y) # vs"
  using assms store_clear_version [OF assms] store_clear_meta [OF assms(1)]
  by (simp_all add: shape_def store_clear_def same_key_less version_key_value below_parts)

lemma shape_move:
  assumes "below_ts key mt vs" "\<not> Timestamp_IsEmpty mt" "Timestamp_Less mt w" "\<not> Timestamp_IsEmpty w"
  shows "store_clear (store_put (shape key mt b y vs) \<lparr>mk_Key = key, mk_Timestamp = w\<rparr> x) \<lparr>mk_Key = key, mk_Timestamp = mt\<rparr> = shape key w b x vs"
proof -
  have "below_ts key w ((\<lparr>mk_Key = key, mk_Timestamp = mt\<rparr>, y) # vs)" using assms below_trans by (simp add: below_Cons)
  then have "store_put (shape key mt b y vs) \<lparr>mk_Key = key, mk_Timestamp = w\<rparr> x =
      (MakeMVCCMetadataKey key, b) # (\<lparr>mk_Key = key, mk_Timestamp = w\<rparr>, x) # (\<lparr>mk_Key = key, mk_Timestamp = mt\<rparr>, y) # vs"
    using store_put_version(1) [of key w _ "[(MakeMVCCMetadataKey key, b)]" "[]"] assms(4) by (simp add: shape_def)
  moreover have "filter (\<lambda>e. MVCCKey_Less (fst e) \<lparr>mk_Key = key, mk_Timestamp = mt\<rparr> \<or> MVCCKey_Less \<lparr>mk_Key = key, mk_Timestamp = mt\<rparr> (fst e)) vs = vs"
    using assms(1,2) by (simp add: below_ts_def list_all_iff filter_id_conv same_key_values)
  ultimately show ?thesis using assms(2-4) by (simp add: store_clear_def shape_def same_key_less version_key_value)
qed

lemma shape_restore:
  assumes "below_ts key mt vs" "\<not> Timestamp_IsEmpty mt"
  shows "store_put (shape key mt b y vs) \<lparr>mk_Key = key, mk_Timestamp = mt\<rparr> x = shape key mt b x vs"
    "store_put (shape key mt b y vs) (MakeMVCCMetadataKey key) b' = shape key mt b' y vs"
  using store_put_version [OF assms, of "[(MakeMVCCMetadataKey key, b)]" "[(\<lparr>mk_Key = key, mk_Timestamp = mt\<rparr>, y)]"] assms(2)
  by (simp_all add: shape_def Timestamp_EqOrdering_def)

section \<open>Steps\<close>

lemma values_tombstone: "values_ok env es \<Longrightarrow> e \<in> set es \<Longrightarrow> MVCCKey_IsValue (fst e) \<Longrightarrow> \<exists>t. EncodedMVCCValueIsTombstone (snd e) = Inr t"
  by (auto simp: values_ok_def list_all_iff is_ok_iff)

lemma check_next_ok:
  assumes "below_ts key mt vs" "\<not> Timestamp_IsEmpty mt" "values_ok env (shape key mt b y vs)"
  shows "check_next (shape key mt b y vs) \<lparr>mk_Key = key, mk_Timestamp = mt\<rparr> = Inr (Inr ())"
proof (cases vs)
  case (Cons e rest)
  then obtain t where "EncodedMVCCValueIsTombstone (snd e) = Inr t"
    using values_tombstone [OF assms(3), of e] assms(1) by (auto simp: shape_def below_ts_def)
  then show ?thesis using Cons by (cases e) (simp add: check_next_def shape_seek(1) [OF assms(2)], simp add: shape_def)
qed (simp add: check_next_def shape_seek(1) [OF assms(2)], simp add: shape_def)

lemma check_revealed_ok:
  assumes "below_ts key mt vs" "Timestamp_Less (mkTs 0 0) mt" "values_ok env (shape key mt b y vs)"
  shows "check_revealed (shape key mt b y vs) \<lparr>mk_Key = key, mk_Timestamp = mt\<rparr> = Inr (Inr ())"
proof -
  let ?es = "shape key mt b y vs" and ?latest = "\<lparr>mk_Key = key, mk_Timestamp = mt\<rparr>"
  obtain p where p: "Timestamp_Prev mt = Inr p" using Prev_positive [OF assms(2)] by blast
  show ?thesis
  proof (cases "Timestamp_IsEmpty p")
    case True
    then show ?thesis using p by (simp add: check_revealed_def MVCCKey_Next_def version_key_value Timestamp_IsEmpty_def)
  next
    case False
    then have nk: "MVCCKey_Next ?latest = Inr \<lparr>mk_Key = key, mk_Timestamp = p\<rparr>" "MVCCKey_IsValue \<lparr>mk_Key = key, mk_Timestamp = p\<rparr>"
      using p by (simp_all add: MVCCKey_Next_def version_key_value)
    have "MVCCKey_IsValue k \<and> (\<exists>t. EncodedMVCCValueIsTombstone v = Inr t)" if "store_seek ?es \<lparr>mk_Key = key, mk_Timestamp = p\<rparr> = Some (k, v)" for k v
    proof -
      have e: "(k, v) \<in> set ((?latest, y) # vs)" using seek_value [OF that] nk(2) by simp
      then have "MVCCKey_IsValue k" using assms(1) positive_not_empty [OF assms(2)] by (auto simp: below_ts_def list_all_iff version_key_value)
      then show ?thesis using values_tombstone [OF assms(3), of "(k, v)"] e by (simp add: shape_def)
    qed
    then show ?thesis using nk by (auto simp: check_revealed_def split: option.split)
  qed
qed

lemma moved_value_ok:
  assumes "\<not> Synthetic clock" "\<not> Synthetic (h_LocalTimestamp (mv_Header v))"
  shows "\<exists>nv. moved_value env v clock t w = Inr nv \<and> mv_RawBytes nv = mv_RawBytes v"
proof -
  have "\<not> Synthetic (GetLocalTimestamp v t)" using assms(2) by (simp add: GetLocalTimestamp_def MinClockTimestamp_def)
  then have "\<not> Synthetic (fwd (GetLocalTimestamp v t) clock)" using assms(1) by (auto simp: Timestamp_Forward_def bothSynthetic_def)
  then show ?thesis by (auto simp: moved_value_def LocalTimestampNeeded_def ClockTimestamp_ToTimestamp_def Let_def)
qed

lemma resolve_meta_shape:
  assumes "below_ts key mt vs" "\<not> Timestamp_IsEmpty mt" "\<not> commit \<Longrightarrow> LegacyTimestamp_ToTimestamp (meta_Timestamp nm) = tx_WriteTimestamp txn"
  shows "resolve_meta env (shape key mt b y vs) key nm txn commit =
    Inr (True, None, resolved env key mt y (if commit then None else Some (nm\<lparr>meta_TxnDidNotUpdateMeta := None\<rparr>)) vs)"
  using assms shape_remove(2) [OF assms(1,2)] shape_restore(2) [OF assms(1,2)]
  by (simp add: resolve_meta_def putIntentMeta_def resolved_def) (simp add: shape_def)

text \<open>
  An intent is committed or kept, where it is or at a later timestamp. The value is the provisional one, or the one restored
  from the history.
\<close>

lemma resolve_update_outcome:
  assumes "below_ts key mt vs" "Timestamp_Less (mkTs 0 0) mt" "values_ok env (shape key mt b y vs)" "\<not> Synthetic clock"
    "DecodeMVCCValue (we_unmarshalHeader env) y = Inr v"
    "case rb of None \<Rightarrow> st = shape key mt b y vs \<and> raw = mv_RawBytes v
      | Some r \<Rightarrow> st = shape key mt b (EncodeMVCCValue (we_marshalHeader env) r) vs \<and> \<not> Synthetic (h_LocalTimestamp (mv_Header r)) \<and> raw = mv_RawBytes r"
    "\<not> Timestamp_Less newTs mt" "changed \<longleftrightarrow> Timestamp_Less mt newTs"
    "LegacyTimestamp_ToTimestamp (meta_Timestamp nm) = mt" "tx_WriteTimestamp txn = mt" "meta_Txn nm = Some txn"
  shows "\<exists>x m'. resolve_update env (shape key mt b y vs) st \<lparr>mk_Key = key, mk_Timestamp = mt\<rparr> newTs clock nm txn rb commit changed =
      Inr (True, None, resolved env key (if changed then newTs else mt) x (if commit then None else Some m') vs) \<and> carries env x raw \<and>
    meta_Txn m' = Some (if changed then txn\<lparr>tx_WriteTimestamp := newTs\<rparr> else txn) \<and>
    LegacyTimestamp_ToTimestamp (meta_Timestamp m') = (if changed then newTs else mt) \<and> meta_IntentHistory m' = meta_IntentHistory nm"
proof -
  have ne: "\<not> Timestamp_IsEmpty mt" using assms(2) by (rule positive_not_empty)
  obtain z where st: "st = shape key mt b z vs" and z: "carries env z raw"
    using assms(5,6) by (cases rb) (auto simp: carries_def)
  show ?thesis
  proof (cases changed)
    case False
    then show ?thesis
      using resolve_meta_shape [OF assms(1) ne, of commit nm txn env b z] assms(7,9-11) z
      by (intro exI [of _ z] exI [of _ "nm\<lparr>meta_TxnDidNotUpdateMeta := None\<rparr>"]) (simp add: resolve_update_def st)
  next
    case True
    define old where "old = (case rb of None \<Rightarrow> v | Some r \<Rightarrow> r)"
    have ns: "\<not> Synthetic (h_LocalTimestamp (mv_Header v))"
      using assms(3,5) ne by (auto simp: values_ok_def shape_def version_key_value)
    have old: "\<not> Synthetic (h_LocalTimestamp (mv_Header old))" "mv_RawBytes old = raw"
      using assms(6) ns by (auto simp: old_def split: option.splits)
    obtain nv where nv: "moved_value env old clock mt newTs = Inr nv" "mv_RawBytes nv = raw" using moved_value_ok [OF assms(4) old(1)] old(2) by blast
    have less: "Timestamp_Less mt newTs" using True assms(8) by simp
    have w: "\<not> Timestamp_IsEmpty newTs" using ts_less_trans [OF assms(2) less] by (rule positive_not_empty)
    have prov: "provisional env (shape key mt b y vs) \<lparr>mk_Key = key, mk_Timestamp = mt\<rparr> = Inr (Inr v)"
      by (simp add: provisional_def shape_seek(2) [OF ne] assms(5) MVCCKey_Equal_def Timestamp_EqOrdering_def bytes_Compare_cases)
    let ?t = "txn\<lparr>tx_WriteTimestamp := newTs\<rparr>"
    let ?m = "nm\<lparr>meta_Txn := Some ?t, meta_Timestamp := Timestamp_ToLegacyTimestamp newTs, meta_KeyBytes := int MVCCVersionTimestampSize,
        meta_ValBytes := int (encodedMVCCValueSize (we_marshalHeader env) nv), meta_Deleted := IsTombstone nv\<rparr>"
    have "resolve_update env (shape key mt b y vs) st \<lparr>mk_Key = key, mk_Timestamp = mt\<rparr> newTs clock nm txn rb commit changed =
        resolve_meta env (shape key newTs b (EncodeMVCCValue (we_marshalHeader env) nv) vs) key ?m ?t commit"
      using True assms(7) nv(1) shape_move [OF assms(1) ne less w]
      by (simp add: resolve_update_def prov or_fail_def old_def [symmetric] st check_next_ok [OF assms(1) ne assms(3)] Let_def)
    also have "\<dots> = Inr (True, None, resolved env key newTs (EncodeMVCCValue (we_marshalHeader env) nv)
        (if commit then None else Some (?m\<lparr>meta_TxnDidNotUpdateMeta := None\<rparr>)) vs)"
      by (rule resolve_meta_shape [OF below_trans [OF assms(1) less] w]) simp
    finally show ?thesis using True nv(2)
      by (intro exI [of _ "EncodeMVCCValue (we_marshalHeader env) nv"] exI [of _ "?m\<lparr>meta_TxnDidNotUpdateMeta := None\<rparr>"]) (auto simp: carries_def)
  qed
qed

section \<open>The newest write that is not rolled back\<close>

definition surviving :: "SequencedIntent list \<Rightarrow> SequencedIntent \<Rightarrow> IgnoredSeqNumRange list \<Rightarrow> SequencedIntent option" where
  "surviving hist current ignored = find (\<lambda>h. \<not> TxnSeqIsIgnored (si_Sequence h) ignored) (rev (hist @ [current]))"

lemma last_kept_find:
  "n \<le> length hist \<Longrightarrow> find (\<lambda>h. \<not> TxnSeqIsIgnored (si_Sequence h) ignored) (rev (take n hist)) =
     (case last_kept hist ignored n of None \<Rightarrow> None | Some i \<Rightarrow> Some (hist ! i))"
proof (induction n)
  case (Suc n)
  then have "rev (take (Suc n) hist) = hist ! n # rev (take n hist)" by (simp add: take_Suc_conv_app_nth)
  then show ?case using Suc by simp
qed simp

lemma last_kept_less: "last_kept hist ignored n = Some i \<Longrightarrow> i < n"
  by (induction n) (auto split: if_splits dest: less_SucI)

lemma surviving_eq:
  "surviving hist current ignored =
     (if \<not> TxnSeqIsIgnored (si_Sequence current) ignored then Some current
      else case last_kept hist ignored (length hist) of None \<Rightarrow> None | Some i \<Rightarrow> Some (hist ! i))"
  using last_kept_find [of "length hist" hist ignored] by (simp add: surviving_def)

definition raw_of :: "writeEnv \<Rightarrow> bytes \<Rightarrow> bytes" where
  "raw_of env x = (case DecodeMVCCValue (we_unmarshalHeader env) x of Inr v \<Rightarrow> mv_RawBytes v | Inl _ \<Rightarrow> [])"

definition history_values_ok :: "writeEnv \<Rightarrow> SequencedIntent list \<Rightarrow> bool" where
  "history_values_ok env hist \<longleftrightarrow> list_all (\<lambda>h. \<exists>v. DecodeMVCCValue (we_unmarshalHeader env) (si_Value h) = Inr v \<and>
     \<not> Synthetic (h_LocalTimestamp (mv_Header v))) hist"

section \<open>Outcomes\<close>

text \<open>Whether the update commits the intent, and whether its transaction is still running.\<close>

definition commits :: "LockUpdate \<Rightarrow> TxnMeta \<Rightarrow> bool" where
  "commits upd mtxn \<longleftrightarrow> lu_Status upd = COMMITTED \<and> tx_Epoch mtxn = tx_Epoch (lu_Txn upd) \<and>
     Timestamp_LessEq (tx_WriteTimestamp mtxn) (tx_WriteTimestamp (lu_Txn upd))"

definition running :: "LockUpdate \<Rightarrow> TxnMeta \<Rightarrow> bool" where
  "running upd mtxn \<longleftrightarrow> \<not> IsFinalized (lu_Status upd) \<and> tx_Epoch mtxn \<ge> tx_Epoch (lu_Txn upd)"

definition moves :: "LockUpdate \<Rightarrow> TxnMeta \<Rightarrow> bool" where
  "moves upd mtxn \<longleftrightarrow> Timestamp_Less (tx_WriteTimestamp mtxn) (tx_WriteTimestamp (lu_Txn upd))"

definition kept_write :: "LockUpdate \<Rightarrow> MVCCMetadata \<Rightarrow> TxnMeta \<Rightarrow> bytes \<Rightarrow> SequencedIntent option" where
  "kept_write upd m mtxn y =
     (let current = \<lparr>si_Sequence = tx_Sequence mtxn, si_Value = y\<rparr> in
      if tx_Epoch mtxn = tx_Epoch (lu_Txn upd) then surviving (meta_IntentHistory m) current (lu_IgnoredSeqNums upd) else Some current)"

lemma resolve_remove_shape:
  assumes "below_ts key mt vs" "Timestamp_Less (mkTs 0 0) mt" "values_ok env (shape key mt b y vs)"
  shows "resolve_remove (shape key mt b y vs) (shape key mt b y vs) \<lparr>mk_Key = key, mk_Timestamp = mt\<rparr> = Inr (True, None, vs)"
  using shape_remove(1) [OF assms(1) positive_not_empty [OF assms(2)]]
  by (simp add: resolve_remove_def check_revealed_ok [OF assms] or_fail_def)

lemma not_ignored_Nil [simp]: "\<not> TxnSeqIsIgnored s []"
  by (simp add: TxnSeqIsIgnored_def)

lemma forward_moves: "Timestamp_Less mt w \<Longrightarrow> fwd w mt = w" "Timestamp_Less mt (fwd w mt) \<longleftrightarrow> Timestamp_Less mt w"
  by (auto simp: Timestamp_Forward_def ts_order_defs)

text \<open>\<open>R\<close> is the result on the entries with the intent.\<close>

definition resolves_to :: "writeEnv \<Rightarrow> bytes \<Rightarrow> LockUpdate \<Rightarrow> MVCCMetadata \<Rightarrow> TxnMeta \<Rightarrow> bytes \<Rightarrow> store \<Rightarrow> store \<Rightarrow> put_result \<Rightarrow> bool" where
  "resolves_to env key upd m mtxn y vs es R \<longleftrightarrow>
     (if \<not> commits upd mtxn \<and> \<not> running upd mtxn then R = Inr (True, None, vs)
      else (case kept_write upd m mtxn y of
              None \<Rightarrow> R = Inr (True, None, vs)
            | Some h \<Rightarrow>
                if \<not> commits upd mtxn \<and> \<not> moves upd mtxn \<and> \<not> (tx_Epoch mtxn = tx_Epoch (lu_Txn upd) \<and> TxnSeqIsIgnored (tx_Sequence mtxn) (lu_IgnoredSeqNums upd))
                then R = Inr (False, None, es)
                else (\<exists>x m'. R = Inr (True, None, resolved env key (if moves upd mtxn then tx_WriteTimestamp (lu_Txn upd) else tx_WriteTimestamp mtxn) x
                        (if commits upd mtxn then None else Some m') vs) \<and> carries env x (raw_of env (si_Value h)) \<and>
                      meta_Txn m' = Some (mtxn\<lparr>tx_Sequence := si_Sequence h,
                        tx_WriteTimestamp := if moves upd mtxn then tx_WriteTimestamp (lu_Txn upd) else tx_WriteTimestamp mtxn\<rparr>))))"

lemma resolve_own_eq:
  assumes "LegacyTimestamp_ToTimestamp (meta_Timestamp m) = tx_WriteTimestamp mtxn" "Key (lu_Span upd) = key"
  defines "latest \<equiv> \<lparr>mk_Key = key, mk_Timestamp = tx_WriteTimestamp mtxn\<rparr>" and "w \<equiv> tx_WriteTimestamp (lu_Txn upd)"
  shows "resolve_own env es upd clock m mtxn =
    or_fail (if lu_IgnoredSeqNums upd \<noteq> [] \<and> (commits upd mtxn \<or> running upd mtxn) \<and> tx_Epoch mtxn = tx_Epoch (lu_Txn upd)
             then mvccMaybeRewriteIntentHistory env es (lu_IgnoredSeqNums upd) m mtxn latest else Inr (Inr (False, None, m, mtxn, es))) es
      (\<lambda>(rm, rb, nm, txn, st).
        if (running upd mtxn \<and> \<not> rm) \<and> \<not> (running upd mtxn \<and> moves upd mtxn \<and> \<not> rm) \<and> rb = None then Inr (False, None, st)
        else if (commits upd mtxn \<and> \<not> rm) \<or> (running upd mtxn \<and> moves upd mtxn \<and> \<not> rm) \<or> rb \<noteq> None
        then resolve_update env es st latest (if rb \<noteq> None then fwd w (tx_WriteTimestamp mtxn) else w) clock nm txn rb (commits upd mtxn \<and> \<not> rm) (moves upd mtxn)
        else resolve_remove es st latest)"
  unfolding resolve_own_def Let_def commits_def running_def moves_def latest_def w_def assms(1,2) conj_assoc ..

text \<open>The intent of the entries, and what the proofs below rely on.\<close>

definition intent_at :: "writeEnv \<Rightarrow> bytes \<Rightarrow> MVCCMetadata \<Rightarrow> TxnMeta \<Rightarrow> bytes \<Rightarrow> bytes \<Rightarrow> store \<Rightarrow> store \<Rightarrow> bool" where
  "intent_at env key m mtxn b y vs es \<longleftrightarrow> es = shape key (tx_WriteTimestamp mtxn) b y vs \<and> below_ts key (tx_WriteTimestamp mtxn) vs \<and>
     Timestamp_Less (mkTs 0 0) (tx_WriteTimestamp mtxn) \<and> values_ok env es \<and> history_values_ok env (meta_IntentHistory m) \<and>
     LegacyTimestamp_ToTimestamp (meta_Timestamp m) = tx_WriteTimestamp mtxn \<and> meta_Txn m = Some mtxn"

lemma intent_at_decodes:
  "intent_at env key m mtxn b y vs es \<Longrightarrow> \<exists>v. DecodeMVCCValue (we_unmarshalHeader env) y = Inr v \<and> raw_of env y = mv_RawBytes v"
  using positive_not_empty by (fastforce simp: intent_at_def values_ok_def shape_def version_key_value raw_of_def)

lemma resolve_kept:
  assumes I: "intent_at env key m mtxn b y vs es" and "\<not> Synthetic clock" "commits upd mtxn \<or> moves upd mtxn"
  defines "mt \<equiv> tx_WriteTimestamp mtxn" and "w \<equiv> tx_WriteTimestamp (lu_Txn upd)"
  shows "\<exists>x m'. resolve_update env es es \<lparr>mk_Key = key, mk_Timestamp = mt\<rparr> w clock m mtxn None (commits upd mtxn) (moves upd mtxn) =
      Inr (True, None, resolved env key (if moves upd mtxn then w else mt) x (if commits upd mtxn then None else Some m') vs) \<and>
    carries env x (raw_of env y) \<and> meta_Txn m' = Some (mtxn\<lparr>tx_Sequence := tx_Sequence mtxn, tx_WriteTimestamp := if moves upd mtxn then w else mt\<rparr>)"
proof -
  have es: "es = shape key mt b y vs" using I by (simp add: intent_at_def mt_def)
  obtain v where v: "DecodeMVCCValue (we_unmarshalHeader env) y = Inr v" "raw_of env y = mv_RawBytes v" using intent_at_decodes [OF I] by blast
  have w: "\<not> Timestamp_Less w mt" using assms(3) ts_asym by (auto simp: commits_def moves_def w_def mt_def ts_lesseq_iff)
  have h: "below_ts key mt vs" "Timestamp_Less (mkTs 0 0) mt" "values_ok env (shape key mt b y vs)"
    "LegacyTimestamp_ToTimestamp (meta_Timestamp m) = mt" "tx_WriteTimestamp mtxn = mt" "meta_Txn m = Some mtxn"
    using I unfolding intent_at_def mt_def by auto
  have rb: "case None of None \<Rightarrow> shape key mt b y vs = shape key mt b y vs \<and> raw_of env y = mv_RawBytes v
      | Some r \<Rightarrow> shape key mt b y vs = shape key mt b (EncodeMVCCValue (we_marshalHeader env) r) vs \<and>
          \<not> Synthetic (h_LocalTimestamp (mv_Header r)) \<and> raw_of env y = mv_RawBytes r"
    using v(2) by simp
  have mv: "moves upd mtxn \<longleftrightarrow> Timestamp_Less mt w" by (simp add: moves_def mt_def w_def)
  obtain x m' where "resolve_update env es es \<lparr>mk_Key = key, mk_Timestamp = mt\<rparr> w clock m mtxn None (commits upd mtxn) (moves upd mtxn) =
      Inr (True, None, resolved env key (if moves upd mtxn then w else mt) x (if commits upd mtxn then None else Some m') vs)"
    "carries env x (raw_of env y)" "meta_Txn m' = Some (if moves upd mtxn then mtxn\<lparr>tx_WriteTimestamp := w\<rparr> else mtxn)"
    using resolve_update_outcome [OF h(1-3) assms(2) v(1) rb w mv h(4-6), of "commits upd mtxn"] unfolding es by blast
  moreover have "(if moves upd mtxn then mtxn\<lparr>tx_WriteTimestamp := w\<rparr> else mtxn) =
      mtxn\<lparr>tx_Sequence := tx_Sequence mtxn, tx_WriteTimestamp := if moves upd mtxn then w else mt\<rparr>" by (simp add: mt_def)
  ultimately show ?thesis by (intro exI [of _ x] exI [of _ m'] conjI) simp_all
qed

lemma resolve_restored:
  fixes upd :: LockUpdate
  assumes I: "intent_at env key m mtxn b y vs es" and "\<not> Synthetic clock" "i < length (meta_IntentHistory m)"
  defines "mt \<equiv> tx_WriteTimestamp mtxn" and "w \<equiv> tx_WriteTimestamp (lu_Txn upd)" and "h \<equiv> meta_IntentHistory m ! i"
  shows "\<exists>r x m'. DecodeMVCCValue (we_unmarshalHeader env) (si_Value h) = Inr r \<and>
    resolve_update env es (store_put es \<lparr>mk_Key = key, mk_Timestamp = mt\<rparr> (EncodeMVCCValue (we_marshalHeader env) r)) \<lparr>mk_Key = key, mk_Timestamp = mt\<rparr>
        (fwd w mt) clock (m\<lparr>meta_Txn := Some (mtxn\<lparr>tx_Sequence := si_Sequence h\<rparr>), meta_IntentHistory := take i (meta_IntentHistory m),
          meta_Deleted := IsTombstone r, meta_ValBytes := int (length (si_Value h))\<rparr>) (mtxn\<lparr>tx_Sequence := si_Sequence h\<rparr>) (Some r) c (moves upd mtxn) =
      Inr (True, None, resolved env key (if moves upd mtxn then w else mt) x (if c then None else Some m') vs) \<and>
    carries env x (raw_of env (si_Value h)) \<and> meta_Txn m' = Some (mtxn\<lparr>tx_Sequence := si_Sequence h, tx_WriteTimestamp := if moves upd mtxn then w else mt\<rparr>)"
proof -
  have es: "es = shape key mt b y vs" using I by (simp add: intent_at_def mt_def)
  have below: "below_ts key mt vs" "\<not> Timestamp_IsEmpty mt" using I positive_not_empty by (auto simp: intent_at_def mt_def)
  obtain v where v: "DecodeMVCCValue (we_unmarshalHeader env) y = Inr v" using intent_at_decodes [OF I] by blast
  obtain r where r: "DecodeMVCCValue (we_unmarshalHeader env) (si_Value h) = Inr r" "\<not> Synthetic (h_LocalTimestamp (mv_Header r))"
    using I assms(3) unfolding intent_at_def history_values_ok_def list_all_length h_def by blast
  have raw: "raw_of env (si_Value h) = mv_RawBytes r" using r(1) by (simp add: raw_of_def)
  have st: "store_put es \<lparr>mk_Key = key, mk_Timestamp = mt\<rparr> (EncodeMVCCValue (we_marshalHeader env) r) = shape key mt b (EncodeMVCCValue (we_marshalHeader env) r) vs"
    unfolding es by (rule shape_restore [OF below])
  let ?t = "mtxn\<lparr>tx_Sequence := si_Sequence h\<rparr>"
  let ?m = "m\<lparr>meta_Txn := Some ?t, meta_IntentHistory := take i (meta_IntentHistory m), meta_Deleted := IsTombstone r, meta_ValBytes := int (length (si_Value h))\<rparr>"
  have w: "\<not> Timestamp_Less (fwd w mt) mt" "moves upd mtxn \<longleftrightarrow> Timestamp_Less mt (fwd w mt)" "moves upd mtxn \<Longrightarrow> fwd w mt = w"
    using Forward_ge(2) [of mt w] forward_moves [of mt w] by (simp_all add: ts_lesseq_iff moves_def mt_def w_def)
  have q: "below_ts key mt vs" "Timestamp_Less (mkTs 0 0) mt" "values_ok env (shape key mt b y vs)"
    "LegacyTimestamp_ToTimestamp (meta_Timestamp ?m) = mt" "tx_WriteTimestamp ?t = mt"
    using I unfolding intent_at_def mt_def by auto
  have rb: "case Some r of None \<Rightarrow> shape key mt b (EncodeMVCCValue (we_marshalHeader env) r) vs = shape key mt b y vs \<and> raw_of env (si_Value h) = mv_RawBytes v
      | Some r' \<Rightarrow> shape key mt b (EncodeMVCCValue (we_marshalHeader env) r) vs = shape key mt b (EncodeMVCCValue (we_marshalHeader env) r') vs \<and>
          \<not> Synthetic (h_LocalTimestamp (mv_Header r')) \<and> raw_of env (si_Value h) = mv_RawBytes r'"
    using r(2) raw by simp
  obtain x m' where "resolve_update env es (shape key mt b (EncodeMVCCValue (we_marshalHeader env) r) vs) \<lparr>mk_Key = key, mk_Timestamp = mt\<rparr> (fwd w mt) clock ?m ?t
        (Some r) c (moves upd mtxn) =
      Inr (True, None, resolved env key (if moves upd mtxn then fwd w mt else mt) x (if c then None else Some m') vs)"
    "carries env x (raw_of env (si_Value h))" "meta_Txn m' = Some (if moves upd mtxn then ?t\<lparr>tx_WriteTimestamp := fwd w mt\<rparr> else ?t)"
    using resolve_update_outcome [OF q(1-3) assms(2) v rb w(1,2) q(4,5), of c] unfolding es by (auto simp del: if_split)
  then show ?thesis using r(1) st w(3) by (cases "moves upd mtxn") (auto simp: mt_def)
qed

lemma resolve_own_outcome:
  assumes I: "intent_at env key m mtxn b y vs es" and "\<not> Synthetic clock" "Key (lu_Span upd) = key"
  shows "resolves_to env key upd m mtxn y vs es (resolve_own env es upd clock m mtxn)"
proof -
  let ?mt = "tx_WriteTimestamp mtxn" and ?w = "tx_WriteTimestamp (lu_Txn upd)" and ?ign = "lu_IgnoredSeqNums upd"
  let ?latest = "\<lparr>mk_Key = key, mk_Timestamp = ?mt\<rparr>" and ?c = "commits upd mtxn" and ?mv = "moves upd mtxn" and ?run = "running upd mtxn"
  have ts: "LegacyTimestamp_ToTimestamp (meta_Timestamp m) = ?mt" using I by (simp add: intent_at_def)
  note eq = resolve_own_eq [OF ts assms(3), of env es clock]
  have remove: "resolve_remove es es ?latest = Inr (True, None, vs)"
    using I resolve_remove_shape by (auto simp: intent_at_def)
  have ex: "?run \<Longrightarrow> \<not> ?c" by (auto simp: running_def commits_def IsFinalized_def)
  consider (final) "\<not> ?c" "\<not> ?run"
    | (kept) "?c \<or> ?run" "\<not> (tx_Epoch mtxn = tx_Epoch (lu_Txn upd) \<and> TxnSeqIsIgnored (tx_Sequence mtxn) ?ign)"
    | (rolled) "?c \<or> ?run" "tx_Epoch mtxn = tx_Epoch (lu_Txn upd)" "TxnSeqIsIgnored (tx_Sequence mtxn) ?ign" by blast
  then show ?thesis
  proof cases
    case final
    then show ?thesis using eq remove by (simp add: resolves_to_def or_fail_def)
  next
    case kept
    have kw: "kept_write upd m mtxn y = Some \<lparr>si_Sequence = tx_Sequence mtxn, si_Value = y\<rparr>"
      using kept(2) by (auto simp: kept_write_def surviving_eq Let_def)
    have rw: "resolve_own env es upd clock m mtxn = (if ?run \<and> \<not> ?mv then Inr (False, None, es)
        else resolve_update env es es ?latest ?w clock m mtxn None ?c ?mv)"
      using kept unfolding eq by (auto simp: or_fail_def mvccMaybeRewriteIntentHistory_def)
    have n: "\<not> (\<not> ?c \<and> \<not> ?run)" using kept(1) by blast
    show ?thesis
    proof (cases "?c \<or> ?mv")
      case True
      then have c: "\<not> (\<not> ?c \<and> \<not> ?mv \<and> \<not> (tx_Epoch mtxn = tx_Epoch (lu_Txn upd) \<and> TxnSeqIsIgnored (tx_Sequence mtxn) ?ign))" by blast
      have "resolve_own env es upd clock m mtxn = resolve_update env es es ?latest ?w clock m mtxn None ?c ?mv" using True ex rw by auto
      then show ?thesis unfolding resolves_to_def kw option.case if_not_P [OF n] if_not_P [OF c]
        using resolve_kept [OF I assms(2) True] by simp
    next
      case False
      then show ?thesis using kept kw rw by (simp add: resolves_to_def)
    qed
  next
    case rolled
    then have ne: "?ign \<noteq> []" by auto
    show ?thesis
    proof (cases "last_kept (meta_IntentHistory m) ?ign (length (meta_IntentHistory m))")
      case None
      then have "resolve_own env es upd clock m mtxn = Inr (True, None, vs)"
        using rolled ne remove unfolding eq by (auto simp: or_fail_def mvccMaybeRewriteIntentHistory_def)
      then show ?thesis using None rolled by (simp add: resolves_to_def kept_write_def surviving_eq Let_def)
    next
      case (Some i)
      let ?h = "meta_IntentHistory m ! i"
      have kw: "kept_write upd m mtxn y = Some ?h" using Some rolled by (simp add: kept_write_def surviving_eq Let_def)
      obtain r x m' where r: "DecodeMVCCValue (we_unmarshalHeader env) (si_Value ?h) = Inr r"
        and run: "resolve_update env es (store_put es ?latest (EncodeMVCCValue (we_marshalHeader env) r)) ?latest
        (fwd ?w ?mt) clock (m\<lparr>meta_Txn := Some (mtxn\<lparr>tx_Sequence := si_Sequence ?h\<rparr>), meta_IntentHistory := take i (meta_IntentHistory m),
          meta_Deleted := IsTombstone r, meta_ValBytes := int (length (si_Value ?h))\<rparr>) (mtxn\<lparr>tx_Sequence := si_Sequence ?h\<rparr>) (Some r) ?c ?mv =
          Inr (True, None, resolved env key (if ?mv then ?w else ?mt) x (if ?c then None else Some m') vs)"
        and x: "carries env x (raw_of env (si_Value ?h))" "meta_Txn m' = Some (mtxn\<lparr>tx_Sequence := si_Sequence ?h, tx_WriteTimestamp := if ?mv then ?w else ?mt\<rparr>)"
        using resolve_restored [OF I assms(2) last_kept_less [OF Some], of upd ?c] by blast
      have "resolve_own env es upd clock m mtxn = Inr (True, None, resolved env key (if ?mv then ?w else ?mt) x (if ?c then None else Some m') vs)"
        using rolled ne run unfolding eq by (auto simp: or_fail_def mvccMaybeRewriteIntentHistory_def Some r Let_def)
      moreover have n: "\<not> (\<not> ?c \<and> \<not> ?run)" "\<not> (\<not> ?c \<and> \<not> ?mv \<and> \<not> (tx_Epoch mtxn = tx_Epoch (lu_Txn upd) \<and> TxnSeqIsIgnored (tx_Sequence mtxn) ?ign))"
        using rolled by blast+
      ultimately show ?thesis unfolding resolves_to_def kw option.case if_not_P [OF n(1)] if_not_P [OF n(2)] using x by blast
    qed
  qed
qed

section \<open>The resolution of an intent\<close>

text \<open>Stored timestamps are positive, and every stored value and every value of a history decodes.\<close>

definition readable :: "writeEnv \<Rightarrow> store \<Rightarrow> bool" where
  "readable env es \<longleftrightarrow> values_ok env es \<and> list_all (\<lambda>e. MVCCKey_IsValue (fst e) \<longrightarrow> Timestamp_Less (mkTs 0 0) (mk_Timestamp (fst e))) es \<and>
     (case stored_meta env es of None \<Rightarrow> True | Some m \<Rightarrow> history_values_ok env (meta_IntentHistory m))"

lemma stored_intent_at:
  assumes "store_ok env key es" "readable env es" "stored_meta env es = Some m"
  obtains mtxn b where "meta_Txn m = Some mtxn" "intent_at env key m mtxn b (snd (es ! 1)) (committed_versions es) es" "we_unmarshalMeta env b = Some m"
  using assms(1)
proof (cases rule: store_shape)
  case committed
  then have "stored_meta env es = None" by (cases es) (simp_all add: stored_meta_def)
  then show thesis using assms(3) by simp
next
  case (intent b m' mtxn e vs)
  have m: "m' = m" using assms(3) intent(1,3) by (simp add: stored_meta_def)
  obtain y where e: "e = (\<lparr>mk_Key = key, mk_Timestamp = tx_WriteTimestamp mtxn\<rparr>, y)" using intent(6,7) by (cases e) simp
  have y: "snd (es ! 1) = y" using intent(1) e by simp
  have "(e \<in> set es)" using intent(1) by simp
  then have "Timestamp_Less (mkTs 0 0) (mk_Timestamp (fst e))" using assms(2) intent(8) unfolding readable_def list_all_iff by blast
  then have pos: "Timestamp_Less (mkTs 0 0) (tx_WriteTimestamp mtxn)" using e by simp
  have hist: "history_values_ok env (meta_IntentHistory m)" "values_ok env es" using assms(2,3) by (simp_all add: readable_def)
  have "intent_at env key m mtxn b y vs es"
    unfolding intent_at_def shape_def using intent(1,5,6,9) pos hist e m by simp
  then have "intent_at env key m mtxn b (snd (es ! 1)) (committed_versions es) es" unfolding y intent(10) .
  then show thesis using that intent(3,5) m by blast
qed

lemma resolve_own_intent:
  assumes "store_ok env key es" "readable env es" "stored_meta env es = Some m" "meta_Txn m = Some mtxn"
    "\<not> Synthetic clock" "Key (lu_Span upd) = key" "tx_ID (lu_Txn upd) = tx_ID mtxn"
  shows "resolves_to env key upd m mtxn (snd (es ! 1)) (committed_versions es) es (mvccResolveWriteIntent env es upd clock)"
proof -
  obtain mtxn' b where i: "meta_Txn m = Some mtxn'" "intent_at env key m mtxn' b (snd (es ! 1)) (committed_versions es) es" "we_unmarshalMeta env b = Some m"
    by (rule stored_intent_at [OF assms(1-3)])
  then have I: "intent_at env key m mtxn b (snd (es ! 1)) (committed_versions es) es" using assms(4) by simp
  have keys: "list_all (\<lambda>e. mk_Key (fst e) = key) es" using assms(1) by (simp add: store_ok_def)
  obtain es0 where es0: "es = (MakeMVCCMetadataKey key, b) # es0" using I unfolding intent_at_def shape_def by blast
  have "mvccGetIntent env es (MakeMVCCMetadataKey key) = Inr (Inr (Some m))"
    using store_seek_meta [OF keys] i(3) by (simp add: mvccGetIntent_def es0)
  then have "mvccResolveWriteIntent env es upd clock = resolve_own env es upd clock m mtxn"
    using assms(4,6,7) by (simp add: mvccResolveWriteIntent_def or_fail_def)
  then show ?thesis using resolve_own_outcome [OF I assms(5,6)] by simp
qed

lemma resolve_nothing:
  assumes "store_ok env key es" "Key (lu_Span upd) = key"
    "case stored_meta env es of None \<Rightarrow> True | Some m \<Rightarrow> (\<forall>mtxn. meta_Txn m = Some mtxn \<longrightarrow> tx_ID (lu_Txn upd) \<noteq> tx_ID mtxn)"
  shows "mvccResolveWriteIntent env es upd clock = Inr (False, None, es)"
proof -
  have "list_all (\<lambda>e. mk_Key (fst e) = key) es" using assms(1) by (simp add: store_ok_def)
  note seek = store_seek_meta [OF this]
  from assms(1) show ?thesis
  proof (cases rule: store_shape)
    case committed
    then have "mvccGetIntent env es (MakeMVCCMetadataKey key) = Inr (Inr None)"
      using seek by (cases es) (auto simp: mvccGetIntent_def)
    then show ?thesis using assms(2) by (simp add: mvccResolveWriteIntent_def or_fail_def)
  next
    case (intent b m mtxn e vs)
    then have "mvccGetIntent env es (MakeMVCCMetadataKey key) = Inr (Inr (Some m))" using seek by (simp add: mvccGetIntent_def)
    moreover have "tx_ID (lu_Txn upd) \<noteq> tx_ID mtxn" using assms(3) intent by (simp add: stored_meta_def)
    ultimately show ?thesis using assms(2) intent(5) by (simp add: mvccResolveWriteIntent_def or_fail_def)
  qed
qed

text \<open>
  C8. On well-formed entries whose values decode, the resolution of an intent touches nothing but an intent of the transaction
  it is for. If the update neither commits that intent nor finds its transaction running in its epoch (it is aborted, committed in
  another epoch or below the intent, or running in a later epoch), or if all writes of the intent are rolled back, then the
  intent goes away with its provisional value and exactly the committed versions stay. If it commits, the newest write that is not rolled back becomes the newest committed version, at the intent's timestamp or the
  later one of the commit. If the transaction is still running, the intent stays, moved up to a later timestamp of the update and
  rolled back to its newest write that is left; nothing changes when there is neither to do. The committed versions are never touched.
\<close>

theorem resolution_outcome:
  assumes "store_ok env key es" "readable env es" "\<not> Synthetic clock" "Key (lu_Span upd) = key"
  defines "R \<equiv> mvccResolveWriteIntent env es upd clock" and "vs \<equiv> committed_versions es" and "w \<equiv> tx_WriteTimestamp (lu_Txn upd)"
  shows "((\<forall>m mtxn. stored_meta env es = Some m \<and> meta_Txn m = Some mtxn \<longrightarrow> tx_ID (lu_Txn upd) \<noteq> tx_ID mtxn) \<longrightarrow> R = Inr (False, None, es)) \<and>
    (\<forall>m mtxn. stored_meta env es = Some m \<and> meta_Txn m = Some mtxn \<and> tx_ID (lu_Txn upd) = tx_ID mtxn \<longrightarrow>
      (let kept = kept_write upd m mtxn (snd (es ! 1)); ts = (if moves upd mtxn then w else tx_WriteTimestamp mtxn);
           rolled = (tx_Epoch mtxn = tx_Epoch (lu_Txn upd) \<and> TxnSeqIsIgnored (tx_Sequence mtxn) (lu_IgnoredSeqNums upd)) in
       (\<not> commits upd mtxn \<and> \<not> running upd mtxn \<or> kept = None \<longrightarrow> R = Inr (True, None, vs)) \<and>
       (commits upd mtxn \<longrightarrow> (\<forall>h. kept = Some h \<longrightarrow>
          (\<exists>x. R = Inr (True, None, (\<lparr>mk_Key = key, mk_Timestamp = ts\<rparr>, x) # vs) \<and> carries env x (raw_of env (si_Value h))))) \<and>
       (running upd mtxn \<longrightarrow> (\<forall>h. kept = Some h \<longrightarrow>
          (if moves upd mtxn \<or> rolled
           then (\<exists>x m'. R = Inr (True, None, (MakeMVCCMetadataKey key, we_marshalMeta env m') # (\<lparr>mk_Key = key, mk_Timestamp = ts\<rparr>, x) # vs) \<and>
                  carries env x (raw_of env (si_Value h)) \<and> meta_Txn m' = Some (mtxn\<lparr>tx_Sequence := si_Sequence h, tx_WriteTimestamp := ts\<rparr>))
           else R = Inr (False, None, es))))))"
proof (intro conjI allI impI)
  assume a: "\<forall>m mtxn. stored_meta env es = Some m \<and> meta_Txn m = Some mtxn \<longrightarrow> tx_ID (lu_Txn upd) \<noteq> tx_ID mtxn"
  show "R = Inr (False, None, es)" unfolding R_def
    by (rule resolve_nothing [OF assms(1,4)]) (use a in \<open>auto split: option.split\<close>)
next
  fix m mtxn assume a: "stored_meta env es = Some m \<and> meta_Txn m = Some mtxn \<and> tx_ID (lu_Txn upd) = tx_ID mtxn"
  define y where "y = snd (es ! 1)"
  have out: "resolves_to env key upd m mtxn y vs es R"
    unfolding R_def vs_def y_def by (rule resolve_own_intent [OF assms(1,2)]) (use a assms(3,4) in simp_all)
  have ex: "\<not> (commits upd mtxn \<and> running upd mtxn)" by (auto simp: commits_def running_def IsFinalized_def)
  show "let kept = kept_write upd m mtxn (snd (es ! 1)); ts = (if moves upd mtxn then w else tx_WriteTimestamp mtxn);
           rolled = (tx_Epoch mtxn = tx_Epoch (lu_Txn upd) \<and> TxnSeqIsIgnored (tx_Sequence mtxn) (lu_IgnoredSeqNums upd)) in
       (\<not> commits upd mtxn \<and> \<not> running upd mtxn \<or> kept = None \<longrightarrow> R = Inr (True, None, vs)) \<and>
       (commits upd mtxn \<longrightarrow> (\<forall>h. kept = Some h \<longrightarrow>
          (\<exists>x. R = Inr (True, None, (\<lparr>mk_Key = key, mk_Timestamp = ts\<rparr>, x) # vs) \<and> carries env x (raw_of env (si_Value h))))) \<and>
       (running upd mtxn \<longrightarrow> (\<forall>h. kept = Some h \<longrightarrow>
          (if moves upd mtxn \<or> rolled
           then (\<exists>x m'. R = Inr (True, None, (MakeMVCCMetadataKey key, we_marshalMeta env m') # (\<lparr>mk_Key = key, mk_Timestamp = ts\<rparr>, x) # vs) \<and>
                  carries env x (raw_of env (si_Value h)) \<and> meta_Txn m' = Some (mtxn\<lparr>tx_Sequence := si_Sequence h, tx_WriteTimestamp := ts\<rparr>))
           else R = Inr (False, None, es))))"
    unfolding Let_def y_def [symmetric]
  proof (intro conjI allI impI)
    assume "\<not> commits upd mtxn \<and> \<not> running upd mtxn \<or> kept_write upd m mtxn y = None"
    then show "R = Inr (True, None, vs)" using out unfolding resolves_to_def by (elim disjE) (simp_all split: if_split_asm)
  next
    fix h assume c: "commits upd mtxn" and h: "kept_write upd m mtxn y = Some h"
    from out show "\<exists>x. R = Inr (True, None, (\<lparr>mk_Key = key, mk_Timestamp = if moves upd mtxn then w else tx_WriteTimestamp mtxn\<rparr>, x) # vs) \<and>
        carries env x (raw_of env (si_Value h))" unfolding resolves_to_def using c h by (auto simp: resolved_def w_def)
  next
    fix h assume r: "running upd mtxn" and h: "kept_write upd m mtxn y = Some h"
    have n: "\<not> (\<not> commits upd mtxn \<and> \<not> running upd mtxn)" "\<not> commits upd mtxn" using r ex by blast+
    from out show "if moves upd mtxn \<or> (tx_Epoch mtxn = tx_Epoch (lu_Txn upd) \<and> TxnSeqIsIgnored (tx_Sequence mtxn) (lu_IgnoredSeqNums upd))
       then (\<exists>x m'. R = Inr (True, None, (MakeMVCCMetadataKey key, we_marshalMeta env m') #
                (\<lparr>mk_Key = key, mk_Timestamp = if moves upd mtxn then w else tx_WriteTimestamp mtxn\<rparr>, x) # vs) \<and>
              carries env x (raw_of env (si_Value h)) \<and>
              meta_Txn m' = Some (mtxn\<lparr>tx_Sequence := si_Sequence h, tx_WriteTimestamp := if moves upd mtxn then w else tx_WriteTimestamp mtxn\<rparr>))
       else R = Inr (False, None, es)"
      unfolding resolves_to_def if_not_P [OF n(1)] h option.case using n(2) by (auto simp: resolved_def w_def split: if_split_asm)
  qed
qed

text \<open>The write of the example transaction is committed at a later timestamp.\<close>

theorem resolution_outcome_witness:
  "\<exists>x. mvccResolveWriteIntent (example_env example_meta)
      [(MakeMVCCMetadataKey [1], [1]), (\<lparr>mk_Key = [1], mk_Timestamp = mkTs 5 0\<rparr>, [0, 0, 0, 0, 3, 67])]
      \<lparr>lu_Span = \<lparr>Key = [1], EndKey = None\<rparr>, lu_Txn = (tx_Meta example_txn)\<lparr>tx_WriteTimestamp := mkTs 6 0\<rparr>, lu_Status = COMMITTED, lu_IgnoredSeqNums = []\<rparr> (mkTs 0 0) =
      Inr (True, None, [(\<lparr>mk_Key = [1], mk_Timestamp = mkTs 6 0\<rparr>, x)]) \<and> carries (example_env example_meta) x [0, 0, 0, 0, 3, 67]"
proof -
  let ?e = "example_env example_meta" and ?v = "[0, 0, 0, 0, 3, 67] :: bytes"
  let ?es = "[(MakeMVCCMetadataKey [1], [1]), (\<lparr>mk_Key = [1], mk_Timestamp = mkTs 5 0\<rparr>, ?v)] :: store"
  let ?u = "\<lparr>lu_Span = \<lparr>Key = [1], EndKey = None\<rparr>, lu_Txn = (tx_Meta example_txn)\<lparr>tx_WriteTimestamp := mkTs 6 0\<rparr>, lu_Status = COMMITTED, lu_IgnoredSeqNums = []\<rparr>"
  have m: "we_unmarshalMeta ?e [1] = Some example_meta" "meta_Txn example_meta = Some (tx_Meta example_txn)" "meta_RawBytes example_meta = None"
    "LegacyTimestamp_ToTimestamp (meta_Timestamp example_meta) = mkTs 5 0" "tx_WriteTimestamp (tx_Meta example_txn) = mkTs 5 0"
    "meta_IntentHistory example_meta = []"
    by (simp_all add: example_env_def example_meta_def emptyMeta_def example_txn_def)
  have ok: "store_ok ?e [1] ?es"
    by (simp add: store_ok_def entries_ok_def intent_ok_def m same_key_less version_key_value Timestamp_IsEmpty_def MakeMVCCMetadataKey_def
        MVCCKey_IsValue_def valid_ts_def in64_def in32_def go_limits)
  have d: "DecodeMVCCValue (we_unmarshalHeader ?e) ?v = Inr \<lparr>mv_Header = noHeader, mv_RawBytes = ?v\<rparr>" "EncodedMVCCValueIsTombstone ?v = Inr False"
    by (simp_all add: DecodeMVCCValue_def tryDecodeSimpleMVCCValue_def EncodedMVCCValueIsTombstone_def value_sizes)
  have sm: "stored_meta ?e ?es = Some example_meta" by (simp add: stored_meta_def m)
  have rd: "readable ?e ?es"
    by (simp add: readable_def values_ok_def sm m history_values_ok_def d is_ok_iff version_key_value Timestamp_IsEmpty_def Timestamp_Less_def noHeader_def)
      (rule exI [of _ False], simp)
  have c: "commits ?u (tx_Meta example_txn)" "moves ?u (tx_Meta example_txn)"
    by (simp_all add: commits_def moves_def m Timestamp_LessEq_def Timestamp_Less_def)
  have k: "kept_write ?u example_meta (tx_Meta example_txn) ?v = Some \<lparr>si_Sequence = tx_Sequence (tx_Meta example_txn), si_Value = ?v\<rparr>"
    by (simp add: kept_write_def surviving_eq Let_def)
  have r: "raw_of ?e ?v = ?v" by (simp add: raw_of_def d)
  have cv: "committed_versions ?es = []" by (simp add: committed_versions_def)
  from conjunct2 [OF resolution_outcome [OF ok rd, of "mkTs 0 0" ?u]] sm m(2) c k r cv
  show ?thesis by (simp add: Let_def)
qed

end
