(* ===== verification/Go_Heap.thy ===== *)
theory Go_Heap
  imports Prelude "HOL-Library.Multiset"
begin

text \<open>
  The binary heaps of Go's standard library, \<open>container/heap\<close>, as the source uses them: sifting up and down,
  \<open>Push\<close>, \<open>Remove\<close> and \<open>Fix\<close> over the methods \<open>Less\<close>, \<open>Swap\<close>, \<open>Push\<close>, \<open>Pop\<close> and \<open>Len\<close> of a client. The state of
  the client is arbitrary, because its \<open>Swap\<close> also writes the positions that its elements keep of themselves. The
  contract that a client fulfils is a locale, in which the heap is shown correct once; the clients are the
  queue of unresolved transactions of a rangefeed and the reference tracker of closed timestamps.
\<close>

section \<open>The operations\<close>

function heap_up :: "('s \<Rightarrow> nat \<Rightarrow> nat \<Rightarrow> bool) \<Rightarrow> ('s \<Rightarrow> nat \<Rightarrow> nat \<Rightarrow> 's) \<Rightarrow> 's \<Rightarrow> nat \<Rightarrow> 's" where
  "heap_up lt swap s j =
     (let i = (j - 1) div 2 in
      if i = j \<or> \<not> lt s j i then s else heap_up lt swap (swap s i j) i)"
  by pat_completeness auto
termination
proof (relation "measure (\<lambda>(lt, swap, s, j). j)")
  show "((lt, swap, swap s i j, i), lt, swap, s, j) \<in> measure (\<lambda>(lt, swap, s, j). j)"
    if i: "i = (j - 1) div 2" and stop: "\<not> (i = j \<or> \<not> lt s j i)" for lt :: "'s \<Rightarrow> nat \<Rightarrow> nat \<Rightarrow> bool" and swap s i j
  proof -
    have "i \<le> j" using i by simp
    then show ?thesis using stop by simp
  qed
qed simp

function heap_down :: "('s \<Rightarrow> nat \<Rightarrow> nat \<Rightarrow> bool) \<Rightarrow> ('s \<Rightarrow> nat \<Rightarrow> nat \<Rightarrow> 's) \<Rightarrow> 's \<Rightarrow> nat \<Rightarrow> nat \<Rightarrow> 's \<times> nat" where
  "heap_down lt swap s i n =
     (let j1 = 2 * i + 1 in
      if j1 \<ge> n then (s, i)
      else
        (let j = (if j1 + 1 < n \<and> lt s (j1 + 1) j1 then j1 + 1 else j1) in
         if \<not> lt s j i then (s, i) else heap_down lt swap (swap s i j) j n))"
  by pat_completeness auto
termination
  by (relation "measure (\<lambda>(lt, swap, s, i, n). n - i)") (auto split: if_splits)

declare heap_up.simps [simp del] heap_down.simps [simp del]

definition heap_Push :: "('s \<Rightarrow> nat \<Rightarrow> nat \<Rightarrow> bool) \<Rightarrow> ('s \<Rightarrow> nat \<Rightarrow> nat \<Rightarrow> 's) \<Rightarrow> ('s \<Rightarrow> nat) \<Rightarrow> ('s \<Rightarrow> 'x \<Rightarrow> 's) \<Rightarrow> 's \<Rightarrow> 'x \<Rightarrow> 's" where
  "heap_Push lt swap len push s x = (let s = push s x in heap_up lt swap s (len s - 1))"

definition heap_sift :: "('s \<Rightarrow> nat \<Rightarrow> nat \<Rightarrow> bool) \<Rightarrow> ('s \<Rightarrow> nat \<Rightarrow> nat \<Rightarrow> 's) \<Rightarrow> 's \<Rightarrow> nat \<Rightarrow> nat \<Rightarrow> 's" where
  "heap_sift lt swap s i n = (case heap_down lt swap s i n of (s', i') \<Rightarrow> if i' > i then s' else heap_up lt swap s' i)"

definition heap_Fix :: "('s \<Rightarrow> nat \<Rightarrow> nat \<Rightarrow> bool) \<Rightarrow> ('s \<Rightarrow> nat \<Rightarrow> nat \<Rightarrow> 's) \<Rightarrow> ('s \<Rightarrow> nat) \<Rightarrow> 's \<Rightarrow> nat \<Rightarrow> 's" where
  "heap_Fix lt swap len s i = heap_sift lt swap s i (len s)"

definition heap_Remove :: "('s \<Rightarrow> nat \<Rightarrow> nat \<Rightarrow> bool) \<Rightarrow> ('s \<Rightarrow> nat \<Rightarrow> nat \<Rightarrow> 's) \<Rightarrow> ('s \<Rightarrow> nat) \<Rightarrow> ('s \<Rightarrow> 's) \<Rightarrow> 's \<Rightarrow> nat \<Rightarrow> 's" where
  "heap_Remove lt swap len pop s i =
     (let n = len s - 1; s' = (if n \<noteq> i then heap_sift lt swap (swap s i n) i n else s) in pop s')"

section \<open>The contract of a client\<close>

abbreviation hpar :: "nat \<Rightarrow> nat" where "hpar c \<equiv> (c - 1) div 2"

lemma hpar_less: "0 < c \<Longrightarrow> hpar c < c"
  by (simp add: less_mult_imp_div_less)

lemma hpar_children: "hpar c = i \<Longrightarrow> 0 < c \<Longrightarrow> c = 2 * i + 1 \<or> c = 2 * i + 2"
  by presburger

definition list_swap :: "'a list \<Rightarrow> nat \<Rightarrow> nat \<Rightarrow> 'a list" where
  "list_swap xs i j = xs[i := xs ! j, j := xs ! i]"

lemma list_swap_simps [simp]:
  "length (list_swap xs i j) = length xs"
  "i < length xs \<Longrightarrow> j < length xs \<Longrightarrow> mset (list_swap xs i j) = mset xs"
  "i < length xs \<Longrightarrow> j < length xs \<Longrightarrow> set (list_swap xs i j) = set xs"
  "i < length xs \<Longrightarrow> j < length xs \<Longrightarrow> c < length xs \<Longrightarrow> list_swap xs i j ! c = xs ! (if c = i then j else if c = j then i else c)"
  by (auto simp: list_swap_def mset_swap nth_list_update intro: mset_eq_setD)

locale heap_client =
  fixes items :: "'s \<Rightarrow> 'a list" and key :: "'s \<Rightarrow> 'a \<Rightarrow> 'k :: linorder" and ok :: "'s \<Rightarrow> bool"
    and lt :: "'s \<Rightarrow> nat \<Rightarrow> nat \<Rightarrow> bool" and swap :: "'s \<Rightarrow> nat \<Rightarrow> nat \<Rightarrow> 's"
  assumes lt: "i < length (items s) \<Longrightarrow> j < length (items s) \<Longrightarrow> lt s i j \<longleftrightarrow> key s (items s ! i) < key s (items s ! j)"
    and items_swap: "i < length (items s) \<Longrightarrow> j < length (items s) \<Longrightarrow> items (swap s i j) = list_swap (items s) i j"
    and key_swap: "i < length (items s) \<Longrightarrow> j < length (items s) \<Longrightarrow> key (swap s i j) = key s"
    and ok_swap: "ok s \<Longrightarrow> i < length (items s) \<Longrightarrow> j < length (items s) \<Longrightarrow> i \<noteq> j \<Longrightarrow> ok (swap s i j)"
begin

abbreviation K :: "'s \<Rightarrow> nat \<Rightarrow> 'k" where "K s c \<equiv> key s (items s ! c)"

definition is_heap :: "'s \<Rightarrow> nat \<Rightarrow> bool" where
  "is_heap s n \<longleftrightarrow> (\<forall>c. 0 < c \<and> c < n \<longrightarrow> K s (hpar c) \<le> K s c)"

text \<open>A heap but for position \<open>i\<close>, whose value may be anything.\<close>

definition near :: "'s \<Rightarrow> nat \<Rightarrow> nat \<Rightarrow> bool" where
  "near s i n \<longleftrightarrow> (\<forall>c. 0 < c \<and> c < n \<and> c \<noteq> i \<and> hpar c \<noteq> i \<longrightarrow> K s (hpar c) \<le> K s c) \<and>
     (\<forall>c. 0 < c \<and> c < n \<and> hpar c = i \<and> 0 < i \<longrightarrow> K s (hpar i) \<le> K s c)"

text \<open>What sifting leaves unchanged, the first \<open>n\<close> elements being those it works on.\<close>

definition kept :: "nat \<Rightarrow> 's \<Rightarrow> 's \<Rightarrow> bool" where
  "kept n s t \<longleftrightarrow> length (items t) = length (items s) \<and> mset (items t) = mset (items s) \<and> drop n (items t) = drop n (items s) \<and>
     key t = key s \<and> (ok s \<longrightarrow> ok t)"

lemma kept_refl [simp]: "kept n s s"
  by (simp add: kept_def)

lemma kept_set: "kept n s t \<Longrightarrow> set (items t) = set (items s)"
  unfolding kept_def by (metis mset_eq_setD)

lemma kept_trans: "kept n s t \<Longrightarrow> kept n t u \<Longrightarrow> kept n s u"
  by (simp add: kept_def)

lemma kept_swap: "i < n \<Longrightarrow> j < n \<Longrightarrow> i \<noteq> j \<Longrightarrow> n \<le> length (items s) \<Longrightarrow> kept n s (swap s i j)"
  using ok_swap by (auto simp: kept_def items_swap key_swap list_swap_def mset_swap)

lemma K_swap:
  "i < length (items s) \<Longrightarrow> j < length (items s) \<Longrightarrow> c < length (items s) \<Longrightarrow> K (swap s i j) c = K s (if c = i then j else if c = j then i else c)"
  by (simp add: items_swap key_swap)

lemma swap_up:
  assumes "near s j n" "j < n" "n \<le> length (items s)" "\<forall>c. 0 < c \<and> c < n \<and> hpar c = j \<longrightarrow> K s j \<le> K s c"
    and "0 < j" "K s j < K s (hpar j)"
  shows "near (swap s (hpar j) j) (hpar j) n" "\<forall>c. 0 < c \<and> c < n \<and> hpar c = hpar j \<longrightarrow> K (swap s (hpar j) j) (hpar j) \<le> K (swap s (hpar j) j) c"
proof -
  let ?p = "hpar j" and ?t = "swap s (hpar j) j"
  have p: "?p < j" using hpar_less [OF assms(5)] .
  have K: "K ?t c = K s (if c = ?p then j else if c = j then ?p else c)" if "c < n" for c
    using K_swap [of ?p s j c] that p assms(2,3) by simp
  have up: "K s (hpar c) \<le> K s c" if "0 < c" "c < n" "c \<noteq> j" "hpar c \<noteq> j" for c
    using assms(1) that by (simp add: near_def)
  have down: "K s ?p \<le> K s c" if "0 < c" "c < n" "hpar c = j" for c
    using assms(1,5) that by (simp add: near_def)
  show "\<forall>c. 0 < c \<and> c < n \<and> hpar c = ?p \<longrightarrow> K ?t ?p \<le> K ?t c"
  proof (intro allI impI)
    fix c assume c: "0 < c \<and> c < n \<and> hpar c = ?p"
    show "K ?t ?p \<le> K ?t c"
    proof (cases "c = j")
      case True
      then show ?thesis using K [of ?p] K [of j] p assms(2,6) by simp
    next
      case False
      then have "K s ?p \<le> K s c" using up [of c] c p by simp
      moreover have "c \<noteq> ?p" using c hpar_less [of c] by auto
      ultimately show ?thesis using K [of ?p] K [of c] c False p assms(2,6) by simp
    qed
  qed
  show "near ?t ?p n" unfolding near_def
  proof (intro conjI allI impI; elim conjE)
    fix c assume c: "0 < c" "c < n" "c \<noteq> ?p" "hpar c \<noteq> ?p"
    then have "c \<noteq> j" "hpar c < c" using hpar_less [of c] by auto
    then show "K ?t (hpar c) \<le> K ?t c"
      using c K [of c] K [of "hpar c"] up [of c] down [of c] p by (cases "hpar c = j") auto
  next
    fix c assume c: "0 < c" "c < n" "hpar c = ?p" "0 < ?p"
    have h: "hpar ?p < ?p" "hpar c < c" using hpar_less c by blast+
    have "K s (hpar ?p) \<le> K s ?p" using up [of ?p] c(4) p h(1) assms(2) by simp
    moreover have "K s ?p \<le> K s c" if "c \<noteq> j" using up [of c] that c p by simp
    moreover have "K ?t (hpar ?p) = K s (hpar ?p)" using K [of "hpar ?p"] h(1) p assms(2) by simp
    moreover have "K ?t c = (if c = j then K s ?p else K s c)" using K [of c] c(2,3) h(2) by auto
    ultimately show "K ?t (hpar ?p) \<le> K ?t c" by (auto intro: order_trans)
  qed
qed

lemma near_heap:
  assumes "near s i n" "\<forall>c. 0 < c \<and> c < n \<and> hpar c = i \<longrightarrow> K s i \<le> K s c" "0 < i \<Longrightarrow> i < n \<Longrightarrow> K s (hpar i) \<le> K s i"
  shows "is_heap s n"
  unfolding is_heap_def
proof (intro allI impI; elim conjE)
  fix c assume "0 < c" "c < n"
  then show "K s (hpar c) \<le> K s c"
    using assms by (cases "c = i"; cases "hpar c = i") (auto simp: near_def)
qed

lemma heap_up_correct:
  "near s j n \<Longrightarrow> j < n \<Longrightarrow> n \<le> length (items s) \<Longrightarrow> \<forall>c. 0 < c \<and> c < n \<and> hpar c = j \<longrightarrow> K s j \<le> K s c \<Longrightarrow>
   is_heap (heap_up lt swap s j) n \<and> kept n s (heap_up lt swap s j)"
proof (induction j arbitrary: s rule: less_induct)
  case (less j)
  let ?p = "hpar j"
  show ?case
  proof (cases "?p = j \<or> \<not> lt s j ?p")
    case True
    have "K s ?p \<le> K s j" if "0 < j"
      using True hpar_less [OF that] lt [of j s ?p] less.prems(2,3) by simp
    then have "is_heap s n" using near_heap [OF less.prems(1,4)] by blast
    then show ?thesis using True by (simp add: heap_up.simps [of lt swap s j])
  next
    case False
    then have j: "0 < j" by auto
    then have p: "?p < j" by (rule hpar_less)
    have K: "K s j < K s ?p" using False lt [of j s ?p] less.prems(2,3) p by simp
    note sw = swap_up [OF less.prems j K] and kp = kept_swap [of ?p n j s]
    have k: "kept n s (swap s ?p j)" using kp p less.prems(2,3) by simp
    then have "n \<le> length (items (swap s ?p j))" using less.prems(3) by (simp add: kept_def)
    from less.IH [OF p sw(1) _ this sw(2)] p less.prems(2)
    have "is_heap (heap_up lt swap (swap s ?p j) ?p) n \<and> kept n (swap s ?p j) (heap_up lt swap (swap s ?p j) ?p)" by simp
    moreover have "heap_up lt swap s j = heap_up lt swap (swap s ?p j) ?p" unfolding heap_up.simps [of lt swap s j] Let_def using False by simp
    ultimately show ?thesis using kept_trans [OF k] by simp
  qed
qed

text \<open>One step down: \<open>j\<close> is the child of \<open>i\<close> with the least value.\<close>

lemma swap_down:
  assumes "near s i n" "n \<le> length (items s)" "j < n" "hpar j = i" "0 < j" "K s j < K s i" "\<forall>c. 0 < c \<and> c < n \<and> hpar c = i \<longrightarrow> K s j \<le> K s c"
  shows "near (swap s i j) j n" "K (swap s i j) i \<le> K (swap s i j) j"
proof -
  let ?t = "swap s i j"
  have i: "i < j" using hpar_less [OF assms(5)] assms(4) by simp
  have K: "K ?t c = K s (if c = i then j else if c = j then i else c)" if "c < n" for c
    using K_swap [of i s j c] that i assms(2,3) by simp
  have up: "K s (hpar c) \<le> K s c" if "0 < c" "c < n" "c \<noteq> i" "hpar c \<noteq> i" for c
    using assms(1) that by (simp add: near_def)
  have down: "K s (hpar i) \<le> K s c" if "0 < c" "c < n" "hpar c = i" "0 < i" for c
    using assms(1) that by (simp add: near_def)
  show "K ?t i \<le> K ?t j" using K [of i] K [of j] i assms(3,6) by simp
  show "near ?t j n" unfolding near_def
  proof (intro conjI allI impI; elim conjE)
    fix c assume c: "0 < c" "c < n" "c \<noteq> j" "hpar c \<noteq> j"
    have h: "hpar c < c" using hpar_less c by blast
    consider (here) "c = i" | (sib) "c \<noteq> i" "hpar c = i" | (far) "c \<noteq> i" "hpar c \<noteq> i" by blast
    then show "K ?t (hpar c) \<le> K ?t c"
    proof cases
      case here
      then show ?thesis using down [of j] K [of i] K [of "hpar i"] c h assms(3,4,5) i by simp
    next
      case sib
      then show ?thesis using assms(7) K [of i] K [of c] c h by simp
    next
      case far
      then show ?thesis using up [of c] K [of c] K [of "hpar c"] c h by simp
    qed
  next
    fix c assume c: "0 < c" "c < n" "hpar c = j" "0 < j"
    have h: "j < c" using hpar_less c by blast
    then show "K ?t (hpar j) \<le> K ?t c"
      using up [of c] K [of i] K [of c] c i assms(4) by simp
  qed
qed

lemma least_child:
  assumes "2 * i + 1 < n" "n \<le> length (items s)"
    and "j = (if 2 * i + 1 + 1 < n \<and> lt s (2 * i + 1 + 1) (2 * i + 1) then 2 * i + 1 + 1 else 2 * i + 1)"
  shows "hpar j = i" "0 < j" "j < n" "\<forall>c. 0 < c \<and> c < n \<and> hpar c = i \<longrightarrow> K s j \<le> K s c"
proof -
  show "hpar j = i" "0 < j" "j < n" using assms(1,3) by (auto split: if_splits)
  show "\<forall>c. 0 < c \<and> c < n \<and> hpar c = i \<longrightarrow> K s j \<le> K s c"
  proof (intro allI impI)
    fix c assume c: "0 < c \<and> c < n \<and> hpar c = i"
    then have "c = 2 * i + 1 \<or> c = 2 * i + 1 + 1" using hpar_children [of c i] by simp
    then show "K s j \<le> K s c"
      using c assms lt [of "2 * i + 1 + 1" s "2 * i + 1"] by (auto simp: not_less)
  qed
qed

lemma heap_down_correct:
  assumes "near s i n" "i < n" "n \<le> length (items s)" "heap_down lt swap s i n = (t, e)"
  shows "kept n s t \<and> i \<le> e \<and> (e = i \<longrightarrow> t = s \<and> (\<forall>c. 0 < c \<and> c < n \<and> hpar c = i \<longrightarrow> K s i \<le> K s c)) \<and>
    (i < e \<or> (0 < i \<longrightarrow> K s (hpar i) \<le> K s i) \<longrightarrow> is_heap t n)"
  using assms
proof (induction "n - i" arbitrary: s i rule: less_induct)
  case less
  define j where "j = (if 2 * i + 1 + 1 < n \<and> lt s (2 * i + 1 + 1) (2 * i + 1) then 2 * i + 1 + 1 else 2 * i + 1)"
  have stay: "is_heap s n" if "\<forall>c. 0 < c \<and> c < n \<and> hpar c = i \<longrightarrow> K s i \<le> K s c" "0 < i \<longrightarrow> K s (hpar i) \<le> K s i"
    using near_heap [OF less.prems(1) that(1)] that(2) by blast
  show ?case
  proof (cases "2 * i + 1 \<ge> n")
    case True
    then have "t = s" "e = i" using less.prems(4) by (auto simp: heap_down.simps [of lt swap s i n])
    moreover have none: "\<forall>c. 0 < c \<and> c < n \<and> hpar c = i \<longrightarrow> K s i \<le> K s c" using True hpar_children [of _ i] by fastforce
    ultimately show ?thesis using stay [OF none] none by simp
  next
    case False
    then have lc: "hpar j = i" "0 < j" "j < n" "\<forall>c. 0 < c \<and> c < n \<and> hpar c = i \<longrightarrow> K s j \<le> K s c"
      using least_child [OF _ less.prems(3) j_def] by auto
    have i: "i < j" using hpar_less [OF lc(2)] lc(1) by simp
    have run: "heap_down lt swap s i n = (if \<not> lt s j i then (s, i) else heap_down lt swap (swap s i j) j n)"
      unfolding heap_down.simps [of lt swap s i n] Let_def j_def [symmetric] using False by simp
    have ltK: "lt s j i \<longleftrightarrow> K s j < K s i" using lt [of j s i] lc(3) less.prems(2,3) by simp
    show ?thesis
    proof (cases "lt s j i")
      case no: False
      then have te: "t = s" "e = i" using less.prems(4) run by auto
      have kids: "\<forall>c. 0 < c \<and> c < n \<and> hpar c = i \<longrightarrow> K s i \<le> K s c"
      proof (intro allI impI)
        fix c assume "0 < c \<and> c < n \<and> hpar c = i"
        then have "K s j \<le> K s c" using lc(4) by blast
        moreover have "K s i \<le> K s j" using no ltK by simp
        ultimately show "K s i \<le> K s c" by simp
      qed
      show ?thesis using stay [OF kids] kids te by simp
    next
      case yes: True
      note sw = swap_down [OF less.prems(1,3) lc(3,1,2) ltK [THEN iffD1, OF yes] lc(4)]
      have k: "kept n s (swap s i j)" using kept_swap [of i n j s] less.prems(2,3) lc(3) i by simp
      then have "n \<le> length (items (swap s i j))" using less.prems(3) by (simp add: kept_def)
      moreover have "n - j < n - i" "heap_down lt swap (swap s i j) j n = (t, e)" using run less.prems(2,4) yes i by simp_all
      ultimately have "kept n (swap s i j) t" "j \<le> e" "is_heap t n" using less.hyps [OF _ sw(1) lc(3)] sw(2) lc(1) by blast+
      then show ?thesis using kept_trans [OF k] i by simp
    qed
  qed
qed

lemma heap_sift_correct:
  assumes "near s i n" "i < n" "n \<le> length (items s)"
  shows "is_heap (heap_sift lt swap s i n) n \<and> kept n s (heap_sift lt swap s i n)"
proof (cases "heap_down lt swap s i n")
  case (Pair t e)
  note d = heap_down_correct [OF assms Pair]
  show ?thesis
  proof (cases "i < e")
    case True
    then show ?thesis using d by (simp add: heap_sift_def Pair)
  next
    case False
    then have "e = i" using d by auto
    then show ?thesis using d heap_up_correct [OF assms] by (simp add: heap_sift_def Pair)
  qed
qed

lemma near_update:
  assumes "is_heap s n" "\<And>c. c < n \<Longrightarrow> c \<noteq> i \<Longrightarrow> K t c = K s c" "i < n"
  shows "near t i n"
  unfolding near_def
proof (intro conjI allI impI; elim conjE)
  fix c assume c: "0 < c" "c < n" "c \<noteq> i" "hpar c \<noteq> i"
  then show "K t (hpar c) \<le> K t c"
    using assms(1,2) hpar_less [of c] unfolding is_heap_def by (metis less_trans)
next
  fix c assume c: "0 < c" "c < n" "hpar c = i" "0 < i"
  have "hpar i < i" "i < c" using hpar_less c by blast+
  moreover have "K s (hpar i) \<le> K s i" "K s i \<le> K s c" using assms(1,3) c unfolding is_heap_def by blast+
  ultimately show "K t (hpar i) \<le> K t c" using assms(2) [of "hpar i"] assms(2) [of c] assms(3) c by simp
qed

text \<open>The root of a heap is least.\<close>

lemma heap_root: "is_heap s n \<Longrightarrow> c < n \<Longrightarrow> K s 0 \<le> K s c"
proof (induction c rule: less_induct)
  case (less c)
  show ?case
  proof (cases "c = 0")
    case False
    then have "hpar c < c" using hpar_less by blast
    then have "K s 0 \<le> K s (hpar c)" using less by simp
    also have "\<dots> \<le> K s c" using less.prems False by (simp add: is_heap_def)
    finally show ?thesis .
  qed simp
qed

lemma heap_Push_correct:
  assumes "is_heap s n" "length (items s) = n + 1"
  shows "is_heap (heap_up lt swap s n) (n + 1) \<and> kept (n + 1) s (heap_up lt swap s n)"
proof (rule heap_up_correct)
  have c: "hpar c \<noteq> n" if "0 < c" "c < n + 1" for c using hpar_less [of c] that by simp
  then show "near s n (n + 1)" "\<forall>c. 0 < c \<and> c < n + 1 \<and> hpar c = n \<longrightarrow> K s n \<le> K s c"
    using assms(1) by (auto simp: near_def is_heap_def less_Suc_eq)
qed (simp_all add: assms(2))

end

locale heap_client_pop = heap_client +
  fixes len :: "'a \<Rightarrow> nat" and pop :: "'a \<Rightarrow> 'a"
  assumes len: "len s = length (items s)"
    and pop: "items s \<noteq> [] \<Longrightarrow> items (pop s) = butlast (items s)" "items s \<noteq> [] \<Longrightarrow> key (pop s) = key s" "ok s \<Longrightarrow> items s \<noteq> [] \<Longrightarrow> ok (pop s)"
begin

lemma heap_Fix_correct:
  assumes "near s i (length (items s))" "i < length (items s)"
  shows "is_heap (heap_Fix lt swap len s i) (length (items s)) \<and> kept (length (items s)) s (heap_Fix lt swap len s i)"
  using heap_sift_correct [OF assms] by (simp add: heap_Fix_def len)

lemma kept_last:
  assumes "kept n s t" "length (items s) = n + 1"
  shows "last (items t) = last (items s)" "mset (butlast (items t)) = mset (items s) - {#last (items s)#}"
proof -
  have ne: "items t \<noteq> []" "length (items t) = n + 1" "items s \<noteq> []" using assms by (auto simp: kept_def)
  have "drop n (items t) = drop n (items s)" using assms(1) by (simp add: kept_def)
  moreover have "drop n xs = [last xs]" if "length xs = n + 1" for xs :: "'b list"
    using that by (metis append_butlast_last_id append_eq_conv_conj diff_add_inverse2 length_butlast list.size(3) add_is_0 one_neq_zero)
  ultimately show l: "last (items t) = last (items s)" using ne assms(2) by simp
  have "mset (butlast (items t)) = mset (items t) - {#last (items t)#}"
    using ne(1) by (metis add_mset_remove_trivial append_butlast_last_id mset_append mset_single_iff_right union_mset_add_mset_right add.right_neutral mset.simps)
  then show "mset (butlast (items t)) = mset (items s) - {#last (items s)#}" using assms(1) l by (simp add: kept_def)
qed

lemma heap_Remove_correct:
  assumes "is_heap s (length (items s))" "i < length (items s)" "ok s"
  shows "is_heap (heap_Remove lt swap len pop s i) (length (items s) - 1) \<and>
    mset (items (heap_Remove lt swap len pop s i)) = mset (items s) - {#items s ! i#} \<and>
    key (heap_Remove lt swap len pop s i) = key s \<and> ok (heap_Remove lt swap len pop s i)"
proof -
  define n where "n = length (items s) - 1"
  define u where "u = (if n \<noteq> i then heap_sift lt swap (swap s i n) i n else s)"
  have n: "length (items s) = n + 1" "i \<le> n" "items s \<noteq> []" using assms(2) by (auto simp: n_def)
  have u: "is_heap u n \<and> length (items u) = n + 1 \<and> mset (butlast (items u)) = mset (items s) - {#items s ! i#} \<and> key u = key s \<and> ok u"
  proof (cases "n = i")
    case True
    have "last (items s) = items s ! i" using n True by (simp add: last_conv_nth)
    moreover have "is_heap s n" using assms(1) by (auto simp: is_heap_def n_def)
    ultimately show ?thesis using True assms(3) kept_last(2) [OF kept_refl n(1)] n by (simp add: u_def)
  next
    case False
    let ?t = "swap s i n"
    have i: "i < n" using False n(2) by simp
    have t: "items ?t = list_swap (items s) i n" "key ?t = key s" "ok ?t" "length (items ?t) = n + 1"
      using items_swap [of i s n] key_swap [of i s n] ok_swap [of s i n] assms n i by simp_all
    have "items ?t \<noteq> []" using t(4) by auto
    then have "last (items ?t) = items s ! i" using last_conv_nth [of "items ?t"] t(1,4) n i by simp
    moreover have "near ?t i n"
      by (rule near_update [of s]) (use assms(1) n i in \<open>auto simp: is_heap_def t list_swap_def\<close>)
    from heap_sift_correct [OF this i] t(4)
    have "is_heap u n" "kept n ?t u" using False by (simp_all add: u_def)
    moreover note kept_last [OF this(2) t(4)]
    moreover have "mset (items ?t) = mset (items s)" using n i by (simp add: t(1))
    ultimately show ?thesis using t by (simp add: kept_def)
  qed
  have ne: "items u \<noteq> []" using u by auto
  have "heap_Remove lt swap len pop s i = pop u" by (simp add: heap_Remove_def Let_def len u_def n_def)
  moreover have "K (pop u) c = K u c" if "c < n" for c using that u pop(1,2) [OF ne] by (simp add: nth_butlast)
  then have "is_heap (pop u) n" using u hpar_less unfolding is_heap_def by (metis less_trans)
  ultimately show ?thesis using u pop [of u] ne n(1) by simp
qed

end

end
