(* ===== verification/Intent_Queue.thy ===== *)
theory Intent_Queue
  imports Go_Heap Hlc_Timestamp "HOL-Library.AList" "HOL-Library.Product_Lexorder"
begin

text \<open>
  The queue of transactions with unresolved intents on a range, \<open>unresolvedIntentQueue\<close> of
  \<open>pkg/kv/kvserver/rangefeed/resolved_timestamp.go\<close>: a map from transaction IDs and a binary heap that share the
  transaction objects. The objects live in a store; the map and the heap hold their addresses. A reference
  count is an unbounded integer. The specification is a map from IDs to transactions with its oldest entry.
\<close>

section \<open>Transactions and their heap\<close>

record unresolvedTxn =
  u_txnID :: bytes
  u_txnKey :: bytes
  u_txnMinTimestamp :: Timestamp
  u_timestamp :: Timestamp
  u_refCount :: int
  u_index :: int

record unresolvedIntentQueue =
  q_store :: "nat \<Rightarrow> unresolvedTxn"
  q_next :: nat
  q_txns :: "(bytes \<times> nat) list"
  q_minHeap :: "nat list"
  q_allowNegRefCount :: bool

definition txn_at :: "unresolvedIntentQueue \<Rightarrow> nat \<Rightarrow> unresolvedTxn" where
  "txn_at q i = q_store q (q_minHeap q ! i)"

definition heap_Len :: "unresolvedIntentQueue \<Rightarrow> nat" where
  "heap_Len q = length (q_minHeap q)"

definition heap_Less :: "unresolvedIntentQueue \<Rightarrow> nat \<Rightarrow> nat \<Rightarrow> bool" where
  "heap_Less q i j =
     (if Timestamp_EqOrdering (u_timestamp (txn_at q i)) (u_timestamp (txn_at q j))
      then bytes_Compare (u_txnID (txn_at q i)) (u_txnID (txn_at q j)) < 0
      else Timestamp_Less (u_timestamp (txn_at q i)) (u_timestamp (txn_at q j)))"

definition set_index :: "nat \<Rightarrow> int \<Rightarrow> unresolvedIntentQueue \<Rightarrow> unresolvedIntentQueue" where
  "set_index p i q = q\<lparr>q_store := (q_store q)(p := (q_store q p)\<lparr>u_index := i\<rparr>)\<rparr>"

definition heap_Swap :: "unresolvedIntentQueue \<Rightarrow> nat \<Rightarrow> nat \<Rightarrow> unresolvedIntentQueue" where
  "heap_Swap q i j =
     (let h = q_minHeap q; h' = h[i := h ! j, j := h ! i] in
      set_index (h' ! j) (int j) (set_index (h' ! i) (int i) (q\<lparr>q_minHeap := h'\<rparr>)))"

definition heap_push_elem :: "unresolvedIntentQueue \<Rightarrow> nat \<Rightarrow> unresolvedIntentQueue" where
  "heap_push_elem q p = (let n = length (q_minHeap q) in (set_index p (int n) q)\<lparr>q_minHeap := q_minHeap q @ [p]\<rparr>)"

definition heap_pop_elem :: "unresolvedIntentQueue \<Rightarrow> unresolvedIntentQueue" where
  "heap_pop_elem q = (let old = q_minHeap q; n = length old in (set_index (old ! (n - 1)) (-1) q)\<lparr>q_minHeap := take (n - 1) old\<rparr>)"

section \<open>The queue\<close>

definition makeUnresolvedIntentQueue :: unresolvedIntentQueue where
  "makeUnresolvedIntentQueue =
     \<lparr>q_store = (\<lambda>_. \<lparr>u_txnID = [], u_txnKey = [], u_txnMinTimestamp = mkTs 0 0, u_timestamp = mkTs 0 0, u_refCount = 0, u_index = 0\<rparr>),
      q_next = 0, q_txns = [], q_minHeap = [], q_allowNegRefCount = True\<rparr>"

definition uiq_Len :: "unresolvedIntentQueue \<Rightarrow> nat" where "uiq_Len q = heap_Len q"

definition uiq_Oldest :: "unresolvedIntentQueue \<Rightarrow> unresolvedTxn option" where
  "uiq_Oldest q = (if uiq_Len q = 0 then None else Some (txn_at q 0))"

function Before_collect :: "unresolvedIntentQueue \<Rightarrow> Timestamp \<Rightarrow> nat \<Rightarrow> unresolvedTxn list" where
  "Before_collect q ts i =
     (if length (q_minHeap q) > i \<and> Timestamp_Less (u_timestamp (txn_at q i)) ts
      then txn_at q i # Before_collect q ts (2 * i + 1) @ Before_collect q ts (2 * i + 2) else [])"
  by pat_completeness auto
termination
  by (relation "measure (\<lambda>(q, ts, i). length (q_minHeap q) - i)") auto

declare Before_collect.simps [simp del]

definition uiq_Before :: "unresolvedIntentQueue \<Rightarrow> Timestamp \<Rightarrow> unresolvedTxn list" where
  "uiq_Before q ts = Before_collect q ts 0"

definition remove_txn :: "bytes \<Rightarrow> nat \<Rightarrow> unresolvedIntentQueue \<Rightarrow> unresolvedIntentQueue" where
  "remove_txn txnID p q =
     (let q = q\<lparr>q_txns := AList.delete txnID (q_txns q)\<rparr>
      in heap_Remove heap_Less heap_Swap heap_Len heap_pop_elem q (nat (u_index (q_store q p))))"

definition updateTxn :: "unresolvedIntentQueue \<Rightarrow> bytes \<Rightarrow> bytes \<Rightarrow> Timestamp \<Rightarrow> Timestamp \<Rightarrow> int \<Rightarrow> unresolvedIntentQueue \<times> bool" where
  "updateTxn q txnID txnKey txnMinTS ts delta =
     (case map_of (q_txns q) txnID of
        None \<Rightarrow>
          if delta = 0 \<or> delta < 0 \<and> \<not> q_allowNegRefCount q then (q, False)
          else
            (let p = q_next q;
                 txn = \<lparr>u_txnID = txnID, u_txnKey = txnKey, u_txnMinTimestamp = txnMinTS, u_timestamp = ts, u_refCount = delta, u_index = 0\<rparr>;
                 q = q\<lparr>q_store := (q_store q)(p := txn), q_next := p + 1, q_txns := AList.update txnID p (q_txns q)\<rparr>
             in (heap_Push heap_Less heap_Swap heap_Len heap_push_elem q p, False))
      | Some p \<Rightarrow>
          (let wasMin = (u_index (q_store q p) = 0);
               txn = (q_store q p)\<lparr>u_refCount := u_refCount (q_store q p) + delta\<rparr>;
               q = q\<lparr>q_store := (q_store q)(p := txn)\<rparr>
           in if u_refCount txn = 0 \<or> u_refCount txn < 0 \<and> \<not> q_allowNegRefCount q
              then (remove_txn txnID p q, wasMin)
              else
                (case Timestamp_Forward (u_timestamp txn) ts of (ts', moved) \<Rightarrow>
                   let q = q\<lparr>q_store := (q_store q)(p := txn\<lparr>u_timestamp := ts'\<rparr>)\<rparr> in
                   if moved then (heap_Fix heap_Less heap_Swap heap_Len q (nat (u_index txn)), wasMin) else (q, False))))"

definition uiq_IncRef :: "unresolvedIntentQueue \<Rightarrow> bytes \<Rightarrow> bytes \<Rightarrow> Timestamp \<Rightarrow> Timestamp \<Rightarrow> unresolvedIntentQueue \<times> bool" where
  "uiq_IncRef q txnID txnKey txnMinTS ts = updateTxn q txnID txnKey txnMinTS ts 1"

definition uiq_DecrRef :: "unresolvedIntentQueue \<Rightarrow> bytes \<Rightarrow> Timestamp \<Rightarrow> unresolvedIntentQueue \<times> bool" where
  "uiq_DecrRef q txnID ts = updateTxn q txnID [] (mkTs 0 0) ts (-1)"

definition uiq_UpdateTS :: "unresolvedIntentQueue \<Rightarrow> bytes \<Rightarrow> Timestamp \<Rightarrow> unresolvedIntentQueue \<times> bool" where
  "uiq_UpdateTS q txnID ts = updateTxn q txnID [] (mkTs 0 0) ts 0"

definition uiq_Del :: "unresolvedIntentQueue \<Rightarrow> bytes \<Rightarrow> unresolvedIntentQueue \<times> bool" where
  "uiq_Del q txnID =
     (case map_of (q_txns q) txnID of
        None \<Rightarrow> (q, False)
      | Some p \<Rightarrow> let wasMin = (u_index (q_store q p) = 0) in (remove_txn txnID p q, wasMin))"

definition assertOnlyPositiveRefCounts :: "unresolvedIntentQueue \<Rightarrow> unit res" where
  "assertOnlyPositiveRefCounts q =
     (if list_all (\<lambda>(_, p). \<not> u_refCount (q_store q p) \<le> 0) (q_txns q) then Inr () else Inl (Panic ''negative refcount''))"

definition AllowNegRefCount :: "unresolvedIntentQueue \<Rightarrow> bool \<Rightarrow> unresolvedIntentQueue res" where
  "AllowNegRefCount q b =
     res_bind (if \<not> b then assertOnlyPositiveRefCounts q else Inr ()) (\<lambda>_. Inr (q\<lparr>q_allowNegRefCount := b\<rparr>))"

section \<open>The heap of the queue\<close>

definition txn_key :: "unresolvedIntentQueue \<Rightarrow> nat \<Rightarrow> int \<times> int \<times> bytes" where
  "txn_key q p = (WallTime (u_timestamp (q_store q p)), Logical (u_timestamp (q_store q p)), u_txnID (q_store q p))"

definition indexed :: "unresolvedIntentQueue \<Rightarrow> bool" where
  "indexed q \<longleftrightarrow> distinct (q_minHeap q) \<and> (\<forall>i < length (q_minHeap q). u_index (txn_at q i) = int i)"

text \<open>What the heap leaves alone: everything but the positions and the order.\<close>

definition frame :: "unresolvedIntentQueue \<Rightarrow> unresolvedIntentQueue \<Rightarrow> bool" where
  "frame q t \<longleftrightarrow> q_next t = q_next q \<and> q_txns t = q_txns q \<and> q_allowNegRefCount t = q_allowNegRefCount q \<and>
     (\<forall>p. (q_store t p)\<lparr>u_index := 0\<rparr> = (q_store q p)\<lparr>u_index := 0\<rparr>)"

lemma set_index_simps [simp]:
  "q_minHeap (set_index p i q) = q_minHeap q" "txn_key (set_index p i q) = txn_key q"
  "u_index (q_store (set_index p i q) r) = (if r = p then i else u_index (q_store q r))"
  by (auto simp: set_index_def txn_key_def)

lemma frame_set_index [simp]: "frame q0 (set_index p i q) \<longleftrightarrow> frame q0 q"
  by (auto simp: frame_def set_index_def)

lemma heap_update_simps [simp]:
  "frame q0 (q\<lparr>q_minHeap := h\<rparr>) \<longleftrightarrow> frame q0 q" "txn_key (q\<lparr>q_minHeap := h\<rparr>) = txn_key q"
  by (simp_all add: frame_def txn_key_def fun_eq_iff)

lemma heap_Less_key: "heap_Less q i j \<longleftrightarrow> txn_key q (q_minHeap q ! i) < txn_key q (q_minHeap q ! j)"
  by (auto simp: heap_Less_def txn_key_def txn_at_def Timestamp_EqOrdering_def Timestamp_Less_def less_prod_def)

lemma heap_Swap_simps:
  "q_minHeap (heap_Swap q i j) = list_swap (q_minHeap q) i j" "txn_key (heap_Swap q i j) = txn_key q" "frame q0 (heap_Swap q i j) \<longleftrightarrow> frame q0 q"
  by (simp_all add: heap_Swap_def Let_def list_swap_def)

lemma indexed_Swap:
  assumes "indexed q" "i < length (q_minHeap q)" "j < length (q_minHeap q)" "i \<noteq> j"
  shows "indexed (heap_Swap q i j)"
  unfolding indexed_def
proof (intro conjI allI impI)
  let ?h = "q_minHeap q"
  have d: "distinct ?h" and ix: "\<And>k. k < length ?h \<Longrightarrow> u_index (q_store q (?h ! k)) = int k" using assms(1) by (auto simp: indexed_def txn_at_def)
  show "distinct (q_minHeap (heap_Swap q i j))" using d assms by (simp add: heap_Swap_simps list_swap_def distinct_swap)
  fix k assume "k < length (q_minHeap (heap_Swap q i j))"
  then have k: "k < length ?h" by (simp add: heap_Swap_simps)
  have ne: "?h ! a = ?h ! b \<longleftrightarrow> a = b" if "a < length ?h" "b < length ?h" for a b using nth_eq_iff_index_eq [OF d that] .
  show "u_index (txn_at (heap_Swap q i j) k) = int k"
    using k assms(2-4) ix [OF k] ne by (auto simp: txn_at_def heap_Swap_def Let_def nth_list_update)
qed

lemma heap_pop_simps:
  "q_minHeap (heap_pop_elem q) = butlast (q_minHeap q)" "txn_key (heap_pop_elem q) = txn_key q" "frame q0 (heap_pop_elem q) \<longleftrightarrow> frame q0 q"
  by (simp_all add: heap_pop_elem_def Let_def butlast_conv_take)

lemma indexed_pop: "indexed q \<Longrightarrow> q_minHeap q \<noteq> [] \<Longrightarrow> indexed (heap_pop_elem q)"
proof -
  assume q: "indexed q" "q_minHeap q \<noteq> []"
  have "q_minHeap q ! k \<noteq> q_minHeap q ! (length (q_minHeap q) - 1)" if "k < length (q_minHeap q) - 1" for k
    using q that by (auto simp: indexed_def nth_eq_iff_index_eq)
  then show ?thesis using q by (auto simp: indexed_def txn_at_def heap_pop_simps distinct_butlast nth_butlast) (auto simp: heap_pop_elem_def Let_def)
qed

interpretation uh: heap_client_pop q_minHeap txn_key "\<lambda>q. indexed q \<and> frame q0 q" heap_Less heap_Swap heap_Len heap_pop_elem for q0
  by unfold_locales
    (auto simp: heap_Less_key heap_Swap_simps indexed_Swap heap_Len_def heap_pop_simps indexed_pop)

section \<open>The invariant and the abstract queue\<close>

abbreviation ordered :: "unresolvedIntentQueue \<Rightarrow> bool" where
  "ordered q \<equiv> heap_client.is_heap q_minHeap txn_key q (length (q_minHeap q))"

definition uiq_inv :: "unresolvedIntentQueue \<Rightarrow> bool" where
  "uiq_inv q \<longleftrightarrow> indexed q \<and> ordered q \<and> distinct (map fst (q_txns q)) \<and>
     (\<forall>p \<in> set (q_minHeap q). p < q_next q \<and> map_of (q_txns q) (u_txnID (q_store q p)) = Some p) \<and>
     (\<forall>x p. map_of (q_txns q) x = Some p \<longrightarrow> p \<in> set (q_minHeap q) \<and> u_txnID (q_store q p) = x)"

record tracked =
  t_Key :: bytes
  t_MinTimestamp :: Timestamp
  t_Timestamp :: Timestamp
  t_RefCount :: int

definition tracked_of :: "unresolvedTxn \<Rightarrow> tracked" where
  "tracked_of t = \<lparr>t_Key = u_txnKey t, t_MinTimestamp = u_txnMinTimestamp t, t_Timestamp = u_timestamp t, t_RefCount = u_refCount t\<rparr>"

definition uiq_abs :: "unresolvedIntentQueue \<Rightarrow> bytes \<rightharpoonup> tracked" where
  "uiq_abs q x = map_option (\<lambda>p. tracked_of (q_store q p)) (map_of (q_txns q) x)"

definition abs_update :: "bool \<Rightarrow> (bytes \<rightharpoonup> tracked) \<Rightarrow> bytes \<Rightarrow> bytes \<Rightarrow> Timestamp \<Rightarrow> Timestamp \<Rightarrow> int \<Rightarrow> bytes \<rightharpoonup> tracked" where
  "abs_update neg m x k minTS ts d =
     (case m x of
        None \<Rightarrow> if d = 0 \<or> d < 0 \<and> \<not> neg then m else m(x \<mapsto> \<lparr>t_Key = k, t_MinTimestamp = minTS, t_Timestamp = ts, t_RefCount = d\<rparr>)
      | Some t \<Rightarrow>
          if t_RefCount t + d = 0 \<or> t_RefCount t + d < 0 \<and> \<not> neg then m(x := None)
          else m(x \<mapsto> t\<lparr>t_RefCount := t_RefCount t + d, t_Timestamp := fst (Timestamp_Forward (t_Timestamp t) ts)\<rparr>))"

lemma uiq_invI:
  assumes "indexed t" "ordered t" "frame q t" "distinct (map fst (q_txns q))"
    and "\<And>p. p \<in> set (q_minHeap t) \<Longrightarrow> p < q_next q \<and> map_of (q_txns q) (u_txnID (q_store q p)) = Some p"
    and "\<And>x p. map_of (q_txns q) x = Some p \<Longrightarrow> p \<in> set (q_minHeap t) \<and> u_txnID (q_store q p) = x"
  shows "uiq_inv t \<and> uiq_abs t = uiq_abs q \<and> q_allowNegRefCount t = q_allowNegRefCount q"
proof (intro conjI)
  have f: "q_next t = q_next q" "q_txns t = q_txns q" "\<And>p. (q_store t p)\<lparr>u_index := 0\<rparr> = (q_store q p)\<lparr>u_index := 0\<rparr>"
    using assms(3) by (simp_all add: frame_def)
  have i: "u_txnID (q_store t p) = u_txnID (q_store q p)" "tracked_of (q_store t p) = tracked_of (q_store q p)" for p
    using f(3) [of p] by (cases "q_store t p"; cases "q_store q p"; simp add: tracked_of_def)+
  show "uiq_inv t" using assms f i by (simp add: uiq_inv_def)
  show "uiq_abs t = uiq_abs q" by (simp add: uiq_abs_def fun_eq_iff f i)
  show "q_allowNegRefCount t = q_allowNegRefCount q" using assms(3) by (simp add: frame_def)
qed

lemma mset_distinct_set_remove: "distinct xs \<Longrightarrow> mset ys = mset xs - {#p#} \<Longrightarrow> set ys = set xs - {p}"
  by (metis distinct_remove1 mset_remove1 set_mset_mset set_remove1_eq)

lemma store_frame_simps [simp]:
  "frame q q" "txn_key (q\<lparr>q_txns := m\<rparr>) = txn_key q" "indexed (q\<lparr>q_txns := m\<rparr>) = indexed q"
  by (auto simp: frame_def txn_key_def indexed_def txn_at_def)

lemma ordered_cong: "q_minHeap t = q_minHeap q \<Longrightarrow> txn_key t = txn_key q \<Longrightarrow> ordered t = ordered q"
  by (simp add: uh.is_heap_def)

lemma uiq_position:
  assumes "uiq_inv q" "map_of (q_txns q) x = Some p"
  obtains i where "i < length (q_minHeap q)" "q_minHeap q ! i = p" "u_index (q_store q p) = int i" "u_txnID (q_store q p) = x"
proof -
  have "p \<in> set (q_minHeap q)" "u_txnID (q_store q p) = x" using assms by (auto simp: uiq_inv_def)
  moreover then obtain i where "i < length (q_minHeap q)" "q_minHeap q ! i = p" by (auto simp: in_set_conv_nth)
  moreover then have "u_index (q_store q p) = int i" using assms(1) by (auto simp: uiq_inv_def indexed_def txn_at_def)
  ultimately show thesis using that by blast
qed

lemma remove_txn_correct:
  assumes "uiq_inv q" "map_of (q_txns q) x = Some p"
  shows "uiq_inv (remove_txn x p q) \<and> uiq_abs (remove_txn x p q) = (uiq_abs q)(x := None) \<and> q_allowNegRefCount (remove_txn x p q) = q_allowNegRefCount q"
proof -
  define q' where "q' = q\<lparr>q_txns := AList.delete x (q_txns q)\<rparr>"
  obtain i where i: "i < length (q_minHeap q)" "q_minHeap q ! i = p" "u_index (q_store q p) = int i" "u_txnID (q_store q p) = x"
    using uiq_position [OF assms] .
  define t where "t = heap_Remove heap_Less heap_Swap heap_Len heap_pop_elem q' i"
  have t: "remove_txn x p q = t" by (simp add: remove_txn_def t_def q'_def i(3))
  have h: "q_minHeap q' = q_minHeap q" "txn_key q' = txn_key q" "indexed q'" "ordered q'" "distinct (q_minHeap q)"
    using assms(1) ordered_cong [of q' q] by (auto simp: q'_def uiq_inv_def indexed_def txn_at_def)
  have fr: "indexed q' \<and> frame q' q'" using h(3) by simp
  note R = uh.heap_Remove_correct [where ?q0.0 = q' and s = q' and i = i, unfolded h(1), OF h(4) [unfolded h(1)] i(1) fr, folded t_def, unfolded i(2)]
  have set_t: "set (q_minHeap t) = set (q_minHeap q) - {p}" "length (q_minHeap t) = length (q_minHeap q) - 1"
    using R h(5) i(1,2) by (metis set_mset_mset mset_distinct_set_remove, metis size_mset size_Diff_singleton nth_mem set_mset_mset)
  have ids: "map_of (q_txns q') y = (if y = x then None else map_of (q_txns q) y)" for y by (simp add: q'_def delete_conv')
  have inv: "uiq_inv t \<and> uiq_abs t = uiq_abs q' \<and> q_allowNegRefCount t = q_allowNegRefCount q'"
  proof (rule uiq_invI)
    show "indexed t" "frame q' t" "ordered t" using R set_t(2) by auto
    show "distinct (map fst (q_txns q'))" using assms(1) by (simp add: q'_def uiq_inv_def distinct_delete)
    show "r < q_next q' \<and> map_of (q_txns q') (u_txnID (q_store q' r)) = Some r" if "r \<in> set (q_minHeap t)" for r
    proof -
      have r: "r \<noteq> p" "r < q_next q" "map_of (q_txns q) (u_txnID (q_store q r)) = Some r"
        using that set_t(1) assms(1) by (auto simp: uiq_inv_def)
      then have "u_txnID (q_store q r) \<noteq> x" using assms(2) by auto
      then show ?thesis using r ids by (simp add: q'_def)
    qed
    show "r \<in> set (q_minHeap t) \<and> u_txnID (q_store q' r) = y" if y: "map_of (q_txns q') y = Some r" for y r
    proof -
      have "y \<noteq> x" "map_of (q_txns q) y = Some r" using y ids by (auto split: if_splits)
      then have "r \<in> set (q_minHeap q)" "u_txnID (q_store q r) = y" using assms(1) unfolding uiq_inv_def by blast+
      then show ?thesis using \<open>y \<noteq> x\<close> i(4) set_t(1) by (auto simp: q'_def)
    qed
  qed
  moreover have "uiq_abs q' = (uiq_abs q)(x := None)" by (auto simp: uiq_abs_def fun_eq_iff ids) (simp_all add: q'_def)
  ultimately show ?thesis unfolding t by (simp add: q'_def)
qed

text \<open>Writing an object that keeps its ID and position, and restoring the heap there.\<close>

lemma set_txn:
  assumes "uiq_inv q" "map_of (q_txns q) x = Some p" "u_txnID txn = x" "u_index txn = u_index (q_store q p)"
    and "q1 = q\<lparr>q_store := (q_store q)(p := txn)\<rparr>"
  shows "indexed q1" "uiq_abs q1 = (uiq_abs q)(x \<mapsto> tracked_of txn)"
    and "q_minHeap q1 = q_minHeap q" "distinct (map fst (q_txns q1))"
    and "\<And>r. r \<in> set (q_minHeap q1) \<Longrightarrow> r < q_next q1 \<and> map_of (q_txns q1) (u_txnID (q_store q1 r)) = Some r"
    and "\<And>y r. map_of (q_txns q1) y = Some r \<Longrightarrow> r \<in> set (q_minHeap q1) \<and> u_txnID (q_store q1 r) = y"
    and "i < length (q_minHeap q) \<Longrightarrow> q_minHeap q ! i = p \<Longrightarrow> heap_client.near q_minHeap txn_key q1 i (length (q_minHeap q))"
proof -
  have px: "u_txnID (q_store q p) = x" using uiq_position [OF assms(1,2)] by blast
  then have ids: "u_txnID (q_store q1 r) = u_txnID (q_store q r)" "u_index (q_store q1 r) = u_index (q_store q r)" for r
    using assms(3,4) by (simp_all add: assms(5))
  show h: "q_minHeap q1 = q_minHeap q" by (simp add: assms(5))
  have tx: "q_txns q1 = q_txns q" "q_next q1 = q_next q" by (simp_all add: assms(5))
  show "indexed q1" using assms(1) h ids by (simp add: uiq_inv_def indexed_def txn_at_def)
  show "distinct (map fst (q_txns q1))" using assms(1) by (simp add: tx uiq_inv_def)
  show "r < q_next q1 \<and> map_of (q_txns q1) (u_txnID (q_store q1 r)) = Some r" if "r \<in> set (q_minHeap q1)" for r
    using assms(1) that unfolding uiq_inv_def h ids tx by blast
  show "r \<in> set (q_minHeap q1) \<and> u_txnID (q_store q1 r) = y" if "map_of (q_txns q1) y = Some r" for y r
    using assms(1) that unfolding uiq_inv_def h ids tx by blast
  have "r = p \<longleftrightarrow> y = x" if "map_of (q_txns q) y = Some r" for y r
  proof -
    have "u_txnID (q_store q r) = y" using assms(1) that unfolding uiq_inv_def by blast
    then show ?thesis by (metis px that assms(2) option.inject)
  qed
  then have "uiq_abs q1 y = ((uiq_abs q)(x \<mapsto> tracked_of txn)) y" for y
    using assms(2) by (cases "map_of (q_txns q) y") (auto simp: uiq_abs_def assms(5))
  then show "uiq_abs q1 = (uiq_abs q)(x \<mapsto> tracked_of txn)" by (rule ext)
  show "heap_client.near q_minHeap txn_key q1 i (length (q_minHeap q))" if i: "i < length (q_minHeap q)" "q_minHeap q ! i = p"
  proof (rule uh.near_update [of q])
    show "ordered q" using assms(1) by (simp add: uiq_inv_def)
    fix c assume "c < length (q_minHeap q)" "c \<noteq> i"
    then have "q_minHeap q ! c \<noteq> p" using assms(1) i by (auto simp: uiq_inv_def indexed_def nth_eq_iff_index_eq)
    then show "txn_key q1 (q_minHeap q1 ! c) = txn_key q (q_minHeap q ! c)" by (simp add: txn_key_def assms(5))
  qed (rule i(1))
qed

lemma set_txn_same_order:
  assumes "uiq_inv q" "map_of (q_txns q) x = Some p" "u_txnID txn = x" "u_index txn = u_index (q_store q p)"
    and "Timestamp_EqOrdering (u_timestamp txn) (u_timestamp (q_store q p))" "q1 = q\<lparr>q_store := (q_store q)(p := txn)\<rparr>"
  shows "uiq_inv q1 \<and> uiq_abs q1 = (uiq_abs q)(x \<mapsto> tracked_of txn) \<and> q_allowNegRefCount q1 = q_allowNegRefCount q"
proof -
  note S = set_txn [OF assms(1-4,6)]
  have "u_txnID (q_store q p) = x" using uiq_position [OF assms(1,2)] by blast
  then have "txn_key q1 = txn_key q" using assms(3,5) by (auto simp: txn_key_def fun_eq_iff assms(6) Timestamp_EqOrdering_def)
  then have "ordered q1" using ordered_cong [OF S(3)] assms(1) by (simp add: uiq_inv_def)
  then show ?thesis using uiq_invI [OF S(1) _ store_frame_simps(1) S(4) S(5) S(6)] S(2) by (simp add: assms(6))
qed

lemma set_txn_fix:
  assumes "uiq_inv q" "map_of (q_txns q) x = Some p" "u_txnID txn = x" "u_index txn = u_index (q_store q p)"
    and "q1 = q\<lparr>q_store := (q_store q)(p := txn)\<rparr>" "t = heap_Fix heap_Less heap_Swap heap_Len q1 (nat (u_index txn))"
  shows "uiq_inv t \<and> uiq_abs t = (uiq_abs q)(x \<mapsto> tracked_of txn) \<and> q_allowNegRefCount t = q_allowNegRefCount q"
proof -
  note S = set_txn [OF assms(1-5)]
  obtain i where i: "i < length (q_minHeap q)" "q_minHeap q ! i = p" "u_index (q_store q p) = int i" using uiq_position [OF assms(1,2)] by blast
  have "t = heap_Fix heap_Less heap_Swap heap_Len q1 i" using assms(4,6) i(3) by simp
  then have F: "uh.is_heap t (length (q_minHeap q))" "uh.kept q1 (length (q_minHeap q)) q1 t"
    using uh.heap_Fix_correct [where s = q1 and i = i and ?q0.0 = q1] S(7) [OF i(1,2)] i(1) unfolding S(3) by simp_all
  have t: "length (q_minHeap t) = length (q_minHeap q)" "set (q_minHeap t) = set (q_minHeap q1)" "indexed t" "frame q1 t"
    using F(2) S(1,3) uh.kept_set [OF F(2)] by (auto simp: uh.kept_def)
  have "uiq_inv t \<and> uiq_abs t = uiq_abs q1 \<and> q_allowNegRefCount t = q_allowNegRefCount q1"
    using uiq_invI [of t q1] F(1) t S(4-6) by simp
  then show ?thesis using S(2) by (simp add: assms(5))
qed

text \<open>A new transaction.\<close>

lemma push_txn:
  assumes "uiq_inv q" "map_of (q_txns q) x = None" "u_txnID txn = x" "p = q_next q"
    and "q1 = q\<lparr>q_store := (q_store q)(p := txn), q_next := p + 1, q_txns := AList.update x p (q_txns q)\<rparr>"
    and "t = heap_Push heap_Less heap_Swap heap_Len heap_push_elem q1 p"
  shows "uiq_inv t \<and> uiq_abs t = (uiq_abs q)(x \<mapsto> tracked_of txn) \<and> q_allowNegRefCount t = q_allowNegRefCount q"
proof -
  define n q2 where "n = length (q_minHeap q)" and "q2 = heap_push_elem q1 p"
  have new: "p \<notin> set (q_minHeap q)" using assms(1,4) by (auto simp: uiq_inv_def)
  have h2: "q_minHeap q2 = q_minHeap q @ [p]" by (simp add: q2_def heap_push_elem_def Let_def assms(5))
  have ix: "u_index (q_store q2 r) = (if r = p then int n else u_index (q_store q r))" for r
    by (simp add: q2_def heap_push_elem_def Let_def assms(5) n_def)
  have key: "txn_key q2 r = txn_key q r" if "r \<noteq> p" for r
    using that by (simp add: q2_def heap_push_elem_def Let_def) (simp add: txn_key_def assms(5))
  have "uh.is_heap q2 n" unfolding uh.is_heap_def
  proof (intro allI impI; elim conjE)
    fix c assume c: "0 < c" "c < n"
    then have p: "hpar c < n" using hpar_less [of c] by simp
    have "txn_key q2 (q_minHeap q2 ! d) = txn_key q (q_minHeap q ! d)" if "d < n" for d
      using that key new nth_mem [of d "q_minHeap q"] by (metis h2 n_def nth_append)
    moreover have "txn_key q (q_minHeap q ! hpar c) \<le> txn_key q (q_minHeap q ! c)"
      using assms(1) c unfolding uiq_inv_def uh.is_heap_def n_def by blast
    ultimately show "txn_key q2 (q_minHeap q2 ! hpar c) \<le> txn_key q2 (q_minHeap q2 ! c)" using c p by simp
  qed
  moreover have "indexed q2" using assms(1) new ix by (auto simp: uiq_inv_def indexed_def txn_at_def h2 n_def nth_append less_Suc_eq)
  moreover have "frame q1 q2" by (simp add: q2_def heap_push_elem_def Let_def)
  moreover have "t = heap_up heap_Less heap_Swap q2 n" by (simp add: assms(6) heap_Push_def Let_def q2_def [symmetric] heap_Len_def h2 n_def)
  ultimately have F: "uh.is_heap t (n + 1)" "uh.kept q1 (n + 1) q2 t" using uh.heap_Push_correct [of q2 n q1] by (simp_all add: h2 n_def)
  then have t: "length (q_minHeap t) = n + 1" "set (q_minHeap t) = insert p (set (q_minHeap q))" "indexed t" "frame q1 t"
    using \<open>indexed q2\<close> \<open>frame q1 q2\<close> uh.kept_set [OF F(2)] by (auto simp: uh.kept_def h2 n_def)
  have ids: "map_of (q_txns q1) y = (if y = x then Some p else map_of (q_txns q) y)" for y by (simp add: assms(5) update_conv')
  have "uiq_inv t \<and> uiq_abs t = uiq_abs q1 \<and> q_allowNegRefCount t = q_allowNegRefCount q1"
  proof (rule uiq_invI)
    show "indexed t" "frame q1 t" "ordered t" using t F(1) by simp_all
    show "distinct (map fst (q_txns q1))" using assms(1) by (simp add: assms(5) uiq_inv_def distinct_update)
    show "r < q_next q1 \<and> map_of (q_txns q1) (u_txnID (q_store q1 r)) = Some r" if r: "r \<in> set (q_minHeap t)" for r
    proof (cases "r = p")
      case False
      then have "r < q_next q" "map_of (q_txns q) (u_txnID (q_store q r)) = Some r" using r t(2) assms(1) by (auto simp: uiq_inv_def)
      then show ?thesis using False ids assms(2,4) by (auto simp: assms(5))
    qed (simp add: assms(3,5) update_conv')
    show "r \<in> set (q_minHeap t) \<and> u_txnID (q_store q1 r) = y" if y: "map_of (q_txns q1) y = Some r" for y r
    proof (cases "y = x")
      case False
      then have "map_of (q_txns q) y = Some r" using y ids by simp
      then have "r \<in> set (q_minHeap q)" "u_txnID (q_store q r) = y" using assms(1) unfolding uiq_inv_def by blast+
      then show ?thesis using t(2) new by (auto simp: assms(5))
    qed (use y ids t(2) assms(3) in \<open>simp add: assms(5)\<close>)
  qed
  moreover have "uiq_abs q1 = (uiq_abs q)(x \<mapsto> tracked_of txn)"
  proof
    fix y show "uiq_abs q1 y = ((uiq_abs q)(x \<mapsto> tracked_of txn)) y"
    proof (cases "map_of (q_txns q) y")
      case (Some r)
      then have "r \<in> set (q_minHeap q)" using assms(1) unfolding uiq_inv_def by blast
      then have "r \<noteq> p" using new by blast
      then show ?thesis using Some assms(2) by (auto simp: uiq_abs_def ids) (simp_all add: assms(5))
    qed (simp add: uiq_abs_def ids, simp add: assms(5))
  qed
  ultimately show ?thesis by (simp add: assms(5))
qed

section \<open>The operations refine the abstract queue\<close>

text \<open>The entry of the queue that sorts first by time and ID.\<close>

definition is_oldest :: "(bytes \<rightharpoonup> tracked) \<Rightarrow> bytes \<Rightarrow> bool" where
  "is_oldest m x \<longleftrightarrow> (\<exists>t. m x = Some t \<and> (\<forall>y s. m y = Some s \<longrightarrow>
     (WallTime (t_Timestamp t), Logical (t_Timestamp t), x) \<le> (WallTime (t_Timestamp s), Logical (t_Timestamp s), y)))"

lemma abs_heap:
  assumes "uiq_inv q"
  shows "uiq_abs q y = Some s \<longleftrightarrow> (\<exists>i < length (q_minHeap q). u_txnID (txn_at q i) = y \<and> s = tracked_of (txn_at q i))"
proof
  assume "uiq_abs q y = Some s"
  then obtain p where p: "map_of (q_txns q) y = Some p" "s = tracked_of (q_store q p)" by (auto simp: uiq_abs_def)
  obtain i where "i < length (q_minHeap q)" "q_minHeap q ! i = p" "u_txnID (q_store q p) = y" using uiq_position [OF assms p(1)] by blast
  then show "\<exists>i < length (q_minHeap q). u_txnID (txn_at q i) = y \<and> s = tracked_of (txn_at q i)" using p(2) by (auto simp: txn_at_def)
next
  assume "\<exists>i < length (q_minHeap q). u_txnID (txn_at q i) = y \<and> s = tracked_of (txn_at q i)"
  then obtain i where i: "q_minHeap q ! i \<in> set (q_minHeap q)" "u_txnID (q_store q (q_minHeap q ! i)) = y" "s = tracked_of (q_store q (q_minHeap q ! i))"
    by (metis nth_mem txn_at_def)
  then have "map_of (q_txns q) y = Some (q_minHeap q ! i)" using assms unfolding uiq_inv_def by blast
  then show "uiq_abs q y = Some s" by (simp add: uiq_abs_def i(3))
qed

lemma uiq_Oldest_correct:
  assumes "uiq_inv q"
  shows "(case uiq_Oldest q of None \<Rightarrow> uiq_abs q = Map.empty | Some t \<Rightarrow> uiq_abs q (u_txnID t) = Some (tracked_of t) \<and> is_oldest (uiq_abs q) (u_txnID t))"
proof (cases "q_minHeap q = []")
  case True
  then have "uiq_abs q y = None" for y using abs_heap [OF assms, of y] by (cases "uiq_abs q y") auto
  then show ?thesis using True by (auto simp: uiq_Oldest_def uiq_Len_def heap_Len_def fun_eq_iff)
next
  case False
  let ?t = "txn_at q 0"
  have a: "uiq_abs q (u_txnID ?t) = Some (tracked_of ?t)" using abs_heap [OF assms] False by blast
  have "(WallTime (t_Timestamp (tracked_of ?t)), Logical (t_Timestamp (tracked_of ?t)), u_txnID ?t) \<le> (WallTime (t_Timestamp s), Logical (t_Timestamp s), y)"
    if y: "uiq_abs q y = Some s" for y s
  proof -
    obtain i where i: "i < length (q_minHeap q)" "u_txnID (txn_at q i) = y" "s = tracked_of (txn_at q i)" using y abs_heap [OF assms] by blast
    have "ordered q" using assms by (simp add: uiq_inv_def)
    from uh.heap_root [OF this i(1)] show ?thesis using i by (simp add: txn_key_def txn_at_def tracked_of_def)
  qed
  then have "is_oldest (uiq_abs q) (u_txnID ?t)" using a unfolding is_oldest_def by blast
  then show ?thesis using a False by (simp add: uiq_Oldest_def uiq_Len_def heap_Len_def)
qed

lemma is_oldest_unique: "is_oldest m x \<Longrightarrow> is_oldest m y \<Longrightarrow> x = y"
  by (fastforce simp: is_oldest_def less_eq_prod_def)

lemma wasMin_oldest:
  assumes "uiq_inv q" "map_of (q_txns q) x = Some p"
  shows "u_index (q_store q p) = 0 \<longleftrightarrow> is_oldest (uiq_abs q) x"
proof -
  obtain i where i: "i < length (q_minHeap q)" "q_minHeap q ! i = p" "u_index (q_store q p) = int i" "u_txnID (q_store q p) = x"
    using uiq_position [OF assms] .
  have old: "is_oldest (uiq_abs q) (u_txnID (txn_at q 0))"
    using uiq_Oldest_correct [OF assms(1)] i(1) by (auto simp: uiq_Oldest_def uiq_Len_def heap_Len_def split: if_splits)
  have "i = 0 \<longleftrightarrow> u_txnID (txn_at q 0) = x"
  proof
    assume "u_txnID (txn_at q 0) = x"
    moreover have "q_minHeap q ! 0 \<in> set (q_minHeap q)" using i(1) by (intro nth_mem) auto
    ultimately have "map_of (q_txns q) x = Some (q_minHeap q ! 0)" using assms(1) unfolding uiq_inv_def txn_at_def by blast
    then have "q_minHeap q ! 0 = q_minHeap q ! i" using assms(2) i(2) by simp
    moreover have "distinct (q_minHeap q)" using assms(1) by (simp add: uiq_inv_def indexed_def)
    ultimately show "i = 0" using i(1) by (metis nth_eq_iff_index_eq gr_zeroI less_nat_zero_code less_trans)
  qed (use i in \<open>simp add: txn_at_def\<close>)
  then show ?thesis using i(3) old is_oldest_unique by auto
qed

definition oldest_moved :: "(bytes \<rightharpoonup> tracked) \<Rightarrow> (bytes \<rightharpoonup> tracked) \<Rightarrow> bytes \<Rightarrow> bool" where
  "oldest_moved m m' x \<longleftrightarrow> is_oldest m x \<and> (case m' x of None \<Rightarrow> True | Some s \<Rightarrow> Timestamp_Less (t_Timestamp (the (m x))) (t_Timestamp s))"

definition op_ok :: "unresolvedIntentQueue \<Rightarrow> (bytes \<rightharpoonup> tracked) \<Rightarrow> bytes \<Rightarrow> unresolvedIntentQueue \<times> bool \<Rightarrow> bool" where
  "op_ok q m x r \<longleftrightarrow> uiq_inv (fst r) \<and> uiq_abs (fst r) = m \<and> q_allowNegRefCount (fst r) = q_allowNegRefCount q \<and>
     (snd r \<longleftrightarrow> oldest_moved (uiq_abs q) m x)"

lemma forward_fields: "Timestamp_Forward t s = (u, moved) \<Longrightarrow> (moved \<longleftrightarrow> Timestamp_Less t s) \<and> (moved \<longrightarrow> u = s) \<and> (\<not> moved \<longrightarrow> Timestamp_EqOrdering u t)"
  by (auto simp: Timestamp_Forward_def Timestamp_EqOrdering_def split: if_splits)

lemma eq_ordering_irrefl: "Timestamp_EqOrdering u t \<Longrightarrow> \<not> Timestamp_Less t u"
  by (auto simp: Timestamp_EqOrdering_def Timestamp_Less_def)

lemma updateTxn_correct:
  assumes "uiq_inv q"
  shows "op_ok q (abs_update (q_allowNegRefCount q) (uiq_abs q) x k minTS ts d) x (updateTxn q x k minTS ts d)"
proof (cases "map_of (q_txns q) x")
  case None
  then have a: "uiq_abs q x = None" by (simp add: uiq_abs_def)
  then have no: "\<not> is_oldest (uiq_abs q) x" by (simp add: is_oldest_def)
  show ?thesis
  proof (cases "d = 0 \<or> d < 0 \<and> \<not> q_allowNegRefCount q")
    case True
    then show ?thesis using None a no assms by (auto simp: op_ok_def updateTxn_def abs_update_def oldest_moved_def)
  next
    case False
    let ?txn = "\<lparr>u_txnID = x, u_txnKey = k, u_txnMinTimestamp = minTS, u_timestamp = ts, u_refCount = d, u_index = 0\<rparr>"
    have m: "abs_update (q_allowNegRefCount q) (uiq_abs q) x k minTS ts d = (uiq_abs q)(x \<mapsto> tracked_of ?txn)"
      using a False by (auto simp: abs_update_def tracked_of_def)
    have "updateTxn q x k minTS ts d = (heap_Push heap_Less heap_Swap heap_Len heap_push_elem
        (q\<lparr>q_store := (q_store q)(q_next q := ?txn), q_next := q_next q + 1, q_txns := AList.update x (q_next q) (q_txns q)\<rparr>) (q_next q), False)"
      unfolding updateTxn_def Let_def None option.case if_not_P [OF False] by (rule refl)
    then show ?thesis unfolding op_ok_def m using push_txn [OF assms None _ refl refl refl, of ?txn] no by (simp add: oldest_moved_def)
  qed
next
  case (Some p)
  let ?o = "q_store q p"
  let ?txn = "?o\<lparr>u_refCount := u_refCount ?o + d\<rparr>"
  let ?q = "q\<lparr>q_store := (q_store q)(p := ?txn)\<rparr>"
  have a: "uiq_abs q x = Some (tracked_of ?o)" by (simp add: uiq_abs_def Some)
  have id: "u_txnID ?o = x" using uiq_position [OF assms Some] by blast
  note min = wasMin_oldest [OF assms Some]
  have S: "uiq_inv ?q \<and> uiq_abs ?q = (uiq_abs q)(x \<mapsto> tracked_of ?txn) \<and> q_allowNegRefCount ?q = q_allowNegRefCount q"
    by (rule set_txn_same_order [OF assms Some]) (simp_all add: id Timestamp_EqOrdering_def)
  show ?thesis
  proof (cases "u_refCount ?txn = 0 \<or> u_refCount ?txn < 0 \<and> \<not> q_allowNegRefCount q")
    case True
    have "map_of (q_txns ?q) x = Some p" using Some by simp
    from remove_txn_correct [OF _ this] S
    have R: "uiq_inv (remove_txn x p ?q) \<and> uiq_abs (remove_txn x p ?q) = (uiq_abs q)(x := None) \<and> q_allowNegRefCount (remove_txn x p ?q) = q_allowNegRefCount q"
      by auto
    have m: "abs_update (q_allowNegRefCount q) (uiq_abs q) x k minTS ts d = (uiq_abs q)(x := None)"
      using a True by (simp add: abs_update_def tracked_of_def)
    have "updateTxn q x k minTS ts d = (remove_txn x p ?q, u_index ?o = 0)" unfolding updateTxn_def Let_def using Some True by simp
    then show ?thesis unfolding op_ok_def m using R min by (simp add: oldest_moved_def)
  next
    case False
    obtain ts' moved where fw: "Timestamp_Forward (u_timestamp ?o) ts = (ts', moved)" by (cases "Timestamp_Forward (u_timestamp ?o) ts") auto
    note ff = forward_fields [OF fw]
    let ?new = "?txn\<lparr>u_timestamp := ts'\<rparr>"
    let ?q2 = "q\<lparr>q_store := (q_store q)(p := ?new)\<rparr>"
    have m: "abs_update (q_allowNegRefCount q) (uiq_abs q) x k minTS ts d = (uiq_abs q)(x \<mapsto> tracked_of ?new)"
      using a False fw by (auto simp: abs_update_def tracked_of_def)
    have run: "updateTxn q x k minTS ts d = (if moved then (heap_Fix heap_Less heap_Swap heap_Len ?q2 (nat (u_index ?new)), u_index ?o = 0) else (?q2, False))"
      unfolding updateTxn_def Let_def using Some False fw by auto
    have om: "oldest_moved (uiq_abs q) ((uiq_abs q)(x \<mapsto> tracked_of ?new)) x \<longleftrightarrow> is_oldest (uiq_abs q) x \<and> moved"
      using a ff eq_ordering_irrefl [of ts' "u_timestamp ?o"] by (auto simp: oldest_moved_def tracked_of_def)
    show ?thesis
    proof (cases moved)
      case True
      then show ?thesis unfolding op_ok_def m run using set_txn_fix [OF assms Some, of ?new ?q2, OF _ _ refl refl] min om id by simp
    next
      case st: False
      have "uiq_inv ?q2 \<and> uiq_abs ?q2 = (uiq_abs q)(x \<mapsto> tracked_of ?new) \<and> q_allowNegRefCount ?q2 = q_allowNegRefCount q"
        by (rule set_txn_same_order [OF assms Some]) (use st ff id in simp_all)
      then show ?thesis unfolding op_ok_def m run using st om by simp
    qed
  qed
qed

lemma uiq_Del_correct:
  assumes "uiq_inv q"
  shows "op_ok q ((uiq_abs q)(x := None)) x (uiq_Del q x)"
proof (cases "map_of (q_txns q) x")
  case None
  then have "uiq_abs q x = None" by (simp add: uiq_abs_def)
  then show ?thesis using None assms by (auto simp: op_ok_def uiq_Del_def oldest_moved_def is_oldest_def fun_upd_idem)
next
  case (Some p)
  then show ?thesis using remove_txn_correct [OF assms Some] wasMin_oldest [OF assms Some]
    by (simp add: op_ok_def uiq_Del_def oldest_moved_def Let_def)
qed

section \<open>The transactions before a timestamp\<close>

fun descends :: "nat \<Rightarrow> nat \<Rightarrow> nat \<Rightarrow> bool" where
  "descends 0 i j \<longleftrightarrow> j = i"
| "descends (Suc d) i j \<longleftrightarrow> j = i \<or> 0 < j \<and> descends d i (hpar j)"

lemma descends_split: "descends d i j \<Longrightarrow> j \<noteq> i \<Longrightarrow> \<exists>d. descends d (2 * i + 1) j \<or> descends d (2 * i + 2) j"
proof (induction d arbitrary: j)
  case (Suc d)
  then have j: "0 < j" "descends d i (hpar j)" by auto
  show ?case
  proof (cases "hpar j = i")
    case True
    then have "j = 2 * i + 1 \<or> j = 2 * i + 2" using hpar_children j(1) by blast
    then show ?thesis by (intro exI [of _ 0]) auto
  next
    case False
    then obtain e where "descends e (2 * i + 1) (hpar j) \<or> descends e (2 * i + 2) (hpar j)" using Suc.IH [OF j(2)] by blast
    then show ?thesis using j(1) by (intro exI [of _ "Suc e"]) auto
  qed
qed simp

lemma descends_root: "descends j 0 j"
proof (induction j rule: less_induct)
  case (less j)
  show ?case
  proof (cases j)
    case (Suc k)
    have mono: "descends d i m \<Longrightarrow> d \<le> e \<Longrightarrow> descends e i m" for d e i m
    proof (induction d i m arbitrary: e rule: descends.induct)
      case (1 i m) then show ?case by (cases e) auto
    next
      case (2 d i m) then show ?case by (cases e) auto
    qed
    have "hpar j < j" "hpar j \<le> k" using Suc hpar_less [of j] by auto
    then show ?thesis using less.IH [of "hpar j"] mono [of "hpar j" 0 "hpar j" k] Suc by auto
  qed simp
qed

lemma descends_key: "uh.is_heap q n \<Longrightarrow> descends d i j \<Longrightarrow> j < n \<Longrightarrow> txn_key q (q_minHeap q ! i) \<le> txn_key q (q_minHeap q ! j)"
proof (induction d arbitrary: j)
  case (Suc d)
  show ?case
  proof (cases "j = i")
    case False
    then have j: "0 < j" "descends d i (hpar j)" "hpar j < j" using Suc.prems(2) hpar_less by auto
    have "txn_key q (q_minHeap q ! i) \<le> txn_key q (q_minHeap q ! hpar j)" using Suc.IH [OF Suc.prems(1) j(2)] j(3) Suc.prems(3) by simp
    also have "\<dots> \<le> txn_key q (q_minHeap q ! j)" using Suc.prems(1,3) j(1) unfolding uh.is_heap_def by blast
    finally show ?thesis .
  qed simp
qed simp

lemma descends_up: "descends d c j \<Longrightarrow> 0 < c \<Longrightarrow> \<exists>d. descends d (hpar c) j"
proof (induction d arbitrary: j)
  case 0
  then show ?case by (intro exI [of _ 1]) simp
next
  case (Suc d)
  show ?case
  proof (cases "j = c")
    case True
    then show ?thesis using Suc.prems(2) by (intro exI [of _ 1]) simp
  next
    case False
    then obtain e where "0 < j" "descends e (hpar c) (hpar j)" using Suc by auto
    then show ?thesis by (intro exI [of _ "Suc e"]) simp
  qed
qed

lemma descends_iff: "(\<exists>d. descends d i j) \<longleftrightarrow> j = i \<or> (\<exists>d. descends d (2 * i + 1) j) \<or> (\<exists>d. descends d (2 * i + 2) j)"
proof
  assume "\<exists>d. descends d i j"
  then show "j = i \<or> (\<exists>d. descends d (2 * i + 1) j) \<or> (\<exists>d. descends d (2 * i + 2) j)" using descends_split by blast
next
  have c: "hpar (2 * i + 1) = i" "hpar (2 * i + 2) = i" by simp_all
  assume "j = i \<or> (\<exists>d. descends d (2 * i + 1) j) \<or> (\<exists>d. descends d (2 * i + 2) j)"
  moreover have "descends 0 i i" by simp
  ultimately show "\<exists>d. descends d i j" using descends_up [of _ "2 * i + 1" j] descends_up [of _ "2 * i + 2" j] unfolding c by fastforce
qed

lemma descends_ge: "descends d i j \<Longrightarrow> i \<le> j"
proof (induction d i j rule: descends.induct)
  case (2 d i j)
  then show ?case using hpar_less [of j] by (cases "j = i") auto
qed simp

lemma Before_collect_correct:
  "ordered q \<Longrightarrow> set (Before_collect q ts i) = {txn_at q j | j. j < length (q_minHeap q) \<and> (\<exists>d. descends d i j) \<and> Timestamp_Less (u_timestamp (txn_at q j)) ts}"
proof (induction q ts i rule: Before_collect.induct)
  case (1 q ts i)
  show ?case
  proof (cases "length (q_minHeap q) > i \<and> Timestamp_Less (u_timestamp (txn_at q i)) ts")
    case True
    then show ?thesis
      unfolding Before_collect.simps [of q ts i] descends_iff [of i] if_P [OF True] using 1 by auto
  next
    case False
    have "\<not> Timestamp_Less (u_timestamp (txn_at q j)) ts" if j: "j < length (q_minHeap q)" "descends d i j" for j d
    proof -
      have "i < length (q_minHeap q)" using descends_ge [OF j(2)] j(1) by simp
      then have "\<not> Timestamp_Less (u_timestamp (txn_at q i)) ts" using False by simp
      moreover have "txn_key q (q_minHeap q ! i) \<le> txn_key q (q_minHeap q ! j)" using descends_key [OF 1(3) j(2,1)] .
      ultimately show ?thesis by (auto simp: txn_key_def txn_at_def Timestamp_Less_def less_eq_prod_def)
    qed
    then show ?thesis unfolding Before_collect.simps [of q ts i] if_not_P [OF False] by auto
  qed
qed

lemma uiq_Before_correct:
  assumes "uiq_inv q"
  shows "(\<lambda>t. (u_txnID t, tracked_of t)) ` set (uiq_Before q ts) = {(x, t). uiq_abs q x = Some t \<and> Timestamp_Less (t_Timestamp t) ts}"
proof -
  have "ordered q" using assms by (simp add: uiq_inv_def)
  then have "set (uiq_Before q ts) = {txn_at q j | j. j < length (q_minHeap q) \<and> Timestamp_Less (u_timestamp (txn_at q j)) ts}"
    unfolding uiq_Before_def using descends_root by (simp add: Before_collect_correct [of q ts 0]) blast
  moreover have "t_Timestamp (tracked_of t) = u_timestamp t" for t by (simp add: tracked_of_def)
  ultimately show ?thesis unfolding abs_heap [OF assms] by (auto simp: image_iff) blast
qed

section \<open>Properties\<close>

text \<open>
  C37. The queue of unresolved transactions refines a map from transaction IDs. Every operation keeps the invariant (map and
  heap hold the same objects, each object knows its position, the heap is ordered) and acts on the map as specified: a
  transaction appears with its first reference, is forwarded to the highest timestamp seen, and disappears with its last
  reference or when it is deleted. The result tells whether the oldest transaction was removed or moved. The oldest
  transaction is the least one by timestamp and ID, and \<open>Before\<close> returns exactly the transactions before a timestamp.
\<close>

theorem intent_queue_refines_map:
  assumes "uiq_inv q"
  shows "op_ok q (abs_update (q_allowNegRefCount q) (uiq_abs q) x k minTS ts d) x (updateTxn q x k minTS ts d) \<and>
    op_ok q ((uiq_abs q)(x := None)) x (uiq_Del q x) \<and>
    (case uiq_Oldest q of None \<Rightarrow> uiq_abs q = Map.empty | Some t \<Rightarrow> uiq_abs q (u_txnID t) = Some (tracked_of t) \<and> is_oldest (uiq_abs q) (u_txnID t)) \<and>
    (\<lambda>t. (u_txnID t, tracked_of t)) ` set (uiq_Before q ts) = {(y, t). uiq_abs q y = Some t \<and> Timestamp_Less (t_Timestamp t) ts}"
  using updateTxn_correct [OF assms] uiq_Del_correct [OF assms] uiq_Oldest_correct [OF assms] uiq_Before_correct [OF assms] by simp

lemma new_queue_inv: "uiq_inv makeUnresolvedIntentQueue"
  by (simp add: uiq_inv_def makeUnresolvedIntentQueue_def indexed_def uh.is_heap_def)

theorem intent_queue_refines_map_witness:
  "op_ok makeUnresolvedIntentQueue (abs_update True (uiq_abs makeUnresolvedIntentQueue) [7] [] (mkTs 1 0) (mkTs 2 0) 1) [7]
     (updateTxn makeUnresolvedIntentQueue [7] [] (mkTs 1 0) (mkTs 2 0) 1)"
  using intent_queue_refines_map [OF new_queue_inv, of "[7]" "[]" "mkTs 1 0" "mkTs 2 0" 1] by (simp add: makeUnresolvedIntentQueue_def)

end
