(* ===== verification/Resolved_Timestamp.thy ===== *)
theory Resolved_Timestamp
  imports Intent_Queue
begin

text \<open>
  The resolved timestamp of a rangefeed, \<open>resolvedTimestamp\<close> of
  \<open>pkg/kv/kvserver/rangefeed/resolved_timestamp.go\<close>: the least of the closed timestamp and the time just before the
  oldest unresolved intent. Its inputs are the closed timestamps and logical operations of the range in the order
  of the Raft log. What it relies on, as its documentation states, is that nothing is written at or below a closed timestamp;
  under this contract none of its assertions fails and it never regresses.
\<close>

section \<open>Logical operations and the resolved timestamp\<close>

text \<open>The fields of a logical operation that are read here; \<open>UnknownOp\<close> is any other value.\<close>

datatype MVCCLogicalOp =
    WriteValueOp Timestamp
  | DeleteRangeOp Timestamp
  | WriteIntentOp bytes bytes Timestamp Timestamp
  | UpdateIntentOp bytes Timestamp
  | CommitIntentOp bytes Timestamp
  | AbortIntentOp bytes
  | AbortTxnOp bytes
  | UnknownOp

record resolvedTimestamp =
  rt_init :: bool
  rt_closedTS :: Timestamp
  rt_resolvedTS :: Timestamp
  rt_intentQ :: unresolvedIntentQueue

definition makeResolvedTimestamp :: resolvedTimestamp where
  "makeResolvedTimestamp = \<lparr>rt_init = False, rt_closedTS = mkTs 0 0, rt_resolvedTS = mkTs 0 0, rt_intentQ = makeUnresolvedIntentQueue\<rparr>"

definition rts_Get :: "resolvedTimestamp \<Rightarrow> Timestamp" where "rts_Get rts = rt_resolvedTS rts"

definition rts_IsInit :: "resolvedTimestamp \<Rightarrow> bool" where "rts_IsInit rts = rt_init rts"

definition rts_recompute :: "resolvedTimestamp \<Rightarrow> (resolvedTimestamp \<times> bool) res" where
  "rts_recompute rts =
     (if \<not> rts_IsInit rts then Inr (rts, False)
      else if Timestamp_Less (rt_closedTS rts) (rt_resolvedTS rts) then Inl (Panic ''closed timestamp below resolved timestamp'')
      else
        res_bind
          (case uiq_Oldest (rt_intentQ rts) of
             None \<Rightarrow> Inr (rt_closedTS rts)
           | Some txn \<Rightarrow>
               if Timestamp_LessEq (u_timestamp txn) (rt_resolvedTS rts) then Inl (Panic ''unresolved txn equal to or below resolved timestamp'')
               else res_bind (Timestamp_Prev (u_timestamp txn)) (\<lambda>txnTS. Inr (Timestamp_Backward (rt_closedTS rts) txnTS)))
          (\<lambda>newTS. let newTS = newTS\<lparr>Logical := 0\<rparr> in
             if Timestamp_Less newTS (rt_resolvedTS rts) then Inl (Panic ''resolved timestamp regression'')
             else (case Timestamp_Forward (rt_resolvedTS rts) newTS of (ts, moved) \<Rightarrow> Inr (rts\<lparr>rt_resolvedTS := ts\<rparr>, moved))))"

definition rts_assertNoChange :: "resolvedTimestamp \<Rightarrow> resolvedTimestamp res" where
  "rts_assertNoChange rts =
     (let before = rt_resolvedTS rts in
      res_bind (rts_recompute rts) (\<lambda>(rts, changed).
        if changed \<or> \<not> Timestamp_EqOrdering before (rt_resolvedTS rts) then Inl (Panic ''unexpected resolved timestamp change on recomputation'')
        else Inr rts))"

definition rts_Init :: "resolvedTimestamp \<Rightarrow> (resolvedTimestamp \<times> bool) res" where
  "rts_Init rts =
     (let rts = rts\<lparr>rt_init := True\<rparr> in
      res_bind (AllowNegRefCount (rt_intentQ rts) False) (\<lambda>q. rts_recompute (rts\<lparr>rt_intentQ := q\<rparr>)))"

text \<open>The end shared by \<open>ForwardClosedTS\<close> and \<open>ConsumeLogicalOp\<close>.\<close>

definition rts_finish :: "bool \<Rightarrow> resolvedTimestamp \<Rightarrow> (resolvedTimestamp \<times> bool) res" where
  "rts_finish changed rts = (if changed then rts_recompute rts else res_bind (rts_assertNoChange rts) (\<lambda>rts. Inr (rts, False)))"

definition rts_ForwardClosedTS :: "resolvedTimestamp \<Rightarrow> Timestamp \<Rightarrow> (resolvedTimestamp \<times> bool) res" where
  "rts_ForwardClosedTS rts newClosedTS =
     (case Timestamp_Forward (rt_closedTS rts) newClosedTS of (ts, moved) \<Rightarrow> rts_finish moved (rts\<lparr>rt_closedTS := ts\<rparr>))"

definition rts_assertOpAboveRTS :: "resolvedTimestamp \<Rightarrow> Timestamp \<Rightarrow> bool \<Rightarrow> unit res" where
  "rts_assertOpAboveRTS rts opTS fatal =
     (if Timestamp_LessEq opTS (rt_resolvedTS rts) \<and> fatal then Inl (Panic ''resolved timestamp equal to or above timestamp of operation'') else Inr ())"

definition with_queue :: "resolvedTimestamp \<Rightarrow> unresolvedIntentQueue \<times> bool \<Rightarrow> (resolvedTimestamp \<times> bool) res" where
  "with_queue rts r = Inr (rts\<lparr>rt_intentQ := fst r\<rparr>, snd r)"

definition rts_consumeLogicalOp :: "resolvedTimestamp \<Rightarrow> MVCCLogicalOp \<Rightarrow> (resolvedTimestamp \<times> bool) res" where
  "rts_consumeLogicalOp rts op =
     (case op of
        WriteValueOp ts \<Rightarrow> res_bind (rts_assertOpAboveRTS rts ts True) (\<lambda>_. Inr (rts, False))
      | DeleteRangeOp ts \<Rightarrow> res_bind (rts_assertOpAboveRTS rts ts True) (\<lambda>_. Inr (rts, False))
      | WriteIntentOp txnID txnKey txnMinTS ts \<Rightarrow>
          res_bind (rts_assertOpAboveRTS rts ts True) (\<lambda>_. with_queue rts (uiq_IncRef (rt_intentQ rts) txnID txnKey txnMinTS ts))
      | UpdateIntentOp txnID ts \<Rightarrow> with_queue rts (uiq_UpdateTS (rt_intentQ rts) txnID ts)
      | CommitIntentOp txnID ts \<Rightarrow>
          res_bind (rts_assertOpAboveRTS rts ts False) (\<lambda>_. with_queue rts (uiq_DecrRef (rt_intentQ rts) txnID ts))
      | AbortIntentOp txnID \<Rightarrow> with_queue rts (uiq_DecrRef (rt_intentQ rts) txnID (mkTs 0 0))
      | AbortTxnOp txnID \<Rightarrow> if \<not> rts_IsInit rts then Inr (rts, False) else with_queue rts (uiq_Del (rt_intentQ rts) txnID)
      | UnknownOp \<Rightarrow> Inl (Panic ''unknown logical op''))"

definition rts_ConsumeLogicalOp :: "resolvedTimestamp \<Rightarrow> MVCCLogicalOp \<Rightarrow> (resolvedTimestamp \<times> bool) res" where
  "rts_ConsumeLogicalOp rts op = res_bind (rts_consumeLogicalOp rts op) (\<lambda>(rts, changed). rts_finish changed rts)"

section \<open>The value of the resolved timestamp\<close>

text \<open>The wall time of the timestamp before \<open>t\<close>; the logical part of a resolved timestamp is zero.\<close>

definition wall_prev :: "Timestamp \<Rightarrow> int" where
  "wall_prev t = (if Logical t > 0 then WallTime t else WallTime t - 1)"

definition nonneg :: "Timestamp \<Rightarrow> bool" where
  "nonneg t \<longleftrightarrow> 0 \<le> WallTime t \<and> 0 \<le> Logical t"

definition is_target :: "(bytes \<rightharpoonup> tracked) \<Rightarrow> Timestamp \<Rightarrow> int \<Rightarrow> bool" where
  "is_target m closed w \<longleftrightarrow> w \<le> WallTime closed \<and> (\<forall>x t. m x = Some t \<longrightarrow> w \<le> wall_prev (t_Timestamp t)) \<and>
     (w = WallTime closed \<or> (\<exists>x t. m x = Some t \<and> w = wall_prev (t_Timestamp t)))"

lemma is_target_unique: "is_target m c v \<Longrightarrow> is_target m c w \<Longrightarrow> v = w"
  unfolding is_target_def by (metis order_antisym)

lemma wall_prev_mono: "Timestamp_LessEq s t \<Longrightarrow> nonneg s \<Longrightarrow> wall_prev s \<le> wall_prev t"
  by (auto simp: wall_prev_def nonneg_def Timestamp_LessEq_def)

lemma wall_prev_above: "w \<le> wall_prev t \<Longrightarrow> nonneg t \<Longrightarrow> WallTime s = w \<Longrightarrow> Logical s = 0 \<Longrightarrow> Timestamp_Less s t"
  by (auto simp: wall_prev_def nonneg_def Timestamp_Less_def split: if_splits)

lemma above_wall_prev: "Timestamp_Less s t \<Longrightarrow> 0 \<le> Logical s \<Longrightarrow> WallTime s \<le> wall_prev t"
  by (auto simp: wall_prev_def Timestamp_Less_def)

definition tracks_above :: "(bytes \<rightharpoonup> tracked) \<Rightarrow> Timestamp \<Rightarrow> bool" where
  "tracks_above m r \<longleftrightarrow> (\<forall>x t. m x = Some t \<longrightarrow> nonneg (t_Timestamp t) \<and> Timestamp_Less r (t_Timestamp t))"

lemma forward_wall:
  assumes "Logical a = 0" "Logical b = 0" "WallTime a \<le> WallTime b"
  shows "\<exists>s. Timestamp_Forward a b = (s, WallTime a < WallTime b) \<and> WallTime s = WallTime b \<and> Logical s = 0"
  using assms by (auto simp: Timestamp_Forward_def Timestamp_Less_def Timestamp_EqOrdering_def)

lemma backward_wall: "WallTime (Timestamp_Backward a b) = min (WallTime a) (WallTime b)"
  by (auto simp: Timestamp_Backward_def Timestamp_Less_def)

lemma prev_wall: "Timestamp_Less r t \<Longrightarrow> Logical r = 0 \<Longrightarrow> 0 \<le> WallTime r \<Longrightarrow> \<exists>p. Timestamp_Prev t = Inr p \<and> WallTime p = wall_prev t"
  by (auto simp: Timestamp_Prev_def wall_prev_def Timestamp_Less_def)

text \<open>The timestamp that \<open>recompute\<close> starts from, and its wall time.\<close>

lemma oldest_target:
  assumes "uiq_inv q" "tracks_above (uiq_abs q) r" "Logical r = 0" "0 \<le> WallTime r"
  shows "\<exists>ts. (case uiq_Oldest q of
             None \<Rightarrow> Inr c
           | Some txn \<Rightarrow>
               if Timestamp_LessEq (u_timestamp txn) r then Inl (Panic ''unresolved txn equal to or below resolved timestamp'')
               else res_bind (Timestamp_Prev (u_timestamp txn)) (\<lambda>txnTS. Inr (Timestamp_Backward c txnTS))) = Inr ts \<and>
     is_target (uiq_abs q) c (WallTime ts)"
proof (cases "uiq_Oldest q")
  case None
  then have "uiq_abs q = Map.empty" using uiq_Oldest_correct [OF assms(1)] by simp
  then show ?thesis using None by (simp add: is_target_def)
next
  case (Some txn)
  let ?t = "u_timestamp txn"
  have m: "uiq_abs q (u_txnID txn) = Some (tracked_of txn)" "is_oldest (uiq_abs q) (u_txnID txn)" "t_Timestamp (tracked_of txn) = ?t"
    using uiq_Oldest_correct [OF assms(1)] Some by (simp_all add: tracked_of_def)
  have t: "nonneg ?t" "Timestamp_Less r ?t" using assms(2) m(1,3) unfolding tracks_above_def by metis+
  obtain p where p: "Timestamp_Prev ?t = Inr p" "WallTime p = wall_prev ?t" using prev_wall [OF t(2) assms(3,4)] by blast
  have "wall_prev ?t \<le> wall_prev (t_Timestamp s)" if "uiq_abs q y = Some s" for y s
  proof (rule wall_prev_mono [OF _ t(1)])
    have "(WallTime ?t, Logical ?t, u_txnID txn) \<le> (WallTime (t_Timestamp s), Logical (t_Timestamp s), y)"
      using m that unfolding is_oldest_def by (metis option.inject)
    then show "Timestamp_LessEq ?t (t_Timestamp s)" by (auto simp: Timestamp_LessEq_def less_eq_prod_def)
  qed
  then have low: "min (WallTime c) (wall_prev ?t) \<le> wall_prev (t_Timestamp s)" if "uiq_abs q y = Some s" for y s
    using that by (meson min.coboundedI2)
  have "min (WallTime c) (wall_prev ?t) = WallTime c \<or> min (WallTime c) (wall_prev ?t) = wall_prev (t_Timestamp (tracked_of txn))"
    unfolding m(3) by linarith
  then have "is_target (uiq_abs q) c (min (WallTime c) (wall_prev ?t))"
    unfolding is_target_def using low m(1) by (intro conjI allI impI) (simp, blast, metis)
  then show ?thesis using Some p t(2) by (simp add: ts_lesseq_iff backward_wall)
qed

lemma recompute_correct:
  assumes "rt_init r" "uiq_inv (rt_intentQ r)" "Logical (rt_resolvedTS r) = 0" "0 \<le> WallTime (rt_resolvedTS r)" "nonneg (rt_closedTS r)"
    and "WallTime (rt_resolvedTS r) \<le> WallTime (rt_closedTS r)" "tracks_above (uiq_abs (rt_intentQ r)) (rt_resolvedTS r)"
  shows "\<exists>s. rts_recompute r = Inr (r\<lparr>rt_resolvedTS := s\<rparr>, WallTime (rt_resolvedTS r) < WallTime s) \<and> Logical s = 0 \<and>
    WallTime (rt_resolvedTS r) \<le> WallTime s \<and> is_target (uiq_abs (rt_intentQ r)) (rt_closedTS r) (WallTime s)"
proof -
  let ?res = "rt_resolvedTS r" and ?m = "uiq_abs (rt_intentQ r)"
  obtain ts where ts: "(case uiq_Oldest (rt_intentQ r) of
             None \<Rightarrow> Inr (rt_closedTS r)
           | Some txn \<Rightarrow>
               if Timestamp_LessEq (u_timestamp txn) ?res then Inl (Panic ''unresolved txn equal to or below resolved timestamp'')
               else res_bind (Timestamp_Prev (u_timestamp txn)) (\<lambda>txnTS. Inr (Timestamp_Backward (rt_closedTS r) txnTS))) = Inr ts"
      "is_target ?m (rt_closedTS r) (WallTime ts)"
    using oldest_target [OF assms(2,7,3,4)] by blast
  have "WallTime ?res \<le> wall_prev (t_Timestamp t)" if "?m x = Some t" for x t
    using assms(7) that above_wall_prev [of ?res] assms(3) unfolding tracks_above_def by simp
  then have w: "WallTime ?res \<le> WallTime ts" using ts(2) assms(6) unfolding is_target_def by auto
  obtain s where s: "Timestamp_Forward ?res (ts\<lparr>Logical := 0\<rparr>) = (s, WallTime ?res < WallTime ts)" "WallTime s = WallTime ts" "Logical s = 0"
    using forward_wall [of ?res "ts\<lparr>Logical := 0\<rparr>"] assms(3) w by auto
  have "\<not> Timestamp_Less (rt_closedTS r) ?res" "\<not> Timestamp_Less (ts\<lparr>Logical := 0\<rparr>) ?res"
    using assms(3,5,6) w by (auto simp: Timestamp_Less_def nonneg_def)
  then have "rts_recompute r = Inr (r\<lparr>rt_resolvedTS := s\<rparr>, WallTime ?res < WallTime ts)"
    unfolding rts_recompute_def ts(1) using assms(1) s(1) by (simp add: rts_IsInit_def)
  then show ?thesis using s w ts(2) by auto
qed

section \<open>The invariant\<close>

definition rts_inv :: "resolvedTimestamp \<Rightarrow> bool" where
  "rts_inv r \<longleftrightarrow> (let m = uiq_abs (rt_intentQ r); res = rt_resolvedTS r in
     uiq_inv (rt_intentQ r) \<and> Logical res = 0 \<and> 0 \<le> WallTime res \<and> nonneg (rt_closedTS r) \<and> WallTime res \<le> WallTime (rt_closedTS r) \<and>
     (if rt_init r then \<not> q_allowNegRefCount (rt_intentQ r) \<and> (\<forall>x t. m x = Some t \<longrightarrow> t_RefCount t > 0) \<and> tracks_above m res \<and>
        is_target m (rt_closedTS r) (WallTime res)
      else WallTime res = 0 \<and> q_allowNegRefCount (rt_intentQ r) \<and>
        (\<forall>x t. m x = Some t \<longrightarrow> nonneg (t_Timestamp t) \<and> t_RefCount t \<noteq> 0 \<and> (t_RefCount t > 0 \<longrightarrow> Timestamp_Less (mkTs 0 0) (t_Timestamp t)))))"

lemma make_inv: "rts_inv makeResolvedTimestamp"
proof -
  have "uiq_abs makeUnresolvedIntentQueue = Map.empty" by (simp add: uiq_abs_def makeUnresolvedIntentQueue_def fun_eq_iff)
  moreover note new_queue_inv
  ultimately show ?thesis by (simp add: rts_inv_def makeResolvedTimestamp_def nonneg_def) (simp add: makeUnresolvedIntentQueue_def)
qed

text \<open>What an operation promises of its result.\<close>

definition rts_ok :: "resolvedTimestamp \<Rightarrow> (resolvedTimestamp \<times> bool) res \<Rightarrow> bool" where
  "rts_ok r res \<longleftrightarrow> (\<exists>r' b. res = Inr (r', b) \<and> rts_inv r' \<and> Timestamp_LessEq (rt_resolvedTS r) (rt_resolvedTS r') \<and>
     (b \<longleftrightarrow> Timestamp_Less (rt_resolvedTS r) (rt_resolvedTS r')))"

lemma rts_finish_init:
  assumes "rt_init r" "uiq_inv (rt_intentQ r)" "Logical (rt_resolvedTS r) = 0" "0 \<le> WallTime (rt_resolvedTS r)" "nonneg (rt_closedTS r)"
    and "WallTime (rt_resolvedTS r) \<le> WallTime (rt_closedTS r)" "tracks_above (uiq_abs (rt_intentQ r)) (rt_resolvedTS r)"
    and "\<not> q_allowNegRefCount (rt_intentQ r)" "\<forall>x t. uiq_abs (rt_intentQ r) x = Some t \<longrightarrow> t_RefCount t > 0"
    and "b \<or> is_target (uiq_abs (rt_intentQ r)) (rt_closedTS r) (WallTime (rt_resolvedTS r))"
  shows "rts_ok r (rts_finish b r)"
proof -
  let ?res = "rt_resolvedTS r" and ?m = "uiq_abs (rt_intentQ r)"
  obtain s where s: "rts_recompute r = Inr (r\<lparr>rt_resolvedTS := s\<rparr>, WallTime ?res < WallTime s)" "Logical s = 0"
    "WallTime ?res \<le> WallTime s" "is_target ?m (rt_closedTS r) (WallTime s)" using recompute_correct [OF assms(1-7)] by blast
  have same: "WallTime s = WallTime ?res" if "\<not> b" using assms(10) that s(4) is_target_unique by blast
  have fin: "rts_finish b r = Inr (r\<lparr>rt_resolvedTS := s\<rparr>, WallTime ?res < WallTime s)"
    using s(1,2) same assms(3) by (auto simp: rts_finish_def rts_assertNoChange_def Timestamp_EqOrdering_def)
  have "Timestamp_Less s (t_Timestamp t)" "nonneg (t_Timestamp t)" if "?m x = Some t" for x t
    using wall_prev_above [of "WallTime s" "t_Timestamp t" s] that s(2,4) assms(7) unfolding is_target_def tracks_above_def by blast+
  then have "rts_inv (r\<lparr>rt_resolvedTS := s\<rparr>)"
    using assms(1,2,4,5,8,9) s unfolding rts_inv_def tracks_above_def by (auto simp: is_target_def)
  then show ?thesis unfolding rts_ok_def fin using s(2,3) assms(3) by (auto simp: Timestamp_LessEq_def Timestamp_Less_def)
qed

lemma rts_finish_before_init:
  assumes "rts_inv r" "\<not> rt_init r"
  shows "rts_ok r (rts_finish b r)"
proof -
  have "rts_recompute r = Inr (r, False)" using assms(2) by (simp add: rts_recompute_def rts_IsInit_def)
  then have "rts_finish b r = Inr (r, False)" by (simp add: rts_finish_def rts_assertNoChange_def Timestamp_EqOrdering_def)
  then show ?thesis using assms(1) by (auto simp: rts_ok_def Timestamp_LessEq_def Timestamp_Less_def)
qed

section \<open>Changes of the tracked transactions\<close>

text \<open>One entry is dropped, added above the closed timestamp, or moved forward.\<close>

definition advances :: "Timestamp \<Rightarrow> (bytes \<rightharpoonup> tracked) \<Rightarrow> (bytes \<rightharpoonup> tracked) \<Rightarrow> bytes \<Rightarrow> bool" where
  "advances c m m' x \<longleftrightarrow> (\<forall>y. y \<noteq> x \<longrightarrow> m' y = m y) \<and>
     (\<forall>t'. m' x = Some t' \<longrightarrow> nonneg (t_Timestamp t') \<and>
       (case m x of None \<Rightarrow> Timestamp_Less c (t_Timestamp t') | Some t \<Rightarrow> Timestamp_LessEq (t_Timestamp t) (t_Timestamp t')))"

lemma advances_above:
  assumes "advances c m m' x" "tracks_above m r" "Timestamp_LessEq r c"
  shows "tracks_above m' r"
proof -
  have "Timestamp_Less r (t_Timestamp t')" if t': "m' x = Some t'" for t'
  proof (cases "m x")
    case None
    then show ?thesis using assms(1) t' ts_lesseq_less_trans [OF assms(3)] by (simp add: advances_def)
  next
    case (Some t)
    then have "Timestamp_Less r (t_Timestamp t)" using assms(2) by (simp add: tracks_above_def)
    then show ?thesis using assms(1) t' ts_less_lesseq_trans Some by (simp add: advances_def)
  qed
  then show ?thesis using assms(1,2) unfolding tracks_above_def advances_def by metis
qed

lemma advances_low:
  assumes "advances c m m' x" "is_target m c w" "nonneg c" "\<forall>y t. m y = Some t \<longrightarrow> nonneg (t_Timestamp t)" "m' y = Some t'"
  shows "w \<le> wall_prev (t_Timestamp t')"
proof (cases "y = x")
  case True
  then have c: "nonneg (t_Timestamp t')" "case m x of None \<Rightarrow> Timestamp_Less c (t_Timestamp t') | Some t \<Rightarrow> Timestamp_LessEq (t_Timestamp t) (t_Timestamp t')"
    using assms(1,5) by (auto simp: advances_def)
  show ?thesis
  proof (cases "m x")
    case None
    then have "WallTime c \<le> wall_prev (t_Timestamp t')" using c(2) above_wall_prev assms(3) by (simp add: nonneg_def)
    then show ?thesis using assms(2) by (simp add: is_target_def)
  next
    case (Some t)
    then have "w \<le> wall_prev (t_Timestamp t)" "wall_prev (t_Timestamp t) \<le> wall_prev (t_Timestamp t')"
      using assms(2,4) c(2) wall_prev_mono by (auto simp: is_target_def)
    then show ?thesis by simp
  qed
next
  case False
  then have "m y = Some t'" using assms(1,5) by (simp add: advances_def)
  then show ?thesis using assms(2) by (simp add: is_target_def)
qed

lemma advances_target:
  assumes "advances c m m' x" "is_target m c w" "nonneg c" "\<forall>y t. m y = Some t \<longrightarrow> nonneg (t_Timestamp t)"
    and "\<not> oldest_moved m m' x" "m \<noteq> Map.empty \<Longrightarrow> \<exists>z. is_oldest m z"
  shows "is_target m' c w"
proof -
  have other: "m' y = m y" if "y \<noteq> x" for y using assms(1) that by (simp add: advances_def)
  have "w = WallTime c \<or> (\<exists>y t. m' y = Some t \<and> w = wall_prev (t_Timestamp t))"
  proof (rule ccontr)
    assume no: "\<not> ?thesis"
    then obtain y t where y: "m y = Some t" "w = wall_prev (t_Timestamp t)" using assms(2) by (auto simp: is_target_def)
    then have x: "y = x" using no other by metis
    obtain z u where z: "m z = Some u" "is_oldest m z" using assms(6) y(1) by (auto simp: is_oldest_def)
    have "(WallTime (t_Timestamp u), Logical (t_Timestamp u), z) \<le> (WallTime (t_Timestamp t), Logical (t_Timestamp t), x)"
      using z y x unfolding is_oldest_def by (metis option.inject)
    then have "Timestamp_LessEq (t_Timestamp u) (t_Timestamp t)" by (auto simp: Timestamp_LessEq_def less_eq_prod_def)
    then have "wall_prev (t_Timestamp u) \<le> w" using wall_prev_mono assms(4) z(1) y(2) by simp
    moreover have "w \<le> wall_prev (t_Timestamp u)" using assms(2) z(1) by (simp add: is_target_def)
    ultimately have "w = wall_prev (t_Timestamp u)" by simp
    then have "z = x" using no other z(1) by metis
    then obtain t' where t': "m' x = Some t'" "\<not> Timestamp_Less (t_Timestamp t) (t_Timestamp t')"
      using assms(5) z(2) y(1) x by (auto simp: oldest_moved_def split: option.splits)
    moreover have "Timestamp_LessEq (t_Timestamp t) (t_Timestamp t')" using assms(1) t'(1) y(1) x by (simp add: advances_def)
    ultimately have "WallTime (t_Timestamp t') = WallTime (t_Timestamp t)" "Logical (t_Timestamp t') = Logical (t_Timestamp t)"
      by (auto simp: Timestamp_LessEq_def Timestamp_Less_def)
    then have "w = wall_prev (t_Timestamp t')" using y(2) by (simp add: wall_prev_def)
    then show False using no t'(1) by auto
  qed
  then show ?thesis using advances_low [OF assms(1-4)] assms(2) unfolding is_target_def by blast
qed

lemma abs_update_advances:
  assumes "nonneg ts" "0 < d \<Longrightarrow> Timestamp_Less c ts" "\<forall>y t. m y = Some t \<longrightarrow> nonneg (t_Timestamp t)"
  shows "advances c m (abs_update False m x k minTS ts d) x"
proof (cases "m x")
  case None
  then show ?thesis using assms by (auto simp: advances_def abs_update_def)
next
  case (Some t)
  have "nonneg (fst (Timestamp_Forward (t_Timestamp t) ts))" using assms(1,3) Some by (auto simp: Timestamp_Forward_def nonneg_def)
  then show ?thesis using Some Forward_ge(1) [of "t_Timestamp t" ts] assms(3) by (auto simp: advances_def abs_update_def)
qed

lemma drop_advances: "\<forall>y t. m y = Some t \<longrightarrow> nonneg (t_Timestamp t) \<Longrightarrow> advances c m (m(x := None)) x"
  by (simp add: advances_def)

text \<open>An operation on the queue, once it is initialized.\<close>

lemma rts_queue_step:
  assumes "rts_inv r" "rt_init r" "op_ok (rt_intentQ r) m' x R" "advances (rt_closedTS r) (uiq_abs (rt_intentQ r)) m' x"
    and "\<forall>y t. m' y = Some t \<longrightarrow> t_RefCount t > 0"
  shows "rts_ok r (rts_finish (snd R) (r\<lparr>rt_intentQ := fst R\<rparr>))"
proof -
  let ?m = "uiq_abs (rt_intentQ r)" and ?r = "r\<lparr>rt_intentQ := fst R\<rparr>"
  note I = assms(1) [unfolded rts_inv_def Let_def if_P [OF assms(2)]]
  have R: "uiq_inv (fst R)" "uiq_abs (fst R) = m'" "\<not> q_allowNegRefCount (fst R)" "snd R \<longleftrightarrow> oldest_moved ?m m' x"
    using assms(3) I by (simp_all add: op_ok_def)
  have le: "Timestamp_LessEq (rt_resolvedTS r) (rt_closedTS r)" using I by (auto simp: Timestamp_LessEq_def nonneg_def)
  have nn: "\<forall>y t. ?m y = Some t \<longrightarrow> nonneg (t_Timestamp t)" using I by (simp add: tracks_above_def)
  have "\<exists>z. is_oldest ?m z" if "?m \<noteq> Map.empty"
    using uiq_Oldest_correct [of "rt_intentQ r"] I that by (auto split: option.splits)
  then have "snd R \<or> is_target m' (rt_closedTS r) (WallTime (rt_resolvedTS r))"
    using advances_target [OF assms(4) _ _ nn] I R(4) by blast
  then have "rts_ok ?r (rts_finish (snd R) ?r)"
    using advances_above [OF assms(4) _ le] I R assms(2,5) by (intro rts_finish_init) simp_all
  then show ?thesis by (simp add: rts_ok_def)
qed

text \<open>Before initialization reference counts may be negative; a positive one belongs to an intent that was written.\<close>

definition early_ok :: "(bytes \<rightharpoonup> tracked) \<Rightarrow> bool" where
  "early_ok m \<longleftrightarrow> (\<forall>x t. m x = Some t \<longrightarrow> nonneg (t_Timestamp t) \<and> t_RefCount t \<noteq> 0 \<and> (t_RefCount t > 0 \<longrightarrow> Timestamp_Less (mkTs 0 0) (t_Timestamp t)))"

lemma abs_update_early:
  assumes "early_ok m" "nonneg ts" "0 < d \<Longrightarrow> Timestamp_Less (mkTs 0 0) ts" "d \<le> 1"
  shows "early_ok (abs_update True m x k minTS ts d)"
proof (cases "m x")
  case None
  then show ?thesis using assms by (auto simp: early_ok_def abs_update_def)
next
  case (Some t)
  let ?f = "fst (Timestamp_Forward (t_Timestamp t) ts)"
  have t: "nonneg (t_Timestamp t)" "t_RefCount t \<noteq> 0" "t_RefCount t > 0 \<Longrightarrow> Timestamp_Less (mkTs 0 0) (t_Timestamp t)"
    using assms(1) Some by (simp_all add: early_ok_def)
  have "nonneg ?f" using assms(2) t(1) by (auto simp: Timestamp_Forward_def nonneg_def)
  moreover have "Timestamp_Less (mkTs 0 0) ?f" if "t_RefCount t + d > 0" "t_RefCount t + d \<noteq> 0"
  proof -
    have "t_RefCount t > 0" using that t(2) assms(4) by linarith
    then show ?thesis using t(3) Forward_ge(1) ts_less_lesseq_trans by blast
  qed
  ultimately show ?thesis using assms(1) Some by (auto simp: early_ok_def abs_update_def)
qed

lemma abs_update_positive:
  "\<forall>y t. m y = Some t \<longrightarrow> t_RefCount t > 0 \<Longrightarrow> \<forall>y t. abs_update False m x k minTS ts d y = Some t \<longrightarrow> t_RefCount t > 0"
  by (auto simp: abs_update_def split: option.splits if_splits)

lemma rts_update_step:
  assumes "rts_inv r" "nonneg ts" "0 < d \<Longrightarrow> Timestamp_Less (rt_closedTS r) ts" "d \<le> 1"
    and "R = updateTxn (rt_intentQ r) x k minTS ts d"
  shows "rts_ok r (rts_finish (snd R) (r\<lparr>rt_intentQ := fst R\<rparr>))"
proof (cases "rt_init r")
  case True
  let ?m = "uiq_abs (rt_intentQ r)"
  note I = assms(1) [unfolded rts_inv_def Let_def if_P [OF True]]
  have ok: "op_ok (rt_intentQ r) (abs_update False ?m x k minTS ts d) x R"
    unfolding assms(5) using updateTxn_correct [of "rt_intentQ r" x k minTS ts d] I by simp
  show ?thesis
    by (rule rts_queue_step [OF assms(1) True ok])
      (use abs_update_advances [OF assms(2,3)] abs_update_positive [of ?m] I in \<open>auto simp: tracks_above_def\<close>)
next
  case False
  note I = assms(1) [unfolded rts_inv_def Let_def if_not_P [OF False]]
  have z: "0 < d \<Longrightarrow> Timestamp_Less (mkTs 0 0) ts"
    using assms(3) I by (auto simp: Timestamp_Less_def nonneg_def)
  have ok: "op_ok (rt_intentQ r) (abs_update True (uiq_abs (rt_intentQ r)) x k minTS ts d) x R"
    unfolding assms(5) using updateTxn_correct [of "rt_intentQ r" x k minTS ts d] I by simp
  have "early_ok (uiq_abs (rt_intentQ r))" using I by (simp add: early_ok_def)
  then have "early_ok (abs_update True (uiq_abs (rt_intentQ r)) x k minTS ts d)" by (rule abs_update_early [OF _ assms(2) z assms(4)])
  then have "rts_inv (r\<lparr>rt_intentQ := fst R\<rparr>)" using ok I False by (simp add: rts_inv_def op_ok_def early_ok_def)
  from rts_finish_before_init [OF this, of "snd R"] False show ?thesis by (simp add: rts_ok_def)
qed

section \<open>Events\<close>

datatype rts_event = EvInit | EvClosed Timestamp | EvOp MVCCLogicalOp

definition run_event :: "resolvedTimestamp \<Rightarrow> rts_event \<Rightarrow> (resolvedTimestamp \<times> bool) res" where
  "run_event r ev = (case ev of EvInit \<Rightarrow> rts_Init r | EvClosed ts \<Rightarrow> rts_ForwardClosedTS r ts | EvOp op \<Rightarrow> rts_ConsumeLogicalOp r op)"

text \<open>
  The contract: timestamps are not negative, writes are above the closed timestamp, and every intent that was resolved
  before the initialization was also seen being written.
\<close>

definition ev_ok :: "resolvedTimestamp \<Rightarrow> rts_event \<Rightarrow> bool" where
  "ev_ok r ev =
     (case ev of
        EvInit \<Rightarrow> list_all (\<lambda>(_, p). u_refCount (q_store (rt_intentQ r) p) > 0) (q_txns (rt_intentQ r))
      | EvClosed ts \<Rightarrow> nonneg ts
      | EvOp (WriteValueOp ts) \<Rightarrow> Timestamp_Less (rt_closedTS r) ts
      | EvOp (DeleteRangeOp ts) \<Rightarrow> Timestamp_Less (rt_closedTS r) ts
      | EvOp (WriteIntentOp _ _ _ ts) \<Rightarrow> Timestamp_Less (rt_closedTS r) ts \<and> nonneg ts
      | EvOp (UpdateIntentOp _ ts) \<Rightarrow> nonneg ts
      | EvOp (CommitIntentOp _ ts) \<Rightarrow> nonneg ts
      | EvOp UnknownOp \<Rightarrow> False
      | EvOp _ \<Rightarrow> True)"

lemma rts_resolved_closed: "rts_inv r \<Longrightarrow> Timestamp_LessEq (rt_resolvedTS r) (rt_closedTS r)"
  by (auto simp: rts_inv_def Let_def Timestamp_LessEq_def nonneg_def)

lemma rts_closed_step:
  assumes "rts_inv r" "nonneg ts"
  shows "rts_ok r (rts_ForwardClosedTS r ts)"
proof -
  obtain c moved where fw: "Timestamp_Forward (rt_closedTS r) ts = (c, moved)" by fastforce
  have c: "nonneg c" "WallTime (rt_closedTS r) \<le> WallTime c" "\<not> moved \<Longrightarrow> WallTime c = WallTime (rt_closedTS r)"
    using fw assms by (auto simp: Timestamp_Forward_def rts_inv_def Let_def nonneg_def Timestamp_Less_def Timestamp_EqOrdering_def split: if_splits)
  let ?r = "r\<lparr>rt_closedTS := c\<rparr>"
  have run: "rts_ForwardClosedTS r ts = rts_finish moved ?r" by (simp add: rts_ForwardClosedTS_def fw)
  show ?thesis
  proof (cases "rt_init r")
    case True
    note I = assms(1) [unfolded rts_inv_def Let_def if_P [OF True]]
    have "moved \<or> is_target (uiq_abs (rt_intentQ r)) c (WallTime (rt_resolvedTS r))" using c(3) I by (auto simp: is_target_def)
    then have "rts_ok ?r (rts_finish moved ?r)" using I c True by (intro rts_finish_init) auto
    then show ?thesis by (simp add: run rts_ok_def)
  next
    case False
    then have "rts_inv ?r" using assms(1) c by (auto simp: rts_inv_def Let_def)
    from rts_finish_before_init [OF this] False show ?thesis by (simp add: run rts_ok_def)
  qed
qed

lemma uiq_txns_abs:
  assumes "uiq_inv q"
  shows "list_all (\<lambda>(_, p). P (u_refCount (q_store q p))) (q_txns q) \<longleftrightarrow> (\<forall>x t. uiq_abs q x = Some t \<longrightarrow> P (t_RefCount t))"
proof -
  have "distinct (map fst (q_txns q))" using assms by (simp add: uiq_inv_def)
  moreover have "t_RefCount (tracked_of u) = u_refCount u" for u by (simp add: tracked_of_def)
  ultimately show ?thesis by (force simp: list_all_iff uiq_abs_def)
qed

lemma rts_init_step:
  assumes "rts_inv r" "\<forall>x t. uiq_abs (rt_intentQ r) x = Some t \<longrightarrow> t_RefCount t > 0"
  shows "rts_ok r (rts_Init r)"
proof -
  define q where "q = (rt_intentQ r)\<lparr>q_allowNegRefCount := False\<rparr>"
  let ?r = "r\<lparr>rt_init := True, rt_intentQ := q\<rparr>"
  have I: "uiq_inv (rt_intentQ r)" "Logical (rt_resolvedTS r) = 0" "0 \<le> WallTime (rt_resolvedTS r)" "nonneg (rt_closedTS r)"
    "WallTime (rt_resolvedTS r) \<le> WallTime (rt_closedTS r)" using assms(1) by (simp_all add: rts_inv_def Let_def)
  have q: "uiq_abs q = uiq_abs (rt_intentQ r)" "uiq_inv q"
    using I(1) by (auto simp: q_def uiq_abs_def fun_eq_iff uiq_inv_def indexed_def txn_at_def uh.is_heap_def txn_key_def)
  have "list_all (\<lambda>(_, p). \<not> u_refCount (q_store (rt_intentQ r) p) \<le> 0) (q_txns (rt_intentQ r))"
    using uiq_txns_abs [OF I(1), of "\<lambda>n. \<not> n \<le> 0"] assms(2) by fastforce
  then have run: "rts_Init r = rts_finish True ?r"
    by (simp add: rts_Init_def AllowNegRefCount_def assertOnlyPositiveRefCounts_def rts_finish_def q_def)
  have "tracks_above (uiq_abs q) (rt_resolvedTS r)"
  proof (cases "rt_init r")
    case True
    then show ?thesis using assms(1) by (simp add: rts_inv_def Let_def q(1))
  next
    case False
    then have "WallTime (rt_resolvedTS r) = 0" using assms(1) by (simp add: rts_inv_def Let_def)
    then show ?thesis using assms False I(2) by (auto simp: rts_inv_def Let_def q(1) tracks_above_def Timestamp_Less_def)
  qed
  then have "rts_ok ?r (rts_finish True ?r)" using I q assms(2) by (intro rts_finish_init) (auto simp: q_def)
  then show ?thesis by (simp add: run rts_ok_def)
qed

lemma rts_no_queue_change: "rts_inv r \<Longrightarrow> rts_ok r (rts_finish False r)"
proof (cases "rt_init r")
  case True
  assume r: "rts_inv r"
  note I = r [unfolded rts_inv_def Let_def if_P [OF True]]
  show ?thesis using I True by (intro rts_finish_init) auto
qed (rule rts_finish_before_init)

lemma rts_op_step:
  assumes "rts_inv r" "ev_ok r (EvOp op)"
  shows "rts_ok r (rts_ConsumeLogicalOp r op)"
proof -
  have above: "rts_assertOpAboveRTS r ts f = Inr ()" if "Timestamp_Less (rt_closedTS r) ts \<or> \<not> f" for ts f
    using that ts_lesseq_less_trans [OF rts_resolved_closed [OF assms(1)], of ts] by (auto simp: rts_assertOpAboveRTS_def ts_lesseq_iff)
  note same = rts_no_queue_change [OF assms(1)]
  note upd = rts_update_step [OF assms(1)]
  show ?thesis
  proof (cases op)
    case (AbortTxnOp x)
    show ?thesis
    proof (cases "rt_init r")
      case True
      note I = assms(1) [unfolded rts_inv_def Let_def if_P [OF True]]
      have "op_ok (rt_intentQ r) ((uiq_abs (rt_intentQ r))(x := None)) x (uiq_Del (rt_intentQ r) x)" using uiq_Del_correct I by blast
      then have "rts_ok r (rts_finish (snd (uiq_Del (rt_intentQ r) x)) (r\<lparr>rt_intentQ := fst (uiq_Del (rt_intentQ r) x)\<rparr>))"
        by (rule rts_queue_step [OF assms(1) True]) (use drop_advances I in \<open>auto simp: tracks_above_def\<close>)
      then show ?thesis using True AbortTxnOp by (simp add: rts_ConsumeLogicalOp_def rts_consumeLogicalOp_def rts_IsInit_def with_queue_def)
    next
      case False
      then show ?thesis using same AbortTxnOp by (simp add: rts_ConsumeLogicalOp_def rts_consumeLogicalOp_def rts_IsInit_def)
    qed
  next
    case (AbortIntentOp x)
    then show ?thesis using upd [of "mkTs 0 0" "-1"]
      by (simp add: rts_ConsumeLogicalOp_def rts_consumeLogicalOp_def with_queue_def uiq_DecrRef_def nonneg_def)
  qed (use assms(2) same above upd in \<open>simp_all add: ev_ok_def rts_ConsumeLogicalOp_def rts_consumeLogicalOp_def with_queue_def
      uiq_IncRef_def uiq_DecrRef_def uiq_UpdateTS_def\<close>)
qed

lemma run_event_ok:
  assumes "rts_inv r" "ev_ok r ev"
  shows "rts_ok r (run_event r ev)"
proof (cases ev)
  case EvInit
  have "uiq_inv (rt_intentQ r)" using assms(1) by (simp add: rts_inv_def Let_def)
  then show ?thesis using rts_init_step [OF assms(1)] assms(2) EvInit uiq_txns_abs [of "rt_intentQ r" "\<lambda>n. n > 0"]
    by (simp add: run_event_def ev_ok_def)
next
  case (EvClosed ts)
  then show ?thesis using rts_closed_step [OF assms(1)] assms(2) by (simp add: run_event_def ev_ok_def)
next
  case (EvOp op)
  then show ?thesis using rts_op_step [OF assms(1)] assms(2) by (simp add: run_event_def)
qed

fun run_events :: "resolvedTimestamp \<Rightarrow> rts_event list \<Rightarrow> resolvedTimestamp res" where
  "run_events r [] = Inr r"
| "run_events r (ev # evs) = res_bind (run_event r ev) (\<lambda>(r', _). run_events r' evs)"

fun trace_ok :: "resolvedTimestamp \<Rightarrow> rts_event list \<Rightarrow> bool" where
  "trace_ok r [] \<longleftrightarrow> True"
| "trace_ok r (ev # evs) \<longleftrightarrow> ev_ok r ev \<and> (case run_event r ev of Inl _ \<Rightarrow> True | Inr (r', _) \<Rightarrow> trace_ok r' evs)"

lemma run_events_ok:
  "rts_inv r \<Longrightarrow> trace_ok r evs \<Longrightarrow> \<exists>r'. run_events r evs = Inr r' \<and> rts_inv r' \<and> Timestamp_LessEq (rt_resolvedTS r) (rt_resolvedTS r')"
proof (induction evs arbitrary: r)
  case (Cons ev evs)
  then obtain r1 b where r1: "run_event r ev = Inr (r1, b)" "rts_inv r1" "Timestamp_LessEq (rt_resolvedTS r) (rt_resolvedTS r1)"
    using run_event_ok [of r ev] by (auto simp: rts_ok_def)
  then show ?case using Cons.IH [of r1] Cons.prems(2) ts_lesseq_trans by fastforce
qed simp

lemma trace_ok_append: "trace_ok r (es @ fs) \<Longrightarrow> trace_ok r es \<and> (\<forall>r'. run_events r es = Inr r' \<longrightarrow> trace_ok r' fs)"
  by (induction es arbitrary: r) (auto split: sum.splits prod.splits)

section \<open>Properties\<close>

text \<open>
  C10. The resolved timestamp is safe. For every sequence of initializations, closed timestamps and logical operations that
  respects the contract (nothing is written at or below the closed timestamp), no assertion of the code fails, the
  resolved timestamp never regresses and never passes the closed timestamp; once initialized it is below every
  unresolved intent, so that none of them can still be published at or below it, and it is as high as that allows: the least of the
  closed timestamp and the time just before the oldest unresolved intent.
\<close>

theorem resolved_timestamp_safe:
  assumes "trace_ok makeResolvedTimestamp (es @ fs)"
  shows "\<exists>r r'. run_events makeResolvedTimestamp es = Inr r \<and> run_events r fs = Inr r' \<and>
    Timestamp_LessEq (rts_Get r) (rts_Get r') \<and> Timestamp_LessEq (rts_Get r') (rt_closedTS r') \<and>
    (rts_IsInit r' \<longrightarrow> (\<forall>x t. uiq_abs (rt_intentQ r') x = Some t \<longrightarrow> Timestamp_Less (rts_Get r') (t_Timestamp t)) \<and>
       Logical (rts_Get r') = 0 \<and> is_target (uiq_abs (rt_intentQ r')) (rt_closedTS r') (WallTime (rts_Get r')))"
proof -
  note tr = trace_ok_append [OF assms]
  obtain r where r: "run_events makeResolvedTimestamp es = Inr r" "rts_inv r" using run_events_ok [OF make_inv] tr by blast
  obtain r' where r': "run_events r fs = Inr r'" "rts_inv r'" "Timestamp_LessEq (rt_resolvedTS r) (rt_resolvedTS r')"
    using run_events_ok [OF r(2)] tr r(1) by blast
  have "rts_IsInit r' \<longrightarrow> (\<forall>x t. uiq_abs (rt_intentQ r') x = Some t \<longrightarrow> Timestamp_Less (rts_Get r') (t_Timestamp t)) \<and>
       Logical (rts_Get r') = 0 \<and> is_target (uiq_abs (rt_intentQ r')) (rt_closedTS r') (WallTime (rts_Get r'))"
    using r'(2) by (auto simp: rts_inv_def Let_def rts_IsInit_def rts_Get_def tracks_above_def)
  then show ?thesis using r r'(1,3) rts_resolved_closed [OF r'(2)] by (auto simp: rts_Get_def)
qed

definition sample_trace :: "rts_event list" where
  "sample_trace = [EvClosed (mkTs 5 0), EvOp (WriteIntentOp [1] [9] (mkTs 6 0) (mkTs 7 0)), EvInit, EvClosed (mkTs 10 2),
     EvOp (WriteValueOp (mkTs 11 0)), EvOp (WriteIntentOp [2] [9] (mkTs 12 0) (mkTs 12 0)), EvOp (CommitIntentOp [1] (mkTs 7 0)), EvOp (AbortTxnOp [2])]"

theorem resolved_timestamp_safe_witness:
  "trace_ok makeResolvedTimestamp ((take 4 sample_trace) @ (drop 4 sample_trace)) \<and>
   (\<exists>r r'. run_events makeResolvedTimestamp (take 4 sample_trace) = Inr r \<and> run_events r (drop 4 sample_trace) = Inr r' \<and>
      Timestamp_LessEq (rts_Get r) (rts_Get r'))"
proof -
  have ok: "trace_ok makeResolvedTimestamp ((take 4 sample_trace) @ (drop 4 sample_trace))" by code_simp
  from resolved_timestamp_safe [OF this] ok show ?thesis by blast
qed

end
