(* ===== verification/Range_Group.thy ===== *)
theory Range_Group
  imports Roachpb_Span
begin

text \<open>
  Groups of key ranges, \<open>pkg/util/interval/range_group.go\<close> and \<open>interval.go\<close>: the bucketed linked list
  \<open>rangeList\<close> behind the interface \<open>RangeGroup\<close>. A node of the list is its used slots; an element of the linked
  list is given by its node and the nodes after it. A read of an unused slot, which yields stale data in
  the code, is a failure of the model; it is shown never to happen.
\<close>

section \<open>Ranges\<close>

record Range =
  r_Start :: bytes
  r_End :: bytes

definition rangeError :: "Range \<Rightarrow> go_err option" where
  "rangeError r =
     (let c = bytes_Compare (r_Start r) (r_End r) in
      if c = 1 then Some (Err ''interval: inverted range'')
      else if c = 0 then
        (if length (r_Start r) = 0 \<and> length (r_End r) = 0 then Some (Err ''interval: nil range'') else Some (Err ''interval: empty range''))
      else None)"

definition overlapsInclusive :: "Range \<Rightarrow> Range \<Rightarrow> bool" where
  "overlapsInclusive a b \<longleftrightarrow> bytes_Compare (r_Start a) (r_End b) \<le> 0 \<and> bytes_Compare (r_Start b) (r_End a) \<le> 0"

definition overlapsExclusive :: "Range \<Rightarrow> Range \<Rightarrow> bool" where
  "overlapsExclusive a b \<longleftrightarrow> bytes_Compare (r_Start a) (r_End b) < 0 \<and> bytes_Compare (r_Start b) (r_End a) < 0"

definition rg_contains :: "Range \<Rightarrow> Range \<Rightarrow> bool" where
  "rg_contains out inn \<longleftrightarrow> bytes_Compare (r_Start inn) (r_Start out) \<ge> 0 \<and> bytes_Compare (r_End out) (r_End inn) \<ge> 0"

definition rg_merge :: "Range \<Rightarrow> Range \<Rightarrow> Range" where
  "rg_merge l r =
     (let start = (if bytes_Compare (r_Start r) (r_Start l) < 0 then r_Start r else r_Start l);
          end = (if bytes_Compare (r_End r) (r_End l) > 0 then r_End r else r_End l)
      in \<lparr>r_Start = start, r_End = end\<rparr>)"

section \<open>The list of nodes\<close>

type_synonym rangeListNode = "Range list"

definition rangeListNodeBucketSize :: nat where "rangeListNodeBucketSize = 8"

definition node_full :: "rangeListNode \<Rightarrow> bool" where
  "node_full n \<longleftrightarrow> length n = rangeListNodeBucketSize"

definition node_min :: "rangeListNode \<Rightarrow> bytes" where "node_min n = r_Start (n ! 0)"
definition node_max :: "rangeListNode \<Rightarrow> bytes" where "node_max n = r_End (n ! (length n - 1))"

definition overlapFn :: "bool \<Rightarrow> Range \<Rightarrow> Range \<Rightarrow> bool" where
  "overlapFn inclusive = (if inclusive then overlapsInclusive else overlapsExclusive)"

fun findIdx_loop :: "Range \<Rightarrow> bool \<Rightarrow> nat \<Rightarrow> Range list \<Rightarrow> nat \<times> bool" where
  "findIdx_loop r inclusive i [] = (i, False)"
| "findIdx_loop r inclusive i (nr # rest) =
     (if overlapFn inclusive nr r then (i, True)
      else if bytes_Compare (r_End r) (r_Start nr) \<le> (if inclusive then -1 else 0) then (i, False)
      else findIdx_loop r inclusive (i + 1) rest)"

definition findIdx :: "Range \<Rightarrow> bool \<Rightarrow> rangeListNode \<Rightarrow> nat \<times> bool" where
  "findIdx r inclusive n = findIdx_loop r inclusive 0 n"

record rangeList =
  rl_ll :: "rangeListNode list"
  rl_len :: int

definition NewRangeList :: rangeList where
  "NewRangeList = \<lparr>rl_ll = [[]], rl_len = 0\<rparr>"

text \<open>Elements are positions in the list; \<open>prev\<close> and \<open>cur\<close> are \<open>None\<close> for nil.\<close>

fun findNode_loop :: "Range \<Rightarrow> bool \<Rightarrow> nat option \<Rightarrow> nat \<Rightarrow> rangeListNode list \<Rightarrow> nat option \<times> nat option \<times> bool" where
  "findNode_loop r inclusive prev e [] = (prev, None, False)"
| "findNode_loop r inclusive prev e (n # rest) =
     (if length n = 0 then (prev, Some e, False)
      else if bytes_Compare (node_max n) (r_Start r) \<ge> (if inclusive then 0 else 1)
      then (prev, Some e, bytes_Compare (node_min n) (r_End r) \<le> (if inclusive then -1 else 0))
      else findNode_loop r inclusive (Some e) (e + 1) rest)"

definition findNode :: "Range \<Rightarrow> bool \<Rightarrow> rangeListNode list \<Rightarrow> (nat option \<times> nat option \<times> bool) res" where
  "findNode r inclusive ll =
     (case rangeError r of Some e \<Rightarrow> Inl (Panic ''interval: bad range'') | None \<Rightarrow> Inr (findNode_loop r inclusive None 0 ll))"

text \<open>\<open>insertAtIdx n rest r i len\<close>: the element with node \<open>n\<close> and the nodes after it, and the length.\<close>

fun insertAtIdx :: "rangeListNode \<Rightarrow> rangeListNode list \<Rightarrow> Range \<Rightarrow> nat \<Rightarrow> int \<Rightarrow> rangeListNode list \<times> int" where
  "insertAtIdx n rest r i len =
     (if node_full n then
        (let toShift = (if i = length n then r else n ! (length n - 1));
             noLocalChanges = (i = length n);
             (rest, len) = (case rest of
                 [] \<Rightarrow> ([[toShift]], len + 1)
               | nextN # ms \<Rightarrow> if \<not> node_full nextN then insertAtIdx nextN ms toShift 0 len else ([toShift] # rest, len + 1))
         in if noLocalChanges then (n # rest, len)
            else ((take i n @ r # take (length n - 1 - i) (drop i n)) # rest, len))
      else ((take i n @ r # drop i n) # rest, len + 1))"

declare insertAtIdx.simps [simp del]

section \<open>Add\<close>

text \<open>Merging the slots of one node, then of the nodes after it.\<close>

fun merge_slots :: "Range \<Rightarrow> Range list \<Rightarrow> int \<Rightarrow> Range \<times> Range list \<times> int" where
  "merge_slots newR [] len = (newR, [], len)"
| "merge_slots newR (mergeR # rest) len =
     (if overlapsInclusive newR mergeR then merge_slots (rg_merge newR mergeR) rest (len - 1) else (newR, mergeR # rest, len))"

fun merge_nodes :: "Range \<Rightarrow> rangeListNode list \<Rightarrow> int \<Rightarrow> Range \<times> rangeListNode list \<times> int" where
  "merge_nodes newR [] len = (newR, [], len)"
| "merge_nodes newR (mergeN # rest) len =
     (case merge_slots newR mergeN len of (newR, slots, len) \<Rightarrow>
        if slots \<noteq> [] then (newR, slots # rest, len) else merge_nodes newR rest len)"

text \<open>The part of \<open>Add\<close> for the node the range is bucketed in.\<close>

definition add_in_node :: "Range \<Rightarrow> rangeList \<Rightarrow> nat \<Rightarrow> (rangeList \<times> bool) res" where
  "add_in_node r rl c =
     (let ll = rl_ll rl; len = rl_len rl; n = ll ! c; (i, ok) = findIdx r True n in
      if \<not> ok then
        (case insertAtIdx n (drop (c + 1) ll) r i len of (nodes, len) \<Rightarrow> Inr (\<lparr>rl_ll = take c ll @ nodes, rl_len = len\<rparr>, True))
      else if rg_contains (n ! i) r then Inr (rl, False)
      else
        (case merge_slots (rg_merge (n ! i) r) (drop (i + 1) n) len of (newR, slots, len) \<Rightarrow>
           if slots \<noteq> [] then Inr (\<lparr>rl_ll = take c ll @ (take i n @ newR # slots) # drop (c + 1) ll, rl_len = len\<rparr>, True)
           else (case merge_nodes newR (drop (c + 1) ll) len of (newR, nodes, len) \<Rightarrow>
                   Inr (\<lparr>rl_ll = take c ll @ (take i n @ [newR]) # nodes, rl_len = len\<rparr>, True))))"

definition rl_Add :: "Range \<Rightarrow> rangeList \<Rightarrow> (rangeList \<times> bool) res" where
  "rl_Add r rl =
     (let ll = rl_ll rl; len = rl_len rl in
      res_bind (findNode r True ll) (\<lambda>(prev, cur, inCur).
        case prev of
          Some p \<Rightarrow>
            if \<not> inCur \<and> \<not> node_full (ll ! p) then Inr (\<lparr>rl_ll = ll[p := ll ! p @ [r]], rl_len = len + 1\<rparr>, True)
            else (case cur of
                    Some c \<Rightarrow> add_in_node r rl c
                  | None \<Rightarrow> Inr (\<lparr>rl_ll = take (p + 1) ll @ [r] # drop (p + 1) ll, rl_len = len + 1\<rparr>, True))
        | None \<Rightarrow>
            (case cur of
               Some c \<Rightarrow> add_in_node r rl c
             | None \<Rightarrow> Inr (\<lparr>rl_ll = [r] # ll, rl_len = len + 1\<rparr>, True))))"

section \<open>Sub, Clear and the queries\<close>

text \<open>
  The loop of \<open>Sub\<close> from slot \<open>i\<close> of the node \<open>n\<close> with the nodes \<open>rest\<close> after it; the result replaces
  \<open>n # rest\<close>.
\<close>

function sub_loop :: "Range \<Rightarrow> rangeListNode \<Rightarrow> nat \<Rightarrow> rangeListNode list \<Rightarrow> int \<Rightarrow> (rangeListNode list \<times> int) res" where
  "sub_loop r n i rest len =
     (if i \<ge> length n then Inl (Panic ''unused slot'')
      else
        (let nr = n ! i in
         if \<not> overlapsExclusive nr r then Inr (n # rest, len)
         else
           (let delStart = (bytes_Compare (r_Start nr) (r_Start r) \<ge> 0); delEnd = (bytes_Compare (r_End nr) (r_End r) \<le> 0) in
            if delStart \<and> delEnd then
              (let n' = take i n @ drop (i + 1) n; len' = len - 1 in
               if length n' = 0 then
                 (case rest of
                    [] \<Rightarrow> Inr (if len' > 0 then [] else [n'], len')
                  | m # ms \<Rightarrow> res_bind (sub_loop r m 0 ms len') (\<lambda>(ns, l). Inr (if len' > 0 then ns else n' # ns, l)))
               else if i \<ge> length n' then
                 (case rest of [] \<Rightarrow> Inr ([n'], len')
                  | m # ms \<Rightarrow> res_bind (sub_loop r m 0 ms len') (\<lambda>(ns, l). Inr (n' # ns, l)))
               else sub_loop r n' i rest len')
            else if delStart then Inr (n[i := nr\<lparr>r_Start := r_End r\<rparr>] # rest, len)
            else if delEnd then
              (let n' = n[i := nr\<lparr>r_End := r_Start r\<rparr>] in
               if i + 1 \<ge> length n' then
                 (case rest of [] \<Rightarrow> Inr ([n'], len)
                  | m # ms \<Rightarrow> res_bind (sub_loop r m 0 ms len) (\<lambda>(ns, l). Inr (n' # ns, l)))
               else sub_loop r n' (i + 1) rest len)
            else Inr (insertAtIdx (n[i := nr\<lparr>r_End := r_Start r\<rparr>]) rest \<lparr>r_Start = r_End r, r_End = r_End nr\<rparr> (i + 1) len))))"
  by pat_completeness auto
termination
  by (relation "measure (\<lambda>(r, n, i, rest, len). (length n - i) + length (concat rest))") auto

declare sub_loop.simps [simp del]

definition rl_Sub :: "Range \<Rightarrow> rangeList \<Rightarrow> (rangeList \<times> bool) res" where
  "rl_Sub r rl =
     res_bind (findNode r False (rl_ll rl)) (\<lambda>(_, cur, inCur).
       if \<not> inCur then Inr (rl, False)
       else
         (let c = the cur; n = rl_ll rl ! c; (i, ok) = findIdx r False n in
          if \<not> ok then Inr (rl, False)
          else res_bind (sub_loop r n i (drop (c + 1) (rl_ll rl)) (rl_len rl)) (\<lambda>(nodes, len).
            Inr (\<lparr>rl_ll = take c (rl_ll rl) @ nodes, rl_len = len\<rparr>, True))))"

definition rl_Clear :: "rangeList \<Rightarrow> rangeList" where
  "rl_Clear rl = \<lparr>rl_ll = [[]], rl_len = 0\<rparr>"

definition rl_Overlaps :: "Range \<Rightarrow> rangeList \<Rightarrow> bool res" where
  "rl_Overlaps r rl =
     res_bind (findNode r False (rl_ll rl)) (\<lambda>(_, cur, inCur).
       if inCur then Inr (snd (findIdx r False (rl_ll rl ! the cur))) else Inr False)"

definition rl_Encloses :: "Range \<Rightarrow> rangeList \<Rightarrow> bool res" where
  "rl_Encloses r rl =
     res_bind (findNode r False (rl_ll rl)) (\<lambda>(_, cur, inCur).
       if inCur then
         (let n = rl_ll rl ! the cur in case findIdx r False n of (i, ok) \<Rightarrow> Inr (if ok then rg_contains (n ! i) r else False))
       else Inr False)"

definition rl_Len :: "rangeList \<Rightarrow> int" where "rl_Len rl = rl_len rl"

text \<open>An iterator is the remaining elements and the next slot index.\<close>

fun iter_Next :: "rangeListNode list \<times> nat \<Rightarrow> Range option \<times> (rangeListNode list \<times> nat)" where
  "iter_Next ([], idx) = (None, ([], idx))"
| "iter_Next (n # es, curIdx) =
     (if curIdx \<ge> length n then (None, (n # es, curIdx))
      else (Some (n ! curIdx), (if curIdx + 1 \<ge> length n then (es, 0) else (n # es, curIdx + 1))))"

text \<open>The loop of \<open>ForEach\<close>; the callback runs on a state of its own and may return an error.\<close>

lemma iter_Next_measure: "iter_Next it = (Some r, it') \<Longrightarrow> length (concat (fst it')) - snd it' < length (concat (fst it)) - snd it"
  by (cases it rule: iter_Next.cases) (auto split: if_splits)

function ForEach_loop :: "('s \<Rightarrow> Range \<Rightarrow> 's \<times> go_err option) \<Rightarrow> 's \<Rightarrow> rangeListNode list \<times> nat \<Rightarrow> 's \<times> go_err option" where
  "ForEach_loop f st it =
     (case iter_Next it of
        (None, _) \<Rightarrow> (st, None)
      | (Some r, it') \<Rightarrow> (case f st r of (st', Some err) \<Rightarrow> (st', Some err) | (st', None) \<Rightarrow> ForEach_loop f st' it'))"
  by pat_completeness auto
termination
  by (relation "measure (\<lambda>(f, st, it). length (concat (fst it)) - snd it)") (auto dest: iter_Next_measure [OF sym])

declare ForEach_loop.simps [simp del]

definition rl_ForEach :: "('s \<Rightarrow> Range \<Rightarrow> 's \<times> go_err option) \<Rightarrow> 's \<Rightarrow> rangeList \<Rightarrow> 's \<times> go_err option" where
  "rl_ForEach f st rl = ForEach_loop f st (rl_ll rl, 0)"

section \<open>Sets of keys\<close>

definition rng :: "Range \<Rightarrow> bytes set" where
  "rng r = {k. r_Start r \<le> k \<and> k < r_End r}"

definition keys_of :: "Range list \<Rightarrow> bytes set" where
  "keys_of xs = (\<Union>x \<in> set xs. rng x)"

lemma keys_of_simps [simp]: "keys_of [] = {}" "keys_of (x # xs) = rng x \<union> keys_of xs" "keys_of (xs @ ys) = keys_of xs \<union> keys_of ys"
  by (auto simp: keys_of_def)

abbreviation range_ok :: "Range \<Rightarrow> bool" where
  "range_ok r \<equiv> r_Start r < r_End r"

text \<open>The ranges of a group are in order and do not overlap; in a group that is \<open>ranges_apart\<close> they do not touch either.\<close>

definition ranges_apart :: "Range list \<Rightarrow> bool" where
  "ranges_apart xs \<longleftrightarrow> sorted_wrt (\<lambda>a b. r_End a < r_Start b) xs"

definition sep :: "Range list \<Rightarrow> bool" where
  "sep xs \<longleftrightarrow> (\<forall>x \<in> set xs. range_ok x) \<and> sorted_wrt (\<lambda>a b. r_End a \<le> r_Start b) xs"

lemma sep_simps [simp]:
  "sep []" "sep (x # xs) \<longleftrightarrow> range_ok x \<and> (\<forall>y \<in> set xs. r_End x \<le> r_Start y) \<and> sep xs"
  "sep (xs @ ys) \<longleftrightarrow> sep xs \<and> sep ys \<and> (\<forall>x \<in> set xs. \<forall>y \<in> set ys. r_End x \<le> r_Start y)"
  by (auto simp: sep_def sorted_wrt_append)

lemma compare_ge_le [simp]: "1 \<le> bytes_Compare a b \<longleftrightarrow> b < a" "bytes_Compare a b \<le> - 1 \<longleftrightarrow> a < b" "bytes_Compare a b < 1 \<longleftrightarrow> a \<le> b"
  by (auto simp: bytes_Compare_def)

lemma rangeError_None: "rangeError r = None \<longleftrightarrow> range_ok r"
  by (auto simp: rangeError_def bytes_Compare_def)

text \<open>A range of the group lies wholly before, or wholly after, the range asked for.\<close>

definition past :: "bool \<Rightarrow> Range \<Rightarrow> Range \<Rightarrow> bool" where
  "past inc r x \<longleftrightarrow> (if inc then r_End x < r_Start r else r_End x \<le> r_Start r)"

definition beyond :: "bool \<Rightarrow> Range \<Rightarrow> Range \<Rightarrow> bool" where
  "beyond inc r x \<longleftrightarrow> (if inc then r_End r < r_Start x else r_End r \<le> r_Start x)"

lemma overlapFn_iff: "overlapFn inc x r \<longleftrightarrow> \<not> past inc r x \<and> \<not> beyond inc r x"
  by (auto simp: overlapFn_def overlapsInclusive_def overlapsExclusive_def past_def beyond_def)

lemma past_not_beyond: "range_ok r \<Longrightarrow> range_ok x \<Longrightarrow> past inc r x \<Longrightarrow> \<not> beyond inc r x"
  by (auto simp: past_def beyond_def split: if_splits)

lemma past_mono: "sep (x # xs) \<Longrightarrow> y \<in> set xs \<Longrightarrow> past inc r y \<Longrightarrow> past inc r x"
  by (force simp: past_def sep_def split: if_splits)

lemma beyond_mono: "sep (x # xs) \<Longrightarrow> y \<in> set xs \<Longrightarrow> beyond inc r x \<Longrightarrow> beyond inc r y"
  by (force simp: beyond_def sep_def split: if_splits)

lemma findIdx_loop_eq:
  "sep n \<Longrightarrow> range_ok r \<Longrightarrow> findIdx_loop r inc i n =
     (i + length (takeWhile (past inc r) n), case dropWhile (past inc r) n of [] \<Rightarrow> False | x # _ \<Rightarrow> \<not> beyond inc r x)"
proof (induction n arbitrary: i)
  case (Cons x n)
  have "bytes_Compare (r_End r) (r_Start x) \<le> (if inc then -1 else 0) \<longleftrightarrow> beyond inc r x" by (simp add: beyond_def)
  then show ?case using Cons past_not_beyond [of r x inc] by (simp add: overlapFn_iff)
qed simp

lemma findNode_loop_eq:
  "\<forall>n \<in> set ns. n \<noteq> [] \<Longrightarrow> findNode_loop r inc prev e ns =
     (let k = length (takeWhile (\<lambda>n. past inc r (last n)) ns);
          prev' = (if k = 0 then prev else Some (e + k - 1))
      in if k < length ns then (prev', Some (e + k), \<not> beyond (\<not> inc) r (hd (ns ! k))) else (prev', None, False))"
proof (induction ns arbitrary: prev e)
  case (Cons n ns)
  have "past inc r (last n) \<longleftrightarrow> \<not> bytes_Compare (node_max n) (r_Start r) \<ge> (if inc then 0 else 1)"
    using Cons.prems by (auto simp: past_def node_max_def last_conv_nth not_le not_less)
  moreover have "bytes_Compare (node_min n) (r_End r) \<le> (if inc then -1 else 0) \<longleftrightarrow> \<not> beyond (\<not> inc) r (hd n)"
    using Cons.prems by (auto simp: beyond_def node_min_def hd_conv_nth not_le not_less)
  ultimately show ?case using Cons.IH [of "Some e" "e + 1"] Cons.prems by (simp add: Let_def)
qed simp

section \<open>Adding to a sorted list of ranges\<close>

lemma past_keys: "past inc r x \<Longrightarrow> rng x \<inter> rng r = {}"
  by (auto simp: past_def rng_def split: if_splits)

lemma beyond_keys: "beyond inc r x \<Longrightarrow> rng x \<inter> rng r = {}"
  by (auto simp: beyond_def rng_def split: if_splits)

lemma start_in: "range_ok r \<Longrightarrow> r_Start r \<in> rng r"
  by (simp add: rng_def)

lemma disjoint_keys:
  "\<forall>x \<in> set A. past inc r x \<Longrightarrow> keys_of A \<inter> rng r = {}" "\<forall>x \<in> set B. beyond inc r x \<Longrightarrow> keys_of B \<inter> rng r = {}"
  using past_keys beyond_keys by (fastforce simp: keys_of_def)+

lemma beyond_all: "sep B \<Longrightarrow> B = [] \<or> beyond inc r (hd B) \<Longrightarrow> \<forall>x \<in> set B. beyond inc r x"
  by (cases B) (auto intro: beyond_mono)

text \<open>The range touches no range of the group.\<close>

lemma add_between:
  assumes "sep (A @ B)" "\<forall>x \<in> set A. past True r x" "B = [] \<or> beyond False r (hd B)" "range_ok r"
  shows "sep (A @ r # B)" "\<not> rng r \<subseteq> keys_of (A @ B)"
proof -
  have B: "\<forall>x \<in> set B. beyond False r x" using beyond_all assms(1,3) by auto
  then show "sep (A @ r # B)" using assms by (auto simp: past_def beyond_def)
  show "\<not> rng r \<subseteq> keys_of (A @ B)"
    using disjoint_keys(1) [OF assms(2)] disjoint_keys(2) [OF B] start_in [OF assms(4)] by auto
qed

lemma merge_simps [simp]:
  "r_Start (rg_merge l r) = min (r_Start l) (r_Start r)" "r_End (rg_merge l r) = max (r_End l) (r_End r)"
  by (auto simp: rg_merge_def Let_def min_def max_def)

lemma merge_keys: "range_ok l \<Longrightarrow> range_ok r \<Longrightarrow> overlapsInclusive l r \<Longrightarrow> rng (rg_merge l r) = rng l \<union> rng r"
  by (auto simp: rng_def overlapsInclusive_def min_le_iff_disj less_max_iff_disj)

text \<open>Merging the ranges that follow.\<close>

lemma merge_slots_correct:
  assumes "merge_slots R xs len = (R', ys, len')" "range_ok R" "sep xs" "\<forall>x \<in> set xs. r_Start R < r_Start x"
  shows "r_Start R' = r_Start R \<and> r_End R \<le> r_End R' \<and> range_ok R' \<and> sep (R' # ys) \<and> rng R' \<union> keys_of ys = rng R \<union> keys_of xs \<and>
    (\<exists>zs. xs = zs @ ys) \<and> len' = len - int (length xs) + int (length ys)"
  using assms
proof (induction R xs len rule: merge_slots.induct)
  case (2 R x xs len)
  show ?case
  proof (cases "overlapsInclusive R x")
    case True
    have ok: "range_ok (rg_merge R x)" "r_Start (rg_merge R x) = r_Start R" using 2(3-5) by (auto simp: less_max_iff_disj min_def)
    have "r_Start (rg_merge R x) < r_Start y" if "y \<in> set xs" for y using that 2(5) ok by auto
    with 2(1) [OF True] 2(2,4) True ok have IH: "r_Start R' = r_Start (rg_merge R x) \<and> r_End (rg_merge R x) \<le> r_End R' \<and> range_ok R' \<and> sep (R' # ys) \<and>
        rng R' \<union> keys_of ys = rng (rg_merge R x) \<union> keys_of xs \<and> (\<exists>zs. xs = zs @ ys) \<and> len' = len - 1 - int (length xs) + int (length ys)"
      by auto
    have "rng (rg_merge R x) = rng R \<union> rng x" using merge_keys [OF 2(3) _ True] 2(4) by simp
    then show ?thesis using IH ok(2) by auto
  next
    case False
    then have "r_End R < r_Start x" using 2(3-5) by (auto simp: overlapsInclusive_def)
    then have "\<forall>y \<in> set (x # xs). r_End R < r_Start y" using 2(4) by (auto intro: less_le_trans less_trans)
    then show ?thesis using 2(2-5) False by (auto intro: less_imp_le)
  qed
qed auto

lemma merge_nodes_flat:
  "merge_nodes R ns len = (R', ns', len') \<Longrightarrow> merge_slots R (concat ns) len = (R', concat ns', len')"
proof (induction ns arbitrary: R len)
  case (Cons n ns)
  have step: "merge_slots R (xs @ ys) l = (case merge_slots R xs l of (R', [], l') \<Rightarrow> merge_slots R' ys l' | (R', zs, l') \<Rightarrow> (R', zs @ ys, l'))" for R xs ys l
    by (induction R xs l rule: merge_slots.induct) (auto split: list.split)
  show ?case using Cons.prems Cons.IH by (auto simp: step split: prod.splits if_splits list.splits)
qed auto

lemma merge_nodes_shape:
  "merge_nodes R ns len = (R', ns', len') \<Longrightarrow> \<forall>n \<in> set ns. n \<noteq> [] \<and> length n \<le> k \<Longrightarrow> \<forall>n \<in> set ns'. n \<noteq> [] \<and> length n \<le> k"
proof (induction ns arbitrary: R len)
  case (Cons n ns)
  have suffix: "merge_slots R xs l = (Q, ys, l') \<Longrightarrow> length ys \<le> length xs" for R xs l Q ys l'
    by (induction R xs l rule: merge_slots.induct) (auto split: if_splits)
  show ?case
  proof (cases "merge_slots R n len")
    case (fields Q ys l)
    then show ?thesis using Cons.prems Cons.IH [of Q l] suffix [OF fields] by (auto split: if_splits)
  qed
qed auto

text \<open>The range touches a range \<open>x\<close> of the group, the first one that it touches.\<close>

lemma add_touching:
  assumes "sep (A @ x # B)" "\<forall>y \<in> set A. past True r y" "\<not> past True r x" "\<not> beyond True r x" "range_ok r" "\<not> rg_contains x r"
    and "merge_slots (rg_merge x r) B len = (R, C, len')"
  shows "sep (A @ R # C)" "keys_of (A @ R # C) = keys_of (A @ x # B) \<union> rng r" "ranges_apart (x # B) \<Longrightarrow> \<not> rng r \<subseteq> keys_of (A @ x # B)"
    "len' = len - int (length B) + int (length C)" "\<exists>zs. B = zs @ C"
proof -
  have x: "range_ok x" "sep B" "\<forall>y \<in> set B. r_End x \<le> r_Start y" using assms(1) by auto
  have lap: "overlapsInclusive x r" using overlapFn_iff [of True x r] assms(3,4) by (simp add: overlapFn_def)
  have m: "range_ok (rg_merge x r)" "\<forall>y \<in> set B. r_Start (rg_merge x r) < r_Start y"
    using x assms(5) by (auto simp: min_less_iff_disj less_max_iff_disj intro: less_le_trans)
  from merge_slots_correct [OF assms(7) m(1) x(2) m(2)]
  have R: "r_Start R = r_Start (rg_merge x r)" "range_ok R" "sep (R # C)" "rng R \<union> keys_of C = rng (rg_merge x r) \<union> keys_of B"
      "\<exists>zs. B = zs @ C" "len' = len - int (length B) + int (length C)" by blast+
  have "r_End y \<le> r_Start R" if "y \<in> set A" for y using that assms(1,2) R(1) by (auto simp: past_def min_def)
  moreover have "r_End y \<le> r_Start z" if "y \<in> set A" "z \<in> set C" for y z using that assms(1) R(5) by auto
  ultimately show "sep (A @ R # C)" using R(3) assms(1) by auto
  show "keys_of (A @ R # C) = keys_of (A @ x # B) \<union> rng r"
    using R(4) merge_keys [OF x(1) assms(5) lap] by auto
  show "len' = len - int (length B) + int (length C)" "\<exists>zs. B = zs @ C" by fact+
  show "\<not> rng r \<subseteq> keys_of (A @ x # B)" if ap: "ranges_apart (x # B)"
  proof
    have gap: "\<forall>y \<in> set B. r_End x < r_Start y" using ap by (simp add: ranges_apart_def)
    assume sub: "rng r \<subseteq> keys_of (A @ x # B)"
    have A: "keys_of A \<inter> rng r = {}" by (rule disjoint_keys(1) [OF assms(2)])
    show False
    proof (cases "r_Start r < r_Start x")
      case True
      then have "r_Start r \<notin> rng x" "\<forall>y \<in> set B. r_Start r \<notin> rng y" using x gap by (auto simp: rng_def)
      then have "r_Start r \<notin> keys_of (x # B)" by (auto simp: keys_of_def)
      then show False using sub start_in [OF assms(5)] A by auto
    next
      case False
      then have e: "r_End x < r_End r" using assms(6) by (auto simp: rg_contains_def)
      let ?k = "max (r_End x) (r_Start r)"
      have "?k \<in> rng r" using e assms(5) by (simp add: rng_def)
      moreover have "?k \<notin> rng x" by (simp add: rng_def)
      moreover have "?k \<notin> rng y" if "y \<in> set B" for y
      proof -
        have "r_Start r \<le> r_End x" using assms(3) by (simp add: past_def)
        then show ?thesis using gap that by (auto simp: rng_def max_def)
      qed
      ultimately have "?k \<in> rng r" "?k \<notin> keys_of (x # B)" by (auto simp: keys_of_def)
      then show False using sub A by auto
    qed
  qed
qed

lemma contained_keys: "rg_contains x r \<Longrightarrow> rng r \<subseteq> rng x"
  by (auto simp: rg_contains_def rng_def)

section \<open>The list and its invariant\<close>

definition node_ok :: "rangeListNode \<Rightarrow> bool" where
  "node_ok n \<longleftrightarrow> n \<noteq> [] \<and> length n \<le> rangeListNodeBucketSize"

definition rl_inv :: "rangeList \<Rightarrow> bool" where
  "rl_inv rl \<longleftrightarrow> sep (concat (rl_ll rl)) \<and> (rl_ll rl = [[]] \<or> rl_ll rl \<noteq> [] \<and> (\<forall>n \<in> set (rl_ll rl). node_ok n)) \<and>
     rl_len rl = int (length (concat (rl_ll rl)))"

definition rl_keys :: "rangeList \<Rightarrow> bytes set" where
  "rl_keys rl = keys_of (concat (rl_ll rl))"

lemma insertAtIdx_correct:
  assumes "insertAtIdx n rest r i len = (ns, len')" "i \<le> length n" "length n \<le> rangeListNodeBucketSize" "\<forall>m \<in> set rest. node_ok m"
  shows "concat ns = take i n @ r # drop i n @ concat rest \<and> len' = len + 1 \<and> (\<forall>m \<in> set ns. node_ok m)"
  using assms
proof (induction n rest r i len arbitrary: ns len' rule: insertAtIdx.induct)
  case (1 n rest r i len)
  show ?case
  proof (cases "node_full n")
    case False
    then show ?thesis using 1(2-5) by (auto simp: insertAtIdx.simps [of n] node_full_def node_ok_def)
  next
    case True
    define sh where "sh = (if i = length n then r else n ! (length n - 1))"
    define q where "q = (case rest of [] \<Rightarrow> ([[sh]], len + 1)
               | m # ms \<Rightarrow> if \<not> node_full m then insertAtIdx m ms sh 0 len else ([sh] # rest, len + 1))"
    have eq: "insertAtIdx n rest r i len = (if i = length n then (n # fst q, snd q) else ((take i n @ r # take (length n - 1 - i) (drop i n)) # fst q, snd q))"
      unfolding insertAtIdx.simps [of n] Let_def sh_def [symmetric] q_def [symmetric] case_prod_beta using True by simp
    have q: "concat (fst q) = sh # concat rest \<and> snd q = len + 1 \<and> (\<forall>m \<in> set (fst q). node_ok m)"
    proof (cases rest)
      case (Cons m ms)
      have one: "rangeListNodeBucketSize \<ge> 1" by (simp add: rangeListNodeBucketSize_def)
      show ?thesis
      proof (cases "node_full m")
        case True
        then show ?thesis using 1(5) one by (simp add: q_def Cons node_ok_def)
      next
        case nf: False
        have "concat (fst q) = take 0 m @ sh # drop 0 m @ concat ms \<and> snd q = len + 1 \<and> (\<forall>m \<in> set (fst q). node_ok m)"
          using 1(1) [OF True sh_def refl Cons nf, of "fst q" "snd q"] 1(5) nf by (auto simp: q_def Cons node_ok_def)
        then show ?thesis by (simp add: Cons)
      qed
    qed (simp add: q_def node_ok_def rangeListNodeBucketSize_def)
    have n: "n \<noteq> []" using True by (auto simp: node_full_def rangeListNodeBucketSize_def)
    show ?thesis
    proof (cases "i = length n")
      case i: True
      then show ?thesis using 1(2,4) eq q n by (auto simp: sh_def node_ok_def)
    next
      case i: False
      have "drop i n = take (length n - 1 - i) (drop i n) @ [n ! (length n - 1)]"
        using i 1(3) n take_Suc_conv_app_nth [of "length n - 1 - i" "drop i n"] by simp
      then have "r # drop i n = (r # take (length n - 1 - i) (drop i n)) @ [sh]" using i by (simp add: sh_def)
      then show ?thesis using 1(2-4) eq q i n by (auto simp: node_ok_def)
    qed
  qed
qed

text \<open>Splitting the ranges of the list at the node that \<open>findNode\<close> returns.\<close>

lemma sep_last_past: "sep n \<Longrightarrow> n \<noteq> [] \<Longrightarrow> past inc r (last n) \<Longrightarrow> x \<in> set n \<Longrightarrow> past inc r x"
proof (induction n)
  case (Cons y n)
  show ?case
  proof (cases "x = y \<and> n \<noteq> []")
    case True
    then have "last n \<in> set n" by simp
    then show ?thesis using past_mono [OF Cons.prems(1), of "last n" inc r] Cons.prems(3) True by simp
  next
    case False
    then show ?thesis using Cons by (auto split: if_splits)
  qed
qed simp

lemma past_prefix:
  assumes "sep (concat ll)" "\<forall>n \<in> set ll. n \<noteq> []" "x \<in> set (concat (takeWhile (\<lambda>n. past inc r (last n)) ll))"
  shows "past inc r x"
proof -
  obtain n where n: "n \<in> set ll" "past inc r (last n)" "x \<in> set n"
    using assms(3) by (auto dest: set_takeWhileD)
  then have "sep n" using assms(1) by (auto simp: in_set_conv_decomp)
  then show ?thesis using sep_last_past n assms(2) by blast
qed

text \<open>The position found, with the ranges before, in and after its node.\<close>

lemma findNode_split:
  assumes "sep (concat ll)" "ll \<noteq> []" "\<forall>n \<in> set ll. node_ok n" "range_ok r"
  obtains (inside) before n after where "ll = before @ n # after" "\<forall>x \<in> set (concat before). past inc r x" "\<not> past inc r (last n)"
      "findNode r inc ll = Inr (if before = [] then None else Some (length before - 1), Some (length before), \<not> beyond (\<not> inc) r (hd n))"
    | (after) "\<forall>x \<in> set (concat ll). past inc r x" "findNode r inc ll = Inr (Some (length ll - 1), None, False)"
proof -
  let ?p = "\<lambda>n. past inc r (last n)"
  let ?b = "takeWhile ?p ll"
  have ne: "\<forall>n \<in> set ll. n \<noteq> []" using assms(3) by (simp add: node_ok_def)
  have run: "findNode r inc ll = Inr (let k = length ?b; prev' = (if k = 0 then None else Some (k - 1))
      in if k < length ll then (prev', Some k, \<not> beyond (\<not> inc) r (hd (ll ! k))) else (prev', None, False))"
    using assms(4) by (simp add: findNode_def rangeError_None [THEN iffD2] findNode_loop_eq [OF ne] Let_def)
  have b: "\<forall>x \<in> set (concat ?b). past inc r x" using past_prefix [OF assms(1) ne] by blast
  show thesis
  proof (cases "dropWhile ?p ll")
    case Nil
    then have all: "?b = ll" by (metis takeWhile_dropWhile_id append_Nil2)
    have "findNode r inc ll = Inr (Some (length ll - 1), None, False)" using assms(2) unfolding run all by (simp add: Let_def)
    then show thesis using after b unfolding all by blast
  next
    case (Cons n aft)
    define bf where "bf = ?b"
    have ll: "ll = bf @ n # aft" by (metis Cons takeWhile_dropWhile_id bf_def)
    have np: "\<not> ?p n" using hd_dropWhile [of ?p ll] Cons by simp
    have k: "length bf < length ll" "ll ! length bf = n" unfolding ll by simp_all
    have "findNode r inc ll = Inr (if bf = [] then None else Some (length bf - 1), Some (length bf), \<not> beyond (\<not> inc) r (hd n))"
      unfolding run Let_def bf_def [symmetric] k(2) using k(1) by simp
    then show thesis using inside [OF ll _ np] b unfolding bf_def [symmetric] by blast
  qed
qed

lemma rl_invI:
  assumes "sep (concat ll)" "ll \<noteq> []" "\<forall>n \<in> set ll. node_ok n" "len = int (length (concat ll))"
  shows "rl_inv \<lparr>rl_ll = ll, rl_len = len\<rparr>"
  using assms by (simp add: rl_inv_def)

text \<open>What \<open>Add\<close> promises of a result.\<close>

definition add_ok :: "Range \<Rightarrow> rangeList \<Rightarrow> (rangeList \<times> bool) res \<Rightarrow> bool" where
  "add_ok r rl res \<longleftrightarrow> (\<exists>rl' b. res = Inr (rl', b) \<and> rl_inv rl' \<and> rl_keys rl' = rl_keys rl \<union> rng r \<and>
     (\<not> b \<longrightarrow> rl' = rl \<and> rng r \<subseteq> rl_keys rl) \<and> (ranges_apart (concat (rl_ll rl)) \<longrightarrow> b = (\<not> rng r \<subseteq> rl_keys rl)))"

lemma add_okI:
  "rl_inv rl' \<Longrightarrow> rl_keys rl' = rl_keys rl \<union> rng r \<Longrightarrow> (ranges_apart (concat (rl_ll rl)) \<Longrightarrow> \<not> rng r \<subseteq> rl_keys rl) \<Longrightarrow> add_ok r rl (Inr (rl', True))"
  unfolding add_ok_def by blast

lemma add_ok_between:
  assumes "rl_inv rl" "concat (rl_ll rl) = A @ B" "\<forall>x \<in> set A. past True r x" "B = [] \<or> beyond False r (hd B)" "range_ok r"
    and "concat ll = A @ r # B" "ll \<noteq> []" "\<forall>n \<in> set ll. node_ok n" "len = rl_len rl + 1"
  shows "add_ok r rl (Inr (\<lparr>rl_ll = ll, rl_len = len\<rparr>, True))"
proof -
  have "sep (A @ B)" "rl_len rl = int (length (A @ B))" using assms(1,2) by (simp_all add: rl_inv_def)
  with add_between [OF _ assms(3-5)] show ?thesis
    unfolding add_ok_def using assms(2,6-9) by (auto intro!: rl_invI simp: rl_keys_def)
qed

lemma split_past: "xs = takeWhile (past inc r) xs @ dropWhile (past inc r) xs" "x \<in> set (takeWhile (past inc r) xs) \<Longrightarrow> past inc r x"
  by (auto dest: set_takeWhileD)

lemma add_in_node_correct:
  assumes "rl_inv rl" "rl_ll rl = before @ n # after" "\<forall>x \<in> set (concat before). past True r x"
    and "\<forall>m \<in> set after. node_ok m" "\<forall>m \<in> set before. node_ok m" "length n \<le> rangeListNodeBucketSize" "n \<noteq> [] \<and> \<not> past True r (last n) \<or> n = [] \<and> after = []"
    and "range_ok r"
  shows "add_ok r rl (add_in_node r rl (length before))"
proof -
  define lo hi where "lo = takeWhile (past True r) n" and "hi = dropWhile (past True r) n"
  have n: "n = lo @ hi" by (simp add: lo_def hi_def)
  have lo: "\<forall>x \<in> set (concat before @ lo). past True r x" using assms(3) split_past(2) by (auto simp: lo_def)
  have sp: "sep (concat before @ lo @ hi @ concat after)" using assms(1,2) by (simp add: rl_inv_def n)
  have "sep n" using sp by (simp add: n)
  then have idx: "findIdx r True n = (length lo, case hi of [] \<Rightarrow> False | x # _ \<Rightarrow> \<not> beyond True r x)"
    using findIdx_loop_eq [OF _ assms(8), of n True 0] by (simp add: findIdx_def lo_def hi_def)
  have flat: "concat (rl_ll rl) = (concat before @ lo) @ hi @ concat after" by (simp add: assms(2) n)
  have take_drop: "take (length before) (rl_ll rl) = before" "drop (length before + 1) (rl_ll rl) = after" "rl_ll rl ! length before = n"
    by (simp_all add: assms(2))
  have tl: "take (length lo) n = lo" "drop (length lo) n = hi" by (simp_all add: n)
  note unfold = add_in_node_def Let_def take_drop idx case_prod_conv
  have hi0: "hi = [] \<Longrightarrow> after = []" using assms(7) by (cases "n = []") (auto simp: hi_def dropWhile_eq_Nil_conv)
  show ?thesis
  proof (cases "hi = [] \<or> beyond True r (hd hi)")
    case True
    obtain ns len where ins: "insertAtIdx n after r (length lo) (rl_len rl) = (ns, len)" by fastforce
    from insertAtIdx_correct [OF this] assms(4,6) n
    have c: "concat ns = lo @ r # hi @ concat after" "len = rl_len rl + 1" "\<forall>m \<in> set ns. node_ok m" by (simp_all add: tl)
    have "ns \<noteq> []" using c(1) by auto
    have "(case hi of [] \<Rightarrow> False | x # _ \<Rightarrow> \<not> beyond True r x) = False" using True by (cases hi) auto
    then have "add_in_node r rl (length before) = Inr (\<lparr>rl_ll = before @ ns, rl_len = len\<rparr>, True)" unfolding unfold by (simp add: ins)
    moreover have "hi @ concat after = [] \<or> beyond False r (hd (hi @ concat after))" using True hi0 by (cases hi) (auto simp: beyond_def)
    ultimately show ?thesis
      using add_ok_between [OF assms(1) flat lo _ assms(8), of "before @ ns" len] c \<open>ns \<noteq> []\<close> assms(5) by auto
  next
    case False
    then obtain x hs where hi: "hi = x # hs" by (cases hi) auto
    have x: "\<not> past True r x" "\<not> beyond True r x" using False hd_dropWhile [of "past True r" n] hi by (auto simp: hi_def)
    have nx: "n ! length lo = x" "drop (length lo + 1) n = hs" by (simp_all add: n hi)
    have case1: "(case hi of [] \<Rightarrow> False | x # _ \<Rightarrow> \<not> beyond True r x) = True" using x hi by simp
    have sp': "sep ((concat before @ lo) @ x # hs @ concat after)" using sp hi by simp
    have keys: "rl_keys rl = keys_of ((concat before @ lo) @ x # hs @ concat after)" unfolding rl_keys_def flat hi by simp
    have gap: "ranges_apart (x # hs @ concat after)" if "ranges_apart (concat (rl_ll rl))"
      using that unfolding flat hi by (simp add: ranges_apart_def sorted_wrt_append)
    have len: "rl_len rl = int (length (concat before @ lo @ x # hs @ concat after))" using assms(1) unfolding rl_inv_def flat hi by simp
    show ?thesis
    proof (cases "rg_contains x r")
      case True
      then show ?thesis using contained_keys [OF True] assms(1) keys unfolding add_ok_def unfold by (auto simp: case1 nx)
    next
      case no: False
      obtain R C l where ms: "merge_slots (rg_merge x r) hs (rl_len rl) = (R, C, l)" by (metis prod_cases3)
      obtain R' ns l' where mn: "merge_nodes R after l = (R', ns, l')" by (metis prod_cases3)
      have app: "merge_slots Q (xs @ ys) l = (case merge_slots Q xs l of (Q', [], l') \<Rightarrow> merge_slots Q' ys l' | (Q', zs, l') \<Rightarrow> (Q', zs @ ys, l'))" for Q xs ys l
        by (induction Q xs l rule: merge_slots.induct) (auto split: list.split)
      show ?thesis
      proof (cases "C = []")
        case True
        have flat_ms: "merge_slots (rg_merge x r) (hs @ concat after) (rl_len rl) = (R', concat ns, l')"
          using merge_nodes_flat [OF mn] by (simp add: app ms True)
        note T = add_touching [OF sp' lo x assms(8) no flat_ms]
        have run: "add_in_node r rl (length before) = Inr (\<lparr>rl_ll = before @ (lo @ [R']) # ns, rl_len = l'\<rparr>, True)"
          unfolding unfold nx tl by (simp add: case1 no ms True mn)
        have nodes: "\<forall>m \<in> set (before @ (lo @ [R']) # ns). node_ok m"
          using merge_nodes_shape [OF mn, of rangeListNodeBucketSize] assms(4,5,6) n hi by (auto simp: node_ok_def)
        have "rl_inv \<lparr>rl_ll = before @ (lo @ [R']) # ns, rl_len = l'\<rparr>"
          using T(1,4) nodes len by (intro rl_invI) simp_all
        moreover have "rl_keys \<lparr>rl_ll = before @ (lo @ [R']) # ns, rl_len = l'\<rparr> = rl_keys rl \<union> rng r" using T(2) keys by (simp add: rl_keys_def Un_ac)
        ultimately show ?thesis unfolding run using T(3) [OF gap] keys by (intro add_okI) simp_all
      next
        case ne: False
        have flat_ms: "merge_slots (rg_merge x r) (hs @ concat after) (rl_len rl) = (R, C @ concat after, l)"
          using ne by (simp add: app ms split: list.split)
        note T = add_touching [OF sp' lo x assms(8) no flat_ms]
        have run: "add_in_node r rl (length before) = Inr (\<lparr>rl_ll = before @ (lo @ R # C) # after, rl_len = l\<rparr>, True)"
          unfolding unfold nx tl by (simp add: case1 no ms ne)
        obtain zs where "hs = zs @ C" using T(5) by auto
        then have nodes: "\<forall>m \<in> set (before @ (lo @ R # C) # after). node_ok m"
          using assms(4,5,6) n hi by (auto simp: node_ok_def)
        have "rl_inv \<lparr>rl_ll = before @ (lo @ R # C) # after, rl_len = l\<rparr>"
          using T(1,4) nodes len by (intro rl_invI) simp_all
        moreover have "rl_keys \<lparr>rl_ll = before @ (lo @ R # C) # after, rl_len = l\<rparr> = rl_keys rl \<union> rng r" using T(2) keys by (simp add: rl_keys_def Un_ac)
        ultimately show ?thesis unfolding run using T(3) [OF gap] keys by (intro add_okI) simp_all
      qed
    qed
  qed
qed

text \<open>The list with no range is the one of \<open>NewRangeList\<close>.\<close>

lemma add_in_node_empty:
  assumes "rl_inv rl" "rl_ll rl = [[]]" "range_ok r"
  shows "findNode r True (rl_ll rl) = Inr (None, Some 0, False)" "add_ok r rl (add_in_node r rl 0)"
  using add_in_node_correct [of rl "[]" "[]" "[]" r] assms by (simp_all add: findNode_def rangeError_None [THEN iffD2] rangeListNodeBucketSize_def)

lemma rl_nodes: "rl_inv rl \<Longrightarrow> rl_ll rl \<noteq> [[]] \<Longrightarrow> rl_ll rl \<noteq> [] \<and> (\<forall>n \<in> set (rl_ll rl). node_ok n) \<and> sep (concat (rl_ll rl))"
  by (auto simp: rl_inv_def)

lemma rl_Add_push:
  assumes "rl_inv rl" "rl_ll rl = before @ after" "before \<noteq> []" "\<forall>n \<in> set (rl_ll rl). node_ok n" "\<forall>x \<in> set (concat before). past True r x"
    and "concat after = [] \<or> beyond False r (hd (concat after))" "range_ok r" "p = length before - 1"
  shows "\<not> node_full (rl_ll rl ! p) \<Longrightarrow> add_ok r rl (Inr (\<lparr>rl_ll = (rl_ll rl)[p := rl_ll rl ! p @ [r]], rl_len = rl_len rl + 1\<rparr>, True))"
    and "add_ok r rl (Inr (\<lparr>rl_ll = take (p + 1) (rl_ll rl) @ [r] # drop (p + 1) (rl_ll rl), rl_len = rl_len rl + 1\<rparr>, True))"
proof -
  obtain bs b where b: "before = bs @ [b]" using assms(3) by (metis append_butlast_last_id)
  have p: "p = length bs" "rl_ll rl = bs @ b # after" "rl_ll rl ! p = b" by (simp_all add: assms(2,8) b)
  have cc: "concat (rl_ll rl) = concat before @ concat after" by (simp add: assms(2))
  have ok: "node_ok b" using assms(4) p by auto
  have one: "rangeListNodeBucketSize \<ge> 1" by (simp add: rangeListNodeBucketSize_def)
  note put = add_ok_between [OF assms(1) cc assms(5,6,7)]
  show "add_ok r rl (Inr (\<lparr>rl_ll = (rl_ll rl)[p := rl_ll rl ! p @ [r]], rl_len = rl_len rl + 1\<rparr>, True))" if "\<not> node_full (rl_ll rl ! p)"
  proof (rule put)
    show "\<forall>n \<in> set ((rl_ll rl)[p := rl_ll rl ! p @ [r]]). node_ok n"
      using that ok assms(4) p by (auto simp: node_ok_def node_full_def)
  qed (simp_all add: p b)
  show "add_ok r rl (Inr (\<lparr>rl_ll = take (p + 1) (rl_ll rl) @ [r] # drop (p + 1) (rl_ll rl), rl_len = rl_len rl + 1\<rparr>, True))"
  proof (rule put)
    show "\<forall>n \<in> set (take (p + 1) (rl_ll rl) @ [r] # drop (p + 1) (rl_ll rl)). node_ok n"
      using assms(4) one p by (auto simp: node_ok_def)
  qed (simp_all add: p b)
qed

lemma rl_Add_correct:
  assumes "rl_inv rl" "range_ok r"
  shows "add_ok r rl (rl_Add r rl)"
proof (cases "rl_ll rl = [[]]")
  case True
  then show ?thesis using add_in_node_empty [OF assms(1) True assms(2)] by (simp add: rl_Add_def Let_def)
next
  case False
  note nodes = rl_nodes [OF assms(1) False, THEN conjunct1] rl_nodes [OF assms(1) False, THEN conjunct2, THEN conjunct1]
    rl_nodes [OF assms(1) False, THEN conjunct2, THEN conjunct2]
  show ?thesis
  proof (cases rule: findNode_split [OF nodes(3,1,2) assms(2), of True, case_names inside after])
    case (inside before n after)
    have here: "add_ok r rl (add_in_node r rl (length before))"
      using nodes(2) inside(1,3) by (intro add_in_node_correct [OF assms(1) inside(1,2)]) (auto simp: node_ok_def assms(2))
    show ?thesis
    proof (cases "before = [] \<or> \<not> beyond False r (hd n) \<or> node_full (rl_ll rl ! (length before - 1))")
      case True
      then show ?thesis using here inside(4) by (auto simp: rl_Add_def Let_def)
    next
      case push: False
      have "n \<noteq> []" using nodes(2) inside(1) by (simp add: node_ok_def)
      then have "concat (n # after) = [] \<or> beyond False r (hd (concat (n # after)))" using push by simp
      from rl_Add_push(1) [OF assms(1) inside(1) _ nodes(2) inside(2) this assms(2) refl] push inside(4)
      show ?thesis by (auto simp: rl_Add_def Let_def)
    qed
  next
    case after
    have e: "rl_ll rl = rl_ll rl @ []" by simp
    from rl_Add_push [OF assms(1) e nodes(1,2) after(1) _ assms(2) refl] after(2) nodes(1)
    show ?thesis by (auto simp: rl_Add_def Let_def)
  qed
qed

section \<open>Subtraction and the queries\<close>

lemma split_disjoint:
  assumes "sep (A @ B)" "\<forall>x \<in> set A. past inc r x" "B = [] \<or> beyond inc' r (hd B)"
  shows "keys_of (A @ B) \<inter> rng r = {}"
  using disjoint_keys(1) [OF assms(2)] disjoint_keys(2) [OF beyond_all [OF _ assms(3)]] assms(1) by auto

text \<open>\<open>findNode\<close> and \<open>findIdx\<close> together find the first range that overlaps, if there is one.\<close>

lemma find_overlapping:
  assumes "rl_inv rl" "range_ok r"
  obtains (miss) p cur inCur where "rl_keys rl \<inter> rng r = {}" "findNode r False (rl_ll rl) = Inr (p, cur, inCur)"
      "inCur \<Longrightarrow> \<not> snd (findIdx r False (rl_ll rl ! the cur))"
    | (hit) p before lo x hs after where "rl_ll rl = before @ (lo @ x # hs) # after" "\<forall>y \<in> set (concat before @ lo). past False r y"
      "\<not> past False r x" "\<not> beyond False r x" "findNode r False (rl_ll rl) = Inr (p, Some (length before), True)"
      "findIdx r False (lo @ x # hs) = (length lo, True)"
proof (cases "rl_ll rl = [[]]")
  case True
  then show thesis using miss [of None "Some 0" False] assms(2) by (simp add: rl_keys_def findNode_def rangeError_None [THEN iffD2])
next
  case False
  note nodes = rl_nodes [OF assms(1) False, THEN conjunct1] rl_nodes [OF assms(1) False, THEN conjunct2, THEN conjunct1]
    rl_nodes [OF assms(1) False, THEN conjunct2, THEN conjunct2]
  show thesis
  proof (cases rule: findNode_split [OF nodes(3,1,2) assms(2), of False, case_names inside after])
    case (inside before n after)
    define lo hi where "lo = takeWhile (past False r) n" and "hi = dropWhile (past False r) n"
    have n: "n = lo @ hi" by (simp add: lo_def hi_def)
    have ne: "n \<noteq> []" "sep n" using nodes(2,3) inside(1) by (auto simp: node_ok_def)
    have flat: "concat (rl_ll rl) = (concat before @ lo) @ hi @ concat after" by (simp add: inside(1) n)
    have lo: "\<forall>y \<in> set (concat before @ lo). past False r y" using inside(2) split_past(2) by (auto simp: lo_def)
    have "hi \<noteq> []" using inside(3) ne(1) by (auto simp: hi_def dropWhile_eq_Nil_conv)
    then obtain x hs where hi: "hi = x # hs" by (cases hi) auto
    have np: "\<not> past False r x" using hd_dropWhile [of "past False r" n] hi by (metis hi_def list.sel(1) list.discI)
    have idx: "findIdx r False n = (length lo, \<not> beyond False r x)"
      using findIdx_loop_eq [OF ne(2) assms(2), of False 0] hi by (simp add: findIdx_def lo_def hi_def)
    have sp: "sep ((concat before @ lo) @ hi @ concat after)" using nodes(3) unfolding flat .
    show thesis
    proof (cases "beyond True r (hd n) \<or> beyond False r x")
      case True
      have "beyond False r x"
      proof (cases "beyond True r (hd n)")
        case True
        then have "\<forall>y \<in> set n. beyond True r y" using beyond_all [OF ne(2)] ne(1) by blast
        then show ?thesis using n hi by (auto simp: beyond_def)
      qed (use True in simp)
      then have "rl_keys rl \<inter> rng r = {}"
        using split_disjoint [OF sp lo, of False] unfolding rl_keys_def flat by (simp add: hi)
      then show thesis using miss [OF _ inside(4)] idx \<open>beyond False r x\<close> by (simp add: inside(1))
    next
      case F: False
      then show thesis using hit [of before lo x hs after] inside(1,4) lo np idx n hi by simp
    qed
  next
    case after
    then have "rl_keys rl \<inter> rng r = {}" using split_disjoint [of "concat (rl_ll rl)" "[]"] nodes(3) by (simp add: rl_keys_def)
    then show thesis using miss [OF _ after(2)] by simp
  qed
qed

lemma overlap_keys: "range_ok x \<Longrightarrow> range_ok r \<Longrightarrow> \<not> past False r x \<Longrightarrow> \<not> beyond False r x \<Longrightarrow> rng x \<inter> rng r \<noteq> {}"
proof -
  assume "range_ok x" "range_ok r" "\<not> past False r x" "\<not> beyond False r x"
  then have "max (r_Start x) (r_Start r) \<in> rng x \<inter> rng r" by (auto simp: rng_def past_def beyond_def)
  then show ?thesis by blast
qed

lemma rl_Overlaps_correct:
  assumes "rl_inv rl" "range_ok r"
  shows "rl_Overlaps r rl = Inr (rl_keys rl \<inter> rng r \<noteq> {})"
proof (cases rule: find_overlapping [OF assms, case_names miss hit])
  case (miss p cur inCur)
  then show ?thesis by (simp add: rl_Overlaps_def)
next
  case (hit p before lo x hs after)
  have "range_ok x" using assms(1) hit(1) by (simp add: rl_inv_def)
  then have "rng x \<inter> rng r \<noteq> {}" using overlap_keys assms(2) hit(3,4) by blast
  then have "rl_keys rl \<inter> rng r \<noteq> {}" by (auto simp: rl_keys_def hit(1))
  then show ?thesis using hit by (simp add: rl_Overlaps_def)
qed

lemma rl_Encloses_correct:
  assumes "rl_inv rl" "range_ok r"
  shows "rl_Encloses r rl = Inr (\<exists>x \<in> set (concat (rl_ll rl)). rg_contains x r)"
proof (cases rule: find_overlapping [OF assms, case_names miss hit])
  case (miss p cur inCur)
  have "\<not> rg_contains x r" if "x \<in> set (concat (rl_ll rl))" for x
  proof
    assume "rg_contains x r"
    then have "r_Start r \<in> rl_keys rl" using that start_in [OF assms(2)] contained_keys by (force simp: rl_keys_def keys_of_def)
    then show False using miss(1) start_in [OF assms(2)] by blast
  qed
  then show ?thesis using miss by (auto simp: rl_Encloses_def Let_def split: prod.splits)
next
  case (hit p before lo x hs after)
  have flat: "concat (rl_ll rl) = (concat before @ lo) @ x # hs @ concat after" by (simp add: hit(1))
  have sp: "sep ((concat before @ lo) @ x # hs @ concat after)" using assms(1) unfolding rl_inv_def flat by blast
  have "\<not> rg_contains y r" if "y \<in> set (concat before @ lo)" for y
  proof -
    have "r_End y \<le> r_Start r" using hit(2) that by (simp add: past_def)
    then show ?thesis using assms(2) by (auto simp: rg_contains_def)
  qed
  moreover have "\<not> rg_contains y r" if "y \<in> set (hs @ concat after)" for y
  proof -
    have "r_End x \<le> r_Start y" using sp that by auto
    then show ?thesis using hit(3) by (auto simp: rg_contains_def past_def)
  qed
  ultimately have "(\<exists>y \<in> set (concat (rl_ll rl)). rg_contains y r) = rg_contains x r" unfolding flat by auto
  then show ?thesis using hit(1,5,6) by (simp add: rl_Encloses_def Let_def)
qed

text \<open>Subtraction on the sorted list of ranges.\<close>

fun sub_flat :: "Range \<Rightarrow> Range list \<Rightarrow> Range list" where
  "sub_flat r [] = []"
| "sub_flat r (x # xs) =
     (if \<not> overlapsExclusive x r then x # xs
      else if r_Start r \<le> r_Start x then (if r_End x \<le> r_End r then sub_flat r xs else x\<lparr>r_Start := r_End r\<rparr> # xs)
      else if r_End x \<le> r_End r then x\<lparr>r_End := r_Start r\<rparr> # sub_flat r xs
      else x\<lparr>r_End := r_Start r\<rparr> # \<lparr>r_Start = r_End r, r_End = r_End x\<rparr> # xs)"

definition sub_ok :: "Range \<Rightarrow> Range list \<Rightarrow> Range list \<Rightarrow> bool" where
  "sub_ok r xs ys \<longleftrightarrow> sep ys \<and> keys_of ys = keys_of xs - rng r \<and> (\<forall>y \<in> set ys. \<exists>x \<in> set xs. r_Start x \<le> r_Start y \<and> r_End y \<le> r_End x)"

lemma sub_flat_correct: "sep xs \<Longrightarrow> range_ok r \<Longrightarrow> \<forall>x \<in> set xs. \<not> past False r x \<Longrightarrow> sub_ok r xs (sub_flat r xs)"
proof (induction r xs rule: sub_flat.induct)
  case (2 r x xs)
  have x: "range_ok x" "sep xs" "\<forall>y \<in> set xs. r_End x \<le> r_Start y" "\<not> past False r x" using 2(3,5) by auto
  have IH: "overlapsExclusive x r \<Longrightarrow> r_End x \<le> r_End r \<Longrightarrow> sub_ok r xs (sub_flat r xs)" using 2 by auto
  consider (out) "\<not> overlapsExclusive x r" | (lap) "overlapsExclusive x r" by blast
  then show ?case
  proof cases
    case out
    then have "beyond False r x" using x(4) by (auto simp: overlapsExclusive_def past_def beyond_def)
    then have "keys_of (x # xs) \<inter> rng r = {}" using split_disjoint [of "[]" "x # xs"] 2(3) by fastforce
    then show ?thesis using out 2(3) by (auto simp: sub_ok_def)
  next
    case lap
    then have o: "r_Start x < r_End r" "r_Start r < r_End x" by (simp_all add: overlapsExclusive_def)
    have rest: "keys_of xs \<inter> rng r = {}" if "r_End r < r_End x"
      using that x(3) by (fastforce simp: keys_of_def rng_def)
    consider (whole) "r_Start r \<le> r_Start x" "r_End x \<le> r_End r" | (start) "r_Start r \<le> r_Start x" "r_End r < r_End x"
      | (tail) "r_Start x < r_Start r" "r_End x \<le> r_End r" | (mid) "r_Start x < r_Start r" "r_End r < r_End x" by fastforce
    then show ?thesis
    proof cases
      case whole
      then have "rng x \<subseteq> rng r" by (auto simp: rng_def)
      then show ?thesis using IH [OF lap whole(2)] lap whole by (auto simp: sub_ok_def)
    next
      case start
      then have "rng (x\<lparr>r_Start := r_End r\<rparr>) = rng x - rng r" using o by (auto simp: rng_def)
      then show ?thesis using rest [OF start(2)] x lap start o by (auto simp: sub_ok_def)
    next
      case tail
      have k: "rng (x\<lparr>r_End := r_Start r\<rparr>) = rng x - rng r" using tail o by (auto simp: rng_def)
      have "r_Start r \<le> r_Start y" if y: "y \<in> set (sub_flat r xs)" for y
      proof -
        obtain z where "z \<in> set xs" "r_Start z \<le> r_Start y" using IH [OF lap tail(2)] y by (auto simp: sub_ok_def)
        then show ?thesis using x(3) o(2) by fastforce
      qed
      then show ?thesis using IH [OF lap tail(2)] k lap tail o by (auto simp: sub_ok_def)
    next
      case mid
      let ?a = "x\<lparr>r_End := r_Start r\<rparr>" and ?b = "\<lparr>r_Start = r_End r, r_End = r_End x\<rparr>"
      have k: "rng ?a \<union> rng ?b = rng x - rng r" using mid o 2(4) by (auto simp: rng_def)
      have "sep (?a # ?b # xs)" using x mid o 2(4) by fastforce
      then show ?thesis using rest [OF mid(2)] k lap mid o 2(4) by (auto simp: sub_ok_def)
    qed
  qed
qed (simp add: sub_ok_def)

text \<open>The loop over slots and nodes computes it, and never reads an unused slot.\<close>

definition sub_res :: "Range list \<Rightarrow> int \<Rightarrow> (rangeListNode list \<times> int) res \<Rightarrow> bool" where
  "sub_res ys base res \<longleftrightarrow> (\<exists>ns. res = Inr (ns, base + int (length ys)) \<and> concat ns = ys \<and>
     (if base + int (length ys) = 0 then ns = [[]] else (\<forall>m \<in> set ns. node_ok m)))"

lemma nonempty_count: "0 \<le> base \<Longrightarrow> ys \<noteq> [] \<Longrightarrow> base + int (length ys) > 0"
  by (cases ys) simp_all

lemma sub_resI:
  assumes "concat ns = ys" "len = base + int (length ys)" "0 \<le> base" "ys \<noteq> []" "\<forall>m \<in> set ns. node_ok m"
  shows "sub_res ys base (Inr (ns, len))"
  using nonempty_count [OF assms(3,4)] assms by (simp add: sub_res_def)

lemma sub_res_Cons:
  assumes "sub_res ys (base + int (length n)) res" "node_ok n" "0 \<le> base"
  shows "sub_res (n @ ys) base (res_bind res (\<lambda>(ns, l). Inr (n # ns, l)))"
proof -
  have "n \<noteq> []" using assms(2) by (simp add: node_ok_def)
  then have "base + int (length n) > 0" by (rule nonempty_count [OF assms(3)])
  then show ?thesis using assms by (auto simp: sub_res_def)
qed

lemma res_bind_Inr_eta: "res_bind m Inr = m"
  by (cases m) auto

text \<open>Stepping from the node \<open>n\<close>, done with, to the next one.\<close>

definition sub_next :: "Range \<Rightarrow> rangeListNode \<Rightarrow> rangeListNode list \<Rightarrow> int \<Rightarrow> (rangeListNode list \<times> int) res" where
  "sub_next r n rest len = (case rest of [] \<Rightarrow> Inr ([n], len) | m # ms \<Rightarrow> res_bind (sub_loop r m 0 ms len) (\<lambda>(ns, l). Inr (n # ns, l)))"

lemma sub_next_correct:
  assumes "\<And>m ms b. rest = m # ms \<Longrightarrow> 0 \<le> b \<Longrightarrow> len = b + int (length (concat rest)) \<Longrightarrow> sub_res (sub_flat r (concat rest)) b (sub_loop r m 0 ms len)"
    and "node_ok n" "len = base + int (length n + length (concat rest))" "0 \<le> base"
  shows "sub_res (n @ sub_flat r (concat rest)) base (sub_next r n rest len)"
proof (cases rest)
  case Nil
  then show ?thesis using assms(2-4) by (simp add: sub_next_def) (rule sub_resI, auto simp: node_ok_def)
next
  case (Cons m ms)
  show ?thesis unfolding sub_next_def using sub_res_Cons [OF assms(1) [OF Cons, of "base + int (length n)"] assms(2,4)] assms(3,4) by (simp add: Cons)
qed

lemma sub_loop_correct:
  assumes "i < length n" "length n \<le> rangeListNodeBucketSize" "\<forall>m \<in> set rest. node_ok m"
    and "len = base + int (length n + length (concat rest))" "0 \<le> base"
  shows "sub_res (take i n @ sub_flat r (drop i n @ concat rest)) base (sub_loop r n i rest len)"
  using assms
proof (induction "length n - i + length (concat rest)" arbitrary: n i rest len base rule: less_induct)
  case less
  define nr hi where "nr = n ! i" and "hi = drop (i + 1) n"
  define lo where "lo = take i n"
  have n: "n = lo @ nr # hi" "length lo = i" "drop i n = nr # hi"
    using less(2) id_take_nth_drop [OF less(2)] Cons_nth_drop_Suc [OF less(2)] by (simp_all add: nr_def hi_def lo_def)
  have upd: "n[i := y] = lo @ y # hi" for y using n by (metis list_update_length)
  have nth: "i < length n" "n ! i = nr" "take i n = lo" "drop (i + 1) n = hi" by (simp_all add: less(2) nr_def lo_def hi_def)
  have next_node: "sub_res (sub_flat r (concat rest)) b (sub_loop r m 0 ms l)"
    if "rest = m # ms" "0 \<le> b" "l = b + int (length (concat rest))" for m ms b l
    using less(1) [of m 0 ms l b] that less(2,4) by (simp add: node_ok_def)
  have ok: "node_ok (lo @ y # hi)" for y using less(3) n(1) by (simp add: node_ok_def)
  have len: "len = base + int (length lo + 1 + length hi + length (concat rest))" using less(5) n(1) by simp
  note unfold = sub_loop.simps [of r n i rest len] Let_def nth(2-4) upd if_not_P [OF less(2) [unfolded not_le [symmetric]]]
  show ?case
  proof (cases "overlapsExclusive nr r")
    case False
    then show ?thesis unfolding unfold n(3) using len less(4,6) ok [of nr] n(1) by (auto intro!: sub_resI)
  next
    case lap: True
    consider (whole) "r_Start r \<le> r_Start nr" "r_End nr \<le> r_End r" | (start) "r_Start r \<le> r_Start nr" "r_End r < r_End nr"
      | (tail) "r_Start nr < r_Start r" "r_End nr \<le> r_End r" | (mid) "r_Start nr < r_Start r" "r_End r < r_End nr" by fastforce
    then show ?thesis
    proof cases
      case whole
      have run: "sub_loop r n i rest len =
         (if lo @ hi = [] then (case rest of [] \<Rightarrow> Inr (if len - 1 > 0 then [] else [[]], len - 1)
             | m # ms \<Rightarrow> res_bind (sub_loop r m 0 ms (len - 1)) (\<lambda>(ns, l). Inr (if len - 1 > 0 then ns else [] # ns, l)))
          else if hi = [] then sub_next r lo rest (len - 1) else sub_loop r (lo @ hi) i rest (len - 1))"
        unfolding unfold sub_next_def using lap whole n(2) by (cases rest) (auto cong: if_cong)
      have target: "take i n @ sub_flat r (drop i n @ concat rest) = lo @ sub_flat r (hi @ concat rest)" unfolding nth n(3) using lap whole by simp
      consider (gone) "lo = []" "hi = []" | (last) "lo \<noteq> []" "hi = []" | (more) "hi \<noteq> []" by blast
      then show ?thesis
      proof cases
        case gone
        have l: "len - 1 = base + int (length (concat rest))" using len gone by simp
        show ?thesis
        proof (cases rest)
          case Nil
          then show ?thesis unfolding run target using gone l less(6) by (auto simp: sub_res_def)
        next
          case (Cons m ms)
          then have "len - 1 > 0" using nonempty_count [OF less(6), of "concat rest"] l less(4) by (simp add: node_ok_def)
          then show ?thesis unfolding run target using gone next_node [OF Cons less(6) l] Cons by (simp add: res_bind_Inr_eta)
        qed
      next
        case last
        then have "node_ok lo" using less(3) n(1) by (simp add: node_ok_def)
        then show ?thesis unfolding run target using last sub_next_correct [OF next_node, of "len - 1" lo base] len less(6) by simp
      next
        case more
        then show ?thesis unfolding run target using less(1) [of "lo @ hi" i rest "len - 1" base] less(3,4,6) n len by simp
      qed
    next
      case start
      then show ?thesis unfolding unfold n(3) using lap len less(4,6) ok by (auto intro!: sub_resI)
    next
      case tail
      let ?n = "lo @ [nr\<lparr>r_End := r_Start r\<rparr>]"
      have run: "sub_loop r n i rest len = (if hi = [] then sub_next r ?n rest len else sub_loop r (?n @ hi) (i + 1) rest len)"
        unfolding unfold sub_next_def using lap tail n(2) by (cases rest) auto
      have target: "take i n @ sub_flat r (drop i n @ concat rest) = ?n @ sub_flat r (hi @ concat rest)" unfolding nth n(3) using lap tail by simp
      show ?thesis
      proof (cases "hi = []")
        case True
        then show ?thesis unfolding run target using sub_next_correct [OF next_node, of len ?n base] ok len less(6) by simp
      next
        case False
        then show ?thesis unfolding run target using less(1) [of "?n @ hi" "i + 1" rest len base] less(3,4,6) n len by simp
      qed
    next
      case mid
      let ?a = "nr\<lparr>r_End := r_Start r\<rparr>" and ?b = "\<lparr>r_Start = r_End r, r_End = r_End nr\<rparr>"
      obtain ns len' where ins: "insertAtIdx (lo @ ?a # hi) rest ?b (i + 1) len = (ns, len')" by fastforce
      from insertAtIdx_correct [OF this _ _ less(4)] less(3) n
      have c: "concat ns = lo @ ?a # ?b # hi @ concat rest" "len' = len + 1" "\<forall>m \<in> set ns. node_ok m" by simp_all
      have no: "\<not> r_Start r \<le> r_Start nr" "\<not> r_End nr \<le> r_End r" using mid by simp_all
      then have "sub_loop r n i rest len = Inr (ns, len')" unfolding unfold using lap ins by simp
      moreover have "take i n @ sub_flat r (drop i n @ concat rest) = lo @ ?a # ?b # hi @ concat rest" unfolding nth n(3) using lap no by simp
      ultimately show ?thesis using c len less(6) by (auto intro!: sub_resI)
    qed
  qed
qed

lemma rl_Sub_correct:
  assumes "rl_inv rl" "range_ok r"
  shows "\<exists>rl'. rl_Sub r rl = Inr (rl', rl_keys rl \<inter> rng r \<noteq> {}) \<and> rl_inv rl' \<and> rl_keys rl' = rl_keys rl - rng r"
proof (cases rule: find_overlapping [OF assms, case_names miss hit])
  case (miss p cur inCur)
  then have "rl_Sub r rl = Inr (rl, False)" by (auto simp: rl_Sub_def Let_def split: prod.splits)
  then show ?thesis using miss(1) assms(1) by auto
next
  case (hit p before lo x hs after)
  let ?n = "lo @ x # hs"
  have flat: "concat (rl_ll rl) = (concat before @ lo) @ x # hs @ concat after" by (simp add: hit(1))
  have sp: "sep ((concat before @ lo) @ x # hs @ concat after)" using assms(1) unfolding rl_inv_def flat by blast
  have nodes: "\<forall>m \<in> set (before @ ?n # after). node_ok m" using rl_nodes [OF assms(1)] unfolding hit(1) by (cases before) auto
  have len: "rl_len rl = int (length (concat before)) + int (length ?n + length (concat after))" using assms(1) unfolding rl_inv_def flat by simp
  have "sub_res (take (length lo) ?n @ sub_flat r (drop (length lo) ?n @ concat after)) (int (length (concat before)))
      (sub_loop r ?n (length lo) after (rl_len rl))"
    by (rule sub_loop_correct) (use nodes len in \<open>auto simp: node_ok_def\<close>)
  then obtain ns where ns: "sub_loop r ?n (length lo) after (rl_len rl) = Inr (ns, int (length (concat before @ concat ns)))"
      "concat ns = lo @ sub_flat r (x # hs @ concat after)" "if concat before @ concat ns = [] then ns = [[]] else (\<forall>m \<in> set ns. node_ok m)"
    unfolding sub_res_def by (force simp del: sub_flat.simps split: if_splits)
  have run: "rl_Sub r rl = Inr (\<lparr>rl_ll = before @ ns, rl_len = int (length (concat before @ concat ns))\<rparr>, True)"
    using hit(1,5,6) ns(1) by (simp add: rl_Sub_def Let_def)
  have np: "\<forall>y \<in> set (x # hs @ concat after). \<not> past False r y"
    using sp hit(3) past_mono [of x "hs @ concat after" _ False r] by auto
  have sub: "sub_ok r (x # hs @ concat after) (sub_flat r (x # hs @ concat after))"
    by (rule sub_flat_correct) (use sp assms(2) np in auto)
  define ys where "ys = sub_flat r (x # hs @ concat after)"
  have "r_End y \<le> r_Start z" if y: "y \<in> set (concat before @ lo)" and z: "z \<in> set ys" for y z
  proof -
    obtain w where w: "w \<in> set (x # hs @ concat after)" "r_Start w \<le> r_Start z" using sub z unfolding ys_def sub_ok_def by blast
    have "r_End y \<le> r_Start w" using sp y w(1) unfolding sep_simps(3) [of "concat before @ lo"] by blast
    then show ?thesis using w(2) by (rule order_trans)
  qed
  then have sep': "sep ((concat before @ lo) @ ys)"
    using sub sp unfolding ys_def [symmetric] sub_ok_def sep_simps(3) [of "concat before @ lo"] by blast
  have keys': "keys_of ((concat before @ lo) @ ys) = rl_keys rl - rng r"
    using sub disjoint_keys(1) [OF hit(2)] unfolding ys_def [symmetric] sub_ok_def rl_keys_def flat by auto
  have "rng x \<inter> rng r \<noteq> {}" using overlap_keys assms(2) hit(3,4) sp by auto
  then have ov: "rl_keys rl \<inter> rng r \<noteq> {}" unfolding rl_keys_def flat by auto
  have shape: "before @ ns = [[]] \<or> before @ ns \<noteq> [] \<and> (\<forall>m \<in> set (before @ ns). node_ok m)"
  proof (cases "concat before @ concat ns = []")
    case True
    then show ?thesis using ns(3) nodes by (cases before) (auto simp: node_ok_def)
  next
    case False
    have "\<forall>m \<in> set ns. node_ok m" using ns(3) unfolding if_not_P [OF False] .
    moreover have "before @ ns \<noteq> []" using False by auto
    ultimately show ?thesis using nodes by auto
  qed
  have flat': "concat (before @ ns) = (concat before @ lo) @ ys" using ns(2) by (simp add: ys_def)
  have I: "rl_inv \<lparr>rl_ll = before @ ns, rl_len = int (length (concat before @ concat ns))\<rparr>"
    unfolding rl_inv_def rangeList.select_convs by (intro conjI, rule sep' [folded flat'], rule shape, simp)
  have K: "rl_keys \<lparr>rl_ll = before @ ns, rl_len = int (length (concat before @ concat ns))\<rparr> = rl_keys rl - rng r"
    unfolding rl_keys_def rangeList.select_convs flat' by (rule keys' [unfolded rl_keys_def])
  have "(rl_keys rl \<inter> rng r \<noteq> {}) = True" using ov by simp
  with I K show ?thesis unfolding run by (intro exI conjI) (simp only:)
qed

lemma new_group: "rl_inv NewRangeList" "rl_keys NewRangeList = {}" "rl_inv (rl_Clear rl)" "rl_keys (rl_Clear rl) = {}"
  by (simp_all add: NewRangeList_def rl_Clear_def rl_inv_def rl_keys_def)

text \<open>The iterator visits the ranges in order; a callback sees each of them until it fails.\<close>

fun visit :: "('s \<Rightarrow> Range \<Rightarrow> 's \<times> go_err option) \<Rightarrow> 's \<Rightarrow> Range list \<Rightarrow> 's \<times> go_err option" where
  "visit f st [] = (st, None)"
| "visit f st (r # rs) = (case f st r of (st', Some err) \<Rightarrow> (st', Some err) | (st', None) \<Rightarrow> visit f st' rs)"

lemma ForEach_loop_visit:
  "\<forall>n \<in> set es. n \<noteq> [] \<Longrightarrow> (es = [] \<longrightarrow> idx = 0) \<Longrightarrow> (es \<noteq> [] \<longrightarrow> idx < length (hd es)) \<Longrightarrow> ForEach_loop f st (es, idx) = visit f st (drop idx (concat es))"
proof (induction "length (concat es) - idx" arbitrary: st es idx rule: less_induct)
  case less
  show ?case
  proof (cases es)
    case Nil
    then show ?thesis using less by (simp add: ForEach_loop.simps)
  next
    case (Cons n ns)
    define it where "it = (if idx + 1 \<ge> length n then (ns, 0) else (n # ns, idx + 1))"
    have idx: "idx < length n" using less(4) Cons by simp
    then have d: "drop idx (concat es) = n ! idx # drop (snd it) (concat (fst it))"
      by (auto simp: Cons it_def Cons_nth_drop_Suc [symmetric])
    have "ForEach_loop f st' it = visit f st' (drop (snd it) (concat (fst it)))" for st'
      using less(1) [of "fst it" "snd it" st'] less(2) idx by (cases ns) (auto simp: it_def Cons)
    moreover have "iter_Next (es, idx) = (Some (n ! idx), it)" using idx by (simp add: Cons it_def)
    ultimately show ?thesis unfolding ForEach_loop.simps [of f st "(es, idx)"] d by (simp split: prod.split option.split)
  qed
qed

lemma rl_ForEach_visit: "rl_inv rl \<Longrightarrow> rl_ForEach f st rl = visit f st (concat (rl_ll rl))"
  using ForEach_loop_visit [of "rl_ll rl" 0 f st]
  by (auto simp: rl_inv_def rl_ForEach_def node_ok_def ForEach_loop.simps [of f st "([[]], 0)"])

section \<open>The contract of a range group\<close>

primrec add_all :: "(Range \<Rightarrow> 'g \<Rightarrow> ('g \<times> bool) res) \<Rightarrow> Range list \<Rightarrow> 'g \<Rightarrow> 'g res" where
  "add_all add [] g = Inr g"
| "add_all add (r # rs) g = res_bind (add r g) (\<lambda>(g', _). add_all add rs g')"

locale range_group =
  fixes inv :: "'g \<Rightarrow> bool" and keys :: "'g \<Rightarrow> bytes set" and new :: 'g
    and add sub :: "Range \<Rightarrow> 'g \<Rightarrow> ('g \<times> bool) res" and overlaps :: "Range \<Rightarrow> 'g \<Rightarrow> bool res"
  assumes new: "inv new" "keys new = {}"
    and add: "inv g \<Longrightarrow> range_ok r \<Longrightarrow> \<exists>g' b. add r g = Inr (g', b) \<and> inv g' \<and> keys g' = keys g \<union> rng r"
    and sub: "inv g \<Longrightarrow> range_ok r \<Longrightarrow> \<exists>g' b. sub r g = Inr (g', b) \<and> inv g' \<and> keys g' = keys g - rng r"
    and overlaps: "inv g \<Longrightarrow> range_ok r \<Longrightarrow> overlaps r g = Inr (keys g \<inter> rng r \<noteq> {})"
begin

lemma add_all_keys:
  "inv g \<Longrightarrow> \<forall>r \<in> set rs. range_ok r \<Longrightarrow> \<exists>g'. add_all add rs g = Inr g' \<and> inv g' \<and> keys g' = keys g \<union> keys_of rs"
proof (induction rs arbitrary: g)
  case (Cons r rs)
  then obtain g1 b where "add r g = Inr (g1, b)" "inv g1" "keys g1 = keys g \<union> rng r" using add [of g r] by auto
  then show ?case using Cons.IH [of g1] Cons.prems(2) by auto
qed simp

lemma overlaps_some:
  assumes "\<forall>r \<in> set rs. range_ok r" "range_ok s"
  obtains g where "add_all add rs new = Inr g" "inv g" "overlaps s g = Inr (\<exists>r \<in> set rs. rng r \<inter> rng s \<noteq> {})"
proof -
  obtain g where g: "add_all add rs new = Inr g" "inv g" "keys g = keys_of rs" using add_all_keys [OF new(1) assms(1)] new(2) by auto
  moreover have "(keys_of rs \<inter> rng s \<noteq> {}) = (\<exists>r \<in> set rs. rng r \<inter> rng s \<noteq> {})" by (auto simp: keys_of_def)
  ultimately show thesis using that overlaps [OF g(2) assms(2)] by simp
qed

end

interpretation rlg: range_group rl_inv rl_keys NewRangeList rl_Add rl_Sub rl_Overlaps
proof
  show "\<exists>g' b. rl_Add r g = Inr (g', b) \<and> rl_inv g' \<and> rl_keys g' = rl_keys g \<union> rng r" if "rl_inv g" "range_ok r" for g r
    using rl_Add_correct [OF that] by (auto simp: add_ok_def)
  show "\<exists>g' b. rl_Sub r g = Inr (g', b) \<and> rl_inv g' \<and> rl_keys g' = rl_keys g - rng r" if "rl_inv g" "range_ok r" for g r
    using rl_Sub_correct [OF that] by blast
qed (simp_all add: new_group rl_Overlaps_correct)

section \<open>Properties\<close>

text \<open>
  C36. The bucketed list refines the set of keys it stands for. On every list that satisfies the invariant (sorted
  disjoint ranges, no empty node but the only one, at most eight slots per node, a correct length) and every valid
  range, \<open>Add\<close> makes the set its union with the range and answers false only when nothing was added, \<open>Sub\<close> makes
  it the difference and answers whether anything was removed, \<open>Overlaps\<close> is exact, \<open>Encloses\<close> tells whether one range of
  the list contains the range; each keeps the invariant and none of them reads an unused slot. An invalid range panics.
  \<open>ForEach\<close> visits the ranges in order, and \<open>Len\<close> counts them.
\<close>

theorem range_list_refines_set:
  assumes "rl_inv rl"
  shows "(if range_ok r then
        (\<exists>rl' b. rl_Add r rl = Inr (rl', b) \<and> rl_inv rl' \<and> rl_keys rl' = rl_keys rl \<union> rng r \<and> (\<not> b \<longrightarrow> rl' = rl \<and> rng r \<subseteq> rl_keys rl) \<and>
           (ranges_apart (concat (rl_ll rl)) \<longrightarrow> b = (\<not> rng r \<subseteq> rl_keys rl))) \<and>
        (\<exists>rl'. rl_Sub r rl = Inr (rl', rl_keys rl \<inter> rng r \<noteq> {}) \<and> rl_inv rl' \<and> rl_keys rl' = rl_keys rl - rng r) \<and>
        rl_Overlaps r rl = Inr (rl_keys rl \<inter> rng r \<noteq> {}) \<and>
        rl_Encloses r rl = Inr (\<exists>x \<in> set (concat (rl_ll rl)). rg_contains x r)
      else (\<exists>e. rl_Add r rl = Inl e) \<and> (\<exists>e. rl_Sub r rl = Inl e) \<and> (\<exists>e. rl_Overlaps r rl = Inl e) \<and> (\<exists>e. rl_Encloses r rl = Inl e)) \<and>
    rl_ForEach (\<lambda>seen x. (seen @ [x], None)) [] rl = (concat (rl_ll rl), None) \<and> rl_Len rl = int (length (concat (rl_ll rl)))"
proof (intro conjI)
  have bad: "rangeError r \<noteq> None \<Longrightarrow> \<exists>e. findNode r inc ll = Inl e" for inc ll by (auto simp: findNode_def)
  show "if range_ok r then
        (\<exists>rl' b. rl_Add r rl = Inr (rl', b) \<and> rl_inv rl' \<and> rl_keys rl' = rl_keys rl \<union> rng r \<and> (\<not> b \<longrightarrow> rl' = rl \<and> rng r \<subseteq> rl_keys rl) \<and>
           (ranges_apart (concat (rl_ll rl)) \<longrightarrow> b = (\<not> rng r \<subseteq> rl_keys rl))) \<and>
        (\<exists>rl'. rl_Sub r rl = Inr (rl', rl_keys rl \<inter> rng r \<noteq> {}) \<and> rl_inv rl' \<and> rl_keys rl' = rl_keys rl - rng r) \<and>
        rl_Overlaps r rl = Inr (rl_keys rl \<inter> rng r \<noteq> {}) \<and>
        rl_Encloses r rl = Inr (\<exists>x \<in> set (concat (rl_ll rl)). rg_contains x r)
      else (\<exists>e. rl_Add r rl = Inl e) \<and> (\<exists>e. rl_Sub r rl = Inl e) \<and> (\<exists>e. rl_Overlaps r rl = Inl e) \<and> (\<exists>e. rl_Encloses r rl = Inl e)"
  proof (cases "range_ok r")
    case True
    show ?thesis unfolding if_P [OF True]
      by (intro conjI rl_Add_correct [OF assms True, unfolded add_ok_def] rl_Sub_correct [OF assms True] rl_Overlaps_correct [OF assms True]
        rl_Encloses_correct [OF assms True])
  next
    case False
    then obtain e e' where "findNode r True (rl_ll rl) = Inl e" "findNode r False (rl_ll rl) = Inl e'"
      using bad unfolding rangeError_None [symmetric] by meson
    then show ?thesis unfolding if_not_P [OF False] by (simp add: rl_Add_def rl_Sub_def rl_Overlaps_def rl_Encloses_def Let_def)
  qed
  have "visit (\<lambda>seen x. (seen @ [x], None)) acc xs = (acc @ xs, None)" for acc xs by (induction xs arbitrary: acc) auto
  then show "rl_ForEach (\<lambda>seen x. (seen @ [x], None)) [] rl = (concat (rl_ll rl), None)" using assms by (simp add: rl_ForEach_visit)
  show "rl_Len rl = int (length (concat (rl_ll rl)))" using assms by (simp add: rl_Len_def rl_inv_def)
qed

abbreviation rg :: "8 word \<Rightarrow> 8 word \<Rightarrow> Range" where
  "rg a b \<equiv> \<lparr>r_Start = [a], r_End = [b]\<rparr>"

theorem range_list_refines_set_witness:
  "\<exists>rl' b. rl_Add (rg 2 5) \<lparr>rl_ll = [[rg 1 3, rg 4 6]], rl_len = 2\<rparr> = Inr (rl', b) \<and> rl_inv rl' \<and>
     rl_keys rl' = rl_keys \<lparr>rl_ll = [[rg 1 3, rg 4 6]], rl_len = 2\<rparr> \<union> rng (rg 2 5)"
proof -
  have inv: "rl_inv \<lparr>rl_ll = [[rg 1 3, rg 4 6]], rl_len = 2\<rparr>"
    by (simp add: rl_inv_def node_ok_def rangeListNodeBucketSize_def)
  have ok: "range_ok (rg 2 5)" by simp
  from range_list_refines_set [OF inv, of "rg 2 5", THEN conjunct1, unfolded if_P [OF ok], THEN conjunct1] show ?thesis by blast
qed

text \<open>A sequence of operations that leaves two ranges touching.\<close>

definition touching_ops :: "rangeList res" where
  "touching_ops =
     res_bind (add_all rl_Add (map (\<lambda>i. rg (2 * i) (2 * i + 1)) [0, 1, 2, 3, 4, 5, 6, 7, 8]) NewRangeList) (\<lambda>g.
     res_bind (rl_Sub (rg 14 15) g) (\<lambda>(g, _). res_bind (rl_Add (rg 15 16) g) (\<lambda>(g, _). Inr g)))"

text \<open>
  Ranges that touch across two nodes are not merged. After nine \<open>Add\<close>s, a \<open>Sub\<close> and an \<open>Add\<close> of a range that ends where
  the first range of the second node starts, the list has two ranges that touch: it does not enclose a range all of whose
  keys it has, and adding that range again is said to have grown the group.
\<close>

theorem touching_ranges_not_merged:
  "\<exists>g g'. touching_ops = Inr g \<and> rl_inv g \<and> rng (rg 15 17) \<subseteq> rl_keys g \<and> rl_Encloses (rg 15 17) g = Inr False \<and>
     rl_Add (rg 15 17) g = Inr (g', True) \<and> rl_keys g' = rl_keys g"
proof -
  define g where "g = \<lparr>rl_ll = [map (\<lambda>i. rg (2 * i) (2 * i + 1)) [0, 1, 2, 3, 4, 5, 6] @ [rg 15 16], [rg 16 17]], rl_len = 9\<rparr>"
  have ops: "touching_ops = Inr g" unfolding g_def by code_simp
  have inv: "rl_inv g" by (simp add: g_def rl_inv_def node_ok_def rangeListNodeBucketSize_def)
  have "rng (rg 15 17) \<subseteq> rng (rg 15 16) \<union> rng (rg 16 17)" by (auto simp: rng_def)
  then have keys: "rng (rg 15 17) \<subseteq> rl_keys g" by (auto simp: g_def rl_keys_def)
  have enc: "rl_Encloses (rg 15 17) g = Inr False" unfolding g_def by code_simp
  have add: "(case rl_Add (rg 15 17) g of Inr (_, b) \<Rightarrow> b | _ \<Rightarrow> False)" unfolding g_def by code_simp
  have ok: "range_ok (rg 15 17)" by simp
  from rl_Add_correct [OF inv ok] add obtain g' where "rl_Add (rg 15 17) g = Inr (g', True)" "rl_keys g' = rl_keys g \<union> rng (rg 15 17)"
    by (auto simp: add_ok_def)
  then show ?thesis using ops inv keys enc by blast
qed

end
