(* ===== verification/Rangefeed_Filter.thy ===== *)
theory Rangefeed_Filter
  imports Range_Group
begin

text \<open>
  The filter of a rangefeed, \<open>pkg/kv/kvserver/rangefeed/filter.go\<close>: from the registrations it builds two
  range groups that tell which values the feed needs. It relies on the contract of a range group alone.
\<close>

section \<open>The filter of a rangefeed\<close>

definition AsRange :: "Span \<Rightarrow> Range" where
  "AsRange s = (case Span_AsRange s of (startKey, endKey) \<Rightarrow> \<lparr>r_Start = startKey, r_End = endKey\<rparr>)"

text \<open>The fields of a registration that the filter reads; the tree of the registry is the sequence it visits.\<close>

record registration =
  reg_keys :: Range
  withDiff :: bool

record Filter =
  needPrevVals :: rangeList
  needVals :: rangeList

fun Filter_Do :: "registration list \<Rightarrow> Filter \<Rightarrow> Filter res" where
  "Filter_Do [] f = Inr f"
| "Filter_Do (r # rest) f =
     res_bind (if withDiff r then res_bind (rl_Add (reg_keys r) (needPrevVals f)) (\<lambda>(g, _). Inr (f\<lparr>needPrevVals := g\<rparr>)) else Inr f) (\<lambda>f.
     res_bind (rl_Add (reg_keys r) (needVals f)) (\<lambda>(g, _). Filter_Do rest (f\<lparr>needVals := g\<rparr>)))"

definition newFilterFromRegistry :: "registration list \<Rightarrow> Filter res" where
  "newFilterFromRegistry tree = Filter_Do tree \<lparr>needPrevVals = NewRangeList, needVals = NewRangeList\<rparr>"

definition NeedPrevVal :: "Filter \<Rightarrow> Span \<Rightarrow> bool res" where
  "NeedPrevVal f s = rl_Overlaps (AsRange s) (needPrevVals f)"

definition NeedVal :: "Filter \<Rightarrow> Span \<Rightarrow> bool res" where
  "NeedVal f s = rl_Overlaps (AsRange s) (needVals f)"

lemma AsRange_ok: "Span_Valid s \<Longrightarrow> range_ok (AsRange s)"
  by (auto simp: AsRange_def Span_AsRange_def Let_def Span_Valid_def prefix_less_append split: if_splits)

lemma Filter_Do_groups:
  "add_all rl_Add (map reg_keys (filter withDiff regs)) (needPrevVals f) = Inr g \<Longrightarrow> add_all rl_Add (map reg_keys regs) (needVals f) = Inr h \<Longrightarrow>
   Filter_Do regs f = Inr \<lparr>needPrevVals = g, needVals = h\<rparr>"
proof (induction regs arbitrary: f)
  case (Cons r regs)
  obtain x b where x: "rl_Add (reg_keys r) (needVals f) = Inr (x, b)" "add_all rl_Add (map reg_keys regs) x = Inr h"
    using Cons.prems(2) by (auto simp: res_bind_eq_Inr)
  show ?case
  proof (cases "withDiff r")
    case True
    then obtain y c where y: "rl_Add (reg_keys r) (needPrevVals f) = Inr (y, c)" "add_all rl_Add (map reg_keys (filter withDiff regs)) y = Inr g"
      using Cons.prems(1) by (auto simp: res_bind_eq_Inr)
    show ?thesis using Cons.IH [of "f\<lparr>needPrevVals := y, needVals := x\<rparr>"] x y True by simp
  next
    case False
    then show ?thesis using Cons.IH [of "f\<lparr>needVals := x\<rparr>"] x Cons.prems(1) by simp
  qed
qed simp

lemma filter_groups:
  assumes "\<forall>r \<in> set regs. range_ok (reg_keys r)" "Span_Valid s"
  obtains f where "newFilterFromRegistry regs = Inr f"
    "NeedVal f s = Inr (\<exists>r \<in> set regs. rng (reg_keys r) \<inter> rng (AsRange s) \<noteq> {})"
    "NeedPrevVal f s = Inr (\<exists>r \<in> set regs. withDiff r \<and> rng (reg_keys r) \<inter> rng (AsRange s) \<noteq> {})"
proof -
  have a: "\<forall>r \<in> set (map reg_keys (filter withDiff regs)). range_ok r" "\<forall>r \<in> set (map reg_keys regs). range_ok r"
    using assms(1) by auto
  obtain g where g: "add_all rl_Add (map reg_keys (filter withDiff regs)) NewRangeList = Inr g"
      "rl_Overlaps (AsRange s) g = Inr (\<exists>r \<in> set (map reg_keys (filter withDiff regs)). rng r \<inter> rng (AsRange s) \<noteq> {})"
    by (rule rlg.overlaps_some [OF a(1) AsRange_ok [OF assms(2)]])
  obtain h where h: "add_all rl_Add (map reg_keys regs) NewRangeList = Inr h"
      "rl_Overlaps (AsRange s) h = Inr (\<exists>r \<in> set (map reg_keys regs). rng r \<inter> rng (AsRange s) \<noteq> {})"
    by (rule rlg.overlaps_some [OF a(2) AsRange_ok [OF assms(2)]])
  have "newFilterFromRegistry regs = Inr \<lparr>needPrevVals = g, needVals = h\<rparr>"
    unfolding newFilterFromRegistry_def by (rule Filter_Do_groups) (simp_all add: g h)
  then show thesis by (rule that) (auto simp: NeedVal_def NeedPrevVal_def g(2) h(2))
qed

section \<open>Properties\<close>

text \<open>
  The filter of a rangefeed is exact. Built from any set of registrations over valid ranges, it says that values are
  needed for an operation on a span exactly when some registration overlaps the span, and that previous values are needed
  exactly when a registration with diffs does.
\<close>

theorem rangefeed_filter_exact:
  assumes "\<forall>r \<in> set regs. range_ok (reg_keys r)" "Span_Valid s"
  shows "\<exists>f. newFilterFromRegistry regs = Inr f \<and>
     NeedVal f s = Inr (\<exists>r \<in> set regs. rng (reg_keys r) \<inter> rng (AsRange s) \<noteq> {}) \<and>
     NeedPrevVal f s = Inr (\<exists>r \<in> set regs. withDiff r \<and> rng (reg_keys r) \<inter> rng (AsRange s) \<noteq> {})"
  by (rule filter_groups [OF assms]) blast

theorem rangefeed_filter_exact_witness:
  "\<exists>f. newFilterFromRegistry [\<lparr>reg_keys = rg 1 3, withDiff = False\<rparr>, \<lparr>reg_keys = rg 2 4, withDiff = True\<rparr>] = Inr f \<and>
     NeedVal f \<lparr>Key = [1], EndKey = Some [2]\<rparr> = Inr (\<exists>r \<in> set [\<lparr>reg_keys = rg 1 3, withDiff = False\<rparr>, \<lparr>reg_keys = rg 2 4, withDiff = True\<rparr>].
       rng (reg_keys r) \<inter> rng (AsRange \<lparr>Key = [1], EndKey = Some [2]\<rparr>) \<noteq> {})"
proof -
  have "Span_Valid \<lparr>Key = [1], EndKey = Some [2]\<rparr>" by (simp add: Span_Valid_def endk_def)
  from rangefeed_filter_exact [OF _ this, of "[\<lparr>reg_keys = rg 1 3, withDiff = False\<rparr>, \<lparr>reg_keys = rg 2 4, withDiff = True\<rparr>]"]
  show ?thesis by auto
qed

end
