(* ===== verification/Mvcc_Range_Key.thy ===== *)
theory Mvcc_Range_Key
  imports Mvcc_Key Roachpb_Span
begin

text \<open>
  MVCC range keys, \<open>pkg/storage/mvcc_key.go\<close>: a versioned span of keys (a range tombstone) and stacks
  of versions over common bounds, newest first, with the searches and in-place edits of a stack.
  Operations that edit a stack in place return the edited stack. Cloning is the identity on values.
\<close>

section \<open>Range keys\<close>

record MVCCRangeKey =
  rk_StartKey :: bytes
  rk_EndKey :: bytes
  rk_Timestamp :: Timestamp

record MVCCRangeKeyVersion =
  rv_Timestamp :: Timestamp
  rv_Value :: bytes

type_synonym MVCCRangeKeyVersions = "MVCCRangeKeyVersion list"

record MVCCRangeKeyStack =
  rs_Bounds :: Span
  rs_Versions :: MVCCRangeKeyVersions

definition RangeKey_Bounds :: "MVCCRangeKey \<Rightarrow> Span" where
  "RangeKey_Bounds k = \<lparr>Key = rk_StartKey k, EndKey = Some (rk_EndKey k)\<rparr>"

definition AsStack :: "MVCCRangeKey \<Rightarrow> bytes \<Rightarrow> MVCCRangeKeyStack" where
  "AsStack k valueRaw = \<lparr>rs_Bounds = RangeKey_Bounds k, rs_Versions = [\<lparr>rv_Timestamp = rk_Timestamp k, rv_Value = valueRaw\<rparr>]\<rparr>"

definition RangeKey_Compare :: "MVCCRangeKey \<Rightarrow> MVCCRangeKey \<Rightarrow> int" where
  "RangeKey_Compare k l =
     (let c = bytes_Compare (rk_StartKey k) (rk_StartKey l) in
      if c \<noteq> 0 then c
      else if Timestamp_IsEmpty (rk_Timestamp k) \<and> \<not> Timestamp_IsEmpty (rk_Timestamp l) then -1
      else if \<not> Timestamp_IsEmpty (rk_Timestamp k) \<and> Timestamp_IsEmpty (rk_Timestamp l) then 1
      else (let c = Timestamp_Compare (rk_Timestamp k) (rk_Timestamp l) in
            if c \<noteq> 0 then - c else bytes_Compare (rk_EndKey k) (rk_EndKey l)))"

definition RangeKey_EncodedSize :: "MVCCRangeKey \<Rightarrow> nat" where
  "RangeKey_EncodedSize k =
     EncodedMVCCKeyPrefixLength (rk_StartKey k) + EncodedMVCCKeyPrefixLength (rk_EndKey k) + EncodedMVCCTimestampSuffixLength (rk_Timestamp k)"

definition RangeKey_Validate :: "MVCCRangeKey \<Rightarrow> unit res" where
  "RangeKey_Validate k =
     (if length (rk_StartKey k) = 0 then Inl (Err ''no start key'')
      else if length (rk_EndKey k) = 0 then Inl (Err ''no end key'')
      else if Timestamp_IsEmpty (rk_Timestamp k) then Inl (Err ''no timestamp'')
      else if bytes_Compare (rk_StartKey k) (rk_EndKey k) \<ge> 0 then Inl (Err ''start key is at or after end key'')
      else Inr ())"

definition RangeKey_Includes :: "MVCCRangeKey \<Rightarrow> bytes \<Rightarrow> bool" where
  "RangeKey_Includes k key \<longleftrightarrow> bytes_Compare (rk_StartKey k) key \<le> 0 \<and> bytes_Compare (rk_EndKey k) key > 0"

definition RangeKey_Overlaps :: "MVCCRangeKey \<Rightarrow> MVCCRangeKey \<Rightarrow> bool" where
  "RangeKey_Overlaps k b \<longleftrightarrow> bytes_Compare (rk_StartKey k) (rk_EndKey b) < 0 \<and> bytes_Compare (rk_EndKey k) (rk_StartKey b) > 0"

definition RangeKey_Deletes :: "MVCCRangeKey \<Rightarrow> MVCCKey \<Rightarrow> bool" where
  "RangeKey_Deletes k key \<longleftrightarrow> RangeKey_Includes k (mk_Key key) \<and> \<not> Timestamp_Less (rk_Timestamp k) (mk_Timestamp key)"

section \<open>Versions of a stack\<close>

definition Versions_IsEmpty :: "MVCCRangeKeyVersions \<Rightarrow> bool" where
  "Versions_IsEmpty v \<longleftrightarrow> length v = 0"

definition Versions_Covers :: "MVCCRangeKeyVersions \<Rightarrow> Timestamp \<Rightarrow> bool" where
  "Versions_Covers v ts \<longleftrightarrow> \<not> Versions_IsEmpty v \<and> \<not> Timestamp_IsEmpty ts \<and> Timestamp_LessEq ts (rv_Timestamp (v ! 0))"

definition Version_Equal :: "MVCCRangeKeyVersion \<Rightarrow> MVCCRangeKeyVersion \<Rightarrow> bool" where
  "Version_Equal v w \<longleftrightarrow> rv_Timestamp v = rv_Timestamp w \<and> rv_Value v = rv_Value w"

definition Versions_Equal :: "MVCCRangeKeyVersions \<Rightarrow> MVCCRangeKeyVersions \<Rightarrow> bool" where
  "Versions_Equal v other \<longleftrightarrow> length v = length other \<and> list_all (\<lambda>i. Version_Equal (v ! i) (other ! i)) [0..<length v]"

text \<open>The linear search for the first version at or below a timestamp.\<close>

fun first_at_or_below :: "Timestamp \<Rightarrow> MVCCRangeKeyVersions \<Rightarrow> nat" where
  "first_at_or_below to [] = 0"
| "first_at_or_below to (version # rest) =
     (if Timestamp_LessEq (rv_Timestamp version) to then 0 else Suc (first_at_or_below to rest))"

definition Versions_Excise :: "Timestamp \<Rightarrow> Timestamp \<Rightarrow> MVCCRangeKeyVersions \<Rightarrow> MVCCRangeKeyVersions \<times> bool" where
  "Versions_Excise from to v =
     (let start = first_at_or_below to v;
          end = sort_Search (length v) (\<lambda>i. Timestamp_Less (rv_Timestamp (v ! i)) from)
      in if start \<ge> end then (v, False)
         else if start = 0 then (drop end v, True)
         else (take start v @ drop end v, True))"

definition Versions_FirstAtOrAbove :: "Timestamp \<Rightarrow> MVCCRangeKeyVersions \<Rightarrow> MVCCRangeKeyVersion option" where
  "Versions_FirstAtOrAbove ts v =
     (if length v > 0 then
        (let i = sort_Search (length v) (\<lambda>i. Timestamp_Less (rv_Timestamp (v ! i)) ts)
         in if i > 0 then Some (v ! (i - 1)) else None)
      else None)"

definition Versions_FirstAtOrBelow :: "Timestamp \<Rightarrow> MVCCRangeKeyVersions \<Rightarrow> MVCCRangeKeyVersion option" where
  "Versions_FirstAtOrBelow ts v =
     (if length v > 0 then
        (let i = sort_Search (length v) (\<lambda>i. Timestamp_LessEq (rv_Timestamp (v ! i)) ts)
         in if i < length v then Some (v ! i) else None)
      else None)"

definition Versions_HasBetween :: "Timestamp \<Rightarrow> Timestamp \<Rightarrow> MVCCRangeKeyVersions \<Rightarrow> bool" where
  "Versions_HasBetween lower upper v =
     (case Versions_FirstAtOrAbove lower v of Some version \<Rightarrow> Timestamp_LessEq (rv_Timestamp version) upper | None \<Rightarrow> False)"

definition Versions_Newest :: "MVCCRangeKeyVersions \<Rightarrow> Timestamp" where
  "Versions_Newest v = (if Versions_IsEmpty v then noTs else rv_Timestamp (v ! 0))"

definition Versions_Oldest :: "MVCCRangeKeyVersions \<Rightarrow> Timestamp" where
  "Versions_Oldest v = (if Versions_IsEmpty v then noTs else rv_Timestamp (v ! (length v - 1)))"

definition Versions_Remove :: "Timestamp \<Rightarrow> MVCCRangeKeyVersions \<Rightarrow> MVCCRangeKeyVersions \<times> MVCCRangeKeyVersion option" where
  "Versions_Remove ts v =
     (if Versions_IsEmpty v then (v, None)
      else if rv_Timestamp (v ! 0) = ts then (drop 1 v, Some (v ! 0))
      else (let i = sort_Search (length v) (\<lambda>i. Timestamp_LessEq (rv_Timestamp (v ! i)) ts)
            in if i < length v \<and> rv_Timestamp (v ! i) = ts then (take i v @ drop (i + 1) v, Some (v ! i)) else (v, None)))"

definition Versions_Timestamps :: "MVCCRangeKeyVersions \<Rightarrow> Timestamp list" where
  "Versions_Timestamps v = map rv_Timestamp v"

definition Versions_Trim :: "Timestamp \<Rightarrow> Timestamp \<Rightarrow> MVCCRangeKeyVersions \<Rightarrow> MVCCRangeKeyVersions \<times> bool" where
  "Versions_Trim from to v =
     (let start = first_at_or_below to v;
          v = drop start v;
          removed = (start > 0);
          end = sort_Search (length v) (\<lambda>i. Timestamp_Less (rv_Timestamp (v ! i)) from)
      in if end < length v then (take end v, True) else (v, removed))"

section \<open>Stacks\<close>

definition AsRangeKey :: "MVCCRangeKeyStack \<Rightarrow> MVCCRangeKeyVersion \<Rightarrow> MVCCRangeKey" where
  "AsRangeKey s v = \<lparr>rk_StartKey = Key (rs_Bounds s), rk_EndKey = endk (rs_Bounds s), rk_Timestamp = rv_Timestamp v\<rparr>"

definition AsRangeKeys :: "MVCCRangeKeyStack \<Rightarrow> MVCCRangeKey list" where
  "AsRangeKeys s = map (AsRangeKey s) (rs_Versions s)"

definition AsRangeKeyValues :: "MVCCRangeKeyStack \<Rightarrow> (MVCCRangeKey \<times> bytes) list" where
  "AsRangeKeyValues s = map (\<lambda>v. (AsRangeKey s v, rv_Value v)) (rs_Versions s)"

definition CanMergeRight :: "MVCCRangeKeyStack \<Rightarrow> MVCCRangeKeyStack \<Rightarrow> bool" where
  "CanMergeRight s r \<longleftrightarrow>
     \<not> (Versions_IsEmpty (rs_Versions s) \<or> length (rs_Versions s) \<noteq> length (rs_Versions r) \<or> endk (rs_Bounds s) \<noteq> Key (rs_Bounds r)) \<and>
     list_all (\<lambda>i. Version_Equal (rs_Versions s ! i) (rs_Versions r ! i)) [0..<length (rs_Versions s)]"

definition Stack_Covers :: "MVCCRangeKeyStack \<Rightarrow> MVCCKey \<Rightarrow> bool" where
  "Stack_Covers s k \<longleftrightarrow> Versions_Covers (rs_Versions s) (mk_Timestamp k) \<and> Span_ContainsKey (rs_Bounds s) (mk_Key k)"

definition Stack_Equal :: "MVCCRangeKeyStack \<Rightarrow> MVCCRangeKeyStack \<Rightarrow> bool" where
  "Stack_Equal s t \<longleftrightarrow> Span_Equal (rs_Bounds s) (rs_Bounds t) \<and> Versions_Equal (rs_Versions s) (rs_Versions t)"

definition Stack_Excise :: "Timestamp \<Rightarrow> Timestamp \<Rightarrow> MVCCRangeKeyStack \<Rightarrow> MVCCRangeKeyStack \<times> bool" where
  "Stack_Excise from to s = (case Versions_Excise from to (rs_Versions s) of (v, removed) \<Rightarrow> (s\<lparr>rs_Versions := v\<rparr>, removed))"

definition Stack_Trim :: "Timestamp \<Rightarrow> Timestamp \<Rightarrow> MVCCRangeKeyStack \<Rightarrow> MVCCRangeKeyStack \<times> bool" where
  "Stack_Trim from to s = (case Versions_Trim from to (rs_Versions s) of (v, removed) \<Rightarrow> (s\<lparr>rs_Versions := v\<rparr>, removed))"

definition Stack_Remove :: "Timestamp \<Rightarrow> MVCCRangeKeyStack \<Rightarrow> MVCCRangeKeyStack \<times> MVCCRangeKeyVersion option" where
  "Stack_Remove ts s = (case Versions_Remove ts (rs_Versions s) of (v, r) \<Rightarrow> (s\<lparr>rs_Versions := v\<rparr>, r))"

section \<open>Searching versions\<close>

text \<open>Versions are strictly newest first.\<close>

definition versions_ok :: "MVCCRangeKeyVersions \<Rightarrow> bool" where
  "versions_ok v \<longleftrightarrow> sorted_wrt (\<lambda>a b. Timestamp_Less (rv_Timestamp b) (rv_Timestamp a)) v"

abbreviation below :: "Timestamp \<Rightarrow> MVCCRangeKeyVersion \<Rightarrow> bool" where
  "below ts v \<equiv> Timestamp_Less (rv_Timestamp v) ts"

abbreviation at_or_below :: "Timestamp \<Rightarrow> MVCCRangeKeyVersion \<Rightarrow> bool" where
  "at_or_below ts v \<equiv> Timestamp_LessEq (rv_Timestamp v) ts"

lemma versions_down:
  assumes "versions_ok v"
  shows "sorted_wrt (\<lambda>a b. below ts a \<longrightarrow> below ts b) v" "sorted_wrt (\<lambda>a b. at_or_below ts a \<longrightarrow> at_or_below ts b) v"
  using assms unfolding versions_ok_def
  by (auto elim!: sorted_wrt_mono_rel [rotated] intro: ts_less_trans ts_lesseq_trans ts_less_imp_lesseq)

lemmas search_below = sort_Search_split [OF versions_down(1)] and search_at_or_below = sort_Search_split [OF versions_down(2)]

lemma first_at_or_below_eq: "first_at_or_below to v = length (takeWhile (\<lambda>x. \<not> at_or_below to x) v)"
  by (induction v) auto

lemma linear_split:
  assumes "versions_ok v"
  shows "take (first_at_or_below to v) v = filter (\<lambda>x. \<not> at_or_below to x) v" "drop (first_at_or_below to v) v = filter (at_or_below to) v"
  using versions_down(2) [OF assms, of to]
  by (induction v) (auto simp: filter_empty_conv)

lemma versions_filter: "versions_ok v \<Longrightarrow> versions_ok (filter p v)"
  by (auto simp: versions_ok_def intro: sorted_wrt_filter)

lemma take_length_split: "take k xs = ys \<Longrightarrow> k \<le> length xs \<Longrightarrow> k = length ys"
  by auto

lemma FirstAtOrAbove_eq:
  assumes "versions_ok v"
  shows "Versions_FirstAtOrAbove ts v = (let f = filter (\<lambda>x. \<not> below ts x) v in if f = [] then None else Some (last f))"
proof -
  define k where "k = sort_Search (length v) (\<lambda>i. below ts (v ! i))"
  note S = search_below [OF assms, of ts, folded k_def]
  have k: "k = length (filter (\<lambda>x. \<not> below ts x) v)" by (rule take_length_split [OF S(2,1)])
  have "last (filter (\<lambda>x. \<not> below ts x) v) = v ! (k - 1)" if "0 < k"
    using that S(1) unfolding S(2) [symmetric] by (subst last_conv_nth) auto
  moreover have "filter (\<lambda>x. \<not> below ts x) v = [] \<longleftrightarrow> k = 0" by (simp add: k)
  ultimately show ?thesis using S(1) unfolding Versions_FirstAtOrAbove_def k_def [symmetric] Let_def by (cases v) auto
qed

lemma FirstAtOrBelow_eq:
  assumes "versions_ok v"
  shows "Versions_FirstAtOrBelow ts v = (let f = filter (at_or_below ts) v in if f = [] then None else Some (hd f))"
proof -
  define k where "k = sort_Search (length v) (\<lambda>i. at_or_below ts (v ! i))"
  note S = search_at_or_below [OF assms, of ts, folded k_def]
  have "hd (filter (at_or_below ts) v) = v ! k" if "k < length v"
    using that unfolding S(3) [symmetric] by (simp add: hd_drop_conv_nth)
  moreover have "filter (at_or_below ts) v = [] \<longleftrightarrow> \<not> k < length v" unfolding S(3) [symmetric] by auto
  ultimately show ?thesis unfolding Versions_FirstAtOrBelow_def k_def [symmetric] Let_def by (cases v) auto
qed

text \<open>In a stack the last of some versions is the oldest of them, the first the newest.\<close>

lemma versions_last_least: "versions_ok v \<Longrightarrow> x \<in> set v \<Longrightarrow> Timestamp_LessEq (rv_Timestamp (last v)) (rv_Timestamp x)"
  by (induction v rule: rev_induct) (auto simp: versions_ok_def sorted_wrt_append intro: ts_less_imp_lesseq)

lemma versions_hd_greatest: "versions_ok v \<Longrightarrow> x \<in> set v \<Longrightarrow> Timestamp_LessEq (rv_Timestamp x) (rv_Timestamp (hd v))"
  by (induction v) (auto simp: versions_ok_def intro: ts_less_imp_lesseq)

lemma HasBetween_iff:
  assumes "versions_ok v"
  shows "Versions_HasBetween lower upper v \<longleftrightarrow> (\<exists>x \<in> set v. Timestamp_LessEq lower (rv_Timestamp x) \<and> Timestamp_LessEq (rv_Timestamp x) upper)"
proof -
  let ?f = "filter (\<lambda>x. \<not> below lower x) v"
  have "Timestamp_LessEq (rv_Timestamp (last ?f)) upper" if "x \<in> set ?f" "Timestamp_LessEq (rv_Timestamp x) upper" for x
    by (rule ts_lesseq_trans [OF versions_last_least [OF versions_filter [OF assms] that(1)] that(2)])
  moreover have "last ?f \<in> set ?f" if "?f \<noteq> []" using that by (rule last_in_set)
  ultimately show ?thesis
    unfolding Versions_HasBetween_def FirstAtOrAbove_eq [OF assms] Let_def ts_lesseq_iff [of lower]
    by (cases "?f = []") (auto simp: filter_empty_conv)
qed

lemma Trim_eq:
  assumes "versions_ok v"
  shows "Versions_Trim from to v = (let w = filter (\<lambda>x. Timestamp_LessEq from (rv_Timestamp x) \<and> at_or_below to x) v in (w, w \<noteq> v))"
proof -
  define w where "w = drop (first_at_or_below to v) v"
  have w: "w = filter (at_or_below to) v" "versions_ok w" unfolding w_def linear_split(2) [OF assms] by (simp_all add: versions_filter assms)
  define k where "k = sort_Search (length w) (\<lambda>i. below from (w ! i))"
  note S = search_below [OF w(2), of "from", folded k_def]
  have res: "take k w = filter (\<lambda>x. Timestamp_LessEq from (rv_Timestamp x) \<and> at_or_below to x) v"
    using S(2) by (simp add: ts_lesseq_iff conj_commute) (simp add: w(1) ts_lesseq_iff conj_commute)
  have "first_at_or_below to v \<le> length v" by (simp add: first_at_or_below_eq length_takeWhile_le)
  moreover have "length w = length v - first_at_or_below to v" by (simp add: w_def)
  ultimately have "w = v \<longleftrightarrow> first_at_or_below to v = 0" by (cases "first_at_or_below to v = 0") (simp add: w_def, force)
  moreover have "take k w \<noteq> v" if "k < length w"
    using that by (metis length_drop length_take min.absorb4 not_less diff_le_self w_def)
  ultimately show ?thesis
    unfolding Versions_Trim_def Let_def w_def [symmetric] k_def [symmetric] res [symmetric] using S(1) by auto
qed

lemma Excise_eq:
  assumes "versions_ok v"
  shows "Versions_Excise from to v = (let w = filter (\<lambda>x. \<not> (Timestamp_LessEq from (rv_Timestamp x) \<and> at_or_below to x)) v in (w, w \<noteq> v))"
proof -
  let ?q = "\<lambda>x. \<not> (Timestamp_LessEq from (rv_Timestamp x) \<and> at_or_below to x)"
  define s e where "s = first_at_or_below to v" and "e = sort_Search (length v) (\<lambda>i. below from (v ! i))"
  note S = linear_split [OF assms, of to, folded s_def] and E = search_below [OF assms, of "from", folded e_def]
  have hi: "\<not> at_or_below to x" if "x \<in> set (take s v)" for x using that unfolding S(1) by simp
  have lo: "at_or_below to x" if "x \<in> set (drop s v)" for x using that unfolding S(2) by simp
  have hi': "\<not> below from x" if "x \<in> set (take e v)" for x using that unfolding E(2) by simp
  have lo': "below from x" if "x \<in> set (drop e v)" for x using that unfolding E(3) by simp
  show ?thesis
  proof (cases "s \<ge> e")
    case True
    have "?q x" if "x \<in> set v" for x
    proof -
      have "x \<in> set (take s v) \<or> x \<in> set (drop e v)"
        using that True by (metis append_take_drop_id set_append UnE set_drop_subset_set_drop subsetD)
      then show ?thesis using hi lo' by (auto simp: ts_lesseq_iff)
    qed
    then show ?thesis using True by (simp add: Versions_Excise_def Let_def flip: s_def e_def)
  next
    case False
    let ?m = "take (e - s) (drop s v)"
    have v: "v = take s v @ ?m @ drop e v"
      using False by (metis append_take_drop_id drop_drop le_add_diff_inverse2 nat_le_linear)
    have m: "at_or_below to x \<and> \<not> below from x" if "x \<in> set ?m" for x
    proof -
      have "x \<in> set (drop s v)" using that by (rule in_set_takeD)
      moreover have "x \<in> set (take e v)" using that False by (metis in_set_dropD drop_take le_add_diff_inverse nat_le_linear take_drop)
      ultimately show ?thesis using lo hi' by blast
    qed
    have "filter ?q v = filter ?q (take s v) @ filter ?q ?m @ filter ?q (drop e v)" by (subst v) simp
    also have "filter ?q (take s v) = take s v" using hi by simp
    also have "filter ?q ?m = []" using m by (auto simp: filter_empty_conv ts_lesseq_iff)
    also have "filter ?q (drop e v) = drop e v" using lo' by (auto simp: ts_lesseq_iff)
    finally have f: "filter ?q v = take s v @ drop e v" by simp
    have "?m \<noteq> []" using False E(1) by auto
    then have "length (take s v @ drop e v) \<noteq> length v" using False E(1) by auto
    then have "take s v @ drop e v \<noteq> v" by metis
    then show ?thesis using False unfolding Versions_Excise_def Let_def s_def [symmetric] e_def [symmetric] f by auto
  qed
qed

lemma versions_distinct: "versions_ok v \<Longrightarrow> distinct (map rv_Timestamp v)"
  by (induction v) (auto simp: versions_ok_def)

lemma find_skip: "(\<And>x. x \<in> set xs \<Longrightarrow> \<not> P x) \<Longrightarrow> find P (xs @ ys) = find P ys"
  by (induction xs) auto

lemma Remove_eq:
  assumes "versions_ok v"
  shows "Versions_Remove ts v = (filter (\<lambda>x. rv_Timestamp x \<noteq> ts) v, find (\<lambda>x. rv_Timestamp x = ts) v)"
proof (cases "v = [] \<or> rv_Timestamp (v ! 0) = ts")
  case True
  then show ?thesis
    using versions_distinct [OF assms] by (cases v) (auto simp: Versions_Remove_def Versions_IsEmpty_def image_iff intro!: filter_True [symmetric])
next
  case False
  define k where "k = sort_Search (length v) (\<lambda>i. at_or_below ts (v ! i))"
  note S = search_at_or_below [OF assms, of ts, folded k_def]
  have hi: "rv_Timestamp x \<noteq> ts" if "x \<in> set (take k v)" for x using that unfolding S(2) by auto
  have v: "v = take k v @ drop k v" by simp
  have run: "Versions_Remove ts v = (if k < length v \<and> rv_Timestamp (v ! k) = ts then (take k v @ drop (k + 1) v, Some (v ! k)) else (v, None))"
    using False by (simp add: Versions_Remove_def Versions_IsEmpty_def Let_def flip: k_def)
  show ?thesis
  proof (cases "k < length v \<and> rv_Timestamp (v ! k) = ts")
    case True
    have d: "drop k v = v ! k # drop (k + 1) v" using True by (simp add: Cons_nth_drop_Suc)
    have "distinct (map rv_Timestamp (drop k v))" using versions_distinct [OF assms] by (simp flip: drop_map)
    then have lo: "rv_Timestamp x \<noteq> ts" if "x \<in> set (drop (k + 1) v)" for x using that True unfolding d by (auto simp: image_iff)
    have "filter (\<lambda>x. rv_Timestamp x \<noteq> ts) v = take k v @ drop (k + 1) v"
      by (subst v, subst d) (use hi lo True in simp)
    moreover have "find (\<lambda>x. rv_Timestamp x = ts) v = Some (v ! k)"
      by (subst v, subst d) (use hi True in \<open>simp add: find_skip\<close>)
    ultimately show ?thesis using run True by simp
  next
    case no: False
    have "rv_Timestamp x \<noteq> ts" if x: "x \<in> set (drop k v)" for x
    proof
      assume eq: "rv_Timestamp x = ts"
      have "k < length v" using x by (cases "k < length v") auto
      then have h: "drop k v \<noteq> []" "hd (drop k v) = v ! k" by (auto simp: hd_drop_conv_nth)
      have ok: "versions_ok (drop k v)" unfolding S(3) by (rule versions_filter [OF assms])
      have "at_or_below ts (v ! k)" using hd_in_set [OF h(1)] unfolding h(2) using S(3) by simp
      moreover have "Timestamp_LessEq ts (rv_Timestamp (v ! k))" using versions_hd_greatest [OF ok x] h(2) eq by simp
      ultimately have "\<not> below (rv_Timestamp (v ! k)) x" using eq by (simp add: ts_lesseq_iff)
      then have "x = hd (drop k v)" using ok x h(1) by (cases "drop k v") (auto simp: versions_ok_def h(2) [symmetric])
      then show False using no h eq by auto
    qed
    then have none: "\<forall>x \<in> set v. rv_Timestamp x \<noteq> ts" using hi by (metis UnE append_take_drop_id set_append)
    then have "filter (\<lambda>x. rv_Timestamp x \<noteq> ts) v = v" "find (\<lambda>x. rv_Timestamp x = ts) v = None"
      by (auto simp: find_None_iff)
    then show ?thesis using run no by simp
  qed
qed

section \<open>The order of range keys\<close>

text \<open>Range keys compare as tuples of start key, time (empty first, then newest first) and end key.\<close>

definition time_rank :: "Timestamp \<Rightarrow> int \<times> int \<times> int" where
  "time_rank t = (if Timestamp_IsEmpty t then (0, 0, 0) else (1, - WallTime t, - Logical t))"

definition range_key_rank :: "MVCCRangeKey \<Rightarrow> bytes \<times> (int \<times> int \<times> int) \<times> bytes" where
  "range_key_rank k = (rk_StartKey k, time_rank (rk_Timestamp k), rk_EndKey k)"

definition three_way :: "'a :: linorder \<Rightarrow> 'a \<Rightarrow> int" where
  "three_way a b = (if a < b then -1 else if a = b then 0 else 1)"

lemma three_way_pair: "three_way (a, b) (c, d) = (if three_way a c \<noteq> 0 then three_way a c else three_way b d)"
  by (auto simp: three_way_def less_prod_def')

lemma bytes_Compare_three_way: "bytes_Compare a b = three_way a b"
  by (simp add: bytes_Compare_def three_way_def)

lemma time_rank_Compare:
  "three_way (time_rank t) (time_rank s) =
     (if Timestamp_IsEmpty t \<and> \<not> Timestamp_IsEmpty s then -1 else if \<not> Timestamp_IsEmpty t \<and> Timestamp_IsEmpty s then 1
      else - Timestamp_Compare t s)"
proof -
  have neg: "three_way (- a) (- b) = - three_way a b" for a b :: int by (auto simp: three_way_def)
  have cmp: "Timestamp_Compare t s = three_way (WallTime t, Logical t) (WallTime s, Logical s)"
    by (auto simp: Timestamp_Compare_def three_way_def less_prod_def')
  have "Timestamp_IsEmpty t \<Longrightarrow> Timestamp_IsEmpty s \<Longrightarrow> Timestamp_Compare t s = 0"
    by (simp add: Timestamp_Compare_def Timestamp_IsEmpty_def)
  then show ?thesis
    by (cases "Timestamp_IsEmpty t"; cases "Timestamp_IsEmpty s")
      (simp_all add: time_rank_def cmp three_way_pair neg, simp_all add: three_way_def)
qed

lemma RangeKey_Compare_rank: "RangeKey_Compare a b = three_way (range_key_rank a) (range_key_rank b)"
  unfolding range_key_rank_def three_way_pair time_rank_Compare RangeKey_Compare_def Let_def bytes_Compare_three_way
  by (simp split: if_split)

section \<open>Properties\<close>

text \<open>C35. Stacks of range-key versions behave as sets of versions ordered by time: the binary searches return the
  oldest version at or above and the newest at or below a timestamp; \<open>HasBetween\<close> decides whether a version lies in
  a closed interval; \<open>Trim\<close> keeps exactly the versions of a closed interval, \<open>Excise\<close> removes exactly them,
  \<open>Remove\<close> removes exactly the version with the timestamp, and each reports whether it removed something;
  the order of the stack is kept.\<close>

theorem range_key_versions:
  assumes "versions_ok v"
  shows "(case Versions_FirstAtOrAbove ts v of
        None \<Rightarrow> \<forall>x \<in> set v. Timestamp_Less (rv_Timestamp x) ts
      | Some y \<Rightarrow> y \<in> set v \<and> Timestamp_LessEq ts (rv_Timestamp y) \<and>
          (\<forall>x \<in> set v. Timestamp_LessEq ts (rv_Timestamp x) \<longrightarrow> Timestamp_LessEq (rv_Timestamp y) (rv_Timestamp x))) \<and>
    (case Versions_FirstAtOrBelow ts v of
        None \<Rightarrow> \<forall>x \<in> set v. Timestamp_Less ts (rv_Timestamp x)
      | Some y \<Rightarrow> y \<in> set v \<and> Timestamp_LessEq (rv_Timestamp y) ts \<and>
          (\<forall>x \<in> set v. Timestamp_LessEq (rv_Timestamp x) ts \<longrightarrow> Timestamp_LessEq (rv_Timestamp x) (rv_Timestamp y))) \<and>
    (Versions_HasBetween lo hi v \<longleftrightarrow> (\<exists>x \<in> set v. Timestamp_LessEq lo (rv_Timestamp x) \<and> Timestamp_LessEq (rv_Timestamp x) hi)) \<and>
    fst (Versions_Trim lo hi v) = filter (\<lambda>x. Timestamp_LessEq lo (rv_Timestamp x) \<and> Timestamp_LessEq (rv_Timestamp x) hi) v \<and>
    fst (Versions_Excise lo hi v) = filter (\<lambda>x. \<not> (Timestamp_LessEq lo (rv_Timestamp x) \<and> Timestamp_LessEq (rv_Timestamp x) hi)) v \<and>
    snd (Versions_Trim lo hi v) = (fst (Versions_Trim lo hi v) \<noteq> v) \<and> snd (Versions_Excise lo hi v) = (fst (Versions_Excise lo hi v) \<noteq> v) \<and>
    Versions_Remove ts v = (filter (\<lambda>x. rv_Timestamp x \<noteq> ts) v, find (\<lambda>x. rv_Timestamp x = ts) v) \<and>
    versions_ok (fst (Versions_Trim lo hi v)) \<and> versions_ok (fst (Versions_Excise lo hi v)) \<and> versions_ok (fst (Versions_Remove ts v))"
proof -
  let ?a = "filter (\<lambda>x. \<not> below ts x) v" and ?b = "filter (at_or_below ts) v"
  have a: "Timestamp_LessEq (rv_Timestamp (last ?a)) (rv_Timestamp x)" if "x \<in> set v" "\<not> below ts x" for x
    using versions_last_least [OF versions_filter [OF assms], of x] that by simp
  have b: "Timestamp_LessEq (rv_Timestamp x) (rv_Timestamp (hd ?b))" if "x \<in> set v" "at_or_below ts x" for x
    using versions_hd_greatest [OF versions_filter [OF assms], of x] that by simp
  have la: "last ?a \<in> set v \<and> \<not> below ts (last ?a)" if "?a \<noteq> []" using last_in_set [OF that] by (simp only: set_filter) blast
  have hb: "hd ?b \<in> set v \<and> at_or_below ts (hd ?b)" if "?b \<noteq> []" using hd_in_set [OF that] by (simp only: set_filter) blast
  have above: "case Versions_FirstAtOrAbove ts v of
        None \<Rightarrow> \<forall>x \<in> set v. Timestamp_Less (rv_Timestamp x) ts
      | Some y \<Rightarrow> y \<in> set v \<and> Timestamp_LessEq ts (rv_Timestamp y) \<and>
          (\<forall>x \<in> set v. Timestamp_LessEq ts (rv_Timestamp x) \<longrightarrow> Timestamp_LessEq (rv_Timestamp y) (rv_Timestamp x))"
    unfolding FirstAtOrAbove_eq [OF assms] Let_def ts_lesseq_iff [of ts]
    using a la by (cases "?a = []") (simp_all add: filter_empty_conv)
  have under: "case Versions_FirstAtOrBelow ts v of
        None \<Rightarrow> \<forall>x \<in> set v. Timestamp_Less ts (rv_Timestamp x)
      | Some y \<Rightarrow> y \<in> set v \<and> Timestamp_LessEq (rv_Timestamp y) ts \<and>
          (\<forall>x \<in> set v. Timestamp_LessEq (rv_Timestamp x) ts \<longrightarrow> Timestamp_LessEq (rv_Timestamp x) (rv_Timestamp y))"
    unfolding FirstAtOrBelow_eq [OF assms] Let_def
    using b hb by (cases "?b = []") (simp_all add: filter_empty_conv ts_lesseq_iff [of _ ts])
  show ?thesis
    using above under HasBetween_iff [OF assms, of lo hi] versions_filter [OF assms]
    unfolding Trim_eq [OF assms] Excise_eq [OF assms] Remove_eq [OF assms] Let_def fst_conv snd_conv by blast
qed

theorem range_key_versions_witness:
  "fst (Versions_Excise (mkTs 2 0) (mkTs 4 0) [\<lparr>rv_Timestamp = mkTs 5 0, rv_Value = []\<rparr>, \<lparr>rv_Timestamp = mkTs 3 0, rv_Value = [1]\<rparr>, \<lparr>rv_Timestamp = mkTs 1 0, rv_Value = []\<rparr>])
     = [\<lparr>rv_Timestamp = mkTs 5 0, rv_Value = []\<rparr>, \<lparr>rv_Timestamp = mkTs 1 0, rv_Value = []\<rparr>]"
proof -
  let ?v = "[\<lparr>rv_Timestamp = mkTs 5 0, rv_Value = []\<rparr>, \<lparr>rv_Timestamp = mkTs 3 0, rv_Value = [1]\<rparr>, \<lparr>rv_Timestamp = mkTs 1 0, rv_Value = []\<rparr>]"
  have "versions_ok ?v" by (simp add: versions_ok_def Timestamp_Less_def)
  from range_key_versions [OF this, of noTs "mkTs 2 0" "mkTs 4 0"] show ?thesis by (simp add: Timestamp_LessEq_def)
qed

text \<open>A stack covers a point version exactly when the version is not an intent and some range key of the stack
  deletes it; the range keys of valid stacks that touch and hold equal versions cover together the keys of
  the joined span; comparing range keys is a total order. Without the exclusion of intents, \<open>Deletes\<close>
  claims every intent in its bounds.\<close>

theorem range_key_cover:
  assumes "versions_ok (rs_Versions s)" "CanMergeRight s r" "Key (rs_Bounds s) < endk (rs_Bounds s)" "Key (rs_Bounds r) < endk (rs_Bounds r)"
  shows "(Stack_Covers s k \<longleftrightarrow> \<not> Timestamp_IsEmpty (mk_Timestamp k) \<and> (\<exists>q \<in> set (AsRangeKeys s). RangeKey_Deletes q k)) \<and>
    (Stack_Covers s k \<or> Stack_Covers r k \<longleftrightarrow>
       Stack_Covers \<lparr>rs_Bounds = \<lparr>Key = Key (rs_Bounds s), EndKey = Some (endk (rs_Bounds r))\<rparr>, rs_Versions = rs_Versions s\<rparr> k) \<and>
    (RangeKey_Compare a b = - RangeKey_Compare b a) \<and>
    (RangeKey_Compare a b \<le> 0 \<and> RangeKey_Compare b c \<le> 0 \<longrightarrow> RangeKey_Compare a c \<le> 0) \<and>
    (\<forall>q \<in> set (AsRangeKeys s). WallTime (rk_Timestamp q) \<ge> 0 \<and> Logical (rk_Timestamp q) \<ge> 0 \<longrightarrow>
       RangeKey_Deletes q \<lparr>mk_Key = rk_StartKey q, mk_Timestamp = noTs\<rparr>)"
proof -
  have eqv: "rs_Versions r = rs_Versions s"
    using assms(2) by (auto simp: CanMergeRight_def Version_Equal_def list_all_iff intro!: nth_equalityI [symmetric] MVCCRangeKeyVersion.equality)
  have ne: "rs_Versions s \<noteq> []" "endk (rs_Bounds s) = Key (rs_Bounds r)" using assms(2) by (auto simp: CanMergeRight_def Versions_IsEmpty_def)
  have hd0: "rs_Versions s ! 0 = hd (rs_Versions s)" using ne(1) by (simp add: hd_conv_nth)
  have dels: "RangeKey_Deletes (AsRangeKey s v) k \<longleftrightarrow> Span_ContainsKey (rs_Bounds s) (mk_Key k) \<and> Timestamp_LessEq (mk_Timestamp k) (rv_Timestamp v)" for v
    by (auto simp: RangeKey_Deletes_def RangeKey_Includes_def AsRangeKey_def Span_ContainsKey_def bytes_Compare_def ts_lesseq_iff)
  have top: "(\<exists>v \<in> set (rs_Versions s). Timestamp_LessEq ts (rv_Timestamp v)) \<longleftrightarrow> Timestamp_LessEq ts (rv_Timestamp (hd (rs_Versions s)))" for ts
    using versions_hd_greatest [OF assms(1)] ts_lesseq_trans hd_in_set [OF ne(1)] by blast
  have one: "Stack_Covers s k \<longleftrightarrow> \<not> Timestamp_IsEmpty (mk_Timestamp k) \<and> (\<exists>q \<in> set (AsRangeKeys s). RangeKey_Deletes q k)"
    using top [of "mk_Timestamp k"] ne(1) by (auto simp: Stack_Covers_def Versions_Covers_def Versions_IsEmpty_def hd0 AsRangeKeys_def dels)
  have two: "Stack_Covers s k \<or> Stack_Covers r k \<longleftrightarrow>
       Stack_Covers \<lparr>rs_Bounds = \<lparr>Key = Key (rs_Bounds s), EndKey = Some (endk (rs_Bounds r))\<rparr>, rs_Versions = rs_Versions s\<rparr> k"
    using assms(3,4) ne(2) by (auto simp: Stack_Covers_def eqv Span_ContainsKey_def bytes_Compare_def split: if_splits)
  have three: "RangeKey_Compare a b = - RangeKey_Compare b a"
    by (auto simp: RangeKey_Compare_rank three_way_def)
  have four: "RangeKey_Compare a b \<le> 0 \<and> RangeKey_Compare b c \<le> 0 \<longrightarrow> RangeKey_Compare a c \<le> 0"
    by (auto simp: RangeKey_Compare_rank three_way_def split: if_splits)
  have five: "RangeKey_Deletes q \<lparr>mk_Key = rk_StartKey q, mk_Timestamp = noTs\<rparr>"
    if "q \<in> set (AsRangeKeys s)" "WallTime (rk_Timestamp q) \<ge> 0 \<and> Logical (rk_Timestamp q) \<ge> 0" for q
    using that assms(3) by (auto simp: RangeKey_Deletes_def RangeKey_Includes_def AsRangeKeys_def AsRangeKey_def bytes_Compare_def Timestamp_Less_def)
  show ?thesis using one two three four five by blast
qed

theorem range_key_cover_witness:
  "Stack_Covers (AsStack \<lparr>rk_StartKey = [1], rk_EndKey = [9], rk_Timestamp = mkTs 5 0\<rparr> []) \<lparr>mk_Key = [3], mk_Timestamp = mkTs 4 0\<rparr> \<and>
   \<not> Stack_Covers (AsStack \<lparr>rk_StartKey = [1], rk_EndKey = [9], rk_Timestamp = mkTs 5 0\<rparr> []) \<lparr>mk_Key = [3], mk_Timestamp = noTs\<rparr>"
proof -
  let ?s = "AsStack \<lparr>rk_StartKey = [1], rk_EndKey = [9], rk_Timestamp = mkTs 5 0\<rparr> []"
  let ?r = "AsStack \<lparr>rk_StartKey = [9], rk_EndKey = [12], rk_Timestamp = mkTs 5 0\<rparr> []"
  have h: "versions_ok (rs_Versions ?s)" "CanMergeRight ?s ?r" "Key (rs_Bounds ?s) < endk (rs_Bounds ?s)" "Key (rs_Bounds ?r) < endk (rs_Bounds ?r)"
    by (simp_all add: AsStack_def RangeKey_Bounds_def versions_ok_def CanMergeRight_def Versions_IsEmpty_def Version_Equal_def)
  have d: "\<exists>q \<in> set (AsRangeKeys ?s). RangeKey_Deletes q \<lparr>mk_Key = [3], mk_Timestamp = mkTs 4 0\<rparr>"
    by (simp add: AsStack_def RangeKey_Bounds_def AsRangeKeys_def AsRangeKey_def RangeKey_Deletes_def RangeKey_Includes_def bytes_Compare_def Timestamp_Less_def)
  have e: "\<not> Timestamp_IsEmpty (mkTs 4 0)" "Timestamp_IsEmpty noTs" by (simp_all add: Timestamp_IsEmpty_def)
  show ?thesis
    using range_key_cover [OF h, THEN conjunct1, of "\<lparr>mk_Key = [3], mk_Timestamp = mkTs 4 0\<rparr>"]
      range_key_cover [OF h, THEN conjunct1, of "\<lparr>mk_Key = [3], mk_Timestamp = noTs\<rparr>"] d e by simp
qed

end
