(* ===== verification/Replicas.thy ===== *)
theory Replicas
  imports Roachpb_Span
begin

text \<open>
  Replicas of a range: \<open>pkg/roachpb/metadata.go\<close> and \<open>metadata_replicas.go\<close>. A \<open>ReplicaSet\<close> is
  the list of its descriptors. Every operation that changes a range descriptor returns the changed
  descriptor. Replica identifiers and generations keep their widths (32 and 64 bits). A replica type
  that is none of the enumeration's values is \<open>UNKNOWN_TYPE\<close>; the code panics on it.
\<close>

section \<open>Descriptors\<close>

datatype ReplicaType =
  VOTER_FULL | VOTER_INCOMING | VOTER_OUTGOING | VOTER_DEMOTING_LEARNER | LEARNER | NON_VOTER | VOTER_DEMOTING_NON_VOTER | UNKNOWN_TYPE int

record ReplicaDescriptor =
  rp_NodeID :: int
  rp_StoreID :: int
  rp_ReplicaID :: int
  rp_Type :: ReplicaType

type_synonym ReplicaSet = "ReplicaDescriptor list"

record RangeDescriptor =
  rd_RangeID :: int
  rd_StartKey :: bytes
  rd_EndKey :: bytes
  rd_InternalReplicas :: ReplicaSet
  rd_NextReplicaID :: int
  rd_Generation :: int

definition zeroReplica :: ReplicaDescriptor where
  "zeroReplica = \<lparr>rp_NodeID = 0, rp_StoreID = 0, rp_ReplicaID = 0, rp_Type = VOTER_FULL\<rparr>"

section \<open>Replica types\<close>

fun predVoterFull :: "ReplicaDescriptor \<Rightarrow> bool" where
  "predVoterFull rDesc = (case rp_Type rDesc of VOTER_FULL \<Rightarrow> True | _ \<Rightarrow> False)"

fun predVoterFullOrIncoming :: "ReplicaDescriptor \<Rightarrow> bool" where
  "predVoterFullOrIncoming rDesc = (case rp_Type rDesc of VOTER_FULL \<Rightarrow> True | VOTER_INCOMING \<Rightarrow> True | _ \<Rightarrow> False)"

fun predVoterIncoming :: "ReplicaDescriptor \<Rightarrow> bool" where
  "predVoterIncoming rDesc = (case rp_Type rDesc of VOTER_INCOMING \<Rightarrow> True | _ \<Rightarrow> False)"

definition predLearner :: "ReplicaDescriptor \<Rightarrow> bool" where
  "predLearner rDesc \<longleftrightarrow> rp_Type rDesc = LEARNER"

definition predNonVoter :: "ReplicaDescriptor \<Rightarrow> bool" where
  "predNonVoter rDesc \<longleftrightarrow> rp_Type rDesc = NON_VOTER"

definition predVoterOrNonVoter :: "ReplicaDescriptor \<Rightarrow> bool" where
  "predVoterOrNonVoter rDesc \<longleftrightarrow> predVoterFullOrIncoming rDesc \<or> predNonVoter rDesc"

definition predVoterFullOrNonVoter :: "ReplicaDescriptor \<Rightarrow> bool" where
  "predVoterFullOrNonVoter rDesc \<longleftrightarrow> predVoterFull rDesc \<or> predNonVoter rDesc"

definition IsVoterOldConfig :: "ReplicaDescriptor \<Rightarrow> bool" where
  "IsVoterOldConfig r = (case rp_Type r of VOTER_FULL \<Rightarrow> True | VOTER_OUTGOING \<Rightarrow> True | VOTER_DEMOTING_NON_VOTER \<Rightarrow> True
     | VOTER_DEMOTING_LEARNER \<Rightarrow> True | _ \<Rightarrow> False)"

definition IsVoterNewConfig :: "ReplicaDescriptor \<Rightarrow> bool" where
  "IsVoterNewConfig r = (case rp_Type r of VOTER_FULL \<Rightarrow> True | VOTER_INCOMING \<Rightarrow> True | _ \<Rightarrow> False)"

definition IsAnyVoter :: "ReplicaDescriptor \<Rightarrow> bool" where
  "IsAnyVoter r = (case rp_Type r of VOTER_FULL \<Rightarrow> True | VOTER_INCOMING \<Rightarrow> True | VOTER_OUTGOING \<Rightarrow> True
     | VOTER_DEMOTING_NON_VOTER \<Rightarrow> True | VOTER_DEMOTING_LEARNER \<Rightarrow> True | _ \<Rightarrow> False)"

definition IsNonVoter :: "ReplicaDescriptor \<Rightarrow> bool" where
  "IsNonVoter r = (case rp_Type r of NON_VOTER \<Rightarrow> True | _ \<Rightarrow> False)"

definition IsSame :: "ReplicaDescriptor \<Rightarrow> ReplicaDescriptor \<Rightarrow> bool" where
  "IsSame r s \<longleftrightarrow> rp_NodeID r = rp_NodeID s \<and> rp_StoreID r = rp_StoreID s \<and> rp_ReplicaID r = rp_ReplicaID s"

definition ReplicaDescriptor_Validate :: "ReplicaDescriptor \<Rightarrow> unit res" where
  "ReplicaDescriptor_Validate r =
     (if rp_NodeID r = 0 then Inl (Err ''NodeID must not be zero'')
      else if rp_StoreID r = 0 then Inl (Err ''StoreID must not be zero'')
      else if rp_ReplicaID r = 0 then Inl (Err ''ReplicaID must not be zero'')
      else Inr ())"

section \<open>Replica sets\<close>

text \<open>The loop of \<open>FilterToDescriptors\<close>: while all replicas matched, \<open>out\<close> is the whole slice.\<close>

fun filter_loop :: "(ReplicaDescriptor \<Rightarrow> bool) \<Rightarrow> ReplicaSet \<Rightarrow> nat \<Rightarrow> ReplicaDescriptor list \<Rightarrow> bool \<Rightarrow> ReplicaSet \<Rightarrow> ReplicaSet" where
  "filter_loop pred ds i [] fastpath out = out"
| "filter_loop pred ds i (x # rest) fastpath out =
     (if pred x then
        (if \<not> fastpath then filter_loop pred ds (i + 1) rest fastpath (out @ [x])
         else filter_loop pred ds (i + 1) rest fastpath out)
      else if fastpath then filter_loop pred ds (i + 1) rest False (take i ds)
      else filter_loop pred ds (i + 1) rest fastpath out)"

definition FilterToDescriptors :: "(ReplicaDescriptor \<Rightarrow> bool) \<Rightarrow> ReplicaSet \<Rightarrow> ReplicaSet" where
  "FilterToDescriptors pred d = filter_loop pred d 0 d True d"

definition Voters :: "ReplicaSet \<Rightarrow> ReplicaSet" where
  "Voters d = FilterToDescriptors predVoterFullOrIncoming d"

definition VoterDescriptors :: "ReplicaSet \<Rightarrow> ReplicaSet" where
  "VoterDescriptors d = FilterToDescriptors predVoterFullOrIncoming d"

definition containsVoterIncoming :: "ReplicaSet \<Rightarrow> bool" where
  "containsVoterIncoming d \<longleftrightarrow> length (FilterToDescriptors predVoterIncoming d) > 0"

definition LearnerDescriptors :: "ReplicaSet \<Rightarrow> ReplicaSet" where
  "LearnerDescriptors d = FilterToDescriptors predLearner d"

definition NonVoters :: "ReplicaSet \<Rightarrow> ReplicaSet" where
  "NonVoters d = FilterToDescriptors predNonVoter d"

definition NonVoterDescriptors :: "ReplicaSet \<Rightarrow> ReplicaSet" where
  "NonVoterDescriptors d = FilterToDescriptors predNonVoter d"

definition VoterFullAndNonVoterDescriptors :: "ReplicaSet \<Rightarrow> ReplicaSet" where
  "VoterFullAndNonVoterDescriptors d = FilterToDescriptors predVoterFullOrNonVoter d"

definition VoterAndNonVoterDescriptors :: "ReplicaSet \<Rightarrow> ReplicaSet" where
  "VoterAndNonVoterDescriptors d = FilterToDescriptors predVoterOrNonVoter d"

definition Set_AddReplica :: "ReplicaDescriptor \<Rightarrow> ReplicaSet \<Rightarrow> ReplicaSet" where
  "Set_AddReplica r d = d @ [r]"

text \<open>The index of the first replica on a store, as the loops that search for it find it.\<close>

fun index_on :: "int \<Rightarrow> int \<Rightarrow> ReplicaDescriptor list \<Rightarrow> nat option" where
  "index_on nodeID storeID [] = None"
| "index_on nodeID storeID (r # rs) =
     (if rp_NodeID r = nodeID \<and> rp_StoreID r = storeID then Some 0 else map_option Suc (index_on nodeID storeID rs))"

definition Set_RemoveReplica :: "int \<Rightarrow> int \<Rightarrow> ReplicaSet \<Rightarrow> ReplicaSet \<times> ReplicaDescriptor \<times> bool" where
  "Set_RemoveReplica nodeID storeID d =
     (case index_on nodeID storeID d of
        None \<Rightarrow> (d, zeroReplica, False)
      | Some idx \<Rightarrow>
          (let d' = (d[idx := d ! (length d - 1)])[length d - 1 := d ! idx];
               removed = d' ! (length d' - 1)
           in (take (length d' - 1) d', removed, True)))"

fun InAtomicReplicationChange :: "ReplicaSet \<Rightarrow> bool res" where
  "InAtomicReplicationChange [] = Inr False"
| "InAtomicReplicationChange (rDesc # rest) =
     (case rp_Type rDesc of
        VOTER_INCOMING \<Rightarrow> Inr True | VOTER_OUTGOING \<Rightarrow> Inr True | VOTER_DEMOTING_LEARNER \<Rightarrow> Inr True | VOTER_DEMOTING_NON_VOTER \<Rightarrow> Inr True
      | VOTER_FULL \<Rightarrow> InAtomicReplicationChange rest | LEARNER \<Rightarrow> InAtomicReplicationChange rest | NON_VOTER \<Rightarrow> InAtomicReplicationChange rest
      | UNKNOWN_TYPE t \<Rightarrow> Inl (Panic ''unknown replica type''))"

record ConfState_t =
  cs_Voters :: "uint64 list"
  cs_Learners :: "uint64 list"
  cs_VotersOutgoing :: "uint64 list"
  cs_LearnersNext :: "uint64 list"

fun conf_loop :: "bool \<Rightarrow> ReplicaDescriptor list \<Rightarrow> ConfState_t \<Rightarrow> ConfState_t res" where
  "conf_loop joint [] cs = Inr cs"
| "conf_loop joint (rep # rest) cs =
     (let i = word_of_int (rp_ReplicaID rep) in
      case rp_Type rep of
        VOTER_FULL \<Rightarrow> conf_loop joint rest
          (let cs = cs\<lparr>cs_Voters := cs_Voters cs @ [i]\<rparr> in if joint then cs\<lparr>cs_VotersOutgoing := cs_VotersOutgoing cs @ [i]\<rparr> else cs)
      | VOTER_INCOMING \<Rightarrow> conf_loop joint rest (cs\<lparr>cs_Voters := cs_Voters cs @ [i]\<rparr>)
      | VOTER_OUTGOING \<Rightarrow> conf_loop joint rest (cs\<lparr>cs_VotersOutgoing := cs_VotersOutgoing cs @ [i]\<rparr>)
      | VOTER_DEMOTING_LEARNER \<Rightarrow> conf_loop joint rest
          (cs\<lparr>cs_VotersOutgoing := cs_VotersOutgoing cs @ [i], cs_LearnersNext := cs_LearnersNext cs @ [i]\<rparr>)
      | VOTER_DEMOTING_NON_VOTER \<Rightarrow> conf_loop joint rest
          (cs\<lparr>cs_VotersOutgoing := cs_VotersOutgoing cs @ [i], cs_LearnersNext := cs_LearnersNext cs @ [i]\<rparr>)
      | LEARNER \<Rightarrow> conf_loop joint rest (cs\<lparr>cs_Learners := cs_Learners cs @ [i]\<rparr>)
      | NON_VOTER \<Rightarrow> conf_loop joint rest (cs\<lparr>cs_Learners := cs_Learners cs @ [i]\<rparr>)
      | UNKNOWN_TYPE t \<Rightarrow> Inl (Panic ''unknown ReplicaType''))"

definition ConfState :: "ReplicaSet \<Rightarrow> ConfState_t res" where
  "ConfState d = res_bind (InAtomicReplicationChange d)
     (\<lambda>joint. conf_loop joint d \<lparr>cs_Voters = [], cs_Learners = [], cs_VotersOutgoing = [], cs_LearnersNext = []\<rparr>)"

fun HasReplicaOnNode :: "int \<Rightarrow> ReplicaSet \<Rightarrow> bool" where
  "HasReplicaOnNode nodeID [] = False"
| "HasReplicaOnNode nodeID (rep # rest) = (if rp_NodeID rep = nodeID then True else HasReplicaOnNode nodeID rest)"

fun Set_GetReplicaDescriptorByID :: "int \<Rightarrow> ReplicaSet \<Rightarrow> ReplicaDescriptor option" where
  "Set_GetReplicaDescriptorByID i [] = None"
| "Set_GetReplicaDescriptorByID i (r # rs) = (if rp_ReplicaID r = i then Some r else Set_GetReplicaDescriptorByID i rs)"

record RangeStatusReport =
  Available :: bool
  UnderReplicated :: bool
  OverReplicated :: bool
  UnderReplicatedNonVoters :: bool
  OverReplicatedNonVoters :: bool

definition ReplicationStatus :: "(ReplicaDescriptor \<Rightarrow> bool) \<Rightarrow> int \<Rightarrow> int \<Rightarrow> ReplicaSet \<Rightarrow> RangeStatusReport" where
  "ReplicationStatus liveFunc neededVoters neededNonVoters d =
     (let isBoth = (\<lambda>p q (r :: ReplicaDescriptor). p r \<and> q r);
          votersOldGroup = FilterToDescriptors IsVoterOldConfig d;
          liveVotersOldGroup = FilterToDescriptors (isBoth IsVoterOldConfig liveFunc) d;
          n = length votersOldGroup;
          availableOutgoingGroup = (n = 0 \<or> length liveVotersOldGroup \<ge> n div 2 + 1);
          votersNewGroup = FilterToDescriptors IsVoterNewConfig d;
          liveVotersNewGroup = FilterToDescriptors (isBoth IsVoterNewConfig liveFunc) d;
          n = length votersNewGroup;
          availableIncomingGroup = (length liveVotersNewGroup \<ge> n div 2 + 1);
          under = (int (length liveVotersOldGroup) < neededVoters \<or> int (length liveVotersNewGroup) < neededVoters);
          over = (int (length votersOldGroup) > neededVoters \<or> int (length votersNewGroup) > neededVoters);
          res = \<lparr>Available = availableIncomingGroup \<and> availableOutgoingGroup, UnderReplicated = under, OverReplicated = over,
                 UnderReplicatedNonVoters = False, OverReplicatedNonVoters = False\<rparr>
      in if neededNonVoters = -1 then res
         else res\<lparr>UnderReplicatedNonVoters := int (length (FilterToDescriptors (isBoth IsNonVoter liveFunc) d)) < neededNonVoters,
                  OverReplicatedNonVoters := int (length (FilterToDescriptors IsNonVoter d)) > neededNonVoters\<rparr>)"

definition CanMakeProgress :: "(ReplicaDescriptor \<Rightarrow> bool) \<Rightarrow> ReplicaSet \<Rightarrow> bool" where
  "CanMakeProgress liveFunc d = Available (ReplicationStatus liveFunc 0 (-1) d)"

definition ReplicationTargets :: "ReplicaSet \<Rightarrow> (int \<times> int) list" where
  "ReplicationTargets d = map (\<lambda>repl. (rp_NodeID repl, rp_StoreID repl)) d"

definition CheckCanReceiveLease :: "ReplicaDescriptor \<Rightarrow> ReplicaSet \<Rightarrow> bool \<Rightarrow> unit res" where
  "CheckCanReceiveLease wouldbeLeaseholder replDescs wasLastLeaseholder =
     (case Set_GetReplicaDescriptorByID (rp_ReplicaID wouldbeLeaseholder) replDescs of
        None \<Rightarrow> Inl (Err ''lease target replica not found in RangeDescriptor'')
      | Some repDesc \<Rightarrow>
          if \<not> (IsVoterNewConfig repDesc \<or> IsVoterOldConfig repDesc \<and> containsVoterIncoming replDescs \<and> wasLastLeaseholder)
          then Inl (Err ''lease target replica cannot hold lease'') else Inr ())"

section \<open>Range descriptors\<close>

definition NewRangeDescriptor :: "int \<Rightarrow> bytes \<Rightarrow> bytes \<Rightarrow> ReplicaSet \<Rightarrow> RangeDescriptor" where
  "NewRangeDescriptor rangeID start end replicas =
     \<lparr>rd_RangeID = rangeID, rd_StartKey = start, rd_EndKey = end,
      rd_InternalReplicas = map (\<lambda>i. (replicas ! i)\<lparr>rp_ReplicaID := wrap32 (int i + 1)\<rparr>) [0..<length replicas],
      rd_NextReplicaID = wrap32 (int (length replicas) + 1), rd_Generation = 0\<rparr>"

definition SetReplicaType :: "int \<Rightarrow> int \<Rightarrow> ReplicaType \<Rightarrow> RangeDescriptor \<Rightarrow> RangeDescriptor \<times> ReplicaDescriptor \<times> ReplicaType \<times> bool" where
  "SetReplicaType nodeID storeID typ r =
     (case index_on nodeID storeID (rd_InternalReplicas r) of
        None \<Rightarrow> (r, zeroReplica, VOTER_FULL, False)
      | Some i \<Rightarrow>
          (let desc = (rd_InternalReplicas r ! i)\<lparr>rp_Type := typ\<rparr>
           in (r\<lparr>rd_InternalReplicas := (rd_InternalReplicas r)[i := desc]\<rparr>, desc, rp_Type (rd_InternalReplicas r ! i), True)))"

definition Desc_AddReplica :: "int \<Rightarrow> int \<Rightarrow> ReplicaType \<Rightarrow> RangeDescriptor \<Rightarrow> RangeDescriptor \<times> ReplicaDescriptor" where
  "Desc_AddReplica nodeID storeID typ r =
     (let toAdd = \<lparr>rp_NodeID = nodeID, rp_StoreID = storeID, rp_ReplicaID = rd_NextReplicaID r, rp_Type = typ\<rparr>
      in (r\<lparr>rd_InternalReplicas := Set_AddReplica toAdd (rd_InternalReplicas r), rd_NextReplicaID := wrap32 (rd_NextReplicaID r + 1)\<rparr>, toAdd))"

definition Desc_RemoveReplica :: "int \<Rightarrow> int \<Rightarrow> RangeDescriptor \<Rightarrow> RangeDescriptor \<times> ReplicaDescriptor \<times> bool" where
  "Desc_RemoveReplica nodeID storeID r =
     (case Set_RemoveReplica nodeID storeID (rd_InternalReplicas r) of
        (rs, removedRepl, ok) \<Rightarrow> ((if ok then r\<lparr>rd_InternalReplicas := rs\<rparr> else r), removedRepl, ok))"

fun find_store :: "int \<Rightarrow> ReplicaSet \<Rightarrow> ReplicaDescriptor option" where
  "find_store storeID [] = None"
| "find_store storeID (repDesc # rest) = (if rp_StoreID repDesc = storeID then Some repDesc else find_store storeID rest)"

definition GetReplicaDescriptor :: "int \<Rightarrow> RangeDescriptor \<Rightarrow> ReplicaDescriptor option" where
  "GetReplicaDescriptor storeID r = find_store storeID (rd_InternalReplicas r)"

definition GetReplicaDescriptorByID :: "int \<Rightarrow> RangeDescriptor \<Rightarrow> ReplicaDescriptor option" where
  "GetReplicaDescriptorByID replicaID r = Set_GetReplicaDescriptorByID replicaID (rd_InternalReplicas r)"

definition IsInitialized :: "RangeDescriptor \<Rightarrow> bool" where
  "IsInitialized r \<longleftrightarrow> length (rd_EndKey r) \<noteq> 0"

definition IncrementGeneration :: "RangeDescriptor \<Rightarrow> RangeDescriptor" where
  "IncrementGeneration r = r\<lparr>rd_Generation := wrap64 (rd_Generation r + 1)\<rparr>"

fun validate_loop :: "int \<Rightarrow> int list \<Rightarrow> int list \<Rightarrow> ReplicaDescriptor list \<Rightarrow> unit res" where
  "validate_loop next seen stores [] = Inr ()"
| "validate_loop next seen stores (rep # rest) =
     res_bind (ReplicaDescriptor_Validate rep) (\<lambda>_.
       if rp_ReplicaID rep \<ge> next then Inl (Err ''ReplicaID must be less than NextReplicaID'')
       else if rp_ReplicaID rep \<in> set seen then Inl (Err ''ReplicaID was reused'')
       else if rp_StoreID rep \<in> set stores then Inl (Err ''StoreID was reused'')
       else validate_loop next (rp_ReplicaID rep # seen) (rp_StoreID rep # stores) rest)"

definition Desc_Validate :: "RangeDescriptor \<Rightarrow> unit res" where
  "Desc_Validate r =
     (if rd_NextReplicaID r = 0 then Inl (Err ''NextReplicaID must be non-zero'')
      else validate_loop (rd_NextReplicaID r) [] [] (rd_InternalReplicas r))"

definition Desc_RSpan :: "RangeDescriptor \<Rightarrow> RSpan" where
  "Desc_RSpan r = \<lparr>RKey = rd_StartKey r, REndKey = rd_EndKey r\<rparr>"

section \<open>Filtering, searching and validating\<close>

lemma filter_loop_slow: "filter_loop pred ds i rest False out = out @ filter pred rest"
  by (induction rest arbitrary: i out) auto

lemma filter_loop_fast:
  "ds = pre @ rest \<Longrightarrow> filter pred pre = pre \<Longrightarrow> filter_loop pred ds (length pre) rest True ds = pre @ filter pred rest"
proof (induction rest arbitrary: pre)
  case (Cons x rest)
  then show ?case using Cons.IH [of "pre @ [x]"] by (auto simp: filter_loop_slow)
qed auto

lemma FilterToDescriptors_eq [simp]: "FilterToDescriptors pred d = filter pred d"
  using filter_loop_fast [of d "[]" d pred] by (simp add: FilterToDescriptors_def)

lemma index_on_Some:
  "index_on n s d = Some i \<Longrightarrow> i < length d \<and> rp_NodeID (d ! i) = n \<and> rp_StoreID (d ! i) = s"
  by (induction d arbitrary: i) (auto split: if_splits)

lemma index_on_None: "index_on n s d = None \<longleftrightarrow> (\<forall>r \<in> set d. \<not> (rp_NodeID r = n \<and> rp_StoreID r = s))"
  by (induction d) auto

lemma mset_remove_last_swap:
  assumes "i < length d"
  shows "mset (take (length d - 1) ((d[i := d ! (length d - 1)])[length d - 1 := d ! i])) = mset d - {#d ! i#}"
    "((d[i := d ! (length d - 1)])[length d - 1 := d ! i]) ! (length d - 1) = d ! i"
proof -
  let ?e = "(d[i := d ! (length d - 1)])[length d - 1 := d ! i]"
  show last: "?e ! (length d - 1) = d ! i" using assms by simp
  have "mset ?e = mset d" using mset_swap [of "length d - 1" d i] assms by simp
  moreover have "?e = take (length d - 1) ?e @ [d ! i]"
  proof -
    have l: "length d - 1 < length ?e" "Suc (length d - 1) = length ?e" using assms by auto
    show ?thesis using take_Suc_conv_app_nth [OF l(1)] unfolding last l(2) by simp
  qed
  ultimately have "mset d = mset (take (length d - 1) ?e) + {#d ! i#}" by (metis mset_append mset_single_iff_right)
  then show "mset (take (length d - 1) ?e) = mset d - {#d ! i#}" by simp
qed

text \<open>Removing a replica takes the first one on the store out of the set and keeps the others, in some order.\<close>

lemma Set_RemoveReplica_correct:
  "(case Set_RemoveReplica n s d of (d', r, ok) \<Rightarrow>
     if ok then r \<in> set d \<and> rp_NodeID r = n \<and> rp_StoreID r = s \<and> mset d' = mset d - {#r#}
     else d' = d \<and> (\<forall>r \<in> set d. \<not> (rp_NodeID r = n \<and> rp_StoreID r = s)))"
proof (cases "index_on n s d")
  case (Some i)
  then show ?thesis
    using index_on_Some [OF Some] mset_remove_last_swap [of i d] by (simp add: Set_RemoveReplica_def Let_def)
next
  case None
  with index_on_None [of n s d] show ?thesis by (simp add: Set_RemoveReplica_def)
qed

definition replica_ok :: "int \<Rightarrow> ReplicaDescriptor \<Rightarrow> bool" where
  "replica_ok next r \<longleftrightarrow> rp_NodeID r \<noteq> 0 \<and> rp_StoreID r \<noteq> 0 \<and> rp_ReplicaID r \<noteq> 0 \<and> rp_ReplicaID r < next"

lemma validate_loop_iff:
  "validate_loop next seen stores rs = Inr () \<longleftrightarrow>
     (\<forall>r \<in> set rs. replica_ok next r) \<and> distinct (map rp_ReplicaID rs) \<and> distinct (map rp_StoreID rs) \<and>
     rp_ReplicaID ` set rs \<inter> set seen = {} \<and> rp_StoreID ` set rs \<inter> set stores = {}"
proof (induction rs arbitrary: seen stores)
  case (Cons r rs)
  show ?case
    by (cases "ReplicaDescriptor_Validate r")
      (auto simp: Cons.IH replica_ok_def ReplicaDescriptor_Validate_def split: if_splits)
qed simp

lemma Desc_Validate_iff:
  "Desc_Validate r = Inr () \<longleftrightarrow> rd_NextReplicaID r \<noteq> 0 \<and> (\<forall>x \<in> set (rd_InternalReplicas r). replica_ok (rd_NextReplicaID r) x) \<and>
     distinct (map rp_ReplicaID (rd_InternalReplicas r)) \<and> distinct (map rp_StoreID (rd_InternalReplicas r))"
  by (simp add: Desc_Validate_def validate_loop_iff)

lemma find_store_Some: "find_store s d = Some r \<Longrightarrow> r \<in> set d \<and> rp_StoreID r = s"
  by (induction d) (auto split: if_splits)

lemma find_store_None: "find_store s d = None \<longleftrightarrow> s \<notin> rp_StoreID ` set d"
  by (induction d) auto

section \<open>Quorums\<close>

text \<open>A group of identifiers decides with more than half of its members.\<close>

definition majority :: "int multiset \<Rightarrow> int set \<Rightarrow> bool" where
  "majority M S \<longleftrightarrow> size M div 2 + 1 \<le> size (filter_mset (\<lambda>i. i \<in> S) M)"

definition old_voters :: "ReplicaSet \<Rightarrow> int multiset" where
  "old_voters d = image_mset rp_ReplicaID (mset (filter IsVoterOldConfig d))"

definition new_voters :: "ReplicaSet \<Rightarrow> int multiset" where
  "new_voters d = image_mset rp_ReplicaID (mset (filter IsVoterNewConfig d))"

text \<open>\<open>can_decide d S\<close>: the replicas with identifiers in \<open>S\<close> are enough for the range to make progress.\<close>

definition can_decide :: "ReplicaSet \<Rightarrow> int set \<Rightarrow> bool" where
  "can_decide d S \<longleftrightarrow> CanMakeProgress (\<lambda>r. rp_ReplicaID r \<in> S) d"

lemma size_live: "size (filter_mset (\<lambda>i. i \<in> S) (image_mset rp_ReplicaID (mset (filter p d)))) = length (filter (\<lambda>r. p r \<and> rp_ReplicaID r \<in> S) d)"
  by (induction d) auto

lemma majority_voters:
  "majority (image_mset rp_ReplicaID (mset (filter p d))) S \<longleftrightarrow>
   length (filter p d) div 2 + 1 \<le> length (filter (\<lambda>r. p r \<and> rp_ReplicaID r \<in> S) d)"
  unfolding majority_def size_live by (simp only: size_image_mset size_mset)

lemma can_decide_iff:
  "can_decide d S \<longleftrightarrow> majority (new_voters d) S \<and> (old_voters d = {#} \<or> majority (old_voters d) S)"
  unfolding new_voters_def old_voters_def majority_voters
  by (simp add: can_decide_def CanMakeProgress_def ReplicationStatus_def Let_def flip: mset_filter)

lemma multiset_filter_mono_pred: "(\<And>x. p x \<Longrightarrow> q x) \<Longrightarrow> filter_mset p M \<subseteq># filter_mset q M"
  by (induction M) (auto intro: subset_mset.order_trans)

lemma majority_mono: "majority M S \<Longrightarrow> S \<subseteq> T \<Longrightarrow> majority M T"
  unfolding majority_def
  by (rule le_trans, assumption, rule size_mset_mono, rule multiset_filter_mono_pred) blast

lemma majority_members: "majority M S \<longleftrightarrow> majority M (S \<inter> set_mset M)"
  unfolding majority_def by (simp cong: filter_mset_cong)

lemma majority_not_empty: "majority M S \<Longrightarrow> M \<noteq> {#}"
  by (auto simp: majority_def)

lemma majorities_disjoint_size: "S \<inter> T = {} \<Longrightarrow> size (filter_mset (\<lambda>i. i \<in> S) M) + size (filter_mset (\<lambda>i. i \<in> T) M) \<le> size M"
  by (induction M) auto

lemma majority_intersect: "majority M S \<Longrightarrow> majority M T \<Longrightarrow> \<exists>i \<in># M. i \<in> S \<and> i \<in> T"
proof (rule ccontr)
  assume *: "majority M S" "majority M T" "\<not> (\<exists>i \<in># M. i \<in> S \<and> i \<in> T)"
  then have "S \<inter> (T \<inter> set_mset M) = {}" by blast
  from majorities_disjoint_size [OF this, of M] *(1,2) majority_members [of M T] show False by (simp add: majority_def)
qed

text \<open>Majorities of groups that differ by one member intersect as well.\<close>

lemma majority_intersect_add: "majority M S \<Longrightarrow> majority (add_mset x M) T \<Longrightarrow> \<exists>i \<in># M. i \<in> S \<and> i \<in> T"
proof (rule ccontr)
  assume *: "majority M S" "majority (add_mset x M) T" "\<not> (\<exists>i \<in># M. i \<in> S \<and> i \<in> T)"
  then have "(S \<inter> set_mset M) \<inter> T = {}" by blast
  from majorities_disjoint_size [OF this, of M] *(1,2) majority_members [of M S] show False
    by (auto simp: majority_def split: if_splits)
qed

text \<open>The interface of a quorum system: any two quorums share a member, and supersets of quorums are quorums.\<close>

locale quorum_system =
  fixes quorum :: "int set \<Rightarrow> bool"
  assumes intersect: "quorum S \<Longrightarrow> quorum T \<Longrightarrow> S \<inter> T \<noteq> {}"
    and mono: "quorum S \<Longrightarrow> S \<subseteq> T \<Longrightarrow> quorum T"
begin

lemma quorum_nonempty: "quorum S \<Longrightarrow> S \<noteq> {}"
  using intersect by blast

text \<open>Two values cannot be chosen: sets of acceptors of different values are not both quorums.\<close>

lemma chosen_unique: "quorum {r. vote r = Some v} \<Longrightarrow> quorum {r. vote r = Some w} \<Longrightarrow> v = w"
  using intersect [of "{r. vote r = Some v}" "{r. vote r = Some w}"] by auto

lemma blocked: "quorum S \<Longrightarrow> \<not> quorum (- S)"
  using intersect [of S "- S"] by auto

end

interpretation rq: quorum_system "can_decide d" for d
proof
  show "S \<inter> T \<noteq> {}" if "can_decide d S" "can_decide d T" for S T
    using that majority_intersect [of "new_voters d" S T] by (auto simp: can_decide_iff)
  show "can_decide d T" if "can_decide d S" "S \<subseteq> T" for S T
    using that majority_mono by (auto simp: can_decide_iff)
qed

section \<open>The Raft configuration of a replica set\<close>

definition known_types :: "ReplicaSet \<Rightarrow> bool" where
  "known_types d \<longleftrightarrow> list_all (\<lambda>r. case rp_Type r of UNKNOWN_TYPE t \<Rightarrow> False | _ \<Rightarrow> True) d"

definition joint_type :: "ReplicaDescriptor \<Rightarrow> bool" where
  "joint_type r = (case rp_Type r of VOTER_INCOMING \<Rightarrow> True | VOTER_OUTGOING \<Rightarrow> True | VOTER_DEMOTING_LEARNER \<Rightarrow> True
     | VOTER_DEMOTING_NON_VOTER \<Rightarrow> True | _ \<Rightarrow> False)"

abbreviation raft_ids :: "(ReplicaDescriptor \<Rightarrow> bool) \<Rightarrow> ReplicaSet \<Rightarrow> uint64 list" where
  "raft_ids p d \<equiv> map (\<lambda>r. word_of_int (rp_ReplicaID r)) (filter p d)"

abbreviation raft_learner :: "ReplicaDescriptor \<Rightarrow> bool" where
  "raft_learner r \<equiv> rp_Type r = LEARNER \<or> rp_Type r = NON_VOTER"

abbreviation demoting :: "ReplicaDescriptor \<Rightarrow> bool" where
  "demoting r \<equiv> rp_Type r = VOTER_DEMOTING_LEARNER \<or> rp_Type r = VOTER_DEMOTING_NON_VOTER"

lemma InAtomic_eq: "known_types d \<Longrightarrow> InAtomicReplicationChange d = Inr (list_ex joint_type d)"
  by (induction d) (auto simp: known_types_def joint_type_def split: ReplicaType.splits)

text \<open>The members of the outgoing group: every voter of the old configuration while joint, otherwise those already leaving.\<close>

lemma conf_loop_eq:
  "known_types d \<Longrightarrow> conf_loop joint d cs = Inr
     \<lparr>cs_Voters = cs_Voters cs @ raft_ids IsVoterNewConfig d, cs_Learners = cs_Learners cs @ raft_ids raft_learner d,
      cs_VotersOutgoing = cs_VotersOutgoing cs @ raft_ids (\<lambda>r. IsVoterOldConfig r \<and> (joint \<or> joint_type r)) d,
      cs_LearnersNext = cs_LearnersNext cs @ raft_ids demoting d\<rparr>"
proof (induction d arbitrary: cs)
  case (Cons r d)
  then have "known_types d" by (simp add: known_types_def)
  then show ?case
    using Cons.prems Cons.IH
    by (cases "rp_Type r") (auto simp: known_types_def IsVoterNewConfig_def IsVoterOldConfig_def joint_type_def Let_def)
qed simp

lemma ConfState_eq:
  assumes "known_types d"
  shows "ConfState d = Inr
     \<lparr>cs_Voters = raft_ids IsVoterNewConfig d, cs_Learners = raft_ids raft_learner d,
      cs_VotersOutgoing = (if list_ex joint_type d then raft_ids IsVoterOldConfig d else []), cs_LearnersNext = raft_ids demoting d\<rparr>"
proof (cases "list_ex joint_type d")
  case False
  then have "filter (\<lambda>r. IsVoterOldConfig r \<and> joint_type r) d = []" by (auto simp: filter_empty_conv list_ex_iff)
  then show ?thesis using False by (simp add: ConfState_def InAtomic_eq [OF assms] conf_loop_eq [OF assms])
qed (simp add: ConfState_def InAtomic_eq [OF assms] conf_loop_eq [OF assms])

lemma ConfState_unknown: "\<not> known_types d \<Longrightarrow> \<not> is_ok (ConfState d)"
proof -
  have "\<not> is_ok (conf_loop joint d cs)" if "\<not> known_types d" for joint d cs
    using that by (induction d arbitrary: cs) (auto simp: known_types_def Let_def split: ReplicaType.splits)
  then show "\<not> known_types d \<Longrightarrow> \<not> is_ok (ConfState d)"
    by (cases "InAtomicReplicationChange d") (auto simp: ConfState_def)
qed

lemma simple_groups: "\<not> list_ex joint_type d \<Longrightarrow> known_types d \<Longrightarrow> filter (\<lambda>r. IsVoterOldConfig r \<and> p r) d = filter (\<lambda>r. IsVoterNewConfig r \<and> p r) d"
  by (rule filter_cong [OF refl])
    (auto simp: list_ex_iff known_types_def list_all_iff joint_type_def IsVoterOldConfig_def IsVoterNewConfig_def split: ReplicaType.splits)

lemma length_filter_raft: "length (filter P (raft_ids p d)) = length (filter (\<lambda>r. p r \<and> P (word_of_int (rp_ReplicaID r))) d)"
  by (induction d) auto

text \<open>C34. Availability agrees with the Raft configuration: \<open>ConfState\<close> panics exactly on unknown replica types and
  otherwise lists the voters of the new configuration, those of the old one while the configuration is joint,
  the learners, and the voters that will become learners; and a set of live replicas lets the range make
  progress exactly when it holds a majority of the voters and, while joint, a majority of the outgoing voters.\<close>

theorem availability_is_joint_majority:
  "if known_types d then
     \<exists>cs. ConfState d = Inr cs \<and> cs_Voters cs = raft_ids IsVoterNewConfig d \<and> cs_Learners cs = raft_ids raft_learner d \<and>
       cs_LearnersNext cs = raft_ids demoting d \<and>
       cs_VotersOutgoing cs = (if InAtomicReplicationChange d = Inr True then raft_ids IsVoterOldConfig d else []) \<and>
       (CanMakeProgress (\<lambda>r. live (word_of_int (rp_ReplicaID r))) d \<longleftrightarrow>
          length (cs_Voters cs) div 2 + 1 \<le> length (filter live (cs_Voters cs)) \<and>
          (cs_VotersOutgoing cs = [] \<or> length (cs_VotersOutgoing cs) div 2 + 1 \<le> length (filter live (cs_VotersOutgoing cs))))
   else \<not> is_ok (ConfState d)"
proof (cases "known_types d")
  case True
  have "CanMakeProgress (\<lambda>r. live (word_of_int (rp_ReplicaID r))) d \<longleftrightarrow>
      (let vs = raft_ids IsVoterNewConfig d; os = (if list_ex joint_type d then raft_ids IsVoterOldConfig d else []) in
       length vs div 2 + 1 \<le> length (filter live vs) \<and> (os = [] \<or> length os div 2 + 1 \<le> length (filter live os)))"
    using simple_groups [OF _ True, of "\<lambda>_. True"] simple_groups [OF _ True, of "\<lambda>r. live (word_of_int (rp_ReplicaID r))"]
    by (auto simp: CanMakeProgress_def ReplicationStatus_def Let_def length_filter_raft simp del: filter_map)
  then show ?thesis using True by (simp add: ConfState_eq InAtomic_eq Let_def)
qed (simp add: ConfState_unknown)

end
