(* ===== verification/Conf_Change.thy ===== *)
theory Conf_Change
  imports Replicas
begin

text \<open>
  Replication changes: \<open>prepareChangeReplicasTrigger\<close> of \<open>pkg/kv/kvserver/replica_command.go\<close>, which
  computes the next descriptor of a range from the internal changes, and \<open>confChangeImpl\<close> of
  \<open>pkg/roachpb/data.go\<close>, which translates the result into a Raft configuration change. The Raft
  messages are data (\<open>ConfChangeI\<close>); what Raft does with them is not modelled. The testing hook that
  forces joint consensus is an argument, its outcome.
\<close>

section \<open>Raft configuration changes\<close>

datatype ConfChangeType = ConfChangeAddNode | ConfChangeRemoveNode | ConfChangeAddLearnerNode

datatype ConfChangeTransition = ConfChangeTransitionAuto | ConfChangeTransitionJointExplicit

type_synonym ConfChangeSingle = "ConfChangeType \<times> uint64"

datatype ConfChangeI =
    ConfChangeV2 ConfChangeTransition "ConfChangeSingle list" bytes
  | ConfChange ConfChangeType uint64 bytes

record ChangeReplicasTrigger =
  crt_Desc :: RangeDescriptor
  crt_Added :: "ReplicaDescriptor list"
  crt_Removed :: "ReplicaDescriptor list"

fun checkExists :: "ReplicaDescriptor \<Rightarrow> ReplicaDescriptor list \<Rightarrow> unit res" where
  "checkExists inr [] = Inl (Err ''missing from descriptors'')"
| "checkExists inr (rDesc # rest) =
     (if rp_ReplicaID rDesc = rp_ReplicaID inr then
        (if rp_Type inr \<noteq> rp_Type rDesc then Inl (Err ''have %s, but descriptor has %s'') else Inr ())
      else checkExists inr rest)"

fun checkNotExists :: "ReplicaDescriptor \<Rightarrow> ReplicaDescriptor list \<Rightarrow> unit res" where
  "checkNotExists inr [] = Inr ()"
| "checkNotExists inr (rDesc # rest) =
     (if rp_ReplicaID rDesc = rp_ReplicaID inr then Inl (Err ''must no longer be present in descriptor'') else checkNotExists inr rest)"

abbreviation raft_id :: "ReplicaDescriptor \<Rightarrow> uint64" where
  "raft_id r \<equiv> word_of_int (rp_ReplicaID r)"

fun removed_loop :: "ReplicaDescriptor list \<Rightarrow> ReplicaDescriptor list \<Rightarrow> ConfChangeSingle list \<Rightarrow> ConfChangeSingle list res" where
  "removed_loop replicas [] sl = Inr sl"
| "removed_loop replicas (rDesc # rest) sl =
     (let sl = sl @ [(ConfChangeRemoveNode, raft_id rDesc)];
          demoting = res_bind (checkExists rDesc replicas)
            (\<lambda>_. removed_loop replicas rest (sl @ [(ConfChangeAddLearnerNode, raft_id rDesc)]));
          gone = res_bind (checkNotExists rDesc replicas) (\<lambda>_. removed_loop replicas rest sl)
      in case rp_Type rDesc of
           VOTER_OUTGOING \<Rightarrow> res_bind (checkExists rDesc replicas) (\<lambda>_. removed_loop replicas rest sl)
         | VOTER_DEMOTING_LEARNER \<Rightarrow> demoting
         | VOTER_DEMOTING_NON_VOTER \<Rightarrow> demoting
         | LEARNER \<Rightarrow> gone
         | NON_VOTER \<Rightarrow> gone
         | VOTER_FULL \<Rightarrow> gone
         | _ \<Rightarrow> Inl (Err ''cannot remove replica in this state''))"

fun added_loop :: "ReplicaDescriptor list \<Rightarrow> ReplicaDescriptor list \<Rightarrow> ConfChangeSingle list \<Rightarrow> ConfChangeSingle list res" where
  "added_loop replicas [] sl = Inr sl"
| "added_loop replicas (rDesc # rest) sl =
     res_bind (checkExists rDesc replicas) (\<lambda>_.
       case rp_Type rDesc of
         VOTER_FULL \<Rightarrow> added_loop replicas rest (sl @ [(ConfChangeAddNode, raft_id rDesc)])
       | VOTER_INCOMING \<Rightarrow> added_loop replicas rest (sl @ [(ConfChangeAddNode, raft_id rDesc)])
       | LEARNER \<Rightarrow> added_loop replicas rest (sl @ [(ConfChangeAddLearnerNode, raft_id rDesc)])
       | NON_VOTER \<Rightarrow> added_loop replicas rest (sl @ [(ConfChangeAddLearnerNode, raft_id rDesc)])
       | _ \<Rightarrow> Inl (Err ''cannot add replica in this state''))"

definition entersJoint :: "ReplicaDescriptor \<Rightarrow> bool" where
  "entersJoint rDesc = (case rp_Type rDesc of VOTER_INCOMING \<Rightarrow> True | VOTER_OUTGOING \<Rightarrow> True | VOTER_DEMOTING_LEARNER \<Rightarrow> True
     | VOTER_DEMOTING_NON_VOTER \<Rightarrow> True | _ \<Rightarrow> False)"

definition alwaysV2 :: bool where "alwaysV2 = False"

definition confChangeImpl :: "ChangeReplicasTrigger \<Rightarrow> bytes \<Rightarrow> ConfChangeI res" where
  "confChangeImpl crt encodedCtx =
     (let added = crt_Added crt; removed = crt_Removed crt; replicas = rd_InternalReplicas (crt_Desc crt) in
      res_bind (removed_loop replicas removed []) (\<lambda>sl.
      res_bind (added_loop replicas added sl) (\<lambda>sl.
        let enteringJoint = list_ex entersJoint replicas;
            wantLeaveJoint = (length added + length removed = 0)
        in if \<not> enteringJoint \<and> length added + length removed > 1 then Inl (Err ''change requires joint consensus'')
           else if enteringJoint \<and> wantLeaveJoint
           then Inl (Err ''descriptor enters joint state, but trigger is requesting to leave one'')
           else if enteringJoint \<or> alwaysV2
           then Inr (ConfChangeV2 (if \<not> enteringJoint then ConfChangeTransitionAuto else ConfChangeTransitionJointExplicit) sl encodedCtx)
           else if wantLeaveJoint then Inr (ConfChangeV2 ConfChangeTransitionAuto [] encodedCtx)
           else (case sl of [] \<Rightarrow> Inl (Panic ''index out of range'') | c # _ \<Rightarrow> Inr (ConfChange (fst c) (snd c) encodedCtx)))))"

section \<open>Internal replication changes\<close>

datatype internalChangeType = AddLearner | AddNonVoter | PromoteLearner | PromoteNonVoter
  | DemoteVoterToLearner | DemoteVoterToNonVoter | RemoveLearner | RemoveNonVoter | UnsupportedChange

record internalReplicationChange =
  ic_NodeID :: int
  ic_StoreID :: int
  ic_typ :: internalChangeType

definition leaveJoint :: "internalReplicationChange list \<Rightarrow> bool" where
  "leaveJoint c \<longleftrightarrow> length c = 0"

definition useJoint :: "internalReplicationChange list \<Rightarrow> bool" where
  "useJoint c \<longleftrightarrow> length c > 1 \<or> (ic_typ (c ! 0) = DemoteVoterToNonVoter \<or> ic_typ (c ! 0) = DemoteVoterToLearner)"

definition isSingleLearnerRemoval :: "internalReplicationChange list \<Rightarrow> bool" where
  "isSingleLearnerRemoval c \<longleftrightarrow> length c = 1 \<and> ic_typ (c ! 0) = RemoveLearner"

type_synonym change_state = "RangeDescriptor \<times> ReplicaDescriptor list \<times> ReplicaDescriptor list"

definition promote_change :: "bool \<Rightarrow> ReplicaType \<Rightarrow> internalReplicationChange \<Rightarrow> change_state \<Rightarrow> change_state res" where
  "promote_change joint from chg st = (case st of (desc, added, removed) \<Rightarrow>
     (case SetReplicaType (ic_NodeID chg) (ic_StoreID chg) (if joint then VOTER_INCOMING else VOTER_FULL) desc of
        (desc, rDesc, prevTyp, ok) \<Rightarrow>
          if \<not> ok \<or> prevTyp \<noteq> from then Inl (Err ''cannot promote target'')
          else Inr (desc, added @ [rDesc], removed)))"

definition remove_change :: "bool \<Rightarrow> internalReplicationChange \<Rightarrow> change_state \<Rightarrow> change_state res" where
  "remove_change joint chg st = (case st of (desc, added, removed) \<Rightarrow>
     (case GetReplicaDescriptor (ic_StoreID chg) desc of
        None \<Rightarrow> Inl (Err ''target not found'')
      | Some rDesc \<Rightarrow>
          (let prevTyp = rp_Type rDesc; isRaftLearner = (prevTyp = LEARNER \<or> prevTyp = NON_VOTER) in
           if \<not> joint \<or> isRaftLearner then
             (case Desc_RemoveReplica (ic_NodeID chg) (ic_StoreID chg) desc of
                (desc, rDesc, _) \<Rightarrow> Inr (desc, added, removed @ [rDesc]))
           else if prevTyp \<noteq> VOTER_FULL then Inl (Err ''cannot transition to VOTER_OUTGOING'')
           else (case SetReplicaType (ic_NodeID chg) (ic_StoreID chg) VOTER_OUTGOING desc of
                   (desc, rDesc, _, _) \<Rightarrow> Inr (desc, added, removed @ [rDesc])))))"

definition demote_change :: "bool \<Rightarrow> ReplicaType \<Rightarrow> internalReplicationChange \<Rightarrow> change_state \<Rightarrow> change_state res" where
  "demote_change joint to chg st = (case st of (desc, added, removed) \<Rightarrow>
     (case GetReplicaDescriptor (ic_StoreID chg) desc of
        None \<Rightarrow> Inl (Err ''target not found'')
      | Some rDesc \<Rightarrow>
          if \<not> joint then Inl (Err ''demotions require joint consensus'')
          else if rp_Type rDesc \<noteq> VOTER_FULL then Inl (Err ''cannot transition to demoting'')
          else (case SetReplicaType (ic_NodeID chg) (ic_StoreID chg) to desc of
                  (desc, rDesc, _, _) \<Rightarrow> Inr (desc, added, removed @ [rDesc]))))"

definition add_change :: "ReplicaType \<Rightarrow> internalReplicationChange \<Rightarrow> change_state \<Rightarrow> change_state res" where
  "add_change typ chg st = (case st of (desc, added, removed) \<Rightarrow>
     (case Desc_AddReplica (ic_NodeID chg) (ic_StoreID chg) typ desc of (desc, rDesc) \<Rightarrow> Inr (desc, added @ [rDesc], removed)))"

definition apply_change :: "bool \<Rightarrow> internalReplicationChange \<Rightarrow> change_state \<Rightarrow> change_state res" where
  "apply_change joint chg st =
     (case ic_typ chg of
        AddLearner \<Rightarrow> add_change LEARNER chg st
      | AddNonVoter \<Rightarrow> add_change NON_VOTER chg st
      | PromoteLearner \<Rightarrow> promote_change joint LEARNER chg st
      | PromoteNonVoter \<Rightarrow> promote_change joint NON_VOTER chg st
      | RemoveLearner \<Rightarrow> remove_change joint chg st
      | RemoveNonVoter \<Rightarrow> remove_change joint chg st
      | DemoteVoterToLearner \<Rightarrow> demote_change joint VOTER_DEMOTING_LEARNER chg st
      | DemoteVoterToNonVoter \<Rightarrow> demote_change joint VOTER_DEMOTING_NON_VOTER chg st
      | UnsupportedChange \<Rightarrow> Inl (Err ''unsupported internal change type''))"

fun change_loop :: "bool \<Rightarrow> internalReplicationChange list \<Rightarrow> change_state \<Rightarrow> change_state res" where
  "change_loop joint [] st = Inr st"
| "change_loop joint (chg # rest) st = res_bind (apply_change joint chg st) (change_loop joint rest)"

text \<open>Leaving a joint configuration walks over a copy of the replicas.\<close>

fun leave_loop :: "ReplicaDescriptor list \<Rightarrow> RangeDescriptor \<Rightarrow> bool \<Rightarrow> RangeDescriptor \<times> bool" where
  "leave_loop [] desc isJoint = (desc, isJoint)"
| "leave_loop (rDesc # rest) desc isJoint =
     (case rp_Type rDesc of
        VOTER_INCOMING \<Rightarrow> leave_loop rest (fst (SetReplicaType (rp_NodeID rDesc) (rp_StoreID rDesc) VOTER_FULL desc)) True
      | VOTER_OUTGOING \<Rightarrow> leave_loop rest (fst (Desc_RemoveReplica (rp_NodeID rDesc) (rp_StoreID rDesc) desc)) True
      | VOTER_DEMOTING_LEARNER \<Rightarrow> leave_loop rest (fst (SetReplicaType (rp_NodeID rDesc) (rp_StoreID rDesc) LEARNER desc)) True
      | VOTER_DEMOTING_NON_VOTER \<Rightarrow> leave_loop rest (fst (SetReplicaType (rp_NodeID rDesc) (rp_StoreID rDesc) NON_VOTER desc)) True
      | _ \<Rightarrow> leave_loop rest desc isJoint)"

definition prepareChangeReplicasTrigger :: "RangeDescriptor \<Rightarrow> internalReplicationChange list \<Rightarrow> bool \<Rightarrow> ChangeReplicasTrigger res" where
  "prepareChangeReplicasTrigger desc chgs forceJoint =
     (let updatedDesc = IncrementGeneration desc in
      res_bind
        (if \<not> leaveJoint chgs then
           res_bind (InAtomicReplicationChange (rd_InternalReplicas desc)) (\<lambda>joint.
             if joint then Inl (Err ''must transition out of joint config first'')
             else change_loop (useJoint chgs \<or> forceJoint) chgs (updatedDesc, [], []))
         else
           (case leave_loop (rd_InternalReplicas updatedDesc) updatedDesc False of (updatedDesc, isJoint) \<Rightarrow>
              if \<not> isJoint then Inl (Err ''cannot leave a joint config; desc not joint'') else Inr (updatedDesc, [], [])))
        (\<lambda>(updatedDesc, added, removed).
           res_bind (Desc_Validate updatedDesc) (\<lambda>_.
             let crt = \<lparr>crt_Desc = updatedDesc, crt_Added = added, crt_Removed = removed\<rparr>
             in res_bind (confChangeImpl crt []) (\<lambda>_. Inr crt))))"

section \<open>Effects on the groups of voters\<close>

text \<open>\<open>vset p d\<close>: the identifiers of the replicas that satisfy \<open>p\<close>, with multiplicity.\<close>

definition vset :: "(ReplicaDescriptor \<Rightarrow> bool) \<Rightarrow> ReplicaDescriptor multiset \<Rightarrow> int multiset" where
  "vset p M = image_mset rp_ReplicaID (filter_mset p M)"

lemma vset_simps [simp]:
  "vset p {#} = {#}" "vset p (add_mset r M) = (if p r then add_mset (rp_ReplicaID r) (vset p M) else vset p M)" "vset p (M + N) = vset p M + vset p N"
  by (simp_all add: vset_def)

lemma voters_vset: "old_voters d = vset IsVoterOldConfig (mset d)" "new_voters d = vset IsVoterNewConfig (mset d)"
  by (simp_all add: old_voters_def new_voters_def vset_def)

lemma SetReplicaType_effect:
  assumes "SetReplicaType n s typ desc = (desc', r, prev, ok)"
  shows "rd_NextReplicaID desc' = rd_NextReplicaID desc \<and>
    (if ok then \<exists>q \<in> set (rd_InternalReplicas desc). rp_NodeID q = n \<and> rp_StoreID q = s \<and> rp_Type q = prev \<and> r = q\<lparr>rp_Type := typ\<rparr> \<and>
       mset (rd_InternalReplicas desc') = add_mset r (mset (rd_InternalReplicas desc) - {#q#})
     else desc' = desc \<and> r = zeroReplica \<and> (\<forall>q \<in> set (rd_InternalReplicas desc). \<not> (rp_NodeID q = n \<and> rp_StoreID q = s)))"
proof (cases "index_on n s (rd_InternalReplicas desc)")
  case None
  then show ?thesis using assms index_on_None [of n s "rd_InternalReplicas desc"] by (auto simp: SetReplicaType_def)
next
  case (Some i)
  from index_on_Some [OF Some] show ?thesis
    using assms Some by (auto simp: SetReplicaType_def Let_def mset_update intro!: bexI [of _ "rd_InternalReplicas desc ! i"])
qed

lemma RemoveReplica_effect:
  assumes "Desc_RemoveReplica n s desc = (desc', r, ok)"
  shows "rd_NextReplicaID desc' = rd_NextReplicaID desc \<and>
    (if ok then r \<in> set (rd_InternalReplicas desc) \<and> rp_NodeID r = n \<and> rp_StoreID r = s \<and>
       mset (rd_InternalReplicas desc') = mset (rd_InternalReplicas desc) - {#r#}
     else desc' = desc)"
  using assms Set_RemoveReplica_correct [where n = n and s = s and d = "rd_InternalReplicas desc"]
  by (auto simp: Desc_RemoveReplica_def split: prod.splits if_splits)

text \<open>With one replica per store, the replica found by its store is the one found by node and store.\<close>

lemma same_store: "distinct (map rp_StoreID d) \<Longrightarrow> q \<in> set d \<Longrightarrow> r \<in> set d \<Longrightarrow> rp_StoreID q = rp_StoreID r \<Longrightarrow> q = r"
  by (metis distinct_map inj_onD)

lemma vset_replace:
  assumes "q \<in># M" "rp_ReplicaID r = rp_ReplicaID q" "p r = p q"
  shows "vset p (add_mset r (M - {#q#})) = vset p M"
  using assms by (metis insert_DiffM vset_simps(2))

lemma vset_remove: "q \<in># M \<Longrightarrow> \<not> p q \<Longrightarrow> vset p (M - {#q#}) = vset p M"
  by (metis insert_DiffM vset_simps(2))

lemma stores_replace:
  assumes "mset d' = add_mset r (mset d - {#q#})" "q \<in> set d" "rp_StoreID r = rp_StoreID q"
  shows "distinct (map rp_StoreID d') = distinct (map rp_StoreID d)" "rp_StoreID ` set d' = rp_StoreID ` set d"
proof -
  have "image_mset rp_StoreID (mset d') = image_mset rp_StoreID (add_mset q (mset d - {#q#}))"
    unfolding assms(1) using assms(3) by simp
  also have "add_mset q (mset d - {#q#}) = mset d" using assms(2) by simp
  finally have eq: "mset (map rp_StoreID d') = mset (map rp_StoreID d)" by simp
  show "distinct (map rp_StoreID d') = distinct (map rp_StoreID d)" by (rule mset_eq_imp_distinct_iff [OF eq])
  show "rp_StoreID ` set d' = rp_StoreID ` set d" using mset_eq_setD [OF eq] by simp
qed

lemma stores_remove:
  assumes "mset d' = mset d - {#q#}" "q \<in> set d" "distinct (map rp_StoreID d)"
  shows "distinct (map rp_StoreID d')" "rp_StoreID ` set d' \<subseteq> rp_StoreID ` set d"
proof -
  have "mset (q # d') = mset d" using assms(1,2) by simp
  then have "mset (map rp_StoreID (q # d')) = mset (map rp_StoreID d)" unfolding mset_map by simp
  then have "distinct (map rp_StoreID (q # d'))" using assms(3) mset_eq_imp_distinct_iff by blast
  then show "distinct (map rp_StoreID d')" by simp
  show "rp_StoreID ` set d' \<subseteq> rp_StoreID ` set d"
    using mset_eq_setD [OF \<open>mset (q # d') = mset d\<close>] by auto
qed

section \<open>Entering a joint configuration\<close>

definition is_add :: "internalReplicationChange \<Rightarrow> bool" where
  "is_add c \<longleftrightarrow> ic_typ c = AddLearner \<or> ic_typ c = AddNonVoter"

text \<open>The stores that changes add replicas on are distinct and new to the range.\<close>

definition fresh_adds :: "ReplicaDescriptor list \<Rightarrow> internalReplicationChange list \<Rightarrow> bool" where
  "fresh_adds d chgs \<longleftrightarrow> distinct (map ic_StoreID (filter is_add chgs)) \<and> (\<forall>c \<in> set (filter is_add chgs). ic_StoreID c \<notin> rp_StoreID ` set d)"

lemma fresh_adds_mono: "fresh_adds d (c # cs) \<Longrightarrow> rp_StoreID ` set d' \<subseteq> rp_StoreID ` set d \<Longrightarrow> fresh_adds d' cs"
  unfolding fresh_adds_def by (cases "is_add c") (simp_all, blast+)

lemma fresh_adds_add:
  "fresh_adds d (c # cs) \<Longrightarrow> is_add c \<Longrightarrow> rp_StoreID r = ic_StoreID c \<Longrightarrow> fresh_adds (d @ [r]) cs"
  "fresh_adds d (c # cs) \<Longrightarrow> is_add c \<Longrightarrow> ic_StoreID c \<notin> rp_StoreID ` set d"
  unfolding fresh_adds_def by (auto simp: image_iff)

definition joint_inv :: "int multiset \<Rightarrow> internalReplicationChange list \<Rightarrow> RangeDescriptor \<Rightarrow> bool" where
  "joint_inv V chgs desc \<longleftrightarrow> vset IsVoterOldConfig (mset (rd_InternalReplicas desc)) = V \<and>
     distinct (map rp_StoreID (rd_InternalReplicas desc)) \<and> fresh_adds (rd_InternalReplicas desc) chgs"

lemmas voter_type_defs = IsVoterOldConfig_def IsVoterNewConfig_def

lemma joint_inv_replace:
  assumes "joint_inv V (c # cs) desc" "q \<in> set (rd_InternalReplicas desc)"
    and "mset (rd_InternalReplicas desc') = add_mset (q\<lparr>rp_Type := t\<rparr>) (mset (rd_InternalReplicas desc) - {#q#})"
    and "IsVoterOldConfig (q\<lparr>rp_Type := t\<rparr>) = IsVoterOldConfig q"
  shows "joint_inv V cs desc'"
  using assms(1,2) stores_replace [OF assms(3,2)] vset_replace [of q "mset (rd_InternalReplicas desc)" "q\<lparr>rp_Type := t\<rparr>" IsVoterOldConfig] assms(4)
  by (auto simp: joint_inv_def assms(3) intro: fresh_adds_mono)

lemma joint_inv_remove:
  assumes "joint_inv V (c # cs) desc" "q \<in> set (rd_InternalReplicas desc)" "\<not> IsVoterOldConfig q"
    and "mset (rd_InternalReplicas desc') = mset (rd_InternalReplicas desc) - {#q#}"
  shows "joint_inv V cs desc'"
  using assms(1) stores_remove [OF assms(4,2)] vset_remove [of q "mset (rd_InternalReplicas desc)" IsVoterOldConfig] assms(2,3)
  by (auto simp: joint_inv_def assms(4) intro: fresh_adds_mono)

lemma joint_inv_tl: "joint_inv V (c # cs) desc \<Longrightarrow> joint_inv V cs desc"
  by (auto simp: joint_inv_def intro: fresh_adds_mono)

lemma joint_add:
  assumes "joint_inv V (c # cs) desc" "is_add c" "t = LEARNER \<or> t = NON_VOTER" "add_change t c (desc, a, r) = Inr (desc', a', r')"
  shows "joint_inv V cs desc'"
  using assms fresh_adds_add [of "rd_InternalReplicas desc" c cs]
  by (auto simp: joint_inv_def add_change_def Desc_AddReplica_def Let_def Set_AddReplica_def voter_type_defs)

lemma joint_promote:
  assumes "joint_inv V (c # cs) desc" "from = LEARNER \<or> from = NON_VOTER" "promote_change True from c (desc, a, r) = Inr (desc', a', r')"
  shows "joint_inv V cs desc'"
proof -
  obtain x prev ok where S: "SetReplicaType (ic_NodeID c) (ic_StoreID c) VOTER_INCOMING desc = (desc', x, prev, ok)" "ok" "prev = from"
    using assms(3) by (auto simp: promote_change_def split: prod.splits if_splits)
  then obtain q where "q \<in> set (rd_InternalReplicas desc)" "rp_Type q = from"
    "mset (rd_InternalReplicas desc') = add_mset (q\<lparr>rp_Type := VOTER_INCOMING\<rparr>) (mset (rd_InternalReplicas desc) - {#q#})"
    using SetReplicaType_effect [OF S(1)] by auto
  then show ?thesis using assms(2) by (intro joint_inv_replace [OF assms(1), of q _ VOTER_INCOMING]) (auto simp: voter_type_defs)
qed

text \<open>Retyping the replica of a store that holds a full voter to another type of the old group.\<close>

lemma joint_retype:
  assumes "joint_inv V (c # cs) desc" "GetReplicaDescriptor (ic_StoreID c) desc = Some x" "rp_Type x = VOTER_FULL"
    and "SetReplicaType (ic_NodeID c) (ic_StoreID c) t desc = (desc', y, prev, ok)"
    and "t = VOTER_OUTGOING \<or> t = VOTER_DEMOTING_LEARNER \<or> t = VOTER_DEMOTING_NON_VOTER"
  shows "joint_inv V cs desc'"
proof (cases ok)
  case True
  then obtain q where q: "q \<in> set (rd_InternalReplicas desc)" "rp_StoreID q = ic_StoreID c"
    "mset (rd_InternalReplicas desc') = add_mset (q\<lparr>rp_Type := t\<rparr>) (mset (rd_InternalReplicas desc) - {#q#})"
    using SetReplicaType_effect [OF assms(4)] by auto
  have x: "x \<in> set (rd_InternalReplicas desc)" "rp_StoreID x = ic_StoreID c"
    using find_store_Some [OF assms(2) [unfolded GetReplicaDescriptor_def]] by auto
  have "q = x" using same_store [OF _ q(1) x(1)] q(2) x(2) assms(1) by (auto simp: joint_inv_def)
  then show ?thesis using assms(3,5) by (intro joint_inv_replace [OF assms(1) q(1,3)]) (auto simp: voter_type_defs)
next
  case False
  then show ?thesis using SetReplicaType_effect [OF assms(4)] joint_inv_tl [OF assms(1)] by auto
qed

lemma joint_remove:
  assumes "joint_inv V (c # cs) desc" "remove_change True c (desc, a, r) = Inr (desc', a', r')"
  shows "joint_inv V cs desc'"
proof -
  obtain x where x: "GetReplicaDescriptor (ic_StoreID c) desc = Some x"
    using assms(2) by (auto simp: remove_change_def split: option.splits)
  show ?thesis
  proof (cases "rp_Type x = LEARNER \<or> rp_Type x = NON_VOTER")
    case True
    obtain y ok where R: "Desc_RemoveReplica (ic_NodeID c) (ic_StoreID c) desc = (desc', y, ok)"
      using assms(2) True x by (auto simp: remove_change_def split: prod.splits)
    have xs: "x \<in> set (rd_InternalReplicas desc)" "rp_StoreID x = ic_StoreID c"
      using find_store_Some [OF x [unfolded GetReplicaDescriptor_def]] by auto
    show ?thesis
    proof (cases ok)
      case ok: True
      note E = RemoveReplica_effect [OF R, simplified ok if_True]
      have "y = x" using same_store [OF _ _ xs(1), of y] E xs(2) assms(1) by (auto simp: joint_inv_def)
      then show ?thesis using E True by (intro joint_inv_remove [OF assms(1), of y]) (auto simp: voter_type_defs)
    next
      case False
      then show ?thesis using RemoveReplica_effect [OF R] joint_inv_tl [OF assms(1)] by auto
    qed
  next
    case False
    then obtain y prev ok where "rp_Type x = VOTER_FULL" "SetReplicaType (ic_NodeID c) (ic_StoreID c) VOTER_OUTGOING desc = (desc', y, prev, ok)"
      using assms(2) x by (auto simp: remove_change_def Let_def split: prod.splits if_splits)
    then show ?thesis by (intro joint_retype [OF assms(1) x]) auto
  qed
qed

lemma joint_demote:
  assumes "joint_inv V (c # cs) desc" "demote_change True t c (desc, a, r) = Inr (desc', a', r')"
    and "t = VOTER_DEMOTING_LEARNER \<or> t = VOTER_DEMOTING_NON_VOTER"
  shows "joint_inv V cs desc'"
proof -
  obtain x y prev ok where "GetReplicaDescriptor (ic_StoreID c) desc = Some x" "rp_Type x = VOTER_FULL"
      "SetReplicaType (ic_NodeID c) (ic_StoreID c) t desc = (desc', y, prev, ok)"
    using assms(2) by (auto simp: demote_change_def split: option.splits prod.splits if_splits)
  then show ?thesis using assms(3) by (intro joint_retype [OF assms(1)]) auto
qed

lemma joint_apply:
  assumes "joint_inv V (c # cs) desc" "apply_change True c (desc, a, r) = Inr (desc', a', r')"
  shows "joint_inv V cs desc'"
  using assms(2)
  by (cases "ic_typ c") (auto simp: apply_change_def is_add_def intro: joint_add [OF assms(1)] joint_promote [OF assms(1)]
      joint_remove [OF assms(1)] joint_demote [OF assms(1)])

lemma joint_loop: "joint_inv V cs desc \<Longrightarrow> change_loop True cs (desc, a, r) = Inr (desc', a', r') \<Longrightarrow> joint_inv V [] desc'"
proof (induction cs arbitrary: desc a r)
  case (Cons c cs)
  from Cons.prems(2) obtain st where st: "apply_change True c (desc, a, r) = Inr st" "change_loop True cs st = Inr (desc', a', r')"
    by (cases "apply_change True c (desc, a, r)") auto
  obtain d1 a1 r1 where "st = (d1, a1, r1)" by (cases st)
  note s = st [unfolded this]
  show ?case by (rule Cons.IH [OF joint_apply [OF Cons.prems(1) s(1)] s(2)])
qed simp

section \<open>A single change without a joint configuration\<close>

text \<open>The types of a range that is not in a joint configuration.\<close>

abbreviation simple_types :: "ReplicaDescriptor list \<Rightarrow> bool" where
  "simple_types d \<equiv> (\<forall>r \<in> set d. rp_Type r = VOTER_FULL \<or> rp_Type r = LEARNER \<or> rp_Type r = NON_VOTER)"

lemma not_atomic_iff: "InAtomicReplicationChange d = Inr False \<longleftrightarrow> simple_types d"
  by (induction d) (auto split: ReplicaType.splits)

lemma simple_voters: "simple_types d \<Longrightarrow> vset IsVoterOldConfig (mset d) = vset IsVoterNewConfig (mset d)"
  unfolding vset_def by (rule arg_cong [where f = "image_mset rp_ReplicaID"], rule filter_mset_cong) (auto simp: voter_type_defs)

text \<open>Two groups that differ by at most one member.\<close>

definition one_apart :: "int multiset \<Rightarrow> int multiset \<Rightarrow> bool" where
  "one_apart V W \<longleftrightarrow> W = V \<or> (\<exists>x. W = add_mset x V \<or> V = add_mset x W)"

lemma one_apart_intersect: "one_apart V W \<Longrightarrow> majority V S \<Longrightarrow> majority W T \<Longrightarrow> \<exists>i. i \<in># V \<and> i \<in># W \<and> i \<in> S \<and> i \<in> T"
  unfolding one_apart_def
  by (elim disjE exE) (auto dest: majority_intersect [of V S T] majority_intersect_add [of V S _ T] majority_intersect_add [of W T _ S])

lemma vset_replace_apart:
  assumes "q \<in># M" "rp_ReplicaID r = rp_ReplicaID q"
  shows "one_apart (vset p M) (vset p (add_mset r (M - {#q#})))"
proof -
  have "vset p M = vset p (add_mset q (M - {#q#}))" using assms(1) by simp
  then show ?thesis using assms(2) by (auto simp: one_apart_def)
qed

lemma vset_remove_apart:
  assumes "q \<in># M"
  shows "one_apart (vset p M) (vset p (M - {#q#}))"
proof -
  have "vset p M = vset p (add_mset q (M - {#q#}))" using assms by simp
  then show ?thesis by (auto simp: one_apart_def)
qed

lemma set_of_replaced: "mset d' = add_mset r (mset d - {#q#}) \<Longrightarrow> x \<in> set d' \<Longrightarrow> x = r \<or> x \<in> set d"
proof -
  assume "mset d' = add_mset r (mset d - {#q#})" "x \<in> set d'"
  then have "x \<in># add_mset r (mset d - {#q#})" by (metis set_mset_mset)
  then show ?thesis by (auto dest: in_diffD)
qed

text \<open>What a single change outside joint consensus leaves: simple types and at most one voter more or less.\<close>

definition simple_step :: "RangeDescriptor \<Rightarrow> RangeDescriptor \<Rightarrow> bool" where
  "simple_step desc desc' \<longleftrightarrow> simple_types (rd_InternalReplicas desc') \<and>
     one_apart (vset IsVoterNewConfig (mset (rd_InternalReplicas desc))) (vset IsVoterNewConfig (mset (rd_InternalReplicas desc')))"

lemma simple_step_refl: "simple_types (rd_InternalReplicas desc) \<Longrightarrow> simple_step desc desc"
  by (simp add: simple_step_def one_apart_def)

lemma simple_step_set:
  assumes "simple_types (rd_InternalReplicas desc)" "SetReplicaType n s VOTER_FULL desc = (desc', r, prev, ok)"
  shows "simple_step desc desc'"
proof (cases ok)
  case True
  then obtain q where q: "q \<in> set (rd_InternalReplicas desc)"
    "mset (rd_InternalReplicas desc') = add_mset (q\<lparr>rp_Type := VOTER_FULL\<rparr>) (mset (rd_InternalReplicas desc) - {#q#})"
    using SetReplicaType_effect [OF assms(2)] by auto
  have "simple_types (rd_InternalReplicas desc')"
  proof
    fix x assume "x \<in> set (rd_InternalReplicas desc')"
    from set_of_replaced [OF q(2) this] assms(1) show "rp_Type x = VOTER_FULL \<or> rp_Type x = LEARNER \<or> rp_Type x = NON_VOTER" by auto
  qed
  then show ?thesis using vset_replace_apart [of q "mset (rd_InternalReplicas desc)" "q\<lparr>rp_Type := VOTER_FULL\<rparr>" IsVoterNewConfig] q
    by (simp add: simple_step_def)
next
  case False
  then show ?thesis using SetReplicaType_effect [OF assms(2)] simple_step_refl [OF assms(1)] by auto
qed

lemma simple_step_remove:
  assumes "simple_types (rd_InternalReplicas desc)" "Desc_RemoveReplica n s desc = (desc', r, ok)"
  shows "simple_step desc desc'"
proof (cases ok)
  case True
  note E = RemoveReplica_effect [OF assms(2), simplified True if_True]
  have "simple_types (rd_InternalReplicas desc')" 
  proof
    fix x assume "x \<in> set (rd_InternalReplicas desc')"
    then have "x \<in># mset (rd_InternalReplicas desc) - {#r#}" using E by (metis set_mset_mset)
    then have "x \<in> set (rd_InternalReplicas desc)" by (auto dest: in_diffD)
    then show "rp_Type x = VOTER_FULL \<or> rp_Type x = LEARNER \<or> rp_Type x = NON_VOTER" using assms(1) by blast
  qed
  then show ?thesis using vset_remove_apart [of r "mset (rd_InternalReplicas desc)" IsVoterNewConfig] E by (simp add: simple_step_def)
next
  case False
  then show ?thesis using RemoveReplica_effect [OF assms(2)] simple_step_refl [OF assms(1)] by auto
qed

lemma simple_apply:
  assumes "simple_types (rd_InternalReplicas desc)" "apply_change False c (desc, a, r) = Inr (desc', a', r')"
  shows "simple_step desc desc'"
proof -
  have add: "simple_step desc (fst (Desc_AddReplica n s t desc))" if "t = LEARNER \<or> t = NON_VOTER" for n s t
    using that assms(1) by (auto simp: simple_step_def one_apart_def Desc_AddReplica_def Let_def Set_AddReplica_def voter_type_defs)
  show ?thesis
    using assms(2) simple_step_set [OF assms(1)] simple_step_remove [OF assms(1)] add
    by (cases "ic_typ c")
      (auto simp: apply_change_def add_change_def promote_change_def remove_change_def demote_change_def Let_def
         split: prod.splits option.splits if_splits; metis fst_conv)+
qed

section \<open>Leaving a joint configuration\<close>

text \<open>What becomes of a replica when the joint configuration is left.\<close>

definition settle :: "ReplicaDescriptor \<Rightarrow> ReplicaDescriptor list" where
  "settle r = (case rp_Type r of VOTER_INCOMING \<Rightarrow> [r\<lparr>rp_Type := VOTER_FULL\<rparr>] | VOTER_OUTGOING \<Rightarrow> []
     | VOTER_DEMOTING_LEARNER \<Rightarrow> [r\<lparr>rp_Type := LEARNER\<rparr>] | VOTER_DEMOTING_NON_VOTER \<Rightarrow> [r\<lparr>rp_Type := NON_VOTER\<rparr>] | _ \<Rightarrow> [r])"

lemma settle_store: "x \<in> set (settle r) \<Longrightarrow> rp_StoreID x = rp_StoreID r"
  by (auto simp: settle_def split: ReplicaType.splits)

abbreviation reps :: "RangeDescriptor \<Rightarrow> ReplicaDescriptor multiset" where
  "reps d \<equiv> mset (rd_InternalReplicas d)"

definition leave_inv :: "ReplicaDescriptor list \<Rightarrow> ReplicaDescriptor list \<Rightarrow> RangeDescriptor \<Rightarrow> bool" where
  "leave_inv past todo desc \<longleftrightarrow> reps desc = mset (concat (map settle past)) + mset todo \<and> distinct (map rp_StoreID (rd_InternalReplicas desc))"

lemma leave_set:
  assumes "leave_inv past (x # todo) desc" "settle x = [x\<lparr>rp_Type := t\<rparr>]"
  shows "leave_inv (past @ [x]) todo (fst (SetReplicaType (rp_NodeID x) (rp_StoreID x) t desc))"
proof -
  obtain desc' r prev ok where S: "SetReplicaType (rp_NodeID x) (rp_StoreID x) t desc = (desc', r, prev, ok)"
    by (metis prod_cases4)
  have x: "x \<in> set (rd_InternalReplicas desc)" using assms(1) by (metis leave_inv_def set_mset_mset union_iff add_mset_add_single mset.simps(2) multi_member_last)
  have ok using SetReplicaType_effect [OF S] x by (auto split: if_splits)
  then obtain q where q: "q \<in> set (rd_InternalReplicas desc)" "rp_StoreID q = rp_StoreID x"
      "reps desc' = add_mset (q\<lparr>rp_Type := t\<rparr>) (reps desc - {#q#})"
    using SetReplicaType_effect [OF S] by auto
  have "q = x" using same_store [OF _ q(1) x q(2)] assms(1) by (simp add: leave_inv_def)
  then have "reps desc' = mset (concat (map settle (past @ [x]))) + mset todo"
    using q(3) assms by (simp add: leave_inv_def)
  then show ?thesis
    using stores_replace [OF q(3,1)] assms(1) by (simp add: leave_inv_def S)
qed

lemma leave_remove:
  assumes "leave_inv past (x # todo) desc" "settle x = []"
  shows "leave_inv (past @ [x]) todo (fst (Desc_RemoveReplica (rp_NodeID x) (rp_StoreID x) desc))"
proof -
  obtain desc' r ok where R: "Desc_RemoveReplica (rp_NodeID x) (rp_StoreID x) desc = (desc', r, ok)"
    by (metis prod_cases3)
  have x: "x \<in> set (rd_InternalReplicas desc)" using assms(1) by (metis leave_inv_def set_mset_mset union_iff add_mset_add_single mset.simps(2) multi_member_last)
  have ok
    using R x Set_RemoveReplica_correct [where n = "rp_NodeID x" and s = "rp_StoreID x" and d = "rd_InternalReplicas desc"]
    by (auto simp: Desc_RemoveReplica_def split: prod.splits if_splits)
  note E = RemoveReplica_effect [OF R, simplified \<open>ok\<close> if_True]
  have "r = x" using same_store [OF _ _ x, of r] E assms(1) by (simp add: leave_inv_def)
  then have "reps desc' = mset (concat (map settle (past @ [x]))) + mset todo" using E assms by (simp add: leave_inv_def)
  then show ?thesis using stores_remove [of "rd_InternalReplicas desc'" "rd_InternalReplicas desc" x] E \<open>r = x\<close> x assms(1)
    by (simp add: leave_inv_def R)
qed

lemma leave_loop_correct:
  "leave_inv past todo desc \<Longrightarrow> leave_loop todo desc j = (desc', j') \<Longrightarrow> leave_inv (past @ todo) [] desc'"
proof (induction todo arbitrary: past desc j)
  case (Cons x todo)
  have keep: "leave_inv (past @ [x]) todo desc" if "settle x = [x]" using Cons.prems(1) that by (simp add: leave_inv_def)
  show ?case
    using Cons.prems(2) Cons.IH [of "past @ [x]"] keep leave_set [OF Cons.prems(1), of VOTER_FULL]
      leave_set [OF Cons.prems(1), of LEARNER] leave_set [OF Cons.prems(1), of NON_VOTER] leave_remove [OF Cons.prems(1)]
    by (cases "rp_Type x") (simp_all add: settle_def)
qed simp

lemma settle_voters:
  "vset IsVoterNewConfig (mset (concat (map settle d))) = vset IsVoterNewConfig (mset d)"
  "vset IsVoterOldConfig (mset (concat (map settle d))) = vset IsVoterNewConfig (mset d)"
  by (induction d) (auto simp: settle_def voter_type_defs split: ReplicaType.splits)

section \<open>Quorums across a change\<close>

definition voter_ids :: "RangeDescriptor \<Rightarrow> int set" where
  "voter_ids d = rp_ReplicaID ` {r \<in> set (rd_InternalReplicas d). IsAnyVoter r}"

lemma voters_in_ids: "i \<in># vset IsVoterOldConfig (reps d) \<or> i \<in># vset IsVoterNewConfig (reps d) \<Longrightarrow> i \<in> voter_ids d"
  by (auto simp: vset_def voter_ids_def IsAnyVoter_def voter_type_defs image_iff split: ReplicaType.splits if_splits)

lemma can_decide_vset:
  "can_decide (rd_InternalReplicas d) S \<longleftrightarrow> majority (vset IsVoterNewConfig (reps d)) S \<and>
     (vset IsVoterOldConfig (reps d) = {#} \<or> majority (vset IsVoterOldConfig (reps d)) S)"
  by (simp add: can_decide_iff voters_vset)

text \<open>How the groups of voters of the next descriptor relate to those of the current one.\<close>

lemma prepare_groups:
  assumes "prepareChangeReplicasTrigger d chgs force = Inr crt" "Desc_Validate d = Inr ()" "fresh_adds (rd_InternalReplicas d) chgs"
  shows "if chgs = [] then vset IsVoterNewConfig (reps (crt_Desc crt)) = vset IsVoterNewConfig (reps d) \<and>
       vset IsVoterOldConfig (reps (crt_Desc crt)) = vset IsVoterNewConfig (reps d)
     else vset IsVoterOldConfig (reps d) = vset IsVoterNewConfig (reps d) \<and>
       (vset IsVoterOldConfig (reps (crt_Desc crt)) = vset IsVoterNewConfig (reps d) \<or> simple_step d (crt_Desc crt))"
proof (cases "chgs = []")
  case True
  have inv: "leave_inv [] (rd_InternalReplicas d) (IncrementGeneration d)"
    using assms(2) by (simp add: leave_inv_def IncrementGeneration_def Desc_Validate_iff)
  obtain d' j where l: "leave_loop (rd_InternalReplicas d) (IncrementGeneration d) False = (d', j)" by fastforce
  then have "crt_Desc crt = d'"
    using assms(1) True
    by (auto simp: prepareChangeReplicasTrigger_def leaveJoint_def Let_def IncrementGeneration_def res_simps split: if_splits)
  then show ?thesis using leave_loop_correct [OF inv l] True by (simp add: leave_inv_def settle_voters)
next
  case False
  let ?j = "useJoint chgs \<or> force"
  from assms(1) False obtain d' a r where na: "InAtomicReplicationChange (rd_InternalReplicas d) = Inr False"
      and loop: "change_loop ?j chgs (IncrementGeneration d, [], []) = Inr (d', a, r)" and crt: "crt_Desc crt = d'"
    by (auto simp: prepareChangeReplicasTrigger_def leaveJoint_def Let_def res_simps split: if_splits)
  have simp: "simple_types (rd_InternalReplicas d)" using na not_atomic_iff by blast
  note V = simple_voters [OF simp]
  have same: "rd_InternalReplicas (IncrementGeneration d) = rd_InternalReplicas d" by (simp add: IncrementGeneration_def)
  show ?thesis
  proof (cases ?j)
    case True
    have "joint_inv (vset IsVoterNewConfig (reps d)) chgs (IncrementGeneration d)"
      using assms(2,3) V by (simp add: joint_inv_def same Desc_Validate_iff)
    then show ?thesis using joint_loop loop True V crt False by (fastforce simp: joint_inv_def)
  next
    case nj: False
    then obtain c where "chgs = [c]" using False by (cases chgs) (auto simp: useJoint_def)
    then have "apply_change False c (IncrementGeneration d, [], []) = Inr (d', a, r)"
      using loop nj by (cases "apply_change False c (IncrementGeneration d, [], [])") auto
    then have "simple_step d d'" using simple_apply [of "IncrementGeneration d" c "[]" "[]" d' a r] simp by (simp add: same simple_step_def)
    then show ?thesis using V crt False by simp
  qed
qed

text \<open>C9. Reconfiguration is safe: whenever \<open>prepareChangeReplicasTrigger\<close> accepts a change of a valid
  descriptor (adding replicas on distinct stores new to the range), every set of live replicas with which the
  range makes progress before the change and every set with which it makes progress after it share a replica
  that is a voter in both descriptors, whether the change enters a joint configuration, leaves one, or is a
  single change; and under one descriptor two such sets always intersect, so no two values are chosen.\<close>

theorem reconfiguration_quorums:
  assumes "prepareChangeReplicasTrigger d chgs force = Inr crt" "Desc_Validate d = Inr ()" "fresh_adds (rd_InternalReplicas d) chgs"
    and "CanMakeProgress (\<lambda>r. rp_ReplicaID r \<in> S) (rd_InternalReplicas d)"
    and "CanMakeProgress (\<lambda>r. rp_ReplicaID r \<in> T) (rd_InternalReplicas (crt_Desc crt))"
  shows "S \<inter> T \<inter> voter_ids d \<inter> voter_ids (crt_Desc crt) \<noteq> {} \<and>
    (CanMakeProgress (\<lambda>r. vote (rp_ReplicaID r) = Some v) (rd_InternalReplicas d) \<and>
     CanMakeProgress (\<lambda>r. vote (rp_ReplicaID r) = Some w) (rd_InternalReplicas d) \<longrightarrow> v = w)"
proof -
  let ?N = "vset IsVoterNewConfig" and ?O = "vset IsVoterOldConfig" and ?d' = "crt_Desc crt"
  have S: "majority (?N (reps d)) S" using assms(4) can_decide_vset [of d S] by (simp add: can_decide_def)
  have T: "majority (?N (reps ?d')) T" "?O (reps ?d') = {#} \<or> majority (?O (reps ?d')) T"
    using assms(5) can_decide_vset [of ?d' T] by (simp_all add: can_decide_def)
  note G = prepare_groups [OF assms(1-3)]
  have "\<exists>i. i \<in># ?N (reps d) \<and> (i \<in># ?N (reps ?d') \<or> i \<in># ?O (reps ?d')) \<and> i \<in> S \<and> i \<in> T"
  proof (cases "simple_step d ?d'")
    case True
    then show ?thesis using one_apart_intersect [of "?N (reps d)" "?N (reps ?d')" S T] S T by (auto simp: simple_step_def)
  next
    case False
    then have O: "?O (reps ?d') = ?N (reps d)" using G by (auto split: if_splits)
    moreover have "majority (?N (reps d)) T" using T(2) majority_not_empty [OF S] by (simp add: O)
    ultimately show ?thesis using majority_intersect [OF S] by auto
  qed
  then have "S \<inter> T \<inter> voter_ids d \<inter> voter_ids ?d' \<noteq> {}" using voters_in_ids by blast
  moreover have "v = w" if "CanMakeProgress (\<lambda>r. vote (rp_ReplicaID r) = Some v) (rd_InternalReplicas d)"
      "CanMakeProgress (\<lambda>r. vote (rp_ReplicaID r) = Some w) (rd_InternalReplicas d)"
    using rq.chosen_unique [of "rd_InternalReplicas d" vote v w] that by (simp add: can_decide_def)
  ultimately show ?thesis by blast
qed

lemma prepare_run:
  assumes "InAtomicReplicationChange (rd_InternalReplicas d) = Inr False" "chgs \<noteq> []" "IncrementGeneration d = d1"
    and "(useJoint chgs \<or> force) = j" "change_loop j chgs (d1, [], []) = Inr (d', a, r)" "Desc_Validate d' = Inr ()"
    and "confChangeImpl \<lparr>crt_Desc = d', crt_Added = a, crt_Removed = r\<rparr> [] = Inr cc"
  shows "prepareChangeReplicasTrigger d chgs force = Inr \<lparr>crt_Desc = d', crt_Added = a, crt_Removed = r\<rparr>"
  using assms by (simp add: prepareChangeReplicasTrigger_def leaveJoint_def Let_def)

abbreviation sample_replica :: "int \<Rightarrow> ReplicaType \<Rightarrow> ReplicaDescriptor" where
  "sample_replica i t \<equiv> \<lparr>rp_NodeID = i, rp_StoreID = i, rp_ReplicaID = i, rp_Type = t\<rparr>"

abbreviation sample_desc :: "ReplicaDescriptor list \<Rightarrow> RangeDescriptor" where
  "sample_desc rs \<equiv> \<lparr>rd_RangeID = 1, rd_StartKey = [], rd_EndKey = [255], rd_InternalReplicas = rs, rd_NextReplicaID = 9, rd_Generation = 0\<rparr>"

text \<open>Replacing the voter 3 by the learner 4 through a joint configuration: \<open>{1, 2}\<close> and \<open>{2, 3, 4}\<close> meet.\<close>

theorem reconfiguration_quorums_witness:
  "\<exists>crt. prepareChangeReplicasTrigger
      (sample_desc [sample_replica 1 VOTER_FULL, sample_replica 2 VOTER_FULL, sample_replica 3 VOTER_FULL, sample_replica 4 LEARNER])
      [\<lparr>ic_NodeID = 4, ic_StoreID = 4, ic_typ = PromoteLearner\<rparr>, \<lparr>ic_NodeID = 3, ic_StoreID = 3, ic_typ = DemoteVoterToLearner\<rparr>] False = Inr crt \<and>
    {1, 2} \<inter> {2, 3, 4} \<inter> voter_ids
      (sample_desc [sample_replica 1 VOTER_FULL, sample_replica 2 VOTER_FULL, sample_replica 3 VOTER_FULL, sample_replica 4 LEARNER]) \<inter>
      voter_ids (crt_Desc crt) \<noteq> {}"
proof -
  let ?d = "sample_desc [sample_replica 1 VOTER_FULL, sample_replica 2 VOTER_FULL, sample_replica 3 VOTER_FULL, sample_replica 4 LEARNER]"
  let ?c = "[\<lparr>ic_NodeID = 4, ic_StoreID = 4, ic_typ = PromoteLearner\<rparr>, \<lparr>ic_NodeID = 3, ic_StoreID = 3, ic_typ = DemoteVoterToLearner\<rparr>]"
  let ?rs = "[sample_replica 1 VOTER_FULL, sample_replica 2 VOTER_FULL, sample_replica 3 VOTER_DEMOTING_LEARNER, sample_replica 4 VOTER_INCOMING]"
  let ?crt = "\<lparr>crt_Desc = (sample_desc ?rs)\<lparr>rd_Generation := 1\<rparr>, crt_Added = [sample_replica 4 VOTER_INCOMING], crt_Removed = [sample_replica 3 VOTER_DEMOTING_LEARNER]\<rparr>"
  have gen: "IncrementGeneration ?d = ?d\<lparr>rd_Generation := 1\<rparr>" by (simp add: IncrementGeneration_def wrap64_id in64_def MinInt64_def MaxInt64_def)
  have "apply_change True (hd ?c) (?d\<lparr>rd_Generation := 1\<rparr>, [], []) =
      Inr ((sample_desc (take 3 (rd_InternalReplicas ?d) @ [sample_replica 4 VOTER_INCOMING]))\<lparr>rd_Generation := 1\<rparr>, [sample_replica 4 VOTER_INCOMING], [])"
    by (simp add: apply_change_def promote_change_def SetReplicaType_def Let_def)
  moreover have "apply_change True (?c ! 1) ((sample_desc (take 3 (rd_InternalReplicas ?d) @ [sample_replica 4 VOTER_INCOMING]))\<lparr>rd_Generation := 1\<rparr>, [sample_replica 4 VOTER_INCOMING], []) =
      Inr (crt_Desc ?crt, crt_Added ?crt, crt_Removed ?crt)"
    by (simp add: apply_change_def demote_change_def SetReplicaType_def GetReplicaDescriptor_def Let_def)
  ultimately have loop: "change_loop True ?c (?d\<lparr>rd_Generation := 1\<rparr>, [], []) = Inr (crt_Desc ?crt, crt_Added ?crt, crt_Removed ?crt)" by simp
  have valid: "Desc_Validate (crt_Desc ?crt) = Inr ()" by (simp add: Desc_Validate_iff replica_ok_def)
  have conf: "\<exists>cc. confChangeImpl ?crt [] = Inr cc" by (simp add: confChangeImpl_def entersJoint_def Let_def)
  have run: "prepareChangeReplicasTrigger ?d ?c False = Inr ?crt"
  proof -
    obtain cc where cc: "confChangeImpl ?crt [] = Inr cc" using conf by blast
    have j: "(useJoint ?c \<or> False) = True" by (simp add: useJoint_def)
    show ?thesis
      by (rule prepare_run [OF _ _ gen j loop [unfolded ChangeReplicasTrigger.select_convs] valid [unfolded ChangeReplicasTrigger.select_convs] cc]) simp_all
  qed
  have ok: "Desc_Validate ?d = Inr ()" "fresh_adds (rd_InternalReplicas ?d) ?c"
    by (simp_all add: Desc_Validate_iff replica_ok_def fresh_adds_def is_add_def)
  have live: "CanMakeProgress (\<lambda>r. rp_ReplicaID r \<in> {1, 2}) (rd_InternalReplicas ?d)"
      "CanMakeProgress (\<lambda>r. rp_ReplicaID r \<in> {2, 3, 4}) (rd_InternalReplicas (crt_Desc ?crt))"
    by code_simp+
  show ?thesis
    by (intro exI conjI, rule run, rule reconfiguration_quorums [OF run ok live, THEN conjunct1])
qed

section \<open>The descriptor after a change\<close>

text \<open>Changes touch only the replicas and the next replica identifier.\<close>

definition same_range :: "RangeDescriptor \<Rightarrow> RangeDescriptor \<Rightarrow> bool" where
  "same_range d d' \<longleftrightarrow> rd_RangeID d' = rd_RangeID d \<and> rd_StartKey d' = rd_StartKey d \<and> rd_EndKey d' = rd_EndKey d \<and> rd_Generation d' = rd_Generation d"

lemma same_range_trans: "same_range a b \<Longrightarrow> same_range b c \<Longrightarrow> same_range a c"
  by (simp add: same_range_def)

lemma same_range_ops:
  "same_range d (fst (SetReplicaType n s t d))" "same_range d (fst (Desc_AddReplica n s t d))" "same_range d (fst (Desc_RemoveReplica n s d))"
  by (auto simp: same_range_def SetReplicaType_def Desc_AddReplica_def Desc_RemoveReplica_def Let_def split: option.splits prod.splits)

lemma same_range_apply: "apply_change j c (d, a, r) = Inr (d', a', r') \<Longrightarrow> same_range d d'"
  using same_range_ops
  by (cases "ic_typ c")
    (auto simp: apply_change_def add_change_def promote_change_def remove_change_def demote_change_def Let_def
       split: prod.splits option.splits if_splits; metis fst_conv)+

lemma same_range_loop: "change_loop j cs (d, a, r) = Inr (d', a', r') \<Longrightarrow> same_range d d'"
proof (induction cs arbitrary: d a r)
  case (Cons c cs)
  from Cons.prems obtain st where st: "apply_change j c (d, a, r) = Inr st" "change_loop j cs st = Inr (d', a', r')"
    by (auto simp: res_simps)
  obtain d1 a1 r1 where "st = (d1, a1, r1)" by (cases st)
  then show ?case using same_range_trans [OF same_range_apply Cons.IH] st by blast
qed (simp add: same_range_def)

lemma same_range_leave: "leave_loop todo d j = (d', j') \<Longrightarrow> same_range d d'"
proof (induction todo arbitrary: d j)
  case (Cons x todo)
  then show ?case
    by (cases "rp_Type x") (auto intro: same_range_trans [OF same_range_ops(1)] same_range_trans [OF same_range_ops(3)])
qed (simp add: same_range_def)

lemma leave_loop_joint: "snd (leave_loop todo d j) \<longleftrightarrow> j \<or> list_ex joint_type todo"
  by (induction todo arbitrary: d j) (auto simp: joint_type_def split: ReplicaType.splits)

lemma settle_simple: "(\<forall>t. rp_Type r \<noteq> UNKNOWN_TYPE t) \<Longrightarrow> simple_types (settle r)"
  by (cases "rp_Type r") (simp_all add: settle_def)

lemma settled_simple:
  assumes "known_types d" "set d' = set (concat (map settle d))"
  shows "simple_types d'"
proof
  fix x assume "x \<in> set d'"
  then obtain r where r: "r \<in> set d" "x \<in> set (settle r)" using assms(2) by auto
  have "\<forall>t. rp_Type r \<noteq> UNKNOWN_TYPE t" using assms(1) r(1) by (auto simp: known_types_def list_all_iff)
  from settle_simple [OF this] r(2) show "rp_Type x = VOTER_FULL \<or> rp_Type x = LEARNER \<or> rp_Type x = NON_VOTER" by blast
qed

text \<open>C33. A prepared change yields a valid descriptor of the same range with the next generation. Leaving a joint
  configuration succeeds only from a joint one, and a change only from one that is not: incoming voters become full voters, outgoing ones disappear,
  demoted ones become learners or non-voters, everything else stays; the result is not joint any more and its
  Raft change is empty.\<close>

theorem prepared_change:
  assumes "prepareChangeReplicasTrigger d chgs force = Inr crt" "Desc_Validate d = Inr ()" "known_types (rd_InternalReplicas d)"
  shows "Desc_Validate (crt_Desc crt) = Inr () \<and> rd_Generation (crt_Desc crt) = wrap64 (rd_Generation d + 1) \<and>
    rd_RangeID (crt_Desc crt) = rd_RangeID d \<and> Desc_RSpan (crt_Desc crt) = Desc_RSpan d \<and>
    (if chgs = [] then InAtomicReplicationChange (rd_InternalReplicas d) = Inr True \<and>
       mset (rd_InternalReplicas (crt_Desc crt)) = mset (concat (map settle (rd_InternalReplicas d))) \<and>
       InAtomicReplicationChange (rd_InternalReplicas (crt_Desc crt)) = Inr False \<and>
       confChangeImpl crt ctx = Inr (ConfChangeV2 ConfChangeTransitionAuto [] ctx)
     else InAtomicReplicationChange (rd_InternalReplicas d) = Inr False)"
proof -
  let ?d1 = "IncrementGeneration d"
  have frame: "same_range ?d1 (crt_Desc crt)" and valid: "Desc_Validate (crt_Desc crt) = Inr ()"
    using assms(1) same_range_loop same_range_leave
    by (auto simp: prepareChangeReplicasTrigger_def Let_def res_simps split: if_splits prod.splits)
  have rest: "rd_Generation (crt_Desc crt) = wrap64 (rd_Generation d + 1)" "rd_RangeID (crt_Desc crt) = rd_RangeID d" "Desc_RSpan (crt_Desc crt) = Desc_RSpan d"
    using frame by (simp_all add: same_range_def IncrementGeneration_def Desc_RSpan_def)
  show ?thesis
  proof (cases "chgs = []")
    case True
    obtain d' j where l: "leave_loop (rd_InternalReplicas d) ?d1 False = (d', j)" by fastforce
    then have crt: "crt = \<lparr>crt_Desc = d', crt_Added = [], crt_Removed = []\<rparr>" and j: j
      using assms(1) True
      by (auto simp: prepareChangeReplicasTrigger_def leaveJoint_def Let_def IncrementGeneration_def res_simps split: if_splits)
    have "leave_inv [] (rd_InternalReplicas d) ?d1"
      using assms(2) by (simp add: leave_inv_def IncrementGeneration_def Desc_Validate_iff)
    from leave_loop_correct [OF this l] have m: "mset (rd_InternalReplicas d') = mset (concat (map settle (rd_InternalReplicas d)))"
      by (simp add: leave_inv_def)
    have simp: "simple_types (rd_InternalReplicas d')" by (rule settled_simple [OF assms(3) mset_eq_setD [OF m]])
    have "\<not> list_ex entersJoint (rd_InternalReplicas d')" using simp by (auto simp: list_ex_iff entersJoint_def)
    moreover have "InAtomicReplicationChange (rd_InternalReplicas d) = Inr True"
      using leave_loop_joint [of "rd_InternalReplicas d" ?d1 False] l j by (simp add: InAtomic_eq [OF assms(3)])
    ultimately show ?thesis
      using True m valid rest simp not_atomic_iff [of "rd_InternalReplicas d'"] by (simp add: crt confChangeImpl_def alwaysV2_def)
  next
    case False
    then have "InAtomicReplicationChange (rd_InternalReplicas d) = Inr False"
      using assms(1) by (auto simp: prepareChangeReplicasTrigger_def leaveJoint_def Let_def res_simps split: if_splits)
    then show ?thesis using False valid rest by simp
  qed
qed

theorem prepared_change_witness:
  "\<exists>crt. prepareChangeReplicasTrigger
      (sample_desc [sample_replica 1 VOTER_FULL, sample_replica 3 VOTER_DEMOTING_LEARNER, sample_replica 4 VOTER_INCOMING]) [] False = Inr crt \<and>
    InAtomicReplicationChange (rd_InternalReplicas (crt_Desc crt)) = Inr False"
proof -
  let ?d = "sample_desc [sample_replica 1 VOTER_FULL, sample_replica 3 VOTER_DEMOTING_LEARNER, sample_replica 4 VOTER_INCOMING]"
  let ?d' = "(sample_desc [sample_replica 1 VOTER_FULL, sample_replica 3 LEARNER, sample_replica 4 VOTER_FULL])\<lparr>rd_Generation := 1\<rparr>"
  have gen: "IncrementGeneration ?d = ?d\<lparr>rd_Generation := 1\<rparr>"
    by (simp add: IncrementGeneration_def in64_def MinInt64_def MaxInt64_def)
  have leave: "leave_loop (rd_InternalReplicas ?d) (?d\<lparr>rd_Generation := 1\<rparr>) False = (?d', True)"
    by (simp add: SetReplicaType_def Let_def)
  have valid: "Desc_Validate ?d' = Inr ()" "Desc_Validate ?d = Inr ()" by (simp_all add: Desc_Validate_iff replica_ok_def)
  have "confChangeImpl \<lparr>crt_Desc = ?d', crt_Added = [], crt_Removed = []\<rparr> [] = Inr (ConfChangeV2 ConfChangeTransitionAuto [] [])"
    by (simp add: confChangeImpl_def entersJoint_def alwaysV2_def)
  then have run: "prepareChangeReplicasTrigger ?d [] False = Inr \<lparr>crt_Desc = ?d', crt_Added = [], crt_Removed = []\<rparr>"
    using leave valid(1) by (simp add: prepareChangeReplicasTrigger_def leaveJoint_def gen Let_def)
  show ?thesis
    by (rule exI, rule conjI, rule run)
      (use prepared_change [OF run valid(2)] in \<open>simp add: known_types_def\<close>)
qed

end
