(* ===== verification/Closedts_Tracker.thy ===== *)
theory Closedts_Tracker
  imports Hlc_Timestamp
begin

text \<open>
  The tracker of the write timestamps of evaluating requests,
  \<open>pkg/kv/kvserver/closedts/tracker/lockfree_tracker.go\<close>, whose lower bound decides what a
  range may close. \<open>Track\<close> is lock-free: any number of calls run at once, and every atomic load,
  compare-and-swap, store and add is one step. \<open>Untrack\<close>, \<open>LowerBound\<close> and \<open>Count\<close> run
  under a lock that excludes every \<open>Track\<close>. The timestamps that callers track, with the bucket
  each token names, are a ghost component of the state (\<open>tracked\<close>).
\<close>

section \<open>The tracker\<close>

text \<open>The two elements of the array \<open>buckets\<close>; a token and the pointers \<open>b1\<close>, \<open>b2\<close> name one.\<close>

datatype bucket_id = B0 | B1

fun other :: "bucket_id \<Rightarrow> bucket_id" where
  "other B0 = B1"
| "other B1 = B0"

record bucket =
  bu_ts :: int
  bu_refcnt :: int
  bu_synthetic :: int

record lockfreeTracker =
  buckets :: "bucket_id \<Rightarrow> bucket"
  ptr1 :: bucket_id
  ptr2 :: bucket_id

definition NewLockfreeTracker :: lockfreeTracker where
  "NewLockfreeTracker = \<lparr>buckets = (\<lambda>_. \<lparr>bu_ts = 0, bu_refcnt = 0, bu_synthetic = 0\<rparr>), ptr1 = B0, ptr2 = B1\<rparr>"

definition bucket_timestamp :: "bucket \<Rightarrow> int \<times> bool" where
  "bucket_timestamp b = (bu_ts b, bu_ts b \<noteq> 0)"

definition isSynthetic :: "bucket \<Rightarrow> bool" where
  "isSynthetic b \<longleftrightarrow> bu_synthetic b \<noteq> 0"

definition upd_bucket :: "bucket_id \<Rightarrow> (bucket \<Rightarrow> bucket) \<Rightarrow> lockfreeTracker \<Rightarrow> lockfreeTracker" where
  "upd_bucket i f t = t\<lparr>buckets := (buckets t)(i := f (buckets t i))\<rparr>"

definition Untrack :: "lockfreeTracker \<Rightarrow> bucket_id \<Rightarrow> lockfreeTracker res" where
  "Untrack t b =
     (let t = upd_bucket b (\<lambda>bk. bk\<lparr>bu_refcnt := bu_refcnt bk - 1\<rparr>) t in
      if bu_refcnt (buckets t b) < 0 then Inl (Panic ''negative bucket refcount'')
      else if bu_refcnt (buckets t b) = 0 then
        (let t = upd_bucket b (\<lambda>bk. bk\<lparr>bu_ts := 0, bu_synthetic := 0\<rparr>) t in
         Inr (if b = ptr1 t then t\<lparr>ptr1 := ptr2 t, ptr2 := b\<rparr> else t))
      else Inr t)"

definition LowerBound :: "lockfreeTracker \<Rightarrow> Timestamp" where
  "LowerBound t =
     (case bucket_timestamp (buckets t (ptr1 t)) of (ts, initialized) \<Rightarrow>
      if \<not> initialized then \<lparr>WallTime = 0, Logical = 0, Synthetic = False\<rparr>
      else \<lparr>WallTime = ts, Logical = 0, Synthetic = isSynthetic (buckets t (ptr1 t))\<rparr>)"

definition Tracker_Count :: "lockfreeTracker \<Rightarrow> int" where
  "Tracker_Count t = bu_refcnt (buckets t (ptr1 t)) + bu_refcnt (buckets t (ptr2 t))"

section \<open>Track, one atomic operation at a time\<close>

text \<open>
  Where a call of \<open>Track\<close> is: before it reads the first bucket; in the loop of
  \<open>extendAndJoin\<close>, before the load and before the compare-and-swap of the value loaded; after the
  loop, with the last value loaded; before the add to the counter.
\<close>

datatype track_pc = Choose | Load bucket_id | Cas bucket_id int | Mark bucket_id int | Join bucket_id

definition choose_bucket :: "lockfreeTracker \<Rightarrow> int \<Rightarrow> bucket_id" where
  "choose_bucket t wts =
     (case bucket_timestamp (buckets t (ptr1 t)) of (t1, initialized) \<Rightarrow>
      if \<not> initialized \<or> wts \<le> t1 then ptr1 t else ptr2 t)"

text \<open>One step of \<open>Track\<close> of a timestamp: the new tracker, and the next position or the token.\<close>

fun track_step :: "lockfreeTracker \<Rightarrow> int \<Rightarrow> bool \<Rightarrow> track_pc \<Rightarrow> lockfreeTracker \<times> (track_pc + bucket_id)" where
  "track_step t wts synthetic Choose = (t, Inl (Load (choose_bucket t wts)))"
| "track_step t wts synthetic (Load b) =
     (let v = bu_ts (buckets t b) in
      if v \<noteq> 0 \<and> v \<le> wts then (t, Inl (Mark b v)) else (t, Inl (Cas b v)))"
| "track_step t wts synthetic (Cas b v) =
     (if bu_ts (buckets t b) = v then (upd_bucket b (\<lambda>bk. bk\<lparr>bu_ts := wts\<rparr>) t, Inl (Mark b v))
      else (t, Inl (Load b)))"
| "track_step t wts synthetic (Mark b v) =
     (if v = 0 \<and> synthetic then upd_bucket b (\<lambda>bk. bk\<lparr>bu_synthetic := 1\<rparr>) t else t, Inl (Join b))"
| "track_step t wts synthetic (Join b) =
     (upd_bucket b (\<lambda>bk. bk\<lparr>bu_refcnt := bu_refcnt bk + 1\<rparr>) t, Inr b)"

text \<open>Running one call alone, with a bound on the steps.\<close>

fun run_track :: "nat \<Rightarrow> lockfreeTracker \<Rightarrow> int \<Rightarrow> bool \<Rightarrow> track_pc \<Rightarrow> (lockfreeTracker \<times> bucket_id) option" where
  "run_track 0 t wts s pc = None"
| "run_track (Suc n) t wts s pc =
     (case track_step t wts s pc of
        (t', Inl pc') \<Rightarrow> run_track n t' wts s pc'
      | (t', Inr tok) \<Rightarrow> Some (t', tok))"

section \<open>Concurrent calls\<close>

record tracker_state =
  tr :: lockfreeTracker
  calls :: "(int \<times> bool \<times> track_pc) list"
  tracked :: "(bucket_id \<times> int) list"

definition drop_nth :: "nat \<Rightarrow> 'a list \<Rightarrow> 'a list" where
  "drop_nth i xs = take i xs @ drop (Suc i) xs"

text \<open>
  Timestamps are positive. \<open>untrack\<close> runs alone and is given a token that is still tracked. Fewer
  than \<open>2^31\<close> timestamps are tracked at any time, so that the 32-bit counters do not wrap.
\<close>

inductive tracker_step :: "tracker_state \<Rightarrow> tracker_state \<Rightarrow> bool" where
  begin_track: "0 < wts \<Longrightarrow> tracker_step g (g\<lparr>calls := (wts, synth, Choose) # calls g\<rparr>)"
| step_track: "i < length (calls g) \<Longrightarrow> calls g ! i = (wts, synth, pc) \<Longrightarrow>
    track_step (tr g) wts synth pc = (t', Inl pc') \<Longrightarrow>
    tracker_step g (g\<lparr>tr := t', calls := (calls g)[i := (wts, synth, pc')]\<rparr>)"
| end_track: "i < length (calls g) \<Longrightarrow> calls g ! i = (wts, synth, pc) \<Longrightarrow>
    track_step (tr g) wts synth pc = (t', Inr b) \<Longrightarrow> int (length (tracked g)) < MaxInt32 \<Longrightarrow>
    tracker_step g (g\<lparr>tr := t', calls := drop_nth i (calls g), tracked := (b, wts) # tracked g\<rparr>)"
| untrack: "calls g = [] \<Longrightarrow> i < length (tracked g) \<Longrightarrow> tracked g ! i = (b, wts) \<Longrightarrow>
    Untrack (tr g) b = Inr t' \<Longrightarrow>
    tracker_step g (g\<lparr>tr := t', tracked := drop_nth i (tracked g)\<rparr>)"

inductive tracker_reach :: "tracker_state \<Rightarrow> bool" where
  init: "tracker_reach \<lparr>tr = NewLockfreeTracker, calls = [], tracked = []\<rparr>"
| step: "tracker_reach g \<Longrightarrow> tracker_step g g' \<Longrightarrow> tracker_reach g'"

section \<open>Invariant\<close>

text \<open>Whether a call has joined or is bound to join a bucket whose timestamp it has lowered.\<close>

fun committed :: "bucket_id \<Rightarrow> track_pc \<Rightarrow> bool" where
  "committed b (Mark c v) \<longleftrightarrow> b = c"
| "committed b (Join c) \<longleftrightarrow> b = c"
| "committed b _ \<longleftrightarrow> False"

fun target :: "track_pc \<Rightarrow> bucket_id option" where
  "target Choose = None"
| "target (Load b) = Some b"
| "target (Cas b v) = Some b"
| "target (Mark b v) = Some b"
| "target (Join b) = Some b"

definition tokens :: "tracker_state \<Rightarrow> bucket_id \<Rightarrow> nat" where
  "tokens g b = length (filter (\<lambda>(c, w). c = b) (tracked g))"

definition ts_of :: "tracker_state \<Rightarrow> bucket_id \<Rightarrow> int" where
  "ts_of g b = bu_ts (buckets (tr g) b)"

definition call_inv :: "tracker_state \<Rightarrow> int \<times> bool \<times> track_pc \<Rightarrow> bool" where
  "call_inv g c = (case c of (w, s, pc) \<Rightarrow> 0 < w \<and>
     (\<forall>b. committed b pc \<longrightarrow> 0 < ts_of g b \<and> ts_of g b \<le> w) \<and>
     (\<forall>b v. pc = Cas b v \<longrightarrow> v = 0 \<or> w < v) \<and>
     (target pc = Some (ptr2 (tr g)) \<longrightarrow> 0 < ts_of g (ptr1 (tr g)) \<and> ts_of g (ptr1 (tr g)) < w))"

definition tracker_inv :: "tracker_state \<Rightarrow> bool" where
  "tracker_inv g \<longleftrightarrow>
     ptr2 (tr g) = other (ptr1 (tr g)) \<and>
     (\<forall>b. bu_refcnt (buckets (tr g) b) = int (tokens g b)) \<and>
     (\<forall>b. 0 \<le> ts_of g b) \<and>
     (\<forall>(b, w) \<in> set (tracked g). 0 < ts_of g b \<and> ts_of g b \<le> w) \<and>
     (\<forall>c \<in> set (calls g). call_inv g c) \<and>
     (\<forall>b. 0 < ts_of g b \<longrightarrow> 0 < tokens g b \<or> (\<exists>(w, s, pc) \<in> set (calls g). committed b pc)) \<and>
     (0 < ts_of g (ptr2 (tr g)) \<longrightarrow> 0 < ts_of g (ptr1 (tr g)) \<and> ts_of g (ptr1 (tr g)) < ts_of g (ptr2 (tr g)))"

section \<open>Lists with one element replaced or removed\<close>

lemma update_keeps: "c \<in> set xs \<Longrightarrow> i < length xs \<Longrightarrow> c = xs ! i \<or> c \<in> set (xs[i := y])"
  by (metis in_set_conv_nth length_list_update nth_list_update_neq)

lemma drop_nth_split: "i < length xs \<Longrightarrow> xs = take i xs @ xs ! i # drop (Suc i) xs"
  by (rule id_take_nth_drop)

lemma set_drop_nth: "set (drop_nth i xs) \<subseteq> set xs"
  using set_take_subset set_drop_subset by (fastforce simp: drop_nth_def)

lemma drop_nth_keeps: "c \<in> set xs \<Longrightarrow> i < length xs \<Longrightarrow> c = xs ! i \<or> c \<in> set (drop_nth i xs)"
proof -
  assume c: "c \<in> set xs" and i: "i < length xs"
  then have "c \<in> set (take i xs @ xs ! i # drop (Suc i) xs)" by (metis drop_nth_split)
  then show ?thesis by (auto simp: drop_nth_def)
qed

lemma length_filter_drop_nth:
  "i < length xs \<Longrightarrow> length (filter P xs) = length (filter P (drop_nth i xs)) + (if P (xs ! i) then 1 else 0)"
  by (subst drop_nth_split [of i xs]) (auto simp: drop_nth_def)

lemma other_neq [simp]: "other b \<noteq> b" "b \<noteq> other b" "other (other b) = b"
  by (cases b; simp)+

lemma other_cases: "b = c \<or> b = other c"
  by (cases b; cases c) auto

section \<open>Every step keeps the invariant\<close>

lemma buckets_upd [simp]:
  "buckets (upd_bucket b f t) c = (if c = b then f (buckets t b) else buckets t c)"
  "ptr1 (upd_bucket b f t) = ptr1 t" "ptr2 (upd_bucket b f t) = ptr2 t"
  by (simp_all add: upd_bucket_def)

lemma tracker_invI:
  assumes "ptr2 (tr g) = other (ptr1 (tr g))" "\<And>b. bu_refcnt (buckets (tr g) b) = int (tokens g b)" "\<And>b. 0 \<le> ts_of g b"
    "\<And>b w. (b, w) \<in> set (tracked g) \<Longrightarrow> 0 < ts_of g b \<and> ts_of g b \<le> w" "\<And>c. c \<in> set (calls g) \<Longrightarrow> call_inv g c"
    "\<And>b. 0 < ts_of g b \<Longrightarrow> 0 < tokens g b \<or> (\<exists>w s pc. (w, s, pc) \<in> set (calls g) \<and> committed b pc)"
    "0 < ts_of g (ptr2 (tr g)) \<Longrightarrow> 0 < ts_of g (ptr1 (tr g)) \<and> ts_of g (ptr1 (tr g)) < ts_of g (ptr2 (tr g))"
  shows "tracker_inv g"
  unfolding tracker_inv_def using assms by (intro conjI allI ballI impI) (simp_all split: prod.splits, blast+)

lemma tracker_invD:
  assumes "tracker_inv g"
  shows "ptr2 (tr g) = other (ptr1 (tr g))" "bu_refcnt (buckets (tr g) b) = int (tokens g b)" "0 \<le> ts_of g b"
    "(b, w) \<in> set (tracked g) \<Longrightarrow> 0 < ts_of g b \<and> ts_of g b \<le> w" "c \<in> set (calls g) \<Longrightarrow> call_inv g c"
    "0 < ts_of g b \<Longrightarrow> 0 < tokens g b \<or> (\<exists>w s pc. (w, s, pc) \<in> set (calls g) \<and> committed b pc)"
    "0 < ts_of g (ptr2 (tr g)) \<Longrightarrow> 0 < ts_of g (ptr1 (tr g)) \<and> ts_of g (ptr1 (tr g)) < ts_of g (ptr2 (tr g))"
  using assms unfolding tracker_inv_def by (simp, simp, simp, blast, blast, blast, blast)

text \<open>A step that leaves the timestamps of the buckets alone.\<close>

lemma quiet_step_inv:
  assumes inv: "tracker_inv g" and i: "i < length (calls g)" "calls g ! i = (w, s, pc)"
    and t': "\<And>b. bu_ts (buckets t' b) = ts_of g b" "\<And>b. bu_refcnt (buckets t' b) = bu_refcnt (buckets (tr g) b)"
      "ptr1 t' = ptr1 (tr g)" "ptr2 t' = ptr2 (tr g)"
    and c: "call_inv g (w, s, pc')" "\<And>b. committed b pc \<Longrightarrow> committed b pc'"
  shows "tracker_inv (g\<lparr>tr := t', calls := (calls g)[i := (w, s, pc')]\<rparr>)" (is "tracker_inv ?g")
proof -
  have ts: "ts_of ?g = ts_of g" and tk: "tokens ?g = tokens g" using t'(1) by (simp_all add: ts_of_def tokens_def fun_eq_iff)
  have ci: "call_inv ?g = call_inv g" using t'(3,4) ts by (simp add: call_inv_def fun_eq_iff)
  have new: "(w, s, pc') \<in> set (calls ?g)" using i(1) by (simp add: set_update_memI)
  note D = tracker_invD [OF inv]
  show ?thesis
  proof (rule tracker_invI, unfold ts tk ci)
    show "ptr2 (tr ?g) = other (ptr1 (tr ?g))" using D(1) t'(3,4) by simp
    show "bu_refcnt (buckets (tr ?g) b) = int (tokens g b)" for b using D(2) t'(2) by simp
    show "0 \<le> ts_of g b" for b by (rule D(3))
    show "0 < ts_of g b \<and> ts_of g b \<le> v" if "(b, v) \<in> set (tracked ?g)" for b v using D(4) that by simp
    show "call_inv g c" if "c \<in> set (calls ?g)" for c
    proof -
      have "c \<in> insert (w, s, pc') (set (calls g))" using that set_update_subset_insert by force
      then show ?thesis using D(5) c(1) by blast
    qed
    show "0 < tokens g b \<or> (\<exists>w s pc. (w, s, pc) \<in> set (calls ?g) \<and> committed b pc)" if "0 < ts_of g b" for b
    proof -
      have "\<exists>w s pc. (w, s, pc) \<in> set (calls ?g) \<and> committed b pc" if "(v, r, p) \<in> set (calls g)" "committed b p" for v r p
      proof -
        have "(v, r, p) = (w, s, pc) \<or> (v, r, p) \<in> set (calls ?g)" using update_keeps [OF that(1) i(1)] i(2) by simp
        then show ?thesis using that(2) c(2) new by blast
      qed
      then show ?thesis using D(6) [OF that] by blast
    qed
    show "0 < ts_of g (ptr1 (tr ?g)) \<and> ts_of g (ptr1 (tr ?g)) < ts_of g (ptr2 (tr ?g))" if "0 < ts_of g (ptr2 (tr ?g))"
      using D(7) that t'(3,4) by simp
  qed
qed

text \<open>A compare-and-swap that succeeds lowers the timestamp of a bucket, or initialises it.\<close>

lemma cas_step_inv:
  assumes inv: "tracker_inv g" and i: "i < length (calls g)" "calls g ! i = (w, s, Cas b v)" and v: "ts_of g b = v"
  shows "tracker_inv (g\<lparr>tr := upd_bucket b (\<lambda>bk. bk\<lparr>bu_ts := w\<rparr>) (tr g), calls := (calls g)[i := (w, s, Mark b v)]\<rparr>)"
    (is "tracker_inv ?g")
proof -
  note D = tracker_invD [OF inv]
  have mine: "call_inv g (w, s, Cas b v)" using D(5) i by (metis nth_mem)
  then have w: "0 < w" "v = 0 \<or> w < v" "b = ptr2 (tr g) \<Longrightarrow> 0 < ts_of g (ptr1 (tr g)) \<and> ts_of g (ptr1 (tr g)) < w"
    by (auto simp: call_inv_def)
  have ts: "ts_of ?g c = (if c = b then w else ts_of g c)" for c by (simp add: ts_of_def)
  have tk: "tokens ?g = tokens g" by (simp add: tokens_def fun_eq_iff)
  have low: "0 < ts_of ?g c \<and> ts_of ?g c \<le> ts_of g c" if "0 < ts_of g c" for c using that w(1,2) v by (auto simp: ts)
  have new: "(w, s, Mark b v) \<in> set (calls ?g)" using i(1) by (simp add: set_update_memI)
  show ?thesis
  proof (rule tracker_invI)
    show "ptr2 (tr ?g) = other (ptr1 (tr ?g))" using D(1) by simp
    show "bu_refcnt (buckets (tr ?g) c) = int (tokens ?g c)" for c unfolding tk using D(2) by simp
    show "0 \<le> ts_of ?g c" for c using D(3) w(1) by (simp add: ts)
    show "0 < ts_of ?g c \<and> ts_of ?g c \<le> x" if "(c, x) \<in> set (tracked ?g)" for c x
      using D(4) [of c x] low [of c] that by auto
    show "call_inv ?g c" if "c \<in> set (calls ?g)" for c
    proof -
      have "c = (w, s, Mark b v) \<or> c \<in> set (calls g)" using that set_update_subset_insert by force
      then show ?thesis
      proof
        assume c: "c = (w, s, Mark b v)"
        have "ptr1 (tr g) \<noteq> ptr2 (tr g)" using D(1) by simp
        then show ?thesis using w by (auto simp: c call_inv_def ts)
      next
        assume "c \<in> set (calls g)"
        then have old: "call_inv g c" by (rule D(5))
        obtain x r pc where c: "c = (x, r, pc)" by (cases c)
        have "0 < ts_of ?g d \<and> ts_of ?g d \<le> x" if "committed d pc" for d
          using old that low [of d] unfolding c call_inv_def by force
        moreover have "0 < ts_of ?g (ptr1 (tr g)) \<and> ts_of ?g (ptr1 (tr g)) < x" if "target pc = Some (ptr2 (tr g))"
          using old that low [of "ptr1 (tr g)"] unfolding c call_inv_def by force
        ultimately show ?thesis using old unfolding c call_inv_def by simp
      qed
    qed
    show "0 < tokens ?g c \<or> (\<exists>x r pc. (x, r, pc) \<in> set (calls ?g) \<and> committed c pc)" if "0 < ts_of ?g c" for c
    proof (cases "c = b")
      case True
      then show ?thesis using new by (metis committed.simps(1))
    next
      case False
      then have "0 < tokens g c \<or> (\<exists>x r pc. (x, r, pc) \<in> set (calls g) \<and> committed c pc)" using D(6) that by (simp add: ts)
      moreover have "(x, r, pc) \<in> set (calls ?g)" if "(x, r, pc) \<in> set (calls g)" "committed c pc" for x r pc
        using update_keeps [OF that(1) i(1), of "(w, s, Mark b v)"] i(2) that(2) by auto
      ultimately show ?thesis unfolding tk by blast
    qed
    show "0 < ts_of ?g (ptr1 (tr ?g)) \<and> ts_of ?g (ptr1 (tr ?g)) < ts_of ?g (ptr2 (tr ?g))" if "0 < ts_of ?g (ptr2 (tr ?g))"
      using that D(1,7) w v other_cases [of b "ptr1 (tr g)"] by (auto simp: ts)
  qed
qed

text \<open>The add to the counter makes the call a tracked timestamp.\<close>

lemma join_step_inv:
  assumes inv: "tracker_inv g" and i: "i < length (calls g)" "calls g ! i = (w, s, Join b)"
  shows "tracker_inv (g\<lparr>tr := upd_bucket b (\<lambda>bk. bk\<lparr>bu_refcnt := bu_refcnt bk + 1\<rparr>) (tr g), calls := drop_nth i (calls g),
    tracked := (b, w) # tracked g\<rparr>)" (is "tracker_inv ?g")
proof -
  note D = tracker_invD [OF inv]
  have mine: "call_inv g (w, s, Join b)" using D(5) i by (metis nth_mem)
  have ts: "ts_of ?g = ts_of g" by (simp add: ts_of_def fun_eq_iff)
  have tk: "tokens ?g c = tokens g c + (if c = b then 1 else 0)" for c by (simp add: tokens_def)
  have ci: "call_inv ?g = call_inv g" by (simp add: call_inv_def fun_eq_iff ts)
  show ?thesis
  proof (rule tracker_invI, unfold ts ci)
    show "ptr2 (tr ?g) = other (ptr1 (tr ?g))" using D(1) by simp
    show "bu_refcnt (buckets (tr ?g) c) = int (tokens ?g c)" for c unfolding tk using D(2) by simp
    show "0 \<le> ts_of g c" for c by (rule D(3))
    show "0 < ts_of g c \<and> ts_of g c \<le> x" if "(c, x) \<in> set (tracked ?g)" for c x
      using D(4) [of c x] mine that by (auto simp: call_inv_def)
    show "call_inv g c" if "c \<in> set (calls ?g)" for c using D(5) that set_drop_nth by fastforce
    show "0 < tokens ?g c \<or> (\<exists>x r pc. (x, r, pc) \<in> set (calls ?g) \<and> committed c pc)" if "0 < ts_of g c" for c
    proof (cases "c = b")
      case False
      have "(x, r, pc) \<in> set (calls ?g)" if "(x, r, pc) \<in> set (calls g)" "committed c pc" for x r pc
        using drop_nth_keeps [OF that(1) i(1)] i(2) that(2) False by auto
      then have "0 < tokens g c \<or> (\<exists>x r pc. (x, r, pc) \<in> set (calls ?g) \<and> committed c pc)" using D(6) [OF that] by blast
      then show ?thesis unfolding tk by auto
    qed (simp add: tk)
    show "0 < ts_of g (ptr1 (tr ?g)) \<and> ts_of g (ptr1 (tr ?g)) < ts_of g (ptr2 (tr ?g))" if "0 < ts_of g (ptr2 (tr ?g))"
      using D(7) that by simp
  qed
qed

text \<open>Untracking never finds a negative counter; an emptied bucket is reset and becomes the second one.\<close>

lemma untrack_inv:
  assumes inv: "tracker_inv g" and idle: "calls g = []" and i: "i < length (tracked g)" "tracked g ! i = (b, w)"
  shows "\<exists>t'. Untrack (tr g) b = Inr t' \<and> tracker_inv (g\<lparr>tr := t', tracked := drop_nth i (tracked g)\<rparr>)"
proof -
  note D = tracker_invD [OF inv]
  let ?rest = "drop_nth i (tracked g)"
  define n where "n = length (filter (\<lambda>(c, w). c = b) ?rest)"
  have tb: "tokens g b = Suc n" using length_filter_drop_nth [OF i(1), of "\<lambda>(c, w). c = b"] i(2) by (simp add: tokens_def n_def)
  have tc: "tokens g c = length (filter (\<lambda>(d, w). d = c) ?rest)" if "c \<noteq> b" for c
    using length_filter_drop_nth [OF i(1), of "\<lambda>(d, w). d = c"] i(2) that by (simp add: tokens_def)
  define t1 where "t1 = upd_bucket b (\<lambda>bk. bk\<lparr>bu_refcnt := bu_refcnt bk - 1\<rparr>) (tr g)"
  define t2 where "t2 = upd_bucket b (\<lambda>bk. bk\<lparr>bu_ts := 0, bu_synthetic := 0\<rparr>) t1"
  define t' where "t' = (if n = 0 then (if b = ptr1 (tr g) then t2\<lparr>ptr1 := ptr2 (tr g), ptr2 := b\<rparr> else t2) else t1)"
  have rc: "bu_refcnt (buckets t1 b) = int n" using D(2) [of b] tb by (simp add: t1_def)
  have run: "Untrack (tr g) b = Inr t'"
    unfolding Untrack_def Let_def t1_def [symmetric] t2_def [symmetric] rc t'_def by (simp add: t2_def t1_def)
  let ?g = "g\<lparr>tr := t', tracked := ?rest\<rparr>"
  have ts: "ts_of ?g c = (if c = b \<and> n = 0 then 0 else ts_of g c)" for c by (simp add: ts_of_def t'_def t2_def t1_def)
  have tk: "tokens ?g c = (if c = b then n else tokens g c)" for c using tc by (simp add: tokens_def n_def)
  have gone: "(b, x) \<notin> set ?rest" if "n = 0" for x using that by (auto simp: n_def filter_empty_conv)
  have "tracker_inv ?g"
  proof (rule tracker_invI)
    show "ptr2 (tr ?g) = other (ptr1 (tr ?g))" using D(1) by (simp add: t'_def t2_def t1_def)
    show "bu_refcnt (buckets (tr ?g) c) = int (tokens ?g c)" for c
      unfolding tk using D(2) [of c] rc by (auto simp: t'_def t2_def t1_def)
    show "0 \<le> ts_of ?g c" for c using D(3) by (simp add: ts)
    show "0 < ts_of ?g c \<and> ts_of ?g c \<le> x" if "(c, x) \<in> set (tracked ?g)" for c x
    proof -
      have "(c, x) \<in> set (tracked g)" using that set_drop_nth by fastforce
      moreover have "\<not> (c = b \<and> n = 0)" using gone that by auto
      ultimately show ?thesis using D(4) by (simp add: ts)
    qed
    show "call_inv ?g c" if "c \<in> set (calls ?g)" for c using that idle by simp
    show "0 < tokens ?g c \<or> (\<exists>x r pc. (x, r, pc) \<in> set (calls ?g) \<and> committed c pc)" if "0 < ts_of ?g c" for c
      using that D(6) [of c] idle by (auto simp: ts tk split: if_splits)
    show "0 < ts_of ?g (ptr1 (tr ?g)) \<and> ts_of ?g (ptr1 (tr ?g)) < ts_of ?g (ptr2 (tr ?g))" if "0 < ts_of ?g (ptr2 (tr ?g))"
    proof (cases "n = 0")
      case False
      then have "ptr1 t' = ptr1 (tr g)" "ptr2 t' = ptr2 (tr g)" by (simp_all add: t'_def t1_def)
      then show ?thesis using that D(7) False by (simp add: ts)
    next
      case True
      have "ptr2 t' = b" using True D(1) other_cases [of b "ptr1 (tr g)"] by (auto simp: t'_def t2_def t1_def)
      then show ?thesis using that True by (simp add: ts)
    qed
  qed
  then show ?thesis using run by blast
qed

lemma track_step_inv:
  assumes inv: "tracker_inv g" and i: "i < length (calls g)" "calls g ! i = (w, s, pc)"
    and st: "track_step (tr g) w s pc = (t', Inl pc')"
  shows "tracker_inv (g\<lparr>tr := t', calls := (calls g)[i := (w, s, pc')]\<rparr>)"
proof -
  note D = tracker_invD [OF inv]
  have mine: "call_inv g (w, s, pc)" using D(5) i by (metis nth_mem)
  then have w: "0 < w" by (simp add: call_inv_def)
  note quiet = quiet_step_inv [OF inv i, of t' pc']
  show ?thesis
  proof (cases pc)
    case Choose
    then have t': "t' = tr g" "pc' = Load (choose_bucket (tr g) w)" using st by auto
    have "call_inv g (w, s, pc')"
      using D(1,3) w order_le_imp_less_or_eq [OF D(3) [of "ptr1 (tr g)"]]
      by (auto simp: call_inv_def t' choose_bucket_def bucket_timestamp_def ts_of_def)
    then show ?thesis by (intro quiet) (simp_all add: t' Choose ts_of_def)
  next
    case (Load b)
    have "call_inv g (w, s, pc')" "t' = tr g"
      using mine st Load D(3) [of b] order_le_imp_less_or_eq [OF D(3) [of b]]
      by (auto simp: call_inv_def Let_def ts_of_def split: if_splits)
    then show ?thesis by (intro quiet) (simp_all add: Load ts_of_def)
  next
    case (Cas b v)
    show ?thesis
    proof (cases "bu_ts (buckets (tr g) b) = v")
      case True
      then show ?thesis using cas_step_inv [OF inv i(1), of w s b v] i(2) st Cas by (auto simp: ts_of_def)
    next
      case False
      have "call_inv g (w, s, pc')" "t' = tr g" using mine st Cas False by (auto simp: call_inv_def)
      then show ?thesis by (intro quiet) (simp_all add: Cas ts_of_def)
    qed
  next
    case (Mark b v)
    have "call_inv g (w, s, pc')" "pc' = Join b" using mine st Mark by (auto simp: call_inv_def)
    then show ?thesis using st Mark by (intro quiet) (auto simp: ts_of_def)
  next
    case (Join b)
    then show ?thesis using st by simp
  qed
qed

lemma tracker_step_inv: "tracker_step g g' \<Longrightarrow> tracker_inv g \<Longrightarrow> tracker_inv g'"
proof (induction rule: tracker_step.induct)
  case (begin_track wts g synth)
  then show ?case unfolding tracker_inv_def call_inv_def ts_of_def tokens_def by auto
next
  case (step_track i g wts synth pc t' pc')
  then show ?case using track_step_inv by blast
next
  case (end_track i g wts synth pc t' b)
  then have pc: "pc = Join b" "t' = upd_bucket b (\<lambda>bk. bk\<lparr>bu_refcnt := bu_refcnt bk + 1\<rparr>) (tr g)"
    by (cases pc; auto simp: Let_def split: if_splits)+
  then show ?case using join_step_inv end_track by blast
next
  case (untrack g i b wts t')
  then show ?case using untrack_inv by fastforce
qed

lemma tracker_reach_inv: "tracker_reach g \<Longrightarrow> tracker_inv g"
proof (induction rule: tracker_reach.induct)
  case init
  show ?case by (simp add: tracker_inv_def NewLockfreeTracker_def ts_of_def tokens_def)
qed (rule tracker_step_inv)

lemma tokens_total:
  "length xs = length (filter (\<lambda>(c, w). c = b) xs) + length (filter (\<lambda>(c, w). c = other b) xs)"
proof (induction xs)
  case (Cons x xs)
  then show ?case using other_cases [of "fst x" b] by (cases x) auto
qed simp

section \<open>Properties\<close>

text \<open>
  C13. However calls of \<open>Track\<close> interleave, whenever none is under way: the lower bound is below
  every tracked timestamp and is not empty when there is one, it is empty when there is none, the
  count is exact, and a token that is still tracked can be untracked without a negative counter. So
  no range closes a timestamp at or above that of an evaluating request.
\<close>

theorem tracker_lower_bound:
  assumes "tracker_reach g" and "calls g = []"
  shows "(\<forall>(b, w) \<in> set (tracked g). 0 < WallTime (LowerBound (tr g)) \<and> WallTime (LowerBound (tr g)) \<le> w) \<and>
    (tracked g = [] \<longrightarrow> LowerBound (tr g) = \<lparr>WallTime = 0, Logical = 0, Synthetic = False\<rparr>) \<and>
    Logical (LowerBound (tr g)) = 0 \<and> Tracker_Count (tr g) = int (length (tracked g)) \<and>
    (\<forall>i < length (tracked g). is_ok (Untrack (tr g) (fst (tracked g ! i))))"
proof -
  have inv: "tracker_inv g" by (rule tracker_reach_inv [OF assms(1)])
  note D = tracker_invD [OF inv]
  let ?p = "ptr1 (tr g)"
  have wall: "WallTime (LowerBound (tr g)) = ts_of g ?p" "Logical (LowerBound (tr g)) = 0"
    by (simp_all add: LowerBound_def bucket_timestamp_def ts_of_def)
  have low: "0 < ts_of g ?p \<and> ts_of g ?p \<le> w" if "(b, w) \<in> set (tracked g)" for b w
    using D(4) [OF that] D(1,7) other_cases [of b ?p] by auto
  have count: "Tracker_Count (tr g) = int (length (tracked g))"
  proof -
    have "length (tracked g) = tokens g ?p + tokens g (other ?p)"
      unfolding tokens_def by (rule tokens_total)
    then show ?thesis using D(1,2) by (simp add: Tracker_Count_def)
  qed
  have "ts_of g ?p = 0" if "tracked g = []" using D(3) [of ?p] D(6) [of ?p] assms(2) that by (fastforce simp: tokens_def)
  then have "LowerBound (tr g) = \<lparr>WallTime = 0, Logical = 0, Synthetic = False\<rparr>" if "tracked g = []"
    using that by (simp add: LowerBound_def bucket_timestamp_def ts_of_def)
  moreover have "is_ok (Untrack (tr g) (fst (tracked g ! i)))" if "i < length (tracked g)" for i
    using untrack_inv [OF inv assms(2) that] by (cases "tracked g ! i") (auto simp: is_ok_iff)
  ultimately show ?thesis using low count wall by auto
qed

theorem tracker_lower_bound_witness:
  "\<exists>g. tracker_reach g \<and> tracked g = [(B0, 7)] \<and> WallTime (LowerBound (tr g)) \<le> 7 \<and> Tracker_Count (tr g) = 1"
proof -
  let ?bk = "\<lambda>ts n. \<lparr>bu_ts = ts, bu_refcnt = n, bu_synthetic = 0\<rparr>"
  let ?t = "\<lambda>ts n. NewLockfreeTracker\<lparr>buckets := (buckets NewLockfreeTracker)(B0 := ?bk ts n)\<rparr>"
  let ?g = "\<lambda>t pc. \<lparr>tr = t, calls = [(7, False, pc)], tracked = []\<rparr>"
  note simps = NewLockfreeTracker_def choose_bucket_def bucket_timestamp_def upd_bucket_def drop_nth_def fun_upd_idem MaxInt32_def
  have t0: "NewLockfreeTracker = ?t 0 0" by (simp add: NewLockfreeTracker_def fun_upd_idem)
  have "tracker_step \<lparr>tr = ?t 0 0, calls = [], tracked = []\<rparr> (?g (?t 0 0) Choose)"
    using begin_track [of 7 "\<lparr>tr = ?t 0 0, calls = [], tracked = []\<rparr>" False] by simp
  moreover have "tracker_step (?g (?t 0 0) Choose) (?g (?t 0 0) (Load B0))"
    using step_track [of 0 "?g (?t 0 0) Choose" 7 False Choose "?t 0 0" "Load B0"] by (simp add: simps)
  moreover have "tracker_step (?g (?t 0 0) (Load B0)) (?g (?t 0 0) (Cas B0 0))"
    using step_track [of 0 "?g (?t 0 0) (Load B0)" 7 False "Load B0" "?t 0 0" "Cas B0 0"] by (simp add: simps)
  moreover have "tracker_step (?g (?t 0 0) (Cas B0 0)) (?g (?t 7 0) (Mark B0 0))"
    using step_track [of 0 "?g (?t 0 0) (Cas B0 0)" 7 False "Cas B0 0" "?t 7 0" "Mark B0 0"] by (simp add: simps)
  moreover have "tracker_step (?g (?t 7 0) (Mark B0 0)) (?g (?t 7 0) (Join B0))"
    using step_track [of 0 "?g (?t 7 0) (Mark B0 0)" 7 False "Mark B0 0" "?t 7 0" "Join B0"] by (simp add: simps)
  moreover have "tracker_step (?g (?t 7 0) (Join B0)) \<lparr>tr = ?t 7 1, calls = [], tracked = [(B0, 7)]\<rparr>"
    using end_track [of 0 "?g (?t 7 0) (Join B0)" 7 False "Join B0" "?t 7 1" B0] by (simp add: simps)
  moreover have "tracker_reach \<lparr>tr = ?t 0 0, calls = [], tracked = []\<rparr>" using tracker_reach.init unfolding t0 [symmetric] .
  ultimately have r: "tracker_reach \<lparr>tr = ?t 7 1, calls = [], tracked = [(B0, 7)]\<rparr>" by (meson tracker_reach.step)
  from tracker_lower_bound [OF r] r show ?thesis by (intro exI [of _ "\<lparr>tr = ?t 7 1, calls = [], tracked = [(B0, 7)]\<rparr>"]) simp
qed

text \<open>
  C31. \<open>Track\<close> is lock-free: whatever the state the other calls left the tracker in, a call that
  runs alone from any point returns within five atomic operations, and the bucket it joined has a
  timestamp that is not above its own; a call repeats its loop only when another one changed the
  bucket in between.
\<close>

theorem track_lock_free:
  "(\<exists>t' tok. run_track 5 t wts synth pc = Some (t', tok)) \<and>
   (run_track 5 t wts synth Choose = Some (t', tok) \<longrightarrow> bu_ts (buckets t' tok) \<le> wts) \<and>
   (track_step t wts synth (Cas b v) = (t1, Inl (Load b)) \<longrightarrow> bu_ts (buckets t b) \<noteq> v)"
proof (intro conjI)
  have five: "(5 :: nat) = Suc (Suc (Suc (Suc (Suc 0))))" by simp
  show "\<exists>t' tok. run_track 5 t wts synth pc = Some (t', tok)"
    unfolding five by (cases pc) (auto simp: Let_def)
  show "run_track 5 t wts synth Choose = Some (t', tok) \<longrightarrow> bu_ts (buckets t' tok) \<le> wts"
    unfolding five by (auto simp: Let_def split: if_splits)
  show "track_step t wts synth (Cas b v) = (t1, Inl (Load b)) \<longrightarrow> bu_ts (buckets t b) \<noteq> v" by auto
qed

theorem track_lock_free_witness:
  "\<exists>t' tok. run_track 5 NewLockfreeTracker 7 True Choose = Some (t', tok) \<and> bu_ts (buckets t' tok) \<le> 7"
proof -
  obtain t' tok where "run_track 5 NewLockfreeTracker 7 True Choose = Some (t', tok)" using track_lock_free by blast
  then show ?thesis using track_lock_free [of NewLockfreeTracker 7 True Choose t' tok] by blast
qed

end
