(* ===== verification/Local_Keys.thy ===== *)
theory Local_Keys
  imports Sql_Keys
begin

text \<open>
  Local, system and meta keys, \<open>pkg/keys/keys.go\<close> with the prefixes of
  \<open>pkg/keys/constants.go\<close>: store-local keys, keys indexed by range ID (abort span, applied
  state, Raft log), range-local keys (descriptors, transaction records), lock-table keys, the
  addressing functions \<open>Addr\<close> and \<open>AddrUpperBound\<close>, and the two levels of range
  metadata (\<open>RangeMetaKey\<close>, \<open>UserKey\<close>, \<open>MetaScanBounds\<close>). A UUID is its 16
  bytes; a \<open>RangeID\<close> or \<open>NodeID\<close> is an integer that is converted to \<open>uint64\<close> or
  \<open>uint32\<close>. The generated keys are values: the sharing of spare capacity between keys of one
  \<open>RangeIDPrefixBuf\<close> is not modelled, and its callers use one key at a time.
\<close>

section \<open>Prefixes and suffixes\<close>

definition ascii :: "string \<Rightarrow> bytes" where
  "ascii s = map of_char s"

definition HasPrefix :: "bytes \<Rightarrow> bytes \<Rightarrow> bool" where
  "HasPrefix s p \<longleftrightarrow> take (length p) s = p"

definition LocalPrefix :: bytes where "LocalPrefix = [0x01]"
definition localSuffixLength :: nat where "localSuffixLength = 4"

definition LocalRangeIDPrefix :: bytes where "LocalRangeIDPrefix = LocalPrefix @ ascii ''i''"
definition LocalRangePrefix :: bytes where "LocalRangePrefix = LocalPrefix @ ascii ''k''"
definition LocalStorePrefix :: bytes where "LocalStorePrefix = LocalPrefix @ ascii ''s''"
definition LocalRangeLockTablePrefix :: bytes where "LocalRangeLockTablePrefix = LocalPrefix @ ascii ''z''"
definition LocalRangeIDReplicatedInfix :: bytes where "LocalRangeIDReplicatedInfix = ascii ''r''"
definition LocalAbortSpanSuffix :: bytes where "LocalAbortSpanSuffix = ascii ''abc-''"
definition LocalRangeGCThresholdSuffix :: bytes where "LocalRangeGCThresholdSuffix = ascii ''lgc-''"
definition LocalRangeAppliedStateSuffix :: bytes where "LocalRangeAppliedStateSuffix = ascii ''rask''"
definition LocalRangeGCHintSuffix :: bytes where "LocalRangeGCHintSuffix = ascii ''rgch''"
definition LocalRangeLeaseSuffix :: bytes where "LocalRangeLeaseSuffix = ascii ''rll-''"
definition LocalRangePriorReadSummarySuffix :: bytes where "LocalRangePriorReadSummarySuffix = ascii ''rprs''"
definition LocalRangeVersionSuffix :: bytes where "LocalRangeVersionSuffix = ascii ''rver''"
definition localRangeIDUnreplicatedInfix :: bytes where "localRangeIDUnreplicatedInfix = ascii ''u''"
definition LocalRangeTombstoneSuffix :: bytes where "LocalRangeTombstoneSuffix = ascii ''rftb''"
definition LocalRaftHardStateSuffix :: bytes where "LocalRaftHardStateSuffix = ascii ''rfth''"
definition LocalRaftLogSuffix :: bytes where "LocalRaftLogSuffix = ascii ''rftl''"
definition LocalRaftReplicaIDSuffix :: bytes where "LocalRaftReplicaIDSuffix = ascii ''rftr''"
definition LocalRaftTruncatedStateSuffix :: bytes where "LocalRaftTruncatedStateSuffix = ascii ''rftt''"
definition LocalRangeLastReplicaGCTimestampSuffix :: bytes where "LocalRangeLastReplicaGCTimestampSuffix = ascii ''rlrt''"
definition LocalRangeMVCCRangeKeyGCLockSuffix :: bytes where "LocalRangeMVCCRangeKeyGCLockSuffix = ascii ''rltu''"
definition LocalRangeProbeSuffix :: bytes where "LocalRangeProbeSuffix = ascii ''prbe''"
definition LocalQueueLastProcessedSuffix :: bytes where "LocalQueueLastProcessedSuffix = ascii ''qlpt''"
definition LocalRangeDescriptorSuffix :: bytes where "LocalRangeDescriptorSuffix = ascii ''rdsc''"
definition LocalTransactionSuffix :: bytes where "LocalTransactionSuffix = ascii ''txn-''"
definition localStoreClusterVersionSuffix :: bytes where "localStoreClusterVersionSuffix = ascii ''cver''"
definition localStoreGossipSuffix :: bytes where "localStoreGossipSuffix = ascii ''goss''"
definition localStoreHLCUpperBoundSuffix :: bytes where "localStoreHLCUpperBoundSuffix = ascii ''hlcu''"
definition localStoreIdentSuffix :: bytes where "localStoreIdentSuffix = ascii ''iden''"
definition localStoreNodeTombstoneSuffix :: bytes where "localStoreNodeTombstoneSuffix = ascii ''ntmb''"
definition localStoreCachedSettingsSuffix :: bytes where "localStoreCachedSettingsSuffix = ascii ''stng''"
definition localStoreLastUpSuffix :: bytes where "localStoreLastUpSuffix = ascii ''uptm''"
definition LockTableSingleKeyInfix :: bytes where "LockTableSingleKeyInfix = ascii ''k''"

lemmas prefix_defs = LocalPrefix_def LocalRangeIDPrefix_def LocalRangePrefix_def LocalStorePrefix_def LocalRangeLockTablePrefix_def ascii_def
lemmas suffix_defs = LocalRangeIDReplicatedInfix_def LocalAbortSpanSuffix_def LocalRangeGCThresholdSuffix_def LocalRangeAppliedStateSuffix_def LocalRangeGCHintSuffix_def LocalRangeLeaseSuffix_def LocalRangePriorReadSummarySuffix_def LocalRangeVersionSuffix_def localRangeIDUnreplicatedInfix_def LocalRangeTombstoneSuffix_def LocalRaftHardStateSuffix_def LocalRaftLogSuffix_def LocalRaftReplicaIDSuffix_def LocalRaftTruncatedStateSuffix_def LocalRangeLastReplicaGCTimestampSuffix_def LocalRangeMVCCRangeKeyGCLockSuffix_def LocalRangeProbeSuffix_def LocalQueueLastProcessedSuffix_def LocalRangeDescriptorSuffix_def LocalTransactionSuffix_def localStoreClusterVersionSuffix_def localStoreGossipSuffix_def localStoreHLCUpperBoundSuffix_def localStoreIdentSuffix_def localStoreNodeTombstoneSuffix_def localStoreCachedSettingsSuffix_def localStoreLastUpSuffix_def LockTableSingleKeyInfix_def ascii_def localSuffixLength_def

section \<open>Store-local keys\<close>

definition MakeStoreKey :: "bytes \<Rightarrow> bytes \<Rightarrow> bytes" where
  "MakeStoreKey suffix detail = LocalStorePrefix @ suffix @ detail"

definition DecodeStoreKey :: "bytes \<Rightarrow> (bytes \<times> bytes) res" where
  "DecodeStoreKey key =
     (if \<not> HasPrefix key LocalStorePrefix then Inl (Err ''key does not have prefix'')
      else
        (let key = drop (length LocalStorePrefix) key in
         if length key < localSuffixLength then Inl (Err ''malformed key does not contain local store suffix'')
         else Inr (take localSuffixLength key, drop localSuffixLength key)))"

definition StoreIdentKey :: bytes where "StoreIdentKey = MakeStoreKey localStoreIdentSuffix []"
definition StoreGossipKey :: bytes where "StoreGossipKey = MakeStoreKey localStoreGossipSuffix []"
definition DeprecatedStoreClusterVersionKey :: bytes where
  "DeprecatedStoreClusterVersionKey = MakeStoreKey localStoreClusterVersionSuffix []"
definition StoreLastUpKey :: bytes where "StoreLastUpKey = MakeStoreKey localStoreLastUpSuffix []"
definition StoreHLCUpperBoundKey :: bytes where "StoreHLCUpperBoundKey = MakeStoreKey localStoreHLCUpperBoundSuffix []"

definition StoreNodeTombstoneKey :: "int \<Rightarrow> bytes" where
  "StoreNodeTombstoneKey nodeID =
     MakeStoreKey localStoreNodeTombstoneSuffix (EncodeUint32Ascending [] (word_of_int nodeID))"

text \<open>The trailing-garbage test comes before the error of the decoder is returned.\<close>

definition DecodeNodeTombstoneKey :: "bytes \<Rightarrow> int res" where
  "DecodeNodeTombstoneKey key =
     res_bind (DecodeStoreKey key) (\<lambda>(suffix, detail).
       if suffix \<noteq> localStoreNodeTombstoneSuffix then Inl (Err ''key with wrong suffix'')
       else case DecodeUint32Ascending detail of
         Inl e \<Rightarrow> Inl e
       | Inr (detail, nodeID) \<Rightarrow>
           if detail \<noteq> [] then Inl (Err ''invalid key has trailing garbage'') else Inr (sint nodeID))"

definition StoreCachedSettingsKey :: "bytes \<Rightarrow> bytes" where
  "StoreCachedSettingsKey settingKey =
     MakeStoreKey localStoreCachedSettingsSuffix (EncodeBytesAscending [] settingKey)"

definition DecodeStoreCachedSettingsKey :: "bytes \<Rightarrow> bytes res" where
  "DecodeStoreCachedSettingsKey key =
     res_bind (DecodeStoreKey key) (\<lambda>(suffix, detail).
       if suffix \<noteq> localStoreCachedSettingsSuffix then Inl (Err ''key with wrong suffix'')
       else case DecodeBytesAscending detail [] of
         Inl e \<Rightarrow> Inl e
       | Inr (detail, settingKey) \<Rightarrow>
           if detail \<noteq> [] then Inl (Err ''invalid key has trailing garbage'') else Inr settingKey)"

definition localStoreLossOfQuorumRecoveryInfix :: bytes where "localStoreLossOfQuorumRecoveryInfix = ascii ''loqr''"

definition StoreLossOfQuorumRecoveryStatusKey :: bytes where
  "StoreLossOfQuorumRecoveryStatusKey = MakeStoreKey (localStoreLossOfQuorumRecoveryInfix @ ascii ''status'') []"

definition StoreLossOfQuorumRecoveryCleanupActionsKey :: bytes where
  "StoreLossOfQuorumRecoveryCleanupActionsKey = MakeStoreKey (localStoreLossOfQuorumRecoveryInfix @ ascii ''cleanup'') []"

definition LocalStoreUnsafeReplicaRecoveryKeyMin :: bytes where
  "LocalStoreUnsafeReplicaRecoveryKeyMin = MakeStoreKey (localStoreLossOfQuorumRecoveryInfix @ ascii ''applied'') []"

definition UUID_FromBytes :: "bytes \<Rightarrow> bytes res" where
  "UUID_FromBytes b = (if length b \<noteq> 16 then Inl (Err ''UUID must be exactly 16 bytes long'') else Inr b)"

definition StoreUnsafeReplicaRecoveryKey :: "bytes \<Rightarrow> bytes" where
  "StoreUnsafeReplicaRecoveryKey uuid = LocalStoreUnsafeReplicaRecoveryKeyMin @ uuid"

definition DecodeStoreUnsafeReplicaRecoveryKey :: "bytes \<Rightarrow> bytes res" where
  "DecodeStoreUnsafeReplicaRecoveryKey key =
     (if \<not> HasPrefix key LocalStoreUnsafeReplicaRecoveryKeyMin then Inl (Err ''key does not have prefix'')
      else UUID_FromBytes (drop (length LocalStoreUnsafeReplicaRecoveryKeyMin) key))"

definition SystemPrefix :: bytes where "SystemPrefix = [0x04]"
definition NodeLivenessPrefix :: bytes where "NodeLivenessPrefix = SystemPrefix @ [0] @ ascii ''liveness-''"
definition StatusPrefix :: bytes where "StatusPrefix = SystemPrefix @ ascii ''status-''"
definition StatusNodePrefix :: bytes where "StatusNodePrefix = StatusPrefix @ ascii ''node-''"

definition NodeLivenessKey :: "int \<Rightarrow> bytes" where
  "NodeLivenessKey nodeID = EncodeUvarintAscending NodeLivenessPrefix (word_of_int nodeID)"

definition NodeStatusKey :: "int \<Rightarrow> bytes" where
  "NodeStatusKey nodeID = EncodeUvarintAscending StatusNodePrefix (word_of_int nodeID)"

section \<open>Keys indexed by range ID\<close>

definition makePrefixWithRangeID :: "bytes \<Rightarrow> int \<Rightarrow> bytes \<Rightarrow> bytes" where
  "makePrefixWithRangeID prefix rangeID infix' = EncodeUvarintAscending prefix (word_of_int rangeID) @ infix'"

definition MakeRangeIDPrefix :: "int \<Rightarrow> bytes" where
  "MakeRangeIDPrefix rangeID = makePrefixWithRangeID LocalRangeIDPrefix rangeID []"

definition MakeRangeIDReplicatedPrefix :: "int \<Rightarrow> bytes" where
  "MakeRangeIDReplicatedPrefix rangeID = makePrefixWithRangeID LocalRangeIDPrefix rangeID LocalRangeIDReplicatedInfix"

definition MakeRangeIDUnreplicatedPrefix :: "int \<Rightarrow> bytes" where
  "MakeRangeIDUnreplicatedPrefix rangeID = makePrefixWithRangeID LocalRangeIDPrefix rangeID localRangeIDUnreplicatedInfix"

definition makeRangeIDReplicatedKey :: "int \<Rightarrow> bytes \<Rightarrow> bytes \<Rightarrow> bytes res" where
  "makeRangeIDReplicatedKey rangeID suffix detail =
     (if length suffix \<noteq> localSuffixLength then Inl (Panic ''suffix len'')
      else Inr (MakeRangeIDReplicatedPrefix rangeID @ suffix @ detail))"

definition makeRangeIDUnreplicatedKey :: "int \<Rightarrow> bytes \<Rightarrow> bytes \<Rightarrow> bytes res" where
  "makeRangeIDUnreplicatedKey rangeID suffix detail =
     (if length suffix \<noteq> localSuffixLength then Inl (Panic ''suffix len'')
      else Inr (MakeRangeIDUnreplicatedPrefix rangeID @ suffix @ detail))"

definition DecodeRangeIDKey :: "bytes \<Rightarrow> (int \<times> bytes \<times> bytes \<times> bytes) res" where
  "DecodeRangeIDKey key =
     (if \<not> HasPrefix key LocalRangeIDPrefix then Inl (Err ''key does not have prefix'')
      else
        res_bind (DecodeUvarintAscending (drop (length LocalRangeIDPrefix) key)) (\<lambda>(b, rangeInt).
          if length b < localSuffixLength + 1
          then Inl (Err ''malformed key does not contain range ID infix and suffix'')
          else
            (let infix' = take 1 b; b = drop 1 b;
                 suffix = take localSuffixLength b; b = drop localSuffixLength b
             in Inr (sint rangeInt, infix', suffix, b))))"

definition MakeRangeIDPrefixBuf :: "int \<Rightarrow> bytes" where
  "MakeRangeIDPrefixBuf rangeID = MakeRangeIDPrefix rangeID"

definition replicatedPrefix :: "bytes \<Rightarrow> bytes" where "replicatedPrefix b = b @ LocalRangeIDReplicatedInfix"
definition unreplicatedPrefix :: "bytes \<Rightarrow> bytes" where "unreplicatedPrefix b = b @ localRangeIDUnreplicatedInfix"

text \<open>The methods of \<open>RangeIDPrefixBuf\<close> and the functions built on them.\<close>

definition Buf_RangeAppliedStateKey :: "bytes \<Rightarrow> bytes" where "Buf_RangeAppliedStateKey b = replicatedPrefix b @ LocalRangeAppliedStateSuffix"
definition Buf_RangeLeaseKey :: "bytes \<Rightarrow> bytes" where "Buf_RangeLeaseKey b = replicatedPrefix b @ LocalRangeLeaseSuffix"
definition Buf_RangePriorReadSummaryKey :: "bytes \<Rightarrow> bytes" where "Buf_RangePriorReadSummaryKey b = replicatedPrefix b @ LocalRangePriorReadSummarySuffix"
definition Buf_RangeGCThresholdKey :: "bytes \<Rightarrow> bytes" where "Buf_RangeGCThresholdKey b = replicatedPrefix b @ LocalRangeGCThresholdSuffix"
definition Buf_RangeGCHintKey :: "bytes \<Rightarrow> bytes" where "Buf_RangeGCHintKey b = replicatedPrefix b @ LocalRangeGCHintSuffix"
definition Buf_RangeVersionKey :: "bytes \<Rightarrow> bytes" where "Buf_RangeVersionKey b = replicatedPrefix b @ LocalRangeVersionSuffix"
definition Buf_RangeTombstoneKey :: "bytes \<Rightarrow> bytes" where "Buf_RangeTombstoneKey b = unreplicatedPrefix b @ LocalRangeTombstoneSuffix"
definition Buf_RaftTruncatedStateKey :: "bytes \<Rightarrow> bytes" where "Buf_RaftTruncatedStateKey b = unreplicatedPrefix b @ LocalRaftTruncatedStateSuffix"
definition Buf_RaftHardStateKey :: "bytes \<Rightarrow> bytes" where "Buf_RaftHardStateKey b = unreplicatedPrefix b @ LocalRaftHardStateSuffix"
definition Buf_RaftLogPrefix :: "bytes \<Rightarrow> bytes" where "Buf_RaftLogPrefix b = unreplicatedPrefix b @ LocalRaftLogSuffix"
definition Buf_RaftReplicaIDKey :: "bytes \<Rightarrow> bytes" where "Buf_RaftReplicaIDKey b = unreplicatedPrefix b @ LocalRaftReplicaIDSuffix"
definition Buf_RangeLastReplicaGCTimestampKey :: "bytes \<Rightarrow> bytes" where "Buf_RangeLastReplicaGCTimestampKey b = unreplicatedPrefix b @ LocalRangeLastReplicaGCTimestampSuffix"
definition Buf_MVCCRangeKeyGCKey :: "bytes \<Rightarrow> bytes" where "Buf_MVCCRangeKeyGCKey b = unreplicatedPrefix b @ LocalRangeMVCCRangeKeyGCLockSuffix"

definition RangeAppliedStateKey :: "int \<Rightarrow> bytes" where "RangeAppliedStateKey rangeID = Buf_RangeAppliedStateKey (MakeRangeIDPrefixBuf rangeID)"
definition RangeLeaseKey :: "int \<Rightarrow> bytes" where "RangeLeaseKey rangeID = Buf_RangeLeaseKey (MakeRangeIDPrefixBuf rangeID)"
definition RangePriorReadSummaryKey :: "int \<Rightarrow> bytes" where "RangePriorReadSummaryKey rangeID = Buf_RangePriorReadSummaryKey (MakeRangeIDPrefixBuf rangeID)"
definition RangeGCThresholdKey :: "int \<Rightarrow> bytes" where "RangeGCThresholdKey rangeID = Buf_RangeGCThresholdKey (MakeRangeIDPrefixBuf rangeID)"
definition RangeGCHintKey :: "int \<Rightarrow> bytes" where "RangeGCHintKey rangeID = Buf_RangeGCHintKey (MakeRangeIDPrefixBuf rangeID)"
definition RangeVersionKey :: "int \<Rightarrow> bytes" where "RangeVersionKey rangeID = Buf_RangeVersionKey (MakeRangeIDPrefixBuf rangeID)"
definition RangeTombstoneKey :: "int \<Rightarrow> bytes" where "RangeTombstoneKey rangeID = Buf_RangeTombstoneKey (MakeRangeIDPrefixBuf rangeID)"
definition RaftTruncatedStateKey :: "int \<Rightarrow> bytes" where "RaftTruncatedStateKey rangeID = Buf_RaftTruncatedStateKey (MakeRangeIDPrefixBuf rangeID)"
definition RaftHardStateKey :: "int \<Rightarrow> bytes" where "RaftHardStateKey rangeID = Buf_RaftHardStateKey (MakeRangeIDPrefixBuf rangeID)"
definition RaftLogPrefix :: "int \<Rightarrow> bytes" where "RaftLogPrefix rangeID = Buf_RaftLogPrefix (MakeRangeIDPrefixBuf rangeID)"
definition RaftReplicaIDKey :: "int \<Rightarrow> bytes" where "RaftReplicaIDKey rangeID = Buf_RaftReplicaIDKey (MakeRangeIDPrefixBuf rangeID)"
definition RangeLastReplicaGCTimestampKey :: "int \<Rightarrow> bytes" where "RangeLastReplicaGCTimestampKey rangeID = Buf_RangeLastReplicaGCTimestampKey (MakeRangeIDPrefixBuf rangeID)"
definition MVCCRangeKeyGCKey :: "int \<Rightarrow> bytes" where "MVCCRangeKeyGCKey rangeID = Buf_MVCCRangeKeyGCKey (MakeRangeIDPrefixBuf rangeID)"

lemmas range_id_key_defs = RangeAppliedStateKey_def Buf_RangeAppliedStateKey_def RangeLeaseKey_def Buf_RangeLeaseKey_def RangePriorReadSummaryKey_def Buf_RangePriorReadSummaryKey_def RangeGCThresholdKey_def Buf_RangeGCThresholdKey_def RangeGCHintKey_def Buf_RangeGCHintKey_def RangeVersionKey_def Buf_RangeVersionKey_def RangeTombstoneKey_def Buf_RangeTombstoneKey_def RaftTruncatedStateKey_def Buf_RaftTruncatedStateKey_def RaftHardStateKey_def Buf_RaftHardStateKey_def RaftLogPrefix_def Buf_RaftLogPrefix_def RaftReplicaIDKey_def Buf_RaftReplicaIDKey_def RangeLastReplicaGCTimestampKey_def Buf_RangeLastReplicaGCTimestampKey_def MVCCRangeKeyGCKey_def Buf_MVCCRangeKeyGCKey_def MakeRangeIDPrefixBuf_def
  replicatedPrefix_def unreplicatedPrefix_def MakeRangeIDPrefix_def

definition Buf_AbortSpanKey :: "bytes \<Rightarrow> bytes \<Rightarrow> bytes" where
  "Buf_AbortSpanKey b txnID = EncodeBytesAscending (replicatedPrefix b @ LocalAbortSpanSuffix) txnID"

definition AbortSpanKey :: "int \<Rightarrow> bytes \<Rightarrow> bytes" where
  "AbortSpanKey rangeID txnID = Buf_AbortSpanKey (MakeRangeIDPrefixBuf rangeID) txnID"

definition DecodeAbortSpanKey :: "bytes \<Rightarrow> bytes \<Rightarrow> bytes res" where
  "DecodeAbortSpanKey key dest =
     res_bind (DecodeRangeIDKey key) (\<lambda>(_, _, suffix, detail).
       if suffix \<noteq> LocalAbortSpanSuffix then Inl (Err ''key does not contain the AbortSpan suffix'')
       else res_bind (DecodeBytesAscending detail dest) (\<lambda>(detail, idBytes).
         if length detail > 0 then Inl (Err ''key has leftover bytes after decode'')
         else UUID_FromBytes idBytes))"

definition RaftLogKeyFromPrefix :: "bytes \<Rightarrow> uint64 \<Rightarrow> bytes" where
  "RaftLogKeyFromPrefix raftLogPrefix logIndex = EncodeUint64Ascending raftLogPrefix logIndex"

definition Buf_RaftLogKey :: "bytes \<Rightarrow> uint64 \<Rightarrow> bytes" where
  "Buf_RaftLogKey b logIndex = RaftLogKeyFromPrefix (Buf_RaftLogPrefix b) logIndex"

definition RaftLogKey :: "int \<Rightarrow> uint64 \<Rightarrow> bytes" where
  "RaftLogKey rangeID logIndex = Buf_RaftLogKey (MakeRangeIDPrefixBuf rangeID) logIndex"

definition DecodeRaftLogKeyFromSuffix :: "bytes \<Rightarrow> uint64 res" where
  "DecodeRaftLogKeyFromSuffix raftLogSuffix =
     res_bind (DecodeUint64Ascending raftLogSuffix) (\<lambda>(_, logIndex). Inr logIndex)"

section \<open>Range-local and lock-table keys\<close>

definition MakeRangeKeyPrefix :: "bytes \<Rightarrow> bytes" where
  "MakeRangeKeyPrefix key = EncodeBytesAscending LocalRangePrefix key"

definition MakeRangeKey :: "bytes \<Rightarrow> bytes \<Rightarrow> bytes \<Rightarrow> bytes res" where
  "MakeRangeKey key suffix detail =
     (if length suffix \<noteq> localSuffixLength then Inl (Panic ''suffix len'')
      else Inr (MakeRangeKeyPrefix key @ suffix @ detail))"

definition DecodeRangeKey :: "bytes \<Rightarrow> (bytes \<times> bytes \<times> bytes) res" where
  "DecodeRangeKey key =
     (if \<not> HasPrefix key LocalRangePrefix then Inl (Err ''key does not have prefix'')
      else
        res_bind (DecodeBytesAscending (drop (length LocalRangePrefix) key) []) (\<lambda>(b, startKey).
          if length b < localSuffixLength then Inl (Err ''key does not have suffix'')
          else Inr (startKey, take localSuffixLength b, drop localSuffixLength b)))"

definition RangeDescriptorKey :: "bytes \<Rightarrow> bytes res" where
  "RangeDescriptorKey key = MakeRangeKey key LocalRangeDescriptorSuffix []"

definition QueueLastProcessedKey :: "bytes \<Rightarrow> bytes \<Rightarrow> bytes res" where
  "QueueLastProcessedKey key queue = MakeRangeKey key LocalQueueLastProcessedSuffix queue"

definition RangeProbeKey :: "bytes \<Rightarrow> bytes res" where
  "RangeProbeKey key = MakeRangeKey key LocalRangeProbeSuffix []"

text \<open>The scratch buffer of the lock-table keys is overwritten, never read.\<close>

definition LockTableSingleKey :: "bytes \<Rightarrow> bytes" where
  "LockTableSingleKey key = EncodeBytesAscending (LocalRangeLockTablePrefix @ LockTableSingleKeyInfix) key"

definition LockTableSingleNextKey :: "bytes \<Rightarrow> bytes" where
  "LockTableSingleNextKey key = EncodeNextBytesAscending (LocalRangeLockTablePrefix @ LockTableSingleKeyInfix) key"

definition DecodeLockTableSingleKey :: "bytes \<Rightarrow> bytes res" where
  "DecodeLockTableSingleKey key =
     (if \<not> HasPrefix key LocalRangeLockTablePrefix then Inl (Err ''key does not have prefix'')
      else
        (let b = drop (length LocalRangeLockTablePrefix) key in
         if \<not> HasPrefix b LockTableSingleKeyInfix then Inl (Err ''key is not for a single-key lock'')
         else res_bind (DecodeBytesAscending (drop (length LockTableSingleKeyInfix) b) []) (\<lambda>(b, lockedKey).
           if b \<noteq> [] then Inl (Err ''key has left-over bytes after decoding'') else Inr lockedKey)))"

section \<open>Addressing\<close>

definition IsLocal :: "bytes \<Rightarrow> bool" where
  "IsLocal k \<longleftrightarrow> HasPrefix k LocalPrefix"

lemma DecodeBytesAscending_shrinks: "DecodeBytesAscending b [] = Inr (rest, data) \<Longrightarrow> length data < length b"
  by (cases b)
    (auto simp: DecodeBytesAscending_def decodeBytesInternal_def length_esc dest!: decodeBytes_loop_canonical split: if_splits)

function Addr_loop :: "bytes \<Rightarrow> bytes res" where
  "Addr_loop k =
     (if HasPrefix k LocalStorePrefix then Inl (Err ''store-local key is not addressable'')
      else if HasPrefix k LocalRangeIDPrefix then Inl (Err ''local range ID key is not addressable'')
      else if \<not> HasPrefix k LocalRangePrefix then Inl (Err ''local key malformed'')
      else case DecodeBytesAscending (drop (length LocalRangePrefix) k) [] of
        Inl e \<Rightarrow> Inl e
      | Inr (_, k) \<Rightarrow> if \<not> IsLocal k then Inr k else Addr_loop k)"
  by pat_completeness auto
termination
  by (relation "measure length") (auto dest!: DecodeBytesAscending_shrinks)

declare Addr_loop.simps [simp del]

definition Addr :: "bytes \<Rightarrow> bytes res" where
  "Addr k = (if \<not> IsLocal k then Inr k else Addr_loop k)"

definition MustAddr :: "bytes \<Rightarrow> bytes res" where
  "MustAddr k = (case Addr k of Inl _ \<Rightarrow> Inl (Panic ''could not take address'') | Inr rk \<Rightarrow> Inr rk)"

definition TransactionKey :: "bytes \<Rightarrow> bytes \<Rightarrow> bytes res" where
  "TransactionKey key txnID = res_bind (MustAddr key) (\<lambda>rk. MakeRangeKey rk LocalTransactionSuffix txnID)"

definition AddrUpperBound :: "bytes \<Rightarrow> bytes res" where
  "AddrUpperBound k =
     res_bind (Addr k) (\<lambda>rk. Inr (if IsLocal k \<and> k \<noteq> MakeRangeKeyPrefix rk then Key_Next rk else rk))"

definition SpanAddr :: "Span \<Rightarrow> RSpan res" where
  "SpanAddr span =
     res_bind (Addr (Key span)) (\<lambda>rk.
       if length (endk span) > 0
       then res_bind (Addr (endk span)) (\<lambda>rek. Inr \<lparr>RKey = rk, REndKey = rek\<rparr>)
       else Inr \<lparr>RKey = rk, REndKey = []\<rparr>)"

section \<open>Range metadata\<close>

definition meta1PrefixByte :: byte where "meta1PrefixByte = 0x02"
definition meta2PrefixByte :: byte where "meta2PrefixByte = 0x03"
definition Meta1Prefix :: bytes where "Meta1Prefix = [meta1PrefixByte]"
definition Meta2Prefix :: bytes where "Meta2Prefix = [meta2PrefixByte]"
definition Meta1KeyMax :: bytes where "Meta1KeyMax = Meta1Prefix @ KeyMax"
definition Meta2KeyMax :: bytes where "Meta2KeyMax = Meta2Prefix @ KeyMax"

lemmas meta_defs = meta1PrefixByte_def meta2PrefixByte_def Meta1Prefix_def Meta2Prefix_def Meta1KeyMax_def Meta2KeyMax_def

definition RangeMetaKey :: "bytes \<Rightarrow> bytes" where
  "RangeMetaKey key =
     (if key = [] then KeyMin
      else if hd key = meta1PrefixByte then KeyMin
      else if hd key = meta2PrefixByte then Meta1Prefix @ drop (length Meta2Prefix) key
      else Meta2Prefix @ key)"

definition UserKey :: "bytes \<Rightarrow> bytes" where
  "UserKey key =
     (if key = [] then Meta1Prefix
      else if hd key = meta1PrefixByte then Meta2Prefix @ drop (length Meta1Prefix) key
      else if hd key = meta2PrefixByte then drop (length Meta2Prefix) key
      else key)"

definition InMeta1 :: "bytes \<Rightarrow> bool" where
  "InMeta1 k \<longleftrightarrow> k = KeyMin \<or> HasPrefix k Meta1Prefix"

definition validateRangeMetaKey :: "bytes \<Rightarrow> unit res" where
  "validateRangeMetaKey key =
     (if key = KeyMin then Inr ()
      else if length key < length Meta1Prefix then Inl (Err ''too short'')
      else
        (let prefix = take (length Meta1Prefix) key; body = drop (length Meta1Prefix) key in
         if prefix \<noteq> Meta2Prefix \<and> prefix \<noteq> Meta1Prefix then Inl (Err ''not a meta key'')
         else if KeyMax < body then Inl (Err ''body of meta key range lookup is > KeyMax'')
         else Inr ()))"

definition MetaScanBounds :: "bytes \<Rightarrow> RSpan res" where
  "MetaScanBounds key =
     res_bind (validateRangeMetaKey key) (\<lambda>_.
       if key = Meta2KeyMax then Inl (Err ''Meta2KeyMax can't be used as the key of scan'')
       else if key = KeyMin then Inr \<lparr>RKey = Meta1Prefix, REndKey = PrefixEnd Meta1Prefix\<rparr>
       else if key = Meta1KeyMax then Inr \<lparr>RKey = Meta1KeyMax, REndKey = PrefixEnd Meta1Prefix\<rparr>
       else Inr \<lparr>RKey = Key_Next key, REndKey = PrefixEnd (take (length Meta1Prefix) key)\<rparr>)"

definition MetaReverseScanBounds :: "bytes \<Rightarrow> RSpan res" where
  "MetaReverseScanBounds key =
     res_bind (validateRangeMetaKey key) (\<lambda>_.
       if key = KeyMin \<or> key = Meta1Prefix
       then Inl (Err ''KeyMin and Meta1Prefix can't be used as the key of reverse scan'')
       else if key = Meta2Prefix then Inr \<lparr>RKey = Meta1Prefix, REndKey = Key_Next key\<rparr>
       else Inr \<lparr>RKey = take (length Meta1Prefix) key, REndKey = Key_Next key\<rparr>)"

section \<open>Round trips\<close>

lemma HasPrefix_append [simp]: "HasPrefix (p @ r) p"
  by (simp add: HasPrefix_def)

lemma HasPrefix_iff: "HasPrefix k p \<longleftrightarrow> (\<exists>r. k = p @ r)"
  by (metis HasPrefix_append HasPrefix_def append_take_drop_id)

lemmas decode_bytes = bytes_asc.roundtrip [OF TrueI]

lemma bytes_append: "EncodeBytesAscending b k = b @ EncodeBytesAscending [] k"
  by (simp add: EncodeBytesAscending_eq)

lemma suffix_lengths:
  "length LocalAbortSpanSuffix = 4" "length LocalRaftLogSuffix = 4" "length LocalTransactionSuffix = 4"
  "length LocalRangeDescriptorSuffix = 4" "length LocalRangeIDReplicatedInfix = 1" "length localRangeIDUnreplicatedInfix = 1"
  by (simp_all add: suffix_defs)

definition valid_range_id :: "int \<Rightarrow> bool" where
  "valid_range_id r \<longleftrightarrow> 0 \<le> r \<and> r \<le> MaxInt64"

lemma range_id_word:
  assumes "valid_range_id r"
  shows "uint (word_of_int r :: uint64) = r" "sint (word_of_int r :: uint64) = r"
  using assms by (simp_all add: valid_range_id_def MaxInt64_def unsigned_of_int take_bit_int_eq_self
      signed_of_int signed_take_bit_int_eq_self)

lemma DecodeRangeIDKey_eq:
  assumes "valid_range_id r" "length i = 1" "length s = 4"
  shows "DecodeRangeIDKey (MakeRangeIDPrefix r @ i @ s @ d) = Inr (r, i, s, d)"
proof -
  have k: "MakeRangeIDPrefix r @ i @ s @ d =
      LocalRangeIDPrefix @ EncodeUvarintAscending [] (word_of_int r) @ i @ s @ d"
    by (simp add: MakeRangeIDPrefix_def makePrefixWithRangeID_def EncodeUvarintAscending_append [of LocalRangeIDPrefix])
  show ?thesis
    unfolding DecodeRangeIDKey_def k
    using assms range_id_word [OF assms(1)] by (simp add: decode_uvarint localSuffixLength_def Let_def)
qed

lemma MakeRangeIDPrefix_not_maximal: "\<not> maximal (MakeRangeIDPrefix r)"
  by (simp add: maximal_def MakeRangeIDPrefix_def makePrefixWithRangeID_def prefix_defs
      EncodeUvarintAscending_append [of "[_, _]"])

lemma MakeRangeIDPrefix_inj:
  assumes "valid_range_id q" "valid_range_id r" "MakeRangeIDPrefix q @ x = MakeRangeIDPrefix r @ y"
  shows "q = r \<and> x = y"
proof -
  have "EncodeUvarintAscending [] (word_of_int q) @ x = EncodeUvarintAscending [] (word_of_int r) @ y"
    using assms(3) by (simp add: MakeRangeIDPrefix_def makePrefixWithRangeID_def EncodeUvarintAscending_append [of LocalRangeIDPrefix])
  from uvarint_asc.prefix_free [OF TrueI TrueI this] show ?thesis
    using range_id_word(1) [OF assms(1)] range_id_word(1) [OF assms(2)] by metis
qed

lemma DecodeAbortSpanKey_eq:
  assumes "valid_range_id r" "length txn = 16"
  shows "DecodeAbortSpanKey (AbortSpanKey r txn) [] = Inr txn"
proof -
  have "AbortSpanKey r txn = MakeRangeIDPrefix r @ LocalRangeIDReplicatedInfix @ LocalAbortSpanSuffix @ EncodeBytesAscending [] txn"
    by (simp add: AbortSpanKey_def Buf_AbortSpanKey_def MakeRangeIDPrefixBuf_def replicatedPrefix_def bytes_append [of "_ @ _"])
  then have "DecodeRangeIDKey (AbortSpanKey r txn) =
      Inr (r, LocalRangeIDReplicatedInfix, LocalAbortSpanSuffix, EncodeBytesAscending [] txn)"
    using DecodeRangeIDKey_eq [OF assms(1)] suffix_lengths by simp
  then show ?thesis
    using decode_bytes [of txn "[]"] assms(2) by (simp add: DecodeAbortSpanKey_def UUID_FromBytes_def)
qed

lemma RaftLogKey_eq:
  "RaftLogKey r i = MakeRangeIDPrefix r @ localRangeIDUnreplicatedInfix @ LocalRaftLogSuffix @ EncodeUint64Ascending [] i"
  by (simp add: RaftLogKey_def Buf_RaftLogKey_def RaftLogKeyFromPrefix_def Buf_RaftLogPrefix_def MakeRangeIDPrefixBuf_def
      unreplicatedPrefix_def EncodeUint64Ascending_eq)

section \<open>Addresses\<close>

definition range_local :: "bytes \<Rightarrow> bytes \<Rightarrow> bytes" where
  "range_local k r = MakeRangeKeyPrefix k @ r"

lemma range_local_eq: "range_local k r = LocalRangePrefix @ EncodeBytesAscending [] k @ r"
  by (simp add: range_local_def MakeRangeKeyPrefix_def bytes_append [of LocalRangePrefix])

lemma local_prefixes:
  "\<not> HasPrefix (LocalRangePrefix @ r) LocalStorePrefix" "\<not> HasPrefix (LocalRangePrefix @ r) LocalRangeIDPrefix"
  "IsLocal (LocalRangePrefix @ r)"
  by (simp_all add: HasPrefix_def prefix_defs IsLocal_def)

text \<open>The address of a range-local key is the address of the key it is about, however deep.\<close>

lemma Addr_range_local: "Addr (range_local k r) = Addr k"
proof -
  have "Addr_loop (range_local k r) = (if \<not> IsLocal k then Inr k else Addr_loop k)"
    unfolding range_local_eq by (subst Addr_loop.simps) (simp add: local_prefixes decode_bytes)
  then show ?thesis by (simp add: Addr_def range_local_eq local_prefixes)
qed

lemma Addr_nonlocal: "\<not> IsLocal k \<Longrightarrow> Addr k = Inr k"
  by (simp add: Addr_def)

lemma range_local_less: "range_local k r < range_local l q \<longleftrightarrow> k < l \<or> k = l \<and> r < q"
  unfolding range_local_eq using bytes_asc.order_iff_append [OF TrueI TrueI] by simp

lemma AddrUpperBound_range_local:
  "\<not> IsLocal k \<Longrightarrow> AddrUpperBound (range_local k r) = Inr (if r = [] then k else Key_Next k)"
proof -
  assume "\<not> IsLocal k"
  then have "Addr (range_local k r) = Inr k" by (simp add: Addr_range_local Addr_nonlocal)
  moreover have "IsLocal (range_local k r)" by (simp add: range_local_eq local_prefixes)
  moreover have "range_local k r \<noteq> MakeRangeKeyPrefix k \<longleftrightarrow> r \<noteq> []" by (simp add: range_local_def)
  ultimately show ?thesis unfolding AddrUpperBound_def by simp
qed

lemma DecodeRangeKey_eq: "length s = 4 \<Longrightarrow> DecodeRangeKey (range_local k (s @ d)) = Inr (k, s, d)"
  by (simp add: DecodeRangeKey_def range_local_eq decode_bytes localSuffixLength_def)

lemma LockTableSingleKey_eq:
  "LockTableSingleKey k = LocalRangeLockTablePrefix @ LockTableSingleKeyInfix @ EncodeBytesAscending [] k"
  by (simp add: LockTableSingleKey_def bytes_append [of "_ @ _"])

lemma LockTableSingleNextKey_eq: "LockTableSingleNextKey k = LockTableSingleKey (Key_Next k)"
  by (simp add: LockTableSingleNextKey_def LockTableSingleKey_def EncodeNextBytesAscending_def EncodeBytesAscending_def
      encodeNextBytesAscendingWithTerminator_def encodeBytesAscendingWithTerminatorAndPrefix_def
      encodeBytesAscendingWithTerminator_def encode_eq_esc esc_append escape_consts)

lemma DecodeLockTableSingleKey_eq: "DecodeLockTableSingleKey (LockTableSingleKey k) = Inr k"
  using decode_bytes [of k "[]"] by (simp add: DecodeLockTableSingleKey_def LockTableSingleKey_eq)

section \<open>Properties\<close>

text \<open>
  Keys indexed by range ID: they decode to the range ID, infix, suffix and detail they were
  made of; keys under the prefixes of different ranges are different and the keys between a
  prefix and its end are exactly those that start with it; abort-span entries decode to their
  transaction and Raft log keys sort by index.
\<close>

theorem range_id_keys:
  assumes "valid_range_id q" and "valid_range_id r" and "length i = 1" and "length s = 4" and "length txn = 16"
  shows "DecodeRangeIDKey (MakeRangeIDPrefix r @ i @ s @ d) = Inr (r, i, s, d) \<and>
    (q \<noteq> r \<longrightarrow> MakeRangeIDPrefix q @ x \<noteq> MakeRangeIDPrefix r @ y) \<and>
    (MakeRangeIDPrefix r \<le> k \<and> k < PrefixEnd (MakeRangeIDPrefix r) \<longleftrightarrow> (\<exists>z. k = MakeRangeIDPrefix r @ z)) \<and>
    DecodeAbortSpanKey (AbortSpanKey r txn) [] = Inr txn \<and>
    (RaftLogKey r a < RaftLogKey r b \<longleftrightarrow> a < b) \<and>
    RaftLogKey r a = RaftLogPrefix r @ EncodeUint64Ascending [] a \<and>
    DecodeRaftLogKeyFromSuffix (EncodeUint64Ascending [] a) = Inr a"
proof (intro conjI impI)
  show "DecodeRangeIDKey (MakeRangeIDPrefix r @ i @ s @ d) = Inr (r, i, s, d)" by (rule DecodeRangeIDKey_eq [OF assms(2-4)])
  show "MakeRangeIDPrefix q @ x \<noteq> MakeRangeIDPrefix r @ y" if "q \<noteq> r"
    using that MakeRangeIDPrefix_inj [OF assms(1,2)] by blast
  show "MakeRangeIDPrefix r \<le> k \<and> k < PrefixEnd (MakeRangeIDPrefix r) \<longleftrightarrow> (\<exists>z. k = MakeRangeIDPrefix r @ z)"
    by (rule PrefixEnd_range [OF MakeRangeIDPrefix_not_maximal])
  show "DecodeAbortSpanKey (AbortSpanKey r txn) [] = Inr txn" by (rule DecodeAbortSpanKey_eq [OF assms(2,5)])
  show "RaftLogKey r a < RaftLogKey r b \<longleftrightarrow> a < b" by (simp add: RaftLogKey_eq uint64_asc.order_iff)
  show "RaftLogKey r a = RaftLogPrefix r @ EncodeUint64Ascending [] a"
    by (simp add: RaftLogKey_eq RaftLogPrefix_def Buf_RaftLogPrefix_def MakeRangeIDPrefixBuf_def unreplicatedPrefix_def)
  show "DecodeRaftLogKeyFromSuffix (EncodeUint64Ascending [] a) = Inr a"
    using uint64_asc.roundtrip [OF TrueI, of a "[]"] by (simp add: DecodeRaftLogKeyFromSuffix_def)
qed

theorem range_id_keys_witness:
  "DecodeAbortSpanKey (AbortSpanKey 300 (replicate 16 7)) [] = Inr (replicate 16 7) \<and> RaftLogKey 300 9 < RaftLogKey 300 10"
proof -
  have v: "valid_range_id 5" "valid_range_id 300" "length [0x72 :: byte] = 1" "length [1, 2, 3, 4 :: byte] = 4"
    "length (replicate 16 (7 :: byte)) = 16" by (simp_all add: valid_range_id_def MaxInt64_def)
  have "(9 :: uint64) < 10" by simp
  with range_id_keys [OF v, of "[]" "[]" "[]" "[]" 9 10] show ?thesis by blast
qed

text \<open>
  A nested key sorts by the local prefix of the key inside it, before the range-local keys of every
  ordinary key, so the order of range-local keys is not that of their addresses.
\<close>

lemma nested_above_upper_bound:
  "MakeRangeKeyPrefix (MakeRangeKeyPrefix [0x7a]) < MakeRangeKeyPrefix [0x62] @ [1] \<and>
   Addr (MakeRangeKeyPrefix (MakeRangeKeyPrefix [0x7a])) = Inr [0x7a] \<and>
   AddrUpperBound (MakeRangeKeyPrefix [0x62] @ [1]) = Inr [0x62, 0] \<and> [0x62, 0] < [0x7a :: byte]"
proof -
  have n: "\<not> IsLocal [0x7a]" "\<not> IsLocal [0x62]" by (simp_all add: IsLocal_def HasPrefix_def LocalPrefix_def)
  have e: "MakeRangeKeyPrefix (MakeRangeKeyPrefix [0x7a]) = range_local (range_local [0x7a] []) []"
    "MakeRangeKeyPrefix [0x62] @ [1] = range_local [0x62] [1]" by (simp_all add: range_local_def)
  have "range_local [0x7a] [] < [0x62]" by (simp add: range_local_eq prefix_defs)
  then show ?thesis unfolding e
    by (simp add: range_local_less Addr_range_local Addr_nonlocal n AddrUpperBound_range_local Key_Next_def BytesNext_def)
qed

text \<open>
  C24. Addressing: a range-local key, however deeply nested, has the address of the key it is
  about. Among the range-local keys of keys that are not local themselves, the upper bound of a key
  bounds the addresses of all keys before it strictly, and is the key itself exactly for the bare
  prefix; a range-local key of a range-local key can sort before it and have an address above it
  (\<open>nested_above_upper_bound\<close>). Range-local and lock-table keys, and the transaction keys anchored
  at a range-local key, decode to what they were made of, and lock-table keys sort as the locked keys.
\<close>

theorem addressing:
  assumes "\<not> IsLocal a" and "\<not> IsLocal b" and "length s = 4"
  shows "Addr (MakeRangeKeyPrefix k @ r) = Addr k \<and> Addr (MakeRangeKeyPrefix a @ r) = Inr a \<and>
    (\<exists>u. AddrUpperBound (MakeRangeKeyPrefix b @ q) = Inr u \<and> (u = b \<longleftrightarrow> q = []) \<and>
      (MakeRangeKeyPrefix a @ r < MakeRangeKeyPrefix b @ q \<longrightarrow> a < u)) \<and>
    res_bind (MakeRangeKey k s d) DecodeRangeKey = Inr (k, s, d) \<and>
    res_bind (TransactionKey (MakeRangeKeyPrefix a @ r) txn) DecodeRangeKey = Inr (a, LocalTransactionSuffix, txn) \<and>
    DecodeLockTableSingleKey (LockTableSingleKey k) = Inr k \<and>
    (LockTableSingleKey k < LockTableSingleKey l \<longleftrightarrow> k < l) \<and>
    LockTableSingleNextKey k = LockTableSingleKey (Key_Next k)"
proof (intro conjI)
  note loc = range_local_def [symmetric]
  show "Addr (MakeRangeKeyPrefix k @ r) = Addr k" unfolding loc by (rule Addr_range_local)
  show addr: "Addr (MakeRangeKeyPrefix a @ r) = Inr a" unfolding loc using assms(1) by (simp add: Addr_range_local Addr_nonlocal)
  show "\<exists>u. AddrUpperBound (MakeRangeKeyPrefix b @ q) = Inr u \<and> (u = b \<longleftrightarrow> q = []) \<and>
      (MakeRangeKeyPrefix a @ r < MakeRangeKeyPrefix b @ q \<longrightarrow> a < u)"
    unfolding loc AddrUpperBound_range_local [OF assms(2)] range_local_less
    by (auto simp: less_append_zero intro: less_imp_le)
  show "res_bind (MakeRangeKey k s d) DecodeRangeKey = Inr (k, s, d)"
    using assms(3) DecodeRangeKey_eq [of s k d] by (simp add: MakeRangeKey_def localSuffixLength_def range_local_def)
  show "res_bind (TransactionKey (MakeRangeKeyPrefix a @ r) txn) DecodeRangeKey = Inr (a, LocalTransactionSuffix, txn)"
    using addr suffix_lengths DecodeRangeKey_eq [of LocalTransactionSuffix a txn]
    by (simp add: TransactionKey_def MustAddr_def MakeRangeKey_def localSuffixLength_def range_local_def)
  show "DecodeLockTableSingleKey (LockTableSingleKey k) = Inr k" by (rule DecodeLockTableSingleKey_eq)
  show "LockTableSingleKey k < LockTableSingleKey l \<longleftrightarrow> k < l" by (simp add: LockTableSingleKey_eq bytes_asc.order_iff)
  show "LockTableSingleNextKey k = LockTableSingleKey (Key_Next k)" by (rule LockTableSingleNextKey_eq)
qed

theorem addressing_witness:
  "Addr (MakeRangeKeyPrefix (MakeRangeKeyPrefix [0x61] @ [1]) @ [2]) = Addr (MakeRangeKeyPrefix [0x61] @ [1]) \<and>
   Addr (MakeRangeKeyPrefix [0x61] @ [1]) = Inr [0x61]"
proof -
  have "\<not> IsLocal [0x61]" "length [1, 2, 3, 4 :: byte] = 4" by (simp_all add: IsLocal_def HasPrefix_def LocalPrefix_def)
  note v = this(1) this(1) this(2)
  from addressing [OF v, of "MakeRangeKeyPrefix [0x61] @ [1]" "[2]"] addressing [OF v, of "[]" "[1]"] show ?thesis by blast
qed

definition ordinary :: "bytes \<Rightarrow> bool" where
  "ordinary k \<longleftrightarrow> k \<noteq> [] \<and> hd k \<noteq> meta1PrefixByte \<and> hd k \<noteq> meta2PrefixByte"

lemma RangeMetaKey_ordinary: "ordinary k \<Longrightarrow> RangeMetaKey k = 3 # k"
  by (simp add: RangeMetaKey_def ordinary_def meta_defs)

lemma PrefixEnd_meta2: "PrefixEnd [3] = [4]"
  using PrefixEnd_split [of 3 "[]" 0] by simp

lemma MetaScanBounds_ordinary:
  "ordinary k \<Longrightarrow> k < KeyMax \<Longrightarrow> MetaScanBounds (RangeMetaKey k) = Inr \<lparr>RKey = 3 # k @ [0], REndKey = [4]\<rparr>"
  by (auto simp: MetaScanBounds_def validateRangeMetaKey_def RangeMetaKey_ordinary meta_defs KeyMin_def PrefixEnd_meta2)

lemma MetaReverseScanBounds_ordinary:
  "ordinary k \<Longrightarrow> k \<le> KeyMax \<Longrightarrow> MetaReverseScanBounds (RangeMetaKey k) = Inr \<lparr>RKey = [3], REndKey = 3 # k @ [0]\<rparr>"
  by (auto simp: MetaReverseScanBounds_def validateRangeMetaKey_def RangeMetaKey_ordinary meta_defs KeyMin_def ordinary_def)

text \<open>
  Range metadata: \<open>UserKey\<close> inverts \<open>RangeMetaKey\<close>, and for an ordinary key \<open>k\<close>
  below \<open>KeyMax\<close> the bounds of \<open>MetaScanBounds\<close> hold the metadata of a range that ends at
  an ordinary key \<open>e\<close> exactly when \<open>k < e\<close>, so the first record in them is that of the
  range containing \<open>k\<close>; the reverse bounds hold it exactly when \<open>e \<le> k\<close>. At
  \<open>KeyMax\<close> the forward lookup is refused.
\<close>

theorem meta_lookup:
  assumes "ordinary k" and "k < KeyMax" and "ordinary e"
  shows "UserKey (RangeMetaKey k) = k \<and> UserKey (RangeMetaKey (RangeMetaKey k)) = RangeMetaKey k \<and>
    (\<exists>s. MetaScanBounds (RangeMetaKey k) = Inr s \<and> (RSpan_ContainsKey s (RangeMetaKey e) \<longleftrightarrow> k < e)) \<and>
    (\<exists>s. MetaReverseScanBounds (RangeMetaKey k) = Inr s \<and> (RSpan_ContainsKey s (RangeMetaKey e) \<longleftrightarrow> e \<le> k)) \<and>
    MetaScanBounds (RangeMetaKey KeyMax) = Inl (Err ''Meta2KeyMax can't be used as the key of scan'')"
proof (intro conjI)
  show "UserKey (RangeMetaKey k) = k" using assms(1) by (simp add: RangeMetaKey_ordinary UserKey_def meta_defs)
  show "UserKey (RangeMetaKey (RangeMetaKey k)) = RangeMetaKey k"
    using assms(1) by (simp add: RangeMetaKey_ordinary) (simp add: RangeMetaKey_def UserKey_def meta_defs)
  show "\<exists>s. MetaScanBounds (RangeMetaKey k) = Inr s \<and> (RSpan_ContainsKey s (RangeMetaKey e) \<longleftrightarrow> k < e)"
    unfolding MetaScanBounds_ordinary [OF assms(1,2)] RangeMetaKey_ordinary [OF assms(3)]
    using append_zero_le [of k e] by (auto simp: RSpan_ContainsKey_def bytes_Compare_def)
  show "\<exists>s. MetaReverseScanBounds (RangeMetaKey k) = Inr s \<and> (RSpan_ContainsKey s (RangeMetaKey e) \<longleftrightarrow> e \<le> k)"
    unfolding MetaReverseScanBounds_ordinary [OF assms(1) less_imp_le [OF assms(2)]] RangeMetaKey_ordinary [OF assms(3)]
    using less_append_zero [of e k] by (auto simp: RSpan_ContainsKey_def bytes_Compare_def)
  show "MetaScanBounds (RangeMetaKey KeyMax) = Inl (Err ''Meta2KeyMax can't be used as the key of scan'')"
    by (simp add: MetaScanBounds_def validateRangeMetaKey_def RangeMetaKey_def meta_defs KeyMin_def KeyMax_def)
qed

theorem meta_lookup_witness:
  "\<exists>s. MetaScanBounds (RangeMetaKey [0x61]) = Inr s \<and> RSpan_ContainsKey s (RangeMetaKey [0x62])"
proof -
  have v: "ordinary [0x61]" "[0x61] < KeyMax" "ordinary [0x62]" by (simp_all add: ordinary_def meta_defs KeyMax_def)
  have "[0x61 :: byte] < [0x62]" by simp
  with meta_lookup [OF v] show ?thesis by blast
qed

end
