(* ===== verification/Actor_Storage.thy ===== *)
theory Actor_Storage
  imports Sql_Keys
begin

text \<open>
  The storage service of Durable Objects, \<open>pkg/server/actorstorage/server.go\<close>: every
  operation of a stage (\<open>stageServer\<close>), which is scoped to one actor, the transaction
  capability that delegates to it, and the values it stores (\<open>Value\<close> of
  \<open>pkg/roachpb/data.go\<close>). The KV client it calls is represented by its contract
  (\<open>ordered_store\<close>): a sorted map with atomic batches. Whether a call of the KV client
  fails, and whether a failed write took effect nevertheless, is an argument (\<open>outcome\<close>). The
  operations refine a map from user keys to values per actor, and no operation of an actor can be
  observed by another one.
\<close>

section \<open>Values\<close>

type_synonym Value = bytes

definition checksumSize :: nat where "checksumSize = 4"
definition tagPos :: nat where "tagPos = checksumSize"
definition headerSize :: nat where "headerSize = tagPos + 1"

definition ValueType_UNKNOWN :: byte where "ValueType_UNKNOWN = 0"
definition ValueType_BYTES :: byte where "ValueType_BYTES = 3"

definition GetTag :: "Value \<Rightarrow> byte" where
  "GetTag v = (if length v \<le> tagPos then ValueType_UNKNOWN else v ! tagPos)"

definition dataBytes :: "Value \<Rightarrow> bytes res" where
  "dataBytes v = slice_from headerSize v"

definition GetBytes :: "Value \<Rightarrow> bytes res" where
  "GetBytes v = (if GetTag v \<noteq> ValueType_BYTES then Inl (Err ''value type is not BYTES'') else dataBytes v)"

text \<open>\<open>SetBytes\<close> of a new value, as the batch marshals the argument of a put.\<close>

definition SetBytes :: "bytes \<Rightarrow> Value" where
  "SetBytes b = (let raw = replicate (headerSize + length b) 0 in
     (take headerSize raw @ b)[tagPos := ValueType_BYTES])"

section \<open>The KV client\<close>

text \<open>
  What the stage relies on: lookups after a batch of puts (later puts win), after deletions and
  after a range deletion, and that a scan returns the first rows of the span in key order.
\<close>

locale ordered_store =
  fixes inv :: "'db \<Rightarrow> bool"
    and lookup :: "'db \<Rightarrow> bytes \<Rightarrow> Value option"
    and put :: "(bytes \<times> Value) list \<Rightarrow> 'db \<Rightarrow> 'db"
    and del :: "bytes list \<Rightarrow> 'db \<Rightarrow> 'db"
    and del_range :: "bytes \<Rightarrow> bytes \<Rightarrow> 'db \<Rightarrow> 'db"
    and scan :: "bytes \<Rightarrow> bytes \<Rightarrow> nat \<Rightarrow> 'db \<Rightarrow> (bytes \<times> Value) list"
  assumes inv_put: "inv db \<Longrightarrow> inv (put kvs db)"
    and inv_del: "inv db \<Longrightarrow> inv (del ks db)"
    and inv_del_range: "inv db \<Longrightarrow> inv (del_range b e db)"
    and lookup_put: "inv db \<Longrightarrow> lookup (put kvs db) = lookup db ++ map_of (rev kvs)"
    and lookup_del: "inv db \<Longrightarrow> lookup (del ks db) = (\<lambda>k. if k \<in> set ks then None else lookup db k)"
    and lookup_del_range: "inv db \<Longrightarrow> lookup (del_range b e db) = (\<lambda>k. if b \<le> k \<and> k < e then None else lookup db k)"
    and finite_rows: "inv db \<Longrightarrow> finite (dom (lookup db))"
    and scan_rows: "inv db \<Longrightarrow> scan b e n db =
      map (\<lambda>k. (k, the (lookup db k))) (take n (sorted_list_of_set {k \<in> dom (lookup db). b \<le> k \<and> k < e}))"
begin

text \<open>Scanning the images of user keys under an increasing key function.\<close>

lemma scan_image:
  assumes i: "inv db" and mono: "\<And>a c. enc a < enc c \<longleftrightarrow> a < (c :: bytes)"
    and img: "{k \<in> dom (lookup db). b \<le> k \<and> k < e} = enc ` S"
  shows "scan b e n db = map (\<lambda>u. (enc u, the (lookup db (enc u)))) (take n (sorted_list_of_set S))"
proof -
  have "finite {k \<in> dom (lookup db). b \<le> k \<and> k < e}" using finite_rows [OF i] by simp
  then have "finite (enc ` S)" unfolding img .
  then have "sorted_list_of_set (enc ` S) = map enc (sorted_list_of_set S)"
    by (rule sorted_list_of_set_image [OF _ mono])
  then show ?thesis unfolding scan_rows [OF i] img by (simp add: take_map comp_def)
qed

end

text \<open>The store of the model: rows in key order.\<close>

type_synonym kv = "(bytes \<times> Value) list"

fun kv_insert :: "bytes \<Rightarrow> Value \<Rightarrow> kv \<Rightarrow> kv" where
  "kv_insert k v [] = [(k, v)]"
| "kv_insert k v ((l, w) # db) =
     (if k < l then (k, v) # (l, w) # db else if k = l then (k, v) # db else (l, w) # kv_insert k v db)"

fun kv_put :: "(bytes \<times> Value) list \<Rightarrow> kv \<Rightarrow> kv" where
  "kv_put [] db = db"
| "kv_put ((k, v) # kvs) db = kv_put kvs (kv_insert k v db)"

definition kv_del :: "bytes list \<Rightarrow> kv \<Rightarrow> kv" where
  "kv_del ks db = filter (\<lambda>(k, v). k \<notin> set ks) db"

definition kv_del_range :: "bytes \<Rightarrow> bytes \<Rightarrow> kv \<Rightarrow> kv" where
  "kv_del_range b e db = filter (\<lambda>(k, v). \<not> (b \<le> k \<and> k < e)) db"

definition kv_scan :: "bytes \<Rightarrow> bytes \<Rightarrow> nat \<Rightarrow> kv \<Rightarrow> (bytes \<times> Value) list" where
  "kv_scan b e n db = take n (filter (\<lambda>(k, v). b \<le> k \<and> k < e) db)"

definition kv_ok :: "kv \<Rightarrow> bool" where
  "kv_ok db \<longleftrightarrow> sorted_wrt (<) (map fst db)"

text \<open>The result of a KV call: done, failed, or reported as failed although it took effect.\<close>

datatype outcome = Done | Failed | Ambiguous

section \<open>The stage of an actor\<close>

definition maxListLimit :: int where "maxListLimit = 10000"

record stageServer =
  st_codec :: SQLCodec
  st_hash :: bytes

definition TenantPrefix_of :: "SQLCodec \<Rightarrow> bytes" where
  "TenantPrefix_of c = buf c"

definition actorHashFromStableId :: "(bytes \<Rightarrow> bytes) \<Rightarrow> bytes \<Rightarrow> bytes" where
  "actorHashFromStableId sha stableId = ActorHash sha stableId"

definition GetStage :: "(bytes \<Rightarrow> bytes) \<Rightarrow> SQLCodec \<Rightarrow> bytes \<Rightarrow> stageServer" where
  "GetStage sha codec stableID = \<lparr>st_codec = codec, st_hash = actorHashFromStableId sha stableID\<rparr>"

definition kvKey :: "stageServer \<Rightarrow> bytes \<Rightarrow> bytes" where
  "kvKey s userKey = MakeDOKVKey (TenantPrefix_of (st_codec s)) (st_hash s) userKey"

definition doPrefix :: "stageServer \<Rightarrow> bytes" where
  "doPrefix s = MakeDOKVPrefix (TenantPrefix_of (st_codec s)) (st_hash s)"

definition storage_error :: go_err where
  "storage_error = Err ''storage error''"

definition stage_Get :: "outcome \<Rightarrow> stageServer \<Rightarrow> bytes \<Rightarrow> kv \<Rightarrow> bytes option res" where
  "stage_Get out s userKey db =
     (if out \<noteq> Done then Inl storage_error
      else case map_of db (kvKey s userKey) of
        None \<Rightarrow> Inr None
      | Some v \<Rightarrow> (case GetBytes v of Inl e \<Rightarrow> Inl storage_error | Inr b \<Rightarrow> Inr (Some b)))"

text \<open>The effect of a write under its outcome.\<close>

definition apply_write :: "outcome \<Rightarrow> ('db \<Rightarrow> 'db) \<Rightarrow> 'db \<Rightarrow> 'db" where
  "apply_write out f db = (if out = Failed then db else f db)"

definition stage_Put :: "outcome \<Rightarrow> stageServer \<Rightarrow> (bytes \<times> bytes) list \<Rightarrow> kv \<Rightarrow> unit res \<times> kv" where
  "stage_Put out s entries db =
     (let b = map (\<lambda>(userKey, val). (kvKey s userKey, SetBytes val)) entries in
      (if out \<noteq> Done then Inl storage_error else Inr (), apply_write out (kv_put b) db))"

definition stage_Delete :: "outcome \<Rightarrow> stageServer \<Rightarrow> bytes list \<Rightarrow> kv \<Rightarrow> int res \<times> kv" where
  "stage_Delete out s keysList db =
     (let kvKeys = map (kvKey s) keysList in
      (if out \<noteq> Done then Inl storage_error else Inr (wrap32 (int (length keysList))), apply_write out (kv_del kvKeys) db))"

definition list_limit :: "int \<Rightarrow> int" where
  "list_limit limit =
     (let limit = (if limit \<le> 0 then 1000 else limit) in if limit > maxListLimit then maxListLimit else limit)"

definition decodeBytesKey :: "bytes \<Rightarrow> bytes res" where
  "decodeBytesKey b = res_bind (DecodeBytesAscending b []) (\<lambda>(rest, val). Inr val)"

fun list_entries :: "nat \<Rightarrow> (bytes \<times> Value) list \<Rightarrow> (bytes \<times> bytes) list res" where
  "list_entries plen [] = Inr []"
| "list_entries plen ((k, v) # rows) =
     res_bind (slice_from plen k) (\<lambda>rem.
       res_bind (decodeBytesKey rem) (\<lambda>userKey.
         res_bind (GetBytes v) (\<lambda>valBytes.
           res_bind (list_entries plen rows) (\<lambda>rest. Inr ((userKey, valBytes) # rest)))))"

text \<open>
  \<open>reverse\<close> and \<open>prefix\<close> are arguments of the interface that the code never reads. The
  result is what the stream receives before its end.
\<close>

definition stage_List :: "outcome \<Rightarrow> stageServer \<Rightarrow> bytes \<Rightarrow> bytes \<Rightarrow> int \<Rightarrow> bool \<Rightarrow> bytes \<Rightarrow> kv \<Rightarrow> (bytes \<times> bytes) list res" where
  "stage_List out s startKey endKey_arg limit reverse prefix db =
     (let begin = (if length startKey > 0 then kvKey s startKey else doPrefix s);
          end = (if length endKey_arg > 0 then kvKey s endKey_arg else PrefixEnd (doPrefix s));
          limit = list_limit limit
      in if out \<noteq> Done then Inl storage_error
         else list_entries (length (doPrefix s)) (kv_scan begin end (nat limit) db))"

fun multiple_entries :: "stageServer \<Rightarrow> bytes list \<Rightarrow> kv \<Rightarrow> (bytes \<times> bytes) list res" where
  "multiple_entries s [] db = Inr []"
| "multiple_entries s (userKey # ks) db =
     (case map_of db (kvKey s userKey) of
        None \<Rightarrow> multiple_entries s ks db
      | Some v \<Rightarrow>
          res_bind (GetBytes v) (\<lambda>valBytes.
            res_bind (multiple_entries s ks db) (\<lambda>rest. Inr ((userKey, valBytes) # rest))))"

definition stage_GetMultiple :: "outcome \<Rightarrow> stageServer \<Rightarrow> bytes list \<Rightarrow> kv \<Rightarrow> (bytes \<times> bytes) list res" where
  "stage_GetMultiple out s keysList db =
     (if length keysList > 0 then
        (if out \<noteq> Done then Inl storage_error else multiple_entries s keysList db)
      else Inr [])"

definition stage_DeleteAll :: "outcome \<Rightarrow> stageServer \<Rightarrow> kv \<Rightarrow> int res \<times> kv" where
  "stage_DeleteAll out s db =
     (if out \<noteq> Done then Inl storage_error else Inr 0, apply_write out (kv_del_range (doPrefix s) (PrefixEnd (doPrefix s))) db)"

definition stage_Rename :: "(bytes \<times> bytes) list \<Rightarrow> bytes list res" where
  "stage_Rename entries = Inl (Err ''rename not supported'')"

definition stage_GetAlarm :: "int res" where "stage_GetAlarm = Inr 0"
definition stage_SetAlarm :: "int \<Rightarrow> unit res" where "stage_SetAlarm scheduledTimeMs = Inr ()"
definition stage_DeleteAlarm :: "int \<Rightarrow> bool res" where "stage_DeleteAlarm timeToDeleteMs = Inr False"

section \<open>Calls of a stage\<close>

text \<open>The operations of the interface, and the replies.\<close>

datatype operation =
    OGet bytes
  | OPut "(bytes \<times> bytes) list"
  | ODelete "bytes list"
  | OList bytes bytes int bool bytes
  | OGetMultiple "bytes list"
  | ODeleteAll
  | ORename "(bytes \<times> bytes) list"
  | OGetAlarm
  | OSetAlarm int
  | ODeleteAlarm int

datatype reply = RValue "bytes option" | RDone | RNumDeleted int | RStream "(bytes \<times> bytes) list"
  | RRenamed "bytes list" | RAlarm int | RDeleted bool

definition reply_of :: "('a \<Rightarrow> reply) \<Rightarrow> 'a res \<Rightarrow> reply res" where
  "reply_of f r = res_bind r (\<lambda>x. Inr (f x))"

fun stage_call :: "outcome \<Rightarrow> stageServer \<Rightarrow> operation \<Rightarrow> kv \<Rightarrow> reply res \<times> kv" where
  "stage_call out s (OGet k) db = (reply_of RValue (stage_Get out s k db), db)"
| "stage_call out s (OPut es) db = (case stage_Put out s es db of (r, db') \<Rightarrow> (reply_of (\<lambda>_. RDone) r, db'))"
| "stage_call out s (ODelete ks) db = (case stage_Delete out s ks db of (r, db') \<Rightarrow> (reply_of RNumDeleted r, db'))"
| "stage_call out s (OList b e n rv p) db = (reply_of RStream (stage_List out s b e n rv p db), db)"
| "stage_call out s (OGetMultiple ks) db = (reply_of RStream (stage_GetMultiple out s ks db), db)"
| "stage_call out s ODeleteAll db = (case stage_DeleteAll out s db of (r, db') \<Rightarrow> (reply_of RNumDeleted r, db'))"
| "stage_call out s (ORename es) db = (reply_of RRenamed (stage_Rename es), db)"
| "stage_call out s OGetAlarm db = (reply_of RAlarm stage_GetAlarm, db)"
| "stage_call out s (OSetAlarm t) db = (reply_of (\<lambda>_. RDone) (stage_SetAlarm t), db)"
| "stage_call out s (ODeleteAlarm t) db = (reply_of RDeleted (stage_DeleteAlarm t), db)"

text \<open>The transaction capability of a stage: it delegates, and commit and rollback do nothing.\<close>

datatype txn_operation = TOp operation | TCommit | TRollback

fun txn_call :: "outcome \<Rightarrow> stageServer \<Rightarrow> txn_operation \<Rightarrow> kv \<Rightarrow> reply res \<times> kv" where
  "txn_call out s (TOp p) db = stage_call out s p db"
| "txn_call out s TCommit db = (Inr RDone, db)"
| "txn_call out s TRollback db = (Inr RDone, db)"

text \<open>Calls of several actors against one database, in the order in which they take effect.\<close>

fun run_calls :: "(outcome \<times> stageServer \<times> txn_operation) list \<Rightarrow> kv \<Rightarrow> (stageServer \<times> reply res) list \<times> kv" where
  "run_calls [] db = ([], db)"
| "run_calls ((out, s, p) # cs) db =
     (case txn_call out s p db of (r, db1) \<Rightarrow>
      (case run_calls cs db1 of (rs, db2) \<Rightarrow> ((s, r) # rs, db2)))"

section \<open>The specification: one map per actor\<close>

type_synonym actor_map = "bytes \<Rightarrow> bytes option"

definition spec_list :: "actor_map \<Rightarrow> bytes \<Rightarrow> bytes \<Rightarrow> int \<Rightarrow> (bytes \<times> bytes) list" where
  "spec_list m b e limit =
     map (\<lambda>k. (k, the (m k)))
       (take (nat (list_limit limit)) (sorted_list_of_set {k \<in> dom m. b \<le> k \<and> (e \<noteq> [] \<longrightarrow> k < e)}))"

fun spec_effect :: "operation \<Rightarrow> actor_map \<Rightarrow> actor_map" where
  "spec_effect (OPut es) m = m ++ map_of (rev es)"
| "spec_effect (ODelete ks) m = m |` (- set ks)"
| "spec_effect ODeleteAll m = Map.empty"
| "spec_effect _ m = m"

fun spec_reply :: "operation \<Rightarrow> actor_map \<Rightarrow> reply res" where
  "spec_reply (OGet k) m = Inr (RValue (m k))"
| "spec_reply (OPut es) m = Inr RDone"
| "spec_reply (ODelete ks) m = Inr (RNumDeleted (wrap32 (int (length ks))))"
| "spec_reply (OList b e n rv p) m = Inr (RStream (spec_list m b e n))"
| "spec_reply (OGetMultiple ks) m = Inr (RStream (map (\<lambda>k. (k, the (m k))) (filter (\<lambda>k. m k \<noteq> None) ks)))"
| "spec_reply ODeleteAll m = Inr (RNumDeleted 0)"
| "spec_reply (ORename es) m = Inl (Err ''rename not supported'')"
| "spec_reply OGetAlarm m = Inr (RAlarm 0)"
| "spec_reply (OSetAlarm t) m = Inr RDone"
| "spec_reply (ODeleteAlarm t) m = Inr (RDeleted False)"

text \<open>Whether the operation calls the KV client at all.\<close>

fun uses_db :: "operation \<Rightarrow> bool" where
  "uses_db (ORename es) = False"
| "uses_db OGetAlarm = False"
| "uses_db (OSetAlarm t) = False"
| "uses_db (ODeleteAlarm t) = False"
| "uses_db (OGetMultiple ks) = (ks \<noteq> [])"
| "uses_db _ = True"

definition spec_call :: "outcome \<Rightarrow> operation \<Rightarrow> actor_map \<Rightarrow> reply res \<times> actor_map" where
  "spec_call out p m =
     (if out \<noteq> Done \<and> uses_db p then Inl storage_error else spec_reply p m, apply_write out (spec_effect p) m)"

fun spec_txn_call :: "outcome \<Rightarrow> txn_operation \<Rightarrow> actor_map \<Rightarrow> reply res \<times> actor_map" where
  "spec_txn_call out (TOp p) m = spec_call out p m"
| "spec_txn_call out TCommit m = (Inr RDone, m)"
| "spec_txn_call out TRollback m = (Inr RDone, m)"

fun spec_run :: "(outcome \<times> txn_operation) list \<Rightarrow> actor_map \<Rightarrow> reply res list \<times> actor_map" where
  "spec_run [] m = ([], m)"
| "spec_run ((out, p) # cs) m =
     (case spec_txn_call out p m of (r, m1) \<Rightarrow> (case spec_run cs m1 of (rs, m2) \<Rightarrow> (r # rs, m2)))"

text \<open>What an actor sees of the database, and the form of the rows of the storage service.\<close>

definition view :: "stageServer \<Rightarrow> kv \<Rightarrow> actor_map" where
  "view s db u = (case map_of db (kvKey s u) of None \<Rightarrow> None | Some v \<Rightarrow>
     (case GetBytes v of Inl e \<Rightarrow> None | Inr b \<Rightarrow> Some b))"

definition stage_ok :: "stageServer \<Rightarrow> bool" where
  "stage_ok s \<longleftrightarrow> length (st_hash s) = ActorHashLen \<and>
     (\<exists>t. InternalValue t \<noteq> 0 \<and> MakeTenantPrefix t = Inr (TenantPrefix_of (st_codec s)))"

definition rows_ok :: "kv \<Rightarrow> bool" where
  "rows_ok db \<longleftrightarrow> kv_ok db \<and> (\<forall>s r v. stage_ok s \<longrightarrow> map_of db (doPrefix s @ r) = Some v \<longrightarrow>
     (\<exists>u b. r = EncodeBytesAscending [] u \<and> GetBytes v = Inr b))"

section \<open>The store implements the contract\<close>

lemma map_of_kv_insert: "kv_ok db \<Longrightarrow> map_of (kv_insert k v db) = (map_of db)(k \<mapsto> v)"
  by (induction k v db rule: kv_insert.induct) (auto simp: kv_ok_def)

lemma set_kv_insert: "set (map fst (kv_insert k v db)) = insert k (set (map fst db))"
  by (induction k v db rule: kv_insert.induct) auto

lemma kv_ok_insert: "kv_ok db \<Longrightarrow> kv_ok (kv_insert k v db)"
proof (induction k v db rule: kv_insert.induct)
  case (2 k v l w db)
  then show ?case using set_kv_insert [of k v db] by (auto simp: kv_ok_def)
qed (simp add: kv_ok_def)

lemma kv_ok_put: "kv_ok db \<Longrightarrow> kv_ok (kv_put kvs db)"
  by (induction kvs db rule: kv_put.induct) (auto simp: kv_ok_insert)

lemma map_of_kv_put: "kv_ok db \<Longrightarrow> map_of (kv_put kvs db) = map_of db ++ map_of (rev kvs)"
  by (induction kvs db rule: kv_put.induct) (auto simp: kv_ok_insert map_of_kv_insert)

lemma kv_ok_filter: "kv_ok db \<Longrightarrow> kv_ok (filter P db)"
  unfolding kv_ok_def by (metis sorted_wrt_filter sorted_wrt_map)

lemma map_of_filter_key: "map_of (filter (\<lambda>(k, v). P k) db) = (\<lambda>k. if P k then map_of db k else None)"
  by (induction db) auto

lemma kv_ok_rows: "kv_ok db \<Longrightarrow> db = map (\<lambda>k. (k, the (map_of db k))) (sorted_list_of_set (dom (map_of db)))"
proof -
  assume ok: "kv_ok db"
  then have d: "distinct (map fst db)" "sorted_wrt (<) (map fst db)" by (simp_all add: kv_ok_def strict_sorted_iff)
  have "sorted_list_of_set (dom (map_of db)) = map fst db"
    by (rule strict_sorted_equal) (use d in \<open>auto simp: dom_map_of_conv_image_fst\<close>)
  moreover have "map (\<lambda>k. (k, the (map_of db k))) (map fst db) = db" using d(1) by (auto intro!: map_idI)
  ultimately show ?thesis by simp
qed

interpretation kvs: ordered_store kv_ok map_of kv_put kv_del kv_del_range kv_scan
proof unfold_locales
  fix db :: kv and b e n
  assume ok: "kv_ok db"
  let ?f = "filter (\<lambda>(k, v). b \<le> k \<and> k < e) db"
  have m: "map_of ?f = (\<lambda>k. if b \<le> k \<and> k < e then map_of db k else None)" by (rule map_of_filter_key)
  then have dm: "dom (map_of ?f) = {k \<in> dom (map_of db). b \<le> k \<and> k < e}" by (auto split: if_splits)
  have "?f = map (\<lambda>k. (k, the (map_of ?f k))) (sorted_list_of_set {k \<in> dom (map_of db). b \<le> k \<and> k < e})"
    by (rule kv_ok_rows [OF kv_ok_filter [OF ok, of "\<lambda>(k, v). b \<le> k \<and> k < e"], unfolded dm])
  also have "\<dots> = map (\<lambda>k. (k, the (map_of db k))) (sorted_list_of_set {k \<in> dom (map_of db). b \<le> k \<and> k < e})"
    using m by (intro map_cong) (auto simp: finite_dom_map_of)
  finally show "kv_scan b e n db =
      map (\<lambda>k. (k, the (map_of db k))) (take n (sorted_list_of_set {k \<in> dom (map_of db). b \<le> k \<and> k < e}))"
    unfolding kv_scan_def take_map [symmetric] by simp
qed (auto simp: kv_ok_put map_of_kv_put kv_del_def kv_del_range_def kv_ok_filter map_of_filter_key finite_dom_map_of)

section \<open>Values and keys of a stage\<close>

lemma GetBytes_SetBytes: "GetBytes (SetBytes b) = Inr b"
  by (simp add: GetBytes_def SetBytes_def GetTag_def dataBytes_def slice_from_def headerSize_def tagPos_def checksumSize_def Let_def
    ValueType_BYTES_def nth_append list_update_append)

lemma kvKey_eq: "kvKey s u = doPrefix s @ EncodeBytesAscending [] u"
  by (simp add: kvKey_def doPrefix_def MakeDOKVKey_eq)

lemma kvKey_less [simp]: "kvKey s u < kvKey s v \<longleftrightarrow> u < v"
  using bytes_asc.order_iff by (simp add: kvKey_eq)

lemma kvKey_inj [simp]: "kvKey s u = kvKey s v \<longleftrightarrow> u = v"
  using bytes_asc.inj by (simp add: kvKey_eq)

lemma kvKey_le [simp]: "kvKey s u \<le> kvKey s v \<longleftrightarrow> u \<le> v"
  by (simp add: le_less)

lemma doPrefix_span: "doPrefix s \<le> x \<and> x < PrefixEnd (doPrefix s) \<longleftrightarrow> (\<exists>r. x = doPrefix s @ r)"
  unfolding doPrefix_def by (rule PrefixEnd_range) (simp add: MakeDOKVPrefix_eq actor_key_not_maximal)

text \<open>Stages of the same scope have the same keys; rows of different scopes never meet.\<close>

definition same_scope :: "stageServer \<Rightarrow> stageServer \<Rightarrow> bool" where
  "same_scope s s' \<longleftrightarrow> TenantPrefix_of (st_codec s) = TenantPrefix_of (st_codec s') \<and> st_hash s = st_hash s'"

lemma same_scope_kvKey: "same_scope s s' \<Longrightarrow> kvKey s = kvKey s' \<and> doPrefix s = doPrefix s'"
  by (auto simp: same_scope_def kvKey_def doPrefix_def)

lemma other_scope: "stage_ok s \<Longrightarrow> stage_ok s' \<Longrightarrow> \<not> same_scope s s' \<Longrightarrow> doPrefix s @ q \<noteq> doPrefix s' @ r"
proof
  assume ok: "stage_ok s" "stage_ok s'" and ne: "\<not> same_scope s s'" and e: "doPrefix s @ q = doPrefix s' @ r"
  obtain t t' where t: "InternalValue t \<noteq> 0" "MakeTenantPrefix t = Inr (TenantPrefix_of (st_codec s))"
    "InternalValue t' \<noteq> 0" "MakeTenantPrefix t' = Inr (TenantPrefix_of (st_codec s'))"
    "length (st_hash s) = ActorHashLen" "length (st_hash s') = ActorHashLen" using ok unfolding stage_ok_def by blast
  let ?x = "EncodeUvarintAscending [] DOKVTableID @ EncodeUvarintAscending [] 1"
  have "actor_key (TenantPrefix_of (st_codec s)) (st_hash s) (?x @ q) = actor_key (TenantPrefix_of (st_codec s')) (st_hash s') (?x @ r)"
    using e by (simp add: doPrefix_def MakeDOKVPrefix_eq actor_key_def)
  from actor_key_inj [OF t(2,1,4,3,5,6) this] have "t = t' \<and> st_hash s = st_hash s'" by blast
  then show False using ne t(2,4) by (simp add: same_scope_def)
qed

section \<open>Every operation refines the specification\<close>

lemma rows_ok_row:
  assumes "rows_ok db" "stage_ok s" "map_of db (doPrefix s @ r) = Some v"
  obtains u b where "doPrefix s @ r = kvKey s u" "GetBytes v = Inr b" "view s db u = Some b"
proof -
  obtain u b where "r = EncodeBytesAscending [] u" "GetBytes v = Inr b" using assms unfolding rows_ok_def by blast
  then show thesis using that [of u b] assms(3) by (simp add: kvKey_eq view_def)
qed

lemma view_Some:
  assumes "rows_ok db" "stage_ok s"
  shows "map_of db (kvKey s u) = Some v \<Longrightarrow> \<exists>b. GetBytes v = Inr b \<and> view s db u = Some b"
    and "map_of db (kvKey s u) = None \<longleftrightarrow> view s db u = None"
proof -
  have *: "\<exists>b. GetBytes v = Inr b" if "map_of db (kvKey s u) = Some v" for v
    using assms that unfolding rows_ok_def kvKey_eq by blast
  then show "map_of db (kvKey s u) = Some v \<Longrightarrow> \<exists>b. GetBytes v = Inr b \<and> view s db u = Some b"
    by (auto simp: view_def)
  show "map_of db (kvKey s u) = None \<longleftrightarrow> view s db u = None"
    using * by (cases "map_of db (kvKey s u)") (auto simp: view_def)
qed

lemma multiple_entries_view:
  assumes "rows_ok db" "stage_ok s"
  shows "multiple_entries s ks db = Inr (map (\<lambda>k. (k, the (view s db k))) (filter (\<lambda>k. view s db k \<noteq> None) ks))"
proof (induction ks)
  case (Cons k ks)
  show ?case
  proof (cases "map_of db (kvKey s k)")
    case None
    then show ?thesis using Cons view_Some(2) [OF assms, of k] by simp
  next
    case (Some v)
    then obtain b where "GetBytes v = Inr b" "view s db k = Some b" using view_Some(1) [OF assms] by blast
    then show ?thesis using Cons Some by simp
  qed
qed simp

lemma list_entries_view:
  assumes "rows_ok db" "stage_ok s" "set us \<subseteq> dom (view s db)"
  shows "list_entries (length (doPrefix s)) (map (\<lambda>u. (kvKey s u, the (map_of db (kvKey s u)))) us) =
    Inr (map (\<lambda>u. (u, the (view s db u))) us)"
  using assms(3)
proof (induction us)
  case (Cons u us)
  then have "view s db u \<noteq> None" by auto
  then obtain v where v: "map_of db (kvKey s u) = Some v" using view_Some(2) [OF assms(1,2), of u] by (cases "map_of db (kvKey s u)") auto
  then obtain b where b: "GetBytes v = Inr b" "view s db u = Some b" using view_Some(1) [OF assms(1,2)] by blast
  have "decodeBytesKey (EncodeBytesAscending [] u) = Inr u"
    using bytes_asc.roundtrip [OF TrueI, of u "[]"] by (simp add: decodeBytesKey_def)
  then show ?case using Cons v b by (simp add: kvKey_eq slice_from_def)
qed simp

lemma list_span:
  assumes "rows_ok db" "stage_ok s"
  shows "{k \<in> dom (map_of db). (if length b > 0 then kvKey s b else doPrefix s) \<le> k \<and>
        k < (if length e > 0 then kvKey s e else PrefixEnd (doPrefix s))} =
    kvKey s ` {k \<in> dom (view s db). b \<le> k \<and> (e \<noteq> [] \<longrightarrow> k < e)}" (is "?L = ?R")
proof -
  have pre: "doPrefix s \<le> kvKey s u" "kvKey s u < PrefixEnd (doPrefix s)" for u
    using doPrefix_span [of s "kvKey s u"] kvKey_eq by blast+
  have key: "\<exists>u. k = kvKey s u \<and> view s db u \<noteq> None" if k: "k \<in> ?L" for k
  proof -
    have "doPrefix s \<le> k \<and> k < PrefixEnd (doPrefix s)" using that pre by (auto split: if_splits intro: order_trans less_trans)
    then obtain r where r: "k = doPrefix s @ r" using doPrefix_span by blast
    obtain v where "map_of db k = Some v" using k by blast
    then show ?thesis using rows_ok_row [OF assms, of r v] r by (metis option.distinct(1))
  qed
  have mem: "kvKey s u \<in> ?L \<longleftrightarrow> u \<in> {k \<in> dom (view s db). b \<le> k \<and> (e \<noteq> [] \<longrightarrow> k < e)}" for u
    using pre view_Some(2) [OF assms, of u] by (auto simp: domIff)
  show ?thesis using key mem by blast
qed

lemma stage_List_view:
  assumes "rows_ok db" "stage_ok s"
  shows "stage_List Done s b e n rv p db = Inr (spec_list (view s db) b e n)"
proof -
  let ?S = "{k \<in> dom (view s db). b \<le> k \<and> (e \<noteq> [] \<longrightarrow> k < e)}"
  have kv: "kv_ok db" using assms(1) by (simp add: rows_ok_def)
  have "finite (kvKey s ` ?S)" unfolding list_span [OF assms, symmetric] using kvs.finite_rows [OF kv] by simp
  then have fin: "finite ?S" by (rule finite_imageD) (simp add: inj_on_def)
  then have "set (take (nat (list_limit n)) (sorted_list_of_set ?S)) \<subseteq> dom (view s db)"
    using set_take_subset by fastforce
  then show ?thesis using kvs.scan_image [OF kv kvKey_less list_span [OF assms], of b e] list_entries_view [OF assms]
    by (simp add: stage_List_def spec_list_def Let_def)
qed

text \<open>What a write of a stage does to the rows: it changes only rows of its scope, to good ones.\<close>

definition scoped_write :: "stageServer \<Rightarrow> (actor_map \<Rightarrow> actor_map) \<Rightarrow> kv \<Rightarrow> kv \<Rightarrow> bool" where
  "scoped_write s f db db' \<longleftrightarrow> kv_ok db' \<and> view s db' = f (view s db) \<and>
     (\<forall>k. (\<forall>r. k \<noteq> doPrefix s @ r) \<longrightarrow> map_of db' k = map_of db k) \<and>
     (\<forall>r v. map_of db' (doPrefix s @ r) = Some v \<longrightarrow> (\<exists>u b. r = EncodeBytesAscending [] u \<and> GetBytes v = Inr b))"

lemma scoped_write_view:
  assumes "scoped_write s f db db'" "stage_ok s" "stage_ok s'"
  shows "view s' db' = (if same_scope s s' then f (view s' db) else view s' db)"
proof (cases "same_scope s s'")
  case True
  then have "view s' = view s" using same_scope_kvKey [OF True] by (simp add: view_def fun_eq_iff)
  then show ?thesis using True assms(1) by (simp add: scoped_write_def)
next
  case False
  then have "map_of db' (kvKey s' u) = map_of db (kvKey s' u)" for u
    using assms(1) other_scope [OF assms(2,3) False] unfolding scoped_write_def kvKey_eq by metis
  then show ?thesis using False by (simp add: view_def fun_eq_iff)
qed

lemma scoped_write_rows:
  assumes w: "scoped_write s f db db'" and ok: "rows_ok db" "stage_ok s"
  shows "rows_ok db'"
  unfolding rows_ok_def
proof (intro conjI allI impI)
  show "kv_ok db'" using w by (simp add: scoped_write_def)
  fix s' r v assume s': "stage_ok s'" and r: "map_of db' (doPrefix s' @ r) = Some v"
  show "\<exists>u b. r = EncodeBytesAscending [] u \<and> GetBytes v = Inr b"
  proof (cases "same_scope s s'")
    case True
    then show ?thesis using w r same_scope_kvKey [OF True] unfolding scoped_write_def by metis
  next
    case False
    then have "map_of db (doPrefix s' @ r) = Some v"
      using w r other_scope [OF ok(2) s' False] unfolding scoped_write_def by metis
    then show ?thesis using ok(1) s' unfolding rows_ok_def by blast
  qed
qed

lemma scoped_write_refl: "rows_ok db \<Longrightarrow> stage_ok s \<Longrightarrow> scoped_write s (\<lambda>m. m) db db"
  unfolding scoped_write_def rows_ok_def by blast

lemma map_of_keyed: "map_of (map (\<lambda>(u, x). (kvKey s u, SetBytes x)) es) (kvKey s u) = map_option SetBytes (map_of es u)"
  by (induction es) auto

lemma put_scoped:
  assumes "rows_ok db" "stage_ok s"
  shows "scoped_write s (\<lambda>m. m ++ map_of (rev es)) db (kv_put (map (\<lambda>(u, x). (kvKey s u, SetBytes x)) es) db)"
    (is "scoped_write s ?f db ?db'")
proof -
  let ?b = "map (\<lambda>(u, x). (kvKey s u, SetBytes x)) (rev es)"
  have kv: "kv_ok db" using assms(1) by (simp add: rows_ok_def)
  have m: "map_of ?db' = map_of db ++ map_of ?b" using kvs.lookup_put [OF kv] by (simp add: rev_map)
  have "view s ?db' u = ?f (view s db) u" for u
    using map_of_keyed [of s "rev es" u] by (cases "map_of (rev es) u") (simp_all add: view_def m map_add_def GetBytes_SetBytes)
  moreover have new: "\<exists>u x. k = kvKey s u \<and> v = SetBytes x" if "map_of ?b k = Some v" for k v
    using map_of_SomeD [OF that] by auto
  moreover have "map_of ?db' k = map_of db k" if "\<forall>r. k \<noteq> doPrefix s @ r" for k
  proof -
    have "map_of ?b k = None" using new [of k] that kvKey_eq by (cases "map_of ?b k") blast+
    then show ?thesis by (simp add: m map_add_def)
  qed
  moreover have "\<exists>u b. r = EncodeBytesAscending [] u \<and> GetBytes v = Inr b" if v: "map_of ?db' (doPrefix s @ r) = Some v" for r v
  proof (cases "map_of ?b (doPrefix s @ r)")
    case None
    then have "map_of db (doPrefix s @ r) = Some v" using v unfolding m map_add_def by simp
    then show ?thesis using assms unfolding rows_ok_def by blast
  next
    case (Some w)
    then have "w = v" using v unfolding m map_add_def by simp
    then show ?thesis using new [OF Some] GetBytes_SetBytes by (auto simp: kvKey_eq)
  qed
  ultimately show ?thesis using kvs.inv_put [OF kv] unfolding scoped_write_def by blast
qed

lemma restrict_scoped:
  assumes "rows_ok db" "stage_ok s" "kv_ok db'"
    and m: "\<And>k. map_of db' k = (if k \<in> D then None else map_of db k)"
    and D: "\<And>k. k \<in> D \<Longrightarrow> \<exists>r. k = doPrefix s @ r"
  shows "scoped_write s (\<lambda>m. m |` (- {u. kvKey s u \<in> D})) db db'"
proof -
  have "view s db' u = (view s db |` (- {u. kvKey s u \<in> D})) u" for u
    by (simp add: view_def m restrict_map_def)
  then have "view s db' = view s db |` (- {u. kvKey s u \<in> D})" by (rule ext)
  moreover have "map_of db' k = map_of db k" if "\<forall>r. k \<noteq> doPrefix s @ r" for k using m [of k] D [of k] that by auto
  moreover have "map_of db k = Some v" if "map_of db' k = Some v" for k v using m [of k] that by (simp split: if_splits)
  ultimately show ?thesis using assms(1-3) unfolding scoped_write_def rows_ok_def by blast
qed

lemma del_scoped:
  assumes "rows_ok db" "stage_ok s"
  shows "scoped_write s (\<lambda>m. m |` (- set ks)) db (kv_del (map (kvKey s) ks) db)"
proof -
  have kv: "kv_ok db" using assms(1) by (simp add: rows_ok_def)
  have "{u. kvKey s u \<in> kvKey s ` set ks} = set ks" by auto
  then show ?thesis using restrict_scoped [OF assms kvs.inv_del [OF kv], of "map (kvKey s) ks" "kvKey s ` set ks"]
      kvs.lookup_del [OF kv] kvKey_eq by auto
qed

lemma del_range_scoped:
  assumes "rows_ok db" "stage_ok s"
  shows "scoped_write s (\<lambda>m. Map.empty) db (kv_del_range (doPrefix s) (PrefixEnd (doPrefix s)) db)"
proof -
  have kv: "kv_ok db" using assms(1) by (simp add: rows_ok_def)
  let ?D = "{k. doPrefix s \<le> k \<and> k < PrefixEnd (doPrefix s)}"
  have "- {u. kvKey s u \<in> ?D} = {}" using doPrefix_span kvKey_eq by auto
  then have "(\<lambda>m. m |` (- {u. kvKey s u \<in> ?D})) = (\<lambda>m :: actor_map. Map.empty)" by (simp only: restrict_map_to_empty)
  moreover have "scoped_write s (\<lambda>m. m |` (- {u. kvKey s u \<in> ?D})) db (kv_del_range (doPrefix s) (PrefixEnd (doPrefix s)) db)"
    by (rule restrict_scoped [OF assms kvs.inv_del_range [OF kv]]) (use kvs.lookup_del_range [OF kv] doPrefix_span in auto)
  ultimately show ?thesis by (simp only:)
qed

lemma apply_write_outcome [simp]:
  "apply_write Done f = f" "apply_write Ambiguous f = f" "apply_write Failed f = (\<lambda>db. db)" "apply_write out (\<lambda>m. m) = (\<lambda>m. m)"
  by (simp_all add: apply_write_def fun_eq_iff)

lemma apply_write_scoped:
  assumes "rows_ok db" "stage_ok s" "scoped_write s f db (g db)"
  shows "scoped_write s (apply_write out f) db (apply_write out g db)"
  using assms scoped_write_refl [OF assms(1,2)] by (cases out) simp_all

lemma spec_effect_fun:
  "spec_effect (OPut es) = (\<lambda>m. m ++ map_of (rev es))" "spec_effect (ODelete ks) = (\<lambda>m. m |` (- set ks))"
  "spec_effect ODeleteAll = (\<lambda>m. Map.empty)" "spec_effect (OGet k) = (\<lambda>m. m)" "spec_effect (OList b e n rv q) = (\<lambda>m. m)"
  "spec_effect (OGetMultiple ks) = (\<lambda>m. m)" "spec_effect (ORename rs) = (\<lambda>m. m)" "spec_effect OGetAlarm = (\<lambda>m. m)"
  "spec_effect (OSetAlarm t) = (\<lambda>m. m)" "spec_effect (ODeleteAlarm t) = (\<lambda>m. m)"
  by (rule ext, simp)+

lemma stage_call_write:
  assumes "rows_ok db" "stage_ok s"
  shows "scoped_write s (apply_write out (spec_effect p)) db (snd (stage_call out s p db))"
proof -
  have idle: "scoped_write s (apply_write out (\<lambda>m. m)) db db"
    using scoped_write_refl [OF assms] by simp
  note w = apply_write_scoped [OF assms, where out = out]
  show ?thesis
  proof (cases p)
    case (OPut es)
    have "scoped_write s (apply_write out (\<lambda>m. m ++ map_of (rev es))) db
        (apply_write out (kv_put (map (\<lambda>(u, x). (kvKey s u, SetBytes x)) es)) db)" by (rule w) (rule put_scoped [OF assms])
    then show ?thesis by (simp add: OPut stage_Put_def Let_def spec_effect_fun)
  next
    case (ODelete ks)
    have "scoped_write s (apply_write out (\<lambda>m. m |` (- set ks))) db (apply_write out (kv_del (map (kvKey s) ks)) db)"
      by (rule w) (rule del_scoped [OF assms])
    then show ?thesis by (simp add: ODelete stage_Delete_def Let_def spec_effect_fun)
  next
    case ODeleteAll
    have "scoped_write s (apply_write out (\<lambda>m. Map.empty)) db
        (apply_write out (kv_del_range (doPrefix s) (PrefixEnd (doPrefix s))) db)" by (rule w) (rule del_range_scoped [OF assms])
    then show ?thesis by (simp add: ODeleteAll stage_DeleteAll_def spec_effect_fun)
  qed (use idle in \<open>simp_all add: spec_effect_fun\<close>)
qed

lemma stage_call_reply:
  assumes "rows_ok db" "stage_ok s"
  shows "fst (stage_call out s p db) =
    (if out \<noteq> Done \<and> uses_db p then Inl storage_error else spec_reply p (view s db))"
proof (cases p)
  case (OGet k)
  show ?thesis
  proof (cases "map_of db (kvKey s k)")
    case None
    then show ?thesis using view_Some(2) [OF assms, of k] by (simp add: OGet stage_Get_def reply_of_def)
  next
    case (Some v)
    then obtain b where "GetBytes v = Inr b" "view s db k = Some b" using view_Some(1) [OF assms] by blast
    then show ?thesis using Some by (simp add: OGet stage_Get_def reply_of_def)
  qed
next
  case (OList b e n rv q)
  then show ?thesis using stage_List_view [OF assms, of b e n rv q]
    by (cases "out = Done") (simp_all add: reply_of_def stage_List_def Let_def)
next
  case (OGetMultiple ks)
  then show ?thesis using multiple_entries_view [OF assms] by (auto simp: stage_GetMultiple_def reply_of_def)
qed (simp_all add: stage_Put_def stage_Delete_def stage_DeleteAll_def stage_Rename_def stage_GetAlarm_def stage_SetAlarm_def
  stage_DeleteAlarm_def reply_of_def Let_def)

lemma stage_call_refines:
  assumes "rows_ok db" "stage_ok s"
  shows "(fst (stage_call out s p db), view s (snd (stage_call out s p db))) = spec_call out p (view s db)"
  using stage_call_reply [OF assms] stage_call_write [OF assms] by (simp add: spec_call_def scoped_write_def)

lemma txn_call_step:
  assumes "rows_ok db" "stage_ok s"
  shows "rows_ok (snd (txn_call out s p db))"
    and "(fst (txn_call out s p db), view s (snd (txn_call out s p db))) = spec_txn_call out p (view s db)"
    and "stage_ok s' \<Longrightarrow> \<not> same_scope s s' \<Longrightarrow> view s' (snd (txn_call out s p db)) = view s' db"
proof -
  note w = stage_call_write [OF assms]
  show "rows_ok (snd (txn_call out s p db))" using scoped_write_rows [OF w assms] assms(1) by (cases p) simp_all
  show "(fst (txn_call out s p db), view s (snd (txn_call out s p db))) = spec_txn_call out p (view s db)"
    using stage_call_refines [OF assms] by (cases p) simp_all
  show "stage_ok s' \<Longrightarrow> \<not> same_scope s s' \<Longrightarrow> view s' (snd (txn_call out s p db)) = view s' db"
    using scoped_write_view [OF w assms(2)] by (cases p) simp_all
qed

text \<open>The calls of one scope in a sequence of calls, and the replies to them.\<close>

definition calls_of :: "stageServer \<Rightarrow> (outcome \<times> stageServer \<times> txn_operation) list \<Rightarrow> (outcome \<times> txn_operation) list" where
  "calls_of s cs = map (\<lambda>(out, _, p). (out, p)) (filter (\<lambda>(_, s', _). same_scope s s') cs)"

definition replies_to :: "stageServer \<Rightarrow> (stageServer \<times> reply res) list \<Rightarrow> reply res list" where
  "replies_to s rs = map snd (filter (\<lambda>(s', _). same_scope s s') rs)"

lemma same_scope_view: "same_scope s s' \<Longrightarrow> view s = view s'"
  using same_scope_kvKey [of s s'] by (simp add: view_def fun_eq_iff)

lemma same_scope_sym: "same_scope s s' \<longleftrightarrow> same_scope s' s"
  by (auto simp: same_scope_def)

lemma run_calls_refines:
  assumes "rows_ok db" "stage_ok s" "\<forall>(out, s', p) \<in> set cs. stage_ok s'" "run_calls cs db = (rs, db')"
  shows "rows_ok db' \<and> spec_run (calls_of s cs) (view s db) = (replies_to s rs, view s db')"
  using assms(1,3,4)
proof (induction cs arbitrary: db rs)
  case (Cons c cs)
  obtain out s' p where c: "c = (out, s', p)" by (cases c)
  obtain r db1 where r: "txn_call out s' p db = (r, db1)" by fastforce
  obtain rs1 where rs: "run_calls cs db1 = (rs1, db')" "rs = (s', r) # rs1"
    using Cons.prems(3) unfolding c by (auto simp: r split: prod.splits)
  have s': "stage_ok s'" using Cons.prems(2) by (simp add: c)
  note step = txn_call_step [OF Cons.prems(1) s', where out = out and p = p, unfolded r fst_conv snd_conv]
  have ih: "rows_ok db' \<and> spec_run (calls_of s cs) (view s db1) = (replies_to s rs1, view s db')"
    using Cons.IH [OF step(1) _ rs(1)] Cons.prems(2) by simp
  show ?case
  proof (cases "same_scope s s'")
    case True
    then have "spec_txn_call out p (view s db) = (r, view s db1)" using step(2) same_scope_view [OF True] by simp
    then show ?thesis using ih True rs(2) by (simp add: c calls_of_def replies_to_def)
  next
    case False
    then have "view s db1 = view s db" using step(3) [OF assms(2)] same_scope_sym by blast
    then show ?thesis using ih False rs(2) by (simp add: c calls_of_def replies_to_def)
  qed
qed (simp add: calls_of_def replies_to_def)

section \<open>Properties\<close>

text \<open>
  C1. Whatever calls actors make against the shared database, in any order and with any failures of
  the KV client, the replies an actor receives and the contents it sees in the end are those of its
  own calls alone on a map from user keys to values: actors cannot observe each other. A failed
  write has no effect or, when its outcome is ambiguous, all of it; commit and rollback of a
  transaction have no effect at all.
\<close>

theorem actor_storage_refinement:
  assumes "rows_ok db" "stage_ok s" "\<forall>(out, s', p) \<in> set cs. stage_ok s'" "run_calls cs db = (rs, db')"
  shows "rows_ok db' \<and> spec_run (calls_of s cs) (view s db) = (replies_to s rs, view s db')"
  by (rule run_calls_refines [OF assms])

theorem actor_storage_refinement_witness:
  "\<exists>rs db'. run_calls
     [(Done, \<lparr>st_codec = \<lparr>buf = [], endKey = [255]\<rparr>, st_hash = replicate 16 1\<rparr>, TOp (OPut [([5], [6])])),
      (Done, \<lparr>st_codec = \<lparr>buf = [], endKey = [255]\<rparr>, st_hash = replicate 16 2\<rparr>, TOp (OGet [5])),
      (Done, \<lparr>st_codec = \<lparr>buf = [], endKey = [255]\<rparr>, st_hash = replicate 16 2\<rparr>, TRollback)] [] = (rs, db') \<and>
   replies_to \<lparr>st_codec = \<lparr>buf = [], endKey = [255]\<rparr>, st_hash = replicate 16 2\<rparr> rs = [Inr (RValue None), Inr RDone]"
proof -
  let ?s = "\<lambda>n. \<lparr>st_codec = \<lparr>buf = [], endKey = [255]\<rparr>, st_hash = replicate 16 n\<rparr> :: stageServer"
  let ?cs = "[(Done, ?s 1, TOp (OPut [([5], [6])])), (Done, ?s 2, TOp (OGet [5])), (Done, ?s 2, TRollback)]"
  have "InternalValue SystemTenantID \<noteq> 0 \<and> MakeTenantPrefix SystemTenantID = Inr []"
    by (simp add: MakeTenantPrefix_def SystemTenantID_def)
  then have s: "stage_ok (?s n)" for n unfolding stage_ok_def by (auto simp: ActorHashLen_def TenantPrefix_of_def)
  have db: "rows_ok []" by (simp add: rows_ok_def kv_ok_def)
  obtain rs db' where r: "run_calls ?cs [] = (rs, db')" by fastforce
  have ok: "\<forall>(out, s', p) \<in> set ?cs. stage_ok s'" using s by simp
  have v: "view (?s 2) [] = Map.empty" by (simp add: view_def fun_eq_iff)
  have "calls_of (?s 2) ?cs = [(Done, TOp (OGet [5])), (Done, TRollback)]"
    by (simp add: calls_of_def same_scope_def numeral_eq_Suc)
  then have "spec_run (calls_of (?s 2) ?cs) (view (?s 2) []) = ([Inr (RValue None), Inr RDone], Map.empty)"
    unfolding v by (simp add: spec_call_def)
  then have "replies_to (?s 2) rs = [Inr (RValue None), Inr RDone]"
    using actor_storage_refinement [OF db s [of 2] ok r] by simp
  then show ?thesis using r by blast
qed

text \<open>
  C28. A listing returns entries of the actor in increasing key order, each once, within the bounds
  (an empty end is no bound), never more than \<open>maxListLimit\<close>; it leaves out no entry before its
  last one, and none at all when it is shorter than the limit. The arguments \<open>reverse\<close> and
  \<open>prefix\<close> have no influence.
\<close>

theorem list_bounds:
  assumes "rows_ok db" "stage_ok s"
  shows "\<exists>rows. stage_List Done s b e n rv p db = Inr rows \<and> stage_List Done s b e n (\<not> rv) p' db = Inr rows \<and>
    sorted_wrt (<) (map fst rows) \<and> int (length rows) \<le> list_limit n \<and> 0 < list_limit n \<and> list_limit n \<le> maxListLimit \<and>
    (\<forall>(k, v) \<in> set rows. view s db k = Some v \<and> b \<le> k \<and> (e \<noteq> [] \<longrightarrow> k < e)) \<and>
    (\<forall>k v. view s db k = Some v \<and> b \<le> k \<and> (e \<noteq> [] \<longrightarrow> k < e) \<longrightarrow>
       (k, v) \<in> set rows \<or> int (length rows) = list_limit n \<and> (\<forall>r \<in> set rows. fst r < k))"
proof -
  let ?m = "view s db"
  define S where "S = {k \<in> dom ?m. b \<le> k \<and> (e \<noteq> [] \<longrightarrow> k < e)}"
  define xs where "xs = sorted_list_of_set S"
  define ks where "ks = take (nat (list_limit n)) xs"
  have lim: "0 < list_limit n" "list_limit n \<le> maxListLimit" by (simp_all add: list_limit_def maxListLimit_def Let_def)
  have kv: "kv_ok db" using assms(1) by (simp add: rows_ok_def)
  have "finite (kvKey s ` S)" unfolding S_def list_span [OF assms, symmetric] using kvs.finite_rows [OF kv] by simp
  then have fin: "finite S" by (rule finite_imageD) (simp add: inj_on_def)
  have xs: "set xs = S" "sorted_wrt (<) xs" using fin by (simp_all add: xs_def)
  have split: "xs = ks @ drop (nat (list_limit n)) xs" by (simp add: ks_def)
  have ks: "sorted_wrt (<) ks" "set ks \<subseteq> S" using xs set_take_subset [of _ xs] by (auto simp: ks_def sorted_wrt_take)
  have rows: "stage_List Done s b e n rv p db = Inr (map (\<lambda>k. (k, the (?m k))) ks)" for rv p
    using stage_List_view [OF assms] by (simp add: spec_list_def ks_def xs_def S_def)
  have rest: "k \<in> set ks \<or> int (length ks) = list_limit n \<and> (\<forall>l \<in> set ks. l < k)" if "k \<in> S" for k
  proof -
    have *: "k \<in> set ks \<or> k \<in> set (drop (nat (list_limit n)) xs)" using that xs(1) split by (metis Un_iff set_append)
    have "\<forall>l \<in> set ks. l < k" if "k \<in> set (drop (nat (list_limit n)) xs)"
      using that xs(2) split by (metis sorted_wrt_append)
    moreover have "int (length ks) = list_limit n" if "k \<in> set (drop (nat (list_limit n)) xs)"
      using that lim(1) by (cases "nat (list_limit n) < length xs") (auto simp: ks_def)
    ultimately show ?thesis using * by blast
  qed
  show ?thesis
  proof (intro exI conjI)
    show "int (length (map (\<lambda>k. (k, the (?m k))) ks)) \<le> list_limit n" using lim(1) by (simp add: ks_def)
    show "\<forall>(k, v) \<in> set (map (\<lambda>k. (k, the (?m k))) ks). ?m k = Some v \<and> b \<le> k \<and> (e \<noteq> [] \<longrightarrow> k < e)"
      using ks(2) by (auto simp: S_def)
    show "\<forall>k v. ?m k = Some v \<and> b \<le> k \<and> (e \<noteq> [] \<longrightarrow> k < e) \<longrightarrow> (k, v) \<in> set (map (\<lambda>k. (k, the (?m k))) ks) \<or>
        int (length (map (\<lambda>k. (k, the (?m k))) ks)) = list_limit n \<and> (\<forall>r \<in> set (map (\<lambda>k. (k, the (?m k))) ks). fst r < k)"
      using rest by (force simp: S_def)
  qed (use rows lim ks(1) in \<open>simp_all add: comp_def\<close>)
qed

theorem list_bounds_witness:
  "\<exists>rows. stage_List Done \<lparr>st_codec = \<lparr>buf = [], endKey = [255]\<rparr>, st_hash = replicate 16 2\<rparr> [] [] 0 True [1] [] = Inr rows \<and>
     int (length rows) \<le> 1000"
proof -
  let ?s = "\<lparr>st_codec = \<lparr>buf = [], endKey = [255]\<rparr>, st_hash = replicate 16 2\<rparr> :: stageServer"
  have "InternalValue SystemTenantID \<noteq> 0 \<and> MakeTenantPrefix SystemTenantID = Inr []"
    by (simp add: MakeTenantPrefix_def SystemTenantID_def)
  then have s: "stage_ok ?s" unfolding stage_ok_def by (auto simp: ActorHashLen_def TenantPrefix_of_def)
  have "rows_ok []" by (simp add: rows_ok_def kv_ok_def)
  moreover have "list_limit 0 = 1000" by (simp add: list_limit_def maxListLimit_def)
  ultimately show ?thesis using list_bounds [OF _ s, of "[]" "[]" "[]" 0 True "[1]" "[]"] by auto
qed

end
