(* ===== verification/Worker_Router.thy ===== *)
theory Worker_Router
  imports Sql_Keys
begin

text \<open>
  Routing of worker requests, \<open>pkg/server/workerd_router.go\<close> and the path split of
  \<open>pkg/server/workerd_proxy.go\<close>. The liveness map is a list of node IDs with their liveness in
  the arbitrary order in which Go ranges over a map; \<open>hash/fnv\<close> is the 64-bit FNV-1a hash. What
  a node does with a request is a value: serve it, or forward it to another node with the
  \<open>X-Ratel-Forwarded\<close> header set. Address resolution by gossip is the argument
  \<open>resolves\<close>.
\<close>

section \<open>Rendezvous hashing\<close>

definition fnv1a :: "bytes \<Rightarrow> uint64" where
  "fnv1a bs = foldl (\<lambda>h b. (h XOR ucast b) * 1099511628211) 14695981039346656037 bs"

definition rendezvousHash :: "bytes \<Rightarrow> int \<Rightarrow> uint64" where
  "rendezvousHash key nodeID = fnv1a (key @ be_bytes 4 nodeID)"

fun pickNode_loop :: "bytes \<Rightarrow> int list \<Rightarrow> int \<Rightarrow> uint64 \<Rightarrow> int" where
  "pickNode_loop workerName [] best bestHash = best"
| "pickNode_loop workerName (nid # nodes) best bestHash =
     (let h = rendezvousHash workerName nid in
      if h > bestHash \<or> best = 0 then pickNode_loop workerName nodes nid h
      else pickNode_loop workerName nodes best bestHash)"

definition live_nodes :: "(int \<times> bool) list \<Rightarrow> int list" where
  "live_nodes liveMap = map fst (filter snd liveMap)"

definition pickNode :: "int \<Rightarrow> (int \<times> bool) list \<Rightarrow> bytes \<Rightarrow> int" where
  "pickNode localNodeID liveMap workerName =
     (let nodes = live_nodes liveMap in
      if length nodes = 0 then localNodeID else pickNode_loop workerName (sort nodes) 0 0)"

datatype routing = Serve | Forward int

definition routeRequest :: "int \<Rightarrow> (int \<times> bool) list \<Rightarrow> (int \<Rightarrow> bool) \<Rightarrow> bool \<Rightarrow> bytes \<Rightarrow> bool \<Rightarrow> routing" where
  "routeRequest localNodeID liveMap resolves forwarded workerName hasDOs =
     (if forwarded then Serve
      else if \<not> hasDOs then Serve
      else
        (let target = pickNode localNodeID liveMap workerName in
         if target = localNodeID then Serve
         else if \<not> resolves target then Serve
         else Forward target))"

section \<open>The path of a request\<close>

definition workers_prefix :: bytes where
  "workers_prefix = map of_char ''/workers/''"

definition splitWorkerPath :: "bytes \<Rightarrow> bytes \<times> bytes" where
  "splitWorkerPath path =
     (if take (length workers_prefix) path \<noteq> workers_prefix then ([], path)
      else
        (let rest = drop (length workers_prefix) path in
         case IndexByte rest 0x2f of
           None \<Rightarrow> (rest, [0x2f])
         | Some slash \<Rightarrow> (take slash rest, drop slash rest)))"

text \<open>
  The nodes composed: a request enters at a node and is forwarded until a node serves it or the
  proxy of a forwarding node cannot reach the next one and answers with an error. The result is the
  node that serves it, if any, and the number of forwards, given each node's view of the live
  nodes. The header is set by the first forward.
\<close>

fun serve_path :: "nat \<Rightarrow> (int \<Rightarrow> (int \<times> bool) list) \<Rightarrow> (int \<Rightarrow> int \<Rightarrow> bool) \<Rightarrow> (int \<Rightarrow> int \<Rightarrow> bool) \<Rightarrow> bytes \<Rightarrow> bool \<Rightarrow> bool \<Rightarrow> int \<Rightarrow> (int option \<times> nat) option" where
  "serve_path 0 view resolves reaches name hasDOs forwarded node = None"
| "serve_path (Suc fuel) view resolves reaches name hasDOs forwarded node =
     (case routeRequest node (view node) (resolves node) forwarded name hasDOs of
        Serve \<Rightarrow> Some (Some node, 0)
      | Forward target \<Rightarrow>
          if \<not> reaches node target then Some (None, 1)
          else map_option (\<lambda>(n, hops). (n, Suc hops)) (serve_path fuel view resolves reaches name hasDOs True target))"

section \<open>The node picked\<close>

text \<open>Specification: the least node ID among the live nodes whose hash is largest.\<close>

definition is_pick :: "bytes \<Rightarrow> int set \<Rightarrow> int \<Rightarrow> bool" where
  "is_pick name S n \<longleftrightarrow> n \<in> S \<and>
     (\<forall>m\<in>S. rendezvousHash name m < rendezvousHash name n \<or> rendezvousHash name m = rendezvousHash name n \<and> n \<le> m)"

lemma is_pick_unique:
  assumes "is_pick name S m" "is_pick name S n"
  shows "m = n"
proof -
  have "rendezvousHash name n < rendezvousHash name m \<or> rendezvousHash name n = rendezvousHash name m \<and> m \<le> n"
    "rendezvousHash name m < rendezvousHash name n \<or> rendezvousHash name m = rendezvousHash name n \<and> n \<le> m"
    using assms by (auto simp: is_pick_def)
  then show ?thesis by auto
qed

lemma is_pick_insert:
  assumes "is_pick name S b" and "\<forall>m\<in>S. m < n"
  shows "is_pick name (insert n S) (if rendezvousHash name b < rendezvousHash name n then n else b)"
  using assms unfolding is_pick_def by (auto dest: order_less_trans order_le_less_trans intro: less_imp_le simp: not_less)

lemma sorted_distinct_head: "sorted (n # ns) \<Longrightarrow> distinct (n # ns) \<Longrightarrow> y \<in> set ns \<Longrightarrow> n < (y :: int)"
  by (metis distinct.simps(2) order_le_less sorted_simps(2))

lemma pickNode_loop_step:
  "b \<noteq> 0 \<Longrightarrow> pickNode_loop name (n # nodes) b (rendezvousHash name b) =
     (let c = (if rendezvousHash name b < rendezvousHash name n then n else b)
      in pickNode_loop name nodes c (rendezvousHash name c))"
  by (simp add: Let_def)

lemma pickNode_loop_pick:
  assumes "sorted nodes" "distinct nodes" "\<forall>x\<in>S. \<forall>y\<in>set nodes. x < y" "0 \<notin> set nodes" "b \<noteq> 0" "is_pick name S b"
  shows "is_pick name (S \<union> set nodes) (pickNode_loop name nodes b (rendezvousHash name b))"
  using assms
proof (induction nodes arbitrary: S b)
  case (Cons n nodes)
  let ?c = "if rendezvousHash name b < rendezvousHash name n then n else b"
  have "is_pick name (insert n S) ?c" using is_pick_insert [OF Cons.prems(6)] Cons.prems(3) by simp
  moreover have "\<forall>x\<in>insert n S. \<forall>y\<in>set nodes. x < y" using Cons.prems(3) sorted_distinct_head [OF Cons.prems(1,2)] by auto
  ultimately have "is_pick name (insert n S \<union> set nodes) (pickNode_loop name nodes ?c (rendezvousHash name ?c))"
    using Cons.prems(1,2,4,5) by (intro Cons.IH) auto
  then show ?case unfolding pickNode_loop_step [OF Cons.prems(5)] Let_def by (simp only: Un_insert_left Un_insert_right list.set)
qed simp

lemma pickNode_pick:
  assumes "distinct (live_nodes view)" "0 \<notin> set (live_nodes view)" "live_nodes view \<noteq> []"
  shows "is_pick name (set (live_nodes view)) (pickNode local view name)"
proof -
  obtain n nodes where s: "sort (live_nodes view) = n # nodes"
    using assms(3) by (cases "sort (live_nodes view)") (auto dest: arg_cong [of _ _ length])
  then have set: "insert n (set nodes) = set (live_nodes view)" by (metis list.set(2) set_sort)
  have d: "sorted (n # nodes)" "distinct (n # nodes)" using s assms(1) by (metis sorted_sort, metis distinct_sort)
  have "0 \<notin> insert n (set nodes)" using set assms(2) by simp
  moreover have "is_pick name {n} n" by (simp add: is_pick_def)
  ultimately have "is_pick name ({n} \<union> set nodes) (pickNode_loop name nodes n (rendezvousHash name n))"
    using d sorted_distinct_head [OF d] by (intro pickNode_loop_pick) auto
  moreover have "pickNode_loop name (n # nodes) 0 0 = pickNode_loop name nodes n (rendezvousHash name n)" by (simp add: Let_def)
  ultimately show ?thesis using assms(3) set by (simp add: pickNode_def s)
qed

lemma is_pick_subset: "is_pick name S n \<Longrightarrow> n \<in> T \<Longrightarrow> T \<subseteq> S \<Longrightarrow> is_pick name T n"
  by (auto simp: is_pick_def)

section \<open>Properties\<close>

text \<open>
  C12. Worker routing is consistent: the node picked is a live node whose rendezvous hash for the
  worker is the greatest, and the least identifier among those with that hash. So with the same live
  nodes, in any order, every node picks the same one; when nodes leave, the choice changes only if
  the chosen node left; when nodes join, it changes only to a node that joined.
\<close>

theorem rendezvous_stable:
  assumes "distinct (live_nodes view)" and "0 \<notin> set (live_nodes view)" and "live_nodes view \<noteq> []"
    and "distinct (live_nodes view')" and "0 \<notin> set (live_nodes view')" and "live_nodes view' \<noteq> []"
  shows "pickNode node view name \<in> set (live_nodes view) \<and>
    (\<forall>m\<in>set (live_nodes view). rendezvousHash name m \<le> rendezvousHash name (pickNode node view name) \<and>
      (rendezvousHash name m = rendezvousHash name (pickNode node view name) \<longrightarrow> pickNode node view name \<le> m)) \<and>
    (set (live_nodes view) = set (live_nodes view') \<longrightarrow> pickNode node view name = pickNode node' view' name) \<and>
    (set (live_nodes view') \<subseteq> set (live_nodes view) \<and> pickNode node view name \<in> set (live_nodes view') \<longrightarrow>
      pickNode node' view' name = pickNode node view name) \<and>
    (set (live_nodes view) \<subseteq> set (live_nodes view') \<and> pickNode node' view' name \<noteq> pickNode node view name \<longrightarrow>
      pickNode node' view' name \<in> set (live_nodes view') - set (live_nodes view))"
proof -
  have p: "is_pick name (set (live_nodes view)) (pickNode node view name)" by (rule pickNode_pick [OF assms(1-3)])
  have q: "is_pick name (set (live_nodes view')) (pickNode node' view' name)" by (rule pickNode_pick [OF assms(4-6)])
  have best: "\<forall>m\<in>set (live_nodes view). rendezvousHash name m \<le> rendezvousHash name (pickNode node view name) \<and>
      (rendezvousHash name m = rendezvousHash name (pickNode node view name) \<longrightarrow> pickNode node view name \<le> m)"
    using p unfolding is_pick_def by (auto dest: less_imp_le)
  have eq: "set (live_nodes view) = set (live_nodes view') \<longrightarrow> pickNode node view name = pickNode node' view' name"
    using p q is_pick_unique [of name] by metis
  have leave: "pickNode node' view' name = pickNode node view name"
    if "set (live_nodes view') \<subseteq> set (live_nodes view)" "pickNode node view name \<in> set (live_nodes view')"
    by (rule is_pick_unique [OF q is_pick_subset [OF p that(2,1)]])
  have join: "pickNode node' view' name \<in> set (live_nodes view') - set (live_nodes view)"
    if "set (live_nodes view) \<subseteq> set (live_nodes view')" "pickNode node' view' name \<noteq> pickNode node view name"
    using that is_pick_unique [OF is_pick_subset [OF q _ that(1)] p] q by (auto simp: is_pick_def)
  show ?thesis using p best eq leave join unfolding is_pick_def [of name "set (live_nodes view)"] by blast
qed

theorem rendezvous_stable_witness:
  "pickNode 1 [(1, True), (2, True), (3, False)] [0x61] = pickNode 3 [(2, True), (1, True)] [0x61]"
proof -
  let ?v = "[(1, True), (2, True), (3, False)] :: (int \<times> bool) list" and ?w = "[(2, True), (1, True)] :: (int \<times> bool) list"
  have "distinct (live_nodes ?v)" "0 \<notin> set (live_nodes ?v)" "live_nodes ?v \<noteq> []"
    "distinct (live_nodes ?w)" "0 \<notin> set (live_nodes ?w)" "live_nodes ?w \<noteq> []" by (simp_all add: live_nodes_def)
  moreover have "set (live_nodes ?v) = set (live_nodes ?w)" by (simp add: live_nodes_def insert_commute)
  ultimately show ?thesis using rendezvous_stable [of ?v ?w 1 "[0x61]" 3] by blast
qed

text \<open>
  C25. A request is forwarded at most once whatever the nodes' views, so routing always ends. When
  two nodes see the same live nodes, in whatever order, and can resolve the chosen one, they choose
  the same one, the live node with the greatest hash and the least identifier among equals, and a
  request for a worker with Durable Objects that enters at either is served by that node if the
  proxy reaches it, and by no other node.
\<close>

theorem routing_single_server:
  assumes "distinct (live_nodes (view node))" "0 \<notin> set (live_nodes (view node))" "live_nodes (view node) \<noteq> []"
    and "distinct (live_nodes (view node'))" "set (live_nodes (view node')) = set (live_nodes (view node))"
    and "resolves node (pickNode node (view node) name)" "resolves node' (pickNode node' (view node') name)"
  shows "(\<exists>s hops. serve_path (Suc (Suc fuel)) view resolves reaches name hasDOs forwarded entry = Some (s, hops) \<and> hops \<le> 1) \<and>
   (\<exists>n. n \<in> set (live_nodes (view node)) \<and>
      (\<forall>m\<in>set (live_nodes (view node)). rendezvousHash name m \<le> rendezvousHash name n \<and>
        (rendezvousHash name m = rendezvousHash name n \<longrightarrow> n \<le> m)) \<and>
      (\<forall>k\<in>{node, node'}. map_option fst (serve_path (Suc (Suc fuel)) view resolves reaches name True False k) =
         Some (if k = n \<or> reaches k n then Some n else None)))"
proof (rule conjI)
  show "\<exists>s hops. serve_path (Suc (Suc fuel)) view resolves reaches name hasDOs forwarded entry = Some (s, hops) \<and> hops \<le> 1"
    by (auto simp: routeRequest_def Let_def)
  let ?n = "pickNode node (view node) name"
  have p: "is_pick name (set (live_nodes (view node))) ?n" by (rule pickNode_pick [OF assms(1-3)])
  have "live_nodes (view node') \<noteq> []" using assms(3,5) by auto
  then have "is_pick name (set (live_nodes (view node))) (pickNode node' (view node') name)"
    using pickNode_pick [of "view node'" name node'] assms(2,4,5) by simp
  then have same: "pickNode node' (view node') name = ?n" using p by (rule is_pick_unique)
  have served: "map_option fst (serve_path (Suc (Suc fuel)) view resolves reaches name True False k) =
      Some (if k = ?n \<or> reaches k ?n then Some ?n else None)"
    if "pickNode k (view k) name = ?n" "resolves k ?n" for k
    using that by (simp add: routeRequest_def Let_def)
  have "\<forall>k\<in>{node, node'}. map_option fst (serve_path (Suc (Suc fuel)) view resolves reaches name True False k) =
      Some (if k = ?n \<or> reaches k ?n then Some ?n else None)"
    using served [of node] served [of node'] same assms(6,7) by (simp del: serve_path.simps)
  moreover have "\<forall>m\<in>set (live_nodes (view node)). rendezvousHash name m \<le> rendezvousHash name ?n \<and>
        (rendezvousHash name m = rendezvousHash name ?n \<longrightarrow> ?n \<le> m)"
    using p unfolding is_pick_def by (auto dest: less_imp_le)
  moreover have "?n \<in> set (live_nodes (view node))" using p by (simp add: is_pick_def)
  ultimately show "\<exists>n. n \<in> set (live_nodes (view node)) \<and>
      (\<forall>m\<in>set (live_nodes (view node)). rendezvousHash name m \<le> rendezvousHash name n \<and>
        (rendezvousHash name m = rendezvousHash name n \<longrightarrow> n \<le> m)) \<and>
      (\<forall>k\<in>{node, node'}. map_option fst (serve_path (Suc (Suc fuel)) view resolves reaches name True False k) =
         Some (if k = n \<or> reaches k n then Some n else None))" by blast
qed

theorem routing_single_server_witness:
  "\<exists>n\<in>{1, 2}. \<forall>k\<in>{1, 2}. map_option fst (serve_path 2
     (\<lambda>k. if k = 1 then [(1, True), (2, True)] else [(2, True), (1, True)]) (\<lambda>_ _. True) (\<lambda>_ _. True) [0x61] True False k) = Some (Some n)"
proof -
  let ?view = "\<lambda>k. if k = 1 then [(1, True), (2, True)] else [(2, True), (1, True)] :: (int \<times> bool) list"
  have v: "distinct (live_nodes (?view 1))" "0 \<notin> set (live_nodes (?view 1))" "live_nodes (?view 1) \<noteq> []"
    "distinct (live_nodes (?view 2))" "set (live_nodes (?view 2)) = set (live_nodes (?view 1))"
    by (simp_all add: live_nodes_def insert_commute)
  have l: "set (live_nodes (?view 1)) = {1, 2}" by (simp add: live_nodes_def)
  from conjunct2 [OF routing_single_server [OF v, of "\<lambda>_ _. True" "[0x61]" 0 "\<lambda>_ _. True"]]
  obtain n where "n \<in> {1, 2}" "\<forall>k\<in>{1, 2}. map_option fst (serve_path (Suc (Suc 0)) ?view (\<lambda>_ _. True) (\<lambda>_ _. True) [0x61] True False k) = Some (Some n)"
    unfolding l by (auto simp del: serve_path.simps)
  then show ?thesis unfolding numeral_2_eq_2 by blast
qed

text \<open>
  The fallback to local service when the chosen node's address is not known gives up the single
  server: the chosen node serves its own requests and the other node its own.
\<close>

lemma unresolved_address_two_servers:
  assumes "node \<noteq> pickNode node (view node) name" and "\<not> resolves node (pickNode node (view node) name)"
  shows "serve_path (Suc fuel) view resolves reaches name True False node = Some (Some node, 0)"
  using assms by (simp add: routeRequest_def Let_def)

text \<open>The worker named by a path has no slash, and the path is the prefix, the name and the remainder.\<close>

lemma splitWorkerPath_parts:
  assumes "splitWorkerPath path = (name, remainder)" "name \<noteq> []"
  shows "0x2f \<notin> set name \<and> (path = workers_prefix @ name @ remainder \<or> path = workers_prefix @ name \<and> remainder = [0x2f])"
proof -
  define r where "r = drop (length workers_prefix) path"
  have pre: "take (length workers_prefix) path = workers_prefix"
    using assms by (auto simp: splitWorkerPath_def split: if_splits)
  then have p: "path = workers_prefix @ r" using append_take_drop_id [of "length workers_prefix" path] by (simp add: r_def)
  have sp: "splitWorkerPath path = (case IndexByte r 0x2f of None \<Rightarrow> (r, [0x2f]) | Some i \<Rightarrow> (take i r, drop i r))"
    using pre by (simp add: splitWorkerPath_def Let_def flip: r_def)
  show ?thesis
  proof (cases "IndexByte r 0x2f")
    case None
    then have "name = r" "remainder = [0x2f]" using assms(1) sp by simp_all
    then show ?thesis using None p by (simp add: IndexByte_None_iff)
  next
    case (Some i)
    then have "name = take i r" "remainder = drop i r" using assms(1) sp by simp_all
    then show ?thesis using IndexByte_SomeD [OF Some] p by simp
  qed
qed

end
