(* ===== verification/Workers.thy ===== *)
theory Workers
  imports Worker_Router
begin

text \<open>
  Deployment of workers: \<open>pkg/server/workers/deploy.go\<close> (parsing of a deploy, the tables it
  is stored in), the identifiers and asset checks of \<open>pkg/server/workerd_config.go\<close>, and the
  worker-name check of \<open>pkg/server/api_v2_workers.go\<close>. Text is ASCII (a \<open>string\<close>):
  worker names are by their check, and what the code does with other text is to copy it. The
  \<open>json\<close> functions and \<open>sha256.Sum256\<close> are arguments. The tables are those of
  \<open>systemschema/system.go\<close>, with their primary keys and unique indexes; \<open>db.Txn\<close> makes a
  deploy one step that happens entirely or not at all.
\<close>

section \<open>Strings\<close>

definition ascii_upper :: "char \<Rightarrow> char" where
  "ascii_upper c = (let n = of_char c :: nat in if 97 \<le> n \<and> n \<le> 122 then char_of (n - 32) else c)"

definition is_space :: "char \<Rightarrow> bool" where
  "is_space c \<longleftrightarrow> (let n = of_char c :: nat in 9 \<le> n \<and> n \<le> 13 \<or> n = 32)"

definition TrimSpace :: "string \<Rightarrow> string" where
  "TrimSpace s = rev (dropWhile is_space (rev (dropWhile is_space s)))"

definition TrimPrefix :: "string \<Rightarrow> string \<Rightarrow> string" where
  "TrimPrefix s p = (if take (length p) s = p then drop (length p) s else s)"

fun Contains :: "string \<Rightarrow> string \<Rightarrow> bool" where
  "Contains [] p \<longleftrightarrow> p = []"
| "Contains (c # s) p \<longleftrightarrow> take (length p) (c # s) = p \<or> Contains s p"

definition HasSuffix :: "string \<Rightarrow> string \<Rightarrow> bool" where
  "HasSuffix s p \<longleftrightarrow> length p \<le> length s \<and> drop (length s - length p) s = p"

section \<open>Identifiers\<close>

definition validWorkerName :: "string \<Rightarrow> bool" where
  "validWorkerName name \<longleftrightarrow> name \<noteq> [] \<and>
     list_all (\<lambda>c. let n = of_char c :: nat in 97 \<le> n \<and> n \<le> 122 \<or> 65 \<le> n \<and> n \<le> 90 \<or> 48 \<le> n \<and> n \<le> 57 \<or>
       c = CHR ''_'' \<or> c = CHR ''-'') name"

fun workerCapnpID_loop :: "string \<Rightarrow> bool \<Rightarrow> string" where
  "workerCapnpID_loop [] upper = []"
| "workerCapnpID_loop (c # cs) upper =
     (if c = CHR ''-'' \<or> c = CHR ''_'' then workerCapnpID_loop cs True
      else if upper then ascii_upper c # workerCapnpID_loop cs False
      else c # workerCapnpID_loop cs upper)"

definition workerCapnpID :: "string \<Rightarrow> string" where
  "workerCapnpID name = ''worker'' @ workerCapnpID_loop name True"

definition durableObjectUniqueKey :: "string \<Rightarrow> string \<Rightarrow> string" where
  "durableObjectUniqueKey workerName className = workerCapnpID workerName @ ''_'' @ className"

section \<open>Asset paths\<close>

definition normalizeWorkerAssetPath :: "string \<Rightarrow> string res" where
  "normalizeWorkerAssetPath path =
     (let path = TrimSpace (map (\<lambda>c. if c = CHR 0x5c then CHR ''/'' else c) path);
          path = ''/'' @ TrimPrefix path ''/''
      in if path = ''/'' \<or> Contains path ''/../'' \<or> HasSuffix path ''/..'' \<or> Contains path ''/./'' \<or> HasSuffix path ''/.''
         then Inl (Err ''invalid asset path'') else Inr path)"

text \<open>The check of \<open>writeWorkerAssets\<close>, which fails the whole configuration.\<close>

definition asset_path_ok :: "string \<Rightarrow> bool" where
  "asset_path_ok assetPath \<longleftrightarrow> (let path = TrimPrefix assetPath ''/'' in \<not> (path = [] \<or> Contains path ''..''))"

section \<open>Parsing a deploy\<close>

definition maxWorkerScriptSize :: nat where "maxWorkerScriptSize = 10 * 2 ^ 20"
definition maxWorkerAssetSize :: nat where "maxWorkerAssetSize = 10 * 2 ^ 20"

record DeployAssetMetadata =
  dm_Path :: string
  dm_ContentType :: string
  dm_ETag :: string
  dm_Size :: int

record workerDeployMetadata =
  md_CompatDate :: string
  md_Bindings :: string
  md_Assets :: "DeployAssetMetadata list"

record DeployAsset =
  da_Path :: string
  da_ContentType :: string
  da_Content :: bytes
  da_ETag :: string
  da_Size :: int

record DeployRequest =
  dr_Script :: bytes
  dr_CompatDate :: string
  dr_Bindings :: string
  dr_Assets :: "DeployAsset list"

definition readLimitedAllowEmpty :: "bytes \<Rightarrow> nat \<Rightarrow> bytes res" where
  "readLimitedAllowEmpty r limit =
     (let data = take (limit + 1) r in
      if length data > limit then Inl (Err ''exceeds byte limit'') else Inr data)"

definition readLimited :: "bytes \<Rightarrow> nat \<Rightarrow> bytes res" where
  "readLimited r limit =
     res_bind (readLimitedAllowEmpty r limit) (\<lambda>data.
       if length data = 0 then Inl (Err ''empty'') else Inr data)"

text \<open>The state of the loop over the parts: script, metadata and asset contents so far.\<close>

record multipart =
  mp_script :: "bytes option"
  mp_metadata :: "workerDeployMetadata option"
  mp_assets :: "bytes list"

definition part_step ::
  "(bytes \<Rightarrow> workerDeployMetadata res) \<Rightarrow> (string \<Rightarrow> bool) \<Rightarrow> multipart \<Rightarrow> string \<times> bytes \<Rightarrow> multipart res" where
  "part_step unmarshal json_valid st part =
     (case part of (formName, body) \<Rightarrow>
      if formName = ''script'' then
        (if mp_script st \<noteq> None then Inl (Err ''multipart deploy contains multiple script parts'')
         else res_bind (readLimited body maxWorkerScriptSize) (\<lambda>s. Inr (st\<lparr>mp_script := Some s\<rparr>)))
      else if formName = ''metadata'' then
        (if mp_metadata st \<noteq> None then Inl (Err ''multipart deploy contains multiple metadata parts'')
         else res_bind (readLimited body maxWorkerAssetSize) (\<lambda>data.
           res_bind (unmarshal data) (\<lambda>md.
             if length (md_Bindings md) > 0 \<and> \<not> json_valid (md_Bindings md)
             then Inl (Err ''metadata bindings must be valid JSON'')
             else Inr (st\<lparr>mp_metadata := Some md\<rparr>))))
      else if formName = ''asset'' then
        res_bind (readLimitedAllowEmpty body maxWorkerAssetSize) (\<lambda>data. Inr (st\<lparr>mp_assets := mp_assets st @ [data]\<rparr>))
      else Inl (Err ''unexpected multipart field''))"

fun parts_loop ::
  "(bytes \<Rightarrow> workerDeployMetadata res) \<Rightarrow> (string \<Rightarrow> bool) \<Rightarrow> multipart \<Rightarrow> (string \<times> bytes) list \<Rightarrow> multipart res" where
  "parts_loop unmarshal json_valid st [] = Inr st"
| "parts_loop unmarshal json_valid st (p # ps) =
     res_bind (part_step unmarshal json_valid st p) (\<lambda>st. parts_loop unmarshal json_valid st ps)"

definition hexdigit :: "nat \<Rightarrow> char" where
  "hexdigit n = (''0123456789abcdef'' ! n)"

definition hex_EncodeToString :: "bytes \<Rightarrow> string" where
  "hex_EncodeToString bs = concat (map (\<lambda>b. [hexdigit (unat b div 16), hexdigit (unat b mod 16)]) bs)"

fun assets_loop ::
  "(bytes \<Rightarrow> bytes) \<Rightarrow> DeployAssetMetadata list \<Rightarrow> bytes list \<Rightarrow> string list \<Rightarrow> DeployAsset list res" where
  "assets_loop sha (meta # ms) (content # cs) seen =
     res_bind (normalizeWorkerAssetPath (dm_Path meta)) (\<lambda>path.
       if path \<in> set seen then Inl (Err ''duplicate asset path'')
       else
         (let etag = hex_EncodeToString (sha content) in
          if dm_ETag meta \<noteq> [] \<and> dm_ETag meta \<noteq> etag then Inl (Err ''asset etag mismatch'')
          else if dm_Size meta \<noteq> 0 \<and> dm_Size meta \<noteq> int (length content) then Inl (Err ''asset size mismatch'')
          else
            res_bind (assets_loop sha ms cs (path # seen)) (\<lambda>rest.
              Inr (\<lparr>da_Path = path, da_ContentType = dm_ContentType meta, da_Content = content,
                    da_ETag = etag, da_Size = int (length content)\<rparr> # rest))))"
| "assets_loop sha _ _ seen = Inr []"

definition parseMultipartWorkerDeployRequest ::
  "(bytes \<Rightarrow> workerDeployMetadata res) \<Rightarrow> (string \<Rightarrow> bool) \<Rightarrow> (bytes \<Rightarrow> bytes) \<Rightarrow> (string \<times> bytes) list \<Rightarrow> DeployRequest res" where
  "parseMultipartWorkerDeployRequest unmarshal json_valid sha parts =
     res_bind (parts_loop unmarshal json_valid \<lparr>mp_script = None, mp_metadata = None, mp_assets = []\<rparr> parts) (\<lambda>st.
       case mp_metadata st of
         None \<Rightarrow> Inl (Err ''multipart deploy missing metadata part'')
       | Some metadata \<Rightarrow>
      (case mp_script st of
         None \<Rightarrow> Inl (Err ''multipart deploy missing script part'')
       | Some script \<Rightarrow>
           if length (mp_assets st) \<noteq> length (md_Assets metadata)
           then Inl (Err ''multipart deploy has asset parts but metadata assets'')
           else
             res_bind (assets_loop sha (md_Assets metadata) (mp_assets st) []) (\<lambda>assets.
               Inr \<lparr>dr_Script = script,
                    dr_CompatDate = (if md_CompatDate metadata = [] then ''2024-01-01'' else md_CompatDate metadata),
                    dr_Bindings = (if length (md_Bindings metadata) > 0 \<and> md_Bindings metadata \<noteq> ''null''
                                   then md_Bindings metadata else []),
                    dr_Assets = assets\<rparr>)))"

section \<open>The tables of deployed workers\<close>

record worker_version =
  wv_id :: int
  wv_worker_name :: string
  wv_version :: int
  wv_script :: bytes
  wv_compat_date :: string
  wv_bindings :: "string option"

record worker_tables =
  worker_versions :: "worker_version list"
  worker_assets :: "string \<Rightarrow> (bytes \<times> int) option"
  worker_version_assets :: "int \<times> string \<Rightarrow> (string \<times> string) option"

definition max_version :: "worker_tables \<Rightarrow> string \<Rightarrow> int" where
  "max_version db name =
     foldr (\<lambda>r m. if wv_worker_name r = name then max (wv_version r) m else m) (worker_versions db) 0"

fun insert_assets :: "int \<Rightarrow> DeployAsset list \<Rightarrow> worker_tables \<Rightarrow> worker_tables res" where
  "insert_assets wid [] db = Inr db"
| "insert_assets wid (a # as) db =
     (let db = (if worker_assets db (da_ETag a) = None
                then db\<lparr>worker_assets := (worker_assets db)(da_ETag a \<mapsto> (da_Content a, da_Size a))\<rparr> else db)
      in if worker_version_assets db (wid, da_Path a) \<noteq> None then Inl (Err ''duplicate key value'')
         else insert_assets wid as
           (db\<lparr>worker_version_assets := (worker_version_assets db)((wid, da_Path a) \<mapsto> (da_ETag a, da_ContentType a))\<rparr>))"

text \<open>
  \<open>rowid\<close> is the value of \<open>unique_rowid()\<close>. A primary-key or unique-index conflict aborts
  the transaction.
\<close>

definition InsertDeploy :: "int \<Rightarrow> string \<Rightarrow> DeployRequest \<Rightarrow> worker_tables \<Rightarrow> (int \<times> worker_tables) res" where
  "InsertDeploy rowid name deploy db =
     (let version = max_version db name + 1;
          row = \<lparr>wv_id = rowid, wv_worker_name = name, wv_version = version, wv_script = dr_Script deploy,
                 wv_compat_date = dr_CompatDate deploy,
                 wv_bindings = (if dr_Bindings deploy = [] then None else Some (dr_Bindings deploy))\<rparr>
      in if rowid \<in> wv_id ` set (worker_versions db) \<or>
            (name, version) \<in> (\<lambda>r. (wv_worker_name r, wv_version r)) ` set (worker_versions db)
         then Inl (Err ''duplicate key value'')
         else res_bind (insert_assets rowid (dr_Assets deploy) (db\<lparr>worker_versions := row # worker_versions db\<rparr>))
                (\<lambda>db. Inr (version, db)))"

section \<open>Substrings and path segments\<close>

lemma Contains_iff: "Contains s p \<longleftrightarrow> (\<exists>a b. s = a @ p @ b)"
proof (induction s)
  case (Cons c s)
  show ?case
  proof
    assume "Contains (c # s) p"
    then consider "take (length p) (c # s) = p" | "Contains s p" by auto
    then show "\<exists>a b. c # s = a @ p @ b"
    proof cases
      case 1
      then have "c # s = [] @ p @ drop (length p) (c # s)" using append_take_drop_id [of "length p" "c # s"] by simp
      then show ?thesis by blast
    next
      case 2
      then obtain a b where "s = a @ p @ b" using Cons by blast
      then have "c # s = (c # a) @ p @ b" by simp
      then show ?thesis by blast
    qed
  next
    assume "\<exists>a b. c # s = a @ p @ b"
    then obtain a b where ab: "c # s = a @ p @ b" by blast
    show "Contains (c # s) p"
    proof (cases a)
      case Nil
      then have "take (length p) (c # s) = p" using ab by simp
      then show ?thesis by simp
    next
      case (Cons d a')
      then have "Contains s p" using ab \<open>Contains s p \<longleftrightarrow> _\<close> by auto
      then show ?thesis by simp
    qed
  qed
qed auto

lemma HasSuffix_iff: "HasSuffix s p \<longleftrightarrow> (\<exists>a. s = a @ p)"
  by (auto simp: HasSuffix_def) (metis append_take_drop_id)

fun segments :: "string \<Rightarrow> string list" where
  "segments [] = [[]]"
| "segments (c # s) = (if c = CHR ''/'' then [] # segments s else (c # hd (segments s)) # tl (segments s))"

lemma segments_Cons_hd: "segments s = hd (segments s) # tl (segments s)"
  by (cases s) auto

lemma segments_hd: "\<exists>b. s = hd (segments s) @ b \<and> (b = [] \<or> hd b = CHR ''/'')"
  by (induction s) auto

text \<open>A segment after the first slash is delimited by slashes or the end.\<close>

lemma segments_tl: "d \<in> set (tl (segments s)) \<Longrightarrow> \<exists>a b. s = a @ CHR ''/'' # d @ b \<and> (b = [] \<or> hd b = CHR ''/'')"
proof (induction s)
  case (Cons c s)
  show ?case
  proof (cases "c = CHR ''/''")
    case True
    then have "d = hd (segments s) \<or> d \<in> set (tl (segments s))" using Cons.prems segments_Cons_hd [of s]
      by (metis list.sel(3) segments.simps(2) set_ConsD)
    then show ?thesis
    proof
      assume d: "d = hd (segments s)"
      obtain b where "s = d @ b \<and> (b = [] \<or> hd b = CHR ''/'')" using segments_hd [of s] unfolding d by blast
      then have "c # s = [] @ CHR ''/'' # d @ b \<and> (b = [] \<or> hd b = CHR ''/'')" using True by simp
      then show ?thesis by blast
    next
      assume "d \<in> set (tl (segments s))"
      then obtain a b where "s = a @ CHR ''/'' # d @ b \<and> (b = [] \<or> hd b = CHR ''/'')" using Cons.IH by blast
      then have "c # s = (c # a) @ CHR ''/'' # d @ b \<and> (b = [] \<or> hd b = CHR ''/'')" by simp
      then show ?thesis by blast
    qed
  next
    case False
    then obtain a b where "s = a @ CHR ''/'' # d @ b \<and> (b = [] \<or> hd b = CHR ''/'')" using Cons by auto
    then have "c # s = (c # a) @ CHR ''/'' # d @ b \<and> (b = [] \<or> hd b = CHR ''/'')" by simp
    then show ?thesis by blast
  qed
qed simp

lemma segment_found:
  assumes "d \<in> set (tl (segments s))"
  shows "Contains s (CHR ''/'' # d @ ''/'') \<or> HasSuffix s (CHR ''/'' # d)"
proof -
  obtain a b where ab: "s = a @ CHR ''/'' # d @ b" "b = [] \<or> hd b = CHR ''/''" using segments_tl [OF assms] by blast
  show ?thesis
  proof (cases b)
    case Nil
    then have "s = a @ (CHR ''/'' # d)" using ab by simp
    then show ?thesis unfolding HasSuffix_iff by blast
  next
    case (Cons x b')
    then have "s = a @ (CHR ''/'' # d @ ''/'') @ b'" using ab by simp
    then show ?thesis unfolding Contains_iff by blast
  qed
qed

lemma is_space_slash: "\<not> is_space CHR ''/''" "\<not> is_space CHR 0x5c"
  by (simp_all add: is_space_def)

lemma dropWhile_idem: "dropWhile P (dropWhile P xs) = dropWhile P xs"
  by (induction xs) auto

lemma TrimSpace_last: "TrimSpace s \<noteq> [] \<Longrightarrow> \<not> is_space (last (TrimSpace s))"
  by (simp add: TrimSpace_def last_rev hd_dropWhile)

lemma TrimSpace_id: "s \<noteq> [] \<Longrightarrow> \<not> is_space (hd s) \<Longrightarrow> \<not> is_space (last s) \<Longrightarrow> TrimSpace s = s"
proof -
  assume s: "s \<noteq> []" "\<not> is_space (hd s)" "\<not> is_space (last s)"
  then have "dropWhile is_space s = s" by (cases s) auto
  moreover have "dropWhile is_space (rev s) = rev s" using s by (cases s rule: rev_cases) auto
  ultimately show ?thesis by (simp add: TrimSpace_def)
qed

lemma set_TrimSpace: "set (TrimSpace s) \<subseteq> set s"
proof
  fix x assume "x \<in> set (TrimSpace s)"
  then have "x \<in> set (dropWhile is_space (rev (dropWhile is_space s)))" by (simp add: TrimSpace_def)
  then have "x \<in> set (dropWhile is_space s)" using set_dropWhileD by fastforce
  then show "x \<in> set s" using set_dropWhileD by fast
qed

lemma normalizeWorkerAssetPath_parts:
  assumes "normalizeWorkerAssetPath path = Inr r"
  obtains t where "r = CHR ''/'' # t" "t \<noteq> []" "CHR 0x5c \<notin> set r" "''.'' \<notin> set (tl (segments r))"
    "''..'' \<notin> set (tl (segments r))" "\<not> is_space (last r)"
proof -
  define u where "u = TrimSpace (map (\<lambda>c. if c = CHR 0x5c then CHR ''/'' else c) path)"
  have b: "CHR 0x5c \<notin> set u" using set_TrimSpace unfolding u_def by fastforce
  define t where "t = TrimPrefix u ''/''"
  have r: "r = CHR ''/'' # t" "t \<noteq> []" "\<not> Contains r ''/../''" "\<not> HasSuffix r ''/..''" "\<not> Contains r ''/./''" "\<not> HasSuffix r ''/.''"
    using assms by (auto simp: normalizeWorkerAssetPath_def Let_def t_def u_def split: if_splits)
  have t: "set t \<subseteq> set u" "last t = last u" "u \<noteq> []"
    using r(2) by (cases u; auto simp: t_def TrimPrefix_def split: if_splits)+
  have "\<not> is_space (last u)" using TrimSpace_last t(3) unfolding u_def by blast
  then have l: "\<not> is_space (last r)" using r(1,2) t(2) by simp
  have "CHR 0x5c \<notin> set r" using r(1) t(1) b by auto
  moreover have "''.'' \<notin> set (tl (segments r))" "''..'' \<notin> set (tl (segments r))"
    using segment_found [of "''.''" r] segment_found [of "''..''" r] r(3-6) by auto
  ultimately show thesis using that r(1,2) l by blast
qed

section \<open>Identifiers do not contain separators\<close>

lemma ascii_upper_range:
  "(of_char (ascii_upper c) :: nat) = of_char c \<or> 65 \<le> (of_char (ascii_upper c) :: nat) \<and> (of_char (ascii_upper c) :: nat) \<le> 90"
  by (auto simp: ascii_upper_def Let_def)

lemma ascii_upper_fixed:
  assumes "ascii_upper c = d" "\<not> (65 \<le> (of_char d :: nat) \<and> (of_char d :: nat) \<le> 90)"
  shows "c = d"
proof -
  have "(of_char d :: nat) = of_char c" using ascii_upper_range [of c] assms by simp
  then show ?thesis by simp
qed

lemma ascii_upper_neq:
  "c \<noteq> CHR ''_'' \<Longrightarrow> ascii_upper c \<noteq> CHR ''_''" "c \<noteq> CHR ''-'' \<Longrightarrow> ascii_upper c \<noteq> CHR ''-''"
  using ascii_upper_fixed [of c "CHR ''_''"] ascii_upper_fixed [of c "CHR ''-''"] by auto

lemma workerCapnpID_loop_plain: "CHR ''_'' \<notin> set (workerCapnpID_loop cs u)"
proof (induction cs arbitrary: u)
  case (Cons c cs)
  have "CHR ''_'' \<noteq> ascii_upper c" if "c \<noteq> CHR ''_''" using ascii_upper_neq(1) [OF that] by metis
  then show ?case using Cons by auto
qed simp

lemma workerCapnpID_plain: "CHR ''_'' \<notin> set (workerCapnpID name)"
  using workerCapnpID_loop_plain by (simp add: workerCapnpID_def)

lemma takeWhile_before: "c \<notin> set xs \<Longrightarrow> takeWhile (\<lambda>x. x \<noteq> c) (xs @ c # ys) = xs"
  by (induction xs) auto

lemma unique_key_parts:
  "durableObjectUniqueKey w c = durableObjectUniqueKey w' c' \<longleftrightarrow> workerCapnpID w = workerCapnpID w' \<and> c = c'"
proof
  assume "durableObjectUniqueKey w c = durableObjectUniqueKey w' c'"
  then have e: "workerCapnpID w @ CHR ''_'' # c = workerCapnpID w' @ CHR ''_'' # c'" by (simp add: durableObjectUniqueKey_def)
  then have "takeWhile (\<lambda>x. x \<noteq> CHR ''_'') (workerCapnpID w @ CHR ''_'' # c) =
      takeWhile (\<lambda>x. x \<noteq> CHR ''_'') (workerCapnpID w' @ CHR ''_'' # c')" by simp
  then have "workerCapnpID w = workerCapnpID w'" by (simp only: takeWhile_before [OF workerCapnpID_plain])
  then show "workerCapnpID w = workerCapnpID w' \<and> c = c'" using e by simp
qed (simp add: durableObjectUniqueKey_def)

section \<open>What a parsed deploy holds\<close>

definition asset_of :: "(bytes \<Rightarrow> bytes) \<Rightarrow> DeployAssetMetadata \<Rightarrow> bytes \<Rightarrow> DeployAsset \<Rightarrow> bool" where
  "asset_of sha meta content a \<longleftrightarrow>
     normalizeWorkerAssetPath (dm_Path meta) = Inr (da_Path a) \<and> da_ContentType a = dm_ContentType meta \<and>
     da_Content a = content \<and> da_ETag a = hex_EncodeToString (sha content) \<and> da_Size a = int (length content) \<and>
     (dm_ETag meta = [] \<or> dm_ETag meta = da_ETag a) \<and> (dm_Size meta = 0 \<or> dm_Size meta = da_Size a)"

lemma assets_loop_correct:
  "assets_loop sha ms cs seen = Inr as \<Longrightarrow> length ms = length cs \<Longrightarrow>
   length as = length ms \<and> (\<forall>i<length ms. asset_of sha (ms ! i) (cs ! i) (as ! i)) \<and>
   distinct (map da_Path as) \<and> set (map da_Path as) \<inter> set seen = {}"
proof (induction sha ms cs seen arbitrary: as rule: assets_loop.induct)
  case (1 sha meta ms content cs seen)
  from "1.prems"(1) obtain path rest where p: "normalizeWorkerAssetPath (dm_Path meta) = Inr path" "path \<notin> set seen"
    "dm_ETag meta = [] \<or> dm_ETag meta = hex_EncodeToString (sha content)"
    "dm_Size meta = 0 \<or> dm_Size meta = int (length content)"
    and r: "assets_loop sha ms cs (path # seen) = Inr rest"
    and as: "as = \<lparr>da_Path = path, da_ContentType = dm_ContentType meta, da_Content = content,
      da_ETag = hex_EncodeToString (sha content), da_Size = int (length content)\<rparr> # rest"
    by (auto simp: res_simps Let_def split: if_splits)
  have "\<not> (dm_ETag meta \<noteq> [] \<and> dm_ETag meta \<noteq> hex_EncodeToString (sha content))"
    "\<not> (dm_Size meta \<noteq> 0 \<and> dm_Size meta \<noteq> int (length content))" using p(3,4) by auto
  note IH = "1.IH" [OF p(2) refl this r]
  have IH': "length rest = length ms \<and> (\<forall>i<length ms. asset_of sha (ms ! i) (cs ! i) (rest ! i)) \<and>
      distinct (map da_Path rest) \<and> set (map da_Path rest) \<inter> set (path # seen) = {}"
    using "1.prems"(2) by (intro IH) simp
  have "asset_of sha meta content (as ! 0)" using p by (auto simp: as asset_of_def)
  then have "\<forall>i<length (meta # ms). asset_of sha ((meta # ms) ! i) ((content # cs) ! i) (as ! i)"
    using IH' by (simp add: as All_less_Suc2)
  then show ?case using IH' p(2) by (auto simp: as)
qed auto

lemma readLimited_body:
  "readLimited r n = Inr d \<Longrightarrow> d = r \<and> d \<noteq> [] \<and> length d \<le> n"
  "readLimitedAllowEmpty r n = Inr d \<Longrightarrow> d = r \<and> length d \<le> n"
  by (auto simp: readLimited_def readLimitedAllowEmpty_def Let_def res_simps split: if_splits)

definition parts_ok :: "multipart \<Rightarrow> bool" where
  "parts_ok st \<longleftrightarrow> (\<forall>s. mp_script st = Some s \<longrightarrow> s \<noteq> [] \<and> length s \<le> maxWorkerScriptSize) \<and>
     (\<forall>d\<in>set (mp_assets st). length d \<le> maxWorkerAssetSize)"

lemma part_step_ok: "part_step unm jv st p = Inr st' \<Longrightarrow> parts_ok st \<Longrightarrow> parts_ok st'"
  by (auto simp: part_step_def parts_ok_def res_simps split: prod.splits if_splits dest!: readLimited_body)

lemma parts_loop_ok: "parts_loop unm jv st ps = Inr st' \<Longrightarrow> parts_ok st \<Longrightarrow> parts_ok st'"
  by (induction ps arbitrary: st) (auto simp: res_simps dest: part_step_ok)

text \<open>The bodies of the parts with a name, and what the loop has collected when it ends.\<close>

definition bodies :: "string \<Rightarrow> (string \<times> bytes) list \<Rightarrow> bytes list" where
  "bodies name parts = map snd (filter (\<lambda>p. fst p = name) parts)"

fun option_list :: "'a option \<Rightarrow> 'a list" where
  "option_list None = []"
| "option_list (Some x) = [x]"

lemma part_step_collects:
  assumes "part_step unm jv st p = Inr st'"
  shows "option_list (mp_script st') = option_list (mp_script st) @ bodies ''script'' [p] \<and>
    map Inr (option_list (mp_metadata st')) = map Inr (option_list (mp_metadata st)) @ map unm (bodies ''metadata'' [p]) \<and>
    mp_assets st' = mp_assets st @ bodies ''asset'' [p] \<and> fst p \<in> {''script'', ''metadata'', ''asset''}"
  using assms by (auto simp: part_step_def bodies_def res_simps split: prod.splits if_splits dest!: readLimited_body)

lemma bodies_Cons: "bodies name (p # ps) = bodies name [p] @ bodies name ps"
  by (simp add: bodies_def)

lemma parts_loop_collects:
  "parts_loop unm jv st ps = Inr st' \<Longrightarrow>
   option_list (mp_script st') = option_list (mp_script st) @ bodies ''script'' ps \<and>
   map Inr (option_list (mp_metadata st')) = map Inr (option_list (mp_metadata st)) @ map unm (bodies ''metadata'' ps) \<and>
   mp_assets st' = mp_assets st @ bodies ''asset'' ps \<and> fst ` set ps \<subseteq> {''script'', ''metadata'', ''asset''}"
proof (induction ps arbitrary: st)
  case Nil
  then show ?case by (simp add: bodies_def)
next
  case (Cons p ps)
  then obtain st1 where s: "part_step unm jv st p = Inr st1" "parts_loop unm jv st1 ps = Inr st'" by (auto simp: res_simps)
  show ?case using part_step_collects [OF s(1)] Cons.IH [OF s(2)]
    unfolding bodies_Cons [of _ p ps] by (simp del: map_eq_append_conv append_eq_map_conv)
qed

section \<open>Versions of a worker\<close>

definition tables_ok :: "worker_tables \<Rightarrow> bool" where
  "tables_ok db \<longleftrightarrow> distinct (map wv_id (worker_versions db)) \<and>
     distinct (map (\<lambda>r. (wv_worker_name r, wv_version r)) (worker_versions db))"

lemma max_version_ge: "r \<in> set rs \<Longrightarrow> wv_worker_name r = name \<Longrightarrow>
    wv_version r \<le> foldr (\<lambda>r m. if wv_worker_name r = name then max (wv_version r) m else m) rs 0"
  by (induction rs) (auto intro: order_trans)

lemma insert_assets_versions: "insert_assets wid as db = Inr db' \<Longrightarrow> worker_versions db' = worker_versions db"
  by (induction wid as db rule: insert_assets.induct) (auto simp: Let_def split: if_splits)

lemma insert_assets_succeeds:
  "distinct (map da_Path as) \<Longrightarrow> \<forall>a\<in>set as. worker_version_assets db (wid, da_Path a) = None \<Longrightarrow>
   \<exists>db'. insert_assets wid as db = Inr db' \<and>
     (\<forall>a\<in>set as. worker_version_assets db' (wid, da_Path a) = Some (da_ETag a, da_ContentType a)) \<and>
     (\<forall>k. k \<notin> Pair wid ` da_Path ` set as \<longrightarrow> worker_version_assets db' k = worker_version_assets db k) \<and>
     (\<forall>e x. worker_assets db e = Some x \<longrightarrow> worker_assets db' e = Some x) \<and>
     (\<forall>a\<in>set as. worker_assets db' (da_ETag a) \<noteq> None)"
proof (induction as arbitrary: db)
  case (Cons a as)
  let ?d1 = "if worker_assets db (da_ETag a) = None
    then db\<lparr>worker_assets := (worker_assets db)(da_ETag a \<mapsto> (da_Content a, da_Size a))\<rparr> else db"
  let ?d2 = "?d1\<lparr>worker_version_assets := (worker_version_assets ?d1)((wid, da_Path a) \<mapsto> (da_ETag a, da_ContentType a))\<rparr>"
  have step: "insert_assets wid (a # as) db = insert_assets wid as ?d2" using Cons.prems(2) by (simp add: Let_def)
  have ne: "da_Path b \<noteq> da_Path a" if "b \<in> set as" for b
    using Cons.prems(1) that by (metis distinct.simps(2) image_eqI list.set_map list.simps(9))
  have "worker_version_assets ?d2 (wid, da_Path b) = None" if "b \<in> set as" for b
    using Cons.prems(2) ne [OF that] that by simp
  then have "\<forall>b\<in>set as. worker_version_assets ?d2 (wid, da_Path b) = None" by blast
  then obtain db' where d: "insert_assets wid as ?d2 = Inr db'"
    "\<forall>b\<in>set as. worker_version_assets db' (wid, da_Path b) = Some (da_ETag b, da_ContentType b)"
    "\<forall>k. k \<notin> Pair wid ` da_Path ` set as \<longrightarrow> worker_version_assets db' k = worker_version_assets ?d2 k"
    "\<forall>e x. worker_assets ?d2 e = Some x \<longrightarrow> worker_assets db' e = Some x"
    "\<forall>b\<in>set as. worker_assets db' (da_ETag b) \<noteq> None"
    using Cons.IH [of ?d2] Cons.prems(1) by auto
  have "(wid, da_Path a) \<notin> Pair wid ` da_Path ` set as" using Cons.prems(1) by auto
  then have "worker_version_assets db' (wid, da_Path a) = Some (da_ETag a, da_ContentType a)" using d(3) by simp
  moreover have "worker_assets db' (da_ETag a) \<noteq> None" using d(4) by (auto split: if_splits)
  moreover have "worker_assets db' e = Some x" if "worker_assets db e = Some x" for e x
  proof -
    have "worker_assets ?d2 e = Some x" using that by auto
    then show ?thesis using d(4) by blast
  qed
  moreover have "\<forall>k. k \<notin> Pair wid ` da_Path ` set (a # as) \<longrightarrow> worker_version_assets db' k = worker_version_assets db k"
    using d(3) by auto
  ultimately show ?case unfolding step using d(1,2,5) by auto
qed simp

text \<open>The contents are stored under their etag; the first content of an etag stays.\<close>

lemma insert_assets_contents:
  "insert_assets wid as db = Inr db' \<Longrightarrow> worker_assets db' e =
     (case worker_assets db e of Some x \<Rightarrow> Some x
      | None \<Rightarrow> map_option (\<lambda>a. (da_Content a, da_Size a)) (find (\<lambda>a. da_ETag a = e) as))"
  by (induction wid as db rule: insert_assets.induct) (auto simp: Let_def split: if_splits option.splits)

definition digests :: "(bytes \<Rightarrow> bytes) \<Rightarrow> worker_tables \<Rightarrow> bool" where
  "digests sha db \<longleftrightarrow> (\<forall>e c n. worker_assets db e = Some (c, n) \<longrightarrow> e = hex_EncodeToString (sha c) \<and> n = int (length c))"

lemma stored_contents:
  assumes st: "\<forall>e. worker_assets db' e = (case worker_assets db e of Some x \<Rightarrow> Some x
      | None \<Rightarrow> map_option (\<lambda>a. (da_Content a, da_Size a)) (find (\<lambda>a. da_ETag a = e) as))"
    and db: "digests sha db"
    and as: "\<forall>a\<in>set as. da_ETag a = hex_EncodeToString (sha (da_Content a)) \<and> da_Size a = int (length (da_Content a))"
  shows "digests sha db' \<and> (inj_on (\<lambda>c. hex_EncodeToString (sha c)) ({c. \<exists>e n. worker_assets db e = Some (c, n)} \<union> da_Content ` set as) \<longrightarrow>
      (\<forall>a\<in>set as. worker_assets db' (da_ETag a) = Some (da_Content a, da_Size a)))"
proof -
  have from_as: "\<exists>a\<in>set as. da_ETag a = e \<and> x = (da_Content a, da_Size a)"
    if "worker_assets db' e = Some x" "worker_assets db e = None" for e x
    using that st by (auto simp: find_Some_iff set_conv_nth)
  have dig: "e = hex_EncodeToString (sha c) \<and> n = int (length c)" if "worker_assets db' e = Some (c, n)" for e c n
  proof (cases "worker_assets db e")
    case None
    then show ?thesis using from_as [OF that] as by auto
  next
    case (Some x)
    then have "worker_assets db e = Some (c, n)" using that st by simp
    then show ?thesis using db unfolding digests_def by blast
  qed
  have own: "worker_assets db' (da_ETag a) = Some (da_Content a, da_Size a)"
    if inj: "inj_on (\<lambda>c. hex_EncodeToString (sha c)) ({c. \<exists>e n. worker_assets db e = Some (c, n)} \<union> da_Content ` set as)"
      and a: "a \<in> set as" for a
  proof -
    have "find (\<lambda>b. da_ETag b = da_ETag a) as \<noteq> None" using a by (simp add: find_None_iff) blast
    then have "worker_assets db' (da_ETag a) \<noteq> None" using st by (simp split: option.splits)
    then obtain c n where c: "worker_assets db' (da_ETag a) = Some (c, n)" by auto
    have "c \<in> {c. \<exists>e n. worker_assets db e = Some (c, n)} \<union> da_Content ` set as"
    proof (cases "worker_assets db (da_ETag a)")
      case None
      then show ?thesis using from_as [OF c] by auto
    next
      case (Some x)
      then have "worker_assets db (da_ETag a) = Some (c, n)" using c st by simp
      then show ?thesis by blast
    qed
    moreover have "hex_EncodeToString (sha c) = hex_EncodeToString (sha (da_Content a))" using dig [OF c] as a by simp
    ultimately have "c = da_Content a" using inj_onD [OF inj] a by blast
    then show ?thesis using c dig [OF c] as a by simp
  qed
  show ?thesis using dig own unfolding digests_def by blast
qed

section \<open>Properties\<close>

text \<open>
  The key under which workerd stores the Durable Objects of a class determines the class and
  the identifier of the worker, but not the worker: \<open>workerCapnpID\<close> drops hyphens and
  underscores and capitalises what follows them, so names that only differ in their separators, or
  in the case of a letter after one, share all their objects.
\<close>

theorem durable_object_unique_keys:
  "(durableObjectUniqueKey w c = durableObjectUniqueKey w' c' \<longleftrightarrow> workerCapnpID w = workerCapnpID w' \<and> c = c') \<and>
   validWorkerName ''my-worker'' \<and> validWorkerName ''my_worker'' \<and> ''my-worker'' \<noteq> ''my_worker'' \<and>
   durableObjectUniqueKey ''my-worker'' c = durableObjectUniqueKey ''my_worker'' c"
  unfolding unique_key_parts by (simp add: validWorkerName_def workerCapnpID_def Let_def)

lemma normalizeWorkerAssetPath_idem:
  assumes "normalizeWorkerAssetPath path = Inr r"
  shows "normalizeWorkerAssetPath r = Inr r"
proof -
  obtain t where t: "r = CHR ''/'' # t" "t \<noteq> []" "CHR 0x5c \<notin> set r" "\<not> is_space (last r)"
    using normalizeWorkerAssetPath_parts [OF assms] by metis
  have m: "map (\<lambda>c. if c = CHR 0x5c then CHR ''/'' else c) r = r" using t(3) by (auto intro!: map_idI)
  have "TrimSpace r = r" using t by (intro TrimSpace_id) (auto simp: is_space_slash)
  moreover have "''/'' @ TrimPrefix r ''/'' = r" by (simp add: t(1) TrimPrefix_def)
  moreover have "\<not> (r = ''/'' \<or> Contains r ''/../'' \<or> HasSuffix r ''/..'' \<or> Contains r ''/./'' \<or> HasSuffix r ''/.'')"
    using assms by (auto simp: normalizeWorkerAssetPath_def Let_def split: if_splits)
  ultimately show ?thesis unfolding normalizeWorkerAssetPath_def Let_def m by (simp only: if_False)
qed

text \<open>
  An asset path that the deploy accepts is absolute, names something, has no backslash, ends
  in no space, and none of its segments is \<open>.\<close> or \<open>..\<close>, so that it cannot leave the
  directory of the worker's assets; normalising it again changes nothing. The check made when the
  configuration is written is stricter: it also refuses two dots inside a name, so a deploy that was
  accepted with such an asset fails there.
\<close>

theorem asset_path_safe:
  assumes "normalizeWorkerAssetPath path = Inr r"
  shows "(\<exists>t. r = CHR ''/'' # t \<and> t \<noteq> []) \<and> CHR 0x5c \<notin> set r \<and> \<not> is_space (last r) \<and>
      ''.'' \<notin> set (tl (segments r)) \<and> ''..'' \<notin> set (tl (segments r)) \<and>
      normalizeWorkerAssetPath r = Inr r \<and>
      normalizeWorkerAssetPath ''/a..b'' = Inr ''/a..b'' \<and> \<not> asset_path_ok ''/a..b''"
proof -
  have "normalizeWorkerAssetPath ''/a..b'' = Inr ''/a..b''" "\<not> asset_path_ok ''/a..b''"
    by (simp_all add: normalizeWorkerAssetPath_def TrimSpace_def TrimPrefix_def is_space_def HasSuffix_def asset_path_ok_def)
  then show ?thesis using normalizeWorkerAssetPath_parts [OF assms] normalizeWorkerAssetPath_idem [OF assms] by metis
qed

theorem asset_path_safe_witness:
  "''..'' \<notin> set (tl (segments ''/a/b''))"
  using asset_path_safe [of "CHR ''a'' # CHR 0x5c # ''b ''" "''/a/b''"]
  by (simp add: normalizeWorkerAssetPath_def TrimSpace_def TrimPrefix_def is_space_def HasSuffix_def)

text \<open>
  C27. What a deploy that parses holds: the request has exactly one metadata part and one script
  part, and no other parts than those and the assets. The script is the body of the script part,
  not empty and within the size limit; the compatibility date and the bindings are those of the
  metadata, with their defaults. There is one asset for every asset of the metadata and every asset
  part, in order: with the normalised path and the content type of the metadata, the body of the
  part with the same index, within the size limit, its digest, which is the etag the metadata gives
  unless that is empty, and its length, which is the size the metadata gives unless that is zero; and
  no two assets share a path.
\<close>

theorem parsed_deploy:
  assumes "parseMultipartWorkerDeployRequest unmarshal json_valid sha parts = Inr d"
  shows "\<exists>body md. bodies ''metadata'' parts = [body] \<and> unmarshal body = Inr md \<and>
    bodies ''script'' parts = [dr_Script d] \<and> fst ` set parts \<subseteq> {''script'', ''metadata'', ''asset''} \<and>
    dr_Script d \<noteq> [] \<and> length (dr_Script d) \<le> maxWorkerScriptSize \<and>
    dr_CompatDate d = (if md_CompatDate md = [] then ''2024-01-01'' else md_CompatDate md) \<and>
    dr_Bindings d = (if md_Bindings md = ''null'' then [] else md_Bindings md) \<and>
    length (dr_Assets d) = length (md_Assets md) \<and> length (bodies ''asset'' parts) = length (md_Assets md) \<and>
    (\<forall>c\<in>set (bodies ''asset'' parts). length c \<le> maxWorkerAssetSize) \<and> distinct (map da_Path (dr_Assets d)) \<and>
    (\<forall>i<length (md_Assets md). case (md_Assets md ! i, bodies ''asset'' parts ! i, dr_Assets d ! i) of (meta, content, a) \<Rightarrow>
       normalizeWorkerAssetPath (dm_Path meta) = Inr (da_Path a) \<and> da_ContentType a = dm_ContentType meta \<and>
       da_Content a = content \<and> da_ETag a = hex_EncodeToString (sha content) \<and> da_Size a = int (length content) \<and>
       (dm_ETag meta = [] \<or> dm_ETag meta = da_ETag a) \<and> (dm_Size meta = 0 \<or> dm_Size meta = da_Size a))"
proof -
  obtain st where st: "parts_loop unmarshal json_valid \<lparr>mp_script = None, mp_metadata = None, mp_assets = []\<rparr> parts = Inr st"
    using assms unfolding parseMultipartWorkerDeployRequest_def by (auto simp: res_simps)
  obtain md where md: "mp_metadata st = Some md"
    using assms unfolding parseMultipartWorkerDeployRequest_def st by (cases "mp_metadata st") simp_all
  obtain s where s: "mp_script st = Some s"
    using assms unfolding parseMultipartWorkerDeployRequest_def st by (cases "mp_script st") (simp_all add: md)
  have len: "length (mp_assets st) = length (md_Assets md)"
    using assms unfolding parseMultipartWorkerDeployRequest_def st by (simp add: md s split: if_split_asm)
  obtain as where p: "assets_loop sha (md_Assets md) (mp_assets st) [] = Inr as"
      "dr_Script d = s" "dr_Assets d = as" "dr_CompatDate d = (if md_CompatDate md = [] then ''2024-01-01'' else md_CompatDate md)"
      "dr_Bindings d = (if md_Bindings md = ''null'' then [] else md_Bindings md)"
    using assms unfolding parseMultipartWorkerDeployRequest_def st by (auto simp: md s len res_simps)
  have parts: "bodies ''script'' parts = [s]" "map unmarshal (bodies ''metadata'' parts) = [Inr md]"
    "mp_assets st = bodies ''asset'' parts" "fst ` set parts \<subseteq> {''script'', ''metadata'', ''asset''}"
    using parts_loop_collects [OF st] s md by simp_all
  obtain body where "bodies ''metadata'' parts = [body]" "unmarshal body = Inr md" using parts(2) by auto
  moreover have "parts_ok st" using parts_loop_ok [OF st] by (simp add: parts_ok_def)
  moreover note assets_loop_correct [OF p(1) len [symmetric]]
  ultimately show ?thesis using p(2-5) s len parts unfolding parts_ok_def asset_of_def by simp metis
qed

theorem parsed_deploy_witness:
  "\<exists>d. parseMultipartWorkerDeployRequest (\<lambda>_. Inr \<lparr>md_CompatDate = [], md_Bindings = [],
      md_Assets = [\<lparr>dm_Path = ''a.txt'', dm_ContentType = [], dm_ETag = ''12'', dm_Size = 1\<rparr>]\<rparr>) (\<lambda>_. True) (\<lambda>x. x)
      [(''script'', [1]), (''metadata'', [2]), (''asset'', [18])] = Inr d \<and> [[1]] = [dr_Script d] \<and>
      map da_ETag (dr_Assets d) = [''12'']"
proof -
  let ?d = "\<lparr>dr_Script = [1], dr_CompatDate = ''2024-01-01'', dr_Bindings = [],
    dr_Assets = [\<lparr>da_Path = ''/a.txt'', da_ContentType = [], da_Content = [18], da_ETag = ''12'', da_Size = 1\<rparr>]\<rparr>"
  have e: "parseMultipartWorkerDeployRequest (\<lambda>_. Inr \<lparr>md_CompatDate = [], md_Bindings = [],
      md_Assets = [\<lparr>dm_Path = ''a.txt'', dm_ContentType = [], dm_ETag = ''12'', dm_Size = 1\<rparr>]\<rparr>) (\<lambda>_. True) (\<lambda>x. x)
      [(''script'', [1]), (''metadata'', [2]), (''asset'', [18])] = Inr ?d"
    by (simp add: parseMultipartWorkerDeployRequest_def part_step_def readLimited_def readLimitedAllowEmpty_def
      maxWorkerScriptSize_def maxWorkerAssetSize_def normalizeWorkerAssetPath_def TrimSpace_def TrimPrefix_def is_space_def
      HasSuffix_def hex_EncodeToString_def hexdigit_def)
  have "bodies ''script'' [(''script'', [1]), (''metadata'', [2]), (''asset'', [18])] = [dr_Script ?d]"
    using parsed_deploy [OF e] by blast
  then have "[[1]] = [dr_Script ?d]" by (simp add: bodies_def)
  then show ?thesis using e by (intro exI [of _ ?d]) simp
qed

text \<open>
  C26. A deploy with a fresh row identifier succeeds and gives the worker a version greater than
  every earlier one; it keeps the rows and assets of every other version, and the unique indexes.
  Every asset of the new version is found by its path, with its etag and content type. The contents
  stored before stay, and an etag that had none gets the content and size of the first asset with
  it. So when the etags are the digests of the contents, as a parsed deploy has them, they stay so,
  and every asset's own content is stored under its etag unless two different contents have the same
  digest.
\<close>

theorem InsertDeploy_correct:
  assumes ok: "tables_ok db" and fresh: "rowid \<notin> wv_id ` set (worker_versions db)"
    and none: "\<forall>p. worker_version_assets db (rowid, p) = None"
    and dist: "distinct (map da_Path (dr_Assets deploy))"
  shows "\<exists>version row db'. InsertDeploy rowid name deploy db = Inr (version, db') \<and> tables_ok db' \<and>
    worker_versions db' = row # worker_versions db \<and> wv_id row = rowid \<and> wv_worker_name row = name \<and>
    wv_version row = version \<and> wv_script row = dr_Script deploy \<and> wv_compat_date row = dr_CompatDate deploy \<and>
    wv_bindings row = (if dr_Bindings deploy = [] then None else Some (dr_Bindings deploy)) \<and>
    (\<forall>r\<in>set (worker_versions db). wv_worker_name r = name \<longrightarrow> wv_version r < version) \<and>
    (\<forall>a\<in>set (dr_Assets deploy). worker_version_assets db' (rowid, da_Path a) = Some (da_ETag a, da_ContentType a)) \<and>
    (\<forall>wid p. wid \<noteq> rowid \<longrightarrow> worker_version_assets db' (wid, p) = worker_version_assets db (wid, p)) \<and>
    (\<forall>e. worker_assets db' e = (case worker_assets db e of Some x \<Rightarrow> Some x
       | None \<Rightarrow> map_option (\<lambda>a. (da_Content a, da_Size a)) (find (\<lambda>a. da_ETag a = e) (dr_Assets deploy)))) \<and>
    (digests sha db \<and> (\<forall>a\<in>set (dr_Assets deploy). da_ETag a = hex_EncodeToString (sha (da_Content a)) \<and>
         da_Size a = int (length (da_Content a))) \<longrightarrow>
       digests sha db' \<and>
       (inj_on (\<lambda>c. hex_EncodeToString (sha c)) ({c. \<exists>e n. worker_assets db e = Some (c, n)} \<union> da_Content ` set (dr_Assets deploy)) \<longrightarrow>
         (\<forall>a\<in>set (dr_Assets deploy). worker_assets db' (da_ETag a) = Some (da_Content a, da_Size a))))"
proof -
  define version where "version = max_version db name + 1"
  define row where "row = \<lparr>wv_id = rowid, wv_worker_name = name, wv_version = version, wv_script = dr_Script deploy,
    wv_compat_date = dr_CompatDate deploy,
    wv_bindings = (if dr_Bindings deploy = [] then None else Some (dr_Bindings deploy))\<rparr>"
  define db1 where "db1 = db\<lparr>worker_versions := row # worker_versions db\<rparr>"
  have lt: "wv_version r < version" if "r \<in> set (worker_versions db)" "wv_worker_name r = name" for r
    using max_version_ge [OF that] by (simp add: version_def max_version_def)
  then have nv: "(name, version) \<notin> (\<lambda>r. (wv_worker_name r, wv_version r)) ` set (worker_versions db)" by force
  obtain db' where d: "insert_assets rowid (dr_Assets deploy) db1 = Inr db'"
     "\<forall>a\<in>set (dr_Assets deploy). worker_version_assets db' (rowid, da_Path a) = Some (da_ETag a, da_ContentType a)"
     "\<forall>k. k \<notin> Pair rowid ` da_Path ` set (dr_Assets deploy) \<longrightarrow> worker_version_assets db' k = worker_version_assets db1 k"
    using insert_assets_succeeds [OF dist, of db1 rowid] none by (auto simp: db1_def)
  have vs: "worker_versions db' = row # worker_versions db" using insert_assets_versions [OF d(1)] by (simp add: db1_def)
  have run: "InsertDeploy rowid name deploy db = Inr (version, db')"
    using fresh nv d(1) by (simp add: InsertDeploy_def Let_def version_def [symmetric] row_def [symmetric] db1_def [symmetric])
  have "tables_ok db'" using ok fresh nv unfolding tables_ok_def vs by (simp add: row_def)
  moreover have "\<forall>wid p. wid \<noteq> rowid \<longrightarrow> worker_version_assets db' (wid, p) = worker_version_assets db (wid, p)"
    using d(3) by (auto simp: db1_def)
  moreover have contents: "\<forall>e. worker_assets db' e = (case worker_assets db e of Some x \<Rightarrow> Some x
       | None \<Rightarrow> map_option (\<lambda>a. (da_Content a, da_Size a)) (find (\<lambda>a. da_ETag a = e) (dr_Assets deploy)))"
    using insert_assets_contents [OF d(1)] by (simp add: db1_def)
  moreover note stored_contents [OF contents, of sha]
  moreover have "wv_id row = rowid \<and> wv_worker_name row = name \<and> wv_version row = version \<and> wv_script row = dr_Script deploy \<and>
      wv_compat_date row = dr_CompatDate deploy \<and> wv_bindings row = (if dr_Bindings deploy = [] then None else Some (dr_Bindings deploy))"
    by (simp add: row_def)
  ultimately show ?thesis using run vs lt d(2) by blast
qed

theorem InsertDeploy_correct_witness:
  "\<exists>v db'. InsertDeploy 7 ''w'' \<lparr>dr_Script = [1], dr_CompatDate = ''d'', dr_Bindings = [],
        dr_Assets = [\<lparr>da_Path = ''/a'', da_ContentType = ''t'', da_Content = [18], da_ETag = ''12'', da_Size = 1\<rparr>]\<rparr>
      \<lparr>worker_versions = [], worker_assets = Map.empty, worker_version_assets = Map.empty\<rparr> = Inr (v, db') \<and>
      worker_assets db' ''12'' = Some ([18], 1)"
proof -
  let ?a = "\<lparr>da_Path = ''/a'', da_ContentType = ''t'', da_Content = [18], da_ETag = ''12'', da_Size = 1\<rparr>"
  let ?d = "\<lparr>dr_Script = [1], dr_CompatDate = ''d'', dr_Bindings = [], dr_Assets = [?a]\<rparr>"
  let ?db = "\<lparr>worker_versions = [], worker_assets = Map.empty, worker_version_assets = Map.empty\<rparr>"
  have "digests (\<lambda>x. x) ?db" by (simp add: digests_def)
  moreover have "\<forall>a\<in>set (dr_Assets ?d). da_ETag a = hex_EncodeToString (da_Content a) \<and> da_Size a = int (length (da_Content a))"
    by (simp add: hex_EncodeToString_def hexdigit_def)
  ultimately show ?thesis
    using InsertDeploy_correct [of ?db 7 ?d "''w''" "\<lambda>x. x"] by (simp add: tables_ok_def) blast
qed

end
