(* ===== verification/Actor_Registry.thy ===== *)
theory Actor_Registry
  imports Actor_Storage Workers
begin

text \<open>
  The registry of actors, \<open>pkg/sql/actor_registry.go\<close>: \<open>ensureActorExists\<close> reads the row
  of an actor in \<open>system.actors\<close>, and creates it in a transaction when it is missing. Calls on
  different nodes interleave between the two; each transaction is one step (serializable
  isolation), may fail before or after it commits, and the read may fail as well. The table has the
  primary key \<open>(tenant_id, actor_name)\<close> and a unique index on \<open>(tenant_id, actor_hash)\<close>
  (\<open>systemschema/system.go\<close>). \<open>crdb_internal.delete_actor\<close> of
  \<open>pkg/sql/sem/builtins/builtins.go\<close> deletes the data and the row of an actor in one
  transaction, at any moment; a call that has returned without error is followed by the writes it
  was made for. The second part is the check of actor-scoped SQL of
  \<open>pkg/server/actorstorage/sql.go\<close>.
\<close>

section \<open>One call\<close>

type_synonym actor_rows = "((uint64 \<times> bytes) \<times> bytes) list"

definition hash_mismatch :: go_err where "hash_mismatch = Err ''actor hash mismatch in registry''"
definition hash_collision :: go_err where "hash_collision = Err ''actor collides with an existing actor hash''"
definition not_found :: go_err where "not_found = Err ''actor not found after creation''"

text \<open>\<open>INSERT ... ON CONFLICT (tenant_id, actor_name) DO NOTHING\<close>\<close>

definition insert_actor :: "uint64 \<Rightarrow> bytes \<Rightarrow> bytes \<Rightarrow> actor_rows \<Rightarrow> actor_rows res" where
  "insert_actor t name h rows =
     (if map_of rows (t, name) \<noteq> None then Inr rows
      else if list_ex (\<lambda>((t', _), h'). t' = t \<and> h' = h) rows then Inl hash_collision
      else Inr (((t, name), h) # rows))"

text \<open>The check of a row that was read; \<open>None\<close> when there is no row.\<close>

definition check_row :: "bytes \<Rightarrow> bytes option \<Rightarrow> unit res option" where
  "check_row h row = (case row of None \<Rightarrow> None
     | Some storedHash \<Rightarrow> Some (if storedHash \<noteq> h then Inl hash_mismatch else Inr ()))"

definition ensure_fast :: "(bytes \<Rightarrow> bytes) \<Rightarrow> uint64 \<Rightarrow> bytes \<Rightarrow> actor_rows \<Rightarrow> unit res option" where
  "ensure_fast sha t name rows = check_row (ActorHash sha name) (map_of rows (t, name))"

definition ensure_txn :: "(bytes \<Rightarrow> bytes) \<Rightarrow> uint64 \<Rightarrow> bytes \<Rightarrow> actor_rows \<Rightarrow> unit res \<times> actor_rows" where
  "ensure_txn sha t name rows =
     (case insert_actor t name (ActorHash sha name) rows of
        Inl e \<Rightarrow> (Inl e, rows)
      | Inr rows' \<Rightarrow>
          (case check_row (ActorHash sha name) (map_of rows' (t, name)) of
             None \<Rightarrow> (Inl not_found, rows)
           | Some (Inl e) \<Rightarrow> (Inl e, rows)
           | Some (Inr u) \<Rightarrow> (Inr u, rows')))"

definition ensureActorExists :: "(bytes \<Rightarrow> bytes) \<Rightarrow> uint64 \<Rightarrow> bytes \<Rightarrow> actor_rows \<Rightarrow> unit res \<times> actor_rows" where
  "ensureActorExists sha t actorName rows =
     (if actorName = [] then (Inr (), rows)
      else case ensure_fast sha t actorName rows of
        Some r \<Rightarrow> (r, rows)
      | None \<Rightarrow> ensure_txn sha t actorName rows)"

text \<open>
  \<open>crdb_internal.delete_actor\<close>: the keys under the prefix of the actor are deleted, then its row;
  the result says whether there was one. Both belong to the transaction of the statement.
\<close>

definition delete_actor :: "bool \<Rightarrow> (bytes \<Rightarrow> bytes) \<Rightarrow> TenantID \<Rightarrow> bytes \<Rightarrow> kv \<Rightarrow> actor_rows \<Rightarrow> (bool \<times> kv \<times> actor_rows) res" where
  "delete_actor hasTxn sha tenantID actorName data rows =
     (if \<not> hasTxn then Inl (Err ''delete_actor requires an active transaction'')
      else res_bind (MakeTenantPrefix tenantID) (\<lambda>tenantPrefix.
        let actorPrefix = MakeActorPrefix sha tenantPrefix actorName;
            row = map_of rows (InternalValue tenantID, actorName)
        in Inr (row \<noteq> None, kv_del_range actorPrefix (PrefixEnd actorPrefix) data,
                filter (\<lambda>(k, h). k \<noteq> (InternalValue tenantID, actorName)) rows)))"

section \<open>Interleaved calls\<close>

datatype call_state = Checking | Creating | Returned "unit res"

record registry =
  reg_rows :: actor_rows
  reg_calls :: "((uint64 \<times> bytes) \<times> call_state) list"
  reg_data :: kv

definition set_call :: "nat \<Rightarrow> call_state \<Rightarrow> registry \<Rightarrow> registry" where
  "set_call i c g = g\<lparr>reg_calls := (reg_calls g)[i := (fst (reg_calls g ! i), c)]\<rparr>"

inductive registry_step :: "(bytes \<Rightarrow> bytes) \<Rightarrow> registry \<Rightarrow> registry \<Rightarrow> bool" for sha where
  start: "registry_step sha g (g\<lparr>reg_calls := reg_calls g @ [((t, name), if name = [] then Returned (Inr ()) else Checking)]\<rparr>)"
| check_hit: "i < length (reg_calls g) \<Longrightarrow> reg_calls g ! i = ((t, name), Checking) \<Longrightarrow>
    ensure_fast sha t name (reg_rows g) = Some r \<Longrightarrow> registry_step sha g (set_call i (Returned r) g)"
| check_miss: "i < length (reg_calls g) \<Longrightarrow> reg_calls g ! i = ((t, name), Checking) \<Longrightarrow>
    ensure_fast sha t name (reg_rows g) = None \<Longrightarrow> registry_step sha g (set_call i Creating g)"
| create: "i < length (reg_calls g) \<Longrightarrow> reg_calls g ! i = ((t, name), Creating) \<Longrightarrow>
    ensure_txn sha t name (reg_rows g) = (r, rows') \<Longrightarrow>
    registry_step sha g (set_call i (Returned r) (g\<lparr>reg_rows := rows'\<rparr>))"
| fail: "i < length (reg_calls g) \<Longrightarrow> reg_calls g ! i = ((t, name), c) \<Longrightarrow> c = Checking \<or> c = Creating \<Longrightarrow>
    e \<noteq> hash_mismatch \<Longrightarrow> e \<noteq> hash_collision \<Longrightarrow> e \<noteq> not_found \<Longrightarrow>
    registry_step sha g (set_call i (Returned (Inl e)) g)"
| ambiguous: "i < length (reg_calls g) \<Longrightarrow> reg_calls g ! i = ((t, name), Creating) \<Longrightarrow>
    ensure_txn sha t name (reg_rows g) = (Inr (), rows') \<Longrightarrow>
    e \<noteq> hash_mismatch \<Longrightarrow> e \<noteq> hash_collision \<Longrightarrow> e \<noteq> not_found \<Longrightarrow>
    registry_step sha g (set_call i (Returned (Inl e)) (g\<lparr>reg_rows := rows'\<rparr>))"

| emit: "((t, name), Returned (Inr ())) \<in> set (reg_calls g) \<Longrightarrow> name \<noteq> [] \<Longrightarrow>
    MakeTenantPrefix \<lparr>InternalValue = t\<rparr> = Inr tp \<Longrightarrow>
    registry_step sha g (g\<lparr>reg_data := kv_insert (MakeActorPrefix sha tp name @ r) v (reg_data g)\<rparr>)"
| delete: "delete_actor True sha t name (reg_data g) (reg_rows g) = Inr (found, data', rows') \<Longrightarrow>
    registry_step sha g (g\<lparr>reg_data := data', reg_rows := rows'\<rparr>)"

inductive registry_reach :: "(bytes \<Rightarrow> bytes) \<Rightarrow> registry \<Rightarrow> bool" for sha where
  init: "registry_reach sha \<lparr>reg_rows = [], reg_calls = [], reg_data = []\<rparr>"
| step: "registry_reach sha g \<Longrightarrow> registry_step sha g g' \<Longrightarrow> registry_reach sha g'"

section \<open>Invariant\<close>

definition rows_inv :: "(bytes \<Rightarrow> bytes) \<Rightarrow> actor_rows \<Rightarrow> bool" where
  "rows_inv sha rows \<longleftrightarrow> distinct (map fst rows) \<and> distinct (map (\<lambda>((t, name), h). (t, h)) rows) \<and>
     (\<forall>((t, name), h) \<in> set rows. h = ActorHash sha name \<and> name \<noteq> [])"

definition collides :: "(bytes \<Rightarrow> bytes) \<Rightarrow> actor_rows \<Rightarrow> uint64 \<Rightarrow> bytes \<Rightarrow> bool" where
  "collides sha rows t name \<longleftrightarrow> (\<exists>name'. map_of rows (t, name') = Some (ActorHash sha name) \<and> name' \<noteq> name)"

text \<open>What a call knows about its own return.\<close>

definition call_ok :: "(uint64 \<times> bytes) \<times> call_state \<Rightarrow> bool" where
  "call_ok tc = (case tc of ((t, name), c) \<Rightarrow> (c \<noteq> Returned (Inr ()) \<longrightarrow> name \<noteq> []) \<and>
     c \<noteq> Returned (Inl hash_mismatch) \<and> c \<noteq> Returned (Inl not_found))"

definition calls_inv :: "registry \<Rightarrow> bool" where
  "calls_inv g \<longleftrightarrow> (\<forall>tc \<in> set (reg_calls g). call_ok tc)"

text \<open>Every key of the data belongs to an actor for which a call has returned without error.\<close>

definition data_inv :: "(bytes \<Rightarrow> bytes) \<Rightarrow> registry \<Rightarrow> bool" where
  "data_inv sha g \<longleftrightarrow> (\<forall>k \<in> fst ` set (reg_data g). \<exists>t name tp r. ((t, name), Returned (Inr ())) \<in> set (reg_calls g) \<and>
     name \<noteq> [] \<and> MakeTenantPrefix \<lparr>InternalValue = t\<rparr> = Inr tp \<and> k = MakeActorPrefix sha tp name @ r)"


text \<open>The steps a call still has to make, and those it makes in a sequence of states.\<close>

fun steps_left :: "call_state \<Rightarrow> nat" where
  "steps_left Checking = 2"
| "steps_left Creating = 1"
| "steps_left (Returned r) = 0"

fun own_steps :: "nat \<Rightarrow> registry list \<Rightarrow> nat" where
  "own_steps i (g # g' # gs) = (if reg_calls g' ! i \<noteq> reg_calls g ! i then 1 else 0) + own_steps i (g' # gs)"
| "own_steps i gs = 0"

lemma rows_inv_lookup: "rows_inv sha rows \<Longrightarrow> map_of rows (t, name) = Some h \<Longrightarrow> h = ActorHash sha name \<and> name \<noteq> []"
  using map_of_SomeD unfolding rows_inv_def by fastforce

lemma ensure_fast_inv:
  "rows_inv sha rows \<Longrightarrow> ensure_fast sha t name rows =
     (if map_of rows (t, name) = None then None else Some (Inr ()))"
  using rows_inv_lookup [of sha rows t name] by (auto simp: ensure_fast_def check_row_def split: option.splits)

text \<open>The transaction, under the invariant: it creates the row, finds it, or reports a collision.\<close>

lemma ensure_txn_inv:
  assumes "rows_inv sha rows" "name \<noteq> []"
  shows "ensure_txn sha t name rows =
    (if map_of rows (t, name) \<noteq> None then (Inr (), rows)
     else if collides sha rows t name then (Inl hash_collision, rows)
     else (Inr (), ((t, name), ActorHash sha name) # rows))"
proof -
  have d: "distinct (map fst rows)" using assms(1) by (simp add: rows_inv_def)
  have "list_ex (\<lambda>((t', _), h'). t' = t \<and> h' = ActorHash sha name) rows \<longleftrightarrow>
      (\<exists>name'. map_of rows (t, name') = Some (ActorHash sha name))"
    using d by (force simp: list_ex_iff)
  then have "map_of rows (t, name) = None \<Longrightarrow>
      list_ex (\<lambda>((t', _), h'). t' = t \<and> h' = ActorHash sha name) rows \<longleftrightarrow> collides sha rows t name"
    unfolding collides_def by auto
  then show ?thesis using rows_inv_lookup [OF assms(1), of t name]
    by (auto simp: ensure_txn_def insert_actor_def check_row_def)
qed

lemma rows_inv_insert:
  assumes "rows_inv sha rows" "name \<noteq> []" "map_of rows (t, name) = None" "\<not> collides sha rows t name"
  shows "rows_inv sha (((t, name), ActorHash sha name) # rows)"
proof -
  have d: "distinct (map fst rows)" using assms(1) by (simp add: rows_inv_def)
  have "(t, name) \<notin> fst ` set rows" using assms(3) by (simp add: map_of_eq_None_iff)
  moreover have "(t, ActorHash sha name) \<notin> (\<lambda>((t, name), h). (t, h)) ` set rows"
  proof
    assume "(t, ActorHash sha name) \<in> (\<lambda>((t, name), h). (t, h)) ` set rows"
    then obtain n' where "((t, n'), ActorHash sha name) \<in> set rows" by auto
    then have "map_of rows (t, n') = Some (ActorHash sha name)" using d by simp
    then show False using assms(3,4) unfolding collides_def by (cases "n' = name") auto
  qed
  ultimately show ?thesis using assms(1,2) by (auto simp: rows_inv_def)
qed

lemma error_distinct: "hash_mismatch \<noteq> hash_collision" "hash_collision \<noteq> hash_mismatch" "not_found \<noteq> hash_collision" "hash_collision \<noteq> not_found"
  by (simp_all add: hash_mismatch_def hash_collision_def not_found_def)

text \<open>The transaction keeps the invariant of the table and only adds rows.\<close>

lemma ensure_txn_rows:
  assumes "rows_inv sha rows" "name \<noteq> []" "ensure_txn sha t name rows = (r, rows')"
  shows "rows_inv sha rows' \<and> map_of rows \<subseteq>\<^sub>m map_of rows' \<and> r \<noteq> Inl hash_mismatch \<and> r \<noteq> Inl not_found \<and>
    (r = Inr () \<longrightarrow> map_of rows' (t, name) \<noteq> None) \<and> (r = Inl hash_collision \<longrightarrow> collides sha rows t name)"
proof -
  consider (hit) "map_of rows (t, name) \<noteq> None" | (col) "map_of rows (t, name) = None" "collides sha rows t name"
    | (new) "map_of rows (t, name) = None" "\<not> collides sha rows t name" by blast
  then show ?thesis
  proof cases
    case hit
    then show ?thesis using assms ensure_txn_inv [OF assms(1,2), of t] by auto
  next
    case col
    then show ?thesis using assms ensure_txn_inv [OF assms(1,2), of t] error_distinct by auto
  next
    case new
    then have r: "r = Inr ()" "rows' = ((t, name), ActorHash sha name) # rows"
      using assms(3) ensure_txn_inv [OF assms(1,2), of t] by simp_all
    have "map_of rows \<subseteq>\<^sub>m map_of rows'" using new(1) by (auto simp: r map_le_def)
    then show ?thesis using rows_inv_insert [OF assms(1,2) new] by (simp add: r)
  qed
qed

text \<open>A deletion removes one row and the keys under the prefix of its actor.\<close>

lemma delete_actor_eq:
  assumes "delete_actor True sha t name data rows = Inr (found, data', rows')"
  obtains tp where "MakeTenantPrefix t = Inr tp" "found \<longleftrightarrow> map_of rows (InternalValue t, name) \<noteq> None"
    "rows' = filter (\<lambda>(k, h). k \<noteq> (InternalValue t, name)) rows"
    "data' = filter (\<lambda>(k, v). \<nexists>r. k = MakeActorPrefix sha tp name @ r) data"
proof -
  obtain tp where tp: "MakeTenantPrefix t = Inr tp" and f: "found \<longleftrightarrow> map_of rows (InternalValue t, name) \<noteq> None"
    and r: "rows' = filter (\<lambda>(k, h). k \<noteq> (InternalValue t, name)) rows"
    and d: "data' = kv_del_range (MakeActorPrefix sha tp name) (PrefixEnd (MakeActorPrefix sha tp name)) data"
    using assms by (cases "MakeTenantPrefix t") (auto simp: delete_actor_def Let_def)
  have "MakeActorPrefix sha tp name \<le> k \<and> k < PrefixEnd (MakeActorPrefix sha tp name) \<longleftrightarrow>
      (\<exists>r. k = MakeActorPrefix sha tp name @ r)" for k
    unfolding MakeActorPrefix_eq by (rule PrefixEnd_range [OF actor_key_not_maximal])
  then have "data' = filter (\<lambda>(k, v). \<nexists>r. k = MakeActorPrefix sha tp name @ r) data"
    unfolding d kv_del_range_def by simp
  then show thesis using that tp f r by blast
qed

lemma rows_inv_filter: "rows_inv sha rows \<Longrightarrow> rows_inv sha (filter P rows)"
  by (auto simp: rows_inv_def distinct_map_filter)

definition registry_inv :: "(bytes \<Rightarrow> bytes) \<Rightarrow> registry \<Rightarrow> bool" where
  "registry_inv sha g \<longleftrightarrow> rows_inv sha (reg_rows g) \<and> calls_inv g \<and> data_inv sha g"

lemma pending_name:
  assumes "calls_inv g" "i < length (reg_calls g)" "reg_calls g ! i = ((t, name), c)" "c \<noteq> Returned (Inr ())"
  shows "name \<noteq> []"
proof -
  have "call_ok (reg_calls g ! i)" using assms(1,2) nth_mem unfolding calls_inv_def by blast
  then show ?thesis using assms(3,4) by (simp add: call_ok_def)
qed

lemma set_call_simps [simp]: "reg_rows (set_call i c g) = reg_rows g" "reg_data (set_call i c g) = reg_data g"
  by (simp_all add: set_call_def)

lemma set_call_calls_inv:
  "calls_inv g \<Longrightarrow> call_ok (fst (reg_calls g ! i), c) \<Longrightarrow> calls_inv (set_call i c (g\<lparr>reg_rows := rows'\<rparr>))"
  using set_update_subset_insert [of "reg_calls g" i "(fst (reg_calls g ! i), c)"] by (auto simp: calls_inv_def set_call_def)

text \<open>A call that has not returned is not one that the data rests on.\<close>

lemma set_call_data_inv:
  assumes inv: "data_inv sha g" and i: "i < length (reg_calls g)" "reg_calls g ! i = (k, c)" "c \<noteq> Returned (Inr ())"
  shows "data_inv sha (set_call i c' (g\<lparr>reg_rows := rows'\<rparr>))"
proof -
  have "(k', Returned (Inr ())) \<in> set ((reg_calls g)[i := (fst (reg_calls g ! i), c')])"
    if k': "(k', Returned (Inr ())) \<in> set (reg_calls g)" for k'
  proof -
    obtain j where j: "j < length (reg_calls g)" "reg_calls g ! j = (k', Returned (Inr ()))"
      using k' unfolding in_set_conv_nth by blast
    then have "j \<noteq> i" using i(2,3) by auto
    then show ?thesis using j by (metis length_list_update nth_list_update_neq nth_mem)
  qed
  then show ?thesis using inv unfolding data_inv_def by (simp add: set_call_def) blast
qed

lemma set_call_inv:
  assumes "registry_inv sha g" "i < length (reg_calls g)" "reg_calls g ! i = ((t, name), c)" "c \<noteq> Returned (Inr ())"
    and "rows_inv sha rows'" "c' \<noteq> Returned (Inl hash_mismatch)" "c' \<noteq> Returned (Inl not_found)"
  shows "registry_inv sha (set_call i c' (g\<lparr>reg_rows := rows'\<rparr>))"
proof -
  have "call_ok (fst (reg_calls g ! i), c')" using assms pending_name [OF _ assms(2,3,4)]
    by (simp add: call_ok_def registry_inv_def)
  then show ?thesis using assms(1,5) set_call_calls_inv set_call_data_inv [OF _ assms(2,3,4)]
    by (simp add: registry_inv_def)
qed

lemma registry_step_inv: "registry_step sha g g' \<Longrightarrow> registry_inv sha g \<Longrightarrow> registry_inv sha g'"
proof (induction rule: registry_step.induct)
  case (start g t name)
  let ?c = "((t, name), if name = [] then Returned (Inr ()) else Checking)"
  have "call_ok ?c" by (simp add: call_ok_def)
  then have "calls_inv (g\<lparr>reg_calls := reg_calls g @ [?c]\<rparr>)" using start by (simp add: registry_inv_def calls_inv_def)
  moreover have "data_inv sha (g\<lparr>reg_calls := reg_calls g @ [?c]\<rparr>)" using start
    by (simp add: registry_inv_def data_inv_def) blast
  ultimately show ?case using start by (simp add: registry_inv_def)
next
  case (check_hit i g t name r)
  then have rows: "rows_inv sha (reg_rows g)" by (simp add: registry_inv_def)
  have "r = Inr ()" using check_hit(3) ensure_fast_inv [OF rows, of t name] by (simp split: if_splits)
  then show ?case using set_call_inv [OF check_hit(4,1,2) _ rows, of "Returned r"] by simp
next
  case (check_miss i g t name)
  then have "rows_inv sha (reg_rows g)" by (simp add: registry_inv_def)
  then show ?case using set_call_inv [OF check_miss(4,1,2) _ _, of "reg_rows g" Creating] by simp
next
  case (create i g t name r rows')
  then have rows: "rows_inv sha (reg_rows g)" and n: "name \<noteq> []"
    using pending_name [OF _ create(1,2)] by (simp_all add: registry_inv_def)
  from ensure_txn_rows [OF rows n create(3)] show ?case
    using set_call_inv [OF create(4,1,2), of rows' "Returned r"] by simp
next
  case (fail i g t name c e)
  then have "rows_inv sha (reg_rows g)" by (simp add: registry_inv_def)
  then show ?case using fail set_call_inv [OF fail(7,1,2), of "reg_rows g" "Returned (Inl e)"] by auto
next
  case (ambiguous i g t name rows' e)
  then have rows: "rows_inv sha (reg_rows g)" and n: "name \<noteq> []"
    using pending_name [OF _ ambiguous(1,2)] by (simp_all add: registry_inv_def)
  from ensure_txn_rows [OF rows n ambiguous(3)] show ?case
    using ambiguous set_call_inv [OF ambiguous(7,1,2), of rows' "Returned (Inl e)"] by simp
next
  case (emit t name g tp r v)
  have "set (map fst (kv_insert (MakeActorPrefix sha tp name @ r) v (reg_data g))) =
      insert (MakeActorPrefix sha tp name @ r) (fst ` set (reg_data g))" using set_kv_insert by simp
  then show ?case using emit unfolding registry_inv_def calls_inv_def data_inv_def by simp blast
next
  case (delete t name g found data' rows')
  obtain tp where "rows' = filter (\<lambda>(k, h). k \<noteq> (InternalValue t, name)) (reg_rows g)"
    "data' = filter (\<lambda>(k, v). \<nexists>r. k = MakeActorPrefix sha tp name @ r) (reg_data g)"
    using delete_actor_eq [OF delete(1)] by blast
  then show ?case using delete(2) rows_inv_filter unfolding registry_inv_def calls_inv_def data_inv_def by fastforce
qed

lemma registry_reach_inv: "registry_reach sha g \<Longrightarrow> registry_inv sha g"
proof (induction rule: registry_reach.induct)
  case init
  show ?case by (simp add: registry_inv_def rows_inv_def calls_inv_def data_inv_def)
qed (rule registry_step_inv)




text \<open>A step leaves a call alone or brings it strictly closer to its return.\<close>

lemma registry_step_calls:
  assumes "registry_step sha g g'" "i < length (reg_calls g)"
  shows "i < length (reg_calls g') \<and> (reg_calls g' ! i = reg_calls g ! i \<or>
    fst (reg_calls g' ! i) = fst (reg_calls g ! i) \<and> steps_left (snd (reg_calls g' ! i)) < steps_left (snd (reg_calls g ! i)))"
  using assms by (cases rule: registry_step.cases) (auto simp: set_call_def nth_append nth_list_update)

lemma own_steps_bound:
  "successively (registry_step sha) (g # gs) \<Longrightarrow> i < length (reg_calls g) \<Longrightarrow>
   own_steps i (g # gs) + steps_left (snd (reg_calls (last (g # gs)) ! i)) \<le> steps_left (snd (reg_calls g ! i))"
proof (induction gs arbitrary: g)
  case (Cons g' gs)
  then have "registry_step sha g g'" by simp
  note step = registry_step_calls [OF this Cons.prems(2)]
  have "own_steps i (g' # gs) + steps_left (snd (reg_calls (last (g' # gs)) ! i)) \<le> steps_left (snd (reg_calls g' ! i))"
    by (rule Cons.IH) (use Cons.prems(1) step in simp_all)
  then show ?case using step by auto
qed simp

text \<open>A call that has not returned can make a step in every state.\<close>

lemma registry_step_enabled:
  assumes "i < length (reg_calls g)" "steps_left (snd (reg_calls g ! i)) > 0"
  shows "\<exists>g'. registry_step sha g g' \<and> steps_left (snd (reg_calls g' ! i)) < steps_left (snd (reg_calls g ! i))"
proof -
  obtain t n c where i: "reg_calls g ! i = ((t, n), c)" by (metis surj_pair)
  have upd: "snd (reg_calls (set_call i c' (g\<lparr>reg_rows := rows'\<rparr>)) ! i) = c'" for c' rows'
    using assms(1) by (simp add: set_call_def)
  consider "c = Checking" | "c = Creating" using assms(2) i by (cases c) simp_all
  then show ?thesis
  proof cases
    case 1
    show ?thesis
    proof (cases "ensure_fast sha t n (reg_rows g)")
      case None
      then show ?thesis using registry_step.check_miss [OF assms(1) _ None] upd [of Creating "reg_rows g"] i 1 by fastforce
    next
      case (Some r)
      then show ?thesis using registry_step.check_hit [OF assms(1) _ Some] upd [of "Returned r" "reg_rows g"] i 1 by fastforce
    qed
  next
    case 2
    obtain r rows' where "ensure_txn sha t n (reg_rows g) = (r, rows')" by fastforce
    then show ?thesis using registry_step.create [OF assms(1), of t n sha r rows'] upd [of "Returned r" rows'] i 2 by fastforce
  qed
qed

section \<open>Actor-scoped SQL\<close>

definition ascii_lower :: "char \<Rightarrow> char" where
  "ascii_lower c = (let n = of_char c :: nat in if 65 \<le> n \<and> n \<le> 90 then char_of (n + 32) else c)"

text \<open>\<open>strings.Fields\<close>: the maximal runs of characters that are not white space.\<close>

fun fields_loop :: "string \<Rightarrow> string \<Rightarrow> string list" where
  "fields_loop [] cur = (if cur = [] then [] else [rev cur])"
| "fields_loop (c # cs) cur =
     (if is_space c then (if cur = [] then fields_loop cs [] else rev cur # fields_loop cs [])
      else fields_loop cs (c # cur))"

definition Fields :: "string \<Rightarrow> string list" where
  "Fields s = fields_loop s []"

fun Join :: "string list \<Rightarrow> string \<Rightarrow> string" where
  "Join [] sep = []"
| "Join [x] sep = x"
| "Join (x # y # xs) sep = x @ sep @ Join (y # xs) sep"

definition sql_normalized :: "string \<Rightarrow> string" where
  "sql_normalized sql = Join (Fields (map ascii_lower sql)) '' ''"

definition ValidateActorSQLScope :: "string \<Rightarrow> unit res" where
  "ValidateActorSQLScope sql =
     (let normalized = sql_normalized sql;
          scopedPredicate = Contains normalized ''actor_id = $1'';
          scopedInsert = Contains normalized ''(actor_id,'' \<and>
            (Contains normalized ''values ($1,'' \<or> Contains normalized ''values($1,'')
      in if \<not> scopedPredicate \<and> \<not> scopedInsert then Inl (Err ''actor SQL must bind actor scope with $1'')
         else Inr ())"

text \<open>
  The parser and \<open>tree.CanModifySchema\<close> are arguments; the parser returns the syntax trees of
  the statements.
\<close>

definition newline :: char where "newline = CHR 0x0A"

definition ValidateActorSQL :: "(string \<Rightarrow> 'stmt list res) \<Rightarrow> ('stmt \<Rightarrow> bool) \<Rightarrow> string \<Rightarrow> unit res" where
  "ValidateActorSQL parse canModifySchema sql =
     res_bind (parse sql) (\<lambda>stmts.
       if list_ex canModifySchema stmts then Inl (Err ''DDL is not allowed in Durable Object actor scope'') else Inr ())"

lemma sql_normalized_examples:
  "ValidateActorSQLScope ''SELECT v FROM t WHERE actor_id =  $1'' = Inr ()"
  "ValidateActorSQLScope ''SELECT v FROM t WHERE actor_id=$1'' = Inl (Err ''actor SQL must bind actor scope with $1'')"
  by (simp_all add: ValidateActorSQLScope_def sql_normalized_def Fields_def ascii_lower_def is_space_def Let_def)

lemma fields_loop_append: "\<exists>P c. \<forall>ys. fields_loop (xs @ ys) cur = P @ fields_loop ys c"
proof (induction xs arbitrary: cur)
  case Nil
  show ?case by (rule exI [of _ "[]"]) auto
next
  case (Cons x xs)
  consider "is_space x \<and> cur = []" | "is_space x \<and> cur \<noteq> []" | "\<not> is_space x" by blast
  then show ?case
  proof cases
    case 2
    obtain P c where "\<forall>ys. fields_loop (xs @ ys) [] = P @ fields_loop ys c" using Cons.IH by blast
    then have "\<forall>ys. fields_loop ((x # xs) @ ys) cur = (rev cur # P) @ fields_loop ys c" using 2 by simp
    then show ?thesis by blast
  qed (use Cons.IH in simp_all)
qed

lemma fields_loop_token: "cur \<noteq> [] \<Longrightarrow> \<exists>t R. fields_loop ys cur = (rev cur @ t) # R"
proof (induction ys arbitrary: cur)
  case (Cons y ys)
  show ?case
  proof (cases "is_space y")
    case False
    then show ?thesis using Cons.IH [of "y # cur"] by auto
  qed (use Cons.prems in auto)
qed simp

lemma Join_append: "xs \<noteq> [] \<Longrightarrow> ys \<noteq> [] \<Longrightarrow> Join (xs @ ys) sep = Join xs sep @ sep @ Join ys sep"
proof (induction xs sep rule: Join.induct)
  case (2 x sep)
  then show ?case by (cases ys) simp_all
qed simp_all

lemma Join_Cons: "\<exists>T. Join (x # xs) sep = x @ T"
  by (cases xs) simp_all

text \<open>Three adjacent fields show up in the normalised text, whatever surrounds them.\<close>

lemma Join_three: "\<exists>a b. Join (P @ (u @ x) # y # (z @ w) # R) sep = a @ (x @ sep @ y @ sep @ z) @ b"
proof -
  obtain T where "Join ((z @ w) # R) sep = (z @ w) @ T" using Join_Cons by blast
  then have J: "Join ((u @ x) # y # (z @ w) # R) sep = u @ (x @ sep @ y @ sep @ z) @ w @ T" by simp
  show ?thesis
  proof (cases "P = []")
    case False
    then show ?thesis using J Join_append [of P "(u @ x) # y # (z @ w) # R" sep] by (metis append.assoc list.distinct(1))
  qed (use J in auto)
qed

lemma scope_text_accepted: "ValidateActorSQLScope (pre @ ''actor_id = $1'' @ post) = Inr ()"
proof -
  obtain P c where P: "\<forall>ys. fields_loop (map ascii_lower pre @ ys) [] = P @ fields_loop ys c"
    using fields_loop_append by blast
  obtain t R where R: "fields_loop (map ascii_lower post) ''1$'' = (''$1'' @ t) # R"
    using fields_loop_token [of "''1$''" "map ascii_lower post"] by auto
  have "Fields (map ascii_lower (pre @ ''actor_id = $1'' @ post)) = P @ (rev c @ ''actor_id'') # ''='' # (''$1'' @ t) # R"
    using R by (simp add: Fields_def P ascii_lower_def is_space_def)
  then have "\<exists>a b. sql_normalized (pre @ ''actor_id = $1'' @ post) = a @ (''actor_id'' @ '' '' @ ''='' @ '' '' @ ''$1'') @ b"
    unfolding sql_normalized_def using Join_three [of P "rev c" "''actor_id''" "''=''" "''$1''" t R "'' ''"] by simp
  then have "Contains (sql_normalized (pre @ ''actor_id = $1'' @ post)) ''actor_id = $1''" by (simp add: Contains_iff)
  then show ?thesis by (simp add: ValidateActorSQLScope_def Let_def)
qed

section \<open>Properties\<close>


text \<open>
  The actor \<open>[7]\<close> of the system tenant is registered by a call, which returns. What can follow:
  its deletion, and after that the write the call was made for.
\<close>

lemma registered_state:
  fixes sha defines "g1 \<equiv> \<lparr>reg_rows = [((1, [7]), ActorHash sha [7])], reg_calls = [((1, [7]), Returned (Inr ()))], reg_data = []\<rparr>"
  shows "registry_reach sha g1"
proof -
  let ?g0 = "\<lparr>reg_rows = [], reg_calls = [], reg_data = []\<rparr>"
  let ?ga = "\<lparr>reg_rows = [], reg_calls = [((1 :: uint64, [7] :: bytes), Checking)], reg_data = []\<rparr>"
  let ?gb = "\<lparr>reg_rows = [], reg_calls = [((1 :: uint64, [7] :: bytes), Creating)], reg_data = []\<rparr>"
  have "registry_step sha ?g0 ?ga" using registry_step.start [of sha ?g0 1 "[7]"] by simp
  moreover have "registry_step sha ?ga ?gb"
    using registry_step.check_miss [of 0 ?ga 1 "[7]" sha] by (simp add: set_call_def ensure_fast_def check_row_def)
  moreover have "registry_step sha ?gb g1"
    using registry_step.create [of 0 ?gb 1 "[7]" sha "Inr ()" "[((1, [7]), ActorHash sha [7])]"]
    by (simp add: set_call_def ensure_txn_def insert_actor_def check_row_def g1_def)
  ultimately show ?thesis using registry_reach.intros by metis
qed

text \<open>
  The row is not the only source of truth: after a deletion between the call and its write, data
  exists for an actor that is not registered.
\<close>

lemma orphaned_actor_data:
  "\<exists>g. registry_reach sha g \<and> reg_rows g = [] \<and> reg_data g = [(MakeActorPrefix sha [] [7], v)]"
proof -
  let ?g1 = "\<lparr>reg_rows = [((1, [7]), ActorHash sha [7])], reg_calls = [((1, [7]), Returned (Inr ()))], reg_data = []\<rparr>"
  let ?g2 = "?g1\<lparr>reg_rows := []\<rparr>"
  have "registry_step sha ?g1 ?g2"
    using registry_step.delete [of sha SystemTenantID "[7]" ?g1 True "[]" "[]"]
    by (simp add: delete_actor_def MakeTenantPrefix_def SystemTenantID_def kv_del_range_def Let_def)
  moreover have "registry_step sha ?g2 (?g2\<lparr>reg_data := [(MakeActorPrefix sha [] [7], v)]\<rparr>)"
    using registry_step.emit [of 1 "[7]" ?g2 "[]" sha "[]" v] by (simp add: MakeTenantPrefix_def SystemTenantID_def)
  ultimately have "registry_reach sha (?g2\<lparr>reg_data := [(MakeActorPrefix sha [] [7], v)]\<rparr>)"
    using registered_state registry_reach.step by metis
  then show ?thesis by fastforce
qed



text \<open>
  C29. A call that is not disturbed returns without error, and its actor is registered, unless
  another actor of its tenant has its hash, which it reports without changing the table; calling it
  again changes nothing. In every execution, whatever the other calls, the deletions and the
  failures do in between, a call makes at most two steps of its own before it returns, and as long
  as it has not returned it can make one.
\<close>

theorem ensureActorExists_correct:
  assumes reach: "registry_reach sha g"
  shows "(case ensureActorExists sha m x (reg_rows g) of (r, rows) \<Rightarrow>
     (if x \<noteq> [] \<and> map_of (reg_rows g) (m, x) = None \<and> collides sha (reg_rows g) m x
      then r = Inl hash_collision \<and> rows = reg_rows g
      else r = Inr () \<and> (x \<noteq> [] \<longrightarrow> map_of rows (m, x) = Some (ActorHash sha x)) \<and>
        ensureActorExists sha m x rows = (Inr (), rows))) \<and>
    (\<forall>gs i. successively (registry_step sha) (g # gs) \<longrightarrow> i < length (reg_calls g) \<longrightarrow>
      own_steps i (g # gs) + steps_left (snd (reg_calls (last (g # gs)) ! i)) \<le> steps_left (snd (reg_calls g ! i)) \<and>
      steps_left (snd (reg_calls g ! i)) \<le> 2) \<and>
    (\<forall>i < length (reg_calls g). snd (reg_calls g ! i) \<notin> range Returned \<longrightarrow>
      (\<exists>g'. registry_step sha g g' \<and> steps_left (snd (reg_calls g' ! i)) < steps_left (snd (reg_calls g ! i))))"
proof -
  have rows: "rows_inv sha (reg_rows g)" using registry_reach_inv [OF reach] by (simp add: registry_inv_def)
  have *: "map_of (reg_rows g) (m, x) = Some (ActorHash sha x)" if "map_of (reg_rows g) (m, x) \<noteq> None"
    using that rows_inv_lookup [OF rows] by auto
  have call: "case ensureActorExists sha m x (reg_rows g) of (r, rows) \<Rightarrow>
     (if x \<noteq> [] \<and> map_of (reg_rows g) (m, x) = None \<and> collides sha (reg_rows g) m x
      then r = Inl hash_collision \<and> rows = reg_rows g
      else r = Inr () \<and> (x \<noteq> [] \<longrightarrow> map_of rows (m, x) = Some (ActorHash sha x)) \<and>
        ensureActorExists sha m x rows = (Inr (), rows))"
    using * ensure_fast_inv [OF rows, of m x] ensure_txn_inv [OF rows, of x m]
    by (auto simp: ensureActorExists_def ensure_fast_def check_row_def)
  have two: "steps_left c \<le> 2" for c by (cases c) simp_all
  have "steps_left c > 0" if "c \<notin> range Returned" for c using that by (cases c) auto
  then show ?thesis using call own_steps_bound two registry_step_enabled by blast
qed

theorem ensureActorExists_correct_witness:
  "fst (ensureActorExists (\<lambda>x. x) 1 [7] (reg_rows \<lparr>reg_rows = [], reg_calls = [], reg_data = []\<rparr>)) = Inr ()"
proof -
  let ?g = "\<lparr>reg_rows = [], reg_calls = [], reg_data = []\<rparr>"
  have c: "\<not> collides (\<lambda>x. x) (reg_rows ?g) 1 [7]" by (simp add: collides_def)
  from conjunct1 [OF ensureActorExists_correct [OF registry_reach.init [of "\<lambda>x. x"], where m = 1 and x = "[7]"]] c
  show ?thesis by (auto split: prod.splits if_splits)
qed

text \<open>
  C30. The check that actor-scoped SQL binds its scope accepts every text that has the characters
  \<open>actor_id = $1\<close> anywhere, whatever stands before and after them. So it restricts nothing: if
  the parser skips a comment on a line after the statement, then for every statement that is not a
  schema change, bound to its actor or not, there is a text that parses to the same statement and
  passes both checks.
\<close>

theorem actor_sql_scope_unsound:
  assumes comments: "\<forall>sql stmts c. parse sql = Inr stmts \<longrightarrow> newline \<notin> set c \<longrightarrow> parse (sql @ [newline] @ ''--'' @ c) = Inr stmts"
    and sql: "parse sql = Inr stmts" "\<not> list_ex canModifySchema stmts"
  shows "(\<forall>pre post. ValidateActorSQLScope (pre @ ''actor_id = $1'' @ post) = Inr ()) \<and>
    (\<exists>sql'. parse sql' = parse sql \<and> ValidateActorSQL parse canModifySchema sql' = Inr () \<and> ValidateActorSQLScope sql' = Inr ())"
proof -
  let ?s = "sql @ [newline] @ ''--'' @ ''actor_id = $1''"
  have "parse ?s = Inr stmts" using comments [rule_format, OF sql(1), of "''actor_id = $1''"] by (simp add: newline_def)
  moreover have "ValidateActorSQLScope ?s = Inr ()"
    using scope_text_accepted [of "sql @ [newline] @ ''--''" "[]"] by simp
  moreover have "ValidateActorSQL parse canModifySchema ?s = Inr ()" using calculation(1) sql(2) by (simp add: ValidateActorSQL_def)
  ultimately have "parse ?s = parse sql \<and> ValidateActorSQL parse canModifySchema ?s = Inr () \<and> ValidateActorSQLScope ?s = Inr ()"
    using sql(1) by simp
  then show ?thesis using scope_text_accepted by blast
qed

theorem actor_sql_scope_unsound_witness:
  "\<exists>sql'. filter (\<lambda>c. c \<noteq> newline) (takeWhile (\<lambda>c. c \<noteq> CHR ''-'') sql') = ''SELECT v FROM t'' \<and> ValidateActorSQLScope sql' = Inr ()"
proof -
  let ?parse = "\<lambda>s. Inr [filter (\<lambda>c. c \<noteq> newline) (takeWhile (\<lambda>c. c \<noteq> CHR ''-'') s)] :: string list res"
  have skip: "takeWhile (\<lambda>c. c \<noteq> CHR ''-'') (sql @ [newline] @ ''--'' @ c) =
      (if CHR ''-'' \<in> set sql then takeWhile (\<lambda>c. c \<noteq> CHR ''-'') sql else sql @ [newline])" for sql c :: string
    by (induction sql) (auto simp: newline_def)
  have id: "takeWhile (\<lambda>c. c \<noteq> CHR ''-'') sql = sql" if "CHR ''-'' \<notin> set sql" for sql :: string
    using that by (induction sql) auto
  have "?parse (sql @ [newline] @ ''--'' @ c) = ?parse sql" for sql c
    unfolding skip by (cases "CHR ''-'' \<in> set sql") (simp_all add: id)
  then have "\<forall>sql stmts c. ?parse sql = Inr stmts \<longrightarrow> newline \<notin> set c \<longrightarrow> ?parse (sql @ [newline] @ ''--'' @ c) = Inr stmts"
    by simp
  from actor_sql_scope_unsound [OF this, of "''SELECT v FROM t''" "[''SELECT v FROM t'']" "\<lambda>_. False"]
  show ?thesis by (simp add: newline_def) blast
qed

end
