(* ===== verification/Spec2Isabelle.thy ===== *)
theory Spec2Isabelle
  imports Resolve_Store Resolved_Timestamp Rangefeed_Filter Mvcc_Range_Key Conf_Change Txn Closedts_Tracker Scan_Results Local_Keys Actor_Registry
begin

text \<open>
  Ratel is a distributed SQL database derived from CockroachDB that also hosts workers (HTTP handlers run by
  \<open>workerd\<close>) and their Durable Objects: actors with storage of their own in the replicated key space. This
  development models the layers that decide which bytes are stored where, in which order and under which
  time, and the protocols above them whose correctness rests on ordering.

  \<^bold>\<open>The parts and how they interact.\<close> A request for a worker reaches a node (\<open>pkg/server/workerd_router.go\<close>), which
  picks the node of the worker by rendezvous hashing and forwards the request. The worker's actors call the storage
  service (\<open>pkg/server/actorstorage\<close>), which turns keys of an actor into keys of the actor's prefix (\<open>pkg/keys/sql.go\<close>) and
  runs them as transactions of the KV client; the actor is registered once in a system table
  (\<open>pkg/sql/actor_registry.go\<close>) and deleted by a builtin function (\<open>pkg/sql/sem/builtins/builtins.go\<close>). Keys are built by the ordered encodings (\<open>pkg/util/encoding\<close>), are versioned by
  hybrid logical timestamps (\<open>pkg/util/hlc\<close>, \<open>pkg/storage/mvcc_key.go\<close>) and are read back by scans
  (\<open>pkg/storage/pebble_mvcc_scanner.go\<close>). Ranges of keys are replicated under range descriptors that change by joint
  consensus (\<open>pkg/roachpb\<close>, \<open>pkg/kv/kvserver/replica_command.go\<close>); their closed timestamps and rangefeeds publish what
  may no longer change (\<open>pkg/kv/kvserver/closedts\<close>, \<open>pkg/kv/kvserver/rangefeed\<close>).

  \<^bold>\<open>Theories.\<close> Each theory models one part; an operation is a definition with the name of the Go function, a struct a
  record, an enumeration a datatype. A function that can fail or panic returns \<open>res\<close>: \<open>Inl (Err _)\<close> is a returned error,
  \<open>Inl (Panic _)\<close> a panic. Machine integers are \<open>word\<close>s where bits matter and \<open>int\<close> with the wrap-around written
  out elsewhere. Loops are recursive functions with termination proofs, but for the loop of a scan, which is a partial function
  that is shown to return; fuel appears only in \<open>PeekLength\<close> and in the path of a request through the nodes, and is shown to be enough.

  \<^item> \<open>Prelude\<close>: bytes, results, slices, the library functions used by the source (\<open>bytes.Compare\<close>, \<open>sort.Search\<close>, ...)
    and the lemmas the theories share. \<open>Key_Codec\<close>: the contract of an order-preserving key codec as locales; the
    encodings interpret them. \<open>Go_Heap\<close>: \<open>container/heap\<close> over the contract of its clients.
  \<^item> \<open>Encoding_Int\<close>, \<open>Encoding_Bytes\<close>, \<open>Encoding_Keys\<close> (\<open>pkg/util/encoding/encoding.go\<close>, \<open>decimal.go\<close>, time types): encoders and
    decoders of integers, byte strings, times and arrays, and \<open>PeekLength\<close>. Shown: round trips, order
    preservation, exact lengths, exactly which buffers decode.
  \<^item> \<open>Hlc_Timestamp\<close>, \<open>Hlc_Clock\<close> (\<open>pkg/util/hlc\<close>): timestamps and the clock. Shown: the total order, monotonicity and
    causality of the clock under every interleaving of its readers, the persisted upper bound and where it is not checked.
  \<^item> \<open>Keys\<close>, \<open>Roachpb_Span\<close>, \<open>Sql_Keys\<close>, \<open>Local_Keys\<close> (\<open>pkg/keys\<close>, \<open>pkg/keysbase\<close>, \<open>pkg/roachpb/data.go\<close>, \<open>merge_spans.go\<close>): successor and
    prefix-end keys, spans as sets of keys, tenant, actor, table, local and meta keys. Shown: keys of different
    actors and tenants never mix, addressing and meta lookups, merging and subtracting of spans.
  \<^item> \<open>Mvcc_Key\<close>, \<open>Mvcc_Range_Key\<close>, \<open>Mvcc_Meta\<close>, \<open>Scan_Results\<close> (\<open>pkg/storage\<close>, \<open>enginepb\<close>): versioned keys and the engine's comparator, range
    keys and their version stacks, statistics and intent histories, the result buffers of scans. Shown: the comparator
    sorts by user key and then by descending time, decoders invert encoders, stacks act as sets of versions, trimmed rows.
  \<^item> \<open>Mvcc_Value\<close> (\<open>pkg/storage/mvcc_value.go\<close>, \<open>pkg/kv/kvserver/uncertainty\<close>): versioned values, the local timestamps stored with them, and
    uncertainty intervals. Shown: round trips, and exactly which stored values are uncertain to which readers.
  \<^item> \<open>Mvcc_Scanner\<close>, \<open>Scanner_Reference\<close>, \<open>Scanner_Snapshot\<close> (\<open>pkg/storage/pebble_mvcc_scanner.go\<close>, \<open>mvcc.go\<close>): forward scans and gets of point
    keys over an iterator. Shown: a scan ends and agrees with a reference that has no iterator, whatever number of steps it
    takes before it seeks; a scan at a timestamp returns the newest visible versions, page by page.
  \<^item> \<open>Mvcc_Put\<close>, \<open>Put_Store\<close>, \<open>Put_Replay\<close>, \<open>Mvcc_Resolve\<close>, \<open>Resolve_Store\<close> (\<open>pkg/storage/mvcc.go\<close>): puts, deletes and conditional puts of a
    key, and the resolution of its intent. Shown: a put installs one version above all committed ones or changes nothing, a replay
    changes nothing, a commit makes the newest write that is left the newest version, an abort leaves the committed versions.
  \<^item> \<open>Txn\<close> (\<open>pkg/roachpb/data.go\<close>): transaction records, merging of two copies, restarts, refreshes, ignored sequence numbers.
  \<^item> \<open>Replicas\<close>, \<open>Conf_Change\<close> (\<open>pkg/roachpb/metadata*.go\<close>, \<open>replica_command.go\<close>): replica sets, descriptors and replication
    changes. Shown: availability is a joint majority, and quorums before and after an accepted change intersect.
  \<^item> \<open>Closedts_Tracker\<close> (\<open>closedts/tracker/lockfree_tracker.go\<close>): the lock-free tracker as a step relation over its atomic
    operations. Shown: its lower bound is safe under every interleaving, and a lone call ends.
  \<^item> \<open>Range_Group\<close>, \<open>Rangefeed_Filter\<close> (\<open>pkg/util/interval\<close>, \<open>rangefeed/filter.go\<close>): the bucketed list of ranges as a set of keys, and its
    client. \<open>Intent_Queue\<close>, \<open>Resolved_Timestamp\<close> (\<open>rangefeed/resolved_timestamp.go\<close>): the queue of unresolved transactions
    as a map with its oldest entry, and the resolved timestamp over sequences of events.
  \<^item> \<open>Worker_Router\<close>, \<open>Workers\<close>, \<open>Actor_Storage\<close>, \<open>Actor_Registry\<close> (\<open>pkg/server\<close>, \<open>pkg/sql/actor_registry.go\<close>): routing, deploys, the storage
    service of Durable Objects and the registry of actors. Shown: the service refines one map per actor, actors are isolated,
    concurrent registrations and deletions keep one row per hash, calls end, requests reach one node; a deploy stores what it was sent.

  \<^bold>\<open>Interfaces.\<close> The contracts between parts are locales, each interpreted on the definitions of the model: key codecs, the KV
  client behind the storage service, quorum systems, range groups, and clients of the heap. Code outside of the repository
  appears as an argument: SHA-256, the SQL parser, the random draw of priorities, UUIDs, the marshalling of value headers and metadata,
  the lock table and the memory account of a scan.

  \<^bold>\<open>Concurrency.\<close> The clock, the lock-free tracker and the actor registry are step relations whose steps are the atomic
  operations of the code (a critical section, an atomic instruction, a committed statement); their invariants hold in
  every reachable state.

  \<^bold>\<open>Not modelled.\<close> The SQL layer (parser, optimizer, execution, generated vectorized operators), which is two thirds of the
  code and mostly generated or plumbing; the Pebble engine, its iterators and batches, reverse scans,
  range keys in scans and writes, statistics of writes, Raft, gossip, networking, jobs, backup,
  the HTTP server and its user interface; the processes of \<open>workerd\<close>, their configuration text and sockets; encodings of
  decimals, floats, durations, geometries and bit arrays as keys, and value encodings; the concurrency manager, lock
  table, latches and timestamp cache; the interval trees; formatting, logging, tracing, metrics and memory accounting.
  The reasons are in the manifest of the components: third-party code, input and output, floating point, or size.
\<close>

end
